(* ===== verification/Prelude.thy ===== *)
theory Prelude
  imports Main "HOL-Library.Word" "HOL-Library.Monad_Syntax"
begin

text \<open>
  Shared ground of the development: the C scalar types, memory buffers with
  bounds-checked access, byte order, wide-character text, and the lemma collections
  the component theories use.

  Conventions. A C object of bytes is a \<^typ>\<open>8 word list\<close>; reading or writing
  outside it is undefined in C and is the value \<^term>\<open>None\<close> here, so that every
  definition that touches memory says by its type whether it can go out of bounds, and
  "returns \<open>Some\<close>" is a memory-safety claim. Lengths and offsets that the code
  keeps in an \<open>int\<close> and that are never negative are \<^typ>\<open>nat\<close>; those that can be
  negative are \<^typ>\<open>int\<close>. Values whose width matters are words. The target (SH-4 under
  Windows CE) is little-endian with 32-bit \<open>int\<close> and \<open>unsigned long\<close>.
\<close>

unbundle bit_operations_syntax

type_synonym byte = "8 word"
type_synonym u16 = "16 word"
type_synonym u32 = "32 word"
type_synonym wchar = "16 word"

named_theorems mem_defs "definitions of the bounds-checked memory accesses"
named_theorems mem_some "when a memory access or a sequence of them succeeds"

section \<open>Bounds-checked memory\<close>

definition rd8 :: "byte list \<Rightarrow> nat \<Rightarrow> byte option" where
  "rd8 m i = (if i < length m then Some (m ! i) else None)"

definition rd_block :: "byte list \<Rightarrow> nat \<Rightarrow> nat \<Rightarrow> byte list option" where
  "rd_block m i n = (if i + n \<le> length m then Some (take n (drop i m)) else None)"

definition wr_block :: "byte list \<Rightarrow> nat \<Rightarrow> byte list \<Rightarrow> byte list option" where
  "wr_block m i xs =
     (if i + length xs \<le> length m
      then Some (take i m @ xs @ drop (i + length xs) m) else None)"

abbreviation wr8 :: "byte list \<Rightarrow> nat \<Rightarrow> byte \<Rightarrow> byte list option" where
  "wr8 m i x \<equiv> wr_block m i [x]"

lemmas [mem_defs] = rd8_def rd_block_def wr_block_def

lemma rd8_eq_Some [mem_some]: "rd8 m i = Some x \<longleftrightarrow> i < length m \<and> x = m ! i"
  by (auto simp: rd8_def)

lemma rd_block_eq_Some [mem_some]:
  "rd_block m i n = Some xs \<longleftrightarrow> i + n \<le> length m \<and> xs = take n (drop i m)"
  by (auto simp: rd_block_def)

lemma wr_block_eq_Some [mem_some]:
  "wr_block m i xs = Some m' \<longleftrightarrow>
     i + length xs \<le> length m \<and> m' = take i m @ xs @ drop (i + length xs) m"
  by (auto simp: wr_block_def)

lemmas [mem_some] = bind_eq_Some_conv

lemma length_wr_block: "wr_block m i xs = Some m' \<Longrightarrow> length m' = length m"
  by (auto simp: wr_block_def split: if_splits)

lemma wr_block_bound: "wr_block m i xs = Some m' \<Longrightarrow> length m' = length m \<and> i + length xs \<le> length m"
  by (auto simp: wr_block_def split: if_splits)

lemma length_rd_block: "rd_block m i n = Some xs \<Longrightarrow> length xs = n"
  by (auto simp: rd_block_def split: if_splits)

lemma rd8_in_range [simp]: "i < length m \<Longrightarrow> rd8 m i = Some (m ! i)"
  by (simp add: rd8_def)

lemma rd_block_in_range [simp]: "i + n \<le> length m \<Longrightarrow> rd_block m i n = Some (take n (drop i m))"
  by (simp add: rd_block_def)

lemma wr_block_in_range [simp]:
  "i + length xs \<le> length m \<Longrightarrow>
     wr_block m i xs = Some (take i m @ xs @ drop (i + length xs) m)"
  by (simp add: wr_block_def)

lemma rd_block_wr_block:
  "wr_block m i xs = Some m' \<Longrightarrow> length xs = n \<Longrightarrow> rd_block m' i n = Some xs"
  by (auto simp: mem_some)

lemma nth_rd_block: "rd_block m i n = Some xs \<Longrightarrow> k < n \<Longrightarrow> xs ! k = m ! (i + k)"
  by (auto simp: rd_block_def split: if_splits)

lemma wr_block_same: "rd_block m i n = Some xs \<Longrightarrow> wr_block m i xs = Some m"
  by (simp add: rd_block_def wr_block_def split: if_splits)
    (metis append_assoc append_take_drop_id drop_drop length_drop length_take min.absorb4 take_add
      min.absorb2 le_diff_conv2 add.commute add_leE)

lemma nth_wr_block:
  assumes "wr_block m i xs = Some m'" and "j < length m"
  shows "m' ! j = (if i \<le> j \<and> j < i + length xs then xs ! (j - i) else m ! j)"
  using assms by (auto simp: mem_some nth_append)

lemma rd_block_wr_other:
  assumes "wr_block m i xs = Some m'" and "j + n \<le> i \<or> i + length xs \<le> j"
  shows "rd_block m' j n = rd_block m j n"
proof (cases "j + n \<le> length m")
  case True
  have len: "length m' = length m" using assms(1) by (rule length_wr_block)
  have "take n (drop j m') = take n (drop j m)"
  proof (rule nth_equalityI)
    show "length (take n (drop j m')) = length (take n (drop j m))" by (simp add: len)
  next
    fix k assume "k < length (take n (drop j m'))"
    then show "take n (drop j m') ! k = take n (drop j m) ! k"
      using assms True len by (auto simp: nth_wr_block [OF assms(1)])
  qed
  with True len show ?thesis by simp
next
  case False
  with length_wr_block [OF assms(1)] show ?thesis by (simp add: rd_block_def)
qed

lemma rd_block_wr_sub:
  assumes "wr_block m i xs = Some m'" and "i \<le> j" and "j + k \<le> i + length xs"
  shows "rd_block m' j k = Some (take k (drop (j - i) xs))"
proof -
  have "take k (drop j m') = take k (drop (j - i) xs)"
    using assms by (auto simp: wr_block_eq_Some drop_append)
  then show ?thesis using wr_block_bound [OF assms(1)] assms(3) by (simp add: rd_block_def)
qed

lemma rd_block_join:
  "rd_block m i a = Some xs \<Longrightarrow> rd_block m (i + a) b = Some ys \<Longrightarrow> rd_block m i (a + b) = Some (xs @ ys)"
  by (auto simp: rd_block_def take_add drop_drop add.commute split: if_splits)

text \<open>A \<open>memcpy\<close> between buffers at the same offset, read back in part.\<close>

lemma rd_block_copied:
  assumes "rd_block m i n = Some xs" and "wr_block m1 i xs = Some m2" and "i \<le> j" and "j + k \<le> i + n"
  shows "rd_block m2 j k = rd_block m j k"
proof -
  have len: "length xs = n" "i + n \<le> length m" "length m2 = length m1" "i + n \<le> length m1"
    using length_rd_block [OF assms(1)] wr_block_bound [OF assms(2)] assms(1)
    by (auto simp: rd_block_eq_Some)
  have "take k (drop j m2) = take k (drop j m)"
  proof (rule nth_equalityI)
    fix l assume "l < length (take k (drop j m2))"
    then show "take k (drop j m2) ! l = take k (drop j m) ! l"
      using assms(3,4) len nth_wr_block [OF assms(2), of "j + l"] nth_rd_block [OF assms(1), of "j + l - i"]
      by simp
  qed (use len assms(3,4) in simp)
  then show ?thesis using len assms(3,4) by (simp add: rd_block_def)
qed

section \<open>Byte order\<close>

text \<open>\<open>(p[0] << 8) | p[1]\<close>, the network-order 16-bit read the code spells out.\<close>

definition be16 :: "byte \<Rightarrow> byte \<Rightarrow> nat" where
  "be16 a b = 256 * unat a + unat b"

definition hi8 :: "nat \<Rightarrow> byte" where "hi8 n = word_of_nat (n div 256)"
definition lo8 :: "nat \<Rightarrow> byte" where "lo8 n = word_of_nat n"

lemma unat_byte_less [simp]: "unat (b :: byte) < 256"
  using unsigned_less [of b] by simp

lemma be16_less [simp]: "be16 a b < 65536"
  using unat_byte_less [of a] unat_byte_less [of b] unfolding be16_def by linarith

lemma unat_hi8 [simp]: "unat (hi8 n) = n div 256 mod 256"
  by (simp add: hi8_def unat_of_nat)

lemma unat_lo8 [simp]: "unat (lo8 n) = n mod 256"
  by (simp add: lo8_def unat_of_nat)

lemma be16_hi_lo [simp]: "n < 65536 \<Longrightarrow> be16 (hi8 n) (lo8 n) = n"
  by (simp add: be16_def)

lemma unat_u16_less: "unat (x :: u16) < 65536"
  using unsigned_less [of x] by simp

definition put16 :: "u16 \<Rightarrow> byte list" where
  "put16 c = [ucast (drop_bit 8 c), ucast c]"

lemma length_put16 [simp]: "length (put16 c) = 2"
  by (simp add: put16_def)

lemma be16_put16: "be16 (ucast (drop_bit 8 c)) (ucast c) = unat (c :: u16)"
proof -
  have "unat (ucast (drop_bit 8 c) :: byte) = unat c div 256"
  proof -
    have "unat (ucast (drop_bit 8 c) :: byte) = take_bit 8 (unat (drop_bit 8 c))"
      using unsigned_ucast_eq [of "drop_bit 8 c", where ?'a = nat and ?'c = 8] by simp
    also have "\<dots> = unat c div 256 mod 256"
      using unat_drop_bit_eq [of 8 c]
      by (simp add: take_bit_eq_mod drop_bit_eq_div [of 8 "unat c"])
    finally show ?thesis using unat_u16_less [of c] by (simp add: less_mult_imp_div_less)
  qed
  moreover have "unat (ucast c :: byte) = unat c mod 256"
  proof -
    have "unat (ucast c :: byte) = take_bit 8 (unat c)"
      using unsigned_ucast_eq [of c, where ?'a = nat and ?'c = 8] by simp
    then show ?thesis by (simp add: take_bit_eq_mod)
  qed
  ultimately show ?thesis by (simp add: be16_def)
qed

definition rd16be :: "byte list \<Rightarrow> nat \<Rightarrow> nat option" where
  "rd16be m i = do { a \<leftarrow> rd8 m i; b \<leftarrow> rd8 m (i + 1); Some (be16 a b) }"

lemma rd16be_eq_Some [mem_some]:
  "rd16be m i = Some v \<longleftrightarrow> i + 1 < length m \<and> v = be16 (m ! i) (m ! (i + 1))"
  by (auto simp: rd16be_def mem_some)

lemma rd16be_in_range [simp]:
  "i + 1 < length m \<Longrightarrow> rd16be m i = Some (be16 (m ! i) (m ! (i + 1)))"
  by (simp add: rd16be_def)

lemma rd16be_rd_block: "rd_block m i 2 = Some [a, b] \<Longrightarrow> rd16be m i = Some (be16 a b)"
  by (auto simp: rd_block_def rd16be_def rd8_def numeral_2_eq_2 take_Suc_conv_app_nth split: if_splits)

text \<open>
  \<open>memcpy\<close> between an \<open>unsigned long\<close> and bytes, on a little-endian machine: the
  address representation all of \<open>netif.c\<close> uses ("wire bytes in memory").
\<close>

definition le32 :: "byte list \<Rightarrow> u32" where
  "le32 bs = ucast (bs ! 0) OR push_bit 8 (ucast (bs ! 1))
     OR push_bit 16 (ucast (bs ! 2)) OR push_bit 24 (ucast (bs ! 3))"

definition le32_bytes :: "u32 \<Rightarrow> byte list" where
  "le32_bytes w = [ucast w, ucast (drop_bit 8 w), ucast (drop_bit 16 w), ucast (drop_bit 24 w)]"

lemma length_le32_bytes [simp]: "length (le32_bytes w) = 4"
  by (simp add: le32_bytes_def)

lemma le32_le32_bytes [simp]: "le32 (le32_bytes w) = w"
proof (rule bit_word_eqI)
  fix n assume "n < LENGTH(32)"
  then have "n < 8 \<or> 8 \<le> n \<and> n < 16 \<or> 16 \<le> n \<and> n < 24 \<or> 24 \<le> n \<and> n < 32" by auto
  then show "bit (le32 (le32_bytes w)) n \<longleftrightarrow> bit w n"
    by (elim disjE) (auto simp: le32_def le32_bytes_def bit_simps)
qed

lemma bit_byte_high: "8 \<le> n \<Longrightarrow> \<not> bit (b :: byte) n"
  using bit_imp_le_length [of b n] by auto

lemma le32_bytes_le32 [simp]:
  assumes "length bs = 4"
  shows "le32_bytes (le32 bs) = bs"
proof -
  obtain a b c d where bs: "bs = [a, b, c, d]"
    using assms by (auto simp: numeral_eq_Suc length_Suc_conv)
  show ?thesis
    unfolding bs le32_bytes_def le32_def
    by (auto intro!: bit_word_eqI simp: bit_simps bit_byte_high)
qed

definition rd32le :: "byte list \<Rightarrow> nat \<Rightarrow> u32 option" where
  "rd32le m i = do { bs \<leftarrow> rd_block m i 4; Some (le32 bs) }"

lemma rd32le_eq_Some [mem_some]:
  "rd32le m i = Some w \<longleftrightarrow> i + 4 \<le> length m \<and> w = le32 (take 4 (drop i m))"
  by (auto simp: rd32le_def mem_some)

lemma rd32le_in_range [simp]:
  "i + 4 \<le> length m \<Longrightarrow> rd32le m i = Some (le32 (take 4 (drop i m)))"
  by (simp add: rd32le_def)

section \<open>Wide-character text\<close>

definition ws :: "string \<Rightarrow> wchar list" where
  "ws s = map (\<lambda>c. of_nat (of_char c)) s"

text \<open>The part of a \<open>WCHAR\<close> array a C string function sees: up to the first 0.\<close>

definition cstr :: "wchar list \<Rightarrow> wchar list" where
  "cstr xs = takeWhile (\<lambda>c. c \<noteq> 0) xs"

lemma cstr_no_zero: "0 \<notin> set (cstr xs)"
  by (auto simp: cstr_def dest: set_takeWhileD)

lemma length_cstr_le: "length (cstr xs) \<le> length xs"
  by (simp add: cstr_def length_takeWhile_le)

lemma cstr_append_zero [simp]: "0 \<notin> set xs \<Longrightarrow> cstr (xs @ 0 # ys) = xs"
  by (induction xs) (auto simp: cstr_def)

lemmas mem_in_range = rd8_in_range rd_block_in_range wr_block_in_range rd16be_in_range rd32le_in_range

section \<open>Success of a sequence of fallible steps\<close>

text \<open>
  \<open>ok x P\<close>: the step does not fault and its result satisfies \<open>P\<close>. The rules in
  \<open>ok_intro\<close> walk through a \<open>do\<close> block from its start, one access at a time.
\<close>

named_theorems ok_intro "success of one memory access"

definition ok :: "'a option \<Rightarrow> ('a \<Rightarrow> bool) \<Rightarrow> bool" where
  "ok x P \<longleftrightarrow> (\<exists>y. x = Some y \<and> P y)"

lemma ok_Some [simp]: "ok (Some y) P \<longleftrightarrow> P y"
  by (simp add: ok_def)

lemma ok_None [simp]: "\<not> ok None P"
  by (simp add: ok_def)

lemma ok_bind [simp]: "ok (x \<bind> f) P \<longleftrightarrow> ok x (\<lambda>y. ok (f y) P)"
  by (cases x) (auto simp: ok_def)

lemma ok_map_option [simp]: "ok (map_option f x) P \<longleftrightarrow> ok x (\<lambda>y. P (f y))"
  by (cases x) simp_all

lemma ok_if: "(b \<Longrightarrow> ok x P) \<Longrightarrow> (\<not> b \<Longrightarrow> ok y P) \<Longrightarrow> ok (if b then x else y) P"
  by simp

lemma ok_mono: "ok x P \<Longrightarrow> (\<And>y. P y \<Longrightarrow> Q y) \<Longrightarrow> ok x Q"
  by (auto simp: ok_def)

lemma okE: "ok x P \<Longrightarrow> (\<And>y. x = Some y \<Longrightarrow> P y \<Longrightarrow> R) \<Longrightarrow> R"
  by (auto simp: ok_def)

lemma ok_rd8 [ok_intro]: "i < length m \<Longrightarrow> P (m ! i) \<Longrightarrow> ok (rd8 m i) P"
  by simp

lemma ok_rd_block [ok_intro]:
  "i + n \<le> length m \<Longrightarrow> (\<And>bs. length bs = n \<Longrightarrow> rd_block m i n = Some bs \<Longrightarrow> P bs) \<Longrightarrow>
     ok (rd_block m i n) P"
  by simp

lemma ok_wr_block [ok_intro]:
  "i + length xs \<le> length m \<Longrightarrow>
     (\<And>m'. length m' = length m \<Longrightarrow> wr_block m i xs = Some m' \<Longrightarrow> P m') \<Longrightarrow> ok (wr_block m i xs) P"
  by (simp add: ok_def)

lemma ok_rd16be [ok_intro]:
  "i + 1 < length m \<Longrightarrow> (\<And>v. rd16be m i = Some v \<Longrightarrow> v < 65536 \<Longrightarrow> P v) \<Longrightarrow> ok (rd16be m i) P"
  by simp

lemma ok_rd32le [ok_intro]:
  "i + 4 \<le> length m \<Longrightarrow> (\<And>v. rd32le m i = Some v \<Longrightarrow> P v) \<Longrightarrow> ok (rd32le m i) P"
  by simp

text \<open>The same rules when only sizes matter; \<open>ok_len\<close> leaves arithmetic goals.\<close>

named_theorems ok_len "success of one memory access, sizes only"

lemma ok_rd8_len [ok_len]: "i < length m \<Longrightarrow> (\<And>b. P b) \<Longrightarrow> ok (rd8 m i) P"
  by simp

lemma ok_rd_block_len [ok_len]:
  "i + n \<le> length m \<Longrightarrow> (\<And>bs. length bs = n \<Longrightarrow> P bs) \<Longrightarrow> ok (rd_block m i n) P"
  by simp

lemma ok_wr_block_len [ok_len]:
  "i + length xs \<le> length m \<Longrightarrow> (\<And>m'. length m' = length m \<Longrightarrow> P m') \<Longrightarrow> ok (wr_block m i xs) P"
  by (simp add: ok_def)

lemma ok_rd16be_len [ok_len]:
  "i + 1 < length m \<Longrightarrow> (\<And>v. v < 65536 \<Longrightarrow> P v) \<Longrightarrow> ok (rd16be m i) P"
  by simp

lemma ok_rd32le_len [ok_len]: "i + 4 \<le> length m \<Longrightarrow> (\<And>v. P v) \<Longrightarrow> ok (rd32le m i) P"
  by simp

section \<open>Lists updated in place\<close>

lemma sum_list_update_le:
  "i < length xs \<Longrightarrow> f x \<le> f (xs ! i) \<Longrightarrow>
     sum_list (map f (xs[i := x])) \<le> (sum_list (map f xs) :: nat)"
proof (induction xs arbitrary: i)
  case (Cons a xs)
  then show ?case by (cases i) auto
qed simp

end
