(* ===== verification/Registry.thy ===== *)
theory Registry
  imports Prelude "HOL-Library.AList"
begin

text \<open>
  The registry as the code uses it. The Win32 registry is not part of the repository:
  it is the record of functions \<open>regsvc\<close> over an abstract state \<open>'r\<close>, a parameter of
  every definition that touches it, and \<open>reg_laws\<close> is the documented behaviour the
  properties rely on. A key handle is modelled by the path it was opened with (all keys
  the code opens are under \<open>HKEY_LOCAL_MACHINE\<close>); a value is its type and its bytes.
  \<open>mreg\<close> is one registry that satisfies the laws, used in the witnesses.

  Also here: wide-character buffers, the string functions of \<open>coredll\<close> the code calls
  on them, and their byte image.
\<close>

type_synonym wtext = "wchar list"
type_synonym regval = "nat \<times> byte list"

definition REG_SZ :: nat where "REG_SZ = 1"
definition REG_BINARY :: nat where "REG_BINARY = 3"
definition REG_DWORD :: nat where "REG_DWORD = 4"

text \<open>
  \<open>reg_query r key val cb\<close> is \<open>RegQueryValueExW\<close> with a buffer of \<open>cb\<close> bytes: \<open>Inr\<close> is
  success, \<open>Inl junk\<close> is failure with the bytes the failed call left in the buffer.
  \<open>reg_enum r key i nl\<close> is \<open>RegEnumKeyExW\<close> with a name buffer of \<open>nl\<close> characters.
  \<open>reg_key\<close> is the form under which the registry compares names.
\<close>

record 'r regsvc =
  reg_open :: "'r \<Rightarrow> wtext \<Rightarrow> bool"
  reg_create :: "'r \<Rightarrow> wtext \<Rightarrow> 'r option"
  reg_enum :: "'r \<Rightarrow> wtext \<Rightarrow> nat \<Rightarrow> nat \<Rightarrow> wtext option"
  reg_query :: "'r \<Rightarrow> wtext \<Rightarrow> wtext \<Rightarrow> nat \<Rightarrow> byte list + regval"
  reg_set :: "'r \<Rightarrow> wtext \<Rightarrow> wtext \<Rightarrow> regval \<Rightarrow> 'r option"
  reg_delete :: "'r \<Rightarrow> wtext \<Rightarrow> 'r"
  reg_key :: "wtext \<Rightarrow> wtext"

definition reg_laws :: "'r regsvc \<Rightarrow> bool" where
  "reg_laws R \<longleftrightarrow>
     (\<forall>p. length (reg_key R p) = length p)
   \<and> (\<forall>r p v x r'. reg_set R r p v x = Some r' \<longrightarrow>
        (\<forall>cb \<ge> length (snd x). reg_query R r' p v cb = Inr x)
      \<and> (\<forall>q w cb. reg_key R q \<noteq> reg_key R p \<or> reg_key R w \<noteq> reg_key R v \<longrightarrow>
           reg_query R r' q w cb = reg_query R r q w cb)
      \<and> reg_open R r' = reg_open R r \<and> reg_enum R r' = reg_enum R r)
   \<and> (\<forall>r p r'. reg_create R r p = Some r' \<longrightarrow>
        reg_open R r' p \<and> (\<forall>q. reg_open R r q \<longrightarrow> reg_open R r' q)
      \<and> (\<forall>q v cb x. reg_query R r q v cb = Inr x \<longrightarrow> reg_query R r' q v cb = Inr x))
   \<and> (\<forall>r p v cb x. reg_query R r p v cb = Inr x \<longrightarrow> length (snd x) \<le> cb)
   \<and> (\<forall>r p i nl n. reg_enum R r p i nl = Some n \<longrightarrow> length n < nl \<and> 0 \<notin> set n)"

lemma reg_key_neq: "reg_laws R \<Longrightarrow> length p \<noteq> length q \<Longrightarrow> reg_key R p \<noteq> reg_key R q"
  unfolding reg_laws_def by metis

lemma reg_set_laws:
  assumes "reg_laws R" and "reg_set R r p v x = Some r'"
  shows "length (snd x) \<le> cb \<Longrightarrow> reg_query R r' p v cb = Inr x"
    and "reg_key R q \<noteq> reg_key R p \<or> reg_key R w \<noteq> reg_key R v \<Longrightarrow>
           reg_query R r' q w cb = reg_query R r q w cb"
    and "reg_open R r' = reg_open R r" and "reg_enum R r' = reg_enum R r"
  using assms(1) [unfolded reg_laws_def, THEN conjunct2, THEN conjunct1, rule_format, OF assms(2)]
  by blast+

lemmas reg_query_set_same = reg_set_laws(1)
lemmas reg_set_frame = reg_set_laws(3,4)

lemma reg_query_set_other:
  "reg_laws R \<Longrightarrow> reg_set R r p v x = Some r' \<Longrightarrow> length q \<noteq> length p \<or> length w \<noteq> length v \<Longrightarrow>
     reg_query R r' q w cb = reg_query R r q w cb"
  using reg_set_laws(2) [of R r p v x r' q w cb] reg_key_neq [of R q p] reg_key_neq [of R w v] by auto

lemma reg_create_laws:
  assumes "reg_laws R" and "reg_create R r p = Some r'"
  shows "reg_open R r' p" and "reg_open R r q \<Longrightarrow> reg_open R r' q"
    and "reg_query R r q v cb = Inr x \<Longrightarrow> reg_query R r' q v cb = Inr x"
  using assms(1) [unfolded reg_laws_def, THEN conjunct2, THEN conjunct2, THEN conjunct1,
      rule_format, OF assms(2)]
  by blast+

lemma reg_query_length: "reg_laws R \<Longrightarrow> reg_query R r p v cb = Inr x \<Longrightarrow> length (snd x) \<le> cb"
  by (drule reg_laws_def [THEN iffD1]) blast

lemma reg_enum_name:
  "reg_laws R \<Longrightarrow> reg_enum R r p i nl = Some n \<Longrightarrow> length n < nl \<and> 0 \<notin> set n"
  by (drule reg_laws_def [THEN iffD1]) blast

section \<open>Wide characters in memory\<close>

definition wbytes :: "wtext \<Rightarrow> byte list" where
  "wbytes xs = concat (map (\<lambda>c. [ucast c, ucast (drop_bit 8 c)]) xs)"

fun wchars :: "byte list \<Rightarrow> wtext" where
  "wchars (a # b # r) = (ucast a OR push_bit 8 (ucast b)) # wchars r"
| "wchars _ = []"

lemma wchars_wbytes [simp]: "wchars (wbytes xs) = xs"
proof (induction xs)
  case (Cons c xs)
  have "(ucast (ucast c :: byte) OR push_bit 8 (ucast (ucast (drop_bit 8 c) :: byte)) :: wchar) = c"
    by (rule bit_word_eqI) (auto simp: bit_simps)
  with Cons show ?case by (simp add: wbytes_def)
qed (simp add: wbytes_def)

lemma length_wbytes [simp]: "length (wbytes xs) = 2 * length xs"
  by (induction xs) (auto simp: wbytes_def)

lemma length_wchars [simp]: "length (wchars bs) = length bs div 2"
  by (induction bs rule: wchars.induct) auto

lemma wbytes_append [simp]: "wbytes (xs @ ys) = wbytes xs @ wbytes ys"
  by (simp add: wbytes_def)

lemma wchars_wbytes_append [simp]: "wchars (wbytes xs @ bs) = xs @ wchars bs"
proof (induction xs)
  case (Cons c xs)
  have "(ucast (ucast c :: byte) OR push_bit 8 (ucast (ucast (drop_bit 8 c) :: byte)) :: wchar) = c"
    by (rule bit_word_eqI) (auto simp: bit_simps)
  with Cons show ?case by (simp add: wbytes_def)
qed (simp add: wbytes_def)

lemma wbytes_wchars: "even (length bs) \<Longrightarrow> wbytes (wchars bs) = bs"
proof (induction bs rule: wchars.induct)
  case (1 a b r)
  have "ucast (ucast a OR push_bit 8 (ucast b) :: wchar) = a"
    "ucast (drop_bit 8 (ucast a OR push_bit 8 (ucast b) :: wchar)) = b"
    by (rule bit_word_eqI, auto simp: bit_simps bit_byte_high)+
  with 1 show ?case by (simp add: wbytes_def)
qed (simp_all add: wbytes_def)

text \<open>
  \<open>lstrlenW\<close>; it runs off an array that holds no terminator. \<open>wcat cap parts\<close> is
  \<open>lstrcpyW\<close> followed by \<open>lstrcatW\<close> of the parts into an array of \<open>cap\<close> characters.
\<close>

definition lstrlenW :: "wchar list \<Rightarrow> nat option" where
  "lstrlenW xs = (if 0 \<in> set xs then Some (length (cstr xs)) else None)"

definition wcat :: "nat \<Rightarrow> wtext list \<Rightarrow> wtext option" where
  "wcat cap parts = (let s = concat parts in if length s < cap then Some s else None)"

lemma wcat_Some: "wcat cap parts = Some s \<longleftrightarrow> s = concat parts \<and> length s < cap"
  by (auto simp: wcat_def Let_def)

lemma cstr_split: "0 \<in> set xs \<Longrightarrow> \<exists>ys. xs = cstr xs @ 0 # ys"
  by (induction xs) (auto simp: cstr_def)

lemma lstrlenW_Some: "lstrlenW xs = Some n \<Longrightarrow> take (n + 1) xs = cstr xs @ [0]"
  using cstr_split [of xs] by (auto simp: lstrlenW_def split: if_splits)
    (metis append_eq_conv_conj append.assoc append_Cons append_Nil length_append_singleton)

section \<open>A registry that satisfies the laws\<close>

type_synonym mregistry = "(wtext \<times> (wtext \<times> regval) list) list"

definition mreg_children :: "wtext \<Rightarrow> mregistry \<Rightarrow> wtext list" where
  "mreg_children p r =
     [drop (length p + 1) k. (k, _) \<leftarrow> r, take (length p + 1) k = p @ [0x5C]
        \<and> length p + 1 < length k \<and> 0 \<notin> set k \<and> 0x5C \<notin> set (drop (length p + 1) k)]"

definition mreg :: "mregistry regsvc" where
  "mreg = \<lparr>
     reg_open = (\<lambda>r p. map_of r p \<noteq> None),
     reg_create = (\<lambda>r p. Some (if map_of r p = None then r @ [(p, [])] else r)),
     reg_enum = (\<lambda>r p i nl. let ns = mreg_children p r in
        if i < length ns \<and> length (ns ! i) < nl then Some (ns ! i) else None),
     reg_query = (\<lambda>r p v cb. case map_of r p of None \<Rightarrow> Inl []
        | Some vs \<Rightarrow> (case map_of vs v of None \<Rightarrow> Inl []
            | Some x \<Rightarrow> if length (snd x) \<le> cb then Inr x else Inl [])),
     reg_set = (\<lambda>r p v x. case map_of r p of None \<Rightarrow> None
        | Some vs \<Rightarrow> Some (AList.update p (AList.update v x vs) r)),
     reg_delete = (\<lambda>r p. filter (\<lambda>(k, _). k \<noteq> p) r),
     reg_key = (\<lambda>p. p)\<rparr>"

lemma map_of_update: "map_of (AList.update k v xs) k' = (if k' = k then Some v else map_of xs k')"
  by (simp add: update_conv)

lemma mreg_children_keys: "map fst r = map fst r' \<Longrightarrow> mreg_children p r = mreg_children p r'"
  by (induction r r' rule: list_induct2') (auto simp: mreg_children_def)

lemma map_fst_update: "k \<in> fst ` set xs \<Longrightarrow> map fst (AList.update k v xs) = map fst xs"
  by (simp add: update_keys)

lemma map_of_in_keys: "map_of r p = Some x \<Longrightarrow> p \<in> fst ` set r"
  by (auto dest: map_of_SomeD intro: rev_image_eqI)

lemma mreg_laws: "reg_laws mreg"
  unfolding reg_laws_def
proof (intro conjI allI impI)
  fix r p v x r'
  assume "reg_set mreg r p v x = Some r'"
  then obtain vs where vs: "map_of r p = Some vs" and r': "r' = AList.update p (AList.update v x vs) r"
    by (auto simp: mreg_def split: option.splits)
  have q: "map_of r' q = (if q = p then Some (AList.update v x vs) else map_of r q)" for q
    by (simp add: r' map_of_update)
  show "reg_query mreg r' p v cb = Inr x" if "length (snd x) \<le> cb" for cb
    using that by (simp add: mreg_def q map_of_update)
  show "reg_query mreg r' qq w cb = reg_query mreg r qq w cb"
    if "reg_key mreg qq \<noteq> reg_key mreg p \<or> reg_key mreg w \<noteq> reg_key mreg v" for qq w cb
    using that vs by (auto simp: mreg_def q map_of_update)
  show "reg_open mreg r' = reg_open mreg r" using vs by (auto simp: mreg_def q fun_eq_iff)
  have "map fst r' = map fst r"
    unfolding r' by (rule map_fst_update [OF map_of_in_keys [OF vs]])
  then show "reg_enum mreg r' = reg_enum mreg r"
    using mreg_children_keys [of r' r] by (simp add: mreg_def fun_eq_iff)
next
  fix r p i nl n
  assume a: "reg_enum mreg r p i nl = Some n"
  then have "n \<in> set (mreg_children p r)" by (auto simp: mreg_def Let_def split: if_splits)
  then show "0 \<notin> set n" by (auto simp: mreg_children_def dest: in_set_dropD)
  show "length n < nl" using a by (auto simp: mreg_def Let_def split: if_splits)
qed (auto simp: mreg_def map_add_def split: if_splits option.splits)

end
