(* ===== verification/Flash.thy ===== *)
theory Flash
  imports Prelude
begin

text \<open>
  \<open>net/netif/flashrom.c\<close>: the block CRC, the search of the block-allocated partition for the
  newest valid copy of a logical block, and the DNS servers read from it. The BIOS call
  behind the vector is a parameter (\<open>frsvc\<close>): it returns, reports an error, or raises the
  exception that the \<open>__except\<close> of \<open>FlashromGetDns\<close> catches.
\<close>

unbundle bit_operations_syntax

datatype 'a bios = BRet 'a | BErr | BTrap

record frsvc =
  FrInfo :: "nat \<Rightarrow> (int \<times> int) bios"
  FrRead :: "int \<Rightarrow> nat \<Rightarrow> byte list bios"

definition FR_PT_BLOCK_1 :: nat where "FR_PT_BLOCK_1 = 2"
definition FR_B1_DK_DNS :: nat where "FR_B1_DK_DNS = 0xC8"
definition FR_B1_PW_DNS :: nat where "FR_B1_PW_DNS = 0xC2"

section \<open>The block CRC\<close>

text \<open>The accumulator is an \<open>int\<close> whose high half is garbage; only the low 16 bits count.\<close>

definition fr_bit :: "u32 \<Rightarrow> u32" where
  "fr_bit nCrc = (if nCrc AND 0x8000 \<noteq> 0 then push_bit 1 nCrc XOR 4129 else push_bit 1 nCrc)"

definition fr_byte :: "byte \<Rightarrow> u32 \<Rightarrow> u32" where
  "fr_byte b nCrc = (fr_bit ^^ 8) (nCrc XOR push_bit 8 (ucast b))"

definition FrCrc :: "byte list \<Rightarrow> u16" where
  "FrCrc pb = ucast (NOT (fold fr_byte (take 62 pb) 0xffff) AND 0xffff)"

definition Rd16 :: "byte list \<Rightarrow> nat \<Rightarrow> nat" where
  "Rd16 pb i = unat (pb ! i) + 256 * unat (pb ! (i + 1))"

section \<open>Finding a block\<close>

definition fr_magic :: "byte list" where
  "fr_magic = [75, 65, 84, 65, 78, 65, 95, 70, 76, 65, 83, 72, 95, 95, 95, 95]"

definition fr_bitmap_bytes :: "nat \<Rightarrow> nat" where
  "fr_bitmap_bytes nSize =
     (let nBmCnt = nSize div 64;
          nBmCnt = (nBmCnt + (64 * 8) - 1) div (64 * 8) * (64 * 8)
      in nBmCnt div 8)"

text \<open>The scan for the first free block; \<open>abBitmap\<close> is the whole 128-byte array.\<close>

function fr_first_free :: "byte list \<Rightarrow> nat \<Rightarrow> nat \<Rightarrow> nat option" where
  "fr_first_free abBitmap nBits i =
     (if i < nBits then
        (case rd8 abBitmap (i div 8) of
           None \<Rightarrow> None
         | Some b \<Rightarrow>
             let i' = (if b = 0 then i + 8 else i)
             in (case rd8 abBitmap (i' div 8) of
                   None \<Rightarrow> None
                 | Some b' \<Rightarrow>
                     if b' AND drop_bit (i' mod 8) 0x80 \<noteq> 0 then Some i'
                     else fr_first_free abBitmap nBits (i' + 1)))
      else Some i)"
  by pat_completeness auto
termination by (relation "measure (\<lambda>(bm, n, i). n - i)") (auto split: if_splits)

declare fr_first_free.simps [simp del]

datatype frblk = FrFound "byte list" | FrNone | FrTrap

text \<open>\<open>for (i--; i > 0; i--)\<close>, entered with \<open>i\<close> already decremented.\<close>

fun fr_scan_back :: "frsvc \<Rightarrow> int \<Rightarrow> nat \<Rightarrow> nat \<Rightarrow> frblk" where
  "fr_scan_back S nStart nBlockId 0 = FrNone"
| "fr_scan_back S nStart nBlockId (Suc i) =
     (case FrRead S (nStart + (int (Suc i) + 1) * 64) 64 of
        BErr \<Rightarrow> FrNone
      | BTrap \<Rightarrow> FrTrap
      | BRet pbOut \<Rightarrow>
          if Rd16 pbOut 0 \<noteq> nBlockId then fr_scan_back S nStart nBlockId i
          else if unat (FrCrc pbOut) = Rd16 pbOut 62 then FrFound pbOut
          else fr_scan_back S nStart nBlockId i)"

text \<open>
  \<open>junk\<close> is what the 128-byte stack array held before the bitmap was read into it;
  the result is \<open>None\<close> when the scan reads past the array.
\<close>

definition FrGetBlock :: "frsvc \<Rightarrow> byte list \<Rightarrow> nat \<Rightarrow> nat \<Rightarrow> frblk option" where
  "FrGetBlock S junk nPartId nBlockId =
     (case FrInfo S nPartId of
        BTrap \<Rightarrow> Some FrTrap
      | BErr \<Rightarrow> Some FrNone
      | BRet (nStart, nSize) \<Rightarrow>
          if nSize \<le> 64 \<or> nSize > 2 ^ 20 then Some FrNone
          else (case FrRead S nStart 18 of
            BTrap \<Rightarrow> Some FrTrap
          | BErr \<Rightarrow> Some FrNone
          | BRet achMagic \<Rightarrow>
              if take 16 achMagic \<noteq> fr_magic then Some FrNone
              else if Rd16 achMagic 16 \<noteq> nPartId then Some FrNone
              else let nBmCnt = fr_bitmap_bytes (nat nSize) in
                if nBmCnt = 0 \<or> nBmCnt > 128 then Some FrNone
                else (case FrRead S (nStart + nSize - int nBmCnt) nBmCnt of
                  BTrap \<Rightarrow> Some FrTrap
                | BErr \<Rightarrow> Some FrNone
                | BRet bm \<Rightarrow> do {
                    abBitmap \<leftarrow> wr_block junk 0 bm;
                    i \<leftarrow> fr_first_free abBitmap (nBmCnt * 8) 0;
                    if i = 0 then Some FrNone
                    else Some (fr_scan_back S nStart nBlockId (i - 1)) })))"

text \<open>\<open>FlashromGetDns\<close>: the count and the two servers as the caller's array ends up.\<close>

definition fr_dns_count :: "u32 \<times> u32 \<Rightarrow> nat" where
  "fr_dns_count d =
     (let cDns = 2;
          cDns = (if snd d = 0 then 1 else cDns)
      in if fst d = 0 then 0 else cDns)"

definition FlashromGetDns :: "frsvc \<Rightarrow> byte list \<Rightarrow> u32 \<times> u32 \<Rightarrow> (nat \<times> u32 \<times> u32) option" where
  "FlashromGetDns S junk adwDns = do {
     r \<leftarrow> FrGetBlock S junk FR_PT_BLOCK_1 FR_B1_DK_DNS;
     case r of
       FrFound abBlk \<Rightarrow> do {
         a \<leftarrow> rd32le abBlk 50; b \<leftarrow> rd32le abBlk 54; Some (fr_dns_count (a, b), a, b) }
     | FrTrap \<Rightarrow> Some (0, adwDns)
     | FrNone \<Rightarrow> do {
         r \<leftarrow> FrGetBlock S junk FR_PT_BLOCK_1 FR_B1_PW_DNS;
         case r of
           FrFound abBlk \<Rightarrow> do {
             a \<leftarrow> rd32le abBlk 54; b \<leftarrow> rd32le abBlk 58; Some (fr_dns_count (a, b), a, b) }
         | _ \<Rightarrow> Some (0, adwDns) } }"

section \<open>The CRC detects a damaged byte\<close>

text \<open>The 16-bit register behind the accumulator, and its step as an injective map.\<close>

definition crc_bit :: "u16 \<Rightarrow> u16" where
  "crc_bit c = (if bit c 15 then push_bit 1 c XOR 4129 else push_bit 1 c)"

definition crc_byte :: "byte \<Rightarrow> u16 \<Rightarrow> u16" where
  "crc_byte b c = (crc_bit ^^ 8) (c XOR push_bit 8 (ucast b))"

lemma and_8000: "(x :: u32) AND 0x8000 \<noteq> 0 \<longleftrightarrow> bit x 15"
proof -
  have "(0x8000 :: u32) = push_bit 15 1" by simp
  then have "bit (x AND 0x8000) n \<longleftrightarrow> n = 15 \<and> bit x 15" for n
    by (simp only: bit_and_iff bit_push_bit_iff bit_1_iff) auto
  then show ?thesis by (metis bit_0_eq bot_apply bot_bool_def bit_eqI)
qed

lemma ucast_fr_bit: "ucast (fr_bit x) = crc_bit (ucast x)"
proof -
  have k: "(ucast (4129 :: u32) :: u16) = 4129" by simp
  have p: "(ucast (push_bit 1 x) :: u16) = push_bit 1 (ucast x)"
    unfolding bit_eq_iff bit_unsigned_iff bit_push_bit_iff by auto
  have x: "(ucast (a XOR b) :: u16) = ucast a XOR ucast b" for a b :: u32
    by (rule bit_word_eqI) (auto simp: bit_simps)
  have "bit (ucast x :: u16) 15 \<longleftrightarrow> bit x 15" by (simp add: bit_simps)
  then show ?thesis
    by (simp only: fr_bit_def crc_bit_def and_8000 if_distrib [of ucast] x p k)
qed

lemma ucast_fr_byte: "ucast (fr_byte b x) = crc_byte b (ucast x)"
proof -
  have "ucast ((fr_bit ^^ n) y) = (crc_bit ^^ n) (ucast y)" for n y
    by (induction n) (simp_all add: ucast_fr_bit)
  moreover have "ucast (x XOR push_bit 8 (ucast b)) = (ucast x XOR push_bit 8 (ucast b) :: u16)"
    by (rule bit_word_eqI) (auto simp: bit_simps)
  ultimately show ?thesis by (simp add: fr_byte_def crc_byte_def)
qed

lemma FrCrc_eq: "FrCrc pb = NOT (fold crc_byte (take 62 pb) 0xffff)"
proof -
  have "ucast (fold fr_byte bs x) = fold crc_byte bs (ucast x)" for bs x
    by (induction bs arbitrary: x) (simp_all add: ucast_fr_byte)
  moreover have "(ucast (NOT (s :: u32) AND 0xFFFF) :: u16) = NOT (ucast s)" for s
  proof -
    have m: "(0xFFFF :: u32) = mask 16" by (simp add: mask_eq_exp_minus_1)
    show ?thesis unfolding m by (rule bit_word_eqI) (auto simp: bit_simps)
  qed
  ultimately show ?thesis by (simp add: FrCrc_def)
qed

lemma xor_cancel: "a XOR k = b XOR k \<longleftrightarrow> a = b" for a b k :: "'a::len word"
proof
  assume "a XOR k = b XOR k"
  then have "(a XOR k) XOR k = (b XOR k) XOR k" by simp
  then show "a = b" by (simp only: xor.assoc xor_self_eq xor.right_neutral)
qed simp

lemma crc_bit_inj: "inj crc_bit"
proof (rule injI)
  fix x y assume eq: "crc_bit x = crc_bit y"
  have z: "bit (crc_bit c) 0 \<longleftrightarrow> bit c 15" for c
    using bit_push_bit_iff [of 1 c 0] by (simp add: crc_bit_def bit_xor_iff)
  have top: "bit x 15 \<longleftrightarrow> bit y 15" using z [of x] z [of y] eq by simp
  have "push_bit 1 x = push_bit 1 y"
    using eq top unfolding crc_bit_def
    by (cases "bit y 15") (simp_all only: if_True if_False xor_cancel)
  then have sh: "bit (push_bit 1 x) n = bit (push_bit 1 y) n" for n by simp
  show "x = y"
  proof (rule bit_word_eqI)
    fix n assume "n < LENGTH(16)"
    then consider "n = 15" | "n < 15" by fastforce
    then show "bit x n \<longleftrightarrow> bit y n"
      using top sh [of "Suc n"] bit_push_bit_iff [of 1 x "Suc n"] bit_push_bit_iff [of 1 y "Suc n"]
      by cases auto
  qed
qed

lemma crc_byte_inj: "inj (crc_byte b)"
proof -
  have "inj (crc_bit ^^ 8)" by (rule inj_fn [OF crc_bit_inj])
  moreover have "inj (\<lambda>c. c XOR push_bit 8 (ucast b))"
    by (rule injI) (simp only: xor_cancel)
  ultimately show ?thesis
    unfolding crc_byte_def by (rule inj_compose [unfolded comp_def])
qed

lemma crc_byte_differs: "b \<noteq> b' \<Longrightarrow> crc_byte b c \<noteq> crc_byte b' c"
proof
  assume ne: "b \<noteq> b'" and eq: "crc_byte b c = crc_byte b' c"
  from eq have "c XOR push_bit 8 (ucast b) = c XOR push_bit 8 (ucast b')"
    by (simp only: crc_byte_def inj_eq [OF inj_fn [OF crc_bit_inj]])
  then have "push_bit 8 (ucast b :: u16) = push_bit 8 (ucast b')"
    by (simp only: xor.commute [of c] xor_cancel)
  have "b = b'"
  proof (rule bit_word_eqI)
    fix n assume n: "n < LENGTH(8)"
    have "bit (push_bit 8 (ucast d :: u16)) (n + 8) \<longleftrightarrow> bit d n" for d :: byte
      unfolding bit_push_bit_iff bit_unsigned_iff using n by simp
    with \<open>push_bit 8 (ucast b :: u16) = push_bit 8 (ucast b')\<close> show "bit b n \<longleftrightarrow> bit b' n" by metis
  qed
  with ne show False by simp
qed

lemma fold_crc_inj: "fold crc_byte bs x = fold crc_byte bs y \<longleftrightarrow> x = y"
  by (induction bs arbitrary: x y) (auto simp: inj_eq [OF crc_byte_inj])


lemma fold_crc_update:
  "k < length bs \<Longrightarrow> b \<noteq> bs ! k \<Longrightarrow> fold crc_byte (bs[k := b]) x \<noteq> fold crc_byte bs x"
proof (induction bs arbitrary: x k)
  case (Cons c cs)
  show ?case
  proof (cases k)
    case 0
    with Cons.prems show ?thesis by (simp add: fold_crc_inj crc_byte_differs)
  next
    case (Suc j)
    with Cons show ?thesis by simp
  qed
qed simp

lemma not_word_eq: "NOT x = NOT y \<longleftrightarrow> x = (y :: 'a::len word)"
  by (metis bit.double_compl)

section \<open>The scan and the search\<close>

definition blk_free :: "byte list \<Rightarrow> nat \<Rightarrow> bool" where
  "blk_free bm i \<longleftrightarrow> (bm ! (i div 8)) AND drop_bit (i mod 8) 0x80 \<noteq> 0"

lemma fr_first_free_stop:
  "fr_first_free bm n i = Some j \<Longrightarrow> n \<le> j \<or> blk_free bm j"
proof (induction bm n i rule: fr_first_free.induct)
  case (1 bm n i)
  show ?case
  proof (cases "i < n")
    case True
    define i' where "i' = (if bm ! (i div 8) = 0 then i + 8 else i)"
    from True "1.prems" have b: "rd8 bm (i div 8) = Some (bm ! (i div 8))"
      and b': "rd8 bm (i' div 8) = Some (bm ! (i' div 8))"
      by (subst (asm) fr_first_free.simps, simp add: i'_def rd8_def Let_def split: if_splits)+
    have "fr_first_free bm n i = (if blk_free bm i' then Some i' else fr_first_free bm n (i' + 1))"
      using True b b' by (subst fr_first_free.simps) (simp add: Let_def blk_free_def flip: i'_def split del: if_split)
    then show ?thesis
      using "1.prems" "1.IH" [OF True b, of i'] b' by (auto simp: i'_def blk_free_def split: if_splits)
  next
    case False
    with "1.prems" show ?thesis by (subst (asm) fr_first_free.simps) simp
  qed
qed

lemma fr_first_free_total:
  "n + 8 \<le> 8 * length bm \<Longrightarrow> \<exists>j. fr_first_free bm n i = Some j"
proof (induction bm n i rule: fr_first_free.induct)
  case (1 bm n i)
  show ?case
  proof (cases "i < n")
    case True
    define i' where "i' = (if bm ! (i div 8) = 0 then i + 8 else i)"
    have b: "rd8 bm (i div 8) = Some (bm ! (i div 8))" using True "1.prems" by simp
    have b': "rd8 bm (i' div 8) = Some (bm ! (i' div 8))" using True "1.prems" by (auto simp: i'_def)
    have "fr_first_free bm n i = (if blk_free bm i' then Some i' else fr_first_free bm n (i' + 1))"
      using True b b' by (subst fr_first_free.simps) (simp add: Let_def blk_free_def flip: i'_def split del: if_split)
    then show ?thesis
      using "1.IH" [OF True b, of i'] "1.prems" b' by (auto simp: i'_def blk_free_def split: if_splits)
  qed (subst fr_first_free.simps, simp)
qed

lemma fr_scan_back_found:
  "fr_scan_back S nStart nId n = FrFound b \<Longrightarrow>
     \<exists>i. 0 < i \<and> i \<le> n \<and> FrRead S (nStart + (int i + 1) * 64) 64 = BRet b
       \<and> Rd16 b 0 = nId \<and> unat (FrCrc b) = Rd16 b 62
       \<and> (\<forall>k. i < k \<and> k \<le> n \<longrightarrow> (\<exists>e. FrRead S (nStart + (int k + 1) * 64) 64 = BRet e
            \<and> \<not> (Rd16 e 0 = nId \<and> unat (FrCrc e) = Rd16 e 62)))"
proof (induction n)
  case (Suc n)
  show ?case
  proof (cases "FrRead S (nStart + (int (Suc n) + 1) * 64) 64")
    case (BRet e)
    show ?thesis
    proof (cases "Rd16 e 0 = nId \<and> unat (FrCrc e) = Rd16 e 62")
      case True
      with BRet Suc.prems show ?thesis by (intro exI [of _ "Suc n"]) simp
    next
      case False
      with BRet Suc.prems have "fr_scan_back S nStart nId n = FrFound b" by (auto split: if_splits)
      from Suc.IH [OF this] obtain i where i: "0 < i" "i \<le> n"
        "FrRead S (nStart + (int i + 1) * 64) 64 = BRet b" "Rd16 b 0 = nId" "unat (FrCrc b) = Rd16 b 62"
        "\<forall>k. i < k \<and> k \<le> n \<longrightarrow> (\<exists>e. FrRead S (nStart + (int k + 1) * 64) 64 = BRet e
            \<and> \<not> (Rd16 e 0 = nId \<and> unat (FrCrc e) = Rd16 e 62))" by blast
      have "\<exists>e. FrRead S (nStart + (int k + 1) * 64) 64 = BRet e
            \<and> \<not> (Rd16 e 0 = nId \<and> unat (FrCrc e) = Rd16 e 62)" if "i < k" "k \<le> Suc n" for k
        using that i(6) BRet False by (cases "k = Suc n") auto
      with i show ?thesis by (intro exI [of _ i]) auto
    qed
  qed (use Suc.prems in auto)
qed simp

text \<open>What a search that reaches the scan has checked, and when it cannot fault.\<close>

lemma FrGetBlock_found:
  assumes "FrGetBlock S junk p b = Some (FrFound blk)"
  obtains nStart nSize bm abBitmap j where "FrInfo S p = BRet (nStart, nSize)"
    "FrRead S (nStart + nSize - int (fr_bitmap_bytes (nat nSize))) (fr_bitmap_bytes (nat nSize)) = BRet bm"
    "wr_block junk 0 bm = Some abBitmap"
    "fr_first_free abBitmap (fr_bitmap_bytes (nat nSize) * 8) 0 = Some j"
    "fr_scan_back S nStart b (j - 1) = FrFound blk"
  using assms
  by (auto simp: FrGetBlock_def Let_def bind_eq_Some_conv split: bios.splits if_splits prod.splits)

definition fr_lawful :: "frsvc \<Rightarrow> bool" where
  "fr_lawful S \<longleftrightarrow> (\<forall>nOff nLen bs. FrRead S nOff nLen = BRet bs \<longrightarrow> length bs = nLen)"

lemma fr_bitmap_bytes_le:
  assumes "n < 32832"
  shows "fr_bitmap_bytes n \<le> 64"
proof -
  have "n div 64 \<le> 512" using assms by simp
  then have "(n div 64 + 511) div 512 \<le> 1" by simp
  then show ?thesis by (simp add: fr_bitmap_bytes_def Let_def)
qed

lemma FrGetBlock_total:
  assumes "fr_lawful S" and "length junk = 128"
    and "\<forall>s n. FrInfo S p = BRet (s, n) \<longrightarrow> n < 32832"
  shows "\<exists>r. FrGetBlock S junk p b = Some r"
proof (rule ccontr)
  assume "\<nexists>r. FrGetBlock S junk p b = Some r"
  then obtain s n bm where fi: "FrInfo S p = BRet (s, n)"
    and rd: "FrRead S (s + n - int (fr_bitmap_bytes (nat n))) (fr_bitmap_bytes (nat n)) = BRet bm"
    and none: "(do { abBitmap \<leftarrow> wr_block junk 0 bm;
         i \<leftarrow> fr_first_free abBitmap (fr_bitmap_bytes (nat n) * 8) 0;
         if i = 0 then Some FrNone else Some (fr_scan_back S s b (i - 1)) }) = None"
    by (auto simp: FrGetBlock_def Let_def split: bios.splits if_splits prod.splits)
  have le: "fr_bitmap_bytes (nat n) \<le> 64"
    using assms(3) fi by (intro fr_bitmap_bytes_le) (cases "0 \<le> n"; force)
  have "length bm = fr_bitmap_bytes (nat n)" using assms(1) rd by (simp add: fr_lawful_def)
  then obtain bmp where bmp: "wr_block junk 0 bm = Some bmp" "length bmp = 128"
    using le assms(2) length_wr_block [of junk 0 bm] by simp
  from fr_first_free_total [of "fr_bitmap_bytes (nat n) * 8" bmp 0] bmp(2) le
  obtain j where "fr_first_free bmp (fr_bitmap_bytes (nat n) * 8) 0 = Some j" by auto
  with none bmp(1) show False by (auto split: if_splits)
qed

section \<open>Properties\<close>

text \<open>
  Damage to one byte of the protected part of a block always changes its CRC, so
  \<open>FrGetBlock\<close> rejects a block with one damaged byte, whatever the damage.
\<close>

theorem FrCrc_detects_byte:
  assumes "k < 62" and "62 \<le> length pb" and "b \<noteq> pb ! k"
  shows "FrCrc (pb[k := b]) \<noteq> FrCrc pb"
proof -
  have "take 62 (pb[k := b]) = (take 62 pb)[k := b]" using assms(1) by (simp add: take_update_swap)
  moreover have "fold crc_byte ((take 62 pb)[k := b]) 0xffff \<noteq> fold crc_byte (take 62 pb) 0xffff"
    by (rule fold_crc_update) (use assms in simp_all)
  ultimately show ?thesis by (simp add: FrCrc_eq not_word_eq)
qed

text \<open>
  C6: when the blocks are allocated in order (\<open>u\<close> used ones, the rest free) and no free
  block carries the identifier, the block \<open>FrGetBlock\<close> returns is the newest valid copy:
  it matches and verifies, and every used block after it was read and does not. The
  first data block is never considered (\<open>0 < i\<close>).
\<close>

theorem FrGetBlock_newest:
  assumes "FrGetBlock S junk p nId = Some (FrFound blk)"
    and "FrInfo S p = BRet (nStart, nSize)" and "n = fr_bitmap_bytes (nat nSize)"
    and "FrRead S (nStart + nSize - int n) n = BRet bm" and "fr_lawful S"
    and "u < 8 * n" and "\<forall>k < 8 * n. blk_free bm k \<longleftrightarrow> u \<le> k"
    and "\<forall>k e. u \<le> k \<longrightarrow> FrRead S (nStart + (int k + 1) * 64) 64 = BRet e \<longrightarrow> Rd16 e 0 \<noteq> nId"
  shows "\<exists>i. 0 < i \<and> i < u \<and> FrRead S (nStart + (int i + 1) * 64) 64 = BRet blk
       \<and> Rd16 blk 0 = nId \<and> unat (FrCrc blk) = Rd16 blk 62
       \<and> (\<forall>k. i < k \<and> k < u \<longrightarrow> (\<exists>e. FrRead S (nStart + (int k + 1) * 64) 64 = BRet e
            \<and> \<not> (Rd16 e 0 = nId \<and> unat (FrCrc e) = Rd16 e 62)))"
proof -
  from FrGetBlock_found [OF assms(1)] assms(2-4) obtain bmp j where
    w: "wr_block junk 0 bm = Some bmp" and j: "fr_first_free bmp (n * 8) 0 = Some j"
    and sc: "fr_scan_back S nStart nId (j - 1) = FrFound blk"
    by (metis Pair_inject bios.inject)
  have "length bm = n" using assms(4,5) by (simp add: fr_lawful_def)
  have "u \<le> j"
  proof (cases "n * 8 \<le> j")
    case False
    then have lt: "j < 8 * n" by simp
    then have "j div 8 < n" by simp
    then have "bmp ! (j div 8) = bm ! (j div 8)"
      using nth_wr_block [OF w, of "j div 8"] wr_block_bound [OF w] \<open>length bm = n\<close> by simp
    with fr_first_free_stop [OF j] False have "blk_free bm j" by (simp add: blk_free_def)
    with assms(7) lt show ?thesis by simp
  qed (use assms(6) in simp)
  from fr_scan_back_found [OF sc] obtain i where i: "0 < i" "i \<le> j - 1"
    "FrRead S (nStart + (int i + 1) * 64) 64 = BRet blk" "Rd16 blk 0 = nId" "unat (FrCrc blk) = Rd16 blk 62"
    "\<forall>k. i < k \<and> k \<le> j - 1 \<longrightarrow> (\<exists>e. FrRead S (nStart + (int k + 1) * 64) 64 = BRet e
            \<and> \<not> (Rd16 e 0 = nId \<and> unat (FrCrc e) = Rd16 e 62))" by blast
  moreover have "i < u" using i(3,4) assms(8) by (metis linorder_not_less)
  ultimately show ?thesis using \<open>u \<le> j\<close> by (intro exI [of _ i]) auto
qed

text \<open>
  For a partition of up to 32 KB (the BIOS's is 16 KB) \<open>FlashromGetDns\<close> stays inside its
  arrays whatever the flash holds; a count of one or two means that the first, or both,
  servers are not 0.0.0.0, and an exception in a BIOS call gives no server.
\<close>

theorem FlashromGetDns_safe:
  assumes "fr_lawful S" and "length junk = 128"
    and "\<forall>s n. FrInfo S FR_PT_BLOCK_1 = BRet (s, n) \<longrightarrow> n < 32832"
  shows "\<exists>n a b. FlashromGetDns S junk d = Some (n, a, b) \<and> n \<le> 2
     \<and> (0 < n \<longrightarrow> a \<noteq> 0) \<and> (n = 2 \<longrightarrow> b \<noteq> 0)
     \<and> (FrGetBlock S junk FR_PT_BLOCK_1 FR_B1_DK_DNS = Some FrTrap \<longrightarrow> n = 0)"
proof -
  have len: "length blk = 64" if "FrGetBlock S junk FR_PT_BLOCK_1 b = Some (FrFound blk)" for blk b
    using that
  proof (rule FrGetBlock_found)
    fix nStart j assume "fr_scan_back S nStart b (j - 1) = FrFound blk"
    from fr_scan_back_found [OF this] assms(1) show ?thesis by (auto simp: fr_lawful_def)
  qed
  have cnt: "fr_dns_count x \<le> 2 \<and> (0 < fr_dns_count x \<longrightarrow> fst x \<noteq> 0) \<and> (fr_dns_count x = 2 \<longrightarrow> snd x \<noteq> 0)"
    for x by (auto simp: fr_dns_count_def Let_def split: if_splits)
  obtain r1 where r1: "FrGetBlock S junk FR_PT_BLOCK_1 FR_B1_DK_DNS = Some r1"
    using FrGetBlock_total [OF assms] by blast
  obtain r2 where r2: "FrGetBlock S junk FR_PT_BLOCK_1 FR_B1_PW_DNS = Some r2"
    using FrGetBlock_total [OF assms] by blast
  show ?thesis
    using r1 r2 len cnt
    by (cases r1; cases r2) (fastforce simp: FlashromGetDns_def)+
qed

section \<open>Witnesses\<close>

text \<open>A 16 KB partition whose only blocks in use are 1 and 2; block 2 holds 8.8.8.8, 8.8.4.4.\<close>

definition fr_sample_blk :: "byte list" where
  "fr_sample_blk =
     (let body = [0xC8, 0] @ replicate 48 0 @ [8, 8, 8, 8, 8, 8, 4, 4] @ replicate 4 0
      in body @ [ucast (FrCrc body), ucast (drop_bit 8 (FrCrc body))])"

definition fr_sample :: frsvc where
  "fr_sample = \<lparr>FrInfo = (\<lambda>_. BRet (0, 16384)),
     FrRead = (\<lambda>nOff nLen.
       if nOff = 0 then BRet (take nLen (fr_magic @ [2, 0] @ replicate nLen 0))
       else if nOff = 16320 then BRet (take nLen (0x3F # replicate nLen 0xFF))
       else if nOff = 128 then BRet (take nLen (fr_sample_blk @ replicate nLen 0))
       else BRet (replicate nLen 0xFF))\<rparr>"

lemma fr_sample_blk_length [simp]: "length fr_sample_blk = 64"
  by (simp add: fr_sample_blk_def Let_def)

lemma fr_sample_blk_valid: "Rd16 fr_sample_blk 0 = 0xC8"
  "unat (FrCrc fr_sample_blk) = Rd16 fr_sample_blk 62"
proof -
  define body :: "byte list" where "body = [0xC8, 0] @ replicate 48 0 @ [8, 8, 8, 8, 8, 8, 4, 4] @ replicate 4 0"
  have body: "length body = 62" by (simp add: body_def)
  define c where "c = FrCrc body"
  have blk: "fr_sample_blk = body @ [ucast c, ucast (drop_bit 8 c)]"
    by (simp only: fr_sample_blk_def Let_def body_def c_def)
  have "fr_sample_blk ! 62 = ucast c" "fr_sample_blk ! 63 = ucast (drop_bit 8 c)"
    unfolding blk using body by (simp_all add: nth_append)
  moreover have "FrCrc fr_sample_blk = c" unfolding blk using body by (simp add: FrCrc_def c_def)
  ultimately show "unat (FrCrc fr_sample_blk) = Rd16 fr_sample_blk 62"
    using be16_put16 [of c] by (simp add: Rd16_def be16_def)
qed (simp add: fr_sample_blk_def Rd16_def Let_def)

lemma fr_sample_lawful: "fr_lawful fr_sample"
  by (auto simp: fr_lawful_def fr_sample_def fr_magic_def)

lemma fr_sample_bitmap_bytes: "fr_bitmap_bytes 16384 = 64"
  by (simp add: fr_bitmap_bytes_def Let_def)

lemma fr_sample_first_free: "fr_first_free (0x3F # r) 512 0 = Some 2"
proof -
  have "fr_first_free (0x3F # r) 512 0 = fr_first_free (0x3F # r) 512 1"
    by (subst fr_first_free.simps) simp
  also have "\<dots> = fr_first_free (0x3F # r) 512 2"
    by (subst fr_first_free.simps) (simp flip: numeral_2_eq_2)
  also have "\<dots> = Some 2"
    by (subst fr_first_free.simps) simp
  finally show ?thesis .
qed

lemma fr_sample_found:
  "FrGetBlock fr_sample (replicate 128 0) 2 0xC8 = Some (FrFound fr_sample_blk)"
proof -
  have "fr_scan_back fr_sample 0 0xC8 1 = FrFound fr_sample_blk"
    using fr_sample_blk_valid by (simp add: fr_sample_def)
  then show ?thesis
    using fr_sample_first_free [of "replicate 63 0xFF @ replicate 64 0"]
    by (simp add: FrGetBlock_def fr_sample_def fr_magic_def Rd16_def fr_sample_bitmap_bytes)
qed

lemma FrCrc_detects_byte_witness:
  "FrCrc ((replicate 64 0)[5 := 1]) \<noteq> FrCrc (replicate 64 0)"
  by (rule FrCrc_detects_byte) simp_all

lemma FrGetBlock_newest_witness:
  "\<exists>i. 0 < i \<and> i < 2 \<and> FrRead fr_sample (0 + (int i + 1) * 64) 64 = BRet fr_sample_blk"
proof -
  have "blk_free (0x3F # replicate 63 0xFF) k \<longleftrightarrow> 2 \<le> k" if "k < 512" for k
  proof (cases "k < 8")
    case True
    then have "k \<in> {0, 1, 2, 3, 4, 5, 6, 7}" by auto
    then show ?thesis by (auto simp: blk_free_def)
  next
    case False
    have "k mod 8 \<in> {0, 1, 2, 3, 4, 5, 6, 7}" by auto
    then have "(0xFF :: byte) AND drop_bit (k mod 8) 0x80 \<noteq> 0" by auto
    moreover have "(0x3F # replicate 63 0xFF) ! (k div 8) = (0xFF :: byte)"
      using False that by (simp add: nth_Cons' div_greater_zero_iff)
    ultimately show ?thesis using False by (simp add: blk_free_def)
  qed
  then show ?thesis
    using FrGetBlock_newest [OF fr_sample_found, of 0 16384 64 "0x3F # replicate 63 0xFF" 2] fr_sample_lawful
    by (auto simp: fr_sample_def Rd16_def fr_sample_bitmap_bytes)
qed

lemma FlashromGetDns_safe_witness:
  "\<exists>n a b. FlashromGetDns fr_sample (replicate 128 0) (0, 0) = Some (n, a, b) \<and> n = 2"
proof -
  have run: "map_option fst (FlashromGetDns fr_sample (replicate 128 0) (0, 0)) = Some 2"
    using fr_sample_found
    by (simp add: FlashromGetDns_def FR_PT_BLOCK_1_def FR_B1_DK_DNS_def fr_dns_count_def
        fr_sample_blk_def Let_def le32_def)
  have "\<forall>s n. FrInfo fr_sample FR_PT_BLOCK_1 = BRet (s, n) \<longrightarrow> n < 32832"
    by (simp add: fr_sample_def)
  from FlashromGetDns_safe [OF fr_sample_lawful _ this, of "replicate 128 0" "(0, 0)"] run
  show ?thesis by auto
qed

text \<open>
  A full bitmap of 128 bytes (a partition of more than 32 KB): the scan reads the byte after
  the array.
\<close>

lemma fr_scan_overrun: "fr_first_free (replicate 128 0) 1024 0 = None"
proof -
  have "fr_first_free (replicate 128 0) 1024 0 = fr_first_free (replicate 128 0) 1024 (9 * k)"
    if "k \<le> 113" for k
    using that
  proof (induction k)
    case (Suc k)
    have "fr_first_free (replicate 128 0) 1024 (9 * k) = fr_first_free (replicate 128 0) 1024 (9 + 9 * k)"
      using Suc.prems by (subst fr_first_free.simps) (simp add: Let_def)
    with Suc show ?case by simp
  qed simp
  from this [of 113]
  have "fr_first_free (replicate 128 0) 1024 0 = fr_first_free (replicate 128 0) 1024 1017" by simp
  also have "\<dots> = None" by (subst fr_first_free.simps) (simp add: Let_def rd8_def)
  finally show ?thesis .
qed

end
