(* ===== verification/Arp.thy ===== *)
theory Arp
  imports Prelude
begin

text \<open>
  The ARP cache of \<open>net/netif/netif.c\<close> (\<open>s_arp\<close>, 16 entries): \<open>ArpLookup\<close> and
  \<open>ArpInsert\<close>. The locale \<open>neighbor_cache\<close> is the contract the transmit path uses:
  an insertion is found at once, it never changes the answer for another address except
  by evicting it, and after any run of insertions a lookup answers nothing older than
  the last insertion for that address.
\<close>

record arp_ent =
  a_ip :: u32
  a_mac :: "byte list"
  a_used :: bool

definition ARP_N :: nat where "ARP_N = 16"

definition arp_init :: "arp_ent list" where
  "arp_init = replicate 16 \<lparr>a_ip = 0, a_mac = [0, 0, 0, 0, 0, 0], a_used = False\<rparr>"

fun ArpLookup :: "arp_ent list \<Rightarrow> u32 \<Rightarrow> byte list option" where
  "ArpLookup [] dwIp = None"
| "ArpLookup (e # es) dwIp =
     (if a_used e \<and> a_ip e = dwIp then Some (a_mac e) else ArpLookup es dwIp)"

text \<open>The search loop of \<open>ArpInsert\<close>: a match ends it, a free slot is remembered.\<close>

fun arp_slot :: "arp_ent list \<Rightarrow> nat \<Rightarrow> nat \<Rightarrow> u32 \<Rightarrow> nat" where
  "arp_slot [] i nSlot dwIp = nSlot"
| "arp_slot (e # es) i nSlot dwIp =
     (if a_used e \<and> a_ip e = dwIp then i
      else arp_slot es (i + 1) (if \<not> a_used e then i else nSlot) dwIp)"

definition ArpInsert :: "u32 \<Rightarrow> byte list \<Rightarrow> arp_ent list \<Rightarrow> arp_ent list" where
  "ArpInsert dwIp pbMac s_arp =
     s_arp[arp_slot s_arp 0 0 dwIp := \<lparr>a_ip = dwIp, a_mac = pbMac, a_used = True\<rparr>]"

section \<open>The contract\<close>

locale neighbor_cache =
  fixes lookup :: "'c \<Rightarrow> 'k \<Rightarrow> 'v option" and upd :: "'k \<Rightarrow> 'v \<Rightarrow> 'c \<Rightarrow> 'c"
    and invar :: "'c \<Rightarrow> bool" and full :: "'c \<Rightarrow> bool"
  assumes lookup_upd_same: "invar c \<Longrightarrow> lookup (upd k v c) k = Some v"
    and lookup_upd_other: "invar c \<Longrightarrow> k' \<noteq> k \<Longrightarrow> \<not> full c \<or> lookup c k \<noteq> None \<Longrightarrow>
          lookup (upd k v c) k' = lookup c k'"
    and lookup_upd_evict: "invar c \<Longrightarrow> k' \<noteq> k \<Longrightarrow>
          lookup (upd k v c) k' = None \<or> lookup (upd k v c) k' = lookup c k'"
    and invar_upd: "invar c \<Longrightarrow> invar (upd k v c)"
begin

lemma invar_run: "invar c \<Longrightarrow> invar (fold (\<lambda>(k, v). upd k v) kvs c)"
  by (induction kvs arbitrary: c) (auto intro: invar_upd)

lemma lookup_run_fresh:
  "invar c \<Longrightarrow> lookup (fold (\<lambda>(k, v). upd k v) kvs c) k \<in>
     {None, (case map_of (rev kvs) k of None \<Rightarrow> lookup c k | Some v \<Rightarrow> Some v)}"
proof (induction kvs rule: rev_induct)
  case (snoc kv kvs)
  obtain k' v where kv: "kv = (k', v)" by fastforce
  let ?c = "fold (\<lambda>(k, v). upd k v) kvs c"
  have inv: "invar ?c" using snoc.prems by (rule invar_run)
  show ?case
  proof (cases "k = k'")
    case True
    then show ?thesis using lookup_upd_same [OF inv] kv by simp
  next
    case False
    then show ?thesis using lookup_upd_evict [OF inv False, of v] snoc.IH [OF snoc.prems] kv by auto
  qed
qed simp

end

section \<open>The cache keeps the contract\<close>

definition arp_keys :: "arp_ent list \<Rightarrow> u32 list" where
  "arp_keys t = map a_ip (filter a_used t)"

definition arp_inv :: "arp_ent list \<Rightarrow> bool" where
  "arp_inv t \<longleftrightarrow> length t = ARP_N \<and> distinct (arp_keys t)"

definition arp_full :: "arp_ent list \<Rightarrow> bool" where
  "arp_full t \<longleftrightarrow> (\<forall>e \<in> set t. a_used e)"

lemma arp_inv_init: "arp_inv arp_init"
  by (simp add: arp_inv_def arp_init_def arp_keys_def ARP_N_def)

lemma ArpLookup_eq_None: "ArpLookup t ip = None \<longleftrightarrow> ip \<notin> set (arp_keys t)"
  by (induction t) (auto simp: arp_keys_def)

lemma arp_keys_append [simp]: "arp_keys (xs @ ys) = arp_keys xs @ arp_keys ys"
  by (simp add: arp_keys_def)

lemma arp_keys_Cons [simp]:
  "arp_keys (e # es) = (if a_used e then [a_ip e] else []) @ arp_keys es"
  by (simp add: arp_keys_def)

lemma ArpLookup_append:
  "ArpLookup (xs @ ys) ip = (case ArpLookup xs ip of None \<Rightarrow> ArpLookup ys ip | Some m \<Rightarrow> Some m)"
  by (induction xs) auto

text \<open>
  What the search loop finds: the entry of the address when there is one, else the last
  free slot, else the slot it started from.
\<close>

lemma arp_slot_known:
  "ip \<in> set (arp_keys t) \<Longrightarrow>
     \<exists>xs e ys. t = xs @ e # ys \<and> a_used e \<and> a_ip e = ip \<and> ip \<notin> set (arp_keys xs)
       \<and> arp_slot t i n ip = i + length xs"
proof (induction t arbitrary: i n)
  case (Cons e t)
  show ?case
  proof (cases "a_used e \<and> a_ip e = ip")
    case True
    then show ?thesis by (intro exI [of _ "[]"] exI [of _ e] exI [of _ t]) (simp add: arp_keys_def)
  next
    case False
    with Cons.prems have "ip \<in> set (arp_keys t)" by (auto split: if_splits)
    from Cons.IH [OF this, of "i + 1" "if \<not> a_used e then i else n"] obtain xs e' ys where
      "t = xs @ e' # ys" "a_used e'" "a_ip e' = ip" "ip \<notin> set (arp_keys xs)"
      "arp_slot t (i + 1) (if \<not> a_used e then i else n) ip = i + 1 + length xs" by blast
    with False show ?thesis
      by (intro exI [of _ "e # xs"] exI [of _ e'] exI [of _ ys]) auto
  qed
qed (simp add: arp_keys_def)

lemma arp_slot_fresh:
  "ip \<notin> set (arp_keys t) \<Longrightarrow>
     (arp_full t \<and> arp_slot t i n ip = n) \<or>
     (\<exists>xs e ys. t = xs @ e # ys \<and> \<not> a_used e \<and> arp_slot t i n ip = i + length xs)"
proof (induction t arbitrary: i n)
  case (Cons e t)
  then have "ip \<notin> set (arp_keys t)" and ne: "\<not> (a_used e \<and> a_ip e = ip)" by (auto split: if_splits)
  from Cons.IH [OF this(1), of "i + 1" "if \<not> a_used e then i else n"]
  consider (full) "arp_full t" "arp_slot t (i + 1) (if \<not> a_used e then i else n) ip = (if \<not> a_used e then i else n)"
    | (free) xs e' ys where "t = xs @ e' # ys" "\<not> a_used e'"
        "arp_slot t (i + 1) (if \<not> a_used e then i else n) ip = i + 1 + length xs" by blast
  then show ?case
  proof cases
    case full
    show ?thesis
    proof (cases "a_used e")
      case True
      with full ne show ?thesis by (auto simp: arp_full_def)
    next
      case False
      with full ne show ?thesis by (intro disjI2 exI [of _ "[]"] exI [of _ e] exI [of _ t]) simp
    qed
  next
    case free
    with ne show ?thesis
      by (intro disjI2 exI [of _ "e # xs"] exI [of _ e'] exI [of _ ys]) auto
  qed
qed (simp add: arp_full_def)

text \<open>Where the insertion lands, with the entry it replaces.\<close>

lemma ArpInsert_splits:
  assumes "arp_inv t"
  obtains (known) xs e ys where "t = xs @ e # ys" "a_used e" "a_ip e = ip"
      "ArpInsert ip m t = xs @ \<lparr>a_ip = ip, a_mac = m, a_used = True\<rparr> # ys"
      "ip \<notin> set (arp_keys xs)" "ip \<notin> set (arp_keys ys)"
  | (free) xs e ys where "t = xs @ e # ys" "\<not> a_used e" "\<not> arp_full t" "ip \<notin> set (arp_keys t)"
      "ArpInsert ip m t = xs @ \<lparr>a_ip = ip, a_mac = m, a_used = True\<rparr> # ys"
  | (evict) e ys where "t = e # ys" "a_used e" "arp_full t" "ip \<notin> set (arp_keys t)"
      "ArpInsert ip m t = \<lparr>a_ip = ip, a_mac = m, a_used = True\<rparr> # ys"
proof (cases "ip \<in> set (arp_keys t)")
  case True
  from arp_slot_known [OF True, of 0 0] obtain xs e ys where
    "t = xs @ e # ys" "a_used e" "a_ip e = ip" "ip \<notin> set (arp_keys xs)"
    "arp_slot t 0 0 ip = length xs" by auto
  with assms show thesis by (intro known [of xs e ys]) (auto simp: ArpInsert_def arp_inv_def)
next
  case False
  from arp_slot_fresh [OF this, of 0 0] consider "arp_full t" "arp_slot t 0 0 ip = 0"
    | xs e ys where "t = xs @ e # ys" "\<not> a_used e" "arp_slot t 0 0 ip = length xs" by auto
  then show thesis
  proof cases
    case 1
    with assms obtain e ys where "t = e # ys" by (cases t) (auto simp: arp_inv_def ARP_N_def)
    with 1 False show thesis by (intro evict [of e ys]) (auto simp: ArpInsert_def arp_full_def)
  next
    case 2
    with False show thesis by (intro free [of xs e ys]) (auto simp: ArpInsert_def arp_full_def)
  qed
qed

lemma arp_inv_ArpInsert:
  assumes "arp_inv t"
  shows "arp_inv (ArpInsert ip m t)"
  using assms by (rule ArpInsert_splits [of t ip m]) (use assms in \<open>auto simp: arp_inv_def\<close>)

lemma ArpLookup_ArpInsert_same:
  assumes "arp_inv t"
  shows "ArpLookup (ArpInsert ip m t) ip = Some m"
  using assms
proof (rule ArpInsert_splits [of t ip m])
  fix xs e ys
  assume "ArpInsert ip m t = xs @ \<lparr>a_ip = ip, a_mac = m, a_used = True\<rparr> # ys"
    and "ip \<notin> set (arp_keys xs)"
  then show ?thesis by (simp add: ArpLookup_append ArpLookup_eq_None [symmetric])
next
  fix xs e ys
  assume "t = xs @ e # ys" and "ip \<notin> set (arp_keys t)"
    and "ArpInsert ip m t = xs @ \<lparr>a_ip = ip, a_mac = m, a_used = True\<rparr> # ys"
  then show ?thesis by (simp add: ArpLookup_append ArpLookup_eq_None [symmetric])
qed simp

lemma ArpLookup_ArpInsert_other:
  assumes "arp_inv t" and "ip' \<noteq> ip"
  shows "ArpLookup (ArpInsert ip m t) ip' = ArpLookup t ip'
       \<or> (arp_full t \<and> ArpLookup t ip = None \<and> ArpLookup (ArpInsert ip m t) ip' = None)"
  using assms(1)
proof (rule ArpInsert_splits [of t ip m])
  fix e ys
  assume t: "t = e # ys" "a_used e" "arp_full t" "ip \<notin> set (arp_keys t)"
    and ins: "ArpInsert ip m t = \<lparr>a_ip = ip, a_mac = m, a_used = True\<rparr> # ys"
  show ?thesis
  proof (cases "a_ip e = ip'")
    case True
    with assms t have "ip' \<notin> set (arp_keys ys)" by (auto simp: arp_inv_def)
    then have "ArpLookup ys ip' = None" by (simp add: ArpLookup_eq_None)
    with assms(2) t ins show ?thesis by (auto simp: ArpLookup_eq_None)
  qed (use t ins assms(2) in auto)
qed (use assms(2) in \<open>auto simp: ArpLookup_append split: option.splits\<close>)

interpretation arp: neighbor_cache ArpLookup ArpInsert arp_inv arp_full
proof unfold_locales
  fix c k v k'
  assume inv: "arp_inv c"
  show "ArpLookup (ArpInsert k v c) k = Some v" by (rule ArpLookup_ArpInsert_same [OF inv])
  show "arp_inv (ArpInsert k v c)" by (rule arp_inv_ArpInsert [OF inv])
  assume ne: "k' \<noteq> k"
  show "ArpLookup (ArpInsert k v c) k' = None \<or> ArpLookup (ArpInsert k v c) k' = ArpLookup c k'"
    using ArpLookup_ArpInsert_other [OF inv ne] by auto
  assume "\<not> arp_full c \<or> ArpLookup c k \<noteq> None"
  then show "ArpLookup (ArpInsert k v c) k' = ArpLookup c k'"
    using ArpLookup_ArpInsert_other [OF inv ne] by auto
qed

lemma ArpLookup_init: "ArpLookup arp_init ip = None"
  by (simp add: ArpLookup_eq_None arp_init_def arp_keys_def)

text \<open>
  After any run of insertions into the empty cache, the last address inserted is found
  with its hardware address, and any other lookup gives the newest insertion for that
  address or nothing: entries are lost to eviction, never mixed up or stale.
\<close>

theorem ArpInsert_run:
  "ArpLookup (fold (\<lambda>(ip, m). ArpInsert ip m) (kvs @ [(ip, m)]) arp_init) ip = Some m
   \<and> ArpLookup (fold (\<lambda>(ip, m). ArpInsert ip m) kvs arp_init) ip' \<in> {None, map_of (rev kvs) ip'}"
proof
  have "arp_inv (fold (\<lambda>(ip, m). ArpInsert ip m) kvs arp_init)" by (rule arp.invar_run [OF arp_inv_init])
  from arp.lookup_upd_same [OF this, of ip m]
  show "ArpLookup (fold (\<lambda>(ip, m). ArpInsert ip m) (kvs @ [(ip, m)]) arp_init) ip = Some m" by simp
  show "ArpLookup (fold (\<lambda>(ip, m). ArpInsert ip m) kvs arp_init) ip' \<in> {None, map_of (rev kvs) ip'}"
    using arp.lookup_run_fresh [OF arp_inv_init, of kvs ip'] by (auto simp: ArpLookup_init split: option.splits)
qed

end
