(* ===== verification/NetDns.thy ===== *)
theory NetDns
  imports Registry Flash Arp
begin

text \<open>
  The state of \<open>net/netif/netif.c\<close> and its DNS configuration: \<open>DnsIp\<close>, \<open>ParseIpStr\<close>,
  \<open>ReadRasDns\<close>, \<open>ReadRevivalConfig\<close>, \<open>WriteDnsServers\<close> and \<open>NetifApplyDns\<close>.

  The record \<open>netif\<close> has one field per static variable (the log throttles \<open>s_nTxLog\<close> and
  \<open>s_nRxLog\<close> apart, which only limit debug output), the registry, and \<open>evs\<close>, the calls
  made to the world in order. \<open>nenv\<close> is what the code is given: the registry functions,
  the BIOS flash calls, the contents of uninitialised stack arrays (\<open>ne_junk n\<close> for one of
  \<open>n\<close> bytes), and what the protocol stack's pool functions answer after a history of calls:
  \<open>ne_pkt\<close> a packet with its present buffer chain, \<open>ne_buf\<close> the buffers chained after the
  one whose memory is handed out; \<open>None\<close> is failure.
\<close>

unbundle bit_operations_syntax

datatype link = LkNone | LkNull | LkBba | LkW5500

datatype event =
    EvTx link "byte list"
  | EvIPInput "byte list list"
  | EvFreePacket
  | EvIfConfig u32 u32 nat nat
  | EvBootAddr wtext
  | EvPostMessage nat nat
  | EvForward nat
  | EvStartWorker

record ifnet =
  ifn_szName :: wtext
  ifn_dwMTU :: nat
  ifn_AllocatePacket :: bool
  ifn_IPInput :: bool
  ifn_IPInterfaceConfigure :: bool
  ifn_dwFlags :: u32

record 'r netif =
  s_pLink :: link
  s_pIfn :: "ifnet option"
  s_abMac :: "byte list"
  s_bHaveIP :: bool
  s_arp :: "arp_ent list"
  s_dwMyIP :: u32
  s_dwMask :: u32
  s_dwGw :: u32
  s_adwOffDns :: "u32 list"
  s_nOffDnsN :: nat
  s_dwRxBytes :: u32
  s_dwTxBytes :: u32
  s_dwStatTick :: u32
  s_dwRxPrev :: u32
  s_dwTxPrev :: u32
  s_dwRevivalDns :: u32
  s_dwRevivalMaster :: u32
  s_dwNatOrig :: u32
  s_dwNatTarget :: u32
  s_bRevivalRead :: bool
  s_nDhcpState :: nat
  s_dwOffIP :: u32
  s_dwOffMask :: u32
  s_dwOffGw :: u32
  s_dwOffSrv :: u32
  g_nUseDial :: bool
  s_bHwUp :: bool
  s_bDialed :: bool
  regs :: 'r
  evs :: "event list"

record 'r nenv =
  ne_reg :: "'r regsvc"
  ne_fr :: frsvc
  ne_junk :: "nat \<Rightarrow> byte list"
  ne_pkt :: "event list \<Rightarrow> byte list list option"
  ne_buf :: "event list \<Rightarrow> nat \<Rightarrow> byte list list option"

definition env_ok :: "'r nenv \<Rightarrow> bool" where
  "env_ok E \<longleftrightarrow> reg_laws (ne_reg E) \<and> fr_lawful (ne_fr E) \<and> (\<forall>n. length (ne_junk E n) = n)
     \<and> (\<forall>s n. FrInfo (ne_fr E) FR_PT_BLOCK_1 = BRet (s, n) \<longrightarrow> n < 32832)"

definition emit :: "event \<Rightarrow> 'r netif \<Rightarrow> 'r netif" where
  "emit e st = st\<lparr>evs := evs st @ [e]\<rparr>"

section \<open>Addresses\<close>

definition DnsIp :: "byte \<Rightarrow> byte \<Rightarrow> byte \<Rightarrow> byte \<Rightarrow> u32" where
  "DnsIp a b c d = ucast a OR push_bit 8 (ucast b) OR push_bit 16 (ucast c) OR push_bit 24 (ucast d)"

lemma DnsIp_eq: "DnsIp a b c d = le32 [a, b, c, d]"
  by (simp add: DnsIp_def le32_def)

text \<open>
  The loop of \<open>ParseIpStr\<close>: \<open>parts\<close> are the bytes of \<open>dwVal\<close> set so far (\<open>nPart\<close> of them),
  \<open>n\<close> the running number, an \<open>int\<close>. It stops at the terminator; \<open>None\<close> is running off the
  array.
\<close>

fun parse_ip :: "wchar list \<Rightarrow> byte list \<Rightarrow> u32 \<Rightarrow> bool \<Rightarrow> u32 option" where
  "parse_ip [] parts n bSeen = None"
| "parse_ip (c # cs) parts n bSeen =
     (if 0x30 \<le> c \<and> c \<le> 0x39
      then parse_ip cs parts (n * 10 + ucast (c - 0x30)) True
      else let parts = (if bSeen \<and> length parts < 4 then parts @ [ucast n] else parts)
           in if c = 0 then Some (if length parts = 4 then le32 parts else 0)
              else parse_ip cs parts 0 False)"

definition ParseIpStr :: "wchar list \<Rightarrow> u32 option" where
  "ParseIpStr psz = parse_ip psz [] 0 False"

section \<open>DNS sources\<close>

definition K_RasBook :: wtext where "K_RasBook = ws ''Comm'' @ [0x5C] @ ws ''RasBook''"
definition K_Netif :: wtext where "K_Netif = ws ''Comm'' @ [0x5C] @ ws ''Netif''"
definition K_Comm :: wtext where "K_Comm = ws ''Comm''"
definition V_Entry :: wtext where "V_Entry = ws ''Entry''"
definition V_DnsServers :: wtext where "V_DnsServers = ws ''DnsServers''"
definition V_RevivalDns :: wtext where "V_RevivalDns = ws ''RevivalDns''"
definition V_RevivalMaster :: wtext where "V_RevivalMaster = ws ''RevivalMaster''"

text \<open>\<open>sizeof(RASENTRY)\<close> and the offsets of \<open>ipaddrDns\<close> and \<open>ipaddrDnsAlt\<close> in it.\<close>

definition SIZEOF_RASENTRY :: nat where "SIZEOF_RASENTRY = 3276"
definition OFF_ipaddrDns :: nat where "OFF_ipaddrDns = 304"
definition OFF_ipaddrDnsAlt :: nat where "OFF_ipaddrDnsAlt = 308"

text \<open>The body of the entry loop: the servers one entry gives.\<close>

definition ras_entry_dns :: "'r regsvc \<Rightarrow> 'r \<Rightarrow> wtext \<Rightarrow> u32 list" where
  "ras_entry_dns R r achPath =
     (if reg_open R r achPath then
        (case reg_query R r achPath V_Entry SIZEOF_RASENTRY of
           Inr (t, re) \<Rightarrow>
             if OFF_ipaddrDnsAlt + 4 \<le> length re then
               let dwDns1 = le32 (take 4 (drop OFF_ipaddrDns re));
                   dwDns2 = le32 (take 4 (drop OFF_ipaddrDnsAlt re))
               in if dwDns1 \<noteq> 0 then dwDns1 # (if dwDns2 \<noteq> 0 then [dwDns2] else []) else []
             else []
         | Inl _ \<Rightarrow> [])
      else [])"

text \<open>The loop over the entries; \<open>None\<close> also stands for never returning.\<close>

partial_function (option) ras_scan :: "'r regsvc \<Rightarrow> 'r \<Rightarrow> nat \<Rightarrow> u32 list option" where
  "ras_scan R r i =
     (case reg_enum R r K_RasBook i 64 of
        None \<Rightarrow> Some []
      | Some achName \<Rightarrow>
          (case wcat 128 [K_RasBook, [0x5C], achName] of
             None \<Rightarrow> None
           | Some achPath \<Rightarrow>
               if ras_entry_dns R r achPath \<noteq> [] then Some (ras_entry_dns R r achPath)
               else ras_scan R r (i + 1)))"

definition ReadRasDns :: "'r regsvc \<Rightarrow> 'r \<Rightarrow> u32 list option" where
  "ReadRasDns R r = (if reg_open R r K_RasBook then ras_scan R r 0 else Some [])"

text \<open>One \<open>RegQueryValueExW\<close> of \<open>ReadRevivalConfig\<close> into the 64-byte \<open>achStr\<close>.\<close>

definition revival_query ::
  "'r regsvc \<Rightarrow> 'r \<Rightarrow> wtext \<Rightarrow> byte list \<Rightarrow> u32 \<Rightarrow> (byte list \<times> u32) option" where
  "revival_query R r val achStr dflt =
     (case reg_query R r K_Netif val 64 of
        Inr (t, d) \<Rightarrow> do {
          achStr \<leftarrow> wr_block achStr 0 d;
          if t = REG_SZ then do { v \<leftarrow> ParseIpStr (wchars achStr); Some (achStr, v) }
          else Some (achStr, dflt) }
      | Inl junk \<Rightarrow> Some (take 64 junk @ drop (length junk) achStr, dflt))"

definition ReadRevivalConfig :: "'r nenv \<Rightarrow> 'r netif \<Rightarrow> 'r netif option" where
  "ReadRevivalConfig E st =
     (if s_bRevivalRead st then Some st
      else
        let st = st\<lparr>s_bRevivalRead := True, s_dwRevivalDns := DnsIp 178 156 255 64,
                    s_dwRevivalMaster := 0\<rparr>
        in if reg_open (ne_reg E) (regs st) K_Netif then do {
             (achStr, dns) \<leftarrow> revival_query (ne_reg E) (regs st) V_RevivalDns
                                (ne_junk E 64) (s_dwRevivalDns st);
             (achStr, master) \<leftarrow> revival_query (ne_reg E) (regs st) V_RevivalMaster
                                   achStr (s_dwRevivalMaster st);
             Some (st\<lparr>s_dwRevivalDns := dns, s_dwRevivalMaster := master\<rparr>) }
           else Some st)"

section \<open>WriteDnsServers\<close>

definition set_off_dns :: "u32 list \<Rightarrow> 'r netif \<Rightarrow> 'r netif" where
  "set_off_dns ds st =
     st\<lparr>s_adwOffDns := ds @ drop (length ds) (s_adwOffDns st), s_nOffDnsN := length ds\<rparr>"

text \<open>\<open>for (j = n; j > 0; j--) a[j] = a[j - 1];\<close>\<close>

fun shift_down :: "nat \<Rightarrow> 'a list \<Rightarrow> 'a list" where
  "shift_down 0 a = a"
| "shift_down (Suc j) a = shift_down j (a[Suc j := a ! j])"

definition prepend_revival :: "'r netif \<Rightarrow> 'r netif" where
  "prepend_revival st =
     (let n = (if s_nOffDnsN st > 4 then 4 else s_nOffDnsN st)
      in st\<lparr>s_adwOffDns := (shift_down n (s_adwOffDns st))[0 := s_dwRevivalDns st],
            s_nOffDnsN := n + 1\<rparr>)"

definition dns_blob :: "u32 list \<Rightarrow> byte list" where
  "dns_blob ds = concat (map le32_bytes (word_of_nat (length ds) # ds))"

definition write_dns_value :: "'r regsvc \<Rightarrow> u32 list \<Rightarrow> 'r \<Rightarrow> 'r" where
  "write_dns_value R ds r =
     (let h = (if reg_open R r K_Comm then Some r else reg_create R r K_Comm)
      in case h of
           None \<Rightarrow> r
         | Some r \<Rightarrow> (case reg_set R r K_Comm V_DnsServers (REG_BINARY, dns_blob ds) of
                         None \<Rightarrow> r | Some r \<Rightarrow> r))"

text \<open>The list before the revival server: dial entry, then DHCP, flash and the public servers.\<close>

definition dns_sources :: "'r nenv \<Rightarrow> u32 list \<Rightarrow> 'r netif \<Rightarrow> 'r netif option" where
  "dns_sources E ras st =
     (let st = (if ras \<noteq> [] then set_off_dns ras st else st)
      in if s_nOffDnsN st = 0 then do {
           (nFlash, a, b) \<leftarrow> FlashromGetDns (ne_fr E) (ne_junk E 128) (0, 0);
           if nFlash > 0 then Some (set_off_dns (take nFlash [a, b]) st)
           else Some (set_off_dns [DnsIp 8 8 4 4, DnsIp 8 8 8 8] st) }
         else Some st)"

definition WriteDnsServers :: "'r nenv \<Rightarrow> 'r netif \<Rightarrow> 'r netif option" where
  "WriteDnsServers E st = do {
     ras \<leftarrow> ReadRasDns (ne_reg E) (regs st);
     st \<leftarrow> dns_sources E ras st;
     st \<leftarrow> ReadRevivalConfig E st;
     let st = (if s_dwRevivalDns st \<noteq> 0 \<and> ras = [] \<and> s_adwOffDns st ! 0 \<noteq> s_dwRevivalDns st
               then prepend_revival st else st);
     Some (st\<lparr>regs := write_dns_value (ne_reg E)
                        (take (s_nOffDnsN st) (s_adwOffDns st)) (regs st)\<rparr>) }"

definition NetifApplyDns :: "'r nenv \<Rightarrow> 'r netif \<Rightarrow> 'r netif option" where
  "NetifApplyDns E st = WriteDnsServers E st"

section \<open>Reading back a dotted address\<close>

text \<open>\<open>wsprintfW(b, L"%u.%u.%u.%u", ...)\<close>\<close>

fun dec :: "nat \<Rightarrow> wtext" where
  "dec n = (if n < 10 then [word_of_nat (48 + n)] else dec (n div 10) @ [word_of_nat (48 + n mod 10)])"

declare dec.simps [simp del]

definition dotted :: "byte list \<Rightarrow> wtext" where
  "dotted b = dec (unat (b ! 0)) @ [0x2E] @ dec (unat (b ! 1)) @ [0x2E]
     @ dec (unat (b ! 2)) @ [0x2E] @ dec (unat (b ! 3))"

lemma digit_char:
  assumes "d < 10"
  shows "(0x30 :: wchar) \<le> word_of_nat (48 + d)" "(word_of_nat (48 + d) :: wchar) \<le> 0x39"
    and "ucast (word_of_nat (48 + d) - (0x30 :: wchar)) = (word_of_nat d :: u32)"
proof -
  from assms have "d \<in> {0, 1, 2, 3, 4, 5, 6, 7, 8, 9}" by auto
  then show "(0x30 :: wchar) \<le> word_of_nat (48 + d)" "(word_of_nat (48 + d) :: wchar) \<le> 0x39"
    "ucast (word_of_nat (48 + d) - (0x30 :: wchar)) = (word_of_nat d :: u32)" by auto
qed

lemma parse_ip_dec:
  "parse_ip (dec n @ rest) parts 0 s = parse_ip rest parts (word_of_nat n) True"
proof (induction n arbitrary: rest s rule: dec.induct)
  case (1 n)
  show ?case
  proof (cases "n < 10")
    case True
    then show ?thesis using digit_char [OF True] by (subst dec.simps) simp
  next
    case False
    have d: "n mod 10 < 10" by simp
    have "(word_of_nat (n div 10) * 10 + word_of_nat (n mod 10) :: u32)
        = word_of_nat (n div 10 * 10 + n mod 10)" by (simp only: of_nat_add of_nat_mult of_nat_numeral)
    then have n: "(word_of_nat (n div 10) * 10 + word_of_nat (n mod 10) :: u32) = word_of_nat n"
      by (simp only: div_mult_mod_eq)
    show ?thesis
      using False "1.IH" [OF False, of "word_of_nat (48 + n mod 10) # rest" s] digit_char [OF d] n
      by (subst dec.simps) simp
  qed
qed

lemma parse_ip_dot: "length ps < 4 \<Longrightarrow> parse_ip (0x2E # rest) ps n True = parse_ip rest (ps @ [ucast n]) 0 False"
  by simp

lemma ucast_byte_u32 [simp]: "(ucast (ucast (b :: byte) :: u32) :: byte) = b"
  by (rule bit_word_eqI) (auto simp: bit_simps)

text \<open>\<open>ParseIpStr\<close> reads back every address the code prints, whatever follows the terminator.\<close>

theorem ParseIpStr_dotted:
  "ParseIpStr (dotted [a, b, c, d] @ 0 # junk) = Some (DnsIp a b c d)"
  by (simp add: ParseIpStr_def dotted_def parse_ip_dec parse_ip_dot DnsIp_eq del: parse_ip.simps)
     (simp)

section \<open>The list the resolver gets\<close>

definition nd_inv :: "'r netif \<Rightarrow> bool" where
  "nd_inv st \<longleftrightarrow> length (s_adwOffDns st) = 5 \<and> s_nOffDnsN st \<le> 5"

definition servers :: "'r netif \<Rightarrow> u32 list" where
  "servers st = take (s_nOffDnsN st) (s_adwOffDns st)"

definition dns_order :: "u32 list \<Rightarrow> u32 list \<Rightarrow> u32 list \<Rightarrow> u32 \<Rightarrow> u32 list" where
  "dns_order ras offered flash revival =
     (let base = (if ras \<noteq> [] then ras else if offered \<noteq> [] then offered
                  else if flash \<noteq> [] then flash else [DnsIp 8 8 4 4, DnsIp 8 8 8 8])
      in if revival \<noteq> 0 \<and> ras = [] \<and> hd base \<noteq> revival then revival # take 4 base else base)"

lemma shift_down_eq: "n < length a \<Longrightarrow> shift_down n a = a ! 0 # take n a @ drop (n + 1) a"
proof (induction n arbitrary: a)
  case 0
  then show ?case by (cases a) auto
next
  case (Suc j)
  then have "shift_down (Suc j) a = a ! 0 # take j a @ a ! j # drop (j + 2) a"
    by (simp add: drop_update_swap Cons_nth_drop_Suc [symmetric])
  with Suc.prems show ?case by (simp add: take_Suc_conv_app_nth)
qed

lemma servers_set_off_dns: "length ds \<le> 5 \<Longrightarrow> servers (set_off_dns ds st) = ds"
  by (simp add: servers_def set_off_dns_def)

lemma nd_inv_set_off_dns: "nd_inv st \<Longrightarrow> length ds \<le> 5 \<Longrightarrow> nd_inv (set_off_dns ds st)"
  by (simp add: nd_inv_def set_off_dns_def)

lemma prepend_revival_servers:
  assumes "nd_inv st"
  shows "servers (prepend_revival st) = s_dwRevivalDns st # take 4 (servers st)"
    and "nd_inv (prepend_revival st)"
proof -
  define n where "n = (if s_nOffDnsN st > 4 then 4 else s_nOffDnsN st)"
  have n: "n \<le> 4" "n < length (s_adwOffDns st)" "n = min 4 (s_nOffDnsN st)"
    using assms by (auto simp: n_def nd_inv_def)
  have eq: "prepend_revival st = st\<lparr>s_adwOffDns := s_dwRevivalDns st # take n (s_adwOffDns st)
      @ drop (n + 1) (s_adwOffDns st), s_nOffDnsN := n + 1\<rparr>"
    using shift_down_eq [OF n(2)] by (simp add: prepend_revival_def n_def [symmetric] Let_def)
  show "servers (prepend_revival st) = s_dwRevivalDns st # take 4 (servers st)"
    using n assms unfolding eq by (simp add: servers_def nd_inv_def min.commute)
  show "nd_inv (prepend_revival st)" using n assms unfolding eq by (simp add: nd_inv_def)
qed

lemma ras_entry_dns_length: "length (ras_entry_dns R r p) \<le> 2"
  by (auto simp: ras_entry_dns_def Let_def split: sum.splits prod.splits)

lemma ras_scan_total:
  assumes "reg_laws R"
  shows "reg_enum R r K_RasBook n 64 = None \<Longrightarrow> i \<le> n \<Longrightarrow>
     \<exists>ds. ras_scan R r i = Some ds \<and> length ds \<le> 2"
proof (induction "n - i" arbitrary: i)
  case 0
  then show ?case by (subst ras_scan.simps) simp
next
  case (Suc k)
  show ?case
  proof (cases "reg_enum R r K_RasBook i 64")
    case None
    then show ?thesis by (subst ras_scan.simps) simp
  next
    case (Some achName)
    with reg_enum_name [OF assms this] have "length (K_RasBook @ [0x5C] @ achName) < 128"
      by (simp add: K_RasBook_def ws_def)
    moreover have "i \<noteq> n" using Some Suc.prems by auto
    ultimately show ?thesis
      using Suc.hyps(1) [of "i + 1"] Suc.hyps(2) Suc.prems Some ras_entry_dns_length
      by (subst ras_scan.simps) (auto simp: wcat_def Let_def)
  qed
qed

text \<open>
  What termination and memory safety of the DNS set-up rest on: the dial book has finitely
  many entries, and a string stored under \<open>Comm\Netif\<close> is terminated within 64 bytes.
\<close>

definition reg_usable :: "'r regsvc \<Rightarrow> 'r \<Rightarrow> bool" where
  "reg_usable R r \<longleftrightarrow> (\<exists>n. reg_enum R r K_RasBook n 64 = None)
     \<and> (\<forall>v d. reg_query R r K_Netif v 64 = Inr (REG_SZ, d) \<longrightarrow> 0 \<in> set (wchars d))"

lemma ReadRasDns_total:
  assumes "reg_laws R" and "reg_usable R r"
  shows "\<exists>ds. ReadRasDns R r = Some ds \<and> length ds \<le> 2"
  using assms ras_scan_total [OF assms(1), of r _ 0] by (auto simp: ReadRasDns_def reg_usable_def)

lemma parse_ip_total: "0 \<in> set cs \<Longrightarrow> \<exists>v. parse_ip cs parts n s = Some v"
proof (induction cs arbitrary: parts n s)
  case (Cons c cs)
  show ?case
  proof (cases "c = 0")
    case False
    with Cons.prems have "0 \<in> set cs" by auto
    with False Cons.IH show ?thesis by (auto simp: Let_def)
  qed simp
qed simp

lemma wchars_append_zero: "0 \<in> set (wchars d) \<Longrightarrow> 0 \<in> set (wchars (d @ r))"
  by (induction d rule: wchars.induct) auto

lemma revival_query_total:
  assumes "reg_laws R" and "reg_usable R r" and "length buf = 64"
  shows "\<exists>b v. revival_query R r val buf d = Some (b, v) \<and> length b = 64"
proof (cases "reg_query R r K_Netif val 64")
  case (Inr x)
  obtain t dat where x: "x = (t, dat)" by fastforce
  have len: "length dat \<le> 64" using reg_query_length [OF assms(1) Inr] x by simp
  have w: "wr_block buf 0 dat = Some (dat @ drop (length dat) buf)"
    using len assms(3) by (simp add: wr_block_def)
  have "\<exists>v. ParseIpStr (wchars (dat @ drop (length dat) buf)) = Some v" if "t = REG_SZ"
    unfolding ParseIpStr_def
    by (rule parse_ip_total, rule wchars_append_zero)
       (use that assms(2) Inr x in \<open>auto simp: reg_usable_def\<close>)
  with w Inr x len assms(3) show ?thesis by (auto simp: revival_query_def)
qed (use assms(3) in \<open>simp add: revival_query_def\<close>)

lemma ReadRevivalConfig_total:
  assumes "env_ok E" and "reg_usable (ne_reg E) (regs st)"
  shows "\<exists>st'. ReadRevivalConfig E st = Some st'"
proof -
  have R: "reg_laws (ne_reg E)" and j: "length (ne_junk E 64) = 64" using assms(1) by (auto simp: env_ok_def)
  note q = revival_query_total [OF R assms(2)]
  obtain b v where 1: "revival_query (ne_reg E) (regs st) V_RevivalDns (ne_junk E 64) (DnsIp 178 156 255 64)
      = Some (b, v)" "length b = 64" using q [OF j] by blast
  obtain b' v' where "revival_query (ne_reg E) (regs st) V_RevivalMaster b 0 = Some (b', v')"
    using q [OF 1(2)] by blast
  with 1 show ?thesis by (simp add: ReadRevivalConfig_def Let_def)
qed

lemma ReadRevivalConfig_frame:
  assumes "ReadRevivalConfig E st = Some st'"
  shows "\<exists>d m. st' = st\<lparr>s_bRevivalRead := True, s_dwRevivalDns := d, s_dwRevivalMaster := m\<rparr>"
proof (cases "s_bRevivalRead st")
  case True
  with assms have "st' = st\<lparr>s_bRevivalRead := True, s_dwRevivalDns := s_dwRevivalDns st,
      s_dwRevivalMaster := s_dwRevivalMaster st\<rparr>" by (simp add: ReadRevivalConfig_def)
  then show ?thesis by blast
next
  case False
  with assms show ?thesis
    by (auto simp: ReadRevivalConfig_def Let_def bind_eq_Some_conv split: if_splits)
qed

lemma ReadRevivalConfig_once: "ReadRevivalConfig E st = Some st' \<Longrightarrow> s_bRevivalRead st'"
  using ReadRevivalConfig_frame by fastforce

text \<open>The fields the DNS set-up may change; it touches no other.\<close>

definition dns_clear :: "'r netif \<Rightarrow> 'r netif" where
  "dns_clear st = st\<lparr>s_adwOffDns := [], s_nOffDnsN := 0, s_dwRevivalDns := 0,
     s_dwRevivalMaster := 0, s_bRevivalRead := False, regs := undefined\<rparr>"

definition dns_upd :: "'r netif \<Rightarrow> 'r netif \<Rightarrow> bool" where
  "dns_upd st st' \<longleftrightarrow> dns_clear st' = dns_clear st"

lemma dns_upd_refl: "dns_upd st st"
  by (simp add: dns_upd_def)

lemma dns_upd_trans: "dns_upd a b \<Longrightarrow> dns_upd b c \<Longrightarrow> dns_upd a c"
  by (simp add: dns_upd_def)

lemma dns_upd_steps:
  "dns_upd st (set_off_dns ds st)" "dns_upd st (prepend_revival st)"
  "ReadRevivalConfig E st = Some st' \<Longrightarrow> dns_upd st st'" "dns_upd st (st\<lparr>regs := r\<rparr>)"
  using ReadRevivalConfig_frame [of E st st']
  by (auto simp: dns_upd_def dns_clear_def set_off_dns_def prepend_revival_def Let_def)

lemma dns_updD:
  assumes "dns_upd st st'"
  shows "s_pLink st' = s_pLink st
   \<and> s_pIfn st' = s_pIfn st
   \<and> s_abMac st' = s_abMac st
   \<and> s_bHaveIP st' = s_bHaveIP st
   \<and> s_arp st' = s_arp st
   \<and> s_dwMyIP st' = s_dwMyIP st
   \<and> s_dwMask st' = s_dwMask st
   \<and> s_dwGw st' = s_dwGw st
   \<and> s_dwRxBytes st' = s_dwRxBytes st
   \<and> s_dwTxBytes st' = s_dwTxBytes st
   \<and> s_dwStatTick st' = s_dwStatTick st
   \<and> s_dwRxPrev st' = s_dwRxPrev st
   \<and> s_dwTxPrev st' = s_dwTxPrev st
   \<and> s_dwNatOrig st' = s_dwNatOrig st
   \<and> s_dwNatTarget st' = s_dwNatTarget st
   \<and> s_nDhcpState st' = s_nDhcpState st
   \<and> s_dwOffIP st' = s_dwOffIP st
   \<and> s_dwOffMask st' = s_dwOffMask st
   \<and> s_dwOffGw st' = s_dwOffGw st
   \<and> s_dwOffSrv st' = s_dwOffSrv st
   \<and> g_nUseDial st' = g_nUseDial st
   \<and> s_bHwUp st' = s_bHwUp st
   \<and> s_bDialed st' = s_bDialed st
   \<and> evs st' = evs st"
proof -
  have eq: "dns_clear st' = dns_clear st" using assms by (simp add: dns_upd_def)
  show ?thesis
    using arg_cong [OF eq, of s_pLink]
      arg_cong [OF eq, of s_pIfn]
      arg_cong [OF eq, of s_abMac]
      arg_cong [OF eq, of s_bHaveIP]
      arg_cong [OF eq, of s_arp]
      arg_cong [OF eq, of s_dwMyIP]
      arg_cong [OF eq, of s_dwMask]
      arg_cong [OF eq, of s_dwGw]
      arg_cong [OF eq, of s_dwRxBytes]
      arg_cong [OF eq, of s_dwTxBytes]
      arg_cong [OF eq, of s_dwStatTick]
      arg_cong [OF eq, of s_dwRxPrev]
      arg_cong [OF eq, of s_dwTxPrev]
      arg_cong [OF eq, of s_dwNatOrig]
      arg_cong [OF eq, of s_dwNatTarget]
      arg_cong [OF eq, of s_nDhcpState]
      arg_cong [OF eq, of s_dwOffIP]
      arg_cong [OF eq, of s_dwOffMask]
      arg_cong [OF eq, of s_dwOffGw]
      arg_cong [OF eq, of s_dwOffSrv]
      arg_cong [OF eq, of g_nUseDial]
      arg_cong [OF eq, of s_bHwUp]
      arg_cong [OF eq, of s_bDialed]
      arg_cong [OF eq, of evs]
    by (simp add: dns_clear_def)
qed

lemma WriteDnsServers_frame:
  assumes "WriteDnsServers E st = Some st'"
  shows "dns_upd st st'"
proof -
  from assms obtain ras s2 s3 s4 where s2: "dns_sources E ras st = Some s2"
    and s3: "ReadRevivalConfig E s2 = Some s3"
    and s4: "s4 = (if s_dwRevivalDns s3 \<noteq> 0 \<and> ras = [] \<and> s_adwOffDns s3 ! 0 \<noteq> s_dwRevivalDns s3
       then prepend_revival s3 else s3)"
    and st': "st' = s4\<lparr>regs := write_dns_value (ne_reg E) (take (s_nOffDnsN s4) (s_adwOffDns s4)) (regs s4)\<rparr>"
    unfolding WriteDnsServers_def Let_def bind_eq_Some_conv by blast
  from s2 have "dns_upd st s2"
    using dns_upd_trans [OF dns_upd_steps(1) dns_upd_steps(1)]
    by (auto simp: dns_upd_steps(1) dns_upd_refl dns_sources_def Let_def bind_eq_Some_conv split: if_splits)
  moreover have "dns_upd s2 s3" by (rule dns_upd_steps(3) [OF s3])
  moreover have "dns_upd s3 s4" using s4 by (simp add: dns_upd_steps(2) dns_upd_refl)
  moreover have "dns_upd s4 st'" using st' by (simp add: dns_upd_steps(4))
  ultimately show ?thesis using dns_upd_trans by blast
qed

text \<open>The four stages of \<open>WriteDnsServers\<close>.\<close>

lemma WriteDnsServers_Some:
  assumes "WriteDnsServers E st = Some st'" and "nd_inv st" and "env_ok E"
    and "length ras \<le> 2" and "ReadRasDns (ne_reg E) (regs st) = Some ras"
  obtains flash st2 where
    "\<exists>n a b. FlashromGetDns (ne_fr E) (ne_junk E 128) (0, 0) = Some (n, a, b) \<and> flash = take n [a, b]"
    "s_bRevivalRead st2" "nd_inv st2" "regs st2 = regs st"
    "servers st2 = dns_order ras (servers st) flash (s_dwRevivalDns st2)"
    "s_dwRevivalDns st2 \<noteq> 0 \<Longrightarrow> ras \<noteq> [] \<or> s_adwOffDns st2 ! 0 = s_dwRevivalDns st2"
    "s_nOffDnsN st2 \<noteq> 0" "s_bRevivalRead st \<Longrightarrow> s_dwRevivalDns st2 = s_dwRevivalDns st"
    "st' = st2\<lparr>regs := write_dns_value (ne_reg E) (servers st2) (regs st)\<rparr>"
proof -
  obtain nF a b where fl: "FlashromGetDns (ne_fr E) (ne_junk E 128) (0, 0) = Some (nF, a, b)" "nF \<le> 2"
    using FlashromGetDns_safe [of "ne_fr E" "ne_junk E 128" "(0, 0)"] assms(3) by (auto simp: env_ok_def)
  define flash where "flash = take nF [a, b]"
  define s1 where "s1 = (if ras \<noteq> [] then set_off_dns ras st else st)"
  define s2 where "s2 = (if s_nOffDnsN s1 = 0 then
     (if nF > 0 then set_off_dns flash s1 else set_off_dns [DnsIp 8 8 4 4, DnsIp 8 8 8 8] s1) else s1)"
  define base where "base = (if ras \<noteq> [] then ras else if servers st \<noteq> [] then servers st
                  else if flash \<noteq> [] then flash else [DnsIp 8 8 4 4, DnsIp 8 8 8 8])"
  have flash: "length flash \<le> 2" "flash \<noteq> [] \<longleftrightarrow> nF > 0" using fl(2) by (auto simp: flash_def)
  have N: "s_nOffDnsN x = 0 \<longleftrightarrow> servers x = []" if "nd_inv x" for x :: "'a netif"
    using that by (auto simp: servers_def nd_inv_def)
  have s1: "nd_inv s1" "servers s1 = (if ras \<noteq> [] then ras else servers st)" "regs s1 = regs st"
    using assms(2,4) nd_inv_set_off_dns [OF assms(2), of ras] servers_set_off_dns [of ras st]
    by (auto simp: s1_def) (simp add: set_off_dns_def)
  have keep: "s_bRevivalRead s2 = s_bRevivalRead st" "s_dwRevivalDns s2 = s_dwRevivalDns st"
    by (simp_all add: s2_def s1_def set_off_dns_def)
  have s2: "nd_inv s2" "servers s2 = base" "regs s2 = regs st"
    using s1 flash nd_inv_set_off_dns [OF s1(1)] servers_set_off_dns [of _ s1] N [OF s1(1)]
    by (auto simp: s2_def base_def) (simp_all add: set_off_dns_def)
  have "base \<noteq> []" by (simp add: base_def)
  from assms(1,5) fl(1) obtain s3 where rc: "ReadRevivalConfig E s2 = Some s3"
    and st': "st' = (let s4 = (if s_dwRevivalDns s3 \<noteq> 0 \<and> ras = [] \<and> s_adwOffDns s3 ! 0 \<noteq> s_dwRevivalDns s3
               then prepend_revival s3 else s3)
        in s4\<lparr>regs := write_dns_value (ne_reg E) (servers s4) (regs s4)\<rparr>)"
    by (auto simp: WriteDnsServers_def dns_sources_def Let_def bind_eq_Some_conv servers_def s1_def
        s2_def flash_def split: if_splits)
  from ReadRevivalConfig_frame [OF rc] have s3: "s_adwOffDns s3 = s_adwOffDns s2"
    "s_nOffDnsN s3 = s_nOffDnsN s2" "regs s3 = regs st" "s_bRevivalRead s3" using s2(3) by auto
  then have s3': "nd_inv s3" "servers s3 = base" using s2 by (simp_all add: nd_inv_def servers_def)
  have hd: "hd base = s_adwOffDns s3 ! 0" 
    using \<open>base \<noteq> []\<close> s3'(2) by (metis hd_conv_nth nth_take servers_def length_greater_0_conv length_take min_less_iff_conj)
  define s4 where "s4 = (if s_dwRevivalDns s3 \<noteq> 0 \<and> ras = [] \<and> s_adwOffDns s3 ! 0 \<noteq> s_dwRevivalDns s3
               then prepend_revival s3 else s3)"
  have pr: "s_bRevivalRead (prepend_revival s3) = s_bRevivalRead s3" "regs (prepend_revival s3) = regs s3"
    "s_dwRevivalDns (prepend_revival s3) = s_dwRevivalDns s3" "s_nOffDnsN (prepend_revival s3) \<noteq> 0"
    by (simp_all add: prepend_revival_def Let_def)
  have p0: "s_adwOffDns (prepend_revival s3) ! 0 = s_dwRevivalDns s3"
    using prepend_revival_servers [OF s3'(1)] pr(4)
    by (simp add: servers_def) (metis list.sel(1) hd_conv_nth nth_take neq0_conv take_eq_Nil list.distinct(1))
  show thesis
  proof (rule that [of flash s4])
    show "servers s4 = dns_order ras (servers st) flash (s_dwRevivalDns s4)"
      using prepend_revival_servers(1) [OF s3'(1)] s3'(2) hd pr
      by (auto simp: s4_def dns_order_def base_def [symmetric] Let_def)
    show "st' = s4\<lparr>regs := write_dns_value (ne_reg E) (servers s4) (regs st)\<rparr>"
      using st' s3(3) pr by (auto simp: s4_def Let_def)
    show "nd_inv s4" "s_bRevivalRead s4" "regs s4 = regs st"
      using s3' s3 pr prepend_revival_servers(2) [OF s3'(1)] by (auto simp: s4_def)
    show "ras \<noteq> [] \<or> s_adwOffDns s4 ! 0 = s_dwRevivalDns s4" if "s_dwRevivalDns s4 \<noteq> 0"
      using that p0 pr by (auto simp: s4_def)
    show "s_dwRevivalDns s4 = s_dwRevivalDns st" if "s_bRevivalRead st"
      using that rc keep pr by (simp add: ReadRevivalConfig_def s4_def)
    show "s_nOffDnsN s4 \<noteq> 0"
      using N [OF s3'(1)] s3'(2) \<open>base \<noteq> []\<close> pr by (auto simp: s4_def)
  qed (use fl flash_def in blast)
qed

lemma dns_order_length:
  "length ras \<le> 2 \<Longrightarrow> length off \<le> 5 \<Longrightarrow> length flash \<le> 2 \<Longrightarrow>
     1 \<le> length (dns_order ras off flash rvl) \<and> length (dns_order ras off flash rvl) \<le> 5"
  by (auto simp: dns_order_def Let_def Suc_le_eq)

lemma length_servers: "nd_inv st \<Longrightarrow> length (servers st) = s_nOffDnsN st"
  by (simp add: servers_def nd_inv_def)

lemma WriteDnsServers_total:
  assumes "env_ok E" and "nd_inv st" and "reg_usable (ne_reg E) (regs st)"
  shows "\<exists>st'. WriteDnsServers E st = Some st'"
proof -
  have R: "reg_laws (ne_reg E)" using assms(1) by (simp add: env_ok_def)
  obtain ras where ras: "ReadRasDns (ne_reg E) (regs st) = Some ras"
    using ReadRasDns_total [OF R assms(3)] by blast
  obtain n a b where fl: "FlashromGetDns (ne_fr E) (ne_junk E 128) (0, 0) = Some (n, a, b)"
    using FlashromGetDns_safe [of "ne_fr E" "ne_junk E 128" "(0, 0)"] assms(1) by (auto simp: env_ok_def)
  have c: "\<exists>x'. ReadRevivalConfig E x = Some x'" if "regs x = regs st" for x
    using ReadRevivalConfig_total [OF assms(1), of x] that assms(3) by simp
  have [simp]: "regs (set_off_dns ds x) = regs x" for ds x by (simp add: set_off_dns_def)
  show ?thesis
    using ras fl c [of st] c [of "set_off_dns ras st"] c [of "set_off_dns (take n [a, b]) st"]
      c [of "set_off_dns (take n [a, b]) (set_off_dns ras st)"]
      c [of "set_off_dns [DnsIp 8 8 4 4, DnsIp 8 8 8 8] st"]
      c [of "set_off_dns [DnsIp 8 8 4 4, DnsIp 8 8 8 8] (set_off_dns ras st)"]
    by (auto simp: WriteDnsServers_def dns_sources_def Let_def)
qed

text \<open>
  The resolver list has one to five servers, in this order of preference: the servers of
  the user's dial entry; else those DHCP offered; else those of the system flash; else
  8.8.4.4 and 8.8.8.8. Unless the user set an entry, the revival resolver is put first
  (once). The set-up always completes and never leaves its arrays.
\<close>

theorem WriteDnsServers_order:
  assumes "env_ok E" and "nd_inv st" and "reg_usable (ne_reg E) (regs st)"
  shows "\<exists>st' ras n a b. WriteDnsServers E st = Some st'
     \<and> ReadRasDns (ne_reg E) (regs st) = Some ras
     \<and> FlashromGetDns (ne_fr E) (ne_junk E 128) (0, 0) = Some (n, a, b)
     \<and> servers st' = dns_order ras (servers st) (take n [a, b]) (s_dwRevivalDns st')
     \<and> s_nOffDnsN st' = length (servers st') \<and> 1 \<le> s_nOffDnsN st' \<and> s_nOffDnsN st' \<le> 5"
proof -
  have R: "reg_laws (ne_reg E)" using assms(1) by (simp add: env_ok_def)
  obtain ras where ras: "ReadRasDns (ne_reg E) (regs st) = Some ras" "length ras \<le> 2"
    using ReadRasDns_total [OF R assms(3)] by blast
  obtain st' where st': "WriteDnsServers E st = Some st'" using WriteDnsServers_total [OF assms] by blast
  from WriteDnsServers_Some [OF st' assms(2,1) ras(2,1)] obtain n a b st2 where
    fl: "FlashromGetDns (ne_fr E) (ne_junk E 128) (0, 0) = Some (n, a, b)"
    and inv: "nd_inv st2" and ord: "servers st2 = dns_order ras (servers st) (take n [a, b]) (s_dwRevivalDns st2)"
    and st2: "st' = st2\<lparr>regs := write_dns_value (ne_reg E) (servers st2) (regs st)\<rparr>"
    and N: "s_nOffDnsN st2 \<noteq> 0" by metis
  have eq: "servers st' = servers st2" "s_nOffDnsN st' = s_nOffDnsN st2"
    "s_dwRevivalDns st' = s_dwRevivalDns st2" using st2 by (simp_all add: servers_def)
  show ?thesis
    using st' ras(1) fl ord N inv length_servers [OF inv] unfolding eq [symmetric]
    by (intro exI [of _ st'] exI [of _ ras] exI [of _ n] exI [of _ a] exI [of _ b])
       (simp add: eq nd_inv_def)
qed

text \<open>What a resolver reads back from the value: the count, then that many addresses.\<close>

definition dns_unblob :: "byte list \<Rightarrow> u32 list" where
  "dns_unblob bs = map (\<lambda>i. le32 (take 4 (drop (4 * (i + 1)) bs))) [0 ..< unat (le32 (take 4 bs))]"

lemma nth_dns_blob:
  "i < length ds \<Longrightarrow> take 4 (drop (4 * i) (concat (map le32_bytes ds))) = le32_bytes (ds ! i)"
proof (induction ds arbitrary: i)
  case (Cons d ds)
  show ?case
  proof (cases i)
    case (Suc j)
    then have "drop (4 * i) (concat (map le32_bytes (d # ds))) = drop (4 * j) (concat (map le32_bytes ds))"
      by simp
    with Suc Cons show ?thesis by simp
  qed simp
qed simp

lemma dns_unblob_blob: "length ds < 2 ^ 32 \<Longrightarrow> dns_unblob (dns_blob ds) = ds"
proof (rule nth_equalityI)
  assume "length ds < 2 ^ 32"
  then have n: "unat (le32 (take 4 (dns_blob ds))) = length ds"
    by (simp add: dns_blob_def unat_of_nat)
  then show "length (dns_unblob (dns_blob ds)) = length ds" by (simp add: dns_unblob_def)
  fix i assume "i < length (dns_unblob (dns_blob ds))"
  then have i: "i < length ds" using n by (simp add: dns_unblob_def)
  have "take 4 (drop (4 * (i + 1)) (dns_blob ds)) = le32_bytes (ds ! i)"
    using nth_dns_blob [of "i + 1" "word_of_nat (length ds) # ds"] i by (simp add: dns_blob_def)
  then show "dns_unblob (dns_blob ds) ! i = ds ! i"
    using i n by (simp add: dns_unblob_def)
qed

lemma length_dns_blob: "length (dns_blob ds) = 4 * (length ds + 1)"
  by (induction ds) (auto simp: dns_blob_def)

text \<open>
  When \<open>Comm\<close> exists and the value can be set, \<open>DnsServers\<close> afterwards reads back as
  exactly the server list of the state, in the layout [count][address...].
\<close>

theorem WriteDnsServers_registry:
  assumes "env_ok E" and "nd_inv st" and "reg_usable (ne_reg E) (regs st)"
    and "reg_open (ne_reg E) (regs st) K_Comm"
    and "\<forall>x. reg_set (ne_reg E) (regs st) K_Comm V_DnsServers x \<noteq> None"
    and "WriteDnsServers E st = Some st'"
  shows "\<exists>blob. reg_query (ne_reg E) (regs st') K_Comm V_DnsServers 24 = Inr (REG_BINARY, blob)
           \<and> dns_unblob blob = servers st'"
proof -
  have R: "reg_laws (ne_reg E)" using assms(1) by (simp add: env_ok_def)
  obtain ras where ras: "ReadRasDns (ne_reg E) (regs st) = Some ras" "length ras \<le> 2"
    using ReadRasDns_total [OF R assms(3)] by blast
  from WriteDnsServers_Some [OF assms(6,2,1) ras(2,1)] obtain st2 where
    st2: "nd_inv st2" "st' = st2\<lparr>regs := write_dns_value (ne_reg E) (servers st2) (regs st)\<rparr>" by metis
  have eq: "servers st' = servers st2" using st2(2) by (simp add: servers_def)
  have len: "length (servers st2) \<le> 5" using st2(1) by (simp add: servers_def nd_inv_def)
  obtain r' where set: "reg_set (ne_reg E) (regs st) K_Comm V_DnsServers (REG_BINARY, dns_blob (servers st2)) = Some r'"
    using assms(5) by blast
  have "regs st' = r'" using st2(2) assms(4) set by (simp add: write_dns_value_def)
  moreover have "reg_query (ne_reg E) r' K_Comm V_DnsServers 24 = Inr (REG_BINARY, dns_blob (servers st2))"
    by (rule reg_query_set_same [OF R set]) (use len in \<open>simp add: length_dns_blob\<close>)
  moreover have "dns_unblob (dns_blob (servers st2)) = servers st'"
    using dns_unblob_blob [of "servers st2"] len eq by simp
  ultimately show ?thesis by blast
qed

section \<open>Applying the configuration again\<close>

lemma ras_scan_cong:
  assumes "reg_enum R r' = reg_enum R r" and "\<And>p. ras_entry_dns R r' p = ras_entry_dns R r p"
  shows "reg_enum R r K_RasBook n 64 = None \<Longrightarrow> i \<le> n \<Longrightarrow> ras_scan R r' i = ras_scan R r i"
proof (induction "n - i" arbitrary: i)
  case 0
  then show ?case using assms(1) by (subst (1 2) ras_scan.simps) simp
next
  case (Suc k)
  show ?case
  proof (cases "reg_enum R r K_RasBook i 64")
    case None
    then show ?thesis using assms(1) by (subst (1 2) ras_scan.simps) simp
  next
    case (Some a)
    then have "i \<noteq> n" using Suc.prems by auto
    then have "ras_scan R r' (i + 1) = ras_scan R r (i + 1)"
      using Suc.hyps(1) [of "i + 1"] Suc.hyps(2) Suc.prems by simp
    then show ?thesis using assms Some by (subst (1 2) ras_scan.simps) (simp split: option.splits)
  qed
qed

lemma ReadRasDns_after_write:
  assumes "reg_laws R" and "reg_usable R r" and "reg_open R r K_Comm"
  shows "ReadRasDns R (write_dns_value R ds r) = ReadRasDns R r"
proof (cases "reg_set R r K_Comm V_DnsServers (REG_BINARY, dns_blob ds)")
  case None
  with assms(3) show ?thesis by (simp add: write_dns_value_def)
next
  case (Some r')
  note fr = reg_set_frame [OF assms(1) Some]
  have "reg_query R r' p V_Entry cb = reg_query R r p V_Entry cb" for p cb
    by (rule reg_query_set_other [OF assms(1) Some]) (simp add: V_Entry_def V_DnsServers_def ws_def)
  then have "ras_entry_dns R r' p = ras_entry_dns R r p" for p
    by (simp add: ras_entry_dns_def fr)
  from ras_scan_cong [OF fr(2) this] assms(2)
  have "ras_scan R r' 0 = ras_scan R r 0" by (auto simp: reg_usable_def)
  with Some assms(3) fr show ?thesis by (simp add: write_dns_value_def ReadRasDns_def)
qed

lemma reg_usable_after_write:
  assumes "reg_laws R" and "reg_usable R r" and "reg_open R r K_Comm"
  shows "reg_usable R (write_dns_value R ds r)"
proof (cases "reg_set R r K_Comm V_DnsServers (REG_BINARY, dns_blob ds)")
  case None
  with assms show ?thesis by (simp add: write_dns_value_def)
next
  case (Some r')
  have "reg_query R r' K_Netif v cb = reg_query R r K_Netif v cb" for v cb
    by (rule reg_query_set_other [OF assms(1) Some]) (simp add: K_Netif_def K_Comm_def ws_def)
  with Some assms reg_set_frame [OF assms(1) Some] show ?thesis
    by (simp add: write_dns_value_def reg_usable_def)
qed

text \<open>
  \<open>NetifApplyDns\<close> may be called any number of times: a second call with nothing changed
  in between leaves the server list as it is; it overwrites and never appends.
\<close>

theorem NetifApplyDns_idempotent:
  assumes "env_ok E" and "nd_inv st" and "reg_usable (ne_reg E) (regs st)"
    and "reg_open (ne_reg E) (regs st) K_Comm"
    and "NetifApplyDns E st = Some st1"
  shows "\<exists>st2. NetifApplyDns E st1 = Some st2 \<and> servers st2 = servers st1"
proof -
  have R: "reg_laws (ne_reg E)" using assms(1) by (simp add: env_ok_def)
  obtain ras where ras: "ReadRasDns (ne_reg E) (regs st) = Some ras" "length ras \<le> 2"
    using ReadRasDns_total [OF R assms(3)] by blast
  from assms(5) have w1: "WriteDnsServers E st = Some st1" by (simp add: NetifApplyDns_def)
  from WriteDnsServers_Some [OF this assms(2,1) ras(2,1)] obtain flash x where
    x: "s_bRevivalRead x" "nd_inv x" "servers x = dns_order ras (servers st) flash (s_dwRevivalDns x)"
    "s_dwRevivalDns x \<noteq> 0 \<Longrightarrow> ras \<noteq> [] \<or> s_adwOffDns x ! 0 = s_dwRevivalDns x" "s_nOffDnsN x \<noteq> 0"
    "st1 = x\<lparr>regs := write_dns_value (ne_reg E) (servers x) (regs st)\<rparr>" by metis
  then have s1: "s_bRevivalRead st1" "nd_inv st1" "servers st1 = servers x" "servers st1 \<noteq> []"
    "s_dwRevivalDns st1 = s_dwRevivalDns x" "s_adwOffDns st1 = s_adwOffDns x"
    by (auto simp: nd_inv_def servers_def)
  have ras1: "ReadRasDns (ne_reg E) (regs st1) = Some ras"
    using ReadRasDns_after_write [OF R assms(3,4)] ras(1) x(6) by simp
  have "reg_usable (ne_reg E) (regs st1)"
    using reg_usable_after_write [OF R assms(3,4)] x(6) by simp
  from WriteDnsServers_total [OF assms(1) s1(2) this] obtain st2 where
    w2: "WriteDnsServers E st1 = Some st2" by blast
  from WriteDnsServers_Some [OF w2 s1(2) assms(1) ras(2) ras1] s1(1) obtain flash2 y where
    y: "servers y = dns_order ras (servers st1) flash2 (s_dwRevivalDns st1)"
    "st2 = y\<lparr>regs := write_dns_value (ne_reg E) (servers y) (regs st1)\<rparr>" by metis
  then have s2: "servers st2 = dns_order ras (servers st1) flash2 (s_dwRevivalDns st1)"
    by (simp add: servers_def)
  have "hd (servers st1) = s_adwOffDns st1 ! 0"
    using s1(4) by (metis hd_conv_nth nth_take servers_def length_greater_0_conv length_take min_less_iff_conj)
  then have "servers st2 = servers st1"
    using s2 x(3,4) s1 by (auto simp: dns_order_def Let_def split: if_splits)
  with w2 show ?thesis by (simp add: NetifApplyDns_def)
qed

text \<open>The registry stays usable, so the set-up can be repeated.\<close>

definition reg_ready :: "'r regsvc \<Rightarrow> 'r \<Rightarrow> bool" where
  "reg_ready R r \<longleftrightarrow> reg_usable R r \<and> reg_open R r K_Comm"

lemma reg_ready_write:
  assumes "reg_laws R" and "reg_ready R r"
  shows "reg_ready R (write_dns_value R ds r)"
proof (cases "reg_set R r K_Comm V_DnsServers (REG_BINARY, dns_blob ds)")
  case None
  with assms show ?thesis by (simp add: write_dns_value_def reg_ready_def)
next
  case (Some r')
  with assms reg_usable_after_write [OF assms(1), of r ds] reg_set_frame [OF assms(1) Some]
  show ?thesis by (simp add: write_dns_value_def reg_ready_def)
qed

lemma WriteDnsServers_ok:
  assumes "env_ok E" and "nd_inv st" and "reg_ready (ne_reg E) (regs st)"
  shows "ok (WriteDnsServers E st) (\<lambda>st'. dns_upd st st' \<and> nd_inv st' \<and> reg_ready (ne_reg E) (regs st'))"
proof -
  have R: "reg_laws (ne_reg E)" and u: "reg_usable (ne_reg E) (regs st)"
    using assms(1,3) by (simp_all add: env_ok_def reg_ready_def)
  obtain ras where ras: "ReadRasDns (ne_reg E) (regs st) = Some ras" "length ras \<le> 2"
    using ReadRasDns_total [OF R u] by blast
  obtain st' where st': "WriteDnsServers E st = Some st'"
    using WriteDnsServers_total [OF assms(1,2) u] by blast
  from WriteDnsServers_Some [OF st' assms(2,1) ras(2,1)] obtain st2 where
    "nd_inv st2" "st' = st2\<lparr>regs := write_dns_value (ne_reg E) (servers st2) (regs st)\<rparr>" by metis
  then have "nd_inv st'" "reg_ready (ne_reg E) (regs st')"
    using reg_ready_write [OF R assms(3)] by (simp_all add: nd_inv_def)
  with st' WriteDnsServers_frame [OF st'] show ?thesis by simp
qed

section \<open>Witnesses\<close>

text \<open>The default state at start-up, and an environment with a dial entry and no flash.\<close>

definition netif_init :: "'r \<Rightarrow> 'r netif" where
  "netif_init r = \<lparr>s_pLink = LkNone, s_pIfn = None, s_abMac = replicate 6 0, s_bHaveIP = False,
     s_arp = arp_init, s_dwMyIP = 0, s_dwMask = 0, s_dwGw = 0, s_adwOffDns = replicate 5 0,
     s_nOffDnsN = 0, s_dwRxBytes = 0, s_dwTxBytes = 0, s_dwStatTick = 0, s_dwRxPrev = 0,
     s_dwTxPrev = 0, s_dwRevivalDns = 0, s_dwRevivalMaster = 0, s_dwNatOrig = 0, s_dwNatTarget = 0,
     s_bRevivalRead = False, s_nDhcpState = 0, s_dwOffIP = 0, s_dwOffMask = 0, s_dwOffGw = 0,
     s_dwOffSrv = 0, g_nUseDial = False, s_bHwUp = False, s_bDialed = False, regs = r, evs = []\<rparr>"

definition sample_env :: "mregistry nenv" where
  "sample_env = \<lparr>ne_reg = mreg,
     ne_fr = \<lparr>FrInfo = (\<lambda>_. BErr), FrRead = (\<lambda>_ _. BErr)\<rparr>, ne_junk = (\<lambda>n. replicate n 0),
     ne_pkt = (\<lambda>_. Some []), ne_buf = (\<lambda>_ _. Some [])\<rparr>"

definition sample_reg :: mregistry where
  "sample_reg = [(K_Comm, []), (K_RasBook, []),
     (K_RasBook @ [0x5C] @ ws ''Desktop'', [(V_Entry, (REG_BINARY, replicate 304 0 @ [9, 9, 9, 9, 0, 0, 0, 0]))])]"

lemma sample_env_ok: "env_ok sample_env"
  by (simp add: env_ok_def sample_env_def mreg_laws fr_lawful_def)

lemma nd_inv_init: "nd_inv (netif_init r)"
  by (simp add: nd_inv_def netif_init_def)

lemma sample_usable:
  "reg_usable mreg sample_reg" "reg_open mreg sample_reg K_Comm"
  "\<forall>x. reg_set mreg sample_reg K_Comm V_DnsServers x \<noteq> None"
proof -
  have "mreg_children K_RasBook sample_reg = [ws ''Desktop'']" by code_simp
  then have "reg_enum mreg sample_reg K_RasBook 1 64 = None" by (simp add: mreg_def)
  moreover have "map_of sample_reg K_Netif = None" by code_simp
  ultimately show "reg_usable mreg sample_reg"
    unfolding reg_usable_def by (auto simp: mreg_def)
  show "reg_open mreg sample_reg K_Comm" "\<forall>x. reg_set mreg sample_reg K_Comm V_DnsServers x \<noteq> None"
    by (simp_all add: mreg_def sample_reg_def)
qed

lemma ReadRasDns_sample: "ReadRasDns mreg sample_reg = Some [DnsIp 9 9 9 9]"
proof -
  have "mreg_children K_RasBook sample_reg = [ws ''Desktop'']" by code_simp
  then have "reg_enum mreg sample_reg K_RasBook 0 64 = Some (ws ''Desktop'')" 
    by (simp add: mreg_def) (simp add: ws_def)
  moreover have "wcat 128 [K_RasBook, [0x5C], ws ''Desktop''] = Some (K_RasBook @ [0x5C] @ ws ''Desktop'')"
    by (simp add: wcat_def K_RasBook_def ws_def)
  moreover have "ras_entry_dns mreg sample_reg (K_RasBook @ [0x5C] @ ws ''Desktop'') = [DnsIp 9 9 9 9]"
    by code_simp
  moreover have "reg_open mreg sample_reg K_RasBook" by code_simp
  ultimately show ?thesis by (simp add: ReadRasDns_def ras_scan.simps)
qed

lemma WriteDnsServers_order_witness:
  "\<exists>st'. WriteDnsServers sample_env (netif_init sample_reg) = Some st' \<and> servers st' = [DnsIp 9 9 9 9]"
  using WriteDnsServers_order [OF sample_env_ok nd_inv_init [of sample_reg]] sample_usable ReadRasDns_sample
  by (auto simp: sample_env_def netif_init_def dns_order_def)

lemma WriteDnsServers_sample_total:
  "\<exists>st'. WriteDnsServers sample_env (netif_init sample_reg) = Some st'"
  by (rule WriteDnsServers_total [OF sample_env_ok nd_inv_init])
     (simp add: sample_env_def netif_init_def sample_usable)

lemma WriteDnsServers_registry_witness:
  "\<exists>st' blob. WriteDnsServers sample_env (netif_init sample_reg) = Some st'
     \<and> reg_query mreg (regs st') K_Comm V_DnsServers 24 = Inr (REG_BINARY, blob)
     \<and> dns_unblob blob = servers st'"
proof -
  obtain st' where st': "WriteDnsServers sample_env (netif_init sample_reg) = Some st'"
    using WriteDnsServers_sample_total by blast
  have E: "ne_reg sample_env = mreg" "regs (netif_init sample_reg) = sample_reg"
    by (simp_all add: sample_env_def netif_init_def)
  show ?thesis
    using WriteDnsServers_registry [OF sample_env_ok nd_inv_init _ _ _ st'] sample_usable st'
    unfolding E by blast
qed

lemma NetifApplyDns_idempotent_witness:
  "\<exists>st1 st2. NetifApplyDns sample_env (netif_init sample_reg) = Some st1
     \<and> NetifApplyDns sample_env st1 = Some st2 \<and> servers st2 = servers st1"
proof -
  obtain st1 where st1: "NetifApplyDns sample_env (netif_init sample_reg) = Some st1"
    using WriteDnsServers_sample_total by (auto simp: NetifApplyDns_def)
  have E: "ne_reg sample_env = mreg" "regs (netif_init sample_reg) = sample_reg"
    by (simp_all add: sample_env_def netif_init_def)
  show ?thesis
    using NetifApplyDns_idempotent [OF sample_env_ok nd_inv_init _ _ st1] sample_usable st1
    unfolding E by blast
qed

end
