(* ===== verification/Ras.thy ===== *)
theory Ras
  imports NetDns
begin

text \<open>
  \<open>net/netif/ras.c\<close>: the RAS exports over the registry dial book, and the instant
  connection. In modem mode (\<open>g_nUseDial\<close>) every export is forwarded to the original
  driver: \<open>fp n\<close> says whether the driver has ordinal \<open>n\<close>, and \<open>drv n\<close> is its effect on the
  registry with its return code. An operation returns its code, its out-parameters
  (\<open>None\<close> when the driver fills them) and the state; the outer \<open>option\<close> is \<open>None\<close> when the
  code overruns one of its arrays.
\<close>

type_synonym 'r dialdrv = "nat \<Rightarrow> 'r \<Rightarrow> nat \<times> 'r"
type_synonym ('o, 'r) rasres = "(nat \<times> 'o option \<times> 'r netif) option"

definition ERROR_ACCESS_DENIED :: nat where "ERROR_ACCESS_DENIED = 5"
definition ERROR_INVALID_PARAMETER :: nat where "ERROR_INVALID_PARAMETER = 87"
definition RASCS_Connected :: nat where "RASCS_Connected = 0x2000"
definition RASCS_Disconnected :: nat where "RASCS_Disconnected = 0x2001"
definition SIZEOF_RASENTRYNAME :: nat where "SIZEOF_RASENTRYNAME = 48"
definition RAS_MaxEntryName :: nat where "RAS_MaxEntryName = 20"

definition V_User :: wtext where "V_User = ws ''User''"
definition V_Domain :: wtext where "V_Domain = ws ''Domain''"
definition V_Password :: wtext where "V_Password = ws ''Password''"
definition N_Desktop :: wtext where "N_Desktop = ws ''Desktop''"

definition fwd :: "(nat \<Rightarrow> bool) \<Rightarrow> nat \<Rightarrow> 'r netif \<Rightarrow> bool" where
  "fwd fp n st \<longleftrightarrow> g_nUseDial st \<and> fp n"

definition forward :: "'r dialdrv \<Rightarrow> nat \<Rightarrow> 'r netif \<Rightarrow> nat \<times> 'o option \<times> 'r netif" where
  "forward drv n st = (let (rc, r) = drv n (regs st) in (rc, None, emit (EvForward n) (st\<lparr>regs := r\<rparr>)))"

section \<open>The connection\<close>

definition AfdRasDial ::
  "'r nenv \<Rightarrow> (nat \<Rightarrow> bool) \<Rightarrow> 'r dialdrv \<Rightarrow> u32 \<Rightarrow> nat \<Rightarrow> bool \<Rightarrow> 'r netif \<Rightarrow> (nat option, 'r) rasres"
  where
  "AfdRasDial E fp drv dwNotifierType pvNotifier phConn st =
     (if fwd fp 2 st then do {
        let (dwRc, out, st) = forward drv 2 st;
        st \<leftarrow> NetifApplyDns E st;
        Some (dwRc, out, st) }
      else do {
        let st = st\<lparr>s_bDialed := True\<rparr>;
        st \<leftarrow> NetifApplyDns E st;
        let st = (if dwNotifierType = 0xFFFFFFFF \<and> pvNotifier \<noteq> 0
                  then emit (EvPostMessage pvNotifier RASCS_Connected) st else st);
        Some (0, Some (if phConn then Some 1 else None), st) })"

definition AfdRasHangUp :: "(nat \<Rightarrow> bool) \<Rightarrow> 'r dialdrv \<Rightarrow> 'r netif \<Rightarrow> (unit, 'r) rasres" where
  "AfdRasHangUp fp drv st =
     Some (if fwd fp 8 st then forward drv 8 st else (0, Some (), st\<lparr>s_bDialed := False\<rparr>))"

definition AfdRasEnumConnections ::
  "(nat \<Rightarrow> bool) \<Rightarrow> 'r dialdrv \<Rightarrow> bool \<Rightarrow> 'r netif \<Rightarrow> (nat option, 'r) rasres" where
  "AfdRasEnumConnections fp drv pcCount st =
     Some (if fwd fp 3 st then forward drv 3 st
           else (0, Some (if pcCount then Some (if s_bDialed st then 1 else 0) else None), st))"

definition AfdRasGetConnectStatus ::
  "(nat \<Rightarrow> bool) \<Rightarrow> 'r dialdrv \<Rightarrow> bool \<Rightarrow> 'r netif \<Rightarrow> ((nat \<times> nat) option, 'r) rasres" where
  "AfdRasGetConnectStatus fp drv pStatus st =
     Some (if fwd fp 5 st then forward drv 5 st
           else (0, Some (if pStatus
                          then Some (if s_bDialed st then RASCS_Connected else RASCS_Disconnected, 0)
                          else None), st))"

section \<open>The dial book\<close>

definition OpenBook :: "'r regsvc \<Rightarrow> 'r \<Rightarrow> bool" where
  "OpenBook R r = reg_open R r K_RasBook"

text \<open>\<open>OpenEntry\<close>: the path in \<open>achPath[96]\<close>; the key opened or created, if it was.\<close>

definition OpenEntry :: "'r regsvc \<Rightarrow> wtext option \<Rightarrow> bool \<Rightarrow> 'r \<Rightarrow> ((wtext \<times> 'r) option) option" where
  "OpenEntry R pszName bCreate r = do {
     achPath \<leftarrow> wcat 96 [K_RasBook, [0x5C], case pszName of Some n \<Rightarrow> n | None \<Rightarrow> N_Desktop];
     Some (if bCreate then map_option (\<lambda>r. (achPath, r)) (reg_create R r achPath)
           else if reg_open R r achPath then Some (achPath, r) else None) }"

definition EnsureDefaultEntry :: "'r regsvc \<Rightarrow> 'r \<Rightarrow> 'r option" where
  "EnsureDefaultEntry R r =
     (if OpenBook R r \<and> reg_enum R r K_RasBook 0 64 \<noteq> None then Some r
      else do { e \<leftarrow> OpenEntry R (Some N_Desktop) True r;
                Some (case e of Some (_, r) \<Rightarrow> r | None \<Rightarrow> r) })"

definition ReadVal :: "'r regsvc \<Rightarrow> 'r \<Rightarrow> wtext \<Rightarrow> wtext \<Rightarrow> wchar list \<Rightarrow> wchar list" where
  "ReadVal R r h pszVal pvOut =
     (let cb = 2 * length pvOut; b = (wbytes pvOut)[0 := 0]
      in wchars (case reg_query R r h pszVal cb of
           Inr (t, d) \<Rightarrow> d @ drop (length d) b
         | Inl junk \<Rightarrow> take cb junk @ drop (length junk) b))"

text \<open>\<open>CopyN\<close>: at most \<open>n - 1\<close> characters and a terminator.\<close>

fun copy_n :: "nat \<Rightarrow> wchar list \<Rightarrow> wchar list option" where
  "copy_n 0 src = Some []"
| "copy_n (Suc k) [] = None"
| "copy_n (Suc k) (c # cs) = (if c = 0 then Some [] else map_option ((#) c) (copy_n k cs))"

definition CopyN :: "wchar list \<Rightarrow> nat \<Rightarrow> wchar list option" where
  "CopyN pszSrc n = map_option (\<lambda>s. s @ [0]) (copy_n (n - 1) pszSrc)"

text \<open>
  The entry loop of \<open>AfdRasEnumEntries\<close>: \<open>got\<close> are the entries stored so far
  (\<open>dwSize\<close>, \<open>szEntryName\<close>), \<open>room\<close> is \<open>*pcb\<close> when there is a buffer to fill.
\<close>

partial_function (option) enum_entries ::
  "'r regsvc \<Rightarrow> 'r \<Rightarrow> nat option \<Rightarrow> nat \<Rightarrow> (nat \<times> wchar list) list
     \<Rightarrow> (nat \<times> (nat \<times> wchar list) list) option" where
  "enum_entries R r room i got =
     (case reg_enum R r K_RasBook i 64 of
        None \<Rightarrow> Some (i, got)
      | Some achName \<Rightarrow>
          (case room of
             None \<Rightarrow> enum_entries R r room (i + 1) got
           | Some cb \<Rightarrow>
               if (length got + 1) * SIZEOF_RASENTRYNAME \<le> cb
               then (case CopyN (achName @ [0]) (RAS_MaxEntryName + 1) of
                       None \<Rightarrow> None
                     | Some nm \<Rightarrow> enum_entries R r room (i + 1) (got @ [(SIZEOF_RASENTRYNAME, nm)]))
               else enum_entries R r room (i + 1) got))"

record enum_out =
  eo_count :: nat
  eo_cb :: nat
  eo_entries :: "(nat \<times> wchar list) list"

definition AfdRasEnumEntries ::
  "'r regsvc \<Rightarrow> (nat \<Rightarrow> bool) \<Rightarrow> 'r dialdrv \<Rightarrow> bool \<Rightarrow> nat option \<Rightarrow> 'r netif \<Rightarrow> (enum_out, 'r) rasres" where
  "AfdRasEnumEntries R fp drv pEntries pcb st =
     (if fwd fp 4 st then Some (forward drv 4 st)
      else do {
        r \<leftarrow> EnsureDefaultEntry R (regs st);
        let st = st\<lparr>regs := r\<rparr>;
        if \<not> OpenBook R r then Some (0, Some \<lparr>eo_count = 0, eo_cb = 0, eo_entries = []\<rparr>, st)
        else do {
          (i, got) \<leftarrow> enum_entries R r (if pEntries then pcb else None) 0 [];
          Some (0, Some \<lparr>eo_count = i, eo_cb = i * SIZEOF_RASENTRYNAME, eo_entries = got\<rparr>, st) } })"

record rasdialparams =
  szEntryName :: "wchar list"
  szUserName :: "wchar list"
  szPassword :: "wchar list"
  szDomain :: "wchar list"

text \<open>A C string argument: what the array holds up to its terminator.\<close>

definition c_str :: "wchar list \<Rightarrow> wtext option" where
  "c_str a = map_option (\<lambda>n. take n a) (lstrlenW a)"

definition AfdRasGetEntryDialParams ::
  "'r regsvc \<Rightarrow> (nat \<Rightarrow> bool) \<Rightarrow> 'r dialdrv \<Rightarrow> rasdialparams option \<Rightarrow> 'r netif
     \<Rightarrow> (rasdialparams option \<times> bool, 'r) rasres" where
  "AfdRasGetEntryDialParams R fp drv pParams st =
     (if fwd fp 6 st then Some (forward drv 6 st)
      else case pParams of
        None \<Rightarrow> Some (ERROR_INVALID_PARAMETER, Some (None, False), st)
      | Some p \<Rightarrow> do {
          let p = p\<lparr>szUserName := (szUserName p)[0 := 0], szPassword := (szPassword p)[0 := 0],
                    szDomain := (szDomain p)[0 := 0]\<rparr>;
          name \<leftarrow> c_str (szEntryName p);
          e \<leftarrow> OpenEntry R (Some name) False (regs st);
          case e of
            None \<Rightarrow> Some (0, Some (Some p, False), st)
          | Some (h, r) \<Rightarrow>
              let p = p\<lparr>szUserName := ReadVal R r h V_User (szUserName p)\<rparr>;
                  p = p\<lparr>szDomain := ReadVal R r h V_Domain (szDomain p)\<rparr>;
                  p = p\<lparr>szPassword := ReadVal R r h V_Password (szPassword p)\<rparr>
              in Some (0, Some (Some p, szPassword p ! 0 \<noteq> 0), st) })"

definition reg_put :: "'r regsvc \<Rightarrow> wtext \<Rightarrow> wtext \<Rightarrow> regval \<Rightarrow> 'r \<Rightarrow> 'r" where
  "reg_put R h v x r = (case reg_set R r h v x of Some r \<Rightarrow> r | None \<Rightarrow> r)"

text \<open>\<open>(lstrlenW(a) + 1) * sizeof(WCHAR)\<close> bytes of \<open>a\<close>.\<close>

definition sz_bytes :: "wchar list \<Rightarrow> byte list option" where
  "sz_bytes a = map_option (\<lambda>n. wbytes (take (n + 1) a)) (lstrlenW a)"

definition AfdRasSetEntryDialParams ::
  "'r regsvc \<Rightarrow> (nat \<Rightarrow> bool) \<Rightarrow> 'r dialdrv \<Rightarrow> rasdialparams option \<Rightarrow> 'r netif \<Rightarrow> (unit, 'r) rasres" where
  "AfdRasSetEntryDialParams R fp drv pParams st =
     (if fwd fp 11 st then Some (forward drv 11 st)
      else case pParams of
        None \<Rightarrow> Some (ERROR_INVALID_PARAMETER, Some (), st)
      | Some p \<Rightarrow> do {
          name \<leftarrow> c_str (szEntryName p);
          e \<leftarrow> OpenEntry R (Some name) True (regs st);
          case e of
            None \<Rightarrow> Some (ERROR_ACCESS_DENIED, Some (), st)
          | Some (h, r) \<Rightarrow> do {
              u \<leftarrow> sz_bytes (szUserName p); let r = reg_put R h V_User (REG_SZ, u) r;
              d \<leftarrow> sz_bytes (szDomain p); let r = reg_put R h V_Domain (REG_SZ, d) r;
              w \<leftarrow> sz_bytes (szPassword p); let r = reg_put R h V_Password (REG_BINARY, w) r;
              Some (0, Some (), st\<lparr>regs := r\<rparr>) } })"

definition AfdRasSetEntryProperties ::
  "'r regsvc \<Rightarrow> (nat \<Rightarrow> bool) \<Rightarrow> 'r dialdrv \<Rightarrow> wtext option \<Rightarrow> byte list option \<Rightarrow> 'r netif \<Rightarrow> (unit, 'r) rasres"
  where
  "AfdRasSetEntryProperties R fp drv pszEntry pvProps st =
     (if fwd fp 12 st then Some (forward drv 12 st)
      else do {
        e \<leftarrow> OpenEntry R pszEntry True (regs st);
        case e of
          None \<Rightarrow> Some (ERROR_ACCESS_DENIED, Some (), st)
        | Some (h, r) \<Rightarrow>
            let r = (case pvProps of
                       Some bs \<Rightarrow> if bs \<noteq> [] then reg_put R h V_Entry (REG_BINARY, bs) r else r
                     | None \<Rightarrow> r)
            in Some (0, Some (), st\<lparr>regs := r\<rparr>) })"

text \<open>
  The out-parameter is what the query left: the bytes and size on success, \<open>Inl\<close> with the
  caller's size when the query failed or was not made; \<open>*pcb = 0\<close> when there is no entry.
\<close>

definition AfdRasGetEntryProperties ::
  "'r regsvc \<Rightarrow> (nat \<Rightarrow> bool) \<Rightarrow> 'r dialdrv \<Rightarrow> wtext option \<Rightarrow> bool \<Rightarrow> nat option \<Rightarrow> 'r netif
     \<Rightarrow> (nat option + byte list, 'r) rasres" where
  "AfdRasGetEntryProperties R fp drv pszEntry pvProps pcb st =
     (if fwd fp 7 st then Some (forward drv 7 st)
      else do {
        e \<leftarrow> OpenEntry R pszEntry False (regs st);
        case e of
          None \<Rightarrow> Some (0, Some (Inl (map_option (\<lambda>_. 0) pcb)), st)
        | Some (h, r) \<Rightarrow>
            Some (0, Some (case pcb of
              Some cb \<Rightarrow> if pvProps then (case reg_query R r h V_Entry cb of
                            Inr (t, d) \<Rightarrow> Inr d | Inl _ \<Rightarrow> Inl (Some cb)) else Inl (Some cb)
            | None \<Rightarrow> Inl None), st) })"

definition AfdRasValidateEntryName ::
  "'r regsvc \<Rightarrow> (nat \<Rightarrow> bool) \<Rightarrow> 'r dialdrv \<Rightarrow> wtext option \<Rightarrow> 'r netif \<Rightarrow> (unit, 'r) rasres" where
  "AfdRasValidateEntryName R fp drv pszEntry st =
     (if fwd fp 13 st then Some (forward drv 13 st)
      else do {
        e \<leftarrow> OpenEntry R pszEntry False (regs st);
        Some (if e \<noteq> None then 183 else 0, Some (), st) })"

definition AfdRasDeleteEntry ::
  "'r regsvc \<Rightarrow> (nat \<Rightarrow> bool) \<Rightarrow> 'r dialdrv \<Rightarrow> wtext option \<Rightarrow> 'r netif \<Rightarrow> (unit, 'r) rasres" where
  "AfdRasDeleteEntry R fp drv pszEntry st =
     (if fwd fp 1 st then Some (forward drv 1 st)
      else do {
        achPath \<leftarrow> wcat 96 [K_RasBook, [0x5C], case pszEntry of Some n \<Rightarrow> n | None \<Rightarrow> []];
        Some (0, Some (), st\<lparr>regs := reg_delete R (regs st) achPath\<rparr>) })"

definition AfdRasRenameEntry :: "(nat \<Rightarrow> bool) \<Rightarrow> 'r dialdrv \<Rightarrow> 'r netif \<Rightarrow> (unit, 'r) rasres" where
  "AfdRasRenameEntry fp drv st = Some (if fwd fp 10 st then forward drv 10 st else (0, Some (), st))"

definition AfdRasIOControl :: "(nat \<Rightarrow> bool) \<Rightarrow> 'r dialdrv \<Rightarrow> 'r netif \<Rightarrow> (unit, 'r) rasres" where
  "AfdRasIOControl fp drv st = Some (if fwd fp 9 st then forward drv 9 st else (0, Some (), st))"

section \<open>The dial parameters come back\<close>

text \<open>The registry has room: setting a value of an existing key succeeds.\<close>

definition reg_writable :: "'r regsvc \<Rightarrow> bool" where
  "reg_writable R \<longleftrightarrow> (\<forall>r p v x. reg_open R r p \<longrightarrow> reg_set R r p v x \<noteq> None)"

lemma reg_put_laws:
  assumes "reg_laws R" and "reg_writable R" and "reg_open R r h"
  shows "length (snd x) \<le> cb \<Longrightarrow> reg_query R (reg_put R h v x r) h v cb = Inr x"
    and "length w \<noteq> length v \<or> length q \<noteq> length h \<Longrightarrow>
           reg_query R (reg_put R h v x r) q w cb = reg_query R r q w cb"
    and "reg_open R (reg_put R h v x r) = reg_open R r"
    and "reg_enum R (reg_put R h v x r) = reg_enum R r"
proof -
  have "reg_set R r h v x \<noteq> None" using assms(2,3) unfolding reg_writable_def by blast
  then obtain r' where r': "reg_set R r h v x = Some r'" by blast
  then have eq: "reg_put R h v x r = r'" by (simp add: reg_put_def)
  show "length (snd x) \<le> cb \<Longrightarrow> reg_query R (reg_put R h v x r) h v cb = Inr x"
    unfolding eq by (rule reg_query_set_same [OF assms(1) r'])
  show "reg_query R (reg_put R h v x r) q w cb = reg_query R r q w cb"
    if "length w \<noteq> length v \<or> length q \<noteq> length h"
    unfolding eq by (rule reg_query_set_other [OF assms(1) r']) (use that in auto)
  show "reg_open R (reg_put R h v x r) = reg_open R r" "reg_enum R (reg_put R h v x r) = reg_enum R r"
    unfolding eq by (rule reg_set_frame [OF assms(1) r'])+
qed

lemma lstrlenW_less: "lstrlenW a = Some n \<Longrightarrow> n < length a \<and> n = length (cstr a)"
proof -
  assume a: "lstrlenW a = Some n"
  then have n: "n = length (cstr a)" and "0 \<in> set a" by (auto simp: lstrlenW_def split: if_splits)
  then obtain ys where "a = cstr a @ 0 # ys" using cstr_split by blast
  then have "length a = length (cstr a) + 1 + length ys"
    by (metis add_Suc_right length_Cons length_append Suc_eq_plus1 add.assoc plus_1_eq_Suc)
  with n show ?thesis by simp
qed

lemma sz_bytes_Some: "sz_bytes a = Some u \<Longrightarrow> u = wbytes (cstr a @ [0]) \<and> length u \<le> 2 * length a"
  using lstrlenW_Some [of a] lstrlenW_less [of a] by (auto simp: sz_bytes_def)

lemma c_str_Some: "c_str a = Some n \<Longrightarrow> n = cstr a"
  using lstrlenW_Some [of a] lstrlenW_less [of a] by (auto simp: c_str_def)
    (metis append_eq_conv_conj take_Suc_conv_app_nth butlast_snoc butlast_take less_eq_Suc_le
      diff_Suc_1 One_nat_def Suc_eq_plus1)

lemma ReadVal_stored:
  assumes "reg_query R r h v (2 * length a) = Inr (t, wbytes (s @ [0]))" and "0 \<notin> set s"
  shows "cstr (ReadVal R r h v a) = s" and "ReadVal R r h v a ! 0 = (s @ [0]) ! 0"
  using assms by (simp_all add: ReadVal_def nth_append)

lemma first_char: "0 \<notin> set s \<Longrightarrow> (s @ [0]) ! 0 = (0 :: wchar) \<longleftrightarrow> s = []"
  by (cases s) auto

lemma OpenEntry_Some:
  "OpenEntry R (Some n) c r = Some e \<longleftrightarrow> length n \<le> 82 \<and>
     e = (let p = K_RasBook @ [0x5C] @ n in
          if c then map_option (\<lambda>r. (p, r)) (reg_create R r p)
          else if reg_open R r p then Some (p, r) else None)"
  by (auto simp: OpenEntry_def wcat_def Let_def K_RasBook_def ws_def)

lemma reg_put_frame:
  "reg_laws R \<Longrightarrow> reg_open R (reg_put R h v x r) = reg_open R r"
  "reg_laws R \<Longrightarrow> reg_enum R (reg_put R h v x r) = reg_enum R r"
  by (auto simp: reg_put_def reg_set_frame split: option.splits)

lemma AfdRasSetEntryDialParams_Some:
  assumes "AfdRasSetEntryDialParams R fp drv (Some p) st = Some (0, out, st')" and "\<not> fwd fp 11 st"
  obtains name u d w r h where "c_str (szEntryName p) = Some name" "length name \<le> 82"
    "h = K_RasBook @ [0x5C] @ name" "reg_create R (regs st) h = Some r"
    "sz_bytes (szUserName p) = Some u" "sz_bytes (szDomain p) = Some d" "sz_bytes (szPassword p) = Some w"
    "st' = st\<lparr>regs := reg_put R h V_Password (REG_BINARY, w)
        (reg_put R h V_Domain (REG_SZ, d) (reg_put R h V_User (REG_SZ, u) r))\<rparr>"
  using assms
  by (auto simp: AfdRasSetEntryDialParams_def bind_eq_Some_conv OpenEntry_Some Let_def
      ERROR_ACCESS_DENIED_def split: option.splits)

lemma val_lengths: "length V_User = 4" "length V_Domain = 6" "length V_Password = 8" "length V_Entry = 5"
  "length V_DnsServers = 10" "length K_RasBook = 12" "length K_Comm = 4" "length K_Netif = 10"
  by (simp_all add: V_User_def V_Domain_def V_Password_def V_Entry_def V_DnsServers_def K_RasBook_def
      K_Comm_def K_Netif_def ws_def)

text \<open>
  C40: the dial parameters a title stores with \<open>AfdRasSetEntryDialParams\<close> are the ones
  \<open>AfdRasGetEntryDialParams\<close> returns, user, domain and password alike; the password flag
  tells whether there is one.
\<close>

theorem AfdRas_dial_params_roundtrip:
  assumes "reg_laws R" and "reg_writable R" and "\<not> fwd fp 11 st" and "\<not> fwd fp 6 st"
    and "AfdRasSetEntryDialParams R fp drv (Some p) st = Some (0, out, st')"
    and "szEntryName q = szEntryName p"
    and "length (szUserName q) = length (szUserName p)" and "length (szDomain q) = length (szDomain p)"
    and "length (szPassword q) = length (szPassword p)"
  shows "\<exists>q' pw. AfdRasGetEntryDialParams R fp drv (Some q) st' = Some (0, Some (Some q', pw), st')
     \<and> cstr (szUserName q') = cstr (szUserName p) \<and> cstr (szDomain q') = cstr (szDomain p)
     \<and> cstr (szPassword q') = cstr (szPassword p) \<and> (pw \<longleftrightarrow> cstr (szPassword p) \<noteq> [])"
proof -
  from AfdRasSetEntryDialParams_Some [OF assms(5,3)] obtain name u d w r h where
    name: "c_str (szEntryName p) = Some name" "length name \<le> 82" and h: "h = K_RasBook @ [0x5C] @ name"
    and r: "reg_create R (regs st) h = Some r"
    and u: "sz_bytes (szUserName p) = Some u" and d: "sz_bytes (szDomain p) = Some d"
    and w: "sz_bytes (szPassword p) = Some w"
    and st': "st' = st\<lparr>regs := reg_put R h V_Password (REG_BINARY, w)
        (reg_put R h V_Domain (REG_SZ, d) (reg_put R h V_User (REG_SZ, u) r))\<rparr>" by metis
  define r1 where "r1 = reg_put R h V_User (REG_SZ, u) r"
  define r2 where "r2 = reg_put R h V_Domain (REG_SZ, d) r1"
  define r3 where "r3 = reg_put R h V_Password (REG_BINARY, w) r2"
  have o: "reg_open R r h" "reg_open R r1 h" "reg_open R r2 h" "reg_open R r3 h"
    using reg_create_laws(1) [OF assms(1) r] by (simp_all add: r1_def r2_def r3_def reg_put_frame assms(1))
  note L = reg_put_laws [OF assms(1,2)]
  note su = sz_bytes_Some [OF u] and sd = sz_bytes_Some [OF d] and sw = sz_bytes_Some [OF w]
  have qw: "reg_query R r3 h V_Password (2 * length (szPassword q)) = Inr (REG_BINARY, w)"
    unfolding r3_def by (rule L(1) [OF o(3)]) (use sw assms(9) in auto)
  have "reg_query R r2 h V_Domain (2 * length (szDomain q)) = Inr (REG_SZ, d)"
    unfolding r2_def by (rule L(1) [OF o(2)]) (use sd assms(8) in auto)
  then have qd: "reg_query R r3 h V_Domain (2 * length (szDomain q)) = Inr (REG_SZ, d)"
    unfolding r3_def using L(2) [OF o(3)] by (simp add: val_lengths)
  have "reg_query R r1 h V_User (2 * length (szUserName q)) = Inr (REG_SZ, u)"
    unfolding r1_def by (rule L(1) [OF o(1)]) (use su assms(7) in auto)
  then have qu: "reg_query R r3 h V_User (2 * length (szUserName q)) = Inr (REG_SZ, u)"
    unfolding r3_def r2_def using L(2) [OF o(3)] L(2) [OF o(2)] by (simp add: val_lengths r2_def)
  have R3: "regs st' = r3" "\<not> fwd fp 6 st'" using st' assms(4) by (simp_all add: r1_def r2_def r3_def fwd_def)
  have op: "OpenEntry R (Some name) False (regs st') = Some (Some (h, r3))"
    using name(2) h o(4) R3(1) by (simp add: OpenEntry_Some)
  note rv = ReadVal_stored [where R = R and r = r3 and h = h]
  show ?thesis
    using R3(2) op name(1) assms(6) su sd sw qu qd qw cstr_no_zero
      first_char [OF cstr_no_zero, of "szPassword p"]
      rv [of V_User "(szUserName q)[0 := 0]" _ "cstr (szUserName p)"]
      rv [of V_Domain "(szDomain q)[0 := 0]" _ "cstr (szDomain p)"]
      rv [of V_Password "(szPassword q)[0 := 0]" _ "cstr (szPassword p)"]
    by (simp add: AfdRasGetEntryDialParams_def)
qed

section \<open>Array bounds\<close>

lemma OpenEntry_None: "OpenEntry R (Some name) c r = None \<longleftrightarrow> 82 < length name"
  by (auto simp: OpenEntry_def wcat_def Let_def val_lengths)

text \<open>
  The entry path is built in 96 characters. An entry name of up to 82 characters fits;
  a longer one makes every operation that opens an entry, or deletes one, write past the
  array.
\<close>

theorem OpenEntry_overflow_iff:
  assumes "\<not> g_nUseDial st"
  shows "(AfdRasSetEntryProperties R fp drv (Some name) props st = None \<longleftrightarrow> 82 < length name)
    \<and> (AfdRasGetEntryProperties R fp drv (Some name) pv pcb st = None \<longleftrightarrow> 82 < length name)
    \<and> (AfdRasValidateEntryName R fp drv (Some name) st = None \<longleftrightarrow> 82 < length name)
    \<and> (AfdRasDeleteEntry R fp drv (Some name) st = None \<longleftrightarrow> 82 < length name)"
proof (intro conjI)
  show "AfdRasSetEntryProperties R fp drv (Some name) props st = None \<longleftrightarrow> 82 < length name"
    using assms OpenEntry_None [where R = R and name = name and c = True and r = "regs st"]
    by (cases "OpenEntry R (Some name) True (regs st)")
       (auto simp: AfdRasSetEntryProperties_def fwd_def Let_def split: option.splits)
  show "AfdRasGetEntryProperties R fp drv (Some name) pv pcb st = None \<longleftrightarrow> 82 < length name"
    using assms OpenEntry_None [where R = R and name = name and c = False and r = "regs st"]
    by (cases "OpenEntry R (Some name) False (regs st)")
       (auto simp: AfdRasGetEntryProperties_def fwd_def split: option.splits)
  show "AfdRasValidateEntryName R fp drv (Some name) st = None \<longleftrightarrow> 82 < length name"
    using assms OpenEntry_None [where R = R and name = name and c = False and r = "regs st"]
    by (cases "OpenEntry R (Some name) False (regs st)") (auto simp: AfdRasValidateEntryName_def fwd_def)
  show "AfdRasDeleteEntry R fp drv (Some name) st = None \<longleftrightarrow> 82 < length name"
    using assms
    by (auto simp: AfdRasDeleteEntry_def fwd_def bind_eq_None_conv wcat_def Let_def val_lengths)
qed

section \<open>Enumerating the book\<close>

lemma copy_n_terminated:
  "0 \<notin> set n \<Longrightarrow> copy_n k (n @ [0]) = Some (take k n)"
proof (induction n arbitrary: k)
  case Nil
  then show ?case by (cases k) auto
next
  case (Cons c n)
  then show ?case by (cases k) auto
qed

definition entry_of :: "wtext \<Rightarrow> nat \<times> wchar list" where
  "entry_of n = (48, take 20 n @ [0])"

lemma enum_entries_run:
  assumes "reg_laws R"
  shows "i \<le> length ns \<Longrightarrow> (\<forall>k < length ns. reg_enum R r K_RasBook k 64 = Some (ns ! k)) \<Longrightarrow>
     reg_enum R r K_RasBook (length ns) 64 = None \<Longrightarrow>
     enum_entries R r room i got = Some (length ns, got @
       (case room of None \<Rightarrow> []
        | Some cb \<Rightarrow> map entry_of (take (cb div 48 - length got) (drop i ns))))"
proof (induction "length ns - i" arbitrary: i got)
  case 0
  then show ?case by (subst enum_entries.simps) (auto split: option.splits)
next
  case (Suc k)
  then have i: "i < length ns" by simp
  with Suc.prems have e: "reg_enum R r K_RasBook i 64 = Some (ns ! i)" by blast
  from reg_enum_name [OF assms e] have nz: "0 \<notin> set (ns ! i)" by simp
  note IH = Suc.hyps(1) [of "i + 1"]
  have d: "drop i ns = ns ! i # drop (i + 1) ns" using i by (simp add: Cons_nth_drop_Suc)
  show ?case
  proof (cases room)
    case None
    then show ?thesis using IH [of got] i e Suc.hyps(2) Suc.prems
      by (subst enum_entries.simps) simp
  next
    case (Some cb)
    show ?thesis
    proof (cases "(length got + 1) * 48 \<le> cb")
      case True
      then have "cb div 48 - length got = Suc (cb div 48 - Suc (length got))"
        by (metis Suc_diff_Suc Suc_eq_plus1 Suc_le_eq less_eq_div_iff_mult_less_eq zero_less_numeral)
      moreover have "CopyN (ns ! i @ [0]) (RAS_MaxEntryName + 1) = Some (take 20 (ns ! i) @ [0])"
        using copy_n_terminated [OF nz, of 20] by (simp add: CopyN_def RAS_MaxEntryName_def)
      ultimately show ?thesis
        using IH [of "got @ [entry_of (ns ! i)]"] i e Suc.hyps(2) Suc.prems True Some d
        by (subst enum_entries.simps) (simp add: SIZEOF_RASENTRYNAME_def entry_of_def)
    next
      case False
      then have "cb div 48 \<le> length got"
        by (metis Suc_eq_plus1 leI less_eq_div_iff_mult_less_eq not_less_eq_eq zero_less_numeral)
      then show ?thesis
        using IH [of got] i e Suc.hyps(2) Suc.prems False Some
        by (subst enum_entries.simps) (simp add: SIZEOF_RASENTRYNAME_def)
    qed
  qed
qed

text \<open>
  The two-call protocol of \<open>RasEnumEntries\<close>. For a book with the entries \<open>ns\<close>, a call
  without a buffer reports how many there are and the size needed, a call with any buffer
  writes only the entries that fit it, and a call with the size reported gets them all,
  each name cut to 20 characters and terminated.
\<close>

theorem AfdRasEnumEntries_two_calls:
  assumes "reg_laws R" and "\<not> fwd fp 4 st" and "OpenBook R (regs st)" and "ns \<noteq> []"
    and "\<forall>k < length ns. reg_enum R (regs st) K_RasBook k 64 = Some (ns ! k)"
    and "reg_enum R (regs st) K_RasBook (length ns) 64 = None"
  shows "AfdRasEnumEntries R fp drv False pcb st
           = Some (0, Some \<lparr>eo_count = length ns, eo_cb = length ns * 48, eo_entries = []\<rparr>, st)
    \<and> (\<forall>cb. AfdRasEnumEntries R fp drv True (Some cb) st
           = Some (0, Some \<lparr>eo_count = length ns, eo_cb = length ns * 48,
                            eo_entries = map entry_of (take (cb div 48) ns)\<rparr>, st))
    \<and> AfdRasEnumEntries R fp drv True (Some (length ns * 48)) st
           = Some (0, Some \<lparr>eo_count = length ns, eo_cb = length ns * 48,
                            eo_entries = map entry_of ns\<rparr>, st)"
proof -
  have "reg_enum R (regs st) K_RasBook 0 64 = Some (ns ! 0)" using assms(4,5) by blast
  then have e: "EnsureDefaultEntry R (regs st) = Some (regs st)"
    using assms(3) by (simp add: EnsureDefaultEntry_def)
  note run = enum_entries_run [OF assms(1) _ assms(5,6), of 0]
  show ?thesis
    using e assms(2,3) run by (simp add: AfdRasEnumEntries_def SIZEOF_RASENTRYNAME_def)
qed

section \<open>Dialling\<close>

text \<open>The servers in a RASENTRY blob.\<close>

definition blob_dns :: "byte list \<Rightarrow> u32 \<times> u32" where
  "blob_dns re = (le32 (take 4 (drop OFF_ipaddrDns re)), le32 (take 4 (drop OFF_ipaddrDnsAlt re)))"

lemma AfdRasSetEntryProperties_stored:
  assumes "reg_laws R" and "reg_writable R" and "\<not> g_nUseDial st"
    and "AfdRasSetEntryProperties R fp drv (Some name) (Some re) st = Some (0, out, st1)" and "re \<noteq> []"
  obtains r where "st1 = st\<lparr>regs := r\<rparr>" "reg_open R r (K_RasBook @ [0x5C] @ name)"
    "\<And>cb. length re \<le> cb \<Longrightarrow> reg_query R r (K_RasBook @ [0x5C] @ name) V_Entry cb = Inr (REG_BINARY, re)"
    "\<And>v q cb x. length v \<noteq> 5 \<Longrightarrow> reg_query R (regs st) q v cb = Inr x \<Longrightarrow> reg_query R r q v cb = Inr x"
    "\<And>q. reg_open R (regs st) q \<Longrightarrow> reg_open R r q"
proof -
  let ?h = "K_RasBook @ [0x5C] @ name"
  from assms(3-5) obtain r0 where c: "reg_create R (regs st) ?h = Some r0"
    and st1: "st1 = st\<lparr>regs := reg_put R ?h V_Entry (REG_BINARY, re) r0\<rparr>"
    by (auto simp: AfdRasSetEntryProperties_def fwd_def bind_eq_Some_conv OpenEntry_Some Let_def
        ERROR_ACCESS_DENIED_def split: option.splits)
  note C = reg_create_laws [OF assms(1) c]
  note P = reg_put_laws [OF assms(1,2) C(1)]
  show thesis
  proof (rule that [OF st1])
    show "reg_open R (reg_put R ?h V_Entry (REG_BINARY, re) r0) ?h" using P(3) C(1) by simp
    show "reg_query R (reg_put R ?h V_Entry (REG_BINARY, re) r0) ?h V_Entry cb = Inr (REG_BINARY, re)"
      if "length re \<le> cb" for cb using that by (intro P(1)) simp
    show "reg_query R (reg_put R ?h V_Entry (REG_BINARY, re) r0) q v cb = Inr x"
      if "length v \<noteq> 5" "reg_query R (regs st) q v cb = Inr x" for v q cb x
      using P(2) [of v V_Entry] that C(3) by (simp add: val_lengths)
    show "reg_open R (reg_put R ?h V_Entry (REG_BINARY, re) r0) q" if "reg_open R (regs st) q" for q
      using P(3) C(2) that by simp
  qed
qed

text \<open>
  What the player types is what the resolver uses. When a title stores an entry whose
  primary DNS is set (the blob at most \<open>sizeof(RASENTRY)\<close>) and that entry is the first
  of the book, dialling puts exactly its one or two servers in the list, whatever DHCP,
  the flash or the revival default would give, and reports success.
\<close>

theorem AfdRasDial_uses_entry:
  assumes "env_ok E" and "nd_inv st" and "reg_writable (ne_reg E)" and "\<not> g_nUseDial st"
    and "AfdRasSetEntryProperties (ne_reg E) fp drv (Some name) (Some re) st = Some (0, out, st1)"
    and "312 \<le> length re" and "length re \<le> SIZEOF_RASENTRY" and "fst (blob_dns re) \<noteq> 0"
    and "reg_usable (ne_reg E) (regs st1)" and "reg_open (ne_reg E) (regs st1) K_RasBook"
    and "reg_enum (ne_reg E) (regs st1) K_RasBook 0 64 = Some name"
  shows "\<exists>st2. AfdRasDial E fp drv nt pn True st1 = Some (0, Some (Some 1), st2) \<and> s_bDialed st2
     \<and> servers st2 = fst (blob_dns re) # (if snd (blob_dns re) \<noteq> 0 then [snd (blob_dns re)] else [])"
proof -
  have R: "reg_laws (ne_reg E)" using assms(1) by (simp add: env_ok_def)
  have "re \<noteq> []" using assms(6) by auto
  from AfdRasSetEntryProperties_stored [OF R assms(3,4,5) this] obtain r where
    st1: "st1 = st\<lparr>regs := r\<rparr>" and op: "reg_open (ne_reg E) r (K_RasBook @ [0x5C] @ name)"
    and q: "\<And>cb. length re \<le> cb \<Longrightarrow>
      reg_query (ne_reg E) r (K_RasBook @ [0x5C] @ name) V_Entry cb = Inr (REG_BINARY, re)" by metis
  let ?ds = "fst (blob_dns re) # (if snd (blob_dns re) \<noteq> 0 then [snd (blob_dns re)] else [])"
  have ent: "ras_entry_dns (ne_reg E) r (K_RasBook @ [0x5C] @ name) = ?ds"
    using op q [OF assms(7)] assms(6,8)
    by (simp add: ras_entry_dns_def blob_dns_def OFF_ipaddrDnsAlt_def)
  have "length name < 64" using reg_enum_name [OF R assms(11)] by simp
  then have "wcat 128 [K_RasBook, [0x5C], name] = Some (K_RasBook @ [0x5C] @ name)"
    by (simp add: wcat_def val_lengths)
  then have ras: "ReadRasDns (ne_reg E) (regs st1) = Some ?ds"
    using assms(10,11) st1 ent by (simp add: ReadRasDns_def ras_scan.simps)
  define sd where "sd = st1\<lparr>s_bDialed := True\<rparr>"
  have sd: "nd_inv sd" "regs sd = regs st1" using assms(2) st1 by (simp_all add: sd_def nd_inv_def)
  then have us: "reg_usable (ne_reg E) (regs sd)" and rd: "ReadRasDns (ne_reg E) (regs sd) = Some ?ds"
    using assms(9) ras by simp_all
  obtain s2 where w: "WriteDnsServers E sd = Some s2"
    using WriteDnsServers_total [OF assms(1) sd(1) us] by blast
  have "length ?ds \<le> 2" by simp
  from WriteDnsServers_Some [OF w sd(1) assms(1) this rd] obtain flash x where
    "servers x = dns_order ?ds (servers sd) flash (s_dwRevivalDns x)"
    "s2 = x\<lparr>regs := write_dns_value (ne_reg E) (servers x) (regs sd)\<rparr>"
    by metis
  then have s2: "servers s2 = ?ds" by (simp add: servers_def dns_order_def Let_def)
  have "s_bDialed s2" using dns_updD [OF WriteDnsServers_frame [OF w]] by (simp add: sd_def)
  moreover have "\<not> g_nUseDial st1" using st1 assms(4) by simp
  ultimately show ?thesis
    using w s2 unfolding sd_def by (auto simp: AfdRasDial_def fwd_def NetifApplyDns_def emit_def servers_def Let_def)
qed

section \<open>Witnesses\<close>

lemma mreg_writable: "reg_writable mreg"
  by (auto simp: reg_writable_def mreg_def)

lemma sample_desktop:
  "reg_enum mreg sample_reg K_RasBook 0 64 = Some N_Desktop"
  "reg_enum mreg sample_reg K_RasBook 1 64 = None" "OpenBook mreg sample_reg"
proof -
  have "mreg_children K_RasBook sample_reg = [N_Desktop]" by code_simp
  then show "reg_enum mreg sample_reg K_RasBook 0 64 = Some N_Desktop"
    "reg_enum mreg sample_reg K_RasBook 1 64 = None"
    by (simp_all add: mreg_def) (simp add: N_Desktop_def ws_def)
  show "OpenBook mreg sample_reg" by code_simp
qed

definition sample_params :: rasdialparams where
  "sample_params = \<lparr>szEntryName = N_Desktop @ [0, 0], szUserName = ws ''me'' @ [0, 7],
     szPassword = ws ''pw'' @ [0], szDomain = [0, 5]\<rparr>"

lemma AfdRas_dial_params_roundtrip_witness:
  "\<exists>st' q' pw. AfdRasSetEntryDialParams mreg (\<lambda>_. False) (\<lambda>_ r. (0, r)) (Some sample_params)
       (netif_init sample_reg) = Some (0, Some (), st')
     \<and> AfdRasGetEntryDialParams mreg (\<lambda>_. False) (\<lambda>_ r. (0, r)) (Some sample_params) st'
         = Some (0, Some (Some q', pw), st') \<and> cstr (szUserName q') = ws ''me'' \<and> pw"
proof -
  have "map_option (\<lambda>(rc, out, _). (rc, out)) (AfdRasSetEntryDialParams mreg (\<lambda>_. False) (\<lambda>_ r. (0, r))
      (Some sample_params) (netif_init sample_reg)) = Some (0, Some ())" by code_simp
  then obtain st' where st': "AfdRasSetEntryDialParams mreg (\<lambda>_. False) (\<lambda>_ r. (0, r)) (Some sample_params)
       (netif_init sample_reg) = Some (0, Some (), st')" by auto
  have "cstr (szUserName sample_params) = ws ''me''" "cstr (szPassword sample_params) = ws ''pw''"
    by code_simp+
  with AfdRas_dial_params_roundtrip [OF mreg_laws mreg_writable _ _ st', of sample_params] st'
  show ?thesis by (auto simp: fwd_def ws_def)
qed

lemma OpenEntry_overflow_iff_witness:
  "AfdRasValidateEntryName mreg (\<lambda>_. False) (\<lambda>_ r. (0, r)) (Some (replicate 83 65)) (netif_init []) = None
   \<and> AfdRasDeleteEntry mreg (\<lambda>_. False) (\<lambda>_ r. (0, r)) (Some (replicate 82 65)) (netif_init []) \<noteq> None"
  using OpenEntry_overflow_iff [of "netif_init ([] :: mregistry)" mreg "\<lambda>_. False" "\<lambda>_ r. (0, r)"
      "replicate 83 65" None False None]
    OpenEntry_overflow_iff [of "netif_init ([] :: mregistry)" mreg "\<lambda>_. False" "\<lambda>_ r. (0, r)"
      "replicate 82 65" None False None]
  by (simp add: netif_init_def)

lemma AfdRasEnumEntries_two_calls_witness:
  "AfdRasEnumEntries mreg (\<lambda>_. False) (\<lambda>_ r. (0, r)) True (Some 48) (netif_init sample_reg)
     = Some (0, Some \<lparr>eo_count = 1, eo_cb = 48, eo_entries = [(48, N_Desktop @ [0])]\<rparr>, netif_init sample_reg)"
proof -
  have r: "regs (netif_init sample_reg) = sample_reg" by (simp add: netif_init_def)
  have "AfdRasEnumEntries mreg (\<lambda>_. False) (\<lambda>_ r. (0, r)) True (Some (length [N_Desktop] * 48)) (netif_init sample_reg)
     = Some (0, Some \<lparr>eo_count = length [N_Desktop], eo_cb = length [N_Desktop] * 48,
                eo_entries = map entry_of [N_Desktop]\<rparr>, netif_init sample_reg)"
    by (rule AfdRasEnumEntries_two_calls [THEN conjunct2, THEN conjunct2])
       (simp_all add: mreg_laws fwd_def r sample_desktop sample_desktop(2) [unfolded One_nat_def])
  then show ?thesis by (simp add: entry_of_def N_Desktop_def ws_def)
qed

lemma AfdRasDial_uses_entry_witness:
  "\<exists>st1 st2. AfdRasSetEntryProperties mreg (\<lambda>_. False) (\<lambda>_ r. (0, r)) (Some N_Desktop)
        (Some (replicate 304 0 @ [1, 2, 3, 4, 0, 0, 0, 0])) (netif_init sample_reg) = Some (0, Some (), st1)
     \<and> AfdRasDial sample_env (\<lambda>_. False) (\<lambda>_ r. (0, r)) 0 0 True st1 = Some (0, Some (Some 1), st2)
     \<and> servers st2 = [DnsIp 1 2 3 4]"
proof -
  define re :: "byte list" where "re = replicate 304 0 @ [1, 2, 3, 4, 0, 0, 0, 0]"
  let ?r1 = "[(K_Comm, []), (K_RasBook, []), (K_RasBook @ [0x5C] @ N_Desktop, [(V_Entry, (REG_BINARY, re))])]"
  have "map_option (\<lambda>(rc, out, st). (rc, out, regs st)) (AfdRasSetEntryProperties mreg (\<lambda>_. False)
      (\<lambda>_ r. (0, r)) (Some N_Desktop) (Some re) (netif_init sample_reg)) = Some (0, Some (), ?r1)"
    unfolding re_def by code_simp
  then obtain st1 where st1: "AfdRasSetEntryProperties mreg (\<lambda>_. False) (\<lambda>_ r. (0, r)) (Some N_Desktop)
        (Some re) (netif_init sample_reg) = Some (0, Some (), st1)" "regs st1 = ?r1" by auto
  have E: "ne_reg sample_env = mreg" "g_nUseDial (netif_init sample_reg) = False"
    by (simp_all add: sample_env_def netif_init_def)
  have st1': "AfdRasSetEntryProperties (ne_reg sample_env) (\<lambda>_. False) (\<lambda>_ r. (0, r)) (Some N_Desktop)
        (Some re) (netif_init sample_reg) = Some (0, Some (), st1)" using st1(1) E by simp
  have ch: "mreg_children K_RasBook ?r1 = [N_Desktop]" unfolding re_def by code_simp
  have nk: "map_of ?r1 K_Netif = None" unfolding re_def by code_simp
  have "reg_open mreg ?r1 K_RasBook" unfolding re_def by code_simp
  moreover have e: "reg_enum mreg ?r1 K_RasBook 0 64 = Some N_Desktop" "reg_enum mreg ?r1 K_RasBook 1 64 = None"
    unfolding mreg_def using ch by (simp_all add: Let_def) (simp add: N_Desktop_def ws_def)
  moreover have "reg_usable mreg ?r1"
    unfolding reg_usable_def using e(2) nk by (auto simp: mreg_def)
  moreover have "blob_dns re = (DnsIp 1 2 3 4, 0)" unfolding re_def by code_simp
  moreover have "DnsIp 1 2 3 4 \<noteq> 0" by code_simp
  ultimately show ?thesis
    using AfdRasDial_uses_entry [OF sample_env_ok nd_inv_init _ _ st1', of 0 0]
      st1 mreg_writable E
    by (auto simp: re_def SIZEOF_RASENTRY_def)
qed

end
