(* ===== verification/Checksum.thy ===== *)
theory Checksum
  imports Prelude
begin

text \<open>
  The Internet checksum of \<open>net/netif/netif.c\<close>: \<open>Csum16\<close> (a running seed), \<open>Ipck\<close>
  (the DHCP client's own copy of the loop) and the three routines that rewrite the
  checksum field of an IPv4, TCP or UDP header in place. The locale
  \<open>internet_checksum\<close> is what callers rely on: over a range of bytes the routine is
  the complement of the ones-complement sum, so storing its result in the zeroed field
  makes the range verify. Both routines interpret it.
\<close>

unbundle bit_operations_syntax

section \<open>The checksum loops\<close>

text \<open>
  \<open>for (i = 0; i + 1 < nLen; i += 2) dwSum += (pb[i] << 8) | pb[i + 1];\<close>
  The loop is the same in both routines; it returns the final index and the sum.
\<close>

function be16_loop :: "byte list \<Rightarrow> nat \<Rightarrow> nat \<Rightarrow> u32 \<Rightarrow> nat \<times> u32" where
  "be16_loop pb nLen i dwSum =
     (if i + 1 < nLen
      then be16_loop pb nLen (i + 2)
             (dwSum + (push_bit 8 (ucast (pb ! i)) OR ucast (pb ! (i + 1))))
      else (i, dwSum))"
  by pat_completeness auto
termination by (relation "measure (\<lambda>(pb, nLen, i, s). nLen - i)") auto

declare be16_loop.simps [simp del]

lemma div_mod_sum_le:
  assumes "1 \<le> (k :: nat)"
  shows "n mod k + n div k \<le> n"
proof -
  have "n div k * 1 \<le> n div k * k" using assms by (rule mult_le_mono2)
  with div_mult_mod_eq [of n k] show ?thesis by linarith
qed

lemma div_mod_sum_less:
  assumes "2 \<le> (k :: nat)" and "n div k \<noteq> 0"
  shows "n mod k + n div k < n"
proof -
  have "n div k * 2 \<le> n div k * k" using assms(1) by (rule mult_le_mono2)
  with div_mult_mod_eq [of n k] assms(2) show ?thesis by linarith
qed

lemma shr16_nat: "unat (drop_bit 16 (s :: u32)) = unat s div 65536"
  using unat_drop_bit_eq [of 16 s] by (simp add: drop_bit_eq_div [of 16 "unat s"])

lemma and_ffff_nat: "unat (s AND 0xFFFF :: u32) = unat s mod 65536"
proof -
  have "s AND 0xFFFF = take_bit 16 s" by (simp add: take_bit_eq_mask mask_eq_exp_minus_1)
  moreover have "unat (take_bit 16 s) = take_bit 16 (unat s)" by (rule unsigned_take_bit_eq)
  ultimately show ?thesis by (simp add: take_bit_eq_mod [of 16 "unat s"])
qed

lemma unat_u32_less: "unat (s :: u32) < 4294967296"
  using unsigned_less [of s] by simp

lemma fold_step_nat:
  "unat ((s AND 0xFFFF) + drop_bit 16 s :: u32) = unat s mod 65536 + unat s div 65536"
proof -
  have "unat s mod 65536 + unat s div 65536 < 4294967296"
    using div_mod_sum_le [of 65536 "unat s"] unat_u32_less [of s] by simp
  then show ?thesis by (simp add: unat_word_ariths and_ffff_nat shr16_nat)
qed

text \<open>\<open>while (dwSum >> 16) dwSum = (dwSum & 0xFFFF) + (dwSum >> 16);\<close>\<close>

function csum_fold :: "u32 \<Rightarrow> u32" where
  "csum_fold dwSum =
     (if drop_bit 16 dwSum \<noteq> 0 then csum_fold ((dwSum AND 0xFFFF) + drop_bit 16 dwSum)
      else dwSum)"
  by pat_completeness auto
termination
proof (relation "measure unat")
  fix s :: u32
  assume "drop_bit 16 s \<noteq> 0"
  then have "unat s div 65536 \<noteq> 0" by (metis shr16_nat unat_eq_zero)
  then show "((s AND 0xFFFF) + drop_bit 16 s, s) \<in> measure unat"
    using div_mod_sum_less [of 65536 "unat s"] by (simp add: fold_step_nat)
qed simp

declare csum_fold.simps [simp del]

definition csum16 :: "byte list \<Rightarrow> u32 \<Rightarrow> u16" where
  "csum16 pb dwSeed =
     (let nLen = length pb;
          dwSum = snd (be16_loop pb nLen 0 dwSeed);
          dwSum = (if odd nLen then dwSum + push_bit 8 (ucast (pb ! (nLen - 1))) else dwSum)
      in ucast (NOT (csum_fold dwSum) AND 0xFFFF))"

text \<open>\<open>Csum16(m + off, nLen, dwSeed)\<close>: the loop reads exactly that range.\<close>

definition Csum16 :: "byte list \<Rightarrow> nat \<Rightarrow> nat \<Rightarrow> u32 \<Rightarrow> u16 option" where
  "Csum16 m off nLen dwSeed = do { pb \<leftarrow> rd_block m off nLen; Some (csum16 pb dwSeed) }"

definition Ipck :: "byte list \<Rightarrow> u16" where
  "Ipck pb =
     (let nLen = length pb;
          (i, dwSum) = be16_loop pb nLen 0 0;
          dwSum = (if i < nLen then dwSum + push_bit 8 (ucast (pb ! i)) else dwSum)
      in ucast (NOT (csum_fold dwSum)))"

section \<open>Specification: the ones-complement sum\<close>

fun wsum :: "byte list \<Rightarrow> nat" where
  "wsum (a # b # r) = be16 a b + wsum r"
| "wsum [a] = 256 * unat a"
| "wsum [] = 0"

definition ocfold :: "nat \<Rightarrow> nat" where
  "ocfold s = (if s = 0 then 0 else (s - 1) mod 65535 + 1)"

lemma ocfold_le: "ocfold s \<le> 65535"
  using mod_less_divisor [of 65535 "s - 1"] unfolding ocfold_def by auto

lemma unat_be16_word:
  "(push_bit 8 (ucast a) OR ucast b :: u32) = word_of_nat (be16 a b)"
proof -
  have "push_bit 8 (ucast a) OR ucast b = push_bit 8 (ucast a :: u32) + ucast b"
    by (rule disjunctive_add [symmetric]) (auto simp: bit_simps bit_byte_high)
  also have "\<dots> = word_of_nat (be16 a b)"
    by (simp add: be16_def push_bit_eq_mult unsigned_ucast_eq) 
  finally show ?thesis .
qed

lemma be16_loop_index:
  "i \<le> n \<Longrightarrow> fst (be16_loop pb n i s) = (if even (n - i) then n else n - 1)"
proof (induction pb n i s rule: be16_loop.induct)
  case (1 pb n i s)
  show ?case
  proof (cases "i + 1 < n")
    case True
    then show ?thesis using "1.IH" by (subst be16_loop.simps) simp
  next
    case False
    then have "n = i \<or> n = Suc i" using "1.prems" by auto
    then show ?thesis by (subst be16_loop.simps) auto
  qed
qed

lemma be16_loop_sum:
  "i \<le> length pb \<Longrightarrow>
     snd (be16_loop pb (length pb) i s)
       + (if odd (length pb - i) then push_bit 8 (ucast (pb ! (length pb - 1))) else 0)
     = s + word_of_nat (wsum (drop i pb))"
proof (induction pb "length pb" i s rule: be16_loop.induct)
  case (1 pb i s)
  show ?case
  proof (cases "i + 1 < length pb")
    case True
    then have "drop i pb = pb ! i # pb ! (i + 1) # drop (i + 2) pb"
      by (simp add: Cons_nth_drop_Suc)
    moreover have "even (length pb - i) = even (length pb - (i + 2))" using True by simp
    ultimately show ?thesis
      using "1.hyps" [OF True] True
      by (subst be16_loop.simps) (simp add: unat_be16_word add.assoc)
  next
    case False
    show ?thesis
    proof (cases "i = length pb")
      case False
      with \<open>\<not> i + 1 < length pb\<close> "1.prems" have i: "length pb = Suc i" by simp
      then have "drop i pb = [pb ! i]" by (simp add: Cons_nth_drop_Suc [symmetric])
      with i show ?thesis
        by (subst be16_loop.simps) (simp add: push_bit_eq_mult unsigned_ucast_eq)
    qed (subst be16_loop.simps, simp)
  qed
qed

lemma csum_fold_nat: "unat (csum_fold s) = ocfold (unat s)"
proof (induction s rule: csum_fold.induct)
  case (1 s)
  show ?case
  proof (cases "drop_bit 16 s = 0")
    case True
    then have "unat s div 65536 = 0" by (metis shr16_nat unat_0)
    then have "unat s < 65536" by simp
    with True show ?thesis by (subst csum_fold.simps) (simp add: ocfold_def)
  next
    case False
    then have ge: "unat s div 65536 \<noteq> 0" by (metis shr16_nat unat_eq_zero)
    let ?s' = "unat s mod 65536 + unat s div 65536"
    have "unat s = 65535 * (unat s div 65536) + ?s'"
      using div_mult_mod_eq [of "unat s" 65536] by linarith
    then have "unat s - 1 = ?s' - 1 + 65535 * (unat s div 65536)" using ge by linarith
    moreover have "unat s \<noteq> 0" using ge by (metis div_0)
    ultimately have "ocfold (unat s) = ocfold ?s'"
      using ge mod_mult_self1 [of "?s' - 1" "unat s div 65536" 65535]
      by (simp add: ocfold_def mult.commute)
    with "1.IH" [OF False] False show ?thesis
      by (subst csum_fold.simps) (simp add: fold_step_nat)
  qed
qed


text \<open>Both routines compute the complement of the ones-complement sum.\<close>

lemma unat_not_u16: "unat (NOT (x :: u16)) = 65535 - unat x"
proof -
  have "NOT x = 0xFFFF - x" by (simp add: not_eq_complement)
  moreover have "x \<le> 0xFFFF" using unat_u16_less [of x] by (simp add: word_le_nat_alt)
  ultimately show ?thesis by (simp add: unat_sub)
qed

lemma csum_complement:
  "(ucast (NOT (s :: u32) AND 0xFFFF) :: u16) = NOT (ucast s)"
  "(ucast (NOT (s :: u32)) :: u16) = NOT (ucast s)"
proof -
  have m: "(0xFFFF :: u32) = mask 16" by (simp add: mask_eq_exp_minus_1)
  show "(ucast (NOT s AND 0xFFFF) :: u16) = NOT (ucast s)"
    unfolding m by (rule bit_word_eqI) (auto simp: bit_simps)
  show "(ucast (NOT s) :: u16) = NOT (ucast s)"
    by (rule bit_word_eqI) (auto simp: bit_simps)
qed

lemma unat_ucast16: "unat (ucast (s :: u32) :: u16) = unat s mod 65536"
proof -
  have "unat (ucast s :: u16) = take_bit 16 (unat s)"
    using unsigned_ucast_eq [of s, where ?'a = nat and ?'c = 16] by simp
  then show ?thesis by (simp add: take_bit_eq_mod [of 16 "unat s"])
qed

lemma unat_csum_final: "unat (NOT (ucast (csum_fold s)) :: u16) = 65535 - ocfold (unat s)"
  using ocfold_le [of "unat s"] by (simp add: unat_not_u16 unat_ucast16 csum_fold_nat)

lemma csum16_total:
  "csum16 pb dwSeed = NOT (ucast (csum_fold (dwSeed + word_of_nat (wsum pb))))"
  using be16_loop_sum [of 0 pb dwSeed]
  by (simp add: csum16_def Let_def csum_complement split: if_splits)

lemma Ipck_total: "Ipck pb = NOT (ucast (csum_fold (word_of_nat (wsum pb))))"
proof -
  obtain i s where loop: "be16_loop pb (length pb) 0 0 = (i, s)" by fastforce
  have "i = (if even (length pb) then length pb else length pb - 1)"
    using be16_loop_index [of 0 "length pb" pb 0] loop by simp
  then show ?thesis
    using be16_loop_sum [of 0 pb 0] loop
    by (cases "length pb = 0") (auto simp: Ipck_def Let_def csum_complement split: if_splits)
qed

text \<open>
  The two checksum routines of \<open>netif.c\<close>, written separately, agree: \<open>Ipck\<close> is
  \<open>Csum16\<close> with seed 0, for every buffer, odd lengths included.
\<close>

theorem Ipck_eq_Csum16: "Csum16 pb 0 (length pb) 0 = Some (Ipck pb)"
  by (simp add: Csum16_def csum16_total Ipck_total)

lemma Ipck_csum16: "Ipck pb = csum16 pb 0"
  by (simp add: csum16_total Ipck_total)

section \<open>The interface callers rely on\<close>

text \<open>
  \<open>ck\<close> is a checksum routine with a fixed seed: the complement of the ones-complement
  sum of the bytes and the seed, as long as the 32-bit accumulator does not wrap.
\<close>

locale internet_checksum =
  fixes ck :: "byte list \<Rightarrow> u16" and seed :: nat
  assumes ck_spec: "seed + wsum p < 2 ^ 32 \<Longrightarrow> unat (ck p) = 65535 - ocfold (seed + wsum p)"
begin

lemma ck_zero_iff:
  assumes "seed + wsum p < 2 ^ 32"
  shows "ck p = 0 \<longleftrightarrow> ocfold (seed + wsum p) = 65535"
proof -
  have "ck p = 0 \<longleftrightarrow> unat (ck p) = 0" by (simp add: unat_eq_zero)
  with ck_spec [OF assms] ocfold_le [of "seed + wsum p"] show ?thesis by auto
qed

end

lemma ocfold_complete:
  assumes "v = 65535 - ocfold t \<or> ocfold t = 65535 \<and> v = 65535"
  shows "ocfold (t + v) = 65535"
proof (cases "t = 0")
  case True
  with assms show ?thesis by (auto simp: ocfold_def)
next
  case False
  define q r where "q = (t - 1) div 65535" and "r = (t - 1) mod 65535"
  have t: "t = q * 65535 + r + 1" and r: "r < 65535"
    using False div_mult_mod_eq [of "t - 1" 65535] by (simp_all add: q_def r_def)
  have oc: "ocfold t = r + 1" using False by (simp add: ocfold_def r_def)
  have "t + v - 1 = 65534 + q * 65535 \<or> t + v - 1 = 65534 + Suc q * 65535"
    using assms r unfolding oc by (auto simp: t)
  then have "(t + v - 1) mod 65535 = 65534"
    by (metis mod_mult_self1 mod_less less_add_one numeral_One numeral_plus_one semiring_norm(5)
        mod_mult_self3 lessI eval_nat_numeral(2) numeral_eq_Suc pred_numeral_simps(3))
  with False show ?thesis by (simp add: ocfold_def)
qed

lemma wsum_field:
  "even k \<Longrightarrow> k + 1 < length p \<Longrightarrow>
     wsum (take k p @ [a, b] @ drop (k + 2) p) + be16 (p ! k) (p ! (k + 1)) = wsum p + be16 a b"
proof (induction p arbitrary: k rule: wsum.induct)
  case (1 x y r)
  show ?case
  proof (cases "k = 0")
    case False
    with "1.prems" obtain j where j: "k = j + 2" "even j"
      by (metis add_2_eq_Suc' dvd_imp_le even_add even_numeral less_one linorder_not_le
          nat_le_iff_add zero_less_iff_neq_zero add.commute)
    with "1.prems" "1.IH" [of j] show ?thesis by simp
  qed simp
qed auto

lemma be16_zero [simp]: "be16 0 0 = 0"
  by (simp add: be16_def)

lemma be16_le: "be16 a b \<le> 65535"
  using be16_less [of a b] by linarith

lemma wsum_le: "wsum p \<le> 32768 * (length p + 1)"
proof (induction p rule: wsum.induct)
  case (1 a b r)
  with be16_le [of a b] show ?case by simp
next
  case (2 a)
  have "256 * unat a \<le> 65535" using unat_byte_less [of a] by linarith
  then show ?case by simp
qed simp

context internet_checksum begin

lemma ck_store:
  assumes "even k" and "k + 1 < length p" and "p ! k = 0" and "p ! (k + 1) = 0"
    and room: "seed + wsum p + 65535 < 2 ^ 32"
    and v: "v = ck p \<or> ck p = 0 \<and> v = 0xFFFF"
  shows "ck (take k p @ put16 v @ drop (k + 2) p) = 0"
proof -
  have sum: "wsum (take k p @ put16 v @ drop (k + 2) p) = wsum p + unat v"
    using wsum_field [OF assms(1,2), of "ucast (drop_bit 8 v)" "ucast v"] assms(3,4)
    by (simp add: put16_def be16_put16)
  have fit: "seed + wsum p < 2 ^ 32" using room by simp
  have "unat v = 65535 - ocfold (seed + wsum p) \<or>
        ocfold (seed + wsum p) = 65535 \<and> unat v = 65535"
    using v ck_spec [OF fit] ck_zero_iff [OF fit] by auto
  then have oc: "ocfold (seed + wsum p + unat v) = 65535" by (rule ocfold_complete)
  have "seed + (wsum p + unat v) < 2 ^ 32" using room unat_u16_less [of v] by simp
  with oc show ?thesis
    using ck_zero_iff [of "take k p @ put16 v @ drop (k + 2) p"]
    unfolding sum by (simp add: add.assoc)
qed

end

interpretation csum: internet_checksum "\<lambda>p. csum16 p dwSeed" "unat dwSeed" for dwSeed
proof
  fix p assume "unat dwSeed + wsum p < 2 ^ 32"
  then have "unat (dwSeed + word_of_nat (wsum p)) = unat dwSeed + wsum p"
    by (simp add: unat_word_ariths unat_of_nat mod_add_right_eq)
  then show "unat (csum16 p dwSeed) = 65535 - ocfold (unat dwSeed + wsum p)"
    by (simp add: csum16_total unat_csum_final)
qed

interpretation ipck: internet_checksum Ipck 0
  by unfold_locales (simp add: Ipck_total unat_csum_final unat_of_nat)


section \<open>Rewriting a checksum field in place\<close>

definition ihl_of :: "byte \<Rightarrow> nat" where
  "ihl_of b = unat (b AND 0x0f) * 4"

text \<open>\<open>IpFixChecksum\<close>: header checksum of the IPv4 header at the start of the buffer.\<close>

definition IpFixChecksum :: "byte list \<Rightarrow> byte list option" where
  "IpFixChecksum pbIp = do {
     b0 \<leftarrow> rd8 pbIp 0;
     let ihl = ihl_of b0;
     pbIp \<leftarrow> wr_block pbIp 10 [0, 0];
     c \<leftarrow> Csum16 pbIp 0 ihl 0;
     wr_block pbIp 10 (put16 c) }"

text \<open>
  \<open>for (i = 12; i < 20; i += 2) dwSeed += (pbIp[i] << 8) | pbIp[i + 1];\<close>
  the source and destination address of the pseudo-header, the four rounds written out.
\<close>

definition pseudo_sum :: "byte list \<Rightarrow> u32 \<Rightarrow> u32 option" where
  "pseudo_sum pbIp dwSeed = do {
     a \<leftarrow> rd16be pbIp 12; b \<leftarrow> rd16be pbIp 14; c \<leftarrow> rd16be pbIp 16; d \<leftarrow> rd16be pbIp 18;
     Some (dwSeed + word_of_nat a + word_of_nat b + word_of_nat c + word_of_nat d) }"

definition TcpFixChecksum :: "byte list \<Rightarrow> byte list option" where
  "TcpFixChecksum pbIp = do {
     b0 \<leftarrow> rd8 pbIp 0;
     let ihl = ihl_of b0;
     total \<leftarrow> rd16be pbIp 2;
     let nTcpLen = int total - int ihl;
     let dwSeed = 6 + word_of_int nTcpLen;
     if nTcpLen < 20 then Some pbIp
     else do {
       pbIp \<leftarrow> wr_block pbIp (ihl + 16) [0, 0];
       dwSeed \<leftarrow> pseudo_sum pbIp dwSeed;
       c \<leftarrow> Csum16 pbIp ihl (nat nTcpLen) dwSeed;
       wr_block pbIp (ihl + 16) (put16 c) } }"

definition UdpFixChecksum :: "byte list \<Rightarrow> byte list option" where
  "UdpFixChecksum pbIp = do {
     b0 \<leftarrow> rd8 pbIp 0;
     let ihl = ihl_of b0;
     nUdpLen \<leftarrow> rd16be pbIp (ihl + 4);
     let dwSeed = 17 + word_of_nat nUdpLen;
     if nUdpLen < 8 then Some pbIp
     else do {
       pbIp \<leftarrow> wr_block pbIp (ihl + 6) [0, 0];
       dwSeed \<leftarrow> pseudo_sum pbIp dwSeed;
       c \<leftarrow> Csum16 pbIp ihl nUdpLen dwSeed;
       let c = (if c = 0 then 0xffff else c);
       wr_block pbIp (ihl + 6) (put16 c) } }"


subsection \<open>The rewritten range verifies\<close>

text \<open>Zeroing a field and storing the checksum of the range there, at the memory level.\<close>

lemma csum_store_verifies:
  assumes z: "wr_block m (off + k) [0, 0] = Some m1"
    and c: "Csum16 m1 off n dwSeed = Some c"
    and w: "wr_block m1 (off + k) (put16 v) = Some m2"
    and v: "v = c \<or> c = 0 \<and> v = 0xFFFF"
    and k: "even k" "k + 1 < n" and n: "n \<le> 65535" and s: "unat dwSeed < 2 ^ 20"
  shows "Csum16 m2 off n dwSeed = Some 0"
proof -
  let ?p = "take n (drop off m1)"
  have len: "length m1 = length m" "length m2 = length m"
    using length_wr_block [OF z] length_wr_block [OF w] by simp_all
  have off: "off + n \<le> length m" and ck: "c = csum16 ?p dwSeed"
    using c by (auto simp: Csum16_def mem_some len)
  have zero: "?p ! k = 0" "?p ! (k + 1) = 0"
    using k off len nth_wr_block [OF z, of "off + k"] nth_wr_block [OF z, of "off + (k + 1)"]
    by (simp_all add: add.assoc)
  have p2: "take n (drop off m2) = take k ?p @ put16 v @ drop (k + 2) ?p"
  proof (rule nth_equalityI)
    fix i assume "i < length (take n (drop off m2))"
    then have i: "i < n" "off + i < length m1" using off len by auto
    have e: "Suc (Suc (off + i - 2)) = off + i" if "2 \<le> i" using that by arith
    show "take n (drop off m2) ! i = (take k ?p @ put16 v @ drop (k + 2) ?p) ! i"
      using i k off len nth_wr_block [OF w i(2)] by (auto simp: nth_append Suc_diff_le e)
  qed (use k off len in auto)
  have "unat dwSeed + wsum ?p + 65535 < 2 ^ 32"
  proof -
    have "32768 * (length ?p + 1) \<le> 32768 * 65536" using n by (intro mult_le_mono2) simp
    then have "wsum ?p \<le> 32768 * 65536" using wsum_le [of ?p] by (rule order_trans [rotated])
    then show ?thesis using s by simp
  qed
  then have "csum16 (take n (drop off m2)) dwSeed = 0"
    unfolding p2 using csum.ck_store [of k ?p dwSeed v] k zero v off len by (simp add: ck)
  then show ?thesis using off len by (simp add: Csum16_def)
qed

lemma unat_word_of_nat_le: "unat (word_of_nat n :: u32) \<le> n"
  by (simp only: unat_of_nat mod_less_eq_dividend)

lemma pseudo_sum_eq:
  "pseudo_sum m (word_of_nat n) = Some s \<longleftrightarrow>
     19 < length m \<and> s = word_of_nat (n + be16 (m ! 12) (m ! 13) + be16 (m ! 14) (m ! 15)
                               + be16 (m ! 16) (m ! 17) + be16 (m ! 18) (m ! 19))"
  by (auto simp: pseudo_sum_def bind_eq_Some_conv rd16be_eq_Some)

lemma pseudo_sum_small:
  assumes "pseudo_sum m (word_of_nat n) = Some s" and "n \<le> 65560"
  shows "unat s < 2 ^ 20"
proof -
  let ?t = "n + be16 (m ! 12) (m ! 13) + be16 (m ! 14) (m ! 15)
              + be16 (m ! 16) (m ! 17) + be16 (m ! 18) (m ! 19)"
  have "s = word_of_nat ?t" using assms(1) unfolding pseudo_sum_eq by (rule conjunct2)
  then have "unat s \<le> ?t" using unat_word_of_nat_le [of ?t] by (simp only:)
  also have "?t \<le> 65560 + 65535 + 65535 + 65535 + 65535"
    using assms(2) by (intro add_mono be16_le)
  finally show ?thesis by simp
qed

lemma pseudo_sum_frame:
  assumes "wr_block m i xs = Some m'" and "20 \<le> i"
  shows "pseudo_sum m' s = pseudo_sum m s"
proof -
  have "rd16be m' j = rd16be m j" if "j + 1 < 20" for j
    using that assms length_wr_block [OF assms(1)]
    by (cases "j + 1 < length m") (auto simp: rd16be_def rd8_def nth_wr_block [OF assms(1)])
  then show ?thesis by (simp add: pseudo_sum_def)
qed

lemma ihl_of_le: "ihl_of b \<le> 60"
proof -
  have "b AND 0x0f \<le> 0x0f" by (rule word_and_le1)
  then show ?thesis by (simp add: ihl_of_def word_le_nat_alt)
qed

lemma even_ihl_of: "even (ihl_of b)"
  by (simp add: ihl_of_def)

lemma IpFixChecksum_verifies:
  assumes "IpFixChecksum m = Some m'" and "20 \<le> ihl_of (m ! 0)"
  shows "Csum16 m' 0 (ihl_of (m ! 0)) 0 = Some 0"
proof -
  from assms(1) obtain m1 c where "wr_block m (0 + 10) [0, 0] = Some m1"
    and "Csum16 m1 0 (ihl_of (m ! 0)) 0 = Some c" and "wr_block m1 (0 + 10) (put16 c) = Some m'"
    by (auto simp: IpFixChecksum_def mem_some rd8_def split: if_splits)
  from csum_store_verifies [OF this] assms(2) ihl_of_le [of "m ! 0"] show ?thesis by simp
qed

lemma TcpFixChecksum_verifies:
  assumes "TcpFixChecksum m = Some m'" and "ihl = ihl_of (m ! 0)" and "20 \<le> ihl"
    and len: "rd16be m 2 = Some (ihl + n)" and "20 \<le> n"
  shows "pseudo_sum m' (word_of_nat (6 + n)) \<bind> Csum16 m' ihl n = Some 0"
proof -
  from assms(1) len assms(5) obtain m1 s c
    where w: "wr_block m (ihl + 16) [0, 0] = Some m1"
    and s: "pseudo_sum m1 (word_of_nat (6 + n)) = Some s"
    and c: "Csum16 m1 ihl n s = Some c" and w2: "wr_block m1 (ihl + 16) (put16 c) = Some m'"
    by (auto simp: TcpFixChecksum_def bind_eq_Some_conv rd8_def assms(2) [symmetric]
        split: if_splits)
  have n: "n \<le> 65535" using len be16_le [of "m ! 2" "m ! 3"] by (simp add: rd16be_eq_Some)
  have "Csum16 m' ihl n s = Some 0"
    using csum_store_verifies [OF w c w2] pseudo_sum_small [OF s] assms(5) n by simp
  moreover have "pseudo_sum m' (word_of_nat (6 + n)) = Some s"
    using s pseudo_sum_frame [OF w2] assms(3) by simp
  ultimately show ?thesis by simp
qed

lemma rd16be_put16:
  assumes "wr_block m i (put16 v) = Some m'"
  shows "rd16be m' i = Some (unat v)"
proof -
  have "i + 1 < length m" using assms by (auto simp: wr_block_eq_Some)
  then show ?thesis
    using nth_wr_block [OF assms, of i] nth_wr_block [OF assms, of "i + 1"] length_wr_block [OF assms]
    by (simp add: put16_def be16_put16)
qed

lemma UdpFixChecksum_verifies:
  assumes "UdpFixChecksum m = Some m'" and "ihl = ihl_of (m ! 0)" and "20 \<le> ihl"
    and len: "rd16be m (ihl + 4) = Some n" and "8 \<le> n"
  shows "pseudo_sum m' (word_of_nat (17 + n)) \<bind> Csum16 m' ihl n = Some 0
         \<and> rd16be m' (ihl + 6) \<noteq> Some 0"
proof -
  define fix0 where "fix0 c = (if c = 0 then 0xffff else c :: u16)" for c
  from assms(1,5) len obtain m1 s c where w: "wr_block m (ihl + 6) [0, 0] = Some m1"
    and s: "pseudo_sum m1 (word_of_nat (17 + n)) = Some s"
    and c: "Csum16 m1 ihl n s = Some c" and w2: "wr_block m1 (ihl + 6) (put16 (fix0 c)) = Some m'"
    by (auto simp: UdpFixChecksum_def bind_eq_Some_conv rd8_def Let_def
        assms(2) [symmetric] fix0_def [symmetric] split: if_splits)
  have n: "n \<le> 65535" using len be16_le by (auto simp: rd16be_eq_Some)
  have "Csum16 m' ihl n s = Some 0"
    using csum_store_verifies [OF w c w2] pseudo_sum_small [OF s] assms(5) n
    by (simp add: fix0_def)
  moreover have "pseudo_sum m' (word_of_nat (17 + n)) = Some s"
    using s pseudo_sum_frame [OF w2] assms(3) by simp
  moreover have "fix0 c \<noteq> 0" by (simp add: fix0_def)
  moreover have "rd16be m' (ihl + 6) = Some (unat (fix0 c))"
    using w2 by (rule rd16be_put16)
  ultimately show ?thesis by (simp add: unat_eq_zero)
qed

section \<open>Memory safety\<close>

lemma ok_Csum16 [ok_intro]:
  "off + n \<le> length m \<Longrightarrow> (\<And>c. Csum16 m off n s = Some c \<Longrightarrow> P c) \<Longrightarrow> ok (Csum16 m off n s) P"
  by (simp add: Csum16_def)

lemma ok_Csum16_len [ok_len]:
  "off + n \<le> length m \<Longrightarrow> (\<And>c. P c) \<Longrightarrow> ok (Csum16 m off n s) P"
  by (simp add: Csum16_def)

lemma ok_pseudo_sum_len [ok_len]: "19 < length m \<Longrightarrow> (\<And>s'. P s') \<Longrightarrow> ok (pseudo_sum m s) P"
  by (simp add: pseudo_sum_def)

lemma ok_pseudo_sum [ok_intro]:
  "19 < length m \<Longrightarrow> (\<And>s'. pseudo_sum m s = Some s' \<Longrightarrow> P s') \<Longrightarrow> ok (pseudo_sum m s) P"
  by (simp add: pseudo_sum_def)

lemma rd16be_of_block: "rd_block m' j 2 = rd_block m j 2 \<Longrightarrow> rd16be m' j = rd16be m j"
proof -
  have "rd16be x j = (case rd_block x j 2 of Some b \<Rightarrow> Some (be16 (b ! 0) (b ! 1)) | None \<Rightarrow> None)" for x
    by (auto simp: rd16be_def rd8_def rd_block_def)
  then show "rd_block m' j 2 = rd_block m j 2 \<Longrightarrow> rd16be m' j = rd16be m j" by simp
qed

lemma IpFixChecksum_ok: "60 \<le> length m \<Longrightarrow> ok (IpFixChecksum m) (\<lambda>m'. length m' = length m)"
  unfolding IpFixChecksum_def Let_def ok_bind
  by (intro ok_intro) (use ihl_of_le in \<open>auto simp del: mem_in_range intro: le_trans\<close>)

text \<open>The transport routines trust the length fields; these bounds keep them in the buffer.\<close>

definition tcp_len_ok :: "byte list \<Rightarrow> bool" where
  "tcp_len_ok m \<longleftrightarrow> 80 \<le> length m \<and> (\<forall>t. rd16be m 2 = Some t \<longrightarrow> t \<le> length m)"

definition udp_len_ok :: "byte list \<Rightarrow> bool" where
  "udp_len_ok m \<longleftrightarrow> 80 \<le> length m
     \<and> (\<forall>u. rd16be m (ihl_of (m ! 0) + 4) = Some u \<longrightarrow> ihl_of (m ! 0) + u \<le> length m)"

lemma TcpFixChecksum_ok: "tcp_len_ok m \<Longrightarrow> ok (TcpFixChecksum m) (\<lambda>m'. length m' = length m)"
proof -
  assume l: "tcp_len_ok m"
  then have len: "80 \<le> length m" by (simp add: tcp_len_ok_def)
  obtain t where t: "rd16be m 2 = Some t" "t \<le> length m" using l by (auto simp: tcp_len_ok_def)
  define ihl where "ihl = ihl_of (m ! 0)"
  have ihl: "ihl \<le> 60" by (simp add: ihl_def ihl_of_le)
  have b0: "rd8 m 0 = Some (m ! 0)" using len by (auto simp: rd8_def)
  show ?thesis
  proof (cases "int t - int ihl < 20")
    case True
    then show ?thesis using b0 t by (simp add: TcpFixChecksum_def Let_def ihl_def)
  next
    case False
    then have "ihl + nat (int t - int ihl) \<le> length m" using t by simp
    with False show ?thesis
      unfolding TcpFixChecksum_def Let_def ok_bind b0 t(1) ok_Some ihl_def [symmetric]
      by (simp only: if_False ok_bind) (intro ok_len, use len ihl in \<open>simp_all del: mem_in_range\<close>)
  qed
qed

lemma UdpFixChecksum_ok: "udp_len_ok m \<Longrightarrow> ok (UdpFixChecksum m) (\<lambda>m'. length m' = length m)"
proof -
  assume l: "udp_len_ok m"
  then have len: "80 \<le> length m" by (simp add: udp_len_ok_def)
  define ihl where "ihl = ihl_of (m ! 0)"
  have ihl: "ihl \<le> 60" by (simp add: ihl_def ihl_of_le)
  obtain t where t: "rd16be m (ihl + 4) = Some t" "ihl + t \<le> length m"
    using l ihl by (auto simp: udp_len_ok_def ihl_def)
  have b0: "rd8 m 0 = Some (m ! 0)" using len by (auto simp: rd8_def)
  show ?thesis
  proof (cases "t < 8")
    case True
    then show ?thesis using b0 t by (simp add: UdpFixChecksum_def Let_def ihl_def)
  next
    case False
    with t show ?thesis
      unfolding UdpFixChecksum_def Let_def ok_bind b0 ok_Some ihl_def [symmetric] t(1)
      by (simp only: if_False ok_bind) (intro ok_len, use len ihl in \<open>simp_all del: mem_in_range\<close>)
  qed
qed

text \<open>What the routines leave alone: everything but their two bytes.\<close>

definition field_only :: "nat \<Rightarrow> byte list \<Rightarrow> byte list \<Rightarrow> bool" where
  "field_only i m m' \<longleftrightarrow> length m' = length m
     \<and> (\<forall>j n. j + n \<le> i \<or> i + 2 \<le> j \<longrightarrow> rd_block m' j n = rd_block m j n)"

lemma field_only_refl: "field_only i m m"
  by (simp add: field_only_def)

lemma field_only_store:
  assumes "wr_block m i [0, 0] = Some m1" and "wr_block m1 i (put16 c) = Some m'"
  shows "field_only i m m'"
  unfolding field_only_def
  using rd_block_wr_other [OF assms(1)] rd_block_wr_other [OF assms(2)] length_wr_block [OF assms(1)]
    length_wr_block [OF assms(2)] by simp

lemma IpFixChecksum_field:
  assumes "IpFixChecksum m = Some m'"
  shows "field_only 10 m m'"
proof -
  from assms obtain m1 c where "wr_block m 10 [0, 0] = Some m1" "wr_block m1 10 (put16 c) = Some m'"
    by (auto simp: IpFixChecksum_def bind_eq_Some_conv Let_def)
  then show ?thesis by (rule field_only_store)
qed

lemma TcpFixChecksum_field:
  assumes "TcpFixChecksum m = Some m'"
  shows "field_only (ihl_of (m ! 0) + 16) m m'"
proof -
  from assms have "m' = m \<or> (\<exists>m1 c. wr_block m (ihl_of (m ! 0) + 16) [0, 0] = Some m1
      \<and> wr_block m1 (ihl_of (m ! 0) + 16) (put16 c) = Some m')"
    by (auto simp: TcpFixChecksum_def Let_def bind_eq_Some_conv rd8_def split: if_splits)
  then show ?thesis using field_only_refl field_only_store by blast
qed

lemma UdpFixChecksum_field:
  assumes "UdpFixChecksum m = Some m'"
  shows "field_only (ihl_of (m ! 0) + 6) m m'"
proof -
  from assms have "m' = m \<or> (\<exists>m1 c. wr_block m (ihl_of (m ! 0) + 6) [0, 0] = Some m1
      \<and> wr_block m1 (ihl_of (m ! 0) + 6) (put16 c) = Some m')"
    by (simp only: UdpFixChecksum_def Let_def bind_eq_Some_conv rd8_eq_Some)
       (auto split: if_splits simp: bind_eq_Some_conv)
  then show ?thesis using field_only_refl field_only_store by blast
qed

lemma field_onlyD:
  assumes "field_only i m m'"
  shows "length m' = length m" "j + n \<le> i \<or> i + 2 \<le> j \<Longrightarrow> rd_block m' j n = rd_block m j n"
    and "j < i \<or> i + 2 \<le> j \<Longrightarrow> j < length m \<Longrightarrow> m' ! j = m ! j"
proof -
  show l: "length m' = length m" and b: "\<And>j n. j + n \<le> i \<or> i + 2 \<le> j \<Longrightarrow> rd_block m' j n = rd_block m j n"
    using assms by (auto simp: field_only_def)
  show "m' ! j = m ! j" if "j < i \<or> i + 2 \<le> j" "j < length m"
    using b [of j 1] that l by (auto simp: take_Suc_conv_app_nth)
qed

lemma IpFixChecksum_frame:
  assumes "IpFixChecksum m = Some m'"
  shows "length m' = length m" and "j + n \<le> 10 \<or> 12 \<le> j \<Longrightarrow> rd_block m' j n = rd_block m j n"
    and "m' ! 0 = m ! 0"
proof -
  note f = field_onlyD [OF IpFixChecksum_field [OF assms]]
  show "length m' = length m" "j + n \<le> 10 \<or> 12 \<le> j \<Longrightarrow> rd_block m' j n = rd_block m j n"
    using f(1,2) by simp_all
  have "m \<noteq> []" using assms by (auto simp: IpFixChecksum_def rd8_def)
  then show "m' ! 0 = m ! 0" using f(3) [of 0] by simp
qed

text \<open>
  The transport checksum routines are memory-safe exactly because of the length fields of
  the packet, which nothing checks: on a buffer of at least 80 bytes whose IP total length
  and UDP length stay inside it, all three routines succeed and keep its size; with a TCP
  length that runs past the buffer, \<open>TcpFixChecksum\<close> reads outside it.
\<close>

theorem FixChecksum_bounds:
  assumes "80 \<le> length m"
  shows "(tcp_len_ok m \<and> udp_len_ok m \<longrightarrow> (\<forall>f \<in> {IpFixChecksum, TcpFixChecksum, UdpFixChecksum}.
            \<exists>m'. f m = Some m' \<and> length m' = length m))
       \<and> (rd16be m 2 = Some t \<longrightarrow> ihl_of (m ! 0) + 20 \<le> t \<longrightarrow> length m < t \<longrightarrow> TcpFixChecksum m = None)"
proof (intro conjI impI)
  assume "tcp_len_ok m \<and> udp_len_ok m"
  then show "\<forall>f \<in> {IpFixChecksum, TcpFixChecksum, UdpFixChecksum}. \<exists>m'. f m = Some m' \<and> length m' = length m"
    using IpFixChecksum_ok [of m] TcpFixChecksum_ok [of m] UdpFixChecksum_ok [of m] assms
    by (auto simp: ok_def)
next
  assume t: "rd16be m 2 = Some t" "ihl_of (m ! 0) + 20 \<le> t" "length m < t"
  have "rd8 m 0 = Some (m ! 0)" using assms by (auto simp: rd8_def)
  moreover have "Csum16 m1 (ihl_of (m ! 0)) (nat (int t - int (ihl_of (m ! 0)))) s = None"
    if "length m1 = length m" for m1 s
    using that t by (simp add: Csum16_def rd_block_def)
  moreover have "\<not> int t - int (ihl_of (m ! 0)) < 20" using t(2) by simp
  ultimately show "TcpFixChecksum m = None"
    unfolding TcpFixChecksum_def Let_def t(1)
    by (auto split: bind_splits dest!: length_wr_block)
qed

lemma FixChecksum_bounds_witness:
  "TcpFixChecksum ([0x45, 0, 0x06, 0x41] @ replicate 1596 0) = None"
  using FixChecksum_bounds [of "[0x45, 0, 0x06, 0x41] @ replicate 1596 0" 1601]
  by (simp add: be16_def ihl_of_def rd16be_def)

end
