(* ===== verification/Dns.thy ===== *)
theory Dns
  imports Checksum
begin

text \<open>
  The DNS reply rewriting of \<open>net/netif/netif.c\<close>: \<open>DnsSkipName\<close> and \<open>DnsFlatten\<close>.
  The datagram is the byte list that starts at the IP header and runs to the end of
  the object it lies in; \<open>pbOut\<close> is the caller's 600-byte buffer. Pointers are offsets
  from the IP header. \<open>DnsFlatten\<close> is the scan of the reply (\<open>dns_scan\<close>) followed by
  the construction of the new datagram (\<open>dns_build\<close>).
\<close>

unbundle bit_operations_syntax

function DnsSkipName :: "byte list \<Rightarrow> nat \<Rightarrow> nat \<Rightarrow> nat option" where
  "DnsSkipName m pb pbEnd =
     (if pb < pbEnd then
        (case rd8 m pb of
           None \<Rightarrow> None
         | Some b \<Rightarrow>
             if b AND 0xC0 = 0xC0 then Some (pb + 2)
             else if b = 0 then Some (pb + 1)
             else DnsSkipName m (pb + unat b + 1) pbEnd)
      else Some pbEnd)"
  by pat_completeness auto
termination by (relation "measure (\<lambda>(m, pb, pbEnd). pbEnd - pb)") auto

declare DnsSkipName.simps [simp del]

text \<open>\<open>for (i = 0; i < qd && p < pbEnd; i++) { p = DnsSkipName(p, pbEnd); p += 4; }\<close>\<close>

fun dns_questions :: "byte list \<Rightarrow> nat \<Rightarrow> nat \<Rightarrow> nat \<Rightarrow> nat option" where
  "dns_questions m 0 p pbEnd = Some p"
| "dns_questions m (Suc qd) p pbEnd =
     (if p < pbEnd
      then do { p \<leftarrow> DnsSkipName m p pbEnd; dns_questions m qd (p + 4) pbEnd }
      else Some p)"

text \<open>
  The answer walk. The state is \<open>bCname\<close> and the address found (\<open>bHaveA\<close> with
  \<open>abAip\<close>), which the first A record sets.
\<close>

fun dns_answers ::
  "byte list \<Rightarrow> nat \<Rightarrow> nat \<Rightarrow> nat \<Rightarrow> bool \<times> byte list option \<Rightarrow> (bool \<times> byte list option) option" where
  "dns_answers m 0 p pbEnd (bCname, aip) = Some (bCname, aip)"
| "dns_answers m (Suc an) p pbEnd (bCname, aip) =
     (if p < pbEnd
      then do {
        p \<leftarrow> DnsSkipName m p pbEnd;
        if p + 10 > pbEnd then Some (bCname, aip)
        else do {
          ty \<leftarrow> rd16be m p;
          rdl \<leftarrow> rd16be m (p + 8);
          let bCname = (ty = 5 \<or> bCname);
          aip \<leftarrow> (if ty = 1 \<and> rdl = 4 \<and> p + 14 \<le> pbEnd \<and> aip = None
                   then map_option Some (rd_block m (p + 10) 4) else Some aip);
          dns_answers m an (p + 10 + rdl) pbEnd (bCname, aip) } }
      else Some (bCname, aip))"

record dns_reply =
  dr_qlen :: nat
  dr_cname :: bool
  dr_a :: "byte list option"

text \<open>The scan: \<open>None\<close> inside is the early return for a datagram without a DNS header.\<close>

definition dns_scan :: "byte list \<Rightarrow> nat \<Rightarrow> dns_reply option option" where
  "dns_scan pbIp nIpLen = do {
     b0 \<leftarrow> rd8 pbIp 0;
     let ihl = ihl_of b0;
     let dns = ihl + 8;
     if dns + 12 > nIpLen then Some None
     else do {
       qd \<leftarrow> rd16be pbIp (dns + 4);
       an \<leftarrow> rd16be pbIp (dns + 6);
       p \<leftarrow> dns_questions pbIp qd (dns + 12) nIpLen;
       (bCname, aip) \<leftarrow> dns_answers pbIp an p nIpLen (False, None);
       Some (Some \<lparr>dr_qlen = p - (dns + 12), dr_cname = bCname, dr_a = aip\<rparr>) } }"

definition dns_answer_rr :: "byte list \<Rightarrow> byte list" where
  "dns_answer_rr abAip =
     [0xC0, 0x0C, 0x00, 0x01, 0x00, 0x01, 0, 0, 0, 60, 0x00, 0x04] @ abAip"

definition dns_build ::
  "byte list \<Rightarrow> nat \<Rightarrow> byte list \<Rightarrow> byte list \<Rightarrow> (nat \<times> byte list) option" where
  "dns_build pbIp nQLen abAip pbOut = do {
     b0 \<leftarrow> rd8 pbIp 0;
     let ihl = ihl_of b0;
     h \<leftarrow> rd_block pbIp 0 ihl; pbOut \<leftarrow> wr_block pbOut 0 h;
     u \<leftarrow> rd_block pbIp ihl 8; pbOut \<leftarrow> wr_block pbOut ihl u;
     let od = ihl + 8;
     d \<leftarrow> rd_block pbIp (ihl + 8) 12; pbOut \<leftarrow> wr_block pbOut od d;
     pbOut \<leftarrow> wr_block pbOut (od + 6) [0, 1];
     pbOut \<leftarrow> wr_block pbOut (od + 8) [0, 0, 0, 0];
     q \<leftarrow> rd_block pbIp (ihl + 8 + 12) nQLen; pbOut \<leftarrow> wr_block pbOut (od + 12) q;
     pbOut \<leftarrow> wr_block pbOut (od + 12 + nQLen) (dns_answer_rr abAip);
     let nDnsLen = 12 + nQLen + 16;
     let nUdpLen = 8 + nDnsLen;
     pbOut \<leftarrow> wr_block pbOut (ihl + 4) [hi8 nUdpLen, lo8 nUdpLen];
     pbOut \<leftarrow> wr_block pbOut (ihl + 6) [0, 0];
     let nTotal = ihl + nUdpLen;
     pbOut \<leftarrow> wr_block pbOut 2 [hi8 nTotal, lo8 nTotal];
     pbOut \<leftarrow> wr_block pbOut 10 [0, 0];
     c \<leftarrow> Csum16 pbOut 0 ihl 0;
     pbOut \<leftarrow> wr_block pbOut 10 (put16 c);
     dwSeed \<leftarrow> pseudo_sum pbOut (word_of_nat (17 + nUdpLen));
     c \<leftarrow> Csum16 pbOut ihl nUdpLen dwSeed;
     let c = (if c = 0 then 0xFFFF else c);
     pbOut \<leftarrow> wr_block pbOut (ihl + 6) (put16 c);
     Some (nTotal, pbOut) }"

definition DnsFlatten :: "byte list \<Rightarrow> nat \<Rightarrow> byte list \<Rightarrow> (nat \<times> byte list) option" where
  "DnsFlatten pbIp nIpLen pbOut = do {
     r \<leftarrow> dns_scan pbIp nIpLen;
     case r of
       None \<Rightarrow> Some (0, pbOut)
     | Some r \<Rightarrow>
         (case (dr_cname r, dr_a r) of
            (True, Some abAip) \<Rightarrow> dns_build pbIp (dr_qlen r) abAip pbOut
          | _ \<Rightarrow> Some (0, pbOut)) }"

section \<open>The scan stays inside the datagram\<close>

lemma DnsSkipName_bounds:
  "pbEnd \<le> length m \<Longrightarrow> pb < pbEnd \<Longrightarrow>
     \<exists>p. DnsSkipName m pb pbEnd = Some p \<and> pb < p \<and> p \<le> pbEnd + 1"
proof (induction m pb pbEnd rule: DnsSkipName.induct)
  case (1 m pb pbEnd)
  then have rd: "rd8 m pb = Some (m ! pb)" by simp
  show ?case
  proof (cases "m ! pb AND 0xC0 = 0xC0 \<or> m ! pb = 0")
    case True
    then show ?thesis using "1.prems" by (subst DnsSkipName.simps) auto
  next
    case False
    let ?q = "pb + unat (m ! pb) + 1"
    have step: "DnsSkipName m pb pbEnd = DnsSkipName m ?q pbEnd"
      using False "1.prems" by (subst DnsSkipName.simps) simp
    show ?thesis
    proof (cases "?q < pbEnd")
      case True
      then show ?thesis unfolding step using "1.IH" [OF _ rd] False "1.prems" by fastforce
    next
      case False
      then have "DnsSkipName m ?q pbEnd = Some pbEnd" by (subst DnsSkipName.simps) simp
      then show ?thesis unfolding step using "1.prems" by simp
    qed
  qed
qed

lemma dns_questions_total:
  "pbEnd \<le> length m \<Longrightarrow> \<exists>q. dns_questions m qd p pbEnd = Some q \<and> p \<le> q"
proof (induction qd arbitrary: p)
  case (Suc qd)
  show ?case
  proof (cases "p < pbEnd")
    case True
    from DnsSkipName_bounds [OF Suc.prems this] obtain p' where
      "DnsSkipName m p pbEnd = Some p'" "p < p'" by blast
    with True Suc.IH [OF Suc.prems, of "p' + 4"] show ?thesis by auto
  qed simp
qed simp

text \<open>
  An answer section that yields an address starts before the end, and if it also holds
  a CNAME, at least two records lie between its start and the end.
\<close>

lemma dns_answers_total:
  "pbEnd \<le> length m \<Longrightarrow>
     \<exists>c a. dns_answers m an p pbEnd (c0, a0) = Some (c, a)
        \<and> (\<forall>x. a = Some x \<longrightarrow> a0 = Some x \<or> length x = 4 \<and> a0 = None)
        \<and> (a \<noteq> None \<longrightarrow> a0 = None \<longrightarrow> p + 15 \<le> pbEnd)
        \<and> (c \<longrightarrow> \<not> c0 \<longrightarrow> p + 11 \<le> pbEnd)
        \<and> (a \<noteq> None \<longrightarrow> a0 = None \<longrightarrow> c \<longrightarrow> \<not> c0 \<longrightarrow> p + 26 \<le> pbEnd)"
proof (induction an arbitrary: p c0 a0)
  case (Suc an)
  show ?case
  proof (cases "p < pbEnd")
    case True
    from DnsSkipName_bounds [OF Suc.prems this] obtain p' where
      sk: "DnsSkipName m p pbEnd = Some p'" and p': "p < p'" by blast
    show ?thesis
    proof (cases "p' + 10 > pbEnd")
      case False
      define ty rdl where "ty = be16 (m ! p') (m ! (p' + 1))"
        and "rdl = be16 (m ! (p' + 8)) (m ! (p' + 8 + 1))"
      let ?c1 = "ty = 5 \<or> c0"
      define hit where "hit \<longleftrightarrow> ty = 1 \<and> rdl = 4 \<and> p' + 14 \<le> pbEnd \<and> a0 = None"
      define a1 where "a1 = (if hit then Some (take 4 (drop (p' + 10) m)) else a0)"
      have "rd16be m p' = Some ty" "rd16be m (p' + 8) = Some rdl"
        using False Suc.prems by (simp_all add: ty_def rdl_def)
      then have "dns_answers m (Suc an) p pbEnd (c0, a0)
          = dns_answers m an (p' + 10 + rdl) pbEnd (?c1, a1)"
        using True sk False Suc.prems by (simp add: a1_def hit_def)
      moreover from Suc.IH [OF Suc.prems, of "p' + 10 + rdl" ?c1 a1] obtain c a where
        ih: "dns_answers m an (p' + 10 + rdl) pbEnd (?c1, a1) = Some (c, a)"
          "\<forall>x. a = Some x \<longrightarrow> a1 = Some x \<or> length x = 4 \<and> a1 = None"
          "a \<noteq> None \<longrightarrow> a1 = None \<longrightarrow> p' + 10 + rdl + 15 \<le> pbEnd"
          "c \<longrightarrow> \<not> ?c1 \<longrightarrow> p' + 10 + rdl + 11 \<le> pbEnd"
          "a \<noteq> None \<longrightarrow> a1 = None \<longrightarrow> c \<longrightarrow> \<not> ?c1 \<longrightarrow> p' + 10 + rdl + 26 \<le> pbEnd" by blast
      moreover have "(\<forall>x. a = Some x \<longrightarrow> a0 = Some x \<or> length x = 4 \<and> a0 = None)
        \<and> (a \<noteq> None \<longrightarrow> a0 = None \<longrightarrow> p + 15 \<le> pbEnd)
        \<and> (c \<longrightarrow> \<not> c0 \<longrightarrow> p + 11 \<le> pbEnd)
        \<and> (a \<noteq> None \<longrightarrow> a0 = None \<longrightarrow> c \<longrightarrow> \<not> c0 \<longrightarrow> p + 26 \<le> pbEnd)"
      proof (cases hit)
        case True
        define x where "x = take 4 (drop (p' + 10) m)"
        from True have hit: "ty = 1" "rdl = 4" "p' + 14 \<le> pbEnd" "a0 = None" "a1 = Some x"
          by (simp_all add: hit_def a1_def x_def)
        then have "length x = 4" using Suc.prems by (simp add: x_def)
        moreover have "c \<longrightarrow> \<not> c0 \<longrightarrow> p + 26 \<le> pbEnd" using ih(4) hit(1,2) p' by auto
        ultimately show ?thesis using ih(2) hit p' by auto
      next
        case False
        then have "a1 = a0" by (simp add: a1_def)
        with ih(2-5) p' \<open>\<not> p' + 10 > pbEnd\<close> show ?thesis by (cases "ty = 5") auto
      qed
      ultimately show ?thesis by (intro exI [of _ c] exI [of _ a]) simp
    qed (use True sk in auto)
  qed auto
qed auto

lemma dns_scan_total:
  assumes "m \<noteq> []" and "nIpLen \<le> length m"
  shows "\<exists>r. dns_scan m nIpLen = Some r \<and>
     (\<forall>d x. r = Some d \<longrightarrow> dr_cname d \<longrightarrow> dr_a d = Some x \<longrightarrow>
        length x = 4 \<and> ihl_of (m ! 0) + 46 + dr_qlen d \<le> nIpLen)"
proof -
  define dns where "dns = ihl_of (m ! 0) + 8"
  have b0: "rd8 m 0 = Some (m ! 0)" using assms(1) by simp
  show ?thesis
  proof (cases "dns + 12 > nIpLen")
    case True
    then show ?thesis using b0 by (simp add: dns_scan_def dns_def Let_def)
  next
    case False
    obtain qd where qd: "rd16be m (dns + 4) = Some qd" using False assms(2) by simp
    obtain an where an: "rd16be m (dns + 6) = Some an" using False assms(2) by simp
    from dns_questions_total [OF assms(2), of qd "dns + 12"] obtain p where
      q: "dns_questions m qd (dns + 12) nIpLen = Some p" "dns + 12 \<le> p" by blast
    from dns_answers_total [OF assms(2), of an p False None] obtain c a where
      a: "dns_answers m an p nIpLen (False, None) = Some (c, a)"
        "\<forall>x. a = Some x \<longrightarrow> length x = 4" "a \<noteq> None \<longrightarrow> c \<longrightarrow> p + 26 \<le> nIpLen" by auto
    have "dns_scan m nIpLen = Some (Some \<lparr>dr_qlen = p - (dns + 12), dr_cname = c, dr_a = a\<rparr>)"
      using b0 qd an q(1) a(1) False by (simp add: dns_scan_def Let_def dns_def)
    with a q(2) show ?thesis by (auto simp: dns_def)
  qed
qed

section \<open>The rebuilt reply\<close>

lemma length_dns_answer_rr [simp]: "length (dns_answer_rr a) = 12 + length a"
  by (simp add: dns_answer_rr_def)


lemma dns_build_ok:
  assumes "m \<noteq> []" and "ihl_of (m ! 0) + 20 + q \<le> length m" and "length a = 4"
    and "ihl_of (m ! 0) + 36 + q \<le> length out"
  shows "ok (dns_build m q a out) (\<lambda>(n, out'). n = ihl_of (m ! 0) + 36 + q \<and> length out' = length out)"
  unfolding dns_build_def Let_def ok_bind ok_Some
  apply (rule ok_rd8, use assms(1) in simp)
  apply (intro ok_len)
  by (use assms in \<open>simp_all\<close>)

lemma dns_build_overflow:
  assumes "length a = 4" and "length out < ihl_of (m ! 0) + 36 + q"
  shows "dns_build m q a out = None"
proof (rule ccontr)
  assume "dns_build m q a out \<noteq> None"
  then show False
    using assms unfolding dns_build_def Let_def 
    by (auto simp only: bind_eq_Some_conv not_None_eq length_dns_answer_rr rd8_eq_Some
      dest!: wr_block_bound)
qed

text \<open>What a built reply holds: the copied question, one A record, and checksums that verify.\<close>

lemma dns_build_content:
  assumes "dns_build m q a out = Some (n, out')" and "ihl = ihl_of (m ! 0)" and "20 \<le> ihl"
    and "length a = 4" and "n \<le> 65535"
  shows "n = ihl + 36 + q"
    and "rd16be out' 2 = Some n"
    and "rd16be out' (ihl + 4) = Some (n - ihl)"
    and "rd16be out' (ihl + 14) = Some 1"
    and "rd_block out' (ihl + 20) q = rd_block m (ihl + 20) q"
    and "rd_block out' (ihl + 20 + q) 16 = Some (dns_answer_rr a)"
    and "rd_block out' 12 8 = rd_block m 12 8"
    and "Csum16 out' 0 ihl 0 = Some 0"
    and "pseudo_sum out' (word_of_nat (17 + (n - ihl))) \<bind> Csum16 out' ihl (n - ihl) = Some 0"
proof -
  let ?n = "8 + (12 + q + 16)"
  define fix0 where "fix0 c = (if c = 0 then 0xFFFF else c :: u16)" for c
  have "rd8 m 0 = Some (m ! 0)"
    using assms(1) by (auto simp only: dns_build_def bind_eq_Some_conv rd8_eq_Some)
  with assms(1) obtain h o1 u o2 d o3 o4 o5 qs o6 o7 o8 o9 o10 o11 c1 o12 s c2 where
    h: "rd_block m 0 ihl = Some h" and o1: "wr_block out 0 h = Some o1"
    and u: "rd_block m ihl 8 = Some u" and o2: "wr_block o1 ihl u = Some o2"
    and d: "rd_block m (ihl + 8) 12 = Some d" and o3: "wr_block o2 (ihl + 8) d = Some o3"
    and o4: "wr_block o3 (ihl + 8 + 6) [0, 1] = Some o4"
    and o5: "wr_block o4 (ihl + 8 + 8) [0, 0, 0, 0] = Some o5"
    and q: "rd_block m (ihl + 8 + 12) q = Some qs" and o6: "wr_block o5 (ihl + 8 + 12) qs = Some o6"
    and o7: "wr_block o6 (ihl + 8 + 12 + q) (dns_answer_rr a) = Some o7"
    and o8: "wr_block o7 (ihl + 4) [hi8 ?n, lo8 ?n] = Some o8"
    and o9: "wr_block o8 (ihl + 6) [0, 0] = Some o9"
    and o10: "wr_block o9 2 [hi8 (ihl + ?n), lo8 (ihl + ?n)] = Some o10"
    and o11: "wr_block o10 10 [0, 0] = Some o11"
    and c1: "Csum16 o11 0 ihl 0 = Some c1" and o12: "wr_block o11 10 (put16 c1) = Some o12"
    and s: "pseudo_sum o12 (word_of_nat (17 + ?n)) = Some s"
    and c2: "Csum16 o12 ihl ?n s = Some c2" and o13: "wr_block o12 (ihl + 6) (put16 (fix0 c2)) = Some out'"
    and n: "n = ihl + ?n"
    unfolding dns_build_def Let_def
    by (simp only: bind.bind_lunit bind_eq_Some_conv assms(2) [symmetric] fix0_def [symmetric]
          option.inject prod.inject)
       (elim exE conjE, rule that, (assumption | erule sym | simp)+)
  show "n = ihl + 36 + q" using n by simp
  have lens: "length h = ihl" "length u = 8" "length d = 12" "length qs = q"
    using h u d q by (simp_all only: length_rd_block)
  note fr = rd_block_wr_other [OF o13] rd_block_wr_other [OF o12] rd_block_wr_other [OF o11]
    rd_block_wr_other [OF o10] rd_block_wr_other [OF o9] rd_block_wr_other [OF o8]
    rd_block_wr_other [OF o7] rd_block_wr_other [OF o6] rd_block_wr_other [OF o5]
    rd_block_wr_other [OF o4] rd_block_wr_other [OF o3] rd_block_wr_other [OF o2]
  have "rd_block out' 2 2 = Some [hi8 n, lo8 n]"
    using rd_block_wr_block [OF o10, of 2] assms(3) n by (simp add: fr)
  from rd16be_rd_block [OF this] assms(5) show "rd16be out' 2 = Some n" by simp
  have "rd_block out' (ihl + 4) 2 = Some [hi8 ?n, lo8 ?n]"
    using rd_block_wr_block [OF o8, of 2] assms(3) by (simp add: fr)
  from rd16be_rd_block [OF this] assms(5) n show "rd16be out' (ihl + 4) = Some (n - ihl)" by simp
  have "rd_block out' (ihl + 8 + 6) 2 = Some [0, 1]"
    using rd_block_wr_block [OF o4, of 2] assms(3) lens by (simp add: fr)
  from rd16be_rd_block [OF this] show "rd16be out' (ihl + 14) = Some 1"
    by (simp add: be16_def add.commute)
  have "rd_block out' (ihl + 8 + 12) q = Some qs"
    using rd_block_wr_block [OF o6 lens(4)] assms(3,4) lens by (simp add: fr)
  with q show "rd_block out' (ihl + 20) q = rd_block m (ihl + 20) q" by (simp add: add.commute)
  have "rd_block out' (ihl + 8 + 12 + q) 16 = Some (dns_answer_rr a)"
    using rd_block_wr_block [OF o7, of 16] assms(3,4) lens by (simp add: fr)
  then show "rd_block out' (ihl + 20 + q) 16 = Some (dns_answer_rr a)" by (simp add: add.commute)
  have "rd_block out' 12 8 = rd_block o1 12 8" using assms(3) lens by (simp add: fr)
  with rd_block_copied [OF h o1] assms(3) show "rd_block out' 12 8 = rd_block m 12 8" by simp
  have "Csum16 o12 0 ihl 0 = Some 0"
    using csum_store_verifies [where off = 0 and k = 10, OF _ c1 _ _ _ _ _ _] o11 o12 assms(2,3)
      even_ihl_of ihl_of_le [of "m ! 0"] by simp
  moreover have "Csum16 out' 0 ihl 0 = Csum16 o12 0 ihl 0"
    using fr(1) [of 0 ihl] by (simp add: Csum16_def)
  ultimately show "Csum16 out' 0 ihl 0 = Some 0" by simp
  have "rd_block o12 (ihl + 6) 2 = Some [0, 0]"
    using rd_block_wr_block [OF o9, of 2] assms(3) by (simp add: fr)
  then have "wr_block o12 (ihl + 6) [0, 0] = Some o12" by (rule wr_block_same)
  from csum_store_verifies [OF this c2 o13] pseudo_sum_small [OF s] assms(5) n
  have "Csum16 out' ihl ?n s = Some 0" by (simp add: fix0_def)
  moreover have "pseudo_sum out' (word_of_nat (17 + ?n)) = Some s"
    using s pseudo_sum_frame [OF o13] assms(3) by simp
  ultimately show "pseudo_sum out' (word_of_nat (17 + (n - ihl))) \<bind> Csum16 out' ihl (n - ihl) = Some 0"
    using n by simp
qed

section \<open>Properties of DnsFlatten\<close>

lemma DnsFlatten_cases:
  assumes "m \<noteq> []" and "nIpLen \<le> length m"
  obtains (pass) "DnsFlatten m nIpLen out = Some (0, out)"
      "\<nexists>d x. dns_scan m nIpLen = Some (Some d) \<and> dr_cname d \<and> dr_a d = Some x"
  | (rewrite) d x where "dns_scan m nIpLen = Some (Some d)" "dr_cname d" "dr_a d = Some x"
      "length x = 4" "ihl_of (m ! 0) + 46 + dr_qlen d \<le> nIpLen"
      "DnsFlatten m nIpLen out = dns_build m (dr_qlen d) x out"
proof -
  from dns_scan_total [OF assms] obtain r where r: "dns_scan m nIpLen = Some r"
    "\<forall>d x. r = Some d \<longrightarrow> dr_cname d \<longrightarrow> dr_a d = Some x \<longrightarrow>
        length x = 4 \<and> ihl_of (m ! 0) + 46 + dr_qlen d \<le> nIpLen" by blast
  show thesis
  proof (cases "\<exists>d x. r = Some d \<and> dr_cname d \<and> dr_a d = Some x")
    case True
    then obtain d x where "r = Some d" "dr_cname d" "dr_a d = Some x" by blast
    with r show thesis by (intro rewrite [of d x]) (auto simp: DnsFlatten_def)
  next
    case False
    then have "DnsFlatten m nIpLen out = Some (0, out)"
      using r(1) by (auto simp: DnsFlatten_def split: option.splits bool.splits)
    with False r(1) show thesis by (intro pass) auto
  qed
qed

lemma DnsFlatten_fits_aux:
  assumes "pbIp \<noteq> []" and "nIpLen \<le> length pbIp" and "nIpLen \<le> length pbOut"
  shows "\<exists>n out. DnsFlatten pbIp nIpLen pbOut = Some (n, out) \<and> length out = length pbOut
           \<and> (n = 0 \<and> out = pbOut \<or> 0 < n \<and> n + 10 \<le> nIpLen)"
  using assms(1,2)
proof (cases rule: DnsFlatten_cases [where out = pbOut])
  case (rewrite d x)
  have "ok (dns_build pbIp (dr_qlen d) x pbOut)
      (\<lambda>(n, out'). n = ihl_of (pbIp ! 0) + 36 + dr_qlen d \<and> length out' = length pbOut)"
    using dns_build_ok [of pbIp "dr_qlen d" x pbOut] rewrite assms by simp
  with rewrite show ?thesis by (auto elim!: okE)
qed simp

text \<open>
  For a datagram that fits the output buffer, \<open>DnsFlatten\<close> reads and writes only inside
  its two buffers; either it reports 0 and leaves the buffer alone, or the datagram it
  builds is at least ten bytes shorter than the one it was given.
\<close>

theorem DnsFlatten_fits:
  assumes "pbIp \<noteq> []" and "nIpLen \<le> length pbIp" and "nIpLen \<le> length pbOut"
  shows "\<exists>n out. DnsFlatten pbIp nIpLen pbOut = Some (n, out) \<and> length out = length pbOut
           \<and> (n = 0 \<and> out = pbOut \<or> 0 < n \<and> n + 10 \<le> nIpLen)"
  using assms by (rule DnsFlatten_fits_aux)

text \<open>
  C14: the caller's buffer has 600 bytes and the frame can be longer. \<open>DnsFlatten\<close> leaves its
  buffers exactly when the reply is one it rewrites (a CNAME and an address) and its
  question section is longer than the buffer has room for.
\<close>

theorem DnsFlatten_fault_iff:
  assumes "pbIp \<noteq> []" and "nIpLen \<le> length pbIp"
  shows "DnsFlatten pbIp nIpLen pbOut = None \<longleftrightarrow>
     (\<exists>d x. dns_scan pbIp nIpLen = Some (Some d) \<and> dr_cname d \<and> dr_a d = Some x
        \<and> length pbOut < ihl_of (pbIp ! 0) + 36 + dr_qlen d)"
  using assms
proof (cases rule: DnsFlatten_cases [where out = pbOut])
  case (rewrite d x)
  show ?thesis
  proof (cases "length pbOut < ihl_of (pbIp ! 0) + 36 + dr_qlen d")
    case True
    with rewrite dns_build_overflow show ?thesis by auto
  next
    case False
    have "ok (dns_build pbIp (dr_qlen d) x pbOut)
        (\<lambda>(n, out'). n = ihl_of (pbIp ! 0) + 36 + dr_qlen d \<and> length out' = length pbOut)"
      using dns_build_ok [of pbIp "dr_qlen d" x pbOut] rewrite assms False by simp
    with False rewrite show ?thesis by (auto elim!: okE)
  qed
qed auto


section \<open>Witnesses\<close>

text \<open>A reply with one CNAME record and the A record 1.2.3.4 after it.\<close>

definition dns_sample :: "byte list \<Rightarrow> byte list" where
  "dns_sample qname =
     [0x45, 0, 0, 81, 0, 0, 0, 0, 64, 17, 0, 0, 8, 8, 8, 8, 10, 0, 0, 2]
     @ [0, 53, 4, 0, 0, 61, 0, 0]
     @ [0, 1, 0x81, 0x80, 0, 1, 0, 2, 0, 0, 0, 0]
     @ qname @ [0, 1, 0, 1]
     @ [0xC0, 12, 0, 5, 0, 1, 0, 0, 0, 9, 0, 4, 1, 99, 0xC0, 14]
     @ [0xC0, 33, 0, 1, 0, 1, 0, 0, 0, 9, 0, 4, 1, 2, 3, 4]"

definition dns_long_name :: "byte list" where
  "dns_long_name = concat (replicate 9 (63 # replicate 63 97)) @ [0]"

lemma dns_sample_run:
  "map_option fst (DnsFlatten (dns_sample [1, 97, 1, 98, 0]) 81 (replicate 600 0)) = Some 65"
  by code_simp

lemma dns_sample_scan:
  "dns_scan (dns_sample [1, 97, 1, 98, 0]) 81
     = Some (Some \<lparr>dr_qlen = 9, dr_cname = True, dr_a = Some [1, 2, 3, 4]\<rparr>)"
  by code_simp

lemma dns_sample_long_scan:
  "dns_scan (dns_sample dns_long_name) 653
     = Some (Some \<lparr>dr_qlen = 581, dr_cname = True, dr_a = Some [1, 2, 3, 4]\<rparr>)"
  by code_simp

lemma dns_sample_length: "length (dns_sample q) = 76 + length q" "dns_sample q \<noteq> []"
  and dns_sample_ihl: "ihl_of (dns_sample q ! 0) = 20"
  by (simp_all add: dns_sample_def ihl_of_def)

lemma dns_long_name_length: "length dns_long_name = 577"
  by code_simp

lemma DnsFlatten_fits_witness:
  "\<exists>n out. DnsFlatten (dns_sample [1, 97, 1, 98, 0]) 81 (replicate 600 0) = Some (n, out)
     \<and> length out = 600 \<and> n = 65"
  using DnsFlatten_fits [of "dns_sample [1, 97, 1, 98, 0]" 81 "replicate 600 0"] dns_sample_run
  by (auto simp: dns_sample_length)

lemma DnsFlatten_fault_iff_witness:
  "DnsFlatten (dns_sample dns_long_name) 653 (replicate 600 0) = None"
  by (subst DnsFlatten_fault_iff)
     (simp_all add: dns_sample_length dns_sample_ihl dns_long_name_length dns_sample_long_scan)


end
