(* ===== verification/Netif.thy ===== *)
theory Netif
  imports NetDns Dns
begin

text \<open>
  The link side of \<open>net/netif/netif.c\<close>: framing and ARP, delivery to the protocol stack,
  the receive and transmit paths with the game-master address translation, the DHCP
  client, the worker and \<open>InterfaceInitialize\<close>. A driver call is an event; what the
  drivers do with a frame is in their own theories. Debug output is left out.

  Buffers are whole C arrays: the receive buffer has 1600 bytes of which the frame is the
  first \<open>nLen\<close>. A result \<open>None\<close> is an access outside an array (or through the link pointer
  before a link is chosen).
\<close>

unbundle bit_operations_syntax

section \<open>Framing, ARP and delivery\<close>

text \<open>\<open>s_pLink->tx\<close>: the null link's drops the frame.\<close>

definition link_tx :: "byte list \<Rightarrow> 'r netif \<Rightarrow> 'r netif option" where
  "link_tx frame st =
     (case s_pLink st of
        LkNone \<Rightarrow> None
      | LkNull \<Rightarrow> Some st
      | lk \<Rightarrow> Some (emit (EvTx lk frame) st))"

definition EthSend :: "byte list \<Rightarrow> nat \<Rightarrow> byte list \<Rightarrow> 'r netif \<Rightarrow> 'r netif option" where
  "EthSend abDst wType pbPayload st =
     (if length pbPayload > 1500 then Some st
      else link_tx (abDst @ s_abMac st @ [hi8 wType, lo8 wType] @ pbPayload) st)"

definition ArpRequest :: "u32 \<Rightarrow> 'r netif \<Rightarrow> 'r netif option" where
  "ArpRequest dwIp st =
     EthSend (replicate 6 0xff) 0x0806
       ([0, 1, 8, 0, 6, 4, 0, 1] @ s_abMac st @ le32_bytes (s_dwMyIP st) @ replicate 6 0 @ le32_bytes dwIp) st"

definition DeliverIP :: "'r nenv \<Rightarrow> byte list \<Rightarrow> 'r netif \<Rightarrow> 'r netif" where
  "DeliverIP E pbIp st =
     (case s_pIfn st of
        None \<Rightarrow> st
      | Some ifn \<Rightarrow>
          if \<not> ifn_AllocatePacket ifn \<or> \<not> ifn_IPInput ifn then st
          else (case ne_pkt E (evs st) of
            None \<Rightarrow> st
          | Some head \<Rightarrow>
              (case ne_buf E (evs st) (length pbIp) of
                 None \<Rightarrow> emit EvFreePacket st
               | Some rest \<Rightarrow> emit (EvIPInput ((pbIp # rest) @ head)) st)))"

section \<open>DHCP\<close>

definition s_dwXid :: u32 where "s_dwXid = 0xDC0DC0DC"

definition Be16 :: "nat \<Rightarrow> byte list" where
  "Be16 wVal = [hi8 wVal, lo8 wVal]"

text \<open>
  \<open>DhcpBuild\<close> on the 400-byte buffer: Ethernet at 0, IP at 14, UDP at 34, BOOTP at 42, the
  options from 282. The length \<open>nDataLen\<close> is at least 250.
\<close>

definition dhcp_options :: "nat \<Rightarrow> u32 \<Rightarrow> u32 \<Rightarrow> byte list" where
  "dhcp_options nMsgType dwReqIP dwSrv =
     [53, 1, word_of_nat nMsgType]
     @ (if nMsgType = 3 then [50, 4] @ le32_bytes dwReqIP @ [54, 4] @ le32_bytes dwSrv else [])
     @ [55, 4, 1, 3, 6, 15] @ [255]"

definition DhcpBuild :: "byte list \<Rightarrow> nat \<Rightarrow> u32 \<Rightarrow> u32 \<Rightarrow> (nat \<times> byte list) option" where
  "DhcpBuild abMac nMsgType dwReqIP dwSrv = do {
     let pbOut = replicate 400 0;
     let (ip, udp, bp) = (14, 34, 42);
     pbOut \<leftarrow> wr_block pbOut 0 (replicate 6 0xff);
     pbOut \<leftarrow> wr_block pbOut 6 abMac;
     pbOut \<leftarrow> wr_block pbOut 12 (Be16 0x0800);
     pbOut \<leftarrow> wr_block pbOut bp [1, 1, 6];
     pbOut \<leftarrow> wr_block pbOut (bp + 4) (rev (le32_bytes s_dwXid));
     pbOut \<leftarrow> wr_block pbOut (bp + 10) (Be16 0x8000);
     pbOut \<leftarrow> wr_block pbOut (bp + 28) abMac;
     pbOut \<leftarrow> wr_block pbOut (bp + 236) [0x63, 0x82, 0x53, 0x63];
     let opts = dhcp_options nMsgType dwReqIP dwSrv;
     pbOut \<leftarrow> wr_block pbOut (bp + 240) opts;
     let nDataLen = 240 + length opts;
     let nDataLen = (if nDataLen < 250 then 250 else nDataLen);
     pbOut \<leftarrow> wr_block pbOut udp (Be16 68 @ Be16 67 @ Be16 (8 + nDataLen) @ Be16 0);
     pbOut \<leftarrow> wr_block pbOut ip [0x45];
     pbOut \<leftarrow> wr_block pbOut (ip + 2) (Be16 (20 + 8 + nDataLen));
     pbOut \<leftarrow> wr_block pbOut (ip + 8) [128, 17];
     pbOut \<leftarrow> wr_block pbOut (ip + 16) (replicate 4 0xff);
     hdr \<leftarrow> rd_block pbOut ip 20;
     pbOut \<leftarrow> wr_block pbOut (ip + 10) (put16 (Ipck hdr));
     Some (14 + 20 + 8 + nDataLen, pbOut) }"

definition DhcpStep :: "'r netif \<Rightarrow> 'r netif option" where
  "DhcpStep st =
     (if s_nDhcpState st \<ge> 2 then Some st
      else do {
        (nLen, abFrame) \<leftarrow>
          (if s_nDhcpState st = 0 then DhcpBuild (s_abMac st) 1 0 0
           else DhcpBuild (s_abMac st) 3 (s_dwOffIP st) (s_dwOffSrv st));
        if s_pLink st \<noteq> LkNone then link_tx (take nLen abFrame) st else Some st })"

definition NetifOnLease :: "'r nenv \<Rightarrow> u32 \<Rightarrow> u32 \<Rightarrow> u32 \<Rightarrow> 'r netif \<Rightarrow> (bool \<times> 'r netif) option" where
  "NetifOnLease E dwIp dwMask dwGw st =
     (if s_bHaveIP st then Some (True, st)
      else
        let st = st\<lparr>s_dwMyIP := dwIp, s_dwMask := dwMask, s_dwGw := dwGw\<rparr>
        in case s_pIfn st of
             None \<Rightarrow> Some (False, st)
           | Some ifn \<Rightarrow>
               if \<not> ifn_IPInterfaceConfigure ifn then Some (False, st)
               else do {
                 let st = emit (EvIfConfig dwIp dwMask 1500 0) st;
                 let st = st\<lparr>s_pIfn := Some (ifn\<lparr>ifn_dwFlags := ifn_dwFlags ifn OR 1\<rparr>)\<rparr>;
                 st \<leftarrow> WriteDnsServers E st;
                 let st = st\<lparr>s_bHaveIP := True\<rparr>;
                 let st = emit (EvBootAddr (dotted (le32_bytes dwIp))) st;
                 st \<leftarrow> (if s_dwGw st \<noteq> 0 \<and> s_dwGw st \<noteq> s_dwMyIP st then ArpRequest (s_dwGw st) st
                        else Some st);
                 Some (True, st) })"

text \<open>The options of a reply. The accumulator starts as the code's locals do.\<close>

record dhcp_acc =
  dh_type :: nat
  dh_mask :: u32
  dh_gw :: u32
  dh_srv :: u32
  dh_dns :: "u32 list"

text \<open>\<open>for (k = 0; k + 4 <= nOptLen && nDnsN < 5; k += 4)\<close>\<close>

function dhcp_dns :: "byte list \<Rightarrow> nat \<Rightarrow> nat \<Rightarrow> nat \<Rightarrow> u32 list \<Rightarrow> u32 list option" where
  "dhcp_dns m off nOptLen k adwDns =
     (if k + 4 \<le> nOptLen \<and> length adwDns < 5
      then (case rd32le m (off + k) of
              None \<Rightarrow> None
            | Some v \<Rightarrow> dhcp_dns m off nOptLen (k + 4) (adwDns @ [v]))
      else Some adwDns)"
  by pat_completeness auto
termination by (relation "measure (\<lambda>(m, off, n, k, a). n - k)") auto

declare dhcp_dns.simps [simp del]

definition dhcp_opt :: "byte list \<Rightarrow> nat \<Rightarrow> byte \<Rightarrow> nat \<Rightarrow> dhcp_acc \<Rightarrow> dhcp_acc option" where
  "dhcp_opt m off nOpt nOptLen a =
     (if nOpt = 53 \<and> nOptLen = 1 then map_option (\<lambda>b. a\<lparr>dh_type := unat b\<rparr>) (rd8 m off)
      else if nOpt = 1 \<and> nOptLen = 4 then map_option (\<lambda>v. a\<lparr>dh_mask := v\<rparr>) (rd32le m off)
      else if nOpt = 3 \<and> nOptLen \<ge> 4 then map_option (\<lambda>v. a\<lparr>dh_gw := v\<rparr>) (rd32le m off)
      else if nOpt = 54 \<and> nOptLen = 4 then map_option (\<lambda>v. a\<lparr>dh_srv := v\<rparr>) (rd32le m off)
      else if nOpt = 6 \<and> nOptLen \<ge> 4
        then map_option (\<lambda>ds. a\<lparr>dh_dns := ds\<rparr>) (dhcp_dns m off nOptLen 0 (dh_dns a))
      else Some a)"

function dhcp_opts :: "byte list \<Rightarrow> nat \<Rightarrow> nat \<Rightarrow> dhcp_acc \<Rightarrow> dhcp_acc option" where
  "dhcp_opts m off pbEnd a =
     (if off < pbEnd
      then (case rd8 m off of
              None \<Rightarrow> None
            | Some nOpt \<Rightarrow>
                if nOpt = 255 then Some a
                else if nOpt = 0 then dhcp_opts m (off + 1) pbEnd a
                else (case rd8 m (off + 1) of
                  None \<Rightarrow> None
                | Some l \<Rightarrow>
                    (case dhcp_opt m (off + 2) nOpt (unat l) a of
                       None \<Rightarrow> None
                     | Some a \<Rightarrow> dhcp_opts m (off + 2 + unat l) pbEnd a)))
      else Some a)"
  by pat_completeness auto
termination by (relation "measure (\<lambda>(m, off, e, a). e - off)") auto

declare dhcp_opts.simps [simp del]

text \<open>The part of \<open>DhcpRx\<close> after the parse: defaults and the state machine.\<close>

definition dhcp_accept :: "'r nenv \<Rightarrow> nat \<Rightarrow> 'r netif \<Rightarrow> 'r netif option" where
  "dhcp_accept E nMsgType st =
     (let st = (if s_dwOffMask st = 0 then st\<lparr>s_dwOffMask := 0x00ffffff\<rparr> else st);
          st = (if s_dwOffGw st = 0
                then st\<lparr>s_dwOffGw := (s_dwOffIP st AND s_dwOffMask st) OR push_bit 24 1\<rparr> else st)
      in if nMsgType = 2 \<and> s_nDhcpState st = 0 then DhcpStep (st\<lparr>s_nDhcpState := 1\<rparr>)
         else if nMsgType = 5 \<or> s_nDhcpState st = 1 then do {
           (r, st) \<leftarrow> NetifOnLease E (s_dwOffIP st) (s_dwOffMask st) (s_dwOffGw st) st;
           Some (if r then st\<lparr>s_nDhcpState := 2\<rparr> else st) }
         else Some st)"

definition DhcpRx :: "'r nenv \<Rightarrow> byte list \<Rightarrow> nat \<Rightarrow> 'r netif \<Rightarrow> 'r netif option" where
  "DhcpRx E pbFrame nLen st = do {
     b0 \<leftarrow> rd8 pbFrame 14;
     let bp = 14 + ihl_of b0 + 8;
     if nLen < bp + 240 + 6 then Some st
     else do {
       op \<leftarrow> rd8 pbFrame bp;
       if op \<noteq> 2 then Some st
       else do {
         yi \<leftarrow> rd32le pbFrame (bp + 16);
         a \<leftarrow> dhcp_opts pbFrame (bp + 240) nLen
                \<lparr>dh_type = 0, dh_mask = 0, dh_gw = 0, dh_srv = 0, dh_dns = []\<rparr>;
         let st = st\<lparr>s_dwOffIP := yi, s_dwOffMask := dh_mask a, s_dwOffGw := dh_gw a,
                     s_dwOffSrv := dh_srv a\<rparr>;
         let st = (if dh_dns a \<noteq> [] then set_off_dns (dh_dns a) st else st);
         dhcp_accept E (dh_type a) st } } }"

section \<open>Receive\<close>

text \<open>\<open>IpFixChecksum\<close> and the fix of the transport checksum the protocol field selects.\<close>

definition fix_checksums :: "byte list \<Rightarrow> byte list option" where
  "fix_checksums pbIp = do {
     pbIp \<leftarrow> IpFixChecksum pbIp;
     proto \<leftarrow> rd8 pbIp 9;
     if proto = 6 then TcpFixChecksum pbIp
     else if proto = 17 then UdpFixChecksum pbIp
     else Some pbIp }"

definition rx_arp :: "byte list \<Rightarrow> 'r netif \<Rightarrow> 'r netif option" where
  "rx_arp pbFrame st = do {
     let a = 14;
     dwSip \<leftarrow> rd32le pbFrame (a + 14);
     mac \<leftarrow> rd_block pbFrame (a + 8) 6;
     let st = st\<lparr>s_arp := ArpInsert dwSip mac (s_arp st)\<rparr>;
     o6 \<leftarrow> rd8 pbFrame (a + 6);
     o7 \<leftarrow> rd8 pbFrame (a + 7);
     if o6 = 0 \<and> o7 = 1 then do {
       dwTip \<leftarrow> rd32le pbFrame (a + 24);
       if dwTip = s_dwMyIP st \<and> s_dwMyIP st \<noteq> 0 then do {
         hd7 \<leftarrow> rd_block pbFrame a 7;
         src \<leftarrow> rd_block pbFrame 6 6;
         sip \<leftarrow> rd_block pbFrame (a + 14) 4;
         EthSend src 0x0806
           (hd7 @ [2] @ s_abMac st @ le32_bytes (s_dwMyIP st) @ mac @ sip) st }
       else Some st }
     else Some st }"

text \<open>
  The reverse translation: the datagram at \<open>ip\<close>, or its copy in the 1600-byte \<open>abNatBuf\<close>
  with the original source address put back.
\<close>

definition rx_unnat :: "'r nenv \<Rightarrow> byte list \<Rightarrow> nat \<Rightarrow> 'r netif \<Rightarrow> byte list option" where
  "rx_unnat E ip nIpLen st =
     (if s_dwNatTarget st \<noteq> 0 \<and> nIpLen \<ge> 20 \<and> nIpLen \<le> 1600 then do {
        dwSip \<leftarrow> rd32le ip 12;
        if dwSip = s_dwNatTarget st then do {
          d \<leftarrow> rd_block ip 0 nIpLen;
          abNatBuf \<leftarrow> wr_block (ne_junk E 1600) 0 d;
          abNatBuf \<leftarrow> wr_block abNatBuf 12 (le32_bytes (s_dwNatOrig st));
          fix_checksums abNatBuf }
        else Some ip }
      else Some ip)"

definition rx_ip :: "'r nenv \<Rightarrow> byte list \<Rightarrow> nat \<Rightarrow> 'r netif \<Rightarrow> 'r netif option" where
  "rx_ip E pbFrame nLen st = do {
     b0 \<leftarrow> rd8 pbFrame 14;
     let ihl = ihl_of b0;
     ip \<leftarrow> rx_unnat E (drop 14 pbFrame) (nLen - 14) st;
     let udp = ihl;
     proto \<leftarrow> rd8 ip 9;
     let udphdr = (proto = 17 \<and> nLen \<ge> 14 + ihl + 8);
     dport \<leftarrow> (if udphdr then rd16be ip (udp + 2) else Some 0);
     if dport = 68 then DhcpRx E pbFrame nLen st
     else do {
       sport \<leftarrow> (if udphdr then rd16be ip udp else Some 0);
       flat \<leftarrow> (if sport = 53 then DnsFlatten ip (nLen - 14) (ne_junk E 600) else Some (0, []));
       if fst flat > 0 then do { d \<leftarrow> rd_block (snd flat) 0 (fst flat); Some (DeliverIP E d st) }
       else do { d \<leftarrow> rd_block ip 0 (nLen - 14); Some (DeliverIP E d st) } } }"

definition RxFrame :: "'r nenv \<Rightarrow> byte list \<Rightarrow> nat \<Rightarrow> 'r netif \<Rightarrow> 'r netif option" where
  "RxFrame E pbFrame nLen st =
     (if nLen < 14 then Some st
      else do {
        wType \<leftarrow> rd16be pbFrame 12;
        if wType = 0x0806 \<and> nLen \<ge> 42 then rx_arp pbFrame st
        else if wType = 0x0800 then rx_ip E pbFrame nLen st
        else Some st })"

section \<open>Transmit\<close>

definition AFO_ORIG_IP :: u32 where "AFO_ORIG_IP = 0x83f2fb3f"
definition IGP_ORIG_IP :: u32 where "IGP_ORIG_IP = 0xef2bd2cc"

definition RedirectDest :: "u32 \<Rightarrow> 'r netif \<Rightarrow> u32 \<times> 'r netif" where
  "RedirectDest dwDst st =
     (if s_dwRevivalMaster st \<noteq> 0 \<and> (dwDst = AFO_ORIG_IP \<or> dwDst = IGP_ORIG_IP)
      then (s_dwRevivalMaster st, st\<lparr>s_dwNatOrig := dwDst, s_dwNatTarget := s_dwRevivalMaster st\<rparr>)
      else (dwDst, st))"

text \<open>The gather loop: buffers while they fit in the 1600 bytes.\<close>

fun gather :: "byte list list \<Rightarrow> byte list \<Rightarrow> nat \<Rightarrow> (byte list \<times> nat) option" where
  "gather [] buf nOff = Some (buf, nOff)"
| "gather (b # bs) buf nOff =
     (if nOff + length b \<le> 1600
      then do { buf \<leftarrow> wr_block buf nOff b; gather bs buf (nOff + length b) }
      else Some (buf, nOff))"

text \<open>A pure SYN that carries PSH is sent as a clean SYN.\<close>

definition tx_normalize_syn :: "byte list \<Rightarrow> byte list option" where
  "tx_normalize_syn buf = do {
     proto \<leftarrow> rd8 buf 9;
     if proto = 6 then do {
       b0 \<leftarrow> rd8 buf 0;
       let tcp = ihl_of b0;
       bFlags \<leftarrow> rd8 buf (tcp + 13);
       if bFlags AND 0x02 \<noteq> 0 \<and> bFlags AND 0x10 = 0 \<and> bFlags AND 0x08 \<noteq> 0 then do {
         buf \<leftarrow> wr8 buf (tcp + 13) (bFlags AND NOT 0x08);
         TcpFixChecksum buf }
       else Some buf }
     else Some buf }"

definition next_hop :: "u32 \<Rightarrow> 'r netif \<Rightarrow> u32" where
  "next_hop dwDst st =
     (if s_dwMask st \<noteq> 0 \<and> dwDst AND s_dwMask st \<noteq> s_dwMyIP st AND s_dwMask st
      then s_dwGw st else dwDst)"

definition OurTransmit :: "'r nenv \<Rightarrow> byte list list \<Rightarrow> 'r netif \<Rightarrow> 'r netif option" where
  "OurTransmit E pkt st = do {
     (abIpBuf, nOff) \<leftarrow> gather pkt (ne_junk E 1600) 0;
     let st = st\<lparr>s_dwTxBytes := s_dwTxBytes st + word_of_nat nOff\<rparr>;
     dwDst \<leftarrow> rd32le abIpBuf 16;
     let (dwNewDst, st) = RedirectDest dwDst st;
     abIpBuf \<leftarrow> (if dwNewDst \<noteq> dwDst
       then do { abIpBuf \<leftarrow> wr_block abIpBuf 16 (le32_bytes dwNewDst); fix_checksums abIpBuf }
       else Some abIpBuf);
     let dwDst = next_hop dwNewDst st;
     let bHit = ArpLookup (s_arp st) dwDst;
     abIpBuf \<leftarrow> tx_normalize_syn abIpBuf;
     st \<leftarrow> (case bHit of
       Some abMac \<Rightarrow> EthSend abMac 0x0800 (take nOff abIpBuf) st
     | None \<Rightarrow> ArpRequest dwDst st);
     Some (emit EvFreePacket st) }"

definition OurIoctl :: "'r netif \<Rightarrow> nat \<times> 'r netif" where
  "OurIoctl st = (0, st)"

section \<open>The worker\<close>

record 'r worker =
  w_abBuf :: "byte list"
  w_dwLastDhcp :: u32
  w_st :: "'r netif"

text \<open>
  One round: \<open>n\<close> and \<open>buf\<close> are what the link's \<open>poll\<close> returned (0 for no frame), the ticks
  are the successive readings of \<open>GetTickCount\<close>.
\<close>

definition worker_round :: "'r nenv \<Rightarrow> nat \<Rightarrow> byte list \<Rightarrow> u32 \<times> u32 \<times> u32 \<times> u32 \<Rightarrow> 'r worker \<Rightarrow> 'r worker option" where
  "worker_round E n buf ticks w = do {
     let (t1, t2, t3, t4) = ticks;
     let st = w_st w;
     st \<leftarrow> (if n > 0 then RxFrame E buf n (st\<lparr>s_dwRxBytes := s_dwRxBytes st + word_of_nat n\<rparr>)
            else Some st);
     (st, last) \<leftarrow> (if \<not> s_bHaveIP st \<and> t1 - w_dwLastDhcp w > 1500
        then do { st \<leftarrow> DhcpStep st; Some (st, t2) }
        else Some (st, w_dwLastDhcp w));
     let st = (if t3 - s_dwStatTick st > 2000
        then let st = st\<lparr>s_dwStatTick := t4\<rparr>
             in if s_dwRxBytes st \<noteq> s_dwRxPrev st \<or> s_dwTxBytes st \<noteq> s_dwTxPrev st
                then st\<lparr>s_dwRxPrev := s_dwRxBytes st, s_dwTxPrev := s_dwTxBytes st\<rparr> else st
        else st);
     Some \<lparr>w_abBuf = buf, w_dwLastDhcp = last, w_st = st\<rparr> }"

section \<open>InterfaceInitialize\<close>

text \<open>
  What the hardware and the loader answer: the probes, the bring-up of each adapter (the
  MAC it left, whether it succeeded) and whether the dial driver loads.
\<close>

record hwenv =
  hw_w5500_probe :: bool
  hw_bba_probe :: bool
  hw_dial_load :: bool
  hw_w5500_init :: "byte list \<times> bool"
  hw_bba_init :: "byte list \<times> bool"

definition NullInit :: "byte list" where
  "NullInit = [0x02, 0xDC, 0, 0, 0, 0xFF]"

definition detect_link :: "hwenv \<Rightarrow> 'r netif \<Rightarrow> 'r netif" where
  "detect_link H st =
     (let st = st\<lparr>s_pLink := LkNone\<rparr>
      in if hw_w5500_probe H then st\<lparr>s_pLink := LkW5500\<rparr>
         else if hw_bba_probe H then st\<lparr>s_pLink := LkBba\<rparr>
         else if hw_dial_load H then st\<lparr>g_nUseDial := True\<rparr>
         else st\<lparr>s_pLink := LkNull\<rparr>)"

definition bring_up :: "hwenv \<Rightarrow> 'r netif \<Rightarrow> 'r netif option" where
  "bring_up H st =
     (case s_pLink st of
        LkNone \<Rightarrow> None
      | LkNull \<Rightarrow> Some (st\<lparr>s_abMac := NullInit\<rparr>)
      | lk \<Rightarrow>
          (let (mac, ok) = (if lk = LkW5500 then hw_w5500_init H else hw_bba_init H)
           in Some (if ok then st\<lparr>s_abMac := mac\<rparr>
                    else st\<lparr>s_pLink := LkNull, s_abMac := NullInit\<rparr>)))"

datatype ifinit = IfDelegated | IfFail | IfOk ifnet

definition InterfaceInitialize ::
  "'r nenv \<Rightarrow> hwenv \<Rightarrow> wtext option \<Rightarrow> bool \<Rightarrow> 'r netif \<Rightarrow> (ifinit \<times> 'r netif) option" where
  "InterfaceInitialize E H name alloc st =
     (if g_nUseDial st then Some (IfDelegated, st)
      else do {
        st \<leftarrow> (if \<not> s_bHwUp st
               then let st = (detect_link H st)\<lparr>s_bHwUp := True\<rparr>
                    in if g_nUseDial st then Some st else bring_up H st
               else Some st);
        if g_nUseDial st then Some (IfDelegated, st)
        else if \<not> alloc then Some (IfFail, st)
        else
          let ifn = \<lparr>ifn_szName = (case name of Some nm \<Rightarrow> take 15 nm | None \<Rightarrow> []), ifn_dwMTU = 1500,
                ifn_AllocatePacket = False, ifn_IPInput = False, ifn_IPInterfaceConfigure = False,
                ifn_dwFlags = 2\<rparr>
          in if s_pIfn st = None then do {
               st \<leftarrow> ReadRevivalConfig E (st\<lparr>s_pIfn := Some ifn\<rparr>);
               Some (IfOk ifn, if s_pLink st \<noteq> LkNull then emit EvStartWorker st else st) }
             else Some (IfOk ifn, st) })"

section \<open>The DHCP client's frames\<close>

lemma length_Be16 [simp]: "length (Be16 n) = 2"
  by (simp add: Be16_def)

lemma length_dhcp_options: "length (dhcp_options t r v) = (if t = 3 then 22 else 10)"
  by (simp add: dhcp_options_def)

lemma DhcpBuild_ok:
  assumes "length mac = 6"
  shows "ok (DhcpBuild mac t r v) (\<lambda>(n, out). n = (if t = 3 then 304 else 292) \<and> length out = 400)"
  unfolding DhcpBuild_def Let_def ok_bind ok_Some split_conv
  by (intro ok_len) (use assms in \<open>simp_all add: length_dhcp_options\<close>)

lemma DhcpBuild_content:
  assumes "DhcpBuild mac t r v = Some (n, out)" and "length mac = 6"
  shows "rd_block out 0 14 = Some (replicate 6 0xff @ mac @ [8, 0])"
    and "rd16be out 16 = Some (n - 14)" and "rd16be out 38 = Some (n - 34)"
    and "rd_block out 34 4 = Some [0, 68, 0, 67]"
    and "rd_block out 70 6 = Some mac" and "rd_block out 278 4 = Some [0x63, 0x82, 0x53, 0x63]"
    and "rd_block out 282 (n - 282) = Some (dhcp_options t r v)"
    and "Csum16 out 14 20 0 = Some 0"
proof -
  define L where "L = (if t = 3 then 262 else 250 :: nat)"
  have L: "(if 240 + length (dhcp_options t r v) < 250 then 250 else 240 + length (dhcp_options t r v)) = L"
    by (simp add: L_def length_dhcp_options)
  from assms(1) obtain o1 o2 o3 o4 o5 o6 o7 o8 o9 o10 o11 o12 o13 o14 hdr where
    o1: "wr_block (replicate 400 0) 0 (replicate 6 0xff) = Some o1"
    and o2: "wr_block o1 6 mac = Some o2" and o3: "wr_block o2 12 (Be16 0x0800) = Some o3"
    and o4: "wr_block o3 42 [1, 1, 6] = Some o4"
    and o5: "wr_block o4 (42 + 4) (rev (le32_bytes s_dwXid)) = Some o5"
    and o6: "wr_block o5 (42 + 10) (Be16 0x8000) = Some o6" and o7: "wr_block o6 (42 + 28) mac = Some o7"
    and o8: "wr_block o7 (42 + 236) [0x63, 0x82, 0x53, 0x63] = Some o8"
    and o9: "wr_block o8 (42 + 240) (dhcp_options t r v) = Some o9"
    and o10: "wr_block o9 34 (Be16 68 @ Be16 67 @ Be16 (8 + L) @ Be16 0) = Some o10"
    and o11: "wr_block o10 14 [0x45] = Some o11" and o12: "wr_block o11 (14 + 2) (Be16 (20 + 8 + L)) = Some o12"
    and o13: "wr_block o12 (14 + 8) [128, 17] = Some o13"
    and o14: "wr_block o13 (14 + 16) (replicate 4 0xff) = Some o14"
    and hdr: "rd_block o14 14 20 = Some hdr"
    and o15: "wr_block o14 (14 + 10) (put16 (Ipck hdr)) = Some out"
    and n: "n = 14 + 20 + 8 + L"
    unfolding DhcpBuild_def Let_def split_conv
    by (simp only: bind_eq_Some_conv L option.inject prod.inject)
       (elim exE conjE, rule that, (assumption | erule sym | simp)+)
  have L': "n - 282 = length (dhcp_options t r v)" "L \<le> 262"
    by (simp_all add: n L_def length_dhcp_options)
  note fr = rd_block_wr_other [OF o15] rd_block_wr_other [OF o14] rd_block_wr_other [OF o13]
    rd_block_wr_other [OF o12] rd_block_wr_other [OF o11] rd_block_wr_other [OF o10]
    rd_block_wr_other [OF o9] rd_block_wr_other [OF o8] rd_block_wr_other [OF o7]
    rd_block_wr_other [OF o6] rd_block_wr_other [OF o5] rd_block_wr_other [OF o4]
    rd_block_wr_other [OF o3] rd_block_wr_other [OF o2] rd_block_wr_other [OF o1]
  show "rd_block out 282 (n - 282) = Some (dhcp_options t r v)"
    using rd_block_wr_block [OF o9 refl] L' by (simp add: fr)
  show "rd_block out 278 4 = Some [0x63, 0x82, 0x53, 0x63]"
    using rd_block_wr_block [OF o8, of 4] assms(2) by (simp add: fr length_dhcp_options)
  show "rd_block out 70 6 = Some mac"
    using rd_block_wr_block [OF o7, of 6] assms(2) by (simp add: fr length_dhcp_options)
  show "rd16be out 16 = Some (n - 14)"
  proof -
    have "rd_block out 16 2 = Some (Be16 (20 + 8 + L))"
      using rd_block_wr_block [OF o12, of 2] by (simp add: fr)
    from rd16be_rd_block [OF this [unfolded Be16_def]] L'(2) show ?thesis by (simp add: n)
  qed
  show "Csum16 out 14 20 0 = Some 0"
  proof -
    have "rd_block o14 24 2 = rd_block (replicate 400 0) 24 2"
      using assms(2) by (simp add: fr length_dhcp_options)
    then have "rd_block o14 24 2 = Some [0, 0]" by (simp add: numeral_2_eq_2)
    then have z: "wr_block o14 (14 + 10) [0, 0] = Some o14" by (simp add: wr_block_same)
    have "Csum16 o14 14 20 0 = Some (Ipck hdr)" using hdr by (simp add: Csum16_def Ipck_csum16)
    from csum_store_verifies [OF z this o15] show ?thesis by simp
  qed
  have "rd_block out 0 6 = Some (replicate 6 0xff)"
    using rd_block_wr_block [OF o1, of 6] assms(2) by (simp add: fr length_dhcp_options)
  moreover have "rd_block out (0 + 6) 6 = Some mac"
    using rd_block_wr_block [OF o2, of 6] assms(2) by (simp add: fr length_dhcp_options)
  ultimately have 12: "rd_block out 0 (6 + 6) = Some (replicate 6 0xff @ mac)" by (rule rd_block_join)
  have "rd_block out (0 + (6 + 6)) 2 = Some (Be16 0x0800)"
    using rd_block_wr_block [OF o3, of 2] assms(2) by (simp add: fr length_dhcp_options)
  from rd_block_join [OF 12 this] show "rd_block out 0 14 = Some (replicate 6 0xff @ mac @ [8, 0])"
    by (simp add: Be16_def hi8_def lo8_def)
  show "rd_block out 34 4 = Some [0, 68, 0, 67]"
    using rd_block_wr_sub [OF o10, of 34 4] by (simp add: fr Be16_def hi8_def lo8_def)
  have "rd_block out 38 2 = Some (Be16 (8 + L))"
    using rd_block_wr_sub [OF o10, of 38 2] by (simp add: fr)
  from rd16be_rd_block [OF this [unfolded Be16_def]] L'(2) show "rd16be out 38 = Some (n - 34)"
    by (simp add: n)
qed

text \<open>
  The frames of the DHCP client are well formed: the frame fits its buffer (292 bytes for
  a DISCOVER, 304 for a REQUEST), is broadcast from the adapter's address, its IP and UDP
  lengths agree with its size, the header checksum verifies, the ports are 68 and 67, and
  the magic cookie is followed by exactly the options of the message.
\<close>

theorem DhcpBuild_wellformed:
  assumes "length mac = 6"
  shows "\<exists>n out. DhcpBuild mac t r v = Some (n, out) \<and> n = (if t = 3 then 304 else 292)
     \<and> length out = 400 \<and> rd_block out 0 14 = Some (replicate 6 0xff @ mac @ [8, 0])
     \<and> rd16be out 16 = Some (n - 14) \<and> rd16be out 38 = Some (n - 34)
     \<and> rd_block out 34 4 = Some [0, 68, 0, 67] \<and> rd_block out 70 6 = Some mac
     \<and> rd_block out 278 4 = Some [0x63, 0x82, 0x53, 0x63]
     \<and> rd_block out 282 (n - 282) = Some (dhcp_options t r v)
     \<and> Csum16 out 14 20 0 = Some 0"
proof -
  from DhcpBuild_ok [OF assms, of t r v] obtain n out where b: "DhcpBuild mac t r v = Some (n, out)"
    and n: "n = (if t = 3 then 304 else 292)" "length out = 400" by (auto elim!: okE)
  from DhcpBuild_content [OF b assms] b n show ?thesis by blast
qed

lemma DhcpBuild_wellformed_witness:
  "\<exists>out. DhcpBuild NullInit 3 (DnsIp 10 0 0 9) (DnsIp 10 0 0 1) = Some (304, out)
     \<and> rd_block out 282 22 = Some (dhcp_options 3 (DnsIp 10 0 0 9) (DnsIp 10 0 0 1))"
  using DhcpBuild_wellformed [of NullInit 3] by (auto simp: NullInit_def)

section \<open>Options: what is parsed is what was sent\<close>

text \<open>The encoding of a list of options, as a server writes them.\<close>

definition enc_opts :: "(byte \<times> byte list) list \<Rightarrow> byte list" where
  "enc_opts os = concat (map (\<lambda>(t, v). [t, word_of_nat (length v)] @ v) os) @ [255]"

definition opt_ok :: "byte \<times> byte list \<Rightarrow> bool" where
  "opt_ok o' \<longleftrightarrow> fst o' \<noteq> 0 \<and> fst o' \<noteq> 255 \<and> length (snd o') < 256"

text \<open>What one option means.\<close>

fun quads :: "byte list \<Rightarrow> u32 list" where
  "quads (a # b # c # d # r) = le32 [a, b, c, d] # quads r"
| "quads _ = []"

definition opt_sem :: "byte \<times> byte list \<Rightarrow> dhcp_acc \<Rightarrow> dhcp_acc" where
  "opt_sem o' a = (case o' of (t, v) \<Rightarrow>
     if t = 53 \<and> length v = 1 then a\<lparr>dh_type := unat (v ! 0)\<rparr>
     else if t = 1 \<and> length v = 4 then a\<lparr>dh_mask := le32 v\<rparr>
     else if t = 3 \<and> length v \<ge> 4 then a\<lparr>dh_gw := le32 (take 4 v)\<rparr>
     else if t = 54 \<and> length v = 4 then a\<lparr>dh_srv := le32 v\<rparr>
     else if t = 6 \<and> length v \<ge> 4 then a\<lparr>dh_dns := take 5 (dh_dns a @ quads v)\<rparr>
     else a)"

lemma four_bytes: "4 \<le> length xs \<Longrightarrow> \<exists>a b c d r. xs = a # b # c # d # (r :: byte list)"
  by (cases xs rule: quads.cases) auto

lemma quads_drop: "k + 4 \<le> length v \<Longrightarrow> quads (drop k v) = le32 (take 4 (drop k v)) # quads (drop (k + 4) v)"
proof -
  assume "k + 4 \<le> length v"
  then have "4 \<le> length (drop k v)" by simp
  then obtain a b c d r where "drop k v = a # b # c # d # r" using four_bytes by blast
  moreover have "drop (k + 4) v = drop 4 (drop k v)" by (simp add: add.commute)
  ultimately show ?thesis by simp
qed

lemma quads_short: "length v < 4 \<Longrightarrow> quads v = []"
  by (cases v rule: quads.cases) auto

lemma dhcp_dns_run:
  "off + length v \<le> length m \<Longrightarrow> take (length v) (drop off m) = v \<Longrightarrow> length acc \<le> 5 \<Longrightarrow> k \<le> length v \<Longrightarrow>
     dhcp_dns m off (length v) k acc = Some (take 5 (acc @ quads (drop k v)))"
proof (induction m off "length v" k acc rule: dhcp_dns.induct)
  case (1 m off k acc)
  show ?case
  proof (cases "k + 4 \<le> length v \<and> length acc < 5")
    case True
    have "min 4 (length v - k) = 4" using True by linarith
    then have "take 4 (drop (off + k) m) = take 4 (drop k (take (length v) (drop off m)))"
      by (simp add: drop_take add.commute)
    then have rd: "rd32le m (off + k) = Some (le32 (take 4 (drop k v)))"
      using True "1.prems"(1,2) by simp
    then show ?thesis
      using "1.hyps" [OF True rd] "1.prems" True quads_drop [of k v]
      by (subst dhcp_dns.simps) simp
  next
    case False
    then have "take 5 (acc @ quads (drop k v)) = acc"
      using quads_short [of "drop k v"] "1.prems"(3) by (cases "length acc < 5") auto
    with False show ?thesis by (subst dhcp_dns.simps) auto
  qed
qed

lemma dhcp_opt_sem:
  assumes "off + length v \<le> length m" and "take (length v) (drop off m) = v" and "length (dh_dns a) \<le> 5"
    and "fst o' = t" "snd o' = v"
  shows "dhcp_opt m off t (length v) a = Some (opt_sem o' a)"
proof -
  have rd: "rd32le m off = Some (le32 (take 4 v))" if "4 \<le> length v"
  proof -
    have "take 4 (drop off m) = take 4 (take (length v) (drop off m))" using that by (simp add: min_def)
    then show ?thesis using assms(1,2) that by simp
  qed
  have rd1: "rd8 m off = Some (v ! 0)" if "length v = 1"
    using arg_cong [OF assms(2), of "\<lambda>z. z ! 0"] assms(1) that by simp
  have dns: "dhcp_dns m off (length v) 0 (dh_dns a) = Some (take 5 (dh_dns a @ quads v))"
    using dhcp_dns_run [OF assms(1-3), of 0] by simp
  show ?thesis
    using rd rd1 dns assms(4,5) by (cases o') (auto simp: dhcp_opt_def opt_sem_def)
qed

lemma dhcp_opts_enc:
  "take (length (enc_opts os)) (drop off m) = enc_opts os \<Longrightarrow> off + length (enc_opts os) \<le> length m \<Longrightarrow>
     off + length (enc_opts os) \<le> pbEnd \<Longrightarrow> \<forall>x \<in> set os. opt_ok x \<Longrightarrow> length (dh_dns a) \<le> 5 \<Longrightarrow>
     dhcp_opts m off pbEnd a = Some (fold opt_sem os a)"
proof (induction os arbitrary: off a)
  case Nil
  then have l: "off < length m" "off < pbEnd" by (simp_all add: enc_opts_def)
  have "m ! off = take 1 (drop off m) ! 0" using l by simp
  also have "\<dots> = 255" using Nil.prems(1) by (simp add: enc_opts_def)
  finally show ?case using l by (subst dhcp_opts.simps) simp
next
  case (Cons x os)
  obtain t v where x: "x = (t, v)" by fastforce
  let ?n = "length v"
  have ok: "t \<noteq> 0" "t \<noteq> 255" "?n < 256" using Cons.prems(4) x by (auto simp: opt_ok_def)
  have enc: "enc_opts (x # os) = [t, word_of_nat ?n] @ v @ enc_opts os" by (simp add: enc_opts_def x)
  have d: "drop off m = [t, word_of_nat ?n] @ v @ enc_opts os @ drop (off + length (enc_opts (x # os))) m"
    using append_take_drop_id [of "length (enc_opts (x # os))" "drop off m"] Cons.prems(1)
    by (simp add: enc add.commute)
  have len: "off + 2 + ?n + length (enc_opts os) \<le> length m" "off + 2 + ?n + length (enc_opts os) \<le> pbEnd"
    using Cons.prems(2,3) by (simp_all add: enc)
  have b: "rd8 m off = Some t" "rd8 m (off + 1) = Some (word_of_nat ?n)"
    using arg_cong [OF d, of "\<lambda>z. z ! 0"] arg_cong [OF d, of "\<lambda>z. z ! 1"] len by simp_all
  have d2: "drop (off + 2) m = v @ enc_opts os @ drop (off + length (enc_opts (x # os))) m"
    using arg_cong [OF d, of "drop 2"] by (simp add: add.commute)
  have d3: "drop (off + 2 + ?n) m = enc_opts os @ drop (off + length (enc_opts (x # os))) m"
    using arg_cong [OF d2, of "drop ?n"] by (simp add: add.commute)
  have o1: "dhcp_opt m (off + 2) t ?n a = Some (opt_sem x a)"
    by (rule dhcp_opt_sem) (use len d2 Cons.prems(5) x in simp_all)
  have n: "unat (word_of_nat ?n :: byte) = ?n" using ok(3) by (simp add: unat_of_nat)
  have "length (dh_dns (opt_sem x a)) \<le> 5" using Cons.prems(5) by (auto simp: opt_sem_def x)
  then have "dhcp_opts m (off + 2 + ?n) pbEnd (opt_sem x a) = Some (fold opt_sem os (opt_sem x a))"
    by (intro Cons.IH) (use d3 len Cons.prems(4) in simp_all)
  moreover have "off < pbEnd" using len(2) by simp
  ultimately show ?case
    using b o1 ok n by (subst dhcp_opts.simps) simp
qed

text \<open>
  The option parser inverts the encoding: on any list of options whose values are shorter
  than 256 bytes, followed by the end mark, it computes the meaning of the list, the last
  occurrence winning and at most five servers being kept, whatever follows in the frame.
\<close>

theorem dhcp_opts_parse:
  assumes "\<forall>x \<in> set os. opt_ok x"
  shows "dhcp_opts (pre @ enc_opts os @ post) (length pre) (length pre + length (enc_opts os) + k)
           \<lparr>dh_type = 0, dh_mask = 0, dh_gw = 0, dh_srv = 0, dh_dns = []\<rparr>
       = Some (fold opt_sem os \<lparr>dh_type = 0, dh_mask = 0, dh_gw = 0, dh_srv = 0, dh_dns = []\<rparr>)"
  by (rule dhcp_opts_enc) (use assms in simp_all)

lemma dhcp_opts_parse_witness:
  "dhcp_opts (replicate 282 0 @ enc_opts [(53, [2]), (54, [10, 0, 0, 1]), (6, [8, 8, 8, 8, 9, 9, 9, 9])] @ []) 282 (282 + 20 + 4)
     \<lparr>dh_type = 0, dh_mask = 0, dh_gw = 0, dh_srv = 0, dh_dns = []\<rparr>
   = Some \<lparr>dh_type = 2, dh_mask = 0, dh_gw = 0, dh_srv = DnsIp 10 0 0 1,
           dh_dns = [DnsIp 8 8 8 8, DnsIp 9 9 9 9]\<rparr>"
  using dhcp_opts_parse [of "[(53, [2]), (54, [10, 0, 0, 1]), (6, [8, 8, 8, 8, 9, 9, 9, 9])]" "replicate 282 0" "[]" 4]
  by (simp add: opt_ok_def enc_opts_def opt_sem_def DnsIp_eq)

section \<open>The invariant of the adapter\<close>

definition cfgs :: "event list \<Rightarrow> nat" where
  "cfgs es = length (filter (\<lambda>e. case e of EvIfConfig _ _ _ _ \<Rightarrow> True | _ \<Rightarrow> False) es)"

definition arp_wf :: "arp_ent list \<Rightarrow> bool" where
  "arp_wf t \<longleftrightarrow> arp_inv t \<and> (\<forall>e \<in> set t. length (a_mac e) = 6)"

text \<open>
  The interface is configured once, when the address is bound; the link is chosen; the
  tables have the shape their declarations give them.
\<close>

definition netif_inv :: "'r nenv \<Rightarrow> 'r netif \<Rightarrow> bool" where
  "netif_inv E st \<longleftrightarrow> nd_inv st \<and> length (s_abMac st) = 6 \<and> arp_wf (s_arp st)
     \<and> s_nDhcpState st \<le> 2 \<and> s_pLink st \<noteq> LkNone \<and> reg_ready (ne_reg E) (regs st)
     \<and> cfgs (evs st) = (if s_bHaveIP st then 1 else 0)"

text \<open>Steps that only emit frames and deliveries.\<close>

definition quiet :: "'r netif \<Rightarrow> 'r netif \<Rightarrow> bool" where
  "quiet st st' \<longleftrightarrow> (\<exists>es. st' = st\<lparr>evs := evs st @ es\<rparr> \<and> cfgs es = 0)"

lemma cfgs_simps [simp]: "cfgs [] = 0" "cfgs (xs @ ys) = cfgs xs + cfgs ys"
  "cfgs (e # es) = (case e of EvIfConfig _ _ _ _ \<Rightarrow> 1 | _ \<Rightarrow> 0) + cfgs es"
  by (auto simp: cfgs_def split: event.splits)

lemma quiet_refl: "quiet st st"
  by (auto simp: quiet_def intro: exI [of _ "[]"])

lemma quiet_emit: "cfgs [e] = 0 \<Longrightarrow> quiet st (emit e st)"
  by (auto simp: quiet_def emit_def)

lemma quiet_trans: "quiet a b \<Longrightarrow> quiet b c \<Longrightarrow> quiet a c"
  by (auto simp: quiet_def)

lemma quietD:
  assumes "quiet st st'"
  shows "netif_inv E st' = netif_inv E st" "s_bHaveIP st' = s_bHaveIP st" "s_dwMyIP st' = s_dwMyIP st"
    "s_dwMask st' = s_dwMask st" "s_dwGw st' = s_dwGw st" "s_nDhcpState st' = s_nDhcpState st"
    "s_pLink st' = s_pLink st" "regs st' = regs st" "nd_inv st' = nd_inv st" "cfgs (evs st') = cfgs (evs st)"
    "s_abMac st' = s_abMac st" "s_arp st' = s_arp st" "s_pIfn st' = s_pIfn st"
  using assms by (auto simp: quiet_def netif_inv_def nd_inv_def)

lemma link_tx_ok: "s_pLink st \<noteq> LkNone \<Longrightarrow> ok (link_tx f st) (quiet st)"
  by (auto simp: link_tx_def quiet_refl quiet_emit split: link.splits)

lemma EthSend_ok: "s_pLink st \<noteq> LkNone \<Longrightarrow> ok (EthSend d w p st) (quiet st)"
  by (auto simp: EthSend_def quiet_refl link_tx_ok)

lemma ArpRequest_ok: "s_pLink st \<noteq> LkNone \<Longrightarrow> ok (ArpRequest ip st) (quiet st)"
  by (simp add: ArpRequest_def EthSend_ok)

lemma DeliverIP_quiet: "quiet st (DeliverIP E p st)"
  by (auto simp: DeliverIP_def quiet_refl quiet_emit split: option.splits)

lemma DhcpStep_ok: "length (s_abMac st) = 6 \<Longrightarrow> ok (DhcpStep st) (quiet st)"
proof -
  assume m: "length (s_abMac st) = 6"
  have b: "\<exists>n out. DhcpBuild (s_abMac st) t r v = Some (n, out)" for t r v
    using DhcpBuild_ok [OF m, of t r v] by (auto simp: ok_def)
  obtain n out n' out' where "DhcpBuild (s_abMac st) 1 0 0 = Some (n, out)"
    "DhcpBuild (s_abMac st) 3 (s_dwOffIP st) (s_dwOffSrv st) = Some (n', out')" using b by metis
  then show ?thesis
    by (auto simp: DhcpStep_def quiet_refl link_tx_ok)
qed

section \<open>Binding the address\<close>

lemma arp_wf_insert: "arp_wf t \<Longrightarrow> length m = 6 \<Longrightarrow> arp_wf (ArpInsert ip m t)"
  unfolding arp_wf_def
  by (intro conjI arp_inv_ArpInsert)
     (auto simp: ArpInsert_def dest!: set_update_subset_insert [THEN subsetD])

lemma NetifOnLease_ok:
  assumes "env_ok E" and "netif_inv E st"
  shows "ok (NetifOnLease E ip msk gw st) (\<lambda>(r, st'). netif_inv E st' \<and> (r \<longleftrightarrow> s_bHaveIP st')
     \<and> s_nDhcpState st' = s_nDhcpState st \<and> (s_bHaveIP st \<longrightarrow> st' = st)
     \<and> (r \<longrightarrow> \<not> s_bHaveIP st \<longrightarrow> s_dwMyIP st' = ip \<and> s_dwMask st' = msk \<and> s_dwGw st' = gw))"
proof (cases "s_bHaveIP st")
  case True
  with assms show ?thesis by (simp add: NetifOnLease_def)
next
  case False
  define s0 where "s0 = st\<lparr>s_dwMyIP := ip, s_dwMask := msk, s_dwGw := gw\<rparr>"
  have i0: "netif_inv E s0" using assms(2) by (simp add: s0_def netif_inv_def nd_inv_def)
  show ?thesis
  proof (cases "\<exists>ifn. s_pIfn s0 = Some ifn \<and> ifn_IPInterfaceConfigure ifn")
    case False
    with i0 \<open>\<not> s_bHaveIP st\<close> show ?thesis
      by (cases "s_pIfn st") (auto simp: NetifOnLease_def Let_def s0_def)
  next
    case True
    then obtain ifn where ifn: "s_pIfn s0 = Some ifn" "ifn_IPInterfaceConfigure ifn" by blast
    define s1 where "s1 = (emit (EvIfConfig ip msk 1500 0) s0)\<lparr>s_pIfn := Some (ifn\<lparr>ifn_dwFlags := ifn_dwFlags ifn OR 1\<rparr>)\<rparr>"
    have s1: "nd_inv s1" "reg_ready (ne_reg E) (regs s1)" "cfgs (evs s1) = 1"
      using i0 False by (simp_all add: s1_def emit_def netif_inv_def nd_inv_def s0_def)
    from WriteDnsServers_ok [OF assms(1) s1(1,2)] obtain s2 where s2: "WriteDnsServers E s1 = Some s2"
      "dns_upd s1 s2" "nd_inv s2" "reg_ready (ne_reg E) (regs s2)" by (auto elim: okE)
    define s3 where "s3 = emit (EvBootAddr (dotted (le32_bytes ip))) (s2\<lparr>s_bHaveIP := True\<rparr>)"
    note d = dns_updD [OF s2(2)]
    have s3: "netif_inv E s3" "s_nDhcpState s3 = s_nDhcpState st" "s_dwMyIP s3 = ip" "s_dwMask s3 = msk"
      "s_dwGw s3 = gw" "s_bHaveIP s3"
      using i0 s1(3) s2(3,4) d by (simp_all add: s3_def s1_def s0_def emit_def netif_inv_def nd_inv_def)
    have "s_pLink s3 \<noteq> LkNone" using s3(1) by (simp add: netif_inv_def)
    from ArpRequest_ok [OF this] obtain s4 where s4: "ArpRequest (s_dwGw s3) s3 = Some s4" "quiet s3 s4"
      by (auto elim: okE)
    have "NetifOnLease E ip msk gw st =
        Some (True, if s_dwGw s3 \<noteq> 0 \<and> s_dwGw s3 \<noteq> s_dwMyIP s3 then s4 else s3)"
      using False ifn s2(1) s4(1)
      by (simp add: NetifOnLease_def Let_def s0_def [symmetric] s1_def [symmetric] s3_def [symmetric])
    with False s3 quietD [OF s4(2)] show ?thesis by simp
  qed
qed

section \<open>The receive path is safe and keeps the invariant\<close>

lemma dhcp_dns_ok:
  "off + k + 4 * (5 - length acc) \<le> length m \<Longrightarrow> length acc \<le> 5 \<Longrightarrow>
     \<exists>r. dhcp_dns m off n k acc = Some r \<and> length r \<le> 5"
proof (induction m off n k acc rule: dhcp_dns.induct)
  case (1 m off n k acc)
  show ?case
  proof (cases "k + 4 \<le> n \<and> length acc < 5")
    case True
    then have "4 * (5 - length acc) = 4 + 4 * (5 - Suc (length acc))" by arith
    with "1.prems" True have le: "off + k + 4 \<le> length m"
      "off + (k + 4) + 4 * (5 - Suc (length acc)) \<le> length m" by linarith+
    then obtain x where x: "rd32le m (off + k) = Some x" by simp
    with "1.IH" [OF True x] le True show ?thesis by (subst dhcp_dns.simps) simp
  qed (use "1.prems" in \<open>subst dhcp_dns.simps, auto\<close>)
qed

lemma dhcp_opt_ok:
  assumes "off + 20 \<le> length m" and "length (dh_dns a) \<le> 5"
  shows "\<exists>a'. dhcp_opt m off t n a = Some a' \<and> length (dh_dns a') \<le> 5"
proof -
  have "off + 0 + 4 * (5 - length (dh_dns a)) \<le> length m" using assms(1) by simp
  from dhcp_dns_ok [OF this assms(2), of n] obtain r where
    "dhcp_dns m off n 0 (dh_dns a) = Some r" "length r \<le> 5" by blast
  with assms show ?thesis by (auto simp: dhcp_opt_def)
qed

lemma dhcp_opts_ok:
  "pbEnd + 22 \<le> length m \<Longrightarrow> length (dh_dns a) \<le> 5 \<Longrightarrow>
     \<exists>a'. dhcp_opts m off pbEnd a = Some a' \<and> length (dh_dns a') \<le> 5"
proof (induction m off pbEnd a rule: dhcp_opts.induct)
  case (1 m off pbEnd a)
  show ?case
  proof (cases "off < pbEnd")
    case True
    have b: "rd8 m off = Some (m ! off)" "rd8 m (off + 1) = Some (m ! (off + 1))"
      using True "1.prems"(1) by simp_all
    have "off + 2 + 20 \<le> length m" using True "1.prems"(1) by simp
    from dhcp_opt_ok [OF this "1.prems"(2), of "m ! off" "unat (m ! (off + 1))"] obtain a' where
      a': "dhcp_opt m (off + 2) (m ! off) (unat (m ! (off + 1))) a = Some a'" "length (dh_dns a') \<le> 5" by blast
    show ?thesis
    proof (cases "m ! off = 255")
      case True
      with b \<open>off < pbEnd\<close> "1.prems" show ?thesis by (subst dhcp_opts.simps) simp
    next
      case n255: False
      show ?thesis
      proof (cases "m ! off = 0")
        case True
        then show ?thesis using "1.IH"(1) [OF \<open>off < pbEnd\<close> b(1) n255 True "1.prems"] b \<open>off < pbEnd\<close>
          by (subst dhcp_opts.simps) simp
      next
        case False
        then show ?thesis
          using "1.IH"(2) [OF \<open>off < pbEnd\<close> b(1) n255 False b(2) a'(1) "1.prems"(1) a'(2)] b n255 a'(1) \<open>off < pbEnd\<close>
          by (subst dhcp_opts.simps) simp
      qed
    qed
  qed (use "1.prems" in \<open>subst dhcp_opts.simps, simp\<close>)
qed

text \<open>What DHCP may change: the offer, the state, and the binding once.\<close>

lemma dhcp_accept_ok:
  assumes "env_ok E" and "netif_inv E st"
  shows "ok (dhcp_accept E t st) (\<lambda>st'. netif_inv E st' \<and> s_nDhcpState st \<le> s_nDhcpState st'
     \<and> (s_bHaveIP st \<longrightarrow> s_bHaveIP st' \<and> s_dwMyIP st' = s_dwMyIP st \<and> s_dwMask st' = s_dwMask st
          \<and> s_dwGw st' = s_dwGw st))"
proof -
  define s1 where "s1 = (if s_dwOffMask st = 0 then st\<lparr>s_dwOffMask := 0x00ffffff\<rparr> else st)"
  define s2 where "s2 = (if s_dwOffGw s1 = 0
      then s1\<lparr>s_dwOffGw := (s_dwOffIP s1 AND s_dwOffMask s1) OR push_bit 24 1\<rparr> else s1)"
  have i: "netif_inv E s2" "s_bHaveIP s2 = s_bHaveIP st" "s_dwMyIP s2 = s_dwMyIP st"
    "s_dwMask s2 = s_dwMask st" "s_dwGw s2 = s_dwGw st" "s_nDhcpState s2 = s_nDhcpState st"
    using assms(2) by (auto simp: s1_def s2_def netif_inv_def nd_inv_def)
  have eq: "dhcp_accept E t st =
      (if t = 2 \<and> s_nDhcpState s2 = 0 then DhcpStep (s2\<lparr>s_nDhcpState := 1\<rparr>)
       else if t = 5 \<or> s_nDhcpState s2 = 1 then do {
           (r, st) \<leftarrow> NetifOnLease E (s_dwOffIP s2) (s_dwOffMask s2) (s_dwOffGw s2) s2;
           Some (if r then st\<lparr>s_nDhcpState := 2\<rparr> else st) }
         else Some s2)"
    by (simp only: dhcp_accept_def Let_def s1_def s2_def)
  show ?thesis
  proof (cases "t = 2 \<and> s_nDhcpState s2 = 0")
    case True
    have i': "netif_inv E (s2\<lparr>s_nDhcpState := 1\<rparr>)" using i(1) by (simp add: netif_inv_def nd_inv_def)
    then have "ok (DhcpStep (s2\<lparr>s_nDhcpState := 1\<rparr>)) (quiet (s2\<lparr>s_nDhcpState := 1\<rparr>))"
      by (intro DhcpStep_ok) (simp add: netif_inv_def)
    then show ?thesis
      unfolding eq if_P [OF True] using i' i True by (auto elim!: ok_mono simp: quietD)
  next
    case False
    show ?thesis
    proof (cases "t = 5 \<or> s_nDhcpState s2 = 1")
      case True
      from NetifOnLease_ok [OF assms(1) i(1), of "s_dwOffIP s2" "s_dwOffMask s2" "s_dwOffGw s2"]
      obtain r s3 where s3: "NetifOnLease E (s_dwOffIP s2) (s_dwOffMask s2) (s_dwOffGw s2) s2 = Some (r, s3)"
        "netif_inv E s3" "r \<longleftrightarrow> s_bHaveIP s3" "s_nDhcpState s3 = s_nDhcpState s2" "s_bHaveIP s2 \<longrightarrow> s3 = s2"
        by (auto simp: ok_def)
      have "netif_inv E (if r then s3\<lparr>s_nDhcpState := 2\<rparr> else s3)"
        using s3(2) by (simp add: netif_inv_def nd_inv_def)
      moreover have "s_nDhcpState st \<le> 2" using assms(2) by (simp add: netif_inv_def)
      ultimately show ?thesis
        unfolding eq if_not_P [OF False] if_P [OF True] s3(1) using i s3 by auto
    next
      case False': False
      then show ?thesis unfolding eq if_not_P [OF False] if_not_P [OF False'] using i by simp
    qed
  qed
qed

definition keeps :: "'r nenv \<Rightarrow> 'r netif \<Rightarrow> 'r netif \<Rightarrow> bool" where
  "keeps E st st' \<longleftrightarrow> netif_inv E st' \<and> s_nDhcpState st \<le> s_nDhcpState st'
     \<and> (s_bHaveIP st \<longrightarrow> s_bHaveIP st' \<and> s_dwMyIP st' = s_dwMyIP st \<and> s_dwMask st' = s_dwMask st
          \<and> s_dwGw st' = s_dwGw st)"

lemma keeps_refl: "netif_inv E st \<Longrightarrow> keeps E st st"
  by (simp add: keeps_def)

lemma keeps_quiet: "netif_inv E st \<Longrightarrow> quiet st st' \<Longrightarrow> keeps E st st'"
  by (simp add: keeps_def quietD)

lemma keeps_trans: "keeps E a b \<Longrightarrow> keeps E b c \<Longrightarrow> keeps E a c"
  by (auto simp: keeps_def)

lemma DhcpRx_ok:
  assumes "env_ok E" and "netif_inv E st" and "length buf = 1600" and "nLen \<le> 1578"
  shows "ok (DhcpRx E buf nLen st) (keeps E st)"
proof -
  define bp where "bp = 14 + ihl_of (buf ! 14) + 8"
  have b0: "rd8 buf 14 = Some (buf ! 14)" using assms(3) by simp
  show ?thesis
  proof (cases "nLen < bp + 240 + 6")
    case True
    then show ?thesis using b0 assms(2) keeps_refl by (simp add: DhcpRx_def bp_def)
  next
    case False
    have op: "rd8 buf bp = Some (buf ! bp)" "rd32le buf (bp + 16) = Some (le32 (take 4 (drop (bp + 16) buf)))"
      using False assms(3,4) by simp_all
    define a0 where "a0 = \<lparr>dh_type = 0, dh_mask = 0, dh_gw = 0, dh_srv = 0, dh_dns = []\<rparr>"
    have "\<exists>a. dhcp_opts buf (bp + 240) nLen a0 = Some a \<and> length (dh_dns a) \<le> 5"
      by (rule dhcp_opts_ok) (use assms(3,4) in \<open>simp_all add: a0_def\<close>)
    then obtain a where a: "dhcp_opts buf (bp + 240) nLen a0 = Some a" "length (dh_dns a) \<le> 5" by blast
    define s1 where "s1 = st\<lparr>s_dwOffIP := le32 (take 4 (drop (bp + 16) buf)), s_dwOffMask := dh_mask a,
       s_dwOffGw := dh_gw a, s_dwOffSrv := dh_srv a\<rparr>"
    define s2 where "s2 = (if dh_dns a \<noteq> [] then set_off_dns (dh_dns a) s1 else s1)"
    have "nd_inv s1" using assms(2) by (simp add: s1_def netif_inv_def nd_inv_def)
    then have "nd_inv s2" using a(2) by (simp add: s2_def nd_inv_set_off_dns)
    then have s2: "netif_inv E s2" "s_bHaveIP s2 = s_bHaveIP st" "s_dwMyIP s2 = s_dwMyIP st"
      "s_dwMask s2 = s_dwMask st" "s_dwGw s2 = s_dwGw st" "s_nDhcpState s2 = s_nDhcpState st"
      using assms(2) by (simp_all add: s1_def s2_def netif_inv_def set_off_dns_def)
    have "DhcpRx E buf nLen st = (if buf ! bp \<noteq> 2 then Some st else dhcp_accept E (dh_type a) s2)"
      by (simp only: DhcpRx_def Let_def b0 bind.bind_lunit bp_def [symmetric] if_not_P [OF False] op
          a0_def [symmetric] a(1) s1_def [symmetric] s2_def [symmetric])
    then show ?thesis
      using dhcp_accept_ok [OF assms(1) s2(1), of "dh_type a"] s2 assms(2) keeps_refl
      by (auto simp: keeps_def elim!: ok_mono)
  qed
qed

lemma fix_checksums_ok:
  assumes "80 \<le> length m" and "m ! 9 = 6 \<Longrightarrow> tcp_len_ok m"
    and "m ! 9 = 17 \<Longrightarrow> udp_len_ok m \<and> 20 \<le> ihl_of (m ! 0)"
  shows "ok (fix_checksums m) (\<lambda>m'. length m' = length m)"
proof -
  from IpFixChecksum_ok [of m] assms(1) obtain m1 where m1: "IpFixChecksum m = Some m1" "length m1 = length m"
    by (auto elim: okE)
  note fr = IpFixChecksum_frame [OF m1(1)]
  have "rd_block m1 9 1 = rd_block m 9 1" by (rule fr(2)) simp
  then have p: "m1 ! 9 = m ! 9" using assms(1) m1(2) by (simp add: take_Suc_conv_app_nth)
  have r9: "rd8 m1 9 = Some (m ! 9)" using assms(1) m1(2) p by simp
  have "tcp_len_ok m1" if "tcp_len_ok m"
    using that m1(2) rd16be_of_block [OF fr(2), of 2] by (simp add: tcp_len_ok_def)
  moreover have "udp_len_ok m1" if "udp_len_ok m" "20 \<le> ihl_of (m ! 0)"
    using that m1(2) rd16be_of_block [OF fr(2), of "ihl_of (m ! 0) + 4"] fr(3) by (simp add: udp_len_ok_def)
  ultimately show ?thesis
    using m1 r9 assms(2,3) TcpFixChecksum_ok [of m1] UdpFixChecksum_ok [of m1]
    by (simp add: fix_checksums_def)
qed

text \<open>
  When the reverse translation is safe: the length fields of the translated packet stay in
  the frame. \<open>dns_fits\<close>: a reply from port 53 fits the 600-byte buffer.
\<close>

definition nat_fits :: "byte list \<Rightarrow> nat \<Rightarrow> bool" where
  "nat_fits ip nIpLen \<longleftrightarrow>
     (\<forall>t. rd16be ip 2 = Some t \<longrightarrow> t \<le> 1600)
     \<and> (ip ! 9 = 17 \<longrightarrow> 20 \<le> ihl_of (ip ! 0) \<and> ihl_of (ip ! 0) + 8 \<le> nIpLen
          \<and> (\<forall>u. rd16be ip (ihl_of (ip ! 0) + 4) = Some u \<longrightarrow> ihl_of (ip ! 0) + u \<le> 1600))"

definition rx_fits :: "'r nenv \<Rightarrow> byte list \<Rightarrow> nat \<Rightarrow> 'r netif \<Rightarrow> bool" where
  "rx_fits E buf nLen st \<longleftrightarrow> length buf = 1600 \<and> nLen \<le> 1578
     \<and> (s_dwNatTarget st \<noteq> 0 \<longrightarrow> nat_fits (drop 14 buf) (nLen - 14))
     \<and> (\<forall>ip. rx_unnat E (drop 14 buf) (nLen - 14) st = Some ip
          \<longrightarrow> rd16be ip (ihl_of (buf ! 14)) = Some 53 \<longrightarrow> nLen \<le> 614)"

lemma rx_unnat_ok:
  assumes "env_ok E" and "length ip = 1586" and "n \<le> 1564"
    and "s_dwNatTarget st \<noteq> 0 \<longrightarrow> nat_fits ip n"
  shows "ok (rx_unnat E ip n st) (\<lambda>ip'. 1586 \<le> length ip')"
proof -
  have j: "length (ne_junk E 1600) = 1600" using assms(1) by (simp add: env_ok_def)
  show ?thesis
  proof (cases "s_dwNatTarget st \<noteq> 0 \<and> n \<ge> 20 \<and> n \<le> 1600")
    case True
    then have fits: "nat_fits ip n" and n: "20 \<le> n" using assms(4) by auto
    obtain sip where sip: "rd32le ip 12 = Some sip" using assms(2) by simp
    obtain d where d: "rd_block ip 0 n = Some d" using assms(2,3) by simp
    have ld: "length d = n" using d by (rule length_rd_block)
    then obtain m1 where m1: "wr_block (ne_junk E 1600) 0 d = Some m1" using j assms(3) by simp
    have l1: "length m1 = 1600" using j length_wr_block [OF m1] by simp
    obtain m2 where m2: "wr_block m1 12 (le32_bytes (s_dwNatOrig st)) = Some m2" using l1 by simp
    have l2: "length m2 = 1600" using l1 length_wr_block [OF m2] by simp
    have same: "rd_block m2 k l = rd_block ip k l" if "k + l \<le> n" "k + l \<le> 12 \<or> 16 \<le> k" for k l
      using rd_block_wr_other [OF m2, of k l] rd_block_copied [OF d m1, of k l] that by simp
    have nth: "m2 ! k = ip ! k" if "k < 12" for k
    proof -
      have "rd_block m2 k 1 = rd_block ip k 1" using that n by (intro same) simp_all
      then show ?thesis using that l2 assms(2) by (simp add: take_Suc_conv_app_nth)
    qed
    have "rd16be m2 2 = rd16be ip 2" by (rule rd16be_of_block, rule same) (use n in simp_all)
    then have t: "tcp_len_ok m2" using fits l2 by (simp add: tcp_len_ok_def nat_fits_def)
    have u: "udp_len_ok m2 \<and> 20 \<le> ihl_of (m2 ! 0)" if "m2 ! 9 = 17"
    proof -
      from that fits nth have f: "20 \<le> ihl_of (ip ! 0)" "ihl_of (ip ! 0) + 8 \<le> n"
        "\<forall>u. rd16be ip (ihl_of (ip ! 0) + 4) = Some u \<longrightarrow> ihl_of (ip ! 0) + u \<le> 1600"
        by (auto simp: nat_fits_def)
      then have "rd16be m2 (ihl_of (ip ! 0) + 4) = rd16be ip (ihl_of (ip ! 0) + 4)"
        by (intro rd16be_of_block same) simp_all
      with f nth l2 show ?thesis by (simp add: udp_len_ok_def)
    qed
    from fix_checksums_ok [of m2] t u l2 have "ok (fix_checksums m2) (\<lambda>m'. length m' = 1600)" by simp
    then show ?thesis
      using True sip d m1 m2 assms(2) by (auto simp: rx_unnat_def elim!: ok_mono)
  next
    case False
    then show ?thesis unfolding rx_unnat_def if_not_P [OF False] using assms(2) by simp
  qed
qed

lemma rx_ip_ok:
  assumes "env_ok E" and "netif_inv E st" and "rx_fits E buf nLen st" and "14 \<le> nLen"
  shows "ok (rx_ip E buf nLen st) (keeps E st)"
proof -
  have len: "length buf = 1600" "nLen \<le> 1578" using assms(3) by (simp_all add: rx_fits_def)
  define ihl where "ihl = ihl_of (buf ! 14)"
  have ihl: "ihl \<le> 60" by (simp add: ihl_def ihl_of_le)
  have b0: "rd8 buf 14 = Some (buf ! 14)" using len by simp
  have "ok (rx_unnat E (drop 14 buf) (nLen - 14) st) (\<lambda>ip'. 1586 \<le> length ip')"
    by (rule rx_unnat_ok) (use assms(1,3) len in \<open>auto simp: rx_fits_def\<close>)
  then obtain ip where ip: "rx_unnat E (drop 14 buf) (nLen - 14) st = Some ip" "1586 \<le> length ip"
    by (auto elim: okE)
  obtain pr where pr: "rd8 ip 9 = Some pr" using ip(2) by simp
  obtain dp where dp: "rd16be ip (ihl + 2) = Some dp" using ip(2) ihl by simp
  obtain sp where sp: "rd16be ip ihl = Some sp" using ip(2) ihl by simp
  define uh where "uh \<longleftrightarrow> pr = 17 \<and> nLen \<ge> 14 + ihl + 8"
  obtain dd where dd: "rd_block ip 0 (nLen - 14) = Some dd" using ip(2) len(2) by simp
  have dp': "(if uh then rd16be ip (ihl + 2) else Some 0) = Some (if uh then dp else 0)" using dp by simp
  have sp': "(if uh then rd16be ip ihl else Some 0) = Some (if uh then sp else 0)" using sp by simp
  have eq: "rx_ip E buf nLen st =
    (if (if uh then dp else 0) = 68 then DhcpRx E buf nLen st
     else do {
       flat \<leftarrow> (if (if uh then sp else 0) = 53 then DnsFlatten ip (nLen - 14) (ne_junk E 600) else Some (0, []));
       if fst flat > 0 then do { d \<leftarrow> rd_block (snd flat) 0 (fst flat); Some (DeliverIP E d st) }
       else Some (DeliverIP E dd st) })"
    by (simp only: rx_ip_def b0 bind.bind_lunit Let_def ihl_def [symmetric] ip(1) pr uh_def [symmetric]
        dp' sp' dd)
  have del: "keeps E st (DeliverIP E d st)" for d
    using keeps_quiet [OF assms(2) DeliverIP_quiet] .
  show ?thesis
  proof (cases "(if uh then dp else 0) = 68")
    case True
    then show ?thesis unfolding eq if_P [OF True] by (intro DhcpRx_ok assms(1,2) len)
  next
    case False
    show ?thesis
    proof (cases "(if uh then sp else 0) = 53")
      case True
      then have uh "sp = 53" by (auto split: if_splits)
      then have "nLen \<le> 614" using assms(3) ip(1) sp by (auto simp: rx_fits_def ihl_def)
      then have "nLen - 14 \<le> length (ne_junk E 600)" using assms(1) by (simp add: env_ok_def)
      moreover have "ip \<noteq> []" using ip(2) by auto
      moreover have "nLen - 14 \<le> length ip" using ip(2) len(2) by linarith
      ultimately obtain n out where fl: "DnsFlatten ip (nLen - 14) (ne_junk E 600) = Some (n, out)"
        "length out = length (ne_junk E 600)" "n = 0 \<or> n + 10 \<le> nLen - 14"
        using DnsFlatten_fits_aux [of ip "nLen - 14" "ne_junk E 600"] by blast
      then have "n \<le> length out" using \<open>nLen - 14 \<le> length (ne_junk E 600)\<close> by auto
      then show ?thesis
        unfolding eq if_not_P [OF False] if_P [OF True] fl(1) using del by simp
    next
      case False': False
      show ?thesis unfolding eq if_not_P [OF False] if_not_P [OF False'] using del by simp
    qed
  qed
qed

lemma rx_arp_ok:
  assumes "netif_inv E st" and "length buf = 1600"
  shows "ok (rx_arp buf st) (keeps E st)"
proof -
  define mac where "mac = take 6 (drop 22 buf)"
  define s1 where "s1 = st\<lparr>s_arp := ArpInsert (le32 (take 4 (drop 28 buf))) mac (s_arp st)\<rparr>"
  have "length mac = 6" using assms(2) by (simp add: mac_def)
  then have i: "keeps E st s1"
    using assms(1) arp_wf_insert by (simp add: s1_def keeps_def netif_inv_def nd_inv_def)
  then have "s_pLink s1 \<noteq> LkNone" by (simp add: keeps_def netif_inv_def)
  then have snd: "ok (EthSend d w p s1) (keeps E st)" for d w p
    using EthSend_ok [of s1 d w p] keeps_quiet [of E s1] keeps_trans [OF i] i
    by (auto simp: keeps_def [of E st s1] elim!: ok_mono)
  show ?thesis
    using assms(2) snd i by (simp add: rx_arp_def Let_def mac_def s1_def)
qed

text \<open>
  C4: \<open>RxFrame\<close> takes any frame of up to 1578 bytes without leaving its buffers, as long as a
  reply from port 53 fits the 600-byte buffer and, while a translation is active, the
  length fields of the packet stay in the frame; it keeps the adapter's invariant, never
  moves the DHCP state back, and never changes an address once it is bound.
\<close>

theorem RxFrame_safe:
  assumes "env_ok E" and "netif_inv E st" and "rx_fits E buf nLen st"
  shows "\<exists>st'. RxFrame E buf nLen st = Some st' \<and> netif_inv E st'
     \<and> s_nDhcpState st \<le> s_nDhcpState st'
     \<and> (s_bHaveIP st \<longrightarrow> s_bHaveIP st' \<and> s_dwMyIP st' = s_dwMyIP st \<and> s_dwMask st' = s_dwMask st
          \<and> s_dwGw st' = s_dwGw st)"
proof -
  have len: "length buf = 1600" using assms(3) by (simp add: rx_fits_def)
  have "ok (RxFrame E buf nLen st) (keeps E st)"
    using rx_arp_ok [OF assms(2) len] rx_ip_ok [OF assms] keeps_refl [OF assms(2)] len
    by (auto simp: RxFrame_def)
  then show ?thesis by (auto simp: ok_def keeps_def)
qed

section \<open>The address translation\<close>

lemma fix_checksums_Some:
  assumes "fix_checksums m = Some m'" and "20 \<le> ihl_of (m ! 0)"
  obtains m1 where "IpFixChecksum m = Some m1" "m1 ! 9 = m ! 9" "m1 ! 0 = m ! 0" "9 < length m"
    "\<forall>j n. j + n \<le> 10 \<or> 12 \<le> j \<longrightarrow> rd_block m1 j n = rd_block m j n"
    "m ! 9 = 6 \<longrightarrow> TcpFixChecksum m1 = Some m'" "m ! 9 = 17 \<longrightarrow> UdpFixChecksum m1 = Some m'"
    "\<exists>i \<ge> ihl_of (m ! 0) + 6. field_only i m1 m'"
proof -
  from assms(1) obtain m1 where m1: "IpFixChecksum m = Some m1" "9 < length m1"
    and r: "(if m1 ! 9 = 6 then TcpFixChecksum m1 else if m1 ! 9 = 17 then UdpFixChecksum m1 else Some m1) = Some m'"
    by (auto simp: fix_checksums_def bind_eq_Some_conv rd8_eq_Some)
  note f = field_onlyD [OF IpFixChecksum_field [OF m1(1)]]
  have "9 < length m" using f(1) m1(2) by simp
  moreover from this have "m \<noteq> []" by auto
  ultimately have nth: "m1 ! 9 = m ! 9" "m1 ! 0 = m ! 0" using f(3) [of 9] f(3) [of 0] by auto
  have "\<exists>i \<ge> ihl_of (m ! 0) + 6. field_only i m1 m'"
    using r nth TcpFixChecksum_field [of m1 m'] UdpFixChecksum_field [of m1 m'] field_only_refl
    by (auto split: if_splits intro: exI [of _ "ihl_of (m ! 0) + 16"])
  moreover have "m ! 9 = 6 \<Longrightarrow> TcpFixChecksum m1 = Some m'" "m ! 9 = 17 \<Longrightarrow> UdpFixChecksum m1 = Some m'"
    using r nth(1) by simp_all
  ultimately show thesis using that [OF m1(1) nth \<open>9 < length m\<close>] f(2) by simp
qed

text \<open>A fixed packet: header checksum valid, transport checksum valid, addresses as they were.\<close>

lemma fix_checksums_valid:
  assumes "fix_checksums m = Some m'" and ihl: "ihl = ihl_of (m ! 0)" and "20 \<le> ihl"
  shows "Csum16 m' 0 ihl 0 = Some 0"
    and "rd_block m' 12 8 = rd_block m 12 8" and "rd_block m' 0 10 = rd_block m 0 10"
    and "length m' = length m"
    and "m ! 9 = 6 \<Longrightarrow> rd16be m 2 = Some (ihl + n) \<Longrightarrow> 20 \<le> n \<Longrightarrow>
           pseudo_sum m' (word_of_nat (6 + n)) \<bind> Csum16 m' ihl n = Some 0"
    and "m ! 9 = 17 \<Longrightarrow> rd16be m (ihl + 4) = Some n \<Longrightarrow> 8 \<le> n \<Longrightarrow>
           pseudo_sum m' (word_of_nat (17 + n)) \<bind> Csum16 m' ihl n = Some 0"
proof -
  have ge: "20 \<le> ihl_of (m ! 0)" using assms(2,3) by simp
  obtain m1 where m1: "IpFixChecksum m = Some m1" "m1 ! 9 = m ! 9" "m1 ! 0 = m ! 0" "9 < length m"
    "\<forall>j n. j + n \<le> 10 \<or> 12 \<le> j \<longrightarrow> rd_block m1 j n = rd_block m j n"
    "m ! 9 = 6 \<longrightarrow> TcpFixChecksum m1 = Some m'" "m ! 9 = 17 \<longrightarrow> UdpFixChecksum m1 = Some m'"
    "\<exists>i \<ge> ihl_of (m ! 0) + 6. field_only i m1 m'"
    using fix_checksums_Some [OF assms(1) ge] by blast
  from m1(8) obtain i where i: "ihl + 6 \<le> i" "field_only i m1 m'" using assms(2) by blast
  note f = field_onlyD [OF i(2)] and f1 = field_onlyD [OF IpFixChecksum_field [OF m1(1)]]
  show "length m' = length m" using f(1) f1(1) by simp
  have "Csum16 m1 0 ihl 0 = Some 0" using IpFixChecksum_verifies [OF m1(1)] assms(2,3) by simp
  then show "Csum16 m' 0 ihl 0 = Some 0" using f(2) [of 0 ihl] i(1) by (simp add: Csum16_def)
  show "rd_block m' 12 8 = rd_block m 12 8" using f(2) [of 12 8] m1(5) i(1) assms(3) by simp
  show "rd_block m' 0 10 = rd_block m 0 10" using f(2) [of 0 10] m1(5) i(1) assms(3) by simp
  show "pseudo_sum m' (word_of_nat (6 + n)) \<bind> Csum16 m' ihl n = Some 0"
    if "m ! 9 = 6" "rd16be m 2 = Some (ihl + n)" "20 \<le> n"
    using TcpFixChecksum_verifies [OF m1(6) [rule_format, OF that(1)], of ihl n] that(2,3) assms(2,3) m1(3)
      rd16be_of_block [OF m1(5) [rule_format], of 2] by simp
  show "pseudo_sum m' (word_of_nat (17 + n)) \<bind> Csum16 m' ihl n = Some 0"
    if "m ! 9 = 17" "rd16be m (ihl + 4) = Some n" "8 \<le> n"
    using UdpFixChecksum_verifies [OF m1(7) [rule_format, OF that(1)], of ihl n] that(2,3) assms(2,3) m1(3)
      rd16be_of_block [OF m1(5) [rule_format], of "ihl + 4"] by simp
qed

end
