(* ===== verification/NetifPath.thy ===== *)
theory NetifPath
  imports Netif
begin

text \<open>
  What the transmit path and the address translation of \<open>netif.c\<close> do to a packet, ARP
  replies, and the bring-up of the interface.
\<close>

section \<open>Transmit\<close>

lemma gather_all:
  assumes "nOff + sum_list (map length bs) \<le> 1600" and "length buf = 1600"
  shows "\<exists>buf'. gather bs buf nOff = Some (buf', nOff + sum_list (map length bs)) \<and> length buf' = 1600
     \<and> take (nOff + sum_list (map length bs)) buf' = take nOff buf @ concat bs"
  using assms
proof (induction bs arbitrary: buf nOff)
  case (Cons b bs)
  then have le: "nOff + length b \<le> length buf" by simp
  define b1 where "b1 = take nOff buf @ b @ drop (nOff + length b) buf"
  have b1: "wr_block buf nOff b = Some b1" "length b1 = 1600" using le Cons.prems by (auto simp: b1_def)
  have "nOff + length b + sum_list (map length bs) \<le> 1600" using Cons.prems(1) by simp
  from Cons.IH [OF this b1(2)] obtain b2 where
    "gather bs b1 (nOff + length b) = Some (b2, nOff + length b + sum_list (map length bs))"
    "length b2 = 1600" "take (nOff + length b + sum_list (map length bs)) b2 = take (nOff + length b) b1 @ concat bs"
    by blast
  moreover have "take (nOff + length b) b1 = take nOff buf @ b" using le by (simp add: b1_def)
  ultimately show ?case using b1(1) Cons.prems(1) by (simp add: add.assoc)
qed simp

text \<open>A datagram as the stack hands it over: its lengths agree with its size.\<close>

definition dgram_ok :: "byte list \<Rightarrow> bool" where
  "dgram_ok d \<longleftrightarrow> 20 \<le> ihl_of (d ! 0) \<and> ihl_of (d ! 0) + 8 \<le> length d \<and> length d \<le> 1500
     \<and> rd16be d 2 = Some (length d)
     \<and> (d ! 9 = 6 \<longrightarrow> ihl_of (d ! 0) + 20 \<le> length d)
     \<and> (d ! 9 = 17 \<longrightarrow> (\<forall>u. rd16be d (ihl_of (d ! 0) + 4) = Some u \<longrightarrow> ihl_of (d ! 0) + u \<le> length d))"

lemma take_rd_block:
  "take L g = d \<Longrightarrow> L \<le> length g \<Longrightarrow> j + n \<le> length d \<Longrightarrow> rd_block g j n = rd_block d j n"
  by (auto simp: rd_block_def drop_take min_absorb1)

lemma dgram_ok_buffer:
  assumes "dgram_ok d" and "take (length d) g = d" and "length g = 1600"
    and "length g' = 1600" and "\<And>j n. j + n \<le> 10 \<or> 20 \<le> j \<Longrightarrow> rd_block g' j n = rd_block g j n"
  shows "g' ! 0 = d ! 0" "g' ! 9 = d ! 9" "tcp_len_ok g'" "d ! 9 = 17 \<Longrightarrow> udp_len_ok g'"
proof -
  have L: "28 \<le> length d" "length d \<le> 1500" using assms(1) by (simp_all add: dgram_ok_def)
  have rb: "rd_block g' j n = rd_block d j n" if "j + n \<le> 10 \<or> 20 \<le> j" "j + n \<le> length d" for j n
    using assms(5) [OF that(1)] take_rd_block [OF assms(2) _ that(2)] L assms(3) by simp
  have nth: "g' ! k = d ! k" if "k < 10" for k
    using rb [of k 1] that L assms(4) by (simp add: take_Suc_conv_app_nth)
  show "g' ! 0 = d ! 0" "g' ! 9 = d ! 9" using nth by simp_all
  have "rd16be g' 2 = rd16be d 2" by (rule rd16be_of_block, rule rb) (use L in simp_all)
  then show "tcp_len_ok g'" using assms(1,4) by (auto simp: tcp_len_ok_def dgram_ok_def)
  assume "d ! 9 = 17"
  have "rd16be g' (ihl_of (d ! 0) + 4) = rd16be d (ihl_of (d ! 0) + 4)"
    by (rule rd16be_of_block, rule rb) (use assms(1) in \<open>auto simp: dgram_ok_def\<close>)
  with \<open>d ! 9 = 17\<close> nth assms(1,4) show "udp_len_ok g'"
    by (auto simp: udp_len_ok_def dgram_ok_def intro: le_trans)
qed

definition syn_psh :: "byte list \<Rightarrow> bool" where
  "syn_psh d \<longleftrightarrow> d ! 9 = 6 \<and> (let f = d ! (ihl_of (d ! 0) + 13)
     in f AND 0x02 \<noteq> 0 \<and> f AND 0x10 = 0 \<and> f AND 0x08 \<noteq> 0)"

lemma tx_normalize_syn_cases:
  assumes "length g = 1600"
  shows "\<not> syn_psh g \<Longrightarrow> tx_normalize_syn g = Some g"
    and "syn_psh g \<Longrightarrow> tx_normalize_syn g =
      TcpFixChecksum (g[ihl_of (g ! 0) + 13 := g ! (ihl_of (g ! 0) + 13) AND NOT 0x08])"
proof -
  define k where "k = ihl_of (g ! 0) + 13"
  have k: "k < length g" using ihl_of_le [of "g ! 0"] assms by (simp add: k_def)
  have r: "rd8 g 9 = Some (g ! 9)" "rd8 g 0 = Some (g ! 0)" "rd8 g k = Some (g ! k)"
    using k assms by (auto simp: rd8_def)
  have w: "wr_block g k [x] = Some (g[k := x])" for x
    using k by (simp add: wr_block_def upd_conv_take_nth_drop)
  show "\<not> syn_psh g \<Longrightarrow> tx_normalize_syn g = Some g"
    using r by (auto simp: tx_normalize_syn_def syn_psh_def Let_def simp flip: k_def)
  show "syn_psh g \<Longrightarrow> tx_normalize_syn g =
      TcpFixChecksum (g[ihl_of (g ! 0) + 13 := g ! (ihl_of (g ! 0) + 13) AND NOT 0x08])"
    using r w by (simp add: tx_normalize_syn_def syn_psh_def Let_def flip: k_def)
qed

definition tx_evs :: "'r netif \<Rightarrow> byte list \<Rightarrow> event list" where
  "tx_evs st f = (if s_pLink st = LkNull then [] else [EvTx (s_pLink st) f])"

definition arp_request_frame :: "'r netif \<Rightarrow> u32 \<Rightarrow> byte list" where
  "arp_request_frame st ip = replicate 6 0xff @ s_abMac st @ [0x08, 0x06]
     @ [0, 1, 8, 0, 6, 4, 0, 1] @ s_abMac st @ le32_bytes (s_dwMyIP st) @ replicate 6 0 @ le32_bytes ip"

lemma EthSend_eq:
  "s_pLink st \<noteq> LkNone \<Longrightarrow> length p \<le> 1500 \<Longrightarrow> EthSend d w p st =
     Some (st\<lparr>evs := evs st @ tx_evs st (d @ s_abMac st @ [hi8 w, lo8 w] @ p)\<rparr>)"
  by (auto simp: EthSend_def link_tx_def tx_evs_def emit_def split: link.splits)

lemma ethertype_bytes: "hi8 0x0806 = 8" "lo8 0x0806 = 6" "hi8 0x0800 = 8" "lo8 0x0800 = 0"
  by (simp_all add: hi8_def lo8_def)

lemma ArpRequest_eq:
  "s_pLink st \<noteq> LkNone \<Longrightarrow> length (s_abMac st) = 6 \<Longrightarrow>
     ArpRequest ip st = Some (st\<lparr>evs := evs st @ tx_evs st (arp_request_frame st ip)\<rparr>)"
  by (simp add: ArpRequest_def EthSend_eq arp_request_frame_def ethertype_bytes)

lemma RedirectDest_frame:
  "\<exists>a b. snd (RedirectDest dst st) = st\<lparr>s_dwNatOrig := a, s_dwNatTarget := b\<rparr>"
proof (cases "s_dwRevivalMaster st \<noteq> 0 \<and> (dst = AFO_ORIG_IP \<or> dst = IGP_ORIG_IP)")
  case True
  then show ?thesis
    by (intro exI [of _ dst] exI [of _ "s_dwRevivalMaster st"]) (simp add: RedirectDest_def)
next
  case False
  then have "RedirectDest dst st = (dst, st)" unfolding RedirectDest_def by (rule if_not_P)
  then show ?thesis by (intro exI [of _ "s_dwNatOrig st"] exI [of _ "s_dwNatTarget st"]) simp
qed

lemma RedirectDest_changed:
  "RedirectDest dst st = (new, st') \<Longrightarrow> new \<noteq> dst \<Longrightarrow> s_dwNatOrig st' = dst \<and> s_dwNatTarget st' = new"
  by (auto simp: RedirectDest_def split: if_splits)

lemma rd_block_take: "j + n \<le> L \<Longrightarrow> L \<le> length g \<Longrightarrow> rd_block (take L g) j n = rd_block g j n"
  by (auto simp: rd_block_def drop_take min_absorb1)

lemma checks_take:
  assumes "ihl + n \<le> L" and "20 \<le> L" and "L \<le> length g"
  shows "Csum16 (take L g) ihl n s = Csum16 g ihl n s" and "pseudo_sum (take L g) s = pseudo_sum g s"
proof -
  show "Csum16 (take L g) ihl n s = Csum16 g ihl n s"
    using rd_block_take [OF assms(1,3)] by (simp add: Csum16_def)
  have "rd16be (take L g) k = rd16be g k" if "k + 2 \<le> 20" for k
    by (rule rd16be_of_block, rule rd_block_take) (use that assms in simp_all)
  then show "pseudo_sum (take L g) s = pseudo_sum g s" by (simp add: pseudo_sum_def)
qed

text \<open>The buffer after the translation step.\<close>

lemma tx_redirect_step:
  assumes "dgram_ok d" and "take (length d) g = d" and "length g = 1600" and "ihl = ihl_of (d ! 0)"
  shows "ok (if new \<noteq> dst then do { x \<leftarrow> wr_block g 16 (le32_bytes new); fix_checksums x } else Some g)
    (\<lambda>g'. length g' = 1600 \<and> (new = dst \<longrightarrow> g' = g)
       \<and> (new \<noteq> dst \<longrightarrow> Csum16 g' 0 ihl 0 = Some 0 \<and> rd_block g' 16 4 = Some (le32_bytes new)
            \<and> rd_block g' 12 4 = rd_block g 12 4
            \<and> (d ! 9 = 6 \<longrightarrow> pseudo_sum g' (word_of_nat (6 + (length d - ihl))) \<bind> Csum16 g' ihl (length d - ihl) = Some 0)
            \<and> (\<forall>k < 10. g' ! k = g ! k) \<and> (d ! 9 = 6 \<longrightarrow> g' ! (ihl + 13) = g ! (ihl + 13))))"
proof (cases "new = dst")
  case False
  have L: "20 \<le> ihl" "ihl + 8 \<le> length d" "length d \<le> 1500" "rd16be d 2 = Some (length d)"
    using assms(1,4) by (simp_all add: dgram_ok_def)
  obtain x where x: "wr_block g 16 (le32_bytes new) = Some x" using assms(3) by simp
  have lx: "length x = 1600" using length_wr_block [OF x] assms(3) by simp
  have fr: "rd_block x j n = rd_block g j n" if "j + n \<le> 16 \<or> 20 \<le> j" for j n
    using rd_block_wr_other [OF x] that by simp
  have fr': "rd_block x j n = rd_block g j n" if "j + n \<le> 10 \<or> 20 \<le> j" for j n
    using fr [of j n] that by auto
  have b: "x ! 0 = d ! 0" "x ! 9 = d ! 9" "tcp_len_ok x" "d ! 9 = 17 \<Longrightarrow> udp_len_ok x"
    using dgram_ok_buffer [OF assms(1-3) lx fr'] by blast+
  from fix_checksums_ok [of x] b lx L assms(4) obtain y where y: "fix_checksums x = Some y" "length y = 1600"
    by (auto elim!: okE)
  note v = fix_checksums_valid [OF y(1), of ihl]
  have "rd16be x 2 = rd16be g 2" by (rule rd16be_of_block, rule fr) simp
  also have "\<dots> = rd16be d 2"
    by (rule rd16be_of_block, rule take_rd_block [OF assms(2)]) (use L assms(3) in simp_all)
  finally have tot: "rd16be x 2 = Some (length d)" using L(4) by simp
  have nx: "x ! k = g ! k" if "k < 16 \<or> 20 \<le> k" "k < 1600" for k
    using nth_wr_block [OF x, of k] assms(3) that by auto
  have "y ! k = x ! k" if "k < 10" for k
  proof -
    have "rd_block y 0 10 = rd_block x 0 10" using v(3) assms(4) b(1) L(1) by simp
    then have "take 10 y = take 10 x" using y(2) lx by simp
    then have "take 10 y ! k = take 10 x ! k" by simp
    then show ?thesis using that by simp
  qed
  moreover have "rd_block y 16 4 = Some (le32_bytes new)" "rd_block y 12 4 = rd_block g 12 4"
  proof -
    have "rd_block y 12 8 = rd_block x 12 8" using v(2) assms(4) b(1) L(1) by simp
    then have e: "take 8 (drop 12 y) = take 8 (drop 12 x)" using y(2) lx by simp
    have "take 4 (drop 4 (take 8 (drop 12 y))) = take 4 (drop 4 (take 8 (drop 12 x)))" using e by simp
    then have "take 4 (drop 16 y) = take 4 (drop 16 x)" by (simp add: drop_take)
    then have "rd_block y 16 4 = rd_block x 16 4" using y(2) lx by simp
    with rd_block_wr_block [OF x, of 4] show "rd_block y 16 4 = Some (le32_bytes new)" by simp
    have "take 4 (take 8 (drop 12 y)) = take 4 (take 8 (drop 12 x))" using e by simp
    then have "take 4 (drop 12 y) = take 4 (drop 12 x)" by simp
    then show "rd_block y 12 4 = rd_block g 12 4" using fr [of 12 4] y(2) lx assms(3) by simp
  qed
  moreover have "y ! (ihl + 13) = g ! (ihl + 13)" if "d ! 9 = 6"
  proof -
    have ge: "20 \<le> ihl_of (x ! 0)" using L(1) assms(4) b(1) by simp
    obtain m1 where m1: "IpFixChecksum x = Some m1" "m1 ! 0 = x ! 0"
        "x ! 9 = 6 \<longrightarrow> TcpFixChecksum m1 = Some y"
      by (rule fix_checksums_Some [OF y(1) ge], rule that, assumption+)
    have "ihl + 20 \<le> length d" using assms(1,4) that by (simp add: dgram_ok_def)
    then have l: "ihl + 13 < 1600" using L(3) by simp
    note f1 = field_onlyD [OF IpFixChecksum_field [OF m1(1)]]
    have "TcpFixChecksum m1 = Some y" using m1(3) that b(2) by simp
    from field_onlyD(3) [OF TcpFixChecksum_field [OF this], of "ihl + 13"]
    have "y ! (ihl + 13) = m1 ! (ihl + 13)" using m1(2) b(1) assms(4) l f1(1) lx by simp
    also have "\<dots> = x ! (ihl + 13)" using f1(3) [of "ihl + 13"] L(1) l lx by simp
    also have "\<dots> = g ! (ihl + 13)" using nx [of "ihl + 13"] L(1) l by simp
    finally show ?thesis .
  qed
  moreover have "pseudo_sum y (word_of_nat (6 + (length d - ihl))) \<bind> Csum16 y ihl (length d - ihl) = Some 0"
    if "d ! 9 = 6"
  proof -
    have l: "ihl + 20 \<le> length d" using assms(1,4) that by (simp add: dgram_ok_def)
    show ?thesis
    proof (rule v(5))
      show "rd16be x 2 = Some (ihl + (length d - ihl))" using tot l by simp
      show "x ! 9 = 6" using that b(2) by simp
      show "ihl = ihl_of (x ! 0)" using assms(4) b(1) by simp
      show "20 \<le> length d - ihl" using l by simp
    qed (rule L(1))
  qed
  moreover have "Csum16 y 0 ihl 0 = Some 0" using v(1) assms(4) b(1) L(1) by simp
  moreover have "x ! k = g ! k" if "k < 10" for k using nx [of k] that by simp
  ultimately show ?thesis using False x y by auto
qed (use assms(3) in simp)

text \<open>The buffer after the SYN step.\<close>

lemma tx_syn_step:
  assumes "length g = 1600" and "tcp_len_ok g" and "ihl = ihl_of (g ! 0)" and "20 \<le> ihl"
    and "rd16be g 2 = Some (ihl + n)" and "20 \<le> n"
  shows "ok (tx_normalize_syn g)
    (\<lambda>g'. length g' = 1600 \<and> (\<not> syn_psh g \<longrightarrow> g' = g)
       \<and> (\<forall>j k. j + k \<le> ihl \<longrightarrow> rd_block g' j k = rd_block g j k)
       \<and> (syn_psh g \<longrightarrow> g' ! (ihl + 13) = g ! (ihl + 13) AND NOT 0x08
            \<and> pseudo_sum g' (word_of_nat (6 + n)) \<bind> Csum16 g' ihl n = Some 0))"
proof (cases "syn_psh g")
  case True
  define x where "x = g[ihl + 13 := g ! (ihl + 13) AND NOT 0x08]"
  have ihl60: "ihl \<le> 60" using assms(3) ihl_of_le by simp
  have x0: "length x = 1600" "x ! 0 = g ! 0" using assms(1,4) by (simp_all add: x_def)
  have fr: "rd_block x j k = rd_block g j k" if "j + k \<le> ihl" for j k
    using that assms(1) by (simp add: x_def rd_block_def drop_update_swap take_update_swap list_update_beyond)
  have r2: "rd16be x 2 = rd16be g 2" by (rule rd16be_of_block, rule fr) (use assms(4) in simp)
  then have "tcp_len_ok x" using assms(1,2) x0 by (simp add: tcp_len_ok_def)
  from TcpFixChecksum_ok [OF this] x0 obtain y where y: "TcpFixChecksum x = Some y" "length y = 1600"
    by (auto elim: okE)
  note f = field_onlyD [OF TcpFixChecksum_field [OF y(1)]]
  have "tx_normalize_syn g = Some y"
    using tx_normalize_syn_cases(2) [OF assms(1) True] y(1) assms(3) by (simp add: x_def)
  moreover have "y ! (ihl + 13) = g ! (ihl + 13) AND NOT 0x08"
    using f(3) [of "ihl + 13"] x0 assms(1,3) ihl60 by (simp add: x_def)
  moreover have "rd_block y j k = rd_block g j k" if "j + k \<le> ihl" for j k
    using f(2) [of j k] fr [of j k] that x0(2) assms(3) by simp
  moreover have "pseudo_sum y (word_of_nat (6 + n)) \<bind> Csum16 y ihl n = Some 0"
    by (rule TcpFixChecksum_verifies [OF y(1)]) (use assms x0 r2 in simp_all)
  ultimately show ?thesis using True y(2) by simp
next
  case False
  with tx_normalize_syn_cases(1) [OF assms(1)] assms(1) show ?thesis by simp
qed

definition tx_final :: "'r netif \<Rightarrow> u32 \<Rightarrow> byte list \<Rightarrow> event list" where
  "tx_final st hop out = (case ArpLookup (s_arp st) hop of
      Some mac \<Rightarrow> tx_evs st (mac @ s_abMac st @ [8, 0] @ out)
    | None \<Rightarrow> tx_evs st (arp_request_frame st hop)) @ [EvFreePacket]"

lemma OurTransmit_run:
  assumes "env_ok E" and "netif_inv E st" and "concat pkt = d" and "dgram_ok d"
    and "dst = le32 (take 4 (drop 16 d))" and "new = fst (RedirectDest dst st)" and "ihl = ihl_of (d ! 0)"
  shows "\<exists>st' out. OurTransmit E pkt st = Some st' \<and> length out = length d
     \<and> evs st' = evs st @ tx_final st (next_hop new st) out
     \<and> rd_block out 16 4 = Some (le32_bytes new) \<and> rd_block out 12 4 = rd_block d 12 4
     \<and> (new = dst \<and> \<not> syn_psh d \<longrightarrow> out = d)
     \<and> (new \<noteq> dst \<longrightarrow> Csum16 out 0 ihl 0 = Some 0 \<and> s_dwNatOrig st' = dst \<and> s_dwNatTarget st' = new)
     \<and> (syn_psh d \<longrightarrow> out ! (ihl + 13) = d ! (ihl + 13) AND NOT 0x08)
     \<and> (d ! 9 = 6 \<and> (new \<noteq> dst \<or> syn_psh d) \<longrightarrow>
          pseudo_sum out (word_of_nat (6 + (length d - ihl))) \<bind> Csum16 out ihl (length d - ihl) = Some 0)"
proof -
  let ?L = "length d"
  have L: "20 \<le> ihl" "ihl + 8 \<le> ?L" "?L \<le> 1500" "rd16be d 2 = Some ?L"
    using assms(4,7) by (simp_all add: dgram_ok_def)
  have tcpL: "ihl + 20 \<le> ?L" if "d ! 9 = 6" using assms(4,7) that by (simp add: dgram_ok_def)
  have j: "length (ne_junk E 1600) = 1600" using assms(1) by (simp add: env_ok_def)
  have sum: "sum_list (map length pkt) = ?L" using assms(3) by (simp add: length_concat [symmetric])
  have "0 + sum_list (map length pkt) \<le> 1600" using sum L(3) by simp
  from gather_all [OF this j] obtain g where g: "gather pkt (ne_junk E 1600) 0 = Some (g, ?L)"
    "length g = 1600" "take ?L g = d" using sum assms(3) by auto
  have gd: "g ! k = d ! k" if "k < ?L" for k using g(3) that by (metis nth_take)
  have rb: "rd_block g k n = rd_block d k n" if "k + n \<le> ?L" for k n
    using take_rd_block [OF g(3) _ that] L(3) g(2) by simp
  have dst: "rd32le g 16 = Some dst" using rb [of 16 4] L assms(5) by (simp add: rd32le_def)
  define st1 where "st1 = st\<lparr>s_dwTxBytes := s_dwTxBytes st + word_of_nat ?L\<rparr>"
  define st2 where "st2 = snd (RedirectDest dst st1)"
  have new: "RedirectDest dst st1 = (new, st2)"
    using assms(6) by (simp add: st2_def st1_def RedirectDest_def split: if_splits)
  obtain a b where st2: "st2 = st1\<lparr>s_dwNatOrig := a, s_dwNatTarget := b\<rparr>"
    using RedirectDest_frame [of dst st1] by (auto simp: st2_def)
  have nat: "a = dst \<and> b = new" if "new \<noteq> dst"
    using RedirectDest_changed [OF new that] st2 by simp
  from tx_redirect_step [OF assms(4) g(3,2) assms(7), of new dst] obtain g1 where
    g1: "(if new \<noteq> dst then do { x \<leftarrow> wr_block g 16 (le32_bytes new); fix_checksums x } else Some g) = Some g1"
    and p1: "length g1 = 1600" "new = dst \<Longrightarrow> g1 = g"
      "new \<noteq> dst \<Longrightarrow> Csum16 g1 0 ihl 0 = Some 0 \<and> rd_block g1 16 4 = Some (le32_bytes new)
            \<and> rd_block g1 12 4 = rd_block g 12 4
            \<and> (d ! 9 = 6 \<longrightarrow> pseudo_sum g1 (word_of_nat (6 + (?L - ihl))) \<bind> Csum16 g1 ihl (?L - ihl) = Some 0)
            \<and> (\<forall>k < 10. g1 ! k = g ! k) \<and> (d ! 9 = 6 \<longrightarrow> g1 ! (ihl + 13) = g ! (ihl + 13))"
    by (auto simp: ok_def)
  have lo: "g1 ! k = d ! k" if "k < 10" for k
    using that p1(2,3) gd [of k] L by (cases "new = dst") auto
  have tot: "rd16be g1 2 = Some ?L" using lo [of 2] lo [of 3] L p1(1) by (simp add: rd16be_def rd8_def)
  then have tl: "tcp_len_ok g1" using p1(1) L by (simp add: tcp_len_ok_def)
  have sp: "syn_psh g1 = syn_psh d"
    using lo [of 0] lo [of 9] p1(2,3) gd [of "ihl + 13"] tcpL assms(7)
    by (cases "d ! 9 = 6"; cases "new = dst") (auto simp: syn_psh_def Let_def)
  have i16: "rd_block g1 16 4 = Some (le32_bytes new)" "rd_block g1 12 4 = rd_block d 12 4"
    using p1(2,3) rb [of 16 4] rb [of 12 4] L assms(5) by (cases "new = dst"; simp)+
  have ex: "\<exists>g2. tx_normalize_syn g1 = Some g2 \<and> length g2 = 1600 \<and> (\<not> syn_psh d \<longrightarrow> g2 = g1)
       \<and> (\<forall>j k. j + k \<le> ihl \<longrightarrow> rd_block g2 j k = rd_block g1 j k)
       \<and> (syn_psh d \<longrightarrow> g2 ! (ihl + 13) = g1 ! (ihl + 13) AND NOT 0x08
            \<and> pseudo_sum g2 (word_of_nat (6 + (?L - ihl))) \<bind> Csum16 g2 ihl (?L - ihl) = Some 0)"
  proof (cases "syn_psh d")
    case True
    then have t: "ihl + 20 \<le> ?L" using tcpL by (simp add: syn_psh_def)
    have "rd16be g1 2 = Some (ihl + (?L - ihl))" using tot t by simp
    moreover have "20 \<le> ?L - ihl" "ihl = ihl_of (g1 ! 0)" using t lo [of 0] assms(7) by simp_all
    ultimately show ?thesis using tx_syn_step [OF p1(1) tl _ L(1), of "?L - ihl"] sp by (auto simp: ok_def)
  next
    case False
    then show ?thesis using tx_normalize_syn_cases(1) [OF p1(1)] sp p1(1) by simp
  qed
  then obtain g2 where g2: "tx_normalize_syn g1 = Some g2" "length g2 = 1600" "\<not> syn_psh d \<longrightarrow> g2 = g1"
    "\<And>j k. j + k \<le> ihl \<Longrightarrow> rd_block g2 j k = rd_block g1 j k"
    "syn_psh d \<Longrightarrow> g2 ! (ihl + 13) = g1 ! (ihl + 13) AND NOT 0x08"
    "syn_psh d \<Longrightarrow> pseudo_sum g2 (word_of_nat (6 + (?L - ihl))) \<bind> Csum16 g2 ihl (?L - ihl) = Some 0" by auto
  define out where "out = take ?L g2"
  have lo': "length out = ?L" "length out \<le> 1500" using g2(2) L(3) by (simp_all add: out_def)
  have link: "s_pLink st2 \<noteq> LkNone" "length (s_abMac st2) = 6"
    using assms(2) st2 by (simp_all add: st1_def netif_inv_def)
  have hop: "next_hop new st2 = next_hop new st" "s_arp st2 = s_arp st"
    using st2 by (simp_all add: st1_def next_hop_def)
  define st3 where "st3 = (case ArpLookup (s_arp st) (next_hop new st) of
      Some mac \<Rightarrow> st2\<lparr>evs := evs st2 @ tx_evs st2 (mac @ s_abMac st2 @ [8, 0] @ out)\<rparr>
    | None \<Rightarrow> st2\<lparr>evs := evs st2 @ tx_evs st2 (arp_request_frame st2 (next_hop new st))\<rparr>)"
  have "OurTransmit E pkt st = Some (emit EvFreePacket st3)"
    using g(1) dst new g1 g2(1) hop EthSend_eq [OF link(1) lo'(2)] ArpRequest_eq [OF link]
    by (simp add: OurTransmit_def st1_def [symmetric] out_def st3_def ethertype_bytes split: option.splits)
  moreover have "evs (emit EvFreePacket st3) = evs st @ tx_final st (next_hop new st) out"
    using st2 by (simp add: st3_def emit_def tx_final_def tx_evs_def arp_request_frame_def st1_def split: option.splits)
  moreover have "s_dwNatOrig (emit EvFreePacket st3) = a" "s_dwNatTarget (emit EvFreePacket st3) = b"
    using st2 by (simp_all add: st3_def emit_def split: option.splits)
  moreover have "rd_block out k n = rd_block g2 k n" if "k + n \<le> ?L" for k n
    unfolding out_def by (rule rd_block_take) (use that g2(2) L(3) in simp_all)
  moreover have "rd_block g2 k n = rd_block g1 k n" if "k + n \<le> 20" for k n
    using g2(4) [of k n] that L(1) by simp
  ultimately have run: "OurTransmit E pkt st = Some (emit EvFreePacket st3)"
    "evs (emit EvFreePacket st3) = evs st @ tx_final st (next_hop new st) out"
    "rd_block out 16 4 = Some (le32_bytes new)" "rd_block out 12 4 = rd_block d 12 4"
    "new \<noteq> dst \<Longrightarrow> s_dwNatOrig (emit EvFreePacket st3) = dst \<and> s_dwNatTarget (emit EvFreePacket st3) = new"
    using i16 L nat by simp_all
  have same: "out = d" if "new = dst" "\<not> syn_psh d" using that p1(2) g2(3) g(3) by (simp add: out_def)
  have c: "Csum16 out k n s = Csum16 g2 k n s" "pseudo_sum out s = pseudo_sum g2 s" if "k + n \<le> ?L" for k n s
    using checks_take [of k n ?L g2 s] that L(1,2) L(3) g2(2) by (simp_all add: out_def)
  have ip: "Csum16 out 0 ihl 0 = Some 0" if "new \<noteq> dst"
  proof -
    have "Csum16 g2 0 ihl 0 = Csum16 g1 0 ihl 0" using g2(4) [of 0 ihl] by (simp add: Csum16_def)
    then show ?thesis using c(1) [of 0 ihl 0] p1(3) that L(2) by simp
  qed
  have fl: "out ! (ihl + 13) = d ! (ihl + 13) AND NOT 0x08" if "syn_psh d"
  proof -
    have t: "d ! 9 = 6" using that by (simp add: syn_psh_def)
    then have "g1 ! (ihl + 13) = d ! (ihl + 13)" using p1(2,3) gd [of "ihl + 13"] tcpL by (cases "new = dst") auto
    then show ?thesis using g2(5) that tcpL t by (simp add: out_def)
  qed
  have tcp: "pseudo_sum out (word_of_nat (6 + (?L - ihl))) \<bind> Csum16 out ihl (?L - ihl) = Some 0"
    if "d ! 9 = 6" "new \<noteq> dst \<or> syn_psh d"
  proof -
    have e: "Csum16 out ihl (?L - ihl) = Csum16 g2 ihl (?L - ihl)" "pseudo_sum out = pseudo_sum g2"
      using c [of ihl "?L - ihl"] L(2) by (auto simp: fun_eq_iff)
    show ?thesis
    proof (cases "syn_psh d")
      case True
      then show ?thesis unfolding e by (rule g2(6))
    next
      case False
      then show ?thesis unfolding e using that p1(3) g2(3) by simp
    qed
  qed
  show ?thesis
    using run same ip fl tcp lo'(1) by (intro exI [of _ "emit EvFreePacket st3"] exI [of _ out]) simp
qed

text \<open>
  C15: for a datagram of the stack, in however many buffers, \<open>OurTransmit\<close> sends exactly one
  frame and then frees the packet, once: an IPv4 frame to the cached address of the next
  hop (the destination on the own network, else the gateway), or an ARP request for that
  hop when there is none. The datagram is sent unchanged unless it goes to a redirected
  game master or is a SYN with PSH set.
\<close>

theorem OurTransmit_routes:
  assumes "env_ok E" and "netif_inv E st" and "concat pkt = d" and "dgram_ok d"
    and "dst = le32 (take 4 (drop 16 d))" and "new = fst (RedirectDest dst st)"
  shows "\<exists>st' out. OurTransmit E pkt st = Some st' \<and> length out = length d
     \<and> evs st' = evs st @ tx_final st (next_hop new st) out
     \<and> rd_block out 16 4 = Some (le32_bytes new) \<and> rd_block out 12 4 = rd_block d 12 4
     \<and> (new = dst \<and> \<not> syn_psh d \<longrightarrow> out = d)"
  using OurTransmit_run [OF assms(1-6) refl] by blast

text \<open>
  What the transmit path rewrites stays a valid packet. A datagram for a dead game
  master leaves for the revival master with a header checksum that verifies, and the pair
  is recorded; a pure SYN with PSH leaves with PSH cleared and the other flags kept; for
  TCP the transport checksum verifies after either change.
\<close>

theorem OurTransmit_rewrites:
  assumes "env_ok E" and "netif_inv E st" and "concat pkt = d" and "dgram_ok d"
    and "dst = le32 (take 4 (drop 16 d))" and "new = fst (RedirectDest dst st)" and "ihl = ihl_of (d ! 0)"
  shows "\<exists>st' out. OurTransmit E pkt st = Some st'
     \<and> evs st' = evs st @ tx_final st (next_hop new st) out
     \<and> (new \<noteq> dst \<longrightarrow> Csum16 out 0 ihl 0 = Some 0 \<and> rd_block out 16 4 = Some (le32_bytes new)
          \<and> s_dwNatOrig st' = dst \<and> s_dwNatTarget st' = new)
     \<and> (syn_psh d \<longrightarrow> out ! (ihl + 13) = d ! (ihl + 13) AND NOT 0x08)
     \<and> (d ! 9 = 6 \<and> (new \<noteq> dst \<or> syn_psh d) \<longrightarrow>
          pseudo_sum out (word_of_nat (6 + (length d - ihl))) \<bind> Csum16 out ihl (length d - ihl) = Some 0)"
  using OurTransmit_run [OF assms] by blast

section \<open>The way back\<close>

lemma rx_unnat_restores:
  assumes "env_ok E" and "length ip = 1586" and "20 \<le> n" and "n \<le> 1564" and "nat_fits ip n"
    and "s_dwNatTarget st \<noteq> 0" and "rd32le ip 12 = Some (s_dwNatTarget st)"
    and "ihl = ihl_of (ip ! 0)" and "20 \<le> ihl"
  shows "\<exists>ip'. rx_unnat E ip n st = Some ip' \<and> rd32le ip' 12 = Some (s_dwNatOrig st)
     \<and> rd_block ip' 16 4 = rd_block ip 16 4 \<and> rd_block ip' 0 10 = rd_block ip 0 10
     \<and> Csum16 ip' 0 ihl 0 = Some 0"
proof -
  have j: "length (ne_junk E 1600) = 1600" using assms(1) by (simp add: env_ok_def)
  obtain ip' where ip': "rx_unnat E ip n st = Some ip'"
    using rx_unnat_ok [OF assms(1,2,4)] assms(5) by (auto simp: ok_def)
  obtain d where d: "rd_block ip 0 n = Some d" using assms(2,4) by simp
  from ip' d assms(3,4,6,7) obtain m1 m2 where m1: "wr_block (ne_junk E 1600) 0 d = Some m1"
    and m2: "wr_block m1 12 (le32_bytes (s_dwNatOrig st)) = Some m2" and fx: "fix_checksums m2 = Some ip'"
    by (auto simp: rx_unnat_def bind_eq_Some_conv)
  have l2: "length m2 = 1600" using j length_wr_block [OF m1] length_wr_block [OF m2] by simp
  have same: "rd_block m2 k l = rd_block ip k l" if "k + l \<le> n" "k + l \<le> 12 \<or> 16 \<le> k" for k l
    using rd_block_wr_other [OF m2, of k l] rd_block_copied [OF d m1, of k l] that by simp
  have "rd_block m2 0 1 = rd_block ip 0 1" using assms(3) by (intro same) simp_all
  then have m0: "m2 ! 0 = ip ! 0" using l2 assms(2) by (simp add: take_Suc_conv_app_nth)
  have ihl: "ihl = ihl_of (m2 ! 0)" using assms(8) m0 by simp
  note v = fix_checksums_valid [OF fx ihl assms(9)]
  have sub: "rd_block ip' k 4 = rd_block m2 k 4" if "k = 12 \<or> k = 16" for k
  proof -
    have e: "take 8 (drop 12 ip') = take 8 (drop 12 m2)" using v(2,4) l2 by simp
    have "take 4 (drop (k - 12) (take 8 (drop 12 ip'))) = take 4 (drop (k - 12) (take 8 (drop 12 m2)))"
      using e by simp
    then have "take 4 (drop k ip') = take 4 (drop k m2)" using that by (auto simp: drop_take)
    then show ?thesis using v(4) l2 that by (auto simp: rd_block_def)
  qed
  have "rd32le ip' 12 = Some (s_dwNatOrig st)"
    using sub [of 12] rd_block_wr_block [OF m2, of 4] by (simp add: rd32le_def)
  moreover have "rd_block ip' 16 4 = rd_block ip 16 4" using sub [of 16] same [of 16 4] assms(3) by simp
  moreover have "rd_block ip' 0 10 = rd_block ip 0 10" using v(3) same [of 0 10] assms(3) by simp
  ultimately show ?thesis using ip' v(1) by blast
qed



section \<open>ARP requests\<close>

text \<open>
  An ARP request for the adapter's own address, once it has one, is answered with exactly
  one reply, to the asker, naming the adapter's hardware address; and the asker is known
  to the cache afterwards.
\<close>

theorem RxFrame_answers_arp:
  assumes "netif_inv E st" and "s_dwMyIP st \<noteq> 0"
    and "length dst = 6" and "length src = 6" and "length smac = 6" and "length sip = 4" and "length tmac = 6"
    and "buf = dst @ src @ [8, 6] @ [0, 1, 8, 0, 6, 4, 0, 1] @ smac @ sip @ tmac @ le32_bytes (s_dwMyIP st) @ rest"
    and "42 \<le> nLen"
  shows "\<exists>st'. RxFrame E buf nLen st = Some st'
     \<and> evs st' = evs st @ tx_evs st (src @ s_abMac st @ [8, 6] @ [0, 1, 8, 0, 6, 4, 0, 2]
          @ s_abMac st @ le32_bytes (s_dwMyIP st) @ smac @ sip)
     \<and> ArpLookup (s_arp st') (le32 sip) = Some smac"
proof -
  have d: "drop 6 buf = src @ [8, 6] @ [0, 1, 8, 0, 6, 4, 0, 1] @ smac @ sip @ tmac @ le32_bytes (s_dwMyIP st) @ rest"
    "drop 14 buf = [0, 1, 8, 0, 6, 4, 0, 1] @ smac @ sip @ tmac @ le32_bytes (s_dwMyIP st) @ rest"
    "drop 22 buf = smac @ sip @ tmac @ le32_bytes (s_dwMyIP st) @ rest"
    "drop 28 buf = sip @ tmac @ le32_bytes (s_dwMyIP st) @ rest"
    "drop 38 buf = le32_bytes (s_dwMyIP st) @ rest"
    using assms(3-8) by simp_all
  have l: "length buf = 42 + length rest" using assms(3-8) by simp
  have n: "buf ! 12 = 8" "buf ! 13 = 6" "buf ! 20 = 0" "buf ! 21 = 1"
    using arg_cong [OF d(1), of "\<lambda>z. z ! 6"] arg_cong [OF d(1), of "\<lambda>z. z ! 7"]
      arg_cong [OF d(2), of "\<lambda>z. z ! 6"] arg_cong [OF d(2), of "\<lambda>z. z ! 7"] l assms(4)
    by (simp_all add: nth_append)
  have r: "rd16be buf 12 = Some 0x0806" "rd8 buf 20 = Some 0" "rd8 buf 21 = Some 1"
    using n l by (simp_all add: rd16be_def rd8_def be16_def)
  have b: "rd_block buf 22 6 = Some smac" "rd_block buf 28 4 = Some sip"
    "rd_block buf 38 4 = Some (le32_bytes (s_dwMyIP st))"
    "rd_block buf 14 7 = Some [0, 1, 8, 0, 6, 4, 0]" "rd_block buf 6 6 = Some src"
    using d l assms(3-8) by (simp_all add: rd_block_def)
  have i: "rd32le buf 28 = Some (le32 sip)" "rd32le buf 38 = Some (s_dwMyIP st)"
    using b by (simp_all add: rd32le_def)
  define s1 where "s1 = st\<lparr>s_arp := ArpInsert (le32 sip) smac (s_arp st)\<rparr>"
  have s1: "s_pLink s1 \<noteq> LkNone" "s_dwMyIP s1 = s_dwMyIP st" "s_abMac s1 = s_abMac st" "evs s1 = evs st"
    "s_pLink s1 = s_pLink st" "length (s_abMac st) = 6" "arp_inv (s_arp st)"
    using assms(1) by (simp_all add: s1_def netif_inv_def arp_wf_def)
  have "ArpLookup (s_arp s1) (le32 sip) = Some smac"
    unfolding s1_def by (simp add: arp.lookup_upd_same [OF s1(7)])
  moreover have "RxFrame E buf nLen st = EthSend src 0x0806
       ([0, 1, 8, 0, 6, 4, 0] @ [2] @ s_abMac st @ le32_bytes (s_dwMyIP st) @ smac @ sip) s1"
    using assms(2,9) r i b s1 by (simp add: RxFrame_def rx_arp_def s1_def)
  ultimately show ?thesis
    using EthSend_eq [OF s1(1), of "[0, 1, 8, 0, 6, 4, 0] @ [2] @ s_abMac st @ le32_bytes (s_dwMyIP st) @ smac @ sip" src "0x0806"]
      s1 assms(5,6) by (simp add: tx_evs_def ethertype_bytes)
qed

section \<open>The lease\<close>

lemma NetifOnLease_configured:
  assumes "env_ok E" and "netif_inv E st" and "s_pIfn st = Some ifn" and "ifn_IPInterfaceConfigure ifn"
    and "\<not> s_bHaveIP st"
  shows "\<exists>st'. NetifOnLease E ip msk gw st = Some (True, st') \<and> s_bHaveIP st' \<and> s_dwMyIP st' = ip
     \<and> s_dwMask st' = msk \<and> s_dwGw st' = gw"
proof -
  from NetifOnLease_ok [OF assms(1,2), of ip msk gw] obtain r st' where
    r: "NetifOnLease E ip msk gw st = Some (r, st')" "r = s_bHaveIP st'"
      "r \<longrightarrow> s_dwMyIP st' = ip \<and> s_dwMask st' = msk \<and> s_dwGw st' = gw"
    using assms(5) by (auto simp: ok_def)
  moreover have r using r(1) assms(3-5) by (auto simp: NetifOnLease_def Let_def bind_eq_Some_conv)
  ultimately show ?thesis by simp
qed


section \<open>Bring-up\<close>

text \<open>The link that \<open>InterfaceInitialize\<close> settles on: the first adapter found, the null link
  when none is there and no dial driver loads, or when the bring-up fails.\<close>

definition chosen_link :: "hwenv \<Rightarrow> link" where
  "chosen_link H = (if hw_w5500_probe H then (if snd (hw_w5500_init H) then LkW5500 else LkNull)
     else if hw_bba_probe H then (if snd (hw_bba_init H) then LkBba else LkNull) else LkNull)"

definition delegates :: "hwenv \<Rightarrow> bool" where
  "delegates H \<longleftrightarrow> \<not> hw_w5500_probe H \<and> \<not> hw_bba_probe H \<and> hw_dial_load H"

text \<open>
  The first \<open>InterfaceInitialize\<close> delegates to the dial driver exactly when no adapter is
  found and that driver loads; otherwise it leaves the adapter in its invariant on the
  first link that comes up, with the null link as the last resort, and starts the worker
  exactly when the link is real.
\<close>

theorem InterfaceInitialize_first:
  assumes "env_ok E" and "reg_ready (ne_reg E) r"
    and "length (fst (hw_w5500_init H)) = 6" and "length (fst (hw_bba_init H)) = 6"
  shows "\<exists>res st'. InterfaceInitialize E H name True (netif_init r) = Some (res, st')
     \<and> (if delegates H then res = IfDelegated \<and> g_nUseDial st' \<and> evs st' = []
        else (\<exists>ifn. res = IfOk ifn \<and> s_pIfn st' = Some ifn) \<and> s_pLink st' = chosen_link H \<and> netif_inv E st'
          \<and> evs st' = (if chosen_link H = LkNull then [] else [EvStartWorker]))"
proof (cases "delegates H")
  case True
  then show ?thesis
    by (simp add: delegates_def InterfaceInitialize_def detect_link_def netif_init_def)
next
  case False
  define mac where "mac = (if chosen_link H = LkNull then NullInit
    else if chosen_link H = LkW5500 then fst (hw_w5500_init H) else fst (hw_bba_init H))"
  define s1 where "s1 = (netif_init r)\<lparr>s_bHwUp := True, s_pLink := chosen_link H, s_abMac := mac\<rparr>"
  have mac: "length mac = 6" using assms(3,4) by (simp add: mac_def NullInit_def)
  have up: "bring_up H ((detect_link H (netif_init r))\<lparr>s_bHwUp := True\<rparr>) = Some s1"
    using False
    by (cases "hw_w5500_init H"; cases "hw_bba_init H")
       (auto simp: bring_up_def detect_link_def netif_init_def s1_def mac_def chosen_link_def delegates_def
          NullInit_def)
  have ud: "\<not> g_nUseDial (detect_link H (netif_init r))"
    using False by (auto simp: detect_link_def netif_init_def delegates_def Let_def)
  have s1: "\<not> g_nUseDial s1" "s_pIfn s1 = None" "evs s1 = []" "regs s1 = r" "\<not> s_bHwUp (netif_init r)"
    "\<not> g_nUseDial (netif_init r)"
    by (simp_all add: s1_def netif_init_def)
  have link: "chosen_link H \<noteq> LkNone" by (simp add: chosen_link_def)
  define ifn where "ifn = \<lparr>ifn_szName = (case name of Some nm \<Rightarrow> take 15 nm | None \<Rightarrow> []), ifn_dwMTU = 1500,
                ifn_AllocatePacket = False, ifn_IPInput = False, ifn_IPInterfaceConfigure = False,
                ifn_dwFlags = 2\<rparr>"
  obtain s3 where s3: "ReadRevivalConfig E (s1\<lparr>s_pIfn := Some ifn\<rparr>) = Some s3"
    using ReadRevivalConfig_total [OF assms(1), of "s1\<lparr>s_pIfn := Some ifn\<rparr>"] assms(2) s1(4)
    by (auto simp: reg_ready_def)
  from ReadRevivalConfig_frame [OF s3] obtain d m where
    s3e: "s3 = s1\<lparr>s_pIfn := Some ifn, s_bRevivalRead := True, s_dwRevivalDns := d, s_dwRevivalMaster := m\<rparr>" by auto
  have inv: "netif_inv E s3" "netif_inv E (emit EvStartWorker s3)"
    using assms(2) mac link nd_inv_init [of r]
    by (simp_all add: s3e s1_def netif_inv_def netif_init_def nd_inv_def emit_def arp_wf_def arp_inv_init,
        simp_all add: arp_init_def)
  have "InterfaceInitialize E H name True (netif_init r) =
      Some (IfOk ifn, if s_pLink s3 \<noteq> LkNull then emit EvStartWorker s3 else s3)"
    using s1 ud up s3 by (simp add: InterfaceInitialize_def Let_def ifn_def)
  moreover have "s_pLink s3 = chosen_link H" "s_pIfn s3 = Some ifn" "evs s3 = []"
    "s_pLink (emit EvStartWorker s3) = chosen_link H" "s_pIfn (emit EvStartWorker s3) = Some ifn"
    "evs (emit EvStartWorker s3) = [EvStartWorker]"
    by (simp_all add: s3e s1_def netif_init_def emit_def)
  ultimately show ?thesis using False inv by (cases "chosen_link H = LkNull") simp_all
qed

section \<open>Witnesses\<close>

text \<open>An adapter on the W5500 with the stack attached, a revival master set, and nothing bound.\<close>

definition sample_ifn :: ifnet where
  "sample_ifn = \<lparr>ifn_szName = [], ifn_dwMTU = 1500, ifn_AllocatePacket = True, ifn_IPInput = True,
     ifn_IPInterfaceConfigure = True, ifn_dwFlags = 2\<rparr>"

definition sample_netif :: "mregistry netif" where
  "sample_netif = (netif_init sample_reg)\<lparr>s_pLink := LkW5500, s_pIfn := Some sample_ifn,
     s_dwRevivalMaster := DnsIp 1 2 3 4\<rparr>"

lemma sample_netif_inv: "netif_inv sample_env sample_netif"
  using sample_usable nd_inv_init [of sample_reg]
  by (simp add: netif_inv_def sample_netif_def netif_init_def nd_inv_def arp_wf_def arp_inv_init
      reg_ready_def sample_env_def, simp add: arp_init_def)

text \<open>A SYN with PSH set, 40 bytes, from 10.0.0.2 to the dead game master.\<close>

definition sample_syn :: "byte list" where
  "sample_syn = [0x45, 0, 0, 40, 0, 1, 0, 0, 64, 6, 0, 0, 10, 0, 0, 2, 0x3f, 0xfb, 0xf2, 0x83]
     @ [4, 0, 0, 80, 0, 0, 0, 1, 0, 0, 0, 0, 0x50, 0x0a, 16, 0, 0, 0, 0, 0]"

lemma sample_syn_ok: "dgram_ok sample_syn" "syn_psh sample_syn"
  by (simp_all add: dgram_ok_def sample_syn_def ihl_of_def rd16be_def rd8_def be16_def syn_psh_def)

lemma sample_redirect: "fst (RedirectDest AFO_ORIG_IP sample_netif) = DnsIp 1 2 3 4"
  by (simp add: RedirectDest_def sample_netif_def DnsIp_def)

lemma sample_dst: "AFO_ORIG_IP = le32 (take 4 (drop 16 sample_syn))"
  by (simp add: sample_syn_def AFO_ORIG_IP_def le32_def)

lemma RxFrame_safe_witness:
  "\<exists>st'. RxFrame sample_env (replicate 1600 0) 60 sample_netif = Some st' \<and> netif_inv sample_env st'"
proof -
  have "rx_fits sample_env (replicate 1600 0) 60 sample_netif"
    by (simp add: rx_fits_def sample_netif_def netif_init_def)
  from RxFrame_safe [OF sample_env_ok sample_netif_inv this] show ?thesis by blast
qed

lemma OurTransmit_routes_witness:
  "\<exists>st' out. OurTransmit sample_env [sample_syn] sample_netif = Some st' \<and> length out = 40
     \<and> rd_block out 16 4 = Some [1, 2, 3, 4]"
proof -
  have "le32_bytes (DnsIp 1 2 3 4) = [1, 2, 3, 4]" "length sample_syn = 40"
    by (simp_all add: DnsIp_eq sample_syn_def)
  with OurTransmit_routes [OF sample_env_ok sample_netif_inv _ sample_syn_ok(1) sample_dst
      sample_redirect [symmetric], of "[sample_syn]"] show ?thesis by fastforce
qed

lemma OurTransmit_rewrites_witness:
  "\<exists>st' out. OurTransmit sample_env [sample_syn] sample_netif = Some st'
     \<and> Csum16 out 0 20 0 = Some 0 \<and> out ! 33 = 0x02"
proof -
  have "20 = ihl_of (sample_syn ! 0)" "sample_syn ! 33 = 0x0a" "DnsIp 1 2 3 4 \<noteq> AFO_ORIG_IP"
    by (simp_all add: sample_syn_def ihl_of_def DnsIp_def AFO_ORIG_IP_def)
  with OurTransmit_rewrites [OF sample_env_ok sample_netif_inv _ sample_syn_ok(1) sample_dst
      sample_redirect [symmetric] this(1), of "[sample_syn]"] sample_syn_ok(2)
  show ?thesis by fastforce
qed


lemma RxFrame_answers_arp_witness:
  "\<exists>st'. RxFrame sample_env (replicate 6 255 @ [2, 0, 0, 0, 0, 9] @ [8, 6] @ [0, 1, 8, 0, 6, 4, 0, 1]
        @ [2, 0, 0, 0, 0, 9] @ [10, 0, 0, 9] @ replicate 6 0 @ le32_bytes (DnsIp 10 0 0 2) @ []) 42
        (sample_netif\<lparr>s_dwMyIP := DnsIp 10 0 0 2\<rparr>) = Some st' \<and> length (evs st') = 1"
proof -
  have i: "netif_inv sample_env (sample_netif\<lparr>s_dwMyIP := DnsIp 10 0 0 2\<rparr>)"
    using sample_netif_inv by (simp add: netif_inv_def nd_inv_def)
  have "DnsIp 10 0 0 2 \<noteq> 0" by (simp add: DnsIp_def)
  then show ?thesis
    using RxFrame_answers_arp [OF i, of "replicate 6 255" "[2, 0, 0, 0, 0, 9]" "[2, 0, 0, 0, 0, 9]" "[10, 0, 0, 9]"
        "replicate 6 0" _ "[]" 42]
    by (fastforce simp: tx_evs_def sample_netif_def netif_init_def)
qed


lemma InterfaceInitialize_first_witness:
  "\<exists>res st'. InterfaceInitialize sample_env \<lparr>hw_w5500_probe = False, hw_bba_probe = True, hw_dial_load = True,
        hw_w5500_init = ([0, 0, 0, 0, 0, 0], False), hw_bba_init = ([2, 0, 0, 0, 0, 1], True)\<rparr> None True
        (netif_init sample_reg) = Some (res, st') \<and> s_pLink st' = LkBba \<and> evs st' = [EvStartWorker]"
  using InterfaceInitialize_first [of sample_env sample_reg "\<lparr>hw_w5500_probe = False, hw_bba_probe = True,
        hw_dial_load = True, hw_w5500_init = ([0, 0, 0, 0, 0, 0], False), hw_bba_init = ([2, 0, 0, 0, 0, 1], True)\<rparr>" None]
    sample_env_ok sample_usable
  by (auto simp: delegates_def chosen_link_def reg_ready_def sample_env_def)

end
