(* ===== verification/Spi.thy ===== *)
theory Spi
  imports Prelude "HOL-Library.State_Monad"
begin

text \<open>
  The interface between the SPI transport \<open>drivers/dcspi/dcspi.c\<close> and its clients
  (\<open>net/netif/w5500.c\<close>, \<open>drivers/sdcard/sdblk.c\<close>): the functions the DLL exports as a
  record of state-monad operations over the device state, the contract \<open>spi_bus\<close> as a
  locale, and rules for relations that sequences of monadic steps preserve.
\<close>

unbundle bit_operations_syntax

abbreviation ret :: "'a \<Rightarrow> ('s, 'a) state" where
  "ret \<equiv> State_Monad.return"

definition when_st :: "bool \<Rightarrow> ('s, unit) state \<Rightarrow> ('s, unit) state" where
  "when_st c m = (if c then m else ret ())"

definition gets :: "('s \<Rightarrow> 'a) \<Rightarrow> ('s, 'a) state" where
  "gets f = State (\<lambda>s. (f s, s))"

definition modify :: "('s \<Rightarrow> 's) \<Rightarrow> ('s, unit) state" where
  "modify f = State (\<lambda>s. ((), f s))"

lemma run_basic [simp]:
  "run_state (when_st c m) s = (if c then run_state m s else ((), s))"
  "run_state (gets g) s = (g s, s)" "run_state (modify f) s = ((), f s)"
  by (simp_all add: when_st_def gets_def modify_def)

text \<open>What every step of a sequence keeps.\<close>

named_theorems keeping "operations that keep a relation between the states before and after"

lemma io_bind:
  assumes "reflp R" and "transp R" and "state_io_rel R m" and "\<And>x. state_io_rel R (f x)"
  shows "state_io_rel R (State_Monad.bind m f)"
proof
  fix a s s'
  assume "run_state (State_Monad.bind m f) s = (a, s')"
  then obtain x s1 where "run_state m s = (x, s1)" "run_state (f x) s1 = (a, s')"
    by (auto split: prod.splits)
  with assms show "R s s'" by (meson state_io_relD transpE)
qed

lemma io_return: "reflp R \<Longrightarrow> state_io_rel R (ret x)"
  by (auto simp: state_io_rel_def reflp_def)

lemma io_gets: "reflp R \<Longrightarrow> state_io_rel R (gets f)"
  by (auto simp: state_io_rel_def reflp_def)

lemma io_modify: "(\<And>s. R s (f s)) \<Longrightarrow> state_io_rel R (modify f)"
  by (auto simp: state_io_rel_def)

lemma io_when: "reflp R \<Longrightarrow> (c \<Longrightarrow> state_io_rel R m) \<Longrightarrow> state_io_rel R (when_st c m)"
  by (auto simp: state_io_rel_def reflp_def)

lemma io_if: "(c \<Longrightarrow> state_io_rel R m) \<Longrightarrow> (\<not> c \<Longrightarrow> state_io_rel R n) \<Longrightarrow> state_io_rel R (if c then m else n)"
  by simp

lemma io_snd: "state_io_rel R m \<Longrightarrow> R s (snd (run_state m s))"
  by (simp add: state_io_rel_def)

text \<open>Relations that say a function of the state keeps its value.\<close>

definition same :: "('s \<Rightarrow> 'a) \<Rightarrow> 's \<Rightarrow> 's \<Rightarrow> bool" where
  "same f s s' \<longleftrightarrow> f s' = f s"

lemma same_preorder [simp]: "reflp (same f)" "transp (same f)"
  by (auto simp: same_def reflp_def transp_def)

lemmas io_rules = io_bind [OF same_preorder] io_return [OF same_preorder(1)] io_gets [OF same_preorder(1)]
  io_when [OF same_preorder(1)] io_if

section \<open>The exported functions\<close>

record 'd spisvc =
  svc_init :: "int \<Rightarrow> int \<Rightarrow> ('d, int) state"
  svc_shutdown :: "int \<Rightarrow> ('d, unit) state"
  svc_setcs :: "int \<Rightarrow> bool \<Rightarrow> ('d, unit) state"
  svc_rw :: "int \<Rightarrow> byte list option \<Rightarrow> nat \<Rightarrow> ('d, byte list) state"
  svc_rwbyte :: "int \<Rightarrow> byte \<Rightarrow> ('d, byte) state"
  svc_settle :: "int \<Rightarrow> ('d, unit) state"

text \<open>
  What a client relies on: \<open>SpiSetCS\<close> drives the select line of its bus, no other call
  moves it, a transfer returns as many bytes as asked, and byte calls and block calls are
  the same transfer.
\<close>

locale spi_bus =
  fixes S :: "'d spisvc" and bus :: int and sel :: "'d \<Rightarrow> bool"
  assumes sel_setcs: "sel (snd (run_state (svc_setcs S bus b) d)) = b"
    and sel_rwbyte: "state_io_rel (same sel) (svc_rwbyte S bus x)"
    and sel_settle: "state_io_rel (same sel) (svc_settle S k)"
    and rw_Nil: "run_state (svc_rw S bus tx 0) d = ([], d)"
    and rw_Suc: "run_state (svc_rw S bus tx (Suc n)) d =
      (case run_state (svc_rwbyte S bus (case tx of None \<Rightarrow> 0xff | Some xs \<Rightarrow> hd xs)) d of (b, d') \<Rightarrow>
         case run_state (svc_rw S bus (map_option tl tx) n) d' of (bs, d'') \<Rightarrow> (b # bs, d''))"
begin

lemma length_rw: "length (fst (run_state (svc_rw S bus tx n) d)) = n"
  by (induction n arbitrary: tx d) (simp_all add: rw_Nil rw_Suc split: prod.splits, metis fst_conv)

lemma sel_rw: "state_io_rel (same sel) (svc_rw S bus tx n)"
proof (induction n arbitrary: tx)
  case 0
  show ?case by (simp add: state_io_rel_def rw_Nil same_def)
next
  case (Suc n)
  show ?case
    unfolding state_io_rel_def
  proof
    fix d
    obtain b d' where b: "run_state (svc_rwbyte S bus (case tx of None \<Rightarrow> 0xff | Some xs \<Rightarrow> hd xs)) d = (b, d')"
      by fastforce
    obtain bs d'' where bs: "run_state (svc_rw S bus (map_option tl tx) n) d' = (bs, d'')" by fastforce
    have "same sel d d'" using sel_rwbyte b by (auto dest: state_io_relD)
    moreover have "same sel d' d''" using Suc bs by (auto dest: state_io_relD)
    ultimately show "same sel d (snd (run_state (svc_rw S bus tx (Suc n)) d))"
      using b bs by (simp add: rw_Suc same_def)
  qed
qed

end

section \<open>A line that records what is sent and plays what the device answered\<close>

record spiline =
  ln_rx :: "byte list"
  ln_tx :: "byte list"
  ln_cs :: bool

definition line_rwbyte :: "byte \<Rightarrow> (spiline, byte) state" where
  "line_rwbyte b = State (\<lambda>d. case ln_rx d of
     [] \<Rightarrow> (0xff, d\<lparr>ln_tx := ln_tx d @ [b]\<rparr>) | x # xs \<Rightarrow> (x, d\<lparr>ln_rx := xs, ln_tx := ln_tx d @ [b]\<rparr>))"

primrec line_rw :: "nat \<Rightarrow> byte list option \<Rightarrow> (spiline, byte list) state" where
  "line_rw 0 t = ret []"
| "line_rw (Suc n) t = do {
     b \<leftarrow> line_rwbyte (case t of None \<Rightarrow> 0xff | Some xs \<Rightarrow> hd xs);
     bs \<leftarrow> line_rw n (map_option tl t);
     ret (b # bs) }"

definition line_svc :: "spiline spisvc" where
  "line_svc = \<lparr>svc_init = (\<lambda>_ _. ret 0), svc_shutdown = (\<lambda>_. ret ()),
     svc_setcs = (\<lambda>_ b. modify (\<lambda>d. d\<lparr>ln_cs := b\<rparr>)), svc_rw = (\<lambda>_ t n. line_rw n t),
     svc_rwbyte = (\<lambda>_ b. line_rwbyte b), svc_settle = (\<lambda>_. ret ())\<rparr>"

lemma line_rwbyte_sel: "state_io_rel (same ln_cs) (line_rwbyte b)"
  by (auto simp: state_io_rel_def line_rwbyte_def same_def split: list.splits)

interpretation line: spi_bus line_svc bus ln_cs
  by unfold_locales
    (simp_all add: line_svc_def line_rwbyte_sel io_return split: prod.splits)

end
