(* ===== verification/Dcspi.thy ===== *)
theory Dcspi
  imports Spi
begin

text \<open>
  The SPI transport \<open>drivers/dcspi/dcspi.c\<close>: the SCIF bit-banged bus, the SCI hardware bus
  and the exported functions. The hardware is a parameter: \<open>hw_rd\<close> and \<open>hw_wr\<close> are a load
  and a store of a register, with whatever the device makes of them. The record \<open>spi\<close> has
  one field per static variable, the mode \<open>SetKMode\<close> switches, and the device. Register
  accesses do not fault (the \<open>__except\<close> handlers do not run), \<open>Sleep\<close> and the spin of
  \<open>SpiSettle\<close> only take time.
\<close>

unbundle bit_operations_syntax

record 'h hw =
  hw_rd :: "u32 \<Rightarrow> 'h \<Rightarrow> u32 \<times> 'h"
  hw_wr :: "u32 \<Rightarrow> u32 \<Rightarrow> 'h \<Rightarrow> 'h"

record 'h spi =
  s_nScifUp :: bool
  s_nSciUp :: bool
  s_nSciCs :: int
  s_wScsptr2 :: u16
  s_wSavSmr :: u16
  s_wSavScr :: u16
  s_wSavFcr :: u16
  s_wSavPtr :: u16
  s_wSavLsr :: u16
  s_bSavBrr :: byte
  s_nScifSaved :: bool
  s_nSpiSettle :: int
  kmode :: bool
  dev :: 'h

section \<open>Registers\<close>

definition rd_reg :: "'h hw \<Rightarrow> u32 \<Rightarrow> ('h spi, u32) state" where
  "rd_reg H a = State (\<lambda>s. case hw_rd H a (dev s) of (v, h) \<Rightarrow> (v, s\<lparr>dev := h\<rparr>))"

definition wr_reg :: "'h hw \<Rightarrow> u32 \<Rightarrow> u32 \<Rightarrow> ('h spi, unit) state" where
  "wr_reg H a v = modify (\<lambda>s. s\<lparr>dev := hw_wr H a v (dev s)\<rparr>)"

definition R8 :: "'h hw \<Rightarrow> u32 \<Rightarrow> ('h spi, byte) state" where
  "R8 H a = do { v \<leftarrow> rd_reg H a; ret (ucast v) }"

definition R16 :: "'h hw \<Rightarrow> u32 \<Rightarrow> ('h spi, u16) state" where
  "R16 H a = do { v \<leftarrow> rd_reg H a; ret (ucast v) }"

abbreviation W8 :: "'h hw \<Rightarrow> u32 \<Rightarrow> byte \<Rightarrow> ('h spi, unit) state" where
  "W8 H a v \<equiv> wr_reg H a (ucast v)"

abbreviation W16 :: "'h hw \<Rightarrow> u32 \<Rightarrow> u16 \<Rightarrow> ('h spi, unit) state" where
  "W16 H a v \<equiv> wr_reg H a (ucast v)"

definition SCSMR2 :: u32 where "SCSMR2 = 0xFFE80000"
definition SCBRR2 :: u32 where "SCBRR2 = 0xFFE80004"
definition SCSCR2 :: u32 where "SCSCR2 = 0xFFE80008"
definition SCFSR2 :: u32 where "SCFSR2 = 0xFFE80010"
definition SCFCR2 :: u32 where "SCFCR2 = 0xFFE80018"
definition SCSPTR2 :: u32 where "SCSPTR2 = 0xFFE80020"
definition SCLSR2 :: u32 where "SCLSR2 = 0xFFE80024"
definition SYSMODE :: u32 where "SYSMODE = 0xA05F74B0"
definition SCSMR1 :: u32 where "SCSMR1 = 0xFFE00000"
definition SCBRR1 :: u32 where "SCBRR1 = 0xFFE00004"
definition SCSCR1 :: u32 where "SCSCR1 = 0xFFE00008"
definition SCTDR1 :: u32 where "SCTDR1 = 0xFFE0000C"
definition SCSSR1 :: u32 where "SCSSR1 = 0xFFE00010"
definition SCRDR1 :: u32 where "SCRDR1 = 0xFFE00014"
definition SCSPTR1 :: u32 where "SCSPTR1 = 0xFFE00018"
definition STBCR :: u32 where "STBCR = 0xFFC00004"
definition PCTRA :: u32 where "PCTRA = 0xFF80002C"
definition PDTRA :: u32 where "PDTRA = 0xFF800030"

lemmas reg_defs = SCSMR2_def SCBRR2_def SCSCR2_def SCFSR2_def SCFCR2_def SCSPTR2_def SCLSR2_def SYSMODE_def
  SCSMR1_def SCBRR1_def SCSCR1_def SCTDR1_def SCSSR1_def SCRDR1_def SCSPTR1_def STBCR_def PCTRA_def PDTRA_def

definition SCI_WAIT :: nat where "SCI_WAIT = 500000"

definition DCSPI_BUS_SCIF :: int where "DCSPI_BUS_SCIF = 0"
definition DCSPI_BUS_SCI :: int where "DCSPI_BUS_SCI = 1"
definition DCSPI_CS_RTS :: int where "DCSPI_CS_RTS = 0"
definition DCSPI_CS_GPIO :: int where "DCSPI_CS_GPIO = 1"
definition DCSPI_CS_AUTO :: int where "DCSPI_CS_AUTO = 2"

definition Bitrev8 :: "byte \<Rightarrow> byte" where
  "Bitrev8 b =
     (let b = drop_bit 4 (b AND 0xF0) OR push_bit 4 (b AND 0x0F);
          b = drop_bit 2 (b AND 0xCC) OR push_bit 2 (b AND 0x33)
      in drop_bit 1 (b AND 0xAA) OR push_bit 1 (b AND 0x55))"

section \<open>The bit-banged bus\<close>

definition ScifSaveConsole :: "'h hw \<Rightarrow> ('h spi, unit) state" where
  "ScifSaveConsole H = do {
     smr \<leftarrow> R16 H SCSMR2; modify (\<lambda>s. s\<lparr>s_wSavSmr := smr\<rparr>);
     brr \<leftarrow> R8 H SCBRR2; modify (\<lambda>s. s\<lparr>s_bSavBrr := brr\<rparr>);
     scr \<leftarrow> R16 H SCSCR2; modify (\<lambda>s. s\<lparr>s_wSavScr := scr\<rparr>);
     fcr \<leftarrow> R16 H SCFCR2; modify (\<lambda>s. s\<lparr>s_wSavFcr := fcr\<rparr>);
     ptr \<leftarrow> R16 H SCSPTR2; modify (\<lambda>s. s\<lparr>s_wSavPtr := ptr\<rparr>);
     lsr \<leftarrow> R16 H SCLSR2; modify (\<lambda>s. s\<lparr>s_wSavLsr := lsr\<rparr>);
     modify (\<lambda>s. s\<lparr>s_nScifSaved := True\<rparr>) }"

definition ScifRestoreConsole :: "'h hw \<Rightarrow> ('h spi, unit) state" where
  "ScifRestoreConsole H = do {
     s \<leftarrow> State_Monad.get;
     when_st (s_nScifSaved s) (do {
       W16 H SCSCR2 0;
       W16 H SCFCR2 0x06;
       W16 H SCFCR2 (s_wSavFcr s);
       W16 H SCSMR2 (s_wSavSmr s);
       W8 H SCBRR2 (s_bSavBrr s);
       W16 H SCSPTR2 (s_wSavPtr s);
       W16 H SCLSR2 (s_wSavLsr s);
       W16 H SCSCR2 (s_wSavScr s);
       modify (\<lambda>s. s\<lparr>s_nScifSaved := False\<rparr>) }) }"

definition ScifInitRaw :: "'h hw \<Rightarrow> ('h spi, unit) state" where
  "ScifInitRaw H = do {
     ScifSaveConsole H;
     W16 H SCSCR2 0;
     W16 H SCFCR2 0x06;
     W16 H SCFCR2 0;
     W16 H SCSMR2 0;
     W16 H SCFSR2 0;
     W16 H SCLSR2 0;
     modify (\<lambda>s. s\<lparr>s_wScsptr2 := 0x80 OR 0x40 OR 0x20 OR 0x02\<rparr>);
     w \<leftarrow> gets s_wScsptr2;
     W16 H SCSPTR2 w }"

definition ScifSetcsRaw :: "'h hw \<Rightarrow> bool \<Rightarrow> ('h spi, unit) state" where
  "ScifSetcsRaw H nActive = do {
     modify (\<lambda>s. s\<lparr>s_wScsptr2 := (if nActive then s_wScsptr2 s AND NOT 0x40 else s_wScsptr2 s OR 0x40)\<rparr>);
     w \<leftarrow> gets s_wScsptr2;
     W16 H SCSPTR2 w }"

definition SpiSetSettle :: "int \<Rightarrow> ('h spi, unit) state" where
  "SpiSetSettle n = modify (\<lambda>s. s\<lparr>s_nSpiSettle := (if n < 0 then 0 else n)\<rparr>)"

text \<open>The loop \<open>for (i = 7; i >= 0; i--)\<close>; the first argument counts the bits left.\<close>

primrec scif_bits :: "nat \<Rightarrow> 'h hw \<Rightarrow> u16 \<Rightarrow> byte \<Rightarrow> byte \<Rightarrow> ('h spi, byte) state" where
  "scif_bits 0 H wTmp b bRv = ret bRv"
| "scif_bits (Suc i) H wTmp b bRv =
     (let bBit = ucast (drop_bit i b AND 1) in do {
        W16 H SCSPTR2 (wTmp OR bBit);
        W16 H SCSPTR2 (wTmp OR bBit OR 0x10);
        v \<leftarrow> R16 H SCSPTR2;
        scif_bits i H wTmp b (push_bit 1 bRv OR ucast (v AND 0x01)) })"

definition ScifRwRaw :: "'h hw \<Rightarrow> byte \<Rightarrow> ('h spi, byte) state" where
  "ScifRwRaw H b = do {
     w \<leftarrow> gets s_wScsptr2;
     let wTmp = w AND NOT 0x10 AND NOT 0x01;
     bRv \<leftarrow> scif_bits 8 H wTmp b 0;
     W16 H SCSPTR2 wTmp;
     ret bRv }"

section \<open>The hardware bus\<close>

definition SciSetcsRaw :: "'h hw \<Rightarrow> bool \<Rightarrow> ('h spi, unit) state" where
  "SciSetcsRaw H nActive = do {
     c \<leftarrow> gets s_nSciCs;
     if c = DCSPI_CS_GPIO then do {
       v \<leftarrow> R16 H PDTRA;
       W16 H PDTRA (if nActive then v AND NOT 0x80 else v OR 0x80) }
     else do {
       v \<leftarrow> R16 H SCSPTR2;
       W16 H SCSPTR2 (if nActive then v AND NOT 0x40 else v OR 0x40) } }"

text \<open>
  The polls of \<open>SCSSR1\<close>. \<open>sci_init_wait n\<close> is the \<open>do ... while\<close> of the bring-up with \<open>n\<close> reads
  left; \<open>sci_tdre n\<close> and \<open>sci_rdrf n\<close> are the \<open>while\<close> loops of a transfer, which read once more
  than they count. They answer whether the flag came.
\<close>

primrec sci_init_wait :: "nat \<Rightarrow> 'h hw \<Rightarrow> ('h spi, bool) state" where
  "sci_init_wait 0 H = ret False"
| "sci_init_wait (Suc n) H = do {
     v \<leftarrow> R8 H SCSSR1;
     if v AND 0x80 \<noteq> 0 then ret True else sci_init_wait n H }"

primrec sci_tdre :: "nat \<Rightarrow> 'h hw \<Rightarrow> ('h spi, bool) state" where
  "sci_tdre 0 H = do { v \<leftarrow> R8 H SCSSR1; ret (v AND 0x80 \<noteq> 0) }"
| "sci_tdre (Suc n) H = do {
     v \<leftarrow> R8 H SCSSR1;
     if v AND 0x80 \<noteq> 0 then ret True else sci_tdre n H }"

definition sci_clear_orer :: "'h hw \<Rightarrow> ('h spi, unit) state" where
  "sci_clear_orer H = do {
     v \<leftarrow> R8 H SCSSR1;
     when_st (v AND 0x20 \<noteq> 0) (do { v \<leftarrow> R8 H SCSSR1; W8 H SCSSR1 (v AND NOT 0x20) }) }"

primrec sci_rdrf :: "nat \<Rightarrow> 'h hw \<Rightarrow> ('h spi, bool) state" where
  "sci_rdrf 0 H = do {
     v \<leftarrow> R8 H SCSSR1;
     if v AND 0x40 \<noteq> 0 then ret True else do { sci_clear_orer H; ret False } }"
| "sci_rdrf (Suc n) H = do {
     v \<leftarrow> R8 H SCSSR1;
     if v AND 0x40 \<noteq> 0 then ret True else do { sci_clear_orer H; sci_rdrf n H } }"

definition SciInitRaw :: "'h hw \<Rightarrow> int \<Rightarrow> ('h spi, int) state" where
  "SciInitRaw H nCsmode = do {
     v \<leftarrow> R8 H STBCR;
     when_st (v AND 0x01 \<noteq> 0) (do { v \<leftarrow> R8 H STBCR; W8 H STBCR (v AND NOT 0x01) });
     W8 H SCSCR1 0;
     W8 H SCSPTR1 0;
     nCsmode \<leftarrow> (if nCsmode = DCSPI_CS_AUTO then do {
         v \<leftarrow> rd_reg H SYSMODE;
         ret (if drop_bit 4 v AND 0x0F = 0 then DCSPI_CS_GPIO else DCSPI_CS_RTS) }
       else ret nCsmode);
     modify (\<lambda>s. s\<lparr>s_nSciCs := nCsmode\<rparr>);
     (if nCsmode = DCSPI_CS_GPIO then do {
       v \<leftarrow> rd_reg H PCTRA;
       wr_reg H PCTRA ((v AND NOT (push_bit 14 3)) OR push_bit 14 1);
       v \<leftarrow> R16 H PDTRA;
       W16 H PDTRA (v OR 0x80) }
     else do {
       v \<leftarrow> R16 H SCFCR2;
       W16 H SCFCR2 (v AND NOT 0x08);
       v \<leftarrow> R16 H SCSPTR2;
       W16 H SCSPTR2 (v OR (0x80 OR 0x40)) });
     W8 H SCSMR1 0x80;
     W8 H SCBRR1 1;
     v \<leftarrow> R8 H SCSSR1;
     W8 H SCSSR1 (v AND NOT (0x20 OR 0x10 OR 0x08));
     v \<leftarrow> R8 H SCSSR1;
     when_st (v AND 0x40 \<noteq> 0) (do { bD \<leftarrow> R8 H SCRDR1; ret () });
     W8 H SCSCR1 (0x20 OR 0x10);
     up \<leftarrow> sci_init_wait SCI_WAIT H;
     ret (if up then 0 else -1) }"

definition SciRwRaw :: "'h hw \<Rightarrow> byte \<Rightarrow> ('h spi, byte) state" where
  "SciRwRaw H b = do {
     t \<leftarrow> sci_tdre SCI_WAIT H;
     if \<not> t then ret 0xFF
     else do {
       W8 H SCTDR1 (Bitrev8 b);
       v \<leftarrow> R8 H SCSSR1;
       W8 H SCSSR1 (v AND NOT 0x80);
       r \<leftarrow> sci_rdrf SCI_WAIT H;
       if \<not> r then ret 0xFF
       else do {
         bV \<leftarrow> R8 H SCRDR1;
         v \<leftarrow> R8 H SCSSR1;
         W8 H SCSSR1 (v AND NOT 0x40);
         ret (Bitrev8 bV) } } }"

section \<open>The exported functions\<close>

text \<open>\<open>SetKMode\<close> answers the mode it replaces.\<close>

definition SetKMode :: "bool \<Rightarrow> ('h spi, bool) state" where
  "SetKMode b = do { p \<leftarrow> gets kmode; modify (\<lambda>s. s\<lparr>kmode := b\<rparr>); ret p }"

definition in_kmode :: "('h spi, 'a) state \<Rightarrow> ('h spi, 'a) state" where
  "in_kmode m = do { dwPrev \<leftarrow> SetKMode True; x \<leftarrow> m; _ \<leftarrow> SetKMode dwPrev; ret x }"

definition DcspiHwType :: "'h hw \<Rightarrow> ('h spi, int) state" where
  "DcspiHwType H = in_kmode (do { v \<leftarrow> rd_reg H SYSMODE; ret (uint (drop_bit 4 v AND 0x0F)) })"

definition SpiInit :: "'h hw \<Rightarrow> int \<Rightarrow> int \<Rightarrow> ('h spi, int) state" where
  "SpiInit H nBus nCsmode = in_kmode (
     if nBus = DCSPI_BUS_SCIF then do {
       ScifInitRaw H;
       modify (\<lambda>s. s\<lparr>s_nScifUp := True\<rparr>);
       ret 0 }
     else if nBus = DCSPI_BUS_SCI then do {
       nRc \<leftarrow> SciInitRaw H nCsmode;
       when_st (nRc = 0) (modify (\<lambda>s. s\<lparr>s_nSciUp := True\<rparr>));
       ret nRc }
     else ret (-1))"

definition SpiShutdown :: "'h hw \<Rightarrow> int \<Rightarrow> ('h spi, unit) state" where
  "SpiShutdown H nBus = in_kmode (do {
     up \<leftarrow> gets s_nSciUp;
     if nBus = DCSPI_BUS_SCI \<and> up then do {
       W8 H SCSCR1 0;
       v \<leftarrow> R8 H STBCR;
       W8 H STBCR (v OR 0x01);
       modify (\<lambda>s. s\<lparr>s_nSciUp := False\<rparr>) }
     else when_st (nBus = DCSPI_BUS_SCIF) (do {
       ScifRestoreConsole H;
       modify (\<lambda>s. s\<lparr>s_nScifUp := False\<rparr>) }) })"

definition SpiSetCS :: "'h hw \<Rightarrow> int \<Rightarrow> bool \<Rightarrow> ('h spi, unit) state" where
  "SpiSetCS H nBus nActive =
     in_kmode (if nBus = DCSPI_BUS_SCIF then ScifSetcsRaw H nActive else SciSetcsRaw H nActive)"

definition rw_raw :: "'h hw \<Rightarrow> int \<Rightarrow> byte \<Rightarrow> ('h spi, byte) state" where
  "rw_raw H nBus b = (if nBus = DCSPI_BUS_SCIF then ScifRwRaw H b else SciRwRaw H b)"

definition SpiRwByte :: "'h hw \<Rightarrow> int \<Rightarrow> byte \<Rightarrow> ('h spi, byte) state" where
  "SpiRwByte H nBus bTx = in_kmode (rw_raw H nBus bTx)"

primrec rw_loop :: "nat \<Rightarrow> 'h hw \<Rightarrow> int \<Rightarrow> byte list option \<Rightarrow> ('h spi, byte list) state" where
  "rw_loop 0 H nBus pbTx = ret []"
| "rw_loop (Suc n) H nBus pbTx = do {
     bR \<leftarrow> rw_raw H nBus (case pbTx of None \<Rightarrow> 0xFF | Some xs \<Rightarrow> hd xs);
     bRs \<leftarrow> rw_loop n H nBus (map_option tl pbTx);
     ret (bR # bRs) }"

definition SpiRwData :: "'h hw \<Rightarrow> int \<Rightarrow> byte list option \<Rightarrow> nat \<Rightarrow> ('h spi, byte list) state" where
  "SpiRwData H nBus pbTx nLen = in_kmode (rw_loop nLen H nBus pbTx)"

definition dcspi_svc :: "'h hw \<Rightarrow> 'h spi spisvc" where
  "dcspi_svc H = \<lparr>svc_init = SpiInit H, svc_shutdown = SpiShutdown H, svc_setcs = SpiSetCS H,
     svc_rw = SpiRwData H, svc_rwbyte = SpiRwByte H, svc_settle = SpiSetSettle\<rparr>"


section \<open>Bit order\<close>

text \<open>
  \<open>Bitrev8\<close> reverses the bits of a byte, so that applying it on both sides of the SCI's
  least-significant-first shift gives the most-significant-first order of SPI; it is its
  own inverse.
\<close>

theorem Bitrev8_reverses:
  "(\<forall>k < 8. bit (Bitrev8 b) k = bit b (7 - k)) \<and> Bitrev8 (Bitrev8 b) = b"
proof -
  have db: "bit (y * 2 :: byte) n \<longleftrightarrow> 0 < n \<and> n < 8 \<and> bit y (n - 1)" for y n
  proof -
    have "y * 2 = push_bit 1 y" by (simp add: push_bit_eq_mult)
    then show ?thesis by (auto simp only: bit_push_bit_iff possible_bit_word) simp_all
  qed
  have r: "bit (Bitrev8 x) k = bit x (7 - k)" if "k < 8" for x k
  proof -
    from that have "k = 0 \<or> k = 1 \<or> k = 2 \<or> k = 3 \<or> k = 4 \<or> k = 5 \<or> k = 6 \<or> k = 7" by arith
    then show ?thesis
      by (elim disjE) (simp_all add: Bitrev8_def Let_def bit_simps db)
  qed
  moreover have "Bitrev8 (Bitrev8 b) = b"
  proof (rule bit_word_eqI)
    fix k assume "k < LENGTH(8)"
    then show "bit (Bitrev8 (Bitrev8 b)) k \<longleftrightarrow> bit b k" using r [of k] r [of "7 - k"] by simp
  qed
  ultimately show ?thesis by blast
qed

section \<open>What the raw operations leave alone\<close>

lemma io_regs [keeping]:
  "state_io_rel (same kmode) (rd_reg H a)" "state_io_rel (same kmode) (wr_reg H a v)"
  "state_io_rel (same s_wScsptr2) (rd_reg H a)" "state_io_rel (same s_wScsptr2) (wr_reg H a v)"
  by (auto simp: state_io_rel_def same_def rd_reg_def wr_reg_def split: prod.splits)

lemma io_R [keeping]:
  "state_io_rel (same kmode) (R8 H a)" "state_io_rel (same kmode) (R16 H a)"
  "state_io_rel (same s_wScsptr2) (R8 H a)" "state_io_rel (same s_wScsptr2) (R16 H a)"
  by (auto simp: R8_def R16_def intro!: io_rules keeping)

lemma io_loops [keeping]:
  "state_io_rel (same kmode) (scif_bits n H w b v)" "state_io_rel (same s_wScsptr2) (scif_bits n H w b v)"
  "state_io_rel (same kmode) (sci_init_wait n H)"
  "state_io_rel (same kmode) (sci_tdre n H)" "state_io_rel (same kmode) (sci_rdrf n H)"
proof -
  show "state_io_rel (same kmode) (scif_bits n H w b v)" "state_io_rel (same s_wScsptr2) (scif_bits n H w b v)"
    by (induction n arbitrary: v) (auto simp: Let_def intro!: io_rules keeping)
  show "state_io_rel (same kmode) (sci_init_wait n H)" "state_io_rel (same kmode) (sci_tdre n H)"
    by (induction n) (auto intro!: io_rules keeping)
  show "state_io_rel (same kmode) (sci_rdrf n H)"
    by (induction n) (auto simp: sci_clear_orer_def intro!: io_rules keeping)
qed

lemma io_raw [keeping]:
  "state_io_rel (same kmode) (ScifRwRaw H b)" "state_io_rel (same s_wScsptr2) (ScifRwRaw H b)"
  "state_io_rel (same kmode) (SciRwRaw H b)" "state_io_rel (same kmode) (rw_raw H bus b)"
  "state_io_rel (same kmode) (SciInitRaw H c)" "state_io_rel (same kmode) (ScifInitRaw H)"
  "state_io_rel (same kmode) (ScifSetcsRaw H a)" "state_io_rel (same kmode) (SciSetcsRaw H a)"
  "state_io_rel (same kmode) (ScifRestoreConsole H)"
proof -
  have m: "state_io_rel (same kmode) (modify f)" if "\<And>s. kmode (f s) = kmode s"
    for f :: "'h spi \<Rightarrow> 'h spi"
    using that by (auto simp: state_io_rel_def same_def)
  have g: "state_io_rel (same kmode) State_Monad.get" by (auto simp: state_io_rel_def same_def)
  show 1: "state_io_rel (same kmode) (ScifRwRaw H b)" "state_io_rel (same s_wScsptr2) (ScifRwRaw H b)"
    by (auto simp: ScifRwRaw_def Let_def intro!: io_rules keeping)
  show 2: "state_io_rel (same kmode) (SciRwRaw H b)"
    by (auto simp: SciRwRaw_def Let_def intro!: io_rules keeping)
  show "state_io_rel (same kmode) (rw_raw H bus b)" using 1 2 by (simp add: rw_raw_def)
  show "state_io_rel (same kmode) (SciInitRaw H c)"
    unfolding SciInitRaw_def by (intro io_rules keeping m) simp
  show "state_io_rel (same kmode) (ScifInitRaw H)"
    unfolding ScifInitRaw_def ScifSaveConsole_def by (intro io_rules keeping m) simp_all
  show "state_io_rel (same kmode) (ScifSetcsRaw H a)" "state_io_rel (same kmode) (SciSetcsRaw H a)"
    unfolding ScifSetcsRaw_def SciSetcsRaw_def by (intro io_rules keeping m; simp)+
  show "state_io_rel (same kmode) (ScifRestoreConsole H)"
    unfolding ScifRestoreConsole_def by (intro io_rules keeping m g) simp_all
qed


lemma run_in_kmode:
  assumes "state_io_rel (same kmode) m"
  shows "run_state (in_kmode m) s =
    (case run_state m (s\<lparr>kmode := True\<rparr>) of (x, s') \<Rightarrow> (x, s'\<lparr>kmode := kmode s\<rparr>))"
  by (auto simp: in_kmode_def SetKMode_def split: prod.splits)

lemma kmode_in_kmode: "state_io_rel (same kmode) m \<Longrightarrow> kmode (snd (run_state (in_kmode m) s)) = kmode s"
  by (simp add: run_in_kmode split: prod.splits)

lemma io_kmode_modify: "(\<And>s. kmode (f s) = kmode s) \<Longrightarrow> state_io_rel (same kmode) (modify f)"
  by (auto simp: state_io_rel_def same_def)

lemma io_rw_loop [keeping]: "state_io_rel (same kmode) (rw_loop n H bus t)"
  by (induction n arbitrary: t) (auto intro!: io_rules keeping)

text \<open>
  Every exported function, on either bus, on success and on time-out, leaves the
  processor in the mode it was called in.
\<close>

theorem dcspi_kmode_restored:
  "kmode (snd (run_state (SpiInit H bus csm) s)) = kmode s
   \<and> kmode (snd (run_state (SpiShutdown H bus) s)) = kmode s
   \<and> kmode (snd (run_state (SpiSetCS H bus act) s)) = kmode s
   \<and> kmode (snd (run_state (SpiRwByte H bus b) s)) = kmode s
   \<and> kmode (snd (run_state (SpiRwData H bus tx n) s)) = kmode s
   \<and> kmode (snd (run_state (DcspiHwType H) s)) = kmode s"
proof (intro conjI)
  show "kmode (snd (run_state (SpiInit H bus csm) s)) = kmode s"
    unfolding SpiInit_def by (intro kmode_in_kmode io_rules keeping io_kmode_modify) simp_all
  show "kmode (snd (run_state (SpiShutdown H bus) s)) = kmode s"
    unfolding SpiShutdown_def by (intro kmode_in_kmode io_rules keeping io_kmode_modify) simp_all
  show "kmode (snd (run_state (SpiSetCS H bus act) s)) = kmode s"
    unfolding SpiSetCS_def by (intro kmode_in_kmode io_rules keeping)
  show "kmode (snd (run_state (SpiRwByte H bus b) s)) = kmode s"
    unfolding SpiRwByte_def by (intro kmode_in_kmode keeping)
  show "kmode (snd (run_state (SpiRwData H bus tx n) s)) = kmode s"
    unfolding SpiRwData_def by (intro kmode_in_kmode keeping)
  show "kmode (snd (run_state (DcspiHwType H) s)) = kmode s"
    unfolding DcspiHwType_def by (intro kmode_in_kmode io_rules keeping)
qed

section \<open>The contract of the bit-banged bus\<close>

definition scif_sel :: "'h spi \<Rightarrow> bool" where
  "scif_sel s \<longleftrightarrow> \<not> bit (s_wScsptr2 s) 6"

lemma run_SpiRwByte:
  "run_state (SpiRwByte H bus b) s =
    (case run_state (rw_raw H bus b) (s\<lparr>kmode := True\<rparr>) of (x, s') \<Rightarrow> (x, s'\<lparr>kmode := kmode s\<rparr>))"
  unfolding SpiRwByte_def by (rule run_in_kmode) (rule keeping)

lemma run_SpiRwData:
  "run_state (SpiRwData H bus t n) s =
    (case run_state (rw_loop n H bus t) (s\<lparr>kmode := True\<rparr>) of (x, s') \<Rightarrow> (x, s'\<lparr>kmode := kmode s\<rparr>))"
  unfolding SpiRwData_def by (rule run_in_kmode) (rule keeping)

lemma SpiRwData_Suc:
  "run_state (SpiRwData H bus t (Suc n)) d =
      (case run_state (SpiRwByte H bus (case t of None \<Rightarrow> 0xff | Some xs \<Rightarrow> hd xs)) d of (b, d') \<Rightarrow>
         case run_state (SpiRwData H bus (map_option tl t) n) d' of (bs, d'') \<Rightarrow> (b # bs, d''))"
proof -
  obtain b d1 where b: "run_state (rw_raw H bus (case t of None \<Rightarrow> 0xff | Some xs \<Rightarrow> hd xs)) (d\<lparr>kmode := True\<rparr>) = (b, d1)"
    by fastforce
  have "same kmode (d\<lparr>kmode := True\<rparr>) d1" using io_raw(4) b by (auto dest: state_io_relD)
  then have "d1\<lparr>kmode := kmode d, kmode := True\<rparr> = d1" by (simp add: same_def)
  then show ?thesis using b by (simp add: run_SpiRwByte run_SpiRwData split: prod.splits)
qed

interpretation scif: spi_bus "dcspi_svc H" DCSPI_BUS_SCIF scif_sel
proof unfold_locales
  show "scif_sel (snd (run_state (svc_setcs (dcspi_svc H) DCSPI_BUS_SCIF b) d)) = b" for b d
    by (auto simp: dcspi_svc_def SpiSetCS_def in_kmode_def SetKMode_def ScifSetcsRaw_def scif_sel_def wr_reg_def
        bit_simps split: prod.splits)
  have "s_wScsptr2 (snd (run_state (SpiRwByte H DCSPI_BUS_SCIF x) s)) = s_wScsptr2 s" for x s
    using io_snd [OF io_raw(2), of "s\<lparr>kmode := True\<rparr>" H x]
    by (auto simp: run_SpiRwByte rw_raw_def same_def split: prod.splits)
  then show "state_io_rel (same scif_sel) (svc_rwbyte (dcspi_svc H) DCSPI_BUS_SCIF x)" for x
    by (simp add: state_io_rel_def dcspi_svc_def same_def scif_sel_def)
  show "state_io_rel (same scif_sel) (svc_settle (dcspi_svc H) k)" for k
    by (auto simp: state_io_rel_def dcspi_svc_def same_def SpiSetSettle_def scif_sel_def)
  show "run_state (svc_rw (dcspi_svc H) DCSPI_BUS_SCIF tx 0) d = ([], d)" for tx d
    by (simp add: dcspi_svc_def run_SpiRwData)
  show "run_state (svc_rw (dcspi_svc H) DCSPI_BUS_SCIF t (Suc n)) d =
      (case run_state (svc_rwbyte (dcspi_svc H) DCSPI_BUS_SCIF (case t of None \<Rightarrow> 0xff | Some xs \<Rightarrow> hd xs)) d of (b, d') \<Rightarrow>
         case run_state (svc_rw (dcspi_svc H) DCSPI_BUS_SCIF (map_option tl t) n) d' of (bs, d'') \<Rightarrow> (b # bs, d''))"
    for t n d
    by (simp add: dcspi_svc_def SpiRwData_Suc)
qed

section \<open>The exchange with a peripheral in SPI mode 0\<close>

text \<open>
  A peripheral on the pins: it latches its input on the rising edge of the clock and moves
  to its next output bit on the falling edge. \<open>sl_in\<close> is what it has latched, \<open>sl_out\<close> what
  it still sends; its first bit is on the line.
\<close>

record slave =
  sl_sck :: bool
  sl_in :: "bool list"
  sl_out :: "bool list"
  sl_pins :: u32

definition mode0 :: "slave hw" where
  "mode0 = \<lparr>
     hw_rd = (\<lambda>a h. (if a = SCSPTR2
        then (sl_pins h AND NOT 1) OR (if sl_out h \<noteq> [] \<and> \<not> hd (sl_out h) then 0 else 1) else 0, h)),
     hw_wr = (\<lambda>a v h. if a \<noteq> SCSPTR2 then h
        else h\<lparr>sl_pins := v, sl_sck := bit v 4,
               sl_in := (if \<not> sl_sck h \<and> bit v 4 then sl_in h @ [bit v 0] else sl_in h),
               sl_out := (if sl_sck h \<and> \<not> bit v 4 then tl (sl_out h) else sl_out h)\<rparr>)\<rparr>"

definition msb_bits :: "byte \<Rightarrow> bool list" where
  "msb_bits b = map (bit b) (rev [0..<8])"

definition cur :: "slave \<Rightarrow> bool list" where
  "cur h = (if sl_sck h then tl (sl_out h) else sl_out h)"

abbreviation shift_in :: "byte \<Rightarrow> bool \<Rightarrow> byte" where
  "shift_in v c \<equiv> push_bit 1 v OR of_bool c"

lemma one_bit: "bit (ucast (drop_bit i b AND 1) :: 'a::len word) j \<longleftrightarrow> j = 0 \<and> bit (b :: byte) i" for i j
  by (auto simp: bit_simps)

lemma scif_bit_slave:
  fixes w :: u16 and b :: byte and i :: nat
  assumes "\<not> bit w 4" and "\<not> bit w 0" and "cur (dev s) = c # cs"
  defines "x \<equiv> (ucast (drop_bit i b AND 1) :: u16)"
  shows "\<exists>h r. run_state (do { W16 mode0 SCSPTR2 (w OR x); W16 mode0 SCSPTR2 (w OR x OR 0x10); R16 mode0 SCSPTR2 }) s
      = (r, s\<lparr>dev := h\<rparr>) \<and> r AND 1 = of_bool c
     \<and> sl_in h = sl_in (dev s) @ [bit b i] \<and> cur h = cs \<and> sl_sck h"
proof -
  have b: "bit (ucast (w OR x) :: u32) 4 = False" "bit (ucast (w OR x OR 0x10) :: u32) 4 = True"
    "bit (ucast (w OR x OR 0x10) :: u32) 0 = bit b i"
    using assms(1,2) by (simp_all add: x_def bit_simps one_bit)
  define h where "h = (dev s)\<lparr>sl_pins := ucast (w OR x OR 0x10), sl_sck := True,
     sl_in := sl_in (dev s) @ [bit b i], sl_out := c # cs\<rparr>"
  define r where "r = (ucast ((ucast (w OR x OR 0x10) AND NOT 1) OR (if c then 1 else 0) :: u32) :: u16)"
  have "r AND 1 = of_bool c" by (rule bit_word_eqI) (auto simp: r_def bit_simps)
  moreover have "run_state (do { W16 mode0 SCSPTR2 (w OR x); W16 mode0 SCSPTR2 (w OR x OR 0x10); R16 mode0 SCSPTR2 }) s
      = (r, s\<lparr>dev := h\<rparr>)"
    using assms(3) b unfolding h_def r_def
    by (cases "sl_sck (dev s)"; cases "bit b i")
       (simp_all add: wr_reg_def R16_def rd_reg_def mode0_def cur_def)
  ultimately show ?thesis by (intro exI [of _ h] exI [of _ r]) (simp add: h_def cur_def)
qed

lemma scif_bits_step:
  "run_state (scif_bits (Suc i) H w b v) s =
    (case run_state (do { W16 H SCSPTR2 (w OR ucast (drop_bit i b AND 1));
            W16 H SCSPTR2 (w OR ucast (drop_bit i b AND 1) OR 0x10); R16 H SCSPTR2 }) s of
       (r, s') \<Rightarrow> run_state (scif_bits i H w b (push_bit 1 v OR ucast (r AND 1))) s')"
  by (simp add: Let_def split: prod.splits)

declare scif_bits.simps(2) [simp del]

lemma scif_bits_slave:
  fixes w :: u16
  assumes "\<not> bit w 4" and "\<not> bit w 0"
  shows "cur (dev s) = c @ rest \<Longrightarrow> length c = n \<Longrightarrow>
    \<exists>h. run_state (scif_bits n mode0 w b v) s = (foldl shift_in v c, s\<lparr>dev := h\<rparr>)
      \<and> sl_in h = sl_in (dev s) @ map (bit b) (rev [0..<n]) \<and> cur h = rest \<and> (if n = 0 then h = dev s else sl_sck h)"
proof (induction n arbitrary: c s v)
  case 0
  then show ?case by (intro exI [of _ "dev s"]) simp
next
  case (Suc n)
  then obtain c0 cs where c: "c = c0 # cs" "length cs = n" by (cases c) auto
  with Suc.prems have "cur (dev s) = c0 # (cs @ rest)" by simp
  from scif_bit_slave [OF assms this, of n b] obtain h r where
    1: "run_state (do { W16 mode0 SCSPTR2 (w OR ucast (drop_bit n b AND 1));
            W16 mode0 SCSPTR2 (w OR ucast (drop_bit n b AND 1) OR 0x10); R16 mode0 SCSPTR2 }) s
      = (r, s\<lparr>dev := h\<rparr>)" "r AND 1 = of_bool c0" "sl_in h = sl_in (dev s) @ [bit b n]" "cur h = cs @ rest" "sl_sck h"
    by blast
  have "cur (dev (s\<lparr>dev := h\<rparr>)) = cs @ rest" using 1(4) by simp
  from Suc.IH [OF this c(2), of "shift_in v c0"] obtain h' where
    2: "run_state (scif_bits n mode0 w b (shift_in v c0)) (s\<lparr>dev := h\<rparr>) = (foldl shift_in (shift_in v c0) cs, s\<lparr>dev := h'\<rparr>)"
      "sl_in h' = sl_in h @ map (bit b) (rev [0..<n])" "cur h' = rest" "if n = 0 then h' = h else sl_sck h'"
    by auto
  have "sl_sck h'" using 2(4) 1(5) by (simp split: if_splits)
  moreover have "(ucast (of_bool c0 :: u16) :: byte) = of_bool c0" by simp
  ultimately show ?case
    using 1 2 c by (intro exI [of _ h']) (simp add: scif_bits_step)
qed

lemma msb_bits_eq:
  "msb_bits b = [bit b 7, bit b 6, bit b 5, bit b 4, bit b 3, bit b 2, bit b 1, bit b 0]"
  by (simp add: msb_bits_def eval_nat_numeral)

lemma bit_shift_in: "bit (shift_in v c) n \<longleftrightarrow> n < 8 \<and> (if n = 0 then c else bit v (n - 1))"
  by (cases n) (auto simp only: bit_or_iff bit_push_bit_iff possible_bit_word bit_of_bool_iff, auto)

lemma fold_msb_bits: "foldl shift_in 0 (msb_bits m) = m"
proof (rule bit_word_eqI)
  fix n assume "n < LENGTH(8)"
  then have "n = 0 \<or> n = 1 \<or> n = 2 \<or> n = 3 \<or> n = 4 \<or> n = 5 \<or> n = 6 \<or> n = 7" by auto
  then show "bit (foldl shift_in 0 (msb_bits m)) n \<longleftrightarrow> bit m n"
    by (elim disjE) (simp_all add: msb_bits_eq bit_shift_in del: push_bit_of_1)
qed


lemma ScifRwRaw_slave:
  assumes "\<not> sl_sck (dev s)" and "sl_out (dev s) = msb_bits m @ rest"
  shows "\<exists>h. run_state (ScifRwRaw mode0 b) s = (m, s\<lparr>dev := h\<rparr>)
     \<and> sl_in h = sl_in (dev s) @ msb_bits b \<and> \<not> sl_sck h \<and> sl_out h = rest"
proof -
  define w where "w = s_wScsptr2 s AND NOT 0x10 AND NOT 0x01"
  have w: "\<not> bit w 4" "\<not> bit w 0" by (simp_all add: w_def bit_simps)
  have "cur (dev s) = msb_bits m @ rest" using assms by (simp add: cur_def)
  moreover have "length (msb_bits m) = 8" by (simp add: msb_bits_def)
  ultimately obtain h where
    h: "run_state (scif_bits 8 mode0 w b 0) s = (m, s\<lparr>dev := h\<rparr>)" "sl_in h = sl_in (dev s) @ msb_bits b"
      "cur h = rest" "sl_sck h"
    using scif_bits_slave [OF w, of s "msb_bits m" rest 8 b 0]
    unfolding fold_msb_bits msb_bits_def [symmetric] by auto
  have "\<not> bit (ucast w :: u32) 4" using w by (simp add: bit_simps)
  moreover have "run_state (ScifRwRaw mode0 b) s = (case run_state (scif_bits 8 mode0 w b 0) s of
      (r, s') \<Rightarrow> (r, s'\<lparr>dev := hw_wr mode0 SCSPTR2 (ucast w) (dev s')\<rparr>))"
    unfolding w_def by (simp add: ScifRwRaw_def wr_reg_def Let_def split: prod.splits)
  ultimately show ?thesis
    using h by (intro exI [of _ "hw_wr mode0 SCSPTR2 (ucast w) h"]) (simp add: mode0_def cur_def)
qed

lemma rw_loop_slave:
  "\<not> sl_sck (dev s) \<Longrightarrow> sl_out (dev s) = concat (map msb_bits ms) @ rest \<Longrightarrow> length ts = length ms \<Longrightarrow>
   \<exists>h. run_state (rw_loop (length ms) mode0 DCSPI_BUS_SCIF (Some ts)) s = (ms, s\<lparr>dev := h\<rparr>)
     \<and> sl_in h = sl_in (dev s) @ concat (map msb_bits ts) \<and> \<not> sl_sck h \<and> sl_out h = rest"
proof (induction ms arbitrary: ts s)
  case Nil
  then show ?case by (intro exI [of _ "dev s"]) simp
next
  case (Cons m ms)
  then obtain t0 ts' where ts: "ts = t0 # ts'" "length ts' = length ms" by (cases ts) auto
  have "sl_out (dev s) = msb_bits m @ (concat (map msb_bits ms) @ rest)" using Cons.prems(2) by simp
  from ScifRwRaw_slave [OF Cons.prems(1) this, of t0] obtain h where
    1: "run_state (ScifRwRaw mode0 t0) s = (m, s\<lparr>dev := h\<rparr>)" "sl_in h = sl_in (dev s) @ msb_bits t0"
      "\<not> sl_sck h" "sl_out h = concat (map msb_bits ms) @ rest" by blast
  from 1(3,4) ts(2) Cons.IH [of "s\<lparr>dev := h\<rparr>" ts'] obtain h' where
    "run_state (rw_loop (length ms) mode0 DCSPI_BUS_SCIF (Some ts')) (s\<lparr>dev := h\<rparr>) = (ms, s\<lparr>dev := h'\<rparr>)"
      "sl_in h' = sl_in h @ concat (map msb_bits ts')" "\<not> sl_sck h'" "sl_out h' = rest" by auto
  with 1 ts show ?case by (simp add: rw_raw_def DCSPI_BUS_SCIF_def) blast
qed

text \<open>
  Against a peripheral in SPI mode 0 whose clock idles low, the bit-banged block transfer
  is a full-duplex exchange: the caller gets the peripheral's bytes, the peripheral the
  caller's, both most significant bit first, and the clock is left low.
\<close>

theorem SpiRwData_exchange:
  assumes "\<not> sl_sck (dev s)" and "sl_out (dev s) = concat (map msb_bits ms)" and "length ts = length ms"
  shows "\<exists>h. run_state (SpiRwData mode0 DCSPI_BUS_SCIF (Some ts) (length ms)) s = (ms, s\<lparr>dev := h\<rparr>)
     \<and> sl_in h = sl_in (dev s) @ concat (map msb_bits ts) \<and> \<not> sl_sck h \<and> sl_out h = []"
proof -
  have "\<not> sl_sck (dev (s\<lparr>kmode := True\<rparr>))" "sl_out (dev (s\<lparr>kmode := True\<rparr>)) = concat (map msb_bits ms) @ []"
    using assms by simp_all
  from rw_loop_slave [OF this assms(3)] obtain h where
    "run_state (rw_loop (length ms) mode0 DCSPI_BUS_SCIF (Some ts)) (s\<lparr>kmode := True\<rparr>) = (ms, s\<lparr>kmode := True, dev := h\<rparr>)"
    "sl_in h = sl_in (dev s) @ concat (map msb_bits ts)" "\<not> sl_sck h" "sl_out h = []" by auto
  then show ?thesis by (intro exI [of _ h]) (simp add: run_SpiRwData)
qed

section \<open>The console behind the bus\<close>

definition regfile :: "(u32 \<Rightarrow> u32) hw" where
  "regfile = \<lparr>hw_rd = (\<lambda>a h. (h a, h)), hw_wr = (\<lambda>a v h. h(a := v))\<rparr>"

definition uart_regs :: "u32 set" where
  "uart_regs = {SCSMR2, SCBRR2, SCSCR2, SCFCR2, SCSPTR2, SCLSR2}"

lemma run_SpiInit_scif:
  "run_state (SpiInit regfile DCSPI_BUS_SCIF c) s = (0, s\<lparr>s_wSavSmr := ucast (dev s SCSMR2),
     s_bSavBrr := ucast (dev s SCBRR2), s_wSavScr := ucast (dev s SCSCR2), s_wSavFcr := ucast (dev s SCFCR2),
     s_wSavPtr := ucast (dev s SCSPTR2), s_wSavLsr := ucast (dev s SCLSR2), s_nScifSaved := True,
     s_wScsptr2 := 0xE2, s_nScifUp := True,
     dev := (dev s)(SCSCR2 := 0, SCFCR2 := 0, SCSMR2 := 0, SCFSR2 := 0, SCLSR2 := 0, SCSPTR2 := 0xE2)\<rparr>)"
  by (simp add: SpiInit_def in_kmode_def SetKMode_def ScifInitRaw_def ScifSaveConsole_def R16_def R8_def rd_reg_def
      wr_reg_def regfile_def)

lemma run_SpiShutdown_scif:
  "s_nScifSaved s \<Longrightarrow> run_state (SpiShutdown regfile DCSPI_BUS_SCIF) s = ((), s\<lparr>s_nScifSaved := False, s_nScifUp := False,
     dev := (dev s)(SCSCR2 := 0, SCFCR2 := ucast (s_wSavFcr s), SCSMR2 := ucast (s_wSavSmr s),
        SCBRR2 := ucast (s_bSavBrr s), SCSPTR2 := ucast (s_wSavPtr s), SCLSR2 := ucast (s_wSavLsr s),
        SCSCR2 := ucast (s_wSavScr s))\<rparr>)"
  by (simp add: SpiShutdown_def in_kmode_def SetKMode_def ScifRestoreConsole_def wr_reg_def regfile_def
      DCSPI_BUS_SCIF_def DCSPI_BUS_SCI_def)

lemma ucast_fit:
  "v < 0x10000 \<Longrightarrow> (ucast (ucast (v :: u32) :: u16) :: u32) = v"
  "v < 0x100 \<Longrightarrow> (ucast (ucast (v :: u32) :: byte) :: u32) = v"
proof -
  show "(ucast (ucast v :: u16) :: u32) = v" if "v < 0x10000"
    by (rule word_unat_eq_iff [THEN iffD2])
       (use that in \<open>simp add: unsigned_ucast_eq unsigned_take_bit_eq take_bit_nat_eq_self word_less_nat_alt\<close>)
  show "(ucast (ucast v :: byte) :: u32) = v" if "v < 0x100"
    by (rule word_unat_eq_iff [THEN iffD2])
       (use that in \<open>simp add: unsigned_ucast_eq unsigned_take_bit_eq take_bit_nat_eq_self word_less_nat_alt\<close>)
qed

text \<open>
  C39: bringing the SCIF up and shutting it down again gives the debug console its registers
  back; but bringing it up twice before (as the W5500 probe and the SD driver together do)
  saves the SPI settings over the console's, and the shutdown then leaves the serial port
  stopped.
\<close>

theorem scif_console_restored:
  assumes "\<forall>a \<in> uart_regs. dev s a < (if a = SCBRR2 then 0x100 else 0x10000)"
  shows "(\<forall>a \<in> uart_regs.
       dev (snd (run_state (do { SpiInit regfile DCSPI_BUS_SCIF c; SpiShutdown regfile DCSPI_BUS_SCIF }) s)) a = dev s a)
   \<and> dev (snd (run_state (do { SpiInit regfile DCSPI_BUS_SCIF c; SpiInit regfile DCSPI_BUS_SCIF c';
       SpiShutdown regfile DCSPI_BUS_SCIF }) s)) SCSCR2 = 0"
  using assms
  by (simp add: run_SpiInit_scif run_SpiShutdown_scif uart_regs_def ucast_fit reg_defs)


section \<open>Witnesses\<close>

definition spi_init :: "'h \<Rightarrow> 'h spi" where
  "spi_init h = \<lparr>s_nScifUp = False, s_nSciUp = False, s_nSciCs = 0, s_wScsptr2 = 0, s_wSavSmr = 0,
     s_wSavScr = 0, s_wSavFcr = 0, s_wSavPtr = 0, s_wSavLsr = 0, s_bSavBrr = 0, s_nScifSaved = False,
     s_nSpiSettle = 32, kmode = False, dev = h\<rparr>"

lemma SpiRwData_exchange_witness:
  "\<exists>h. run_state (SpiRwData mode0 DCSPI_BUS_SCIF (Some [0x40, 0x95]) 2)
        (spi_init \<lparr>sl_sck = False, sl_in = [], sl_out = concat (map msb_bits [0xff, 0x01]), sl_pins = 0\<rparr>)
      = ([0xff, 0x01], (spi_init \<lparr>sl_sck = False, sl_in = [], sl_out = concat (map msb_bits [0xff, 0x01]), sl_pins = 0\<rparr>)\<lparr>dev := h\<rparr>)
     \<and> sl_in h = msb_bits 0x40 @ msb_bits 0x95"
  using SpiRwData_exchange [of "spi_init \<lparr>sl_sck = False, sl_in = [],
     sl_out = concat (map msb_bits [0xff, 0x01]), sl_pins = 0\<rparr>" "[0xff, 0x01]" "[0x40, 0x95]"]
  by (auto simp: spi_init_def numeral_2_eq_2)

lemma scif_console_restored_witness:
  "dev (snd (run_state (do { SpiInit regfile DCSPI_BUS_SCIF 0; SpiShutdown regfile DCSPI_BUS_SCIF })
       (spi_init (\<lambda>a. 0x70)))) SCSCR2 = 0x70
   \<and> dev (snd (run_state (do { SpiInit regfile DCSPI_BUS_SCIF 0; SpiInit regfile DCSPI_BUS_SCIF 0;
       SpiShutdown regfile DCSPI_BUS_SCIF }) (spi_init (\<lambda>a. 0x70)))) SCSCR2 = 0"
  using scif_console_restored [of "spi_init (\<lambda>a. 0x70)" 0 0] by (simp add: spi_init_def uart_regs_def)

end
