(* ===== verification/W5500.thy ===== *)
theory W5500
  imports NetDns Dcspi
begin

text \<open>
  The W5500 link of \<open>net/netif/w5500.c\<close>: register access over SPI, probe, bring-up, transmit
  and receive. The transport is a \<open>spisvc\<close>; \<open>w5_lock\<close> is how often this thread holds the
  critical section \<open>s_w5cs\<close>. The counters that only throttle log output are left out, and
  so is the log. An \<open>int\<close> result is as in the code; a frame received comes with its bytes.
\<close>

unbundle bit_operations_syntax

record 'd w5 =
  w5_nInit :: bool
  w5_pInit :: bool
  w5_pShutdown :: bool
  w5_pSetCS :: bool
  w5_pRw :: bool
  w5_pHwType :: bool
  w5_bus :: int
  w5_cs :: int
  w5_lock :: nat
  w5_dev :: 'd

text \<open>Whether the library loads and which of its entry points resolve.\<close>

record w5dll =
  dl_load :: bool
  dl_init :: bool
  dl_shutdown :: bool
  dl_setcs :: bool
  dl_rw :: bool
  dl_hwtype :: bool

definition on_dev :: "('d, 'a) state \<Rightarrow> ('d w5, 'a) state" where
  "on_dev m = State (\<lambda>s. case run_state m (w5_dev s) of (x, d) \<Rightarrow> (x, s\<lparr>w5_dev := d\<rparr>))"

definition W5LOCK :: "('d w5, unit) state" where
  "W5LOCK = modify (\<lambda>s. s\<lparr>w5_lock := w5_lock s + 1\<rparr>)"

definition W5UNLOCK :: "('d w5, unit) state" where
  "W5UNLOCK = modify (\<lambda>s. s\<lparr>w5_lock := w5_lock s - 1\<rparr>)"

definition LoadDcspi :: "w5dll \<Rightarrow> ('d w5, bool) state" where
  "LoadDcspi L = do {
     modify (\<lambda>s. s\<lparr>w5_nInit := True\<rparr>);
     p \<leftarrow> gets w5_pInit;
     if p then ret True
     else if \<not> dl_load L then ret False
     else do {
       modify (\<lambda>s. s\<lparr>w5_pInit := dl_init L, w5_pShutdown := dl_shutdown L, w5_pSetCS := dl_setcs L,
                     w5_pRw := dl_rw L, w5_pHwType := dl_hwtype L\<rparr>);
       gets (\<lambda>s. w5_pInit s \<and> w5_pSetCS s \<and> w5_pRw s) } }"

section \<open>Register access\<close>

definition CTRL :: "byte \<Rightarrow> bool \<Rightarrow> byte" where
  "CTRL bsb wr = push_bit 3 bsb OR (if wr then 0x04 else 0x00)"

definition W5Write :: "'d spisvc \<Rightarrow> byte \<Rightarrow> u16 \<Rightarrow> byte list \<Rightarrow> ('d w5, unit) state" where
  "W5Write S bsb addr pbData = do {
     bus \<leftarrow> gets w5_bus;
     W5LOCK;
     on_dev (svc_setcs S bus True);
     _ \<leftarrow> on_dev (svc_rw S bus (Some [ucast (drop_bit 8 addr), ucast addr, CTRL bsb True]) 3);
     _ \<leftarrow> (if pbData \<noteq> [] then on_dev (svc_rw S bus (Some pbData) (length pbData)) else ret []);
     on_dev (svc_setcs S bus False);
     W5UNLOCK }"

definition W5Read :: "'d spisvc \<Rightarrow> byte \<Rightarrow> u16 \<Rightarrow> nat \<Rightarrow> ('d w5, byte list) state" where
  "W5Read S bsb addr nLen = do {
     bus \<leftarrow> gets w5_bus;
     W5LOCK;
     on_dev (svc_setcs S bus True);
     _ \<leftarrow> on_dev (svc_rw S bus (Some [ucast (drop_bit 8 addr), ucast addr, CTRL bsb False]) 3);
     bs \<leftarrow> (if nLen \<noteq> 0 then on_dev (svc_rw S bus None nLen) else ret []);
     on_dev (svc_setcs S bus False);
     W5UNLOCK;
     ret bs }"

definition W5W1 :: "'d spisvc \<Rightarrow> byte \<Rightarrow> u16 \<Rightarrow> byte \<Rightarrow> ('d w5, unit) state" where
  "W5W1 S bsb a bVal = W5Write S bsb a [bVal]"

definition W5R1 :: "'d spisvc \<Rightarrow> byte \<Rightarrow> u16 \<Rightarrow> ('d w5, byte) state" where
  "W5R1 S bsb a = do { bs \<leftarrow> W5Read S bsb a 1; ret (bs ! 0) }"

definition W5W16 :: "'d spisvc \<Rightarrow> byte \<Rightarrow> u16 \<Rightarrow> u16 \<Rightarrow> ('d w5, unit) state" where
  "W5W16 S bsb a wVal = W5Write S bsb a [ucast (drop_bit 8 wVal), ucast wVal]"

definition be_word :: "byte list \<Rightarrow> u16" where
  "be_word ab = push_bit 8 (ucast (ab ! 0)) OR ucast (ab ! 1)"

definition W5R16 :: "'d spisvc \<Rightarrow> byte \<Rightarrow> u16 \<Rightarrow> ('d w5, u16) state" where
  "W5R16 S bsb a = do { ab \<leftarrow> W5Read S bsb a 2; ret (be_word ab) }"

text \<open>The loop of \<open>W5R16s\<close> with \<open>n\<close> rounds left, after \<open>wY\<close> was read.\<close>

primrec r16s_loop :: "nat \<Rightarrow> 'd spisvc \<Rightarrow> byte \<Rightarrow> u16 \<Rightarrow> u16 \<Rightarrow> ('d w5, u16) state" where
  "r16s_loop 0 S bsb a wY = ret wY"
| "r16s_loop (Suc n) S bsb a wX = do {
     wY \<leftarrow> W5R16 S bsb a;
     if wX = wY then ret wY else r16s_loop n S bsb a wY }"

definition W5R16s :: "'d spisvc \<Rightarrow> byte \<Rightarrow> u16 \<Rightarrow> ('d w5, u16) state" where
  "W5R16s S bsb a = do { wY \<leftarrow> W5R16 S bsb a; r16s_loop 16 S bsb a wY }"

section \<open>Probe\<close>

definition W5Try :: "'d spisvc \<Rightarrow> int \<Rightarrow> int \<Rightarrow> ('d w5, bool) state" where
  "W5Try S nBus nCs = do {
     rc \<leftarrow> on_dev (svc_init S nBus nCs);
     if rc \<noteq> 0 then ret False
     else do {
       modify (\<lambda>s. s\<lparr>w5_bus := nBus, w5_cs := nCs\<rparr>);
       bVer \<leftarrow> W5R1 S 0 0x0039;
       if bVer = 0x04 then ret True
       else do {
         sh \<leftarrow> gets w5_pShutdown;
         when_st sh (on_dev (svc_shutdown S nBus));
         modify (\<lambda>s. s\<lparr>w5_bus := -1\<rparr>);
         ret False } } }"

definition CfgBus :: "'r regsvc \<Rightarrow> 'r \<Rightarrow> u32" where
  "CfgBus R r =
     (if reg_open R r K_Netif
      then (case reg_query R r K_Netif (ws ''W5500Bus'') 4 of
              Inr (t, d) \<Rightarrow> le32 (take 4 (d @ replicate 4 0))
            | Inl junk \<Rightarrow> 0)
      else 0)"

definition W5500Probe :: "'d spisvc \<Rightarrow> w5dll \<Rightarrow> u32 \<Rightarrow> ('d w5, bool) state" where
  "W5500Probe S L dwBus =
     (if dwBus = 0 then ret False
      else do {
        ld \<leftarrow> LoadDcspi L;
        if \<not> ld then ret False
        else if dwBus = 1 then W5Try S DCSPI_BUS_SCI DCSPI_CS_AUTO
        else if dwBus = 2 then W5Try S DCSPI_BUS_SCIF DCSPI_CS_RTS
        else if dwBus = 3 then do {
          sci \<leftarrow> W5Try S DCSPI_BUS_SCI DCSPI_CS_AUTO;
          if sci then ret True else W5Try S DCSPI_BUS_SCIF DCSPI_CS_RTS }
        else ret False })"

section \<open>Bring-up\<close>

definition s_abW5mac :: "byte list" where
  "s_abW5mac = [0x02, 0xDC, 0x00, 0x00, 0x00, 0x01]"

text \<open>\<open>for (t = 0; t < n && (W5R1(bsb, a) & m); t++)\<close>\<close>

primrec poll_while :: "nat \<Rightarrow> 'd spisvc \<Rightarrow> byte \<Rightarrow> u16 \<Rightarrow> byte \<Rightarrow> ('d w5, unit) state" where
  "poll_while 0 S bsb a m = ret ()"
| "poll_while (Suc n) S bsb a m = do {
     v \<leftarrow> W5R1 S bsb a;
     if v AND m \<noteq> 0 then poll_while n S bsb a m else ret () }"

primrec zero_sockets :: "nat \<Rightarrow> 'd spisvc \<Rightarrow> nat \<Rightarrow> ('d w5, unit) state" where
  "zero_sockets 0 S i = ret ()"
| "zero_sockets (Suc n) S i = do {
     let bBlk = word_of_nat (1 + 4 * i);
     W5W1 S bBlk 0x001E 0;
     W5W1 S bBlk 0x001F 0;
     zero_sockets n S (i + 1) }"

definition W5500Init :: "'d spisvc \<Rightarrow> ('d w5, byte list option) state" where
  "W5500Init S = do {
     bus \<leftarrow> gets w5_bus;
     if bus < 0 then ret None
     else do {
       W5W1 S 0 0x0000 0x80;
       poll_while 100 S 0 0x0000 0x80;
       v \<leftarrow> W5R1 S 0 0x0000;
       if v AND 0x80 \<noteq> 0 then ret None
       else do {
         W5Write S 0 0x0009 s_abW5mac;
         W5W1 S 0 0x002E 0x00;
         W5W1 S 0 0x002E 0xB8;
         zero_sockets 8 S 0;
         W5W1 S 1 0x001E 16;
         W5W1 S 1 0x001F 16;
         W5W1 S 1 0x0000 0x84;
         W5W1 S 1 0x0001 0x01;
         poll_while 1000 S 1 0x0001 0xFF;
         sr \<leftarrow> W5R1 S 1 0x0003;
         if sr \<noteq> 0x42 then ret None
         else do {
           up \<leftarrow> W5R1 S 0 0x002E;
           ret (Some s_abW5mac) } } } }"

section \<open>Transmit and receive\<close>

text \<open>\<open>do { ... } while (wFsr < len && ++t < 20000)\<close>, with at most \<open>n\<close> rounds.\<close>

primrec tx_fsr :: "nat \<Rightarrow> 'd spisvc \<Rightarrow> u16 \<Rightarrow> ('d w5, u16) state" where
  "tx_fsr 0 S len = ret 0"
| "tx_fsr (Suc n) S len = do {
     wFsr \<leftarrow> W5R16s S 1 0x0020;
     if wFsr < len \<and> n \<noteq> 0 then tx_fsr n S len else ret wFsr }"

definition W5500Tx :: "'d spisvc \<Rightarrow> byte list \<Rightarrow> ('d w5, bool) state" where
  "W5500Tx S frame =
     (let len = length frame in
      if len = 0 \<or> len > 1514 then ret False
      else do {
        wFsr \<leftarrow> tx_fsr 20000 S (word_of_nat len);
        if wFsr < word_of_nat len then ret False
        else do {
          wWr \<leftarrow> W5R16 S 1 0x0024;
          W5Write S 2 wWr frame;
          W5W16 S 1 0x0024 (wWr + word_of_nat len);
          W5W1 S 1 0x0001 0x20;
          poll_while 100000 S 1 0x0001 0xFF;
          v \<leftarrow> W5R1 S 1 0x0001;
          ret (v = 0) } })"

text \<open>The result and the bytes stored in \<open>buf\<close>.\<close>

definition rx_take :: "'d spisvc \<Rightarrow> u16 \<Rightarrow> u16 \<Rightarrow> nat \<Rightarrow> ('d w5, int \<times> byte list) state" where
  "rx_take S wRd wPlen nMax = do {
     let nFlen = (if unat wPlen - 2 > nMax then nMax else unat wPlen - 2);
     buf \<leftarrow> W5Read S 3 (wRd + 2) nFlen;
     W5W16 S 1 0x0028 (wRd + wPlen);
     W5W1 S 1 0x0001 0x40;
     ret (int nFlen, buf) }"

definition W5500RxPoll :: "'d spisvc \<Rightarrow> nat \<Rightarrow> ('d w5, int \<times> byte list) state" where
  "W5500RxPoll S nMax = do {
     wRsr \<leftarrow> W5R16s S 1 0x0026;
     if wRsr < 2 then ret (0, [])
     else do {
       wRd \<leftarrow> W5R16 S 1 0x0028;
       abHdr \<leftarrow> W5Read S 3 wRd 2;
       let wPlen = be_word abHdr;
       if wPlen < 3 \<or> wPlen > wRsr then do {
         abH2 \<leftarrow> W5Read S 3 wRd 2;
         let wP2 = be_word abH2;
         if wP2 \<ge> 3 \<and> wP2 \<le> wRsr then rx_take S wRd wP2 nMax
         else do {
           W5W16 S 1 0x0028 (wRd + wRsr);
           W5W1 S 1 0x0001 0x40;
           ret (-1, []) } }
       else rx_take S wRd wPlen nMax } }"


section \<open>Select line and lock\<close>

text \<open>
  Every sequence of register accesses leaves the lock as it was and, on a bus with the
  contract \<open>spi_bus\<close>, the chip deselected if it was deselected.
\<close>

definition tidy :: "('d \<Rightarrow> bool) \<Rightarrow> int \<Rightarrow> 'd w5 \<Rightarrow> 'd w5 \<Rightarrow> bool" where
  "tidy sel bus s s' \<longleftrightarrow> w5_lock s' = w5_lock s \<and> w5_bus s' = w5_bus s
     \<and> (w5_bus s = bus \<and> \<not> sel (w5_dev s) \<longrightarrow> \<not> sel (w5_dev s'))"

lemma tidy_preorder [simp]: "reflp (tidy sel bus)" "transp (tidy sel bus)"
  by (auto simp: tidy_def reflp_def transp_def)

lemmas tidy_rules = io_bind [OF tidy_preorder] io_return [OF tidy_preorder(1)] io_gets [OF tidy_preorder(1)]
  io_when [OF tidy_preorder(1)] io_if

lemma run_on_dev: "run_state (on_dev m) s = (case run_state m (w5_dev s) of (x, d) \<Rightarrow> (x, s\<lparr>w5_dev := d\<rparr>))"
  by (simp add: on_dev_def)

text \<open>A transaction touches the device only.\<close>

abbreviation frame_hdr :: "byte \<Rightarrow> u16 \<Rightarrow> bool \<Rightarrow> byte list" where
  "frame_hdr bsb a wr \<equiv> [ucast (drop_bit 8 a), ucast a, CTRL bsb wr]"

definition xfer :: "'d spisvc \<Rightarrow> int \<Rightarrow> byte list \<Rightarrow> byte list option \<Rightarrow> nat \<Rightarrow> 'd \<Rightarrow> byte list \<times> 'd" where
  "xfer S bus hdr tx n d =
     (let d1 = snd (run_state (svc_rw S bus (Some hdr) 3) (snd (run_state (svc_setcs S bus True) d)))
      in if n = 0 then ([], d1) else run_state (svc_rw S bus tx n) d1)"

lemma run_W5Write:
  "run_state (W5Write S bsb a bs) s = ((), s\<lparr>w5_dev := snd (run_state (svc_setcs S (w5_bus s) False)
     (snd (xfer S (w5_bus s) (frame_hdr bsb a True) (Some bs) (length bs) (w5_dev s))))\<rparr>)"
  by (simp add: W5Write_def W5LOCK_def W5UNLOCK_def run_on_dev xfer_def Let_def split: prod.splits)

lemma run_W5Read:
  "run_state (W5Read S bsb a n) s =
     (fst (xfer S (w5_bus s) (frame_hdr bsb a False) None n (w5_dev s)),
      s\<lparr>w5_dev := snd (run_state (svc_setcs S (w5_bus s) False)
         (snd (xfer S (w5_bus s) (frame_hdr bsb a False) None n (w5_dev s))))\<rparr>)"
  by (simp add: W5Read_def W5LOCK_def W5UNLOCK_def run_on_dev xfer_def Let_def split: prod.splits)

context spi_bus begin

lemma tidy_W5Write: "state_io_rel (tidy sel bus) (W5Write S bsb a bs)"
  by (auto simp: state_io_rel_def run_W5Write tidy_def sel_setcs)

lemma W5Read_run:
  assumes "run_state (W5Read S bsb a n) s = (bs, s')"
  shows "w5_lock s' = w5_lock s" "w5_bus s' = w5_bus s"
    and "w5_bus s = bus \<Longrightarrow> \<not> sel (w5_dev s') \<and> length bs = n"
proof -
  have "length (fst (xfer S bus h t n d)) = n" for h t d
    using length_rw by (simp add: xfer_def Let_def)
  moreover have "\<not> sel (snd (run_state (svc_setcs S bus False) d))" for d by (simp add: sel_setcs)
  moreover have "bs = fst (run_state (W5Read S bsb a n) s)" "s' = snd (run_state (W5Read S bsb a n) s)"
    using assms by simp_all
  ultimately show "w5_lock s' = w5_lock s" "w5_bus s' = w5_bus s"
    "w5_bus s = bus \<Longrightarrow> \<not> sel (w5_dev s') \<and> length bs = n"
    by (simp_all add: run_W5Read)
qed

lemma tidy_W5Read: "state_io_rel (tidy sel bus) (W5Read S bsb a n)"
  using W5Read_run by (auto simp: tidy_def)

lemma tidy_regs:
  "state_io_rel (tidy sel bus) (W5W1 S bsb a v)" "state_io_rel (tidy sel bus) (W5R1 S bsb a)"
  "state_io_rel (tidy sel bus) (W5W16 S bsb a w)" "state_io_rel (tidy sel bus) (W5R16 S bsb a)"
  by (auto simp: W5W1_def W5R1_def W5W16_def W5R16_def intro!: tidy_rules tidy_W5Read tidy_W5Write)

lemma tidy_loops:
  "state_io_rel (tidy sel bus) (r16s_loop n S bsb a w)" "state_io_rel (tidy sel bus) (poll_while n S bsb a m)"
  "state_io_rel (tidy sel bus) (zero_sockets n S i)"
proof -
  show "state_io_rel (tidy sel bus) (r16s_loop n S bsb a w)"
    by (induction n arbitrary: w) (auto intro!: tidy_rules tidy_regs)
  show "state_io_rel (tidy sel bus) (poll_while n S bsb a m)"
    by (induction n) (auto intro!: tidy_rules tidy_regs)
  show "state_io_rel (tidy sel bus) (zero_sockets n S i)"
    by (induction n arbitrary: i) (auto simp: Let_def intro!: tidy_rules tidy_regs)
qed

lemma tidy_R16s: "state_io_rel (tidy sel bus) (W5R16s S bsb a)"
  by (auto simp: W5R16s_def intro!: tidy_rules tidy_regs tidy_loops)

lemma tidy_fsr: "state_io_rel (tidy sel bus) (tx_fsr n S len)"
  by (induction n) (auto intro!: tidy_rules tidy_R16s)

lemma tidy_ops:
  "state_io_rel (tidy sel bus) (W5500Tx S frame)" "state_io_rel (tidy sel bus) (W5500RxPoll S n)"
  "state_io_rel (tidy sel bus) (W5500Init S)"
  by (auto simp: W5500Tx_def W5500RxPoll_def rx_take_def W5500Init_def Let_def
      intro!: tidy_rules tidy_regs tidy_loops tidy_R16s tidy_fsr tidy_W5Read tidy_W5Write)

end


context spi_bus begin

lemma rx_take_bounds:
  assumes "run_state (rx_take S wRd wPlen nMax) s = ((n, buf), s')" and "w5_bus s = bus"
  shows "0 \<le> n \<and> n \<le> int nMax \<and> length buf = nat n"
proof -
  let ?k = "if unat wPlen - 2 > nMax then nMax else unat wPlen - 2"
  obtain bs s1 where r: "run_state (W5Read S 3 (wRd + 2) ?k) s = (bs, s1)" by fastforce
  have "length bs = ?k" using W5Read_run(3) [OF r assms(2)] by blast
  moreover have "n = int ?k \<and> buf = bs"
    using assms(1) r by (auto simp: rx_take_def Let_def split: prod.splits)
  ultimately show ?thesis by auto
qed

lemma W5R16s_bus:
  "run_state (W5R16s S bsb a) s = (w, s') \<Longrightarrow> w5_bus s' = w5_bus s"
  "run_state (W5R16 S bsb a) s = (w, s') \<Longrightarrow> w5_bus s' = w5_bus s"
  using state_io_relD [OF tidy_R16s] state_io_relD [OF tidy_regs(4)] by (auto simp: tidy_def)

lemma RxPoll_bounds:
  assumes "run_state (W5500RxPoll S nMax) s = ((n, buf), s')" and "w5_bus s = bus"
  shows "-1 \<le> n \<and> n \<le> int nMax \<and> length buf = nat n"
proof -
  obtain wRsr s1 where 1: "run_state (W5R16s S 1 0x0026) s = (wRsr, s1)" by fastforce
  obtain wRd s2 where 2: "run_state (W5R16 S 1 0x0028) s1 = (wRd, s2)" by fastforce
  obtain h s3 where 3: "run_state (W5Read S 3 wRd 2) s2 = (h, s3)" by fastforce
  obtain h' s4 where 4: "run_state (W5Read S 3 wRd 2) s3 = (h', s4)" by fastforce
  have b: "w5_bus s3 = bus" "w5_bus s4 = bus"
    using W5R16s_bus(1) [OF 1] W5R16s_bus(2) [OF 2] W5Read_run(2) [OF 3] W5Read_run(2) [OF 4] assms(2) by simp_all
  show ?thesis
  proof (cases "wRsr < 2")
    case True
    then show ?thesis using assms(1) 1 by (auto simp: W5500RxPoll_def)
  next
    case False
    then have e: "run_state (W5500RxPoll S nMax) s =
        (if be_word h < 3 \<or> be_word h > wRsr then
           run_state (if be_word h' \<ge> 3 \<and> be_word h' \<le> wRsr then rx_take S wRd (be_word h') nMax
             else do { W5W16 S 1 0x0028 (wRd + wRsr); W5W1 S 1 0x0001 0x40; ret (-1, []) }) s4
         else run_state (rx_take S wRd (be_word h) nMax) s3)"
      using 1 2 3 4 by (simp add: W5500RxPoll_def Let_def)
    show ?thesis
      using assms(1) rx_take_bounds [of wRd "be_word h" nMax s3 n buf s'] rx_take_bounds [of wRd "be_word h'" nMax s4 n buf s'] b
      unfolding e by (auto split: if_splits prod.splits)
  qed
qed

end

text \<open>
  Over the bit-banged bus, whatever the hardware answers, bring-up, transmit and receive
  leave the critical section as they found it and the chip deselected; and a receive stores
  as many bytes as it reports, at most the buffer's size.
\<close>

theorem W5500_safe:
  assumes "w5_bus s = DCSPI_BUS_SCIF" and "\<not> scif_sel (w5_dev s)"
    and "s1 = snd (run_state (W5500Init (dcspi_svc H)) s)"
    and "s2 = snd (run_state (W5500Tx (dcspi_svc H) frame) s)"
    and "run_state (W5500RxPoll (dcspi_svc H) nMax) s = ((n, buf), s3)"
  shows "w5_lock s1 = w5_lock s \<and> \<not> scif_sel (w5_dev s1) \<and> w5_lock s2 = w5_lock s \<and> \<not> scif_sel (w5_dev s2)
     \<and> w5_lock s3 = w5_lock s \<and> \<not> scif_sel (w5_dev s3) \<and> -1 \<le> n \<and> n \<le> int nMax \<and> length buf = nat n"
proof -
  have "tidy scif_sel DCSPI_BUS_SCIF s s1" "tidy scif_sel DCSPI_BUS_SCIF s s2" "tidy scif_sel DCSPI_BUS_SCIF s s3"
    using io_snd [OF scif.tidy_ops(3), of s H] io_snd [OF scif.tidy_ops(1), of s H frame]
      state_io_relD [OF scif.tidy_ops(2) assms(5)] assms(3,4) by simp_all
  then show ?thesis using scif.RxPoll_bounds [OF assms(5,1)] assms(1,2) by (simp add: tidy_def)
qed

section \<open>On a chip that keeps what is written\<close>

text \<open>
  The chip as its data sheet documents the register frames: a frame addresses a block and
  an offset that counts up and wraps at 16 bits; the command register of socket 0 is a list
  of the commands given, and reads what \<open>mem\<close> says.
\<close>

record chipview =
  mem :: "byte \<Rightarrow> u16 \<Rightarrow> byte"
  cmds :: "byte list"

fun chip_store :: "byte \<Rightarrow> u16 \<Rightarrow> byte list \<Rightarrow> chipview \<Rightarrow> chipview" where
  "chip_store bsb a [] v = v"
| "chip_store bsb a (b # bs) v = chip_store bsb (a + 1) bs
     (if bsb = 1 \<and> a = 1 then v\<lparr>cmds := cmds v @ [b]\<rparr>
      else v\<lparr>mem := (mem v)(bsb := (mem v bsb)(a := b))\<rparr>)"

definition chip_load :: "byte \<Rightarrow> u16 \<Rightarrow> nat \<Rightarrow> chipview \<Rightarrow> byte list" where
  "chip_load bsb a n v = map (\<lambda>i. mem v bsb (a + word_of_nat i)) [0..<n]"

definition chip_laws :: "'d spisvc \<Rightarrow> int \<Rightarrow> ('d \<Rightarrow> chipview) \<Rightarrow> bool" where
  "chip_laws S bus view \<longleftrightarrow>
     (\<forall>bsb a bs d. bsb < 32 \<longrightarrow> view (snd (run_state (svc_setcs S bus False)
          (snd (xfer S bus (frame_hdr bsb a True) (Some bs) (length bs) d)))) = chip_store bsb a bs (view d))
   \<and> (\<forall>bsb a n d. bsb < 32 \<longrightarrow> fst (xfer S bus (frame_hdr bsb a False) None n d) = chip_load bsb a n (view d)
        \<and> view (snd (run_state (svc_setcs S bus False)
            (snd (xfer S bus (frame_hdr bsb a False) None n d)))) = view d)"

lemma mem_store_other:
  "b' \<noteq> bsb \<Longrightarrow> mem (chip_store bsb a bs v) b' = mem v b'"
  "bsb \<noteq> 1 \<Longrightarrow> cmds (chip_store bsb a bs v) = cmds v"
  by (induction bs arbitrary: a v) auto

lemma mem_store_block:
  assumes "bsb \<noteq> 1"
  shows "length bs \<le> 65536 \<Longrightarrow> i < length bs \<Longrightarrow> mem (chip_store bsb a bs v) bsb (a + word_of_nat i) = bs ! i"
    and "(\<forall>i < length bs. x \<noteq> a + word_of_nat i) \<Longrightarrow> mem (chip_store bsb a bs v) bsb x = mem v bsb x"
proof -
  have keep: "(\<forall>i < length bs. x \<noteq> a + word_of_nat i) \<Longrightarrow> mem (chip_store bsb a bs v) bsb x = mem v bsb x" for x a bs v
  proof (induction bs arbitrary: a v)
    case (Cons b bs)
    have "\<forall>i < length bs. x \<noteq> (a + 1) + word_of_nat i"
    proof (intro allI impI)
      fix i assume "i < length bs"
      then show "x \<noteq> (a + 1) + word_of_nat i" using Cons.prems [rule_format, of "Suc i"] by (simp add: add.assoc)
    qed
    moreover have "x \<noteq> a" using Cons.prems [rule_format, of 0] by simp
    ultimately show ?case using Cons.IH assms by simp
  qed simp
  then show "(\<forall>i < length bs. x \<noteq> a + word_of_nat i) \<Longrightarrow> mem (chip_store bsb a bs v) bsb x = mem v bsb x" .
  show "length bs \<le> 65536 \<Longrightarrow> i < length bs \<Longrightarrow> mem (chip_store bsb a bs v) bsb (a + word_of_nat i) = bs ! i"
  proof (induction bs arbitrary: a v i)
    case (Cons b bs)
    show ?case
    proof (cases i)
      case 0
      have "a \<noteq> a + 1 + word_of_nat j" if "j < length bs" for j
      proof
        assume "a = a + 1 + word_of_nat j"
        then have "word_of_nat (Suc j) = (0 :: u16)" by (simp add: add.assoc)
        then have "65536 dvd Suc j" by (simp only: word_of_nat_eq_0_iff) simp
        then show False using that Cons.prems(1) dvd_imp_le [of 65536 "Suc j"] by simp
      qed
      then show ?thesis using 0 assms keep [of bs a "a + 1"] by simp
    next
      case (Suc j)
      then show ?thesis using Cons.IH [of j "a + 1"] Cons.prems assms by (simp add: add.assoc)
    qed
  qed simp
qed


lemma be_word_split: "be_word [ucast (drop_bit 8 w), ucast w] = w"
  by (rule bit_word_eqI) (auto simp: be_word_def bit_simps)

definition reg16 :: "chipview \<Rightarrow> u16 \<Rightarrow> u16" where
  "reg16 v a = be_word [mem v 1 a, mem v 1 (a + 1)]"

lemma chip_load_2: "chip_load b a 2 v = [mem v b a, mem v b (a + 1)]" "chip_load b a 1 v = [mem v b a]"
  "chip_load b a (Suc 0) v = [mem v b a]"
  by (simp_all add: chip_load_def upt_rec numeral_2_eq_2)

lemma chip_run:
  assumes "chip_laws S (w5_bus s) view" and "bsb < 32"
  shows "\<exists>d. run_state (W5Write S bsb a bs) s = ((), s\<lparr>w5_dev := d\<rparr>) \<and> view d = chip_store bsb a bs (view (w5_dev s))"
    and "\<exists>d. run_state (W5Read S bsb a n) s = (chip_load bsb a n (view (w5_dev s)), s\<lparr>w5_dev := d\<rparr>)
       \<and> view d = view (w5_dev s)"
  using assms by (auto simp: chip_laws_def run_W5Write run_W5Read)

lemma chip_run_regs:
  assumes "chip_laws S (w5_bus s) view" and "b < 32"
  shows "\<exists>d. run_state (W5R16 S 1 a) s = (reg16 (view (w5_dev s)) a, s\<lparr>w5_dev := d\<rparr>) \<and> view d = view (w5_dev s)"
    and "\<exists>d. run_state (W5R1 S b a) s = (mem (view (w5_dev s)) b a, s\<lparr>w5_dev := d\<rparr>) \<and> view d = view (w5_dev s)"
proof -
  obtain d where "run_state (W5Read S 1 a 2) s = (chip_load 1 a 2 (view (w5_dev s)), s\<lparr>w5_dev := d\<rparr>)" "view d = view (w5_dev s)"
    using chip_run(2) [OF assms(1), of 1 a 2] by auto
  then show "\<exists>d. run_state (W5R16 S 1 a) s = (reg16 (view (w5_dev s)) a, s\<lparr>w5_dev := d\<rparr>) \<and> view d = view (w5_dev s)"
    by (intro exI [of _ d]) (simp add: W5R16_def chip_load_2 reg16_def)
  obtain d where "run_state (W5Read S b a 1) s = (chip_load b a 1 (view (w5_dev s)), s\<lparr>w5_dev := d\<rparr>)" "view d = view (w5_dev s)"
    using chip_run(2) [OF assms] by blast
  then show "\<exists>d. run_state (W5R1 S b a) s = (mem (view (w5_dev s)) b a, s\<lparr>w5_dev := d\<rparr>) \<and> view d = view (w5_dev s)"
    by (intro exI [of _ d]) (simp add: W5R1_def chip_load_2)
qed

lemma chip_run_R16s:
  assumes "chip_laws S (w5_bus s) view"
  shows "\<exists>d. run_state (W5R16s S 1 a) s = (reg16 (view (w5_dev s)) a, s\<lparr>w5_dev := d\<rparr>) \<and> view d = view (w5_dev s)"
proof -
  obtain d where 1: "run_state (W5R16 S 1 a) s = (reg16 (view (w5_dev s)) a, s\<lparr>w5_dev := d\<rparr>)" "view d = view (w5_dev s)"
    using chip_run_regs(1) [OF assms, of 0 a] by auto
  have "chip_laws S (w5_bus (s\<lparr>w5_dev := d\<rparr>)) view" using assms by simp
  from chip_run_regs(1) [OF this, of 0 a] 1(2) obtain d' where
    2: "run_state (W5R16 S 1 a) (s\<lparr>w5_dev := d\<rparr>) = (reg16 (view (w5_dev s)) a, s\<lparr>w5_dev := d'\<rparr>)" "view d' = view (w5_dev s)"
    by auto
  show ?thesis using 1 2 by (intro exI [of _ d']) (simp add: W5R16s_def eval_nat_numeral)
qed

lemma tx_fsr_ready:
  assumes "chip_laws S (w5_bus s) view" and "len \<le> reg16 (view (w5_dev s)) 0x20"
  shows "0 < n \<Longrightarrow> \<exists>d. run_state (tx_fsr n S len) s = (reg16 (view (w5_dev s)) 0x20, s\<lparr>w5_dev := d\<rparr>) \<and> view d = view (w5_dev s)"
  using chip_run_R16s [OF assms(1), of "0x20"] assms(2) by (cases n) auto

lemma poll_while_clear:
  assumes "chip_laws S (w5_bus s) view" and "mem (view (w5_dev s)) b a AND m = 0" and "b < 32"
  shows "\<exists>d. run_state (poll_while n S b a m) s = ((), s\<lparr>w5_dev := d\<rparr>) \<and> view d = view (w5_dev s)"
proof (cases n)
  case 0
  then show ?thesis by (intro exI [of _ "w5_dev s"]) simp
next
  case (Suc k)
  then show ?thesis using chip_run_regs(2) [OF assms(1,3), of a] assms(2) by auto
qed

text \<open>
  C10: on a chip with room for the frame whose commands complete, \<open>W5500Tx\<close> succeeds: the
  frame's bytes are in the transmit ring from the old write pointer on, wrapping with it,
  the pointer has moved past them, and one SEND was given.
\<close>

theorem W5500Tx_places_frame:
  assumes "chip_laws S (w5_bus s) view" and "v = view (w5_dev s)"
    and "frame \<noteq> []" and "length frame \<le> 1514" and "word_of_nat (length frame) \<le> reg16 v 0x20" and "mem v 1 1 = 0"
  shows "\<exists>d. run_state (W5500Tx S frame) s = (True, s\<lparr>w5_dev := d\<rparr>)
     \<and> (\<forall>i < length frame. mem (view d) 2 (reg16 v 0x24 + word_of_nat i) = frame ! i)
     \<and> reg16 (view d) 0x24 = reg16 v 0x24 + word_of_nat (length frame)
     \<and> cmds (view d) = cmds v @ [0x20]"
proof -
  have L: "chip_laws S (w5_bus (s\<lparr>w5_dev := d\<rparr>)) view" for d using assms(1) by simp
  let ?wr = "reg16 v 0x24" and ?new = "reg16 v 0x24 + word_of_nat (length frame)"
  obtain d1 where 1: "run_state (tx_fsr 20000 S (word_of_nat (length frame))) s = (reg16 v 0x20, s\<lparr>w5_dev := d1\<rparr>)" "view d1 = v"
    using tx_fsr_ready [OF assms(1), of "word_of_nat (length frame)" 20000] assms(2,5) by auto
  obtain d2 where 2: "run_state (W5R16 S 1 0x24) (s\<lparr>w5_dev := d1\<rparr>) = (?wr, s\<lparr>w5_dev := d2\<rparr>)" "view d2 = v"
    using chip_run_regs(1) [OF L [of d1], of 0 "0x24"] 1(2) by auto
  obtain d3 where 3: "run_state (W5Write S 2 ?wr frame) (s\<lparr>w5_dev := d2\<rparr>) = ((), s\<lparr>w5_dev := d3\<rparr>)" "view d3 = chip_store 2 ?wr frame v"
    using chip_run(1) [OF L [of d2], of 2 ?wr frame] 2(2) by auto
  obtain d4 where 4: "run_state (W5W16 S 1 0x24 ?new) (s\<lparr>w5_dev := d3\<rparr>) = ((), s\<lparr>w5_dev := d4\<rparr>)"
      "view d4 = chip_store 1 0x24 [ucast (drop_bit 8 ?new), ucast ?new] (chip_store 2 ?wr frame v)"
    using chip_run(1) [OF L [of d3], of 1 "0x24" "[ucast (drop_bit 8 ?new), ucast ?new]"] 3(2) by (auto simp: W5W16_def)
  obtain d5 where 5: "run_state (W5W1 S 1 1 0x20) (s\<lparr>w5_dev := d4\<rparr>) = ((), s\<lparr>w5_dev := d5\<rparr>)"
      "view d5 = chip_store 1 1 [0x20] (view d4)"
    using chip_run(1) [OF L [of d4], of 1 1 "[0x20]"] by (auto simp: W5W1_def)
  have m1: "mem (chip_store 2 ?wr frame v) 1 = mem v 1" "cmds (chip_store 2 ?wr frame v) = cmds v"
    by (simp_all add: mem_store_other)
  have v5: "mem (view d5) 2 = mem (chip_store 2 ?wr frame v) 2" "reg16 (view d5) 0x24 = ?new"
    "mem (view d5) 1 1 = 0" "cmds (view d5) = cmds v @ [0x20]"
    using assms(6) m1 by (simp_all add: 5(2) 4(2) reg16_def be_word_split)
  obtain d6 where 6: "run_state (poll_while 100000 S 1 1 0xFF) (s\<lparr>w5_dev := d5\<rparr>) = ((), s\<lparr>w5_dev := d6\<rparr>)" "view d6 = view d5"
    using poll_while_clear [OF L [of d5], of 1 1 "0xFF" 100000] v5(3) by auto
  obtain d7 where 7: "run_state (W5R1 S 1 1) (s\<lparr>w5_dev := d6\<rparr>) = (0, s\<lparr>w5_dev := d7\<rparr>)" "view d7 = view d5"
    using chip_run_regs(2) [OF L [of d6], of 1 1] 6(2) v5(3) by auto
  have "run_state (W5500Tx S frame) s = (True, s\<lparr>w5_dev := d7\<rparr>)"
    using assms(3-5) 1(1) 2(1) 3(1) 4(1) 5(1) 6(1) 7(1) by (simp add: W5500Tx_def Let_def not_less)
  moreover have "\<forall>i < length frame. mem (view d5) 2 (?wr + word_of_nat i) = frame ! i"
    using mem_store_block(1) [of 2 frame _ ?wr v] assms(4) v5(1) by simp
  ultimately show ?thesis using v5 7(2) by (intro exI [of _ d7]) simp
qed

text \<open>
  C9: on a chip holding a received frame after its two-byte length, \<open>W5500RxPoll\<close> delivers
  exactly that frame, moves the read pointer past it, and gives one RECV.
\<close>

theorem W5500RxPoll_delivers:
  assumes "chip_laws S (w5_bus s) view" and "v = view (w5_dev s)"
    and "frame \<noteq> []" and "length frame \<le> nMax" and "length frame + 2 \<le> unat (reg16 v 0x26)"
    and "chip_load 3 (reg16 v 0x28) 2 v = [ucast (drop_bit 8 p), ucast p]" and "p = (word_of_nat (length frame + 2) :: u16)"
    and "chip_load 3 (reg16 v 0x28 + 2) (length frame) v = frame"
  shows "\<exists>d. run_state (W5500RxPoll S nMax) s = ((int (length frame), frame), s\<lparr>w5_dev := d\<rparr>)
     \<and> reg16 (view d) 0x28 = reg16 v 0x28 + p \<and> cmds (view d) = cmds v @ [0x40]"
proof -
  have L: "chip_laws S (w5_bus (s\<lparr>w5_dev := d\<rparr>)) view" for d using assms(1) by simp
  let ?rd = "reg16 v 0x28" and ?new = "reg16 v 0x28 + p"
  have lt: "length frame + 2 < 65536" using assms(5) unsigned_less [of "reg16 v 0x26", where 'a = nat] by simp
  have up: "unat p = length frame + 2" unfolding assms(7) unat_of_nat using lt by simp
  have p: "\<not> p < 3" "\<not> p > reg16 v 0x26" "\<not> reg16 v 0x26 < 2"
    using up assms(3,5) by (auto simp: word_less_nat_alt neq_Nil_conv)
  obtain d1 where 1: "run_state (W5R16s S 1 0x26) s = (reg16 v 0x26, s\<lparr>w5_dev := d1\<rparr>)" "view d1 = v"
    using chip_run_R16s [OF assms(1), of "0x26"] assms(2) by auto
  obtain d2 where 2: "run_state (W5R16 S 1 0x28) (s\<lparr>w5_dev := d1\<rparr>) = (?rd, s\<lparr>w5_dev := d2\<rparr>)" "view d2 = v"
    using chip_run_regs(1) [OF L [of d1], of 0 "0x28"] 1(2) by auto
  obtain d3 where 3: "run_state (W5Read S 3 ?rd 2) (s\<lparr>w5_dev := d2\<rparr>) = ([ucast (drop_bit 8 p), ucast p], s\<lparr>w5_dev := d3\<rparr>)" "view d3 = v"
    using chip_run(2) [OF L [of d2], of 3 ?rd 2] 2(2) assms(6) by auto
  obtain d4 where 4: "run_state (W5Read S 3 (?rd + 2) (length frame)) (s\<lparr>w5_dev := d3\<rparr>) = (frame, s\<lparr>w5_dev := d4\<rparr>)" "view d4 = v"
    using chip_run(2) [OF L [of d3], of 3 "?rd + 2" "length frame"] 3(2) assms(8) by auto
  obtain d5 where 5: "run_state (W5W16 S 1 0x28 ?new) (s\<lparr>w5_dev := d4\<rparr>) = ((), s\<lparr>w5_dev := d5\<rparr>)"
      "view d5 = chip_store 1 0x28 [ucast (drop_bit 8 ?new), ucast ?new] v"
    using chip_run(1) [OF L [of d4], of 1 "0x28" "[ucast (drop_bit 8 ?new), ucast ?new]"] 4(2) by (auto simp: W5W16_def)
  obtain d6 where 6: "run_state (W5W1 S 1 1 0x40) (s\<lparr>w5_dev := d5\<rparr>) = ((), s\<lparr>w5_dev := d6\<rparr>)"
      "view d6 = chip_store 1 1 [0x40] (view d5)"
    using chip_run(1) [OF L [of d5], of 1 1 "[0x40]"] by (auto simp: W5W1_def)
  have "run_state (W5500RxPoll S nMax) s = ((int (length frame), frame), s\<lparr>w5_dev := d6\<rparr>)"
    using p 1(1) 2(1) 3(1) 4(1) 5(1) 6(1) up assms(4)
    by (simp add: W5500RxPoll_def rx_take_def be_word_split Let_def)
  then show ?thesis
    by (intro exI [of _ d6]) (simp add: 6(2) 5(2) reg16_def be_word_split)
qed


section \<open>Witnesses\<close>

text \<open>A chip on the bus: the header of the frame under way and the view.\<close>

record chipdev =
  cd_hdr :: "byte list"
  cd_view :: chipview

definition cd_rw :: "byte list option \<Rightarrow> nat \<Rightarrow> chipdev \<Rightarrow> byte list \<times> chipdev" where
  "cd_rw t n d =
     (case cd_hdr d of
        [] \<Rightarrow> (replicate n 0, d\<lparr>cd_hdr := the t\<rparr>)
      | h \<Rightarrow>
          let bsb = drop_bit 3 (h ! 2); a = be_word h
          in if bit (h ! 2) 2 then (replicate n 0, d\<lparr>cd_view := chip_store bsb a (the t) (cd_view d)\<rparr>)
             else (chip_load bsb a n (cd_view d), d))"

definition chip_svc :: "chipdev spisvc" where
  "chip_svc = \<lparr>svc_init = (\<lambda>_ _. ret 0), svc_shutdown = (\<lambda>_. ret ()),
     svc_setcs = (\<lambda>_ _. modify (\<lambda>d. d\<lparr>cd_hdr := []\<rparr>)),
     svc_rw = (\<lambda>_ t n. State (cd_rw t n)), svc_rwbyte = (\<lambda>_ _. ret 0), svc_settle = (\<lambda>_. ret ())\<rparr>"

definition sample_w5 :: "chipview \<Rightarrow> chipdev w5" where
  "sample_w5 v = \<lparr>w5_nInit = True, w5_pInit = True, w5_pShutdown = True, w5_pSetCS = True, w5_pRw = True,
     w5_pHwType = True, w5_bus = 0, w5_cs = 0, w5_lock = 0, w5_dev = \<lparr>cd_hdr = [], cd_view = v\<rparr>\<rparr>"

lemma be_word_hdr: "be_word (frame_hdr bsb a wr) = a"
  by (rule bit_word_eqI) (auto simp: be_word_def bit_simps)


lemma hdr_CTRL: "bsb < 32 \<Longrightarrow> drop_bit 3 (CTRL bsb wr) = bsb" "bit (CTRL bsb wr) 2 = wr"
proof -
  show "bit (CTRL bsb wr) 2 = wr" by (simp add: CTRL_def bit_simps)
  assume "bsb < 32"
  then have "take_bit 5 (unat bsb) = unat bsb" by (intro take_bit_nat_eq_self) (simp add: word_less_nat_alt)
  then have "bit (unat bsb) n \<Longrightarrow> n < 5" for n by (metis bit_take_bit_iff)
  then have "n < 5" if "bit bsb n" for n using that by (simp add: bit_unsigned_iff)
  note lt = this
  have b4: "\<not> bit (4 :: int) (3 + k)" for k
    using bit_exp_iff [of 2 "3 + k", where 'a = int] by simp
  show "drop_bit 3 (CTRL bsb wr) = bsb"
  proof (rule bit_word_eqI)
    fix n assume "n < LENGTH(8)"
    then show "bit (drop_bit 3 (CTRL bsb wr)) n \<longleftrightarrow> bit bsb n"
      using lt [of n] by (auto simp: CTRL_def bit_drop_bit_eq bit_or_iff bit_push_bit_iff b4)
  qed
qed

lemma chip_svc_laws: "chip_laws chip_svc bus cd_view"
proof -
  have x: "xfer chip_svc bus (frame_hdr bsb a wr) t n d =
      (if n = 0 then ([], d\<lparr>cd_hdr := frame_hdr bsb a wr\<rparr>) else cd_rw t n (d\<lparr>cd_hdr := frame_hdr bsb a wr\<rparr>))" for bsb a wr t n d
    by (simp add: xfer_def chip_svc_def cd_rw_def Let_def)
  show ?thesis
    unfolding chip_laws_def x
    by (auto simp: cd_rw_def hdr_CTRL be_word_hdr chip_svc_def chip_load_def)
qed

definition idle_view :: chipview where
  "idle_view = \<lparr>mem = (\<lambda>b a. if b = 1 \<and> a = 0x20 then 0x40 else 0), cmds = []\<rparr>"

definition full_view :: chipview where
  "full_view = \<lparr>mem = (\<lambda>b a. if b = 1 \<and> a = 0x27 then 5 else if b = 3 \<and> a = 1 then 5
      else if b = 3 \<and> a > 1 \<and> a < 5 then 0xAB else 0), cmds = []\<rparr>"

lemma W5500Tx_places_frame_witness:
  "\<exists>d. run_state (W5500Tx chip_svc [1, 2, 3]) (sample_w5 idle_view) = (True, (sample_w5 idle_view)\<lparr>w5_dev := d\<rparr>)
     \<and> cmds (cd_view d) = [0x20]"
  using W5500Tx_places_frame [of chip_svc "sample_w5 idle_view" cd_view idle_view "[1, 2, 3]"] chip_svc_laws
  by (auto simp: sample_w5_def idle_view_def reg16_def be_word_def)

lemma W5500RxPoll_delivers_witness:
  "\<exists>d. run_state (W5500RxPoll chip_svc 1600) (sample_w5 full_view)
     = ((3, [0xAB, 0xAB, 0xAB]), (sample_w5 full_view)\<lparr>w5_dev := d\<rparr>) \<and> cmds (cd_view d) = [0x40]"
proof -
  have r: "reg16 full_view 0x26 = 5" "reg16 full_view 0x28 = 0"
    by (simp_all add: full_view_def reg16_def be_word_def)
  have l: "chip_load 3 0 2 full_view = [0, 5]" "chip_load 3 2 3 full_view = [0xAB, 0xAB, 0xAB]"
  proof -
    have "[0..<2] = [0, 1 :: nat]" "[0..<3] = [0, 1, 2 :: nat]" by (simp_all add: upt_rec)
    then show "chip_load 3 0 2 full_view = [0, 5]" "chip_load 3 2 3 full_view = [0xAB, 0xAB, 0xAB]"
      by (simp_all add: full_view_def chip_load_def)
  qed
  have v: "cd_view (w5_dev (sample_w5 full_view)) = full_view" "cmds full_view = []"
    by (simp_all add: sample_w5_def full_view_def)
  have p: "[ucast (drop_bit 8 (5 :: u16)), ucast (5 :: u16)] = [0, 5 :: byte]" "(5 :: u16) = word_of_nat (length [0xAB, 0xAB, 0xAB :: byte] + 2)"
    by simp_all
  have "\<exists>d. run_state (W5500RxPoll chip_svc 1600) (sample_w5 full_view)
      = ((int (length [0xAB, 0xAB, 0xAB :: byte]), [0xAB, 0xAB, 0xAB]), (sample_w5 full_view)\<lparr>w5_dev := d\<rparr>)
     \<and> reg16 (cd_view d) 0x28 = reg16 full_view 0x28 + 5 \<and> cmds (cd_view d) = cmds full_view @ [0x40]"
  proof (rule W5500RxPoll_delivers [OF chip_svc_laws v(1) [symmetric] _ _ _ _ p(2)])
    show "chip_load 3 (reg16 full_view 0x28) 2 full_view = [ucast (drop_bit 8 (5 :: u16)), ucast (5 :: u16)]"
      unfolding p(1) r by (rule l)
    show "chip_load 3 (reg16 full_view 0x28 + 2) (length [0xAB, 0xAB, 0xAB :: byte]) full_view = [0xAB, 0xAB, 0xAB]"
      using l(2) r by (simp add: eval_nat_numeral)
  qed (simp_all add: r)
  with v show ?thesis by auto
qed

lemma W5500_safe_witness:
  "\<exists>s n buf s3. run_state (W5500RxPoll (dcspi_svc regfile) 1600) s = ((n, buf), s3) \<and> length buf = nat n \<and> n \<le> 1600"
proof -
  define s :: "(u32 \<Rightarrow> u32) spi w5" where "s = \<lparr>w5_nInit = True, w5_pInit = True, w5_pShutdown = True, w5_pSetCS = True, w5_pRw = True,
     w5_pHwType = True, w5_bus = DCSPI_BUS_SCIF, w5_cs = 0, w5_lock = 0,
     w5_dev = (spi_init (\<lambda>_. 0))\<lparr>s_wScsptr2 := 0xE2\<rparr>\<rparr>"
  have i: "w5_bus s = DCSPI_BUS_SCIF" "\<not> scif_sel (w5_dev s)" by (simp_all add: s_def scif_sel_def)
  obtain n buf s3 where r: "run_state (W5500RxPoll (dcspi_svc regfile) 1600) s = ((n, buf), s3)"
    by (metis prod.exhaust)
  from W5500_safe [OF i refl refl r] r show ?thesis by auto
qed

end
