(* ===== verification/Sdblk.thy ===== *)
theory Sdblk
  imports NetDns Dcspi
begin

text \<open>
  The SD card block driver \<open>drivers/sdcard/sdblk.c\<close> and its FatFs glue \<open>diskio.c\<close>, over the
  SPI transport. The static variables are the fields of \<open>sdst\<close>; \<open>sd_caps\<close> is what was
  published on the boot screen; the log is left out. A read returns its status with the
  bytes it stored.
\<close>

unbundle bit_operations_syntax

record 'd sdst =
  g_nInited :: bool
  g_nByteAddr :: bool
  g_nSectors :: u32
  sd_caps :: "wtext list"
  sd_dev :: 'd

definition on_card :: "('d, 'a) state \<Rightarrow> ('d sdst, 'a) state" where
  "on_card m = State (\<lambda>s. case run_state m (sd_dev s) of (x, d) \<Rightarrow> (x, s\<lparr>sd_dev := d\<rparr>))"

definition Rb :: "'d spisvc \<Rightarrow> ('d sdst, byte) state" where
  "Rb S = on_card (svc_rwbyte S DCSPI_BUS_SCIF 0xFF)"

definition Wb :: "'d spisvc \<Rightarrow> byte \<Rightarrow> ('d sdst, unit) state" where
  "Wb S b = do { _ \<leftarrow> on_card (svc_rwbyte S DCSPI_BUS_SCIF b); ret () }"

definition Cs :: "'d spisvc \<Rightarrow> bool \<Rightarrow> ('d sdst, unit) state" where
  "Cs S nAssert = on_card (svc_setcs S DCSPI_BUS_SCIF nAssert)"

section \<open>Commands\<close>

text \<open>Up to \<open>n\<close> bytes until one has its top bit clear: the R1 response.\<close>

primrec sd_r1 :: "nat \<Rightarrow> 'd spisvc \<Rightarrow> ('d sdst, byte) state" where
  "sd_r1 0 S = ret 0xFF"
| "sd_r1 (Suc n) S = do {
     bResp \<leftarrow> Rb S;
     if bResp AND 0x80 = 0 then ret bResp else sd_r1 n S }"

primrec wb_list :: "byte list \<Rightarrow> 'd spisvc \<Rightarrow> ('d sdst, unit) state" where
  "wb_list [] S = ret ()"
| "wb_list (b # bs) S = do { Wb S b; wb_list bs S }"

definition cmd_bytes :: "nat \<Rightarrow> u32 \<Rightarrow> byte list" where
  "cmd_bytes nCmd dwArg =
     [0x40 OR word_of_nat nCmd, ucast (drop_bit 24 dwArg), ucast (drop_bit 16 dwArg), ucast (drop_bit 8 dwArg),
      ucast dwArg, (if nCmd = 8 then 0x87 else if nCmd = 0 then 0x95 else 0x01)]"

definition SdCmd :: "'d spisvc \<Rightarrow> nat \<Rightarrow> u32 \<Rightarrow> ('d sdst, byte) state" where
  "SdCmd S nCmd dwArg = do { wb_list (cmd_bytes nCmd dwArg) S; sd_r1 16 S }"

text \<open>Whether a byte with the wanted value comes within \<open>n\<close> reads.\<close>

primrec sd_await :: "nat \<Rightarrow> byte \<Rightarrow> 'd spisvc \<Rightarrow> ('d sdst, bool) state" where
  "sd_await 0 v S = ret False"
| "sd_await (Suc n) v S = do { b \<leftarrow> Rb S; if b = v then ret True else sd_await n v S }"

definition SdWaitReady :: "'d spisvc \<Rightarrow> ('d sdst, int) state" where
  "SdWaitReady S = do { r \<leftarrow> sd_await 200000 0xFF S; ret (if r then 0 else -1) }"

primrec rb_n :: "nat \<Rightarrow> 'd spisvc \<Rightarrow> ('d sdst, byte list) state" where
  "rb_n 0 S = ret []"
| "rb_n (Suc n) S = do { b \<leftarrow> Rb S; bs \<leftarrow> rb_n n S; ret (b # bs) }"

section \<open>Bring-up\<close>

definition csd_sectors :: "byte list \<Rightarrow> u32" where
  "csd_sectors abCsd =
     (if drop_bit 6 (abCsd ! 0) = 1
      then let dwCsize = push_bit 16 (ucast (abCsd ! 7 AND 0x3F)) OR push_bit 8 (ucast (abCsd ! 8)) OR ucast (abCsd ! 9)
           in (dwCsize + 1) * 1024
      else let dwCsize = push_bit 10 (ucast (abCsd ! 6 AND 0x03)) OR push_bit 2 (ucast (abCsd ! 7))
                 OR ucast (drop_bit 6 (abCsd ! 8));
               nCsmult = unat (push_bit 1 (abCsd ! 9 AND 0x03) OR drop_bit 7 (abCsd ! 10));
               nRdbllen = unat (abCsd ! 5 AND 0x0F);
               dwBlocks = (dwCsize + 1) * push_bit (nCsmult + 2) 1;
               dwBlocklen = push_bit nRdbllen 1
           in dwBlocks * (dwBlocklen div 512))"

definition SdReadCsd :: "'d spisvc \<Rightarrow> ('d sdst, unit) state" where
  "SdReadCsd S = do {
     r \<leftarrow> SdCmd S 9 0;
     if r \<noteq> 0 then ret ()
     else do {
       tok \<leftarrow> sd_await 100000 0xFE S;
       if \<not> tok then ret ()
       else do {
         abCsd \<leftarrow> rb_n 16 S;
         _ \<leftarrow> rb_n 2 S;
         modify (\<lambda>s. s\<lparr>g_nSectors := csd_sectors abCsd\<rparr>) } } }"

primrec acmd41_loop :: "nat \<Rightarrow> 'd spisvc \<Rightarrow> bool \<Rightarrow> byte \<Rightarrow> ('d sdst, byte) state" where
  "acmd41_loop 0 S nV2 bResp = ret bResp"
| "acmd41_loop (Suc n) S nV2 bResp = do {
     _ \<leftarrow> SdCmd S 55 0;
     bResp \<leftarrow> SdCmd S 41 (if nV2 then 0x40000000 else 0);
     if bResp = 0 then ret bResp else acmd41_loop n S nV2 bResp }"

definition cap_text :: "u32 \<Rightarrow> wtext" where
  "cap_text n =
     (let dwMb = unat n div 2048
      in if dwMb \<ge> 1024 then dec (dwMb div 1024) @ [0x2E] @ dec ((dwMb mod 1024) * 10 div 1024) @ ws '' GB''
         else dec dwMb @ ws '' MB'')"

text \<open>
  \<open>SdInit\<close> in the parts the proofs follow: addressing mode and capacity, publication, what
  follows the version check, the power-up clocks with CMD0, and the version check.
\<close>

definition sd_geometry :: "'d spisvc \<Rightarrow> bool \<Rightarrow> ('d sdst, unit) state" where
  "sd_geometry S nV2 = do {
     r58 \<leftarrow> (if nV2 then SdCmd S 58 0 else ret 0xFF);
     (if nV2 \<and> r58 = 0 then do {
        abOcr \<leftarrow> rb_n 4 S;
        modify (\<lambda>s. s\<lparr>g_nByteAddr := abOcr ! 0 AND 0x40 = 0\<rparr>) }
      else ret ());
     ba \<leftarrow> gets g_nByteAddr;
     (if ba then do { _ \<leftarrow> SdCmd S 16 512; ret () } else ret ());
     SdReadCsd S }"

definition sd_publish :: "'d spisvc \<Rightarrow> ('d sdst, int) state" where
  "sd_publish S = do {
     on_card (svc_settle S 32);
     modify (\<lambda>s. s\<lparr>g_nInited := True\<rparr>);
     modify (\<lambda>s. s\<lparr>sd_caps := sd_caps s @ [cap_text (g_nSectors s)]\<rparr>);
     ret 0 }"

definition sd_init_rest :: "'d spisvc \<Rightarrow> bool \<Rightarrow> ('d sdst, int) state" where
  "sd_init_rest S nV2 = do {
     bResp \<leftarrow> acmd41_loop 20000 S nV2 0x01;
     if bResp \<noteq> 0 then do { Cs S False; ret (-4) }
     else do {
       sd_geometry S nV2;
       Cs S False;
       _ \<leftarrow> Rb S;
       sd_publish S } }"

definition sd_powerup :: "'d spisvc \<Rightarrow> ('d sdst, byte) state" where
  "sd_powerup S = do {
     on_card (svc_settle S 400);
     Cs S False;
     wb_list (replicate 10 0xFF) S;
     Cs S True;
     SdCmd S 0 0 }"

definition sd_identify :: "'d spisvc \<Rightarrow> byte \<Rightarrow> ('d sdst, int) state" where
  "sd_identify S bResp =
     (if bResp \<noteq> 0x01 then do { Cs S False; ret (-2) }
      else do {
        bResp8 \<leftarrow> SdCmd S 8 0x000001AA;
        if bResp8 = 0x01 then do {
          abOcr \<leftarrow> rb_n 4 S;
          if abOcr ! 2 \<noteq> 0x01 \<or> abOcr ! 3 \<noteq> 0xAA then do { Cs S False; ret (-3) }
          else sd_init_rest S True }
        else sd_init_rest S False })"

definition SdInit :: "'d spisvc \<Rightarrow> ('d sdst, int) state" where
  "SdInit S = do {
     modify (\<lambda>s. s\<lparr>g_nInited := False, g_nByteAddr := True, g_nSectors := 0\<rparr>);
     rc \<leftarrow> on_card (svc_init S DCSPI_BUS_SCIF DCSPI_CS_RTS);
     if rc \<noteq> 0 then ret (-1)
     else do { bResp \<leftarrow> sd_powerup S; sd_identify S bResp } }"

section \<open>Sectors\<close>

text \<open>\<open>for (i = 0; i < n; i++) { bTok = Rb(); if (bTok != 0xFF) break; }\<close>\<close>

primrec sd_token :: "nat \<Rightarrow> 'd spisvc \<Rightarrow> ('d sdst, byte) state" where
  "sd_token 0 S = ret 0xFF"
| "sd_token (Suc n) S = do { bTok \<leftarrow> Rb S; if bTok \<noteq> 0xFF then ret bTok else sd_token n S }"

definition step_of :: "bool \<Rightarrow> u32" where
  "step_of ba = (if ba then 512 else 1)"

primrec sd_read_loop :: "nat \<Rightarrow> 'd spisvc \<Rightarrow> u32 \<Rightarrow> ('d sdst, int \<times> byte list) state" where
  "sd_read_loop 0 S dwAddr = do { Cs S False; _ \<leftarrow> Rb S; ret (0, []) }"
| "sd_read_loop (Suc n) S dwAddr = do {
     bR1 \<leftarrow> SdCmd S 17 dwAddr;
     if bR1 \<noteq> 0 then do { Cs S False; ret (-1, []) }
     else do {
       bTok \<leftarrow> sd_token 100000 S;
       if bTok \<noteq> 0xFE then do { Cs S False; ret (-1, []) }
       else do {
         pb \<leftarrow> on_card (svc_rw S DCSPI_BUS_SCIF None 512);
         _ \<leftarrow> rb_n 2 S;
         ba \<leftarrow> gets g_nByteAddr;
         (rc, bs) \<leftarrow> sd_read_loop n S (dwAddr + step_of ba);
         ret (rc, pb @ bs) } } }"

definition SdReadSectors :: "'d spisvc \<Rightarrow> u32 \<Rightarrow> int \<Rightarrow> ('d sdst, int \<times> byte list) state" where
  "SdReadSectors S dwLba nCount = do {
     s \<leftarrow> State_Monad.get;
     if \<not> g_nInited s then ret (-1, [])
     else do {
       Cs S True;
       sd_read_loop (nat nCount) S (if g_nByteAddr s then dwLba * 512 else dwLba) } }"

text \<open>The gap, the start token, the block and its dummy CRC; the data response.\<close>

definition put_block :: "'d spisvc \<Rightarrow> byte list \<Rightarrow> ('d sdst, byte) state" where
  "put_block S pb = do {
     Wb S 0xFF;
     Wb S 0xFE;
     _ \<leftarrow> on_card (svc_rw S DCSPI_BUS_SCIF (Some pb) 512);
     Wb S 0xFF;
     Wb S 0xFF;
     Rb S }"

primrec sd_write_loop :: "nat \<Rightarrow> 'd spisvc \<Rightarrow> u32 \<Rightarrow> byte list \<Rightarrow> ('d sdst, int) state" where
  "sd_write_loop 0 S dwAddr pb = do { Cs S False; _ \<leftarrow> Rb S; ret 0 }"
| "sd_write_loop (Suc n) S dwAddr pb = do {
     bR1 \<leftarrow> SdCmd S 24 dwAddr;
     if bR1 \<noteq> 0 then do { Cs S False; ret (-1) }
     else do {
       r \<leftarrow> put_block S (take 512 pb);
       if r AND 0x1F \<noteq> 0x05 then do { Cs S False; ret (-1) }
       else do {
         w \<leftarrow> SdWaitReady S;
         if w \<noteq> 0 then do { Cs S False; ret (-1) }
         else do {
           ba \<leftarrow> gets g_nByteAddr;
           sd_write_loop n S (dwAddr + step_of ba) (drop 512 pb) } } } }"

definition SdWriteSectors :: "'d spisvc \<Rightarrow> u32 \<Rightarrow> int \<Rightarrow> byte list \<Rightarrow> ('d sdst, int) state" where
  "SdWriteSectors S dwLba nCount pvBuf = do {
     s \<leftarrow> State_Monad.get;
     if \<not> g_nInited s then ret (-1)
     else do {
       Cs S True;
       sd_write_loop (nat nCount) S (if g_nByteAddr s then dwLba * 512 else dwLba) pvBuf } }"

definition SdSectorCount :: "('d sdst, u32) state" where
  "SdSectorCount = gets g_nSectors"

section \<open>The FatFs glue\<close>

datatype dresult = RES_OK | RES_ERROR | RES_PARERR
datatype ioctl_out = OutNone | OutDword u32 | OutWord u16

text \<open>\<open>STA_NOINIT\<close> is bit 0 of a \<open>DSTATUS\<close>.\<close>

definition disk_initialize :: "'d spisvc \<Rightarrow> ('d sdst, byte) state" where
  "disk_initialize S = do { rc \<leftarrow> SdInit S; ret (if rc \<noteq> 0 then 0x01 else 0) }"

definition disk_status :: "('d sdst, byte) state" where
  "disk_status = ret 0"

definition disk_read :: "'d spisvc \<Rightarrow> u32 \<Rightarrow> u32 \<Rightarrow> ('d sdst, dresult \<times> byte list) state" where
  "disk_read S dwSector dwCount = do {
     (rc, bs) \<leftarrow> SdReadSectors S dwSector (sint dwCount);
     ret (if rc \<noteq> 0 then RES_ERROR else RES_OK, bs) }"

definition disk_write :: "'d spisvc \<Rightarrow> byte list \<Rightarrow> u32 \<Rightarrow> u32 \<Rightarrow> ('d sdst, dresult) state" where
  "disk_write S pbBuff dwSector dwCount = do {
     rc \<leftarrow> SdWriteSectors S dwSector (sint dwCount) pbBuff;
     ret (if rc \<noteq> 0 then RES_ERROR else RES_OK) }"

definition disk_ioctl :: "nat \<Rightarrow> ('d sdst, dresult \<times> ioctl_out) state" where
  "disk_ioctl bCmd =
     (if bCmd = 0 then ret (RES_OK, OutNone)
      else if bCmd = 1 then do { n \<leftarrow> SdSectorCount; ret (RES_OK, OutDword n) }
      else if bCmd = 2 then ret (RES_OK, OutWord 512)
      else if bCmd = 3 then ret (RES_OK, OutDword 1)
      else ret (RES_PARERR, OutNone))"

definition get_fattime :: "nat \<Rightarrow> nat \<Rightarrow> nat \<Rightarrow> nat \<Rightarrow> nat \<Rightarrow> nat \<Rightarrow> u32" where
  "get_fattime wYear wMonth wDay wHour wMinute wSecond =
     push_bit 25 (word_of_int (int wYear - 1980)) OR push_bit 21 (word_of_nat wMonth) OR push_bit 16 (word_of_nat wDay)
     OR push_bit 11 (word_of_nat wHour) OR push_bit 5 (word_of_nat wMinute) OR drop_bit 1 (word_of_nat wSecond)"


section \<open>The card is deselected on every path\<close>

lemma run_on_card: "run_state (on_card m) s = (case run_state m (sd_dev s) of (x, d) \<Rightarrow> (x, s\<lparr>sd_dev := d\<rparr>))"
  by (simp add: on_card_def)

locale sd_bus = spi_bus S DCSPI_BUS_SCIF sel for S :: "'d spisvc" and sel :: "'d \<Rightarrow> bool"
begin

lemma sel_Cs: "run_state (Cs S b) s = (u, s') \<Longrightarrow> sel (sd_dev s') = b"
  using sel_setcs [of b "sd_dev s"] by (auto simp: Cs_def run_on_card split: prod.splits)

lemma sel_Rb: "run_state (Rb S) s = (x, s') \<Longrightarrow> sel (sd_dev s') = sel (sd_dev s)"
  using state_io_relD [OF sel_rwbyte] by (fastforce simp: Rb_def run_on_card same_def split: prod.splits)

lemma sel_end: "run_state (do { Cs S False; _ \<leftarrow> Rb S; m }) s = (x, s') \<Longrightarrow>
    \<exists>t. \<not> sel (sd_dev t) \<and> run_state m t = (x, s')"
  using sel_Cs sel_Rb by (fastforce split: prod.splits)

lemma sel_fail: "run_state (do { Cs S False; ret r }) s = (x, s') \<Longrightarrow> x = r \<and> \<not> sel (sd_dev s')"
  using sel_Cs by (fastforce split: prod.splits)

lemma read_loop_closes:
  "run_state (sd_read_loop n S a) s = ((rc, bs), s') \<Longrightarrow>
     \<not> sel (sd_dev s') \<and> (rc = 0 \<and> length bs = 512 * n \<or> rc = -1 \<and> length bs < 512 * n)"
proof (induction n arbitrary: a s rc bs s')
  case 0
  then have "\<exists>t. \<not> sel (sd_dev t) \<and> run_state (ret (0, [])) t = ((rc, bs), s')"
    unfolding sd_read_loop.simps by (rule sel_end)
  then show ?case by auto
next
  case (Suc n)
  obtain r s1 where 1: "run_state (SdCmd S 17 a) s = (r, s1)" by fastforce
  show ?case
  proof (cases "r = 0")
    case False
    then have "run_state (do { Cs S False; ret (-1, []) }) s1 = ((rc, bs), s')"
      using Suc.prems 1 by simp
    then show ?thesis using sel_fail by fastforce
  next
    case True
    obtain tk s2 where 2: "run_state (sd_token 100000 S) s1 = (tk, s2)" by fastforce
    show ?thesis
    proof (cases "tk = 0xFE")
      case False
      then have "run_state (do { Cs S False; ret (-1, []) }) s2 = ((rc, bs), s')"
        using Suc.prems 1 2 True by simp
      then show ?thesis using sel_fail by fastforce
    next
      case tk: True
      obtain pb s3 where 3: "run_state (on_card (svc_rw S DCSPI_BUS_SCIF None 512)) s2 = (pb, s3)" by fastforce
      obtain cr s4 where 4: "run_state (rb_n 2 S) s3 = (cr, s4)" by fastforce
      obtain rc' bs' s5 where 5: "run_state (sd_read_loop n S (a + step_of (g_nByteAddr s4))) s4 = ((rc', bs'), s5)"
        by (metis prod.exhaust)
      have "rc = rc' \<and> bs = pb @ bs' \<and> s' = s5" using Suc.prems 1 2 3 4 5 True tk by simp
      moreover have "length pb = 512"
        using length_rw [of None 512 "sd_dev s2"] 3 by (auto simp: run_on_card split: prod.splits)
      ultimately show ?thesis using Suc.IH [OF 5] by auto
    qed
  qed
qed

lemma write_loop_closes:
  "run_state (sd_write_loop n S a pb) s = (rc, s') \<Longrightarrow> \<not> sel (sd_dev s') \<and> (rc = 0 \<or> rc = -1)"
proof (induction n arbitrary: a pb s)
  case 0
  then have "\<exists>t. \<not> sel (sd_dev t) \<and> run_state (ret 0) t = (rc, s')"
    unfolding sd_write_loop.simps by (rule sel_end)
  then show ?case by auto
next
  case (Suc n)
  have fail: "\<not> sel (sd_dev s') \<and> (rc = 0 \<or> rc = -1)"
    if "run_state (do { Cs S False; ret (-1) }) t = (rc, s')" for t using sel_fail [OF that] by simp
  obtain r s1 where 1: "run_state (SdCmd S 24 a) s = (r, s1)" by fastforce
  obtain r2 s2 where 2: "run_state (put_block S (take 512 pb)) s1 = (r2, s2)" by fastforce
  obtain w s3 where 3: "run_state (SdWaitReady S) s2 = (w, s3)" by fastforce
  have "run_state (sd_write_loop (Suc n) S a pb) s =
      (if r \<noteq> 0 then run_state (do { Cs S False; ret (-1) }) s1
       else if r2 AND 0x1F \<noteq> 0x05 then run_state (do { Cs S False; ret (-1) }) s2
       else if w \<noteq> 0 then run_state (do { Cs S False; ret (-1) }) s3
       else run_state (sd_write_loop n S (a + step_of (g_nByteAddr s3)) (drop 512 pb)) s3)"
    using 1 2 3 by simp
  then show ?case using Suc.prems fail Suc.IH by (simp split: if_splits)
qed


lemma init_rest_closes:
  assumes "run_state (sd_init_rest S v2) s = (rc, s')"
  shows "\<not> sel (sd_dev s') \<and> rc \<in> {0, -4}"
proof -
  obtain b s1 where 1: "run_state (acmd41_loop 20000 S v2 0x01) s = (b, s1)" by fastforce
  define s2 where "s2 = snd (run_state (sd_geometry S v2) s1)"
  have 2: "run_state (sd_geometry S v2) s1 = ((), s2)" by (simp add: s2_def prod_eq_iff)
  have e: "run_state (sd_init_rest S v2) s =
     (if b \<noteq> 0 then run_state (do { Cs S False; ret (-4) }) s1
      else run_state (do { Cs S False; _ \<leftarrow> Rb S; sd_publish S }) s2)"
    using 1 2 by (simp add: sd_init_rest_def)
  show ?thesis
  proof (cases "b = 0")
    case False
    then show ?thesis using assms e sel_fail by fastforce
  next
    case True
    with assms e have "run_state (do { Cs S False; _ \<leftarrow> Rb S; sd_publish S }) s2 = (rc, s')" by simp
    from sel_end [OF this] obtain t where t: "\<not> sel (sd_dev t)" "run_state (sd_publish S) t = (rc, s')" by blast
    have "sel (snd (run_state (svc_settle S 32) (sd_dev t))) = sel (sd_dev t)"
      using io_snd [OF sel_settle, of "sd_dev t" 32] by (simp add: same_def)
    with t show ?thesis by (auto simp: sd_publish_def run_on_card split: prod.splits)
  qed
qed

lemma identify_closes:
  assumes "run_state (sd_identify S b) t = (rc, s')"
  shows "\<not> sel (sd_dev s')"
proof -
  obtain b8 s2 where 2: "run_state (SdCmd S 8 0x000001AA) t = (b8, s2)" by fastforce
  obtain oc s3 where 3: "run_state (rb_n 4 S) s2 = (oc, s3)" by fastforce
  have e: "run_state (sd_identify S b) t =
     (if b \<noteq> 0x01 then run_state (do { Cs S False; ret (-2) }) t
      else if b8 \<noteq> 0x01 then run_state (sd_init_rest S False) s2
      else if oc ! 2 \<noteq> 0x01 \<or> oc ! 3 \<noteq> 0xAA then run_state (do { Cs S False; ret (-3) }) s3
      else run_state (sd_init_rest S True) s3)"
    using 2 3 by (simp add: sd_identify_def)
  have "(\<exists>r u. run_state (do { Cs S False; ret r }) u = (rc, s')) \<or> (\<exists>v u. run_state (sd_init_rest S v) u = (rc, s'))"
    using assms unfolding e by (simp only: split: if_splits) blast+
  then show ?thesis by (blast dest: sel_fail init_rest_closes)
qed

lemma init_closes:
  assumes "run_state (SdInit S) s = (rc, s')" and "\<And>d. fst (run_state (svc_init S DCSPI_BUS_SCIF DCSPI_CS_RTS) d) = 0"
  shows "\<not> sel (sd_dev s')"
proof -
  obtain rc0 s0 where 0: "run_state (on_card (svc_init S DCSPI_BUS_SCIF DCSPI_CS_RTS))
      (s\<lparr>g_nInited := False, g_nByteAddr := True, g_nSectors := 0\<rparr>) = (rc0, s0)" by fastforce
  obtain b s1 where 1: "run_state (sd_powerup S) s0 = (b, s1)" by fastforce
  have "rc0 = 0" using 0 assms(2) [of "sd_dev s"] by (auto simp: run_on_card split: prod.splits)
  then have "run_state (sd_identify S b) s1 = (rc, s')"
    using 0 1 assms by (simp add: SdInit_def)
  then show ?thesis by (rule identify_closes)
qed

end

interpretation scif_sd: sd_bus "dcspi_svc H" scif_sel ..

interpretation line_sd: sd_bus line_svc ln_cs ..


text \<open>
  Whatever the hardware answers, on success and on every error path, a read, a write and
  a bring-up leave the card deselected; a read reports success exactly when it stored all
  the sectors asked for, and never stores more.
\<close>

theorem Sd_deselects:
  assumes "g_nInited s" and "run_state (SdReadSectors (dcspi_svc H) lba n) s = ((rc, bs), s1)"
    and "run_state (SdWriteSectors (dcspi_svc H) lba n buf) s = (rc2, s2)"
    and "run_state (SdInit (dcspi_svc H)) s = (rc3, s3)"
  shows "\<not> scif_sel (sd_dev s1) \<and> (rc = 0 \<and> length bs = 512 * nat n \<or> rc = -1 \<and> length bs < 512 * nat n)
     \<and> \<not> scif_sel (sd_dev s2) \<and> \<not> scif_sel (sd_dev s3)"
proof -
  have init0: "fst (run_state (svc_init (dcspi_svc H) DCSPI_BUS_SCIF DCSPI_CS_RTS) d) = 0" for d
    by (simp add: dcspi_svc_def SpiInit_def in_kmode_def SetKMode_def split: prod.splits)
  obtain t1 where "run_state (sd_read_loop (nat n) (dcspi_svc H) (if g_nByteAddr s then lba * 512 else lba)) t1 = ((rc, bs), s1)"
    using assms(1,2) by (auto simp: SdReadSectors_def split: prod.splits)
  moreover obtain t2 where
    "run_state (sd_write_loop (nat n) (dcspi_svc H) (if g_nByteAddr s then lba * 512 else lba) buf) t2 = (rc2, s2)"
    using assms(1,3) by (auto simp: SdWriteSectors_def split: prod.splits)
  ultimately show ?thesis
    using scif_sd.read_loop_closes scif_sd.write_loop_closes scif_sd.init_closes [OF assms(4) init0] by blast
qed

section \<open>The wire\<close>

text \<open>\<open>go out k s\<close>: the state after \<open>out\<close> was sent and \<open>k\<close> of the card's bytes were taken.\<close>

definition go :: "byte list \<Rightarrow> nat \<Rightarrow> spiline sdst \<Rightarrow> spiline sdst" where
  "go out k s = s\<lparr>sd_dev := (sd_dev s)\<lparr>ln_rx := drop k (ln_rx (sd_dev s)), ln_tx := ln_tx (sd_dev s) @ out\<rparr>\<rparr>"

abbreviation rxs :: "spiline sdst \<Rightarrow> byte list" where
  "rxs s \<equiv> ln_rx (sd_dev s)"

lemma go_go [simp]: "go o2 k2 (go o1 k1 s) = go (o1 @ o2) (k1 + k2) s"
  by (simp add: go_def add.commute)

lemma go_0 [simp]: "go [] 0 s = s"
  by (simp add: go_def)

lemma go_fields [simp]: "rxs (go out k s) = drop k (rxs s)" "g_nByteAddr (go out k s) = g_nByteAddr s"
  "ln_tx (sd_dev (go out k s)) = ln_tx (sd_dev s) @ out" "ln_cs (sd_dev (go out k s)) = ln_cs (sd_dev s)"
  by (simp_all add: go_def)

lemma line_byte: "rxs s = x # xs \<Longrightarrow> run_state (on_card (line_rwbyte b)) s = (x, go [b] 1 s)"
  by (simp add: run_on_card line_rwbyte_def go_def)

lemma line_Rb: "rxs s = x # xs \<Longrightarrow> run_state (Rb line_svc) s = (x, go [0xff] 1 s)"
  using line_byte [of s x xs "0xff"] by (simp add: Rb_def line_svc_def)

lemma line_Wb: "rxs s = x # xs \<Longrightarrow> run_state (Wb line_svc b) s = ((), go [b] 1 s)"
  using line_byte [of s x xs b] by (simp add: Wb_def line_svc_def)

lemma line_wb_list: "length bs \<le> length (rxs s) \<Longrightarrow> run_state (wb_list bs line_svc) s = ((), go bs (length bs) s)"
proof (induction bs arbitrary: s)
  case (Cons b bs)
  then obtain x xs where "rxs s = x # xs" by (cases "rxs s") auto
  with line_Wb [OF this, of b] Cons show ?case by simp
qed simp

lemma line_rb_n: "n \<le> length (rxs s) \<Longrightarrow> run_state (rb_n n line_svc) s = (take n (rxs s), go (replicate n 0xff) n s)"
proof (induction n arbitrary: s)
  case (Suc n)
  then obtain x xs where x: "rxs s = x # xs" by (cases "rxs s") auto
  with line_Rb [OF x] Suc show ?case by simp
qed simp

lemma line_block_aux: "n \<le> length (ln_rx d) \<Longrightarrow> run_state (line_rw n t) d =
   (take n (ln_rx d), d\<lparr>ln_rx := drop n (ln_rx d),
      ln_tx := ln_tx d @ (case t of None \<Rightarrow> replicate n 0xff | Some xs \<Rightarrow> map (\<lambda>i. hd (drop i xs)) [0..<n])\<rparr>)"
proof (induction n arbitrary: d t)
  case (Suc n)
  then obtain x xs where x: "ln_rx d = x # xs" by (cases "ln_rx d") auto
  have "map (\<lambda>i. hd (drop i ys)) [0..<Suc n] = hd ys # map (\<lambda>i. hd (drop i (tl ys))) [0..<n]" for ys :: "byte list"
    by (simp add: upt_conv_Cons map_Suc_upt [symmetric] drop_Suc del: upt_Suc)
  with x Suc show ?case by (cases t) (simp_all add: line_rwbyte_def del: upt_Suc)
qed (simp split: option.splits)

lemma line_block:
  assumes "n \<le> length (rxs s)"
  shows "run_state (on_card (svc_rw line_svc DCSPI_BUS_SCIF None n)) s = (take n (rxs s), go (replicate n 0xff) n s)"
    and "length bs = n \<Longrightarrow> run_state (on_card (svc_rw line_svc DCSPI_BUS_SCIF (Some bs) n)) s = (take n (rxs s), go bs n s)"
proof -
  show "run_state (on_card (svc_rw line_svc DCSPI_BUS_SCIF None n)) s = (take n (rxs s), go (replicate n 0xff) n s)"
    using line_block_aux [OF assms, of None] by (simp add: run_on_card line_svc_def go_def)
  assume "length bs = n"
  then have "map (\<lambda>i. hd (drop i bs)) [0..<n] = bs" by (intro nth_equalityI) (simp_all add: hd_drop_conv_nth)
  then show "run_state (on_card (svc_rw line_svc DCSPI_BUS_SCIF (Some bs) n)) s = (take n (rxs s), go bs n s)"
    using line_block_aux [OF assms, of "Some bs"] by (simp add: run_on_card line_svc_def go_def)
qed

lemma line_r1:
  "rxs s = wt @ r # rest \<Longrightarrow> \<forall>w \<in> set wt. w AND 0x80 \<noteq> 0 \<Longrightarrow> r AND 0x80 = 0 \<Longrightarrow> length wt < n \<Longrightarrow>
     run_state (sd_r1 n line_svc) s = (r, go (replicate (Suc (length wt)) 0xff) (Suc (length wt)) s)"
proof (induction n arbitrary: wt s)
  case (Suc n)
  show ?case
  proof (cases wt)
    case Nil
    then show ?thesis using line_Rb [of s r rest] Suc.prems by simp
  next
    case (Cons w wt')
    then show ?thesis using line_Rb [of s w "wt' @ r # rest"] Suc.IH [of "go [0xff] 1 s" wt'] Suc.prems by simp
  qed
qed simp

lemma line_await:
  "rxs s = wt @ v # rest \<Longrightarrow> v \<notin> set wt \<Longrightarrow> length wt < n \<Longrightarrow>
     run_state (sd_await n v line_svc) s = (True, go (replicate (Suc (length wt)) 0xff) (Suc (length wt)) s)"
proof (induction n arbitrary: wt s)
  case (Suc n)
  show ?case
  proof (cases wt)
    case Nil
    then show ?thesis using line_Rb [of s v rest] Suc.prems by simp
  next
    case (Cons w wt')
    then show ?thesis using line_Rb [of s w "wt' @ v # rest"] Suc.IH [of "go [0xff] 1 s" wt'] Suc.prems by auto
  qed
qed simp

lemma line_token:
  "rxs s = replicate k 0xff @ t # rest \<Longrightarrow> t \<noteq> 0xff \<Longrightarrow> k < n \<Longrightarrow>
     run_state (sd_token n line_svc) s = (t, go (replicate (Suc k) 0xff) (Suc k) s)"
proof (induction n arbitrary: k s)
  case (Suc n)
  show ?case
  proof (cases k)
    case 0
    then show ?thesis using line_Rb [of s t rest] Suc.prems by simp
  next
    case (Suc j)
    then show ?thesis using line_Rb [of s "0xff" "replicate j 0xff @ t # rest"] Suc.IH [of "go [0xff] 1 s" j] Suc.prems by simp
  qed
qed simp

lemma line_cmd:
  assumes "rxs s = g @ wt @ r # rest" and "length g = 6" and "\<forall>w \<in> set wt. w AND 0x80 \<noteq> 0" and "r AND 0x80 = 0"
    and "length wt < 16"
  shows "run_state (SdCmd line_svc c a) s =
    (r, go (cmd_bytes c a @ replicate (Suc (length wt)) 0xff) (6 + Suc (length wt)) s)"
proof -
  have l: "length (cmd_bytes c a) = 6" by (simp add: cmd_bytes_def)
  have "run_state (wb_list (cmd_bytes c a) line_svc) s = ((), go (cmd_bytes c a) 6 s)"
    using line_wb_list [of "cmd_bytes c a" s] assms(1,2) l by simp
  moreover have "rxs (go (cmd_bytes c a) 6 s) = wt @ r # rest" using assms(1,2) by simp
  ultimately show ?thesis
    using line_r1 [of "go (cmd_bytes c a) 6 s" wt r rest 16] assms(3-5) by (simp add: SdCmd_def)
qed


text \<open>
  What a card sends for one block read: six bytes during the command, busy bytes, the R1
  response, the wait for the token, the block and its CRC; and for one block written:
  the command phase, two bytes during gap and token, 514 during block and CRC, the data
  response, the busy bytes and the byte that ends them.
\<close>

record rdframe =
  rf_g :: "byte list"
  rf_wait :: "byte list"
  rf_gap :: nat
  rf_data :: "byte list"
  rf_crc :: "byte list"

definition rd_ok :: "rdframe \<Rightarrow> bool" where
  "rd_ok f \<longleftrightarrow> length (rf_g f) = 6 \<and> (\<forall>w \<in> set (rf_wait f). w AND 0x80 \<noteq> 0) \<and> length (rf_wait f) < 16
     \<and> rf_gap f < 100000 \<and> length (rf_data f) = 512 \<and> length (rf_crc f) = 2"

definition enc_rd :: "rdframe \<Rightarrow> byte list" where
  "enc_rd f = rf_g f @ rf_wait f @ [0] @ replicate (rf_gap f) 0xff @ [0xfe] @ rf_data f @ rf_crc f"

definition sent_rd :: "u32 \<Rightarrow> rdframe \<Rightarrow> byte list" where
  "sent_rd a f = cmd_bytes 17 a @ replicate (length (rf_wait f) + rf_gap f + 516) 0xff"

fun sent_rds :: "bool \<Rightarrow> u32 \<Rightarrow> rdframe list \<Rightarrow> byte list" where
  "sent_rds ba a [] = [0xff]"
| "sent_rds ba a (f # fs) = sent_rd a f @ sent_rds ba (a + step_of ba) fs"

record wrframe =
  wf_g :: "byte list"
  wf_wait :: "byte list"
  wf_junk :: "byte list"
  wf_resp :: byte
  wf_busy :: "byte list"

definition wr_ok :: "wrframe \<Rightarrow> bool" where
  "wr_ok f \<longleftrightarrow> length (wf_g f) = 6 \<and> (\<forall>w \<in> set (wf_wait f). w AND 0x80 \<noteq> 0) \<and> length (wf_wait f) < 16
     \<and> length (wf_junk f) = 516 \<and> wf_resp f AND 0x1F = 0x05 \<and> 0xff \<notin> set (wf_busy f) \<and> length (wf_busy f) < 200000"

definition enc_wr :: "wrframe \<Rightarrow> byte list" where
  "enc_wr f = wf_g f @ wf_wait f @ [0] @ wf_junk f @ [wf_resp f] @ wf_busy f @ [0xff]"

definition sent_wr :: "u32 \<Rightarrow> wrframe \<Rightarrow> byte list \<Rightarrow> byte list" where
  "sent_wr a f d = cmd_bytes 24 a @ replicate (Suc (length (wf_wait f))) 0xff @ [0xff, 0xfe] @ d
     @ replicate (length (wf_busy f) + 4) 0xff"

fun sent_wrs :: "bool \<Rightarrow> u32 \<Rightarrow> (wrframe \<times> byte list) list \<Rightarrow> byte list" where
  "sent_wrs ba a [] = [0xff]"
| "sent_wrs ba a (p # ps) = sent_wr a (fst p) (snd p) @ sent_wrs ba (a + step_of ba) ps"

lemma line_close:
  assumes "rxs s = z # rest"
  shows "\<exists>s'. run_state (do { Cs line_svc False; _ \<leftarrow> Rb line_svc; ret x }) s = (x, s') \<and> rxs s' = rest
     \<and> ln_tx (sd_dev s') = ln_tx (sd_dev s) @ [0xff] \<and> \<not> ln_cs (sd_dev s')"
  using assms by (simp add: Cs_def Rb_def run_on_card line_svc_def line_rwbyte_def)

lemma read_loop_line:
  "rxs s = concat (map enc_rd fs) @ z # rest \<Longrightarrow> \<forall>f \<in> set fs. rd_ok f \<Longrightarrow>
   \<exists>s'. run_state (sd_read_loop (length fs) line_svc a) s = ((0, concat (map rf_data fs)), s') \<and> rxs s' = rest
     \<and> ln_tx (sd_dev s') = ln_tx (sd_dev s) @ sent_rds (g_nByteAddr s) a fs \<and> \<not> ln_cs (sd_dev s')"
proof (induction fs arbitrary: s a)
  case Nil
  then show ?case using line_close [of s z rest "(0, [])"] by simp
next
  case (Cons f fs)
  let ?R = "concat (map enc_rd fs) @ z # rest" and ?w = "length (rf_wait f)"
  have ok: "length (rf_g f) = 6" "\<forall>w \<in> set (rf_wait f). w AND 0x80 \<noteq> 0" "?w < 16"
    "rf_gap f < 100000" "length (rf_data f) = 512" "length (rf_crc f) = 2"
    using Cons.prems(2) by (simp_all add: rd_ok_def)
  have r0: "rxs s = rf_g f @ rf_wait f @ 0 # replicate (rf_gap f) 0xff @ 0xfe # rf_data f @ rf_crc f @ ?R"
    using Cons.prems(1) by (simp add: enc_rd_def [of f])
  define s1 where "s1 = go (cmd_bytes 17 a @ replicate (Suc ?w) 0xff) (6 + Suc ?w) s"
  have 1: "run_state (SdCmd line_svc 17 a) s = (0, s1)"
    using line_cmd [OF r0 ok(1,2) _ ok(3)] by (simp add: s1_def)
  have r1: "rxs s1 = replicate (rf_gap f) 0xff @ 0xfe # rf_data f @ rf_crc f @ ?R"
    using r0 ok(1) by (simp add: s1_def)
  define s2 where "s2 = go (replicate (Suc (rf_gap f)) 0xff) (Suc (rf_gap f)) s1"
  have 2: "run_state (sd_token 100000 line_svc) s1 = (0xfe, s2)"
    using line_token [OF r1 _ ok(4)] by (simp add: s2_def)
  have r2: "rxs s2 = rf_data f @ rf_crc f @ ?R" using r1 by (simp add: s2_def)
  define s3 where "s3 = go (replicate 512 0xff) 512 s2"
  have 3: "run_state (on_card (svc_rw line_svc DCSPI_BUS_SCIF None 512)) s2 = (rf_data f, s3)"
    using line_block(1) [of 512 s2] r2 ok(5) by (simp add: s3_def)
  have r3: "rxs s3 = rf_crc f @ ?R" using r2 ok(5) by (simp add: s3_def)
  define s4 where "s4 = go (replicate 2 0xff) 2 s3"
  have 4: "run_state (rb_n 2 line_svc) s3 = (rf_crc f, s4)"
    using line_rb_n [of 2 s3] r3 ok(6) by (simp add: s4_def)
  have r4: "rxs s4 = ?R" unfolding s4_def go_fields r3 using ok(6) by simp
  have ba: "g_nByteAddr s4 = g_nByteAddr s" by (simp add: s4_def s3_def s2_def s1_def)
  from Cons.IH [OF r4, of "a + step_of (g_nByteAddr s)"] Cons.prems(2) obtain s' where
    5: "run_state (sd_read_loop (length fs) line_svc (a + step_of (g_nByteAddr s))) s4 = ((0, concat (map rf_data fs)), s')"
      "rxs s' = rest" "ln_tx (sd_dev s') = ln_tx (sd_dev s4) @ sent_rds (g_nByteAddr s) (a + step_of (g_nByteAddr s)) fs"
      "\<not> ln_cs (sd_dev s')"
    using ba by auto
  have "replicate (Suc ?w) 0xff @ replicate (Suc (rf_gap f)) 0xff @ replicate 512 0xff @ replicate 2 (0xff :: byte)
      = replicate (?w + rf_gap f + 516) 0xff"
    unfolding replicate_add [symmetric] by (rule arg_cong [of _ _ "\<lambda>k. replicate k 0xff"]) simp
  then have "ln_tx (sd_dev s4) = ln_tx (sd_dev s) @ sent_rd a f"
    unfolding s4_def s3_def s2_def s1_def sent_rd_def go_go go_fields by (simp only: append_assoc)
  with 5 show ?case using 1 2 3 4 ba by (intro exI [of _ s']) simp
qed

text \<open>
  C7: with a card that answers each block read, after any tolerated number of busy bytes,
  with the block and its CRC, \<open>SdReadSectors\<close> stores exactly the blocks in order, having
  sent one CMD17 per block with consecutive addresses (byte addresses for an SDSC card).
\<close>

theorem SdReadSectors_reads:
  assumes "g_nInited s" and "rxs s = concat (map enc_rd fs) @ [z]" and "\<forall>f \<in> set fs. rd_ok f"
    and "a = (if g_nByteAddr s then lba * 512 else lba)"
  shows "\<exists>s'. run_state (SdReadSectors line_svc lba (int (length fs))) s = ((0, concat (map rf_data fs)), s')
     \<and> rxs s' = [] \<and> ln_tx (sd_dev s') = ln_tx (sd_dev s) @ sent_rds (g_nByteAddr s) a fs \<and> \<not> ln_cs (sd_dev s')"
proof -
  define s0 where "s0 = s\<lparr>sd_dev := (sd_dev s)\<lparr>ln_cs := True\<rparr>\<rparr>"
  have "run_state (SdReadSectors line_svc lba (int (length fs))) s = run_state (sd_read_loop (length fs) line_svc a) s0"
    using assms(1,4) by (simp add: SdReadSectors_def Cs_def run_on_card line_svc_def s0_def)
  moreover have "rxs s0 = concat (map enc_rd fs) @ z # []" using assms(2) by (simp add: s0_def)
  ultimately show ?thesis
    using read_loop_line [of s0 fs z "[]" a] assms(3) by (simp add: s0_def)
qed

lemma two_elems: "length xs = 2 \<Longrightarrow> \<exists>a b. xs = [a, b]"
  by (cases xs; cases "tl xs") auto

lemma rxs_go: "rxs s = xs @ ys \<Longrightarrow> length xs = k \<Longrightarrow> rxs (go out k s) = ys"
  by simp

lemma line_put_block:
  assumes "rxs s = j @ r # rest" and "length j = 516" and "length d = 512"
  shows "run_state (put_block line_svc d) s = (r, go ([0xff, 0xfe] @ d @ [0xff, 0xff, 0xff]) 517 s)"
proof -
  define js where "js = drop 2 j"
  have jl: "j = take 2 j @ js" "length (take 2 j) = 2" "length js = 514" using assms(2) by (simp_all add: js_def)
  obtain j0 j1 where "take 2 j = [j0, j1]" using two_elems [OF jl(2)] by blast
  note t2 = this
  have "j = [j0, j1] @ js" using jl(1) unfolding t2 .
  then have j: "j = j0 # j1 # js" "length js = 514" using jl(3) by simp_all
  have r0: "rxs s = [j0] @ j1 # js @ r # rest" using assms(1) j by simp
  define s1 where "s1 = go [0xff] 1 s"
  have 1: "run_state (Wb line_svc 0xff) s = ((), s1)" using line_Wb r0 by (simp add: s1_def)
  have r1: "rxs s1 = [j1] @ js @ r # rest" unfolding s1_def by (subst rxs_go [OF r0]) simp_all
  define s2 where "s2 = go [0xfe] 1 s1"
  have 2: "run_state (Wb line_svc 0xfe) s1 = ((), s2)" using line_Wb r1 by (simp add: s2_def)
  have r2: "rxs s2 = take 512 js @ drop 512 js @ r # rest" unfolding s2_def by (subst rxs_go [OF r1]) simp_all
  define s3 where "s3 = go d 512 s2"
  have 3: "run_state (on_card (svc_rw line_svc DCSPI_BUS_SCIF (Some d) 512)) s2 = (take 512 (rxs s2), s3)"
    unfolding s3_def by (rule line_block(2)) (use r2 j assms(3) in simp_all)
  have "length (drop 512 js) = 2" using j by simp
  then obtain k0 k1 where k: "drop 512 js = [k0, k1]" using two_elems by blast
  have r3: "rxs s3 = [k0] @ k1 # r # rest" unfolding s3_def by (subst rxs_go [OF r2]) (use j k in simp_all)
  define s4 where "s4 = go [0xff] 1 s3"
  have 4: "run_state (Wb line_svc 0xff) s3 = ((), s4)" using line_Wb r3 by (simp add: s4_def)
  have r4: "rxs s4 = [k1] @ r # rest" unfolding s4_def by (subst rxs_go [OF r3]) simp_all
  define s5 where "s5 = go [0xff] 1 s4"
  have 5: "run_state (Wb line_svc 0xff) s4 = ((), s5)" using line_Wb r4 by (simp add: s5_def)
  have r5: "rxs s5 = [r] @ rest" unfolding s5_def by (subst rxs_go [OF r4]) simp_all
  have 6: "run_state (Rb line_svc) s5 = (r, go [0xff] 1 s5)" using line_Rb r5 by simp
  have "go [0xff] 1 s5 = go ([0xff, 0xfe] @ d @ [0xff, 0xff, 0xff]) 517 s"
    unfolding s5_def s4_def s3_def s2_def s1_def go_go by simp
  then show ?thesis
    unfolding put_block_def run_state_bind 1 2 3 4 5 6 prod.case by simp
qed


lemma write_loop_line:
  "rxs s = concat (map (enc_wr \<circ> fst) ps) @ z # rest \<Longrightarrow> \<forall>p \<in> set ps. wr_ok (fst p) \<and> length (snd p) = 512 \<Longrightarrow>
   \<exists>s'. run_state (sd_write_loop (length ps) line_svc a (concat (map snd ps))) s = (0, s') \<and> rxs s' = rest
     \<and> ln_tx (sd_dev s') = ln_tx (sd_dev s) @ sent_wrs (g_nByteAddr s) a ps \<and> \<not> ln_cs (sd_dev s')"
proof (induction ps arbitrary: s a)
  case Nil
  then show ?case using line_close [of s z rest "0 :: int"] by simp
next
  case (Cons p ps)
  obtain f d where p: "p = (f, d)" by fastforce
  let ?R = "concat (map (enc_wr \<circ> fst) ps) @ z # rest" and ?w = "length (wf_wait f)"
  have ok: "length (wf_g f) = 6" "\<forall>w \<in> set (wf_wait f). w AND 0x80 \<noteq> 0" "?w < 16" "length (wf_junk f) = 516"
    "wf_resp f AND 0x1F = 0x05" "0xff \<notin> set (wf_busy f)" "length (wf_busy f) < 200000" "length d = 512"
    using Cons.prems(2) by (simp_all add: wr_ok_def p)
  have r0: "rxs s = wf_g f @ wf_wait f @ 0 # wf_junk f @ wf_resp f # wf_busy f @ 0xff # ?R"
    using Cons.prems(1) by (simp add: enc_wr_def [of f] p comp_def)
  define s1 where "s1 = go (cmd_bytes 24 a @ replicate (Suc ?w) 0xff) (6 + Suc ?w) s"
  have 1: "run_state (SdCmd line_svc 24 a) s = (0, s1)"
    using line_cmd [OF r0 ok(1,2) _ ok(3)] by (simp add: s1_def)
  have r1: "rxs s1 = wf_junk f @ wf_resp f # wf_busy f @ 0xff # ?R"
    using r0 ok(1) by (simp add: s1_def)
  define s2 where "s2 = go ([0xff, 0xfe] @ d @ [0xff, 0xff, 0xff]) 517 s1"
  have 2: "run_state (put_block line_svc d) s1 = (wf_resp f, s2)"
    using line_put_block [OF r1 ok(4,8)] by (simp add: s2_def)
  have "rxs s1 = (wf_junk f @ [wf_resp f]) @ wf_busy f @ 0xff # ?R" using r1 by simp
  then have r2: "rxs s2 = wf_busy f @ 0xff # ?R" unfolding s2_def by (rule rxs_go) (simp add: ok(4))
  define s3 where "s3 = go (replicate (Suc (length (wf_busy f))) 0xff) (Suc (length (wf_busy f))) s2"
  have 3: "run_state (SdWaitReady line_svc) s2 = (0, s3)"
    using line_await [OF r2 ok(6,7)] by (simp add: SdWaitReady_def s3_def)
  have "rxs s2 = (wf_busy f @ [0xff]) @ ?R" using r2 by simp
  then have r3: "rxs s3 = ?R" unfolding s3_def by (rule rxs_go) simp
  have ba: "g_nByteAddr s3 = g_nByteAddr s" by (simp add: s3_def s2_def s1_def)
  from Cons.IH [OF r3, of "a + step_of (g_nByteAddr s)"] Cons.prems(2) obtain s' where
    4: "run_state (sd_write_loop (length ps) line_svc (a + step_of (g_nByteAddr s)) (concat (map snd ps))) s3 = (0, s')"
      "rxs s' = rest" "ln_tx (sd_dev s') = ln_tx (sd_dev s3) @ sent_wrs (g_nByteAddr s) (a + step_of (g_nByteAddr s)) ps"
      "\<not> ln_cs (sd_dev s')"
    using ba by auto
  have "[0xff, 0xff, 0xff] @ replicate (Suc (length (wf_busy f))) (0xff :: byte) = replicate (length (wf_busy f) + 4) 0xff"
    by (simp add: eval_nat_numeral)
  then have "ln_tx (sd_dev s3) = ln_tx (sd_dev s) @ sent_wr a f d"
    unfolding s3_def s2_def s1_def sent_wr_def go_go go_fields by (simp only: append_assoc)
  with 4 show ?case using 1 2 3 ba ok by (intro exI [of _ s']) (simp add: p)
qed

text \<open>
  C8: with a card that accepts each block, \<open>SdWriteSectors\<close> puts on the wire, for each block in
  order, one CMD24 with its address, the start token, exactly the block, a dummy CRC and
  the polls until the card is ready, and reports success.
\<close>

theorem SdWriteSectors_writes:
  assumes "g_nInited s" and "rxs s = concat (map (enc_wr \<circ> fst) ps) @ [z]"
    and "\<forall>p \<in> set ps. wr_ok (fst p) \<and> length (snd p) = 512"
    and "a = (if g_nByteAddr s then lba * 512 else lba)"
  shows "\<exists>s'. run_state (SdWriteSectors line_svc lba (int (length ps)) (concat (map snd ps))) s = (0, s')
     \<and> rxs s' = [] \<and> ln_tx (sd_dev s') = ln_tx (sd_dev s) @ sent_wrs (g_nByteAddr s) a ps \<and> \<not> ln_cs (sd_dev s')"
proof -
  define s0 where "s0 = s\<lparr>sd_dev := (sd_dev s)\<lparr>ln_cs := True\<rparr>\<rparr>"
  have "run_state (SdWriteSectors line_svc lba (int (length ps)) (concat (map snd ps))) s
      = run_state (sd_write_loop (length ps) line_svc a (concat (map snd ps))) s0"
    using assms(1,4) by (simp add: SdWriteSectors_def Cs_def run_on_card line_svc_def s0_def)
  moreover have "rxs s0 = concat (map (enc_wr \<circ> fst) ps) @ z # []" using assms(2) by (simp add: s0_def)
  ultimately show ?thesis
    using write_loop_line [of s0 ps z "[]" a] assms(3) by (simp add: s0_def)
qed

section \<open>Capacity\<close>

text \<open>The fields of a CSD that the capacity is computed from, in their places; the rest is \<open>j\<close>.\<close>

definition csd_v2 :: "byte list \<Rightarrow> u32 \<Rightarrow> byte list" where
  "csd_v2 j c = j[0 := 0x40, 7 := ucast (drop_bit 16 c), 8 := ucast (drop_bit 8 c), 9 := ucast c]"

definition csd_v1 :: "byte list \<Rightarrow> u32 \<Rightarrow> byte \<Rightarrow> byte \<Rightarrow> byte list" where
  "csd_v1 j c m l = j[0 := 0, 5 := l, 6 := ucast (drop_bit 10 c), 7 := ucast (drop_bit 2 c),
     8 := push_bit 6 (ucast c), 9 := drop_bit 1 m, 10 := push_bit 7 m]"

lemma bit_below:
  fixes c :: "'a::len word"
  assumes "unat c < 2 ^ k" and "bit c n"
  shows "n < k"
proof -
  from assms(1) have "take_bit k (unat c) = unat c" by (simp add: take_bit_nat_eq_self)
  moreover from assms(2) have "bit (unat c) n" by (simp add: bit_unsigned_iff)
  ultimately show ?thesis by (metis bit_take_bit_iff)
qed

lemma csize_v2:
  assumes "c < 0x400000"
  shows "push_bit 16 (ucast ((ucast (drop_bit 16 c) :: byte) AND 0x3F)) OR push_bit 8 (ucast (ucast (drop_bit 8 c) :: byte))
     OR ucast (ucast c :: byte) = (c :: u32)" (is "?l = c")
proof (rule bit_word_eqI)
  fix n assume n: "n < LENGTH(32)"
  have lt: "bit c n \<Longrightarrow> n < 22" using bit_below [of c 22] assms by (simp add: word_less_nat_alt)
  have m: "bit (0x3F :: byte) k \<longleftrightarrow> k < 6" for k
  proof -
    have e: "(0x3F :: byte) = mask 6" by (simp add: mask_eq_exp_minus_1)
    show ?thesis unfolding e bit_mask_iff by auto
  qed
  consider "n < 8" | "8 \<le> n" "n < 16" | "16 \<le> n" by linarith
  moreover have "Suc (Suc (n - 2)) = n" if "2 \<le> n" using that by simp
  ultimately show "bit ?l n \<longleftrightarrow> bit c n"
    by cases (use n lt in \<open>auto simp: bit_or_iff bit_push_bit_iff bit_and_iff bit_unsigned_iff bit_drop_bit_eq m
      simp del: bit_numeral_word_iff\<close>)
qed


lemma csize_v1:
  assumes "c < 0x1000"
  shows "push_bit 10 (ucast ((ucast (drop_bit 10 c) :: byte) AND 0x03)) OR push_bit 2 (ucast (ucast (drop_bit 2 c) :: byte))
     OR ucast (drop_bit 6 (push_bit 6 (ucast c :: byte))) = (c :: u32)" (is "?l = c")
proof (rule bit_word_eqI)
  fix n assume n: "n < LENGTH(32)"
  have lt: "bit c n \<Longrightarrow> n < 12" using bit_below [of c 12] assms by (simp add: word_less_nat_alt)
  have m: "bit (0x03 :: byte) k \<longleftrightarrow> k < 2" for k
  proof -
    have e: "(0x03 :: byte) = mask 2" by (simp add: mask_eq_exp_minus_1)
    show ?thesis unfolding e bit_mask_iff by auto
  qed
  consider "n < 2" | "2 \<le> n" "n < 10" | "10 \<le> n" by linarith
  moreover have "Suc (Suc (n - 2)) = n" if "2 \<le> n" using that by simp
  ultimately show "bit ?l n \<longleftrightarrow> bit c n"
    by cases (use n lt in \<open>auto simp: bit_or_iff bit_push_bit_iff bit_and_iff bit_unsigned_iff bit_drop_bit_eq m
      simp del: bit_numeral_word_iff\<close>)
qed

lemma small_cases8: "(m :: byte) < 8 \<Longrightarrow> m \<in> {0, 1, 2, 3, 4, 5, 6, 7}"
proof -
  assume "m < 8"
  then have "unat m \<in> {0, 1, 2, 3, 4, 5, 6, 7}" by (auto simp: word_less_nat_alt)
  then have "m \<in> word_of_nat ` {0, 1, 2, 3, 4, 5, 6, 7}" by (metis imageI of_nat_unat ucast_id)
  then show ?thesis by simp
qed

text \<open>
  The capacity is decoded as the SD specification defines it: \<open>(C_SIZE + 1) * 1024\<close>
  sectors for a version 2 CSD; for a version 1 CSD, with the block lengths the
  specification allows, \<open>(C_SIZE + 1) * 2^(C_SIZE_MULT + 2)\<close> blocks of \<open>2^READ_BL_LEN\<close> bytes,
  in units of 512. The largest version 2 field wraps to no sectors at all.
\<close>

theorem csd_capacity:
  assumes "length j = 16"
  shows "(c < 0x3FFFFF \<longrightarrow> unat (csd_sectors (csd_v2 j c)) = (unat c + 1) * 1024)
   \<and> csd_sectors (csd_v2 j 0x3FFFFF) = 0
   \<and> (c < 0x1000 \<and> m < 8 \<and> l \<in> {9, 10, 11} \<longrightarrow>
        unat (csd_sectors (csd_v1 j c m l)) * 512 = (unat c + 1) * 2 ^ (unat m + 2) * 2 ^ unat l)"
proof (intro conjI impI)
  have v2: "csd_sectors (csd_v2 j c) = (c + 1) * 1024" if "c < 0x400000" for c
    using assms csize_v2 [OF that] by (simp add: csd_sectors_def csd_v2_def Let_def)
  show "csd_sectors (csd_v2 j 0x3FFFFF) = 0" by (simp add: v2)
  show "unat (csd_sectors (csd_v2 j c)) = (unat c + 1) * 1024" if c: "c < 0x3FFFFF"
  proof -
    have u: "unat c < 0x3FFFFF" using c by (simp add: word_less_nat_alt)
    have "c < 0x400000" using u by (simp add: word_less_nat_alt)
    moreover have "(c + 1) * 1024 = word_of_nat ((unat c + 1) * 1024)" by simp
    ultimately show ?thesis using v2 u by (simp only: unat_of_nat) simp
  qed
  assume a: "c < 0x1000 \<and> m < 8 \<and> l \<in> {9, 10, 11}"
  then have u: "unat c < 0x1000" by (simp add: word_less_nat_alt)
  have mm: "unat (push_bit 1 (drop_bit 1 m AND 0x03) OR drop_bit 7 (push_bit 7 m)) = unat m"
    using small_cases8 [of m] a by auto
  have ll: "unat (l AND 0x0F) = unat l" using a by auto
  have d: "push_bit (unat l) (1 :: u32) div 512 = push_bit (unat l - 9) 1" using a by auto
  have "csd_sectors (csd_v1 j c m l) = (c + 1) * push_bit (unat m + 2) 1 * push_bit (unat l - 9) 1"
    using assms csize_v1 [of c] a mm ll d by (simp add: csd_sectors_def csd_v1_def Let_def)
  also have "\<dots> = word_of_nat ((unat c + 1) * 2 ^ (unat m + 2) * 2 ^ (unat l - 9))"
    by (simp add: push_bit_eq_mult algebra_simps)
  finally have e: "csd_sectors (csd_v1 j c m l) = word_of_nat ((unat c + 1) * 2 ^ (unat m + 2) * 2 ^ (unat l - 9))" .
  have "unat m \<le> 7" "unat l \<in> {9, 10, 11}" using a by (auto simp: word_less_nat_alt)
  then have b: "2 ^ (unat m + 2) \<le> (2 :: nat) ^ 9" "2 ^ (unat l - 9) \<le> (2 :: nat) ^ 2"
    by (intro power_increasing; auto)+
  have "(unat c + 1) * 2 ^ (unat m + 2) * 2 ^ (unat l - 9) \<le> 0x1000 * 2 ^ 9 * 2 ^ 2"
    using u b by (intro mult_le_mono) simp_all
  then have "(unat c + 1) * 2 ^ (unat m + 2) * 2 ^ (unat l - 9) < 2 ^ 32" by simp
  then have "unat (csd_sectors (csd_v1 j c m l)) = (unat c + 1) * 2 ^ (unat m + 2) * 2 ^ (unat l - 9)"
    unfolding e unat_of_nat by simp
  then show "unat (csd_sectors (csd_v1 j c m l)) * 512 = (unat c + 1) * 2 ^ (unat m + 2) * 2 ^ unat l"
    using \<open>unat l \<in> {9, 10, 11}\<close> by auto
qed

section \<open>Witnesses\<close>

definition sample_sd :: "'d \<Rightarrow> 'd sdst" where
  "sample_sd d = \<lparr>g_nInited = True, g_nByteAddr = False, g_nSectors = 0, sd_caps = [], sd_dev = d\<rparr>"

definition sample_rd :: rdframe where
  "sample_rd = \<lparr>rf_g = replicate 6 0xff, rf_wait = [0xff], rf_gap = 2, rf_data = replicate 512 0x5A, rf_crc = [1, 2]\<rparr>"

definition sample_wr :: wrframe where
  "sample_wr = \<lparr>wf_g = replicate 6 0xff, wf_wait = [0xff], wf_junk = replicate 516 0xff, wf_resp = 0xE5, wf_busy = [0, 0]\<rparr>"

lemma SdReadSectors_reads_witness:
  "\<exists>s'. run_state (SdReadSectors line_svc 7 2) (sample_sd \<lparr>ln_rx = enc_rd sample_rd @ enc_rd sample_rd @ [0xff], ln_tx = [], ln_cs = False\<rparr>)
     = ((0, replicate 1024 0x5A), s') \<and> \<not> ln_cs (sd_dev s')"
proof -
  have ok: "rd_ok sample_rd" by (simp add: rd_ok_def sample_rd_def)
  have d: "rf_data sample_rd @ rf_data sample_rd = replicate 1024 0x5A"
    by (simp add: sample_rd_def replicate_add [symmetric])
  show ?thesis
    using SdReadSectors_reads [of "sample_sd \<lparr>ln_rx = enc_rd sample_rd @ enc_rd sample_rd @ [0xff], ln_tx = [], ln_cs = False\<rparr>"
        "[sample_rd, sample_rd]" "0xff" _ 7] ok d
    by (auto simp: sample_sd_def)
qed

lemma SdWriteSectors_writes_witness:
  "\<exists>s'. run_state (SdWriteSectors line_svc 7 1 (replicate 512 0x5A)) (sample_sd \<lparr>ln_rx = enc_wr sample_wr @ [0xff], ln_tx = [], ln_cs = False\<rparr>)
     = (0, s') \<and> \<not> ln_cs (sd_dev s')"
proof -
  have "wr_ok sample_wr" by (simp add: wr_ok_def sample_wr_def)
  then show ?thesis
    using SdWriteSectors_writes [of "sample_sd \<lparr>ln_rx = enc_wr sample_wr @ [0xff], ln_tx = [], ln_cs = False\<rparr>"
        "[(sample_wr, replicate 512 0x5A)]" "0xff" _ 7]
    by (auto simp: sample_sd_def)
qed

lemma csd_capacity_witness:
  "unat (csd_sectors (csd_v2 (replicate 16 0) 0x3B3F)) = 0x3B40 * 1024"
  using csd_capacity [of "replicate 16 0" "0x3B3F" 0 0] by simp

lemma Sd_deselects_witness:
  "\<exists>rc bs s1. run_state (SdReadSectors (dcspi_svc regfile) 0 1) (sample_sd (spi_init (\<lambda>_. 0))) = ((rc, bs), s1)
     \<and> \<not> scif_sel (sd_dev s1)"
proof -
  let ?s = "sample_sd (spi_init (\<lambda>_. 0 :: u32)) :: (u32 \<Rightarrow> u32) spi sdst"
  obtain rc bs s1 where 1: "run_state (SdReadSectors (dcspi_svc regfile) 0 1) ?s = ((rc, bs), s1)" by (metis prod.exhaust)
  obtain rc2 s2 where 2: "run_state (SdWriteSectors (dcspi_svc regfile) 0 1 []) ?s = (rc2, s2)" by fastforce
  obtain rc3 s3 where 3: "run_state (SdInit (dcspi_svc regfile)) ?s = (rc3, s3)" by fastforce
  have "g_nInited ?s" by (simp add: sample_sd_def)
  from Sd_deselects [OF this 1 2 3] 1 show ?thesis by blast
qed

end
