(* ===== verification/Bba.thy ===== *)
theory Bba
  imports Spi
begin

text \<open>
  The Broadband Adapter link \<open>net/netif/bba_hw.c\<close>: G2 bus access under its lock, the GAPS
  bridge and RTL8139 bring-up, transmit and receive. The bus is a parameter: \<open>g2_rd n a\<close>
  and \<open>g2_wr n a v\<close> are a load and a store of \<open>n\<close> bytes. The record \<open>bba\<close> has the static
  variables, the processor state the code changes (status register, mode, the three DMA
  suspend registers, the critical section), and two ghost fields that no code reads:
  \<open>b_clean\<close> stays true while every G2 access is made with interrupts masked and DMA
  suspended, and \<open>b_win\<close>/\<open>b_maxwin\<close> count the accesses of a locked window. Faults on the bus
  and the delays are not modelled.
\<close>

unbundle bit_operations_syntax

record 'h g2hw =
  g2_rd :: "nat \<Rightarrow> u32 \<Rightarrow> 'h \<Rightarrow> u32 \<times> 'h"
  g2_wr :: "nat \<Rightarrow> u32 \<Rightarrow> u32 \<Rightarrow> 'h \<Rightarrow> 'h"

record 'h bba =
  b_mac :: "byte list"
  b_curtx :: u32
  b_currx :: u32
  b_csInit :: bool
  b_cs :: nat
  b_kmode :: bool
  b_sr :: u32
  b_susp :: "u32 \<times> u32 \<times> u32"
  b_clean :: bool
  b_win :: nat
  b_maxwin :: nat
  b_dev :: 'h

section \<open>The bus\<close>

text \<open>\<open>SR.IMASK\<close> is bits 4 to 7 of the status register.\<close>

definition irq_masked :: "'h bba \<Rightarrow> bool" where
  "irq_masked s \<longleftrightarrow> b_sr s AND 0xF0 = 0xF0"

definition DcIrqDisable :: "('h bba, u32) state" where
  "DcIrqDisable = do { sr \<leftarrow> gets b_sr; modify (\<lambda>s. s\<lparr>b_sr := b_sr s OR 0xF0\<rparr>); ret sr }"

definition DcIrqRestore :: "u32 \<Rightarrow> ('h bba, unit) state" where
  "DcIrqRestore sr = modify (\<lambda>s. s\<lparr>b_sr := sr\<rparr>)"

definition note_access :: "'h bba \<Rightarrow> 'h bba" where
  "note_access s = s\<lparr>b_clean := (b_clean s \<and> irq_masked s \<and> b_susp s = (1, 1, 1)),
     b_win := Suc (b_win s), b_maxwin := max (b_maxwin s) (Suc (b_win s))\<rparr>"

definition g2_load :: "'h g2hw \<Rightarrow> nat \<Rightarrow> u32 \<Rightarrow> ('h bba, u32) state" where
  "g2_load H n a = State (\<lambda>s. case g2_rd H n a (b_dev s) of (v, h) \<Rightarrow> (v, (note_access s)\<lparr>b_dev := h\<rparr>))"

definition g2_store :: "'h g2hw \<Rightarrow> nat \<Rightarrow> u32 \<Rightarrow> u32 \<Rightarrow> ('h bba, unit) state" where
  "g2_store H n a v = modify (\<lambda>s. (note_access s)\<lparr>b_dev := g2_wr H n a v (b_dev s)\<rparr>)"

definition G2_FIFO_STATUS :: u32 where "G2_FIFO_STATUS = 0xA05F688C"

text \<open>The FIFO status is a register of the system controller, not of the G2 bus.\<close>

primrec fifo_wait :: "nat \<Rightarrow> 'h g2hw \<Rightarrow> ('h bba, unit) state" where
  "fifo_wait 0 H = ret ()"
| "fifo_wait (Suc n) H = do {
     v \<leftarrow> State (\<lambda>s. case g2_rd H 4 G2_FIFO_STATUS (b_dev s) of (v, h) \<Rightarrow> (v, s\<lparr>b_dev := h\<rparr>));
     if v AND (0x10 OR 0x20) = 0 then ret () else fifo_wait n H }"

definition G2FifoWait :: "'h g2hw \<Rightarrow> ('h bba, unit) state" where
  "G2FifoWait H = fifo_wait 0x1800 H"

definition G2Lock :: "'h g2hw \<Rightarrow> ('h bba, u32) state" where
  "G2Lock H = do {
     dwSr \<leftarrow> DcIrqDisable;
     modify (\<lambda>s. s\<lparr>b_susp := (1, 1, 1), b_win := 0\<rparr>);
     G2FifoWait H;
     ret dwSr }"

definition G2Unlock :: "u32 \<Rightarrow> ('h bba, unit) state" where
  "G2Unlock dwSr = do { modify (\<lambda>s. s\<lparr>b_susp := (0, 0, 0)\<rparr>); DcIrqRestore dwSr }"

definition locked :: "'h g2hw \<Rightarrow> ('h bba, 'a) state \<Rightarrow> ('h bba, 'a) state" where
  "locked H m = do { dwLk \<leftarrow> G2Lock H; x \<leftarrow> m; G2Unlock dwLk; ret x }"

definition G2Read8 :: "'h g2hw \<Rightarrow> u32 \<Rightarrow> ('h bba, byte) state" where
  "G2Read8 H a = locked H (do { v \<leftarrow> g2_load H 1 a; ret (ucast v) })"

definition G2Read16 :: "'h g2hw \<Rightarrow> u32 \<Rightarrow> ('h bba, u16) state" where
  "G2Read16 H a = locked H (do { v \<leftarrow> g2_load H 2 a; ret (ucast v) })"

definition G2Read32 :: "'h g2hw \<Rightarrow> u32 \<Rightarrow> ('h bba, u32) state" where
  "G2Read32 H a = locked H (g2_load H 4 a)"

definition G2Write8 :: "'h g2hw \<Rightarrow> u32 \<Rightarrow> byte \<Rightarrow> ('h bba, unit) state" where
  "G2Write8 H a v = locked H (g2_store H 1 a (ucast v))"

definition G2Write16 :: "'h g2hw \<Rightarrow> u32 \<Rightarrow> u16 \<Rightarrow> ('h bba, unit) state" where
  "G2Write16 H a v = locked H (g2_store H 2 a (ucast v))"

definition G2Write32 :: "'h g2hw \<Rightarrow> u32 \<Rightarrow> u32 \<Rightarrow> ('h bba, unit) state" where
  "G2Write32 H a v = locked H (g2_store H 4 a v)"

text \<open>The byte loops: \<open>n\<close> bytes left, \<open>i\<close> done. \<open>G2WriteBlock\<close> has no caller.\<close>

primrec rd_bytes :: "nat \<Rightarrow> 'h g2hw \<Rightarrow> u32 \<Rightarrow> nat \<Rightarrow> ('h bba, byte list) state" where
  "rd_bytes 0 H a i = ret []"
| "rd_bytes (Suc n) H a i = do {
     when_st (i \<noteq> 0 \<and> i mod 32 = 0) (G2FifoWait H);
     v \<leftarrow> g2_load H 1 (a + word_of_nat i);
     bs \<leftarrow> rd_bytes n H a (i + 1);
     ret (ucast v # bs) }"

definition G2ReadBlock :: "'h g2hw \<Rightarrow> u32 \<Rightarrow> nat \<Rightarrow> ('h bba, byte list) state" where
  "G2ReadBlock H a n = locked H (rd_bytes n H a 0)"

text \<open>The 32-bit copies, in windows of eight: \<open>dw\<close> words left from word \<open>i\<close> on.\<close>

primrec rd_words :: "nat \<Rightarrow> 'h g2hw \<Rightarrow> u32 \<Rightarrow> nat \<Rightarrow> ('h bba, u32 list) state" where
  "rd_words 0 H a i = ret []"
| "rd_words (Suc n) H a i = do {
     v \<leftarrow> g2_load H 4 (a + word_of_nat i * 4);
     vs \<leftarrow> rd_words n H a (i + 1);
     ret (v # vs) }"

function rd_chunks :: "nat \<Rightarrow> 'h g2hw \<Rightarrow> u32 \<Rightarrow> nat \<Rightarrow> ('h bba, u32 list) state" where
  "rd_chunks dw H a i =
     (if dw = 0 then ret []
      else do {
        vs \<leftarrow> locked H (rd_words (min dw 8) H a i);
        ws \<leftarrow> rd_chunks (dw - min dw 8) H a (i + min dw 8);
        ret (vs @ ws) })"
  by pat_completeness auto
termination by (relation "measure (\<lambda>(dw, _). dw)") auto

declare rd_chunks.simps [simp del]

definition G2ReadBlock32 :: "'h g2hw \<Rightarrow> u32 \<Rightarrow> nat \<Rightarrow> ('h bba, byte list) state" where
  "G2ReadBlock32 H a n = do { vs \<leftarrow> rd_chunks ((n + 3) div 4) H a 0; ret (concat (map le32_bytes vs)) }"

primrec wr_words :: "u32 list \<Rightarrow> 'h g2hw \<Rightarrow> u32 \<Rightarrow> nat \<Rightarrow> ('h bba, unit) state" where
  "wr_words [] H a i = ret ()"
| "wr_words (v # vs) H a i = do { g2_store H 4 (a + word_of_nat i * 4) v; wr_words vs H a (i + 1) }"

function wr_chunks :: "u32 list \<Rightarrow> 'h g2hw \<Rightarrow> u32 \<Rightarrow> nat \<Rightarrow> ('h bba, unit) state" where
  "wr_chunks vs H a i =
     (if vs = [] then ret ()
      else do {
        locked H (wr_words (take 8 vs) H a i);
        wr_chunks (drop 8 vs) H a (i + min (length vs) 8) })"
  by pat_completeness auto
termination by (relation "measure (\<lambda>(vs, _). length vs)") auto

declare wr_chunks.simps [simp del]

text \<open>\<open>pbSrc\<close> is the source in memory: the copy reads it in whole words, past \<open>n\<close>.\<close>

definition words_of :: "byte list \<Rightarrow> nat \<Rightarrow> u32 list" where
  "words_of m k = map (\<lambda>i. le32 (take 4 (drop (4 * i) m))) [0..<k]"

definition G2WriteBlock32 :: "'h g2hw \<Rightarrow> u32 \<Rightarrow> byte list \<Rightarrow> nat \<Rightarrow> ('h bba, unit) state" where
  "G2WriteBlock32 H a pbSrc n = wr_chunks (words_of pbSrc ((n + 3) div 4)) H a 0"

section \<open>Bridge and chip\<close>

definition GAPS_BASE :: u32 where "GAPS_BASE = 0xA1000000"
definition RTL_DMA :: u32 where "RTL_DMA = 0x01840000"
definition RTL_CPU :: u32 where "RTL_CPU = 0xA1840000"

abbreviation NIC :: "u32 \<Rightarrow> u32" where
  "NIC reg \<equiv> GAPS_BASE + 0x1700 + reg"

definition TX_OFF :: u32 where "TX_OFF = 0x4000 + 0x2000"
definition TX_LEN :: u32 where "TX_LEN = 0x800"

definition gaps_sig :: "byte list" where
  "gaps_sig = [0x47, 0x41, 0x50, 0x53, 0x50, 0x43, 0x49, 0x5F, 0x42, 0x52, 0x49, 0x44, 0x47, 0x45, 0x5F, 0x32]"

text \<open>\<open>for (i = n; i > 0 && !(read & 1); i--)\<close>\<close>

primrec gaps_poll :: "nat \<Rightarrow> 'h g2hw \<Rightarrow> ('h bba, unit) state" where
  "gaps_poll 0 H = ret ()"
| "gaps_poll (Suc n) H = do {
     v \<leftarrow> G2Read32 H (GAPS_BASE + 0x1418);
     if v AND 1 = 0 then gaps_poll n H else ret () }"

definition gaps_setup :: "'h g2hw \<Rightarrow> ('h bba, unit) state" where
  "gaps_setup H = do {
     G2Write32 H (GAPS_BASE + 0x1420) 0x01000000;
     G2Write32 H (GAPS_BASE + 0x1424) 0x01000000;
     G2Write32 H (GAPS_BASE + 0x1428) RTL_DMA;
     G2Write32 H (GAPS_BASE + 0x142c) (RTL_DMA + 32 * 1024);
     G2Write32 H (GAPS_BASE + 0x1414) 0x00000001;
     G2Write32 H (GAPS_BASE + 0x1434) 0x00000001;
     G2Write16 H (GAPS_BASE + 0x1606) 0xf900;
     G2Write32 H (GAPS_BASE + 0x1630) 0x00000000;
     G2Write8 H (GAPS_BASE + 0x163c) 0x00;
     G2Write8 H (GAPS_BASE + 0x160d) 0xf0;
     v \<leftarrow> G2Read16 H (GAPS_BASE + 0x1604);
     G2Write16 H (GAPS_BASE + 0x1604) (v OR 0x6);
     G2Write32 H (GAPS_BASE + 0x1614) 0x01000000;
     b \<leftarrow> G2Read8 H (GAPS_BASE + 0x1650);
     when_st (b AND 0x1 \<noteq> 0) (do {
       v \<leftarrow> G2Read16 H (GAPS_BASE + 0x1654);
       G2Write16 H (GAPS_BASE + 0x1654) ((v AND 0xfffc) OR 0x8000) });
     G2Write32 H (GAPS_BASE + 0x1414) 0x00000001 }"

definition gaps_magic :: "'h g2hw \<Rightarrow> ('h bba, unit) state" where
  "gaps_magic H = do {
     v \<leftarrow> G2Read32 H (GAPS_BASE + 0x141c);
     when_st (v = 0x41474553) (do {
       G2Write32 H (GAPS_BASE + 0x141c) 0x55aaff00;
       v \<leftarrow> G2Read32 H (GAPS_BASE + 0x141c);
       when_st (v = 0x55aaff00) (do {
         G2Write32 H (GAPS_BASE + 0x141c) 0xaa5500ff;
         v \<leftarrow> G2Read32 H (GAPS_BASE + 0x141c);
         when_st (v = 0xaa5500ff) (G2Write32 H (GAPS_BASE + 0x141c) 0x41474553) }) }) }"

definition GapsInit :: "'h g2hw \<Rightarrow> ('h bba, int) state" where
  "GapsInit H = do {
     achStr \<leftarrow> G2ReadBlock H (GAPS_BASE + 0x1400) 16;
     if achStr \<noteq> gaps_sig then ret (-1)
     else do {
       G2Write32 H (GAPS_BASE + 0x1418) 0x5a14a501;
       gaps_poll 10000 H;
       v \<leftarrow> G2Read32 H (GAPS_BASE + 0x1418);
       if v AND 1 = 0 then ret (-2)
       else do { gaps_setup H; gaps_magic H; ret 0 } } }"

primrec reset_poll :: "nat \<Rightarrow> 'h g2hw \<Rightarrow> ('h bba, unit) state" where
  "reset_poll 0 H = ret ()"
| "reset_poll (Suc n) H = do {
     v \<leftarrow> G2Read8 H (NIC 0x37);
     if v AND 0x10 \<noteq> 0 then reset_poll n H else ret () }"

definition RtlReset :: "'h g2hw \<Rightarrow> ('h bba, unit) state" where
  "RtlReset H = do { G2Write8 H (NIC 0x37) 0x10; reset_poll 100 H }"

definition RtlReadMac :: "'h g2hw \<Rightarrow> ('h bba, unit) state" where
  "RtlReadMac H = do {
     dwLo \<leftarrow> G2Read32 H (NIC 0x00);
     dwHi \<leftarrow> G2Read32 H (NIC 0x04);
     modify (\<lambda>s. s\<lparr>b_mac := le32_bytes dwLo @ [ucast dwHi, ucast (drop_bit 8 dwHi)]\<rparr>) }"

definition rtl_dance :: "'h g2hw \<Rightarrow> ('h bba, unit) state" where
  "rtl_dance H = do {
     G2Write8 H (NIC 0x37) 0x08;
     v \<leftarrow> G2Read8 H (NIC 0x37);
     when_st (v = 0x08) (do {
       G2Write8 H (NIC 0x37) 0x04;
       v \<leftarrow> G2Read8 H (NIC 0x37);
       when_st (v = 0x04) (G2Write8 H (NIC 0x37) 0) });
     G2Write32 H (NIC 0x08) 0x55aaff00;
     G2Write32 H (NIC 0x0c) 0xaa5500ff;
     v \<leftarrow> G2Read32 H (NIC 0x08);
     w \<leftarrow> (if v = 0x55aaff00 then G2Read32 H (NIC 0x0c) else ret 0);
     when_st (v = 0x55aaff00 \<and> w = 0xaa5500ff) (do {
       G2Write8 H (NIC 0x37) (0x08 OR 0x04);
       G2Write32 H (NIC 0x08) 0xffffffff;
       G2Write32 H (NIC 0x0c) 0xffffffff }) }"

definition rtl_config :: "'h g2hw \<Rightarrow> ('h bba, unit) state" where
  "rtl_config H = do {
     G2Write16 H (NIC 0x3c) 0;
     G2Write8 H (NIC 0x37) (0x08 OR 0x04);
     G2Write32 H (NIC 0x44) (push_bit 11 1 OR push_bit 8 6 OR 0x80);
     G2Write32 H (NIC 0x40) (push_bit 8 6);
     G2Write8 H (NIC 0x50) 0xC0;
     v \<leftarrow> G2Read8 H (NIC 0x52);
     G2Write8 H (NIC 0x52) ((v AND NOT (0x10 OR 0x40)) OR 0x20 OR 0x80);
     v \<leftarrow> G2Read8 H (NIC 0x5A);
     G2Write8 H (NIC 0x5A) (v OR 0x80);
     v \<leftarrow> G2Read8 H (NIC 0xD8);
     G2Write8 H (NIC 0xD8) (v OR 0x04);
     G2Write8 H (NIC 0x50) 0;
     G2Write32 H (NIC 0x08) 0xffffffff;
     G2Write32 H (NIC 0x0c) 0xffffffff;
     G2Write16 H (NIC 0x5C) 0;
     G2Write16 H (NIC 0x3e) 0xffff;
     G2Write32 H (NIC 0x4C) 0;
     G2Write8 H (NIC 0x37) (0x08 OR 0x04);
     G2Write16 H (NIC 0x62) (0x8000 OR 0x1000 OR 0x0200) }"

primrec tx_addrs :: "nat \<Rightarrow> 'h g2hw \<Rightarrow> nat \<Rightarrow> ('h bba, unit) state" where
  "tx_addrs 0 H i = ret ()"
| "tx_addrs (Suc n) H i = do {
     G2Write32 H (NIC (0x20 + word_of_nat i * 4)) (RTL_DMA + word_of_nat i * TX_LEN + TX_OFF);
     tx_addrs n H (i + 1) }"

definition RtlStart :: "'h g2hw \<Rightarrow> ('h bba, unit) state" where
  "RtlStart H = do {
     G2Write32 H (NIC 0x30) RTL_DMA;
     tx_addrs 4 H 0;
     RtlReset H;
     rtl_dance H;
     rtl_config H;
     modify (\<lambda>s. s\<lparr>b_curtx := 0, b_currx := 0\<rparr>);
     v \<leftarrow> G2Read32 H (NIC 0x44);
     G2Write32 H (NIC 0x44) (v OR 0x02 OR 0x08);
     G2Write16 H (NIC 0x38) (ucast ((0 - 16 :: u32) AND 0x3FFF)) }"

section \<open>Frames\<close>

primrec pad_bytes :: "nat \<Rightarrow> 'h g2hw \<Rightarrow> u32 \<Rightarrow> nat \<Rightarrow> ('h bba, unit) state" where
  "pad_bytes 0 H a i = ret ()"
| "pad_bytes (Suc n) H a i = do { G2Write8 H (a + word_of_nat i) 0; pad_bytes n H a (i + 1) }"

definition Tx :: "'h g2hw \<Rightarrow> byte list \<Rightarrow> int \<Rightarrow> ('h bba, bool) state" where
  "Tx H pbPkt nLen = do {
     cur \<leftarrow> gets b_curtx;
     let dwTsd = NIC (0x10 + 4 * cur);
     let dwBuf = RTL_CPU + cur * TX_LEN + TX_OFF;
     if nLen \<le> 0 \<or> nLen > 1514 then ret False
     else do {
       let n = nat nLen;
       G2WriteBlock32 H dwBuf pbPkt n;
       when_st (n < 60) (pad_bytes (60 - n) H dwBuf n);
       G2Write32 H dwTsd (word_of_nat (if n < 60 then 60 else n));
       modify (\<lambda>s. s\<lparr>b_curtx := (b_curtx s + 1) AND 3\<rparr>);
       ret True } }"

text \<open>The result and the bytes the copy stores in \<open>pbBuf\<close>, which are whole words.\<close>

definition Rx :: "'h g2hw \<Rightarrow> nat \<Rightarrow> ('h bba, int \<times> byte list) state" where
  "Rx H nMaxlen = do {
     c \<leftarrow> G2Read8 H (NIC 0x37);
     if c AND 0x01 \<noteq> 0 then ret (0, [])
     else do {
       cur \<leftarrow> gets b_currx;
       let dwOff = cur AND 0x3FFF;
       dwStatus \<leftarrow> G2Read32 H (RTL_CPU + dwOff);
       let nSize = int (unat (drop_bit 16 dwStatus AND 0xffff));
       if nSize = 0xfff0 then ret (0, [])
       else do {
         let nPkt = nSize - 4;
         if dwStatus AND 1 = 0 \<or> nPkt < 14 \<or> nPkt > 1514 then do { RtlReset H; RtlStart H; ret (-1, []) }
         else do {
           let nPkt = (if nPkt > int nMaxlen then int nMaxlen else nPkt);
           bs \<leftarrow> G2ReadBlock32 H (RTL_CPU + dwOff + 4) (nat nPkt);
           modify (\<lambda>s. s\<lparr>b_currx := (b_currx s + word_of_int nSize + 4 + 3) AND NOT 3\<rparr>);
           cur \<leftarrow> gets b_currx;
           G2Write16 H (NIC 0x38) (ucast ((cur - 16) AND 0x3FFF));
           ret (nPkt, bs) } } } }"

section \<open>The link's functions\<close>

definition b_in_kmode :: "('h bba, 'a) state \<Rightarrow> ('h bba, 'a) state" where
  "b_in_kmode m = do {
     p \<leftarrow> gets b_kmode;
     modify (\<lambda>s. s\<lparr>b_kmode := True\<rparr>);
     x \<leftarrow> m;
     modify (\<lambda>s. s\<lparr>b_kmode := p\<rparr>);
     ret x }"

definition in_g2cs :: "('h bba, 'a) state \<Rightarrow> ('h bba, 'a) state" where
  "in_g2cs m = do {
     modify (\<lambda>s. s\<lparr>b_cs := b_cs s + 1\<rparr>);
     x \<leftarrow> m;
     modify (\<lambda>s. s\<lparr>b_cs := b_cs s - 1\<rparr>);
     ret x }"

definition BbaLinkUp :: "'h g2hw \<Rightarrow> ('h bba, bool) state" where
  "BbaLinkUp H = b_in_kmode (do { v \<leftarrow> G2Read16 H (NIC 0x64); ret (v AND 0x0004 \<noteq> 0) })"

definition BbaProbe :: "'h g2hw \<Rightarrow> ('h bba, bool) state" where
  "BbaProbe H = b_in_kmode (do { achStr \<leftarrow> G2ReadBlock H (GAPS_BASE + 0x1400) 16; ret (achStr = gaps_sig) })"

definition BbaInit :: "'h g2hw \<Rightarrow> ('h bba, byte list option) state" where
  "BbaInit H = do {
     modify (\<lambda>s. s\<lparr>b_csInit := True\<rparr>);
     b_in_kmode (do {
       rc \<leftarrow> GapsInit H;
       if rc = 0 then do {
         RtlReset H;
         RtlReadMac H;
         RtlStart H;
         m \<leftarrow> gets b_mac;
         ret (Some m) }
       else ret None }) }"

definition BbaTx :: "'h g2hw \<Rightarrow> byte list \<Rightarrow> int \<Rightarrow> ('h bba, bool) state" where
  "BbaTx H frame len = in_g2cs (b_in_kmode (Tx H frame len))"

definition BbaRxPoll :: "'h g2hw \<Rightarrow> nat \<Rightarrow> ('h bba, int \<times> byte list) state" where
  "BbaRxPoll H nMax = in_g2cs (b_in_kmode (Rx H nMax))"


section \<open>The discipline of the bus\<close>

text \<open>Inside a window: at most \<open>k\<close> accesses, all covered by the lock, which stays taken.\<close>

definition inner :: "nat \<Rightarrow> ('h bba, 'a) state \<Rightarrow> bool" where
  "inner k m \<longleftrightarrow> (\<forall>s. irq_masked s \<and> b_susp s = (1, 1, 1) \<longrightarrow> (let s' = snd (run_state m s) in
     b_sr s' = b_sr s \<and> b_susp s' = (1, 1, 1) \<and> b_cs s' = b_cs s \<and> b_kmode s' = b_kmode s
     \<and> (b_clean s \<longrightarrow> b_clean s') \<and> b_win s' \<le> b_win s + k \<and> b_maxwin s' \<le> max (b_maxwin s) (b_win s + k)))"

text \<open>Outside: processor and bus are handed back as they were, and no window exceeds \<open>W\<close>.\<close>

definition bus_kept :: "nat \<Rightarrow> 'h bba \<Rightarrow> 'h bba \<Rightarrow> bool" where
  "bus_kept W s s' \<longleftrightarrow> b_sr s' = b_sr s \<and> (b_susp s = (0, 0, 0) \<longrightarrow> b_susp s' = (0, 0, 0)) \<and> b_cs s' = b_cs s
     \<and> b_kmode s' = b_kmode s \<and> (b_clean s \<longrightarrow> b_clean s') \<and> (b_maxwin s \<le> W \<longrightarrow> b_maxwin s' \<le> W)"

lemma bus_kept_preorder [simp]: "reflp (bus_kept W)" "transp (bus_kept W)"
  by (auto simp: bus_kept_def reflp_def transp_def)

lemmas bus_rules = io_bind [OF bus_kept_preorder] io_return [OF bus_kept_preorder(1)]
  io_gets [OF bus_kept_preorder(1)] io_when [OF bus_kept_preorder(1)] io_if

named_theorems innerI "accesses inside a locked window"

lemma inner_bind:
  fixes m :: "('h bba, 'a) state" and f :: "'a \<Rightarrow> ('h bba, 'b) state"
  assumes "inner j m" and "\<And>x. inner k (f x)"
  shows "inner (j + k) (State_Monad.bind m f)"
  unfolding inner_def Let_def
proof (intro allI impI)
  fix s :: "'h bba"
  assume a: "irq_masked s \<and> b_susp s = (1, 1, 1)"
  obtain x s1 where 1: "run_state m s = (x, s1)" by fastforce
  have i1: "b_sr s1 = b_sr s \<and> b_susp s1 = (1, 1, 1) \<and> b_cs s1 = b_cs s \<and> b_kmode s1 = b_kmode s
     \<and> (b_clean s \<longrightarrow> b_clean s1) \<and> b_win s1 \<le> b_win s + j \<and> b_maxwin s1 \<le> max (b_maxwin s) (b_win s + j)"
    using assms(1) a 1 unfolding inner_def Let_def by (metis snd_conv)
  then have "irq_masked s1 \<and> b_susp s1 = (1, 1, 1)" using a by (simp add: irq_masked_def)
  then have i2: "b_sr (snd (run_state (f x) s1)) = b_sr s1 \<and> b_susp (snd (run_state (f x) s1)) = (1, 1, 1)
     \<and> b_cs (snd (run_state (f x) s1)) = b_cs s1 \<and> b_kmode (snd (run_state (f x) s1)) = b_kmode s1
     \<and> (b_clean s1 \<longrightarrow> b_clean (snd (run_state (f x) s1))) \<and> b_win (snd (run_state (f x) s1)) \<le> b_win s1 + k
     \<and> b_maxwin (snd (run_state (f x) s1)) \<le> max (b_maxwin s1) (b_win s1 + k)"
    using assms(2) [of x] unfolding inner_def Let_def by blast
  have "run_state (State_Monad.bind m f) s = run_state (f x) s1" using 1 by simp
  then show "b_sr (snd (run_state (State_Monad.bind m f) s)) = b_sr s
     \<and> b_susp (snd (run_state (State_Monad.bind m f) s)) = (1, 1, 1)
     \<and> b_cs (snd (run_state (State_Monad.bind m f) s)) = b_cs s
     \<and> b_kmode (snd (run_state (State_Monad.bind m f) s)) = b_kmode s
     \<and> (b_clean s \<longrightarrow> b_clean (snd (run_state (State_Monad.bind m f) s)))
     \<and> b_win (snd (run_state (State_Monad.bind m f) s)) \<le> b_win s + (j + k)
     \<and> b_maxwin (snd (run_state (State_Monad.bind m f) s)) \<le> max (b_maxwin s) (b_win s + (j + k))"
    using i1 i2 by (auto simp: le_max_iff_disj)
qed

lemma inner_ret [innerI]: "inner 0 (ret x)"
  by (simp add: inner_def)

lemma inner_load [innerI]: "inner 1 (g2_load H n a)" "inner 1 (g2_store H n a v)"
  by (auto simp: inner_def g2_load_def g2_store_def note_access_def Let_def split: prod.splits)

lemma inner_fifo [innerI]: "inner 0 (fifo_wait n H)" "inner 0 (G2FifoWait H)"
proof -
  show "inner 0 (fifo_wait n H)" for n
  proof (induction n)
    case (Suc n)
    have "inner 0 (State (\<lambda>s. case g2_rd H 4 G2_FIFO_STATUS (b_dev s) of (v, h) \<Rightarrow> (v, s\<lparr>b_dev := h\<rparr>)))"
      by (auto simp: inner_def Let_def split: prod.splits)
    moreover have "inner 0 (if v AND (0x10 OR 0x20) = 0 then ret () else fifo_wait n H)" for v :: u32
      using Suc by (simp add: inner_ret)
    ultimately show ?case unfolding fifo_wait.simps by (rule inner_bind [of 0 _ 0, simplified])
  qed (simp add: inner_ret)
  then show "inner 0 (G2FifoWait H)" by (simp add: G2FifoWait_def)
qed

lemma inner_loops:
  "inner n (rd_bytes n H a i)" "inner n (rd_words n H a i)" "inner (length vs) (wr_words vs H a i)"
proof -
  have w: "inner 0 (when_st c m)" if "inner 0 m" for c and m :: "('h bba, unit) state"
    using that by (auto simp: when_st_def intro: inner_ret)
  show "inner n (rd_bytes n H a i)"
  proof (induction n arbitrary: i)
    case (Suc n)
    have "inner (0 + (1 + (n + 0))) (do {
       when_st (i \<noteq> 0 \<and> i mod 32 = 0) (G2FifoWait H);
       v \<leftarrow> g2_load H 1 (a + word_of_nat i);
       bs \<leftarrow> rd_bytes n H a (i + 1);
       ret (ucast v # bs) })"
      by (intro inner_bind w innerI Suc)
    then show ?case by simp
  qed (simp add: inner_ret)
  show "inner n (rd_words n H a i)"
  proof (induction n arbitrary: i)
    case (Suc n)
    have "inner (1 + (n + 0)) (do {
       v \<leftarrow> g2_load H 4 (a + word_of_nat i * 4);
       vs \<leftarrow> rd_words n H a (i + 1);
       ret (v # vs) })"
      by (intro inner_bind innerI Suc)
    then show ?case by simp
  qed (simp add: inner_ret)
  show "inner (length vs) (wr_words vs H a i)"
  proof (induction vs arbitrary: i)
    case (Cons v vs)
    have "inner (1 + length vs) (do { g2_store H 4 (a + word_of_nat i * 4) v; wr_words vs H a (i + 1) })"
      by (intro inner_bind innerI Cons)
    then show ?case by simp
  qed (simp add: inner_ret)
qed

lemma bus_locked:
  fixes m :: "('h bba, 'a) state"
  assumes "inner k m" and "k \<le> W"
  shows "state_io_rel (bus_kept W) (locked H m)"
  unfolding state_io_rel_def
proof
  fix s :: "'h bba"
  define s0 where "s0 = s\<lparr>b_sr := b_sr s OR 0xF0, b_susp := (1, 1, 1), b_win := 0\<rparr>"
  have "(b_sr s OR 0xF0) AND 0xF0 = 0xF0" by (rule bit_word_eqI) (auto simp: bit_simps)
  then have i0: "irq_masked s0 \<and> b_susp s0 = (1, 1, 1)" by (simp add: irq_masked_def s0_def)
  define s2 where "s2 = snd (run_state (do { G2FifoWait H; m }) s0)"
  have "inner (0 + k) (do { G2FifoWait H; m })" by (intro inner_bind innerI assms(1))
  then have i2: "b_sr s2 = b_sr s0 \<and> b_susp s2 = (1, 1, 1) \<and> b_cs s2 = b_cs s0 \<and> b_kmode s2 = b_kmode s0
     \<and> (b_clean s0 \<longrightarrow> b_clean s2) \<and> b_win s2 \<le> b_win s0 + k \<and> b_maxwin s2 \<le> max (b_maxwin s0) (b_win s0 + k)"
    using i0 unfolding inner_def Let_def s2_def by simp
  have "snd (run_state (locked H m) s) = s2\<lparr>b_susp := (0, 0, 0), b_sr := b_sr s\<rparr>"
    by (simp add: locked_def G2Lock_def DcIrqDisable_def G2Unlock_def DcIrqRestore_def s2_def s0_def split: prod.splits)
  then show "bus_kept W s (snd (run_state (locked H m) s))"
    using i2 assms(2) by (auto simp: bus_kept_def s0_def)
qed


lemma bus_prims:
  assumes "1 \<le> W"
  shows "state_io_rel (bus_kept W) (G2Read8 H a)" "state_io_rel (bus_kept W) (G2Read16 H a)"
    "state_io_rel (bus_kept W) (G2Read32 H a)" "state_io_rel (bus_kept W) (G2Write8 H a b)"
    "state_io_rel (bus_kept W) (G2Write16 H a w)" "state_io_rel (bus_kept W) (G2Write32 H a d)"
  unfolding G2Read8_def G2Read16_def G2Read32_def G2Write8_def G2Write16_def G2Write32_def
  using inner_bind [OF inner_load(1) inner_ret] assms
  by (auto intro!: bus_locked [where k = 1] inner_load simp flip: One_nat_def)

lemma bus_chunks:
  assumes "8 \<le> W"
  shows "state_io_rel (bus_kept W) (rd_chunks dw H a i)" "state_io_rel (bus_kept W) (wr_chunks vs H a i)"
proof -
  show "state_io_rel (bus_kept W) (rd_chunks dw H a i)"
  proof (induction dw H a i rule: rd_chunks.induct)
    case (1 dw H a i)
    have "state_io_rel (bus_kept W) (locked H (rd_words (min dw 8) H a i))"
      by (rule bus_locked [OF inner_loops(2)]) (use assms in simp)
    with 1 show ?case by (subst rd_chunks.simps) (auto intro!: bus_rules)
  qed
  show "state_io_rel (bus_kept W) (wr_chunks vs H a i)"
  proof (induction vs H a i rule: wr_chunks.induct)
    case (1 vs H a i)
    have "state_io_rel (bus_kept W) (locked H (wr_words (take 8 vs) H a i))"
      by (rule bus_locked [OF inner_loops(3)]) (use assms in simp)
    with 1 show ?case by (subst wr_chunks.simps) (auto intro!: bus_rules)
  qed
qed

lemma bus_modify: "(\<And>s. bus_kept W s (f s)) \<Longrightarrow> state_io_rel (bus_kept W) (modify f)"
  by (rule io_modify)

lemma bus_loops:
  assumes "1 \<le> W"
  shows "state_io_rel (bus_kept W) (gaps_poll n H)" "state_io_rel (bus_kept W) (reset_poll n H)"
    "state_io_rel (bus_kept W) (tx_addrs n H i)" "state_io_rel (bus_kept W) (pad_bytes n H a i)"
proof -
  note p = bus_prims [OF assms]
  show "state_io_rel (bus_kept W) (gaps_poll n H)" "state_io_rel (bus_kept W) (reset_poll n H)"
    by (induction n) (auto intro!: bus_rules p)
  show "state_io_rel (bus_kept W) (tx_addrs n H i)" by (induction n arbitrary: i) (auto intro!: bus_rules p)
  show "state_io_rel (bus_kept W) (pad_bytes n H a i)" by (induction n arbitrary: i) (auto intro!: bus_rules p)
qed

lemma bus_setup:
  assumes "1 \<le> W"
  shows "state_io_rel (bus_kept W) (gaps_setup H)" "state_io_rel (bus_kept W) (gaps_magic H)"
    "state_io_rel (bus_kept W) (RtlReset H)" "state_io_rel (bus_kept W) (RtlReadMac H)"
    "state_io_rel (bus_kept W) (rtl_dance H)" "state_io_rel (bus_kept W) (rtl_config H)"
    "state_io_rel (bus_kept W) (RtlStart H)"
proof -
  note p = bus_prims [OF assms] bus_loops [OF assms]
  show "state_io_rel (bus_kept W) (gaps_setup H)" unfolding gaps_setup_def by (intro bus_rules p)
  show "state_io_rel (bus_kept W) (gaps_magic H)" unfolding gaps_magic_def by (intro bus_rules p)
  show r: "state_io_rel (bus_kept W) (RtlReset H)" unfolding RtlReset_def by (intro bus_rules p)
  show "state_io_rel (bus_kept W) (RtlReadMac H)"
    unfolding RtlReadMac_def by (intro bus_rules p bus_modify) (simp add: bus_kept_def)
  show d: "state_io_rel (bus_kept W) (rtl_dance H)" unfolding rtl_dance_def by (intro bus_rules p)
  show c: "state_io_rel (bus_kept W) (rtl_config H)" unfolding rtl_config_def by (intro bus_rules p)
  show "state_io_rel (bus_kept W) (RtlStart H)"
    unfolding RtlStart_def by (intro bus_rules p r d c bus_modify) (simp add: bus_kept_def)
qed

lemma bus_frames:
  assumes "8 \<le> W"
  shows "state_io_rel (bus_kept W) (Tx H pkt n)" "state_io_rel (bus_kept W) (Rx H m)"
proof -
  have W1: "1 \<le> W" using assms by simp
  note p = bus_prims [OF W1] bus_loops [OF W1] bus_setup [OF W1] bus_chunks [OF assms]
  have m: "state_io_rel (bus_kept W) (modify (\<lambda>s. s\<lparr>b_curtx := f s\<rparr>))" "state_io_rel (bus_kept W) (modify (\<lambda>s. s\<lparr>b_currx := f s\<rparr>))"
    for f by (auto intro!: bus_modify simp: bus_kept_def)
  show "state_io_rel (bus_kept W) (Tx H pkt n)"
    unfolding Tx_def G2WriteBlock32_def Let_def by (intro bus_rules p m)
  show "state_io_rel (bus_kept W) (Rx H m)"
    unfolding Rx_def G2ReadBlock32_def Let_def by (intro bus_rules p m)
qed

lemma bus_block: "state_io_rel (bus_kept 16) (G2ReadBlock H a 16)"
  unfolding G2ReadBlock_def by (rule bus_locked [OF inner_loops(1)]) simp

lemma bus_in_kmode:
  assumes "state_io_rel (bus_kept W) m"
  shows "state_io_rel (bus_kept W) (b_in_kmode m)"
proof
  fix x s s'
  assume r: "run_state (b_in_kmode m) s = (x, s')"
  obtain y t where t: "run_state m (s\<lparr>b_kmode := True\<rparr>) = (y, t)" by fastforce
  then have "bus_kept W (s\<lparr>b_kmode := True\<rparr>) t" using assms by (auto dest: state_io_relD)
  with r t show "bus_kept W s s'" by (auto simp: b_in_kmode_def bus_kept_def)
qed

lemma bus_in_g2cs:
  assumes "state_io_rel (bus_kept W) m"
  shows "state_io_rel (bus_kept W) (in_g2cs m)"
proof
  fix x s s'
  assume r: "run_state (in_g2cs m) s = (x, s')"
  obtain y t where t: "run_state m (s\<lparr>b_cs := b_cs s + 1\<rparr>) = (y, t)" by fastforce
  then have "bus_kept W (s\<lparr>b_cs := b_cs s + 1\<rparr>) t" using assms by (auto dest: state_io_relD)
  with r t show "bus_kept W s s'" by (auto simp: in_g2cs_def bus_kept_def)
qed


section \<open>The receive ring\<close>

lemma run_locked: "run_state (locked H m) s = (x, s') \<Longrightarrow> \<exists>t t'. run_state m t = (x, t')"
  by (auto simp: locked_def split: prod.splits)

lemma length_rd_words: "length (fst (run_state (rd_words n H a i) s)) = n"
  by (induction n arbitrary: i s) (auto split: prod.splits, metis fst_conv)

lemma length_rd_chunks: "length (fst (run_state (rd_chunks dw H a i) s)) = dw"
proof (induction dw H a i arbitrary: s rule: rd_chunks.induct)
  case (1 dw H a i)
  show ?case
  proof (cases "dw = 0")
    case True
    then show ?thesis by (subst rd_chunks.simps) simp
  next
    case False
    obtain vs s1 where 1: "run_state (locked H (rd_words (min dw 8) H a i)) s = (vs, s1)" by fastforce
    obtain t t' where "run_state (rd_words (min dw 8) H a i) t = (vs, t')" using run_locked [OF 1] by blast
    then have "length vs = min dw 8" using length_rd_words [of "min dw 8" H a i t] by simp
    moreover obtain ws s2 where 2: "run_state (rd_chunks (dw - min dw 8) H a (i + min dw 8)) s1 = (ws, s2)" by fastforce
    moreover have "length ws = dw - min dw 8" using "1.IH" [OF False, of s1] 2 by simp
    ultimately show ?thesis using 1 False by (subst rd_chunks.simps) simp
  qed
qed

lemma length_ReadBlock32: "run_state (G2ReadBlock32 H a n) s = (bs, s') \<Longrightarrow> length bs = 4 * ((n + 3) div 4)"
  using length_rd_chunks [of "(n + 3) div 4" H a 0 s]
  by (auto simp: G2ReadBlock32_def length_concat comp_def sum_list_triv split: prod.splits)

text \<open>
  Whatever the adapter reports, a receive answers no frame, an error, or a length of at
  most the caller's and 1514 bytes, and then stores that many bytes rounded up to whole
  words: inside a buffer whose size is a multiple of four, and up to three bytes past the
  end of any other.
\<close>

theorem BbaRxPoll_bounds:
  assumes "run_state (BbaRxPoll H nMax) s = ((n, bs), s')"
  shows "-1 \<le> n \<and> n \<le> int nMax \<and> n \<le> 1514 \<and> (n \<le> 0 \<and> bs = [] \<or> length bs = 4 * ((nat n + 3) div 4))
     \<and> (4 dvd nMax \<longrightarrow> length bs \<le> nMax) \<and> length bs < nMax + 4"
proof -
  obtain t t' where r: "run_state (Rx H nMax) t = ((n, bs), t')"
    using assms by (auto simp: BbaRxPoll_def in_g2cs_def b_in_kmode_def split: prod.splits)
  have "n \<in> {0, -1} \<and> bs = [] \<or> (\<exists>u u'. 0 \<le> n \<and> n \<le> int nMax \<and> n \<le> 1514 \<and> run_state (G2ReadBlock32 H u (nat n)) u' = (bs, snd (run_state (G2ReadBlock32 H u (nat n)) u')))"
    using r unfolding Rx_def Let_def
    by (auto split: prod.splits if_splits) (metis nat_int prod.collapse fst_conv snd_conv)+
  then show ?thesis
  proof
    assume "\<exists>u u'. 0 \<le> n \<and> n \<le> int nMax \<and> n \<le> 1514 \<and> run_state (G2ReadBlock32 H u (nat n)) u' = (bs, snd (run_state (G2ReadBlock32 H u (nat n)) u'))"
    then have n: "0 \<le> n" "n \<le> int nMax" "n \<le> 1514" and l: "length bs = 4 * ((nat n + 3) div 4)"
      using length_ReadBlock32 by blast+
    have "length bs \<le> nMax" if "4 dvd nMax" using that n l by (auto elim!: dvdE)
    moreover have "length bs < nMax + 4" using n l by linarith
    ultimately show ?thesis using n l by simp
  qed auto
qed

section \<open>Witnesses\<close>

definition no_adapter :: "unit g2hw" where
  "no_adapter = \<lparr>g2_rd = (\<lambda>_ _ h. (0, h)), g2_wr = (\<lambda>_ _ _ h. h)\<rparr>"

definition bba_init :: "'h \<Rightarrow> 'h bba" where
  "bba_init h = \<lparr>b_mac = replicate 6 0, b_curtx = 0, b_currx = 0, b_csInit = False, b_cs = 0, b_kmode = False,
     b_sr = 0x40000000, b_susp = (0, 0, 0), b_clean = True, b_win = 0, b_maxwin = 0, b_dev = h\<rparr>"


lemma BbaRxPoll_bounds_witness:
  "\<exists>n bs s'. run_state (BbaRxPoll no_adapter 1600) (bba_init ()) = ((n, bs), s') \<and> length bs \<le> 1600"
proof -
  obtain n bs s' where r: "run_state (BbaRxPoll no_adapter 1600) (bba_init ()) = ((n, bs), s')" by (metis prod.exhaust)
  from BbaRxPoll_bounds [OF r] r show ?thesis by simp
qed

end
