(* ===== verification/Fifo.thy ===== *)
theory Fifo
  imports Prelude
begin

text \<open>
  The contract of a bounded queue, shared by the two event queues of the shell: the key
  queue of \<open>shell/dcinput.c\<close> and the input ring of each window (\<open>shell/dcwin.h\<close>), which
  the shell fills and the client library drains. Also the bounds-checked array accesses
  with signed indices that the shell's handlers use.
\<close>

section \<open>Arrays indexed by a C \<open>int\<close>\<close>

definition at :: "'a list \<Rightarrow> int \<Rightarrow> 'a option" where
  "at xs i = (if 0 \<le> i \<and> i < int (length xs) then Some (xs ! nat i) else None)"

definition upd :: "'a list \<Rightarrow> int \<Rightarrow> 'a \<Rightarrow> 'a list option" where
  "upd xs i v = (if 0 \<le> i \<and> i < int (length xs) then Some (xs[nat i := v]) else None)"

lemma at_Some: "at xs i = Some v \<longleftrightarrow> 0 \<le> i \<and> i < int (length xs) \<and> v = xs ! nat i"
  by (auto simp: at_def)

lemma upd_Some: "upd xs i v = Some ys \<longleftrightarrow> 0 \<le> i \<and> i < int (length xs) \<and> ys = xs[nat i := v]"
  by (auto simp: upd_def)

lemma at_in [simp]: "0 \<le> i \<Longrightarrow> i < int (length xs) \<Longrightarrow> at xs i = Some (xs ! nat i)"
  by (simp add: at_def)

lemma upd_in [simp]: "0 \<le> i \<Longrightarrow> i < int (length xs) \<Longrightarrow> upd xs i v = Some (xs[nat i := v])"
  by (simp add: upd_def)

section \<open>Bounded queues\<close>

text \<open>
  \<open>contents\<close> is the abstraction: what is queued, oldest first. The laws promise nothing
  about pushing on a full queue; the two implementations differ there.
\<close>

locale fifo =
  fixes push :: "'a \<Rightarrow> 'q \<Rightarrow> 'q"
    and pop :: "'q \<Rightarrow> ('a \<times> 'q) option"
    and contents :: "'q \<Rightarrow> 'a list"
    and ok :: "'q \<Rightarrow> bool"
    and cap :: nat
  assumes ok_push: "ok q \<Longrightarrow> ok (push x q)"
    and ok_pop: "ok q \<Longrightarrow> pop q = Some (x, q') \<Longrightarrow> ok q'"
    and push_contents: "ok q \<Longrightarrow> length (contents q) < cap \<Longrightarrow> contents (push x q) = contents q @ [x]"
    and pop_empty: "ok q \<Longrightarrow> contents q = [] \<Longrightarrow> pop q = None"
    and pop_contents: "ok q \<Longrightarrow> contents q = x # xs \<Longrightarrow> \<exists>q'. pop q = Some (x, q') \<and> contents q' = xs"
begin

primrec drain :: "nat \<Rightarrow> 'q \<Rightarrow> 'a list" where
  "drain 0 q = []"
| "drain (Suc n) q = (case pop q of None \<Rightarrow> [] | Some (x, q) \<Rightarrow> x # drain n q)"

lemma ok_pushes: "ok q \<Longrightarrow> ok (fold push xs q)"
  by (induction xs arbitrary: q) (simp_all add: ok_push)

lemma pushes_contents:
  "ok q \<Longrightarrow> length (contents q) + length xs \<le> cap \<Longrightarrow> contents (fold push xs q) = contents q @ xs"
proof (induction xs arbitrary: q)
  case (Cons x xs)
  have "contents (fold push xs (push x q)) = contents (push x q) @ xs"
    using Cons.prems by (intro Cons.IH) (simp_all add: ok_push push_contents)
  with Cons.prems show ?case by (simp add: push_contents)
qed simp

lemma drain_contents: "ok q \<Longrightarrow> length (contents q) \<le> n \<Longrightarrow> drain n q = contents q"
proof (induction n arbitrary: q)
  case (Suc n)
  show ?case
  proof (cases "contents q")
    case Nil
    with Suc.prems show ?thesis by (simp add: pop_empty)
  next
    case (Cons x xs)
    from pop_contents [OF Suc.prems(1) Cons] obtain q' where p: "pop q = Some (x, q')"
      and c: "contents q' = xs" by blast
    have "drain n q' = xs"
      using Suc.IH [of q'] Suc.prems Cons c by (simp add: ok_pop [OF _ p])
    with p Cons show ?thesis by simp
  qed
qed simp

text \<open>Delivery: what was pushed is popped, once each and in order.\<close>

lemma delivers:
  "ok q \<Longrightarrow> contents q = [] \<Longrightarrow> length xs \<le> cap \<Longrightarrow> drain (length xs) (fold push xs q) = xs"
  using drain_contents [of "fold push xs q" "length xs"] by (simp add: ok_pushes pushes_contents)

end

end
