(* ===== verification/Dcwin.thy ===== *)
theory Dcwin
  imports Fifo
begin

text \<open>
  The window protocol between the shell and its client applications: the shared section
  of \<open>shell/dcwin.h\<close>, the client library \<open>shell/dcwlib.c\<close>, and the reader side of the
  frame seqlock, \<open>SnapWindows\<close> of \<open>shell/dcshell.c\<close>.

  A window slot is a record, the section an array of four. Fixed-size character arrays are
  lists of their full size; \<open>lstrcpyW\<close> into one is bounds-checked and is \<open>None\<close> when the
  string and its terminator do not fit. Positions are mathematical integers. The command
  list of a window is published by a sequence of separate stores, so \<open>DCWinEndFrame\<close> is
  given twice: as the function the client calls, and as the stores one by one, for the
  interleavings with the reader.
\<close>

section \<open>The shared section\<close>

record dccmd =
  c_op :: nat
  c_x :: int
  c_y :: int
  c_w :: int
  c_h :: int
  c_color :: u32
  c_color2 :: u32
  c_text :: "wchar list"

record dcwindow =
  dw_inUse :: bool
  dw_ownerPid :: u32
  dw_x :: int
  dw_y :: int
  dw_w :: int
  dw_h :: int
  dw_title :: "wchar list"
  dw_icon :: u32
  dw_wantClose :: bool
  dw_gen :: u32
  dw_cmdCount :: nat
  dw_cmd :: "dccmd list"
  dw_inHead :: u32
  dw_inTail :: u32
  dw_in :: "u32 list"
  dw_ptrX :: int
  dw_ptrY :: int
  dw_ptrBtn :: bool

record dccrash =
  cr_seq :: u32
  cr_code :: u32
  cr_addr :: u32
  cr_access :: u32
  cr_badAddr :: u32
  cr_proc :: "wchar list"

record dcshared =
  sh_magic :: u32
  sh_execSeq :: u32
  sh_execPath :: "wchar list"
  sh_win :: "dcwindow list"
  sh_crash :: dccrash

definition DCWIN_MAGIC :: u32 where "DCWIN_MAGIC = 0x44435731"
definition DCWIN_MAXWIN :: nat where "DCWIN_MAXWIN = 4"
definition DCWIN_MAXCMD :: nat where "DCWIN_MAXCMD = 192"
definition DCWIN_MAXIN :: nat where "DCWIN_MAXIN = 16"
definition DCOP_FILL :: nat where "DCOP_FILL = 1"
definition DCOP_TEXT :: nat where "DCOP_TEXT = 2"
definition DCOP_ICON :: nat where "DCOP_ICON = 3"

definition zero_cmd :: dccmd where
  "zero_cmd = \<lparr>c_op = 0, c_x = 0, c_y = 0, c_w = 0, c_h = 0, c_color = 0, c_color2 = 0,
     c_text = replicate 40 0\<rparr>"

definition zero_win :: dcwindow where
  "zero_win = \<lparr>dw_inUse = False, dw_ownerPid = 0, dw_x = 0, dw_y = 0, dw_w = 0, dw_h = 0,
     dw_title = replicate 40 0, dw_icon = 0, dw_wantClose = False, dw_gen = 0, dw_cmdCount = 0,
     dw_cmd = replicate 192 zero_cmd, dw_inHead = 0, dw_inTail = 0, dw_in = replicate 16 0,
     dw_ptrX = 0, dw_ptrY = 0, dw_ptrBtn = False\<rparr>"

definition zero_crash :: dccrash where
  "zero_crash = \<lparr>cr_seq = 0, cr_code = 0, cr_addr = 0, cr_access = 0, cr_badAddr = 0,
     cr_proc = replicate 32 0\<rparr>"

text \<open>\<open>InitShared\<close>: the shell zeroes the section and stamps it.\<close>

definition InitShared :: dcshared where
  "InitShared = \<lparr>sh_magic = DCWIN_MAGIC, sh_execSeq = 0, sh_execPath = replicate 260 0,
     sh_win = replicate 4 zero_win, sh_crash = zero_crash\<rparr>"

definition win_upd :: "nat \<Rightarrow> (dcwindow \<Rightarrow> dcwindow) \<Rightarrow> dcshared \<Rightarrow> dcshared" where
  "win_upd i f sh = sh\<lparr>sh_win := (sh_win sh)[i := f (sh_win sh ! i)]\<rparr>"

text \<open>\<open>lstrcpyW\<close> into a fixed array: copies up to and including the terminator.\<close>

definition lstrcpyW :: "wchar list \<Rightarrow> wchar list \<Rightarrow> wchar list option" where
  "lstrcpyW dst s =
     (let t = takeWhile (\<lambda>c. c \<noteq> 0) s @ [0]
      in if length t \<le> length dst then Some (t @ drop (length t) dst) else None)"

section \<open>The client library\<close>

record dcwin =
  cl_idx :: nat
  cl_build :: "dccmd list"
  cl_buildN :: nat
  cl_lastW :: int
  cl_lastH :: int

definition find_slot :: "dcshared \<Rightarrow> nat option" where
  "find_slot sh = List.find (\<lambda>i. \<not> dw_inUse (sh_win sh ! i)) [0 ..< DCWIN_MAXWIN]"

definition claim_slot ::
  "u32 \<Rightarrow> nat \<Rightarrow> int \<times> int \<times> int \<times> int \<Rightarrow> wchar list \<Rightarrow> u32 \<Rightarrow> dcshared \<Rightarrow> dcshared option" where
  "claim_slot pid i r title icon sh = (case r of (x, y, w, h) \<Rightarrow> do {
     t \<leftarrow> lstrcpyW (dw_title zero_win) title;
     Some (win_upd i (\<lambda>_. zero_win\<lparr>dw_ownerPid := pid, dw_x := x, dw_y := y, dw_w := w, dw_h := h,
       dw_title := t, dw_icon := icon, dw_inUse := True\<rparr>) sh) })"

text \<open>
  \<open>sec t\<close> is the section as it stands after the \<open>t\<close>-th \<open>Sleep(20)\<close>. The result is no
  window, or the section and the client state; \<open>None\<close> when the title does not fit.
\<close>

primrec wait_magic :: "nat \<Rightarrow> (nat \<Rightarrow> dcshared) \<Rightarrow> nat \<Rightarrow> nat" where
  "wait_magic 0 sec t = t"
| "wait_magic (Suc n) sec t = (if sh_magic (sec t) \<noteq> DCWIN_MAGIC then wait_magic n sec (t + 1) else t)"

definition DCWinOpen ::
  "u32 \<Rightarrow> (nat \<Rightarrow> dcshared) \<Rightarrow> int \<times> int \<times> int \<times> int \<Rightarrow> wchar list \<Rightarrow> u32 \<Rightarrow> dccmd list
     \<Rightarrow> (dcshared \<times> dcwin) option option" where
  "DCWinOpen pid sec r title icon build =
     (let sh = sec (wait_magic 50 sec 0)
      in if sh_magic sh \<noteq> DCWIN_MAGIC then Some None
         else case find_slot sh of
           None \<Rightarrow> Some None
         | Some i \<Rightarrow> do {
             sh \<leftarrow> claim_slot pid i r title icon sh;
             Some (Some (sh, \<lparr>cl_idx = i, cl_build = build, cl_buildN = 0,
                cl_lastW = fst (snd (snd r)), cl_lastH = snd (snd (snd r))\<rparr>)) })"

abbreviation my_win :: "dcshared \<Rightarrow> dcwin \<Rightarrow> dcwindow" where
  "my_win sh c \<equiv> sh_win sh ! cl_idx c"

definition at_least1 :: "int \<Rightarrow> int" where "at_least1 v = (if v < 1 then 1 else v)"

definition DCWinClientSize :: "dcshared \<Rightarrow> dcwin \<Rightarrow> (bool \<times> int \<times> int) \<times> dcwin" where
  "DCWinClientSize sh c =
     (let w = at_least1 (dw_w (my_win sh c)); h = at_least1 (dw_h (my_win sh c))
      in ((w \<noteq> cl_lastW c \<or> h \<noteq> cl_lastH c, w, h), c\<lparr>cl_lastW := w, cl_lastH := h\<rparr>))"

definition DCWinResized :: "dcshared \<Rightarrow> dcwin \<Rightarrow> bool \<times> dcwin" where
  "DCWinResized sh c = (let (r, c) = DCWinClientSize sh c in (fst r, c))"

definition RGB :: "u32 \<Rightarrow> u32 \<Rightarrow> u32 \<Rightarrow> u32" where
  "RGB r g b = r OR push_bit 8 g OR push_bit 16 b"

definition DCWinBeginFrame :: "dcwin \<Rightarrow> dcwin" where
  "DCWinBeginFrame c = c\<lparr>cl_buildN := 0\<rparr>"

definition add_cmd :: "(dccmd \<Rightarrow> dccmd) \<Rightarrow> dcwin \<Rightarrow> dcwin" where
  "add_cmd f c =
     (if cl_buildN c \<ge> DCWIN_MAXCMD then c
      else c\<lparr>cl_build := (cl_build c)[cl_buildN c := f (cl_build c ! cl_buildN c)],
             cl_buildN := cl_buildN c + 1\<rparr>)"

definition DCWinFill :: "int \<Rightarrow> int \<Rightarrow> int \<Rightarrow> int \<Rightarrow> u32 \<Rightarrow> dcwin \<Rightarrow> dcwin" where
  "DCWinFill x y w h color =
     add_cmd (\<lambda>p. p\<lparr>c_op := DCOP_FILL, c_x := x, c_y := y, c_w := w, c_h := h, c_color := color\<rparr>)"

definition DCWinFillBg :: "dcshared \<Rightarrow> u32 \<Rightarrow> dcwin \<Rightarrow> dcwin" where
  "DCWinFillBg sh color c =
     DCWinFill 0 0 (at_least1 (dw_w (my_win sh c))) (at_least1 (dw_h (my_win sh c))) color c"

definition clip39 :: "wchar list \<Rightarrow> wchar list" where
  "clip39 s = take 39 (takeWhile (\<lambda>ch. ch \<noteq> 0) s)"

definition DCWinText :: "int \<Rightarrow> int \<Rightarrow> u32 \<Rightarrow> u32 \<Rightarrow> wchar list \<Rightarrow> dcwin \<Rightarrow> dcwin" where
  "DCWinText x y fg bg s =
     add_cmd (\<lambda>p. p\<lparr>c_op := DCOP_TEXT, c_x := x, c_y := y, c_color := fg, c_color2 := bg,
       c_text := clip39 s @ [0] @ drop (length (clip39 s) + 1) (c_text p)\<rparr>)"

definition DCWinIcon :: "int \<Rightarrow> int \<Rightarrow> u32 \<Rightarrow> dcwin \<Rightarrow> dcwin" where
  "DCWinIcon x y iconId = add_cmd (\<lambda>p. p\<lparr>c_op := DCOP_ICON, c_x := x, c_y := y, c_color := iconId\<rparr>)"

definition DCWinEndFrame :: "dcwin \<Rightarrow> dcshared \<Rightarrow> dcshared" where
  "DCWinEndFrame c =
     win_upd (cl_idx c) (\<lambda>w.
       let w = w\<lparr>dw_gen := dw_gen w + 1\<rparr>;
           w = w\<lparr>dw_cmd := take (cl_buildN c) (cl_build c) @ drop (cl_buildN c) (dw_cmd w)\<rparr>;
           w = w\<lparr>dw_cmdCount := cl_buildN c\<rparr>
       in w\<lparr>dw_gen := dw_gen w + 1\<rparr>)"

definition DCWinGetPointer :: "dcshared \<Rightarrow> dcwin \<Rightarrow> (int \<times> int \<times> bool) option" where
  "DCWinGetPointer sh c =
     (if dw_ptrX (my_win sh c) < 0 then None
      else Some (dw_ptrX (my_win sh c), dw_ptrY (my_win sh c), dw_ptrBtn (my_win sh c)))"

definition DCWinShouldClose :: "dcshared \<Rightarrow> dcwin \<Rightarrow> bool" where
  "DCWinShouldClose sh c = dw_wantClose (my_win sh c)"

definition DCWinExec :: "wchar list \<Rightarrow> dcshared \<Rightarrow> dcshared option" where
  "DCWinExec path sh = do {
     p \<leftarrow> lstrcpyW (sh_execPath sh) path;
     Some (sh\<lparr>sh_execPath := p, sh_execSeq := sh_execSeq sh + 1\<rparr>) }"

definition DCWinClose :: "dcwin \<Rightarrow> dcshared \<Rightarrow> dcshared" where
  "DCWinClose c = win_upd (cl_idx c) (\<lambda>w. w\<lparr>dw_inUse := False\<rparr>)"

text \<open>The crash report. \<open>None\<close> for \<open>path\<close> is a failed \<open>GetModuleFileNameW\<close>.\<close>

fun basename :: "wchar list \<Rightarrow> wchar list" where
  "basename s = rev (takeWhile (\<lambda>c. c \<noteq> 0x5C \<and> c \<noteq> 0x2F) (rev (takeWhile (\<lambda>c. c \<noteq> 0) s)))"

declare basename.simps [simp del]

definition copy_proc :: "wchar list \<Rightarrow> wchar list \<Rightarrow> wchar list" where
  "copy_proc base dst = (let t = take 31 base @ [0] in t @ drop (length t) dst)"

record excrec =
  ex_code :: u32
  ex_addr :: u32
  ex_info :: "u32 list"

definition DCWinCrashFilter :: "excrec \<Rightarrow> wchar list option \<Rightarrow> dcshared \<Rightarrow> dcshared" where
  "DCWinCrashFilter er path sh =
     (let cr = sh_crash sh;
          cr = cr\<lparr>cr_code := ex_code er, cr_addr := ex_addr er, cr_access := 0xFFFFFFFF,
                  cr_badAddr := 0\<rparr>;
          cr = (if ex_code er = 0xC0000005 \<and> 2 \<le> length (ex_info er)
                then cr\<lparr>cr_access := ex_info er ! 0, cr_badAddr := ex_info er ! 1\<rparr> else cr);
          base = (case path of Some p \<Rightarrow> basename p | None \<Rightarrow> ws ''app'')
      in sh\<lparr>sh_crash := cr\<lparr>cr_proc := copy_proc base (cr_proc cr), cr_seq := cr_seq cr + 1\<rparr>\<rparr>)"

section \<open>The input ring of a window\<close>

text \<open>The shell writes a key, the client polls it; the indices count up and wrap at 32 bits.\<close>

definition ring_put :: "u32 \<Rightarrow> dcwindow \<Rightarrow> dcwindow" where
  "ring_put key w =
     w\<lparr>dw_in := (dw_in w)[unat (dw_inHead w mod 16) := key], dw_inHead := dw_inHead w + 1\<rparr>"

definition ring_poll :: "dcwindow \<Rightarrow> (u32 \<times> dcwindow) option" where
  "ring_poll w =
     (if dw_inTail w = dw_inHead w then None
      else Some (dw_in w ! unat (dw_inTail w mod 16), w\<lparr>dw_inTail := dw_inTail w + 1\<rparr>))"

definition DCWinPollKey :: "dcshared \<Rightarrow> dcwin \<Rightarrow> (u32 \<times> dcshared) option" where
  "DCWinPollKey sh c =
     (case ring_poll (my_win sh c) of None \<Rightarrow> None
      | Some (k, w) \<Rightarrow> Some (k, win_upd (cl_idx c) (\<lambda>_. w) sh))"

definition ring_len :: "dcwindow \<Rightarrow> nat" where
  "ring_len w = unat (dw_inHead w - dw_inTail w)"

definition ring_keys :: "dcwindow \<Rightarrow> u32 list" where
  "ring_keys w = map (\<lambda>k. dw_in w ! unat ((dw_inTail w + word_of_nat k) mod 16)) [0 ..< ring_len w]"

definition ring_ok :: "dcwindow \<Rightarrow> bool" where
  "ring_ok w \<longleftrightarrow> length (dw_in w) = 16"

lemma unat_add_mod16: "unat ((t + word_of_nat k :: u32) mod 16) = (unat t + k) mod 16"
proof -
  have "unat ((t + word_of_nat k :: u32) mod 16) = unat (t + word_of_nat k :: u32) mod 16"
    by (simp add: unat_mod)
  also have "\<dots> = (unat t + k) mod 2 ^ 32 mod 16"
    by (simp add: unat_word_ariths unat_of_nat mod_simps)
  finally show ?thesis by (simp add: mod_mod_cancel)
qed

lemma ring_head: "dw_inHead w = dw_inTail w + word_of_nat (ring_len w)"
  by (simp add: ring_len_def)

lemma ring_keys_alt:
  "ring_keys w = map (\<lambda>k. dw_in w ! ((unat (dw_inTail w) + k) mod 16)) [0 ..< ring_len w]"
  by (simp add: ring_keys_def unat_add_mod16)

lemma ring_put_len: "ring_len w < 2 ^ 32 - 1 \<Longrightarrow> ring_len (ring_put k w) = ring_len w + 1"
proof -
  assume a: "ring_len w < 2 ^ 32 - 1"
  have "unat (dw_inHead w + 1 - dw_inTail w) = unat ((dw_inHead w - dw_inTail w) + 1)"
    by (simp add: algebra_simps)
  also have "\<dots> = (unat (dw_inHead w - dw_inTail w) + 1) mod 2 ^ 32"
    using unat_word_ariths(1) [of "dw_inHead w - dw_inTail w" 1] by simp
  finally show ?thesis using a by (simp add: ring_len_def ring_put_def)
qed

lemma ring_put_slot:
  "ring_ok w \<Longrightarrow> ring_put k w = w\<lparr>dw_in := (dw_in w)[(unat (dw_inTail w) + ring_len w) mod 16 := k],
     dw_inHead := dw_inHead w + 1\<rparr>"
  using unat_add_mod16 [of "dw_inTail w" "ring_len w"] ring_head [of w] by (simp add: ring_put_def)

lemma mod16_differ: "k < n \<Longrightarrow> n < k + 16 \<Longrightarrow> (t + k) mod 16 \<noteq> (t + n) mod (16 :: nat)"
proof
  assume a: "k < n" "n < k + 16" "(t + k) mod 16 = (t + n) mod 16"
  then have "16 dvd (t + n) - (t + k)" by (metis mod_eq_dvd_iff_nat add_le_cancel_left less_imp_le)
  with a show False by (auto dest: dvd_imp_le)
qed

lemma ring_put_keys:
  assumes "ring_ok w" and "ring_len w < 16"
  shows "ring_keys (ring_put k w) = ring_keys w @ [k]"
proof -
  have l: "length (dw_in w) = 16" using assms(1) by (simp add: ring_ok_def)
  have "(dw_in w)[(unat (dw_inTail w) + ring_len w) mod 16 := k] ! ((unat (dw_inTail w) + j) mod 16)
      = dw_in w ! ((unat (dw_inTail w) + j) mod 16)" if "j < ring_len w" for j
    using that assms(2) mod16_differ [of j "ring_len w" "unat (dw_inTail w)"] by simp
  moreover have "ring_len (ring_put k w) = ring_len w + 1" using assms(2) by (simp add: ring_put_len)
  ultimately show ?thesis
    using l by (simp add: ring_keys_alt) (simp add: ring_put_slot [OF assms(1)])
qed

lemma ring_len_0: "ring_len w = 0 \<longleftrightarrow> dw_inTail w = dw_inHead w"
  by (auto simp: ring_len_def unat_eq_0)

lemma ring_poll_keys:
  assumes "ring_keys w = x # xs"
  shows "\<exists>w'. ring_poll w = Some (x, w') \<and> ring_keys w' = xs"
proof -
  let ?w = "w\<lparr>dw_inTail := dw_inTail w + 1\<rparr>"
  have n: "ring_len w = Suc (length xs)" using arg_cong [OF assms, of length] by (simp add: ring_keys_def)
  then have ne: "dw_inTail w \<noteq> dw_inHead w" using ring_len_0 [of w] by simp
  have m: "ring_len ?w = length xs"
    using n ne unat_minus_one [of "dw_inHead w - dw_inTail w"]
    by (simp add: ring_len_def diff_diff_add)
  have "ring_keys w = dw_in w ! unat (dw_inTail w mod 16) # ring_keys ?w"
    by (simp add: ring_keys_def n m map_upt_Suc add.assoc del: upt_Suc)
  with assms ne show ?thesis by (simp add: ring_poll_def)
qed

interpretation win_ring: fifo ring_put ring_poll ring_keys ring_ok 16
proof
  show "ring_ok w \<Longrightarrow> ring_ok (ring_put x w)" for w x by (simp add: ring_ok_def ring_put_def)
  show "ring_ok w \<Longrightarrow> ring_poll w = Some (x, w') \<Longrightarrow> ring_ok w'" for w w' x
    by (auto simp: ring_ok_def ring_poll_def split: if_splits)
  show "ring_ok w \<Longrightarrow> length (ring_keys w) < 16 \<Longrightarrow> ring_keys (ring_put x w) = ring_keys w @ [x]" for w x
    by (rule ring_put_keys) (simp_all add: ring_keys_def)
  show "ring_ok w \<Longrightarrow> ring_keys w = [] \<Longrightarrow> ring_poll w = None" for w
    using ring_len_0 [of w] by (simp add: ring_keys_def ring_poll_def)
  show "ring_ok w \<Longrightarrow> ring_keys w = x # xs \<Longrightarrow> \<exists>w'. ring_poll w = Some (x, w') \<and> ring_keys w' = xs"
    for w x xs by (rule ring_poll_keys)
qed

primrec poll_n :: "nat \<Rightarrow> dcwindow \<Rightarrow> u32 list" where
  "poll_n 0 w = []"
| "poll_n (Suc n) w = (case ring_poll w of None \<Rightarrow> [] | Some (k, w) \<Rightarrow> k # poll_n n w)"

lemma poll_n_drain: "poll_n n w = win_ring.drain n w"
  by (induction n arbitrary: w) (simp_all split: option.splits)

lemma ring_overflow_slot:
  assumes "ring_ok w" and "ring_len w = 16"
  shows "ring_poll (ring_put k w) = Some (k, (ring_put k w)\<lparr>dw_inTail := dw_inTail w + 1\<rparr>)"
proof -
  have "ring_len (ring_put k w) = 17" using assms(2) by (simp add: ring_put_len)
  then have ne: "dw_inTail (ring_put k w) \<noteq> dw_inHead (ring_put k w)"
    using ring_len_0 [of "ring_put k w"] by simp
  have "unat (dw_inTail w mod 16) = (unat (dw_inTail w) + 16) mod 16"
    using unat_add_mod16 [of "dw_inTail w" 0] by simp
  with assms ne show ?thesis
    by (simp add: ring_poll_def ring_put_slot ring_ok_def)
qed

lemma ring_fill:
  assumes "ring_ok w" and "dw_inTail w = dw_inHead w" and "length ks \<le> 16"
  shows "poll_n (length ks) (fold ring_put ks w) = ks"
proof -
  have e: "ring_keys w = []" using assms(2) ring_len_0 [of w] by (simp add: ring_keys_def)
  from win_ring.delivers [OF assms(1) e assms(3)] show ?thesis by (simp add: poll_n_drain)
qed

text \<open>
  C36: keys the shell forwards to a window reach the client in the order they were typed as
  long as at most sixteen are waiting. The shell does not check for room: with a
  seventeenth key waiting, the client's next poll returns that newest key instead of the
  oldest one, which is lost.
\<close>
theorem ring_delivery:
  assumes "ring_ok w" and "dw_inTail w = dw_inHead w" and "length ks \<le> 16"
  shows "poll_n (length ks) (fold ring_put ks w) = ks
    \<and> (length ks = 16 \<longrightarrow> map_option fst (ring_poll (ring_put k (fold ring_put ks w))) = Some k)"
proof -
  have e: "ring_keys w = []" using assms(2) ring_len_0 [of w] by (simp add: ring_keys_def)
  have o: "ring_ok (fold ring_put ks w)" by (rule win_ring.ok_pushes [OF assms(1)])
  have c: "ring_keys (fold ring_put ks w) = ks"
    using win_ring.pushes_contents [OF assms(1), of ks] assms(3) e by simp
  have "length (ring_keys (fold ring_put ks w)) = ring_len (fold ring_put ks w)"
    by (simp add: ring_keys_def)
  then have n: "ring_len (fold ring_put ks w) = length ks" unfolding c by simp
  have "map_option fst (ring_poll (ring_put k (fold ring_put ks w))) = Some k" if "length ks = 16"
    using ring_overflow_slot [OF o, of k] n that by simp
  with ring_fill [OF assms] show ?thesis by simp
qed

theorem ring_delivery_witness:
  "poll_n (length [5, 6]) (fold ring_put [5, 6] zero_win) = [5, 6]
   \<and> map_option fst (ring_poll (ring_put 99
        (fold ring_put [1,2,3,4,5,6,7,8,9,10,11,12,13,14,15,16] zero_win))) = Some 99"
proof -
  have z: "ring_ok zero_win" "dw_inTail zero_win = dw_inHead zero_win"
    by (simp_all add: ring_ok_def zero_win_def)
  from ring_delivery [OF z, of "[5, 6]"]
    ring_delivery [OF z, of "[1,2,3,4,5,6,7,8,9,10,11,12,13,14,15,16]" 99]
  show ?thesis by simp
qed

end
