(* ===== verification/Seqlock.thy ===== *)
theory Seqlock
  imports Dcwin
begin

text \<open>
  Frames published by a client while the shell reads them: the stores of
  \<open>DCWinEndFrame\<close> (\<open>shell/dcwlib.c\<close>) and the loads of \<open>SnapWindows\<close>
  (\<open>shell/dcshell.c\<close>) as the steps of two processes on one window slot, in any
  interleaving. The single CPU executes the stores in program order. Ghost fields count
  the generation bumps, remember the count at the reader's two loads of \<open>gen\<close>, and list
  the frames published so far; no step depends on them.
\<close>

unbundle bit_operations_syntax

datatype wpc = WIdle | WCopy nat | WGen

datatype rpc = RTry nat | RHead nat u32 | RCopy nat u32 nat nat | RDone

record seqlock =
  q_win :: dcwindow
  q_build :: "dccmd list"
  q_n :: nat
  q_wpc :: wpc
  q_rpc :: rpc
  q_snap :: "dccmd list"
  q_snapN :: nat
  q_pub :: nat
  q_p0 :: nat
  q_p1 :: nat
  q_frames :: "dccmd list list"

definition bump :: "seqlock \<Rightarrow> seqlock" where
  "bump s = s\<lparr>q_win := (q_win s)\<lparr>dw_gen := dw_gen (q_win s) + 1\<rparr>, q_pub := q_pub s + 1\<rparr>"

definition store_cmd :: "nat \<Rightarrow> seqlock \<Rightarrow> seqlock" where
  "store_cmd i s = s\<lparr>q_win := (q_win s)\<lparr>dw_cmd := (dw_cmd (q_win s))[i := q_build s ! i]\<rparr>\<rparr>"

definition store_count :: "seqlock \<Rightarrow> seqlock" where
  "store_count s = s\<lparr>q_win := (q_win s)\<lparr>dw_cmdCount := q_n s\<rparr>\<rparr>"

text \<open>The writer: the client draws into its private list, then publishes it.\<close>

inductive writer :: "seqlock \<Rightarrow> seqlock \<Rightarrow> bool" where
  draw: "q_wpc s = WIdle \<Longrightarrow> length b = 192 \<Longrightarrow> n \<le> 192 \<Longrightarrow> writer s (s\<lparr>q_build := b, q_n := n\<rparr>)"
| begin_frame: "q_wpc s = WIdle \<Longrightarrow> writer s ((bump s)\<lparr>q_wpc := WCopy 0\<rparr>)"
| copy: "q_wpc s = WCopy i \<Longrightarrow> i < q_n s \<Longrightarrow> writer s ((store_cmd i s)\<lparr>q_wpc := WCopy (i + 1)\<rparr>)"
| count: "q_wpc s = WCopy i \<Longrightarrow> \<not> i < q_n s \<Longrightarrow> writer s ((store_count s)\<lparr>q_wpc := WGen\<rparr>)"
| end_frame: "q_wpc s = WGen \<Longrightarrow>
    writer s ((bump s)\<lparr>q_wpc := WIdle, q_frames := q_frames s @ [take (q_n s) (q_build s)]\<rparr>)"

text \<open>The reader: one window of \<open>SnapWindows\<close>, at most eight tries.\<close>

inductive reader :: "seqlock \<Rightarrow> seqlock \<Rightarrow> bool" where
  start: "q_rpc s = RDone \<Longrightarrow> reader s (s\<lparr>q_rpc := RTry 0, q_snapN := 0\<rparr>)"
| odd_gen: "q_rpc s = RTry t \<Longrightarrow> t < 8 \<Longrightarrow> dw_gen (q_win s) AND 1 \<noteq> 0 \<Longrightarrow>
    reader s (s\<lparr>q_rpc := RTry (t + 1)\<rparr>)"
| load_gen: "q_rpc s = RTry t \<Longrightarrow> t < 8 \<Longrightarrow> dw_gen (q_win s) AND 1 = 0 \<Longrightarrow>
    reader s (s\<lparr>q_rpc := RHead t (dw_gen (q_win s)), q_p0 := q_pub s\<rparr>)"
| load_count: "q_rpc s = RHead t g \<Longrightarrow>
    reader s (s\<lparr>q_rpc := RCopy t g (min (dw_cmdCount (q_win s)) 192) 0\<rparr>)"
| load_cmd: "q_rpc s = RCopy t g c i \<Longrightarrow> i < c \<Longrightarrow>
    reader s (s\<lparr>q_snap := (q_snap s)[i := dw_cmd (q_win s) ! i], q_rpc := RCopy t g c (i + 1)\<rparr>)"
| accept: "q_rpc s = RCopy t g c i \<Longrightarrow> \<not> i < c \<Longrightarrow> dw_gen (q_win s) = g \<Longrightarrow>
    reader s (s\<lparr>q_rpc := RDone, q_snapN := c, q_p1 := q_pub s\<rparr>)"
| reject: "q_rpc s = RCopy t g c i \<Longrightarrow> \<not> i < c \<Longrightarrow> dw_gen (q_win s) \<noteq> g \<Longrightarrow>
    reader s (s\<lparr>q_rpc := RTry (t + 1)\<rparr>)"
| give_up: "q_rpc s = RTry t \<Longrightarrow> \<not> t < 8 \<Longrightarrow> reader s (s\<lparr>q_rpc := RDone\<rparr>)"

inductive_cases writer_cases: "writer s s'"
inductive_cases reader_cases: "reader s s'"

definition seq_init :: seqlock where
  "seq_init = \<lparr>q_win = zero_win, q_build = replicate 192 zero_cmd, q_n = 0, q_wpc = WIdle,
     q_rpc = RDone, q_snap = replicate 192 zero_cmd, q_snapN = 0, q_pub = 0, q_p0 = 0, q_p1 = 0,
     q_frames = [[]]\<rparr>"

inductive reachable :: "seqlock \<Rightarrow> bool" where
  init: "reachable seq_init"
| by_writer: "reachable s \<Longrightarrow> writer s s' \<Longrightarrow> reachable s'"
| by_reader: "reachable s \<Longrightarrow> reader s s' \<Longrightarrow> reachable s'"

section \<open>Running the writer alone is \<open>DCWinEndFrame\<close>\<close>

lemma copies:
  "q_wpc s = WCopy i \<Longrightarrow> i \<le> q_n s \<Longrightarrow> q_n s \<le> length (q_build s) \<Longrightarrow> q_n s \<le> length (dw_cmd (q_win s)) \<Longrightarrow>
   writer\<^sup>*\<^sup>* s (s\<lparr>q_win := (q_win s)\<lparr>dw_cmd := take i (dw_cmd (q_win s)) @ drop i (take (q_n s) (q_build s))
       @ drop (q_n s) (dw_cmd (q_win s))\<rparr>, q_wpc := WCopy (q_n s)\<rparr>)"
proof (induction "q_n s - i" arbitrary: s i)
  case 0
  then have i: "i = q_n s" by simp
  with 0 have "s\<lparr>q_wpc := WCopy (q_n s)\<rparr> = s" by (cases s) simp
  with i show ?case by simp
next
  case (Suc k)
  then have i: "i < q_n s" by simp
  let ?s = "(store_cmd i s)\<lparr>q_wpc := WCopy (i + 1)\<rparr>"
  have step: "writer s ?s" using Suc.prems(1) i by (rule writer.copy)
  have q: "q_n ?s = q_n s" "q_build ?s = q_build s" by (simp_all add: store_cmd_def)
  have w: "take (i + 1) (dw_cmd (q_win ?s)) @ drop (i + 1) (take (q_n s) (q_build s)) @ drop (q_n s) (dw_cmd (q_win ?s))
      = take i (dw_cmd (q_win s)) @ drop i (take (q_n s) (q_build s)) @ drop (q_n s) (dw_cmd (q_win s))"
    using i Suc.prems by (simp add: store_cmd_def take_Suc_conv_app_nth Cons_nth_drop_Suc [symmetric, of i "take (q_n s) (q_build s)"])
  have "writer\<^sup>*\<^sup>* ?s (?s\<lparr>q_win := (q_win ?s)\<lparr>dw_cmd := take (i + 1) (dw_cmd (q_win ?s))
      @ drop (i + 1) (take (q_n ?s) (q_build ?s)) @ drop (q_n ?s) (dw_cmd (q_win ?s))\<rparr>, q_wpc := WCopy (q_n ?s)\<rparr>)"
    using Suc.hyps(2) Suc.prems i by (intro Suc.hyps(1)) (simp_all add: store_cmd_def)
  then have "writer\<^sup>*\<^sup>* ?s (s\<lparr>q_win := (q_win s)\<lparr>dw_cmd := take i (dw_cmd (q_win s))
      @ drop i (take (q_n s) (q_build s)) @ drop (q_n s) (dw_cmd (q_win s))\<rparr>, q_wpc := WCopy (q_n s)\<rparr>)"
    unfolding q w by (simp add: store_cmd_def)
  with step show ?case by (rule converse_rtranclp_into_rtranclp)
qed

text \<open>
  The stores executed without interruption leave the window exactly as the function
  \<open>DCWinEndFrame\<close> of the client library does.
\<close>
lemma EndFrame_run:
  assumes "q_wpc s = WIdle" and "q_win s = my_win sh c" and "cl_idx c < length (sh_win sh)"
    and "q_build s = cl_build c" and "q_n s = cl_buildN c" and "cl_buildN c \<le> length (cl_build c)"
    and "cl_buildN c \<le> length (dw_cmd (my_win sh c))"
  shows "\<exists>s'. writer\<^sup>*\<^sup>* s s' \<and> q_wpc s' = WIdle
    \<and> q_win s' = my_win (DCWinEndFrame c sh) c \<and> q_frames s' = q_frames s @ [take (cl_buildN c) (cl_build c)]"
proof -
  let ?n = "q_n s"
  let ?s1 = "(bump s)\<lparr>q_wpc := WCopy 0\<rparr>"
  let ?s2 = "?s1\<lparr>q_win := (q_win ?s1)\<lparr>dw_cmd := take ?n (q_build s) @ drop ?n (dw_cmd (q_win s))\<rparr>, q_wpc := WCopy ?n\<rparr>"
  let ?s3 = "(store_count ?s2)\<lparr>q_wpc := WGen\<rparr>"
  let ?s4 = "(bump ?s3)\<lparr>q_wpc := WIdle, q_frames := q_frames ?s3 @ [take (q_n ?s3) (q_build ?s3)]\<rparr>"
  have "writer s ?s1" using assms(1) by (rule begin_frame)
  also have "writer\<^sup>*\<^sup>* ?s1 ?s2"
    using copies [of ?s1 0] assms by (simp add: bump_def)
  also have "writer ?s2 ?s3" by (rule writer.count [where i = ?n]) (simp_all add: bump_def)
  also have "writer ?s3 ?s4" by (rule end_frame) simp
  finally have "writer\<^sup>*\<^sup>* s ?s4" .
  moreover have "q_win ?s4 = my_win (DCWinEndFrame c sh) c"
    using assms by (simp add: bump_def store_count_def DCWinEndFrame_def win_upd_def Let_def)
  moreover have "q_frames ?s4 = q_frames s @ [take (cl_buildN c) (cl_build c)]"
    using assms by (simp add: bump_def store_count_def)
  ultimately show ?thesis by fastforce
qed

section \<open>No torn snapshot\<close>

text \<open>The writer's half of the invariant.\<close>

definition w_inv :: "seqlock \<Rightarrow> bool" where
  "w_inv s \<longleftrightarrow> dw_gen (q_win s) = word_of_nat (q_pub s) \<and> length (dw_cmd (q_win s)) = 192
     \<and> length (q_build s) = 192 \<and> q_n s \<le> 192 \<and> length (q_frames s) = q_pub s div 2 + 1
     \<and> (case q_wpc s of
          WIdle \<Rightarrow> even (q_pub s) \<and> dw_cmdCount (q_win s) \<le> 192
            \<and> take (dw_cmdCount (q_win s)) (dw_cmd (q_win s)) = last (q_frames s)
        | WCopy i \<Rightarrow> odd (q_pub s) \<and> i \<le> q_n s \<and> take i (dw_cmd (q_win s)) = take i (q_build s)
        | WGen \<Rightarrow> odd (q_pub s) \<and> dw_cmdCount (q_win s) = q_n s
            \<and> take (q_n s) (dw_cmd (q_win s)) = take (q_n s) (q_build s))"

definition r_inv :: "seqlock \<Rightarrow> bool" where
  "r_inv s \<longleftrightarrow> length (q_snap s) = 192 \<and> q_p0 s \<le> q_pub s
     \<and> (case q_rpc s of
          RTry t \<Rightarrow> q_snapN s = 0
        | RHead t g \<Rightarrow> q_snapN s = 0 \<and> g = word_of_nat (q_p0 s) \<and> even (q_p0 s)
        | RCopy t g c i \<Rightarrow> q_snapN s = 0 \<and> g = word_of_nat (q_p0 s) \<and> even (q_p0 s) \<and> i \<le> c \<and> c \<le> 192
            \<and> (q_pub s = q_p0 s \<longrightarrow> c = dw_cmdCount (q_win s) \<and> take i (q_snap s) = take i (dw_cmd (q_win s)))
        | RDone \<Rightarrow> q_p1 s < q_p0 s + 2 ^ 32 \<longrightarrow> q_snapN s \<noteq> 0 \<longrightarrow>
            q_p0 s div 2 < length (q_frames s) \<and> take (q_snapN s) (q_snap s) = q_frames s ! (q_p0 s div 2))"

lemma gen_parity: "(word_of_nat p :: u32) AND 1 = 0 \<longleftrightarrow> even p"
proof -
  have "bit (word_of_nat p :: u32) 0 = bit p 0" by (simp add: bit_simps)
  then show ?thesis by (simp add: and_one_eq bit_0 even_iff_mod_2_eq_zero [symmetric])
qed

lemma gen_same:
  assumes "(word_of_nat p :: u32) = word_of_nat q" and "q \<le> p" and "p < q + 2 ^ 32"
  shows "p = q"
proof -
  have "p mod 2 ^ 32 = q mod 2 ^ 32" using arg_cong [OF assms(1), of unat] by (simp add: unat_of_nat)
  then have "2 ^ 32 dvd p - q" using assms(2) mod_eq_dvd_iff_nat by blast
  then show ?thesis using assms(2,3) by (auto dest: dvd_imp_le)
qed

lemma take_store: "length xs = 192 \<Longrightarrow> i < 192 \<Longrightarrow> take (i + 1) (xs[i := b]) = take i xs @ [b]"
  by (simp add: take_Suc_conv_app_nth)

lemma take_nth: "take i xs = take i ys \<Longrightarrow> i < length xs \<Longrightarrow> i < length ys \<Longrightarrow> xs ! i = ys ! i
    \<Longrightarrow> take (i + 1) xs = take (i + 1) ys"
  by (simp add: take_Suc_conv_app_nth)

lemma writer_w_inv: "writer s s' \<Longrightarrow> w_inv s \<Longrightarrow> w_inv s'"
proof (induction rule: writer.induct)
  case (draw s b n)
  then show ?case by (simp add: w_inv_def)
next
  case (begin_frame s)
  then show ?case by (auto simp: w_inv_def bump_def add.commute elim!: evenE)
next
  case (copy s i)
  then have "take (i + 1) ((dw_cmd (q_win s))[i := q_build s ! i]) = take (i + 1) (q_build s)"
    by (simp add: w_inv_def take_Suc_conv_app_nth)
  with copy show ?case by (simp add: w_inv_def store_cmd_def)
next
  case (count s i)
  then have "i = q_n s" by (simp add: w_inv_def)
  with count show ?case by (simp add: w_inv_def store_count_def)
next
  case (end_frame s)
  then show ?case by (auto simp: w_inv_def bump_def add.commute elim!: oddE)
qed

lemma writer_r_inv: "writer s s' \<Longrightarrow> w_inv s \<Longrightarrow> r_inv s \<Longrightarrow> r_inv s'"
proof (induction rule: writer.induct)
  case (draw s b n)
  then show ?case by (simp add: r_inv_def split: rpc.splits)
next
  case (begin_frame s)
  then show ?case by (auto simp: r_inv_def bump_def split: rpc.splits)
next
  case (copy s i)
  then have "odd (q_pub s)" by (simp add: w_inv_def)
  with copy show ?case by (auto simp: r_inv_def store_cmd_def split: rpc.splits)
next
  case (count s i)
  then have "odd (q_pub s)" by (simp add: w_inv_def)
  with count show ?case by (auto simp: r_inv_def store_count_def split: rpc.splits)
next
  case (end_frame s)
  then show ?case by (auto simp: r_inv_def bump_def nth_append split: rpc.splits)
qed

lemma reader_w_inv: "reader s s' \<Longrightarrow> w_inv s \<Longrightarrow> w_inv s'"
  by (induction rule: reader.induct) (simp_all add: w_inv_def split: wpc.splits)

lemma accept_frame:
  assumes "w_inv s" and "even (q_pub s)"
  shows "q_pub s div 2 < length (q_frames s)"
    and "take (dw_cmdCount (q_win s)) (dw_cmd (q_win s)) = q_frames s ! (q_pub s div 2)"
    and "dw_cmdCount (q_win s) \<le> 192"
proof -
  have "length (q_frames s) = q_pub s div 2 + 1" using assms(1) by (simp add: w_inv_def)
  then have "q_pub s div 2 < length (q_frames s) \<and> last (q_frames s) = q_frames s ! (q_pub s div 2)"
    by (cases "q_frames s = []") (simp_all add: last_conv_nth)
  with assms show "q_pub s div 2 < length (q_frames s)"
    "take (dw_cmdCount (q_win s)) (dw_cmd (q_win s)) = q_frames s ! (q_pub s div 2)"
    "dw_cmdCount (q_win s) \<le> 192"
    by (simp_all add: w_inv_def split: wpc.splits)
qed

lemma reader_r_inv: "reader s s' \<Longrightarrow> w_inv s \<Longrightarrow> r_inv s \<Longrightarrow> r_inv s'"
proof (induction rule: reader.induct)
  case (load_gen s t)
  then have "dw_gen (q_win s) = word_of_nat (q_pub s)" by (simp add: w_inv_def)
  with load_gen show ?case by (simp add: r_inv_def gen_parity)
next
  case (load_count s t g)
  then have "min (dw_cmdCount (q_win s)) 192 = dw_cmdCount (q_win s)" if "q_pub s = q_p0 s"
    using that accept_frame(3) [of s] by (simp add: r_inv_def)
  with load_count show ?case by (auto simp: r_inv_def)
next
  case (load_cmd s t g c i)
  then have "take (i + 1) ((q_snap s)[i := dw_cmd (q_win s) ! i]) = take (i + 1) (dw_cmd (q_win s))"
    if "q_pub s = q_p0 s"
    using that by (simp add: r_inv_def w_inv_def take_Suc_conv_app_nth)
  with load_cmd show ?case by (simp add: r_inv_def)
next
  case (accept s t g c i)
  have g: "dw_gen (q_win s) = word_of_nat (q_pub s)" using accept by (simp add: w_inv_def)
  have r: "i = c" "even (q_p0 s)" "q_p0 s \<le> q_pub s" "g = word_of_nat (q_p0 s)"
    "q_pub s = q_p0 s \<Longrightarrow> c = dw_cmdCount (q_win s) \<and> take c (q_snap s) = take c (dw_cmd (q_win s))"
    using accept by (auto simp: r_inv_def)
  have e: "(word_of_nat (q_pub s) :: u32) = word_of_nat (q_p0 s)"
    using g r(4) accept.hyps(3) by metis
  have "q_p0 s div 2 < length (q_frames s) \<and> take c (q_snap s) = q_frames s ! (q_p0 s div 2)"
    if "q_pub s < q_p0 s + 2 ^ 32"
  proof -
    have p: "q_pub s = q_p0 s" by (rule gen_same [OF e r(3) that])
    with accept_frame(1,2) [OF accept.prems(1)] r(2) r(5) [OF p] show ?thesis by metis
  qed
  moreover have "length (q_snap s) = 192" using accept.prems(2) by (simp add: r_inv_def)
  ultimately show ?case using r(3) by (simp add: r_inv_def)
qed (simp_all add: r_inv_def)

lemma reachable_inv: "reachable s \<Longrightarrow> w_inv s \<and> r_inv s"
proof (induction rule: reachable.induct)
  case init
  show ?case by (simp add: w_inv_def r_inv_def seq_init_def zero_win_def)
next
  case (by_writer s s')
  then show ?case using writer_w_inv writer_r_inv by blast
next
  case (by_reader s s')
  then show ?case using reader_w_inv reader_r_inv by blast
qed

text \<open>
  C2: a snapshot of a window's draw list that the shell accepts is never torn. Whatever the
  interleaving of the client's stores with the shell's loads, a non-empty list the shell
  goes on to draw is exactly the frame that was published last when the shell's try began,
  provided the client bumps the 32-bit generation fewer than 2^32 times during one try.
\<close>
theorem seqlock_snapshot:
  assumes "reachable s" and "q_rpc s = RDone" and "q_snapN s \<noteq> 0" and "q_p1 s < q_p0 s + 2 ^ 32"
  shows "take (q_snapN s) (q_snap s) = q_frames s ! (q_p0 s div 2) \<and> q_p0 s div 2 < length (q_frames s)"
  using reachable_inv [OF assms(1)] assms(2-4) by (simp add: r_inv_def)

text \<open>A run: the client publishes one filled rectangle, the shell takes a snapshot.\<close>

definition sample_cmd :: dccmd where
  "sample_cmd = zero_cmd\<lparr>c_op := DCOP_FILL, c_w := 80, c_h := 20\<rparr>"

definition sample_published :: seqlock where
  "sample_published =
     (let s = seq_init\<lparr>q_build := sample_cmd # replicate 191 zero_cmd, q_n := 1\<rparr>;
          s = (bump s)\<lparr>q_wpc := WCopy 0\<rparr>;
          s = (store_cmd 0 s)\<lparr>q_wpc := WCopy 1\<rparr>;
          s = (store_count s)\<lparr>q_wpc := WGen\<rparr>
      in (bump s)\<lparr>q_wpc := WIdle, q_frames := q_frames s @ [take (q_n s) (q_build s)]\<rparr>)"

definition sample_snapped :: seqlock where
  "sample_snapped =
     (let s = sample_published\<lparr>q_rpc := RTry 0, q_snapN := 0\<rparr>;
          s = s\<lparr>q_rpc := RHead 0 2, q_p0 := 2\<rparr>;
          s = s\<lparr>q_rpc := RCopy 0 2 1 0\<rparr>;
          s = s\<lparr>q_snap := (q_snap s)[0 := sample_cmd], q_rpc := RCopy 0 2 1 1\<rparr>
      in s\<lparr>q_rpc := RDone, q_snapN := 1, q_p1 := 2\<rparr>)"

lemma sample_published_reachable: "reachable sample_published"
proof -
  let ?s1 = "seq_init\<lparr>q_build := sample_cmd # replicate 191 zero_cmd, q_n := 1\<rparr>"
  let ?s2 = "(bump ?s1)\<lparr>q_wpc := WCopy 0\<rparr>"
  let ?s3 = "(store_cmd 0 ?s2)\<lparr>q_wpc := WCopy 1\<rparr>"
  let ?s4 = "(store_count ?s3)\<lparr>q_wpc := WGen\<rparr>"
  have "reachable ?s1"
    by (rule by_writer [OF init writer.draw]) (simp_all add: seq_init_def)
  moreover have "writer ?s1 ?s2" by (rule begin_frame) (simp add: seq_init_def)
  moreover have "writer ?s2 ?s3"
    using writer.copy [of ?s2 0] by (simp add: bump_def)
  moreover have "writer ?s3 ?s4" by (rule writer.count [where i = 1]) (simp_all add: bump_def store_cmd_def)
  ultimately have "reachable ?s4" by (blast intro: by_writer)
  then show ?thesis
    unfolding sample_published_def Let_def by (rule by_writer) (rule end_frame, simp)
qed

lemma sample_published_fields:
  "q_rpc sample_published = RDone" "q_pub sample_published = 2" "dw_gen (q_win sample_published) = 2"
  "dw_cmdCount (q_win sample_published) = 1" "dw_cmd (q_win sample_published) ! 0 = sample_cmd"
  "q_snap sample_published = replicate 192 zero_cmd" "q_frames sample_published = [[], [sample_cmd]]"
  by (simp_all add: sample_published_def Let_def bump_def store_cmd_def store_count_def seq_init_def zero_win_def)

lemma sample_snapped_reachable: "reachable sample_snapped"
proof -
  let ?s1 = "sample_published\<lparr>q_rpc := RTry 0, q_snapN := 0\<rparr>"
  let ?s2 = "?s1\<lparr>q_rpc := RHead 0 2, q_p0 := 2\<rparr>"
  let ?s3 = "?s2\<lparr>q_rpc := RCopy 0 2 1 0\<rparr>"
  let ?s4 = "?s3\<lparr>q_snap := (q_snap ?s3)[0 := sample_cmd], q_rpc := RCopy 0 2 1 1\<rparr>"
  note f = sample_published_fields
  have "reachable ?s1"
    by (rule by_reader [OF sample_published_reachable start]) (simp add: f)
  moreover have "reader ?s1 ?s2" using load_gen [of ?s1 0] f by simp
  moreover have "reader ?s2 ?s3" using load_count [of ?s2 0 2] f by simp
  moreover have "reader ?s3 ?s4" using load_cmd [of ?s3 0 2 1 0] f by simp
  moreover have "reader ?s4 (?s4\<lparr>q_rpc := RDone, q_snapN := 1, q_p1 := 2\<rparr>)"
    using accept [of ?s4 0 2 1 1] f by simp
  ultimately show ?thesis unfolding sample_snapped_def Let_def by (blast intro: by_reader)
qed

theorem seqlock_snapshot_witness:
  "take 1 (q_snap sample_snapped) = [sample_cmd]"
proof -
  have "take (q_snapN sample_snapped) (q_snap sample_snapped) = q_frames sample_snapped ! (q_p0 sample_snapped div 2)
      \<and> q_p0 sample_snapped div 2 < length (q_frames sample_snapped)"
    by (rule seqlock_snapshot [OF sample_snapped_reachable]) (simp_all add: sample_snapped_def Let_def)
  then show ?thesis by (simp add: sample_snapped_def Let_def sample_published_fields)
qed

end
