(* ===== verification/Vmustore.thy ===== *)
theory Vmustore
  imports Prelude
begin

text \<open>
  Small blobs on a VMU memory card: \<open>shell/vmustore.c\<close>. The Maple device factory and the
  COM interfaces of the persistent store are outside the repository and a record of
  functions over the card's state; each call succeeds, fails, or raises a structured
  exception. The reference counts the code manages are counted.
\<close>

datatype 'a comres = CFault | CFail | COk 'a

record 'v maple =
  mp_enum :: "'v \<Rightarrow> nat list comres"
  mp_create :: "nat \<Rightarrow> 'v \<Rightarrow> unit comres"
  mp_query :: "nat \<Rightarrow> 'v \<Rightarrow> unit comres"
  fl_open :: "string \<Rightarrow> 'v \<Rightarrow> nat comres"
  fl_create :: "string \<Rightarrow> nat \<Rightarrow> 'v \<Rightarrow> (nat \<times> 'v) comres"
  fl_write :: "nat \<Rightarrow> byte list \<Rightarrow> 'v \<Rightarrow> 'v comres"
  fl_read :: "nat \<Rightarrow> 'v \<Rightarrow> byte list comres"
  fl_flush :: "'v \<Rightarrow> 'v comres"

record 'v vmu =
  vm_svc :: "'v maple"
  vm_card :: 'v
  vm_unks :: int
  vm_devs :: int
  vm_files :: int

section \<open>The operations\<close>

definition OpenDev :: "'v vmu \<Rightarrow> bool comres \<times> 'v vmu" where
  "OpenDev s =
     (case mp_enum (vm_svc s) (vm_card s) of
        CFault \<Rightarrow> (CFault, s)
      | CFail \<Rightarrow> (COk False, s)
      | COk [] \<Rightarrow> (COk False, s)
      | COk (g # _) \<Rightarrow>
          (case mp_create (vm_svc s) g (vm_card s) of
             CFault \<Rightarrow> (CFault, s)
           | CFail \<Rightarrow> (COk False, s)
           | COk _ \<Rightarrow>
               let s = s\<lparr>vm_unks := vm_unks s + 1\<rparr>
               in (case mp_query (vm_svc s) g (vm_card s) of
                     CFault \<Rightarrow> (CFault, s)
                   | CFail \<Rightarrow> (COk False, s\<lparr>vm_unks := vm_unks s - 1\<rparr>)
                   | COk _ \<Rightarrow> (COk True, s\<lparr>vm_devs := vm_devs s + 1, vm_unks := vm_unks s - 1\<rparr>))))"

text \<open>The size \<open>FillDesc\<close> asks for: whole 512-byte blocks, at least one.\<close>

definition FillDesc :: "nat \<Rightarrow> nat" where
  "FillDesc bytes = (let nBlk = (bytes + 511) div 512 * 512 in if nBlk < 512 then 512 else nBlk)"

definition write_file :: "nat \<Rightarrow> byte list \<Rightarrow> 'v vmu \<Rightarrow> bool \<times> 'v vmu" where
  "write_file h abBlk s =
     (let s = s\<lparr>vm_files := vm_files s + 1\<rparr>
      in case fl_write (vm_svc s) h abBlk (vm_card s) of
           CFault \<Rightarrow> (False, s)
         | r \<Rightarrow>
             let bOk = (case r of COk _ \<Rightarrow> True | _ \<Rightarrow> False);
                 s = (case r of COk v \<Rightarrow> s\<lparr>vm_card := v\<rparr> | _ \<Rightarrow> s);
                 s = s\<lparr>vm_files := vm_files s - 1\<rparr>
             in (case fl_flush (vm_svc s) (vm_card s) of
                   CFault \<Rightarrow> (False, s)
                 | CFail \<Rightarrow> (bOk, s)
                 | COk v \<Rightarrow> (bOk, s\<lparr>vm_card := v\<rparr>)))"

definition save_file :: "string \<Rightarrow> byte list \<Rightarrow> 'v vmu \<Rightarrow> bool \<times> 'v vmu" where
  "save_file pszFile d s =
     (let abBlk = d @ replicate (512 - length d) 0
      in case fl_open (vm_svc s) pszFile (vm_card s) of
           CFault \<Rightarrow> (False, s)
         | COk h \<Rightarrow> write_file h abBlk s
         | CFail \<Rightarrow>
             (case fl_create (vm_svc s) pszFile (FillDesc (length d)) (vm_card s) of
                COk (h, v) \<Rightarrow> write_file h abBlk (s\<lparr>vm_card := v\<rparr>)
              | _ \<Rightarrow> (False, s)))"

definition VmuSaveAs :: "string \<Rightarrow> byte list \<Rightarrow> 'v vmu \<Rightarrow> bool \<times> 'v vmu" where
  "VmuSaveAs pszFile d s =
     (if length d > 512 then (False, s)
      else case OpenDev s of
        (COk True, s) \<Rightarrow>
          let (bOk, s) = save_file pszFile d s in (bOk, s\<lparr>vm_devs := vm_devs s - 1\<rparr>)
      | (_, s) \<Rightarrow> (False, s))"

definition load_file :: "string \<Rightarrow> 'v vmu \<Rightarrow> byte list option \<times> 'v vmu" where
  "load_file pszFile s =
     (case fl_open (vm_svc s) pszFile (vm_card s) of
        COk h \<Rightarrow>
          let s = s\<lparr>vm_files := vm_files s + 1\<rparr>
          in (case fl_read (vm_svc s) h (vm_card s) of
                CFault \<Rightarrow> (None, s)
              | CFail \<Rightarrow> (None, s\<lparr>vm_files := vm_files s - 1\<rparr>)
              | COk b \<Rightarrow> (Some b, s\<lparr>vm_files := vm_files s - 1\<rparr>))
      | _ \<Rightarrow> (None, s))"

text \<open>What the caller's buffer receives: the first \<open>maxlen\<close> bytes of the block.\<close>

definition VmuLoadAs :: "string \<Rightarrow> nat \<Rightarrow> 'v vmu \<Rightarrow> byte list option \<times> 'v vmu" where
  "VmuLoadAs pszFile maxlen s =
     (case OpenDev s of
        (COk True, s) \<Rightarrow>
          let (r, s) = load_file pszFile s
          in (map_option (take (if maxlen < 512 then maxlen else 512)) r, s\<lparr>vm_devs := vm_devs s - 1\<rparr>)
      | (_, s) \<Rightarrow> (None, s))"

definition VMU_FILE :: string where "VMU_FILE = ''DCWINSHC.BIN''"

definition VmuSave :: "byte list \<Rightarrow> 'v vmu \<Rightarrow> bool \<times> 'v vmu" where
  "VmuSave d = VmuSaveAs VMU_FILE d"

definition VmuLoad :: "nat \<Rightarrow> 'v vmu \<Rightarrow> byte list option \<times> 'v vmu" where
  "VmuLoad maxlen = VmuLoadAs VMU_FILE maxlen"

section \<open>References\<close>

lemma OpenDev_refs:
  "OpenDev s = (r, s') \<Longrightarrow> vm_files s' = vm_files s \<and> vm_card s' = vm_card s \<and> vm_svc s' = vm_svc s
     \<and> vm_devs s' = vm_devs s + (if r = COk True then 1 else 0)"
  by (auto simp: OpenDev_def Let_def split: comres.splits list.splits)

lemma write_file_refs: "write_file h b s = (r, s') \<Longrightarrow> vm_devs s' = vm_devs s \<and> vm_svc s' = vm_svc s
    \<and> ((\<forall>h b v. fl_write (vm_svc s) h b v \<noteq> CFault) \<longrightarrow> vm_files s' = vm_files s)"
  by (auto simp: write_file_def Let_def split: comres.splits)

lemma save_file_refs: "save_file f d s = (r, s') \<Longrightarrow> vm_devs s' = vm_devs s \<and> vm_svc s' = vm_svc s
    \<and> ((\<forall>h b v. fl_write (vm_svc s) h b v \<noteq> CFault) \<longrightarrow> vm_files s' = vm_files s)"
  by (auto simp: save_file_def Let_def split: comres.splits dest: write_file_refs)

lemma load_file_refs: "load_file f s = (r, s') \<Longrightarrow> vm_devs s' = vm_devs s \<and> vm_svc s' = vm_svc s
    \<and> vm_card s' = vm_card s \<and> ((\<forall>h v. fl_read (vm_svc s) h v \<noteq> CFault) \<longrightarrow> vm_files s' = vm_files s)"
  by (auto simp: load_file_def Let_def split: comres.splits)

text \<open>
  Saving and loading release the device object they opened on every path, including the
  ones a structured exception ends; the file object is released too unless the exception
  comes out of \<open>Write\<close> or \<open>Read\<close> itself. A blob of more than one block is refused.
\<close>
theorem Vmu_releases:
  "vm_devs (snd (VmuSaveAs f d s)) = vm_devs s
   \<and> vm_devs (snd (VmuLoadAs f n s)) = vm_devs s
   \<and> ((\<forall>h b v. fl_write (vm_svc s) h b v \<noteq> CFault) \<longrightarrow> vm_files (snd (VmuSaveAs f d s)) = vm_files s)
   \<and> ((\<forall>h v. fl_read (vm_svc s) h v \<noteq> CFault) \<longrightarrow> vm_files (snd (VmuLoadAs f n s)) = vm_files s)
   \<and> (512 < length d \<longrightarrow> VmuSaveAs f d s = (False, s))"
proof -
  obtain r s1 where o: "OpenDev s = (r, s1)" by fastforce
  note or = OpenDev_refs [OF o]
  obtain b s2 where sv: "save_file f d s1 = (b, s2)" by fastforce
  obtain x s3 where ld: "load_file f s1 = (x, s3)" by fastforce
  from or save_file_refs [OF sv] load_file_refs [OF ld] show ?thesis
    by (auto simp: VmuSaveAs_def VmuLoadAs_def o sv ld split: comres.splits bool.splits)
qed

section \<open>The card as a store of named blobs\<close>

text \<open>What a file holds, and what the Maple file system documents about it.\<close>

definition contents :: "'v maple \<Rightarrow> string \<Rightarrow> 'v \<Rightarrow> byte list option" where
  "contents M n v = (case fl_open M n v of
     COk h \<Rightarrow> (case fl_read M h v of COk b \<Rightarrow> Some b | _ \<Rightarrow> None) | _ \<Rightarrow> None)"

definition vmu_laws :: "'v maple \<Rightarrow> bool" where
  "vmu_laws M \<longleftrightarrow>
     (\<forall>n h b v v'. fl_open M n v = COk h \<longrightarrow> fl_write M h b v = COk v' \<longrightarrow>
        contents M n v' = Some b \<and> (\<forall>n'. n' \<noteq> n \<longrightarrow> contents M n' v' = contents M n' v))
     \<and> (\<forall>n k h b v v1 v'. fl_open M n v = CFail \<longrightarrow> fl_create M n k v = COk (h, v1) \<longrightarrow>
          fl_write M h b v1 = COk v' \<longrightarrow>
        contents M n v' = Some b \<and> (\<forall>n'. n' \<noteq> n \<longrightarrow> contents M n' v' = contents M n' v))
     \<and> (\<forall>n v v'. fl_flush M v = COk v' \<longrightarrow> contents M n v' = contents M n v)
     \<and> (\<forall>v v'. mp_enum M v = mp_enum M v')
     \<and> (\<forall>g v v'. mp_create M g v = mp_create M g v' \<and> mp_query M g v = mp_query M g v')"

lemma vmu_lawD:
  assumes "vmu_laws M"
  shows "fl_open M n v = COk h \<Longrightarrow> fl_write M h b v = COk v' \<Longrightarrow>
      contents M n v' = Some b \<and> (\<forall>n'. n' \<noteq> n \<longrightarrow> contents M n' v' = contents M n' v)"
    and "fl_open M n v = CFail \<Longrightarrow> fl_create M n k v = COk (h, v1) \<Longrightarrow> fl_write M h b v1 = COk v' \<Longrightarrow>
      contents M n v' = Some b \<and> (\<forall>n'. n' \<noteq> n \<longrightarrow> contents M n' v' = contents M n' v)"
    and "fl_flush M v = COk v' \<Longrightarrow> contents M n v' = contents M n v"
    and "mp_enum M v = mp_enum M v'" and "mp_create M g v = mp_create M g v'"
    and "mp_query M g v = mp_query M g v'"
proof -
  note a = assms [unfolded vmu_laws_def]
  show "fl_open M n v = COk h \<Longrightarrow> fl_write M h b v = COk v' \<Longrightarrow>
      contents M n v' = Some b \<and> (\<forall>n'. n' \<noteq> n \<longrightarrow> contents M n' v' = contents M n' v)"
    using a [THEN conjunct1] by simp
  show "fl_open M n v = CFail \<Longrightarrow> fl_create M n k v = COk (h, v1) \<Longrightarrow> fl_write M h b v1 = COk v' \<Longrightarrow>
      contents M n v' = Some b \<and> (\<forall>n'. n' \<noteq> n \<longrightarrow> contents M n' v' = contents M n' v)"
    using a [THEN conjunct2, THEN conjunct1] by simp
  show "fl_flush M v = COk v' \<Longrightarrow> contents M n v' = contents M n v" using a by simp
  show "mp_enum M v = mp_enum M v'" using a by metis
  show "mp_create M g v = mp_create M g v'" "mp_query M g v = mp_query M g v'" using a by metis+
qed

text \<open>The contract the shell relies on.\<close>

locale blob_store =
  fixes save :: "'n \<Rightarrow> byte list \<Rightarrow> 's \<Rightarrow> bool \<times> 's"
    and load :: "'n \<Rightarrow> 's \<Rightarrow> byte list option"
    and ok :: "'s \<Rightarrow> bool"
  assumes saved: "ok s \<Longrightarrow> save n d s = (True, s') \<Longrightarrow>
      ok s' \<and> length d \<le> 512 \<and> load n s' = Some (d @ replicate (512 - length d) 0)"
    and other: "ok s \<Longrightarrow> save n d s = (True, s') \<Longrightarrow> n' \<noteq> n \<Longrightarrow> load n' s' = load n' s"
begin

lemma both_kept:
  assumes "ok s" and "save n d s = (True, s1)" and "save n' d' s1 = (True, s2)" and "n \<noteq> n'"
  shows "load n s2 = Some (d @ replicate (512 - length d) 0)
    \<and> load n' s2 = Some (d' @ replicate (512 - length d') 0)"
  using saved [OF assms(1,2)] saved [OF _ assms(3)] other [OF _ assms(3)] assms(4) by metis

lemma load_prefix: "ok s \<Longrightarrow> save n d s = (True, s') \<Longrightarrow> map_option (take (length d)) (load n s') = Some d"
  by (simp add: saved)

end

definition vm_ok :: "'v vmu \<Rightarrow> bool" where "vm_ok s \<longleftrightarrow> vmu_laws (vm_svc s)"

definition vmu_get :: "string \<Rightarrow> 'v vmu \<Rightarrow> byte list option" where
  "vmu_get n s = fst (VmuLoadAs n 512 s)"

lemma OpenDev_present:
  assumes "vmu_laws M" and "vm_svc s = M" and "vm_svc s' = M"
  shows "fst (OpenDev s) = fst (OpenDev s')"
proof -
  have "mp_enum M (vm_card s) = mp_enum M (vm_card s')"
    and "\<And>g. mp_create M g (vm_card s) = mp_create M g (vm_card s')"
    and "\<And>g. mp_query M g (vm_card s) = mp_query M g (vm_card s')"
    using vmu_lawD(4-6) [OF assms(1)] by metis+
  with assms(2,3) show ?thesis
    by (simp add: OpenDev_def Let_def split: comres.split list.split)
qed

lemma load_file_contents:
  "fst (load_file n s) = contents (vm_svc s) n (vm_card s)"
  by (simp add: load_file_def contents_def Let_def split: comres.splits)

lemma write_file_True:
  assumes "write_file h b s = (True, s')" and "vmu_laws (vm_svc s)"
  obtains v where "fl_write (vm_svc s) h b (vm_card s) = COk v"
    and "\<And>n. contents (vm_svc s) n (vm_card s') = contents (vm_svc s) n v"
proof -
  have fl: "\<And>n v v'. fl_flush (vm_svc s) v = COk v' \<Longrightarrow> contents (vm_svc s) n v' = contents (vm_svc s) n v"
    by (rule vmu_lawD(3) [OF assms(2)])
  show thesis
  proof (cases "fl_write (vm_svc s) h b (vm_card s)")
    case (COk v)
    have "contents (vm_svc s) n (vm_card s') = contents (vm_svc s) n v" for n
      using assms(1) COk fl by (auto simp: write_file_def Let_def split: comres.splits)
    with COk show thesis by (rule that)
  qed (use assms(1) in \<open>auto simp: write_file_def Let_def split: comres.splits\<close>)
qed

lemma save_file_True:
  assumes "save_file n d s = (True, s')" and "vmu_laws (vm_svc s)"
  shows "contents (vm_svc s) n (vm_card s') = Some (d @ replicate (512 - length d) 0)
    \<and> (\<forall>n'. n' \<noteq> n \<longrightarrow> contents (vm_svc s) n' (vm_card s') = contents (vm_svc s) n' (vm_card s))"
proof (cases "fl_open (vm_svc s) n (vm_card s)")
  case (COk h)
  with assms(1) have "write_file h (d @ replicate (512 - length d) 0) s = (True, s')"
    by (simp add: save_file_def Let_def)
  from write_file_True [OF this assms(2)] obtain v
    where w: "fl_write (vm_svc s) h (d @ replicate (512 - length d) 0) (vm_card s) = COk v"
      and c: "\<And>n. contents (vm_svc s) n (vm_card s') = contents (vm_svc s) n v" by blast
  from vmu_lawD(1) [OF assms(2) COk w] show ?thesis unfolding c by simp
next
  case CFail
  with assms(1) obtain h v1 where cr: "fl_create (vm_svc s) n (FillDesc (length d)) (vm_card s) = COk (h, v1)"
    and wf: "write_file h (d @ replicate (512 - length d) 0) (s\<lparr>vm_card := v1\<rparr>) = (True, s')"
    by (auto simp: save_file_def Let_def split: comres.splits)
  from write_file_True [OF wf] assms(2) obtain v
    where w: "fl_write (vm_svc s) h (d @ replicate (512 - length d) 0) v1 = COk v"
      and c: "\<And>n. contents (vm_svc s) n (vm_card s') = contents (vm_svc s) n v" by auto
  from vmu_lawD(2) [OF assms(2) CFail cr w] show ?thesis unfolding c by simp
qed (use assms(1) in \<open>simp add: save_file_def Let_def\<close>)

lemma VmuSaveAs_True:
  assumes "VmuSaveAs n d s = (True, s')"
  obtains s1 s2 where "OpenDev s = (COk True, s1)" "save_file n d s1 = (True, s2)"
    "s' = s2\<lparr>vm_devs := vm_devs s2 - 1\<rparr>" "length d \<le> 512"
  using assms by (auto simp: VmuSaveAs_def Let_def split: if_splits prod.splits comres.splits bool.splits)

lemma vmu_get_contents:
  "fst (OpenDev s) = COk True \<Longrightarrow> vmu_get n s = map_option (take 512) (contents (vm_svc s) n (vm_card s))"
  using load_file_contents [of n "snd (OpenDev s)"] OpenDev_refs [of s "COk True" "snd (OpenDev s)"]
  by (auto simp: vmu_get_def VmuLoadAs_def prod_eq_iff split: prod.splits)

interpretation vmu_store: blob_store VmuSaveAs vmu_get vm_ok
proof
  fix s s' :: "'a vmu" and n n' d
  assume ok: "vm_ok s" and sv: "VmuSaveAs n d s = (True, s')"
  then have laws: "vmu_laws (vm_svc s)" by (simp add: vm_ok_def)
  from VmuSaveAs_True [OF sv] obtain s1 s2 where o: "OpenDev s = (COk True, s1)"
    and f: "save_file n d s1 = (True, s2)" and s': "s' = s2\<lparr>vm_devs := vm_devs s2 - 1\<rparr>"
    and len: "length d \<le> 512" .
  have svc: "vm_svc s1 = vm_svc s" "vm_card s1 = vm_card s" "vm_svc s' = vm_svc s"
    "vm_card s' = vm_card s2"
    using OpenDev_refs [OF o] save_file_refs [OF f] s' by simp_all
  have p: "fst (OpenDev s') = COk True" "fst (OpenDev s) = COk True"
    using OpenDev_present [OF laws refl svc(3)] o by simp_all
  note c = save_file_True [OF f, unfolded svc(1), OF laws]
  show "vm_ok s' \<and> length d \<le> 512 \<and> vmu_get n s' = Some (d @ replicate (512 - length d) 0)"
    using c len laws svc by (simp add: vm_ok_def vmu_get_contents [OF p(1)])
  show "vmu_get n' s' = vmu_get n' s" if "n' \<noteq> n"
    using c that svc by (simp add: vmu_get_contents [OF p(1)] vmu_get_contents [OF p(2)])
qed

text \<open>
  C35: a blob saved under a name is what a later load returns, padded to the block, and
  saving under another name in between does not disturb it: the desktop layout and the
  display settings live in separate files.
\<close>
theorem Vmu_save_load:
  assumes "vm_ok s" and "VmuSaveAs n d s = (True, s1)" and "VmuSaveAs n' d' s1 = (True, s2)" and "n \<noteq> n'"
  shows "fst (VmuLoadAs n 512 s2) = Some (d @ replicate (512 - length d) 0)
    \<and> fst (VmuLoadAs n' 512 s2) = Some (d' @ replicate (512 - length d') 0)"
  using vmu_store.both_kept [OF assms] by (simp add: vmu_get_def)

section \<open>A card in memory\<close>

primrec card_idx :: "string \<Rightarrow> (string \<times> byte list) list \<Rightarrow> nat comres" where
  "card_idx n [] = CFail"
| "card_idx n (e # v) = (if fst e = n then COk 0
     else case card_idx n v of COk h \<Rightarrow> COk (Suc h) | _ \<Rightarrow> CFail)"

definition card_svc :: "(string \<times> byte list) list maple" where
  "card_svc = \<lparr>mp_enum = (\<lambda>v. COk [1]), mp_create = (\<lambda>g v. COk ()), mp_query = (\<lambda>g v. COk ()),
     fl_open = card_idx, fl_create = (\<lambda>n k v. COk (length v, v @ [(n, replicate 512 0)])),
     fl_write = (\<lambda>h b v. if h < length v then COk (v[h := (fst (v ! h), b)]) else CFail),
     fl_read = (\<lambda>h v. if h < length v then COk (snd (v ! h)) else CFail), fl_flush = (\<lambda>v. COk v)\<rparr>"

lemma card_idx_COk: "card_idx n v = COk h \<Longrightarrow> h < length v \<and> fst (v ! h) = n \<and> map_of v n = Some (snd (v ! h))"
  by (induction v arbitrary: h) (auto split: if_splits comres.splits)

lemma card_idx_None: "(\<forall>h. card_idx n v \<noteq> COk h) \<longleftrightarrow> map_of v n = None"
  by (induction v) (auto split: comres.splits)

lemma card_contents: "contents card_svc n v = map_of v n"
  using card_idx_COk [of n v] card_idx_None [of n v]
  by (cases "card_idx n v") (auto simp: contents_def card_svc_def)

lemma card_write_open:
  "card_idx n v = COk h \<Longrightarrow> map_of (v[h := (fst (v ! h), b)]) = (map_of v)(n \<mapsto> b)"
proof (induction v arbitrary: h)
  case (Cons e v)
  then show ?case
    by (cases "fst e = n"; cases e) (auto split: comres.splits)
qed simp

lemma card_write_new:
  "card_idx n v = CFail \<Longrightarrow> [n \<mapsto> b] ++ map_of v = (map_of v)(n \<mapsto> b)"
  using card_idx_None [of n v] by (auto simp: map_add_def fun_eq_iff split: option.splits)

lemma card_laws: "vmu_laws card_svc"
  unfolding vmu_laws_def card_contents
  by (auto simp: card_svc_def card_write_open card_write_new split: if_splits)

definition sample_card :: "(string \<times> byte list) list vmu" where
  "sample_card = \<lparr>vm_svc = card_svc, vm_card = [], vm_unks = 0, vm_devs = 0, vm_files = 0\<rparr>"

theorem Vmu_releases_witness:
  "vm_files (snd (VmuSaveAs ''A'' [1] sample_card)) = 0
   \<and> vm_files (snd (VmuLoadAs ''A'' 512 sample_card)) = 0
   \<and> VmuSaveAs ''A'' (replicate 513 0) sample_card = (False, sample_card)"
proof -
  have "\<forall>h b v. fl_write (vm_svc sample_card) h b v \<noteq> CFault"
    and "\<forall>h v. fl_read (vm_svc sample_card) h v \<noteq> CFault"
    by (simp_all add: sample_card_def card_svc_def)
  with Vmu_releases [where f = "''A''" and d = "[1]" and s = sample_card and n = 512]
    Vmu_releases [where f = "''A''" and d = "replicate 513 0" and s = sample_card]
  show ?thesis by (simp add: sample_card_def)
qed

lemmas card_run = VmuSaveAs_def OpenDev_def save_file_def write_file_def Let_def

theorem Vmu_save_load_witness:
  "\<exists>s1 s2. VmuSaveAs ''A'' [1, 2] sample_card = (True, s1) \<and> VmuSaveAs ''B'' [3] s1 = (True, s2)
    \<and> map_option (take 2) (fst (VmuLoadAs ''A'' 512 s2)) = Some [1, 2]"
proof -
  have ok: "vm_ok sample_card" by (simp add: vm_ok_def sample_card_def card_laws)
  obtain s1 where s1: "VmuSaveAs ''A'' [1, 2] sample_card = (True, s1)"
    and c1: "s1 = sample_card\<lparr>vm_card := [(''A'', [1, 2] @ replicate 510 0)]\<rparr>"
    by (simp add: card_run sample_card_def card_svc_def)
  obtain s2 where s2: "VmuSaveAs ''B'' [3] s1 = (True, s2)"
    unfolding c1 by (simp add: card_run sample_card_def card_svc_def)
  from Vmu_save_load [OF ok s1 s2] have "fst (VmuLoadAs ''A'' 512 s2) = Some ([1, 2] @ replicate 510 0)" by simp
  with s1 s2 show ?thesis by simp
qed

end
