(* ===== verification/Desk.thy ===== *)
theory Desk
  imports Fifo Vmustore
begin

text \<open>
  The desktop shortcuts of \<open>shell/dcshell.c\<close>: the built-in and user-added icons, their
  positions, and the block on the memory card that keeps the user's icons across boots.

  The shell's globals are one record, built up by extension: this theory declares the part
  every component uses (the two dirty flags, the memory card, and the calls that leave the
  shell, in order) and the desktop's part; the later theories extend it. An operation is
  stated over every extension of the record it needs. \<open>None\<close> is an access outside an array.
\<close>

section \<open>State\<close>

type_synonym wtxt = "wchar list"

datatype uievent =
    UiLaunch wtxt "wtxt option"
  | UiFullscreen wtxt
  | UiWallpaper "wtxt option" int
  | UiInputRelease
  | UiInputReacquire

record shortcut =
  sc_label :: wtxt
  sc_path :: "wtxt option"
  sc_exe :: "wtxt option"
  sc_icon :: nat

record 'v ui =
  s_bDirty :: bool
  s_bDeskDirty :: bool
  s_vmu :: "'v vmu"
  s_out :: "uievent list"

record 'v desk = "'v ui" +
  s_aDesk :: "shortcut list"
  s_anDeskUser :: "int list"
  s_cDesk :: int
  s_nDeskSel :: int
  s_aDeskPos :: "(int \<times> int) list"
  s_nDeskRows :: int

definition SCREEN_W :: int where "SCREEN_W = 640"
definition SCREEN_H :: int where "SCREEN_H = 480"
definition TASK_Y :: int where "TASK_Y = 454"
definition MAXDESK :: int where "MAXDESK = 24"
definition START_N :: int where "START_N = 6"
definition ICELL_W :: int where "ICELL_W = 96"
definition ICELL_H :: int where "ICELL_H = 54"

definition bs :: wtxt where "bs = [0x5C]"

definition s_deskDefault :: "shortcut list" where
  "s_deskDefault =
     [\<lparr>sc_label = ws ''My Dreamcast'', sc_path = Some bs, sc_exe = None, sc_icon = 6\<rparr>,
      \<lparr>sc_label = ws ''CD-ROM'', sc_path = Some (bs @ ws ''CD-ROM''), sc_exe = None, sc_icon = 1\<rparr>,
      \<lparr>sc_label = ws ''Calculator'', sc_path = None, sc_exe = Some (ws ''dcwcalc.exe''), sc_icon = 3\<rparr>,
      \<lparr>sc_label = ws ''Clock'', sc_path = None, sc_exe = Some (ws ''dcwclock.exe''), sc_icon = 4\<rparr>,
      \<lparr>sc_label = ws ''Task Manager'', sc_path = None, sc_exe = Some (ws ''dcwtask.exe''), sc_icon = 3\<rparr>,
      \<lparr>sc_label = ws ''Network'', sc_path = None, sc_exe = Some (ws ''dcwnet.exe''), sc_icon = 3\<rparr>,
      \<lparr>sc_label = ws ''System Log'', sc_path = None, sc_exe = Some (ws ''dcwlog.exe''), sc_icon = 3\<rparr>]"

definition s_ie :: shortcut where
  "s_ie = \<lparr>sc_label = ws ''Internet Explorer'', sc_path = None, sc_exe = Some (ws ''iexplore.exe''), sc_icon = 8\<rparr>"

definition s_start :: "shortcut list" where
  "s_start =
     [\<lparr>sc_label = ws ''My Dreamcast'', sc_path = Some bs, sc_exe = None, sc_icon = 6\<rparr>,
      \<lparr>sc_label = ws ''Windows'', sc_path = Some (bs @ ws ''Windows''), sc_exe = None, sc_icon = 2\<rparr>,
      \<lparr>sc_label = ws ''CD-ROM'', sc_path = Some (bs @ ws ''CD-ROM''), sc_exe = None, sc_icon = 1\<rparr>,
      \<lparr>sc_label = ws ''Task Manager'', sc_path = None, sc_exe = Some (ws ''dcwtask.exe''), sc_icon = 3\<rparr>,
      \<lparr>sc_label = ws ''Crash Test'', sc_path = None, sc_exe = Some (ws ''dcwtask.exe crash''), sc_icon = 3\<rparr>,
      \<lparr>sc_label = ws ''Shut Down...'', sc_path = None, sc_exe = None, sc_icon = 5\<rparr>]"

section \<open>Layout\<close>

definition place :: "nat \<Rightarrow> int \<times> ('v, 'm) desk_scheme \<Rightarrow> int \<times> ('v, 'm) desk_scheme" where
  "place i a = (case a of (nSlot, st) \<Rightarrow>
     if s_anDeskUser st ! i \<ge> 0 then (nSlot, st)
     else (nSlot + 1, st\<lparr>s_aDeskPos := (s_aDeskPos st)[i :=
             (14 + nSlot div s_nDeskRows st * 108, 16 + nSlot mod s_nDeskRows st * 70)]\<rparr>))"

definition DeskPosInit :: "('v, 'm) desk_scheme \<Rightarrow> ('v, 'm) desk_scheme" where
  "DeskPosInit st =
     (let rows = (TASK_Y - 16) div 70;
          st = st\<lparr>s_nDeskRows := (if rows < 1 then 1 else rows)\<rparr>
      in snd (fold place [0 ..< nat (s_cDesk st)] (0, st)))"

section \<open>The block on the card\<close>

definition SHC_MAGIC :: u32 where "SHC_MAGIC = 0x31574344"

definition put_short :: "int \<Rightarrow> byte list" where
  "put_short v = (let w = word_of_int v :: 16 word in [ucast w, ucast (drop_bit 8 w)])"

definition get_short :: "byte list \<Rightarrow> nat \<Rightarrow> int option" where
  "get_short m i = (if i + 2 \<le> length m
     then Some (sint (ucast (m ! i) OR push_bit 8 (ucast (m ! (i + 1))) :: 16 word)) else None)"

type_synonym shc = "int \<times> int \<times> int"

definition enc_entry :: "shc \<Rightarrow> byte list" where
  "enc_entry e = (case e of (idx, x, y) \<Rightarrow> put_short idx @ put_short x @ put_short y)"

definition user_entries :: "('v, 'm) desk_scheme \<Rightarrow> shc list" where
  "user_entries st = filter (\<lambda>(u, _). u \<ge> 0)
     (take (nat (s_cDesk st)) (zip (s_anDeskUser st) (s_aDeskPos st)))"

definition shc_blob :: "shc list \<Rightarrow> byte list" where
  "shc_blob es = le32_bytes SHC_MAGIC @ le32_bytes (word_of_nat (length es)) @ concat (map enc_entry es)"

definition SaveShortcuts :: "('v, 'm) desk_scheme \<Rightarrow> ('v, 'm) desk_scheme" where
  "SaveShortcuts st = st\<lparr>s_vmu := snd (VmuSave (shc_blob (take 84 (user_entries st))) (s_vmu st))\<rparr>"

definition append_icon :: "shortcut \<Rightarrow> int \<Rightarrow> int \<times> int \<Rightarrow> ('v, 'm) desk_scheme \<Rightarrow> ('v, 'm) desk_scheme" where
  "append_icon sc u xy st =
     st\<lparr>s_aDesk := (s_aDesk st)[nat (s_cDesk st) := sc],
        s_anDeskUser := (s_anDeskUser st)[nat (s_cDesk st) := u],
        s_aDeskPos := (s_aDeskPos st)[nat (s_cDesk st) := xy],
        s_cDesk := s_cDesk st + 1\<rparr>"

definition load_entry :: "byte list \<Rightarrow> nat \<Rightarrow> ('v, 'm) desk_scheme \<Rightarrow> ('v, 'm) desk_scheme option" where
  "load_entry b i st = do {
     nIdx \<leftarrow> get_short b (8 + 6 * i);
     if nIdx < 0 \<or> nIdx \<ge> START_N then Some st
     else let sc = s_start ! nat nIdx
       in if sc_exe sc = None \<and> sc_path sc = None then Some st
          else do {
            x \<leftarrow> get_short b (8 + 6 * i + 2);
            y \<leftarrow> get_short b (8 + 6 * i + 4);
            Some (append_icon sc nIdx (x, y) st) } }"

primrec load_entries :: "nat \<Rightarrow> byte list \<Rightarrow> nat \<Rightarrow> ('v, 'm) desk_scheme \<Rightarrow> ('v, 'm) desk_scheme option" where
  "load_entries 0 b i st = Some st"
| "load_entries (Suc n) b i st =
     (if s_cDesk st < MAXDESK then do { st \<leftarrow> load_entry b i st; load_entries n b (i + 1) st } else Some st)"

definition LoadShortcuts :: "('v, 'm) desk_scheme \<Rightarrow> ('v, 'm) desk_scheme option" where
  "LoadShortcuts st =
     (let (r, v) = VmuLoad 512 (s_vmu st); st = st\<lparr>s_vmu := v\<rparr>
      in case r of None \<Rightarrow> Some st
         | Some b \<Rightarrow>
             if length b < 8 then Some st
             else do {
               magic \<leftarrow> rd32le b 0; c \<leftarrow> rd32le b 4;
               if magic \<noteq> SHC_MAGIC then Some st
               else load_entries (nat (sint c)) b 0 st })"

section \<open>Operations\<close>

definition DeskInit :: "bool \<Rightarrow> ('v, 'm) desk_scheme \<Rightarrow> ('v, 'm) desk_scheme option" where
  "DeskInit bIe st = do {
     let st = st\<lparr>s_aDesk := s_deskDefault @ drop 7 (s_aDesk st),
                 s_anDeskUser := replicate 7 (- 1) @ drop 7 (s_anDeskUser st), s_cDesk := 7\<rparr>;
     let st = (if bIe \<and> s_cDesk st < MAXDESK
               then append_icon s_ie (- 1) (s_aDeskPos st ! 7) st else st);
     st \<leftarrow> LoadShortcuts st;
     Some (DeskPosInit st) }"

definition clamp_cell :: "int \<Rightarrow> int \<Rightarrow> int \<times> int" where
  "clamp_cell x y =
     (let x = (if x < 0 then 0 else x); x = (if x > SCREEN_W - ICELL_W then SCREEN_W - ICELL_W else x);
          y = (if y < 0 then 0 else y); y = (if y > TASK_Y - ICELL_H then TASK_Y - ICELL_H else y)
      in (x, y))"

definition AddDesktopShortcut :: "int \<Rightarrow> int \<Rightarrow> int \<Rightarrow> ('v, 'm) desk_scheme \<Rightarrow> bool \<times> ('v, 'm) desk_scheme" where
  "AddDesktopShortcut nStartIdx x y st =
     (if s_cDesk st \<ge> MAXDESK \<or> nStartIdx < 0 \<or> nStartIdx \<ge> START_N then (False, st)
      else let sc = s_start ! nat nStartIdx
        in if sc_exe sc = None \<and> sc_path sc = None then (False, st)
           else
             let sel = s_cDesk st;
                 st = append_icon sc nStartIdx (clamp_cell (x - ICELL_W div 2) (y - 16)) st;
                 st = SaveShortcuts (st\<lparr>s_nDeskSel := sel\<rparr>)
             in (True, st\<lparr>s_bDeskDirty := True\<rparr>))"

definition shift_left :: "nat \<Rightarrow> nat \<Rightarrow> 'a list \<Rightarrow> 'a list" where
  "shift_left i c xs = fold (\<lambda>k xs. xs[k := xs ! (k + 1)]) [i ..< c - 1] xs"

definition RemoveShortcut :: "int \<Rightarrow> ('v, 'm) desk_scheme \<Rightarrow> ('v, 'm) desk_scheme" where
  "RemoveShortcut i st =
     (if i < 0 \<or> i \<ge> s_cDesk st \<or> s_anDeskUser st ! nat i < 0 then st
      else
        let c = nat (s_cDesk st);
            st = st\<lparr>s_aDesk := shift_left (nat i) c (s_aDesk st),
                    s_anDeskUser := shift_left (nat i) c (s_anDeskUser st),
                    s_aDeskPos := shift_left (nat i) c (s_aDeskPos st), s_cDesk := s_cDesk st - 1\<rparr>;
            st = (if s_nDeskSel st \<ge> s_cDesk st then st\<lparr>s_nDeskSel := s_cDesk st - 1\<rparr> else st);
            st = (if s_nDeskSel st < 0 then st\<lparr>s_nDeskSel := 0\<rparr> else st)
        in (SaveShortcuts st)\<lparr>s_bDeskDirty := True\<rparr>)"

primrec icon_scan :: "(int \<times> int) list \<Rightarrow> int \<Rightarrow> int \<Rightarrow> int \<Rightarrow> int" where
  "icon_scan [] x y k = - 1"
| "icon_scan (p # ps) x y k = (case p of (ix, iy) \<Rightarrow>
     if ix \<le> x \<and> x < ix + ICELL_W \<and> iy \<le> y \<and> y < iy + ICELL_H then k else icon_scan ps x y (k + 1))"

definition DeskIconAt :: "int \<Rightarrow> int \<Rightarrow> ('v, 'm) desk_scheme \<Rightarrow> int" where
  "DeskIconAt x y st = icon_scan (take (nat (s_cDesk st)) (s_aDeskPos st)) x y 0"

definition DropIcon :: "int \<Rightarrow> int \<Rightarrow> int \<Rightarrow> int \<Rightarrow> int \<Rightarrow> ('v, 'm) desk_scheme \<Rightarrow> ('v, 'm) desk_scheme option" where
  "DropIcon offX offY nTarget x y st = do {
     pos \<leftarrow> upd (s_aDeskPos st) nTarget (clamp_cell (x - offX) (y - offY));
     let st = st\<lparr>s_aDeskPos := pos, s_bDeskDirty := True\<rparr>;
     if nTarget < s_cDesk st
     then do { u \<leftarrow> at (s_anDeskUser st) nTarget; Some (if u \<ge> 0 then SaveShortcuts st else st) }
     else Some st }"

section \<open>Shorts in the block\<close>

lemma short_bytes: "ucast (ucast w :: byte) OR push_bit 8 (ucast (ucast (drop_bit 8 w) :: byte)) = (w :: 16 word)"
proof (rule bit_word_eqI)
  fix n assume "n < LENGTH(16)"
  then show "bit (ucast (ucast w :: byte) OR push_bit 8 (ucast (ucast (drop_bit 8 w) :: byte)) :: 16 word) n = bit w n"
    by (cases "n < 8") (auto simp: bit_simps)
qed

lemma sint_short: "- 32768 \<le> v \<Longrightarrow> v < 32768 \<Longrightarrow> sint (word_of_int v :: 16 word) = v"
  by (simp add: signed_of_int signed_take_bit_int_eq_self)

lemma take_drop_sub: "take n (drop i m) = e \<Longrightarrow> j + k \<le> n \<Longrightarrow> take k (drop (i + j) m) = take k (drop j e)"
  by (auto simp: drop_take min_def add.commute)

lemma length_put_short [simp]: "length (put_short v) = 2"
  by (simp add: put_short_def Let_def)

lemma length_enc_entry [simp]: "length (enc_entry e) = 6"
  by (cases e) (simp add: enc_entry_def)

lemma length_enc_entries [simp]: "length (concat (map enc_entry es)) = 6 * length es"
  by (induction es) simp_all

lemma get_put_short:
  assumes "take 2 (drop i m) = put_short v" and "- 32768 \<le> v" and "v < 32768"
  shows "get_short m i = Some v"
proof -
  have l: "i + 2 \<le> length m" using arg_cong [OF assms(1), of length] by simp
  let ?w = "word_of_int v :: 16 word"
  have "m ! i = put_short v ! 0" "m ! (i + 1) = put_short v ! 1"
    using l by (simp_all add: assms(1) [symmetric])
  then have "m ! i = ucast ?w" "m ! (i + 1) = ucast (drop_bit 8 ?w)"
    by (simp_all add: put_short_def Let_def)
  with l short_bytes [of ?w] sint_short [OF assms(2,3)] show ?thesis by (simp add: get_short_def)
qed

definition shorts :: "shc \<Rightarrow> bool" where
  "shorts e \<longleftrightarrow> (case e of (u, x, y) \<Rightarrow> 0 \<le> u \<and> u < 5 \<and> - 32768 \<le> x \<and> x < 32768 \<and> - 32768 \<le> y \<and> y < 32768)"

lemma get_entry:
  assumes "take 6 (drop i m) = enc_entry (u, x, y)" and "shorts (u, x, y)"
  shows "get_short m i = Some u" "get_short m (i + 2) = Some x" "get_short m (i + 4) = Some y"
proof -
  let ?e = "put_short u @ put_short x @ put_short y"
  have e: "take 6 (drop i m) = ?e" using assms(1) by (simp add: enc_entry_def)
  note k = take_drop_sub [OF e, where k = 2]
  show "get_short m i = Some u" using get_put_short [of i m u] k [of 0] assms(2) by (simp add: shorts_def)
  show "get_short m (i + 2) = Some x"
    using get_put_short [of "i + 2" m x] k [of 2] assms(2) by (simp add: shorts_def)
  show "get_short m (i + 4) = Some y"
    using get_put_short [of "i + 4" m y] k [of 4] assms(2) by (simp add: shorts_def)
qed

section \<open>Invariant\<close>

definition desk_raw :: "('v, 'm) desk_scheme \<Rightarrow> bool" where
  "desk_raw st \<longleftrightarrow> length (s_aDesk st) = 24 \<and> length (s_anDeskUser st) = 24 \<and> length (s_aDeskPos st) = 24
     \<and> 0 \<le> s_cDesk st \<and> s_cDesk st \<le> 24"

definition icons_ok :: "('v, 'm) desk_scheme \<Rightarrow> bool" where
  "icons_ok st \<longleftrightarrow> (\<forall>i < nat (s_cDesk st).
     (sc_path (s_aDesk st ! i) \<noteq> None \<or> sc_exe (s_aDesk st ! i) \<noteq> None)
     \<and> s_anDeskUser st ! i < 5
     \<and> (0 \<le> s_anDeskUser st ! i \<longrightarrow> s_aDesk st ! i = s_start ! nat (s_anDeskUser st ! i)))"

definition desk_ok :: "('v, 'm) desk_scheme \<Rightarrow> bool" where
  "desk_ok st \<longleftrightarrow> desk_raw st \<and> icons_ok st \<and> 7 \<le> s_cDesk st \<and> (\<forall>i < 7. s_anDeskUser st ! i = - 1)
     \<and> - 1 \<le> s_nDeskSel st \<and> s_nDeskSel st < s_cDesk st \<and> 0 < s_nDeskRows st"

lemma start_entry: "0 \<le> u \<Longrightarrow> u < 5 \<Longrightarrow>
    sc_path (s_start ! nat u) \<noteq> None \<or> sc_exe (s_start ! nat u) \<noteq> None"
proof -
  assume "0 \<le> u" "u < 5"
  then have "nat u = 0 \<or> nat u = 1 \<or> nat u = 2 \<or> nat u = 3 \<or> nat u = 4" by linarith
  then show ?thesis by (auto simp: s_start_def)
qed

lemma start_shutdown: "sc_path (s_start ! 5) = None \<and> sc_exe (s_start ! 5) = None"
  by (simp add: s_start_def)

lemma append_icon_raw: "desk_raw st \<Longrightarrow> s_cDesk st < 24 \<Longrightarrow> desk_raw (append_icon sc u p st)"
  by (simp add: desk_raw_def append_icon_def)

lemma append_icon_icons:
  assumes "desk_raw st" and "icons_ok st" and "s_cDesk st < 24" and "u < 5"
    and "sc_path sc \<noteq> None \<or> sc_exe sc \<noteq> None" and "0 \<le> u \<longrightarrow> sc = s_start ! nat u"
  shows "icons_ok (append_icon sc u p st)"
  using assms by (auto simp: icons_ok_def append_icon_def desk_raw_def nth_list_update less_Suc_eq nat_add_distrib)

lemma SaveShortcuts_frame [simp]:
  "s_aDesk (SaveShortcuts st) = s_aDesk st" "s_anDeskUser (SaveShortcuts st) = s_anDeskUser st"
  "s_cDesk (SaveShortcuts st) = s_cDesk st" "s_nDeskSel (SaveShortcuts st) = s_nDeskSel st"
  "s_aDeskPos (SaveShortcuts st) = s_aDeskPos st" "s_nDeskRows (SaveShortcuts st) = s_nDeskRows st"
  "s_bDirty (SaveShortcuts st) = s_bDirty st" "s_out (SaveShortcuts st) = s_out st"
  "s_bDeskDirty (SaveShortcuts st) = s_bDeskDirty st" "desk.more (SaveShortcuts st) = desk.more st"
  by (simp_all add: SaveShortcuts_def)

lemma desk_ok_frame [simp]:
  "desk_ok (SaveShortcuts st) = desk_ok st" "desk_ok (st\<lparr>s_bDeskDirty := b\<rparr>) = desk_ok st"
  "desk_ok (st\<lparr>s_bDirty := b\<rparr>) = desk_ok st" "desk_ok (st\<lparr>s_out := es\<rparr>) = desk_ok st"
  "desk_ok (st\<lparr>s_vmu := v\<rparr>) = desk_ok st"
  by (simp_all add: desk_ok_def desk_raw_def icons_ok_def)

lemmas desk_defs = desk_ok_def desk_raw_def icons_ok_def

lemma AddDesktopShortcut_ok: "desk_ok st \<Longrightarrow> desk_ok (snd (AddDesktopShortcut n x y st))"
proof -
  assume ok: "desk_ok st"
  show ?thesis
  proof (cases "MAXDESK \<le> s_cDesk st \<or> n < 0 \<or> START_N \<le> n
      \<or> (sc_exe (s_start ! nat n) = None \<and> sc_path (s_start ! nat n) = None)")
    case True
    with ok show ?thesis by (auto simp: AddDesktopShortcut_def Let_def)
  next
    case False
    then have c: "s_cDesk st < 24" and n: "0 \<le> n" "n < 6" and sc: "sc_path (s_start ! nat n) \<noteq> None \<or> sc_exe (s_start ! nat n) \<noteq> None"
      by (auto simp: MAXDESK_def START_N_def)
    have n5: "n < 5" using n sc start_shutdown by (cases "n = 5") auto
    let ?s = "append_icon (s_start ! nat n) n (clamp_cell (x - ICELL_W div 2) (y - 16)) st"
    have "desk_raw ?s" "icons_ok ?s"
      using ok c n n5 sc by (auto simp: desk_ok_def intro!: append_icon_raw append_icon_icons)
    moreover have "\<forall>i < 7. s_anDeskUser ?s ! i = - 1"
      using ok by (auto simp: append_icon_def desk_ok_def nth_list_update)
    moreover have "s_cDesk ?s = s_cDesk st + 1" "s_nDeskRows ?s = s_nDeskRows st"
      by (simp_all add: append_icon_def)
    ultimately have "desk_ok (?s\<lparr>s_nDeskSel := s_cDesk st\<rparr>)"
      using ok by (simp add: desk_ok_def desk_raw_def icons_ok_def)
    with False show ?thesis by (auto simp: AddDesktopShortcut_def Let_def)
  qed
qed

lemma shift_left_Suc:
  "i < c - 1 \<Longrightarrow> shift_left i c xs = shift_left (i + 1) c (xs[i := xs ! (i + 1)])"
  by (simp add: shift_left_def upt_conv_Cons)

lemma shift_left_nth:
  "c \<le> length xs \<Longrightarrow> j < length xs \<Longrightarrow>
     shift_left i c xs ! j = (if i \<le> j \<and> j < c - 1 then xs ! (j + 1) else xs ! j)"
proof (induction "c - 1 - i" arbitrary: i xs)
  case 0
  then have "c - 1 \<le> i" by simp
  then show ?case by (auto simp: shift_left_def)
next
  case (Suc k)
  then have "i < c - 1" by simp
  with Suc.hyps(1) [of "i + 1" "xs[i := xs ! (i + 1)]"] Suc.hyps(2) Suc.prems show ?case
    by (auto simp: shift_left_Suc nth_list_update)
qed

lemma length_shift_left [simp]: "length (shift_left i c xs) = length xs"
proof -
  have "length (fold (\<lambda>k xs. xs[k := xs ! (k + 1)]) ks xs) = length xs" for ks
    by (induction ks arbitrary: xs) simp_all
  then show ?thesis by (simp add: shift_left_def)
qed

lemma RemoveShortcut_ok: "desk_ok st \<Longrightarrow> desk_ok (RemoveShortcut i st)"
proof (cases "i < 0 \<or> s_cDesk st \<le> i \<or> s_anDeskUser st ! nat i < 0")
  case True
  then show "desk_ok st \<Longrightarrow> ?thesis" by (simp add: RemoveShortcut_def)
next
  case False
  assume ok: "desk_ok st"
  have i7: "7 \<le> nat i"
    using ok False by (cases "nat i < 7") (auto simp: desk_ok_def)
  with False have c: "7 < s_cDesk st" by linarith
  let ?s = "st\<lparr>s_aDesk := shift_left (nat i) (nat (s_cDesk st)) (s_aDesk st),
      s_anDeskUser := shift_left (nat i) (nat (s_cDesk st)) (s_anDeskUser st),
      s_aDeskPos := shift_left (nat i) (nat (s_cDesk st)) (s_aDeskPos st), s_cDesk := s_cDesk st - 1\<rparr>"
  have len: "length (s_aDesk st) = 24" "length (s_anDeskUser st) = 24" "nat (s_cDesk st) \<le> 24"
    using ok by (auto simp: desk_ok_def desk_raw_def)
  have raw: "desk_raw ?s" using ok c by (simp add: desk_ok_def desk_raw_def)
  have icons: "icons_ok ?s"
    unfolding icons_ok_def
  proof (intro allI impI)
    fix j assume "j < nat (s_cDesk ?s)"
    then have j: "j < nat (s_cDesk st)" "j + 1 < nat (s_cDesk st)" using c by auto
    have P: "(sc_path (s_aDesk st ! k) \<noteq> None \<or> sc_exe (s_aDesk st ! k) \<noteq> None)
       \<and> s_anDeskUser st ! k < 5
       \<and> (0 \<le> s_anDeskUser st ! k \<longrightarrow> s_aDesk st ! k = s_start ! nat (s_anDeskUser st ! k))"
      if "k < nat (s_cDesk st)" for k
      using ok that by (simp add: desk_ok_def icons_ok_def)
    show "(sc_path (s_aDesk ?s ! j) \<noteq> None \<or> sc_exe (s_aDesk ?s ! j) \<noteq> None)
       \<and> s_anDeskUser ?s ! j < 5
       \<and> (0 \<le> s_anDeskUser ?s ! j \<longrightarrow> s_aDesk ?s ! j = s_start ! nat (s_anDeskUser ?s ! j))"
      using P [of j] P [of "j + 1"] j len by (simp add: shift_left_nth)
  qed
  have pre: "\<forall>k < 7. s_anDeskUser ?s ! k = - 1"
    using ok i7 len by (simp add: shift_left_nth desk_ok_def)
  have sel: "desk_ok (?s\<lparr>s_nDeskSel := v\<rparr>)" if "- 1 \<le> v" "v < s_cDesk st - 1" for v
    using that raw icons pre c ok unfolding desk_ok_def desk_raw_def icons_ok_def by simp
  have sel0: "desk_ok ?s" if "s_nDeskSel st < s_cDesk st - 1"
    using that raw icons pre c ok unfolding desk_ok_def desk_raw_def icons_ok_def by simp
  show ?thesis
  proof (cases "s_nDeskSel st \<ge> s_cDesk st - 1")
    case True
    with sel [of "s_cDesk st - 2"] False c show ?thesis by (simp add: RemoveShortcut_def Let_def)
  next
    case sm: False
    show ?thesis
    proof (cases "s_nDeskSel st < 0")
      case True
      with sel [of 0] sm False c show ?thesis by (simp add: RemoveShortcut_def Let_def)
    next
      case nn: False
      with sel0 sm False c show ?thesis by (simp add: RemoveShortcut_def Let_def)
    qed
  qed
qed

lemma DropIcon_ok:
  "desk_ok st \<Longrightarrow> 0 \<le> t \<Longrightarrow> t < 24 \<Longrightarrow> \<exists>st'. DropIcon ox oy t x y st = Some st' \<and> desk_ok st'"
proof -
  assume ok: "desk_ok st" and t: "0 \<le> t" "t < 24"
  have len: "length (s_aDeskPos st) = 24" "length (s_anDeskUser st) = 24"
    using ok by (simp_all add: desk_ok_def desk_raw_def)
  have "desk_ok (st\<lparr>s_aDeskPos := p\<rparr>)" if "length p = 24" for p
    using ok that by (simp add: desk_ok_def desk_raw_def icons_ok_def)
  with t len show ?thesis by (simp add: DropIcon_def Let_def)
qed

lemma place_frame:
  "snd (place i (n, st)) = st\<lparr>s_aDeskPos := s_aDeskPos (snd (place i (n, st)))\<rparr>"
  "length (s_aDeskPos (snd (place i (n, st)))) = length (s_aDeskPos st)"
  by (simp_all add: place_def)

lemma places_frame:
  "\<exists>p. snd (fold place is (n, st)) = st\<lparr>s_aDeskPos := p\<rparr> \<and> length p = length (s_aDeskPos st)"
proof (induction "is" arbitrary: n st)
  case Nil
  show ?case by (rule exI [of _ "s_aDeskPos st"]) simp
next
  case (Cons i "is")
  obtain n' st' where e: "place i (n, st) = (n', st')" by fastforce
  from Cons.IH [of n' st'] obtain p where p: "snd (fold place is (n', st')) = st'\<lparr>s_aDeskPos := p\<rparr>"
    "length p = length (s_aDeskPos st')" by blast
  from place_frame [of i n st] e obtain q where "st' = st\<lparr>s_aDeskPos := q\<rparr>" "length q = length (s_aDeskPos st)"
    by (metis snd_conv)
  with p e show ?case by (intro exI [of _ p]) simp
qed

text \<open>The positions of user icons are kept.\<close>

lemma place_user: "0 \<le> s_anDeskUser st ! k \<Longrightarrow> s_aDeskPos (snd (place i (n, st))) ! k = s_aDeskPos st ! k"
  by (cases "k = i") (simp_all add: place_def)

lemma places_user:
  "0 \<le> s_anDeskUser st ! k \<Longrightarrow> s_aDeskPos (snd (fold place is (n, st))) ! k = s_aDeskPos st ! k"
proof (induction "is" arbitrary: n st)
  case (Cons i "is")
  obtain n' st' where e: "place i (n, st) = (n', st')" by fastforce
  with place_frame(1) [of i n st] have "s_anDeskUser st' = s_anDeskUser st"
    by (auto dest: arg_cong [of _ _ s_anDeskUser])
  with Cons place_user [of st k i n] e show ?case by simp
qed simp

lemma DeskPosInit_frame:
  "\<exists>p. DeskPosInit st = st\<lparr>s_nDeskRows := 6, s_aDeskPos := p\<rparr> \<and> length p = length (s_aDeskPos st)
     \<and> (\<forall>k. 0 \<le> s_anDeskUser st ! k \<longrightarrow> p ! k = s_aDeskPos st ! k)"
proof -
  let ?s = "st\<lparr>s_nDeskRows := 6\<rparr>"
  have e: "DeskPosInit st = snd (fold place [0 ..< nat (s_cDesk st)] (0, ?s))"
    by (simp add: DeskPosInit_def TASK_Y_def)
  obtain p where p: "snd (fold place [0 ..< nat (s_cDesk st)] (0, ?s)) = ?s\<lparr>s_aDeskPos := p\<rparr>"
    "length p = length (s_aDeskPos st)"
    using places_frame [of "[0 ..< nat (s_cDesk st)]" 0 ?s] by auto
  have "p ! k = s_aDeskPos st ! k" if "0 \<le> s_anDeskUser st ! k" for k
    using places_user [of ?s k "[0 ..< nat (s_cDesk st)]" 0] that p by simp
  with e p show ?thesis by auto
qed

lemma DeskPosInit_ok: "desk_ok st \<Longrightarrow> desk_ok (DeskPosInit st)"
  using DeskPosInit_frame [of st] by (auto simp: desk_ok_def desk_raw_def icons_ok_def)

lemma load_entry_keeps:
  assumes "load_entry b i st = Some st'" and "desk_raw st" and "icons_ok st" and "s_cDesk st < 24"
  shows "desk_raw st' \<and> icons_ok st' \<and> s_cDesk st \<le> s_cDesk st' \<and> s_nDeskSel st' = s_nDeskSel st
     \<and> (\<forall>k < nat (s_cDesk st). s_anDeskUser st' ! k = s_anDeskUser st ! k)"
proof -
  obtain u where u: "get_short b (8 + 6 * i) = Some u" using assms(1) by (auto simp: load_entry_def bind_eq_Some_conv)
  show ?thesis
  proof (cases "u < 0 \<or> START_N \<le> u \<or> (sc_exe (s_start ! nat u) = None \<and> sc_path (s_start ! nat u) = None)")
    case True
    then have "st' = st" using assms(1) u by (auto simp: load_entry_def Let_def split: if_splits)
    with assms show ?thesis by simp
  next
    case False
    then obtain p where s': "st' = append_icon (s_start ! nat u) u p st"
      using assms(1) u by (auto simp: load_entry_def Let_def bind_eq_Some_conv)
    have "u < 5" using False start_shutdown by (cases "u = 5") (auto simp: START_N_def)
    then have "desk_raw st'" "icons_ok st'"
      using False assms(2-4) unfolding s' by (auto intro!: append_icon_raw append_icon_icons)
    with s' show ?thesis by (simp add: append_icon_def)
  qed
qed

lemma load_entries_keeps:
  "load_entries n b i st = Some st' \<Longrightarrow> desk_raw st \<Longrightarrow> icons_ok st \<Longrightarrow>
     desk_raw st' \<and> icons_ok st' \<and> s_cDesk st \<le> s_cDesk st' \<and> s_nDeskSel st' = s_nDeskSel st
     \<and> (\<forall>k < nat (s_cDesk st). s_anDeskUser st' ! k = s_anDeskUser st ! k)"
proof (induction n arbitrary: i st)
  case (Suc n)
  show ?case
  proof (cases "s_cDesk st < MAXDESK")
    case True
    with Suc.prems(1) obtain s1 where e: "load_entry b i st = Some s1" and r: "load_entries n b (i + 1) s1 = Some st'"
      by (auto simp: bind_eq_Some_conv)
    from load_entry_keeps [OF e Suc.prems(2,3)] True have k: "desk_raw s1 \<and> icons_ok s1 \<and> s_cDesk st \<le> s_cDesk s1
        \<and> s_nDeskSel s1 = s_nDeskSel st \<and> (\<forall>k < nat (s_cDesk st). s_anDeskUser s1 ! k = s_anDeskUser st ! k)"
      by (simp add: MAXDESK_def)
    with Suc.IH [OF r] show ?thesis by auto
  qed (use Suc.prems in simp)
qed simp

section \<open>Starting up\<close>

text \<open>What the shell's statics are before \<open>DeskInit\<close>: arrays of their size, no selection yet past the built-ins.\<close>

definition desk_boot :: "('v, 'm) desk_scheme \<Rightarrow> bool" where
  "desk_boot st \<longleftrightarrow> length (s_aDesk st) = 24 \<and> length (s_anDeskUser st) = 24 \<and> length (s_aDeskPos st) = 24
     \<and> - 1 \<le> s_nDeskSel st \<and> s_nDeskSel st < 7"

definition desk_seed :: "bool \<Rightarrow> ('v, 'm) desk_scheme \<Rightarrow> ('v, 'm) desk_scheme" where
  "desk_seed bIe st =
     (let st = st\<lparr>s_aDesk := s_deskDefault @ drop 7 (s_aDesk st),
                 s_anDeskUser := replicate 7 (- 1) @ drop 7 (s_anDeskUser st), s_cDesk := 7\<rparr>
      in if bIe then append_icon s_ie (- 1) (s_aDeskPos st ! 7) st else st)"

lemma DeskInit_seed: "DeskInit bIe st = map_option DeskPosInit (LoadShortcuts (desk_seed bIe st))"
  by (cases "LoadShortcuts (desk_seed bIe st)") (auto simp: DeskInit_def desk_seed_def Let_def MAXDESK_def)

lemma less7: "(i :: nat) < 7 \<longleftrightarrow> i = 0 \<or> i = 1 \<or> i = 2 \<or> i = 3 \<or> i = 4 \<or> i = 5 \<or> i = 6"
  by linarith

lemma default_entry: "i < 7 \<Longrightarrow> sc_path (s_deskDefault ! i) \<noteq> None \<or> sc_exe (s_deskDefault ! i) \<noteq> None"
  unfolding less7 by (auto simp: s_deskDefault_def)

lemma length_default: "length s_deskDefault = 7" by (simp add: s_deskDefault_def)

lemma desk_seed_ok:
  assumes "desk_boot st"
  shows "desk_raw (desk_seed bIe st) \<and> icons_ok (desk_seed bIe st)
    \<and> s_cDesk (desk_seed bIe st) = (if bIe then 8 else 7) \<and> s_nDeskSel (desk_seed bIe st) = s_nDeskSel st
    \<and> s_vmu (desk_seed bIe st) = s_vmu st \<and> (\<forall>k < (if bIe then 8 else 7). s_anDeskUser (desk_seed bIe st) ! k = - 1)"
proof -
  let ?s = "st\<lparr>s_aDesk := s_deskDefault @ drop 7 (s_aDesk st),
                 s_anDeskUser := replicate 7 (- 1) @ drop 7 (s_anDeskUser st), s_cDesk := 7\<rparr>"
  have raw: "desk_raw ?s" using assms by (simp add: desk_raw_def desk_boot_def length_default)
  have icons: "icons_ok ?s"
    using default_entry by (simp add: icons_ok_def nth_append length_default del: not_None_eq)
  have m: "desk_raw (append_icon s_ie (- 1) p ?s)" "icons_ok (append_icon s_ie (- 1) p ?s)" for p
    using raw icons by (auto intro!: append_icon_raw append_icon_icons simp: s_ie_def)
  have l: "length (s_anDeskUser ?s) = 24" using raw by (simp add: desk_raw_def)
  then have n: "\<forall>k < 8. s_anDeskUser (append_icon s_ie (- 1) p ?s) ! k = - 1" for p
    by (auto simp: append_icon_def nth_list_update nth_append)
  show ?thesis
  proof (cases bIe)
    case True
    then have e: "desk_seed bIe st = append_icon s_ie (- 1) (s_aDeskPos st ! 7) ?s"
      by (simp add: desk_seed_def Let_def)
    show ?thesis using m [of "s_aDeskPos st ! 7"] n True unfolding e by (simp add: append_icon_def)
  next
    case False
    then have e: "desk_seed bIe st = ?s" by (simp add: desk_seed_def)
    show ?thesis using raw icons False unfolding e by (simp add: nth_append)
  qed
qed

lemma LoadShortcuts_keeps:
  assumes "LoadShortcuts st = Some st'" and "desk_raw st" and "icons_ok st"
  shows "desk_raw st' \<and> icons_ok st' \<and> s_cDesk st \<le> s_cDesk st' \<and> s_nDeskSel st' = s_nDeskSel st
     \<and> (\<forall>k < nat (s_cDesk st). s_anDeskUser st' ! k = s_anDeskUser st ! k)"
proof -
  obtain r v where v: "VmuLoad 512 (s_vmu st) = (r, v)" by fastforce
  let ?s = "st\<lparr>s_vmu := v\<rparr>"
  have k: "desk_raw ?s" "icons_ok ?s" using assms(2,3) by (simp_all add: desk_raw_def icons_ok_def)
  have "st' = ?s \<or> (\<exists>n b. load_entries n b 0 ?s = Some st')"
  proof (cases r)
    case None
    with assms(1) v show ?thesis by (simp add: LoadShortcuts_def)
  next
    case (Some b)
    show ?thesis
    proof (cases "length b < 8 \<or> rd32le b 0 \<noteq> Some SHC_MAGIC")
      case True
      with assms(1) v Some show ?thesis by (auto simp: LoadShortcuts_def Let_def bind_eq_Some_conv split: if_splits)
    next
      case False
      with assms(1) v Some show ?thesis by (auto simp: LoadShortcuts_def Let_def)
    qed
  qed
  then consider "st' = ?s" | n b where "load_entries n b 0 ?s = Some st'" by blast
  then show ?thesis
  proof cases
    case 1
    with k show ?thesis by simp
  next
    case 2
    from load_entries_keeps [OF this k] show ?thesis by simp
  qed
qed

lemma DeskInit_ok:
  assumes "desk_boot st" and "DeskInit bIe st = Some st'"
  shows "desk_ok st'"
proof -
  from assms(2) obtain s1 where l: "LoadShortcuts (desk_seed bIe st) = Some s1" and st': "st' = DeskPosInit s1"
    by (auto simp: DeskInit_seed)
  note s = desk_seed_ok [OF assms(1), of bIe]
  from LoadShortcuts_keeps [OF l] s have k: "desk_raw s1" "icons_ok s1" "7 \<le> s_cDesk s1"
    "s_nDeskSel s1 = s_nDeskSel st" "\<forall>k < 7. s_anDeskUser s1 ! k = - 1" by (auto split: if_splits)
  from DeskPosInit_frame [of s1] obtain p where "DeskPosInit s1 = s1\<lparr>s_nDeskRows := 6, s_aDeskPos := p\<rparr>"
    "length p = length (s_aDeskPos s1)" by blast
  with k assms(1) show ?thesis by (simp add: st' desk_ok_def desk_raw_def icons_ok_def desk_boot_def)
qed

lemma icon_scan_range: "icon_scan ps x y k = - 1 \<or> (k \<le> icon_scan ps x y k \<and> icon_scan ps x y k < k + int (length ps))"
  by (induction ps arbitrary: k) (force split: prod.split)+

lemma DeskIconAt_range: "desk_ok st \<Longrightarrow> - 1 \<le> DeskIconAt x y st \<and> DeskIconAt x y st < s_cDesk st"
  using icon_scan_range [of "take (nat (s_cDesk st)) (s_aDeskPos st)" x y 0]
  by (auto simp: DeskIconAt_def desk_ok_def desk_raw_def)


section \<open>The count on the card\<close>

lemma get_short_in: "i + 2 \<le> length m \<Longrightarrow> \<exists>v. get_short m i = Some v"
  by (simp add: get_short_def)

lemma load_entry_in: "8 + 6 * i + 6 \<le> length b \<Longrightarrow> \<exists>st'. load_entry b i st = Some st'"
proof -
  assume l: "8 + 6 * i + 6 \<le> length b"
  obtain u x y where "get_short b (8 + 6 * i) = Some u" "get_short b (8 + 6 * i + 2) = Some x"
    "get_short b (8 + 6 * i + 4) = Some y"
    using l get_short_in [of "8 + 6 * i" b] get_short_in [of "8 + 6 * i + 2" b] get_short_in [of "8 + 6 * i + 4" b]
    by auto
  then show ?thesis by (simp add: load_entry_def Let_def)
qed

lemma load_entries_in: "8 + 6 * (i + n) \<le> length b \<Longrightarrow> \<exists>st'. load_entries n b i st = Some st'"
proof (induction n arbitrary: i st)
  case (Suc n)
  obtain s1 where "load_entry b i st = Some s1" using load_entry_in [of i b st] Suc.prems by auto
  with Suc.IH [of "i + 1" s1] Suc.prems show ?case by simp
qed simp

lemma load_entries_out:
  "length b = 8 + 6 * (i + k) \<Longrightarrow> k < n \<Longrightarrow> s_cDesk st < MAXDESK
    \<Longrightarrow> (\<And>j. i \<le> j \<Longrightarrow> j < i + k \<Longrightarrow> get_short b (8 + 6 * j) = Some (- 1)) \<Longrightarrow> load_entries n b i st = None"
proof (induction k arbitrary: i n)
  case 0
  then show ?case by (cases n) (auto simp: load_entry_def get_short_def)
next
  case (Suc k)
  then obtain n' where n: "n = Suc n'" by (cases n) auto
  have "load_entry b i st = Some st" using Suc.prems(4) [of i] by (simp add: load_entry_def)
  with Suc.IH [of "i + 1" n'] Suc.prems n show ?case by simp
qed

text \<open>
  The count in the block is not checked against what the block can hold. Up to 84
  entries every read stays inside it; with a larger count and entries that add no icon, the
  loop reads past the end of the 512-byte buffer.
\<close>
theorem LoadShortcuts_overread:
  assumes "VmuLoad 512 (s_vmu st) = (Some b, v)" and "length b = 512"
    and "rd32le b 0 = Some SHC_MAGIC" and "rd32le b 4 = Some c"
  shows "(sint c \<le> 84 \<longrightarrow> LoadShortcuts st \<noteq> None)
    \<and> (84 < sint c \<and> s_cDesk st < 24 \<and> (\<forall>j < 84. get_short b (8 + 6 * j) = Some (- 1)) \<longrightarrow> LoadShortcuts st = None)"
proof -
  let ?s = "st\<lparr>s_vmu := v\<rparr>"
  have e: "LoadShortcuts st = load_entries (nat (sint c)) b 0 ?s"
    using assms by (simp add: LoadShortcuts_def Let_def)
  show ?thesis
  proof (intro conjI impI)
    assume "sint c \<le> 84"
    then show "LoadShortcuts st \<noteq> None" using load_entries_in [of 0 "nat (sint c)" b ?s] assms(2) e by auto
  next
    assume "84 < sint c \<and> s_cDesk st < 24 \<and> (\<forall>j < 84. get_short b (8 + 6 * j) = Some (- 1))"
    moreover from this have "84 < nat (sint c)" by linarith
    ultimately show "LoadShortcuts st = None"
      using load_entries_out [of b 0 84 "nat (sint c)" ?s] assms(2) e by (simp add: MAXDESK_def)
  qed
qed

section \<open>Restoring the user's icons\<close>

lemma sint_count: "n < 1000 \<Longrightarrow> sint (word_of_nat n :: u32) = int n"
proof -
  assume "n < 1000"
  then have "sint (word_of_int (int n) :: u32) = int n"
    by (simp only: signed_of_int) (simp add: signed_take_bit_int_eq_self)
  then show ?thesis by simp
qed

definition app :: "shc \<Rightarrow> ('v, 'm) desk_scheme \<Rightarrow> ('v, 'm) desk_scheme" where
  "app e st = (case e of (u, x, y) \<Rightarrow> append_icon (s_start ! nat u) u (x, y) st)"

lemma app_frame [simp]: "s_cDesk (app e st) = s_cDesk st + 1" "desk_raw st \<Longrightarrow> s_cDesk st < 24 \<Longrightarrow> desk_raw (app e st)"
  by (cases e; simp add: app_def append_icon_def desk_raw_def)+

lemma user_entries_app:
  assumes "desk_raw st" and "s_cDesk st < 24" and "0 \<le> fst e"
  shows "user_entries (app e st) = user_entries st @ [e]"
proof -
  obtain u x y where e: "e = (u, x, y)" by (cases e)
  let ?n = "nat (s_cDesk st)"
  have l: "?n < length (s_anDeskUser st)" "?n < length (s_aDeskPos st)" "nat (s_cDesk st + 1) = Suc ?n"
    using assms by (auto simp: desk_raw_def)
  have "take (Suc ?n) (zip ((s_anDeskUser st)[?n := u]) ((s_aDeskPos st)[?n := (x, y)]))
      = take ?n (zip (s_anDeskUser st) (s_aDeskPos st)) @ [(u, (x, y))]"
    using l by (simp add: take_Suc_conv_app_nth take_zip)
  with assms(3) l show ?thesis by (simp add: user_entries_def app_def append_icon_def e)
qed

lemma user_entries_apps:
  "desk_raw st \<Longrightarrow> nat (s_cDesk st) + length es \<le> 24 \<Longrightarrow> \<forall>e \<in> set es. 0 \<le> fst e
    \<Longrightarrow> user_entries (fold app es st) = user_entries st @ es"
proof (induction es arbitrary: st)
  case (Cons e es)
  then have c: "s_cDesk st < 24" "0 \<le> s_cDesk st" by (auto simp: desk_raw_def)
  then have "nat (s_cDesk (app e st)) + length es \<le> 24" using Cons.prems(2) by (simp add: nat_add_distrib)
  with Cons c show ?case by (simp add: user_entries_app)
qed simp

lemma load_entries_encoded:
  "0 \<le> s_cDesk st \<Longrightarrow> \<forall>e \<in> set es. shorts e
    \<Longrightarrow> (\<And>j. j < length es \<Longrightarrow> take 6 (drop (8 + 6 * (i + j)) b) = enc_entry (es ! j))
    \<Longrightarrow> load_entries (length es) b i st = Some (fold app (take (24 - nat (s_cDesk st)) es) st)"
proof (induction es arbitrary: i st)
  case (Cons e es)
  obtain u x y where e: "e = (u, x, y)" by (cases e)
  show ?case
  proof (cases "s_cDesk st < 24")
    case True
    have sh: "shorts (u, x, y)" using Cons.prems(2) e by simp
    have "take 6 (drop (8 + 6 * i) b) = enc_entry (u, x, y)" using Cons.prems(3) [of 0] e by simp
    note g = get_entry [OF this sh]
    have "load_entry b i st = Some (app e st)"
      using g sh start_entry [of u] by (auto simp: load_entry_def Let_def START_N_def shorts_def app_def e)
    moreover have "load_entries (length es) b (i + 1) (app e st)
        = Some (fold app (take (24 - nat (s_cDesk (app e st))) es) (app e st))"
      using Cons.prems Cons.prems(3) [of "Suc j" for j] by (intro Cons.IH) (auto simp: algebra_simps)
    moreover have "24 - nat (s_cDesk st) = Suc (24 - nat (s_cDesk st + 1))" using True Cons.prems(1) by simp
    ultimately show ?thesis using True by (simp add: MAXDESK_def)
  qed (simp add: MAXDESK_def)
qed simp

lemma enc_entries_nth:
  "j < length es \<Longrightarrow> take 6 (drop (6 * j) (concat (map enc_entry es) @ z)) = enc_entry (es ! j)"
proof (induction es arbitrary: j)
  case (Cons e es)
  then show ?case by (cases j) (simp_all add: algebra_simps)
qed simp

lemma shc_blob_nth:
  "j < length es \<Longrightarrow> take 6 (drop (8 + 6 * j) (shc_blob es @ z)) = enc_entry (es ! j)"
  using enc_entries_nth [of j es z] by (simp add: shc_blob_def drop_append [symmetric] add.commute)

lemma length_shc_blob [simp]: "length (shc_blob es) = 8 + 6 * length es"
  by (simp add: shc_blob_def)

lemma shc_blob_head:
  "rd32le (shc_blob es @ z) 0 = Some SHC_MAGIC" "rd32le (shc_blob es @ z) 4 = Some (word_of_nat (length es))"
  by (simp_all add: shc_blob_def rd32le_in_range)

text \<open>The user's icons of a well-formed desktop: at most 17, each an entry the block can hold.\<close>

lemma user_entries_shorts:
  assumes "desk_ok st"
    and "\<forall>p \<in> set (s_aDeskPos st). - 32768 \<le> fst p \<and> fst p < 32768 \<and> - 32768 \<le> snd p \<and> snd p < 32768"
  shows "\<forall>e \<in> set (user_entries st). shorts e"
proof
  fix e :: shc assume me: "e \<in> set (user_entries st)"
  obtain u x y where eq: "e = (u, x, y)" by (cases e)
  with me have e: "e = (u, x, y)" "0 \<le> u"
    and m: "(u, (x, y)) \<in> set (take (nat (s_cDesk st)) (zip (s_anDeskUser st) (s_aDeskPos st)))"
    by (simp_all add: user_entries_def)
  from m obtain k where "k < length (take (nat (s_cDesk st)) (zip (s_anDeskUser st) (s_aDeskPos st)))"
    "take (nat (s_cDesk st)) (zip (s_anDeskUser st) (s_aDeskPos st)) ! k = (u, (x, y))"
    by (metis in_set_conv_nth)
  then have k: "k < nat (s_cDesk st)" "s_anDeskUser st ! k = u" "(x, y) \<in> set (s_aDeskPos st)"
    by (auto dest: nth_mem)
  with assms e show "shorts e" by (auto simp: shorts_def desk_ok_def icons_ok_def)
qed

lemma user_entries_length:
  assumes "desk_ok st" shows "length (user_entries st) \<le> 17"
proof -
  let ?z = "take (nat (s_cDesk st)) (zip (s_anDeskUser st) (s_aDeskPos st))"
  have c: "7 \<le> nat (s_cDesk st)" "nat (s_cDesk st) \<le> 24" "length ?z = nat (s_cDesk st)"
    using assms by (auto simp: desk_ok_def desk_raw_def)
  have z: "take 7 ?z @ drop 7 ?z = ?z" by (rule append_take_drop_id)
  have "filter (\<lambda>(u, _). u \<ge> 0) (take 7 ?z) = []"
    using assms c by (auto simp: filter_empty_conv in_set_conv_nth desk_ok_def)
  then have "filter (\<lambda>(u, _). u \<ge> 0) ?z = filter (\<lambda>(u, _). u \<ge> 0) (drop 7 ?z)"
    by (metis z filter_append append_Nil)
  then have "length (user_entries st) \<le> length (drop 7 ?z)"
    by (simp add: user_entries_def del: length_drop drop_take)
  with c show ?thesis by simp
qed

lemma filter_zip_cong:
  "length ps = length us \<Longrightarrow> length qs = length us \<Longrightarrow> \<forall>k < length us. 0 \<le> us ! k \<longrightarrow> ps ! k = qs ! k
    \<Longrightarrow> filter (\<lambda>(u, _). u \<ge> 0) (zip us ps) = filter (\<lambda>(u, _). u \<ge> (0 :: int)) (zip us qs)"
proof (induction us arbitrary: ps qs)
  case (Cons u us)
  then obtain p ps' q qs' where e: "ps = p # ps'" "qs = q # qs'" by (metis length_Suc_conv)
  with Cons.prems(3) have "\<forall>k < length us. 0 \<le> us ! k \<longrightarrow> ps' ! k = qs' ! k" "0 \<le> u \<longrightarrow> p = q" by force+
  with Cons.IH [of ps' qs'] Cons.prems(1,2) e show ?case by simp
qed simp

lemma user_entries_DeskPosInit: "desk_raw st \<Longrightarrow> user_entries (DeskPosInit st) = user_entries st"
proof -
  assume raw: "desk_raw st"
  from DeskPosInit_frame [of st] obtain p where p: "DeskPosInit st = st\<lparr>s_nDeskRows := 6, s_aDeskPos := p\<rparr>"
    "length p = length (s_aDeskPos st)" "\<forall>k. 0 \<le> s_anDeskUser st ! k \<longrightarrow> p ! k = s_aDeskPos st ! k" by blast
  let ?n = "nat (s_cDesk st)"
  have "filter (\<lambda>(u, _). u \<ge> 0) (zip (take ?n (s_anDeskUser st)) (take ?n p))
      = filter (\<lambda>(u, _). u \<ge> 0) (zip (take ?n (s_anDeskUser st)) (take ?n (s_aDeskPos st)))"
    using raw p by (intro filter_zip_cong) (simp_all add: desk_raw_def)
  then show ?thesis by (simp add: p(1) user_entries_def take_zip)
qed

lemma desk_seed_users: "desk_boot st \<Longrightarrow> user_entries (desk_seed bIe st\<lparr>s_vmu := v\<rparr>) = []"
proof -
  assume b: "desk_boot st"
  note s = desk_seed_ok [OF b, of bIe]
  have "\<not> 0 \<le> u" if "(u, p) \<in> set (take (nat (s_cDesk (desk_seed bIe st)))
      (zip (s_anDeskUser (desk_seed bIe st)) (s_aDeskPos (desk_seed bIe st))))" for u p
    using that s by (auto simp: in_set_conv_nth split: if_splits)
  then show ?thesis by (auto simp: user_entries_def filter_empty_conv)
qed

text \<open>
  C5: what a save stores, the next start-up restores: after a save that the card accepted,
  \<open>DeskInit\<close> shows the user's icons again, in order, with their Start-menu entries and
  positions. The Internet Explorer icon, when its file is present, takes one of the 17 places.
\<close>
theorem Desk_restore:
  assumes "desk_ok st" and "vm_ok (s_vmu st)" and "desk_boot st0"
    and "\<forall>p \<in> set (s_aDeskPos st). - 32768 \<le> fst p \<and> fst p < 32768 \<and> - 32768 \<le> snd p \<and> snd p < 32768"
    and "VmuSave (shc_blob (user_entries st)) (s_vmu st) = (True, v)"
    and "s_vmu st0 = s_vmu (SaveShortcuts st)"
  shows "\<exists>st'. DeskInit bIe st0 = Some st' \<and> user_entries st' = take (if bIe then 16 else 17) (user_entries st)"
proof -
  let ?es = "user_entries st" and ?s = "desk_seed bIe st0"
  let ?b = "shc_blob ?es @ replicate (512 - length (shc_blob ?es)) 0"
  have len: "length ?es \<le> 17" by (rule user_entries_length [OF assms(1)])
  have sh: "\<forall>e \<in> set ?es. shorts e" by (rule user_entries_shorts [OF assms(1,4)])
  have v: "s_vmu st0 = v" using assms(5,6) len by (simp add: SaveShortcuts_def)
  have "vmu_get VMU_FILE v = Some ?b"
    using vmu_store.saved [OF assms(2), of VMU_FILE "shc_blob ?es" v] assms(5) by (simp add: VmuSave_def)
  then obtain v' where ld: "VmuLoad 512 v = (Some ?b, v')"
    by (metis VmuLoad_def vmu_get_def prod.collapse)
  note s = desk_seed_ok [OF assms(3), of bIe]
  let ?t = "?s\<lparr>s_vmu := v'\<rparr>"
  have "0 \<le> fst e" if "e \<in> set ?es" for e using sh that by (cases e) (auto simp: shorts_def)
  then have pos: "\<forall>e \<in> set (take n ?es). 0 \<le> fst e" for n by (meson in_set_takeD)
  have nth: "\<And>j. j < length ?es \<Longrightarrow> take 6 (drop (8 + 6 * (0 + j)) ?b) = enc_entry (?es ! j)"
    by (simp only: add_0 shc_blob_nth)
  have "LoadShortcuts ?s = load_entries (length ?es) ?b 0 ?t"
    using s v ld len shc_blob_head [of ?es] by (simp add: LoadShortcuts_def Let_def sint_count)
  also have "\<dots> = Some (fold app (take (24 - nat (s_cDesk ?t)) ?es) ?t)"
    using s sh nth by (intro load_entries_encoded) simp_all
  finally have l: "LoadShortcuts ?s = Some (fold app (take (24 - nat (s_cDesk ?t)) ?es) ?t)" .
  have k: "24 - nat (s_cDesk ?t) = (if bIe then 16 else 17)" using s by simp
  have raw: "desk_raw ?t" using s by (simp add: desk_raw_def)
  have "user_entries (fold app (take (if bIe then 16 else 17) ?es) ?t)
      = user_entries ?t @ take (if bIe then 16 else 17) ?es"
    using s raw len pos by (intro user_entries_apps) simp_all
  moreover have "desk_raw (fold app (take (if bIe then 16 else 17) ?es) ?t)"
    using LoadShortcuts_keeps [OF l] s k by simp
  moreover have "DeskInit bIe st0 = Some (DeskPosInit (fold app (take (if bIe then 16 else 17) ?es) ?t))"
    by (simp only: DeskInit_seed l k option.map)
  ultimately show ?thesis by (simp add: user_entries_DeskPosInit desk_seed_users [OF assms(3)])
qed

section \<open>A sample desktop\<close>

definition desk0 :: "(string \<times> byte list) list vmu \<Rightarrow> (string \<times> byte list) list desk" where
  "desk0 v = \<lparr>s_bDirty = False, s_bDeskDirty = False, s_vmu = v, s_out = [],
     s_aDesk = replicate 24 (s_start ! 0), s_anDeskUser = replicate 24 0, s_cDesk = 0, s_nDeskSel = 0,
     s_aDeskPos = replicate 24 (0, 0), s_nDeskRows = 6\<rparr>"

lemma desk0_boot: "desk_boot (desk0 v)" by (simp add: desk_boot_def desk0_def)

lemma load_empty: "LoadShortcuts (desk_seed False (desk0 sample_card)) = Some (desk_seed False (desk0 sample_card))"
  by (simp add: LoadShortcuts_def VmuLoad_def VmuLoadAs_def OpenDev_def load_file_def Let_def
      desk_seed_def desk0_def sample_card_def card_svc_def)

definition desk1 :: "(string \<times> byte list) list desk" where
  "desk1 = DeskPosInit (desk_seed False (desk0 sample_card))"

lemma DeskInit_desk0: "DeskInit False (desk0 sample_card) = Some desk1"
  by (simp add: DeskInit_seed load_empty desk1_def)

definition desk2 :: "(string \<times> byte list) list desk" where
  "desk2 = append_icon (s_start ! 3) 3 (200, 100) desk1"

lemma desk1_ok: "desk_ok desk1"
  by (rule DeskInit_ok [OF desk0_boot DeskInit_desk0])

lemma desk1_parts: "s_cDesk desk1 = 7" "s_vmu desk1 = sample_card" "user_entries desk1 = []"
proof -
  let ?s = "desk_seed False (desk0 sample_card)"
  from DeskPosInit_frame [of ?s] obtain p where e: "desk1 = ?s\<lparr>s_nDeskRows := 6, s_aDeskPos := p\<rparr>"
    unfolding desk1_def by blast
  show "s_cDesk desk1 = 7" unfolding e by (simp add: desk_seed_def desk0_def)
  show "s_vmu desk1 = sample_card" unfolding e by (simp add: desk_seed_def desk0_def)
  have "user_entries desk1 = user_entries ?s"
    using desk_seed_ok [OF desk0_boot] by (simp add: desk1_def user_entries_DeskPosInit)
  also have "?s = ?s\<lparr>s_vmu := s_vmu ?s\<rparr>" by simp
  finally show "user_entries desk1 = []" by (simp only: desk_seed_users [OF desk0_boot])
qed

lemma desk2_parts: "desk_ok desk2" "user_entries desk2 = [(3, 200, 100)]" "s_vmu desk2 = sample_card"
proof -
  have "desk_raw desk1" "icons_ok desk1" "\<forall>k < 7. s_anDeskUser desk1 ! k = - 1"
    "- 1 \<le> s_nDeskSel desk1" "s_nDeskSel desk1 < 7" "0 < s_nDeskRows desk1"
    using desk1_ok desk1_parts by (auto simp: desk_ok_def)
  moreover have "desk_raw desk2" "icons_ok desk2"
    using calculation desk1_parts start_entry [of 3] unfolding desk2_def
    by (auto intro!: append_icon_raw append_icon_icons)
  ultimately show "desk_ok desk2"
    using desk1_parts by (auto simp: desk_ok_def desk2_def append_icon_def)
  have "user_entries (app (3, 200, 100) desk1) = user_entries desk1 @ [(3, 200, 100)]"
    using desk1_ok desk1_parts by (intro user_entries_app) (simp_all add: desk_ok_def)
  then show "user_entries desk2 = [(3, 200, 100)]" by (simp add: desk1_parts app_def desk2_def)
  show "s_vmu desk2 = sample_card" by (simp add: desk2_def append_icon_def desk1_parts)
qed

lemma desk2_pos: "s_aDeskPos desk2 = [(14, 16), (14, 86), (14, 156), (14, 226), (14, 296), (14, 366), (122, 16), (200, 100)] @ replicate 16 (0, 0)"
  by code_simp


theorem Desk_restore_witness:
  "\<exists>st'. DeskInit False (desk0 (s_vmu (SaveShortcuts desk2))) = Some st' \<and> user_entries st' = [(3, 200, 100)]"
proof -
  obtain v where "VmuSave (shc_blob (user_entries desk2)) (s_vmu desk2) = (True, v)"
    unfolding desk2_parts by (simp add: VmuSave_def card_run sample_card_def card_svc_def)
  moreover have "vm_ok (s_vmu desk2)" by (simp add: desk2_parts vm_ok_def sample_card_def card_laws)
  ultimately show ?thesis
    using Desk_restore [OF desk2_parts(1) _ desk0_boot, of v "s_vmu (SaveShortcuts desk2)" False]
    by (simp add: desk2_parts(2) desk2_pos) (simp add: desk0_def)
qed

definition bad_blob :: "byte list" where
  "bad_blob = le32_bytes SHC_MAGIC @ le32_bytes 85 @ concat (replicate 84 [0xFF, 0xFF, 0, 0, 0, 0])"

theorem LoadShortcuts_overread_witness:
  "LoadShortcuts (desk1\<lparr>s_vmu := sample_card\<lparr>vm_card := [(VMU_FILE, bad_blob)]\<rparr>\<rparr>) = None"
proof -
  let ?v = "sample_card\<lparr>vm_card := [(VMU_FILE, bad_blob)]\<rparr>"
  have len: "length bad_blob = 512" by code_simp
  have "VmuLoad 512 ?v = (Some bad_blob, ?v)"
    using len by (simp add: VmuLoad_def VmuLoadAs_def OpenDev_def load_file_def Let_def sample_card_def card_svc_def)
  moreover have "rd32le bad_blob 0 = Some SHC_MAGIC" "rd32le bad_blob 4 = Some 85"
    by code_simp+
  moreover have "list_all (\<lambda>j. get_short bad_blob (8 + 6 * j) = Some (- 1)) [0 ..< 84]" by code_simp
  ultimately show ?thesis
    using LoadShortcuts_overread [of "desk1\<lparr>s_vmu := ?v\<rparr>" bad_blob ?v 85] len
    by (simp add: desk1_parts list_all_iff)
qed

end
