(* ===== verification/Dcinput.thy ===== *)
theory Dcinput
  imports Fifo "HOL-Library.Signed_Division"
begin

text \<open>
  The shell's input layer \<open>shell/dcinput.c\<close>: device discovery, the per-frame poll that
  turns keyboard, mouse and controller snapshots into queued key events, a cursor and
  one-shot latches, and the hand-over of the devices to a full-screen application.

  DirectInput is outside the repository. What it answers during one call is an argument:
  the devices an enumeration reports, and for each device the snapshot
  \<open>GetDeviceState\<close> returns or \<open>None\<close> when it fails. Device objects are only compared
  with NULL, so they are booleans. \<open>JBTN\<close> reads \<open>rgbButtons\<close> at an index found at
  enumeration, so it is bounds-checked. Cursor arithmetic is on mathematical integers
  (the deltas a device reports are far from the \<open>int\<close> limits).
\<close>

unbundle bit_operations_syntax

section \<open>State\<close>

record din =
  g_pDi :: bool
  g_pKbd :: bool
  g_pJoy :: bool
  g_pMouse :: bool
  g_nWmPointer :: bool
  g_dwReEnumUntil :: u32
  dwLastScan :: u32
  g_aNow :: "byte list"
  g_aLast :: "byte list"
  g_aRepeatAt :: "u32 list"
  g_nCx :: int
  g_nCy :: int
  g_nBtnLast :: bool
  g_nMbtnLast :: bool
  g_nClick :: bool
  g_nActivate :: bool
  g_nLtHeld :: bool
  g_nCtxClick :: bool
  g_nCtxAHeld :: bool
  g_nMHeld :: bool
  g_nJHeld :: bool
  g_dwLastTick :: u32
  g_lAccX :: int
  g_lAccY :: int
  g_abBtnIdx :: "int list"
  g_nBtnEnum :: nat
  g_aDpadHeld :: "bool list"
  g_aDpadRepeatAt :: "u32 list"
  g_aBeEdge :: "bool list"
  g_aBeHeld :: "bool list"
  g_dwJoyPrimeUntil :: u32
  g_aQ :: "u32 list"
  g_nQh :: nat
  g_nQt :: nat

definition SCRW :: int where "SCRW = 640"
definition SCRH :: int where "SCRH = 480"

definition VK_BACK :: u32 where "VK_BACK = 0x08"
definition VK_TAB :: u32 where "VK_TAB = 0x09"
definition VK_RETURN :: u32 where "VK_RETURN = 0x0D"
definition VK_ESCAPE :: u32 where "VK_ESCAPE = 0x1B"
definition VK_LEFT :: u32 where "VK_LEFT = 0x25"
definition VK_UP :: u32 where "VK_UP = 0x26"
definition VK_RIGHT :: u32 where "VK_RIGHT = 0x27"
definition VK_DOWN :: u32 where "VK_DOWN = 0x28"
definition VK_DELETE :: u32 where "VK_DELETE = 0x2E"
definition VK_APPS :: u32 where "VK_APPS = 0x5D"

definition din_init :: din where
  "din_init = \<lparr>g_pDi = False, g_pKbd = False, g_pJoy = False, g_pMouse = False,
     g_nWmPointer = False, g_dwReEnumUntil = 0, dwLastScan = 0, g_aNow = replicate 256 0,
     g_aLast = replicate 256 0, g_aRepeatAt = replicate 256 0, g_nCx = 320, g_nCy = 240,
     g_nBtnLast = False, g_nMbtnLast = False, g_nClick = False, g_nActivate = False,
     g_nLtHeld = False, g_nCtxClick = False, g_nCtxAHeld = False, g_nMHeld = False,
     g_nJHeld = False, g_dwLastTick = 0, g_lAccX = 0, g_lAccY = 0,
     g_abBtnIdx = replicate 24 0, g_nBtnEnum = 0, g_aDpadHeld = replicate 4 False,
     g_aDpadRepeatAt = replicate 4 0, g_aBeEdge = replicate 5 False,
     g_aBeHeld = replicate 5 False, g_dwJoyPrimeUntil = 0, g_aQ = replicate 32 0,
     g_nQh = 0, g_nQt = 0\<rparr>"

section \<open>The key queue\<close>

definition Push :: "u32 \<Rightarrow> din \<Rightarrow> din" where
  "Push dwVk d =
     (let n = (g_nQh d + 1) mod 32
      in if n \<noteq> g_nQt d then d\<lparr>g_aQ := (g_aQ d)[g_nQh d := dwVk], g_nQh := n\<rparr> else d)"

definition DInNextKey :: "din \<Rightarrow> (u32 \<times> din) option" where
  "DInNextKey d =
     (if g_nQt d = g_nQh d then None
      else Some (g_aQ d ! g_nQt d, d\<lparr>g_nQt := (g_nQt d + 1) mod 32\<rparr>))"

section \<open>Enumeration\<close>

text \<open>
  One device an enumeration reports: its type, whether \<open>CreateDevice\<close> and
  \<open>QueryInterface\<close> succeed, and, for a controller, the usages of its buttons in order.
\<close>

record indev =
  id_type :: nat
  id_create :: bool
  id_query :: bool
  id_usages :: "nat list"

definition DIDEVTYPE_MOUSE :: nat where "DIDEVTYPE_MOUSE = 2"
definition DIDEVTYPE_KEYBOARD :: nat where "DIDEVTYPE_KEYBOARD = 3"
definition DIDEVTYPE_JOYSTICK :: nat where "DIDEVTYPE_JOYSTICK = 4"

definition JoyObjCb :: "nat \<Rightarrow> din \<Rightarrow> din" where
  "JoyObjCb wUsage d =
     (let u = int wUsage - 0xFF00;
          d = (if 0 \<le> u \<and> u < 24
               then d\<lparr>g_abBtnIdx := (g_abBtnIdx d)[nat u := sint (word_of_nat (g_nBtnEnum d) :: byte)]\<rparr>
               else d)
      in d\<lparr>g_nBtnEnum := g_nBtnEnum d + 1\<rparr>)"

definition EnumCb :: "indev \<Rightarrow> din \<Rightarrow> din" where
  "EnumCb dev d =
     (if \<not> id_create dev then d
      else if \<not> id_query dev then d
      else if id_type dev = DIDEVTYPE_KEYBOARD \<and> \<not> g_pKbd d then d\<lparr>g_pKbd := True\<rparr>
      else if id_type dev = DIDEVTYPE_MOUSE \<and> \<not> g_pMouse d then d\<lparr>g_pMouse := True\<rparr>
      else if id_type dev = DIDEVTYPE_JOYSTICK \<and> \<not> g_pJoy d
        then (fold JoyObjCb (id_usages dev)
                (d\<lparr>g_abBtnIdx := replicate 24 (- 1), g_nBtnEnum := 0\<rparr>))\<lparr>g_pJoy := True\<rparr>
      else d)"

definition DInInit :: "bool \<Rightarrow> u32 \<times> u32 \<Rightarrow> indev list \<Rightarrow> din \<Rightarrow> bool \<times> din" where
  "DInInit created ticks devs d =
     (if \<not> created then (False, d\<lparr>g_pDi := False\<rparr>)
      else let d = fold EnumCb devs (d\<lparr>g_pDi := True, g_dwReEnumUntil := fst ticks + 10000\<rparr>);
               d = d\<lparr>g_dwJoyPrimeUntil := snd ticks + 400\<rparr>
           in (g_pKbd d, d))"

definition DInShutdown :: "din \<Rightarrow> din" where
  "DInShutdown d = d\<lparr>g_pKbd := False, g_pMouse := False, g_pJoy := False, g_pDi := False\<rparr>"

section \<open>The per-frame poll\<close>

text \<open>The keyboard: \<open>g_aMap\<close> lists scan code, virtual key and whether the key repeats.\<close>

definition g_aMap :: "(nat \<times> u32 \<times> bool) list" where
  "g_aMap = [(0xC8, VK_UP, True), (0xD0, VK_DOWN, True), (0xCB, VK_LEFT, True),
     (0xCD, VK_RIGHT, True), (0x1C, VK_RETURN, False), (0x01, VK_ESCAPE, False),
     (0x0F, VK_TAB, False), (0x0E, VK_BACK, True), (0xD3, VK_DELETE, False),
     (0x0B, 0x30, False), (0x02, 0x31, False), (0x03, 0x32, False), (0x04, 0x33, False),
     (0x05, 0x34, False), (0x06, 0x35, False), (0x07, 0x36, False), (0x08, 0x37, False),
     (0x09, 0x38, False), (0x0A, 0x39, False), (0x2E, 0x43, False)]"

definition held :: "byte list \<Rightarrow> nat \<Rightarrow> bool" where
  "held keys dik \<longleftrightarrow> keys ! dik AND 0x80 \<noteq> 0"

definition key_entry :: "u32 \<Rightarrow> nat \<times> u32 \<times> bool \<Rightarrow> din \<Rightarrow> din" where
  "key_entry dwNowt e d =
     (let (dik, vk, nav) = e;
          isdown = held (g_aNow d) dik;
          was = held (g_aLast d) dik
      in if isdown \<and> \<not> was
         then let d = Push vk d in d\<lparr>g_aRepeatAt := (g_aRepeatAt d)[dik := dwNowt + 350]\<rparr>
         else if isdown \<and> was \<and> nav \<and> g_aRepeatAt d ! dik \<le> dwNowt
         then let d = Push vk d in d\<lparr>g_aRepeatAt := (g_aRepeatAt d)[dik := dwNowt + 100]\<rparr>
         else d)"

definition kbd_update :: "u32 \<Rightarrow> byte list option \<Rightarrow> din \<Rightarrow> din" where
  "kbd_update dwNowt snap d =
     (if \<not> g_pKbd d then d
      else let d = d\<lparr>g_aLast := g_aNow d\<rparr>
           in case snap of None \<Rightarrow> d
              | Some keys \<Rightarrow> fold (key_entry dwNowt) g_aMap (d\<lparr>g_aNow := keys\<rparr>))"

definition clamp :: "int \<Rightarrow> int \<Rightarrow> int" where
  "clamp lim v = (let v = (if v < 0 then 0 else v) in if v \<ge> lim then lim - 1 else v)"

definition clamp_cursor :: "din \<Rightarrow> din" where
  "clamp_cursor d = d\<lparr>g_nCx := clamp SCRW (g_nCx d), g_nCy := clamp SCRH (g_nCy d)\<rparr>"

text \<open>The mouse: relative motion, left or middle held, right edge.\<close>

definition mouse_update :: "(int \<times> int \<times> byte list) option \<Rightarrow> din \<Rightarrow> din" where
  "mouse_update snap d =
     (if \<not> g_pMouse d then d
      else case snap of None \<Rightarrow> d
        | Some (lX, lY, b) \<Rightarrow>
            (let d = clamp_cursor (d\<lparr>g_nCx := g_nCx d + lX, g_nCy := g_nCy d + lY\<rparr>);
                 r = (b ! 1 AND 0x80 \<noteq> 0);
                 d = d\<lparr>g_nMHeld := ((b ! 0 OR b ! 2) AND 0x80 \<noteq> 0)\<rparr>;
                 d = (if r \<and> \<not> g_nMbtnLast d then d\<lparr>g_nCtxClick := True\<rparr> else d)
             in d\<lparr>g_nMbtnLast := r\<rparr>))"

text \<open>The controller.\<close>

definition JBTN :: "din \<Rightarrow> byte list \<Rightarrow> nat \<Rightarrow> bool option" where
  "JBTN d js u =
     (let k = g_abBtnIdx d ! u
      in if k \<ge> 0 then map_option (\<lambda>b. b AND 0x80 \<noteq> 0) (at js k) else Some False)"

definition s_adwDpadVk :: "u32 list" where "s_adwDpadVk = [VK_UP, VK_DOWN, VK_LEFT, VK_RIGHT]"

definition STICK_DIV :: int where "STICK_DIV = 1250"

definition stick :: "int \<Rightarrow> int \<Rightarrow> int \<times> int \<Rightarrow> int \<times> int" where
  "stick l dwDt a = (case a of (acc, pos) \<Rightarrow>
     if abs l > 150
     then let acc = acc + l * dwDt; dx = acc sdiv STICK_DIV
          in (acc - dx * STICK_DIV, pos + dx)
     else (0, pos))"

definition dpad_dir :: "u32 \<Rightarrow> bool list \<Rightarrow> nat \<Rightarrow> din \<Rightarrow> din" where
  "dpad_dir dwNowt dn i d =
     (let d = (if dn ! i \<and> \<not> g_aDpadHeld d ! i
               then let d = Push (s_adwDpadVk ! i) d
                    in d\<lparr>g_aDpadRepeatAt := (g_aDpadRepeatAt d)[i := dwNowt + 350]\<rparr>
               else if dn ! i \<and> g_aDpadRepeatAt d ! i \<le> dwNowt
               then let d = Push (s_adwDpadVk ! i) d
                    in d\<lparr>g_aDpadRepeatAt := (g_aDpadRepeatAt d)[i := dwNowt + 120]\<rparr>
               else d)
      in d\<lparr>g_aDpadHeld := (g_aDpadHeld d)[i := dn ! i]\<rparr>)"

definition be_edge :: "bool list \<Rightarrow> nat \<Rightarrow> din \<Rightarrow> din" where
  "be_edge be k d =
     (let d = (if be ! k \<and> \<not> g_aBeHeld d ! k then d\<lparr>g_aBeEdge := (g_aBeEdge d)[k := True]\<rparr> else d)
      in d\<lparr>g_aBeHeld := (g_aBeHeld d)[k := be ! k]\<rparr>)"

text \<open>The buttons the poll reads: L trigger, D-pad in the order of \<open>dn[]\<close>, face buttons.\<close>

definition read_buttons :: "din \<Rightarrow> byte list \<Rightarrow> (bool \<times> bool list \<times> bool list) option" where
  "read_buttons d js = do {
     bLt \<leftarrow> JBTN d js 17;
     u \<leftarrow> JBTN d js 7; dd \<leftarrow> JBTN d js 6; l \<leftarrow> JBTN d js 4; r \<leftarrow> JBTN d js 5;
     a \<leftarrow> JBTN d js 0; b \<leftarrow> JBTN d js 1; x \<leftarrow> JBTN d js 8; y \<leftarrow> JBTN d js 9; s \<leftarrow> JBTN d js 3;
     Some (bLt, [u, dd, l, r], [a, b, x, y, s]) }"

definition joy_buttons :: "u32 \<Rightarrow> bool \<Rightarrow> bool list \<Rightarrow> bool list \<Rightarrow> din \<Rightarrow> din" where
  "joy_buttons dwNowt bLt dn be d =
     (let bA = be ! 0;
          face = (\<not> bLt \<and> (be ! 0 \<or> be ! 4));
          d = d\<lparr>g_nJHeld := (if dwNowt < g_dwJoyPrimeUntil d \<or> bLt then False else bA)\<rparr>
      in if dwNowt < g_dwJoyPrimeUntil d
         then d\<lparr>g_aDpadHeld := dn, g_nBtnLast := face, g_aBeHeld := be, g_nCtxAHeld := (bLt \<and> bA)\<rparr>
         else
           let d = fold (dpad_dir dwNowt dn) [0, 1, 2, 3] d;
               d = (if face \<and> \<not> g_nBtnLast d then d\<lparr>g_nActivate := True\<rparr> else d);
               d = d\<lparr>g_nBtnLast := face\<rparr>;
               d = fold (be_edge be) [0, 1, 2, 3, 4] d;
               d = (if bLt \<and> bA \<and> \<not> g_nCtxAHeld d then d\<lparr>g_nCtxClick := True\<rparr> else d)
           in d\<lparr>g_nCtxAHeld := (bLt \<and> bA)\<rparr>)"

definition joy_dt :: "u32 \<Rightarrow> din \<Rightarrow> int" where
  "joy_dt dwNowt d =
     (let dt = (if g_dwLastTick d \<noteq> 0 then dwNowt - g_dwLastTick d else 16)
      in uint (if dt > 100 then 100 else dt))"

definition joy_update :: "u32 \<Rightarrow> (int \<times> int \<times> byte list) option \<Rightarrow> din \<Rightarrow> din option" where
  "joy_update dwNowt snap d =
     (if \<not> g_pJoy d then Some d
      else case snap of None \<Rightarrow> Some d
        | Some (lX, lY, js) \<Rightarrow> do {
            (bLt, dn, be) \<leftarrow> read_buttons d js;
            let d = d\<lparr>g_nLtHeld := bLt\<rparr>;
            let (ax, cx) = stick lX (joy_dt dwNowt d) (g_lAccX d, g_nCx d);
            let (ay, cy) = stick lY (joy_dt dwNowt d) (g_lAccY d, g_nCy d);
            let d = clamp_cursor (d\<lparr>g_lAccX := ax, g_lAccY := ay, g_nCx := cx, g_nCy := cy\<rparr>);
            Some (joy_buttons dwNowt bLt dn be d) })"

record din_poll =
  in_tick :: u32
  in_newdev :: bool
  in_devs :: "indev list"
  in_kbd :: "byte list option"
  in_mouse :: "(int \<times> int \<times> byte list) option"
  in_joy :: "(int \<times> int \<times> byte list) option"

definition DInUpdate :: "din_poll \<Rightarrow> din \<Rightarrow> din option" where
  "DInUpdate p d = do {
     let dwNowt = in_tick p;
     let d = (if g_pDi d \<and> (in_newdev p
                \<or> (dwNowt < g_dwReEnumUntil d \<and> 1000 \<le> dwNowt - dwLastScan d))
              then fold EnumCb (in_devs p) (d\<lparr>dwLastScan := dwNowt\<rparr>) else d);
     let d = kbd_update dwNowt (in_kbd p) d;
     let d = mouse_update (in_mouse p) d;
     d \<leftarrow> joy_update dwNowt (in_joy p) d;
     Some (d\<lparr>g_dwLastTick := dwNowt\<rparr>) }"

section \<open>Reading the latches, and the hand-over\<close>

definition DInSetCursor :: "int \<Rightarrow> int \<Rightarrow> din \<Rightarrow> din" where
  "DInSetCursor x y d = d\<lparr>g_nCx := clamp SCRW x, g_nCy := clamp SCRH y, g_nWmPointer := True\<rparr>"

definition DInPostClick :: "din \<Rightarrow> din" where "DInPostClick d = d\<lparr>g_nClick := True\<rparr>"

definition DInTookActivate :: "din \<Rightarrow> bool \<times> din" where
  "DInTookActivate d = (g_nActivate d, d\<lparr>g_nActivate := False\<rparr>)"

definition DInTookClick :: "din \<Rightarrow> bool \<times> din" where
  "DInTookClick d = (g_nClick d, d\<lparr>g_nClick := False\<rparr>)"

definition DInTookContext :: "din \<Rightarrow> bool \<times> din" where
  "DInTookContext d = (g_nCtxClick d, d\<lparr>g_nCtxClick := False\<rparr>)"

definition DInHasPointer :: "din \<Rightarrow> bool" where
  "DInHasPointer d \<longleftrightarrow> g_pMouse d \<or> g_pJoy d \<or> g_nWmPointer d"

definition DInCursor :: "din \<Rightarrow> int \<times> int" where
  "DInCursor d = (g_nCx d, g_nCy d)"

definition DInPointerDown :: "din \<Rightarrow> bool" where
  "DInPointerDown d \<longleftrightarrow> g_nMHeld d \<or> g_nJHeld d"

definition DInLeftTrigDown :: "din \<Rightarrow> bool" where "DInLeftTrigDown d = g_nLtHeld d"

definition DInButtonEdge :: "int \<Rightarrow> din \<Rightarrow> bool \<times> din" where
  "DInButtonEdge btn d =
     (if btn < 0 \<or> btn > 4 then (False, d)
      else (g_aBeEdge d ! nat btn, d\<lparr>g_aBeEdge := (g_aBeEdge d)[nat btn := False]\<rparr>))"

datatype hotkey = DIN_HK_NONE | DIN_HK_ALTF4 | DIN_HK_CTRLALTDEL

definition DInHotkey :: "byte list option \<Rightarrow> din \<Rightarrow> hotkey" where
  "DInHotkey snap d =
     (if \<not> g_pKbd d then DIN_HK_NONE
      else case snap of None \<Rightarrow> DIN_HK_NONE
        | Some k \<Rightarrow>
            (let bAlt = ((k ! 0x38 OR k ! 0xB8) AND 0x80 \<noteq> 0);
                 bCtrl = ((k ! 0x1D OR k ! 0x9D) AND 0x80 \<noteq> 0)
             in if bCtrl \<and> bAlt \<and> k ! 0xD3 AND 0x80 \<noteq> 0 then DIN_HK_CTRLALTDEL
                else if bAlt \<and> k ! 0x3E AND 0x80 \<noteq> 0 then DIN_HK_ALTF4
                else DIN_HK_NONE))"

definition DInPadCombo :: "byte list option \<Rightarrow> din \<Rightarrow> bool option" where
  "DInPadCombo snap d =
     (if \<not> g_pJoy d then Some False
      else case snap of None \<Rightarrow> Some False
        | Some js \<Rightarrow> do { s \<leftarrow> JBTN d js 3; if s then JBTN d js 0 else Some False })"

definition DInReacquire :: "u32 \<Rightarrow> din \<Rightarrow> din" where
  "DInReacquire tick d =
     d\<lparr>g_aNow := replicate 256 0, g_aLast := replicate 256 0, g_dwJoyPrimeUntil := tick + 400,
       g_nQh := 0, g_nQt := 0, g_aBeEdge := replicate 5 False, g_aBeHeld := replicate 5 False,
       g_nCtxClick := False, g_nCtxAHeld := False, g_nLtHeld := False\<rparr>"


section \<open>The key queue is a bounded first-in first-out queue\<close>

definition qlen :: "din \<Rightarrow> nat" where "qlen d = (g_nQh d + 32 - g_nQt d) mod 32"

definition din_queue :: "din \<Rightarrow> u32 list" where
  "din_queue d = map (\<lambda>k. g_aQ d ! ((g_nQt d + k) mod 32)) [0 ..< qlen d]"

definition q_ok :: "din \<Rightarrow> bool" where
  "q_ok d \<longleftrightarrow> length (g_aQ d) = 32 \<and> g_nQh d < 32 \<and> g_nQt d < 32"

lemma qlen_less: "qlen d < 32" by (simp add: qlen_def)

lemma mod32: "x < 64 \<Longrightarrow> x mod 32 = (if x < 32 then x else x - 32 :: nat)"
  by (simp add: mod_if)

lemma ring_len:
  assumes "h < 32" and "t < (32 :: nat)"
  shows "(h + 32 - t) mod 32 = (if t \<le> h then h - t else h + 32 - t)"
  using assms mod32 [of "h + 32 - t"] by (cases "t \<le> h") auto

lemma ring_step:
  assumes "h < 32" and "t < 32" and "(h + 1) mod 32 \<noteq> (t :: nat)"
  shows "((h + 1) mod 32 + 32 - t) mod 32 = (h + 32 - t) mod 32 + 1"
proof -
  have n: "(h + 1) mod 32 = (if h = 31 then 0 else h + 1)" using assms(1) mod32 [of "h + 1"] by auto
  have "(h + 1) mod 32 < 32" by simp
  from ring_len [OF this assms(2)] ring_len [OF assms(1,2)] show ?thesis
    using assms unfolding n by auto
qed

lemma ring_pop:
  assumes "h < 32" and "t < 32" and "t \<noteq> (h :: nat)"
  shows "(h + 32 - t) mod 32 = Suc ((h + 32 - (t + 1) mod 32) mod 32)"
proof -
  have n: "(t + 1) mod 32 = (if t = 31 then 0 else t + 1)" using assms(2) mod32 [of "t + 1"] by auto
  have "(t + 1) mod 32 < 32" by simp
  from ring_len [OF assms(1) this] ring_len [OF assms(1,2)] show ?thesis
    using assms unfolding n by auto
qed

lemma ring_last:
  assumes "h < 32" and "t < (32 :: nat)"
  shows "(t + (h + 32 - t) mod 32) mod 32 = h"
  unfolding ring_len [OF assms] using assms by (cases "t \<le> h") simp_all

lemma ring_other:
  assumes "h < 32" and "t < 32" and "k < (h + 32 - t) mod 32"
  shows "(t + k) mod 32 \<noteq> (h::nat)"
proof -
  have "t + k < 64 \<and> (if t \<le> h then t + k < h else t + k < h + 32)"
    using assms unfolding ring_len [OF assms(1,2)] by auto
  with mod32 [of "t + k"] assms(1,2) show ?thesis by (auto split: if_splits)
qed

lemma ring_full:
  assumes "h < 32" and "t < (32::nat)"
  shows "(h + 1) mod 32 = t \<longleftrightarrow> (h + 32 - t) mod 32 = 31"
  unfolding ring_len [OF assms] using assms mod32 [of "h + 1"] by (cases "h = 31"; cases "t \<le> h") auto

lemma q_ok_Push: "q_ok d \<Longrightarrow> q_ok (Push vk d)"
  by (auto simp: q_ok_def Push_def Let_def)

lemma Push_queue:
  assumes "q_ok d"
  shows "din_queue (Push vk d) = take 31 (din_queue d @ [vk])"
proof (cases "(g_nQh d + 1) mod 32 = g_nQt d")
  case True
  with assms have "qlen d = 31" using ring_full by (simp add: qlen_def q_ok_def)
  with True show ?thesis by (simp add: Push_def Let_def din_queue_def)
next
  case False
  have q: "g_nQh d < 32" "g_nQt d < 32" "length (g_aQ d) = 32"
    using assms by (auto simp: q_ok_def)
  have n: "qlen (Push vk d) = qlen d + 1"
    using ring_step [OF q(1,2)] False by (simp add: qlen_def Push_def Let_def)
  have l: "qlen d \<le> 30"
    using qlen_less [of "Push vk d"] n by simp
  have old: "g_aQ (Push vk d) ! ((g_nQt d + k) mod 32) = g_aQ d ! ((g_nQt d + k) mod 32)"
    if "k < qlen d" for k
    using ring_other [OF q(1,2) that [unfolded qlen_def]] False by (simp add: Push_def Let_def)
  have new: "g_aQ (Push vk d) ! ((g_nQt d + qlen d) mod 32) = vk"
    using ring_last [OF q(1,2)] False q by (simp add: Push_def Let_def qlen_def)
  have t: "g_nQt (Push vk d) = g_nQt d" by (simp add: Push_def Let_def)
  show ?thesis
    using l old new by (simp add: din_queue_def n t)
qed

lemma length_din_queue [simp]: "length (din_queue d) = qlen d"
  by (simp add: din_queue_def)

lemma qlen_0: "q_ok d \<Longrightarrow> qlen d = 0 \<longleftrightarrow> g_nQt d = g_nQh d"
  by (cases "g_nQt d \<le> g_nQh d") (auto simp: q_ok_def qlen_def mod_if)

lemma DInNextKey_queue:
  assumes "q_ok d" and "din_queue d = x # xs"
  shows "\<exists>d'. DInNextKey d = Some (x, d') \<and> din_queue d' = xs"
proof -
  let ?d = "d\<lparr>g_nQt := (g_nQt d + 1) mod 32\<rparr>"
  have q: "g_nQh d < 32" "g_nQt d < 32" using assms(1) by (auto simp: q_ok_def)
  have "qlen d = Suc (length xs)" using arg_cong [OF assms(2), of length] by simp
  then have ne: "g_nQt d \<noteq> g_nQh d" using qlen_0 [OF assms(1)] by simp
  have n: "qlen d = Suc (qlen ?d)"
    using ring_pop [OF q ne] by (simp add: qlen_def)
  have "din_queue d = g_aQ d ! (g_nQt d mod 32) # din_queue ?d"
    by (simp add: din_queue_def n map_upt_Suc mod_simps del: upt_Suc)
  with assms(2) q ne show ?thesis by (simp add: DInNextKey_def)
qed

interpretation din_keys: fifo Push DInNextKey din_queue q_ok 31
proof
  show "q_ok d \<Longrightarrow> q_ok (Push x d)" for d x by (rule q_ok_Push)
  show "q_ok d \<Longrightarrow> DInNextKey d = Some (x, d') \<Longrightarrow> q_ok d'" for d d' x
    by (auto simp: DInNextKey_def q_ok_def split: if_splits)
  show "q_ok d \<Longrightarrow> length (din_queue d) < 31 \<Longrightarrow> din_queue (Push x d) = din_queue d @ [x]" for d x
    by (simp add: Push_queue)
  show "q_ok d \<Longrightarrow> din_queue d = [] \<Longrightarrow> DInNextKey d = None" for d
    using qlen_0 [of d] by (simp add: DInNextKey_def din_queue_def)
  show "q_ok d \<Longrightarrow> din_queue d = x # xs \<Longrightarrow> \<exists>d'. DInNextKey d = Some (x, d') \<and> din_queue d' = xs"
    for d x xs by (rule DInNextKey_queue)
qed

section \<open>Invariant\<close>

definition din_ok :: "din \<Rightarrow> bool" where
  "din_ok d \<longleftrightarrow> q_ok d \<and> length (g_aNow d) = 256 \<and> length (g_aLast d) = 256
     \<and> length (g_aRepeatAt d) = 256 \<and> 0 \<le> g_nCx d \<and> g_nCx d < SCRW \<and> 0 \<le> g_nCy d \<and> g_nCy d < SCRH
     \<and> length (g_abBtnIdx d) = 24 \<and> (\<forall>k \<in> set (g_abBtnIdx d). k < 32)
     \<and> length (g_aDpadHeld d) = 4 \<and> length (g_aDpadRepeatAt d) = 4
     \<and> length (g_aBeEdge d) = 5 \<and> length (g_aBeHeld d) = 5"

text \<open>What the devices answer: buffers of DirectInput's sizes, at most 32 buttons.\<close>

definition poll_ok :: "din_poll \<Rightarrow> bool" where
  "poll_ok p \<longleftrightarrow> (\<forall>k. in_kbd p = Some k \<longrightarrow> length k = 256)
     \<and> (\<forall>x y b. in_joy p = Some (x, y, b) \<longrightarrow> length b = 32)
     \<and> (\<forall>dev \<in> set (in_devs p). length (id_usages dev) \<le> 32)"

lemma fold_keeps: "(\<And>x s. P s \<Longrightarrow> P (f x s)) \<Longrightarrow> P s \<Longrightarrow> P (fold f xs s)"
  by (induction xs arbitrary: s) simp_all

lemma clamp_range: "0 < lim \<Longrightarrow> 0 \<le> clamp lim v \<and> clamp lim v < lim"
  by (simp add: clamp_def Let_def)

lemma din_okD:
  assumes "din_ok d"
  shows "length (g_aNow d) = 256" "length (g_aLast d) = 256" "length (g_aRepeatAt d) = 256"
    "length (g_abBtnIdx d) = 24" "length (g_aDpadHeld d) = 4" "length (g_aDpadRepeatAt d) = 4"
    "length (g_aBeEdge d) = 5" "length (g_aBeHeld d) = 5"
  using assms by (simp_all add: din_ok_def)

lemma din_ok_upd:
  assumes "din_ok d"
  shows "din_ok (d\<lparr>g_nJHeld := a\<rparr>)" "din_ok (d\<lparr>g_nMHeld := a\<rparr>)" "din_ok (d\<lparr>g_nActivate := a\<rparr>)"
    "din_ok (d\<lparr>g_nBtnLast := a\<rparr>)" "din_ok (d\<lparr>g_nMbtnLast := a\<rparr>)" "din_ok (d\<lparr>g_nCtxClick := a\<rparr>)"
    "din_ok (d\<lparr>g_nCtxAHeld := a\<rparr>)" "din_ok (d\<lparr>g_nLtHeld := a\<rparr>)"
    "din_ok (d\<lparr>g_nClick := a\<rparr>)" "din_ok (d\<lparr>g_nWmPointer := a\<rparr>)" "din_ok (d\<lparr>g_pKbd := a\<rparr>)"
    "din_ok (d\<lparr>g_pMouse := a\<rparr>)" "din_ok (d\<lparr>g_pJoy := a\<rparr>)" "din_ok (d\<lparr>g_pDi := a\<rparr>)"
    "din_ok (d\<lparr>g_dwLastTick := t\<rparr>)" "din_ok (d\<lparr>dwLastScan := t\<rparr>)"
    "din_ok (d\<lparr>g_dwReEnumUntil := t\<rparr>)" "din_ok (d\<lparr>g_dwJoyPrimeUntil := t\<rparr>)"
    "din_ok (d\<lparr>g_nBtnEnum := n\<rparr>)" "din_ok (d\<lparr>g_lAccX := x\<rparr>)" "din_ok (d\<lparr>g_lAccY := x\<rparr>)"
    "length k = 256 \<Longrightarrow> din_ok (d\<lparr>g_aNow := k\<rparr>)" "length k = 256 \<Longrightarrow> din_ok (d\<lparr>g_aLast := k\<rparr>)"
    "length r = 256 \<Longrightarrow> din_ok (d\<lparr>g_aRepeatAt := r\<rparr>)"
    "length h = 4 \<Longrightarrow> din_ok (d\<lparr>g_aDpadHeld := h\<rparr>)"
    "length q = 4 \<Longrightarrow> din_ok (d\<lparr>g_aDpadRepeatAt := q\<rparr>)"
    "length b = 5 \<Longrightarrow> din_ok (d\<lparr>g_aBeEdge := b\<rparr>)" "length b = 5 \<Longrightarrow> din_ok (d\<lparr>g_aBeHeld := b\<rparr>)"
    "length i = 24 \<Longrightarrow> (\<forall>k \<in> set i. k < 32) \<Longrightarrow> din_ok (d\<lparr>g_abBtnIdx := i\<rparr>)"
  using assms by (simp_all add: din_ok_def q_ok_def)

lemma din_ok_cursor:
  "din_ok d \<Longrightarrow> din_ok (d\<lparr>g_nCx := clamp SCRW v, g_nCy := clamp SCRH w\<rparr>)"
  using clamp_range [of SCRW v] clamp_range [of SCRH w]
  by (simp add: din_ok_def q_ok_def SCRW_def SCRH_def)

lemma din_ok_clamp: "din_ok d \<Longrightarrow> din_ok (clamp_cursor (d\<lparr>g_nCx := x, g_nCy := y\<rparr>))"
  using din_ok_cursor [of d, where v = x and w = y] by (simp add: clamp_cursor_def)

lemma din_ok_Push: "din_ok d \<Longrightarrow> din_ok (Push vk d)"
  by (simp add: din_ok_def q_ok_def Push_def Let_def)

lemma din_ok_key_entry: "din_ok d \<Longrightarrow> din_ok (key_entry now e d)"
  by (cases e) (simp add: key_entry_def Let_def din_ok_upd din_ok_Push din_okD)

lemma din_ok_kbd: "din_ok d \<Longrightarrow> (\<And>k. snap = Some k \<Longrightarrow> length k = 256) \<Longrightarrow> din_ok (kbd_update now snap d)"
  by (cases snap)
    (simp_all add: kbd_update_def Let_def din_ok_upd din_okD fold_keeps [of din_ok] din_ok_key_entry
      del: fold_simps)

lemma din_ok_mouse: "din_ok d \<Longrightarrow> din_ok (mouse_update snap d)"
  by (cases snap) (simp_all add: mouse_update_def Let_def din_ok_upd din_ok_clamp split: prod.splits)

lemma din_ok_dpad: "din_ok d \<Longrightarrow> din_ok (dpad_dir now dn i d)"
  by (simp add: dpad_dir_def Let_def din_ok_upd din_ok_Push din_okD)

lemma din_ok_be: "din_ok d \<Longrightarrow> din_ok (be_edge be k d)"
  by (simp add: be_edge_def Let_def din_ok_upd din_okD)

lemma din_ok_joy_buttons:
  "din_ok d \<Longrightarrow> length dn = 4 \<Longrightarrow> length be = 5 \<Longrightarrow> din_ok (joy_buttons now bLt dn be d)"
  by (simp add: joy_buttons_def Let_def din_ok_upd din_ok_dpad din_ok_be)

lemma JBTN_ok: "din_ok d \<Longrightarrow> length js = 32 \<Longrightarrow> u < 24 \<Longrightarrow> \<exists>b. JBTN d js u = Some b"
  using nth_mem [of u "g_abBtnIdx d"] by (auto simp: JBTN_def Let_def din_ok_def at_def)

lemma read_buttons_ok:
  assumes "din_ok d" and "length js = 32"
  obtains bLt dn be where "read_buttons d js = Some (bLt, dn, be)" "length dn = 4" "length be = 5"
proof -
  have "\<And>u. u < 24 \<Longrightarrow> \<exists>b. JBTN d js u = Some b" using assms by (rule JBTN_ok)
  from this [of 17] this [of 7] this [of 6] this [of 4] this [of 5] this [of 0] this [of 1]
    this [of 8] this [of 9] this [of 3]
  show thesis using that by (auto simp: read_buttons_def)
qed

lemma joy_update_ok:
  assumes "din_ok d" and "\<And>x y b. snap = Some (x, y, b) \<Longrightarrow> length b = 32"
  shows "\<exists>d'. joy_update now snap d = Some d' \<and> din_ok d'"
proof (cases snap)
  case (Some a)
  obtain lX lY js where a: "a = (lX, lY, js)" by (cases a) auto
  from assms Some a have js: "length js = 32" by auto
  obtain bLt dn be where r: "read_buttons d js = Some (bLt, dn, be)" and n: "length dn = 4" "length be = 5"
    using read_buttons_ok [OF assms(1) js] .
  have "din_ok (clamp_cursor (d\<lparr>g_nLtHeld := bLt, g_lAccX := ax, g_lAccY := ay, g_nCx := cx, g_nCy := cy\<rparr>))"
    for ax cx ay cy
    using din_ok_clamp [of "d\<lparr>g_nLtHeld := bLt, g_lAccX := ax, g_lAccY := ay\<rparr>", where x = cx and y = cy] assms(1)
    by (simp add: din_ok_upd)
  then show ?thesis
    using assms(1) by (simp add: joy_update_def Some a r split_def Let_def din_ok_joy_buttons n)
qed (use assms in \<open>simp add: joy_update_def\<close>)

lemma sint_small: "n < 32 \<Longrightarrow> sint (word_of_nat n :: byte) < 32"
  by (simp add: signed_of_nat signed_take_bit_eq_if_positive bit_iff_odd take_bit_int_eq_self)

lemma joy_objs_ok:
  "din_ok d \<Longrightarrow> g_nBtnEnum d + length us \<le> 32 \<Longrightarrow> din_ok (fold JoyObjCb us d)"
proof (induction us arbitrary: d)
  case (Cons u us)
  let ?v = "sint (word_of_nat (g_nBtnEnum d) :: byte)"
  have "k < 32" if "k \<in> set ((g_abBtnIdx d)[i := ?v])" for k i
    using that Cons.prems set_update_subset_insert [of "g_abBtnIdx d" i ?v] sint_small [of "g_nBtnEnum d"]
    by (auto simp: din_ok_def)
  then have "din_ok (JoyObjCb u d)"
    using Cons.prems(1) by (simp add: JoyObjCb_def Let_def din_ok_upd din_okD)
  moreover have "g_nBtnEnum (JoyObjCb u d) = g_nBtnEnum d + 1"
    by (simp add: JoyObjCb_def Let_def)
  ultimately show ?case using Cons.IH [of "JoyObjCb u d"] Cons.prems by simp
qed simp

lemma din_ok_EnumCb: "din_ok d \<Longrightarrow> length (id_usages dev) \<le> 32 \<Longrightarrow> din_ok (EnumCb dev d)"
proof -
  assume d: "din_ok d" and n: "length (id_usages dev) \<le> 32"
  have "din_ok (d\<lparr>g_abBtnIdx := replicate 24 (- 1), g_nBtnEnum := 0\<rparr>)"
    using d by (simp add: din_ok_upd)
  from joy_objs_ok [OF this, of "id_usages dev"] n
  have "din_ok (fold JoyObjCb (id_usages dev) (d\<lparr>g_abBtnIdx := replicate 24 (- 1), g_nBtnEnum := 0\<rparr>))"
    by simp
  with d show ?thesis by (simp add: EnumCb_def din_ok_upd)
qed

lemma din_ok_enum: "din_ok d \<Longrightarrow> \<forall>dev \<in> set devs. length (id_usages dev) \<le> 32 \<Longrightarrow> din_ok (fold EnumCb devs d)"
  by (induction devs arbitrary: d) (simp_all add: din_ok_EnumCb)

lemma DInUpdate_ok:
  assumes "din_ok d" and "poll_ok p"
  shows "\<exists>d'. DInUpdate p d = Some d' \<and> din_ok d'"
proof -
  define d1 where "d1 = (if g_pDi d \<and> (in_newdev p
      \<or> (in_tick p < g_dwReEnumUntil d \<and> 1000 \<le> in_tick p - dwLastScan d))
    then fold EnumCb (in_devs p) (d\<lparr>dwLastScan := in_tick p\<rparr>) else d)"
  have "din_ok d1"
    using assms by (simp add: d1_def poll_ok_def din_ok_enum din_ok_upd)
  then have "din_ok (mouse_update (in_mouse p) (kbd_update (in_tick p) (in_kbd p) d1))"
    using assms(2) by (auto simp: poll_ok_def intro!: din_ok_mouse din_ok_kbd)
  moreover have "length b = 32" if "in_joy p = Some (x, y, b)" for x y b
    using assms(2) that by (simp add: poll_ok_def)
  ultimately obtain d' where "joy_update (in_tick p) (in_joy p)
      (mouse_update (in_mouse p) (kbd_update (in_tick p) (in_kbd p) d1)) = Some d'" and "din_ok d'"
    using joy_update_ok by blast
  then show ?thesis
    by (simp add: DInUpdate_def Let_def d1_def [symmetric] din_ok_upd)
qed


text \<open>A concrete device set: a keyboard and a controller, then a frame with keys held.\<close>

definition sample_din :: din where
  "sample_din = snd (DInInit True (0, 0)
     [\<lparr>id_type = DIDEVTYPE_KEYBOARD, id_create = True, id_query = True, id_usages = []\<rparr>,
      \<lparr>id_type = DIDEVTYPE_JOYSTICK, id_create = True, id_query = True, id_usages = [0xFF00, 0xFF03]\<rparr>]
     din_init)"

definition sample_poll :: din_poll where
  "sample_poll = \<lparr>in_tick = 20000, in_newdev = False, in_devs = [],
     in_kbd = Some ((replicate 256 0)[0x1C := 0x80, 0xC8 := 0x80]), in_mouse = None,
     in_joy = Some (1000, -1000, replicate 32 0)\<rparr>"

lemma din_init_ok: "din_ok din_init"
  by (simp add: din_ok_def q_ok_def din_init_def SCRW_def SCRH_def)

lemma sample_din_ok: "din_ok sample_din"
  unfolding sample_din_def DInInit_def Let_def
  by (simp add: din_init_ok din_ok_upd din_ok_EnumCb)


section \<open>What the keyboard poll queues\<close>

definition fires :: "u32 \<Rightarrow> din \<Rightarrow> nat \<times> u32 \<times> bool \<Rightarrow> bool" where
  "fires dwNowt d e \<longleftrightarrow> (case e of (dik, vk, nav) \<Rightarrow> held (g_aNow d) dik
     \<and> (\<not> held (g_aLast d) dik \<or> (nav \<and> g_aRepeatAt d ! dik \<le> dwNowt)))"

lemma Push_frame [simp]: "g_aNow (Push vk d) = g_aNow d" "g_aLast (Push vk d) = g_aLast d"
  "g_aRepeatAt (Push vk d) = g_aRepeatAt d"
  by (simp_all add: Push_def Let_def)

lemma queue_frame [simp]: "din_queue (d\<lparr>g_aRepeatAt := r\<rparr>) = din_queue d"
  "din_queue (d\<lparr>g_aNow := k\<rparr>) = din_queue d" "din_queue (d\<lparr>g_aLast := k\<rparr>) = din_queue d"
  by (simp_all add: din_queue_def qlen_def)

lemma q_ok_frame [simp]: "q_ok (d\<lparr>g_aRepeatAt := r\<rparr>) = q_ok d"
  "q_ok (d\<lparr>g_aNow := k\<rparr>) = q_ok d" "q_ok (d\<lparr>g_aLast := k\<rparr>) = q_ok d"
  by (simp_all add: q_ok_def)

lemma key_entry_frame:
  "g_aNow (key_entry now e d) = g_aNow d" "g_aLast (key_entry now e d) = g_aLast d"
  "q_ok d \<Longrightarrow> q_ok (key_entry now e d)"
  "dik \<noteq> fst e \<Longrightarrow> g_aRepeatAt (key_entry now e d) ! dik = g_aRepeatAt d ! dik"
  by (cases e; simp add: key_entry_def Let_def q_ok_Push)+

lemma key_entry_queue:
  "q_ok d \<Longrightarrow> din_queue (key_entry now e d) =
     (if fires now d e then take 31 (din_queue d @ [fst (snd e)]) else din_queue d)"
  by (cases e) (auto simp: key_entry_def Let_def fires_def Push_queue)

lemma fires_key_entry: "fst e \<noteq> fst e' \<Longrightarrow> fires now (key_entry now e' d) e = fires now d e"
  by (cases e) (simp add: fires_def key_entry_frame)

lemma take_take_append: "take n (take n xs @ ys) = take n (xs @ ys)"
  by (cases "n \<le> length xs") (simp_all add: min_def)

lemma key_scan_queue:
  "q_ok d \<Longrightarrow> distinct (map fst es) \<Longrightarrow>
     din_queue (fold (key_entry now) es d)
       = take 31 (din_queue d @ map (fst \<circ> snd) (filter (fires now d) es))"
proof (induction es arbitrary: d)
  case Nil
  then show ?case using qlen_less [of d] by (simp add: less_Suc_eq_le)
next
  case (Cons e es)
  have f: "filter (fires now (key_entry now e d)) es = filter (fires now d) es"
  proof (intro filter_cong refl fires_key_entry)
    fix x assume "x \<in> set es"
    then show "fst x \<noteq> fst e" using Cons.prems(2) by (force simp: image_iff)
  qed
  show ?case
    using Cons.prems Cons.IH [of "key_entry now e d"] f
      take_take_append [of 31 "din_queue d @ [fst (snd e)]"]
    by (simp add: key_entry_frame key_entry_queue del: take_append)
qed

text \<open>
  C33: a keyboard poll queues exactly the mapped keys that went down since the last poll, or
  that repeat and are still down when their repeat time has come, in the order of the scan
  table; when the queue is full the newest events are dropped.
\<close>
theorem kbd_update_events:
  assumes "q_ok d" and "g_pKbd d"
  shows "din_queue (kbd_update now (Some keys) d) = take 31 (din_queue d @
    [vk. (dik, vk, nav) \<leftarrow> g_aMap, held keys dik \<and>
       (\<not> held (g_aNow d) dik \<or> (nav \<and> g_aRepeatAt d ! dik \<le> now))])"
proof -
  let ?d = "d\<lparr>g_aLast := g_aNow d, g_aNow := keys\<rparr>"
  have dis: "distinct (map fst g_aMap)" by (simp add: g_aMap_def)
  have m: "[vk. (dik, vk, nav) \<leftarrow> es, held keys dik \<and>
       (\<not> held (g_aNow d) dik \<or> (nav \<and> g_aRepeatAt d ! dik \<le> now))]
     = map (fst \<circ> snd) (filter (fires now ?d) es)" for es
    by (induction es) (auto simp: fires_def split: if_splits)
  have "q_ok ?d" using assms(1) by simp
  from key_scan_queue [OF this dis] assms(2) m [of g_aMap] show ?thesis
    by (simp add: kbd_update_def)
qed

theorem kbd_update_events_witness:
  "din_queue (kbd_update 20000 (Some ((replicate 256 0)[0x1C := 0x80, 0xC8 := 0x80])) sample_din)
     = [VK_UP, VK_RETURN]"
proof -
  have q: "q_ok sample_din" using sample_din_ok by (simp add: din_ok_def)
  have k: "g_pKbd sample_din" "din_queue sample_din = []" "g_aNow sample_din = replicate 256 0"
    by (simp_all add: sample_din_def DInInit_def EnumCb_def din_init_def JoyObjCb_def Let_def
        din_queue_def qlen_def DIDEVTYPE_KEYBOARD_def DIDEVTYPE_JOYSTICK_def DIDEVTYPE_MOUSE_def)
  show ?thesis
    using kbd_update_events [OF q k(1), of 20000 "(replicate 256 0)[0x1C := 0x80, 0xC8 := 0x80]"]
    by (simp add: k g_aMap_def held_def)
qed

text \<open>
  Taking the input back after a full-screen application queues a key press for every
  mapped key that is still held then: \<open>DInReacquire\<close> clears the snapshot of the keys that
  were down, so the next poll sees each of them go down. (The comment on the function says
  the opposite: that clearing the snapshot keeps a held key from firing a phantom press.)
\<close>
theorem DInReacquire_phantom_press:
  assumes "g_pKbd d" and "length (g_aQ d) = 32" and "(dik, vk, nav) \<in> set g_aMap" and "held keys dik"
  shows "vk \<in> set (din_queue (kbd_update now (Some keys) (DInReacquire tick d)))"
proof -
  let ?d = "(DInReacquire tick d)\<lparr>g_aLast := g_aNow (DInReacquire tick d), g_aNow := keys\<rparr>"
  have q: "q_ok ?d" and e: "din_queue ?d = []"
    using assms(2) by (simp_all add: q_ok_def DInReacquire_def din_queue_def qlen_def)
  have dis: "distinct (map fst g_aMap)" by (simp add: g_aMap_def)
  have dik: "dik < 256" using assms(3) by (auto simp: g_aMap_def)
  have f: "(dik, vk, nav) \<in> set (filter (fires now ?d) g_aMap)"
    using assms(3,4) dik by (simp add: fires_def DInReacquire_def held_def)
  have "length (filter (fires now ?d) g_aMap) \<le> 31"
    by (rule le_trans [OF length_filter_le]) (simp add: g_aMap_def)
  then have "din_queue (fold (key_entry now) g_aMap ?d)
      = map (fst \<circ> snd) (filter (fires now ?d) g_aMap)"
    using key_scan_queue [OF q dis, of now] unfolding e by simp
  moreover have "kbd_update now (Some keys) (DInReacquire tick d) = fold (key_entry now) g_aMap ?d"
    using assms(1) by (simp add: kbd_update_def DInReacquire_def)
  ultimately show ?thesis using imageI [OF f, of "fst \<circ> snd"] by simp
qed

theorem DInReacquire_phantom_press_witness:
  "VK_RETURN \<in> set (din_queue (kbd_update 20050 (in_kbd sample_poll) (DInReacquire 20020 sample_din)))"
proof -
  have "g_pKbd sample_din" "length (g_aQ sample_din) = 32"
    by (simp_all add: sample_din_def DInInit_def EnumCb_def din_init_def JoyObjCb_def Let_def
        DIDEVTYPE_KEYBOARD_def DIDEVTYPE_JOYSTICK_def DIDEVTYPE_MOUSE_def)
  moreover have "(0x1C, VK_RETURN, False) \<in> set g_aMap" by (simp add: g_aMap_def)
  ultimately show ?thesis
    unfolding sample_poll_def by (simp add: DInReacquire_phantom_press held_def)
qed

end
