(* ===== verification/Display.thy ===== *)
theory Display
  imports Desk Dcinput
begin

text \<open>
  The Display Properties dialog of \<open>shell/dcshell.c\<close>: the wallpapers found on the disc, the
  committed choice, the modal dialog with its two dropdowns, and the file on the memory
  card that keeps the choice across boots.

  The file names of one \<open>FindFirstFileW\<close> loop are an argument (no files for a failed find).
  The table has sixteen entries of 64 characters; copying a longer name into one is \<open>None\<close>.
  What the desktop shows is the last \<open>UiWallpaper\<close> event. The case-insensitive comparison
  \<open>lstrcmpiW\<close> depends on the system's locale and is an argument.
\<close>

unbundle bit_operations_syntax

section \<open>State\<close>

record 'v disp = "'v desk" +
  s_aWall :: "wtxt list"
  s_cWall :: int
  s_nCurWall :: int
  s_nCurStyle :: int
  s_bDlgOpen :: bool
  s_nDlgSel :: int
  s_nDlgWall :: int
  s_nDlgStyle :: int
  s_nDdActive :: int
  s_nDdSel :: int

definition DLG_W :: int where "DLG_W = 400"
definition DLG_H :: int where "DLG_H = 400"
definition DLG_ROW :: int where "DLG_ROW = 16"
definition WALL_MAX :: int where "WALL_MAX = 16"
definition DLG_CTL_N :: int where "DLG_CTL_N = 5"
definition DISP_MAGIC :: u32 where "DISP_MAGIC = 0x50534944"
definition DISP_VMUFILE :: string where "DISP_VMUFILE = ''DCWINDSP.BIN''"
definition GFXWALL_STRETCH :: int where "GFXWALL_STRETCH = 0"

section \<open>The wallpapers on the disc\<close>

primrec scan_files :: "wtxt list \<Rightarrow> ('v, 'm) disp_scheme \<Rightarrow> ('v, 'm) disp_scheme option" where
  "scan_files [] st = Some st"
| "scan_files (f # fs) st =
     (if s_cWall st < WALL_MAX
      then if length f \<le> 63
           then do { a \<leftarrow> upd (s_aWall st) (s_cWall st) f;
                     scan_files fs (st\<lparr>s_aWall := a, s_cWall := s_cWall st + 1\<rparr>) }
           else None
      else scan_files fs st)"

definition ScanWallpapers :: "wtxt list \<Rightarrow> ('v, 'm) disp_scheme \<Rightarrow> ('v, 'm) disp_scheme option" where
  "ScanWallpapers files st = do {
     a \<leftarrow> upd (s_aWall st) 0 (ws ''(None)'');
     scan_files files (st\<lparr>s_aWall := a, s_cWall := 1\<rparr>) }"

definition wall_dir :: wtxt where "wall_dir = bs @ ws ''CD-ROM'' @ bs @ ws ''Wallpaper'' @ bs"

definition WallPath :: "int \<Rightarrow> ('v, 'm) disp_scheme \<Rightarrow> wtxt option" where
  "WallPath idx st =
     (if idx \<le> 0 \<or> idx \<ge> s_cWall st then Some []
      else do { f \<leftarrow> at (s_aWall st) idx;
                if length (wall_dir @ f) < 260 then Some (wall_dir @ f) else None })"

definition ApplyWall :: "int \<Rightarrow> int \<Rightarrow> ('v, 'm) disp_scheme \<Rightarrow> ('v, 'm) disp_scheme option" where
  "ApplyWall idx nStyle st = do {
     szPath \<leftarrow> WallPath idx st;
     Some (st\<lparr>s_bDeskDirty := True,
       s_out := s_out st @ [UiWallpaper (if szPath \<noteq> [] then Some szPath else None) nStyle]\<rparr>) }"

section \<open>The file on the card\<close>

text \<open>\<open>DispCfg\<close>: magic, style, and 64 characters of file name, 136 bytes in all.\<close>

definition wc_bytes :: "wchar list \<Rightarrow> byte list" where
  "wc_bytes s = concat (map (\<lambda>c. [ucast c, ucast (drop_bit 8 c)]) s)"

fun wc_of :: "byte list \<Rightarrow> wchar list" where
  "wc_of (a # b # r) = (ucast a OR push_bit 8 (ucast b)) # wc_of r"
| "wc_of _ = []"

definition disp_blob :: "int \<Rightarrow> wtxt \<Rightarrow> byte list" where
  "disp_blob style f =
     le32_bytes DISP_MAGIC @ le32_bytes (word_of_int style) @ wc_bytes (f @ replicate (64 - length f) 0)"

definition PersistDisplay :: "('v, 'm) disp_scheme \<Rightarrow> ('v, 'm) disp_scheme option" where
  "PersistDisplay st = do {
     f \<leftarrow> (if s_nCurWall st > 0 \<and> s_nCurWall st < s_cWall st
           then at (s_aWall st) (s_nCurWall st) else Some []);
     if length f \<le> 63
     then Some (st\<lparr>s_vmu := snd (VmuSaveAs DISP_VMUFILE (disp_blob (s_nCurStyle st) f) (s_vmu st))\<rparr>)
     else None }"

text \<open>The first entry whose name equals the saved one; reading past an unterminated name is \<open>None\<close>.\<close>

primrec match_wall :: "(wtxt \<Rightarrow> wtxt \<Rightarrow> bool) \<Rightarrow> nat \<Rightarrow> int \<Rightarrow> wchar list \<Rightarrow> ('v, 'm) disp_scheme \<Rightarrow> int option" where
  "match_wall eqi 0 i szWall st = Some 0"
| "match_wall eqi (Suc n) i szWall st =
     (if i < s_cWall st
      then if 0 \<notin> set szWall then None
           else do { f \<leftarrow> at (s_aWall st) i;
                     if eqi f (cstr szWall) then Some i else match_wall eqi n (i + 1) szWall st }
      else Some 0)"

definition ApplyDisplayConfig ::
  "(wtxt \<Rightarrow> wtxt \<Rightarrow> bool) \<Rightarrow> wtxt list \<Rightarrow> ('v, 'm) disp_scheme \<Rightarrow> ('v, 'm) disp_scheme option" where
  "ApplyDisplayConfig eqi files st = do {
     st \<leftarrow> ScanWallpapers files st;
     let st = st\<lparr>s_nCurWall := 0, s_nCurStyle := GFXWALL_STRETCH\<rparr>;
     let (r, v) = VmuLoadAs DISP_VMUFILE 136 (s_vmu st);
     let st = st\<lparr>s_vmu := v\<rparr>;
     st \<leftarrow> (case r of
        None \<Rightarrow> Some st
      | Some c \<Rightarrow>
          if length c < 136 \<or> rd32le c 0 \<noteq> Some DISP_MAGIC then Some st
          else do {
            style \<leftarrow> rd32le c 4;
            let st = st\<lparr>s_nCurWall := 0, s_nCurStyle := sint style\<rparr>;
            let szWall = wc_of (take 128 (drop 8 c));
            if szWall ! 0 \<noteq> 0
            then do { i \<leftarrow> match_wall eqi 16 1 szWall st; Some (st\<lparr>s_nCurWall := i\<rparr>) }
            else Some st });
     ApplyWall (s_nCurWall st) (s_nCurStyle st) st }"

section \<open>The dialog\<close>

type_synonym rect = "int \<times> int \<times> int \<times> int"

definition in_rect :: "int \<Rightarrow> int \<Rightarrow> rect \<Rightarrow> bool" where
  "in_rect x y r \<longleftrightarrow> (case r of (l, t, rt, b) \<Rightarrow> l \<le> x \<and> x < rt \<and> t \<le> y \<and> y < b)"

definition DlgCtlRect :: "int \<Rightarrow> rect" where
  "DlgCtlRect idx =
     (let x0 = (SCREEN_W - DLG_W) div 2; y0 = (SCREEN_H - DLG_H) div 2
      in if idx = 0 then (x0 + 50, y0 + 232, x0 + 350, y0 + 252)
         else if idx = 1 then (x0 + 50, y0 + 274, x0 + 210, y0 + 294)
         else if idx = 2 then (x0 + 70, y0 + 350, x0 + 140, y0 + 376)
         else if idx = 3 then (x0 + 160, y0 + 350, x0 + 230, y0 + 376)
         else (x0 + 250, y0 + 350, x0 + 320, y0 + 376))"

definition DdCount :: "('v, 'm) disp_scheme \<Rightarrow> int" where
  "DdCount st = (if s_nDdActive st = 0 then s_cWall st else if s_nDdActive st = 1 then 2 else 0)"

definition s_aStyleName :: "wtxt list" where "s_aStyleName = [ws ''Stretch'', ws ''Center'']"

definition DdText :: "int \<Rightarrow> ('v, 'm) disp_scheme \<Rightarrow> wtxt option" where
  "DdText i st = (if s_nDdActive st = 0 then at (s_aWall st) i else at s_aStyleName i)"

definition DdListRect :: "('v, 'm) disp_scheme \<Rightarrow> rect" where
  "DdListRect st =
     (case DlgCtlRect (if s_nDdActive st = 1 then 1 else 0) of
        (l, t, r, b) \<Rightarrow> (l, b, r, b + DdCount st * DLG_ROW + 4))"

definition CloseDisplayDialog :: "bool \<Rightarrow> ('v, 'm) disp_scheme \<Rightarrow> ('v, 'm) disp_scheme option" where
  "CloseDisplayDialog bApply st = do {
     st \<leftarrow> (if \<not> bApply then ApplyWall (s_nCurWall st) (s_nCurStyle st) st else Some st);
     Some (st\<lparr>s_bDirty := True, s_bDeskDirty := True, s_bDlgOpen := False, s_nDdActive := - 1\<rparr>) }"

definition DlgCommit :: "('v, 'm) disp_scheme \<Rightarrow> ('v, 'm) disp_scheme option" where
  "DlgCommit st = PersistDisplay (st\<lparr>s_nCurWall := s_nDlgWall st, s_nCurStyle := s_nDlgStyle st\<rparr>)"

definition DdSelect :: "int \<Rightarrow> ('v, 'm) disp_scheme \<Rightarrow> ('v, 'm) disp_scheme option" where
  "DdSelect i st = do {
     let st = (if s_nDdActive st = 0 \<and> i \<ge> 0 \<and> i < s_cWall st then st\<lparr>s_nDlgWall := i\<rparr>
               else if s_nDdActive st = 1 \<and> i \<ge> 0 \<and> i < 2 then st\<lparr>s_nDlgStyle := i\<rparr> else st);
     let st = st\<lparr>s_nDdActive := - 1\<rparr>;
     st \<leftarrow> ApplyWall (s_nDlgWall st) (s_nDlgStyle st) st;
     Some (st\<lparr>s_bDirty := True\<rparr>) }"

definition DlgActivate :: "('v, 'm) disp_scheme \<Rightarrow> ('v, 'm) disp_scheme option" where
  "DlgActivate st = do {
     st \<leftarrow> (if s_nDlgSel st = 0 then Some (st\<lparr>s_nDdActive := 0, s_nDdSel := s_nDlgWall st\<rparr>)
           else if s_nDlgSel st = 1 then Some (st\<lparr>s_nDdActive := 1, s_nDdSel := s_nDlgStyle st\<rparr>)
           else if s_nDlgSel st = 2 then do { st \<leftarrow> DlgCommit st; CloseDisplayDialog True st }
           else if s_nDlgSel st = 3 then CloseDisplayDialog False st
           else DlgCommit st);
     Some (st\<lparr>s_bDirty := True\<rparr>) }"

definition OpenDisplayDialog :: "wtxt list \<Rightarrow> ('v, 'm) disp_scheme \<Rightarrow> ('v, 'm) disp_scheme option" where
  "OpenDisplayDialog files st = do {
     st \<leftarrow> ScanWallpapers files st;
     Some (st\<lparr>s_bDirty := True, s_bDlgOpen := True, s_nDlgSel := 0,
       s_nDlgWall := (if s_nCurWall st \<ge> 0 \<and> s_nCurWall st < s_cWall st then s_nCurWall st else 0),
       s_nDlgStyle := s_nCurStyle st, s_nDdActive := - 1\<rparr>) }"

definition DlgOnKey :: "u32 \<Rightarrow> ('v, 'm) disp_scheme \<Rightarrow> ('v, 'm) disp_scheme option" where
  "DlgOnKey wParam st = do {
     st \<leftarrow> (if s_nDdActive st \<ge> 0
       then let n = DdCount st
         in if wParam = VK_UP \<and> s_nDdSel st > 0 then Some (st\<lparr>s_nDdSel := s_nDdSel st - 1\<rparr>)
            else if wParam = VK_DOWN \<and> s_nDdSel st < n - 1 then Some (st\<lparr>s_nDdSel := s_nDdSel st + 1\<rparr>)
            else if wParam = VK_RETURN then DdSelect (s_nDdSel st) st
            else if wParam = VK_ESCAPE then Some (st\<lparr>s_nDdActive := - 1\<rparr>)
            else Some st
       else if wParam = VK_UP \<and> s_nDlgSel st > 0 then Some (st\<lparr>s_nDlgSel := s_nDlgSel st - 1\<rparr>)
       else if wParam = VK_DOWN \<and> s_nDlgSel st < DLG_CTL_N - 1 then Some (st\<lparr>s_nDlgSel := s_nDlgSel st + 1\<rparr>)
       else if wParam = VK_RETURN then DlgActivate st
       else if wParam = VK_ESCAPE then CloseDisplayDialog False st
       else Some st);
     Some (st\<lparr>s_bDirty := True\<rparr>) }"

definition DlgClick :: "int \<Rightarrow> int \<Rightarrow> ('v, 'm) disp_scheme \<Rightarrow> ('v, 'm) disp_scheme option" where
  "DlgClick x y st =
     (if s_nDdActive st \<ge> 0
      then case DdListRect st of (l, t, r, b) \<Rightarrow> do {
        st \<leftarrow> (if x \<ge> l \<and> x < r \<and> y \<ge> t + 2 \<and> y < t + 2 + DdCount st * DLG_ROW
              then DdSelect ((y - (t + 2)) div DLG_ROW) st
              else Some (st\<lparr>s_nDdActive := - 1\<rparr>));
        Some (st\<lparr>s_bDirty := True\<rparr>) }
      else case List.find (\<lambda>i. in_rect x y (DlgCtlRect i)) [0, 1, 2, 3, 4] of
        Some i \<Rightarrow> DlgActivate (st\<lparr>s_nDlgSel := i\<rparr>)
      | None \<Rightarrow> Some (st\<lparr>s_bDirty := True\<rparr>))"

section \<open>Well-formed dialog states\<close>

definition walls_ok :: "('v, 'm) disp_scheme \<Rightarrow> bool" where
  "walls_ok st \<longleftrightarrow> length (s_aWall st) = 16 \<and> 1 \<le> s_cWall st \<and> s_cWall st \<le> 16
     \<and> (\<forall>w \<in> set (s_aWall st). length w \<le> 63)"

definition disp_ok :: "('v, 'm) disp_scheme \<Rightarrow> bool" where
  "disp_ok st \<longleftrightarrow> walls_ok st \<and> 0 \<le> s_nDlgSel st \<and> s_nDlgSel st < 5
     \<and> (s_nDdActive st = - 1 \<or> s_nDdActive st = 0 \<or> s_nDdActive st = 1)
     \<and> (s_bDlgOpen st \<longrightarrow> 0 \<le> s_nDlgWall st \<and> s_nDlgWall st < s_cWall st)"

text \<open>What a choice of wallpaper and style looks like, and what the desktop shows.\<close>

fun is_wall :: "uievent \<Rightarrow> bool" where
  "is_wall (UiWallpaper p s) = True"
| "is_wall _ = False"

definition wall_ev :: "('v, 'm) disp_scheme \<Rightarrow> int \<Rightarrow> int \<Rightarrow> uievent" where
  "wall_ev st i style =
     UiWallpaper (if 0 < i \<and> i < s_cWall st then Some (wall_dir @ s_aWall st ! nat i) else None) style"

definition shown :: "('v, 'm) disp_scheme \<Rightarrow> uievent option" where
  "shown st = (if filter is_wall (s_out st) = [] then None else Some (last (filter is_wall (s_out st))))"

definition in_sync :: "('v, 'm) disp_scheme \<Rightarrow> bool" where
  "in_sync st \<longleftrightarrow> shown st = Some (if s_bDlgOpen st then wall_ev st (s_nDlgWall st) (s_nDlgStyle st)
     else wall_ev st (s_nCurWall st) (s_nCurStyle st))"

lemma shown_snoc [simp]:
  "is_wall e \<Longrightarrow> shown (st\<lparr>s_out := s_out st @ [e]\<rparr>) = Some e"
  by (simp add: shown_def)

lemma shown_frame:
  "s_out st' = s_out st \<Longrightarrow> shown st' = shown st"
  by (simp add: shown_def)

lemma wall_ev_frame:
  "s_cWall st' = s_cWall st \<Longrightarrow> s_aWall st' = s_aWall st \<Longrightarrow> wall_ev st' i style = wall_ev st i style"
  by (simp add: wall_ev_def)

lemma length_wall_dir: "length wall_dir = 18 \<and> wall_dir \<noteq> []"
  by (simp add: wall_dir_def bs_def ws_def)

lemma WallPath_Some:
  assumes "walls_ok st"
  shows "WallPath i st = Some (if 0 < i \<and> i < s_cWall st then wall_dir @ s_aWall st ! nat i else [])"
proof (cases "0 < i \<and> i < s_cWall st")
  case True
  with assms have "nat i < length (s_aWall st)" by (auto simp: walls_ok_def)
  then have "length (s_aWall st ! nat i) \<le> 63" using assms by (auto simp: walls_ok_def)
  with True assms length_wall_dir show ?thesis by (auto simp: WallPath_def walls_ok_def)
qed (auto simp: WallPath_def)

lemma ApplyWall_Some:
  "walls_ok st \<Longrightarrow> ApplyWall i style st
     = Some (st\<lparr>s_bDeskDirty := True, s_out := s_out st @ [wall_ev st i style]\<rparr>)"
  using length_wall_dir by (auto simp: ApplyWall_def WallPath_Some wall_ev_def)

lemma is_wall_ev [simp]: "is_wall (wall_ev st i style)"
  by (simp add: wall_ev_def)

text \<open>Updates the dialog's parts do not look at.\<close>

lemma disp_frames [simp]:
  "walls_ok (st\<lparr>s_bDirty := b\<rparr>) = walls_ok st" "walls_ok (st\<lparr>s_bDeskDirty := b\<rparr>) = walls_ok st"
  "walls_ok (st\<lparr>s_vmu := v\<rparr>) = walls_ok st" "walls_ok (st\<lparr>s_out := es\<rparr>) = walls_ok st"
  "walls_ok (st\<lparr>s_nCurWall := i\<rparr>) = walls_ok st" "walls_ok (st\<lparr>s_nCurStyle := i\<rparr>) = walls_ok st"
  "walls_ok (st\<lparr>s_bDlgOpen := b\<rparr>) = walls_ok st" "walls_ok (st\<lparr>s_nDlgSel := i\<rparr>) = walls_ok st"
  "walls_ok (st\<lparr>s_nDlgWall := i\<rparr>) = walls_ok st" "walls_ok (st\<lparr>s_nDlgStyle := i\<rparr>) = walls_ok st"
  "walls_ok (st\<lparr>s_nDdActive := i\<rparr>) = walls_ok st" "walls_ok (st\<lparr>s_nDdSel := i\<rparr>) = walls_ok st"
  by (simp_all add: walls_ok_def)

lemma disp_ok_walls: "disp_ok st \<Longrightarrow> walls_ok st"
  by (simp add: disp_ok_def)

lemma wall_ev_frames [simp]:
  "wall_ev (st\<lparr>s_bDirty := b\<rparr>) = wall_ev st" "wall_ev (st\<lparr>s_nDdSel := i\<rparr>) = wall_ev st"
  "wall_ev (st\<lparr>s_nDdActive := i\<rparr>) = wall_ev st" "wall_ev (st\<lparr>s_nDlgSel := i\<rparr>) = wall_ev st"
  by (simp_all add: wall_ev_def fun_eq_iff)

lemma in_sync_frames [simp]:
  "in_sync (st\<lparr>s_bDirty := b\<rparr>) = in_sync st" "in_sync (st\<lparr>s_nDdSel := i\<rparr>) = in_sync st"
  "in_sync (st\<lparr>s_nDdActive := i\<rparr>) = in_sync st" "in_sync (st\<lparr>s_nDlgSel := i\<rparr>) = in_sync st"
  by (simp_all add: in_sync_def shown_def)

lemma disp_ok_frames [simp]:
  "disp_ok (st\<lparr>s_bDirty := b\<rparr>) = disp_ok st" "disp_ok (st\<lparr>s_nDdSel := i\<rparr>) = disp_ok st"
  by (simp_all add: disp_ok_def)

text \<open>The invariant of the dialog; with \<open>b\<close> also that the desktop shows the choice.\<close>

definition dlg_good :: "bool \<Rightarrow> ('v, 'm) disp_scheme \<Rightarrow> bool" where
  "dlg_good b st \<longleftrightarrow> disp_ok st \<and> (b \<longrightarrow> in_sync st)"

text \<open>The desktop's part of the state, which the dialog leaves alone.\<close>

definition same_desk :: "('v, 'm) disp_scheme \<Rightarrow> ('v, 'm) disp_scheme \<Rightarrow> bool" where
  "same_desk st st' \<longleftrightarrow> s_aDesk st' = s_aDesk st \<and> s_anDeskUser st' = s_anDeskUser st
     \<and> s_cDesk st' = s_cDesk st \<and> s_nDeskSel st' = s_nDeskSel st \<and> s_aDeskPos st' = s_aDeskPos st
     \<and> s_nDeskRows st' = s_nDeskRows st \<and> disp.more st' = disp.more st
     \<and> s_cWall st' = s_cWall st \<and> s_aWall st' = s_aWall st"

lemma same_desk_refl [simp]: "same_desk st st" by (simp add: same_desk_def)

lemma same_desk_trans: "same_desk a b \<Longrightarrow> same_desk b c \<Longrightarrow> same_desk a c"
  by (simp add: same_desk_def)

lemma PersistDisplay_Some:
  assumes "walls_ok st"
  shows "PersistDisplay st = Some (st\<lparr>s_vmu := snd (VmuSaveAs DISP_VMUFILE (disp_blob (s_nCurStyle st)
      (if 0 < s_nCurWall st \<and> s_nCurWall st < s_cWall st then s_aWall st ! nat (s_nCurWall st) else [])) (s_vmu st))\<rparr>)"
proof (cases "0 < s_nCurWall st \<and> s_nCurWall st < s_cWall st")
  case True
  with assms have "nat (s_nCurWall st) < length (s_aWall st)" by (auto simp: walls_ok_def)
  then have "length (s_aWall st ! nat (s_nCurWall st)) \<le> 63" using assms by (auto simp: walls_ok_def)
  with True assms show ?thesis by (auto simp: PersistDisplay_def walls_ok_def)
qed (auto simp: PersistDisplay_def)

lemma CloseDisplayDialog_good:
  "disp_ok st \<Longrightarrow> (if c then b \<longrightarrow> shown st = Some (wall_ev st (s_nCurWall st) (s_nCurStyle st)) else True)
    \<Longrightarrow> \<exists>st'. CloseDisplayDialog c st = Some st' \<and> dlg_good b st' \<and> \<not> s_bDlgOpen st' \<and> same_desk st st'
        \<and> s_nCurWall st' = s_nCurWall st \<and> s_nCurStyle st' = s_nCurStyle st"
  by (cases c)
    (auto simp: CloseDisplayDialog_def ApplyWall_Some disp_ok_walls dlg_good_def disp_ok_def walls_ok_def
      in_sync_def shown_def wall_ev_def same_desk_def)

lemma DlgCommit_good:
  "dlg_good b st \<Longrightarrow> s_bDlgOpen st \<Longrightarrow> \<exists>st'. DlgCommit st = Some st' \<and> dlg_good b st' \<and> s_bDlgOpen st'
     \<and> (b \<longrightarrow> shown st' = Some (wall_ev st' (s_nCurWall st') (s_nCurStyle st'))) \<and> same_desk st st'"
  by (auto simp: DlgCommit_def PersistDisplay_Some disp_ok_walls dlg_good_def disp_ok_def walls_ok_def
      in_sync_def shown_def wall_ev_def same_desk_def)

lemma DdSelect_good:
  assumes "disp_ok st" and "s_bDlgOpen st"
  shows "\<exists>st'. DdSelect i st = Some st' \<and> dlg_good b st' \<and> s_bDlgOpen st' \<and> same_desk st st'
     \<and> s_nCurWall st' = s_nCurWall st \<and> s_nCurStyle st' = s_nCurStyle st"
proof -
  let ?s = "(if s_nDdActive st = 0 \<and> i \<ge> 0 \<and> i < s_cWall st then st\<lparr>s_nDlgWall := i\<rparr>
       else if s_nDdActive st = 1 \<and> i \<ge> 0 \<and> i < 2 then st\<lparr>s_nDlgStyle := i\<rparr> else st)\<lparr>s_nDdActive := - 1\<rparr>"
  have ok: "disp_ok ?s" and op: "s_bDlgOpen ?s" and sd: "same_desk st ?s"
    "s_nCurWall ?s = s_nCurWall st" "s_nCurStyle ?s = s_nCurStyle st"
    using assms by (auto simp: disp_ok_def walls_ok_def same_desk_def)
  let ?t = "?s\<lparr>s_bDirty := True, s_bDeskDirty := True, s_out := s_out ?s @ [wall_ev ?s (s_nDlgWall ?s) (s_nDlgStyle ?s)]\<rparr>"
  have "DdSelect i st = Some ?t"
    using ApplyWall_Some [OF disp_ok_walls [OF ok]] by (simp add: DdSelect_def Let_def)
  moreover have "dlg_good b ?t"
    using ok op by (simp add: dlg_good_def in_sync_def disp_ok_def walls_ok_def shown_def wall_ev_def)
  ultimately show ?thesis using op sd by (auto simp: same_desk_def)
qed

lemma dirty_good [simp]:
  "dlg_good b (s\<lparr>s_bDirty := True\<rparr>) = dlg_good b s" "same_desk st (s\<lparr>s_bDirty := True\<rparr>) = same_desk st s"
  by (simp_all add: dlg_good_def same_desk_def)

lemma DlgActivate_good:
  assumes "dlg_good b st" and "s_bDlgOpen st"
  shows "\<exists>st'. DlgActivate st = Some st' \<and> dlg_good b st' \<and> same_desk st st'"
proof -
  have ok: "disp_ok st" using assms(1) by (simp add: dlg_good_def)
  consider "s_nDlgSel st = 0 \<or> s_nDlgSel st = 1" | "s_nDlgSel st = 2" | "s_nDlgSel st = 3"
    | "\<not> (s_nDlgSel st = 0 \<or> s_nDlgSel st = 1)" "s_nDlgSel st \<noteq> 2" "s_nDlgSel st \<noteq> 3" by blast
  then show ?thesis
  proof cases
    case 1
    have "dlg_good b (st\<lparr>s_nDdActive := k, s_nDdSel := n\<rparr>)" if "k = 0 \<or> k = 1" for k n
      using assms that by (auto simp: dlg_good_def disp_ok_def)
    with 1 show ?thesis by (auto simp: DlgActivate_def same_desk_def)
  next
    case 2
    obtain s1 where c: "DlgCommit st = Some s1" and g: "dlg_good b s1"
      and sh: "b \<longrightarrow> shown s1 = Some (wall_ev s1 (s_nCurWall s1) (s_nCurStyle s1))" and d: "same_desk st s1"
      using DlgCommit_good [OF assms] by blast
    obtain s2 where "CloseDisplayDialog True s1 = Some s2" "dlg_good b s2" "same_desk s1 s2"
      using CloseDisplayDialog_good [of s1 True b] g sh by (auto simp: dlg_good_def)
    with 2 c d show ?thesis by (auto simp: DlgActivate_def intro: same_desk_trans)
  next
    case 3
    with CloseDisplayDialog_good [of st False b] ok show ?thesis by (auto simp: DlgActivate_def)
  next
    case 4
    with DlgCommit_good [OF assms] show ?thesis by (auto simp: DlgActivate_def)
  qed
qed

datatype dlgev = DKey u32 | DClick int int

primrec dlg_step :: "dlgev \<Rightarrow> ('v, 'm) disp_scheme \<Rightarrow> ('v, 'm) disp_scheme option" where
  "dlg_step (DKey k) st = DlgOnKey k st"
| "dlg_step (DClick x y) st = DlgClick x y st"

text \<open>Keys and clicks reach the dialog while it is open.\<close>

primrec dlg_run :: "dlgev list \<Rightarrow> ('v, 'm) disp_scheme \<Rightarrow> ('v, 'm) disp_scheme option" where
  "dlg_run [] st = Some st"
| "dlg_run (e # es) st = (if s_bDlgOpen st then do { st \<leftarrow> dlg_step e st; dlg_run es st } else Some st)"

lemma dd_good:
  assumes "dlg_good b st"
  shows "dlg_good b (st\<lparr>s_nDdSel := n\<rparr>)" "dlg_good b (st\<lparr>s_nDdActive := - 1\<rparr>)"
    "0 \<le> n \<Longrightarrow> n < 5 \<Longrightarrow> dlg_good b (st\<lparr>s_nDlgSel := n\<rparr>)"
    "same_desk st (st\<lparr>s_nDdSel := n\<rparr>)" "same_desk st (st\<lparr>s_nDdActive := - 1\<rparr>)"
    "same_desk st (st\<lparr>s_nDlgSel := n\<rparr>)"
  using assms by (simp_all add: dlg_good_def disp_ok_def same_desk_def)

lemma DlgOnKey_good:
  assumes "dlg_good b st" and "s_bDlgOpen st"
  shows "\<exists>st'. DlgOnKey k st = Some st' \<and> dlg_good b st' \<and> same_desk st st'"
proof -
  have ok: "disp_ok st" and sel: "0 \<le> s_nDlgSel st" "s_nDlgSel st < 5"
    using assms(1) by (simp_all add: dlg_good_def disp_ok_def)
  have vk: "VK_UP \<noteq> VK_DOWN" "VK_UP \<noteq> VK_RETURN" "VK_UP \<noteq> VK_ESCAPE" "VK_DOWN \<noteq> VK_RETURN"
    "VK_DOWN \<noteq> VK_ESCAPE" "VK_RETURN \<noteq> VK_ESCAPE"
    by (simp_all add: VK_UP_def VK_DOWN_def VK_RETURN_def VK_ESCAPE_def)
  note g = dd_good [OF assms(1)]
  from DdSelect_good [OF ok assms(2), of "s_nDdSel st" b] DlgActivate_good [OF assms]
    CloseDisplayDialog_good [OF ok, of False b]
  obtain s1 s2 s3 where "DdSelect (s_nDdSel st) st = Some s1" "dlg_good b s1" "same_desk st s1"
    and "DlgActivate st = Some s2" "dlg_good b s2" "same_desk st s2"
    and "CloseDisplayDialog False st = Some s3" "dlg_good b s3" "same_desk st s3" by auto
  with g sel assms(1) show ?thesis
    by (cases "k = VK_UP"; cases "k = VK_DOWN"; cases "k = VK_RETURN"; cases "k = VK_ESCAPE";
      simp add: DlgOnKey_def DLG_CTL_N_def Let_def vk)
qed

lemma find_ctl: "List.find P [0, 1, 2, 3, 4 :: int] = Some i \<Longrightarrow> 0 \<le> i \<and> i < 5"
  by (auto split: if_splits)

lemma DlgClick_good:
  assumes "dlg_good b st" and "s_bDlgOpen st"
  shows "\<exists>st'. DlgClick x y st = Some st' \<and> dlg_good b st' \<and> same_desk st st'"
proof -
  have ok: "disp_ok st" using assms(1) by (simp add: dlg_good_def)
  obtain l t r bt where rect: "DdListRect st = (l, t, r, bt)" by (metis prod_cases4)
  obtain s1 where dd: "DdSelect ((y - (t + 2)) div DLG_ROW) st = Some s1" "dlg_good b s1" "same_desk st s1"
    using DdSelect_good [OF ok assms(2), of "(y - (t + 2)) div DLG_ROW" b] by auto
  show ?thesis
  proof (cases "s_nDdActive st \<ge> 0")
    case True
    with dd dd_good [OF assms(1)] show ?thesis by (simp add: DlgClick_def rect)
  next
    case False
    show ?thesis
    proof (cases "List.find (\<lambda>i. in_rect x y (DlgCtlRect i)) [0, 1, 2, 3, 4]")
      case None
      with False assms(1) show ?thesis by (auto simp: DlgClick_def simp del: List.find.simps)
    next
      case (Some i)
      with find_ctl have i: "0 \<le> i" "i < 5" by blast+
      let ?s = "st\<lparr>s_nDlgSel := i\<rparr>"
      have "dlg_good b ?s" "s_bDlgOpen ?s" using dd_good(3) [OF assms(1) i] assms(2) by simp_all
      from DlgActivate_good [OF this] dd_good(6) [OF assms(1)] False Some show ?thesis
        by (auto simp: DlgClick_def simp del: List.find.simps intro: same_desk_trans)
    qed
  qed
qed

lemma dlg_run_good:
  "dlg_good b st \<Longrightarrow> \<exists>st'. dlg_run es st = Some st' \<and> dlg_good b st' \<and> same_desk st st'"
proof (induction es arbitrary: st)
  case (Cons e es)
  show ?case
  proof (cases "s_bDlgOpen st")
    case True
    obtain s1 where s1: "dlg_step e st = Some s1" "dlg_good b s1" "same_desk st s1"
      using DlgOnKey_good [OF Cons.prems True] DlgClick_good [OF Cons.prems True] by (cases e; simp; blast)
    from Cons.IH [OF s1(2)] s1 True show ?thesis by (auto intro: same_desk_trans)
  qed (simp add: Cons.prems)
qed simp

lemma dlg_run_append:
  "dlg_run (es @ fs) st = (case dlg_run es st of None \<Rightarrow> None | Some st' \<Rightarrow> dlg_run fs st')"
proof (induction es arbitrary: st)
  case (Cons e es)
  show ?case
  proof (cases "s_bDlgOpen st")
    case True
    then show ?thesis using Cons.IH by (cases "dlg_step e st") simp_all
  next
    case False
    then show ?thesis by (cases fs) simp_all
  qed
qed simp

text \<open>Two presses of Escape leave the dialog: one for an open dropdown, one for the dialog.\<close>

lemma escape_twice:
  assumes "dlg_good b st"
  shows "\<exists>st'. dlg_run [DKey VK_ESCAPE, DKey VK_ESCAPE] st = Some st' \<and> dlg_good b st' \<and> \<not> s_bDlgOpen st'
     \<and> s_nCurWall st' = s_nCurWall st \<and> s_nCurStyle st' = s_nCurStyle st \<and> same_desk st st'"
proof -
  have vk: "VK_UP \<noteq> VK_ESCAPE" "VK_DOWN \<noteq> VK_ESCAPE" "VK_RETURN \<noteq> VK_ESCAPE"
    by (simp_all add: VK_UP_def VK_DOWN_def VK_RETURN_def VK_ESCAPE_def)
  note vk = vk vk [symmetric]
  have close: "\<exists>st'. DlgOnKey VK_ESCAPE s = Some st' \<and> dlg_good b st' \<and> \<not> s_bDlgOpen st'
      \<and> s_nCurWall st' = s_nCurWall s \<and> s_nCurStyle st' = s_nCurStyle s \<and> same_desk s st'"
    if g: "dlg_good b s" and "s_nDdActive s < 0" for s :: "('a, 'b) disp_scheme"
  proof -
    have "disp_ok s" using g by (simp add: dlg_good_def)
    from CloseDisplayDialog_good [OF this, of False b] that(2) show ?thesis
      by (auto simp: DlgOnKey_def vk)
  qed
  show ?thesis
  proof (cases "s_bDlgOpen st")
    case False
    with assms show ?thesis by simp
  next
    case op: True
    show ?thesis
    proof (cases "s_nDdActive st < 0")
      case True
      from close [OF assms True] op show ?thesis by auto
    next
      case False
      let ?s = "st\<lparr>s_nDdActive := - 1, s_bDirty := True\<rparr>"
      have e: "DlgOnKey VK_ESCAPE st = Some (st\<lparr>s_nDdActive := - 1\<rparr>\<lparr>s_bDirty := True\<rparr>)"
        using False by (simp add: DlgOnKey_def vk Let_def)
      have "dlg_good b (st\<lparr>s_nDdActive := - 1\<rparr>\<lparr>s_bDirty := True\<rparr>)" using dd_good(2) [OF assms] by simp
      from close [OF this] obtain s2 where "DlgOnKey VK_ESCAPE (st\<lparr>s_nDdActive := - 1\<rparr>\<lparr>s_bDirty := True\<rparr>) = Some s2"
        "dlg_good b s2" "\<not> s_bDlgOpen s2" "s_nCurWall s2 = s_nCurWall st" "s_nCurStyle s2 = s_nCurStyle st"
        "same_desk st s2" by (auto simp: same_desk_def)
      with e op show ?thesis by simp
    qed
  qed
qed

section \<open>Opening the dialog\<close>

lemma scan_files_same_desk:
  "scan_files fs st = Some st' \<Longrightarrow> s_aDesk st' = s_aDesk st \<and> s_anDeskUser st' = s_anDeskUser st
     \<and> s_cDesk st' = s_cDesk st \<and> s_nDeskSel st' = s_nDeskSel st \<and> s_aDeskPos st' = s_aDeskPos st
     \<and> s_nDeskRows st' = s_nDeskRows st \<and> disp.more st' = disp.more st \<and> s_out st' = s_out st
     \<and> s_vmu st' = s_vmu st \<and> s_nCurWall st' = s_nCurWall st \<and> s_nCurStyle st' = s_nCurStyle st
     \<and> s_bDlgOpen st' = s_bDlgOpen st"
proof (induction fs arbitrary: st)
  case (Cons f fs)
  show ?case
  proof (cases "s_cWall st < WALL_MAX")
    case True
    with Cons.prems obtain a where "scan_files fs (st\<lparr>s_aWall := a, s_cWall := s_cWall st + 1\<rparr>) = Some st'"
      by (auto simp: bind_eq_Some_conv split: if_splits)
    from Cons.IH [OF this] show ?thesis by simp
  next
    case False
    with Cons show ?thesis by simp
  qed
qed simp

lemma all_list_update: "\<forall>w \<in> set xs. P w \<Longrightarrow> P v \<Longrightarrow> \<forall>w \<in> set (xs[i := v]). P w"
  using set_update_subset_insert [of xs i v] by blast

lemma scan_files_walls:
  "scan_files fs st = Some st' \<Longrightarrow> walls_ok st \<Longrightarrow> walls_ok st' \<and> s_cWall st \<le> s_cWall st'
     \<and> s_cWall st' = min 16 (s_cWall st + int (length fs))"
proof (induction fs arbitrary: st)
  case (Cons f fs)
  show ?case
  proof (cases "s_cWall st < WALL_MAX")
    case True
    with Cons.prems(1) obtain a where l: "length f \<le> 63" and a: "upd (s_aWall st) (s_cWall st) f = Some a"
      and r: "scan_files fs (st\<lparr>s_aWall := a, s_cWall := s_cWall st + 1\<rparr>) = Some st'"
      by (auto simp: bind_eq_Some_conv split: if_splits)
    have "walls_ok (st\<lparr>s_aWall := a, s_cWall := s_cWall st + 1\<rparr>)"
      using Cons.prems(2) l a True all_list_update [of "s_aWall st" "\<lambda>w. length w \<le> 63" f "nat (s_cWall st)"]
      by (simp add: walls_ok_def upd_Some WALL_MAX_def)
    from Cons.IH [OF r this] True show ?thesis by (simp add: WALL_MAX_def)
  next
    case False
    with Cons show ?thesis by (force simp: walls_ok_def WALL_MAX_def)
  qed
qed (simp add: walls_ok_def)

lemma ScanWallpapers_walls:
  assumes "ScanWallpapers files st = Some st'" and "length (s_aWall st) = 16"
    and "\<forall>w \<in> set (s_aWall st). length w \<le> 63"
  shows "walls_ok st' \<and> s_cWall st' = min 16 (1 + int (length files))"
proof -
  from assms(1) obtain a where a: "upd (s_aWall st) 0 (ws ''(None)'') = Some a"
    and r: "scan_files files (st\<lparr>s_aWall := a, s_cWall := 1\<rparr>) = Some st'"
    by (auto simp: ScanWallpapers_def bind_eq_Some_conv)
  have "walls_ok (st\<lparr>s_aWall := a, s_cWall := 1\<rparr>)"
    using a assms(2,3) all_list_update [of "s_aWall st" "\<lambda>w. length w \<le> 63" "ws ''(None)''" 0]
    by (auto simp: walls_ok_def upd_Some ws_def)
  from scan_files_walls [OF r this] show ?thesis by simp
qed

lemma ScanWallpapers_same_desk:
  "ScanWallpapers files st = Some st' \<Longrightarrow> s_aDesk st' = s_aDesk st \<and> s_anDeskUser st' = s_anDeskUser st
     \<and> s_cDesk st' = s_cDesk st \<and> s_nDeskSel st' = s_nDeskSel st \<and> s_aDeskPos st' = s_aDeskPos st
     \<and> s_nDeskRows st' = s_nDeskRows st \<and> disp.more st' = disp.more st \<and> s_out st' = s_out st
     \<and> s_vmu st' = s_vmu st \<and> s_nCurWall st' = s_nCurWall st \<and> s_nCurStyle st' = s_nCurStyle st
     \<and> s_bDlgOpen st' = s_bDlgOpen st"
  by (auto simp: ScanWallpapers_def bind_eq_Some_conv dest!: scan_files_same_desk)

text \<open>Every disc whose names fit the table can be scanned.\<close>

lemma scan_files_total:
  "\<forall>f \<in> set fs. length f \<le> 63 \<Longrightarrow> length (s_aWall st) = 16 \<Longrightarrow> 0 \<le> s_cWall st
    \<Longrightarrow> \<exists>st'. scan_files fs st = Some st'"
  by (induction fs arbitrary: st) (auto simp: WALL_MAX_def)

lemma ScanWallpapers_total:
  "\<forall>f \<in> set files. length f \<le> 63 \<Longrightarrow> length (s_aWall st) = 16 \<Longrightarrow> \<exists>st'. ScanWallpapers files st = Some st'"
  by (simp add: ScanWallpapers_def scan_files_total)

lemma OpenDisplayDialog_good:
  assumes "disp_ok st" and "in_sync st" and "\<not> s_bDlgOpen st"
    and sc: "ScanWallpapers files st = Some s1" and "s_cWall s1 = s_cWall st" and "s_aWall s1 = s_aWall st"
  shows "\<exists>s2. OpenDisplayDialog files st = Some s2 \<and> dlg_good True s2 \<and> s_bDlgOpen s2"
proof -
  note k = ScanWallpapers_same_desk [OF sc]
  have w: "walls_ok s1" "1 \<le> s_cWall st"
    using ScanWallpapers_walls [OF sc] assms(1) by (auto simp: disp_ok_def walls_ok_def)
  have sh: "shown s1 = Some (wall_ev s1 (s_nCurWall s1) (s_nCurStyle s1))"
    using k assms(2,3) shown_frame [of s1 st] wall_ev_frame [OF assms(5,6)] by (simp add: in_sync_def)
  let ?s2 = "s1\<lparr>s_bDirty := True, s_bDlgOpen := True, s_nDlgSel := 0,
       s_nDlgWall := (if s_nCurWall s1 \<ge> 0 \<and> s_nCurWall s1 < s_cWall s1 then s_nCurWall s1 else 0),
       s_nDlgStyle := s_nCurStyle s1, s_nDdActive := - 1\<rparr>"
  have "OpenDisplayDialog files st = Some ?s2" using sc by (simp add: OpenDisplayDialog_def)
  moreover have "disp_ok ?s2" using w assms(5) by (simp add: disp_ok_def walls_ok_def)
  moreover have "shown ?s2 = shown s1" by (rule shown_frame) simp
  moreover have "wall_ev ?s2 = wall_ev s1" by (intro ext wall_ev_frame) simp_all
  moreover have "wall_ev s1 (s_nCurWall s1) i = wall_ev s1 0 i"
    if "\<not> (0 \<le> s_nCurWall s1 \<and> s_nCurWall s1 < s_cWall s1)" for i
    using that by (auto simp: wall_ev_def)
  ultimately have "OpenDisplayDialog files st = Some ?s2" "disp_ok ?s2" "in_sync ?s2"
    using sh by (auto simp: in_sync_def)
  then show ?thesis by (simp add: dlg_good_def)
qed

text \<open>
  C17: what the dialog shows is what it says. Opened over the wallpapers the desktop already
  knows, it takes any sequence of keys and clicks without leaving its arrays; while it is
  open the desktop shows the choice made in it, once it is closed the committed choice;
  and two presses of Escape always close it, back to what is committed.
\<close>
theorem Display_dialog_shows:
  assumes "disp_ok st" and "in_sync st" and "\<not> s_bDlgOpen st"
    and "ScanWallpapers files st = Some s1" and "s_cWall s1 = s_cWall st" and "s_aWall s1 = s_aWall st"
  shows "\<exists>s2 s3 s4. OpenDisplayDialog files st = Some s2 \<and> dlg_run evs s2 = Some s3
    \<and> disp_ok s3
    \<and> shown s3 = Some (if s_bDlgOpen s3 then wall_ev s3 (s_nDlgWall s3) (s_nDlgStyle s3)
                       else wall_ev s3 (s_nCurWall s3) (s_nCurStyle s3))
    \<and> dlg_run (evs @ [DKey VK_ESCAPE, DKey VK_ESCAPE]) s2 = Some s4 \<and> \<not> s_bDlgOpen s4
    \<and> shown s4 = Some (wall_ev s4 (s_nCurWall s3) (s_nCurStyle s3))"
proof -
  obtain s2 where s2: "OpenDisplayDialog files st = Some s2" "dlg_good True s2"
    using OpenDisplayDialog_good [OF assms] by blast
  obtain s3 where s3: "dlg_run evs s2 = Some s3" "dlg_good True s3" using dlg_run_good [OF s2(2)] by blast
  obtain s4 where s4: "dlg_run [DKey VK_ESCAPE, DKey VK_ESCAPE] s3 = Some s4" "dlg_good True s4" "\<not> s_bDlgOpen s4"
    "s_nCurWall s4 = s_nCurWall s3" "s_nCurStyle s4 = s_nCurStyle s3"
    using escape_twice [OF s3(2)] by blast
  from s2 s3 s4 show ?thesis
    by (auto simp: dlg_run_append dlg_good_def in_sync_def simp del: dlg_run.simps)
qed

section \<open>The choice across boots\<close>

lemma length_wc_bytes [simp]: "length (wc_bytes s) = 2 * length s"
  by (induction s) (simp_all add: wc_bytes_def)

lemma wc_of_bytes [simp]: "wc_of (wc_bytes s) = s"
proof (induction s)
  case (Cons c s)
  then show ?case using short_bytes [of c] by (simp add: wc_bytes_def)
qed (simp add: wc_bytes_def)

lemma length_disp_blob: "length f \<le> 64 \<Longrightarrow> length (disp_blob style f) = 136"
  by (simp add: disp_blob_def)

lemma disp_blob_parts:
  assumes "length f \<le> 64"
  shows "rd32le (disp_blob style f) 0 = Some DISP_MAGIC" "rd32le (disp_blob style f) 4 = Some (word_of_int style)"
    "wc_of (take 128 (drop 8 (disp_blob style f))) = f @ replicate (64 - length f) 0"
  using assms by (simp_all add: disp_blob_def rd32le_in_range)

lemma VmuLoadAs_take:
  "m \<le> 512 \<Longrightarrow> fst (VmuLoadAs n m s) = map_option (take m) (vmu_get n s)"
  by (auto simp: vmu_get_def VmuLoadAs_def option.map_comp comp_def min_def
      split: prod.splits comres.splits bool.splits intro!: option.map_cong)

lemma match_wall_first:
  assumes "walls_ok st" and "1 \<le> k" and "k < s_cWall st" and "0 \<in> set z" and "cstr z = s_aWall st ! nat k"
    and "eqi (s_aWall st ! nat k) (s_aWall st ! nat k)"
    and "\<forall>j. 1 \<le> j \<and> j < k \<longrightarrow> \<not> eqi (s_aWall st ! nat j) (s_aWall st ! nat k)"
  shows "1 \<le> i \<Longrightarrow> i \<le> k \<Longrightarrow> k - i < int n \<Longrightarrow> match_wall eqi n i z st = Some k"
proof (induction n arbitrary: i)
  case (Suc n)
  have a: "at (s_aWall st) i = Some (s_aWall st ! nat i)"
    using assms(1,3) Suc.prems by (intro at_in) (auto simp: walls_ok_def)
  show ?case
  proof (cases "i = k")
    case True
    with a assms show ?thesis by simp
  next
    case False
    with Suc a assms show ?thesis by simp
  qed
qed simp

text \<open>
  C18: the choice survives a restart. After a commit that the card accepted, a start with the
  same wallpapers on the disc (their names distinct for the system's comparison) comes up
  with the same wallpaper and style, and the desktop shows them.
\<close>
theorem Display_restore:
  assumes "walls_ok st" and "vm_ok (s_vmu st)" and "walls_ok st0"
    and "PersistDisplay st = Some st1"
    and "VmuSaveAs DISP_VMUFILE (disp_blob (s_nCurStyle st)
       (if 0 < s_nCurWall st \<and> s_nCurWall st < s_cWall st then s_aWall st ! nat (s_nCurWall st) else []))
       (s_vmu st) = (True, v)"
    and "s_vmu st0 = s_vmu st1"
    and "ScanWallpapers files st0 = Some s1" and "s_cWall s1 = s_cWall st" and "s_aWall s1 = s_aWall st"
    and "\<forall>w \<in> set (s_aWall st). w \<noteq> [] \<and> 0 \<notin> set w \<and> eqi w w"
    and "\<forall>i j. 1 \<le> i \<and> i < j \<and> j < s_cWall st \<longrightarrow> \<not> eqi (s_aWall st ! nat i) (s_aWall st ! nat j)"
    and "- (2 ^ 31) \<le> s_nCurStyle st" and "s_nCurStyle st < 2 ^ 31"
  shows "\<exists>st2. ApplyDisplayConfig eqi files st0 = Some st2 \<and> s_nCurStyle st2 = s_nCurStyle st
    \<and> s_nCurWall st2 = (if 0 < s_nCurWall st \<and> s_nCurWall st < s_cWall st then s_nCurWall st else 0)
    \<and> shown st2 = Some (wall_ev st (s_nCurWall st) (s_nCurStyle st))"
proof -
  define cur where "cur = s_nCurWall st"
  define inr where "inr = (0 < cur \<and> cur < s_cWall st)"
  define f where "f = (if inr then s_aWall st ! nat cur else [])"
  note defs = cur_def inr_def f_def
  have mem: "inr \<Longrightarrow> s_aWall st ! nat cur \<in> set (s_aWall st)"
    using assms(1) by (auto simp: defs walls_ok_def)
  have lf: "length f \<le> 63" using mem assms(1) by (auto simp: f_def walls_ok_def)
  let ?b = "disp_blob (s_nCurStyle st) f"
  have sv: "VmuSaveAs DISP_VMUFILE ?b (s_vmu st) = (True, v)" using assms(5) by (simp only: defs)
  have "PersistDisplay st = Some (st\<lparr>s_vmu := v\<rparr>)"
    unfolding PersistDisplay_Some [OF assms(1)] assms(5) by simp
  with assms(4) have st1: "st1 = st\<lparr>s_vmu := v\<rparr>" by simp
  have "vmu_get DISP_VMUFILE v = Some (?b @ replicate (512 - length ?b) 0)"
    using vmu_store.saved [OF assms(2) sv] by simp
  then have ld: "fst (VmuLoadAs DISP_VMUFILE 136 v) = Some ?b"
    using length_disp_blob [of f "s_nCurStyle st"] lf by (simp add: VmuLoadAs_take)
  then obtain v' where ld: "VmuLoadAs DISP_VMUFILE 136 v = (Some ?b, v')" by (metis prod.collapse)
  note k = ScanWallpapers_same_desk [OF assms(7)]
  have w1: "walls_ok s1" using assms(1,8,9) by (simp add: walls_ok_def)
  have sty: "sint (word_of_int (s_nCurStyle st) :: u32) = s_nCurStyle st"
    using assms(12,13) by (simp add: signed_of_int signed_take_bit_int_eq_self)
  let ?m = "s1\<lparr>s_nCurWall := 0, s_nCurStyle := GFXWALL_STRETCH\<rparr>\<lparr>s_vmu := v'\<rparr>\<lparr>s_nCurWall := 0, s_nCurStyle := s_nCurStyle st\<rparr>"
  let ?z = "f @ replicate (64 - length f) 0"
  have ne: "inr \<Longrightarrow> f \<noteq> [] \<and> 0 \<notin> set f" using mem assms(10) by (auto simp: f_def)
  have rz: "replicate (64 - length f) (0 :: wchar) = 0 # replicate (63 - length f) 0"
    using lf by (simp flip: replicate_Suc add: Suc_diff_le)
  have z: "0 \<in> set ?z" "inr \<Longrightarrow> cstr ?z = s_aWall st ! nat cur" "?z ! 0 \<noteq> 0 \<longleftrightarrow> inr"
    unfolding rz using ne nth_mem [of 0 f] by (auto simp: f_def nth_append)
  have mw: "match_wall eqi 16 1 ?z ?m = Some cur" if "inr"
    using that z(1,2) assms(10,11) mem w1 assms(8,9) assms(1)
    by (intro match_wall_first) (auto simp: inr_def walls_ok_def)
  define r where "r = (if inr then ?m\<lparr>s_nCurWall := cur\<rparr> else ?m)"
  have rf: "walls_ok r" "s_nCurWall r = (if inr then cur else 0)" "s_nCurStyle r = s_nCurStyle st"
    "s_cWall r = s_cWall st" "s_aWall r = s_aWall st"
    using w1 assms(8,9) by (simp_all add: r_def)
  have "ApplyDisplayConfig eqi files st0 = ApplyWall (s_nCurWall r) (s_nCurStyle r) r"
    using assms(7) k st1 assms(6) ld disp_blob_parts [of f "s_nCurStyle st"] length_disp_blob [of f "s_nCurStyle st"]
      lf sty z(3) mw
    by (cases inr) (simp_all add: ApplyDisplayConfig_def Let_def r_def)
  also have "\<dots> = Some (r\<lparr>s_bDeskDirty := True, s_out := s_out r @ [wall_ev r (s_nCurWall r) (s_nCurStyle r)]\<rparr>)"
    by (rule ApplyWall_Some [OF rf(1)])
  finally have e: "ApplyDisplayConfig eqi files st0 = Some (r\<lparr>s_bDeskDirty := True,
     s_out := s_out r @ [wall_ev r (s_nCurWall r) (s_nCurStyle r)]\<rparr>)" .
  have "wall_ev r (s_nCurWall r) (s_nCurStyle r) = wall_ev st (s_nCurWall st) (s_nCurStyle st)"
    using rf by (auto simp: wall_ev_def defs)
  with e rf show ?thesis by (simp add: shown_def defs)
qed

section \<open>Long file names\<close>

lemma scan_files_None:
  "length (s_aWall st) = 16 \<Longrightarrow> 0 \<le> s_cWall st \<Longrightarrow>
     scan_files fs st = None \<longleftrightarrow> (\<exists>f \<in> set (take (nat (16 - s_cWall st)) fs). 63 < length f)"
proof (induction fs arbitrary: st)
  case (Cons f fs)
  show ?case
  proof (cases "s_cWall st < 16")
    case True
    then have n: "nat (16 - s_cWall st) = Suc (nat (16 - (s_cWall st + 1)))" by simp
    show ?thesis
    proof (cases "length f \<le> 63")
      case l: True
      let ?s = "st\<lparr>s_aWall := (s_aWall st)[nat (s_cWall st) := f], s_cWall := s_cWall st + 1\<rparr>"
      have "scan_files (f # fs) st = scan_files fs ?s" using Cons.prems True l by (simp add: WALL_MAX_def)
      with Cons.IH [of ?s] Cons.prems l show ?thesis by (simp add: n)
    qed (use True n in \<open>auto simp: WALL_MAX_def\<close>)
  next
    case False
    with Cons.IH [of st] Cons.prems show ?thesis by (simp add: WALL_MAX_def)
  qed
qed simp

text \<open>
  The scan copies each file name into 64 characters without a length check: it leaves the
  table exactly when one of the first fifteen names on the disc is longer than 63.
\<close>
theorem ScanWallpapers_overflow_iff:
  assumes "length (s_aWall st) = 16"
  shows "ScanWallpapers files st = None \<longleftrightarrow> (\<exists>f \<in> set (take 15 files). 63 < length f)"
  using assms scan_files_None [of "st\<lparr>s_aWall := (s_aWall st)[0 := ws ''(None)''], s_cWall := 1\<rparr>" files]
  by (simp add: ScanWallpapers_def)

section \<open>A sample\<close>

definition disp0 :: "(string \<times> byte list) list vmu \<Rightarrow> (string \<times> byte list) list disp" where
  "disp0 v = \<lparr>s_bDirty = False, s_bDeskDirty = False, s_vmu = v, s_out = [UiWallpaper (Some (wall_dir @ ws ''A'')) 0],
     s_aDesk = replicate 24 (s_start ! 0), s_anDeskUser = replicate 24 0, s_cDesk = 0, s_nDeskSel = 0,
     s_aDeskPos = replicate 24 (0, 0), s_nDeskRows = 6, s_aWall = [ws ''(None)'', ws ''A'', ws ''B''] @ replicate 13 (ws ''X''),
     s_cWall = 3, s_nCurWall = 1, s_nCurStyle = 0, s_bDlgOpen = False, s_nDlgSel = 0, s_nDlgWall = 0,
     s_nDlgStyle = 0, s_nDdActive = - 1, s_nDdSel = 0\<rparr>"

lemma disp0_walls: "walls_ok (disp0 v)" by (simp add: walls_ok_def disp0_def ws_def)

lemma disp0_scan: "ScanWallpapers [ws ''A'', ws ''B''] (disp0 v) = Some (disp0 v)"
  by (simp add: ScanWallpapers_def disp0_def ws_def WALL_MAX_def)

theorem Display_dialog_shows_witness:
  "\<exists>s2 s4. OpenDisplayDialog [ws ''A'', ws ''B''] (disp0 sample_card) = Some s2
     \<and> dlg_run ([DKey VK_RETURN, DKey VK_DOWN, DClick 200 300] @ [DKey VK_ESCAPE, DKey VK_ESCAPE]) s2 = Some s4
     \<and> \<not> s_bDlgOpen s4"
proof -
  have "disp_ok (disp0 sample_card)" "in_sync (disp0 sample_card)" "\<not> s_bDlgOpen (disp0 sample_card)"
    using disp0_walls [of sample_card] by (simp_all add: disp_ok_def in_sync_def shown_def wall_ev_def disp0_def)
  from Display_dialog_shows [OF this disp0_scan refl refl, of "[DKey VK_RETURN, DKey VK_DOWN, DClick 200 300]"]
  show ?thesis by blast
qed

theorem ScanWallpapers_overflow_iff_witness:
  "ScanWallpapers [replicate 64 65] (disp0 sample_card) = None"
  using ScanWallpapers_overflow_iff [of "disp0 sample_card" "[replicate 64 65]"] by (simp add: disp0_def)

theorem Display_restore_witness:
  "\<exists>st1 st2. PersistDisplay (disp0 sample_card) = Some st1
     \<and> ApplyDisplayConfig (=) [ws ''A'', ws ''B''] (disp0 (s_vmu st1)) = Some st2
     \<and> s_nCurWall st2 = 1 \<and> shown st2 = Some (UiWallpaper (Some (wall_dir @ ws ''A'')) 0)"
proof -
  obtain v where v: "VmuSaveAs DISP_VMUFILE (disp_blob 0 (ws ''A'')) sample_card = (True, v)"
    by (simp add: card_run sample_card_def card_svc_def disp_blob_def ws_def)
  let ?st = "disp0 sample_card"
  have p: "PersistDisplay ?st = Some (?st\<lparr>s_vmu := v\<rparr>)"
    using v by (simp add: PersistDisplay_def disp0_def ws_def)
  have d: "\<forall>i j. 1 \<le> i \<and> i < j \<and> j < s_cWall ?st \<longrightarrow> \<not> (s_aWall ?st ! nat i = s_aWall ?st ! nat j)"
  proof (intro allI impI)
    fix i j assume "1 \<le> i \<and> i < j \<and> j < s_cWall ?st"
    then have "i = 1" "j = 2" by (auto simp: disp0_def)
    then show "\<not> (s_aWall ?st ! nat i = s_aWall ?st ! nat j)" by (simp add: disp0_def ws_def)
  qed
  have n: "\<forall>w \<in> set (s_aWall ?st). w \<noteq> [] \<and> 0 \<notin> set w \<and> w = w" by (simp add: disp0_def ws_def)
  have ok: "vm_ok (s_vmu ?st)" by (simp add: disp0_def vm_ok_def sample_card_def card_laws)
  have sv: "VmuSaveAs DISP_VMUFILE (disp_blob (s_nCurStyle ?st)
     (if 0 < s_nCurWall ?st \<and> s_nCurWall ?st < s_cWall ?st then s_aWall ?st ! nat (s_nCurWall ?st) else []))
     (s_vmu ?st) = (True, v)" using v by (simp add: disp0_def)
  have f: "s_vmu (disp0 v) = s_vmu (?st\<lparr>s_vmu := v\<rparr>)" "s_cWall (disp0 v) = s_cWall ?st" "s_aWall (disp0 v) = s_aWall ?st"
    by (simp_all add: disp0_def)
  from Display_restore [OF disp0_walls ok disp0_walls p sv f(1) disp0_scan f(2,3) n d]
  obtain st2 where "ApplyDisplayConfig (=) [ws ''A'', ws ''B''] (disp0 v) = Some st2"
    "s_nCurWall st2 = 1" "shown st2 = Some (UiWallpaper (Some (wall_dir @ ws ''A'')) 0)"
    by (auto simp: disp0_def wall_ev_def)
  with p show ?thesis by auto
qed

end
