(* ===== verification/Winman.thy ===== *)
theory Winman
  imports Display Dcwin
begin

text \<open>
  The window manager of \<open>shell/dcshell.c\<close>: focus, hit tests, maximizing, dragging, the
  pointer forwarded to the clients, and the slots of clients that died.

  The shared section is an argument of the state (\<open>None\<close> before it is mapped); a client may
  change it between two operations. The positions a client stores are taken as integers.
  An index that comes out of the state is bounds-checked; the loops over the four slots
  are not, the arrays having four entries. Whether a process is alive is an argument.
\<close>

section \<open>State\<close>

datatype dragkind = DRAG_NONE | DRAG_WMOVE | DRAG_WSIZE | DRAG_ICON | DRAG_STARTITEM

record 'v wm = "'v disp" +
  s_pShared :: "dcshared option"
  s_nFocus :: int
  s_abWasInUse :: "bool list"
  s_adwLastGen :: "u32 list"
  s_abWinMax :: "bool list"
  s_awinRestore :: "(int \<times> int \<times> int \<times> int) list"
  s_abWinMin :: "bool list"
  s_dwReapAccess :: bool
  s_bMenuOpen :: bool
  s_nMenuSel :: int
  s_nDragKind :: dragkind
  s_nDragTarget :: int
  s_nDragOffX :: int
  s_nDragOffY :: int

definition ROW_H :: int where "ROW_H = 18"
definition MENU_W :: int where "MENU_W = 168"
definition WIN_MINW :: int where "WIN_MINW = 80"
definition WIN_MINH :: int where "WIN_MINH = 40"
definition DRAG_THRESH :: int where "DRAG_THRESH = 3"

definition slots :: "int list" where "slots = [0, 1, 2, 3]"

definition win_set :: "int \<Rightarrow> (dcwindow \<Rightarrow> dcwindow) \<Rightarrow> ('v, 'm) wm_scheme \<Rightarrow> ('v, 'm) wm_scheme" where
  "win_set k f st = st\<lparr>s_pShared := map_option (win_upd (nat k) f) (s_pShared st)\<rparr>"

section \<open>Hit tests\<close>

definition in_frame :: "int \<Rightarrow> int \<Rightarrow> dcwindow \<Rightarrow> bool" where
  "in_frame x y w \<longleftrightarrow> x \<ge> dw_x w - 2 \<and> x < dw_x w + dw_w w + 2 \<and> y \<ge> dw_y w - 18 \<and> y < dw_y w + dw_h w + 2"

definition WindowAt :: "int \<Rightarrow> int \<Rightarrow> ('v, 'm) wm_scheme \<Rightarrow> int option" where
  "WindowAt x y st =
     (case s_pShared st of
        None \<Rightarrow> Some (- 1)
      | Some sh \<Rightarrow> do {
          onfocus \<leftarrow> (if s_nFocus st \<ge> 0
             then do { w \<leftarrow> at (sh_win sh) (s_nFocus st);
                       if dw_inUse w
                       then do { m \<leftarrow> at (s_abWinMin st) (s_nFocus st); Some (\<not> m \<and> in_frame x y w) }
                       else Some False }
             else Some False);
          if onfocus then Some (s_nFocus st)
          else Some (case List.find (\<lambda>k. dw_inUse (sh_win sh ! nat k) \<and> \<not> s_abWinMin st ! nat k
                        \<and> k \<noteq> s_nFocus st \<and> in_frame x y (sh_win sh ! nat k)) slots of
                       Some k \<Rightarrow> k | None \<Rightarrow> - 1) })"

definition PointOverWindow :: "int \<Rightarrow> int \<Rightarrow> ('v, 'm) wm_scheme \<Rightarrow> bool option" where
  "PointOverWindow x y st = map_option (\<lambda>k. k \<ge> 0) (WindowAt x y st)"

text \<open>The order in which clicks and drags look at the windows: the focused one first.\<close>

definition win_order :: "dcshared \<Rightarrow> ('v, 'm) wm_scheme \<Rightarrow> int list option" where
  "win_order sh st = do {
     front \<leftarrow> (if s_nFocus st \<ge> 0
       then do { w \<leftarrow> at (sh_win sh) (s_nFocus st); Some (if dw_inUse w then [s_nFocus st] else []) }
       else Some []);
     Some (front @ filter (\<lambda>k. dw_inUse (sh_win sh ! nat k) \<and> k \<noteq> s_nFocus st) slots) }"

section \<open>Focus\<close>

definition CountWindows :: "('v, 'm) wm_scheme \<Rightarrow> nat" where
  "CountWindows st = (case s_pShared st of None \<Rightarrow> 0
     | Some sh \<Rightarrow> length (filter (\<lambda>k. dw_inUse (sh_win sh ! nat k)) slots))"

definition reap_slot :: "(u32 \<Rightarrow> bool) \<Rightarrow> int \<Rightarrow> ('v, 'm) wm_scheme \<Rightarrow> ('v, 'm) wm_scheme" where
  "reap_slot alive i st =
     (case s_pShared st of None \<Rightarrow> st
      | Some sh \<Rightarrow>
          let w = sh_win sh ! nat i
          in if \<not> dw_inUse w \<or> dw_ownerPid w = 0 then st
             else if alive (dw_ownerPid w) then st
             else (win_set i (\<lambda>w. w\<lparr>dw_inUse := False\<rparr>) st)\<lparr>s_bDirty := True\<rparr>)"

definition ReapDeadWindows :: "(u32 \<Rightarrow> bool) \<Rightarrow> ('v, 'm) wm_scheme \<Rightarrow> ('v, 'm) wm_scheme" where
  "ReapDeadWindows alive st =
     (if s_pShared st = None \<or> \<not> s_dwReapAccess st then st else fold (reap_slot alive) slots st)"

definition fixup_slot :: "dcshared \<Rightarrow> int \<Rightarrow> ('v, 'm) wm_scheme \<Rightarrow> ('v, 'm) wm_scheme" where
  "fixup_slot sh i st =
     (let bNow = dw_inUse (sh_win sh ! nat i); was = s_abWasInUse st ! nat i;
          st = (if bNow \<noteq> was then st\<lparr>s_bDirty := True\<rparr> else st);
          st = (if bNow \<and> \<not> was then st\<lparr>s_nFocus := i\<rparr> else st)
      in st\<lparr>s_abWasInUse := (s_abWasInUse st)[nat i := bNow]\<rparr>)"

definition FixupFocus :: "('v, 'm) wm_scheme \<Rightarrow> ('v, 'm) wm_scheme option" where
  "FixupFocus st =
     (case s_pShared st of None \<Rightarrow> Some st
      | Some sh \<Rightarrow> do {
          st \<leftarrow> (if s_nFocus st \<ge> 0
             then do { w \<leftarrow> at (sh_win sh) (s_nFocus st);
                       Some (if \<not> dw_inUse w then st\<lparr>s_nFocus := - 1\<rparr> else st) }
             else Some st);
          Some (fold (fixup_slot sh) slots st) })"

primrec cycle :: "nat \<Rightarrow> dcshared \<Rightarrow> int \<Rightarrow> int option" where
  "cycle 0 sh nCur = Some (- 1)"
| "cycle (Suc n) sh nCur =
     (let nCur = nCur + 1
      in if nCur \<ge> 4 then Some (- 1)
         else do { w \<leftarrow> at (sh_win sh) nCur; if dw_inUse w then Some nCur else cycle n sh nCur })"

definition CycleFocus :: "('v, 'm) wm_scheme \<Rightarrow> ('v, 'm) wm_scheme option" where
  "CycleFocus st =
     (case s_pShared st of None \<Rightarrow> Some st
      | Some sh \<Rightarrow> do { k \<leftarrow> cycle 4 sh (s_nFocus st); Some (st\<lparr>s_nFocus := k\<rparr>) })"

section \<open>Geometry\<close>

definition ToggleMaximize :: "int \<Rightarrow> ('v, 'm) wm_scheme \<Rightarrow> ('v, 'm) wm_scheme" where
  "ToggleMaximize wi st =
     (case s_pShared st of None \<Rightarrow> st
      | Some sh \<Rightarrow>
          if wi < 0 \<or> wi \<ge> 4 \<or> \<not> dw_inUse (sh_win sh ! nat wi) then st
          else let w = sh_win sh ! nat wi
            in (if s_abWinMax st ! nat wi
                then case s_awinRestore st ! nat wi of (rx, ry, rw, rh) \<Rightarrow>
                  (win_set wi (\<lambda>w. w\<lparr>dw_x := rx, dw_y := ry, dw_w := rw, dw_h := rh\<rparr>) st)
                    \<lparr>s_abWinMax := (s_abWinMax st)[nat wi := False]\<rparr>
                else
                  (win_set wi (\<lambda>w. w\<lparr>dw_x := 2, dw_y := 20, dw_w := SCREEN_W - 4, dw_h := TASK_Y - 22\<rparr>) st)
                    \<lparr>s_abWinMax := (s_abWinMax st)[nat wi := True],
                      s_awinRestore := (s_awinRestore st)[nat wi := (dw_x w, dw_y w, dw_w w, dw_h w)]\<rparr>)
               \<lparr>s_bDirty := True\<rparr>)"

definition menu_y :: int where "menu_y = TASK_Y - (START_N * ROW_H + 8) + 4"

definition in_menu :: "int \<Rightarrow> int \<Rightarrow> bool" where
  "in_menu x y \<longleftrightarrow> x \<ge> 4 \<and> x < 4 + MENU_W \<and> y \<ge> menu_y \<and> y < menu_y + START_N * ROW_H"

text \<open>What a drag would grab of the windows: a corner to resize, a title bar to move.\<close>

primrec grab_window :: "int \<Rightarrow> int \<Rightarrow> dcshared \<Rightarrow> int list \<Rightarrow> ('v, 'm) wm_scheme \<Rightarrow> ('v, 'm) wm_scheme option" where
  "grab_window x y sh [] st = None"
| "grab_window x y sh (k # ks) st =
     (let w = sh_win sh ! nat k
      in if s_abWinMin st ! nat k then grab_window x y sh ks st
         else if x \<ge> dw_x w + dw_w w - 12 \<and> x \<le> dw_x w + dw_w w + 2
           \<and> y \<ge> dw_y w + dw_h w - 12 \<and> y \<le> dw_y w + dw_h w + 2
         then Some (st\<lparr>s_nFocus := k, s_nDragKind := DRAG_WSIZE, s_nDragTarget := k,
                s_nDragOffX := x - (dw_x w + dw_w w), s_nDragOffY := y - (dw_y w + dw_h w)\<rparr>)
         else if x \<ge> dw_x w - 2 \<and> x < dw_x w + dw_w w - 46 \<and> y \<ge> dw_y w - 18 \<and> y < dw_y w - 2
         then Some (st\<lparr>s_nFocus := k, s_nDragKind := DRAG_WMOVE, s_nDragTarget := k,
                s_nDragOffX := x - dw_x w, s_nDragOffY := y - dw_y w\<rparr>)
         else grab_window x y sh ks st)"

definition grab_icon :: "int \<Rightarrow> int \<Rightarrow> ('v, 'm) wm_scheme \<Rightarrow> ('v, 'm) wm_scheme" where
  "grab_icon x y st =
     (let k = icon_scan (take (nat (s_cDesk st)) (s_aDeskPos st)) x y 0
      in if k \<ge> 0
         then st\<lparr>s_nDeskSel := k, s_nDragKind := DRAG_ICON, s_nDragTarget := k,
                s_nDragOffX := x - fst (s_aDeskPos st ! nat k), s_nDragOffY := y - snd (s_aDeskPos st ! nat k)\<rparr>
         else st)"

definition DragHitTest :: "int \<Rightarrow> int \<Rightarrow> ('v, 'm) wm_scheme \<Rightarrow> ('v, 'm) wm_scheme option" where
  "DragHitTest x y st = do {
     let st = st\<lparr>s_nDragKind := DRAG_NONE, s_nDragTarget := - 1\<rparr>;
     if s_bMenuOpen st
     then if in_menu x y
          then do {
            let nRow = (y - menu_y) div ROW_H;
            if nRow \<ge> 0 \<and> nRow < START_N
            then do { sc \<leftarrow> at s_start nRow;
                      if sc_exe sc \<noteq> None \<or> sc_path sc \<noteq> None
                      then Some (st\<lparr>s_nDragKind := DRAG_STARTITEM, s_nDragTarget := nRow\<rparr>) else Some st }
            else Some st }
          else Some st
     else do {
       r \<leftarrow> (case s_pShared st of
          None \<Rightarrow> Some None
        | Some sh \<Rightarrow> do { ks \<leftarrow> win_order sh st; Some (grab_window x y sh ks st) });
       Some (case r of Some st \<Rightarrow> st | None \<Rightarrow> grab_icon x y st) } }"

definition move_to :: "int \<Rightarrow> int \<Rightarrow> dcwindow \<Rightarrow> dcwindow" where
  "move_to nNewX nNewY w =
     (let nNewY = (if nNewY < 18 then 18 else nNewY);
          nNewX = (if nNewX < - (dw_w w - 40) then - (dw_w w - 40) else nNewX);
          nNewX = (if nNewX > SCREEN_W - 40 then SCREEN_W - 40 else nNewX);
          nNewY = (if nNewY > TASK_Y - 1 then TASK_Y - 1 else nNewY)
      in w\<lparr>dw_x := nNewX, dw_y := nNewY\<rparr>)"

definition size_to :: "int \<Rightarrow> int \<Rightarrow> dcwindow \<Rightarrow> dcwindow" where
  "size_to nNewW nNewH w =
     (let nNewW = (if nNewW < WIN_MINW then WIN_MINW else nNewW);
          nNewW = (if nNewW > SCREEN_W then SCREEN_W else nNewW);
          nNewH = (if nNewH < WIN_MINH then WIN_MINH else nNewH);
          nNewH = (if nNewH > SCREEN_H then SCREEN_H else nNewH)
      in w\<lparr>dw_w := nNewW, dw_h := nNewH\<rparr>)"

definition DragApply :: "int \<Rightarrow> int \<Rightarrow> ('v, 'm) wm_scheme \<Rightarrow> ('v, 'm) wm_scheme option" where
  "DragApply x y st = do {
     st \<leftarrow> (if s_nDragKind st = DRAG_ICON then Some st
           else case s_pShared st of
             None \<Rightarrow> Some st
           | Some sh \<Rightarrow>
               if s_nDragTarget st \<ge> 0
               then do {
                 w \<leftarrow> at (sh_win sh) (s_nDragTarget st);
                 Some (if \<not> dw_inUse w then st
                   else if s_nDragKind st = DRAG_WMOVE
                   then win_set (s_nDragTarget st) (move_to (x - s_nDragOffX st) (y - s_nDragOffY st)) st
                   else if s_nDragKind st = DRAG_WSIZE
                   then win_set (s_nDragTarget st)
                          (size_to (x - s_nDragOffX st - dw_x w) (y - s_nDragOffY st - dw_y w)) st
                   else st) }
               else Some st);
     Some (st\<lparr>s_bDirty := True\<rparr>) }"

section \<open>The pointer, as the clients see it\<close>

definition in_client :: "int \<Rightarrow> int \<Rightarrow> dcwindow \<Rightarrow> bool" where
  "in_client x y w \<longleftrightarrow> x \<ge> dw_x w \<and> x < dw_x w + dw_w w \<and> y \<ge> dw_y w \<and> y < dw_y w + dw_h w"

definition pointer_order :: "dcshared \<Rightarrow> ('v, 'm) wm_scheme \<Rightarrow> int list option" where
  "pointer_order sh st = do {
     front \<leftarrow> (if s_nFocus st \<ge> 0
       then do { w \<leftarrow> at (sh_win sh) (s_nFocus st);
                 if dw_inUse w then do { m \<leftarrow> at (s_abWinMin st) (s_nFocus st); Some (if \<not> m then [s_nFocus st] else []) }
                 else Some [] }
       else Some []);
     Some (front @ filter (\<lambda>k. dw_inUse (sh_win sh ! nat k) \<and> \<not> s_abWinMin st ! nat k \<and> k \<noteq> s_nFocus st) slots) }"

definition publish_slot :: "int \<Rightarrow> int \<Rightarrow> bool \<Rightarrow> int \<Rightarrow> int \<Rightarrow> dcshared \<Rightarrow> dcshared" where
  "publish_slot x y bDown nTop k =
     win_upd (nat k) (\<lambda>w. if \<not> dw_inUse w then w
       else if k = nTop then w\<lparr>dw_ptrX := x - dw_x w, dw_ptrY := y - dw_y w, dw_ptrBtn := bDown\<rparr>
       else w\<lparr>dw_ptrX := - 1\<rparr>)"

definition PublishPointer :: "int \<Rightarrow> int \<Rightarrow> bool \<Rightarrow> ('v, 'm) wm_scheme \<Rightarrow> ('v, 'm) wm_scheme option" where
  "PublishPointer x y bDown st =
     (case s_pShared st of None \<Rightarrow> Some st
      | Some sh \<Rightarrow> do {
          ks \<leftarrow> pointer_order sh st;
          let nTop = (case List.find (\<lambda>k. in_client x y (sh_win sh ! nat k)) ks of Some k \<Rightarrow> k | None \<Rightarrow> - 1);
          Some (st\<lparr>s_pShared := Some (fold (publish_slot x y bDown nTop) slots sh)\<rparr>) })"

section \<open>Well-formed states\<close>

definition wm_ok :: "('v, 'm) wm_scheme \<Rightarrow> bool" where
  "wm_ok st \<longleftrightarrow> (\<forall>sh. s_pShared st = Some sh \<longrightarrow> length (sh_win sh) = 4 \<and> 0 \<in> set (take 260 (sh_execPath sh)))
     \<and> - 1 \<le> s_nFocus st \<and> s_nFocus st < 4
     \<and> length (s_abWasInUse st) = 4 \<and> length (s_adwLastGen st) = 4 \<and> length (s_abWinMax st) = 4
     \<and> length (s_awinRestore st) = 4 \<and> length (s_abWinMin st) = 4
     \<and> 0 \<le> s_nMenuSel st \<and> s_nMenuSel st < 6
     \<and> (s_nDragKind st = DRAG_WMOVE \<or> s_nDragKind st = DRAG_WSIZE \<longrightarrow> 0 \<le> s_nDragTarget st \<and> s_nDragTarget st < 4)
     \<and> (s_nDragKind st = DRAG_ICON \<longrightarrow> 0 \<le> s_nDragTarget st \<and> s_nDragTarget st < 24)
     \<and> (s_nDragKind st = DRAG_STARTITEM \<longrightarrow> 0 \<le> s_nDragTarget st \<and> s_nDragTarget st < 5)"

text \<open>Updates the invariants do not look at.\<close>

lemma desk_ok_wm [simp]:
  "desk_ok (st\<lparr>s_aWall := v0\<rparr>) = desk_ok st" "desk_ok (st\<lparr>s_cWall := v1\<rparr>) = desk_ok st"
  "desk_ok (st\<lparr>s_nCurWall := v2\<rparr>) = desk_ok st" "desk_ok (st\<lparr>s_nCurStyle := v3\<rparr>) = desk_ok st"
  "desk_ok (st\<lparr>s_bDlgOpen := v4\<rparr>) = desk_ok st" "desk_ok (st\<lparr>s_nDlgSel := v5\<rparr>) = desk_ok st"
  "desk_ok (st\<lparr>s_nDlgWall := v6\<rparr>) = desk_ok st" "desk_ok (st\<lparr>s_nDlgStyle := v7\<rparr>) = desk_ok st"
  "desk_ok (st\<lparr>s_nDdActive := v8\<rparr>) = desk_ok st" "desk_ok (st\<lparr>s_nDdSel := v9\<rparr>) = desk_ok st"
  "desk_ok (st\<lparr>s_pShared := v10\<rparr>) = desk_ok st" "desk_ok (st\<lparr>s_nFocus := v11\<rparr>) = desk_ok st"
  "desk_ok (st\<lparr>s_abWasInUse := v12\<rparr>) = desk_ok st" "desk_ok (st\<lparr>s_adwLastGen := v13\<rparr>) = desk_ok st"
  "desk_ok (st\<lparr>s_abWinMax := v14\<rparr>) = desk_ok st" "desk_ok (st\<lparr>s_awinRestore := v15\<rparr>) = desk_ok st"
  "desk_ok (st\<lparr>s_abWinMin := v16\<rparr>) = desk_ok st" "desk_ok (st\<lparr>s_dwReapAccess := v17\<rparr>) = desk_ok st"
  "desk_ok (st\<lparr>s_bMenuOpen := v18\<rparr>) = desk_ok st" "desk_ok (st\<lparr>s_nMenuSel := v19\<rparr>) = desk_ok st"
  "desk_ok (st\<lparr>s_nDragKind := v20\<rparr>) = desk_ok st" "desk_ok (st\<lparr>s_nDragTarget := v21\<rparr>) = desk_ok st"
  "desk_ok (st\<lparr>s_nDragOffX := v22\<rparr>) = desk_ok st" "desk_ok (st\<lparr>s_nDragOffY := v23\<rparr>) = desk_ok st"
  by (simp_all add: desk_ok_def desk_raw_def icons_ok_def)

lemma disp_ok_wm [simp]:
  "disp_ok (st\<lparr>s_bDeskDirty := v0\<rparr>) = disp_ok st" "disp_ok (st\<lparr>s_vmu := v1\<rparr>) = disp_ok st"
  "disp_ok (st\<lparr>s_out := v2\<rparr>) = disp_ok st" "disp_ok (st\<lparr>s_aDesk := v3\<rparr>) = disp_ok st"
  "disp_ok (st\<lparr>s_anDeskUser := v4\<rparr>) = disp_ok st" "disp_ok (st\<lparr>s_cDesk := v5\<rparr>) = disp_ok st"
  "disp_ok (st\<lparr>s_nDeskSel := v6\<rparr>) = disp_ok st" "disp_ok (st\<lparr>s_aDeskPos := v7\<rparr>) = disp_ok st"
  "disp_ok (st\<lparr>s_nDeskRows := v8\<rparr>) = disp_ok st" "disp_ok (st\<lparr>s_pShared := v9\<rparr>) = disp_ok st"
  "disp_ok (st\<lparr>s_nFocus := v10\<rparr>) = disp_ok st" "disp_ok (st\<lparr>s_abWasInUse := v11\<rparr>) = disp_ok st"
  "disp_ok (st\<lparr>s_adwLastGen := v12\<rparr>) = disp_ok st" "disp_ok (st\<lparr>s_abWinMax := v13\<rparr>) = disp_ok st"
  "disp_ok (st\<lparr>s_awinRestore := v14\<rparr>) = disp_ok st" "disp_ok (st\<lparr>s_abWinMin := v15\<rparr>) = disp_ok st"
  "disp_ok (st\<lparr>s_dwReapAccess := v16\<rparr>) = disp_ok st" "disp_ok (st\<lparr>s_bMenuOpen := v17\<rparr>) = disp_ok st"
  "disp_ok (st\<lparr>s_nMenuSel := v18\<rparr>) = disp_ok st" "disp_ok (st\<lparr>s_nDragKind := v19\<rparr>) = disp_ok st"
  "disp_ok (st\<lparr>s_nDragTarget := v20\<rparr>) = disp_ok st" "disp_ok (st\<lparr>s_nDragOffX := v21\<rparr>) = disp_ok st"
  "disp_ok (st\<lparr>s_nDragOffY := v22\<rparr>) = disp_ok st"
  by (simp_all add: disp_ok_def walls_ok_def)

lemma wm_ok_wm [simp]:
  "wm_ok (st\<lparr>s_bDirty := v0\<rparr>) = wm_ok st" "wm_ok (st\<lparr>s_bDeskDirty := v1\<rparr>) = wm_ok st"
  "wm_ok (st\<lparr>s_vmu := v2\<rparr>) = wm_ok st" "wm_ok (st\<lparr>s_out := v3\<rparr>) = wm_ok st"
  "wm_ok (st\<lparr>s_aDesk := v4\<rparr>) = wm_ok st" "wm_ok (st\<lparr>s_anDeskUser := v5\<rparr>) = wm_ok st"
  "wm_ok (st\<lparr>s_cDesk := v6\<rparr>) = wm_ok st" "wm_ok (st\<lparr>s_nDeskSel := v7\<rparr>) = wm_ok st"
  "wm_ok (st\<lparr>s_aDeskPos := v8\<rparr>) = wm_ok st" "wm_ok (st\<lparr>s_nDeskRows := v9\<rparr>) = wm_ok st"
  "wm_ok (st\<lparr>s_aWall := v10\<rparr>) = wm_ok st" "wm_ok (st\<lparr>s_cWall := v11\<rparr>) = wm_ok st"
  "wm_ok (st\<lparr>s_nCurWall := v12\<rparr>) = wm_ok st" "wm_ok (st\<lparr>s_nCurStyle := v13\<rparr>) = wm_ok st"
  "wm_ok (st\<lparr>s_bDlgOpen := v14\<rparr>) = wm_ok st" "wm_ok (st\<lparr>s_nDlgSel := v15\<rparr>) = wm_ok st"
  "wm_ok (st\<lparr>s_nDlgWall := v16\<rparr>) = wm_ok st" "wm_ok (st\<lparr>s_nDlgStyle := v17\<rparr>) = wm_ok st"
  "wm_ok (st\<lparr>s_nDdActive := v18\<rparr>) = wm_ok st" "wm_ok (st\<lparr>s_nDdSel := v19\<rparr>) = wm_ok st"
  "wm_ok (st\<lparr>s_dwReapAccess := v20\<rparr>) = wm_ok st" "wm_ok (st\<lparr>s_bMenuOpen := v21\<rparr>) = wm_ok st"
  "wm_ok (st\<lparr>s_nDragOffX := v22\<rparr>) = wm_ok st" "wm_ok (st\<lparr>s_nDragOffY := v23\<rparr>) = wm_ok st"
  by (simp_all add: wm_ok_def)

definition shell_wm :: "('v, 'm) wm_scheme \<Rightarrow> bool" where
  "shell_wm st \<longleftrightarrow> desk_ok st \<and> disp_ok st \<and> wm_ok st"

lemma win_upd_shape [simp]: "length (sh_win (win_upd k f sh)) = length (sh_win sh)"
  "sh_execPath (win_upd k f sh) = sh_execPath sh" "sh_crash (win_upd k f sh) = sh_crash sh"
  "sh_execSeq (win_upd k f sh) = sh_execSeq sh"
  by (simp_all add: win_upd_def)

lemma win_set_ok [simp]: "wm_ok (win_set k f st) = wm_ok st" "desk_ok (win_set k f st) = desk_ok st"
  "disp_ok (win_set k f st) = disp_ok st"
  by (auto simp: win_set_def wm_ok_def)

lemma win_set_sel [simp]: "s_abWinMax (win_set k f st) = s_abWinMax st"
  "s_awinRestore (win_set k f st) = s_awinRestore st" "s_pShared (win_set k f st) = map_option (win_upd (nat k) f) (s_pShared st)"
  by (simp_all add: win_set_def)

lemma wm_ok_arrays [simp]:
  "length v = length (s_abWinMax st) \<Longrightarrow> wm_ok (st\<lparr>s_abWinMax := v\<rparr>) = wm_ok st"
  "length r = length (s_awinRestore st) \<Longrightarrow> wm_ok (st\<lparr>s_awinRestore := r\<rparr>) = wm_ok st"
  "length v = length (s_abWinMin st) \<Longrightarrow> wm_ok (st\<lparr>s_abWinMin := v\<rparr>) = wm_ok st"
  "length g = length (s_adwLastGen st) \<Longrightarrow> wm_ok (st\<lparr>s_adwLastGen := g\<rparr>) = wm_ok st"
  by (simp_all add: wm_ok_def)

lemma wm_focus: "wm_ok st \<Longrightarrow> s_pShared st = Some sh \<Longrightarrow> s_nFocus st \<ge> 0 \<Longrightarrow>
    at (sh_win sh) (s_nFocus st) = Some (sh_win sh ! nat (s_nFocus st))
    \<and> at (s_abWinMin st) (s_nFocus st) = Some (s_abWinMin st ! nat (s_nFocus st))"
  by (auto simp: wm_ok_def)

lemma slots_range: "k \<in> set slots \<longleftrightarrow> 0 \<le> k \<and> k < 4"
  by (auto simp: slots_def)

lemma find_in: "List.find P ks = Some k \<Longrightarrow> k \<in> set ks \<and> P k"
  by (induction ks) (auto split: if_splits)

lemma find_range: "List.find P slots = Some k \<Longrightarrow> 0 \<le> k \<and> k < 4"
  using slots_range [of k] by (auto simp: find_Some_iff)

lemma WindowAt_Some:
  assumes "wm_ok st"
  shows "\<exists>k. WindowAt x y st = Some k \<and> - 1 \<le> k \<and> k < 4"
proof (cases "s_pShared st")
  case (Some sh)
  have f: "s_nFocus st < 4" using assms by (simp add: wm_ok_def)
  let ?P = "\<lambda>k. dw_inUse (sh_win sh ! nat k) \<and> \<not> s_abWinMin st ! nat k
                        \<and> k \<noteq> s_nFocus st \<and> in_frame x y (sh_win sh ! nat k)"
  define g where "g = (case List.find ?P slots of Some k \<Rightarrow> k | None \<Rightarrow> - 1)"
  have g: "- 1 \<le> g" "g < 4" using find_range [of ?P] by (auto simp: g_def split: option.split)
  show ?thesis
  proof (cases "s_nFocus st \<ge> 0")
    case True
    with wm_focus [OF assms Some] f Some g show ?thesis by (simp add: WindowAt_def flip: g_def)
  next
    case False
    with Some g show ?thesis by (simp add: WindowAt_def flip: g_def)
  qed
qed (simp add: WindowAt_def)

lemma win_order_Some:
  assumes "wm_ok st" and "s_pShared st = Some sh"
  shows "\<exists>ks. win_order sh st = Some ks \<and> (\<forall>k \<in> set ks. 0 \<le> k \<and> k < 4 \<and> dw_inUse (sh_win sh ! nat k))"
proof -
  have f: "s_nFocus st < 4" using assms by (simp add: wm_ok_def)
  show ?thesis using wm_focus [OF assms] f slots_range by (auto simp: win_order_def)
qed

lemma FixupFocus_ok:
  assumes "shell_wm st" shows "ok (FixupFocus st) shell_wm"
proof (cases "s_pShared st")
  case (Some sh)
  have step: "shell_wm (fixup_slot sh i s)" if "shell_wm s" "0 \<le> i" "i < 4" for i and s :: "('a, 'b) wm_scheme"
    using that by (auto simp: fixup_slot_def Let_def shell_wm_def wm_ok_def)
  have run: "shell_wm (fold (fixup_slot sh) slots s)" if "shell_wm s" for s :: "('a, 'b) wm_scheme"
    using that by (simp add: slots_def step)
  have drop: "shell_wm (st\<lparr>s_nFocus := - 1\<rparr>)" using assms by (auto simp: shell_wm_def wm_ok_def)
  show ?thesis using assms Some wm_focus [of st sh] run [OF assms] run [OF drop]
    by (auto simp: FixupFocus_def shell_wm_def)
qed (use assms in \<open>simp add: FixupFocus_def\<close>)

lemma cycle_ok: "length (sh_win sh) = 4 \<Longrightarrow> - 1 \<le> k \<Longrightarrow> \<exists>j. cycle n sh k = Some j \<and> - 1 \<le> j \<and> j < 4"
  by (induction n arbitrary: k) (auto simp: Let_def)

lemma CycleFocus_ok: "shell_wm st \<Longrightarrow> ok (CycleFocus st) shell_wm"
proof (cases "s_pShared st")
  case (Some sh)
  assume st: "shell_wm st"
  then have "length (sh_win sh) = 4" "- 1 \<le> s_nFocus st" using Some by (auto simp: shell_wm_def wm_ok_def)
  from cycle_ok [OF this, of 4] st Some show ?thesis
    by (auto simp: CycleFocus_def shell_wm_def wm_ok_def)
qed (simp add: CycleFocus_def)

lemma ReapDeadWindows_ok: "shell_wm st \<Longrightarrow> shell_wm (ReapDeadWindows alive st)"
proof -
  have step: "shell_wm (reap_slot alive i s)" if "shell_wm s" for i and s :: "('a, 'b) wm_scheme"
    using that by (auto simp: reap_slot_def Let_def shell_wm_def split: option.split)
  then show "shell_wm st \<Longrightarrow> ?thesis" by (simp add: ReapDeadWindows_def slots_def)
qed

lemma shell_wm_frames [simp]:
  "shell_wm (st\<lparr>s_bDirty := b\<rparr>) = shell_wm st" "shell_wm (win_set k f st) = shell_wm st"
  "length v = length (s_abWinMax st) \<Longrightarrow> shell_wm (st\<lparr>s_abWinMax := v\<rparr>) = shell_wm st"
  "length r = length (s_awinRestore st) \<Longrightarrow> shell_wm (st\<lparr>s_awinRestore := r\<rparr>) = shell_wm st"
  "length v = length (s_abWinMin st) \<Longrightarrow> shell_wm (st\<lparr>s_abWinMin := v\<rparr>) = shell_wm st"
  by (simp_all add: shell_wm_def)

lemma ToggleMaximize_ok:
  assumes "shell_wm st" shows "shell_wm (ToggleMaximize k st)"
proof (cases "\<exists>sh. s_pShared st = Some sh \<and> \<not> (k < 0 \<or> k \<ge> 4 \<or> \<not> dw_inUse (sh_win sh ! nat k))")
  case True
  then obtain sh where sh: "s_pShared st = Some sh" and k: "\<not> (k < 0 \<or> k \<ge> 4 \<or> \<not> dw_inUse (sh_win sh ! nat k))"
    by blast
  obtain a b c d where r: "s_awinRestore st ! nat k = (a, b, c, d)" by (metis prod_cases4)
  show ?thesis
    using sh k r assms by (cases "s_abWinMax st ! nat k") (simp_all add: ToggleMaximize_def Let_def)
next
  case False
  then have "ToggleMaximize k st = st" by (auto simp: ToggleMaximize_def split: option.split)
  with assms show ?thesis by simp
qed

lemma grab_ok:
  "shell_wm st \<Longrightarrow> 0 \<le> k \<Longrightarrow> k < 4 \<Longrightarrow> d = DRAG_WSIZE \<or> d = DRAG_WMOVE \<Longrightarrow>
     shell_wm (st\<lparr>s_nFocus := k, s_nDragKind := d, s_nDragTarget := k, s_nDragOffX := a, s_nDragOffY := b\<rparr>)"
  by (simp add: shell_wm_def) (auto simp: wm_ok_def)

lemma grab_window_ok:
  "grab_window x y sh ks st = Some st' \<Longrightarrow> shell_wm st \<Longrightarrow> \<forall>k \<in> set ks. 0 \<le> k \<and> k < 4 \<Longrightarrow> shell_wm st'"
proof (induction ks)
  case (Cons k ks)
  have k: "0 \<le> k" "k < 4" using Cons.prems(3) by simp_all
  note g = grab_ok [OF Cons.prems(2) k]
  from Cons.prems(1) consider "grab_window x y sh ks st = Some st'"
    | d a b where "d = DRAG_WSIZE \<or> d = DRAG_WMOVE"
      "st' = st\<lparr>s_nFocus := k, s_nDragKind := d, s_nDragTarget := k, s_nDragOffX := a, s_nDragOffY := b\<rparr>"
    unfolding grab_window.simps Let_def by (metis option.inject)
  then show ?case
  proof cases
    case 1
    with Cons show ?thesis by simp
  next
    case 2
    with g show ?thesis by simp
  qed
qed simp

lemma grab_icon_ok: "shell_wm st \<Longrightarrow> shell_wm (grab_icon x y st)"
proof -
  assume st: "shell_wm st"
  let ?k = "icon_scan (take (nat (s_cDesk st)) (s_aDeskPos st)) x y 0"
  have "- 1 \<le> ?k" "?k < s_cDesk st" using DeskIconAt_range [of st x y] st by (simp_all add: DeskIconAt_def shell_wm_def)
  moreover have "s_cDesk st \<le> 24" using st by (simp add: shell_wm_def desk_ok_def desk_raw_def)
  ultimately show ?thesis using st
    by (auto simp: grab_icon_def Let_def shell_wm_def wm_ok_def desk_ok_def desk_raw_def icons_ok_def)
qed

lemma in_menu_row: "in_menu x y \<Longrightarrow> 0 \<le> (y - menu_y) div ROW_H \<and> (y - menu_y) div ROW_H < START_N"
  by (auto simp: in_menu_def ROW_H_def START_N_def)

lemma DragHitTest_ok: "shell_wm st \<Longrightarrow> ok (DragHitTest x y st) shell_wm"
proof -
  assume st: "shell_wm st"
  let ?s = "st\<lparr>s_nDragKind := DRAG_NONE, s_nDragTarget := - 1\<rparr>"
  have s: "shell_wm ?s" using st by (simp add: shell_wm_def wm_ok_def)
  show ?thesis
  proof (cases "s_bMenuOpen st")
    case True
    let ?r = "(y - menu_y) div ROW_H"
    have "shell_wm (?s\<lparr>s_nDragKind := DRAG_STARTITEM, s_nDragTarget := ?r\<rparr>)"
      if "in_menu x y" "sc_exe (s_start ! nat ?r) \<noteq> None \<or> sc_path (s_start ! nat ?r) \<noteq> None"
    proof -
      have "?r \<noteq> 5" using that(2) start_shutdown by auto
      with in_menu_row [OF that(1)] s show ?thesis by (auto simp: shell_wm_def wm_ok_def START_N_def)
    qed
    moreover have "at s_start ?r = Some (s_start ! nat ?r)" if "in_menu x y"
      using in_menu_row [OF that] by (intro at_in) (simp_all add: START_N_def s_start_def)
    ultimately show ?thesis using s True in_menu_row by (auto simp: DragHitTest_def Let_def)
  next
    case False
    show ?thesis
    proof (cases "s_pShared st")
      case None
      with False s show ?thesis by (simp add: DragHitTest_def grab_icon_ok)
    next
      case (Some sh)
      from s have "wm_ok ?s" by (simp add: shell_wm_def)
      from win_order_Some [OF this] Some obtain ks where ks: "win_order sh ?s = Some ks"
        "\<forall>k \<in> set ks. 0 \<le> k \<and> k < 4" by auto
      show ?thesis
      proof (cases "grab_window x y sh ks ?s")
        case None
        with False Some s ks show ?thesis by (simp add: DragHitTest_def grab_icon_ok)
      next
        case (Some st')
        with grab_window_ok [OF Some s ks(2)] False \<open>s_pShared st = _\<close> ks show ?thesis by (simp add: DragHitTest_def)
      qed
    qed
  qed
qed

text \<open>Everything but a Start-menu item whose index is not that of a window slot can be dragged.\<close>

lemma DragApply_ok:
  "shell_wm st \<Longrightarrow> s_nDragTarget st < 4 \<or> s_nDragKind st = DRAG_ICON \<Longrightarrow> ok (DragApply x y st) shell_wm"
  by (auto simp: DragApply_def shell_wm_def wm_ok_def win_set_def split: option.split)

lemma publish_shape: "length (sh_win (fold (publish_slot x y b t) ks sh)) = length (sh_win sh)"
  "sh_execPath (fold (publish_slot x y b t) ks sh) = sh_execPath sh"
  by (induction ks arbitrary: sh) (simp_all add: publish_slot_def)

lemma PublishPointer_ok: "shell_wm st \<Longrightarrow> ok (PublishPointer x y b st) shell_wm"
proof (cases "s_pShared st")
  case (Some sh)
  assume st: "shell_wm st"
  then have "wm_ok st" by (simp add: shell_wm_def)
  from wm_focus [OF this Some] st Some show ?thesis
    by (auto simp: PublishPointer_def pointer_order_def Let_def shell_wm_def wm_ok_def publish_shape)
qed (simp add: PublishPointer_def)

section \<open>Focus\<close>

lemma slot_cases: "0 \<le> (k :: int) \<Longrightarrow> k < 4 \<Longrightarrow> k = 0 \<or> k = 1 \<or> k = 2 \<or> k = 3"
  by linarith

text \<open>
  C37: Tab goes round: from the window in slot \<open>f\<close> (\<open>-1\<close> is the desktop) focus moves to the next
  open window in slot order and from the last one back to the desktop, so that every open
  window is reached.
\<close>
theorem CycleFocus_rotates:
  assumes "wm_ok st" and "s_pShared st = Some sh"
  shows "CycleFocus st = Some (st\<lparr>s_nFocus :=
     (case filter (\<lambda>k. dw_inUse (sh_win sh ! nat k) \<and> s_nFocus st < k) slots of [] \<Rightarrow> - 1 | k # _ \<Rightarrow> k)\<rparr>)"
proof -
  have l: "length (sh_win sh) = 4" and f: "- 1 \<le> s_nFocus st" "s_nFocus st < 4"
    using assms by (auto simp: wm_ok_def)
  then consider "s_nFocus st = - 1" | "s_nFocus st = 0" | "s_nFocus st = 1" | "s_nFocus st = 2" | "s_nFocus st = 3"
    by linarith
  then have "cycle 4 sh (s_nFocus st) = Some (case filter (\<lambda>k. dw_inUse (sh_win sh ! nat k) \<and> s_nFocus st < k) slots of
      [] \<Rightarrow> - 1 | k # _ \<Rightarrow> k)"
    by cases (simp_all add: slots_def l eval_nat_numeral at_def)
  with assms(2) show ?thesis by (simp add: CycleFocus_def)
qed

lemma four_entries: "length xs = 4 \<Longrightarrow> \<exists>a b c d. xs = [a, b, c, d]"
  by (simp add: numeral_nat length_Suc_conv) blast

lemma fixup_sel:
  "s_abWasInUse (fixup_slot sh i s) = (s_abWasInUse s)[nat i := dw_inUse (sh_win sh ! nat i)]"
  "s_nFocus (fixup_slot sh i s) = (if dw_inUse (sh_win sh ! nat i) \<and> \<not> s_abWasInUse s ! nat i then i else s_nFocus s)"
  by (simp_all add: fixup_slot_def Let_def)

text \<open>The last slot that opened wins.\<close>

lemma fold_fixup_focus:
  "distinct ks \<Longrightarrow> \<forall>k \<in> set ks. 0 \<le> k \<Longrightarrow>
   s_nFocus (fold (fixup_slot sh) ks s) =
     (let new = filter (\<lambda>k. dw_inUse (sh_win sh ! nat k) \<and> \<not> s_abWasInUse s ! nat k) ks
      in if new \<noteq> [] then last new else s_nFocus s)"
proof (induction ks arbitrary: s)
  case (Cons k ks)
  let ?P = "\<lambda>s j. dw_inUse (sh_win sh ! nat j) \<and> \<not> s_abWasInUse s ! nat j"
  have e: "filter (?P (fixup_slot sh k s)) ks = filter (?P s) ks"
  proof (intro filter_cong refl)
    fix j assume "j \<in> set ks"
    with Cons.prems have "nat j \<noteq> nat k" by (auto simp: nat_eq_iff)
    then show "?P (fixup_slot sh k s) j = ?P s j" by (simp add: fixup_sel)
  qed
  have "s_nFocus (fold (fixup_slot sh) ks (fixup_slot sh k s)) =
     (if filter (?P s) ks \<noteq> [] then last (filter (?P s) ks) else s_nFocus (fixup_slot sh k s))"
    using Cons.IH [of "fixup_slot sh k s"] Cons.prems unfolding e Let_def by simp
  then show ?case by (simp add: fixup_sel(2) Let_def)
qed simp

text \<open>
  After each frame the focus is the desktop or an open window: a window that opened since
  the last frame gets it (the highest slot if several did), a focused window that closed
  gives it up, and otherwise it stays.
\<close>
theorem FixupFocus_focus:
  assumes "wm_ok st" and "s_pShared st = Some sh"
  shows "\<exists>st'. FixupFocus st = Some st'
    \<and> s_abWasInUse st' = map (\<lambda>k. dw_inUse (sh_win sh ! nat k)) slots
    \<and> (s_nFocus st' = - 1 \<or> (0 \<le> s_nFocus st' \<and> s_nFocus st' < 4 \<and> dw_inUse (sh_win sh ! nat (s_nFocus st'))))
    \<and> s_nFocus st' = (let new = filter (\<lambda>k. dw_inUse (sh_win sh ! nat k) \<and> \<not> s_abWasInUse st ! nat k) slots
        in if new \<noteq> [] then last new
           else if s_nFocus st \<ge> 0 \<and> \<not> dw_inUse (sh_win sh ! nat (s_nFocus st)) then - 1 else s_nFocus st)"
proof -
  obtain a b c d where was: "s_abWasInUse st = [a, b, c, d]"
    using four_entries assms(1) unfolding wm_ok_def by metis
  define s1 where "s1 = (if s_nFocus st \<ge> 0 \<and> \<not> dw_inUse (sh_win sh ! nat (s_nFocus st)) then st\<lparr>s_nFocus := - 1\<rparr> else st)"
  have e: "FixupFocus st = Some (fold (fixup_slot sh) slots s1)"
    using wm_focus [OF assms] assms(2) by (simp add: FixupFocus_def s1_def)
  have w1: "s_abWasInUse s1 = [a, b, c, d]"
    and f1: "s_nFocus s1 = (if s_nFocus st \<ge> 0 \<and> \<not> dw_inUse (sh_win sh ! nat (s_nFocus st)) then - 1 else s_nFocus st)"
    by (simp_all add: s1_def was)
  have w: "s_abWasInUse (fold (fixup_slot sh) slots s1) = map (\<lambda>k. dw_inUse (sh_win sh ! nat k)) slots"
    by (simp add: slots_def fixup_sel w1)
  have f: "s_nFocus (fold (fixup_slot sh) slots s1) = (let new = filter (\<lambda>k. dw_inUse (sh_win sh ! nat k) \<and> \<not> s_abWasInUse st ! nat k) slots
        in if new \<noteq> [] then last new else s_nFocus s1)"
    using fold_fixup_focus [of slots sh s1] by (simp only: w1 was) (simp add: slots_def)
  have r: "s_nFocus s1 = - 1 \<or> (0 \<le> s_nFocus s1 \<and> s_nFocus s1 < 4 \<and> dw_inUse (sh_win sh ! nat (s_nFocus s1)))"
    using assms(1) by (auto simp: f1 wm_ok_def)
  let ?new = "filter (\<lambda>k. dw_inUse (sh_win sh ! nat k) \<and> \<not> s_abWasInUse st ! nat k) slots"
  have n: "0 \<le> last ?new \<and> last ?new < 4 \<and> dw_inUse (sh_win sh ! nat (last ?new))" if "?new \<noteq> []"
    using last_in_set [OF that] slots_range by auto
  let ?st = "fold (fixup_slot sh) slots s1"
  have g: "s_nFocus ?st = (if ?new \<noteq> [] then last ?new else s_nFocus s1)" using f by (simp only: Let_def)
  have "s_nFocus ?st = - 1 \<or> (0 \<le> s_nFocus ?st \<and> s_nFocus ?st < 4 \<and> dw_inUse (sh_win sh ! nat (s_nFocus ?st)))"
    unfolding g using r n by (simp only: split: if_split) blast
  moreover have "s_nFocus ?st = (let new = ?new in if new \<noteq> [] then last new
      else if s_nFocus st \<ge> 0 \<and> \<not> dw_inUse (sh_win sh ! nat (s_nFocus st)) then - 1 else s_nFocus st)"
    unfolding g f1 by (simp only: Let_def)
  ultimately show ?thesis using e w by blast
qed

section \<open>Geometry\<close>

lemma win_upd_nth: "i < length (sh_win sh) \<Longrightarrow> sh_win (win_upd k f sh) ! i = (if i = k then f (sh_win sh ! k) else sh_win sh ! i)"
  by (simp add: win_upd_def nth_list_update)

text \<open>
  Maximizing and restoring a window gives it back its place and size, and changes nothing
  else in the shared section.
\<close>
theorem ToggleMaximize_restores:
  assumes "wm_ok st" and "s_pShared st = Some sh" and "0 \<le> k" and "k < 4"
    and "dw_inUse (sh_win sh ! nat k)" and "\<not> s_abWinMax st ! nat k"
  shows "s_pShared (ToggleMaximize k (ToggleMaximize k st)) = Some sh
    \<and> s_abWinMax (ToggleMaximize k (ToggleMaximize k st)) = s_abWinMax st
    \<and> s_abWinMax (ToggleMaximize k st) ! nat k"
proof -
  let ?w = "sh_win sh ! nat k"
  have l: "nat k < length (sh_win sh)" "nat k < length (s_abWinMax st)" "nat k < length (s_awinRestore st)"
    using assms by (auto simp: wm_ok_def)
  let ?sh = "win_upd (nat k) (\<lambda>w. w\<lparr>dw_x := 2, dw_y := 20, dw_w := SCREEN_W - 4, dw_h := TASK_Y - 22\<rparr>) sh"
  let ?s = "ToggleMaximize k st"
  have s: "s_pShared ?s = Some ?sh" "s_abWinMax ?s = (s_abWinMax st)[nat k := True]"
    "s_awinRestore ?s ! nat k = (dw_x ?w, dw_y ?w, dw_w ?w, dw_h ?w)"
    using assms l by (simp_all add: ToggleMaximize_def Let_def)
  have w': "sh_win ?sh ! nat k = ?w\<lparr>dw_x := 2, dw_y := 20, dw_w := SCREEN_W - 4, dw_h := TASK_Y - 22\<rparr>"
    using l by (simp add: win_upd_nth)
  then have u: "dw_inUse (sh_win ?sh ! nat k)" using assms(5) by simp
  have "win_upd (nat k) (\<lambda>w. w\<lparr>dw_x := dw_x ?w, dw_y := dw_y ?w, dw_w := dw_w ?w, dw_h := dw_h ?w\<rparr>) ?sh = sh"
    using l by (simp add: win_upd_def)
  moreover have "(s_abWinMax st)[nat k := False] = s_abWinMax st"
    using assms(6) by (metis list_update_id)
  ultimately show ?thesis
    using s u assms(3,4) l by (simp add: ToggleMaximize_def [of k ?s] Let_def)
qed

text \<open>
  A dragged window stays reachable: its title bar is on the screen above the taskbar and
  at least forty pixels of it are inside horizontally (when it is wide enough), a resized one
  keeps a size between the minimum and the screen; no other window is touched.
\<close>
theorem DragApply_bounds:
  assumes "wm_ok st" and "s_pShared st = Some sh" and "s_nDragKind st = DRAG_WMOVE \<or> s_nDragKind st = DRAG_WSIZE"
    and "dw_inUse (sh_win sh ! nat (s_nDragTarget st))"
  shows "\<exists>st' sh'. DragApply x y st = Some st' \<and> s_pShared st' = Some sh'
    \<and> (let w = sh_win sh ! nat (s_nDragTarget st); w' = sh_win sh' ! nat (s_nDragTarget st) in
       if s_nDragKind st = DRAG_WMOVE
       then w' = w\<lparr>dw_x := dw_x w', dw_y := dw_y w'\<rparr> \<and> 18 \<le> dw_y w' \<and> dw_y w' < TASK_Y
          \<and> dw_x w' \<le> SCREEN_W - 40 \<and> min (40 - dw_w w) (SCREEN_W - 40) \<le> dw_x w'
       else w' = w\<lparr>dw_w := dw_w w', dw_h := dw_h w'\<rparr> \<and> WIN_MINW \<le> dw_w w' \<and> dw_w w' \<le> SCREEN_W
          \<and> WIN_MINH \<le> dw_h w' \<and> dw_h w' \<le> SCREEN_H)
    \<and> (\<forall>j < 4. j \<noteq> nat (s_nDragTarget st) \<longrightarrow> sh_win sh' ! j = sh_win sh ! j)"
proof -
  let ?k = "nat (s_nDragTarget st)" and ?w = "sh_win sh ! nat (s_nDragTarget st)"
  have t: "0 \<le> s_nDragTarget st" "?k < length (sh_win sh)" "length (sh_win sh) = 4"
    using assms(1-3) by (auto simp: wm_ok_def)
  have geo: "18 \<le> dw_y (move_to a b w)" "dw_y (move_to a b w) < TASK_Y" "dw_x (move_to a b w) \<le> SCREEN_W - 40"
    "min (40 - dw_w w) (SCREEN_W - 40) \<le> dw_x (move_to a b w)"
    "move_to a b w = w\<lparr>dw_x := dw_x (move_to a b w), dw_y := dw_y (move_to a b w)\<rparr>" for a b w
    by (simp_all add: move_to_def Let_def TASK_Y_def SCREEN_W_def)
  have siz: "WIN_MINW \<le> dw_w (size_to a b w)" "dw_w (size_to a b w) \<le> SCREEN_W" "WIN_MINH \<le> dw_h (size_to a b w)"
    "dw_h (size_to a b w) \<le> SCREEN_H"
    "size_to a b w = w\<lparr>dw_w := dw_w (size_to a b w), dw_h := dw_h (size_to a b w)\<rparr>" for a b w
    by (simp_all add: size_to_def Let_def WIN_MINW_def WIN_MINH_def SCREEN_W_def SCREEN_H_def)
  have at: "at (sh_win sh) (s_nDragTarget st) = Some ?w" using t by simp
  show ?thesis
  proof (cases "s_nDragKind st = DRAG_WMOVE")
    case True
    let ?f = "move_to (x - s_nDragOffX st) (y - s_nDragOffY st)"
    have d: "DragApply x y st = Some ((win_set (s_nDragTarget st) ?f st)\<lparr>s_bDirty := True\<rparr>)"
      using True assms at t by (simp add: DragApply_def)
    have "sh_win (win_upd ?k ?f sh) ! ?k = ?f ?w" using t by (simp add: win_upd_nth)
    moreover have "\<forall>j < 4. j \<noteq> ?k \<longrightarrow> sh_win (win_upd ?k ?f sh) ! j = sh_win sh ! j" using t by (simp add: win_upd_nth)
    moreover have "s_pShared ((win_set (s_nDragTarget st) ?f st)\<lparr>s_bDirty := True\<rparr>) = Some (win_upd ?k ?f sh)"
      using assms(2) by simp
    ultimately show ?thesis using d True geo [where w = ?w and a = "x - s_nDragOffX st" and b = "y - s_nDragOffY st"]
      unfolding Let_def by metis
  next
    case False
    let ?f = "size_to (x - s_nDragOffX st - dw_x ?w) (y - s_nDragOffY st - dw_y ?w)"
    have d: "DragApply x y st = Some ((win_set (s_nDragTarget st) ?f st)\<lparr>s_bDirty := True\<rparr>)"
      using False assms at t by (simp add: DragApply_def)
    have "sh_win (win_upd ?k ?f sh) ! ?k = ?f ?w" using t by (simp add: win_upd_nth)
    moreover have "\<forall>j < 4. j \<noteq> ?k \<longrightarrow> sh_win (win_upd ?k ?f sh) ! j = sh_win sh ! j" using t by (simp add: win_upd_nth)
    moreover have "s_pShared ((win_set (s_nDragTarget st) ?f st)\<lparr>s_bDirty := True\<rparr>) = Some (win_upd ?k ?f sh)"
      using assms(2) by simp
    ultimately show ?thesis
      using d False siz [where w = ?w and a = "x - s_nDragOffX st - dw_x ?w" and b = "y - s_nDragOffY st - dw_y ?w"]
      unfolding Let_def by metis
  qed
qed

section \<open>The pointer\<close>

lemma publish_nth:
  assumes "length (sh_win sh) = 4" and "0 \<le> k" and "k < 4"
  shows "sh_win (fold (publish_slot x y b t) slots sh) ! nat k =
    (let w = sh_win sh ! nat k in if \<not> dw_inUse w then w
     else if k = t then w\<lparr>dw_ptrX := x - dw_x w, dw_ptrY := y - dw_y w, dw_ptrBtn := b\<rparr> else w\<lparr>dw_ptrX := - 1\<rparr>)"
  using slot_cases [OF assms(2,3)] assms(1)
  by (elim disjE) (simp_all add: slots_def publish_slot_def win_upd_nth Let_def)

lemma PublishPointer_Some:
  assumes "wm_ok st" and "s_pShared st = Some sh"
  shows "\<exists>ks. pointer_order sh st = Some ks
    \<and> (\<forall>k \<in> set ks. 0 \<le> k \<and> k < 4 \<and> dw_inUse (sh_win sh ! nat k) \<and> \<not> s_abWinMin st ! nat k)
    \<and> PublishPointer x y b st = Some (st\<lparr>s_pShared := Some (fold (publish_slot x y b
        (case List.find (\<lambda>k. in_client x y (sh_win sh ! nat k)) ks of Some k \<Rightarrow> k | None \<Rightarrow> - 1)) slots sh)\<rparr>)"
  using wm_focus [OF assms] assms slots_range
  by (auto simp: PublishPointer_def pointer_order_def wm_ok_def)

text \<open>
  At most one window is told where the pointer is: a visible one that has it inside its
  client area, in the window's own coordinates; every other open window is told it is
  elsewhere.
\<close>
theorem PublishPointer_target:
  assumes "wm_ok st" and "s_pShared st = Some sh"
  shows "\<exists>st' sh' t. PublishPointer x y b st = Some st' \<and> s_pShared st' = Some sh'
    \<and> (t = - 1 \<or> (0 \<le> t \<and> t < 4 \<and> dw_inUse (sh_win sh ! nat t) \<and> \<not> s_abWinMin st ! nat t
         \<and> in_client x y (sh_win sh ! nat t)
         \<and> dw_ptrX (sh_win sh' ! nat t) = x - dw_x (sh_win sh ! nat t)
         \<and> dw_ptrY (sh_win sh' ! nat t) = y - dw_y (sh_win sh ! nat t)
         \<and> 0 \<le> dw_ptrX (sh_win sh' ! nat t) \<and> dw_ptrBtn (sh_win sh' ! nat t) = b))
    \<and> (\<forall>k \<in> {0..<4}. k \<noteq> t \<and> dw_inUse (sh_win sh ! nat k) \<longrightarrow> dw_ptrX (sh_win sh' ! nat k) = - 1)"
proof -
  from PublishPointer_Some [OF assms, of x y b] obtain ks where
    ks: "\<forall>k \<in> set ks. 0 \<le> k \<and> k < 4 \<and> dw_inUse (sh_win sh ! nat k) \<and> \<not> s_abWinMin st ! nat k"
    and p: "PublishPointer x y b st = Some (st\<lparr>s_pShared := Some (fold (publish_slot x y b
        (case List.find (\<lambda>k. in_client x y (sh_win sh ! nat k)) ks of Some k \<Rightarrow> k | None \<Rightarrow> - 1)) slots sh)\<rparr>)" by blast
  define t where "t = (case List.find (\<lambda>k. in_client x y (sh_win sh ! nat k)) ks of Some k \<Rightarrow> k | None \<Rightarrow> - 1)"
  let ?sh = "fold (publish_slot x y b t) slots sh"
  have l: "length (sh_win sh) = 4" using assms by (simp add: wm_ok_def)
  note n = publish_nth [OF l, of _ x y b t]
  have t: "t = - 1 \<or> (t \<in> set ks \<and> in_client x y (sh_win sh ! nat t))"
    by (auto simp: t_def find_Some_iff split: option.split)
  have "t = - 1 \<or> (0 \<le> t \<and> t < 4 \<and> dw_inUse (sh_win sh ! nat t) \<and> \<not> s_abWinMin st ! nat t
         \<and> in_client x y (sh_win sh ! nat t)
         \<and> dw_ptrX (sh_win ?sh ! nat t) = x - dw_x (sh_win sh ! nat t)
         \<and> dw_ptrY (sh_win ?sh ! nat t) = y - dw_y (sh_win sh ! nat t)
         \<and> 0 \<le> dw_ptrX (sh_win ?sh ! nat t) \<and> dw_ptrBtn (sh_win ?sh ! nat t) = b)"
    using t ks n [of t] by (auto simp: Let_def in_client_def)
  moreover have "\<forall>k \<in> {0..<4}. k \<noteq> t \<and> dw_inUse (sh_win sh ! nat k) \<longrightarrow> dw_ptrX (sh_win ?sh ! nat k) = - 1"
    using n by (simp add: Let_def)
  ultimately show ?thesis using p unfolding t_def [symmetric] by fastforce
qed

text \<open>
  Clicks fall through the border of the focused window: when the pointer is on its title
  bar or border (the hit test says the focused window) and another open window has the point
  in its client area, the pointer and its button are given to a window underneath.
\<close>
theorem PublishPointer_click_through:
  assumes "wm_ok st" and "s_pShared st = Some sh"
    and "0 \<le> s_nFocus st" and "dw_inUse (sh_win sh ! nat (s_nFocus st))" and "\<not> s_abWinMin st ! nat (s_nFocus st)"
    and "in_frame x y (sh_win sh ! nat (s_nFocus st))" and "\<not> in_client x y (sh_win sh ! nat (s_nFocus st))"
    and "0 \<le> k" and "k < 4" and "dw_inUse (sh_win sh ! nat k)" and "\<not> s_abWinMin st ! nat k"
    and "in_client x y (sh_win sh ! nat k)"
  shows "WindowAt x y st = Some (s_nFocus st)
    \<and> (\<exists>st' sh' t. PublishPointer x y True st = Some st' \<and> s_pShared st' = Some sh' \<and> 0 \<le> t \<and> t \<noteq> s_nFocus st
         \<and> dw_ptrX (sh_win sh' ! nat t) = x - dw_x (sh_win sh ! nat t) \<and> 0 \<le> dw_ptrX (sh_win sh' ! nat t)
         \<and> dw_ptrBtn (sh_win sh' ! nat t))"
proof
  note w = wm_focus [OF assms(1-3)]
  show "WindowAt x y st = Some (s_nFocus st)" using w assms by (simp add: WindowAt_def)
  let ?rest = "filter (\<lambda>k. dw_inUse (sh_win sh ! nat k) \<and> \<not> s_abWinMin st ! nat k \<and> k \<noteq> s_nFocus st) slots"
  let ?c = "\<lambda>k. in_client x y (sh_win sh ! nat k)"
  have "k \<noteq> s_nFocus st" using assms(7,12) by auto
  then have "k \<in> set ?rest" using assms(8-11) slots_range by simp
  then have "List.find ?c ?rest \<noteq> None" using assms(12) by (auto simp: find_None_iff)
  then obtain t where t: "List.find ?c ?rest = Some t" by auto
  then have tr: "t \<in> set ?rest" "?c t" using find_in [OF t] by simp_all
  then have t4: "0 \<le> t" "t < 4" "dw_inUse (sh_win sh ! nat t)" "t \<noteq> s_nFocus st" using slots_range by auto
  have l: "length (sh_win sh) = 4" using assms(1,2) by (simp add: wm_ok_def)
  have o: "pointer_order sh st = Some (s_nFocus st # ?rest)" using w assms by (simp add: pointer_order_def)
  then have "PublishPointer x y True st = Some (st\<lparr>s_pShared := Some (fold (publish_slot x y True t) slots sh)\<rparr>)"
    using assms(2,7) t by (simp add: PublishPointer_def)
  moreover have "sh_win (fold (publish_slot x y True t) slots sh) ! nat t =
      (sh_win sh ! nat t)\<lparr>dw_ptrX := x - dw_x (sh_win sh ! nat t), dw_ptrY := y - dw_y (sh_win sh ! nat t), dw_ptrBtn := True\<rparr>"
    using publish_nth [OF l t4(1,2), of x y True t] t4 by (simp add: Let_def)
  moreover have "0 \<le> x - dw_x (sh_win sh ! nat t)" using tr(2) by (simp add: in_client_def)
  ultimately show "\<exists>st' sh' t. PublishPointer x y True st = Some st' \<and> s_pShared st' = Some sh' \<and> 0 \<le> t \<and> t \<noteq> s_nFocus st
         \<and> dw_ptrX (sh_win sh' ! nat t) = x - dw_x (sh_win sh ! nat t) \<and> 0 \<le> dw_ptrX (sh_win sh' ! nat t)
         \<and> dw_ptrBtn (sh_win sh' ! nat t)"
    using t4 by (intro exI [of _ "st\<lparr>s_pShared := Some (fold (publish_slot x y True t) slots sh)\<rparr>"]
        exI [of _ "fold (publish_slot x y True t) slots sh"] exI [of _ t]) simp
qed

section \<open>A sample\<close>

text \<open>Two windows, the second lying over the first.\<close>

definition two_wins :: dcshared where
  "two_wins = InitShared\<lparr>sh_win := [zero_win\<lparr>dw_inUse := True, dw_x := 100, dw_y := 100, dw_w := 200, dw_h := 150\<rparr>,
     zero_win\<lparr>dw_inUse := True, dw_x := 140, dw_y := 160, dw_w := 200, dw_h := 150\<rparr>, zero_win, zero_win]\<rparr>"

definition wm0 :: "(string \<times> byte list) list wm" where
  "wm0 = disp.extend (disp0 sample_card)
     \<lparr>s_pShared = Some two_wins, s_nFocus = 1, s_abWasInUse = [True, False, False, True], s_adwLastGen = [0, 0, 0, 0],
       s_abWinMax = [False, False, False, False],
       s_awinRestore = replicate 4 (0, 0, 0, 0), s_abWinMin = [False, False, False, False],
       s_dwReapAccess = True, s_bMenuOpen = False, s_nMenuSel = 0, s_nDragKind = DRAG_WMOVE, s_nDragTarget = 0,
       s_nDragOffX = 0, s_nDragOffY = 0\<rparr>"

lemma wm0_parts:
  "s_pShared wm0 = Some two_wins" "s_nFocus wm0 = 1" "s_abWasInUse wm0 = [True, False, False, True]"
  "s_abWinMax wm0 = [False, False, False, False]" "s_abWinMin wm0 = [False, False, False, False]"
  "s_nDragKind wm0 = DRAG_WMOVE" "s_nDragTarget wm0 = 0" "wm_ok wm0"
  by (simp_all add: wm0_def disp.defs wm_ok_def two_wins_def InitShared_def)

lemma two_wins_parts: "sh_win two_wins ! 0 = zero_win\<lparr>dw_inUse := True, dw_x := 100, dw_y := 100, dw_w := 200, dw_h := 150\<rparr>"
  "sh_win two_wins ! Suc 0 = zero_win\<lparr>dw_inUse := True, dw_x := 140, dw_y := 160, dw_w := 200, dw_h := 150\<rparr>"
  "sh_win two_wins ! 2 = zero_win" "sh_win two_wins ! 3 = zero_win"
  by (simp_all add: two_wins_def)

theorem CycleFocus_rotates_witness: "CycleFocus wm0 = Some (wm0\<lparr>s_nFocus := - 1\<rparr>)"
  using CycleFocus_rotates [of wm0 two_wins] by (simp add: wm0_parts slots_def two_wins_parts zero_win_def)

theorem FixupFocus_focus_witness: "\<exists>st'. FixupFocus wm0 = Some st' \<and> s_nFocus st' = 1
    \<and> s_abWasInUse st' = [True, True, False, False]"
  using FixupFocus_focus [of wm0 two_wins] by (auto simp: wm0_parts slots_def two_wins_parts zero_win_def)

theorem ToggleMaximize_restores_witness:
  "s_pShared (ToggleMaximize 0 (ToggleMaximize 0 wm0)) = Some two_wins"
  using ToggleMaximize_restores [of wm0 two_wins 0] by (simp add: wm0_parts two_wins_parts)

theorem DragApply_bounds_witness:
  "\<exists>st' sh'. DragApply 5000 (- 300) wm0 = Some st' \<and> s_pShared st' = Some sh' \<and> dw_x (sh_win sh' ! 0) \<le> 600
     \<and> 18 \<le> dw_y (sh_win sh' ! 0)"
  using DragApply_bounds [of wm0 two_wins 5000 "- 300"]
  by (auto simp: wm0_parts two_wins_parts Let_def SCREEN_W_def)

theorem PublishPointer_target_witness:
  "\<exists>st'. PublishPointer 150 165 True wm0 = Some st'"
  using PublishPointer_target [of wm0 two_wins 150 165 True] by (auto simp: wm0_parts)

theorem PublishPointer_click_through_witness:
  "WindowAt 150 150 wm0 = Some 1
   \<and> (\<exists>st' sh' t. PublishPointer 150 150 True wm0 = Some st' \<and> s_pShared st' = Some sh' \<and> t \<noteq> 1
        \<and> dw_ptrBtn (sh_win sh' ! nat t))"
  using PublishPointer_click_through [of wm0 two_wins 150 150 0]
  by (auto simp: wm0_parts two_wins_parts in_frame_def in_client_def)

end
