(* ===== verification/Shell.thy ===== *)
theory Shell
  imports Winman
begin

text \<open>
  How the shell of \<open>shell/dcshell.c\<close> acts on input: starting applications, the context
  menu, the Start menu, and the dispatch of a key (\<open>OnKey\<close>) or a click (\<open>HandleClick\<close>)
  to the dialog, the menus, the windows and the desktop.

  Starting a process is a call that leaves the shell: it is recorded in \<open>s_out\<close>. What the
  system answers is an argument, \<open>shenv\<close>, and may depend on everything the shell did before.
  A string is passed as the characters in memory, terminator included; \<open>None\<close> is an access
  outside an array or through a null pointer.
\<close>

unbundle bit_operations_syntax

section \<open>State\<close>

datatype ctxcmd = CTXC_OPEN | CTXC_DELETE | CTXC_ARRANGE | CTXC_REFRESH | CTXC_DISPLAY

record 'v shell = "'v wm" +
  s_pCtxItems :: "(wtxt \<times> ctxcmd) list option"
  s_nCtxCount :: int
  s_nCtxSel :: int
  s_nCtxX :: int
  s_nCtxY :: int
  s_nCtxIcon :: int
  s_dwLastExec :: u32
  s_nCx :: int
  s_nCy :: int
  s_bBsod :: bool
  s_crash :: dccrash
  s_dwCrashSeq :: u32
  s_dwBsodAt :: u32
  s_bDragMoved :: bool
  s_bPtrWas :: bool
  s_nDownX :: int
  s_nDownY :: int
  s_nLastHk :: hotkey
  s_dwLastExit :: u32
  s_din :: din
  s_dwNext :: u32
  s_nGhostIcon :: int
  s_dwNextPresent :: u32

record shenv =
  e_now :: "uievent list \<Rightarrow> u32"
  e_run :: "uievent list \<Rightarrow> wtxt \<Rightarrow> u32 option"
  e_bmps :: "wtxt list"
  e_alive :: "u32 \<Rightarrow> bool"

definition CTX_ROW_H :: int where "CTX_ROW_H = 18"
definition CTX_W :: int where "CTX_W = 128"

definition s_aCtxIconUser :: "(wtxt \<times> ctxcmd) list" where
  "s_aCtxIconUser = [(ws ''Open'', CTXC_OPEN), (ws ''Delete'', CTXC_DELETE)]"

definition s_aCtxIconBuiltin :: "(wtxt \<times> ctxcmd) list" where
  "s_aCtxIconBuiltin = [(ws ''Open'', CTXC_OPEN)]"

definition s_aCtxDesktop :: "(wtxt \<times> ctxcmd) list" where
  "s_aCtxDesktop = [(ws ''Arrange Icons'', CTXC_ARRANGE), (ws ''Refresh'', CTXC_REFRESH),
     (ws ''Properties'', CTXC_DISPLAY)]"

section \<open>The blue screen\<close>

text \<open>\<open>while (DInNextKey(&vk));\<close> and whether it took a key; the queue holds at most 31.\<close>

primrec drain_keys :: "nat \<Rightarrow> din \<Rightarrow> bool \<times> din" where
  "drain_keys 0 d = (False, d)"
| "drain_keys (Suc n) d =
     (case DInNextKey d of None \<Rightarrow> (False, d) | Some (_, d) \<Rightarrow> (True, snd (drain_keys n d)))"

definition RaiseBsod :: "shenv \<Rightarrow> 'v shell \<Rightarrow> 'v shell" where
  "RaiseBsod env st =
     (let d = snd (drain_keys 32 (s_din st));
          d = snd (DInTookActivate d);
          d = snd (DInTookContext d);
          d = snd (DInTookClick d)
      in st\<lparr>s_bDirty := True, s_bBsod := True, s_dwBsodAt := e_now env (s_out st), s_din := d\<rparr>)"

definition CheckFullscreenCrash :: "shenv \<Rightarrow> wtxt \<Rightarrow> u32 \<Rightarrow> 'v shell \<Rightarrow> 'v shell" where
  "CheckFullscreenCrash env pszExe dwExit st =
     (if dwExit AND 0xF0000000 \<noteq> 0xC0000000 then st
      else RaiseBsod env (st\<lparr>s_crash := zero_crash\<lparr>cr_code := dwExit, cr_access := 0xFFFFFFFF,
             cr_proc := copy_proc (basename pszExe) (cr_proc zero_crash)\<rparr>\<rparr>))"

section \<open>Starting applications\<close>

definition LaunchApp :: "wtxt \<Rightarrow> wchar list option \<Rightarrow> 'v shell \<Rightarrow> 'v shell option" where
  "LaunchApp pszExe pszArgs st =
     (if s_pShared st = None then Some st
      else do {
        szCl \<leftarrow> (case pszArgs of None \<Rightarrow> Some None
          | Some a \<Rightarrow> if 0 \<in> set a
              then do { b \<leftarrow> lstrcpyW (replicate 260 0) a; Some (Some (takeWhile (\<lambda>c. c \<noteq> 0) b)) }
              else None);
        Some (st\<lparr>s_out := s_out st @ [UiLaunch pszExe szCl]\<rparr>) })"

definition IsDcwApp :: "wtxt \<Rightarrow> bool" where
  "IsDcwApp p =
     (case rev (takeWhile (\<lambda>c. c \<noteq> 0x5C) (rev p)) of
        a # b # c # _ \<Rightarrow> a OR 32 = 0x64 \<and> b OR 32 = 0x63 \<and> c OR 32 = 0x77
      | _ \<Rightarrow> False)"

text \<open>
  \<open>GfxLaunch\<close> runs the program to its end; when the process cannot be created the recorded
  exit code keeps its old value.
\<close>

definition GfxLaunch :: "shenv \<Rightarrow> wtxt \<Rightarrow> 'v shell \<Rightarrow> 'v shell" where
  "GfxLaunch env path st =
     st\<lparr>s_out := s_out st @ [UiFullscreen path],
        s_dwLastExit := (case e_run env (s_out st) path of None \<Rightarrow> s_dwLastExit st | Some c \<Rightarrow> c)\<rparr>"

definition hand_off :: "shenv \<Rightarrow> wtxt \<Rightarrow> 'v shell \<Rightarrow> 'v shell" where
  "hand_off env szExe st =
     (let st = st\<lparr>s_out := s_out st @ [UiInputRelease]\<rparr>;
          st = GfxLaunch env szExe st;
          st = st\<lparr>s_out := s_out st @ [UiInputReacquire],
                 s_din := DInReacquire (e_now env (s_out st)) (s_din st)\<rparr>;
          st = CheckFullscreenCrash env szExe (s_dwLastExit st) st
      in st\<lparr>s_bDirty := True, s_bDeskDirty := True\<rparr>)"

definition ShellLaunch :: "shenv \<Rightarrow> wchar list \<Rightarrow> 'v shell \<Rightarrow> 'v shell option" where
  "ShellLaunch env pszCmd st = do {
     let szExe = takeWhile (\<lambda>c. c \<noteq> 0 \<and> c \<noteq> 0x20) (take 259 pszCmd);
     c \<leftarrow> at pszCmd (int (length szExe));
     let pszArgs = (if c = 0x20 then Some (drop (length szExe + 1) pszCmd) else None);
     if IsDcwApp szExe then LaunchApp szExe pszArgs st
     else Some (hand_off env szExe st) }"

text \<open>A shortcut: an Explorer window at its path, or its program.\<close>

definition open_shortcut :: "shenv \<Rightarrow> shortcut \<Rightarrow> 'v shell \<Rightarrow> 'v shell option" where
  "open_shortcut env sc st =
     (case sc_path sc of
        Some p \<Rightarrow> LaunchApp (ws ''dcwexp.exe'') (Some (p @ [0])) st
      | None \<Rightarrow> do { e \<leftarrow> sc_exe sc; ShellLaunch env (e @ [0]) st })"

section \<open>The context menu\<close>

definition CloseContextMenu :: "'v shell \<Rightarrow> 'v shell" where
  "CloseContextMenu st = st\<lparr>s_bDirty := True, s_pCtxItems := None\<rparr>"

definition OpenContextMenu :: "int \<Rightarrow> int \<Rightarrow> 'v shell \<Rightarrow> 'v shell option" where
  "OpenContextMenu x y st = do {
     let k = DeskIconAt x y st;
     (sel, icon, its) \<leftarrow> (if k \<ge> 0
       then do { u \<leftarrow> at (s_anDeskUser st) k;
                 Some (k, k, if u \<ge> 0 then s_aCtxIconUser else s_aCtxIconBuiltin) }
       else Some (s_nDeskSel st, - 1, s_aCtxDesktop));
     let h = int (length its) * CTX_ROW_H + 6;
     let x = (if x > SCREEN_W - CTX_W then SCREEN_W - CTX_W else x);
     let y = (if y > TASK_Y - h then TASK_Y - h else y);
     let x = (if x < 0 then 0 else x);
     let y = (if y < 0 then 0 else y);
     Some (st\<lparr>s_bDirty := True, s_nDeskSel := sel, s_bMenuOpen := False, s_pCtxItems := Some its,
       s_nCtxCount := int (length its), s_nCtxSel := 0, s_nCtxX := x, s_nCtxY := y, s_nCtxIcon := icon\<rparr>) }"

definition ContextActivate :: "shenv \<Rightarrow> 'v shell \<Rightarrow> 'v shell option" where
  "ContextActivate env st = do {
     nCmd \<leftarrow> (case s_pCtxItems st of
         Some its \<Rightarrow> if s_nCtxSel st \<ge> 0 \<and> s_nCtxSel st < s_nCtxCount st
           then map_option (\<lambda>it. Some (snd it)) (at its (s_nCtxSel st)) else Some None
       | None \<Rightarrow> Some None);
     let nIcon = s_nCtxIcon st;
     let st = CloseContextMenu st;
     st \<leftarrow> (case nCmd of
         None \<Rightarrow> Some st
       | Some CTXC_OPEN \<Rightarrow>
           if nIcon \<ge> 0 \<and> nIcon < s_cDesk st
           then do { sc \<leftarrow> at (s_aDesk st) nIcon; open_shortcut env sc st } else Some st
       | Some CTXC_DELETE \<Rightarrow>
           Some ((if nIcon \<ge> 0 then RemoveShortcut nIcon st else st)\<lparr>s_bDeskDirty := True\<rparr>)
       | Some CTXC_ARRANGE \<Rightarrow> Some ((DeskPosInit st)\<lparr>s_bDeskDirty := True\<rparr>)
       | Some CTXC_REFRESH \<Rightarrow> Some (st\<lparr>s_bDeskDirty := True\<rparr>)
       | Some CTXC_DISPLAY \<Rightarrow> OpenDisplayDialog (e_bmps env) st);
     Some (st\<lparr>s_bDirty := True\<rparr>) }"

section \<open>Keys\<close>

definition ActivateStartItem :: "shenv \<Rightarrow> 'v shell \<Rightarrow> 'v shell option" where
  "ActivateStartItem env st = do {
     sc \<leftarrow> at s_start (s_nMenuSel st);
     let st = st\<lparr>s_bMenuOpen := False\<rparr>;
     if sc_path sc = None \<and> sc_exe sc = None then Some st else open_shortcut env sc st }"

definition ctx_key :: "shenv \<Rightarrow> u32 \<Rightarrow> 'v shell \<Rightarrow> 'v shell option" where
  "ctx_key env wParam st =
     (if wParam = VK_UP \<and> s_nCtxSel st > 0
      then Some (st\<lparr>s_bDirty := True, s_nCtxSel := s_nCtxSel st - 1\<rparr>)
      else if wParam = VK_DOWN \<and> s_nCtxSel st < s_nCtxCount st - 1
      then Some (st\<lparr>s_bDirty := True, s_nCtxSel := s_nCtxSel st + 1\<rparr>)
      else if wParam = VK_RETURN then ContextActivate env st
      else if wParam = VK_ESCAPE then Some (CloseContextMenu st)
      else Some (st\<lparr>s_bDirty := True\<rparr>))"

definition menu_key :: "shenv \<Rightarrow> u32 \<Rightarrow> 'v shell \<Rightarrow> 'v shell option" where
  "menu_key env wParam st = do {
     let st = (if wParam = VK_UP \<and> s_nMenuSel st > 0 then st\<lparr>s_nMenuSel := s_nMenuSel st - 1\<rparr> else st);
     let st = (if wParam = VK_DOWN \<and> s_nMenuSel st < START_N - 1 then st\<lparr>s_nMenuSel := s_nMenuSel st + 1\<rparr> else st);
     st \<leftarrow> (if wParam = VK_RETURN then ActivateStartItem env st else Some st);
     let st = (if wParam = VK_ESCAPE then st\<lparr>s_bMenuOpen := False\<rparr> else st);
     Some (st\<lparr>s_bDirty := True\<rparr>) }"

definition grid_move :: "u32 \<Rightarrow> 'v shell \<Rightarrow> 'v shell" where
  "grid_move wParam st =
     (let nRow = s_nDeskSel st mod s_nDeskRows st;
          st = (if wParam = VK_UP \<and> nRow > 0 then st\<lparr>s_nDeskSel := s_nDeskSel st - 1\<rparr> else st);
          st = (if wParam = VK_DOWN \<and> nRow < s_nDeskRows st - 1 \<and> s_nDeskSel st + 1 < s_cDesk st
                then st\<lparr>s_nDeskSel := s_nDeskSel st + 1\<rparr> else st);
          st = (if wParam = VK_LEFT \<and> s_nDeskSel st - s_nDeskRows st \<ge> 0
                then st\<lparr>s_nDeskSel := s_nDeskSel st - s_nDeskRows st\<rparr> else st)
      in if wParam = VK_RIGHT \<and> s_nDeskSel st + s_nDeskRows st < s_cDesk st
         then st\<lparr>s_nDeskSel := s_nDeskSel st + s_nDeskRows st\<rparr> else st)"

definition desk_key :: "shenv \<Rightarrow> u32 \<Rightarrow> 'v shell \<Rightarrow> 'v shell option" where
  "desk_key env wParam st =
     (let st = st\<lparr>s_bDirty := True\<rparr>
      in if s_nDeskSel st < 0
         then Some (if wParam = VK_UP \<or> wParam = VK_DOWN \<or> wParam = VK_LEFT \<or> wParam = VK_RIGHT
                    then st\<lparr>s_nDeskSel := 0\<rparr> else st)
         else let st = grid_move wParam st
           in if wParam = VK_DELETE then Some (RemoveShortcut (s_nDeskSel st) st)
              else if wParam = VK_RETURN
              then do { sc \<leftarrow> at (s_aDesk st) (s_nDeskSel st); open_shortcut env sc st }
              else Some st)"

definition win_key :: "u32 \<Rightarrow> 'v shell \<Rightarrow> 'v shell" where
  "win_key wParam st =
     (if wParam = VK_ESCAPE then win_set (s_nFocus st) (\<lambda>w. w\<lparr>dw_wantClose := True\<rparr>) st
      else win_set (s_nFocus st) (ring_put wParam) st)"

text \<open>Whether a window has the keyboard.\<close>

definition focus_open :: "'v shell \<Rightarrow> bool option" where
  "focus_open st =
     (if s_nFocus st < 0 then Some False
      else case s_pShared st of None \<Rightarrow> Some False
        | Some sh \<Rightarrow> map_option dw_inUse (at (sh_win sh) (s_nFocus st)))"

definition OnKey :: "shenv \<Rightarrow> u32 \<Rightarrow> 'v shell \<Rightarrow> 'v shell option" where
  "OnKey env wParam st =
     (if s_bDlgOpen st then DlgOnKey wParam st
      else if s_pCtxItems st \<noteq> None then ctx_key env wParam st
      else if wParam = VK_TAB
      then do {
        st \<leftarrow> (if CountWindows st = 0 then Some (st\<lparr>s_bMenuOpen := \<not> s_bMenuOpen st, s_nMenuSel := 0\<rparr>)
              else CycleFocus st);
        Some (st\<lparr>s_bDirty := True\<rparr>) }
      else do {
        f \<leftarrow> focus_open st;
        if f then Some (win_key wParam st)
        else if s_bMenuOpen st then menu_key env wParam st
        else desk_key env wParam st })"

section \<open>Clicks\<close>

primrec task_button :: "int \<Rightarrow> int \<Rightarrow> dcshared \<Rightarrow> int list \<Rightarrow> int option" where
  "task_button x bx sh [] = None"
| "task_button x bx sh (k # ks) =
     (if \<not> dw_inUse (sh_win sh ! nat k) then task_button x bx sh ks
      else if x \<ge> bx \<and> x < bx + 110 then Some k
      else task_button x (bx + 116) sh ks)"

definition title_box :: "int \<Rightarrow> int \<Rightarrow> int \<Rightarrow> dcwindow \<Rightarrow> bool" where
  "title_box r x y w \<longleftrightarrow> x \<ge> dw_x w + dw_w w - r \<and> x \<le> dw_x w + dw_w w - r + 15
     \<and> y \<ge> dw_y w - 16 \<and> y \<le> dw_y w - 3"

primrec click_window :: "int \<Rightarrow> int \<Rightarrow> dcshared \<Rightarrow> int list \<Rightarrow> 'v shell \<Rightarrow> (bool \<times> 'v shell) option" where
  "click_window x y sh [] st = None"
| "click_window x y sh (k # ks) st =
     (let w = sh_win sh ! nat k
      in if s_abWinMin st ! nat k \<or> \<not> in_frame x y w then click_window x y sh ks st
         else if title_box 14 x y w then Some (True, win_set k (\<lambda>w. w\<lparr>dw_wantClose := True\<rparr>) st)
         else if title_box 30 x y w then Some (True, ToggleMaximize k st)
         else if title_box 46 x y w
         then Some (True, st\<lparr>s_bDirty := True, s_nFocus := (if s_nFocus st = k then - 1 else s_nFocus st),
                s_abWinMin := (s_abWinMin st)[nat k := True]\<rparr>)
         else Some (False, st\<lparr>s_nFocus := k\<rparr>))"

definition click_icon :: "shenv \<Rightarrow> int \<Rightarrow> int \<Rightarrow> 'v shell \<Rightarrow> (bool \<times> 'v shell) option" where
  "click_icon env x y st =
     (let k = icon_scan (take (nat (s_cDesk st)) (s_aDeskPos st)) x y 0
      in if k \<ge> 0
         then do { sc \<leftarrow> at (s_aDesk st) k;
                   st \<leftarrow> open_shortcut env sc (st\<lparr>s_nDeskSel := k\<rparr>);
                   Some (True, st) }
         else Some (False, st))"

definition in_ctx :: "int \<Rightarrow> int \<Rightarrow> 'v shell \<Rightarrow> bool" where
  "in_ctx x y st \<longleftrightarrow> x \<ge> s_nCtxX st \<and> x < s_nCtxX st + CTX_W \<and> y \<ge> s_nCtxY st + 3
     \<and> y < s_nCtxY st + 3 + s_nCtxCount st * CTX_ROW_H"

definition taskbar_hit :: "int \<Rightarrow> int \<Rightarrow> 'v shell \<Rightarrow> int option" where
  "taskbar_hit x y st =
     (if y \<ge> TASK_Y then case s_pShared st of None \<Rightarrow> None | Some sh \<Rightarrow> task_button x 80 sh slots
      else None)"

definition HandleClick :: "shenv \<Rightarrow> int \<Rightarrow> int \<Rightarrow> 'v shell \<Rightarrow> (bool \<times> 'v shell) option" where
  "HandleClick env x y st =
     (let st = st\<lparr>s_bDirty := True\<rparr>
      in if s_bDlgOpen st then map_option (Pair True) (DlgClick x y st)
         else if s_pCtxItems st \<noteq> None
         then map_option (Pair True)
           (if in_ctx x y st
            then ContextActivate env (st\<lparr>s_nCtxSel := (y - (s_nCtxY st + 3)) div CTX_ROW_H\<rparr>)
            else Some (CloseContextMenu st))
         else if s_bMenuOpen st
         then map_option (Pair True)
           (if in_menu x y
            then ActivateStartItem env (st\<lparr>s_nMenuSel := (y - menu_y) div ROW_H\<rparr>)
            else Some (st\<lparr>s_bMenuOpen := False\<rparr>))
         else if y \<ge> TASK_Y \<and> x \<ge> 4 \<and> x < 72
         then Some (True, st\<lparr>s_bMenuOpen := \<not> s_bMenuOpen st, s_nMenuSel := 0\<rparr>)
         else case taskbar_hit x y st of
           Some k \<Rightarrow> Some (True, st\<lparr>s_nFocus := k, s_abWinMin := (s_abWinMin st)[nat k := False]\<rparr>)
         | None \<Rightarrow> do {
             r \<leftarrow> (case s_pShared st of
                 None \<Rightarrow> Some None
               | Some sh \<Rightarrow> do { ks \<leftarrow> win_order sh st; Some (click_window x y sh ks st) });
             case r of Some a \<Rightarrow> Some a | None \<Rightarrow> click_icon env x y st })"

section \<open>Invariant\<close>

text \<open>A shortcut's strings fit the buffers a launch copies them into.\<close>

definition sc_fits :: "shortcut \<Rightarrow> bool" where
  "sc_fits sc \<longleftrightarrow> (\<forall>p. sc_path sc = Some p \<or> sc_exe sc = Some p \<longrightarrow> length p < 259)"

definition desk_fits :: "('v, 'm) desk_scheme \<Rightarrow> bool" where
  "desk_fits st \<longleftrightarrow> (\<forall>sc \<in> set (s_aDesk st). sc_fits sc)"

definition ctx_ok :: "'v shell \<Rightarrow> bool" where
  "ctx_ok st \<longleftrightarrow> (\<forall>its. s_pCtxItems st = Some its \<longrightarrow>
     s_nCtxCount st = int (length its) \<and> 0 \<le> s_nCtxSel st \<and> s_nCtxSel st < s_nCtxCount st)"

definition shell_ok :: "'v shell \<Rightarrow> bool" where
  "shell_ok st \<longleftrightarrow> shell_wm st \<and> ctx_ok st \<and> desk_fits st \<and> din_ok (s_din st)"

definition env_ok :: "shenv \<Rightarrow> bool" where
  "env_ok env \<longleftrightarrow> (\<forall>f \<in> set (e_bmps env). length f \<le> 63)"

text \<open>Updates each part does not look at.\<close>

lemma shell_wm_shell [simp]:
  fixes st :: "'v shell"
  shows
  "shell_wm (st\<lparr>s_pCtxItems := v0\<rparr>) = shell_wm st"
  "shell_wm (st\<lparr>s_nCtxCount := v1\<rparr>) = shell_wm st"
  "shell_wm (st\<lparr>s_nCtxSel := v2\<rparr>) = shell_wm st"
  "shell_wm (st\<lparr>s_nCtxX := v3\<rparr>) = shell_wm st"
  "shell_wm (st\<lparr>s_nCtxY := v4\<rparr>) = shell_wm st"
  "shell_wm (st\<lparr>s_nCtxIcon := v5\<rparr>) = shell_wm st"
  "shell_wm (st\<lparr>s_dwLastExec := v6\<rparr>) = shell_wm st"
  "shell_wm (st\<lparr>s_nCx := v7\<rparr>) = shell_wm st"
  "shell_wm (st\<lparr>s_nCy := v8\<rparr>) = shell_wm st"
  "shell_wm (st\<lparr>s_bBsod := v9\<rparr>) = shell_wm st"
  "shell_wm (st\<lparr>s_crash := v10\<rparr>) = shell_wm st"
  "shell_wm (st\<lparr>s_dwCrashSeq := v11\<rparr>) = shell_wm st"
  "shell_wm (st\<lparr>s_dwBsodAt := v12\<rparr>) = shell_wm st"
  "shell_wm (st\<lparr>s_bDragMoved := v13\<rparr>) = shell_wm st"
  "shell_wm (st\<lparr>s_bPtrWas := v14\<rparr>) = shell_wm st"
  "shell_wm (st\<lparr>s_nDownX := v15\<rparr>) = shell_wm st"
  "shell_wm (st\<lparr>s_nDownY := v16\<rparr>) = shell_wm st"
  "shell_wm (st\<lparr>s_nLastHk := v17\<rparr>) = shell_wm st"
  "shell_wm (st\<lparr>s_dwLastExit := v18\<rparr>) = shell_wm st"
  "shell_wm (st\<lparr>s_din := v19\<rparr>) = shell_wm st"
  "shell_wm (st\<lparr>s_dwNext := v20\<rparr>) = shell_wm st"
  "shell_wm (st\<lparr>s_nGhostIcon := v21\<rparr>) = shell_wm st" "shell_wm (st\<lparr>s_dwNextPresent := nx\<rparr>) = shell_wm st"
  by (simp_all add: shell_wm_def desk_defs disp_ok_def walls_ok_def wm_ok_def)

lemma ctx_ok_frames [simp]:
  "ctx_ok (st\<lparr>s_nCtxX := w0\<rparr>) = ctx_ok st"
  "ctx_ok (st\<lparr>s_nCtxY := w1\<rparr>) = ctx_ok st"
  "ctx_ok (st\<lparr>s_nCtxIcon := w2\<rparr>) = ctx_ok st"
  "ctx_ok (st\<lparr>s_dwLastExec := w3\<rparr>) = ctx_ok st"
  "ctx_ok (st\<lparr>s_nCx := w4\<rparr>) = ctx_ok st" "ctx_ok (st\<lparr>s_nCy := w5\<rparr>) = ctx_ok st"
  "ctx_ok (st\<lparr>s_bBsod := w6\<rparr>) = ctx_ok st"
  "ctx_ok (st\<lparr>s_crash := w7\<rparr>) = ctx_ok st"
  "ctx_ok (st\<lparr>s_dwCrashSeq := w8\<rparr>) = ctx_ok st"
  "ctx_ok (st\<lparr>s_dwBsodAt := w9\<rparr>) = ctx_ok st"
  "ctx_ok (st\<lparr>s_bDragMoved := w10\<rparr>) = ctx_ok st"
  "ctx_ok (st\<lparr>s_bPtrWas := w11\<rparr>) = ctx_ok st"
  "ctx_ok (st\<lparr>s_nDownX := w12\<rparr>) = ctx_ok st"
  "ctx_ok (st\<lparr>s_nDownY := w13\<rparr>) = ctx_ok st"
  "ctx_ok (st\<lparr>s_nLastHk := w14\<rparr>) = ctx_ok st"
  "ctx_ok (st\<lparr>s_dwLastExit := w15\<rparr>) = ctx_ok st"
  "ctx_ok (st\<lparr>s_din := w16\<rparr>) = ctx_ok st"
  "ctx_ok (st\<lparr>s_dwNext := w17\<rparr>) = ctx_ok st"
  "ctx_ok (st\<lparr>s_nGhostIcon := w18\<rparr>) = ctx_ok st" "ctx_ok (st\<lparr>s_dwNextPresent := nx\<rparr>) = ctx_ok st"
  "ctx_ok (st\<lparr>s_bDirty := w19\<rparr>) = ctx_ok st"
  "ctx_ok (st\<lparr>s_bDeskDirty := w20\<rparr>) = ctx_ok st"
  "ctx_ok (st\<lparr>s_out := w21\<rparr>) = ctx_ok st" "ctx_ok (st\<lparr>s_vmu := w22\<rparr>) = ctx_ok st"
  "ctx_ok (st\<lparr>s_nDeskSel := w23\<rparr>) = ctx_ok st"
  "ctx_ok (st\<lparr>s_pShared := w24\<rparr>) = ctx_ok st"
  "ctx_ok (st\<lparr>s_nFocus := w25\<rparr>) = ctx_ok st"
  "ctx_ok (st\<lparr>s_abWasInUse := w26\<rparr>) = ctx_ok st"
  "ctx_ok (st\<lparr>s_adwLastGen := w27\<rparr>) = ctx_ok st"
  "ctx_ok (st\<lparr>s_abWinMax := w28\<rparr>) = ctx_ok st"
  "ctx_ok (st\<lparr>s_awinRestore := w29\<rparr>) = ctx_ok st"
  "ctx_ok (st\<lparr>s_abWinMin := w30\<rparr>) = ctx_ok st"
  "ctx_ok (st\<lparr>s_bMenuOpen := w31\<rparr>) = ctx_ok st"
  "ctx_ok (st\<lparr>s_nMenuSel := w32\<rparr>) = ctx_ok st"
  "ctx_ok (st\<lparr>s_nDragKind := w33\<rparr>) = ctx_ok st"
  "ctx_ok (st\<lparr>s_nDragTarget := w34\<rparr>) = ctx_ok st"
  "ctx_ok (st\<lparr>s_nDragOffX := w35\<rparr>) = ctx_ok st"
  "ctx_ok (st\<lparr>s_nDragOffY := w36\<rparr>) = ctx_ok st"
  by (simp_all add: ctx_ok_def)

lemma desk_fits_frames [simp]:
  fixes st :: "'v shell"
  shows
  "desk_fits (st\<lparr>s_pCtxItems := w0\<rparr>) = desk_fits st"
  "desk_fits (st\<lparr>s_nCtxCount := w1\<rparr>) = desk_fits st"
  "desk_fits (st\<lparr>s_nCtxSel := w2\<rparr>) = desk_fits st"
  "desk_fits (st\<lparr>s_nCtxX := w3\<rparr>) = desk_fits st"
  "desk_fits (st\<lparr>s_nCtxY := w4\<rparr>) = desk_fits st"
  "desk_fits (st\<lparr>s_nCtxIcon := w5\<rparr>) = desk_fits st"
  "desk_fits (st\<lparr>s_dwLastExec := w6\<rparr>) = desk_fits st"
  "desk_fits (st\<lparr>s_nCx := w7\<rparr>) = desk_fits st"
  "desk_fits (st\<lparr>s_nCy := w8\<rparr>) = desk_fits st"
  "desk_fits (st\<lparr>s_bBsod := w9\<rparr>) = desk_fits st"
  "desk_fits (st\<lparr>s_crash := w10\<rparr>) = desk_fits st"
  "desk_fits (st\<lparr>s_dwCrashSeq := w11\<rparr>) = desk_fits st"
  "desk_fits (st\<lparr>s_dwBsodAt := w12\<rparr>) = desk_fits st"
  "desk_fits (st\<lparr>s_bDragMoved := w13\<rparr>) = desk_fits st"
  "desk_fits (st\<lparr>s_bPtrWas := w14\<rparr>) = desk_fits st"
  "desk_fits (st\<lparr>s_nDownX := w15\<rparr>) = desk_fits st"
  "desk_fits (st\<lparr>s_nDownY := w16\<rparr>) = desk_fits st"
  "desk_fits (st\<lparr>s_nLastHk := w17\<rparr>) = desk_fits st"
  "desk_fits (st\<lparr>s_dwLastExit := w18\<rparr>) = desk_fits st"
  "desk_fits (st\<lparr>s_din := w19\<rparr>) = desk_fits st"
  "desk_fits (st\<lparr>s_dwNext := w20\<rparr>) = desk_fits st"
  "desk_fits (st\<lparr>s_nGhostIcon := w21\<rparr>) = desk_fits st" "desk_fits (st\<lparr>s_dwNextPresent := nx\<rparr>) = desk_fits st"
  "desk_fits (st\<lparr>s_bDirty := w22\<rparr>) = desk_fits st"
  "desk_fits (st\<lparr>s_bDeskDirty := w23\<rparr>) = desk_fits st"
  "desk_fits (st\<lparr>s_out := w24\<rparr>) = desk_fits st"
  "desk_fits (st\<lparr>s_vmu := w25\<rparr>) = desk_fits st"
  "desk_fits (st\<lparr>s_nDeskSel := w26\<rparr>) = desk_fits st"
  "desk_fits (st\<lparr>s_pShared := w27\<rparr>) = desk_fits st"
  "desk_fits (st\<lparr>s_nFocus := w28\<rparr>) = desk_fits st"
  "desk_fits (st\<lparr>s_abWasInUse := w29\<rparr>) = desk_fits st"
  "desk_fits (st\<lparr>s_adwLastGen := w30\<rparr>) = desk_fits st"
  "desk_fits (st\<lparr>s_abWinMax := w31\<rparr>) = desk_fits st"
  "desk_fits (st\<lparr>s_awinRestore := w32\<rparr>) = desk_fits st"
  "desk_fits (st\<lparr>s_abWinMin := w33\<rparr>) = desk_fits st"
  "desk_fits (st\<lparr>s_bMenuOpen := w34\<rparr>) = desk_fits st"
  "desk_fits (st\<lparr>s_nMenuSel := w35\<rparr>) = desk_fits st"
  "desk_fits (st\<lparr>s_nDragKind := w36\<rparr>) = desk_fits st"
  "desk_fits (st\<lparr>s_nDragTarget := w37\<rparr>) = desk_fits st"
  "desk_fits (st\<lparr>s_nDragOffX := w38\<rparr>) = desk_fits st"
  "desk_fits (st\<lparr>s_nDragOffY := w39\<rparr>) = desk_fits st"
  by (simp_all add: desk_fits_def)

lemma shell_wm_ui [simp]:
  "shell_wm (st\<lparr>s_out := es\<rparr>) = shell_wm st" "shell_wm (st\<lparr>s_bDeskDirty := b\<rparr>) = shell_wm st"
  "shell_wm (st\<lparr>s_vmu := v\<rparr>) = shell_wm st" "shell_wm (st\<lparr>s_bMenuOpen := b\<rparr>) = shell_wm st"
  by (simp_all add: shell_wm_def desk_defs disp_ok_def walls_ok_def wm_ok_def)

lemma shell_wm_range:
  "shell_wm st \<Longrightarrow> - 1 \<le> k \<Longrightarrow> k < 4 \<Longrightarrow> shell_wm (st\<lparr>s_nFocus := k\<rparr>)"
  "shell_wm st \<Longrightarrow> - 1 \<le> n \<Longrightarrow> n < s_cDesk st \<Longrightarrow> shell_wm (st\<lparr>s_nDeskSel := n\<rparr>)"
  "shell_wm st \<Longrightarrow> 0 \<le> n \<Longrightarrow> n < 6 \<Longrightarrow> shell_wm (st\<lparr>s_nMenuSel := n\<rparr>)"
  by (simp_all add: shell_wm_def desk_defs disp_ok_def walls_ok_def wm_ok_def)

lemma shell_ok_frames [simp]:
  "shell_ok (st\<lparr>s_bDirty := b\<rparr>) = shell_ok st" "shell_ok (st\<lparr>s_bDeskDirty := b\<rparr>) = shell_ok st"
  "shell_ok (st\<lparr>s_out := es\<rparr>) = shell_ok st" "shell_ok (st\<lparr>s_bMenuOpen := b\<rparr>) = shell_ok st"
  "shell_ok (st\<lparr>s_nCtxX := i\<rparr>) = shell_ok st" "shell_ok (st\<lparr>s_nCtxY := i\<rparr>) = shell_ok st"
  "shell_ok (st\<lparr>s_nCtxIcon := i\<rparr>) = shell_ok st" "shell_ok (st\<lparr>s_dwLastExec := u\<rparr>) = shell_ok st"
  "shell_ok (st\<lparr>s_nCx := i\<rparr>) = shell_ok st" "shell_ok (st\<lparr>s_nCy := i\<rparr>) = shell_ok st"
  "shell_ok (st\<lparr>s_bBsod := b\<rparr>) = shell_ok st" "shell_ok (st\<lparr>s_crash := c\<rparr>) = shell_ok st"
  "shell_ok (st\<lparr>s_dwCrashSeq := u\<rparr>) = shell_ok st" "shell_ok (st\<lparr>s_dwBsodAt := u\<rparr>) = shell_ok st"
  "shell_ok (st\<lparr>s_bDragMoved := b\<rparr>) = shell_ok st" "shell_ok (st\<lparr>s_bPtrWas := b\<rparr>) = shell_ok st"
  "shell_ok (st\<lparr>s_nDownX := i\<rparr>) = shell_ok st" "shell_ok (st\<lparr>s_nDownY := i\<rparr>) = shell_ok st"
  "shell_ok (st\<lparr>s_nLastHk := h\<rparr>) = shell_ok st" "shell_ok (st\<lparr>s_dwLastExit := u\<rparr>) = shell_ok st"
  "shell_ok (st\<lparr>s_dwNext := u\<rparr>) = shell_ok st" "shell_ok (st\<lparr>s_nGhostIcon := i\<rparr>) = shell_ok st" "shell_ok (st\<lparr>s_dwNextPresent := u\<rparr>) = shell_ok st"
  "shell_ok (win_set k f st) = shell_ok st"
  "length v = length (s_abWinMin st) \<Longrightarrow> shell_ok (st\<lparr>s_abWinMin := v\<rparr>) = shell_ok st"
  by (simp_all add: shell_ok_def win_set_def ctx_ok_def) (simp_all flip: win_set_def)

lemma shell_ok_range:
  "shell_ok st \<Longrightarrow> - 1 \<le> k \<Longrightarrow> k < 4 \<Longrightarrow> shell_ok (st\<lparr>s_nFocus := k\<rparr>)"
  "shell_ok st \<Longrightarrow> - 1 \<le> n \<Longrightarrow> n < s_cDesk st \<Longrightarrow> shell_ok (st\<lparr>s_nDeskSel := n\<rparr>)"
  "shell_ok st \<Longrightarrow> 0 \<le> n \<Longrightarrow> n < 6 \<Longrightarrow> shell_ok (st\<lparr>s_nMenuSel := n\<rparr>)"
  "shell_ok st \<Longrightarrow> din_ok d \<Longrightarrow> shell_ok (st\<lparr>s_din := d\<rparr>)"
  "shell_ok st \<Longrightarrow> shell_ok (st\<lparr>s_pCtxItems := None\<rparr>)"
  by (simp_all add: shell_ok_def shell_wm_range) (simp add: ctx_ok_def)

text \<open>Operations on a part of the state leave the later parts alone.\<close>

lemma desk_more_shell:
  fixes st st' :: "'v shell"
  assumes "desk.more st' = desk.more st"
  shows "disp_ok st' = disp_ok st" "wm_ok st' = wm_ok st" "ctx_ok st' = ctx_ok st" "s_din st' = s_din st"
    "s_pShared st' = s_pShared st" "s_nFocus st' = s_nFocus st"
  using assms by (cases st; cases st'; simp add: disp_ok_def walls_ok_def wm_ok_def ctx_ok_def)+

lemma disp_more_shell:
  fixes st st' :: "'v shell"
  assumes "disp.more st' = disp.more st"
  shows "wm_ok st' = wm_ok st" "ctx_ok st' = ctx_ok st" "s_din st' = s_din st"
    "s_pShared st' = s_pShared st" "s_nFocus st' = s_nFocus st"
  using assms by (cases st; cases st'; simp add: wm_ok_def ctx_ok_def)+

lemma desk_step_ok:
  fixes st st' :: "'v shell"
  assumes "shell_ok st" and "desk.more st' = desk.more st" and "desk_ok st'" and "desk_fits st'"
  shows "shell_ok st'"
  using assms desk_more_shell [OF assms(2)] by (simp add: shell_ok_def shell_wm_def)

text \<open>The icons and everything after the dialog's part of the state.\<close>

definition same_icons :: "'v shell \<Rightarrow> 'v shell \<Rightarrow> bool" where
  "same_icons st st' \<longleftrightarrow> s_aDesk st' = s_aDesk st \<and> s_anDeskUser st' = s_anDeskUser st
     \<and> s_cDesk st' = s_cDesk st \<and> s_nDeskSel st' = s_nDeskSel st \<and> s_aDeskPos st' = s_aDeskPos st
     \<and> s_nDeskRows st' = s_nDeskRows st \<and> disp.more st' = disp.more st"

lemma same_desk_icons: "same_desk st st' \<Longrightarrow> same_icons st st'"
  by (simp add: same_desk_def same_icons_def)

lemma dlg_step_ok:
  fixes st st' :: "'v shell"
  assumes "shell_ok st" and "disp_ok st'" and "same_icons st st'"
  shows "shell_ok st'"
proof -
  have m: "disp.more st' = disp.more st" using assms(3) by (simp add: same_icons_def)
  have "desk_ok st' = desk_ok st" "desk_fits st' = desk_fits st"
    using assms(3) by (simp_all add: same_icons_def desk_defs desk_fits_def)
  with assms disp_more_shell [OF m] show ?thesis by (simp add: shell_ok_def shell_wm_def)
qed

lemma set_shift_left: "c \<le> length xs \<Longrightarrow> set (shift_left i c xs) \<subseteq> set xs"
proof
  fix a assume c: "c \<le> length xs" and "a \<in> set (shift_left i c xs)"
  then obtain j where "j < length xs" "a = shift_left i c xs ! j" by (auto simp: in_set_conv_nth)
  with c shift_left_nth [of c xs j i] show "a \<in> set xs" by (auto split: if_splits)
qed

lemma RemoveShortcut_more: "desk.more (RemoveShortcut i st) = desk.more st"
  by (simp add: RemoveShortcut_def Let_def)

lemma RemoveShortcut_fits: "desk_ok st \<Longrightarrow> desk_fits st \<Longrightarrow> desk_fits (RemoveShortcut i st)"
proof -
  assume "desk_ok st" and f: "desk_fits st"
  then have "nat (s_cDesk st) \<le> length (s_aDesk st)" by (auto simp: desk_ok_def desk_raw_def)
  from set_shift_left [OF this, of "nat i"] f show ?thesis
    by (auto simp: desk_fits_def RemoveShortcut_def Let_def)
qed

lemma start_fits: "0 \<le> n \<Longrightarrow> n < 6 \<Longrightarrow> sc_fits (s_start ! nat n)"
proof -
  assume "0 \<le> n" "n < 6"
  then have "nat n = 0 \<or> nat n = 1 \<or> nat n = 2 \<or> nat n = 3 \<or> nat n = 4 \<or> nat n = 5" by linarith
  then show ?thesis by (auto simp: s_start_def sc_fits_def bs_def ws_def)
qed

lemma AddDesktopShortcut_more: "desk.more (snd (AddDesktopShortcut n x y st)) = desk.more st"
  by (simp add: AddDesktopShortcut_def Let_def append_icon_def)

lemma AddDesktopShortcut_fits: "desk_fits st \<Longrightarrow> desk_fits (snd (AddDesktopShortcut n x y st))"
  using start_fits [of n] set_update_subset_insert [of "s_aDesk st" "nat (s_cDesk st)" "s_start ! nat n"]
  by (auto simp: desk_fits_def AddDesktopShortcut_def Let_def append_icon_def START_N_def)

lemma DropIcon_more: "DropIcon ox oy t x y st = Some st' \<Longrightarrow> desk.more st' = desk.more st \<and> s_aDesk st' = s_aDesk st"
  by (auto simp: DropIcon_def Let_def bind_eq_Some_conv split: if_splits)

lemma Desk_steps_ok:
  fixes st :: "'v shell"
  assumes "shell_ok st"
  shows "shell_ok (RemoveShortcut i st)" "shell_ok (snd (AddDesktopShortcut n x y st))"
    "shell_ok (DeskPosInit st)" "0 \<le> t \<Longrightarrow> t < 24 \<Longrightarrow> ok (DropIcon ox oy t x y st) shell_ok"
proof -
  have d: "desk_ok st" "desk_fits st" using assms by (simp_all add: shell_ok_def shell_wm_def)
  show "shell_ok (RemoveShortcut i st)"
    by (rule desk_step_ok [OF assms RemoveShortcut_more RemoveShortcut_ok RemoveShortcut_fits]) (rule d)+
  show "shell_ok (snd (AddDesktopShortcut n x y st))"
    by (rule desk_step_ok [OF assms AddDesktopShortcut_more AddDesktopShortcut_ok AddDesktopShortcut_fits]) (rule d)+
  obtain p where p: "DeskPosInit st = st\<lparr>s_nDeskRows := 6, s_aDeskPos := p\<rparr>" using DeskPosInit_frame [of st] by blast
  show "shell_ok (DeskPosInit st)"
    by (rule desk_step_ok [OF assms _ DeskPosInit_ok [OF d(1)]]) (use d(2) in \<open>simp_all add: p desk_fits_def\<close>)
  show "ok (DropIcon ox oy t x y st) shell_ok" if t: "0 \<le> t" "t < 24"
  proof -
    from DropIcon_ok [OF d(1) t] obtain st' where s: "DropIcon ox oy t x y st = Some st'" "desk_ok st'" by blast
    from DropIcon_more [OF s(1)] s d(2) have "shell_ok st'"
      by (intro desk_step_ok [OF assms]) (auto simp: desk_fits_def)
    with s show ?thesis by simp
  qed
qed

lemma wm_more_ok:
  fixes st st' :: "'v shell"
  assumes "shell_ok st" and "shell_wm st'" and "wm.more st' = wm.more st" and "s_aDesk st' = s_aDesk st"
  shows "shell_ok st'"
proof -
  have "ctx_ok st' = ctx_ok st" "s_din st' = s_din st"
    using assms(3) by (cases st; cases st'; simp add: ctx_ok_def)+
  with assms show ?thesis by (simp add: shell_ok_def desk_fits_def)
qed

section \<open>Every operation stays in its arrays and keeps the invariant\<close>

lemma DInNextKey_ok: "din_ok d \<Longrightarrow> DInNextKey d = Some (k, d') \<Longrightarrow> din_ok d'"
  by (auto simp: DInNextKey_def din_ok_def q_ok_def split: if_splits)

lemma drain_keys_ok: "din_ok d \<Longrightarrow> din_ok (snd (drain_keys n d))"
  by (induction n arbitrary: d) (auto split: option.split dest: DInNextKey_ok)

lemma RaiseBsod_ok: "shell_ok st \<Longrightarrow> shell_ok (RaiseBsod env st)"
proof -
  assume st: "shell_ok st"
  then have "din_ok (snd (drain_keys 32 (s_din st)))" by (intro drain_keys_ok) (simp add: shell_ok_def)
  then have "din_ok (snd (DInTookClick (snd (DInTookContext (snd (DInTookActivate (snd (drain_keys 32 (s_din st)))))))))"
    by (simp add: DInTookClick_def DInTookContext_def DInTookActivate_def din_ok_upd)
  from shell_ok_range(4) [OF st this] show ?thesis
    by (simp add: RaiseBsod_def Let_def shell_ok_def)
qed

lemma din_ok_reacquire: "din_ok d \<Longrightarrow> din_ok (DInReacquire t d)"
  by (simp add: DInReacquire_def din_ok_def q_ok_def)

lemma hand_off_ok: "shell_ok st \<Longrightarrow> shell_ok (hand_off env exe st)"
proof -
  assume st: "shell_ok st"
  let ?s = "GfxLaunch env exe (st\<lparr>s_out := s_out st @ [UiInputRelease]\<rparr>)"
  have s: "shell_ok ?s" using st by (simp add: GfxLaunch_def)
  then have "din_ok (DInReacquire t (s_din ?s))" for t by (simp add: din_ok_reacquire shell_ok_def)
  with s have "shell_ok (?s\<lparr>s_out := es, s_din := DInReacquire t (s_din ?s)\<rparr>)" for t es
    using shell_ok_range(4) [of "?s\<lparr>s_out := es\<rparr>"] by simp
  then show ?thesis by (simp add: hand_off_def Let_def CheckFullscreenCrash_def RaiseBsod_ok)
qed

lemma lstrcpyW_fits: "length (takeWhile (\<lambda>c. c \<noteq> 0) a) < length dst \<Longrightarrow> \<exists>b. lstrcpyW dst a = Some b"
  by (simp add: lstrcpyW_def Let_def)

lemma LaunchApp_ok:
  "shell_ok st \<Longrightarrow> ok (LaunchApp exe None st) shell_ok"
  "shell_ok st \<Longrightarrow> 0 \<in> set (take 260 a) \<Longrightarrow> ok (LaunchApp exe (Some a) st) shell_ok"
proof -
  show "shell_ok st \<Longrightarrow> ok (LaunchApp exe None st) shell_ok" by (simp add: LaunchApp_def)
  assume st: "shell_ok st" and z: "0 \<in> set (take 260 a)"
  have "length (takeWhile (\<lambda>c. c \<noteq> 0) a) < 260"
  proof -
    obtain i where i: "i < length (take 260 a)" "take 260 a ! i = 0" using z by (auto simp: in_set_conv_nth)
    have "length (takeWhile (\<lambda>c. c \<noteq> 0) a) \<le> i"
    proof (rule ccontr)
      assume "\<not> ?thesis"
      then have "i < length (takeWhile (\<lambda>c. c \<noteq> 0) a)" by simp
      from nth_mem [OF this] takeWhile_nth [OF this] i show False by (auto dest: set_takeWhileD)
    qed
    with i show ?thesis by simp
  qed
  then obtain b where "lstrcpyW (replicate 260 0) a = Some b" using lstrcpyW_fits [of a "replicate 260 0"] by auto
  moreover have "0 \<in> set a" using z by (auto dest: in_set_takeD)
  ultimately show "ok (LaunchApp exe (Some a) st) shell_ok" using st by (simp add: LaunchApp_def)
qed

text \<open>A command with its terminator within the first 260 characters is split safely.\<close>

lemma ShellLaunch_split:
  fixes cmd :: "wchar list"
  assumes "0 \<in> set (take 260 cmd)"
  defines "exe \<equiv> takeWhile (\<lambda>c. c \<noteq> 0 \<and> c \<noteq> 0x20) (take 259 cmd)"
  obtains c where "at cmd (int (length exe)) = Some c"
    and "c = 0x20 \<Longrightarrow> 0 \<in> set (take 260 (drop (length exe + 1) cmd))"
proof -
  let ?n = "length exe"
  obtain i where i: "i < 260" "i < length cmd" "cmd ! i = 0"
    using assms(1) by (auto simp: in_set_conv_nth)
  have le: "?n \<le> i"
  proof (rule ccontr)
    assume "\<not> ?n \<le> i"
    then have l: "i < ?n" by simp
    with takeWhile_nth [of i "\<lambda>c. c \<noteq> 0 \<and> c \<noteq> 0x20" "take 259 cmd"] i(3) have "exe ! i = 0"
      using length_takeWhile_le [of "\<lambda>c. c \<noteq> 0 \<and> c \<noteq> 0x20" "take 259 cmd"] by (simp add: exe_def)
    with nth_mem [OF l] show False by (auto simp: exe_def dest: set_takeWhileD)
  qed
  then have "at cmd (int ?n) = Some (cmd ! ?n)" using i by simp
  moreover have "0 \<in> set (take 260 (drop (?n + 1) cmd))" if "cmd ! ?n = 0x20"
  proof -
    have "?n \<noteq> i" using that i(3) by auto
    with le have l: "?n < i" by simp
    have "take 260 (drop (?n + 1) cmd) ! (i - ?n - 1) = 0" "i - ?n - 1 < length (take 260 (drop (?n + 1) cmd))"
      using l i by (simp_all add: less_diff_conv2 diff_less_mono)
    then show ?thesis by (metis nth_mem)
  qed
  ultimately show thesis using that by blast
qed

lemma ShellLaunch_ok: "shell_ok st \<Longrightarrow> 0 \<in> set (take 260 cmd) \<Longrightarrow> ok (ShellLaunch env cmd st) shell_ok"
proof -
  assume st: "shell_ok st" and z: "0 \<in> set (take 260 cmd)"
  from ShellLaunch_split [OF z] obtain c where
    c: "at cmd (int (length (takeWhile (\<lambda>c. c \<noteq> 0 \<and> c \<noteq> 0x20) (take 259 cmd)))) = Some c"
    "c = 0x20 \<Longrightarrow> 0 \<in> set (take 260 (drop (length (takeWhile (\<lambda>c. c \<noteq> 0 \<and> c \<noteq> 0x20) (take 259 cmd)) + 1) cmd))"
    by blast
  from c st show ?thesis
    by (simp add: ShellLaunch_def Let_def hand_off_ok LaunchApp_ok)
qed

lemma terminated: "length p < 260 \<Longrightarrow> 0 \<in> set (take 260 (p @ [0 :: wchar]))"
  by (simp add: take_Cons')

lemma open_shortcut_ok:
  "shell_ok st \<Longrightarrow> sc_fits sc \<Longrightarrow> sc_path sc \<noteq> None \<or> sc_exe sc \<noteq> None \<Longrightarrow> ok (open_shortcut env sc st) shell_ok"
proof (cases "sc_path sc")
  case None
  assume "shell_ok st" and "sc_fits sc" and "sc_path sc \<noteq> None \<or> sc_exe sc \<noteq> None"
  with None show ?thesis by (auto simp: open_shortcut_def sc_fits_def intro!: ShellLaunch_ok terminated)
next
  case (Some p)
  assume "shell_ok st" and "sc_fits sc"
  with Some show ?thesis by (auto simp: open_shortcut_def sc_fits_def intro!: LaunchApp_ok(2) terminated)
qed

lemma desk_icon_ok:
  assumes "shell_ok st" and "0 \<le> k" and "k < s_cDesk st"
  shows "at (s_aDesk st) k = Some (s_aDesk st ! nat k) \<and> sc_fits (s_aDesk st ! nat k)
    \<and> (sc_path (s_aDesk st ! nat k) \<noteq> None \<or> sc_exe (s_aDesk st ! nat k) \<noteq> None)"
proof -
  have d: "desk_ok st" "desk_fits st" using assms(1) by (simp_all add: shell_ok_def shell_wm_def)
  then have l: "nat k < length (s_aDesk st)" "nat k < nat (s_cDesk st)"
    using assms(2,3) by (auto simp: desk_ok_def desk_raw_def)
  then have "sc_fits (s_aDesk st ! nat k)" using d(2) by (simp add: desk_fits_def)
  moreover have "sc_path (s_aDesk st ! nat k) \<noteq> None \<or> sc_exe (s_aDesk st ! nat k) \<noteq> None"
    using d(1) l(2) by (simp only: desk_ok_def icons_ok_def)
  ultimately show ?thesis using assms(2) l(1) by simp
qed

lemma OpenDisplayDialog_keeps:
  assumes "disp_ok st" and "\<forall>f \<in> set files. length f \<le> 63"
  shows "\<exists>st'. OpenDisplayDialog files st = Some st' \<and> disp_ok st' \<and> same_icons st st'"
proof -
  have w: "length (s_aWall st) = 16" "\<forall>w \<in> set (s_aWall st). length w \<le> 63"
    using assms(1) by (simp_all add: disp_ok_def walls_ok_def)
  obtain s1 where sc: "ScanWallpapers files st = Some s1" using ScanWallpapers_total [OF assms(2) w(1)] by blast
  have "walls_ok s1" using ScanWallpapers_walls [OF sc w] by simp
  moreover note ScanWallpapers_same_desk [OF sc]
  ultimately show ?thesis using sc
    by (auto simp: OpenDisplayDialog_def disp_ok_def walls_ok_def same_icons_def)
qed

lemma CloseContextMenu_ok [simp]: "shell_ok st \<Longrightarrow> shell_ok (CloseContextMenu st)"
  by (simp add: CloseContextMenu_def shell_ok_range)

lemma CloseContextMenu_sel [simp]: "s_cDesk (CloseContextMenu st) = s_cDesk st"
  "s_aDesk (CloseContextMenu st) = s_aDesk st"
  by (simp_all add: CloseContextMenu_def)

lemma OpenContextMenu_ok: "shell_ok st \<Longrightarrow> ok (OpenContextMenu x y st) shell_ok"
proof -
  assume st: "shell_ok st"
  then have d: "desk_ok st" by (simp add: shell_ok_def shell_wm_def)
  let ?k = "DeskIconAt x y st"
  have k: "- 1 \<le> ?k" "?k < s_cDesk st" using DeskIconAt_range [OF d, of x y] by auto
  have at: "at (s_anDeskUser st) ?k = Some (s_anDeskUser st ! nat ?k)" if "?k \<ge> 0"
    using that k d by (auto simp: desk_ok_def desk_raw_def)
  have upd: "shell_ok (st\<lparr>s_bDirty := True, s_nDeskSel := n, s_bMenuOpen := False, s_pCtxItems := Some its,
       s_nCtxCount := int (length its), s_nCtxSel := 0, s_nCtxX := a, s_nCtxY := b, s_nCtxIcon := i\<rparr>)"
    if "- 1 \<le> n" "n < s_cDesk st" "its \<noteq> []" for n its a b i
    using shell_wm_range(2) [of "st\<lparr>s_bDirty := True\<rparr>" n] st that by (simp add: shell_ok_def ctx_ok_def)
  moreover note upd [of "s_nDeskSel st"]
  moreover have "s_aCtxIconUser \<noteq> []" "s_aCtxIconBuiltin \<noteq> []" "s_aCtxDesktop \<noteq> []"
    by (simp_all add: s_aCtxIconUser_def s_aCtxIconBuiltin_def s_aCtxDesktop_def)
  moreover have "- 1 \<le> s_nDeskSel st" "s_nDeskSel st < s_cDesk st" using d by (simp_all add: desk_ok_def)
  ultimately show ?thesis using k at by (cases "?k \<ge> 0") (simp_all add: OpenContextMenu_def Let_def)
qed

lemma ContextActivate_ok:
  assumes "shell_ok st" and "env_ok env"
  shows "ok (ContextActivate env st) shell_ok"
proof -
  let ?c = "CloseContextMenu st"
  let ?cmd = "(case s_pCtxItems st of
         Some its \<Rightarrow> if s_nCtxSel st \<ge> 0 \<and> s_nCtxSel st < s_nCtxCount st
           then map_option (\<lambda>it. Some (snd it)) (at its (s_nCtxSel st)) else Some None
       | None \<Rightarrow> Some None)"
  have c: "shell_ok ?c" using assms(1) by simp
  have "ctx_ok st" using assms(1) by (simp add: shell_ok_def)
  then obtain cmd where cmd: "?cmd = Some cmd" by (cases "s_pCtxItems st") (auto simp: ctx_ok_def)
  have "disp_ok ?c" using c by (simp add: shell_ok_def shell_wm_def)
  from OpenDisplayDialog_keeps [OF this] assms(2)
  obtain s where s: "OpenDisplayDialog (e_bmps env) ?c = Some s" "disp_ok s" "same_icons ?c s"
    by (auto simp: env_ok_def)
  have ds: "shell_ok s" by (rule dlg_step_ok [OF c s(2,3)])
  have "ok (do { sc \<leftarrow> at (s_aDesk ?c) (s_nCtxIcon st); open_shortcut env sc ?c }) shell_ok"
    if "0 \<le> s_nCtxIcon st" "s_nCtxIcon st < s_cDesk ?c"
    using desk_icon_ok [OF c that] open_shortcut_ok [OF c] by simp
  with c s(1) ds show ?thesis
    unfolding ContextActivate_def cmd
    by (cases cmd; cases "the cmd") (simp_all add: Let_def Desk_steps_ok)
qed

lemma menu_entry: "0 \<le> n \<Longrightarrow> n < 6 \<Longrightarrow> at s_start n = Some (s_start ! nat n)"
  by (intro at_in) (simp_all add: s_start_def)

lemma ActivateStartItem_ok:
  assumes "shell_ok st" and "0 \<le> s_nMenuSel st" and "s_nMenuSel st < 6"
  shows "ok (ActivateStartItem env st) shell_ok"
proof -
  let ?sc = "s_start ! nat (s_nMenuSel st)"
  have "ok (open_shortcut env ?sc (st\<lparr>s_bMenuOpen := False\<rparr>)) shell_ok"
    if "sc_path ?sc \<noteq> None \<or> sc_exe ?sc \<noteq> None"
    using assms(1) start_fits [OF assms(2,3)] that by (simp add: open_shortcut_ok)
  then show ?thesis using assms by (auto simp: ActivateStartItem_def Let_def menu_entry)
qed

lemma shell_okD: "shell_ok st \<Longrightarrow> wm_ok st" "shell_ok st \<Longrightarrow> desk_ok st" "shell_ok st \<Longrightarrow> disp_ok st"
  "shell_ok st \<Longrightarrow> shell_wm st" "shell_ok st \<Longrightarrow> ctx_ok st" "shell_ok st \<Longrightarrow> din_ok (s_din st)"
  "shell_ok st \<Longrightarrow> 0 \<le> s_nMenuSel st \<and> s_nMenuSel st < 6"
  by (simp_all add: shell_ok_def shell_wm_def wm_ok_def)

lemma ctx_key_ok: "shell_ok st \<Longrightarrow> env_ok env \<Longrightarrow> s_pCtxItems st \<noteq> None \<Longrightarrow> ok (ctx_key env k st) shell_ok"
proof -
  assume st: "shell_ok st" and e: "env_ok env" and c: "s_pCtxItems st \<noteq> None"
  have "ctx_ok st" using st by (rule shell_okD)
  with c obtain its where "s_pCtxItems st = Some its" "s_nCtxCount st = int (length its)"
    "0 \<le> s_nCtxSel st" "s_nCtxSel st < s_nCtxCount st" by (auto simp: ctx_ok_def)
  then have "shell_ok (st\<lparr>s_bDirty := True, s_nCtxSel := n\<rparr>)" if "0 \<le> n" "n < s_nCtxCount st" for n
    using st that by (simp add: shell_ok_def ctx_ok_def)
  with st ContextActivate_ok [OF st e] \<open>0 \<le> s_nCtxSel st\<close> \<open>s_nCtxSel st < s_nCtxCount st\<close> show ?thesis
    by (simp add: ctx_key_def)
qed

lemma menu_key_ok: "shell_ok st \<Longrightarrow> ok (menu_key env k st) shell_ok"
proof -
  assume st: "shell_ok st"
  define s where "s = (let s = (if k = VK_UP \<and> s_nMenuSel st > 0 then st\<lparr>s_nMenuSel := s_nMenuSel st - 1\<rparr> else st)
    in if k = VK_DOWN \<and> s_nMenuSel s < START_N - 1 then s\<lparr>s_nMenuSel := s_nMenuSel s + 1\<rparr> else s)"
  have up: "shell_ok (st\<lparr>s_nMenuSel := n\<rparr>)" if "0 \<le> n" "n < 6" for n
    using st that by (rule shell_ok_range)
  have "shell_ok s" using st up shell_okD(7) [OF st] unfolding s_def Let_def START_N_def
    by (cases "k = VK_UP \<and> s_nMenuSel st > 0"; cases "k = VK_DOWN") simp_all
  then have "ok (if k = VK_RETURN then ActivateStartItem env s else Some s) shell_ok"
    using ActivateStartItem_ok [of s] shell_okD(7) [of s] by simp
  moreover have "menu_key env k st = (if k = VK_RETURN then ActivateStartItem env s else Some s)
    \<bind> (\<lambda>st. Some ((if k = VK_ESCAPE then st\<lparr>s_bMenuOpen := False\<rparr> else st)\<lparr>s_bDirty := True\<rparr>))"
    by (simp add: menu_key_def s_def Let_def)
  ultimately show ?thesis by (auto elim!: ok_mono)
qed

text \<open>A grid key moves the selection by at most one cell, and only to an icon.\<close>

lemma grid_move_sel:
  assumes "0 \<le> s_nDeskSel st" and "s_nDeskSel st < s_cDesk st" and "0 < s_nDeskRows st"
  shows "\<exists>n. grid_move k st = st\<lparr>s_nDeskSel := n\<rparr> \<and> 0 \<le> n \<and> n < s_cDesk st"
proof -
  have vk: "VK_UP \<noteq> VK_DOWN" "VK_UP \<noteq> VK_LEFT" "VK_UP \<noteq> VK_RIGHT" "VK_DOWN \<noteq> VK_LEFT" "VK_DOWN \<noteq> VK_RIGHT"
    "VK_LEFT \<noteq> VK_RIGHT"
    by (simp_all add: VK_UP_def VK_DOWN_def VK_LEFT_def VK_RIGHT_def)
  note vk = vk vk [symmetric]
  have m: "0 < s_nDeskSel st" if "0 < s_nDeskSel st mod s_nDeskRows st"
    using that assms(1) by (cases "s_nDeskSel st = 0") auto
  consider "k = VK_UP" | "k = VK_DOWN" | "k = VK_LEFT" | "k = VK_RIGHT"
    | "k \<noteq> VK_UP" "k \<noteq> VK_DOWN" "k \<noteq> VK_LEFT" "k \<noteq> VK_RIGHT" by blast
  then show ?thesis
  proof cases
    case 1
    with assms m show ?thesis
      by (cases "0 < s_nDeskSel st mod s_nDeskRows st")
        (auto simp: grid_move_def Let_def vk intro: exI [of _ "s_nDeskSel st"])
  next
    case 2
    with assms show ?thesis
      by (cases "s_nDeskSel st mod s_nDeskRows st < s_nDeskRows st - 1 \<and> s_nDeskSel st + 1 < s_cDesk st")
        (auto simp: grid_move_def Let_def vk intro: exI [of _ "s_nDeskSel st"])
  next
    case 3
    with assms show ?thesis
      by (cases "s_nDeskSel st - s_nDeskRows st \<ge> 0")
        (auto simp: grid_move_def Let_def vk intro: exI [of _ "s_nDeskSel st"])
  next
    case 4
    with assms show ?thesis
      by (cases "s_nDeskSel st + s_nDeskRows st < s_cDesk st")
        (auto simp: grid_move_def Let_def vk intro: exI [of _ "s_nDeskSel st"])
  next
    case 5
    with assms show ?thesis
      by (intro exI [of _ "s_nDeskSel st"]) (simp add: grid_move_def Let_def)
  qed
qed

lemma desk_key_ok: "shell_ok st \<Longrightarrow> ok (desk_key env k st) shell_ok"
proof -
  assume st: "shell_ok st"
  let ?s = "st\<lparr>s_bDirty := True\<rparr>"
  have s: "shell_ok ?s" using st by simp
  note d = shell_okD(2) [OF s]
  show ?thesis
  proof (cases "s_nDeskSel ?s < 0")
    case True
    have "shell_ok (?s\<lparr>s_nDeskSel := 0\<rparr>)"
      using s d by (intro shell_ok_range) (auto simp: desk_ok_def)
    with True s show ?thesis by (simp add: desk_key_def Let_def)
  next
    case False
    with d grid_move_sel [of ?s k] obtain n where n: "grid_move k ?s = ?s\<lparr>s_nDeskSel := n\<rparr>" "0 \<le> n" "n < s_cDesk ?s"
      by (auto simp: desk_ok_def)
    have g: "shell_ok (?s\<lparr>s_nDeskSel := n\<rparr>)" using s n by (intro shell_ok_range) auto
    have "at (s_aDesk (?s\<lparr>s_nDeskSel := n\<rparr>)) n = Some (s_aDesk (?s\<lparr>s_nDeskSel := n\<rparr>) ! nat n)"
      "ok (open_shortcut env (s_aDesk (?s\<lparr>s_nDeskSel := n\<rparr>) ! nat n) (?s\<lparr>s_nDeskSel := n\<rparr>)) shell_ok"
      using desk_icon_ok [OF g n(2)] n(3) open_shortcut_ok [OF g] by auto
    with False n g Desk_steps_ok(1) [OF g] show ?thesis by (simp add: desk_key_def Let_def)
  qed
qed

lemma focus_open_Some: "wm_ok st \<Longrightarrow> \<exists>b. focus_open st = Some b"
  using wm_focus [of st] by (cases "s_pShared st"; cases "s_nFocus st < 0") (auto simp: focus_open_def)

lemma wm_ops_more:
  "CycleFocus st = Some st' \<Longrightarrow> wm.more st' = wm.more st \<and> s_aDesk st' = s_aDesk st"
  by (cases "s_pShared st") (auto simp: CycleFocus_def bind_eq_Some_conv)

lemma wm_op_ok:
  fixes st :: "'v shell" and r :: "'v shell option"
  assumes "shell_ok st" and "ok r shell_wm"
    and "\<And>st'. r = Some st' \<Longrightarrow> wm.more st' = wm.more st \<and> s_aDesk st' = s_aDesk st"
  shows "ok r shell_ok"
proof -
  from assms(2) obtain st' where r: "r = Some st'" "shell_wm st'" by (auto simp: ok_def)
  with assms(3) [OF r(1)] wm_more_ok [OF assms(1), of st'] show ?thesis by simp
qed

lemma OnKey_ok:
  assumes "shell_ok st" and "env_ok env"
  shows "ok (OnKey env k st) shell_ok"
proof -
  consider "s_bDlgOpen st" | "\<not> s_bDlgOpen st" "s_pCtxItems st \<noteq> None"
    | "\<not> s_bDlgOpen st" "s_pCtxItems st = None" "k = VK_TAB"
    | "\<not> s_bDlgOpen st" "s_pCtxItems st = None" "k \<noteq> VK_TAB" by blast
  then show ?thesis
  proof cases
    case 1
    have "dlg_good False st" using shell_okD(3) [OF assms(1)] by (simp add: dlg_good_def)
    from DlgOnKey_good [OF this 1, of k] obtain st' where
      "DlgOnKey k st = Some st'" "disp_ok st'" "same_desk st st'" by (auto simp: dlg_good_def)
    with 1 dlg_step_ok [OF assms(1)] same_desk_icons show ?thesis by (auto simp: OnKey_def)
  next
    case 2
    with ctx_key_ok [OF assms] show ?thesis by (auto simp: OnKey_def)
  next
    case 3
    have "ok (CycleFocus st) shell_ok"
      using assms(1) CycleFocus_ok [OF shell_okD(4)] wm_ops_more by (intro wm_op_ok) auto
    moreover have "shell_ok (st\<lparr>s_nMenuSel := 0\<rparr>)" using assms(1) by (rule shell_ok_range) simp_all
    then have "shell_ok (st\<lparr>s_bMenuOpen := b, s_nMenuSel := 0\<rparr>)" for b
      using shell_ok_range(3) [of "st\<lparr>s_bMenuOpen := b\<rparr>" 0] assms(1) by simp
    ultimately show ?thesis using 3 by (simp add: OnKey_def)
  next
    case 4
    obtain b where "focus_open st = Some b" using focus_open_Some [OF shell_okD(1) [OF assms(1)]] by blast
    with 4 menu_key_ok [OF assms(1)] desk_key_ok [OF assms(1)] assms(1) show ?thesis
      by (simp add: OnKey_def win_key_def)
  qed
qed

lemma ToggleMaximize_more: "wm.more (ToggleMaximize k st) = wm.more st \<and> s_aDesk (ToggleMaximize k st) = s_aDesk st"
  by (simp add: ToggleMaximize_def win_set_def Let_def split: option.split prod.split)

lemma ToggleMaximize_shell: "shell_ok st \<Longrightarrow> shell_ok (ToggleMaximize k st)"
  using wm_more_ok [of st "ToggleMaximize k st"] ToggleMaximize_ok [of st k] ToggleMaximize_more [of k st]
  by (simp add: shell_okD(4))

lemma click_window_ok:
  "shell_ok st \<Longrightarrow> \<forall>k \<in> set ks. 0 \<le> k \<and> k < 4 \<Longrightarrow> click_window x y sh ks st = Some (b, st') \<Longrightarrow> shell_ok st'"
proof (induction ks)
  case (Cons k ks)
  have k: "- 1 \<le> k" "k < 4" using Cons.prems(2) by simp_all
  have min: "shell_ok (st\<lparr>s_bDirty := True, s_nFocus := n, s_abWinMin := (s_abWinMin st)[nat k := True]\<rparr>)"
    if "n = - 1 \<or> n = s_nFocus st" for n
  proof -
    have "- 1 \<le> n" "n < 4" using that shell_okD(1) [OF Cons.prems(1)] by (auto simp: wm_ok_def)
    then have "shell_ok (st\<lparr>s_bDirty := True\<rparr>\<lparr>s_nFocus := n\<rparr>)" using Cons.prems(1) by (intro shell_ok_range) simp_all
    then show ?thesis by simp
  qed
  have f: "shell_ok (st\<lparr>s_nFocus := k\<rparr>)" using Cons.prems(1) k by (rule shell_ok_range)
  from Cons.prems(3) consider "click_window x y sh ks st = Some (b, st')"
    | "st' = win_set k (\<lambda>w. w\<lparr>dw_wantClose := True\<rparr>) st" | "st' = ToggleMaximize k st"
    | "st' = st\<lparr>s_bDirty := True, s_nFocus := (if s_nFocus st = k then - 1 else s_nFocus st),
          s_abWinMin := (s_abWinMin st)[nat k := True]\<rparr>" | "st' = st\<lparr>s_nFocus := k\<rparr>"
    unfolding click_window.simps Let_def by (metis option.inject prod.inject)
  then show ?case
  proof cases
    case 1
    with Cons show ?thesis by simp
  next
    case 4
    with min [of "if s_nFocus st = k then - 1 else s_nFocus st"] show ?thesis by simp
  qed (use Cons.prems(1) f in \<open>simp_all add: ToggleMaximize_shell\<close>)
qed simp

lemma task_button_range: "task_button x bx sh ks = Some k \<Longrightarrow> k \<in> set ks \<and> dw_inUse (sh_win sh ! nat k)"
  by (induction ks arbitrary: bx) (auto split: if_splits)

lemma taskbar_hit_range: "taskbar_hit x y st = Some k \<Longrightarrow> 0 \<le> k \<and> k < 4 \<and> TASK_Y \<le> y"
  using task_button_range [of x 80 _ slots k] slots_range [of k]
  by (auto simp: taskbar_hit_def split: if_splits option.splits)

lemma click_icon_ok: "shell_ok st \<Longrightarrow> ok (click_icon env x y st) (\<lambda>r. shell_ok (snd r))"
proof -
  assume st: "shell_ok st"
  let ?k = "icon_scan (take (nat (s_cDesk st)) (s_aDeskPos st)) x y 0"
  have r: "- 1 \<le> ?k" "?k < s_cDesk st" using DeskIconAt_range [OF shell_okD(2) [OF st], of x y] by (auto simp: DeskIconAt_def)
  have s: "shell_ok (st\<lparr>s_nDeskSel := ?k\<rparr>)" using st r by (rule shell_ok_range)
  show ?thesis
  proof (cases "?k \<ge> 0")
    case True
    with desk_icon_ok [OF s True] r open_shortcut_ok [OF s] show ?thesis
      by (auto simp: click_icon_def Let_def elim!: ok_mono)
  next
    case False
    with st show ?thesis by (simp add: click_icon_def Let_def)
  qed
qed

lemma ok_map [simp]: "ok (map_option f r) P = ok r (\<lambda>x. P (f x))"
  by (cases r) simp_all

lemma in_ctx_row: "in_ctx x y st \<Longrightarrow> 0 \<le> (y - (s_nCtxY st + 3)) div CTX_ROW_H
    \<and> (y - (s_nCtxY st + 3)) div CTX_ROW_H < s_nCtxCount st"
  by (auto simp: in_ctx_def CTX_ROW_H_def)

lemma HandleClick_desk:
  assumes "\<not> s_bDlgOpen st" and "s_pCtxItems st = None" and "\<not> s_bMenuOpen st"
    and "\<not> (TASK_Y \<le> y \<and> 4 \<le> x \<and> x < 72)"
  shows "HandleClick env x y st = (let st = st\<lparr>s_bDirty := True\<rparr>
    in case taskbar_hit x y st of
         Some k \<Rightarrow> Some (True, st\<lparr>s_nFocus := k, s_abWinMin := (s_abWinMin st)[nat k := False]\<rparr>)
       | None \<Rightarrow> do {
           r \<leftarrow> (case s_pShared st of
               None \<Rightarrow> Some None
             | Some sh \<Rightarrow> do { ks \<leftarrow> win_order sh st; Some (click_window x y sh ks st) });
           case r of Some a \<Rightarrow> Some a | None \<Rightarrow> click_icon env x y st })"
proof -
  have "\<not> (y \<ge> TASK_Y \<and> x \<ge> 4 \<and> x < 72)" using assms(4) .
  then show ?thesis using assms(1-3) unfolding HandleClick_def Let_def by (simp only: if_False ui.simps) simp
qed

lemma HandleClick_ok:
  assumes "shell_ok st" and "env_ok env"
  shows "ok (HandleClick env x y st) (\<lambda>r. shell_ok (snd r))"
proof -
  let ?s = "st\<lparr>s_bDirty := True\<rparr>"
  have s: "shell_ok ?s" using assms(1) by simp
  consider (dlg) "s_bDlgOpen st" | (ctx) "\<not> s_bDlgOpen st" "s_pCtxItems st \<noteq> None"
    | (menu) "\<not> s_bDlgOpen st" "s_pCtxItems st = None" "s_bMenuOpen st"
    | (start) "\<not> s_bDlgOpen st" "s_pCtxItems st = None" "\<not> s_bMenuOpen st" "TASK_Y \<le> y \<and> 4 \<le> x \<and> x < 72"
    | (desk) "\<not> s_bDlgOpen st" "s_pCtxItems st = None" "\<not> s_bMenuOpen st" "\<not> (TASK_Y \<le> y \<and> 4 \<le> x \<and> x < 72)"
    by blast
  then show ?thesis
  proof cases
    case dlg
    have "dlg_good False ?s" "s_bDlgOpen ?s" using shell_okD(3) [OF s] dlg by (simp_all add: dlg_good_def)
    from DlgClick_good [OF this, of x y] obtain st' where
      "DlgClick x y ?s = Some st'" "disp_ok st'" "same_desk ?s st'" by (auto simp: dlg_good_def)
    with dlg dlg_step_ok [OF s] same_desk_icons show ?thesis by (auto simp: HandleClick_def Let_def)
  next
    case ctx
    have "shell_ok (?s\<lparr>s_nCtxSel := (y - (s_nCtxY st + 3)) div CTX_ROW_H\<rparr>)" if "in_ctx x y ?s"
      using in_ctx_row [OF that] assms(1) by (auto simp: shell_ok_def ctx_ok_def)
    with ctx s ContextActivate_ok assms(2) show ?thesis by (auto simp: HandleClick_def Let_def)
  next
    case menu
    have "shell_ok (?s\<lparr>s_nMenuSel := (y - menu_y) div ROW_H\<rparr>)" if "in_menu x y"
      using in_menu_row [OF that] s by (intro shell_ok_range) (simp_all add: START_N_def)
    then have "ok (ActivateStartItem env (?s\<lparr>s_nMenuSel := (y - menu_y) div ROW_H\<rparr>)) shell_ok" if "in_menu x y"
      using in_menu_row [OF that] that by (intro ActivateStartItem_ok) (simp_all add: START_N_def)
    with menu s show ?thesis by (simp add: HandleClick_def Let_def)
  next
    case start
    have "shell_ok (st\<lparr>s_bDirty := True, s_bMenuOpen := b, s_nMenuSel := 0\<rparr>)" for b
      using shell_ok_range(3) [of "st\<lparr>s_bDirty := True, s_bMenuOpen := b\<rparr>" 0] assms(1) by simp
    with start show ?thesis by (simp add: HandleClick_def Let_def)
  next
    case desk
    have w: "ok (click_icon env x y ?s) (\<lambda>r. shell_ok (snd r))" by (rule click_icon_ok [OF s])
    note h = HandleClick_desk [OF desk]
    show ?thesis
    proof (cases "taskbar_hit x y ?s")
      case (Some k)
      then have "shell_ok (?s\<lparr>s_nFocus := k\<rparr>)" using taskbar_hit_range s by (intro shell_ok_range) fastforce+
      with h Some show ?thesis by simp
    next
      case None
      show ?thesis
      proof (cases "s_pShared st")
        case n: None
        with h None w show ?thesis by simp
      next
        case sh: (Some sh)
        from win_order_Some [OF shell_okD(1) [OF s]] sh obtain ks where ks: "win_order sh ?s = Some ks"
          "\<forall>k \<in> set ks. 0 \<le> k \<and> k < 4" by auto
        have "shell_ok (snd a)" if "click_window x y sh ks ?s = Some a" for a
          using click_window_ok [OF s ks(2), of x y sh "fst a" "snd a"] that by simp
        with h None sh ks w show ?thesis by (cases "click_window x y sh ks ?s") simp_all
      qed
    qed
  qed
qed

end
