(* ===== verification/Dispatch.thy ===== *)
theory Dispatch
  imports Shell
begin

text \<open>
  What the dispatch of \<open>Shell\<close> does: where a key goes, what a click picks, what a command
  line starts, and that clicking a menu row is the same as choosing it with the keyboard.
\<close>

section \<open>Sequences of keys\<close>

primrec keys_run :: "shenv \<Rightarrow> u32 list \<Rightarrow> 'v shell \<Rightarrow> 'v shell option" where
  "keys_run env [] st = Some st"
| "keys_run env (k # ks) st = OnKey env k st \<bind> keys_run env ks"

lemma keys_run_ok: "shell_ok st \<Longrightarrow> env_ok env \<Longrightarrow> ok (keys_run env ks st) shell_ok"
  by (induction ks arbitrary: st) (auto intro: ok_mono [OF OnKey_ok])

lemma keys_run_append: "keys_run env (ks @ ls) st = keys_run env ks st \<bind> keys_run env ls"
proof (induction ks arbitrary: st)
  case (Cons k ks)
  then show ?case by (cases "OnKey env k st") simp_all
qed simp

section \<open>Keys reach the window that has the focus\<close>

text \<open>Nothing modal is open and the window in slot \<open>k\<close> has the keyboard.\<close>

definition has_keyboard :: "int \<Rightarrow> 'v shell \<Rightarrow> bool" where
  "has_keyboard k st \<longleftrightarrow> \<not> s_bDlgOpen st \<and> s_pCtxItems st = None \<and> s_nFocus st = k \<and> 0 \<le> k \<and> k < 4
     \<and> (\<exists>sh. s_pShared st = Some sh \<and> length (sh_win sh) = 4 \<and> dw_inUse (sh_win sh ! nat k))"

lemma OnKey_window:
  assumes "has_keyboard k st" and "key \<noteq> VK_TAB"
  shows "OnKey env key st = Some (win_key key st)"
proof -
  from assms(1) obtain sh where "s_pShared st = Some sh" "length (sh_win sh) = 4" "dw_inUse (sh_win sh ! nat k)"
    by (auto simp: has_keyboard_def)
  with assms have "focus_open st = Some True" by (simp add: focus_open_def has_keyboard_def)
  with assms show ?thesis by (simp add: OnKey_def has_keyboard_def)
qed

lemma win_set_id: "win_set k id st = st"
proof -
  have "win_upd (nat k) id = id" by (simp add: win_upd_def fun_eq_iff)
  then show ?thesis by (simp add: win_set_def option.map_id)
qed

lemma win_set_twice: "0 \<le> k \<Longrightarrow> \<forall>sh. s_pShared st = Some sh \<longrightarrow> nat k < length (sh_win sh) \<Longrightarrow>
    win_set k g (win_set k f st) = win_set k (\<lambda>w. g (f w)) st"
  by (cases "s_pShared st") (simp_all add: win_set_def win_upd_def)

lemma keys_run_window:
  "has_keyboard k st \<Longrightarrow> VK_TAB \<notin> set ks \<Longrightarrow> VK_ESCAPE \<notin> set ks \<Longrightarrow>
     keys_run env ks st = Some (win_set k (fold ring_put ks) st)"
proof (induction ks arbitrary: st)
  case Nil
  show ?case by (simp add: win_set_id [unfolded id_def])
next
  case (Cons key ks)
  have a: "s_nFocus st = k" "0 \<le> k" and l: "\<forall>sh. s_pShared st = Some sh \<longrightarrow> nat k < length (sh_win sh)"
    using Cons.prems(1) by (auto simp: has_keyboard_def)
  have key: "key \<noteq> VK_TAB" "key \<noteq> VK_ESCAPE" using Cons.prems(2,3) by auto
  have e: "OnKey env key st = Some (win_set k (ring_put key) st)"
    using OnKey_window [OF Cons.prems(1) key(1)] key(2) a by (simp add: win_key_def)
  have "has_keyboard k (win_set k (ring_put key) st)"
    using Cons.prems(1) by (auto simp: has_keyboard_def win_set_def win_upd_nth ring_put_def)
  from Cons.IH [OF this] Cons.prems(2,3) e win_set_twice [OF a(2) l, of "fold ring_put ks" "ring_put key"]
  show ?case by (simp add: comp_def)
qed

text \<open>
  C11: what is typed reaches the window that has the focus, in order: up to sixteen keys typed
  while the client is not reading are what it then polls, no other window sees them, and
  they start nothing. (Tab and Escape are the shell's own.)
\<close>
theorem typed_keys_reach_window:
  assumes "has_keyboard k st" and "s_pShared st = Some sh"
    and "ring_ok (sh_win sh ! nat k)" and "dw_inTail (sh_win sh ! nat k) = dw_inHead (sh_win sh ! nat k)"
    and "length ks \<le> 16" and "VK_TAB \<notin> set ks" and "VK_ESCAPE \<notin> set ks"
  shows "\<exists>st' sh'. keys_run env ks st = Some st' \<and> s_pShared st' = Some sh'
    \<and> poll_n (length ks) (sh_win sh' ! nat k) = ks
    \<and> (\<forall>j < 4. j \<noteq> nat k \<longrightarrow> sh_win sh' ! j = sh_win sh ! j) \<and> s_out st' = s_out st"
proof -
  have l: "length (sh_win sh) = 4" "nat k < 4" using assms(1,2) by (auto simp: has_keyboard_def)
  let ?st = "win_set k (fold ring_put ks) st"
  let ?sh = "win_upd (nat k) (fold ring_put ks) sh"
  have "s_pShared ?st = Some ?sh" "s_out ?st = s_out st" using assms(2) by (simp_all add: win_set_def)
  moreover have "sh_win ?sh ! nat k = fold ring_put ks (sh_win sh ! nat k)" using l by (simp add: win_upd_nth)
  moreover have "\<forall>j < 4. j \<noteq> nat k \<longrightarrow> sh_win ?sh ! j = sh_win sh ! j" using l by (simp add: win_upd_nth)
  moreover have "poll_n (length ks) (fold ring_put ks (sh_win sh ! nat k)) = ks"
    using ring_fill [OF assms(3-5)] by simp
  ultimately show ?thesis using keys_run_window [OF assms(1,6,7), of env] by auto
qed

text \<open>
  An open Start menu cannot be operated from the keyboard while a window has the focus:
  every key but Tab goes to the window (Escape asks it to close), and the menu stays open
  with its selection unmoved.
\<close>
theorem StartMenu_keys_lost:
  assumes "has_keyboard k st" and "s_bMenuOpen st" and "key \<noteq> VK_TAB"
  shows "\<exists>st'. OnKey env key st = Some st' \<and> s_bMenuOpen st' \<and> s_nMenuSel st' = s_nMenuSel st
    \<and> s_out st' = s_out st
    \<and> s_pShared st' = map_option (win_upd (nat k)
        (if key = VK_ESCAPE then (\<lambda>w. w\<lparr>dw_wantClose := True\<rparr>) else ring_put key)) (s_pShared st)"
  using OnKey_window [OF assms(1,3), of env] assms(1,2)
  by (auto simp: win_key_def win_set_def has_keyboard_def)

section \<open>Clicks on windows\<close>

definition click_act :: "int \<Rightarrow> int \<Rightarrow> dcwindow \<Rightarrow> int \<Rightarrow> 'v shell \<Rightarrow> bool \<times> 'v shell" where
  "click_act x y w k st =
     (if title_box 14 x y w then (True, win_set k (\<lambda>w. w\<lparr>dw_wantClose := True\<rparr>) st)
      else if title_box 30 x y w then (True, ToggleMaximize k st)
      else if title_box 46 x y w
      then (True, st\<lparr>s_bDirty := True, s_nFocus := (if s_nFocus st = k then - 1 else s_nFocus st),
             s_abWinMin := (s_abWinMin st)[nat k := True]\<rparr>)
      else (False, st\<lparr>s_nFocus := k\<rparr>))"

lemma click_window_find:
  "click_window x y sh ks st = map_option (\<lambda>k. click_act x y (sh_win sh ! nat k) k st)
     (List.find (\<lambda>k. \<not> s_abWinMin st ! nat k \<and> in_frame x y (sh_win sh ! nat k)) ks)"
  by (induction ks) (simp_all add: click_act_def Let_def)

lemma find_filter: "List.find P (filter Q xs) = List.find (\<lambda>x. Q x \<and> P x) xs"
  by (induction xs) auto

lemma WindowAt_dirty: "WindowAt x y (st\<lparr>s_bDirty := b\<rparr>) = WindowAt x y st"
  by (cases "s_pShared st") (simp_all add: WindowAt_def cong: if_cong option.case_cong)

lemma WindowAt_find:
  assumes "wm_ok st" and "s_pShared st = Some sh"
  shows "\<exists>ks. win_order sh st = Some ks \<and> WindowAt x y st =
     Some (case List.find (\<lambda>k. \<not> s_abWinMin st ! nat k \<and> in_frame x y (sh_win sh ! nat k)) ks of
       Some k \<Rightarrow> k | None \<Rightarrow> - 1)"
proof -
  let ?rest = "filter (\<lambda>k. dw_inUse (sh_win sh ! nat k) \<and> k \<noteq> s_nFocus st) slots"
  let ?P = "\<lambda>k. \<not> s_abWinMin st ! nat k \<and> in_frame x y (sh_win sh ! nat k)"
  have r: "List.find ?P ?rest = List.find (\<lambda>k. dw_inUse (sh_win sh ! nat k) \<and> \<not> s_abWinMin st ! nat k
      \<and> k \<noteq> s_nFocus st \<and> in_frame x y (sh_win sh ! nat k)) slots"
    unfolding find_filter by (intro arg_cong [of _ _ "\<lambda>P. List.find P slots"] ext) auto
  show ?thesis
  proof (cases "s_nFocus st \<ge> 0")
    case True
    note w = wm_focus [OF assms True]
    show ?thesis
      using w True assms(2) r by (cases "dw_inUse (sh_win sh ! nat (s_nFocus st))") (simp_all add: win_order_def WindowAt_def)
  next
    case False
    with assms(2) r show ?thesis by (simp add: win_order_def WindowAt_def)
  qed
qed

text \<open>
  C16: on the desktop a click goes to the window the hit test names and to nothing else: it
  closes, maximizes, minimizes or focuses that window by the part of the frame it hits, and
  never opens the icon underneath.
\<close>
theorem HandleClick_topmost:
  assumes "shell_ok st" and "\<not> s_bDlgOpen st" and "s_pCtxItems st = None" and "\<not> s_bMenuOpen st" and "y < TASK_Y"
    and "WindowAt x y st = Some k" and "0 \<le> k" and "s_pShared st = Some sh"
  shows "HandleClick env x y st = Some (click_act x y (sh_win sh ! nat k) k (st\<lparr>s_bDirty := True\<rparr>))
    \<and> s_out (snd (click_act x y (sh_win sh ! nat k) k (st\<lparr>s_bDirty := True\<rparr>))) = s_out st"
proof -
  let ?s = "st\<lparr>s_bDirty := True\<rparr>"
  have "wm_ok ?s" using shell_okD(1) [OF assms(1)] by simp
  from WindowAt_find [OF this, of sh x y] assms(8) obtain ks where ks: "win_order sh ?s = Some ks"
    and at: "WindowAt x y ?s = Some (case List.find (\<lambda>k. \<not> s_abWinMin st ! nat k \<and> in_frame x y (sh_win sh ! nat k)) ks of
       Some k \<Rightarrow> k | None \<Rightarrow> - 1)" by auto
  have "WindowAt x y ?s = WindowAt x y st" by (rule WindowAt_dirty)
  with at assms(6,7) have f: "List.find (\<lambda>k. \<not> s_abWinMin st ! nat k \<and> in_frame x y (sh_win sh ! nat k)) ks = Some k"
    by (auto split: option.splits)
  have nt: "\<not> (TASK_Y \<le> y \<and> 4 \<le> x \<and> x < 72)" "taskbar_hit x y ?s = None" using assms(5) by (simp_all add: taskbar_hit_def)
  have "HandleClick env x y st = Some (click_act x y (sh_win sh ! nat k) k ?s)"
    using HandleClick_desk [OF assms(2-4) nt(1), of env] nt(2) ks f assms(8) by (simp add: click_window_find Let_def)
  moreover have "s_out (ToggleMaximize k ?s) = s_out st"
    by (simp add: ToggleMaximize_def win_set_def Let_def split: option.split prod.split)
  then have "s_out (snd (click_act x y (sh_win sh ! nat k) k ?s)) = s_out st"
    by (simp add: click_act_def win_set_def)
  ultimately show ?thesis by simp
qed

text \<open>
  A click on the bare desktop is typed into the window that has the focus: the click picks
  nothing and leaves the focus where it is, and the Enter that follows an unconsumed click
  goes into that window's key ring, wherever the pointer is.
\<close>
theorem desktop_click_types_Enter:
  assumes "shell_ok st" and "has_keyboard k st" and "\<not> s_bMenuOpen st" and "y < TASK_Y"
    and "WindowAt x y st = Some (- 1)" and "DeskIconAt x y st = - 1"
  shows "HandleClick env x y st = Some (False, st\<lparr>s_bDirty := True\<rparr>)
    \<and> OnKey env VK_RETURN (st\<lparr>s_bDirty := True\<rparr>) = Some (win_set k (ring_put VK_RETURN) (st\<lparr>s_bDirty := True\<rparr>))"
proof
  let ?s = "st\<lparr>s_bDirty := True\<rparr>"
  from assms(2) obtain sh where sh: "s_pShared st = Some sh" and m: "\<not> s_bDlgOpen st" "s_pCtxItems st = None"
    by (auto simp: has_keyboard_def)
  have "wm_ok ?s" using shell_okD(1) [OF assms(1)] by simp
  from WindowAt_find [OF this, of sh x y] sh obtain ks where ks: "win_order sh ?s = Some ks"
    "\<forall>k \<in> set ks. 0 \<le> k"
    and at: "WindowAt x y ?s = Some (case List.find (\<lambda>k. \<not> s_abWinMin st ! nat k \<and> in_frame x y (sh_win sh ! nat k)) ks of
       Some k \<Rightarrow> k | None \<Rightarrow> - 1)"
    using win_order_Some [OF \<open>wm_ok ?s\<close>, of sh] by auto
  have "WindowAt x y ?s = WindowAt x y st" by (rule WindowAt_dirty)
  have f: "List.find (\<lambda>k. \<not> s_abWinMin st ! nat k \<and> in_frame x y (sh_win sh ! nat k)) ks = None"
  proof (rule ccontr)
    assume "\<not> ?thesis"
    then obtain j where j: "List.find (\<lambda>k. \<not> s_abWinMin st ! nat k \<and> in_frame x y (sh_win sh ! nat k)) ks = Some j" by auto
    with at assms(5) \<open>WindowAt x y ?s = WindowAt x y st\<close> have "j = - 1" by simp
    with find_in [OF j] ks(2) show False by auto
  qed
  have nt: "\<not> (TASK_Y \<le> y \<and> 4 \<le> x \<and> x < 72)" "taskbar_hit x y ?s = None" using assms(4) by (simp_all add: taskbar_hit_def)
  show "HandleClick env x y st = Some (False, ?s)"
    using HandleClick_desk [OF m assms(3) nt(1), of env] nt(2) ks(1) f sh assms(6)
    by (simp add: click_window_find click_icon_def DeskIconAt_def Let_def)
  have "has_keyboard k ?s" "s_nFocus ?s = k" using assms(2) by (simp_all add: has_keyboard_def)
  moreover have "VK_RETURN \<noteq> VK_TAB" "VK_RETURN \<noteq> VK_ESCAPE" by (simp_all add: VK_RETURN_def VK_TAB_def VK_ESCAPE_def)
  ultimately show "OnKey env VK_RETURN ?s = Some (win_set k (ring_put VK_RETURN) ?s)"
    using OnKey_window [of k ?s VK_RETURN env] by (simp add: win_key_def)
qed

section \<open>The context menu\<close>

lemma bind_keys_run_nil: "r \<bind> keys_run env [] = r"
  by (cases r) simp_all

lemma ctx_down:
  assumes "\<not> s_bDlgOpen st" and "s_pCtxItems st \<noteq> None" and "0 \<le> s_nCtxSel st"
  shows "s_nCtxSel st + int n < s_nCtxCount st \<Longrightarrow> s_bDirty st \<Longrightarrow>
    keys_run env (replicate n VK_DOWN) st = Some (st\<lparr>s_nCtxSel := s_nCtxSel st + int n\<rparr>)"
  using assms
proof (induction n arbitrary: st)
  case (Suc n)
  let ?s = "st\<lparr>s_nCtxSel := s_nCtxSel st + 1\<rparr>"
  have vk: "VK_DOWN \<noteq> VK_UP" by (simp add: VK_DOWN_def VK_UP_def)
  have "st\<lparr>s_bDirty := True\<rparr> = st" using Suc.prems(2) by (cases st) simp
  then have "OnKey env VK_DOWN st = Some ?s" using Suc.prems vk by (simp add: OnKey_def ctx_key_def)
  moreover have "keys_run env (replicate n VK_DOWN) ?s = Some (?s\<lparr>s_nCtxSel := s_nCtxSel ?s + int n\<rparr>)"
    using Suc.prems by (intro Suc.IH) simp_all
  ultimately show ?case by (simp add: algebra_simps)
qed simp

lemma OpenContextMenu_at:
  assumes "OpenContextMenu x y st = Some st1"
  shows "\<exists>its. s_pCtxItems st1 = Some its \<and> s_nCtxCount st1 = int (length its) \<and> s_nCtxSel st1 = 0
    \<and> 0 < length its \<and> length its \<le> 3 \<and> s_bDirty st1 \<and> s_bDlgOpen st1 = s_bDlgOpen st
    \<and> 0 \<le> s_nCtxX st1 \<and> s_nCtxX st1 + CTX_W \<le> SCREEN_W
    \<and> 0 \<le> s_nCtxY st1 \<and> s_nCtxY st1 + s_nCtxCount st1 * CTX_ROW_H + 6 \<le> TASK_Y"
proof -
  obtain sel icon its where its: "its \<in> {s_aCtxIconUser, s_aCtxIconBuiltin, s_aCtxDesktop}"
    and e: "(let h = int (length its) * CTX_ROW_H + 6;
       x = (if x > SCREEN_W - CTX_W then SCREEN_W - CTX_W else x);
       y = (if y > TASK_Y - h then TASK_Y - h else y);
       x = (if x < 0 then 0 else x);
       y = (if y < 0 then 0 else y)
     in Some (st\<lparr>s_bDirty := True, s_nDeskSel := sel, s_bMenuOpen := False, s_pCtxItems := Some its,
       s_nCtxCount := int (length its), s_nCtxSel := 0, s_nCtxX := x, s_nCtxY := y, s_nCtxIcon := icon\<rparr>)) = Some st1"
  proof (cases "DeskIconAt x y st \<ge> 0")
    case True
    then obtain u where "at (s_anDeskUser st) (DeskIconAt x y st) = Some u"
      using assms by (cases "at (s_anDeskUser st) (DeskIconAt x y st)") (simp_all add: OpenContextMenu_def Let_def)
    with True assms that [where its = "if u \<ge> 0 then s_aCtxIconUser else s_aCtxIconBuiltin"
        and sel = "DeskIconAt x y st" and icon = "DeskIconAt x y st"] show thesis
      by (simp add: OpenContextMenu_def Let_def)
  next
    case False
    with assms that [of s_aCtxDesktop "- 1" "s_nDeskSel st"] show thesis by (simp add: OpenContextMenu_def Let_def)
  qed
  have n: "0 < length its" "length its \<le> 3"
    using its by (auto simp: s_aCtxIconUser_def s_aCtxIconBuiltin_def s_aCtxDesktop_def)
  show ?thesis using e n
    by (auto simp: Let_def CTX_W_def CTX_ROW_H_def SCREEN_W_def TASK_Y_def)
qed

text \<open>
  A context menu opened anywhere lies on the screen above the taskbar, and a click on any
  point of its row \<open>i\<close> does exactly what pressing Down \<open>i\<close> times and Enter does.
\<close>
theorem ContextMenu_click_is_keys:
  assumes "OpenContextMenu x y st = Some st1" and "\<not> s_bDlgOpen st"
    and "int i < s_nCtxCount st1" and "0 \<le> dx" and "dx < CTX_W" and "0 \<le> dy" and "dy < CTX_ROW_H"
  shows "0 \<le> s_nCtxX st1 \<and> s_nCtxX st1 + CTX_W \<le> SCREEN_W
    \<and> 0 \<le> s_nCtxY st1 \<and> s_nCtxY st1 + s_nCtxCount st1 * CTX_ROW_H + 6 \<le> TASK_Y
    \<and> map_option snd (HandleClick env (s_nCtxX st1 + dx) (s_nCtxY st1 + 3 + int i * CTX_ROW_H + dy) st1)
        = keys_run env (replicate i VK_DOWN @ [VK_RETURN]) st1"
proof -
  from OpenContextMenu_at [OF assms(1)] obtain its where its: "s_pCtxItems st1 = Some its"
    "s_nCtxSel st1 = 0" "s_bDirty st1" "\<not> s_bDlgOpen st1"
    and g: "0 \<le> s_nCtxX st1 \<and> s_nCtxX st1 + CTX_W \<le> SCREEN_W
    \<and> 0 \<le> s_nCtxY st1 \<and> s_nCtxY st1 + s_nCtxCount st1 * CTX_ROW_H + 6 \<le> TASK_Y"
    using assms(2) by auto
  let ?s = "st1\<lparr>s_nCtxSel := int i\<rparr>"
  let ?y = "s_nCtxY st1 + 3 + int i * CTX_ROW_H + dy"
  have d: "st1\<lparr>s_bDirty := True\<rparr> = st1" using its(3) by (cases st1) simp
  have vk: "VK_RETURN \<noteq> VK_UP" "VK_RETURN \<noteq> VK_DOWN" by (simp_all add: VK_RETURN_def VK_DOWN_def VK_UP_def)
  have "keys_run env (replicate i VK_DOWN @ [VK_RETURN]) st1 = ContextActivate env ?s"
    using ctx_down [of st1 i env] its assms(3) vk
    by (simp add: keys_run_append OnKey_def ctx_key_def bind_keys_run_nil)
  moreover have "in_ctx (s_nCtxX st1 + dx) ?y st1" "(?y - (s_nCtxY st1 + 3)) div CTX_ROW_H = int i"
    using assms(3-7) by (simp_all add: in_ctx_def CTX_ROW_H_def)
  then have "HandleClick env (s_nCtxX st1 + dx) ?y st1 = map_option (Pair True) (ContextActivate env ?s)"
    unfolding HandleClick_def Let_def d using its by simp
  ultimately show ?thesis using g by (simp add: option.map_comp comp_def option.map_ident)
qed

section \<open>Starting programs\<close>

lemma takeWhile_all_take: "\<forall>c \<in> set xs. P c \<Longrightarrow> length xs \<le> n \<Longrightarrow> \<not> P c \<Longrightarrow>
    takeWhile P (take n (xs @ c # ys)) = xs"
  by (cases "length xs = n") (simp_all add: take_Cons' takeWhile_append2)

text \<open>
  What a command line starts. The program is everything up to the first space: a name that
  begins with dcw is started beside the shell with the rest of the line as its argument (once
  the shared section exists), and any other program takes the machine: the shell lets go of
  the input devices, runs it to its end, and takes them back, with the argument dropped.
\<close>
theorem ShellLaunch_effect:
  assumes "\<forall>c \<in> set exe. c \<noteq> 0 \<and> c \<noteq> 0x20" and "length exe \<le> 259" and "0 \<notin> set args" and "length args < 260"
    and "s_pShared st \<noteq> None"
  shows "map_option s_out (ShellLaunch env (exe @ 0x20 # args @ [0]) st) = Some (s_out st @
      (if IsDcwApp exe then [UiLaunch exe (Some args)] else [UiInputRelease, UiFullscreen exe, UiInputReacquire]))
    \<and> map_option s_out (ShellLaunch env (exe @ [0]) st) = Some (s_out st @
      (if IsDcwApp exe then [UiLaunch exe None] else [UiInputRelease, UiFullscreen exe, UiInputReacquire]))"
proof -
  have split: "takeWhile (\<lambda>c. c \<noteq> 0 \<and> c \<noteq> 0x20) (take 259 (exe @ c # ys)) = exe"
    if "c = 0 \<or> c = 0x20" for c ys
    using assms(1,2) that by (intro takeWhile_all_take) auto
  have at: "at (exe @ c # ys) (int (length exe)) = Some c" for c and ys :: "wchar list"
    by (simp add: at_def nth_append)
  have ho: "s_out (hand_off env exe st) = s_out st @ [UiInputRelease, UiFullscreen exe, UiInputReacquire]"
    by (simp add: hand_off_def GfxLaunch_def CheckFullscreenCrash_def RaiseBsod_def Let_def)
  have "takeWhile (\<lambda>c. c \<noteq> 0) (args @ 0 # ys) = args @ takeWhile (\<lambda>c. c \<noteq> 0) (0 # ys)" for ys
    using assms(3) by (intro takeWhile_append2) auto
  then have tw: "takeWhile (\<lambda>c. c \<noteq> 0) (args @ 0 # ys) = args" for ys by simp
  have la: "LaunchApp exe (Some (args @ [0])) st = Some (st\<lparr>s_out := s_out st @ [UiLaunch exe (Some args)]\<rparr>)"
    "LaunchApp exe None st = Some (st\<lparr>s_out := s_out st @ [UiLaunch exe None]\<rparr>)"
    using assms(4,5) tw by (auto simp: LaunchApp_def lstrcpyW_def Let_def)
  have sp: "takeWhile (\<lambda>c. c \<noteq> 0 \<and> c \<noteq> 0x20) (take 259 (exe @ 0x20 # args @ [0])) = exe"
    "takeWhile (\<lambda>c. c \<noteq> 0 \<and> c \<noteq> 0x20) (take 259 (exe @ [0])) = exe"
    by (rule split, simp)+
  have l1: "ShellLaunch env (exe @ 0x20 # args @ [0]) st =
      (if IsDcwApp exe then LaunchApp exe (Some (args @ [0])) st else Some (hand_off env exe st))"
    unfolding ShellLaunch_def sp(1) Let_def at by simp
  have l2: "ShellLaunch env (exe @ [0]) st = (if IsDcwApp exe then LaunchApp exe None st else Some (hand_off env exe st))"
    unfolding ShellLaunch_def sp(2) Let_def at by simp
  show ?thesis unfolding l1 l2 la using ho by simp
qed

text \<open>
  After a full-screen program has crashed, a program that cannot be started at all is
  reported as crashed too: \<open>GfxLaunch\<close> leaves the old exit code in place when the process is
  not created, and the blue screen names the missing program.
\<close>
theorem missing_program_blue_screen:
  assumes "\<forall>es. e_run env es exe = None" and "s_dwLastExit st AND 0xF0000000 = 0xC0000000"
  shows "s_bBsod (hand_off env exe st) \<and> cr_code (s_crash (hand_off env exe st)) = s_dwLastExit st
    \<and> cr_proc (s_crash (hand_off env exe st)) = copy_proc (basename exe) (replicate 32 0)"
  using assms by (simp add: hand_off_def GfxLaunch_def CheckFullscreenCrash_def RaiseBsod_def Let_def zero_crash_def)

section \<open>A sample\<close>

definition env0 :: shenv where
  "env0 = \<lparr>e_now = \<lambda>_. 1000, e_run = \<lambda>_ _. None, e_bmps = [ws ''A'', ws ''B''], e_alive = \<lambda>_. True\<rparr>"

text \<open>The two windows of \<open>wm0\<close> over the desktop, the second one with the focus.\<close>

definition sh0 :: "bool \<Rightarrow> (string \<times> byte list) list shell" where
  "sh0 bMenu = wm.extend (wm0\<lparr>s_aDesk := s_aDesk desk1, s_anDeskUser := s_anDeskUser desk1, s_cDesk := s_cDesk desk1,
       s_aDeskPos := s_aDeskPos desk1, s_bMenuOpen := bMenu, s_nDragKind := DRAG_NONE\<rparr>)
     \<lparr>s_pCtxItems = None, s_nCtxCount = 0, s_nCtxSel = 0, s_nCtxX = 0, s_nCtxY = 0, s_nCtxIcon = - 1,
       s_dwLastExec = 0, s_nCx = 320, s_nCy = 240, s_bBsod = False, s_crash = zero_crash, s_dwCrashSeq = 0,
       s_dwBsodAt = 0, s_bDragMoved = False, s_bPtrWas = False, s_nDownX = 0, s_nDownY = 0,
       s_nLastHk = DIN_HK_NONE, s_dwLastExit = 0xC0000005, s_din = sample_din, s_dwNext = 2000,
       s_nGhostIcon = - 1, s_dwNextPresent = 0\<rparr>"

lemma sh0_parts:
  "s_pShared (sh0 m) = Some two_wins" "s_nFocus (sh0 m) = 1" "s_bMenuOpen (sh0 m) = m"
  "\<not> s_bDlgOpen (sh0 m)" "s_pCtxItems (sh0 m) = None" "s_nMenuSel (sh0 m) = 0"
  "s_abWinMin (sh0 m) = [False, False, False, False]" "s_din (sh0 m) = sample_din"
  "s_dwLastExit (sh0 m) = 0xC0000005" "s_aDesk (sh0 m) = s_aDesk desk1" "s_anDeskUser (sh0 m) = s_anDeskUser desk1"
  "s_cDesk (sh0 m) = s_cDesk desk1" "s_aDeskPos (sh0 m) = s_aDeskPos desk1"
  by (simp_all add: sh0_def wm.defs wm0_def disp.defs disp0_def)

lemma desk1_fits: "\<forall>sc \<in> set (s_aDesk desk1). sc_fits sc"
proof -
  let ?s = "desk_seed False (desk0 sample_card)"
  from DeskPosInit_frame [of ?s] have "s_aDesk desk1 = s_aDesk ?s" unfolding desk1_def by auto
  also have "s_aDesk ?s = s_deskDefault @ replicate 17 (s_start ! 0)"
    by (simp add: desk_seed_def desk0_def length_default)
  finally show ?thesis
    by (simp add: s_deskDefault_def s_start_def sc_fits_def bs_def ws_def)
qed

lemma sh0_ok: "shell_ok (sh0 m)"
proof -
  have d: "desk_ok desk1" "s_nDeskSel (sh0 m) = 0" "s_nDeskRows (sh0 m) = 6"
    using desk1_ok by (simp_all add: sh0_def wm.defs wm0_def disp.defs disp0_def)
  then have "desk_ok (sh0 m)" by (simp add: desk_ok_def desk_raw_def icons_ok_def sh0_parts)
  moreover have "disp_ok (sh0 m)"
    using disp0_walls [of sample_card] by (simp add: disp_ok_def walls_ok_def sh0_def wm.defs wm0_def disp.defs disp0_def)
  moreover have "wm_ok (sh0 m)"
    using wm0_parts(8) by (simp add: wm_ok_def sh0_def wm.defs)
  moreover have "desk_fits (sh0 m)" using desk1_fits by (simp add: desk_fits_def sh0_parts)
  ultimately show ?thesis using sample_din_ok by (simp add: shell_ok_def shell_wm_def ctx_ok_def sh0_parts)
qed

lemma env0_ok: "env_ok env0" by (simp add: env_ok_def env0_def ws_def)

lemma sh0_keyboard: "has_keyboard 1 (sh0 m)"
  by (simp add: has_keyboard_def sh0_parts two_wins_parts) (simp add: two_wins_def)

theorem typed_keys_reach_window_witness:
  "\<exists>st' sh'. keys_run env0 [0x31, 0x32, VK_RETURN] (sh0 False) = Some st' \<and> s_pShared st' = Some sh'
     \<and> poll_n (length [0x31, 0x32, VK_RETURN]) (sh_win sh' ! nat 1) = [0x31, 0x32, VK_RETURN]"
proof -
  have k: "VK_TAB \<notin> set [0x31, 0x32, VK_RETURN]" "VK_ESCAPE \<notin> set [0x31, 0x32, VK_RETURN]" "length [0x31, 0x32, VK_RETURN] \<le> 16"
    by (simp_all add: VK_RETURN_def VK_TAB_def VK_ESCAPE_def)
  have r: "ring_ok (sh_win two_wins ! nat 1)" "dw_inTail (sh_win two_wins ! nat 1) = dw_inHead (sh_win two_wins ! nat 1)"
    by (simp_all add: two_wins_parts ring_ok_def zero_win_def)
  from typed_keys_reach_window [OF sh0_keyboard sh0_parts(1) r k(3,1,2), of env0 False] show ?thesis by blast
qed

theorem StartMenu_keys_lost_witness:
  "\<exists>st'. OnKey env0 VK_DOWN (sh0 True) = Some st' \<and> s_bMenuOpen st' \<and> s_nMenuSel st' = 0"
  using StartMenu_keys_lost [OF sh0_keyboard [of True], of VK_DOWN env0]
  by (auto simp: sh0_parts VK_DOWN_def VK_TAB_def)

lemma two_wins_len: "length (sh_win two_wins) = 4" by (simp add: two_wins_def)

lemma sh0_WindowAt: "WindowAt 150 150 (sh0 m) = Some 1"
  by (simp add: WindowAt_def sh0_parts two_wins_parts in_frame_def two_wins_len)

theorem HandleClick_topmost_witness:
  "map_option (s_out \<circ> snd) (HandleClick env0 150 150 (sh0 False)) = Some (s_out (sh0 False))"
  using HandleClick_topmost [OF sh0_ok [of False] sh0_parts(4,5), of 150 150 1 two_wins env0] sh0_WindowAt(1) [of False]
  by (simp add: sh0_parts TASK_Y_def)


lemma sh0_far: "WindowAt 500 300 (sh0 m) = Some (- 1)"
  by (simp add: WindowAt_def sh0_parts two_wins_parts in_frame_def two_wins_len slots_def zero_win_def)

lemma sh0_no_icon: "DeskIconAt 500 300 (sh0 m) = - 1"
proof -
  have "s_aDeskPos desk1 = [(14, 16), (14, 86), (14, 156), (14, 226), (14, 296), (14, 366), (122, 16)] @ replicate 17 (0, 0)"
    by code_simp
  then show ?thesis using desk1_parts(1) by (simp add: DeskIconAt_def sh0_parts ICELL_W_def ICELL_H_def)
qed

theorem desktop_click_types_Enter_witness:
  "OnKey env0 VK_RETURN ((sh0 False)\<lparr>s_bDirty := True\<rparr>)
     = Some (win_set 1 (ring_put VK_RETURN) ((sh0 False)\<lparr>s_bDirty := True\<rparr>))"
  using desktop_click_types_Enter [OF sh0_ok sh0_keyboard, of False 300 500 env0] sh0_far sh0_no_icon
  by (simp add: sh0_parts TASK_Y_def)

lemma sh0_context: "\<exists>st1. OpenContextMenu 500 300 (sh0 m) = Some st1 \<and> s_nCtxCount st1 = 3"
  by (simp add: OpenContextMenu_def sh0_no_icon s_aCtxDesktop_def)

theorem ContextMenu_click_is_keys_witness:
  "\<exists>st1. OpenContextMenu 500 300 (sh0 False) = Some st1
     \<and> map_option snd (HandleClick env0 (s_nCtxX st1 + 5) (s_nCtxY st1 + 3 + int 2 * CTX_ROW_H + 7) st1)
        = keys_run env0 (replicate 2 VK_DOWN @ [VK_RETURN]) st1"
proof -
  from sh0_context [of False] obtain st1 where c: "OpenContextMenu 500 300 (sh0 False) = Some st1" "s_nCtxCount st1 = 3"
    by blast
  from ContextMenu_click_is_keys [OF c(1) sh0_parts(4), of 2 5 7 env0] c show ?thesis
    by (simp add: CTX_W_def CTX_ROW_H_def)
qed

theorem ShellLaunch_effect_witness:
  "map_option s_out (ShellLaunch env0 (ws ''dcwtask.exe'' @ 0x20 # ws ''crash'' @ [0]) (sh0 False))
     = Some (s_out (sh0 False) @ [UiLaunch (ws ''dcwtask.exe'') (Some (ws ''crash''))])"
proof -
  have "IsDcwApp (ws ''dcwtask.exe'')" by (simp add: IsDcwApp_def ws_def)
  then show ?thesis
    using ShellLaunch_effect [of "ws ''dcwtask.exe''" "ws ''crash''" "sh0 False" env0]
    by (simp add: sh0_parts) (simp add: ws_def)
qed

theorem missing_program_blue_screen_witness: "s_bBsod (hand_off env0 (ws ''game.exe'') (sh0 False))"
  using missing_program_blue_screen [of env0 "ws ''game.exe''" "sh0 False"] by (simp add: sh0_parts env0_def)

end
