(* ===== verification/Frame.thy ===== *)
theory Frame
  imports Dispatch
begin

text \<open>
  One turn of the shell's main loop, \<open>WinMain\<close> of \<open>shell/dcshell.c\<close> from the message pump
  to the present, and the states it can reach.

  Each value a turn reads from the system is a field of \<open>frame_in\<close>: the messages, what the
  devices report, the clock at each place it is read, and whether the surface was lost.
  Clients run between two turns (the shell's thread has the higher priority). The message
  that ends the program is not modelled, and drawing is the fact that a turn drew.
\<close>

datatype wmsg = WM_KEYDOWN u32 | WM_MOUSEMOVE "16 word" "16 word" | WM_LBUTTONDOWN "16 word" "16 word"

record frame_in =
  f_env :: shenv
  f_diKbd :: bool
  f_msgs :: "wmsg list"
  f_poll :: din_poll
  f_hkKbd :: "byte list option"
  f_hkPad :: "byte list option"
  f_tickBsod :: u32
  f_tickClock :: u32
  f_tickPresent :: u32
  f_tickDone :: u32
  f_lost :: bool

section \<open>Messages\<close>

definition WndProc :: "shenv \<Rightarrow> bool \<Rightarrow> wmsg \<Rightarrow> 'v shell \<Rightarrow> 'v shell option" where
  "WndProc env bDiKbd msg st =
     (case msg of
        WM_KEYDOWN k \<Rightarrow> if \<not> bDiKbd then OnKey env k st else Some st
      | WM_MOUSEMOVE x y \<Rightarrow> Some (st\<lparr>s_din := DInSetCursor (sint x) (sint y) (s_din st)\<rparr>)
      | WM_LBUTTONDOWN x y \<Rightarrow>
          Some (st\<lparr>s_din := DInPostClick (DInSetCursor (sint x) (sint y) (s_din st))\<rparr>))"

primrec run_msgs :: "shenv \<Rightarrow> bool \<Rightarrow> wmsg list \<Rightarrow> 'v shell \<Rightarrow> 'v shell option" where
  "run_msgs env b [] st = Some st"
| "run_msgs env b (m # ms) st = WndProc env b m st \<bind> run_msgs env b ms"

section \<open>Crashes\<close>

definition crash_watch :: "shenv \<Rightarrow> 'v shell \<Rightarrow> 'v shell" where
  "crash_watch env st =
     (case s_pShared st of None \<Rightarrow> st
      | Some sh \<Rightarrow>
          if cr_seq (sh_crash sh) \<noteq> s_dwCrashSeq st
          then RaiseBsod env (st\<lparr>s_crash := sh_crash sh, s_dwCrashSeq := cr_seq (sh_crash sh)\<rparr>)
          else st)"

text \<open>\<open>bAny || DInTookActivate() || DInTookContext() || DInTookClick()\<close>, left to right.\<close>

definition any_input :: "bool \<Rightarrow> din \<Rightarrow> bool \<times> din" where
  "any_input bAny d =
     (if bAny then (True, d)
      else let (a, d) = DInTookActivate d
        in if a then (True, d)
           else let (c, d) = DInTookContext d in if c then (True, d) else DInTookClick d)"

definition bsod_step :: "u32 \<Rightarrow> 'v shell \<Rightarrow> 'v shell" where
  "bsod_step tick st =
     (let (bAny, d) = drain_keys 32 (s_din st)
      in if tick - s_dwBsodAt st > 400
         then let (b, d) = any_input bAny d
           in if b then st\<lparr>s_bDirty := True, s_bBsod := False, s_din := d\<rparr> else st\<lparr>s_din := d\<rparr>
         else st\<lparr>s_din := d\<rparr>)"

section \<open>Keys and hot keys\<close>

text \<open>\<open>while (DInNextKey(&vk)) OnKey(vk);\<close> at most 31 keys wait.\<close>

primrec run_keys :: "nat \<Rightarrow> shenv \<Rightarrow> 'v shell \<Rightarrow> 'v shell option" where
  "run_keys 0 env st = Some st"
| "run_keys (Suc n) env st =
     (case DInNextKey (s_din st) of None \<Rightarrow> Some st
      | Some (k, d) \<Rightarrow> OnKey env k (st\<lparr>s_din := d\<rparr>) \<bind> run_keys n env)"

definition hotkeys :: "byte list option \<Rightarrow> byte list option \<Rightarrow> 'v shell \<Rightarrow> 'v shell option" where
  "hotkeys kbd pad st = do {
     let nHk = DInHotkey kbd (s_din st);
     nHk \<leftarrow> (if nHk = DIN_HK_NONE
       then map_option (\<lambda>b. if b then DIN_HK_ALTF4 else DIN_HK_NONE) (DInPadCombo pad (s_din st))
       else Some nHk);
     st \<leftarrow> (if nHk \<noteq> DIN_HK_NONE \<and> nHk \<noteq> s_nLastHk st
       then case nHk of
           DIN_HK_ALTF4 \<Rightarrow> do {
             f \<leftarrow> focus_open st;
             Some (if f then (win_set (s_nFocus st) (\<lambda>w. w\<lparr>dw_wantClose := True\<rparr>) st)\<lparr>s_bDirty := True\<rparr> else st) }
         | _ \<Rightarrow> LaunchApp (ws ''dcwtask.exe'') None st
       else Some st);
     Some (st\<lparr>s_nLastHk := nHk\<rparr>) }"

section \<open>The pointer\<close>

definition hover :: "'v shell \<Rightarrow> 'v shell option" where
  "hover st =
     (let x = s_nCx st; y = s_nCy st
      in if s_pCtxItems st \<noteq> None
         then Some (if in_ctx x y st
           then let nRow = (y - (s_nCtxY st + 3)) div CTX_ROW_H
             in if nRow \<ge> 0 \<and> nRow < s_nCtxCount st \<and> nRow \<noteq> s_nCtxSel st
                then st\<lparr>s_bDirty := True, s_nCtxSel := nRow\<rparr> else st
           else st)
         else if s_bMenuOpen st
         then Some (if in_menu x y
           then let nRow = (y - menu_y) div ROW_H
             in if nRow \<ge> 0 \<and> nRow < START_N \<and> nRow \<noteq> s_nMenuSel st
                then st\<lparr>s_bDirty := True, s_nMenuSel := nRow\<rparr> else st
           else st)
         else if s_bDlgOpen st then Some st
         else do {
           over \<leftarrow> PointOverWindow x y st;
           Some (if over then st
             else let nHover = DeskIconAt x y st
               in if nHover \<noteq> s_nDeskSel st then st\<lparr>s_bDirty := True, s_nDeskSel := nHover\<rparr> else st) })"

definition pointer_move :: "'v shell \<Rightarrow> (bool \<times> 'v shell) option" where
  "pointer_move st =
     (if DInHasPointer (s_din st)
      then let (x, y) = DInCursor (s_din st);
               bMoved = (x \<noteq> s_nCx st \<or> y \<noteq> s_nCy st);
               st = st\<lparr>s_nCx := x, s_nCy := y\<rparr>
        in if bMoved then map_option (Pair True) (hover st) else Some (False, st)
      else Some (False, st))"

definition press :: "'v shell \<Rightarrow> 'v shell option" where
  "press st = do {
     st \<leftarrow> DragHitTest (s_nCx st) (s_nCy st)
       (st\<lparr>s_bDragMoved := False, s_nDownX := s_nCx st, s_nDownY := s_nCy st\<rparr>);
     Some (st\<lparr>s_bDirty := True\<rparr>) }"

definition held_down :: "'v shell \<Rightarrow> 'v shell option" where
  "held_down st =
     (let st = (if \<not> s_bDragMoved st \<and> (abs (s_nCx st - s_nDownX st) > DRAG_THRESH
                  \<or> abs (s_nCy st - s_nDownY st) > DRAG_THRESH)
                then st\<lparr>s_bDragMoved := True\<rparr> else st)
      in if s_bDragMoved st \<and> s_nDragKind st \<noteq> DRAG_NONE then DragApply (s_nCx st) (s_nCy st) st else Some st)"

definition release :: "shenv \<Rightarrow> 'v shell \<Rightarrow> 'v shell option" where
  "release env st = do {
     st \<leftarrow> (if \<not> s_bDragMoved st
       then do { (b, st) \<leftarrow> HandleClick env (s_nCx st) (s_nCy st) st;
                 if \<not> b then OnKey env VK_RETURN st else Some st }
       else if s_nDragKind st = DRAG_STARTITEM \<and> s_nDragTarget st \<ge> 0
       then let st = (if s_nCy st < TASK_Y \<and> (s_nCy st < menu_y \<or> s_nCx st \<ge> 4 + MENU_W)
                      then snd (AddDesktopShortcut (s_nDragTarget st) (s_nCx st) (s_nCy st) st) else st)
         in Some (st\<lparr>s_bMenuOpen := False\<rparr>)
       else if s_nDragKind st = DRAG_ICON \<and> s_nDragTarget st \<ge> 0 \<and> s_nDragTarget st < s_cDesk st
       then DropIcon (s_nDragOffX st) (s_nDragOffY st) (s_nDragTarget st) (s_nCx st) (s_nCy st) st
       else Some st);
     Some (st\<lparr>s_bDirty := True, s_nDragKind := DRAG_NONE, s_nDragTarget := - 1, s_bDragMoved := False\<rparr>) }"

definition pointer_step :: "shenv \<Rightarrow> 'v shell \<Rightarrow> 'v shell option" where
  "pointer_step env st = do {
     let bPtr = DInPointerDown (s_din st);
     st \<leftarrow> (if bPtr \<and> \<not> s_bPtrWas st then press st
           else if bPtr \<and> s_bPtrWas st then held_down st
           else if \<not> bPtr \<and> s_bPtrWas st then release env st
           else Some st);
     PublishPointer (s_nCx st) (s_nCy st) bPtr (st\<lparr>s_bPtrWas := bPtr\<rparr>) }"

text \<open>A context request goes to the window under the pointer, else it opens the shell's menu.\<close>

definition context_step :: "'v shell \<Rightarrow> 'v shell option" where
  "context_step st =
     (let (b, d) = DInTookContext (s_din st); st = st\<lparr>s_din := d\<rparr>
      in if b \<and> \<not> s_bDlgOpen st
         then do {
           kWin \<leftarrow> WindowAt (s_nCx st) (s_nCy st) st;
           if kWin \<ge> 0 \<and> s_pShared st \<noteq> None
           then Some ((win_set kWin (ring_put VK_APPS) st)\<lparr>s_bDirty := True, s_nFocus := kWin\<rparr>)
           else OpenContextMenu (s_nCx st) (s_nCy st) st }
         else Some st)"

definition click_step :: "shenv \<Rightarrow> 'v shell \<Rightarrow> 'v shell option" where
  "click_step env st =
     (let (b, d) = DInTookClick (s_din st); st = st\<lparr>s_din := d\<rparr>
      in if b then map_option snd (HandleClick env (s_nCx st) (s_nCy st) st) else Some st)"

section \<open>Requests, the clock, the windows' frames\<close>

definition exec_step :: "shenv \<Rightarrow> 'v shell \<Rightarrow> 'v shell option" where
  "exec_step env st =
     (case s_pShared st of None \<Rightarrow> Some st
      | Some sh \<Rightarrow>
          if sh_execSeq sh \<noteq> s_dwLastExec st
          then ShellLaunch env (sh_execPath sh) (st\<lparr>s_dwLastExec := sh_execSeq sh\<rparr>)
          else Some st)"

definition clock_step :: "(u32 \<Rightarrow> bool) \<Rightarrow> u32 \<Rightarrow> 'v shell \<Rightarrow> 'v shell" where
  "clock_step alive tick st =
     (if tick \<ge> s_dwNext st
      then ReapDeadWindows alive (st\<lparr>s_bDirty := True, s_dwNext := s_dwNext st + 1000\<rparr>) else st)"

definition gen_slot :: "dcshared \<Rightarrow> int \<Rightarrow> 'v shell \<Rightarrow> 'v shell" where
  "gen_slot sh i st =
     (let w = sh_win sh ! nat i; dwGen = (if dw_inUse w then dw_gen w else 0);
          st = (if dwGen \<noteq> s_adwLastGen st ! nat i
                then st\<lparr>s_bDirty := True, s_adwLastGen := (s_adwLastGen st)[nat i := dwGen]\<rparr> else st)
      in if \<not> dw_inUse w
         then st\<lparr>s_abWinMax := (s_abWinMax st)[nat i := False], s_abWinMin := (s_abWinMin st)[nat i := False]\<rparr>
         else st)"

definition gen_step :: "'v shell \<Rightarrow> 'v shell" where
  "gen_step st = (case s_pShared st of None \<Rightarrow> st | Some sh \<Rightarrow> fold (gen_slot sh) slots st)"

definition ghost_step :: "'v shell \<Rightarrow> 'v shell option" where
  "ghost_step st =
     (if s_bDragMoved st \<and> s_nDragKind st = DRAG_ICON \<and> s_nDragTarget st \<ge> 0 \<and> s_nDragTarget st < s_cDesk st
      then map_option (\<lambda>sc. st\<lparr>s_nGhostIcon := int (sc_icon sc)\<rparr>) (at (s_aDesk st) (s_nDragTarget st))
      else if s_bDragMoved st \<and> s_nDragKind st = DRAG_STARTITEM \<and> s_nDragTarget st \<ge> 0 \<and> s_nDragTarget st < START_N
      then map_option (\<lambda>sc. st\<lparr>s_nGhostIcon := int (sc_icon sc)\<rparr>) (at s_start (s_nDragTarget st))
      else Some (st\<lparr>s_nGhostIcon := - 1\<rparr>))"

definition desktop_step :: "frame_in \<Rightarrow> 'v shell \<Rightarrow> (bool \<times> 'v shell) option" where
  "desktop_step f st = do {
     st \<leftarrow> run_keys 32 (f_env f) st;
     st \<leftarrow> hotkeys (f_hkKbd f) (f_hkPad f) st;
     (bMoved, st) \<leftarrow> pointer_move st;
     st \<leftarrow> pointer_step (f_env f) st;
     st \<leftarrow> context_step st;
     st \<leftarrow> click_step (f_env f) st;
     st \<leftarrow> FixupFocus st;
     st \<leftarrow> exec_step (f_env f) st;
     st \<leftarrow> ghost_step (gen_step (clock_step (e_alive (f_env f)) (f_tickClock f) st));
     Some (bMoved, st) }"

text \<open>Whether the turn drew, and the state after it.\<close>

definition present :: "frame_in \<Rightarrow> bool \<Rightarrow> 'v shell \<Rightarrow> bool \<times> 'v shell" where
  "present f bMoved st =
     (if s_bDirty st \<or> bMoved \<or> f_tickPresent f \<ge> s_dwNextPresent st
      then (True, st\<lparr>s_bDirty := f_lost f, s_dwNextPresent := f_tickDone f + 100\<rparr>)
      else (False, st))"

definition frame :: "frame_in \<Rightarrow> 'v shell \<Rightarrow> (bool \<times> 'v shell) option" where
  "frame f st = do {
     st \<leftarrow> run_msgs (f_env f) (f_diKbd f) (f_msgs f) st;
     d \<leftarrow> DInUpdate (f_poll f) (s_din st);
     let st = crash_watch (f_env f) (st\<lparr>s_din := d\<rparr>);
     (bMoved, st) \<leftarrow> (if s_bBsod st then Some (False, bsod_step (f_tickBsod f) st) else desktop_step f st);
     Some (present f bMoved st) }"

section \<open>What a turn keeps\<close>

text \<open>The operations a key can reach leave the drag alone.\<close>

definition drag :: "'v shell \<Rightarrow> dragkind \<times> int" where
  "drag st = (s_nDragKind st, s_nDragTarget st)"

lemma drag_frames [simp]:
  "drag (st\<lparr>s_bDirty := b\<rparr>) = drag st" "drag (st\<lparr>s_bDeskDirty := b\<rparr>) = drag st"
  "drag (st\<lparr>s_out := es\<rparr>) = drag st" "drag (st\<lparr>s_bMenuOpen := b\<rparr>) = drag st"
  "drag (st\<lparr>s_din := d\<rparr>) = drag st" "drag (st\<lparr>s_nCtxSel := i\<rparr>) = drag st"
  "drag (st\<lparr>s_nMenuSel := i\<rparr>) = drag st" "drag (st\<lparr>s_nDeskSel := i\<rparr>) = drag st"
  "drag (win_set k g st) = drag st" "drag (st\<lparr>s_nFocus := i\<rparr>) = drag st"
  by (simp_all add: drag_def win_set_def)

lemma drag_more:
  fixes st st' :: "'v shell"
  shows "desk.more st' = desk.more st \<Longrightarrow> drag st' = drag st" "disp.more st' = disp.more st \<Longrightarrow> drag st' = drag st"
  by (cases st; cases st'; simp add: drag_def)+

lemma launch_drag:
  "LaunchApp exe args st = Some st' \<Longrightarrow> drag st' = drag st"
  "drag (hand_off env exe st) = drag st"
  "ShellLaunch env cmd st = Some st' \<Longrightarrow> drag st' = drag st"
  "open_shortcut env sc st = Some st' \<Longrightarrow> drag st' = drag st"
proof -
  have l: "LaunchApp exe args s = Some s' \<Longrightarrow> drag s' = drag s" for exe args and s s' :: "'v shell"
    by (auto simp: LaunchApp_def drag_def bind_eq_Some_conv split: if_splits)
  have h: "drag (hand_off env exe s) = drag s" for exe and s :: "'v shell"
    by (simp add: hand_off_def GfxLaunch_def CheckFullscreenCrash_def RaiseBsod_def Let_def drag_def)
  have sl: "ShellLaunch env cmd s = Some s' \<Longrightarrow> drag s' = drag s" for cmd and s s' :: "'v shell"
    using l h by (auto simp: ShellLaunch_def Let_def bind_eq_Some_conv split: if_splits)
  show "LaunchApp exe args st = Some st' \<Longrightarrow> drag st' = drag st" "drag (hand_off env exe st) = drag st"
    "ShellLaunch env cmd st = Some st' \<Longrightarrow> drag st' = drag st" by (fact l h sl)+
  show "open_shortcut env sc st = Some st' \<Longrightarrow> drag st' = drag st"
    using l sl by (auto simp: open_shortcut_def bind_eq_Some_conv split: option.splits)
qed

lemma drag_simps [simp]: "drag (RemoveShortcut i st) = drag st" "drag (DeskPosInit st) = drag st"
  "drag (CloseContextMenu st) = drag st" "drag (grid_move k st) = drag st"
proof -
  show "drag (RemoveShortcut i st) = drag st" by (rule drag_more(1) [OF RemoveShortcut_more])
  obtain p where "DeskPosInit st = st\<lparr>s_nDeskRows := 6, s_aDeskPos := p\<rparr>" using DeskPosInit_frame [of st] by blast
  then show "drag (DeskPosInit st) = drag st" by (simp add: drag_def)
  have step: "drag (if c then s\<lparr>s_nDeskSel := n\<rparr> else s) = drag s" for c n and s :: "'a shell" by simp
  show "drag (grid_move k st) = drag st" unfolding grid_move_def Let_def by (simp only: step)
qed (simp add: CloseContextMenu_def drag_def)

lemma OpenDisplayDialog_drag: "OpenDisplayDialog files st = Some st' \<Longrightarrow> drag st' = drag st"
proof -
  assume "OpenDisplayDialog files st = Some st'"
  then obtain s where s: "ScanWallpapers files st = Some s" and "drag st' = drag s"
    by (auto simp: OpenDisplayDialog_def bind_eq_Some_conv drag_def)
  with ScanWallpapers_same_desk [OF s] drag_more(2) [of s st] show ?thesis by simp
qed

lemma ContextActivate_drag: "ContextActivate env st = Some st' \<Longrightarrow> drag st' = drag st"
proof -
  assume "ContextActivate env st = Some st'"
  then obtain c s where s: "drag st' = drag s" and c: "(case c of
         None \<Rightarrow> Some (CloseContextMenu st)
       | Some CTXC_OPEN \<Rightarrow>
           if s_nCtxIcon st \<ge> 0 \<and> s_nCtxIcon st < s_cDesk (CloseContextMenu st)
           then do { sc \<leftarrow> at (s_aDesk (CloseContextMenu st)) (s_nCtxIcon st); open_shortcut env sc (CloseContextMenu st) }
           else Some (CloseContextMenu st)
       | Some CTXC_DELETE \<Rightarrow>
           Some ((if s_nCtxIcon st \<ge> 0 then RemoveShortcut (s_nCtxIcon st) (CloseContextMenu st) else CloseContextMenu st)\<lparr>s_bDeskDirty := True\<rparr>)
       | Some CTXC_ARRANGE \<Rightarrow> Some ((DeskPosInit (CloseContextMenu st))\<lparr>s_bDeskDirty := True\<rparr>)
       | Some CTXC_REFRESH \<Rightarrow> Some ((CloseContextMenu st)\<lparr>s_bDeskDirty := True\<rparr>)
       | Some CTXC_DISPLAY \<Rightarrow> OpenDisplayDialog (e_bmps env) (CloseContextMenu st)) = Some s"
    unfolding ContextActivate_def Let_def bind_eq_Some_conv by auto
  have "drag s = drag (CloseContextMenu st)"
  proof (cases c)
    case (Some cmd)
    with c launch_drag(4) OpenDisplayDialog_drag show ?thesis
      by (cases cmd) (fastforce simp: bind_eq_Some_conv split: if_splits)+
  qed (use c in simp)
  with s show ?thesis by simp
qed

lemma ActivateStartItem_drag: "ActivateStartItem env st = Some st' \<Longrightarrow> drag st' = drag st"
  using launch_drag(4) [of env _ "st\<lparr>s_bMenuOpen := False\<rparr>" st']
  by (auto simp: ActivateStartItem_def Let_def bind_eq_Some_conv split: if_splits)

lemma OnKey_drag:
  assumes "OnKey env k st = Some st'" and "shell_ok st"
  shows "drag st' = drag st"
proof -
  consider "s_bDlgOpen st" | "\<not> s_bDlgOpen st" "s_pCtxItems st \<noteq> None"
    | "\<not> s_bDlgOpen st" "s_pCtxItems st = None" "k = VK_TAB"
    | "\<not> s_bDlgOpen st" "s_pCtxItems st = None" "k \<noteq> VK_TAB" by blast
  then show ?thesis
  proof cases
    case 1
    have "dlg_good False st" using shell_okD(3) [OF assms(2)] by (simp add: dlg_good_def)
    from DlgOnKey_good [OF this 1, of k] assms(1) 1 have "disp.more st' = disp.more st"
      by (auto simp: OnKey_def same_desk_def)
    then show ?thesis by (rule drag_more)
  next
    case 2
    then have "ctx_key env k st = Some st'" using assms(1) by (simp add: OnKey_def)
    with ContextActivate_drag show ?thesis by (auto simp: ctx_key_def split: if_splits)
  next
    case 3
    have "CycleFocus st = Some s \<Longrightarrow> drag s = drag st" for s
      by (cases "s_pShared st") (auto simp: CycleFocus_def bind_eq_Some_conv)
    with 3 assms(1) show ?thesis by (auto simp: OnKey_def bind_eq_Some_conv split: if_splits)
  next
    case 4
    have m: "menu_key env k st = Some st' \<Longrightarrow> drag st' = drag st"
      using ActivateStartItem_drag by (fastforce simp: menu_key_def Let_def bind_eq_Some_conv split: if_splits)
    have d: "desk_key env k st = Some st' \<Longrightarrow> drag st' = drag st"
      using launch_drag(4) by (fastforce simp: desk_key_def Let_def bind_eq_Some_conv split: if_splits)
    have "drag (win_key k st) = drag st" by (simp add: win_key_def)
    with m d 4 assms(1) show ?thesis by (auto simp: OnKey_def bind_eq_Some_conv split: if_splits)
  qed
qed

text \<open>What the devices report, and strings of the system that fit.\<close>

definition in_ok :: "frame_in \<Rightarrow> bool" where
  "in_ok f \<longleftrightarrow> env_ok (f_env f) \<and> poll_ok (f_poll f) \<and> (\<forall>js. f_hkPad f = Some js \<longrightarrow> length js = 32)"

lemma shell_ok_din: "shell_ok st \<Longrightarrow> din_ok d \<Longrightarrow> shell_ok (st\<lparr>s_din := d\<rparr>)"
  by (rule shell_ok_range)

lemma OnKey_keeps: "shell_ok st \<Longrightarrow> env_ok env \<Longrightarrow> ok (OnKey env k st) (\<lambda>st'. shell_ok st' \<and> drag st' = drag st)"
proof -
  assume st: "shell_ok st" and e: "env_ok env"
  from OnKey_ok [OF st e, of k] obtain s where s: "OnKey env k st = Some s" "shell_ok s" by (auto simp: ok_def)
  with OnKey_drag [OF s(1) st] show ?thesis by simp
qed

lemma WndProc_ok: "shell_ok st \<Longrightarrow> env_ok env \<Longrightarrow> ok (WndProc env b m st) (\<lambda>st'. shell_ok st' \<and> drag st' = drag st)"
proof -
  assume st: "shell_ok st" and e: "env_ok env"
  have d: "din_ok (DInSetCursor x y (s_din st))" "din_ok (DInPostClick (DInSetCursor x y (s_din st)))" for x y
    using din_ok_upd(10) [OF din_ok_cursor [OF shell_okD(6) [OF st]], where a = True]
    by (simp_all add: DInSetCursor_def DInPostClick_def din_ok_upd)
  show ?thesis
    using OnKey_keeps [OF st e] st d
    by (cases m) (simp_all add: WndProc_def shell_ok_din)
qed

lemma run_msgs_ok: "shell_ok st \<Longrightarrow> env_ok env \<Longrightarrow> ok (run_msgs env b ms st) (\<lambda>st'. shell_ok st' \<and> drag st' = drag st)"
proof (induction ms arbitrary: st)
  case (Cons m ms)
  from WndProc_ok [OF Cons.prems, of b m] obtain s where s: "WndProc env b m st = Some s" "shell_ok s" "drag s = drag st"
    by (auto simp: ok_def)
  from Cons.IH [OF s(2) Cons.prems(2)] s show ?case by (auto elim!: ok_mono)
qed simp

lemma crash_watch_ok: "shell_ok st \<Longrightarrow> shell_ok (crash_watch env st) \<and> drag (crash_watch env st) = drag st"
  by (auto simp: crash_watch_def RaiseBsod_ok split: option.split) (simp add: RaiseBsod_def Let_def drag_def)

lemma any_input_ok: "din_ok d \<Longrightarrow> din_ok (snd (any_input b d))"
  by (simp add: any_input_def DInTookActivate_def DInTookContext_def DInTookClick_def Let_def din_ok_upd)

lemma bsod_step_ok: "shell_ok st \<Longrightarrow> shell_ok (bsod_step tick st)"
proof -
  assume st: "shell_ok st"
  obtain b d where d: "drain_keys 32 (s_din st) = (b, d)" by (cases "drain_keys 32 (s_din st)")
  have o: "din_ok d" using drain_keys_ok [OF shell_okD(6) [OF st], of 32] d by simp
  obtain c d' where c: "any_input b d = (c, d')" by (cases "any_input b d")
  have o': "din_ok d'" using any_input_ok [OF o, of b] c by simp
  show ?thesis using shell_ok_din [OF st o] shell_ok_din [OF st o'] d c
    by (simp add: bsod_step_def shell_ok_def)
qed

lemma run_keys_ok: "shell_ok st \<Longrightarrow> env_ok env \<Longrightarrow> ok (run_keys n env st) (\<lambda>st'. shell_ok st' \<and> drag st' = drag st)"
proof (induction n arbitrary: st)
  case (Suc n)
  show ?case
  proof (cases "DInNextKey (s_din st)")
    case (Some a)
    obtain k d where a: "a = (k, d)" by (cases a)
    let ?s = "st\<lparr>s_din := d\<rparr>"
    have s: "shell_ok ?s"
      using Suc.prems(1) Some a DInNextKey_ok [OF shell_okD(6)] by (intro shell_ok_din) auto
    from OnKey_keeps [OF s Suc.prems(2), of k] obtain s' where s': "OnKey env k ?s = Some s'" "shell_ok s'"
      and "drag s' = drag st" by (auto simp: ok_def)
    then show ?thesis using Suc.IH [OF s'(2) Suc.prems(2)] Some a by (auto elim!: ok_mono)
  qed (use Suc in simp)
qed simp

lemma hotkeys_ok:
  assumes "shell_ok st" and "\<And>js. pad = Some js \<Longrightarrow> length js = 32"
  shows "ok (hotkeys kbd pad st) (\<lambda>st'. shell_ok st' \<and> drag st' = drag st)"
proof -
  have "\<exists>b. DInPadCombo pad (s_din st) = Some b"
  proof (cases "g_pJoy (s_din st) \<and> pad \<noteq> None")
    case True
    then obtain js where js: "pad = Some js" by auto
    note j = JBTN_ok [OF shell_okD(6) [OF assms(1)] assms(2) [OF js]]
    from j [of 3] j [of 0] obtain b3 b0 where "JBTN (s_din st) js 3 = Some b3" "JBTN (s_din st) js 0 = Some b0" by auto
    with True js show ?thesis by (cases b3) (auto simp: DInPadCombo_def intro: exI [of _ False])
  next
    case False
    then show ?thesis by (auto simp: DInPadCombo_def)
  qed
  then obtain b where b: "DInPadCombo pad (s_din st) = Some b" by blast
  obtain f where f: "focus_open st = Some f" using focus_open_Some [OF shell_okD(1) [OF assms(1)]] by blast
  from LaunchApp_ok(1) [OF assms(1), of "ws ''dcwtask.exe''"] launch_drag(1) [of "ws ''dcwtask.exe''" None st]
  have l: "ok (LaunchApp (ws ''dcwtask.exe'') None st) (\<lambda>s. shell_ok s \<and> drag s = drag st)" by (auto simp: ok_def)
  define h where "h = (if DInHotkey kbd (s_din st) = DIN_HK_NONE then if b then DIN_HK_ALTF4 else DIN_HK_NONE
     else DInHotkey kbd (s_din st))"
  have lk: "drag (s\<lparr>s_nLastHk := k\<rparr>) = drag s" for k and s :: "'a shell" by (simp add: drag_def)
  have "hotkeys kbd pad st = (if h \<noteq> DIN_HK_NONE \<and> h \<noteq> s_nLastHk st
       then case h of
           DIN_HK_ALTF4 \<Rightarrow> do {
             f \<leftarrow> focus_open st;
             Some (if f then (win_set (s_nFocus st) (\<lambda>w. w\<lparr>dw_wantClose := True\<rparr>) st)\<lparr>s_bDirty := True\<rparr> else st) }
         | _ \<Rightarrow> LaunchApp (ws ''dcwtask.exe'') None st
       else Some st) \<bind> (\<lambda>st. Some (st\<lparr>s_nLastHk := h\<rparr>))"
    using b by (cases "DInHotkey kbd (s_din st) = DIN_HK_NONE") (simp_all add: hotkeys_def h_def Let_def)
  also have "ok \<dots> (\<lambda>st'. shell_ok st' \<and> drag st' = drag st)"
    using l f assms(1) by (cases h) (simp_all add: lk)
  finally show ?thesis .
qed

lemma hover_ok: "shell_ok st \<Longrightarrow> ok (hover st) (\<lambda>st'. shell_ok st' \<and> drag st' = drag st)"
proof -
  assume st: "shell_ok st"
  obtain k where k: "WindowAt (s_nCx st) (s_nCy st) st = Some k" using WindowAt_Some [OF shell_okD(1) [OF st]] by blast
  have c: "shell_ok (st\<lparr>s_bDirty := True, s_nCtxSel := n\<rparr>)" if "0 \<le> n" "n < s_nCtxCount st" for n
    using st that by (auto simp: shell_ok_def ctx_ok_def)
  have m: "shell_ok (st\<lparr>s_bDirty := True, s_nMenuSel := n\<rparr>)" if "0 \<le> n" "n < START_N" for n
    using shell_ok_range(3) [of "st\<lparr>s_bDirty := True\<rparr>" n] st that by (simp add: START_N_def)
  have d: "shell_ok (st\<lparr>s_bDirty := True, s_nDeskSel := DeskIconAt x y st\<rparr>)" for x y
    using shell_ok_range(2) [of "st\<lparr>s_bDirty := True\<rparr>" "DeskIconAt x y st"] st DeskIconAt_range [OF shell_okD(2) [OF st]]
    by simp
  show ?thesis
    using st c m d k by (simp add: hover_def Let_def PointOverWindow_def)
qed

lemma pointer_move_ok: "shell_ok st \<Longrightarrow> ok (pointer_move st) (\<lambda>r. shell_ok (snd r) \<and> drag (snd r) = drag st)"
proof -
  assume st: "shell_ok st"
  let ?s = "st\<lparr>s_nCx := fst (DInCursor (s_din st)), s_nCy := snd (DInCursor (s_din st))\<rparr>"
  have "shell_ok ?s" "drag ?s = drag st" using st by (simp_all add: drag_def)
  with hover_ok [of ?s] st show ?thesis
    by (simp add: pointer_move_def Let_def split_def)
qed

lemma ok_bindI: "ok x P \<Longrightarrow> (\<And>y. P y \<Longrightarrow> ok (f y) Q) \<Longrightarrow> ok (x \<bind> f) Q"
  by (cases x) auto

lemma win_set_more [simp]: "wm.more (win_set k f s) = wm.more s" "s_aDesk (win_set k f s) = s_aDesk s"
  by (simp_all add: win_set_def)

lemma DragHitTest_more: "DragHitTest x y st = Some st' \<Longrightarrow> wm.more st' = wm.more st \<and> s_aDesk st' = s_aDesk st"
proof -
  have g: "grab_window x y sh ks s = Some s' \<Longrightarrow> wm.more s' = wm.more s \<and> s_aDesk s' = s_aDesk s"
    for sh ks and s s' :: "('a, 'b) wm_scheme"
    by (induction ks) (auto simp: Let_def split: if_splits)
  have i: "wm.more (grab_icon x y s) = wm.more s \<and> s_aDesk (grab_icon x y s) = s_aDesk s"
    for s :: "('a, 'b) wm_scheme"
    by (simp add: grab_icon_def Let_def)
  let ?s = "st\<lparr>s_nDragKind := DRAG_NONE, s_nDragTarget := - 1\<rparr>"
  assume a: "DragHitTest x y st = Some st'"
  show ?thesis
  proof (cases "s_bMenuOpen st")
    case True
    with a show ?thesis
      by (cases "in_menu x y"; cases "at s_start ((y - menu_y) div ROW_H)")
        (auto simp: DragHitTest_def Let_def split: if_splits)
  next
    case False
    have n: "grab_icon x y ?s = st' \<Longrightarrow> ?thesis" using i [of ?s] by auto
    show ?thesis
    proof (cases "s_pShared st")
      case None
      with a False n show ?thesis by (simp add: DragHitTest_def Let_def)
    next
      case (Some sh)
      with a False obtain ks where e: "win_order sh ?s = Some ks"
        by (cases "win_order sh ?s") (simp_all add: DragHitTest_def Let_def)
      show ?thesis
      proof (cases "grab_window x y sh ks ?s")
        case None
        with a False Some e n show ?thesis by (simp add: DragHitTest_def Let_def)
      next
        case (Some s)
        with a False \<open>s_pShared st = _\<close> e have "s = st'" by (simp add: DragHitTest_def Let_def)
        with g [OF Some] show ?thesis by simp
      qed
    qed
  qed
qed

lemma shell_ok_press: "shell_ok st \<Longrightarrow> ok (press st) shell_ok"
proof -
  assume st: "shell_ok st"
  let ?s = "st\<lparr>s_bDragMoved := False, s_nDownX := s_nCx st, s_nDownY := s_nCy st\<rparr>"
  have s: "shell_ok ?s" using st by simp
  have "ok (DragHitTest (s_nCx st) (s_nCy st) ?s) shell_ok"
    using DragHitTest_more by (intro wm_op_ok [OF s DragHitTest_ok [OF shell_okD(4) [OF s]]]) blast
  then show ?thesis by (simp add: press_def)
qed

lemma DragApply_more: "DragApply x y st = Some st' \<Longrightarrow> wm.more st' = wm.more st \<and> s_aDesk st' = s_aDesk st"
proof -
  assume a: "DragApply x y st = Some st'"
  show ?thesis
  proof (cases "s_pShared st")
    case (Some sh)
    with a show ?thesis
      by (cases "at (sh_win sh) (s_nDragTarget st)") (auto simp: DragApply_def split: if_splits)
  next
    case None
    with a show ?thesis by (auto simp: DragApply_def split: if_splits)
  qed
qed

lemma DragApply_shell:
  "shell_ok st \<Longrightarrow> s_nDragTarget st < 4 \<or> s_nDragKind st = DRAG_ICON \<Longrightarrow> ok (DragApply x y st) shell_ok"
  using wm_op_ok [of st "DragApply x y st"] DragApply_ok [OF shell_okD(4), of st x y] DragApply_more [of x y st] by blast

lemma held_down_ok: "shell_ok st \<Longrightarrow> drag st \<noteq> (DRAG_STARTITEM, 4) \<Longrightarrow> ok (held_down st) shell_ok"
proof -
  assume st: "shell_ok st" and d: "drag st \<noteq> (DRAG_STARTITEM, 4)"
  let ?s = "(if \<not> s_bDragMoved st \<and> (abs (s_nCx st - s_nDownX st) > DRAG_THRESH
                  \<or> abs (s_nCy st - s_nDownY st) > DRAG_THRESH)
                then st\<lparr>s_bDragMoved := True\<rparr> else st)"
  have s: "shell_ok ?s" and k: "s_nDragKind ?s = s_nDragKind st" "s_nDragTarget ?s = s_nDragTarget st" "s_nCx ?s = s_nCx st"
    "s_nCy ?s = s_nCy st" using st by simp_all
  have "s_nDragTarget st < 4 \<or> s_nDragKind st = DRAG_ICON" if "s_nDragKind st \<noteq> DRAG_NONE"
    using shell_okD(1) [OF st] d that by (cases "s_nDragKind st") (auto simp: wm_ok_def drag_def)
  then have "s_nDragTarget ?s < 4 \<or> s_nDragKind ?s = DRAG_ICON" if "s_nDragKind st \<noteq> DRAG_NONE"
    using that k by simp
  then have "ok (DragApply (s_nCx st) (s_nCy st) ?s) shell_ok" if "s_nDragKind st \<noteq> DRAG_NONE"
    using DragApply_shell [OF s] that by blast
  with s show ?thesis by (simp only: held_down_def Let_def k) simp
qed

lemma moved_frame [simp]:
  fixes st :: "'v shell"
  shows "desk_ok (st\<lparr>s_bDragMoved := b\<rparr>) = desk_ok st" "disp_ok (st\<lparr>s_bDragMoved := b\<rparr>) = disp_ok st"
  by (simp_all add: desk_defs disp_ok_def walls_ok_def)

lemma drop_drag: "shell_ok st \<Longrightarrow> shell_ok (st\<lparr>s_bDirty := True, s_nDragKind := DRAG_NONE, s_nDragTarget := - 1, s_bDragMoved := False\<rparr>)"
proof -
  assume st: "shell_ok st"
  have "wm_ok (st\<lparr>s_bDirty := True, s_nDragKind := DRAG_NONE, s_nDragTarget := - 1, s_bDragMoved := False\<rparr>)"
    using shell_okD(1) [OF st] by (simp add: wm_ok_def)
  then show ?thesis using st by (simp add: shell_ok_def shell_wm_def)
qed

lemma release_ok:
  assumes "shell_ok st" and "env_ok env"
  shows "ok (release env st) shell_ok"
proof -
  from HandleClick_ok [OF assms] obtain b s where h: "HandleClick env (s_nCx st) (s_nCy st) st = Some (b, s)" "shell_ok s"
    by (fastforce simp: ok_def)
  have click: "ok (HandleClick env (s_nCx st) (s_nCy st) st \<bind> (\<lambda>(b, st). if \<not> b then OnKey env VK_RETURN st else Some st)) shell_ok"
    using h OnKey_ok [OF h(2) assms(2)] by simp
  have add: "shell_ok (snd (AddDesktopShortcut n x y st))" for n x y by (rule Desk_steps_ok [OF assms(1)])
  have "s_nDragTarget st < 24" if "s_nDragKind st = DRAG_ICON" using shell_okD(1) [OF assms(1)] that by (simp add: wm_ok_def)
  then have "ok (DropIcon (s_nDragOffX st) (s_nDragOffY st) (s_nDragTarget st) (s_nCx st) (s_nCy st) st) shell_ok"
    if "s_nDragKind st = DRAG_ICON" "s_nDragTarget st \<ge> 0" using that by (intro Desk_steps_ok [OF assms(1)]) auto
  note drop = this
  show ?thesis
    unfolding release_def
  proof (rule ok_bindI [where P = shell_ok])
    show "ok (if \<not> s_bDragMoved st
       then do { (b, st) \<leftarrow> HandleClick env (s_nCx st) (s_nCy st) st;
                 if \<not> b then OnKey env VK_RETURN st else Some st }
       else if s_nDragKind st = DRAG_STARTITEM \<and> s_nDragTarget st \<ge> 0
       then let st = (if s_nCy st < TASK_Y \<and> (s_nCy st < menu_y \<or> s_nCx st \<ge> 4 + MENU_W)
                      then snd (AddDesktopShortcut (s_nDragTarget st) (s_nCx st) (s_nCy st) st) else st)
         in Some (st\<lparr>s_bMenuOpen := False\<rparr>)
       else if s_nDragKind st = DRAG_ICON \<and> s_nDragTarget st \<ge> 0 \<and> s_nDragTarget st < s_cDesk st
       then DropIcon (s_nDragOffX st) (s_nDragOffY st) (s_nDragTarget st) (s_nCx st) (s_nCy st) st
       else Some st) shell_ok"
      using click add assms(1) drop by (simp add: Let_def del: ok_bind)
  qed (simp only: ok_Some, rule drop_drag)
qed

lemma PublishPointer_more: "PublishPointer x y b st = Some st' \<Longrightarrow> wm.more st' = wm.more st \<and> s_aDesk st' = s_aDesk st"
  by (auto simp: PublishPointer_def bind_eq_Some_conv split: option.splits)

text \<open>\<open>ok_or d x P\<close>: the result satisfies \<open>P\<close>, and the step can fault only if \<open>d\<close>.\<close>

definition ok_or :: "bool \<Rightarrow> 'a option \<Rightarrow> ('a \<Rightarrow> bool) \<Rightarrow> bool" where
  "ok_or d x P \<longleftrightarrow> (case x of None \<Rightarrow> d | Some y \<Rightarrow> P y)"

lemma ok_imp: "ok x P \<Longrightarrow> ok_or d x P"
  by (cases x) (simp_all add: ok_or_def)

lemma ok_or_Some [simp]: "ok_or d (Some y) P = P y"
  by (simp add: ok_or_def)

lemma ok_or_bind: "ok_or d x P \<Longrightarrow> (\<And>y. P y \<Longrightarrow> ok_or d (f y) Q) \<Longrightarrow> ok_or d (x \<bind> f) Q"
  by (cases x) (simp_all add: ok_or_def)

lemma DragApply_start: "s_nDragKind s = DRAG_STARTITEM \<Longrightarrow> DragApply x y s = Some s' \<Longrightarrow> s' = s\<lparr>s_bDirty := True\<rparr>"
  by (auto simp: DragApply_def bind_eq_Some_conv split: option.splits if_splits)

lemma held_down_or: "shell_ok st \<Longrightarrow> ok_or (drag st = (DRAG_STARTITEM, 4)) (held_down st) shell_ok"
proof (cases "drag st = (DRAG_STARTITEM, 4)")
  case True
  assume st: "shell_ok st"
  have k: "s_nDragKind st = DRAG_STARTITEM" "s_nDragTarget st = 4" using True by (simp_all add: drag_def)
  show ?thesis
  proof (cases "held_down st")
    case (Some st')
    with k st DragApply_start [rotated] have "shell_ok st'"
      by (fastforce simp: held_down_def Let_def split: if_splits)
    with Some show ?thesis by simp
  qed (use True in \<open>simp add: ok_or_def\<close>)
next
  case False
  assume st: "shell_ok st"
  from held_down_ok [OF st False] show ?thesis by (rule ok_imp)
qed

lemma pointer_step_or:
  assumes "shell_ok st" and "env_ok env"
  shows "ok_or (drag st = (DRAG_STARTITEM, 4)) (pointer_step env st) shell_ok"
proof -
  have p: "ok (PublishPointer (s_nCx s) (s_nCy s) b (s\<lparr>s_bPtrWas := b\<rparr>)) shell_ok" if "shell_ok s" for s :: "'a shell" and b
  proof -
    have s: "shell_ok (s\<lparr>s_bPtrWas := b\<rparr>)" using that by simp
    show ?thesis using PublishPointer_more by (intro wm_op_ok [OF s PublishPointer_ok [OF shell_okD(4) [OF s]]]) blast
  qed
  show ?thesis
    unfolding pointer_step_def Let_def
    using ok_imp [OF shell_ok_press [OF assms(1)]] held_down_or [OF assms(1)] ok_imp [OF release_ok [OF assms(1,2)]] assms(1)
    by (intro ok_or_bind [where P = shell_ok]) (auto intro: ok_imp p)
qed

lemma context_step_ok: "shell_ok st \<Longrightarrow> ok (context_step st) shell_ok"
proof -
  assume st: "shell_ok st"
  let ?s = "st\<lparr>s_din := snd (DInTookContext (s_din st))\<rparr>"
  have s: "shell_ok ?s"
    using st shell_okD(6) [OF st] by (intro shell_ok_din) (simp_all add: DInTookContext_def din_ok_upd)
  obtain k where k: "WindowAt (s_nCx st) (s_nCy st) ?s = Some k" "- 1 \<le> k" "k < 4"
    using WindowAt_Some [OF shell_okD(1) [OF s]] by blast
  have "shell_ok ((win_set k (ring_put VK_APPS) ?s)\<lparr>s_bDirty := True, s_nFocus := k\<rparr>)"
    using shell_ok_range(1) [of "(win_set k (ring_put VK_APPS) ?s)\<lparr>s_bDirty := True\<rparr>" k] s k by simp
  with s k OpenContextMenu_ok [OF s] show ?thesis
    by (simp add: context_step_def Let_def split_def)
qed

lemma click_step_ok: "shell_ok st \<Longrightarrow> env_ok env \<Longrightarrow> ok (click_step env st) shell_ok"
proof -
  assume st: "shell_ok st" and e: "env_ok env"
  let ?s = "st\<lparr>s_din := snd (DInTookClick (s_din st))\<rparr>"
  have s: "shell_ok ?s"
    using st shell_okD(6) [OF st] by (intro shell_ok_din) (simp_all add: DInTookClick_def din_ok_upd)
  with HandleClick_ok [OF s e, of "s_nCx st" "s_nCy st"] show ?thesis
    by (simp add: click_step_def Let_def split_def)
qed

lemma FixupFocus_shell: "shell_ok st \<Longrightarrow> ok (FixupFocus st) shell_ok"
proof -
  assume st: "shell_ok st"
  have f: "wm.more (fixup_slot sh i s) = wm.more s \<and> s_aDesk (fixup_slot sh i s) = s_aDesk s" for sh i and s :: "'a shell"
    by (simp add: fixup_slot_def Let_def)
  have fs: "wm.more (fold (fixup_slot sh) is s) = wm.more s \<and> s_aDesk (fold (fixup_slot sh) is s) = s_aDesk s"
    for sh "is" and s :: "'a shell"
    by (induction "is" arbitrary: s) (simp_all add: f)
  have "wm.more st' = wm.more st \<and> s_aDesk st' = s_aDesk st" if "FixupFocus st = Some st'" for st'
  proof (cases "s_pShared st")
    case (Some sh)
    have g: "wm.more (fold (fixup_slot sh) slots s) = wm.more s \<and> s_aDesk (fold (fixup_slot sh) slots s) = s_aDesk s"
      for s :: "'a shell" by (rule fs)
    from that Some wm_focus [OF shell_okD(1) [OF st] Some] obtain s where
      "st' = fold (fixup_slot sh) slots s" "wm.more s = wm.more st \<and> s_aDesk s = s_aDesk st"
      by (auto simp: FixupFocus_def split: if_splits)
    with g [of s] show ?thesis by simp
  qed (use that in \<open>simp add: FixupFocus_def\<close>)
  with FixupFocus_ok [OF shell_okD(4) [OF st]] show ?thesis by (intro wm_op_ok [OF st])
qed

lemma exec_step_ok: "shell_ok st \<Longrightarrow> ok (exec_step env st) shell_ok"
  using shell_okD(1) [of st] ShellLaunch_ok [of "st\<lparr>s_dwLastExec := _\<rparr>"]
  by (auto simp: exec_step_def wm_ok_def split: option.split)

lemma ReapDeadWindows_shell: "shell_ok st \<Longrightarrow> shell_ok (ReapDeadWindows alive st)"
proof -
  assume st: "shell_ok st"
  have "wm.more (reap_slot alive i s) = wm.more s \<and> s_aDesk (reap_slot alive i s) = s_aDesk s" for i and s :: "'a shell"
    by (simp add: reap_slot_def Let_def split: option.split)
  then have "wm.more (ReapDeadWindows alive st) = wm.more st \<and> s_aDesk (ReapDeadWindows alive st) = s_aDesk st"
    by (simp add: ReapDeadWindows_def slots_def)
  with wm_more_ok [OF st ReapDeadWindows_ok [OF shell_okD(4) [OF st]]] show ?thesis by blast
qed

lemma clock_step_ok: "shell_ok st \<Longrightarrow> shell_ok (clock_step alive t st)"
  by (simp add: clock_step_def ReapDeadWindows_shell)

lemma gen_slot_ok: "shell_ok st \<Longrightarrow> shell_ok (gen_slot sh i st)"
proof -
  have a: "shell_ok (s\<lparr>s_abWinMax := v\<rparr>) = shell_ok s" if "length v = length (s_abWinMax s)" for s :: "'a shell" and v
    using that by (simp add: shell_ok_def)
  have g: "shell_ok (s\<lparr>s_adwLastGen := v\<rparr>) = shell_ok s" if "length v = length (s_adwLastGen s)" for s :: "'a shell" and v
    using that by (simp add: shell_ok_def shell_wm_def)
  show "shell_ok st \<Longrightarrow> ?thesis" by (simp add: gen_slot_def Let_def a g)
qed

lemma gen_step_ok: "shell_ok st \<Longrightarrow> shell_ok (gen_step st)"
  by (auto simp: gen_step_def slots_def gen_slot_ok split: option.split)

lemma ghost_step_ok: "shell_ok st \<Longrightarrow> ok (ghost_step st) shell_ok"
proof -
  assume st: "shell_ok st"
  have "at (s_aDesk st) (s_nDragTarget st) = Some (s_aDesk st ! nat (s_nDragTarget st))"
    if "0 \<le> s_nDragTarget st" "s_nDragTarget st < s_cDesk st"
    using desk_icon_ok [OF st that] by simp
  moreover have "at s_start (s_nDragTarget st) = Some (s_start ! nat (s_nDragTarget st))"
    if "0 \<le> s_nDragTarget st" "s_nDragTarget st < START_N"
    using menu_entry that by (simp add: START_N_def)
  ultimately show ?thesis using st by (simp add: ghost_step_def)
qed

lemma desktop_step_or:
  assumes "shell_ok st" and "in_ok f"
  shows "ok_or (drag st = (DRAG_STARTITEM, 4)) (desktop_step f st) (\<lambda>r. shell_ok (snd r))"
proof -
  have e: "env_ok (f_env f)" and p: "\<And>js. f_hkPad f = Some js \<Longrightarrow> length js = 32" using assms(2) by (auto simp: in_ok_def)
  obtain s1 where s1: "run_keys 32 (f_env f) st = Some s1" "shell_ok s1" "drag s1 = drag st"
    using run_keys_ok [OF assms(1) e] by (auto simp: ok_def)
  obtain s2 where s2: "hotkeys (f_hkKbd f) (f_hkPad f) s1 = Some s2" "shell_ok s2" "drag s2 = drag s1"
    using hotkeys_ok [where kbd = "f_hkKbd f" and pad = "f_hkPad f", OF s1(2) p] by (auto simp: ok_def)
  obtain b s3 where s3: "pointer_move s2 = Some (b, s3)" "shell_ok s3" "drag s3 = drag s2"
    using pointer_move_ok [OF s2(2)] by (fastforce simp: ok_def)
  have s4: "ok_or (drag st = (DRAG_STARTITEM, 4)) (pointer_step (f_env f) s3) shell_ok"
    using pointer_step_or [OF s3(2) e] s1(3) s2(3) s3(3) by simp
  show ?thesis
    unfolding desktop_step_def s1(1) s2(1) s3(1) bind.bind_lunit prod.case
    by (intro ok_or_bind [OF s4] ok_imp ok_bindI [OF context_step_ok] ok_bindI [OF click_step_ok] ok_bindI [OF FixupFocus_shell]
        ok_bindI [OF exec_step_ok] ok_bindI [OF ghost_step_ok] gen_step_ok clock_step_ok e) simp_all
qed

lemma frame_or:
  assumes "shell_ok st" and "in_ok f"
  shows "ok_or (drag st = (DRAG_STARTITEM, 4)) (frame f st) (\<lambda>r. shell_ok (snd r))"
proof -
  have e: "env_ok (f_env f)" and p: "poll_ok (f_poll f)" using assms(2) by (auto simp: in_ok_def)
  obtain s1 where s1: "run_msgs (f_env f) (f_diKbd f) (f_msgs f) st = Some s1" "shell_ok s1" "drag s1 = drag st"
    using run_msgs_ok [OF assms(1) e] by (auto simp: ok_def)
  obtain d where d: "DInUpdate (f_poll f) (s_din s1) = Some d" "din_ok d"
    using DInUpdate_ok [OF shell_okD(6) [OF s1(2)] p] by blast
  let ?s2 = "crash_watch (f_env f) (s1\<lparr>s_din := d\<rparr>)"
  have s2: "shell_ok ?s2" "drag ?s2 = drag st"
    using crash_watch_ok [OF shell_ok_din [OF s1(2) d(2)], of "f_env f"] s1(3) by simp_all
  have pr: "shell_ok (snd (present f b s))" if "shell_ok s" for b and s :: "'a shell" using that by (simp add: present_def)
  have "ok_or (drag st = (DRAG_STARTITEM, 4))
      (if s_bBsod ?s2 then Some (False, bsod_step (f_tickBsod f) ?s2) else desktop_step f ?s2) (\<lambda>r. shell_ok (snd r))"
    using bsod_step_ok [OF s2(1)] desktop_step_or [OF s2(1) assms(2)] s2(2) by simp
  then show ?thesis
    unfolding frame_def s1(1) d(1) bind.bind_lunit Let_def
    by (rule ok_or_bind) (auto simp: pr split: prod.split)
qed

section \<open>The states the shell can reach\<close>

text \<open>
  What a client may do to the shared section between two turns: anything that leaves the
  array of windows and a terminated command. (\<open>DCWinExec\<close> copies a terminated string.)
\<close>

definition client_ok :: "dcshared option \<Rightarrow> bool" where
  "client_ok p \<longleftrightarrow> (\<forall>sh. p = Some sh \<longrightarrow> length (sh_win sh) = 4 \<and> 0 \<in> set (take 260 (sh_execPath sh)))"

inductive shell_reaches :: "'v shell \<Rightarrow> 'v shell \<Rightarrow> bool" where
  start: "shell_reaches st st"
| clients: "shell_reaches st0 st \<Longrightarrow> client_ok p \<Longrightarrow> shell_reaches st0 (st\<lparr>s_pShared := p\<rparr>)"
| turn: "shell_reaches st0 st \<Longrightarrow> in_ok f \<Longrightarrow> frame f st = Some (drew, st') \<Longrightarrow> shell_reaches st0 st'"

inductive_cases turn_cases: "shell_reaches st0 st"

lemma clients_ok: "shell_ok st \<Longrightarrow> client_ok p \<Longrightarrow> shell_ok (st\<lparr>s_pShared := p\<rparr>)"
  by (simp add: shell_ok_def shell_wm_def client_ok_def) (simp add: wm_ok_def)

lemma shell_reaches_ok: "shell_reaches st0 st \<Longrightarrow> shell_ok st0 \<Longrightarrow> shell_ok st"
proof (induction rule: shell_reaches.induct)
  case (turn st0 st f drew st')
  from frame_or [OF turn.IH [OF turn.prems] turn.hyps(2)] turn.hyps(3) show ?case by simp
qed (simp_all add: clients_ok)


text \<open>
  That exception is real: while "Crash Test" is dragged off the Start menu, its index 4
  is used as the index of a window slot, and the four-entry array is read past its end.
\<close>
theorem CrashTest_drag_overread:
  assumes "shell_ok st" and "s_pShared st \<noteq> None" and "s_nDragKind st = DRAG_STARTITEM" and "s_nDragTarget st = 4"
    and "s_bDragMoved st"
  shows "held_down st = None"
proof -
  from assms(2) obtain sh where sh: "s_pShared st = Some sh" by auto
  then have "at (sh_win sh) 4 = None" using shell_okD(1) [OF assms(1)] by (simp add: wm_ok_def at_def)
  with assms sh show ?thesis by (simp add: held_down_def DragApply_def)
qed

section \<open>The key loop ends\<close>

text \<open>An operation a key reaches leaves the key queue as it is, or empties it.\<close>

definition calm :: "'v shell \<Rightarrow> 'v shell \<Rightarrow> bool" where
  "calm st st' \<longleftrightarrow> s_din st' = s_din st \<or> qlen (s_din st') = 0"

lemma calm_frames [simp]:
  "calm st st" "calm st (s\<lparr>s_bDirty := b\<rparr>) = calm st s" "calm st (s\<lparr>s_bDeskDirty := b\<rparr>) = calm st s"
  "calm st (s\<lparr>s_out := es\<rparr>) = calm st s" "calm st (s\<lparr>s_bMenuOpen := b\<rparr>) = calm st s"
  "calm st (s\<lparr>s_nCtxSel := i\<rparr>) = calm st s" "calm st (s\<lparr>s_nMenuSel := i\<rparr>) = calm st s"
  "calm st (s\<lparr>s_nDeskSel := i\<rparr>) = calm st s" "calm st (win_set k g s) = calm st s"
  "calm st (s\<lparr>s_nFocus := i\<rparr>) = calm st s"
  "calm (s\<lparr>s_bDirty := b\<rparr>) st = calm s st" "calm (s\<lparr>s_bMenuOpen := b\<rparr>) st = calm s st"
  "calm (s\<lparr>s_nMenuSel := i\<rparr>) st = calm s st"
  by (simp_all add: calm_def win_set_def)

lemma calm_same: "s_din st' = s_din st \<Longrightarrow> calm st st'" "s_din s = s_din st \<Longrightarrow> calm s st' = calm st st'"
  by (simp_all add: calm_def)

lemma drain_empty: "qlen d = 0 \<Longrightarrow> g_nQh d < 32 \<Longrightarrow> g_nQt d < 32 \<Longrightarrow> drain_keys n d = (False, d)"
  using ring_len [of "g_nQh d" "g_nQt d"]
  by (cases n; cases "g_nQt d \<le> g_nQh d") (simp_all add: DInNextKey_def qlen_def)

lemma launch_calm:
  "LaunchApp exe args st = Some st' \<Longrightarrow> calm st st'"
  "calm st (hand_off env exe st)"
  "ShellLaunch env cmd st = Some st' \<Longrightarrow> calm st st'"
  "open_shortcut env sc st = Some st' \<Longrightarrow> calm st st'"
proof -
  have l: "LaunchApp exe args s = Some s' \<Longrightarrow> calm s s'" for exe args and s s' :: "'v shell"
    by (auto simp: LaunchApp_def calm_def bind_eq_Some_conv split: if_splits)
  have h: "calm s (hand_off env exe s)" for exe and s :: "'v shell"
  proof -
    let ?d = "\<lambda>t. DInReacquire t (s_din s)"
    have z: "qlen (?d t) = 0" "g_nQh (?d t) = 0" "g_nQt (?d t) = 0" for t by (simp_all add: DInReacquire_def qlen_def)
    have "drain_keys 32 (?d t) = (False, ?d t)" for t by (rule drain_empty) (simp_all add: z)
    moreover have "qlen (snd (DInTookClick (snd (DInTookContext (snd (DInTookActivate (?d t))))))) = 0" for t
      by (simp add: DInReacquire_def DInTookClick_def DInTookContext_def DInTookActivate_def qlen_def)
    ultimately show ?thesis using z(1)
      by (simp add: hand_off_def GfxLaunch_def CheckFullscreenCrash_def RaiseBsod_def Let_def calm_def)
  qed
  have sl: "ShellLaunch env cmd s = Some s' \<Longrightarrow> calm s s'" for cmd and s s' :: "'v shell"
    using l h by (auto simp: ShellLaunch_def Let_def bind_eq_Some_conv split: if_splits)
  show "LaunchApp exe args st = Some st' \<Longrightarrow> calm st st'" "calm st (hand_off env exe st)"
    "ShellLaunch env cmd st = Some st' \<Longrightarrow> calm st st'" by (fact l h sl)+
  show "open_shortcut env sc st = Some st' \<Longrightarrow> calm st st'"
    using l sl by (auto simp: open_shortcut_def bind_eq_Some_conv split: option.splits)
qed

lemma din_simps [simp]: "s_din (RemoveShortcut i st) = s_din st" "s_din (DeskPosInit st) = s_din st"
  "s_din (CloseContextMenu st) = s_din st" "s_din (grid_move k st) = s_din st"
proof -
  show "s_din (RemoveShortcut i st) = s_din st" by (rule desk_more_shell(4) [OF RemoveShortcut_more])
  obtain p where "DeskPosInit st = st\<lparr>s_nDeskRows := 6, s_aDeskPos := p\<rparr>" using DeskPosInit_frame [of st] by blast
  then show "s_din (DeskPosInit st) = s_din st" by simp
  have step: "s_din (if c then s\<lparr>s_nDeskSel := n\<rparr> else s) = s_din s" for c n and s :: "'a shell" by simp
  show "s_din (grid_move k st) = s_din st" unfolding grid_move_def Let_def by (simp only: step)
qed (simp add: CloseContextMenu_def)

lemma OpenDisplayDialog_din:
  fixes st :: "'v shell"
  shows "OpenDisplayDialog files st = Some st' \<Longrightarrow> s_din st' = s_din st"
proof -
  assume "OpenDisplayDialog files st = Some st'"
  then obtain s where s: "ScanWallpapers files st = Some s" and "s_din st' = s_din s"
    by (auto simp: OpenDisplayDialog_def bind_eq_Some_conv)
  with ScanWallpapers_same_desk [OF s] disp_more_shell(3) [of s st] show ?thesis by simp
qed

lemma ContextActivate_calm: "ContextActivate env st = Some st' \<Longrightarrow> calm st st'"
proof -
  assume "ContextActivate env st = Some st'"
  then obtain c s where s: "s_din st' = s_din s" and c: "(case c of
         None \<Rightarrow> Some (CloseContextMenu st)
       | Some CTXC_OPEN \<Rightarrow>
           if s_nCtxIcon st \<ge> 0 \<and> s_nCtxIcon st < s_cDesk (CloseContextMenu st)
           then do { sc \<leftarrow> at (s_aDesk (CloseContextMenu st)) (s_nCtxIcon st); open_shortcut env sc (CloseContextMenu st) }
           else Some (CloseContextMenu st)
       | Some CTXC_DELETE \<Rightarrow>
           Some ((if s_nCtxIcon st \<ge> 0 then RemoveShortcut (s_nCtxIcon st) (CloseContextMenu st) else CloseContextMenu st)\<lparr>s_bDeskDirty := True\<rparr>)
       | Some CTXC_ARRANGE \<Rightarrow> Some ((DeskPosInit (CloseContextMenu st))\<lparr>s_bDeskDirty := True\<rparr>)
       | Some CTXC_REFRESH \<Rightarrow> Some ((CloseContextMenu st)\<lparr>s_bDeskDirty := True\<rparr>)
       | Some CTXC_DISPLAY \<Rightarrow> OpenDisplayDialog (e_bmps env) (CloseContextMenu st)) = Some s"
    unfolding ContextActivate_def Let_def bind_eq_Some_conv by auto
  have same: "calm st s'" if "s_din s' = s_din st" for s' :: "'a shell" using that by (rule calm_same)
  have op: "calm st s" if "open_shortcut env sc (CloseContextMenu st) = Some s" for sc
    using launch_calm(4) [OF that] by (simp add: calm_def)
  have "calm st s"
  proof (cases c)
    case (Some cmd)
    with c op OpenDisplayDialog_din [of "e_bmps env" "CloseContextMenu st" s] show ?thesis
      by (cases cmd) (auto simp: bind_eq_Some_conv calm_def split: if_splits)
  qed (use c same in auto)
  with s show ?thesis by (simp add: calm_def)
qed

lemma OnKey_calm:
  assumes "OnKey env k st = Some st'" and "shell_ok st"
  shows "calm st st'"
proof -
  consider "s_bDlgOpen st" | "\<not> s_bDlgOpen st" "s_pCtxItems st \<noteq> None"
    | "\<not> s_bDlgOpen st" "s_pCtxItems st = None" "k = VK_TAB"
    | "\<not> s_bDlgOpen st" "s_pCtxItems st = None" "k \<noteq> VK_TAB" by blast
  then show ?thesis
  proof cases
    case 1
    have "dlg_good False st" using shell_okD(3) [OF assms(2)] by (simp add: dlg_good_def)
    from DlgOnKey_good [OF this 1, of k] assms(1) 1 have "disp.more st' = disp.more st"
      by (auto simp: OnKey_def same_desk_def)
    then show ?thesis using disp_more_shell(3) by (intro calm_same) blast
  next
    case 2
    then have "ctx_key env k st = Some st'" using assms(1) by (simp add: OnKey_def)
    with ContextActivate_calm [of env st st'] show ?thesis
      by (auto simp: ctx_key_def intro: calm_same(1) split: if_splits)
  next
    case 3
    have c: "CycleFocus st = Some s \<Longrightarrow> calm st s" for s
      by (cases "s_pShared st") (auto simp: CycleFocus_def calm_def bind_eq_Some_conv simp del: calm_frames)
    from 3 assms(1) show ?thesis by (auto simp: OnKey_def bind_eq_Some_conv dest: c split: if_splits)
  next
    case 4
    have a: "ActivateStartItem env s = Some s' \<Longrightarrow> calm s s'" for s s' :: "'a shell"
      using launch_calm(4) [of env _ "s\<lparr>s_bMenuOpen := False\<rparr>" s']
      by (auto simp: ActivateStartItem_def Let_def bind_eq_Some_conv split: if_splits)
    have m: "menu_key env k st = Some st' \<Longrightarrow> calm st st'"
      using a by (fastforce simp: menu_key_def Let_def bind_eq_Some_conv split: if_splits)
    have o: "open_shortcut env sc (grid_move k (st\<lparr>s_bDirty := True\<rparr>)) = Some st' \<Longrightarrow> calm st st'" for sc
      using launch_calm(4) [of env sc _ st'] by (fastforce simp: calm_def)
    have d: "desk_key env k st = Some st' \<Longrightarrow> calm st st'"
      using o by (fastforce simp: desk_key_def Let_def bind_eq_Some_conv intro: calm_same split: if_splits)
    have "calm st (win_key k st)" by (simp add: win_key_def)
    with m d 4 assms(1) show ?thesis by (auto simp: OnKey_def bind_eq_Some_conv split: if_splits)
  qed
qed

lemma DInNextKey_qlen: "din_ok d \<Longrightarrow> DInNextKey d = Some (k, d') \<Longrightarrow> qlen d = Suc (qlen d')"
proof -
  assume d: "din_ok d" and n: "DInNextKey d = Some (k, d')"
  have q: "q_ok d" using d by (simp add: din_ok_def)
  then have "din_queue d \<noteq> []" using n din_keys.pop_empty by fastforce
  then obtain x xs where x: "din_queue d = x # xs" by (cases "din_queue d") auto
  with DInNextKey_queue [OF q x] n have "din_queue d' = xs" by auto
  with x show ?thesis using length_din_queue [of d] length_din_queue [of d'] by simp
qed

text \<open>
  The loop that hands out the waiting keys ends: whatever the keys do, also when one of
  them starts a full-screen program or raises the blue screen, no more than the 31 keys the
  queue can hold are taken, and the queue is empty afterwards.
\<close>
theorem key_loop_ends:
  assumes "shell_ok st" and "env_ok env"
  shows "\<exists>st'. run_keys 32 env st = Some st' \<and> DInNextKey (s_din st') = None"
proof -
  have "qlen (s_din s) < n \<Longrightarrow> shell_ok s \<Longrightarrow> ok (run_keys n env s) (\<lambda>s'. DInNextKey (s_din s') = None)"
    for n and s :: "'a shell"
  proof (induction n arbitrary: s)
    case (Suc n)
    show ?case
    proof (cases "DInNextKey (s_din s)")
      case (Some a)
      obtain k d where a: "a = (k, d)" by (cases a)
      let ?s = "s\<lparr>s_din := d\<rparr>"
      have d: "din_ok (s_din s)" "DInNextKey (s_din s) = Some (k, d)" using Some a shell_okD(6) [OF Suc.prems(2)] by simp_all
      have s: "shell_ok ?s" using DInNextKey_ok [OF d] by (rule shell_ok_din [OF Suc.prems(2)])
      from OnKey_ok [OF s assms(2), of k] obtain s' where s': "OnKey env k ?s = Some s'" "shell_ok s'" by (auto simp: ok_def)
      have "qlen (s_din s') \<le> qlen d" using OnKey_calm [OF s'(1) s] by (auto simp: calm_def)
      then have "qlen (s_din s') < n" using DInNextKey_qlen [OF d] Suc.prems(1) by simp
      from Suc.IH [OF this s'(2)] s' d show ?thesis by simp
    qed simp
  qed simp
  from this [of st 32] qlen_less [of "s_din st"] assms(1) show ?thesis by (auto simp: ok_def)
qed

section \<open>The blue screen\<close>

lemma drain_all: "din_ok d \<Longrightarrow> qlen d < n \<Longrightarrow> DInNextKey (snd (drain_keys n d)) = None"
proof (induction n arbitrary: d)
  case (Suc n)
  show ?case
  proof (cases "DInNextKey d")
    case (Some a)
    obtain k d' where a: "a = (k, d')" by (cases a)
    have n: "DInNextKey d = Some (k, d')" using Some a by simp
    have "qlen d' < n" using DInNextKey_qlen [OF Suc.prems(1) n] Suc.prems(2) by simp
    from Suc.IH [OF DInNextKey_ok [OF Suc.prems(1) n] this] n show ?thesis by simp
  qed simp
qed simp

lemma any_input_next: "DInNextKey (snd (any_input b d)) = None \<longleftrightarrow> DInNextKey d = None"
  by (simp add: any_input_def DInTookActivate_def DInTookContext_def DInTookClick_def Let_def DInNextKey_def)

lemma msgs_din: "run_msgs env True ms st = Some (st\<lparr>s_din := s_din (the (run_msgs env True ms st))\<rparr>)"
proof (induction ms arbitrary: st)
  case (Cons m ms)
  have "\<exists>d. WndProc env True m st = Some (st\<lparr>s_din := d\<rparr>)"
    by (cases m) (auto simp: WndProc_def intro: exI [of _ "s_din st"])
  then obtain d where d: "WndProc env True m st = Some (st\<lparr>s_din := d\<rparr>)" by blast
  from Cons.IH [of "st\<lparr>s_din := d\<rparr>"] have "run_msgs env True ms (st\<lparr>s_din := d\<rparr>)
    = Some (st\<lparr>s_din := s_din (the (run_msgs env True ms (st\<lparr>s_din := d\<rparr>)))\<rparr>)" by simp
  with d show ?case by (metis bind.bind_lunit option.sel run_msgs.simps(2))
qed simp


section \<open>A sample turn\<close>

definition f0 :: frame_in where
  "f0 = \<lparr>f_env = env0, f_diKbd = True, f_msgs = [WM_MOUSEMOVE 150 150], f_poll = sample_poll,
     f_hkKbd = None, f_hkPad = None, f_tickBsod = 1500, f_tickClock = 1500, f_tickPresent = 1500, f_tickDone = 1510,
     f_lost = False\<rparr>"

lemma f0_ok: "in_ok f0"
  using env0_ok by (simp add: in_ok_def f0_def poll_ok_def sample_poll_def)


theorem CrashTest_drag_overread_witness:
  "held_down ((sh0 True)\<lparr>s_nDragKind := DRAG_STARTITEM, s_nDragTarget := 4, s_bDragMoved := True\<rparr>) = None"
proof -
  let ?s = "(sh0 True)\<lparr>s_nDragKind := DRAG_STARTITEM, s_nDragTarget := 4, s_bDragMoved := True\<rparr>"
  have "wm_ok ?s" using shell_okD(1) [OF sh0_ok [of True]] by (simp add: wm_ok_def)
  moreover have "desk_ok ?s" "disp_ok ?s" using shell_okD(2,3) [OF sh0_ok [of True]]
    by (simp_all add: desk_defs disp_ok_def walls_ok_def)
  ultimately have "shell_ok ?s" using sh0_ok [of True] by (simp add: shell_ok_def shell_wm_def)
  from CrashTest_drag_overread [OF this] show ?thesis by (simp add: sh0_parts)
qed

theorem key_loop_ends_witness: "\<exists>st'. run_keys 32 env0 (sh0 False) = Some st' \<and> DInNextKey (s_din st') = None"
  by (rule key_loop_ends [OF sh0_ok env0_ok])


end
