(* ===== verification/Calc.thy ===== *)
theory Calc
  imports Dcwin Dcinput Complex_Main "HOL-Library.Signed_Division"
begin

text \<open>
  The calculator, \<open>shell/dcwcalc.c\<close>: number parsing and formatting, the editing of the
  display, the pending operation, the button grid, and the frame it draws.

  Doubles are a parameter, the record \<open>fp\<close> of the operations the code uses. What holds for
  every such record (the display never overflows its array) is stated without a hypothesis;
  what depends on arithmetic assumes only that operations on integers are exact up to
  \<open>2 ^ 53\<close>, as IEEE doubles are. The display is the text before the terminator of
  \<open>g_aszDisp[24]\<close>, and a write that does not fit is \<open>None\<close>.
\<close>

section \<open>State\<close>

record 'd fp =
  f_of :: "nat \<Rightarrow> 'd"
  f_tenth :: 'd
  f_half :: 'd
  f_add :: "'d \<Rightarrow> 'd \<Rightarrow> 'd"
  f_sub :: "'d \<Rightarrow> 'd \<Rightarrow> 'd"
  f_mul :: "'d \<Rightarrow> 'd \<Rightarrow> 'd"
  f_div :: "'d \<Rightarrow> 'd \<Rightarrow> 'd"
  f_neg :: "'d \<Rightarrow> 'd"
  f_lt :: "'d \<Rightarrow> 'd \<Rightarrow> bool"
  f_ge :: "'d \<Rightarrow> 'd \<Rightarrow> bool"
  f_eq :: "'d \<Rightarrow> 'd \<Rightarrow> bool"
  f_trunc :: "'d \<Rightarrow> u32"

record 'd calc =
  g_aszDisp :: "wchar list"
  g_dAcc :: 'd
  g_nPend :: "char option"
  g_bFresh :: bool
  g_bErr :: bool
  g_nSel :: nat

definition MAXLEN :: nat where "MAXLEN = 14"
definition BTN :: "wchar list list" where
  "BTN = map ws [''C'', ''CE'', ''<-'', ''/'', ''7'', ''8'', ''9'', ''*'', ''4'', ''5'', ''6'', ''-'',
     ''1'', ''2'', ''3'', ''+'', ''+/-'', ''0'', ''.'', ''='']"

definition calc0 :: "'d fp \<Rightarrow> 'd calc" where
  "calc0 F = \<lparr>g_aszDisp = ws ''0'', g_dAcc = f_of F 0, g_nPend = None, g_bFresh = True,
     g_bErr = False, g_nSel = 4\<rparr>"

definition disp_put :: "wchar list \<Rightarrow> 'd calc \<Rightarrow> 'd calc option" where
  "disp_put s st = (if length s < 24 then Some (st\<lparr>g_aszDisp := s\<rparr>) else None)"

section \<open>Numbers as text\<close>

primrec parse_digits :: "'d fp \<Rightarrow> wchar list \<Rightarrow> bool \<Rightarrow> 'd \<Rightarrow> 'd \<Rightarrow> 'd" where
  "parse_digits F [] bFrac dScale dVal = dVal"
| "parse_digits F (c # cs) bFrac dScale dVal =
     (if c = 0x2E then parse_digits F cs True dScale dVal
      else if c < 0x30 \<or> c > 0x39 then dVal
      else let d = f_of F (unat (c - 0x30))
        in if \<not> bFrac then parse_digits F cs bFrac dScale (f_add F (f_mul F dVal (f_of F 10)) d)
           else let dScale = f_mul F dScale (f_tenth F)
             in parse_digits F cs bFrac dScale (f_add F dVal (f_mul F d dScale)))"

definition ParseNum :: "'d fp \<Rightarrow> wchar list \<Rightarrow> 'd" where
  "ParseNum F psz =
     (case psz of
        [] \<Rightarrow> f_of F 0
      | c # cs \<Rightarrow>
          if c = 0x2D then f_neg F (parse_digits F cs False (f_of F 1) (f_of F 0))
          else parse_digits F psz False (f_of F 1) (f_of F 0))"

definition digit_ch :: "nat \<Rightarrow> wchar" where "digit_ch d = 0x30 + word_of_nat d"

fun rev_digits :: "nat \<Rightarrow> wchar list" where
  "rev_digits n = (if n = 0 then [] else digit_ch (n mod 10) # rev_digits (n div 10))"

declare rev_digits.simps [simp del]

primrec frac_digits :: "nat \<Rightarrow> nat \<Rightarrow> wchar list \<Rightarrow> wchar list" where
  "frac_digits 0 n acc = acc"
| "frac_digits (Suc k) n acc = frac_digits k (n div 10) (digit_ch (n mod 10) # acc)"

text \<open>The text of an integer part and six decimals; \<open>aszRev\<close> and \<open>aszIp\<close> hold 16 characters.\<close>

definition fmt_text :: "bool \<Rightarrow> u32 \<Rightarrow> u32 \<Rightarrow> wchar list option" where
  "fmt_text bNeg dwIp dwFrac =
     (let aszRev = (if dwIp = 0 then [0x30] else rev_digits (unat dwIp));
          aszF = rev (dropWhile (\<lambda>c. c = 0x30) (rev (frac_digits 6 (unat dwFrac) [])))
      in if length aszRev + 1 > 16 then None
         else Some ((if bNeg \<and> (dwIp \<noteq> 0 \<or> aszF \<noteq> []) then [0x2D] else []) @ rev aszRev
                @ (if aszF \<noteq> [] then 0x2E # aszF else [])))"

definition FmtNum :: "'d fp \<Rightarrow> 'd \<Rightarrow> wchar list option" where
  "FmtNum F dVal =
     (let bNeg = f_lt F dVal (f_of F 0);
          dVal = (if bNeg then f_neg F dVal else dVal)
      in if f_ge F dVal (f_of F 1000000000) then Some (ws ''Overflow'')
         else let dwIp = f_trunc F dVal;
                  dwFrac = f_trunc F (f_add F (f_mul F (f_sub F dVal (f_of F (unat dwIp)))
                             (f_of F 1000000)) (f_half F))
              in if dwFrac \<ge> 1000000 then fmt_text bNeg (dwIp + 1) (dwFrac - 1000000)
                 else fmt_text bNeg dwIp dwFrac)"

section \<open>Arithmetic\<close>

text \<open>The result and whether the error latch is set.\<close>

definition Apply :: "'d fp \<Rightarrow> 'd \<Rightarrow> char \<Rightarrow> 'd \<Rightarrow> 'd \<times> bool" where
  "Apply F dA nOp dB =
     (if nOp = CHR ''+'' then (f_add F dA dB, False)
      else if nOp = CHR ''-'' then (f_sub F dA dB, False)
      else if nOp = CHR ''*'' then (f_mul F dA dB, False)
      else if nOp = CHR ''/''
      then if f_eq F dB (f_of F 0) then (f_of F 0, True) else (f_div F dA dB, False)
      else (dB, False))"

section \<open>Editing\<close>

definition ClearAll :: "'d fp \<Rightarrow> 'd calc \<Rightarrow> 'd calc" where
  "ClearAll F st = st\<lparr>g_aszDisp := ws ''0'', g_dAcc := f_of F 0, g_nPend := None, g_bFresh := True,
     g_bErr := False\<rparr>"

definition InputDigit :: "'d fp \<Rightarrow> wchar \<Rightarrow> 'd calc \<Rightarrow> 'd calc option" where
  "InputDigit F wchDigit st =
     (let st = (if g_bErr st then ClearAll F st else st);
          n = length (g_aszDisp st)
      in if g_bFresh st then disp_put [wchDigit] (st\<lparr>g_bFresh := False\<rparr>)
         else if n = 1 \<and> hd (g_aszDisp st) = 0x30 then disp_put [wchDigit] st
         else if n < MAXLEN then disp_put (g_aszDisp st @ [wchDigit]) st
         else Some st)"

definition InputDot :: "'d fp \<Rightarrow> 'd calc \<Rightarrow> 'd calc option" where
  "InputDot F st =
     (let st = (if g_bErr st then ClearAll F st else st)
      in if g_bFresh st then disp_put (ws ''0.'') (st\<lparr>g_bFresh := False\<rparr>)
         else if 0x2E \<in> set (g_aszDisp st) then Some st
         else if length (g_aszDisp st) < MAXLEN then disp_put (g_aszDisp st @ [0x2E]) st
         else Some st)"

definition Backspace :: "'d fp \<Rightarrow> 'd calc \<Rightarrow> 'd calc option" where
  "Backspace F st =
     (let n = length (g_aszDisp st)
      in if g_bErr st then Some (ClearAll F st)
         else if n \<le> 1 \<or> n = 2 \<and> hd (g_aszDisp st) = 0x2D
         then disp_put (ws ''0'') (st\<lparr>g_bFresh := True\<rparr>)
         else Some (st\<lparr>g_aszDisp := butlast (g_aszDisp st)\<rparr>))"

definition Negate :: "'d calc \<Rightarrow> 'd calc option" where
  "Negate st =
     (if g_bErr st then Some st
      else if g_aszDisp st \<noteq> [] \<and> hd (g_aszDisp st) = 0x2D then Some (st\<lparr>g_aszDisp := tl (g_aszDisp st)\<rparr>)
      else if g_aszDisp st \<noteq> [0x30] then disp_put (0x2D # g_aszDisp st) st
      else Some st)"

definition DoOp :: "'d fp \<Rightarrow> char \<Rightarrow> 'd calc \<Rightarrow> 'd calc option" where
  "DoOp F nOp st =
     (if g_bErr st then Some st
      else let dCur = ParseNum F (g_aszDisp st)
        in case g_nPend st of
             Some p \<Rightarrow>
               if \<not> g_bFresh st
               then let (r, e) = Apply F (g_dAcc st) p dCur; st = st\<lparr>g_dAcc := r, g_bErr := e\<rparr>
                 in if e then disp_put (ws ''Error'') st
                    else do { s \<leftarrow> FmtNum F r; st \<leftarrow> disp_put s st;
                              Some (st\<lparr>g_nPend := Some nOp, g_bFresh := True\<rparr>) }
               else Some (st\<lparr>g_dAcc := dCur, g_nPend := Some nOp, g_bFresh := True\<rparr>)
           | None \<Rightarrow> Some (st\<lparr>g_dAcc := dCur, g_nPend := Some nOp, g_bFresh := True\<rparr>))"

definition Equals :: "'d fp \<Rightarrow> 'd calc \<Rightarrow> 'd calc option" where
  "Equals F st =
     (if g_bErr st then Some st
      else case g_nPend st of
        None \<Rightarrow> Some st
      | Some p \<Rightarrow>
          let dCur = ParseNum F (g_aszDisp st);
              (r, e) = Apply F (g_dAcc st) p dCur; st = st\<lparr>g_dAcc := r, g_bErr := e\<rparr>
          in if e then do { st \<leftarrow> disp_put (ws ''Error'') st; Some (st\<lparr>g_nPend := None\<rparr>) }
             else do { s \<leftarrow> FmtNum F r; st \<leftarrow> disp_put s st;
                       Some (st\<lparr>g_nPend := None, g_bFresh := True\<rparr>) })"

section \<open>Buttons and keys\<close>

definition Press :: "'d fp \<Rightarrow> nat \<Rightarrow> 'd calc \<Rightarrow> 'd calc option" where
  "Press F nIdx st =
     (if nIdx = 0 then Some (ClearAll F st)
      else if nIdx = 1 then
        if g_bErr st then Some (ClearAll F st) else disp_put (ws ''0'') (st\<lparr>g_bFresh := True\<rparr>)
      else if nIdx = 2 then Backspace F st
      else if nIdx = 3 then DoOp F CHR ''/'' st
      else if nIdx = 4 then InputDigit F 0x37 st
      else if nIdx = 5 then InputDigit F 0x38 st
      else if nIdx = 6 then InputDigit F 0x39 st
      else if nIdx = 7 then DoOp F CHR ''*'' st
      else if nIdx = 8 then InputDigit F 0x34 st
      else if nIdx = 9 then InputDigit F 0x35 st
      else if nIdx = 10 then InputDigit F 0x36 st
      else if nIdx = 11 then DoOp F CHR ''-'' st
      else if nIdx = 12 then InputDigit F 0x31 st
      else if nIdx = 13 then InputDigit F 0x32 st
      else if nIdx = 14 then InputDigit F 0x33 st
      else if nIdx = 15 then DoOp F CHR ''+'' st
      else if nIdx = 16 then Negate st
      else if nIdx = 17 then InputDigit F 0x30 st
      else if nIdx = 18 then InputDot F st
      else if nIdx = 19 then Equals F st
      else Some st)"

definition VK_SPACE :: u32 where "VK_SPACE = 0x20"
definition VK_NUMPAD0 :: u32 where "VK_NUMPAD0 = 0x60"
definition VK_NUMPAD9 :: u32 where "VK_NUMPAD9 = 0x69"
definition VK_MULTIPLY :: u32 where "VK_MULTIPLY = 0x6A"
definition VK_ADD :: u32 where "VK_ADD = 0x6B"
definition VK_SUBTRACT :: u32 where "VK_SUBTRACT = 0x6D"
definition VK_DECIMAL :: u32 where "VK_DECIMAL = 0x6E"
definition VK_DIVIDE :: u32 where "VK_DIVIDE = 0x6F"
definition VK_OEM_PLUS :: u32 where "VK_OEM_PLUS = 0xBB"
definition VK_OEM_MINUS :: u32 where "VK_OEM_MINUS = 0xBD"
definition VK_OEM_PERIOD :: u32 where "VK_OEM_PERIOD = 0xBE"
definition VK_OEM_2 :: u32 where "VK_OEM_2 = 0xBF"

lemmas calc_vk_defs = VK_SPACE_def VK_NUMPAD0_def VK_NUMPAD9_def VK_MULTIPLY_def VK_ADD_def
  VK_SUBTRACT_def VK_DECIMAL_def VK_DIVIDE_def VK_OEM_PLUS_def VK_OEM_MINUS_def VK_OEM_PERIOD_def
  VK_OEM_2_def VK_BACK_def VK_RETURN_def VK_UP_def VK_DOWN_def VK_LEFT_def VK_RIGHT_def

text \<open>Whether the key changed something, and the new state.\<close>

definition HandleKey :: "'d fp \<Rightarrow> u32 \<Rightarrow> 'd calc \<Rightarrow> (bool \<times> 'd calc) option" where
  "HandleKey F dwKey st =
     (if dwKey \<ge> 0x30 \<and> dwKey \<le> 0x39 then map_option (Pair True) (InputDigit F (ucast dwKey) st)
      else if dwKey \<ge> VK_NUMPAD0 \<and> dwKey \<le> VK_NUMPAD9
      then map_option (Pair True) (InputDigit F (ucast (0x30 + (dwKey - VK_NUMPAD0))) st)
      else if dwKey = VK_ADD then map_option (Pair True) (DoOp F CHR ''+'' st)
      else if dwKey = VK_SUBTRACT \<or> dwKey = VK_OEM_MINUS then map_option (Pair True) (DoOp F CHR ''-'' st)
      else if dwKey = VK_MULTIPLY then map_option (Pair True) (DoOp F CHR ''*'' st)
      else if dwKey = VK_DIVIDE \<or> dwKey = VK_OEM_2 then map_option (Pair True) (DoOp F CHR ''/'' st)
      else if dwKey = VK_DECIMAL \<or> dwKey = VK_OEM_PERIOD then map_option (Pair True) (InputDot F st)
      else if dwKey = VK_OEM_PLUS then map_option (Pair True) (Equals F st)
      else if dwKey = VK_BACK then map_option (Pair True) (Backspace F st)
      else if dwKey = 0x43 then Some (True, ClearAll F st)
      else if dwKey = VK_RETURN \<or> dwKey = VK_SPACE then map_option (Pair True) (Press F (g_nSel st) st)
      else if dwKey = VK_UP then Some (True, if g_nSel st \<ge> 4 then st\<lparr>g_nSel := g_nSel st - 4\<rparr> else st)
      else if dwKey = VK_DOWN then Some (True, if g_nSel st < 16 then st\<lparr>g_nSel := g_nSel st + 4\<rparr> else st)
      else if dwKey = VK_LEFT then Some (True, if g_nSel st mod 4 \<noteq> 0 then st\<lparr>g_nSel := g_nSel st - 1\<rparr> else st)
      else if dwKey = VK_RIGHT then Some (True, if g_nSel st mod 4 \<noteq> 3 then st\<lparr>g_nSel := g_nSel st + 1\<rparr> else st)
      else Some (False, st))"

section \<open>The frame\<close>

definition draw_button :: "nat \<Rightarrow> int \<Rightarrow> int \<Rightarrow> nat \<Rightarrow> dcwin \<Rightarrow> dcwin" where
  "draw_button nSel nCellW nCellH i pWin =
     (let bIsOp = (i = 3 \<or> i = 7 \<or> i = 11 \<or> i = 15 \<or> i = 19);
          bIsAct = (i = 0 \<or> i = 1 \<or> i = 2 \<or> i = 16);
          bg = (if i = nSel then RGB 0 84 170 else if bIsOp then RGB 214 224 240
                else if bIsAct then RGB 226 222 214 else RGB 236 233 227);
          fg = (if i = nSel then RGB 255 255 255 else if bIsOp then RGB 0 0 128 else RGB 0 0 0);
          nR = int (i div 4); nC = int (i mod 4);
          nBx = 6 + nC * (nCellW + 4); nBy = 46 + nR * (nCellH + 4);
          pWin = DCWinFill nBx nBy nCellW nCellH bg pWin;
          nBl = int (length (BTN ! i));
          nBtx = nBx + (nCellW - nBl * 7) sdiv 2;
          nBtx = (if nBtx < nBx + 2 then nBx + 2 else nBtx)
      in DCWinText nBtx (nBy + (nCellH - 12) sdiv 2) fg bg (BTN ! i) pWin)"

definition Draw :: "'d calc \<Rightarrow> dcwin \<Rightarrow> dcshared \<Rightarrow> dcwin \<times> dcshared" where
  "Draw st pWin sh =
     (let ((_, nCw, nCh), pWin) = DCWinClientSize sh pWin;
          pWin = DCWinFillBg sh (RGB 212 208 200) (DCWinBeginFrame pWin);
          pWin = DCWinFill 6 6 (nCw - 12) 34 (RGB 255 255 255) pWin;
          nTx = nCw - 12 - int (length (g_aszDisp st)) * 7;
          nTx = (if nTx < 10 then 10 else nTx);
          pWin = DCWinText nTx 17 (RGB 0 0 0) (RGB 255 255 255) (g_aszDisp st) pWin;
          nCellW = (nCw - 12 - 12) sdiv 4;
          nCellH = (nCh - 46 - 6 - 16) sdiv 5;
          nCellW = (if nCellW < 8 then 8 else nCellW);
          nCellH = (if nCellH < 8 then 8 else nCellH);
          pWin = fold (draw_button (g_nSel st) nCellW nCellH) [0 ..< 20] pWin
      in (pWin, DCWinEndFrame pWin sh))"

section \<open>The client's loop\<close>

text \<open>
  \<open>while (DCWinPollKey(...)) HandleKey(...)\<close>: the fuel is the number of keys in the ring.
  The result says whether the picture has to be drawn again.
\<close>

primrec poll_keys :: "'d fp \<Rightarrow> nat \<Rightarrow> dcwin \<Rightarrow> bool \<Rightarrow> 'd calc \<Rightarrow> dcshared \<Rightarrow> (bool \<times> 'd calc \<times> dcshared) option" where
  "poll_keys F 0 pWin bChanged st sh = Some (bChanged, st, sh)"
| "poll_keys F (Suc n) pWin bChanged st sh =
     (case DCWinPollKey sh pWin of
        None \<Rightarrow> Some (bChanged, st, sh)
      | Some (dwKey, sh) \<Rightarrow> do {
          (c, st) \<leftarrow> HandleKey F dwKey st;
          poll_keys F n pWin (bChanged \<or> c) st sh })"

text \<open>One turn of \<open>DcwMain\<close>: whether the window was asked to close, and the new state.\<close>

definition calc_turn :: "'d fp \<Rightarrow> 'd calc \<times> dcwin \<times> dcshared \<Rightarrow> (bool \<times> 'd calc \<times> dcwin \<times> dcshared) option" where
  "calc_turn F s = (case s of (st, pWin, sh) \<Rightarrow> do {
     (bChanged, st, sh) \<leftarrow> poll_keys F (ring_len (my_win sh pWin)) pWin False st sh;
     let (r, pWin) = DCWinResized sh pWin;
     let (pWin, sh) = (if bChanged \<or> r then Draw st pWin sh else (pWin, sh));
     Some (if DCWinShouldClose sh pWin then (True, st, pWin, DCWinClose pWin sh)
           else (False, st, pWin, sh)) })"

section \<open>The display always fits\<close>

definition disp_ok :: "wchar list \<Rightarrow> bool" where
  "disp_ok s \<longleftrightarrow> (\<exists>t. t \<noteq> [] \<and> length t \<le> 17 \<and> 0x2D \<notin> set t \<and> (s = t \<or> s = 0x2D # t))"

definition calc_ok :: "'d calc \<Rightarrow> bool" where
  "calc_ok st \<longleftrightarrow> disp_ok (g_aszDisp st) \<and> g_nSel st < 20"

lemma disp_okI: "t \<noteq> [] \<Longrightarrow> length t \<le> 17 \<Longrightarrow> 0x2D \<notin> set t \<Longrightarrow> disp_ok t"
  by (auto simp: disp_ok_def)

lemma disp_okI_neg: "t \<noteq> [] \<Longrightarrow> length t \<le> 17 \<Longrightarrow> 0x2D \<notin> set t \<Longrightarrow> disp_ok (0x2D # t)"
  by (auto simp: disp_ok_def)

lemma disp_ok_length: "disp_ok s \<Longrightarrow> 1 \<le> length s \<and> length s \<le> 18"
  by (auto simp: disp_ok_def Suc_le_eq)

lemma disp_put_ok: "disp_ok s \<Longrightarrow> disp_put s st = Some (st\<lparr>g_aszDisp := s\<rparr>)"
  using disp_ok_length [of s] by (simp add: disp_put_def)

lemma disp_ok_texts [simp]:
  "disp_ok (ws ''0'')" "disp_ok (ws ''0.'')" "disp_ok (ws ''Error'')" "disp_ok (ws ''Overflow'')"
  by (rule disp_okI; simp add: ws_def)+

lemma digit_ch_less: "d < 10 \<Longrightarrow> digit_ch d \<noteq> 0x2D \<and> digit_ch d \<noteq> 0x2E"
  by (simp add: digit_ch_def less_Suc_eq numeral_eq_Suc, elim disjE; simp)

lemma rev_digits_chars: "c \<in> set (rev_digits n) \<Longrightarrow> \<exists>d < 10. c = digit_ch d"
proof (induction n rule: rev_digits.induct)
  case (1 n)
  show ?case
  proof (cases "n = 0")
    case True
    with 1 show ?thesis by (simp add: rev_digits.simps)
  next
    case False
    then have "rev_digits n = digit_ch (n mod 10) # rev_digits (n div 10)" by (simp add: rev_digits.simps)
    with 1 False show ?thesis by (metis mod_less_divisor set_ConsD zero_less_numeral)
  qed
qed

lemma rev_digits_length: "n < 10 ^ k \<Longrightarrow> length (rev_digits n) \<le> k"
proof (induction k arbitrary: n)
  case 0
  then show ?case by (simp add: rev_digits.simps)
next
  case (Suc k)
  then have "length (rev_digits (n div 10)) \<le> k" by (simp add: less_mult_imp_div_less mult.commute)
  then show ?case by (subst rev_digits.simps) simp
qed

lemma rev_digits_ne: "n \<noteq> 0 \<Longrightarrow> rev_digits n \<noteq> []"
  by (subst rev_digits.simps) simp

lemma frac_digits_set: "c \<in> set (frac_digits k n acc) \<Longrightarrow> c \<in> set acc \<or> (\<exists>d < 10. c = digit_ch d)"
  by (induction k arbitrary: n acc) force+

lemma frac_digits_length [simp]: "length (frac_digits k n acc) = k + length acc"
  by (induction k arbitrary: n acc) simp_all

lemma strip_set: "set (rev (dropWhile P (rev xs))) \<subseteq> set xs"
  using set_dropWhileD [of _ P "rev xs"] by auto

lemma strip_length: "length (rev (dropWhile P (rev xs))) \<le> length xs"
  using length_dropWhile_le [of P "rev xs"] by simp

lemma unat_u32_digits: "unat (w :: u32) < 10 ^ 10"
proof -
  have "unat w < 2 ^ 32" using unsigned_less [of w] by simp
  then show ?thesis by simp
qed

lemma no_minus: "0x2D \<notin> set (rev_digits n)" "0x2D \<notin> set (frac_digits k n [])"
  using rev_digits_chars [of "0x2D" n] frac_digits_set [of "0x2D" k n "[]"] digit_ch_less by fastforce+

lemma fmt_text_ok: "ok (fmt_text b dwIp dwFrac) disp_ok"
proof -
  define r where "r = (if dwIp = 0 then [0x30] else rev_digits (unat dwIp))"
  define f where "f = rev (dropWhile (\<lambda>c. c = 0x30) (rev (frac_digits 6 (unat dwFrac) [])))"
  have r: "length r \<le> 10" "r \<noteq> []" "0x2D \<notin> set r"
    using rev_digits_length [OF unat_u32_digits, of dwIp] rev_digits_ne [of "unat dwIp"] no_minus
    by (auto simp: r_def unat_eq_0)
  have "length f \<le> 6"
    using strip_length [of "\<lambda>c. c = 0x30" "frac_digits 6 (unat dwFrac) []"] unfolding f_def by simp
  moreover have "0x2D \<notin> set f"
    using strip_set [of "\<lambda>c. c = 0x30" "frac_digits 6 (unat dwFrac) []"] no_minus(2) unfolding f_def by blast
  ultimately have t: "length (rev r @ (if f \<noteq> [] then 0x2E # f else [])) \<le> 17"
    "0x2D \<notin> set (rev r @ (if f \<noteq> [] then 0x2E # f else []))"
    "rev r @ (if f \<noteq> [] then 0x2E # f else []) \<noteq> []"
    using r by auto
  have "disp_ok ((if c then [0x2D] else []) @ rev r @ (if f \<noteq> [] then 0x2E # f else []))" for c
    using disp_okI [OF t(3,1,2)] disp_okI_neg [OF t(3,1,2)] by (cases c) simp_all
  then show ?thesis
    using r(1) unfolding fmt_text_def r_def [symmetric] f_def [symmetric] Let_def by simp
qed

lemma FmtNum_ok: "ok (FmtNum F v) disp_ok"
  by (simp add: FmtNum_def Let_def fmt_text_ok)

section \<open>Every key keeps the display in its array\<close>

lemma ok_disp_put [simp]: "disp_ok s \<Longrightarrow> ok (disp_put s st) P \<longleftrightarrow> P (st\<lparr>g_aszDisp := s\<rparr>)"
  by (simp add: disp_put_ok)

lemma calc_ok_simps [simp]:
  "calc_ok (st\<lparr>g_aszDisp := s\<rparr>) \<longleftrightarrow> disp_ok s \<and> g_nSel st < 20"
  "calc_ok (st\<lparr>g_dAcc := v\<rparr>) = calc_ok st"
  "calc_ok (st\<lparr>g_nPend := p\<rparr>) = calc_ok st"
  "calc_ok (st\<lparr>g_bFresh := b\<rparr>) = calc_ok st"
  "calc_ok (st\<lparr>g_bErr := b\<rparr>) = calc_ok st"
  "calc_ok (st\<lparr>g_nSel := n\<rparr>) \<longleftrightarrow> disp_ok (g_aszDisp st) \<and> n < 20"
  by (simp_all add: calc_ok_def)

lemma calc_okD: "calc_ok st \<Longrightarrow> disp_ok (g_aszDisp st) \<and> g_nSel st < 20"
  by (simp add: calc_ok_def)

lemma disp_ok_append: "disp_ok s \<Longrightarrow> length s < 14 \<Longrightarrow> c \<noteq> 0x2D \<Longrightarrow> disp_ok (s @ [c])"
  unfolding disp_ok_def by (elim exE conjE disjE) (rule_tac x = "t @ [c]" in exI, simp)+

lemma disp_ok_butlast:
  assumes "disp_ok s" and "\<not> (length s \<le> 1 \<or> length s = 2 \<and> hd s = 0x2D)"
  shows "disp_ok (butlast s)"
proof -
  obtain t where t: "t \<noteq> []" "length t \<le> 17" "0x2D \<notin> set t" "s = t \<or> s = 0x2D # t"
    using assms(1) by (auto simp: disp_ok_def)
  from t(4) assms(2) t(1) have "butlast t \<noteq> []" by (cases t rule: rev_cases) auto
  moreover have "0x2D \<notin> set (butlast t)" using t(3) by (auto dest: in_set_butlastD)
  ultimately show ?thesis using t by (fastforce simp: disp_ok_def intro: exI [of _ "butlast t"])
qed

lemma disp_ok_negate:
  assumes "disp_ok s"
  shows "hd s = 0x2D \<Longrightarrow> disp_ok (tl s)" and "hd s \<noteq> 0x2D \<Longrightarrow> disp_ok (0x2D # s)"
proof -
  obtain t where t: "t \<noteq> []" "length t \<le> 17" "0x2D \<notin> set t" "s = t \<or> s = 0x2D # t"
    using assms by (auto simp: disp_ok_def)
  have h: "hd t \<noteq> 0x2D" using t(1,3) by (metis hd_in_set)
  show "hd s = 0x2D \<Longrightarrow> disp_ok (tl s)" using t h disp_okI [of t] by auto
  show "hd s \<noteq> 0x2D \<Longrightarrow> disp_ok (0x2D # s)" using t h disp_okI_neg [of t] by auto
qed

lemma ClearAll_ok [simp]: "calc_ok (ClearAll F st) \<longleftrightarrow> g_nSel st < 20"
  by (simp add: ClearAll_def)

lemma InputDigit_ok: "calc_ok st \<Longrightarrow> c \<noteq> 0x2D \<Longrightarrow> ok (InputDigit F c st) calc_ok"
  using calc_okD [of st] disp_okI [of "[c]"] disp_ok_append [of "g_aszDisp st" c]
  by (auto simp: InputDigit_def Let_def ClearAll_def MAXLEN_def)

lemma InputDot_ok: "calc_ok st \<Longrightarrow> ok (InputDot F st) calc_ok"
  using calc_okD [of st] disp_ok_append [of "g_aszDisp st" "0x2E"]
  by (auto simp: InputDot_def Let_def ClearAll_def MAXLEN_def)

lemma Backspace_ok: "calc_ok st \<Longrightarrow> ok (Backspace F st) calc_ok"
  using calc_okD [of st] disp_ok_butlast [of "g_aszDisp st"]
  by (auto simp: Backspace_def Let_def)

lemma Negate_ok: "calc_ok st \<Longrightarrow> ok (Negate st) calc_ok"
  using calc_okD [of st] disp_ok_negate [of "g_aszDisp st"] disp_ok_length [of "g_aszDisp st"]
  by (auto simp: Negate_def)

lemma ok_FmtNum: "(\<And>s. disp_ok s \<Longrightarrow> P s) \<Longrightarrow> ok (FmtNum F v) P"
  using FmtNum_ok [of F v] by (rule ok_mono)

lemma DoOp_ok: "calc_ok st \<Longrightarrow> ok (DoOp F nOp st) calc_ok"
  using calc_okD [of st]
  by (auto simp: DoOp_def Let_def intro!: ok_FmtNum split: option.split prod.split)

lemma Equals_ok: "calc_ok st \<Longrightarrow> ok (Equals F st) calc_ok"
  using calc_okD [of st]
  by (auto simp: Equals_def Let_def intro!: ok_FmtNum split: option.split prod.split)

lemmas calc_edit_ok = InputDigit_ok InputDot_ok Backspace_ok Negate_ok DoOp_ok Equals_ok

lemma Press_ok: "calc_ok st \<Longrightarrow> ok (Press F n st) calc_ok"
  using calc_okD [of st] by (simp add: Press_def calc_edit_ok)

lemma ucast_not_minus:
  "(0x30 :: u32) \<le> k \<Longrightarrow> k \<le> 0x39 \<Longrightarrow> (ucast k :: wchar) \<noteq> 0x2D"
proof
  assume k: "(0x30 :: u32) \<le> k" "k \<le> 0x39" and e: "(ucast k :: wchar) = 0x2D"
  have u: "0x30 \<le> unat k" "unat k \<le> 0x39" using k by (simp_all add: word_le_nat_alt)
  have "unat (ucast k :: wchar) = unat k"
    using u unsigned_ucast_eq [of k, where ?'a = nat and ?'c = 16] by (simp add: take_bit_nat_eq_self)
  with e u show False by simp
qed

lemma pad_not_minus:
  assumes "VK_NUMPAD0 \<le> k" and "k \<le> VK_NUMPAD9"
  shows "(ucast (0x30 + (k - VK_NUMPAD0)) :: wchar) \<noteq> 0x2D"
proof -
  have u: "0x60 \<le> unat k" "unat k \<le> 0x69" using assms by (simp_all add: word_le_nat_alt calc_vk_defs)
  have "unat (k - 0x30) = unat k - 0x30" using u by (simp add: unat_sub word_le_nat_alt)
  then have "(ucast (k - 0x30) :: wchar) \<noteq> 0x2D"
    using u by (intro ucast_not_minus) (simp_all add: word_le_nat_alt)
  then show ?thesis by (simp add: calc_vk_defs)
qed

lemma sel_moves: "n < 20 \<Longrightarrow> n mod 4 \<noteq> 3 \<Longrightarrow> n < (19 :: nat)"
  by presburger

lemma HandleKey_ok: "calc_ok st \<Longrightarrow> ok (HandleKey F k st) (\<lambda>(c, st). calc_ok st)"
  using calc_okD [of st] sel_moves [of "g_nSel st"] unfolding HandleKey_def
  by (intro ok_if) (simp_all add: calc_edit_ok Press_ok ucast_not_minus pad_not_minus less_imp_diff_less)

primrec key_run :: "'d fp \<Rightarrow> u32 list \<Rightarrow> 'd calc \<Rightarrow> 'd calc option" where
  "key_run F [] st = Some st"
| "key_run F (k # ks) st = do { (c, st) \<leftarrow> HandleKey F k st; key_run F ks st }"

lemma key_run_ok: "calc_ok st \<Longrightarrow> ok (key_run F ks st) calc_ok"
proof (induction ks arbitrary: st)
  case (Cons k ks)
  show ?case using HandleKey_ok [OF Cons.prems, of F k]
    by (auto elim!: okE intro: Cons.IH)
qed simp

lemma key_run_append: "key_run F (ks @ ls) st = key_run F ks st \<bind> key_run F ls"
  by (induction ks arbitrary: st) (auto simp: split: prod.split Option.bind_split)

text \<open>The picture: 43 commands, and no text is cut.\<close>

lemma add_cmd_count: "cl_buildN c < 192 \<Longrightarrow> cl_buildN (add_cmd f c) = cl_buildN c + 1"
  by (simp add: add_cmd_def DCWIN_MAXCMD_def)

lemma add_cmd_idx [simp]: "cl_idx (add_cmd f c) = cl_idx c"
  by (simp add: add_cmd_def)

lemma cl_idx_simps [simp]:
  "cl_idx (DCWinFill x y w h r c) = cl_idx c" "cl_idx (DCWinText x y a b s c) = cl_idx c"
  "cl_idx (DCWinFillBg sh r c) = cl_idx c" "cl_idx (DCWinBeginFrame c) = cl_idx c"
  by (simp_all add: DCWinFill_def DCWinText_def DCWinFillBg_def DCWinBeginFrame_def)

lemma buildN_simps:
  "cl_buildN c < 192 \<Longrightarrow> cl_buildN (DCWinFill x y w h r c) = cl_buildN c + 1"
  "cl_buildN c < 192 \<Longrightarrow> cl_buildN (DCWinText x y a b s c) = cl_buildN c + 1"
  "cl_buildN c < 192 \<Longrightarrow> cl_buildN (DCWinFillBg sh r c) = cl_buildN c + 1"
  "cl_buildN (DCWinBeginFrame c) = 0"
  by (simp_all add: DCWinFill_def DCWinText_def DCWinFillBg_def DCWinBeginFrame_def add_cmd_count)

lemma draw_button_count: "cl_buildN c < 191 \<Longrightarrow> cl_buildN (draw_button s w h i c) = cl_buildN c + 2"
  by (simp add: draw_button_def Let_def buildN_simps)

lemma draw_buttons_count:
  "cl_buildN c + 2 * length xs \<le> 192 \<Longrightarrow>
     cl_buildN (fold (draw_button s w h) xs c) = cl_buildN c + 2 * length xs"
proof (induction xs arbitrary: c)
  case (Cons x xs)
  then have "cl_buildN (draw_button s w h x c) = cl_buildN c + 2" by (simp add: draw_button_count)
  with Cons.IH [of "draw_button s w h x c"] Cons.prems show ?case by simp
qed simp

lemma draw_buttons_idx [simp]: "cl_idx (fold (draw_button s w h) xs c) = cl_idx c"
  by (induction xs arbitrary: c) (simp_all add: draw_button_def Let_def)

lemma Draw_count:
  assumes "cl_idx c < length (sh_win sh)"
  shows "dw_cmdCount (my_win (snd (Draw st c sh)) c) = 43"
  using assms
  by (simp add: Draw_def Let_def DCWinClientSize_def DCWinEndFrame_def win_upd_def draw_buttons_count
      buildN_simps del: upt_Suc)

text \<open>
  Whatever keys are pressed, and however the machine's floating point behaves, the
  calculator's display stays inside its 24-character array: every key is handled, the text
  has between 1 and 18 characters (so the 40-character command shows it whole), and the
  picture drawn of it takes 43 of the 192 commands of a window.
\<close>
theorem Calc_display_fits:
  assumes "cl_idx c < length (sh_win sh)"
  shows "\<exists>st. key_run F ks (calc0 F) = Some st \<and> 1 \<le> length (g_aszDisp st) \<and> length (g_aszDisp st) \<le> 18
     \<and> g_nSel st < 20 \<and> dw_cmdCount (my_win (snd (Draw st c sh)) c) = 43"
proof -
  have "calc_ok (calc0 F)" by (simp add: calc_ok_def calc0_def)
  then obtain st where "key_run F ks (calc0 F) = Some st" "calc_ok st" by (rule okE [OF key_run_ok])
  then show ?thesis using disp_ok_length [of "g_aszDisp st"] Draw_count [OF assms, of st]
    by (simp add: calc_ok_def)
qed

section \<open>Integer arithmetic\<close>

text \<open>What IEEE doubles do on integers: results up to \<open>2 ^ 53\<close> are exact.\<close>

definition fp_ints :: "'d fp \<Rightarrow> (int \<Rightarrow> 'd) \<Rightarrow> bool" where
  "fp_ints F emb \<longleftrightarrow>
     (\<forall>n. n \<le> 2 ^ 53 \<longrightarrow> f_of F n = emb (int n))
   \<and> (\<forall>a b. \<bar>a\<bar> \<le> 2 ^ 53 \<and> \<bar>b\<bar> \<le> 2 ^ 53 \<longrightarrow>
        (\<bar>a + b\<bar> \<le> 2 ^ 53 \<longrightarrow> f_add F (emb a) (emb b) = emb (a + b))
      \<and> (\<bar>a - b\<bar> \<le> 2 ^ 53 \<longrightarrow> f_sub F (emb a) (emb b) = emb (a - b))
      \<and> (0 \<le> a \<and> 0 \<le> b \<and> a * b \<le> 2 ^ 53 \<longrightarrow> f_mul F (emb a) (emb b) = emb (a * b))
      \<and> (0 \<le> a \<and> 0 < b \<and> a * b \<le> 2 ^ 53 \<longrightarrow> f_div F (emb (a * b)) (emb b) = emb a)
      \<and> f_lt F (emb a) (emb b) = (a < b) \<and> f_ge F (emb a) (emb b) = (a \<ge> b)
      \<and> f_eq F (emb a) (emb b) = (a = b))
   \<and> (\<forall>a. 0 < a \<and> a \<le> 2 ^ 53 \<longrightarrow> f_neg F (emb (- a)) = emb a)
   \<and> (\<forall>a. 0 \<le> a \<and> a < 2 ^ 32 \<longrightarrow> f_trunc F (emb a) = word_of_int a)
   \<and> f_trunc F (f_add F (emb 0) (f_half F)) = 0"

definition value_of :: "nat list \<Rightarrow> nat" where
  "value_of = foldl (\<lambda>v d. 10 * v + d) 0"

definition digits :: "nat list \<Rightarrow> bool" where
  "digits ds \<longleftrightarrow> ds \<noteq> [] \<and> length ds \<le> 14 \<and> (\<forall>d \<in> set ds. d < 10)"

text \<open>The keys of a number, and the decimal notation of an integer without leading zeros.\<close>

definition typed :: "nat list \<Rightarrow> u32 list" where
  "typed ds = map (\<lambda>d. 0x30 + word_of_nat d) ds"

definition decimal :: "int \<Rightarrow> wchar list \<Rightarrow> bool" where
  "decimal r s \<longleftrightarrow> (\<exists>es. es \<noteq> [] \<and> (\<forall>d \<in> set es. d < 10) \<and> (hd es = 0 \<longrightarrow> es = [0]) \<and> int (value_of es) = \<bar>r\<bar>
     \<and> s = (if r < 0 then [0x2D] else []) @ map digit_ch es)"

lemma fp_intsD:
  assumes "fp_ints F emb"
  shows "n \<le> 2 ^ 53 \<Longrightarrow> f_of F n = emb (int n)"
    and "\<bar>a\<bar> \<le> 2 ^ 53 \<Longrightarrow> \<bar>b\<bar> \<le> 2 ^ 53 \<Longrightarrow> \<bar>a + b\<bar> \<le> 2 ^ 53 \<Longrightarrow> f_add F (emb a) (emb b) = emb (a + b)"
    and "\<bar>a\<bar> \<le> 2 ^ 53 \<Longrightarrow> \<bar>b\<bar> \<le> 2 ^ 53 \<Longrightarrow> \<bar>a - b\<bar> \<le> 2 ^ 53 \<Longrightarrow> f_sub F (emb a) (emb b) = emb (a - b)"
    and "0 \<le> a \<Longrightarrow> 0 \<le> b \<Longrightarrow> a \<le> 2 ^ 53 \<Longrightarrow> b \<le> 2 ^ 53 \<Longrightarrow> a * b \<le> 2 ^ 53 \<Longrightarrow>
           f_mul F (emb a) (emb b) = emb (a * b)"
    and "0 \<le> a \<Longrightarrow> 0 < b \<Longrightarrow> a \<le> 2 ^ 53 \<Longrightarrow> b \<le> 2 ^ 53 \<Longrightarrow> a * b \<le> 2 ^ 53 \<Longrightarrow>
           f_div F (emb (a * b)) (emb b) = emb a"
    and "\<bar>a\<bar> \<le> 2 ^ 53 \<Longrightarrow> \<bar>b\<bar> \<le> 2 ^ 53 \<Longrightarrow> f_lt F (emb a) (emb b) = (a < b)"
    and "\<bar>a\<bar> \<le> 2 ^ 53 \<Longrightarrow> \<bar>b\<bar> \<le> 2 ^ 53 \<Longrightarrow> f_ge F (emb a) (emb b) = (a \<ge> b)"
    and "\<bar>a\<bar> \<le> 2 ^ 53 \<Longrightarrow> \<bar>b\<bar> \<le> 2 ^ 53 \<Longrightarrow> f_eq F (emb a) (emb b) = (a = b)"
    and "0 < a \<Longrightarrow> a \<le> 2 ^ 53 \<Longrightarrow> f_neg F (emb (- a)) = emb a"
    and "0 \<le> a \<Longrightarrow> a < 2 ^ 32 \<Longrightarrow> f_trunc F (emb a) = word_of_int a"
    and "f_trunc F (f_add F (emb 0) (f_half F)) = 0"
  using assms unfolding fp_ints_def by simp_all

lemma digit_ch_unat: "d < 10 \<Longrightarrow> unat (digit_ch d - 0x30) = d"
  by (simp add: digit_ch_def unat_of_nat)

lemma digit_ch_range: "d < 10 \<Longrightarrow> \<not> digit_ch d < 0x30 \<and> \<not> digit_ch d > 0x39"
  by (simp add: digit_ch_def less_Suc_eq numeral_eq_Suc, elim disjE; simp)

lemma value_grows: "v \<le> foldl (\<lambda>v d. 10 * v + d) v es" for v :: nat
proof (induction es arbitrary: v)
  case (Cons e es)
  show ?case using Cons.IH [of "10 * v + e"] by simp
qed simp

lemma parse_value:
  assumes "fp_ints F emb" and "\<forall>d \<in> set es. d < 10" and "foldl (\<lambda>v d. 10 * v + d) v es \<le> 2 ^ 53"
  shows "parse_digits F (map digit_ch es) False sc (emb (int v)) = emb (int (foldl (\<lambda>v d. 10 * v + d) v es))"
  using assms(2,3)
proof (induction es arbitrary: v)
  case (Cons e es)
  have e: "e < 10" using Cons.prems by simp
  have b: "10 * v + e \<le> 2 ^ 53"
    using Cons.prems(2) value_grows [of "10 * v + e" es] by simp
  have "f_add F (f_mul F (emb (int v)) (f_of F 10)) (f_of F (unat (digit_ch e - 0x30)))
      = emb (int (10 * v + e))"
    using b e fp_intsD(1) [OF assms(1), of 10] fp_intsD(1) [OF assms(1), of e]
      fp_intsD(4) [OF assms(1), of "int v" 10] fp_intsD(2) [OF assms(1), of "int v * 10" "int e"]
    by (simp add: digit_ch_unat mult.commute)
  then show ?case using Cons.IH [of "10 * v + e"] Cons.prems e
    by (simp add: digit_ch_less digit_ch_range Let_def)
qed simp

lemma value_bound: "\<forall>d \<in> set es. d < 10 \<Longrightarrow> value_of es < 10 ^ length es"
proof (induction es rule: rev_induct)
  case (snoc e es)
  then have "value_of es < 10 ^ length es" "e < 10" by auto
  then show ?case by (simp add: value_of_def)
qed (simp add: value_of_def)

lemma value_le: "digits es \<Longrightarrow> value_of es < 10 ^ 14"
  using value_bound [of es] power_increasing [of "length es" 14 "10 :: nat"]
  by (auto simp: digits_def)

lemma ParseNum_value:
  assumes "fp_ints F emb" and "digits es"
  shows "ParseNum F (map digit_ch es) = emb (int (value_of es))"
proof -
  obtain e r where es: "es = e # r" using assms(2) by (cases es) (auto simp: digits_def)
  have d: "\<forall>d \<in> set es. d < 10" using assms(2) by (simp add: digits_def)
  have "ParseNum F (map digit_ch es) = parse_digits F (map digit_ch es) False (f_of F 1) (f_of F 0)"
    using es d digit_ch_less [of e] by (simp add: ParseNum_def)
  also have "\<dots> = emb (int (value_of es))"
    using parse_value [OF assms(1) d, of 0 "f_of F 1"] value_le [OF assms(2)] fp_intsD(1) [OF assms(1), of 0]
    by (simp add: value_of_def)
  finally show ?thesis .
qed

lemma rev_digits_decimal:
  "n \<noteq> 0 \<Longrightarrow> \<exists>es. es \<noteq> [] \<and> (\<forall>d \<in> set es. d < 10) \<and> hd es \<noteq> 0 \<and> value_of es = n
     \<and> rev_digits n = map digit_ch (rev es)"
proof (induction n rule: rev_digits.induct)
  case (1 n)
  have s: "rev_digits n = digit_ch (n mod 10) # rev_digits (n div 10)"
    using 1 by (subst rev_digits.simps) simp
  show ?case
  proof (cases "n div 10 = 0")
    case True
    then have "rev_digits n = map digit_ch (rev [n])" "n < 10" using s by (simp_all add: rev_digits.simps)
    with 1(2) show ?thesis by (intro exI [of _ "[n]"]) (simp add: value_of_def)
  next
    case False
    then obtain es where es: "es \<noteq> []" "\<forall>d \<in> set es. d < 10" "hd es \<noteq> 0" "value_of es = n div 10"
      "rev_digits (n div 10) = map digit_ch (rev es)" using 1 by blast
    then show ?thesis using s
      by (intro exI [of _ "es @ [n mod 10]"]) (auto simp: value_of_def)
  qed
qed

lemma unat_word_of_int: "0 \<le> n \<Longrightarrow> n < 2 ^ 32 \<Longrightarrow> unat (word_of_int n :: u32) = nat n"
proof -
  assume n: "0 \<le> n" "n < 2 ^ 32"
  then have w: "(word_of_int n :: u32) = word_of_nat (nat n)" by simp
  show ?thesis unfolding w unat_of_nat using n by (simp add: nat_less_iff)
qed

lemma frac_digits_0: "frac_digits k 0 acc = replicate k 0x30 @ acc"
  by (induction k arbitrary: acc) (simp_all add: digit_ch_def replicate_app_Cons_same)

lemma fmt_text_int:
  assumes "0 \<le> n" and "n < 2 ^ 32" and "r = (if b then - n else n)" and "b \<longrightarrow> n \<noteq> 0"
  shows "ok (fmt_text b (word_of_int n) 0) (decimal r)"
proof -
  have u: "unat (word_of_int n :: u32) = nat n" by (rule unat_word_of_int [OF assms(1,2)])
  have z: "(word_of_int n :: u32) = 0 \<longleftrightarrow> n = 0"
    using u assms(1) unat_eq_0 [of "word_of_int n :: u32"] by simp
  have f: "rev (dropWhile (\<lambda>c. c = 0x30) (rev (frac_digits 6 (unat (0 :: u32)) []))) = []"
    by (simp add: frac_digits_0)
  show ?thesis
  proof (cases "n = 0")
    case True
    then show ?thesis using assms z f
      by (auto simp: fmt_text_def decimal_def digit_ch_def value_of_def intro!: exI [of _ "[0]"])
  next
    case False
    then obtain es where es: "es \<noteq> []" "\<forall>d \<in> set es. d < 10" "hd es \<noteq> 0" "value_of es = nat n"
      "rev_digits (nat n) = map digit_ch (rev es)" using rev_digits_decimal [of "nat n"] assms(1) by auto
    have l: "length (rev_digits (nat n)) \<le> 10"
      using rev_digits_length [of "nat n" 10] assms(1,2) by simp
    have "fmt_text b (word_of_int n) 0 = Some ((if b then [0x2D] else []) @ map digit_ch es)"
      using f l False by (simp add: fmt_text_def z u es(5) rev_map)
    moreover have "decimal r ((if b then [0x2D] else []) @ map digit_ch es)"
      using es assms False by (auto simp: decimal_def)
    ultimately show ?thesis by simp
  qed
qed

lemma FmtNum_int:
  assumes F: "fp_ints F emb" and r: "\<bar>r\<bar> < 10 ^ 9"
  shows "ok (FmtNum F (emb r)) (decimal r)"
proof -
  define n where "n = \<bar>r\<bar>"
  have n: "0 \<le> n" "n < 10 ^ 9" using r by (simp_all add: n_def)
  have lt: "f_lt F (emb r) (f_of F 0) = (r < 0)"
    using fp_intsD(6) [OF F, of r 0] fp_intsD(1) [OF F, of 0] r by simp
  have v: "(if r < 0 then f_neg F (emb r) else emb r) = emb n"
    using fp_intsD(9) [OF F, of "- r"] r by (auto simp: n_def)
  have ge: "\<not> f_ge F (emb n) (f_of F 1000000000)"
    using fp_intsD(7) [OF F, of n 1000000000] fp_intsD(1) [OF F, of 1000000000] n by simp
  have t: "f_trunc F (emb n) = word_of_int n" using fp_intsD(10) [OF F, of n] n by simp
  have u: "unat (word_of_int n :: u32) = nat n" using n by (intro unat_word_of_int) simp_all
  have "f_of F (unat (word_of_int n :: u32)) = emb n"
    using fp_intsD(1) [OF F, of "nat n"] u n by simp
  moreover have "f_sub F (emb n) (emb n) = emb 0" using fp_intsD(3) [OF F, of n n] n by simp
  moreover have "f_mul F (emb 0) (f_of F 1000000) = emb 0"
    using fp_intsD(1) [OF F, of 1000000] fp_intsD(4) [OF F, of 0 1000000] by simp
  ultimately have "f_mul F (f_sub F (emb n) (f_of F (unat (word_of_int n :: u32)))) (f_of F 1000000) = emb 0"
    by simp
  then have "f_trunc F (f_add F (f_mul F (f_sub F (emb n) (f_of F (unat (word_of_int n :: u32))))
      (f_of F 1000000)) (f_half F)) = 0"
    using fp_intsD(11) [OF F] by simp
  then have "FmtNum F (emb r) = fmt_text (r < 0) (word_of_int n) 0"
    using lt v ge t by (simp add: FmtNum_def Let_def)
  with fmt_text_int [of n r "r < 0"] n show ?thesis by (simp add: n_def)
qed

lemma digit_key:
  "d < 10 \<Longrightarrow> (0x30 :: u32) \<le> 0x30 + word_of_nat d \<and> (0x30 :: u32) + word_of_nat d \<le> 0x39
     \<and> ucast (0x30 + word_of_nat d :: u32) = digit_ch d"
  by (simp add: digit_ch_def less_Suc_eq numeral_eq_Suc, elim disjE; simp)

lemma HandleKey_digit:
  "d < 10 \<Longrightarrow> HandleKey F (0x30 + word_of_nat d) st = map_option (Pair True) (InputDigit F (digit_ch d) st)"
  using digit_key [of d] by (simp add: HandleKey_def)

lemma value_snoc: "value_of (es @ [d]) = 10 * value_of es + d"
  by (simp add: value_of_def)

lemma digit_ch_0: "d < 10 \<Longrightarrow> digit_ch d = 0x30 \<longleftrightarrow> d = 0"
  by (simp add: digit_ch_def less_Suc_eq numeral_eq_Suc, elim disjE; simp)

text \<open>What the display holds: the digits typed so far, without a leading zero.\<close>

definition add_digit :: "nat list \<Rightarrow> nat \<Rightarrow> nat list" where
  "add_digit es d = (if es = [0] then [d] else es @ [d])"

lemma add_digit_value [simp]: "value_of (add_digit es d) = 10 * value_of es + d"
  by (simp add: add_digit_def value_of_def)

lemma add_digit_digits: "digits es \<Longrightarrow> length es < 14 \<Longrightarrow> d < 10 \<Longrightarrow> digits (add_digit es d)"
  by (auto simp: add_digit_def digits_def)

lemma InputDigit_more:
  assumes "digits es" and "length es < 14" and "d < 10"
    and "g_aszDisp st = map digit_ch es" and "\<not> g_bFresh st" and "\<not> g_bErr st"
  shows "InputDigit F (digit_ch d) st = Some (st\<lparr>g_aszDisp := map digit_ch (add_digit es d)\<rparr>)"
proof -
  have z: "length es = 1 \<and> hd (map digit_ch es) = 0x30 \<longleftrightarrow> es = [0]"
    using assms(1) digit_ch_0 [of "hd es"] by (cases es) (auto simp: digits_def digit_ch_def)
  show ?thesis
    using assms z by (simp add: InputDigit_def disp_put_def add_digit_def MAXLEN_def)
qed

lemma type_more:
  assumes "digits es" and "length es + length ds \<le> 14" and "\<forall>d \<in> set ds. d < 10"
    and "g_aszDisp st = map digit_ch es" and "\<not> g_bFresh st" and "\<not> g_bErr st"
  shows "key_run F (typed ds) st = Some (st\<lparr>g_aszDisp := map digit_ch (foldl add_digit es ds)\<rparr>)
    \<and> digits (foldl add_digit es ds) \<and> value_of (foldl add_digit es ds) = foldl (\<lambda>v d. 10 * v + d) (value_of es) ds"
  using assms
proof (induction ds arbitrary: es st)
  case (Cons d ds)
  let ?es = "add_digit es d" and ?st = "st\<lparr>g_aszDisp := map digit_ch (add_digit es d)\<rparr>"
  have i: "InputDigit F (digit_ch d) st = Some ?st"
    using Cons.prems by (intro InputDigit_more) simp_all
  have "length ?es \<le> length es + 1" by (simp add: add_digit_def)
  then have "key_run F (typed ds) ?st = Some (?st\<lparr>g_aszDisp := map digit_ch (foldl add_digit ?es ds)\<rparr>)
     \<and> digits (foldl add_digit ?es ds)
     \<and> value_of (foldl add_digit ?es ds) = foldl (\<lambda>v d. 10 * v + d) (value_of ?es) ds"
    using Cons.prems by (intro Cons.IH add_digit_digits) simp_all
  then show ?case using Cons.prems(3) i by (simp add: typed_def HandleKey_digit)
qed (simp add: typed_def)

lemma type_number:
  assumes "digits ds" and "g_bFresh st" and "\<not> g_bErr st"
  shows "\<exists>es. key_run F (typed ds) st = Some (st\<lparr>g_aszDisp := map digit_ch es, g_bFresh := False\<rparr>)
    \<and> digits es \<and> value_of es = value_of ds"
proof -
  obtain d r where ds: "ds = d # r" using assms(1) by (cases ds) (auto simp: digits_def)
  have d: "d < 10" "\<forall>d \<in> set r. d < 10" "length r < 14" using assms(1) ds by (simp_all add: digits_def)
  let ?st = "st\<lparr>g_aszDisp := [digit_ch d], g_bFresh := False\<rparr>"
  have "InputDigit F (digit_ch d) st = Some ?st"
    using assms by (simp add: InputDigit_def disp_put_def)
  moreover have "key_run F (typed r) ?st = Some (?st\<lparr>g_aszDisp := map digit_ch (foldl add_digit [d] r)\<rparr>)
    \<and> digits (foldl add_digit [d] r) \<and> value_of (foldl add_digit [d] r) = foldl (\<lambda>v d. 10 * v + d) (value_of [d]) r"
    using assms d by (intro type_more) (simp_all add: digits_def)
  ultimately show ?thesis using ds d
    by (intro exI [of _ "foldl add_digit [d] r"]) (simp add: typed_def HandleKey_digit value_of_def)
qed

lemmas calc_key_eqs = HandleKey_def calc_vk_defs

lemma op_keys:
  "HandleKey F VK_ADD st = map_option (Pair True) (DoOp F CHR ''+'' st)"
  "HandleKey F VK_SUBTRACT st = map_option (Pair True) (DoOp F CHR ''-'' st)"
  "HandleKey F VK_MULTIPLY st = map_option (Pair True) (DoOp F CHR ''*'' st)"
  "HandleKey F VK_DIVIDE st = map_option (Pair True) (DoOp F CHR ''/'' st)"
  by (simp_all add: calc_key_eqs)

text \<open>After \<open>C\<close>, a number, an operator, a number and \<open>=\<close>.\<close>

lemma compute_run:
  assumes "digits as" and "digits bs" and "HandleKey F k = (\<lambda>st. map_option (Pair True) (DoOp F nOp st))"
  shows "\<exists>st0 ea eb. digits ea \<and> value_of ea = value_of as \<and> digits eb \<and> value_of eb = value_of bs
    \<and> g_aszDisp st0 = map digit_ch eb \<and> g_nPend st0 = Some nOp \<and> \<not> g_bErr st0
    \<and> g_dAcc st0 = ParseNum F (map digit_ch ea)
    \<and> key_run F (0x43 # typed as @ [k] @ typed bs @ [VK_OEM_PLUS]) st = Equals F st0"
proof -
  let ?s0 = "ClearAll F st"
  have c: "HandleKey F 0x43 st = Some (True, ?s0)" by (simp add: calc_key_eqs)
  have f0: "g_bFresh ?s0" "\<not> g_bErr ?s0" "g_nPend ?s0 = None" by (simp_all add: ClearAll_def)
  from type_number [OF assms(1) f0(1,2)] obtain ea where
    a: "key_run F (typed as) ?s0 = Some (?s0\<lparr>g_aszDisp := map digit_ch ea, g_bFresh := False\<rparr>)"
      "digits ea" "value_of ea = value_of as" by blast
  let ?s1 = "?s0\<lparr>g_aszDisp := map digit_ch ea, g_bFresh := False\<rparr>"
  let ?s2 = "?s1\<lparr>g_dAcc := ParseNum F (map digit_ch ea), g_nPend := Some nOp, g_bFresh := True\<rparr>"
  have o: "HandleKey F k ?s1 = Some (True, ?s2)" using f0 by (simp add: assms(3) DoOp_def)
  have f2: "g_bFresh ?s2" "\<not> g_bErr ?s2" using f0 by simp_all
  from type_number [OF assms(2) f2] obtain eb where
    b: "key_run F (typed bs) ?s2 = Some (?s2\<lparr>g_aszDisp := map digit_ch eb, g_bFresh := False\<rparr>)"
      "digits eb" "value_of eb = value_of bs" by blast
  let ?s3 = "?s2\<lparr>g_aszDisp := map digit_ch eb, g_bFresh := False\<rparr>"
  have e: "key_run F [VK_OEM_PLUS] ?s3 = Equals F ?s3"
    by (cases "Equals F ?s3") (simp_all add: calc_key_eqs)
  have "key_run F (0x43 # typed as @ [k] @ typed bs @ [VK_OEM_PLUS]) st = Equals F ?s3"
    using c a(1) o b(1) e by (simp add: key_run_append del: key_run.simps(2)) (simp add: key_run_append)
  with a b f0 show ?thesis by (intro exI [of _ ?s3] exI [of _ ea] exI [of _ eb]) simp
qed

lemma Apply_int:
  assumes F: "fp_ints F emb" and "0 \<le> a" and "a \<le> 2 ^ 53" and "0 \<le> b" and "b \<le> 2 ^ 53" and "\<bar>r\<bar> \<le> 2 ^ 53"
    and "nOp = CHR ''+'' \<and> r = a + b \<or> nOp = CHR ''-'' \<and> r = a - b \<or> nOp = CHR ''*'' \<and> r = a * b
      \<or> nOp = CHR ''/'' \<and> b \<noteq> 0 \<and> a = r * b"
  shows "Apply F (emb a) nOp (emb b) = (emb r, False)"
  using assms(7)
proof (elim disjE conjE)
  assume o: "nOp = CHR ''/''" "b \<noteq> 0" "a = r * b"
  then have r: "0 \<le> r" "0 < b" using assms(2,4) by (auto simp: zero_le_mult_iff)
  have "f_eq F (emb b) (f_of F 0) = False"
    using fp_intsD(8) [OF F, of b 0] fp_intsD(1) [OF F, of 0] assms o by simp
  moreover have "f_div F (emb a) (emb b) = emb r"
    using fp_intsD(5) [OF F r] assms o by simp
  ultimately show ?thesis by (simp add: Apply_def o)
next
  assume "nOp = CHR ''*''" "r = a * b"
  then show ?thesis using fp_intsD(4) [OF F, of a b] assms by (simp add: Apply_def)
next
  assume "nOp = CHR ''+''" "r = a + b"
  then show ?thesis using fp_intsD(2) [OF F, of a b] assms by (simp add: Apply_def)
next
  assume "nOp = CHR ''-''" "r = a - b"
  then show ?thesis using fp_intsD(3) [OF F, of a b] assms by (simp add: Apply_def)
qed

lemma decimal_disp_ok: "FmtNum F v = Some s \<Longrightarrow> disp_put s st = Some (st\<lparr>g_aszDisp := s\<rparr>)"
  using FmtNum_ok [of F v] by (simp add: ok_def disp_put_ok)

text \<open>
  C19: the calculator computes. From any state, \<open>C\<close>, a number, an operator key, a number and
  \<open>=\<close> show the result in decimal without leading zeros: sums, differences and products of
  numbers of up to fourteen digits and quotients that come out even, as long as the result
  has at most nine digits. Floating point is only assumed to be exact on integers up to
  \<open>2 ^ 53\<close>.
\<close>
theorem Calc_computes:
  assumes "fp_ints F emb" and "digits as" and "digits bs"
    and "k = VK_ADD \<and> r = int (value_of as) + int (value_of bs)
      \<or> k = VK_SUBTRACT \<and> r = int (value_of as) - int (value_of bs)
      \<or> k = VK_MULTIPLY \<and> r = int (value_of as) * int (value_of bs)
      \<or> k = VK_DIVIDE \<and> value_of bs \<noteq> 0 \<and> int (value_of as) = r * int (value_of bs)"
    and "\<bar>r\<bar> < 10 ^ 9"
  shows "\<exists>st'. key_run F (0x43 # typed as @ [k] @ typed bs @ [VK_OEM_PLUS]) st = Some st'
    \<and> decimal r (g_aszDisp st') \<and> \<not> g_bErr st'"
proof -
  obtain nOp where o: "HandleKey F k = (\<lambda>st. map_option (Pair True) (DoOp F nOp st))"
    "nOp = CHR ''+'' \<and> r = int (value_of as) + int (value_of bs)
     \<or> nOp = CHR ''-'' \<and> r = int (value_of as) - int (value_of bs)
     \<or> nOp = CHR ''*'' \<and> r = int (value_of as) * int (value_of bs)
     \<or> nOp = CHR ''/'' \<and> int (value_of bs) \<noteq> 0 \<and> int (value_of as) = r * int (value_of bs)"
    using assms(4) op_keys [of F] by fastforce
  from compute_run [OF assms(2,3) o(1), of st] obtain st0 ea eb where
    s: "digits ea" "value_of ea = value_of as" "digits eb" "value_of eb = value_of bs"
      "g_aszDisp st0 = map digit_ch eb" "g_nPend st0 = Some nOp" "\<not> g_bErr st0"
      "g_dAcc st0 = ParseNum F (map digit_ch ea)"
      "key_run F (0x43 # typed as @ [k] @ typed bs @ [VK_OEM_PLUS]) st = Equals F st0" by blast
  have "Apply F (emb (int (value_of as))) nOp (emb (int (value_of bs))) = (emb r, False)"
    using value_le [OF assms(2)] value_le [OF assms(3)] assms(5) o(2) by (intro Apply_int [OF assms(1)]) simp_all
  then have a: "Apply F (g_dAcc st0) nOp (ParseNum F (g_aszDisp st0)) = (emb r, False)"
    using s ParseNum_value [OF assms(1)] by simp
  from FmtNum_int [OF assms(1,5)] obtain t where t: "FmtNum F (emb r) = Some t" "decimal r t" by (rule okE)
  have "Equals F st0 = Some (st0\<lparr>g_dAcc := emb r, g_bErr := False, g_aszDisp := t, g_nPend := None, g_bFresh := True\<rparr>)"
    using s(6,7) a t(1) by (simp add: Equals_def decimal_disp_ok [OF t(1)])
  with s(9) t(2) show ?thesis by simp
qed

text \<open>
  Dividing by zero shows \<open>Error\<close> and the error stays: operators, the sign key and \<open>=\<close> do
  nothing until a digit, the point, backspace or a clear key starts again from zero.
\<close>
theorem Calc_divide_by_zero:
  assumes "fp_ints F emb" and "digits as" and "digits bs" and "value_of bs = 0"
  shows "\<exists>st'. key_run F (0x43 # typed as @ [VK_DIVIDE] @ typed bs @ [VK_OEM_PLUS]) st = Some st'
    \<and> g_aszDisp st' = ws ''Error'' \<and> g_bErr st'
    \<and> DoOp F nOp st' = Some st' \<and> Equals F st' = Some st' \<and> Negate st' = Some st'
    \<and> Backspace F st' = Some (ClearAll F st') \<and> InputDigit F c st' = InputDigit F c (ClearAll F st')"
proof -
  have o: "HandleKey F VK_DIVIDE = (\<lambda>st. map_option (Pair True) (DoOp F CHR ''/'' st))"
    by (rule ext) (rule op_keys)
  from compute_run [OF assms(2,3) o, of st] obtain st0 eb where
    s: "digits eb" "value_of eb = value_of bs"
      "g_aszDisp st0 = map digit_ch eb" "g_nPend st0 = Some CHR ''/''" "\<not> g_bErr st0"
      "key_run F (0x43 # typed as @ [VK_DIVIDE] @ typed bs @ [VK_OEM_PLUS]) st = Equals F st0" by blast
  have "ParseNum F (g_aszDisp st0) = emb 0" using s assms(4) ParseNum_value [OF assms(1) s(1)] by simp
  then have "Apply F (g_dAcc st0) CHR ''/'' (ParseNum F (g_aszDisp st0)) = (f_of F 0, True)"
    using fp_intsD(8) [OF assms(1), of 0 0] fp_intsD(1) [OF assms(1), of 0] by (simp add: Apply_def)
  then have "Equals F st0 = Some (st0\<lparr>g_dAcc := f_of F 0, g_bErr := True, g_aszDisp := ws ''Error'', g_nPend := None\<rparr>)"
    using s(4,5) by (simp add: Equals_def disp_put_ok)
  then show ?thesis using s(6)
    by (simp add: DoOp_def Equals_def Negate_def Backspace_def InputDigit_def Let_def ClearAll_def)
qed

section \<open>Witnesses\<close>

definition fp_rat :: "rat fp" where
  "fp_rat = \<lparr>f_of = of_nat, f_tenth = 1 / 10, f_half = 1 / 2, f_add = (+), f_sub = (-), f_mul = (*), f_div = (/),
     f_neg = uminus, f_lt = (<), f_ge = (\<ge>), f_eq = (=), f_trunc = (\<lambda>x. word_of_int \<lfloor>x\<rfloor>)\<rparr>"

lemma fp_rat_ints: "fp_ints fp_rat of_int"
proof -
  have "\<lfloor>1 / 2 :: rat\<rfloor> = 0" by (rule floor_unique) simp_all
  then show ?thesis unfolding fp_ints_def by (simp add: fp_rat_def)
qed

theorem Calc_display_fits_witness:
  "\<exists>st. key_run fp_rat [0x31, 0x32, VK_DIVIDE, 0x30, VK_OEM_PLUS, VK_BACK] (calc0 fp_rat) = Some st
     \<and> length (g_aszDisp st) \<le> 18"
  using Calc_display_fits [of "\<lparr>cl_idx = 0, cl_build = replicate 192 zero_cmd, cl_buildN = 0, cl_lastW = 200, cl_lastH = 250\<rparr>"
      InitShared fp_rat "[0x31, 0x32, VK_DIVIDE, 0x30, VK_OEM_PLUS, VK_BACK]"]
  by (auto simp: InitShared_def)

lemma digits_sample: "digits [1, 2, 7]" "digits [0, 5]" "digits [0]"
  by (simp_all add: digits_def)

theorem Calc_computes_witness:
  "\<exists>st'. key_run fp_rat (0x43 # typed [1, 2, 7] @ [VK_SUBTRACT] @ typed [0, 5] @ [VK_OEM_PLUS]) (calc0 fp_rat) = Some st'
    \<and> decimal 122 (g_aszDisp st') \<and> \<not> g_bErr st'"
  by (rule Calc_computes [OF fp_rat_ints digits_sample(1,2)]) (simp_all add: value_of_def)

theorem Calc_divide_by_zero_witness:
  "\<exists>st'. key_run fp_rat (0x43 # typed [1, 2, 7] @ [VK_DIVIDE] @ typed [0] @ [VK_OEM_PLUS]) (calc0 fp_rat) = Some st'
    \<and> g_aszDisp st' = ws ''Error''"
  using Calc_divide_by_zero [OF fp_rat_ints digits_sample(1,3), of "calc0 fp_rat"] by (auto simp: value_of_def)

end
