(* ===== verification/Memtest.thy ===== *)
theory Memtest
  imports Dcwin Dcinput
begin

text \<open>
  The memory test, \<open>shell/dcwmem.c\<close>: the choice of the block, the six phases that fill and
  check it a chunk at a time, and the client's turn. Painting is left out, except for the
  percentage of the progress bar.

  Memory is a parameter: a record of a load and a store by address over a state of its own.
  Positions and sizes are natural numbers (the block has at most \<open>24 * 2 ^ 20\<close> bytes); the one
  product that can pass 32 bits, in \<open>Percent\<close>, is reduced as the machine does. The message is
  a datatype, one constructor for each text.
\<close>

section \<open>State\<close>

record 'm ram =
  ld :: "u32 \<Rightarrow> 'm \<Rightarrow> u32"
  sto :: "u32 \<Rightarrow> u32 \<Rightarrow> 'm \<Rightarrow> 'm"

datatype mstate = ST_IDLE | ST_FILLA | ST_CHKA | ST_FILL5 | ST_CHK5 | ST_FILLB | ST_CHKB | ST_DONE | ST_FAIL

datatype memmsg = MsgNone | MsgPass nat | MsgFail | MsgNoRam

record memtest =
  g_pdwBlk :: "u32 option"
  g_dwBytes :: nat
  g_dwWords :: nat
  g_dwPos :: nat
  g_nState :: mstate
  g_dwFailAddr :: u32
  g_dwFailGot :: u32
  g_dwFailExp :: u32
  g_awchMsg :: memmsg

definition mem0 :: memtest where
  "mem0 = \<lparr>g_pdwBlk = None, g_dwBytes = 0, g_dwWords = 0, g_dwPos = 0, g_nState = ST_IDLE, g_dwFailAddr = 0,
     g_dwFailGot = 0, g_dwFailExp = 0, g_awchMsg = MsgNone\<rparr>"

definition CHUNK :: nat where "CHUNK = 524288"
definition MAXTEST :: nat where "MAXTEST = 25165824"
definition MARGIN :: nat where "MARGIN = 2097152"

section \<open>The block\<close>

text \<open>\<open>va\<close> is \<open>VirtualAlloc\<close>: the address it gives for a size, or none.\<close>

function alloc_try :: "(nat \<Rightarrow> u32 option) \<Rightarrow> nat \<Rightarrow> (u32 \<times> nat) option" where
  "alloc_try va dwB =
     (if dwB \<ge> 0x100000
      then case va dwB of Some pv \<Rightarrow> Some (pv, dwB) | None \<Rightarrow> alloc_try va (dwB - 0x100000)
      else None)"
  by pat_completeness auto

termination by (relation "measure snd") auto

declare alloc_try.simps [simp del]

definition AllocBig :: "nat \<Rightarrow> (nat \<Rightarrow> u32 option) \<Rightarrow> (u32 \<times> nat) option" where
  "AllocBig dwAvailPhys va =
     (let dwWant = (if dwAvailPhys > MARGIN then dwAvailPhys - MARGIN else 0);
          dwWant = (if dwWant > MAXTEST then MAXTEST else dwWant);
          dwWant = dwWant - dwWant mod 0x10000
      in alloc_try va dwWant)"

definition StartTest :: "nat \<Rightarrow> (nat \<Rightarrow> u32 option) \<Rightarrow> memtest \<Rightarrow> memtest" where
  "StartTest avail va st =
     (case AllocBig avail va of
        None \<Rightarrow> st\<lparr>g_pdwBlk := None, g_dwBytes := 0, g_dwWords := 0, g_nState := ST_FAIL, g_awchMsg := MsgNoRam\<rparr>
      | Some (pv, b) \<Rightarrow> st\<lparr>g_pdwBlk := Some pv, g_dwBytes := b, g_dwWords := b div 4, g_dwPos := 0,
                          g_nState := ST_FILLA, g_awchMsg := MsgNone\<rparr>)"

section \<open>The phases\<close>

text \<open>The address of a cell, \<open>g_pdwBlk + i\<close>.\<close>

definition cell :: "u32 \<Rightarrow> nat \<Rightarrow> u32" where
  "cell blk i = blk + word_of_nat (4 * i)"

primrec fill_cells :: "'m ram \<Rightarrow> u32 \<Rightarrow> (nat \<Rightarrow> u32) \<Rightarrow> nat \<Rightarrow> nat \<Rightarrow> 'm \<Rightarrow> 'm" where
  "fill_cells R blk val 0 i m = m"
| "fill_cells R blk val (Suc n) i m = fill_cells R blk val n (i + 1) (sto R (cell blk i) (val i) m)"

text \<open>The first cell that does not read back its value.\<close>

primrec check_cells :: "'m ram \<Rightarrow> u32 \<Rightarrow> (nat \<Rightarrow> u32) \<Rightarrow> nat \<Rightarrow> nat \<Rightarrow> 'm \<Rightarrow> nat option" where
  "check_cells R blk val 0 i m = None"
| "check_cells R blk val (Suc n) i m =
     (if ld R (cell blk i) m \<noteq> val i then Some i else check_cells R blk val n (i + 1) m)"

definition Fail :: "u32 \<Rightarrow> nat \<Rightarrow> u32 \<Rightarrow> u32 \<Rightarrow> memtest \<Rightarrow> memtest" where
  "Fail blk i dwGot dwExp st =
     st\<lparr>g_dwFailAddr := cell blk i, g_dwFailGot := dwGot, g_dwFailExp := dwExp, g_nState := ST_FAIL,
        g_awchMsg := MsgFail\<rparr>"

text \<open>What a phase writes or expects, and whether it writes.\<close>

fun phase_val :: "u32 \<Rightarrow> mstate \<Rightarrow> nat \<Rightarrow> u32" where
  "phase_val blk s i =
     (if s = ST_FILLA \<or> s = ST_CHKA then cell blk i
      else if s = ST_FILL5 \<or> s = ST_CHK5 then 0x55555555 else 0xAAAAAAAA)"

definition fills :: "mstate \<Rightarrow> bool" where
  "fills s \<longleftrightarrow> s = ST_FILLA \<or> s = ST_FILL5 \<or> s = ST_FILLB"

definition busy :: "mstate \<Rightarrow> bool" where
  "busy s \<longleftrightarrow> fills s \<or> s = ST_CHKA \<or> s = ST_CHK5 \<or> s = ST_CHKB"

fun next_state :: "mstate \<Rightarrow> mstate" where
  "next_state ST_FILLA = ST_CHKA"
| "next_state ST_CHKA = ST_FILL5"
| "next_state ST_FILL5 = ST_CHK5"
| "next_state ST_CHK5 = ST_FILLB"
| "next_state ST_FILLB = ST_CHKB"
| "next_state s = ST_DONE"

definition advance :: "nat \<Rightarrow> memtest \<Rightarrow> memtest" where
  "advance dwEnd st =
     (if dwEnd \<ge> g_dwWords st
      then let s = next_state (g_nState st)
        in st\<lparr>g_dwPos := 0, g_nState := s,
              g_awchMsg := (if s = ST_DONE then MsgPass (g_dwBytes st div 1048576) else g_awchMsg st)\<rparr>
      else st\<lparr>g_dwPos := dwEnd\<rparr>)"

text \<open>Without a block there is nothing the code may touch: \<open>None\<close>.\<close>

definition StepTest :: "'m ram \<Rightarrow> memtest \<times> 'm \<Rightarrow> (memtest \<times> 'm) option" where
  "StepTest R s = (case s of (st, m) \<Rightarrow>
     if \<not> busy (g_nState st) then Some (st, m)
     else case g_pdwBlk st of
       None \<Rightarrow> None
     | Some blk \<Rightarrow>
         let dwEnd = min (g_dwPos st + CHUNK) (g_dwWords st);
             n = dwEnd - g_dwPos st; v = phase_val blk (g_nState st)
         in if fills (g_nState st)
            then Some (advance dwEnd st, fill_cells R blk v n (g_dwPos st) m)
            else case check_cells R blk v n (g_dwPos st) m of
                Some i \<Rightarrow> Some (Fail blk i (ld R (cell blk i) m) (v i) st, m)
              | None \<Rightarrow> Some (advance dwEnd st, m))"

text \<open>The bar, 0 to 100; the product is reduced to 32 bits.\<close>

definition phase_no :: "mstate \<Rightarrow> nat" where
  "phase_no s = (case s of ST_FILLA \<Rightarrow> 0 | ST_CHKA \<Rightarrow> 1 | ST_FILL5 \<Rightarrow> 2 | ST_CHK5 \<Rightarrow> 3 | ST_FILLB \<Rightarrow> 4 | _ \<Rightarrow> 5)"

definition Percent :: "memtest \<Rightarrow> nat" where
  "Percent st =
     (if g_nState st = ST_IDLE then 0
      else if g_nState st = ST_DONE \<or> g_nState st = ST_FAIL then 100
      else if g_dwWords st = 0 then 0
      else (phase_no (g_nState st) * 1000 + g_dwPos st * 1000 mod 2 ^ 32 div g_dwWords st) div 60)"

section \<open>The client's turn\<close>

definition mem_key :: "nat \<Rightarrow> (nat \<Rightarrow> u32 option) \<Rightarrow> u32 \<Rightarrow> memtest \<Rightarrow> memtest" where
  "mem_key avail va dwKey st =
     (if (dwKey = VK_RETURN \<or> dwKey = 0x20) \<and> (g_nState st = ST_IDLE \<or> g_nState st = ST_DONE \<or> g_nState st = ST_FAIL)
      then StartTest avail va st else st)"

definition mem_turn ::
  "'m ram \<Rightarrow> nat \<Rightarrow> (nat \<Rightarrow> u32 option) \<Rightarrow> u32 list \<Rightarrow> memtest \<times> 'm \<Rightarrow> (memtest \<times> 'm) option" where
  "mem_turn R avail va keys s = (case s of (st, m) \<Rightarrow> do {
     let st = fold (mem_key avail va) keys st;
     (st, m) \<leftarrow> (if busy (g_nState st) then StepTest R (st, m) else Some (st, m));
     Some (if g_nState st = ST_DONE \<or> g_nState st = ST_FAIL then st\<lparr>g_pdwBlk := None\<rparr> else st, m) })"

section \<open>A run of the test\<close>

primrec steps :: "'m ram \<Rightarrow> nat \<Rightarrow> memtest \<times> 'm \<Rightarrow> (memtest \<times> 'm) option" where
  "steps R 0 s = Some s"
| "steps R (Suc n) s = StepTest R s \<bind> steps R n"

lemma steps_add: "steps R (a + b) s = steps R a s \<bind> steps R b"
proof (induction a arbitrary: s)
  case (Suc a)
  then show ?case by (cases "StepTest R s") simp_all
qed simp

lemma fill_cells_add:
  "fill_cells R blk val (a + b) i m = fill_cells R blk val b (i + a) (fill_cells R blk val a i m)"
  by (induction a arbitrary: i m) simp_all

lemma check_cells_add:
  "check_cells R blk val (a + b) i m =
     (case check_cells R blk val a i m of Some k \<Rightarrow> Some k | None \<Rightarrow> check_cells R blk val b (i + a) m)"
  by (induction a arbitrary: i) (simp_all split: option.split)

lemma check_None:
  "check_cells R blk val n i m = None \<longleftrightarrow> (\<forall>k < n. ld R (cell blk (i + k)) m = val (i + k))"
proof (induction n arbitrary: i)
  case (Suc n)
  then show ?case by (auto simp: less_Suc_eq_0_disj)
qed simp

lemma check_Some: "check_cells R blk val n i m = Some k \<Longrightarrow> i \<le> k \<and> k < i + n \<and> ld R (cell blk k) m \<noteq> val k"
  by (induction n arbitrary: i) (fastforce split: if_splits)+

lemma advance_pos [simp]: "g_dwWords st \<le> e \<Longrightarrow> advance e (st\<lparr>g_dwPos := x\<rparr>) = advance e st"
  by (simp add: advance_def Let_def)

lemma Fail_pos [simp]: "(Fail blk i g e (st\<lparr>g_dwPos := x\<rparr>)) = (Fail blk i g e st)\<lparr>g_dwPos := x\<rparr>"
  by (simp add: Fail_def)

text \<open>A whole phase is the phase done in one piece.\<close>

lemma fill_phase:
  assumes "fills (g_nState st)" and "g_pdwBlk st = Some blk" and "g_dwPos st \<le> g_dwWords st"
  shows "\<exists>n. steps R n (st, m) = Some (advance (g_dwWords st) st,
      fill_cells R blk (phase_val blk (g_nState st)) (g_dwWords st - g_dwPos st) (g_dwPos st) m)"
  using assms
proof (induction "g_dwWords st - g_dwPos st" arbitrary: st m rule: less_induct)
  case less
  let ?v = "phase_val blk (g_nState st)" and ?p = "g_dwPos st" and ?w = "g_dwWords st"
  have b: "busy (g_nState st)" using less.prems(1) by (simp add: busy_def)
  show ?case
  proof (cases "?p + CHUNK < ?w")
    case False
    then have "steps R (Suc 0) (st, m) = Some (advance ?w st, fill_cells R blk ?v (?w - ?p) ?p m)"
      using less.prems b by (simp add: StepTest_def min_def Let_def)
    then show ?thesis by blast
  next
    case True
    let ?st = "st\<lparr>g_dwPos := ?p + CHUNK\<rparr>" and ?m = "fill_cells R blk ?v CHUNK ?p m"
    have s: "StepTest R (st, m) = Some (?st, ?m)"
      using less.prems b True by (simp add: StepTest_def min_def Let_def advance_def)
    have "g_dwWords ?st - g_dwPos ?st < ?w - ?p" using True by (simp add: CHUNK_def)
    from less.hyps [OF this, of ?m] less.prems True obtain n where
      "steps R n (?st, ?m) = Some (advance ?w st, fill_cells R blk ?v (?w - (?p + CHUNK)) (?p + CHUNK) ?m)"
      by auto
    then have "steps R (Suc n) (st, m) = Some (advance ?w st, fill_cells R blk ?v (?w - ?p) ?p m)"
      using s True fill_cells_add [of R blk ?v CHUNK "?w - (?p + CHUNK)" ?p m] by simp
    then show ?thesis by blast
  qed
qed

lemma check_phase:
  assumes "busy (g_nState st)" and "\<not> fills (g_nState st)" and "g_pdwBlk st = Some blk" and "g_dwPos st \<le> g_dwWords st"
  shows "\<exists>n x. steps R n (st, m) = Some (
      (case check_cells R blk (phase_val blk (g_nState st)) (g_dwWords st - g_dwPos st) (g_dwPos st) m of
         None \<Rightarrow> advance (g_dwWords st) st
       | Some i \<Rightarrow> Fail blk i (ld R (cell blk i) m) (phase_val blk (g_nState st) i) (st\<lparr>g_dwPos := x\<rparr>)), m)"
  using assms
proof (induction "g_dwWords st - g_dwPos st" arbitrary: st rule: less_induct)
  case less
  let ?v = "phase_val blk (g_nState st)" and ?p = "g_dwPos st" and ?w = "g_dwWords st"
  let ?c = "\<lambda>n i. check_cells R blk ?v n i m"
  show ?case
  proof (cases "?p + CHUNK < ?w \<and> ?c CHUNK ?p = None")
    case False
    have "\<exists>x. steps R (Suc 0) (st, m) = Some (
      (case ?c (?w - ?p) ?p of None \<Rightarrow> advance ?w st
       | Some i \<Rightarrow> Fail blk i (ld R (cell blk i) m) (?v i) (st\<lparr>g_dwPos := x\<rparr>)), m)"
    proof (cases "?p + CHUNK < ?w")
      case True
      with False obtain i where i: "?c CHUNK ?p = Some i" by auto
      have "?c (?w - ?p) ?p = Some i"
        using check_cells_add [of R blk ?v CHUNK "?w - (?p + CHUNK)" ?p m] i True by simp
      then show ?thesis using less.prems True i
        by (intro exI [of _ ?p]) (simp add: StepTest_def min_def Let_def)
    next
      case False
      then show ?thesis using less.prems
        by (intro exI [of _ ?p]) (simp add: StepTest_def min_def Let_def split: option.split)
    qed
    then show ?thesis by blast
  next
    case True
    let ?st = "st\<lparr>g_dwPos := ?p + CHUNK\<rparr>"
    have s: "StepTest R (st, m) = Some (?st, m)"
      using less.prems True by (simp add: StepTest_def min_def Let_def advance_def)
    have c: "?c (?w - ?p) ?p = ?c (?w - (?p + CHUNK)) (?p + CHUNK)"
      using check_cells_add [of R blk ?v CHUNK "?w - (?p + CHUNK)" ?p m] True by simp
    have "g_dwWords ?st - g_dwPos ?st < ?w - ?p"
      using True unfolding CHUNK_def by (simp del: phase_val.simps) linarith
    from less.hyps [OF this] less.prems True obtain n x where
      "steps R n (?st, m) = Some ((case ?c (?w - (?p + CHUNK)) (?p + CHUNK) of None \<Rightarrow> advance ?w st
       | Some i \<Rightarrow> Fail blk i (ld R (cell blk i) m) (?v i) (st\<lparr>g_dwPos := x\<rparr>)), m)"
      by (auto cong: option.case_cong)
    then have "steps R (Suc n) (st, m) = Some ((case ?c (?w - ?p) ?p of None \<Rightarrow> advance ?w st
       | Some i \<Rightarrow> Fail blk i (ld R (cell blk i) m) (?v i) (st\<lparr>g_dwPos := x\<rparr>)), m)"
      using s c by simp
    then show ?thesis by blast
  qed
qed

section \<open>Filling and checking, a pair of phases\<close>

definition reach :: "'m ram \<Rightarrow> memtest \<times> 'm \<Rightarrow> memtest \<times> 'm \<Rightarrow> bool" where
  "reach R s t \<longleftrightarrow> (\<exists>n. steps R n s = Some t)"

lemma reach_trans: "reach R s t \<Longrightarrow> reach R t u \<Longrightarrow> reach R s u"
  unfolding reach_def by (metis bind.bind_lunit steps_add)

lemma advance_simps [simp]:
  "g_dwWords (advance e st) = g_dwWords st" "g_dwBytes (advance e st) = g_dwBytes st"
  "g_pdwBlk (advance e st) = g_pdwBlk st"
  "g_dwWords st \<le> e \<Longrightarrow> g_dwPos (advance e st) = 0"
  "g_dwWords st \<le> e \<Longrightarrow> g_nState (advance e st) = next_state (g_nState st)"
  by (simp_all add: advance_def Let_def)

text \<open>What a stop for an error leaves: a cell of the block that does not read its value.\<close>

definition failed :: "'m ram \<Rightarrow> u32 \<Rightarrow> nat \<Rightarrow> memtest \<Rightarrow> 'm \<Rightarrow> bool" where
  "failed R blk n st m \<longleftrightarrow> g_nState st = ST_FAIL \<and> g_awchMsg st = MsgFail \<and>
     (\<exists>i < n. g_dwFailAddr st = cell blk i \<and> g_dwFailGot st = ld R (cell blk i) m) \<and>
     g_dwFailGot st \<noteq> g_dwFailExp st"

definition reads :: "'m ram \<Rightarrow> u32 \<Rightarrow> (nat \<Rightarrow> u32) \<Rightarrow> nat \<Rightarrow> 'm \<Rightarrow> bool" where
  "reads R blk v n m \<longleftrightarrow> (\<forall>k < n. ld R (cell blk k) m = v k)"

lemma pair_phases:
  assumes "fills (g_nState st)" and "g_pdwBlk st = Some blk" and "g_dwPos st = 0"
    and "n = g_dwWords st" and "v = phase_val blk (g_nState st)" and "m' = fill_cells R blk v n 0 m"
  shows "reads R blk v n m' \<Longrightarrow> reach R (st, m) (advance n (advance n st), m')"
    and "\<not> reads R blk v n m' \<Longrightarrow> \<exists>st'. reach R (st, m) (st', m') \<and> failed R blk n st' m'"
proof -
  let ?s = "advance n st"
  have f: "reach R (st, m) (?s, m')" using fill_phase [of st blk R m] assms by (simp add: reach_def)
  have v: "phase_val blk (g_nState ?s) = v"
    using assms(1,4,5) by (auto simp: fills_def fun_eq_iff)
  have w: "g_dwWords ?s = n" "g_dwPos ?s = 0" "g_pdwBlk ?s = Some blk" using assms(2,4) by simp_all
  have "busy (g_nState ?s)" "\<not> fills (g_nState ?s)" using assms(1,4) by (auto simp: fills_def busy_def)
  then obtain k x where c: "steps R k (?s, m') = Some ((case check_cells R blk v n 0 m' of
       None \<Rightarrow> advance n ?s | Some i \<Rightarrow> Fail blk i (ld R (cell blk i) m') (v i) (?s\<lparr>g_dwPos := x\<rparr>)), m')"
    using check_phase [of ?s blk R m', unfolded v w] by auto
  show "reach R (st, m) (advance n ?s, m')" if "reads R blk v n m'"
  proof -
    have "check_cells R blk v n 0 m' = None" using that by (simp add: check_None reads_def)
    with c have "reach R (?s, m') (advance n ?s, m')" by (auto simp: reach_def)
    with f show ?thesis by (rule reach_trans)
  qed
  show "\<exists>st'. reach R (st, m) (st', m') \<and> failed R blk n st' m'" if bad: "\<not> reads R blk v n m'"
  proof -
    obtain i where i: "check_cells R blk v n 0 m' = Some i"
      using bad check_None [of R blk v n 0 m']
      by (cases "check_cells R blk v n 0 m'") (auto simp: reads_def)
    let ?f = "Fail blk i (ld R (cell blk i) m') (v i) (?s\<lparr>g_dwPos := x\<rparr>)"
    have "reach R (?s, m') (?f, m')" using c i by (auto simp: reach_def)
    moreover have "failed R blk n ?f m'"
      using check_Some [OF i] by (auto simp: failed_def Fail_def)
    ultimately show ?thesis using f reach_trans by blast
  qed
qed

section \<open>A board with mirrors and stuck bits\<close>

text \<open>
  Addresses select physical cells (\<open>ph\<close>, two addresses may share one), and a physical cell
  can hold bits at zero (\<open>am\<close>) or at one (\<open>om\<close>).
\<close>

definition board :: "(u32 \<Rightarrow> 'p) \<Rightarrow> ('p \<Rightarrow> u32) \<Rightarrow> ('p \<Rightarrow> u32) \<Rightarrow> ('p \<Rightarrow> u32) ram" where
  "board ph am om =
     \<lparr>ld = \<lambda>a m. or (and (m (ph a)) (am (ph a))) (om (ph a)), sto = \<lambda>a v m. m(ph a := v)\<rparr>"

definition sound_board :: "(u32 \<Rightarrow> 'p) \<Rightarrow> ('p \<Rightarrow> u32) \<Rightarrow> ('p \<Rightarrow> u32) \<Rightarrow> u32 \<Rightarrow> nat \<Rightarrow> bool" where
  "sound_board ph am om blk n \<longleftrightarrow> inj_on (\<lambda>i. ph (cell blk i)) {..<n} \<and>
     (\<forall>i < n. am (ph (cell blk i)) = - 1 \<and> om (ph (cell blk i)) = 0)"

lemma unat_word_of_nat: "x < 2 ^ 32 \<Longrightarrow> unat (word_of_nat x :: u32) = x"
  by (simp only: unat_of_nat take_bit_nat_eq_self) (simp add: unsigned_of_nat take_bit_nat_eq_self)

lemma cell_inj: "i < 2 ^ 30 \<Longrightarrow> j < 2 ^ 30 \<Longrightarrow> cell blk i = cell blk j \<Longrightarrow> i = j"
proof -
  assume a: "i < 2 ^ 30" "j < 2 ^ 30" "cell blk i = cell blk j"
  then have "(word_of_nat (4 * i) :: u32) = word_of_nat (4 * j)" unfolding cell_def by (rule_tac add_left_imp_eq)
  moreover have "4 * i < 2 ^ 32" "4 * j < 2 ^ 32" using a by simp_all
  ultimately have "4 * i = 4 * j" by (metis unat_word_of_nat)
  then show ?thesis by simp
qed

lemma fill_other:
  "(\<And>k. i \<le> k \<Longrightarrow> k < i + n \<Longrightarrow> ph (cell blk k) \<noteq> p) \<Longrightarrow>
   fill_cells (board ph am om) blk v n i m p = m p"
proof (induction n arbitrary: i m)
  case (Suc n)
  have "fill_cells (board ph am om) blk v n (i + 1) (m(ph (cell blk i) := v i)) p = (m(ph (cell blk i) := v i)) p"
    by (rule Suc.IH) (use Suc.prems in simp)
  then show ?case using Suc.prems [of i] by (simp add: board_def)
qed simp

text \<open>A cell holds what the last cell of the block that shares it was given.\<close>

lemma fill_holds:
  "i \<le> k \<Longrightarrow> k < i + n \<Longrightarrow>
   \<exists>j. i \<le> j \<and> j < i + n \<and> ph (cell blk j) = ph (cell blk k) \<and>
     fill_cells (board ph am om) blk v n i m (ph (cell blk k)) = v j"
proof (induction n arbitrary: i k m)
  case (Suc n)
  let ?p = "ph (cell blk k)" and ?m = "m(ph (cell blk i) := v i)"
  have e: "fill_cells (board ph am om) blk v (Suc n) i m = fill_cells (board ph am om) blk v n (i + 1) ?m"
    by (simp add: board_def)
  show ?case
  proof (cases "\<exists>j. i + 1 \<le> j \<and> j < i + 1 + n \<and> ph (cell blk j) = ?p")
    case True
    then obtain k' where k': "i + 1 \<le> k'" "k' < i + 1 + n" "ph (cell blk k') = ?p" by blast
    from Suc.IH [OF k'(1,2), of ?m] obtain j where "i + 1 \<le> j \<and> j < i + 1 + n \<and> ph (cell blk j) = ?p \<and>
      fill_cells (board ph am om) blk v n (i + 1) ?m ?p = v j" unfolding k'(3) by blast
    then show ?thesis unfolding e by (intro exI [of _ j]) simp
  next
    case False
    then have "k = i" using Suc.prems by (metis Suc_eq_plus1 add_Suc_right add_Suc_shift le_antisym not_less_eq_eq)
    moreover have "fill_cells (board ph am om) blk v n (i + 1) ?m ?p = ?m ?p"
      by (rule fill_other) (use False in auto)
    ultimately show ?thesis unfolding e by (intro exI [of _ i]) simp
  qed
qed simp

section \<open>The verdict\<close>

lemma reads_board:
  "reads (board ph am om) blk v n m \<longleftrightarrow>
   (\<forall>k < n. or (and (m (ph (cell blk k))) (am (ph (cell blk k)))) (om (ph (cell blk k))) = v k)"
  by (simp add: reads_def board_def)

text \<open>The address phase passes on a board without faults, and only if no two cells are one.\<close>

lemma fill_inj:
  assumes "inj_on (\<lambda>i. ph (cell blk i)) {..<n}" and "k < n"
  shows "fill_cells (board ph am om) blk v n 0 m (ph (cell blk k)) = v k"
proof -
  from fill_holds [of 0 k n ph blk am om v m] \<open>k < n\<close> obtain j where
    "j < n" "ph (cell blk j) = ph (cell blk k)" "fill_cells (board ph am om) blk v n 0 m (ph (cell blk k)) = v j" by auto
  moreover have "j = k" using assms calculation(1,2) by (auto dest: inj_onD)
  ultimately show ?thesis by simp
qed

lemma reads_sound:
  "sound_board ph am om blk n \<Longrightarrow> reads (board ph am om) blk v n (fill_cells (board ph am om) blk v n 0 m)"
  by (simp add: reads_board sound_board_def fill_inj)

lemma reads_cell_inj:
  assumes "reads (board ph am om) blk (cell blk) n m" and "n \<le> 2 ^ 30"
  shows "inj_on (\<lambda>i. ph (cell blk i)) {..<n}"
proof (rule inj_onI)
  fix i j assume ij: "i \<in> {..<n}" "j \<in> {..<n}" and e: "ph (cell blk i) = ph (cell blk j)"
  have "cell blk i = cell blk j" using assms(1) ij e unfolding reads_board by (metis lessThan_iff)
  moreover have "i < 2 ^ 30" "j < 2 ^ 30" using ij assms(2) by auto
  ultimately show "i = j" using cell_inj by blast
qed

text \<open>A pattern and its complement expose every stuck bit.\<close>

lemma no_stuck:
  assumes "or (and v a) b = v" and "or (and (not v) a) b = not (v :: u32)"
  shows "a = - 1 \<and> b = 0"
proof -
  have "bit a k \<and> \<not> bit b k" if "k < 32" for k
  proof -
    from assms(1) have "bit (or (and v a) b) k \<longleftrightarrow> bit v k" by simp
    moreover from assms(2) have "bit (or (and (not v) a) b) k \<longleftrightarrow> bit (not v) k" by simp
    ultimately show ?thesis using that by (auto simp: bit_simps)
  qed
  then show ?thesis by (auto intro!: bit_word_eqI)
qed

lemma reads_stuck:
  assumes i: "inj_on (\<lambda>i. ph (cell blk i)) {..<n}"
    and p: "reads (board ph am om) blk (\<lambda>i. v) n (fill_cells (board ph am om) blk (\<lambda>i. v) n 0 m)"
    and q: "reads (board ph am om) blk (\<lambda>i. not v) n (fill_cells (board ph am om) blk (\<lambda>i. not v) n 0 m')"
  shows "sound_board ph am om blk n"
proof -
  have "am (ph (cell blk k)) = - 1 \<and> om (ph (cell blk k)) = 0" if "k < n" for k
    using p q that unfolding reads_board by (intro no_stuck [of v]) (simp_all add: fill_inj [OF i])
  then show ?thesis using i by (simp add: sound_board_def)
qed

definition verdict :: "'m ram \<Rightarrow> bool \<Rightarrow> u32 \<Rightarrow> nat \<Rightarrow> memtest \<times> 'm \<Rightarrow> bool" where
  "verdict R good blk b s = (case s of (st, m) \<Rightarrow>
     if good then g_nState st = ST_DONE \<and> g_awchMsg st = MsgPass (b div 2 ^ 20) else failed R blk (b div 4) st m)"

lemma run_verdict:
  assumes st: "g_pdwBlk st = Some blk" "g_nState st = ST_FILLA" "g_dwPos st = 0" "g_dwWords st = b div 4" "g_dwBytes st = b"
    and b: "b div 4 \<le> 2 ^ 30"
  shows "\<exists>s. reach (board ph am om) (st, m) s \<and> verdict (board ph am om) (sound_board ph am om blk (b div 4)) blk b s"
proof -
  let ?R = "board ph am om" and ?n = "b div 4"
  define s1 s2 where "s1 = advance ?n (advance ?n st)" and "s2 = advance ?n (advance ?n s1)"
  have n1: "g_pdwBlk s1 = Some blk" "g_nState s1 = ST_FILL5" "g_dwPos s1 = 0" "g_dwWords s1 = ?n" "g_dwBytes s1 = b"
    using st by (simp_all add: s1_def)
  have n2: "g_pdwBlk s2 = Some blk" "g_nState s2 = ST_FILLB" "g_dwPos s2 = 0" "g_dwWords s2 = ?n" "g_dwBytes s2 = b"
    using n1 by (simp_all add: s2_def)
  define v1 v2 v3 where "v1 = phase_val blk ST_FILLA" and "v2 = phase_val blk ST_FILL5" and "v3 = phase_val blk ST_FILLB"
  have v: "v1 = cell blk" "v2 = (\<lambda>i. 0x55555555)" "v3 = (\<lambda>i. not 0x55555555)"
    by (simp_all add: v1_def v2_def v3_def fun_eq_iff)
  define m1 m2 m3 where "m1 = fill_cells ?R blk v1 ?n 0 m" and "m2 = fill_cells ?R blk v2 ?n 0 m1"
    and "m3 = fill_cells ?R blk v3 ?n 0 m2"
  have h: "fills (g_nState st)" "fills (g_nState s1)" "fills (g_nState s2)"
    by (simp_all add: fills_def st n1 n2)
  have e: "v1 = phase_val blk (g_nState st)" "v2 = phase_val blk (g_nState s1)" "v3 = phase_val blk (g_nState s2)"
    by (simp_all only: v1_def v2_def v3_def st n1 n2)
  note p1 = pair_phases [OF h(1) st(1,3) st(4) [symmetric] e(1) m1_def, folded s1_def]
  note p2 = pair_phases [OF h(2) n1(1,3) n1(4) [symmetric] e(2) m2_def, folded s2_def]
  note p3 = pair_phases [OF h(3) n2(1,3) n2(4) [symmetric] e(3) m3_def]
  have bad: ?thesis if "reach ?R (st, m) (st', m')" and "failed ?R blk ?n st' m'"
    and "\<not> sound_board ph am om blk ?n" for st' m'
    using that by (intro exI [of _ "(st', m')"]) (simp add: verdict_def)
  show ?thesis
  proof (cases "reads ?R blk v1 ?n m1 \<and> reads ?R blk v2 ?n m2 \<and> reads ?R blk v3 ?n m3")
    case True
    then have r1: "reads ?R blk v1 ?n m1" and r2: "reads ?R blk v2 ?n m2" and r3: "reads ?R blk v3 ?n m3" by simp_all
    have "reach ?R (st, m) (advance ?n (advance ?n s2), m3)"
      using p1(1) [OF r1] p2(1) [OF r2] p3(1) [OF r3] by (blast intro: reach_trans)
    moreover have "inj_on (\<lambda>i. ph (cell blk i)) {..<?n}" using reads_cell_inj [OF _ b] r1 v(1) by blast
    then have "sound_board ph am om blk ?n"
      using r2 r3 unfolding m2_def m3_def v(2,3) by (rule reads_stuck)
    moreover have "g_nState (advance ?n (advance ?n s2)) = ST_DONE"
      "g_awchMsg (advance ?n (advance ?n s2)) = MsgPass (b div 2 ^ 20)"
      using n2 by (simp_all add: advance_def Let_def)
    ultimately show ?thesis by (intro exI [of _ "(advance ?n (advance ?n s2), m3)"]) (simp add: verdict_def)
  next
    case False
    have ns: "\<not> sound_board ph am om blk ?n"
      using False reads_sound [of ph am om blk ?n] unfolding m1_def m2_def m3_def by blast
    consider "\<not> reads ?R blk v1 ?n m1" | "reads ?R blk v1 ?n m1" "\<not> reads ?R blk v2 ?n m2"
      | "reads ?R blk v1 ?n m1" "reads ?R blk v2 ?n m2" "\<not> reads ?R blk v3 ?n m3" using False by blast
    then show ?thesis
    proof cases
      case 1
      from p1(2) [OF 1] bad ns show ?thesis by blast
    next
      case 2
      from p2(2) [OF 2(2)] p1(1) [OF 2(1)] bad ns show ?thesis by (blast intro: reach_trans)
    next
      case 3
      from p3(2) [OF 3(3)] p1(1) [OF 3(1)] p2(1) [OF 3(2)] bad ns show ?thesis by (blast intro: reach_trans)
    qed
  qed
qed

lemma alloc_try_le: "alloc_try va n = Some (pv, b) \<Longrightarrow> b \<le> n \<and> 0x100000 \<le> b \<and> va b = Some pv"
proof (induction va n rule: alloc_try.induct)
  case (1 va n)
  from "1.prems" have "0x100000 \<le> n" by (subst (asm) alloc_try.simps) (simp split: if_splits)
  with 1 show ?case
    by (cases "va n") (auto simp: alloc_try.simps [of va n])
qed

lemma AllocBig_range: "AllocBig avail va = Some (pv, b) \<Longrightarrow> 0x100000 \<le> b \<and> b \<le> MAXTEST \<and> va b = Some pv"
  unfolding AllocBig_def Let_def by (drule alloc_try_le) (auto split: if_splits)

text \<open>C26: The verdict of the memory test. From the start of a run on a block the system gave, on any
  board (addresses that share cells, bits held at zero or one), the test stops; it passes
  exactly when no two words of the block share a cell and none has a stuck bit, and otherwise
  it stops with the address of a word of the block and the wrong value that word now reads.\<close>

theorem Memtest_verdict:
  assumes "AllocBig avail va = Some (blk, b)"
  shows "\<exists>n st' m'. steps (board ph am om) n (StartTest avail va st, m) = Some (st', m') \<and>
    (if sound_board ph am om blk (b div 4)
     then g_nState st' = ST_DONE \<and> g_awchMsg st' = MsgPass (b div 2 ^ 20)
     else g_nState st' = ST_FAIL \<and> g_dwFailGot st' \<noteq> g_dwFailExp st' \<and>
       (\<exists>i < b div 4. g_dwFailAddr st' = cell blk i \<and> g_dwFailGot st' = ld (board ph am om) (cell blk i) m'))"
proof -
  have "b \<le> 25165824" using AllocBig_range [OF assms] by (simp add: MAXTEST_def)
  then have "b div 4 \<le> 2 ^ 30" by simp
  then obtain s where "reach (board ph am om) (StartTest avail va st, m) s"
    "verdict (board ph am om) (sound_board ph am om blk (b div 4)) blk b s"
    using run_verdict [of "StartTest avail va st" blk b ph am om m] assms by (auto simp: StartTest_def)
  then show ?thesis
    by (cases s) (auto simp: reach_def verdict_def failed_def split: if_splits)
qed

text \<open>A board that mirrors every 256 bytes is caught.\<close>

theorem Memtest_verdict_witness:
  "\<exists>n st' m'. steps (board (\<lambda>a. and a 0xFF) (\<lambda>p. - 1) (\<lambda>p. 0)) n (StartTest 0x300000 (\<lambda>n. Some 0) mem0, \<lambda>p. 0) = Some (st', m') \<and>
     g_nState st' = ST_FAIL"
proof -
  have a: "AllocBig 0x300000 (\<lambda>n. Some 0) = Some (0, 0x100000)"
    by (simp add: AllocBig_def alloc_try.simps MARGIN_def MAXTEST_def)
  have "\<not> inj_on (\<lambda>i. and (cell 0 i) 0xFF) {..<262144}"
    by (rule notI, drule inj_onD [of _ _ 0 64]) (simp_all add: cell_def)
  then have "\<not> sound_board (\<lambda>a. and a 0xFF) (\<lambda>p. - 1) (\<lambda>p. 0) 0 (0x100000 div 4)"
    by (simp add: sound_board_def)
  then show ?thesis
    using Memtest_verdict [OF a, of "\<lambda>a. and a 0xFF" "\<lambda>p. - 1" "\<lambda>p. 0" mem0 "\<lambda>p. 0"] by auto
qed

section \<open>The turn\<close>

definition mem_ok :: "memtest \<Rightarrow> bool" where
  "mem_ok st \<longleftrightarrow> (if busy (g_nState st) then g_pdwBlk st \<noteq> None \<and> g_dwPos st \<le> g_dwWords st else g_pdwBlk st = None)"

lemma mem_key_ok: "mem_ok st \<Longrightarrow> mem_ok (mem_key avail va k st)"
  by (auto simp: mem_key_def StartTest_def mem_ok_def busy_def fills_def split: option.split)

lemma mem_keys_ok: "mem_ok st \<Longrightarrow> mem_ok (fold (mem_key avail va) ks st)"
  by (induction ks arbitrary: st) (simp_all add: mem_key_ok)

lemma advance_ok: "g_dwPos (advance e st) \<le> g_dwWords st \<and> (g_nState (advance e st) = g_nState st \<or>
    g_nState (advance e st) = next_state (g_nState st))"
  by (simp add: advance_def Let_def)

lemma Fail_simps [simp]:
  "g_pdwBlk (Fail blk i g e st) = g_pdwBlk st" "g_dwPos (Fail blk i g e st) = g_dwPos st"
  "g_dwWords (Fail blk i g e st) = g_dwWords st" "g_nState (Fail blk i g e st) = ST_FAIL"
  by (simp_all add: Fail_def)

lemma StepTest_ok:
  assumes "busy (g_nState st)" and "g_pdwBlk st = Some blk" and "g_dwPos st \<le> g_dwWords st"
  shows "\<exists>st' m'. StepTest R (st, m) = Some (st', m') \<and> g_pdwBlk st' \<noteq> None \<and> g_dwPos st' \<le> g_dwWords st' \<and>
    (g_nState st' = g_nState st \<or> g_nState st' = next_state (g_nState st) \<or> g_nState st' = ST_FAIL)"
  using assms advance_ok [of "min (g_dwPos st + CHUNK) (g_dwWords st)" st]
  by (simp add: StepTest_def Let_def del: phase_val.simps split: option.split) blast

lemma busy_next: "busy s \<Longrightarrow> busy (next_state s) \<or> next_state s = ST_DONE"
  by (cases s) (simp_all add: busy_def fills_def)

lemma turn_end:
  assumes "g_pdwBlk st \<noteq> None" and "g_dwPos st \<le> g_dwWords st"
    and "busy (g_nState st) \<or> g_nState st = ST_DONE \<or> g_nState st = ST_FAIL"
  shows "mem_ok (if g_nState st = ST_DONE \<or> g_nState st = ST_FAIL then st\<lparr>g_pdwBlk := None\<rparr> else st)"
proof (cases "g_nState st = ST_DONE \<or> g_nState st = ST_FAIL")
  case True
  then show ?thesis by (elim disjE) (simp_all add: mem_ok_def busy_def fills_def)
next
  case False
  then show ?thesis using assms by (simp add: mem_ok_def)
qed

text \<open>A turn of the client keeps its state. The block is held exactly while a run is under way, so
  a phase never touches memory that was not given, and a run that ended has given it back; the
  cursor stays in the block.\<close>

theorem Memtest_turn:
  assumes "mem_ok st"
  shows "\<exists>st' m'. mem_turn R avail va keys (st, m) = Some (st', m') \<and> mem_ok st'"
proof -
  define t where "t = fold (mem_key avail va) keys st"
  have t: "mem_ok t" using assms by (simp add: t_def mem_keys_ok)
  show ?thesis
  proof (cases "busy (g_nState t)")
    case False
    then show ?thesis using t by (auto simp: mem_turn_def t_def [symmetric] mem_ok_def Let_def)
  next
    case True
    with t obtain blk where b: "g_pdwBlk t = Some blk" "g_dwPos t \<le> g_dwWords t" by (auto simp: mem_ok_def)
    obtain t' m' where s: "StepTest R (t, m) = Some (t', m')" and p: "g_pdwBlk t' \<noteq> None" "g_dwPos t' \<le> g_dwWords t'"
      and n: "g_nState t' = g_nState t \<or> g_nState t' = next_state (g_nState t) \<or> g_nState t' = ST_FAIL"
      using StepTest_ok [OF True b, of R m] by (elim exE conjE) (rule that)
    have "mem_ok (if g_nState t' = ST_DONE \<or> g_nState t' = ST_FAIL then t'\<lparr>g_pdwBlk := None\<rparr> else t')"
    proof (rule turn_end [OF p])
      show "busy (g_nState t') \<or> g_nState t' = ST_DONE \<or> g_nState t' = ST_FAIL"
        using n True busy_next [OF True] by (elim disjE) simp_all
    qed
    then show ?thesis using s True by (auto simp: mem_turn_def t_def [symmetric] Let_def)
  qed
qed

text \<open>A turn that starts a run and steps it once, on a board without faults.\<close>

theorem Memtest_turn_witness:
  "\<exists>st' m'. mem_turn (board (\<lambda>a. a) (\<lambda>p. - 1) (\<lambda>p. 0)) 0x300000 (\<lambda>n. Some 0) [VK_RETURN]
     (mem0, \<lambda>p. 0) = Some (st', m') \<and> mem_ok st'"
  by (rule Memtest_turn) (simp add: mem0_def mem_ok_def busy_def fills_def)

section \<open>The progress bar\<close>

text \<open>
  The product in \<open>Percent\<close> wraps for a block of more than about sixteen megabytes: at three
  quarters of a phase over the largest block the bar shows less than at two thirds of it.
\<close>

lemma Percent_back:
  "Percent (st\<lparr>g_nState := ST_FILLA, g_dwWords := 6291456, g_dwPos := 4718592\<rparr>) <
   Percent (st\<lparr>g_nState := ST_FILLA, g_dwWords := 6291456, g_dwPos := 4194304\<rparr>)"
  by (simp add: Percent_def phase_no_def)

end
