(* ===== verification/Dcwnet.thy ===== *)
theory Dcwnet
  imports Dcwin NetDns
begin

text \<open>
  The network client, \<open>shell/dcwnet.c\<close>, first part: its state, the log, and the download
  into memory (the growing buffer, the header parser, the poll of each frame). The second
  part, dialling, the reachability test, the screen and the loop, is in \<open>Netdiag\<close>.

  The system is a parameter: \<open>net\<close> is the record of the calls the client makes to Winsock,
  RAS, the registry, the heap and the clock, over a state of its own. Sockets, connections
  and heap blocks the client has open are listed in its state; a socket or a connection is
  the handle the system gave. Byte counts are natural numbers, reduced to 32 bits where the
  code adds to a \<open>DWORD\<close> without a bound; times and rates are words. The log is the list of
  the \<open>g_nLog\<close> entries in use. A \<open>wsprintfW\<close> into an array that is too short, and an access
  outside the buffer, is \<open>None\<close>.
\<close>

section \<open>The system\<close>

datatype recvd = Bytes "byte list" | WouldBlock | RecvErr

datatype connres = ConnOk | ConnPending | ConnErr

record 'w net =
  n_tick :: "'w \<Rightarrow> u32 \<times> 'w"
  n_alloc :: "nat \<Rightarrow> 'w \<Rightarrow> bool \<times> 'w"
  n_inet_addr :: "byte list \<Rightarrow> u32"
  n_gethostbyname :: "byte list \<Rightarrow> 'w \<Rightarrow> u32 option \<times> 'w"
  n_socket :: "'w \<Rightarrow> u32 \<times> 'w"
  n_connect :: "u32 \<Rightarrow> u32 \<Rightarrow> 'w \<Rightarrow> connres \<times> 'w"
  n_writable :: "u32 \<Rightarrow> 'w \<Rightarrow> bool \<times> 'w"
  n_readable :: "u32 \<Rightarrow> 'w \<Rightarrow> bool \<times> 'w"
  n_send :: "u32 \<Rightarrow> byte list \<Rightarrow> 'w \<Rightarrow> 'w"
  n_recv :: "u32 \<Rightarrow> 'w \<Rightarrow> recvd \<times> 'w"
  n_getsockname :: "u32 \<Rightarrow> 'w \<Rightarrow> u32 option \<times> 'w"
  n_dns :: "'w \<Rightarrow> u32 list option"
  n_ras_entry :: "'w \<Rightarrow> 'w"
  n_ras_dial :: "'w \<Rightarrow> (u32 \<times> u32) \<times> 'w"
  n_ras_status :: "u32 \<Rightarrow> 'w \<Rightarrow> (bool \<times> u32) \<times> 'w"
  n_ras_hangup :: "u32 \<Rightarrow> 'w \<Rightarrow> 'w"

definition INVALID_SOCKET :: u32 where "INVALID_SOCKET = 0xFFFFFFFF"
definition INADDR_NONE :: u32 where "INADDR_NONE = 0xFFFFFFFF"

section \<open>State\<close>

datatype conn = CN_IDLE | CN_DIALING | CN_UP | CN_FAILED

datatype dlstate = DL_IDLE | DL_ACTIVE | DL_DONE | DL_FAIL

datatype logcol = C_OK | C_FAIL | C_INFO | C_MUTE

record 'w netd =
  sys :: 'w
  nd_socks :: "u32 list"
  nd_conns :: "u32 list"
  nd_blocks :: nat
  g_pszTarget :: "wchar list"
  g_nConn :: conn
  g_hConn :: u32
  g_dwDialStart :: u32
  g_pszIpStr :: "wchar list"
  g_pszDnsStr :: "wchar list"
  g_aLog :: "(logcol \<times> wchar list) list"
  g_nDl :: dlstate
  g_sockDl :: u32
  g_pbDlBuf :: "byte list option"
  g_dwDlCap :: nat
  g_dwDlStored :: nat
  g_dwDlRaw :: nat
  g_bDlHdrDone :: bool
  g_dwDlBodyOff :: nat
  g_dwDlTotal :: nat
  g_dwDlLastData :: u32
  g_dwDlStart :: u32
  g_dwDlEnd :: u32
  g_nHotR :: int
  g_nHotC :: int
  g_nHotBtn :: int

definition nd0 :: "'w \<Rightarrow> 'w netd" where
  "nd0 w = \<lparr>sys = w, nd_socks = [], nd_conns = [], nd_blocks = 0,
     g_pszTarget = ws ''speedtest.tele2.net/1MB.zip'', g_nConn = CN_IDLE, g_hConn = 0, g_dwDialStart = 0,
     g_pszIpStr = ws ''-'', g_pszDnsStr = ws ''-'', g_aLog = [], g_nDl = DL_IDLE, g_sockDl = INVALID_SOCKET,
     g_pbDlBuf = None, g_dwDlCap = 0, g_dwDlStored = 0, g_dwDlRaw = 0, g_bDlHdrDone = False, g_dwDlBodyOff = 0,
     g_dwDlTotal = 0, g_dwDlLastData = 0, g_dwDlStart = 0, g_dwDlEnd = 0, g_nHotR = - 1, g_nHotC = - 1, g_nHotBtn = - 1\<rparr>"

definition DL_INIT :: nat where "DL_INIT = 65536"
definition DL_MAX :: nat where "DL_MAX = 4194304"

section \<open>Calls\<close>

definition GetTickCount :: "'w net \<Rightarrow> 'w netd \<Rightarrow> u32 \<times> 'w netd" where
  "GetTickCount N st = (let (t, w) = n_tick N (sys st) in (t, st\<lparr>sys := w\<rparr>))"

definition LocalAlloc :: "'w net \<Rightarrow> nat \<Rightarrow> 'w netd \<Rightarrow> bool \<times> 'w netd" where
  "LocalAlloc N n st =
     (let (r, w) = n_alloc N n (sys st)
      in (r, st\<lparr>sys := w, nd_blocks := nd_blocks st + (if r then 1 else 0)\<rparr>))"

definition LocalFree :: "'w netd \<Rightarrow> 'w netd" where
  "LocalFree st = st\<lparr>nd_blocks := nd_blocks st - 1\<rparr>"

definition open_socket :: "'w net \<Rightarrow> 'w netd \<Rightarrow> u32 \<times> 'w netd" where
  "open_socket N st =
     (let (s, w) = n_socket N (sys st)
      in (s, st\<lparr>sys := w, nd_socks := (if s = INVALID_SOCKET then nd_socks st else s # nd_socks st)\<rparr>))"

definition closesocket :: "u32 \<Rightarrow> 'w netd \<Rightarrow> 'w netd" where
  "closesocket s st = st\<lparr>nd_socks := remove1 s (nd_socks st)\<rparr>"

text \<open>At most \<open>n\<close> of the bytes that wait.\<close>

definition recv :: "'w net \<Rightarrow> u32 \<Rightarrow> nat \<Rightarrow> 'w netd \<Rightarrow> recvd \<times> 'w netd" where
  "recv N s n st =
     (let (r, w) = n_recv N s (sys st)
      in (case r of Bytes d \<Rightarrow> Bytes (take n d) | _ \<Rightarrow> r, st\<lparr>sys := w\<rparr>))"

definition wsprintf :: "nat \<Rightarrow> wchar list \<Rightarrow> wchar list option" where
  "wsprintf n s = (if length s < n then Some s else None)"

abbreviation udec :: "u32 \<Rightarrow> wchar list" where "udec v \<equiv> dec (unat v)"

section \<open>The log\<close>

definition LogC :: "logcol \<Rightarrow> wchar list \<Rightarrow> 'w netd \<Rightarrow> 'w netd" where
  "LogC c psz st =
     (let l = (if length (g_aLog st) \<ge> 7 then tl (take 7 (g_aLog st)) else g_aLog st)
      in st\<lparr>g_aLog := l @ [(c, take 56 (cstr psz))]\<rparr>)"

definition LogF :: "logcol \<Rightarrow> wchar list \<Rightarrow> nat \<Rightarrow> wchar list \<Rightarrow> 'w netd \<Rightarrow> 'w netd option" where
  "LogF c a n b st = do { s \<leftarrow> wsprintf 58 (a @ dec n @ b); Some (LogC c s st) }"

section \<open>The download buffer\<close>

definition DownloadFree :: "'w netd \<Rightarrow> 'w netd" where
  "DownloadFree st =
     (let st = (if g_sockDl st \<noteq> INVALID_SOCKET
                then (closesocket (g_sockDl st) st)\<lparr>g_sockDl := INVALID_SOCKET\<rparr> else st);
          st = (if g_pbDlBuf st \<noteq> None then (LocalFree st)\<lparr>g_pbDlBuf := None\<rparr> else st)
      in st\<lparr>g_dwDlCap := 0, g_dwDlStored := 0, g_dwDlRaw := 0, g_dwDlBodyOff := 0, g_dwDlTotal := 0,
            g_dwDlStart := 0, g_dwDlEnd := 0, g_bDlHdrDone := False\<rparr>)"

definition DownloadBody :: "'w netd \<Rightarrow> nat" where
  "DownloadBody st =
     (if g_dwDlRaw st \<ge> g_dwDlBodyOff st then g_dwDlRaw st - g_dwDlBodyOff st else 0)"

text \<open>The blank line at \<open>i\<close>, with the short-circuit of the condition.\<close>

primrec bytes_at :: "byte list \<Rightarrow> nat \<Rightarrow> byte list \<Rightarrow> bool option" where
  "bytes_at m i [] = Some True"
| "bytes_at m i (x # xs) =
     do { b \<leftarrow> rd8 m i; if b \<noteq> x then Some False else bytes_at m (i + 1) xs }"

primrec hdr_end :: "byte list \<Rightarrow> nat \<Rightarrow> nat \<Rightarrow> nat option option" where
  "hdr_end m 0 i = Some None"
| "hdr_end m (Suc n) i =
     do { b \<leftarrow> bytes_at m i [0x0D, 0x0A, 0x0D, 0x0A];
          if b then Some (Some (i + 4)) else hdr_end m n (i + 1) }"

definition szCl :: "byte list" where "szCl = map of_char ''content-length:''"

definition lower :: "byte \<Rightarrow> byte" where
  "lower ch = (if ch \<ge> 0x41 \<and> ch \<le> 0x5A then ch + 32 else ch)"

primrec name_at :: "byte list \<Rightarrow> nat \<Rightarrow> byte list \<Rightarrow> bool option" where
  "name_at m i [] = Some True"
| "name_at m i (x # xs) =
     do { ch \<leftarrow> rd8 m i; if lower ch \<noteq> x then Some False else name_at m (i + 1) xs }"

primrec cl_find :: "byte list \<Rightarrow> nat \<Rightarrow> nat \<Rightarrow> nat option option" where
  "cl_find m 0 i = Some None"
| "cl_find m (Suc n) i =
     do { b \<leftarrow> name_at m i szCl; if b then Some (Some (i + 15)) else cl_find m n (i + 1) }"

primrec skip_blanks :: "byte list \<Rightarrow> nat \<Rightarrow> nat \<Rightarrow> nat option" where
  "skip_blanks m 0 k = Some k"
| "skip_blanks m (Suc n) k =
     do { b \<leftarrow> rd8 m k; if b = 0x20 \<or> b = 0x09 then skip_blanks m n (k + 1) else Some k }"

primrec cl_digits :: "byte list \<Rightarrow> nat \<Rightarrow> nat \<Rightarrow> nat \<Rightarrow> nat option" where
  "cl_digits m 0 k v = Some v"
| "cl_digits m (Suc n) k v =
     do { b \<leftarrow> rd8 m k;
          if b \<ge> 0x30 \<and> b \<le> 0x39 then cl_digits m n (k + 1) ((v * 10 + unat (b - 0x30)) mod 2 ^ 32)
          else Some v }"

text \<open>\<open>Content-Length\<close> in the first \<open>off\<close> bytes; \<open>v\<close> is the value kept when there is none.\<close>

definition cl_scan :: "byte list \<Rightarrow> nat \<Rightarrow> nat \<Rightarrow> nat option" where
  "cl_scan m off v = do {
     c \<leftarrow> cl_find m (off - 16) 0;
     case c of
       None \<Rightarrow> Some v
     | Some k \<Rightarrow> do { k \<leftarrow> skip_blanks m (off - k) k; cl_digits m (off - k) k 0 } }"

definition DownloadParseHeaders :: "'w netd \<Rightarrow> 'w netd option" where
  "DownloadParseHeaders st =
     (if g_bDlHdrDone st \<or> g_dwDlStored st < 4 then Some st
      else case g_pbDlBuf st of
        None \<Rightarrow> None
      | Some m \<Rightarrow> do {
          r \<leftarrow> hdr_end m (g_dwDlStored st - 3) 0;
          case r of
            None \<Rightarrow> Some st
          | Some off \<Rightarrow> do {
              v \<leftarrow> cl_scan m off (g_dwDlTotal st);
              Some (st\<lparr>g_dwDlBodyOff := off, g_bDlHdrDone := True, g_dwDlTotal := v\<rparr>) } })"

text \<open>\<open>while (dwNewCap < dwNeed) dwNewCap *= 2\<close>\<close>

partial_function (option) grow :: "nat \<Rightarrow> nat \<Rightarrow> nat option" where
  "grow dwNeed c = (if c < dwNeed then grow dwNeed (2 * c) else Some c)"

definition dl_reserve :: "'w net \<Rightarrow> nat \<Rightarrow> 'w netd \<Rightarrow> 'w netd option" where
  "dl_reserve N dwNeed st =
     (if dwNeed > g_dwDlCap st
      then do {
        c \<leftarrow> grow dwNeed (if g_dwDlCap st \<noteq> 0 then g_dwDlCap st else DL_INIT);
        let c = (if c > DL_MAX then DL_MAX else c);
        let (r, st) = LocalAlloc N c st;
        if r
        then do {
          st \<leftarrow> (case g_pbDlBuf st of
               None \<Rightarrow> Some (st\<lparr>g_pbDlBuf := Some (replicate c 0)\<rparr>)
             | Some old \<Rightarrow> do {
                 xs \<leftarrow> rd_block old 0 (g_dwDlStored st);
                 m \<leftarrow> wr_block (replicate c 0) 0 xs;
                 Some ((LocalFree st)\<lparr>g_pbDlBuf := Some m\<rparr>) });
          Some (st\<lparr>g_dwDlCap := c\<rparr>) }
        else Some st }
      else Some st)"

definition dl_copy :: "byte list \<Rightarrow> 'w netd \<Rightarrow> 'w netd option" where
  "dl_copy pData st =
     (case g_pbDlBuf st of
        None \<Rightarrow> Some st
      | Some m \<Rightarrow>
          let dwRoom = (if g_dwDlCap st > g_dwDlStored st then g_dwDlCap st - g_dwDlStored st else 0);
              dwCpy = (if length pData < dwRoom then length pData else dwRoom)
          in do {
            m \<leftarrow> wr_block m (g_dwDlStored st) (take dwCpy pData);
            Some (st\<lparr>g_pbDlBuf := Some m, g_dwDlStored := g_dwDlStored st + dwCpy\<rparr>) })"

definition DownloadAppend :: "'w net \<Rightarrow> byte list \<Rightarrow> 'w netd \<Rightarrow> 'w netd option" where
  "DownloadAppend N pData st = do {
     let st = st\<lparr>g_dwDlRaw := (g_dwDlRaw st + length pData) mod 2 ^ 32\<rparr>;
     st \<leftarrow> (if g_dwDlStored st < DL_MAX
          then let dwNeed = g_dwDlStored st + length pData;
                   dwNeed = (if dwNeed > DL_MAX then DL_MAX else dwNeed)
               in dl_reserve N dwNeed st \<bind> dl_copy pData
          else Some st);
     if \<not> g_bDlHdrDone st then DownloadParseHeaders st else Some st }"

section \<open>Rates\<close>

definition SpeedStr :: "u32 \<Rightarrow> wchar list option" where
  "SpeedStr dwKbps =
     (if dwKbps \<ge> 1024
      then let dwM10 = dwKbps * 10 div 1024
           in wsprintf 24 (udec (dwM10 div 10) @ ws ''.'' @ udec (dwM10 mod 10) @ ws '' MB/s'')
      else wsprintf 24 (udec dwKbps @ ws '' KB/s''))"

definition DownloadKbps :: "'w net \<Rightarrow> nat \<Rightarrow> 'w netd \<Rightarrow> u32 \<times> 'w netd" where
  "DownloadKbps N dwBody st =
     (let (dwEl, st) = (if g_nDl st = DL_ACTIVE
                        then let (t, st) = GetTickCount N st in (t - g_dwDlStart st, st)
                        else (if g_dwDlEnd st \<ge> g_dwDlStart st then g_dwDlEnd st - g_dwDlStart st else 0, st))
      in (if dwEl \<noteq> 0 then (word_of_nat dwBody div 1024) * 1000 div dwEl else 0, st))"

section \<open>The end and the progress of a download\<close>

definition close_dl :: "'w netd \<Rightarrow> 'w netd" where
  "close_dl st = (if g_sockDl st \<noteq> INVALID_SOCKET
     then (closesocket (g_sockDl st) st)\<lparr>g_sockDl := INVALID_SOCKET\<rparr> else st)"

definition dl_verdict :: "nat \<Rightarrow> 'w netd \<Rightarrow> 'w netd option" where
  "dl_verdict dwBody st =
     (if g_dwDlTotal st \<noteq> 0
      then if dwBody = g_dwDlTotal st
           then do { s \<leftarrow> wsprintf 58 (ws ''COMPLETE: all '' @ dec (g_dwDlTotal st) @ ws '' bytes'');
                     Some (LogC C_OK s st) }
           else do { s \<leftarrow> wsprintf 58 (ws ''INCOMPLETE '' @ dec dwBody @ ws '' / '' @ dec (g_dwDlTotal st)
                             @ ws '' bytes'');
                     Some (LogC C_FAIL s st) }
      else Some (LogC C_OK (ws ''done (server sent no Content-Length)'') st))"

definition dl_speed :: "'w net \<Rightarrow> nat \<Rightarrow> 'w netd \<Rightarrow> 'w netd option" where
  "dl_speed N dwBody st = do {
     let dwEl = (if g_dwDlEnd st \<ge> g_dwDlStart st then g_dwDlEnd st - g_dwDlStart st else 0);
     let (dwKbps, st) = DownloadKbps N dwBody st;
     sp \<leftarrow> SpeedStr dwKbps;
     s \<leftarrow> wsprintf 58 (udec (dwEl div 1000) @ ws ''.'' @ udec (dwEl mod 1000 div 100) @ ws ''s  avg '' @ sp);
     Some (LogC C_INFO s st) }"

definition dl_buffered :: "'w netd \<Rightarrow> 'w netd option" where
  "dl_buffered st =
     (if g_dwDlRaw st > g_dwDlStored st
      then LogF C_MUTE (ws ''(buffered first '') (g_dwDlStored st) (ws '' in RAM)'') st
      else Some st)"

definition DownloadFinish :: "'w net \<Rightarrow> 'w netd \<Rightarrow> 'w netd option" where
  "DownloadFinish N st = do {
     let dwBody = DownloadBody st;
     let st = close_dl st;
     let (t, st) = GetTickCount N st;
     let st = st\<lparr>g_dwDlEnd := t, g_nDl := DL_DONE\<rparr>;
     st \<leftarrow> LogF C_INFO (ws ''received '') dwBody (ws '' body bytes'') st;
     st \<leftarrow> dl_speed N dwBody st;
     st \<leftarrow> dl_verdict dwBody st;
     dl_buffered st }"

definition dl_fail :: "'w net \<Rightarrow> wchar list \<Rightarrow> 'w netd \<Rightarrow> 'w netd" where
  "dl_fail N msg st =
     (let (t, st) = GetTickCount N ((LogC C_FAIL msg st)\<lparr>g_nDl := DL_FAIL\<rparr>)
      in st\<lparr>g_dwDlEnd := t\<rparr>)"

lemma budget_less: "d \<noteq> [] \<Longrightarrow> \<not> 262144 \<le> b + length d \<Longrightarrow> 262144 - (b + length d) < 262144 - (b :: nat)"
  by (cases d) simp_all

text \<open>
  The drain of a frame. The result says whether the function returned from inside the loop;
  each pass that goes on has taken at least one byte of the budget.
\<close>

function dl_drain :: "'w net \<Rightarrow> nat \<Rightarrow> 'w netd \<Rightarrow> (bool \<times> 'w netd) option" where
  "dl_drain N dwBudget st =
     (case recv N (g_sockDl st) 8192 st of (r, st) \<Rightarrow>
      case r of
        WouldBlock \<Rightarrow> Some (False, st)
      | RecvErr \<Rightarrow>
          let st = dl_fail N (ws ''recv error'') st
          in Some (True, (closesocket (g_sockDl st) st)\<lparr>g_sockDl := INVALID_SOCKET\<rparr>)
      | Bytes d \<Rightarrow>
          if d = [] then map_option (Pair True) (DownloadFinish N st)
          else case DownloadAppend N d st of
            None \<Rightarrow> None
          | Some st \<Rightarrow> case GetTickCount N st of (t, st) \<Rightarrow>
              let st = st\<lparr>g_dwDlLastData := t\<rparr>
              in if g_dwDlTotal st \<noteq> 0 \<and> DownloadBody st \<ge> g_dwDlTotal st
                 then map_option (Pair True) (DownloadFinish N st)
                 else if dwBudget + length d \<ge> 262144 then Some (False, st)
                 else dl_drain N (dwBudget + length d) st)"
  by pat_completeness auto

termination
  by (relation "measure (\<lambda>(N, b, st). 262144 - b)") (auto intro: budget_less)

declare dl_drain.simps [simp del]

definition PollDownload :: "'w net \<Rightarrow> 'w netd \<Rightarrow> (bool \<times> 'w netd) option" where
  "PollDownload N st =
     (if g_nDl st \<noteq> DL_ACTIVE then Some (False, st)
      else do {
        (r, st) \<leftarrow> dl_drain N 0 st;
        if r then Some (True, st)
        else let (t, st) = GetTickCount N st
             in if t - g_dwDlLastData st > 15000
                then Some (True, close_dl (dl_fail N (ws ''download stalled (15s)'') st))
                else Some (True, st) })"

section \<open>The reference parser\<close>

text \<open>What the header of a response says, on the response as a list.\<close>

definition crlf2 :: "byte list" where "crlf2 = [0x0D, 0x0A, 0x0D, 0x0A]"

definition header_end :: "byte list \<Rightarrow> nat option" where
  "header_end s = map_option (\<lambda>i. i + 4) (List.find (\<lambda>i. take 4 (drop i s) = crlf2) [0 ..< length s - 3])"

definition digit_val :: "byte list \<Rightarrow> nat" where
  "digit_val ds = fold (\<lambda>d v. v * 10 + unat (d - 0x30)) ds 0"

definition content_length :: "byte list \<Rightarrow> nat" where
  "content_length h =
     (case List.find (\<lambda>i. map lower (take 15 (drop i h)) = szCl) [0 ..< length h - 16] of
        None \<Rightarrow> 0
      | Some i \<Rightarrow> digit_val (takeWhile (\<lambda>b. b \<ge> 0x30 \<and> b \<le> 0x39)
                    (dropWhile (\<lambda>b. b = 0x20 \<or> b = 0x09) (drop (i + 15) h))) mod 2 ^ 32)"

definition parse_response :: "byte list \<Rightarrow> bool \<times> nat \<times> nat" where
  "parse_response s =
     (case header_end s of None \<Rightarrow> (False, 0, 0) | Some off \<Rightarrow> (True, off, content_length (take off s)))"

section \<open>The scans compute the reference\<close>

lemma bytes_at_eq:
  "i + length xs \<le> length m \<Longrightarrow> bytes_at m i xs = Some (take (length xs) (drop i m) = xs)"
proof (induction xs arbitrary: i)
  case (Cons x xs)
  then have "drop i m = m ! i # drop (i + 1) m" by (simp add: Cons_nth_drop_Suc)
  with Cons show ?case by simp
qed simp

lemma name_at_eq:
  "i + length xs \<le> length m \<Longrightarrow> name_at m i xs = Some (map lower (take (length xs) (drop i m)) = xs)"
proof (induction xs arbitrary: i)
  case (Cons x xs)
  then have "drop i m = m ! i # drop (i + 1) m" by (simp add: Cons_nth_drop_Suc)
  with Cons show ?case by simp
qed simp

lemma find_upt:
  "List.find P [i ..< Suc (i + n)] = (if P i then Some i else List.find P [Suc i ..< Suc (i + n)])"
  by (simp add: upt_conv_Cons del: upt_Suc)

lemma length_crlf2 [simp]: "length crlf2 = 4"
  by (simp add: crlf2_def)

lemma hdr_end_eq:
  "i + n + 3 \<le> length m \<Longrightarrow>
   hdr_end m n i = Some (map_option (\<lambda>i. i + 4) (List.find (\<lambda>i. take 4 (drop i m) = crlf2) [i ..< i + n]))"
proof (induction n arbitrary: i)
  case (Suc n)
  have "bytes_at m i crlf2 = Some (take 4 (drop i m) = crlf2)"
    using bytes_at_eq [of i crlf2 m] Suc.prems by simp
  then show ?case using Suc.IH [of "i + 1"] Suc.prems
    by (simp add: find_upt crlf2_def [symmetric] del: upt_Suc)
qed simp

lemma length_szCl [simp]: "length szCl = 15"
  by (simp add: szCl_def)

lemma cl_find_eq:
  "(n \<noteq> 0 \<Longrightarrow> i + n + 14 \<le> length m) \<Longrightarrow>
   cl_find m n i = Some (map_option (\<lambda>i. i + 15) (List.find (\<lambda>i. map lower (take 15 (drop i m)) = szCl) [i ..< i + n]))"
proof (induction n arbitrary: i)
  case (Suc n)
  have "name_at m i szCl = Some (map lower (take 15 (drop i m)) = szCl)"
    using name_at_eq [of i szCl m] Suc.prems by simp
  then show ?case using Suc.IH [of "i + 1"] Suc.prems by (simp add: find_upt del: upt_Suc)
qed simp

lemma drop_take_Suc: "k < length m \<Longrightarrow> take (Suc n) (drop k m) = m ! k # take n (drop (k + 1) m)"
  by (simp add: Cons_nth_drop_Suc [symmetric])

text \<open>The blanks and the digits, as the rest of the header seen from \<open>k\<close>.\<close>

lemma skip_blanks_eq:
  "k + n \<le> length m \<Longrightarrow> skip_blanks m n k =
     Some (k + length (takeWhile (\<lambda>b. b = 0x20 \<or> b = 0x09) (take n (drop k m))))"
proof (induction n arbitrary: k)
  case (Suc n)
  then show ?case by (simp add: drop_take_Suc)
qed simp

lemma fold_digits_mod:
  "fold (\<lambda>d v. v * 10 + unat (d - 0x30 :: byte)) ds (v mod M) mod M = fold (\<lambda>d v. v * 10 + unat (d - 0x30)) ds v mod M"
proof (induction ds arbitrary: v)
  case (Cons d ds)
  have "fold (\<lambda>d v. v * 10 + unat (d - 0x30)) ds (v mod M * 10 + unat (d - 0x30)) mod M =
      fold (\<lambda>d v. v * 10 + unat (d - 0x30)) ds ((v mod M * 10 + unat (d - 0x30)) mod M) mod M"
    by (rule Cons.IH [symmetric])
  also have "(v mod M * 10 + unat (d - 0x30)) mod M = (v * 10 + unat (d - 0x30)) mod M" by (metis mod_add_left_eq mod_mult_left_eq)
  finally show ?case using Cons.IH [of "v * 10 + unat (d - 0x30)"] by simp
qed simp

lemma cl_digits_eq:
  "k + n \<le> length m \<Longrightarrow> v < 2 ^ 32 \<Longrightarrow> cl_digits m n k v =
     Some (fold (\<lambda>d v. v * 10 + unat (d - 0x30)) (takeWhile (\<lambda>b. b \<ge> 0x30 \<and> b \<le> 0x39) (take n (drop k m))) v mod 2 ^ 32)"
proof (induction n arbitrary: k v)
  case (Suc n)
  then show ?case by (simp add: drop_take_Suc fold_digits_mod)
qed simp


lemma number_eq:
  assumes "k \<le> off" and "off \<le> length m"
  shows "(skip_blanks m (off - k) k \<bind> (\<lambda>k. cl_digits m (off - k) k 0)) =
    Some (digit_val (takeWhile (\<lambda>b. b \<ge> 0x30 \<and> b \<le> 0x39)
      (dropWhile (\<lambda>b. b = 0x20 \<or> b = 0x09) (drop k (take off m)))) mod 2 ^ 32)"
proof -
  let ?h = "take (off - k) (drop k m)" and ?b = "\<lambda>b. b = 0x20 \<or> b = (0x09 :: byte)"
  define l where "l = length (takeWhile ?b ?h)"
  have l: "l \<le> off - k" using length_takeWhile_le [of ?b ?h] unfolding l_def by simp
  have "drop k (take off m) = ?h" by (simp add: drop_take)
  then have "dropWhile ?b (drop k (take off m)) = drop l ?h"
    by (simp only: l_def dropWhile_eq_drop)
  also have "\<dots> = take (off - (k + l)) (drop (k + l) m)"
    by (simp add: drop_take add.commute)
  finally have d: "dropWhile ?b (drop k (take off m)) = take (off - (k + l)) (drop (k + l) m)" .
  have s: "skip_blanks m (off - k) k = Some (k + l)"
    using skip_blanks_eq [of k "off - k" m] assms unfolding l_def by simp
  have "cl_digits m (off - (k + l)) (k + l) 0 =
      Some (digit_val (takeWhile (\<lambda>b. b \<ge> 0x30 \<and> b \<le> 0x39) (take (off - (k + l)) (drop (k + l) m))) mod 2 ^ 32)"
    using cl_digits_eq [of "k + l" "off - (k + l)" m 0] assms l unfolding digit_val_def by simp
  with s d show ?thesis by simp
qed

lemma find_cong: "(\<And>x. x \<in> set xs \<Longrightarrow> P x = Q x) \<Longrightarrow> List.find P xs = List.find Q xs"
  by (induction xs) auto

lemma find_append: "List.find P (xs @ ys) = (case List.find P xs of None \<Rightarrow> List.find P ys | Some x \<Rightarrow> Some x)"
  by (induction xs) simp_all

lemma find_lt: "List.find P [0 ..< n] = Some i \<Longrightarrow> i < n"
  by (auto simp: find_Some_iff)

lemma length_parse:
  assumes "off \<le> length m"
  shows "cl_scan m off 0 = Some (content_length (take off m))"
proof -
  let ?f = "List.find (\<lambda>i. map lower (take 15 (drop i m)) = szCl) [0 ..< off - 16]"
  have c: "cl_find m (off - 16) 0 = Some (map_option (\<lambda>i. i + 15) ?f)"
    using cl_find_eq [where n = "off - 16" and i = 0 and m = m] assms by simp
  have e: "List.find (\<lambda>i. map lower (take 15 (drop i (take off m))) = szCl) [0 ..< length (take off m) - 16] = ?f"
    using assms by (auto intro!: find_cong simp: drop_take min_def)
  show ?thesis
  proof (cases ?f)
    case None
    then show ?thesis unfolding cl_scan_def c content_length_def e by simp
  next
    case (Some i)
    then have "i + 15 \<le> off" using find_lt [OF Some] by simp
    from number_eq [OF this assms] show ?thesis unfolding cl_scan_def c content_length_def e Some by simp
  qed
qed

lemma header_end_prefix:
  assumes "n \<le> length m"
  shows "header_end (take n m) = map_option (\<lambda>i. i + 4) (List.find (\<lambda>i. take 4 (drop i m) = crlf2) [0 ..< n - 3])"
proof -
  have "List.find (\<lambda>i. take 4 (drop i (take n m)) = crlf2) [0 ..< n - 3] =
      List.find (\<lambda>i. take 4 (drop i m) = crlf2) [0 ..< n - 3]"
    by (rule find_cong) (auto simp: drop_take min_def)
  then show ?thesis using assms by (simp add: header_end_def min_absorb2)
qed

lemma header_end_range: "header_end s = Some off \<Longrightarrow> 4 \<le> off \<and> off \<le> length s"
  by (auto simp: header_end_def dest!: find_lt)

text \<open>Bytes that come after the header change nothing.\<close>

lemma header_end_append:
  assumes "header_end s = Some off"
  shows "header_end (s @ t) = Some off"
proof -
  let ?f = "List.find (\<lambda>i. take 4 (drop i (s @ t)) = crlf2)"
  have p: "take (length s) (s @ t) = s" by simp
  have "map_option (\<lambda>i. i + 4) (?f [0 ..< length s - 3]) = Some off"
    using assms header_end_prefix [of "length s" "s @ t", unfolded p] by (simp del: drop_append take_append)
  then obtain i where i: "?f [0 ..< length s - 3] = Some i" and o: "off = i + 4"
    by (auto simp del: drop_append take_append)
  have "length (s @ t) - 3 = length s - 3 + length t" using find_lt [OF i] by simp
  then have "[0 ..< length (s @ t) - 3] = [0 ..< length s - 3] @ [length s - 3 ..< length s - 3 + length t]"
    using upt_add_eq_append [OF le0, of "length s - 3" "length t"] by (simp only:)
  with i show ?thesis unfolding header_end_def by (simp add: find_append o del: drop_append take_append)
qed

lemma parse_response_append:
  "fst (parse_response s) \<Longrightarrow> parse_response (s @ t) = parse_response s"
  using header_end_range [of s] header_end_append [of s _ t]
  by (auto simp: parse_response_def split: option.splits)

definition dl_parsed :: "bool \<times> nat \<times> nat \<Rightarrow> 'w netd \<Rightarrow> 'w netd" where
  "dl_parsed r st = (case r of (d, off, t) \<Rightarrow> st\<lparr>g_dwDlBodyOff := off, g_bDlHdrDone := d, g_dwDlTotal := t\<rparr>)"

lemma ParseHeaders_eq:
  assumes "\<not> g_bDlHdrDone st" and "g_dwDlBodyOff st = 0" and "g_dwDlTotal st = 0"
    and "g_pbDlBuf st = Some m" and "g_dwDlStored st \<le> length m"
  shows "DownloadParseHeaders st = Some (dl_parsed (parse_response (take (g_dwDlStored st) m)) st)"
proof (cases "g_dwDlStored st < 4")
  case True
  then have "header_end (take (g_dwDlStored st) m) = None" using assms(5) by (simp add: header_end_def)
  then show ?thesis using True assms by (simp add: DownloadParseHeaders_def parse_response_def dl_parsed_def)
next
  case False
  let ?n = "g_dwDlStored st"
  have h: "hdr_end m (?n - 3) 0 = Some (header_end (take ?n m))"
    using hdr_end_eq [of 0 "?n - 3" m] header_end_prefix [OF assms(5)] False assms(5) by simp
  show ?thesis
  proof (cases "header_end (take ?n m)")
    case None
    then show ?thesis using False assms h by (simp add: DownloadParseHeaders_def parse_response_def dl_parsed_def)
  next
    case (Some off)
    from header_end_range [OF Some] have o: "off \<le> ?n" by simp
    then have "off \<le> length m" "take off (take ?n m) = take off m" using assms(5) by (simp_all add: min_absorb1)
    with length_parse [of off m] show ?thesis using False assms h Some
      by (simp add: DownloadParseHeaders_def parse_response_def dl_parsed_def)
  qed
qed

section \<open>The buffer holds a prefix of what came\<close>

text \<open>The buffer and its counters agree, and the client has at most this one block.\<close>

definition hdr :: "'w netd \<Rightarrow> bool \<times> nat \<times> nat" where
  "hdr st = (g_bDlHdrDone st, g_dwDlBodyOff st, g_dwDlTotal st)"

definition hdr_ok :: "bool \<times> nat \<times> nat \<Rightarrow> nat \<Rightarrow> bool" where
  "hdr_ok h n \<longleftrightarrow> (case h of (d, off, t) \<Rightarrow> (\<not> d \<longrightarrow> off = 0 \<and> t = 0) \<and> off \<le> n \<and> t < 2 ^ 32)"

definition dl_data :: "'w netd \<Rightarrow> byte list" where
  "dl_data st = (case g_pbDlBuf st of None \<Rightarrow> [] | Some m \<Rightarrow> take (g_dwDlStored st) m)"

definition dl_mem :: "'w netd \<Rightarrow> bool" where
  "dl_mem st \<longleftrightarrow>
     (case g_pbDlBuf st of
        None \<Rightarrow> g_dwDlCap st = 0 \<and> g_dwDlStored st = 0 \<and> nd_blocks st = 0
      | Some m \<Rightarrow> length m = g_dwDlCap st \<and> nd_blocks st = 1)
     \<and> g_dwDlStored st \<le> g_dwDlCap st \<and> g_dwDlCap st \<le> DL_MAX \<and> g_dwDlRaw st < 2 ^ 32
     \<and> hdr_ok (hdr st) (g_dwDlStored st)"

text \<open>What the download leaves alone.\<close>

definition nd_frame :: "'w netd \<Rightarrow> 'w netd \<Rightarrow> bool" where
  "nd_frame st t \<longleftrightarrow> nd_socks t = nd_socks st \<and> nd_conns t = nd_conns st \<and> g_pszTarget t = g_pszTarget st
     \<and> g_nConn t = g_nConn st \<and> g_hConn t = g_hConn st \<and> g_pszIpStr t = g_pszIpStr st
     \<and> g_pszDnsStr t = g_pszDnsStr st \<and> g_aLog t = g_aLog st \<and> g_nDl t = g_nDl st \<and> g_sockDl t = g_sockDl st"

lemma nd_frame_refl [simp]: "nd_frame st st"
  by (simp add: nd_frame_def)

lemma nd_frame_trans: "nd_frame a b \<Longrightarrow> nd_frame b c \<Longrightarrow> nd_frame a c"
  by (simp add: nd_frame_def)

definition allocs :: "'w net \<Rightarrow> bool" where "allocs N \<longleftrightarrow> (\<forall>n w. fst (n_alloc N n w))"

lemma dl_mem_length: "dl_mem st \<Longrightarrow> g_dwDlStored st = length (dl_data st)"
  by (auto simp: dl_mem_def dl_data_def split: option.splits)

lemma grow_ge: "0 < c \<Longrightarrow> \<exists>c'. grow need c = Some c' \<and> need \<le> c'"
proof (induction "need - c" arbitrary: c rule: less_induct)
  case less
  show ?case
  proof (cases "c < need")
    case True
    with less.hyps [of "2 * c"] less.prems show ?thesis by (subst grow.simps) simp
  next
    case False
    then show ?thesis by (subst grow.simps) simp
  qed
qed

definition dl_keep :: "'w netd \<Rightarrow> 'w netd \<Rightarrow> bool" where
  "dl_keep st t \<longleftrightarrow> nd_frame st t \<and> g_dwDlRaw t = g_dwDlRaw st \<and> hdr t = hdr st"

lemma dl_reserve_ok:
  assumes m: "dl_mem st" and n: "need \<le> DL_MAX"
  shows "ok (dl_reserve N need st) (\<lambda>t. dl_mem t \<and> dl_keep st t \<and> dl_data t = dl_data st \<and>
    (allocs N \<longrightarrow> need \<le> g_dwDlCap t))"
proof (cases "need > g_dwDlCap st")
  case False
  then show ?thesis using m by (simp add: dl_reserve_def dl_keep_def)
next
  case True
  have "0 < (if g_dwDlCap st \<noteq> 0 then g_dwDlCap st else DL_INIT)" by (simp add: DL_INIT_def)
  from grow_ge [OF this, of need] obtain c where g: "grow need (if g_dwDlCap st \<noteq> 0 then g_dwDlCap st else DL_INIT) = Some c" "need \<le> c"
    by blast
  define c' where "c' = (if c > DL_MAX then DL_MAX else c)"
  have c': "need \<le> c'" "c' \<le> DL_MAX" using g(2) n by (auto simp: c'_def)
  obtain r w where a: "n_alloc N c' (sys st) = (r, w)" by fastforce
  have ar: "allocs N \<Longrightarrow> r" using a unfolding allocs_def by (metis fst_conv)
  show ?thesis
  proof (cases "g_pbDlBuf st")
    case None
    then show ?thesis using m True g c' a ar
      by (auto simp: dl_reserve_def LocalAlloc_def c'_def [symmetric] dl_mem_def dl_keep_def dl_data_def hdr_def nd_frame_def)
  next
    case (Some old)
    have l: "g_dwDlStored st \<le> length old" "g_dwDlStored st \<le> c'" using m Some True c' by (auto simp: dl_mem_def)
    then show ?thesis using m True g c' a ar Some
      by (auto simp: dl_reserve_def LocalAlloc_def LocalFree_def c'_def [symmetric] dl_mem_def dl_keep_def dl_data_def
          hdr_def nd_frame_def min_absorb2)
  qed
qed

lemma dl_copy_ok:
  assumes m: "dl_mem st"
  shows "ok (dl_copy d st) (\<lambda>t. dl_mem t \<and> dl_keep st t \<and>
    dl_data t = dl_data st @ take (g_dwDlCap st - g_dwDlStored st) d)"
proof (cases "g_pbDlBuf st")
  case None
  moreover have "g_dwDlCap st = 0" using m None by (simp add: dl_mem_def)
  ultimately show ?thesis using m by (simp add: dl_copy_def dl_keep_def)
next
  case (Some b)
  define k where "k = min (length d) (g_dwDlCap st - g_dwDlStored st)"
  have b: "length b = g_dwDlCap st" "g_dwDlStored st \<le> g_dwDlCap st" using m Some by (simp_all add: dl_mem_def)
  have t: "take k d = take (g_dwDlCap st - g_dwDlStored st) d" "length (take k d) = k" "g_dwDlStored st + k \<le> length b"
    using b by (auto simp: k_def min_def)
  let ?b = "take (g_dwDlStored st) b @ take k d @ drop (g_dwDlStored st + k) b"
  have k: "(if length d < (if g_dwDlCap st > g_dwDlStored st then g_dwDlCap st - g_dwDlStored st else 0) then length d
      else if g_dwDlCap st > g_dwDlStored st then g_dwDlCap st - g_dwDlStored st else 0) = k"
    by (auto simp: k_def min_def)
  have e: "dl_copy d st = Some (st\<lparr>g_pbDlBuf := Some ?b, g_dwDlStored := g_dwDlStored st + k\<rparr>)"
    unfolding dl_copy_def Some option.case Let_def k using t(2,3) by simp
  have "take (g_dwDlStored st + k) ?b = take (g_dwDlStored st) b @ take k d" using t b by simp
  then show ?thesis unfolding e using m Some t b
    by (auto simp: dl_mem_def dl_keep_def nd_frame_def hdr_def dl_data_def hdr_ok_def)
qed

lemma content_length_less: "content_length h < 2 ^ 32"
  by (simp add: content_length_def split: option.split)

lemma parse_response_ok: "hdr_ok (parse_response s) (length s)"
  using header_end_range [of s] content_length_less
  by (auto simp: hdr_ok_def parse_response_def split: option.split)

lemma ParseHeaders_ok:
  assumes m: "dl_mem st" and h: "\<not> g_bDlHdrDone st"
  shows "ok (DownloadParseHeaders st) (\<lambda>t. dl_mem t \<and> nd_frame st t \<and> g_dwDlRaw t = g_dwDlRaw st \<and>
    dl_data t = dl_data st \<and> hdr t = parse_response (dl_data st))"
proof (cases "g_pbDlBuf st")
  case None
  then have "dl_data st = []" "g_dwDlStored st = 0" using m by (simp_all add: dl_data_def dl_mem_def)
  then show ?thesis using m h
    by (auto simp: DownloadParseHeaders_def parse_response_def header_end_def dl_mem_def hdr_def hdr_ok_def)
next
  case (Some b)
  have l: "g_dwDlStored st \<le> length b" "g_dwDlBodyOff st = 0" "g_dwDlTotal st = 0"
    using m h Some by (auto simp: dl_mem_def hdr_ok_def hdr_def)
  have d: "dl_data st = take (g_dwDlStored st) b" "length (dl_data st) = g_dwDlStored st"
    using Some l by (simp_all add: dl_data_def)
  obtain p where p: "parse_response (dl_data st) = p" by blast
  show ?thesis
    unfolding ParseHeaders_eq [OF h l(2,3) Some l(1)] d(1) [symmetric]
    using m Some p parse_response_ok [of "dl_data st"] d(2)
    by (cases p) (auto simp: dl_parsed_def dl_mem_def nd_frame_def hdr_def dl_data_def)
qed

lemma dl_mem_raw: "dl_mem st \<Longrightarrow> x < 2 ^ 32 \<Longrightarrow> dl_mem (st\<lparr>g_dwDlRaw := x\<rparr>)"
  by (cases "g_pbDlBuf st") (auto simp: dl_mem_def hdr_def)

text \<open>Appending a chunk. Without a failed allocation nothing below the cap is lost.\<close>

lemma Append_ok:
  assumes m: "dl_mem st"
  shows "ok (DownloadAppend N d st) (\<lambda>t. dl_mem t \<and> nd_frame st t \<and>
    g_dwDlRaw t = (g_dwDlRaw st + length d) mod 2 ^ 32 \<and>
    (allocs N \<longrightarrow> dl_data t = take DL_MAX (dl_data st @ d)) \<and>
    hdr t = (if g_bDlHdrDone st then hdr st else parse_response (dl_data t)))"
proof -
  define st1 where "st1 = st\<lparr>g_dwDlRaw := (g_dwDlRaw st + length d) mod 2 ^ 32\<rparr>"
  have m1: "dl_mem st1" unfolding st1_def by (rule dl_mem_raw [OF m]) simp
  have s1: "dl_data st1 = dl_data st" "g_dwDlStored st1 = g_dwDlStored st" "hdr st1 = hdr st"
    "g_dwDlRaw st1 = (g_dwDlRaw st + length d) mod 2 ^ 32" "nd_frame st st1"
    by (simp_all add: st1_def dl_data_def hdr_def nd_frame_def split: option.split)
  let ?need = "if g_dwDlStored st1 + length d > DL_MAX then DL_MAX else g_dwDlStored st1 + length d"
  let ?P = "\<lambda>t. dl_mem t \<and> dl_keep st1 t \<and> (allocs N \<longrightarrow> dl_data t = take DL_MAX (dl_data st1 @ d))"
  have "ok (if g_dwDlStored st1 < DL_MAX then dl_reserve N ?need st1 \<bind> dl_copy d else Some st1) ?P"
  proof (rule ok_if)
    show "ok (dl_reserve N ?need st1 \<bind> dl_copy d) ?P"
      unfolding ok_bind
    proof (rule ok_mono [OF dl_reserve_ok [OF m1]])
      fix t assume t: "dl_mem t \<and> dl_keep st1 t \<and> dl_data t = dl_data st1 \<and> (allocs N \<longrightarrow> ?need \<le> g_dwDlCap t)"
      have l: "g_dwDlStored t = length (dl_data st1)" "g_dwDlStored st1 = length (dl_data st1)" "g_dwDlCap t \<le> DL_MAX"
        using dl_mem_length [of t] dl_mem_length [OF m1] t by (auto simp: dl_mem_def)
      have "take (g_dwDlCap t - g_dwDlStored t) d = take (DL_MAX - length (dl_data st1)) d" if "?need \<le> g_dwDlCap t"
        using that l by (auto split: if_splits)
      then show "ok (dl_copy d t) ?P"
        using t l dl_mem_length [OF m1] m1
        by (intro ok_mono [OF dl_copy_ok]) (auto simp: dl_keep_def dl_mem_def intro: nd_frame_trans)
    qed simp
    assume "\<not> g_dwDlStored st1 < DL_MAX"
    then show "ok (Some st1) ?P" using m1 dl_mem_length [OF m1] by (auto simp: dl_keep_def dl_mem_def)
  qed
  then obtain t where t: "(if g_dwDlStored st1 < DL_MAX then dl_reserve N ?need st1 \<bind> dl_copy d else Some st1) = Some t"
    and p: "?P t" by (rule okE)
  have e: "DownloadAppend N d st = (if \<not> g_bDlHdrDone t then DownloadParseHeaders t else Some t)"
    unfolding DownloadAppend_def Let_def st1_def [symmetric] using t by simp
  have hd: "g_bDlHdrDone t = g_bDlHdrDone st" using p s1(3) by (simp add: dl_keep_def hdr_def)
  have f: "nd_frame st t" using p s1(5) by (auto simp: dl_keep_def intro: nd_frame_trans)
  show ?thesis
  proof (cases "g_bDlHdrDone st")
    case True
    then show ?thesis using e p hd s1 f by (auto simp: dl_keep_def)
  next
    case False
    then have "ok (DownloadParseHeaders t) (\<lambda>u. dl_mem u \<and> nd_frame t u \<and> g_dwDlRaw u = g_dwDlRaw t \<and>
      dl_data u = dl_data t \<and> hdr u = parse_response (dl_data t))" using p hd by (intro ParseHeaders_ok) auto
    with False hd e show ?thesis using p s1
      by (auto simp: dl_keep_def elim!: okE intro: nd_frame_trans [OF f])
  qed
qed

section \<open>The texts fit\<close>

lemma dec_digits: "n < 10 ^ Suc k \<Longrightarrow> length (dec n) \<le> Suc k"
proof (induction k arbitrary: n)
  case 0
  then show ?case by (subst dec.simps) simp
next
  case (Suc k)
  have "n div 10 < 10 ^ Suc k" using Suc.prems by (simp add: less_mult_imp_div_less)
  with Suc.IH show ?case by (subst dec.simps) simp
qed

lemma dec_small: "n < 2 ^ 32 \<Longrightarrow> length (dec n) \<le> 10"
  using dec_digits [of n 9] by simp

lemma dec_digit: "n < 10 \<Longrightarrow> length (dec n) = 1"
  by (subst dec.simps) simp

lemma dec_nonzero: "0 \<notin> set (dec n)"
proof (induction n rule: dec.induct)
  case (1 n)
  have d: "(0 :: wchar) \<noteq> word_of_nat (48 + d)" if "d < 10" for d
    using digit_char(1) [OF that] by auto
  show ?case
  proof (cases "n < 10")
    case True
    with d [OF True] show ?thesis by (subst dec.simps) simp
  next
    case False
    have "n mod 10 < 10" by simp
    from d [OF this] False 1 show ?thesis by (subst dec.simps) auto
  qed
qed

lemma udec_small: "length (udec v) \<le> 10"
  using dec_small [of "unat v"] unsigned_less [of v] by simp

lemma wsprintf_fits: "length s < n \<Longrightarrow> wsprintf n s = Some s"
  by (simp add: wsprintf_def)

lemma length_ws [simp]: "length (ws s) = length s"
  by (simp add: ws_def)

lemma SpeedStr_fits: "\<exists>s. SpeedStr k = Some s \<and> length s < 24"
proof -
  have "length (udec (x mod 10)) = 1" for x :: u32
    by (rule dec_digit) (simp add: unat_mod)
  then show ?thesis
    using udec_small [of "k * 10 div 1024 div 10"] udec_small [of k] by (simp add: SpeedStr_def Let_def wsprintf_def)
qed

lemma ok_LogF:
  "length a + length b \<le> 47 \<Longrightarrow> n < 2 ^ 32 \<Longrightarrow> P (LogC c (a @ dec n @ b) st) \<Longrightarrow> ok (LogF c a n b st) P"
  using dec_small [of n] by (simp add: LogF_def wsprintf_def)

lemma LogC_frame [simp]:
  "sys (LogC c s st) = sys st" "nd_socks (LogC c s st) = nd_socks st" "nd_conns (LogC c s st) = nd_conns st"
  "nd_blocks (LogC c s st) = nd_blocks st" "g_pszTarget (LogC c s st) = g_pszTarget st" "g_nConn (LogC c s st) = g_nConn st"
  "g_hConn (LogC c s st) = g_hConn st" "g_pszIpStr (LogC c s st) = g_pszIpStr st" "g_pszDnsStr (LogC c s st) = g_pszDnsStr st"
  "g_nDl (LogC c s st) = g_nDl st" "g_sockDl (LogC c s st) = g_sockDl st" "g_pbDlBuf (LogC c s st) = g_pbDlBuf st"
  "g_dwDlCap (LogC c s st) = g_dwDlCap st" "g_dwDlStored (LogC c s st) = g_dwDlStored st" "g_dwDlRaw (LogC c s st) = g_dwDlRaw st"
  "g_bDlHdrDone (LogC c s st) = g_bDlHdrDone st" "g_dwDlBodyOff (LogC c s st) = g_dwDlBodyOff st"
  "g_dwDlTotal (LogC c s st) = g_dwDlTotal st" "g_dwDlStart (LogC c s st) = g_dwDlStart st" "g_dwDlEnd (LogC c s st) = g_dwDlEnd st"
  by (simp_all add: LogC_def Let_def)

lemma cstr_id: "0 \<notin> set s \<Longrightarrow> cstr s = s"
  by (induction s) (auto simp: cstr_def)

lemma LogC_last: "0 \<notin> set s \<Longrightarrow> length s \<le> 56 \<Longrightarrow> last (g_aLog (LogC c s st)) = (c, s)"
  by (simp add: LogC_def Let_def cstr_id)

lemma LogC_log_ok: "length (g_aLog st) \<le> 7 \<Longrightarrow> length (g_aLog (LogC c s st)) \<le> 7"
  by (simp add: LogC_def Let_def)

section \<open>The end of a download\<close>

text \<open>The buffer is as it was; and so is the part of the client that dials.\<close>

definition dl_same :: "'w netd \<Rightarrow> 'w netd \<Rightarrow> bool" where
  "dl_same st t \<longleftrightarrow> g_pbDlBuf t = g_pbDlBuf st \<and> g_dwDlCap t = g_dwDlCap st \<and> g_dwDlStored t = g_dwDlStored st
     \<and> g_dwDlRaw t = g_dwDlRaw st \<and> hdr t = hdr st \<and> nd_blocks t = nd_blocks st"

definition ui_same :: "'w netd \<Rightarrow> 'w netd \<Rightarrow> bool" where
  "ui_same st t \<longleftrightarrow> nd_conns t = nd_conns st \<and> g_pszTarget t = g_pszTarget st \<and> g_nConn t = g_nConn st
     \<and> g_hConn t = g_hConn st \<and> g_pszIpStr t = g_pszIpStr st \<and> g_pszDnsStr t = g_pszDnsStr st"

lemma dl_sameD:
  assumes "dl_same st t"
  shows "dl_mem t = dl_mem st" and "dl_data t = dl_data st" and "hdr t = hdr st" and "DownloadBody t = DownloadBody st"
  using assms by (simp_all add: dl_same_def dl_mem_def dl_data_def hdr_def DownloadBody_def cong: option.case_cong)

lemma dl_same_refl [simp]: "dl_same st st" and ui_same_refl [simp]: "ui_same st st"
  by (simp_all add: dl_same_def ui_same_def)

definition dl_done :: "'w netd \<Rightarrow> 'w netd \<Rightarrow> bool" where
  "dl_done st t \<longleftrightarrow> dl_same st t \<and> ui_same st t \<and> g_sockDl t = INVALID_SOCKET
     \<and> nd_socks t = (if g_sockDl st \<noteq> INVALID_SOCKET then remove1 (g_sockDl st) (nd_socks st) else nd_socks st)"

lemma body_less: "dl_mem st \<Longrightarrow> DownloadBody st < 2 ^ 32"
  by (auto simp: dl_mem_def DownloadBody_def)

lemma total_less: "dl_mem st \<Longrightarrow> g_dwDlTotal st < 2 ^ 32"
  by (auto simp: dl_mem_def hdr_def hdr_ok_def)

text \<open>The line that says how a download with a length ended.\<close>

definition complete_line :: "nat \<Rightarrow> logcol \<times> wchar list" where
  "complete_line n = (C_OK, ws ''COMPLETE: all '' @ dec n @ ws '' bytes'')"

lemma complete_line_text:
  "n < 2 ^ 32 \<Longrightarrow> 0 \<notin> set (snd (complete_line n)) \<and> length (snd (complete_line n)) \<le> 56"
  using dec_nonzero [of n] dec_small [of n] by (simp add: complete_line_def ws_def)

lemma dl_verdict_ok:
  assumes "b < 2 ^ 32" and "g_dwDlTotal st < 2 ^ 32"
  shows "ok (dl_verdict b st) (\<lambda>t. (\<exists>c s. t = LogC c s st) \<and>
    (g_dwDlTotal st \<noteq> 0 \<and> b = g_dwDlTotal st \<longrightarrow> last (g_aLog t) = complete_line b))"
proof -
  have "length (dec b) \<le> 10" "length (dec (g_dwDlTotal st)) \<le> 10" using assms by (simp_all add: dec_small)
  then show ?thesis
    using complete_line_text [OF assms(1)] LogC_last [of "snd (complete_line b)" C_OK st]
    by (auto simp: dl_verdict_def wsprintf_def complete_line_def)
qed

lemma dl_speed_ok:
  assumes "g_nDl st \<noteq> DL_ACTIVE"
  shows "ok (dl_speed N b st) (\<lambda>t. \<exists>s. t = LogC C_INFO s st)"
proof -
  obtain k where k: "DownloadKbps N b st = (k, st)" using assms by (simp add: DownloadKbps_def)
  obtain sp where sp: "SpeedStr k = Some sp" "length sp < 24" using SpeedStr_fits by blast
  have fit: "wsprintf 58 (udec x @ ws ''.'' @ udec y @ ws ''s  avg '' @ sp) = Some (udec x @ ws ''.'' @ udec y @ ws ''s  avg '' @ sp)" for x y
    using udec_small [of x] udec_small [of y] sp(2) by (intro wsprintf_fits) simp
  show ?thesis unfolding dl_speed_def k by (auto simp: Let_def sp(1) fit fit [of 0 0, simplified])
qed

lemma Finish_ok:
  assumes m: "dl_mem st"
  shows "ok (DownloadFinish N st) (\<lambda>t. dl_done st t \<and> g_nDl t = DL_DONE \<and>
    (g_dwDlTotal st \<noteq> 0 \<and> DownloadBody st = g_dwDlTotal st \<and> g_dwDlRaw st \<le> g_dwDlStored st \<longrightarrow>
       last (g_aLog t) = complete_line (g_dwDlTotal st)))"
proof -
  define t0 where "t0 = (snd (GetTickCount N (close_dl st)))\<lparr>g_dwDlEnd := fst (GetTickCount N (close_dl st)), g_nDl := DL_DONE\<rparr>"
  have t0: "dl_done st t0" "g_nDl t0 = DL_DONE" "g_dwDlTotal t0 = g_dwDlTotal st" "g_dwDlRaw t0 = g_dwDlRaw st"
    "g_dwDlStored t0 = g_dwDlStored st"
    by (simp_all add: t0_def GetTickCount_def close_dl_def closesocket_def dl_done_def dl_same_def ui_same_def hdr_def
        case_prod_beta Let_def)
  have done_log: "dl_done st (LogC c s t) = dl_done st t" for c s and t :: "'a netd"
    by (simp add: dl_done_def dl_same_def ui_same_def hdr_def)
  have e: "DownloadFinish N st = LogF C_INFO (ws ''received '') (DownloadBody st) (ws '' body bytes'') t0 \<bind>
     (\<lambda>st1. dl_speed N (DownloadBody st) st1 \<bind> (\<lambda>st1. dl_verdict (DownloadBody st) st1 \<bind> dl_buffered))"
    by (simp add: DownloadFinish_def t0_def case_prod_beta Let_def)
  have b: "DownloadBody st < 2 ^ 32" "g_dwDlTotal st < 2 ^ 32" "g_dwDlStored st < 2 ^ 32"
    using body_less [OF m] total_less [OF m] m by (simp_all add: dl_mem_def DL_MAX_def)
  show ?thesis unfolding e ok_bind
  proof (rule ok_LogF)
    let ?t1 = "LogC C_INFO (ws ''received '' @ dec (DownloadBody st) @ ws '' body bytes'') t0"
    show "ok (dl_speed N (DownloadBody st) ?t1) (\<lambda>y. ok (dl_verdict (DownloadBody st) y) (\<lambda>y. ok (dl_buffered y)
      (\<lambda>t. dl_done st t \<and> g_nDl t = DL_DONE \<and>
        (g_dwDlTotal st \<noteq> 0 \<and> DownloadBody st = g_dwDlTotal st \<and> g_dwDlRaw st \<le> g_dwDlStored st \<longrightarrow>
           last (g_aLog t) = complete_line (g_dwDlTotal st)))))"
    proof (rule ok_mono [OF dl_speed_ok])
      fix t2 assume "\<exists>s. t2 = LogC C_INFO s ?t1"
      then have t2: "dl_done st t2" "g_nDl t2 = DL_DONE" "g_dwDlTotal t2 = g_dwDlTotal st" "g_dwDlRaw t2 = g_dwDlRaw st"
        "g_dwDlStored t2 = g_dwDlStored st" using t0 by (auto simp: done_log)
      show "ok (dl_verdict (DownloadBody st) t2) (\<lambda>y. ok (dl_buffered y)
        (\<lambda>t. dl_done st t \<and> g_nDl t = DL_DONE \<and>
          (g_dwDlTotal st \<noteq> 0 \<and> DownloadBody st = g_dwDlTotal st \<and> g_dwDlRaw st \<le> g_dwDlStored st \<longrightarrow>
             last (g_aLog t) = complete_line (g_dwDlTotal st))))"
      proof (rule ok_mono [OF dl_verdict_ok])
        fix t3 assume a: "(\<exists>c s. t3 = LogC c s t2) \<and> (g_dwDlTotal t2 \<noteq> 0 \<and> DownloadBody st = g_dwDlTotal t2 \<longrightarrow>
          last (g_aLog t3) = complete_line (DownloadBody st))"
        then have t3: "dl_done st t3" "g_nDl t3 = DL_DONE" "g_dwDlRaw t3 = g_dwDlRaw st" "g_dwDlStored t3 = g_dwDlStored st"
          using t2 by (auto simp: done_log)
        show "ok (dl_buffered t3) (\<lambda>t. dl_done st t \<and> g_nDl t = DL_DONE \<and>
          (g_dwDlTotal st \<noteq> 0 \<and> DownloadBody st = g_dwDlTotal st \<and> g_dwDlRaw st \<le> g_dwDlStored st \<longrightarrow>
             last (g_aLog t) = complete_line (g_dwDlTotal st)))"
          unfolding dl_buffered_def
          by (intro ok_if ok_LogF) (use t3 b a t2 in \<open>auto simp: done_log\<close>)
      qed (use b t2 in simp_all)
    qed (use t0 in simp)
  qed (use b in simp_all)
qed

section \<open>A download from beginning to end\<close>

text \<open>The state after the bytes \<open>s\<close> have come, whatever the pieces.\<close>

definition holds :: "'w netd \<Rightarrow> byte list \<Rightarrow> bool" where
  "holds st s \<longleftrightarrow> dl_mem st \<and> dl_data st = take DL_MAX s \<and> g_dwDlRaw st = length s mod 2 ^ 32
     \<and> hdr st = parse_response (take DL_MAX s)"

lemma holds_append:
  assumes h: "holds st s" and a: "allocs N"
  shows "ok (DownloadAppend N d st) (\<lambda>t. holds t (s @ d) \<and> nd_frame st t)"
proof (rule ok_mono [OF Append_ok])
  show m: "dl_mem st" using h by (simp add: holds_def)
  fix t assume t: "dl_mem t \<and> nd_frame st t \<and> g_dwDlRaw t = (g_dwDlRaw st + length d) mod 2 ^ 32 \<and>
    (allocs N \<longrightarrow> dl_data t = take DL_MAX (dl_data st @ d)) \<and>
    hdr t = (if g_bDlHdrDone st then hdr st else parse_response (dl_data t))"
  have "take DL_MAX (take DL_MAX s @ d) = take DL_MAX (s @ d)" by (simp add: min_def)
  then have d: "dl_data t = take DL_MAX (s @ d)" using t a h by (simp only: holds_def)
  have r: "g_dwDlRaw t = length (s @ d) mod 2 ^ 32" using t h by (simp add: holds_def mod_simps)
  have "hdr t = parse_response (take DL_MAX (s @ d))"
  proof (cases "g_bDlHdrDone st")
    case True
    then have "fst (parse_response (take DL_MAX s))" using h by (metis fst_conv hdr_def holds_def)
    then have "parse_response (take DL_MAX s @ take (DL_MAX - length s) d) = parse_response (take DL_MAX s)"
      by (rule parse_response_append)
    then show ?thesis using t h True by (simp add: holds_def)
  next
    case False
    then show ?thesis using t d by simp
  qed
  then show "holds t (s @ d) \<and> nd_frame st t" using t d r by (simp add: holds_def)
qed

primrec appends :: "'w net \<Rightarrow> byte list list \<Rightarrow> 'w netd \<Rightarrow> 'w netd option" where
  "appends N [] st = Some st"
| "appends N (d # ds) st = DownloadAppend N d st \<bind> appends N ds"

lemma appends_holds: "holds st s \<Longrightarrow> allocs N \<Longrightarrow> ok (appends N ds st) (\<lambda>t. holds t (s @ concat ds))"
proof (induction ds arbitrary: st s)
  case (Cons d ds)
  have "ok (appends N ds t) (\<lambda>u. holds u (s @ concat (d # ds)))" if "holds t (s @ d)" for t
    using Cons.IH [OF that Cons.prems(2)] by simp
  then show ?case by (auto intro!: ok_mono [OF holds_append [OF Cons.prems(1,2)]])
qed simp

lemma DownloadFree_mem:
  assumes "dl_mem st"
  shows "dl_mem (DownloadFree st)" and "holds (DownloadFree st) []" and "nd_blocks (DownloadFree st) = 0"
  using assms
  by (auto simp: DownloadFree_def Let_def closesocket_def LocalFree_def dl_mem_def holds_def dl_data_def hdr_def hdr_ok_def
      parse_response_def header_end_def DL_MAX_def split: option.splits)

text \<open>C22: The download is a function of the byte stream. However the network cuts a response into
  pieces, if no allocation fails the buffer holds its first \<open>DL_MAX\<close> bytes, the counter counts
  all of them, and the header end and the length found are those of the reference parser on
  the stored prefix.\<close>

theorem Download_stream:
  assumes "dl_mem st" and "allocs N"
  shows "\<exists>t. appends N ds (DownloadFree st) = Some t \<and> dl_data t = take DL_MAX (concat ds) \<and>
    g_dwDlStored t = min DL_MAX (length (concat ds)) \<and> g_dwDlRaw t = length (concat ds) mod 2 ^ 32 \<and>
    (g_bDlHdrDone t, g_dwDlBodyOff t, g_dwDlTotal t) = parse_response (take DL_MAX (concat ds))"
proof -
  from appends_holds [OF DownloadFree_mem(2) [OF assms(1)] assms(2), of ds] obtain t where
    "appends N ds (DownloadFree st) = Some t" "holds t (concat ds)" by (auto elim: okE)
  then show ?thesis using dl_mem_length [of t] by (auto simp: holds_def hdr_def min.commute)
qed

section \<open>The poll of each frame\<close>

text \<open>
  A server: \<open>view\<close> is what it will answer to the coming calls of \<open>recv\<close>; reading the clock
  and allocating change nothing of it.
\<close>

definition serves :: "'w net \<Rightarrow> ('w \<Rightarrow> recvd list) \<Rightarrow> bool" where
  "serves N view \<longleftrightarrow>
     (\<forall>s w e es. view w = e # es \<longrightarrow> fst (n_recv N s w) = e \<and> view (snd (n_recv N s w)) = es) \<and>
     (\<forall>w. view (snd (n_tick N w)) = view w) \<and> (\<forall>n w. view (snd (n_alloc N n w)) = view w)"

fun piece_ok :: "recvd \<Rightarrow> bool" where
  "piece_ok (Bytes d) = (d \<noteq> [] \<and> length d \<le> 8192)"
| "piece_ok WouldBlock = True"
| "piece_ok RecvErr = False"

fun payload :: "recvd list \<Rightarrow> byte list" where
  "payload [] = []"
| "payload (Bytes d # es) = d @ payload es"
| "payload (_ # es) = payload es"

lemma servesD:
  assumes "serves N view"
  shows "view w = e # es \<Longrightarrow> n_recv N s w = (r, w') \<Longrightarrow> r = e \<and> view w' = es"
    and "view (snd (n_tick N w)) = view w" and "view (snd (n_alloc N n w)) = view w"
  using assms unfolding serves_def by (metis fst_conv snd_conv)+

lemma reserve_view: "serves N view \<Longrightarrow> dl_reserve N n st = Some t \<Longrightarrow> view (sys t) = view (sys st)"
  using servesD(3) [of N view]
  by (auto simp: dl_reserve_def LocalAlloc_def LocalFree_def Let_def bind_eq_Some_conv case_prod_beta
      split: if_splits option.splits)

lemma copy_view: "dl_copy d st = Some t \<Longrightarrow> sys t = sys st"
  by (auto simp: dl_copy_def Let_def bind_eq_Some_conv split: option.splits)

lemma parse_view: "DownloadParseHeaders st = Some t \<Longrightarrow> sys t = sys st"
  by (auto simp: DownloadParseHeaders_def bind_eq_Some_conv split: if_splits option.splits)

lemma append_view:
  assumes s: "serves N view" and "DownloadAppend N d st = Some t"
  shows "view (sys t) = view (sys st)"
proof -
  define st1 where "st1 = st\<lparr>g_dwDlRaw := (g_dwDlRaw st + length d) mod 2 ^ 32\<rparr>"
  obtain n u where u: "(if g_dwDlStored st1 < DL_MAX then dl_reserve N n st1 \<bind> dl_copy d else Some st1) = Some u"
    and t: "(if \<not> g_bDlHdrDone u then DownloadParseHeaders u else Some u) = Some t"
    using assms(2) unfolding DownloadAppend_def Let_def st1_def [symmetric] by (auto simp: bind_eq_Some_conv)
  have "sys t = sys u" using t parse_view by (auto split: if_splits)
  moreover have "view (sys u) = view (sys st1)"
    using u reserve_view [OF s] copy_view by (fastforce simp: bind_eq_Some_conv split: if_splits)
  ultimately show ?thesis by (simp add: st1_def)
qed

text \<open>A response of \<open>off\<close> header bytes and the \<open>n\<close> body bytes the header promises.\<close>

definition response :: "byte list \<Rightarrow> nat \<Rightarrow> nat \<Rightarrow> bool" where
  "response s off n \<longleftrightarrow> parse_response s = (True, off, n) \<and> n \<noteq> 0 \<and> length s = off + n \<and> length s \<le> DL_MAX"

definition awaits :: "byte list \<Rightarrow> byte list \<Rightarrow> recvd list \<Rightarrow> 'w netd \<Rightarrow> bool" where
  "awaits s s0 es st \<longleftrightarrow> g_nDl st = DL_ACTIVE \<and> holds st s0 \<and> list_all piece_ok es \<and> s0 @ payload es = s
     \<and> length s0 < length s"

definition got_all :: "byte list \<Rightarrow> nat \<Rightarrow> 'w netd \<Rightarrow> bool" where
  "got_all s n t \<longleftrightarrow> g_nDl t = DL_DONE \<and> dl_data t = s \<and> last (g_aLog t) = complete_line n
     \<and> g_sockDl t = INVALID_SOCKET"

text \<open>The size test of the loop fires on the last byte of the response, not before.\<close>

lemma body_all:
  assumes r: "response s off n" and h: "holds t s1" and s: "s1 @ r = s"
  shows "(g_dwDlTotal t \<noteq> 0 \<and> DownloadBody t \<ge> g_dwDlTotal t) \<longleftrightarrow> s1 = s"
    and "s1 = s \<Longrightarrow> g_dwDlTotal t = n \<and> DownloadBody t = n \<and> g_dwDlRaw t \<le> g_dwDlStored t \<and> dl_data t = s"
proof -
  have l: "length s1 \<le> DL_MAX" "length s \<le> DL_MAX" using s r by (auto simp: response_def)
  have t: "dl_data t = s1" "g_dwDlRaw t = length s1" "hdr t = parse_response s1" "g_dwDlStored t = length s1"
    using h l dl_mem_length [of t] by (simp_all add: holds_def DL_MAX_def)
  have all: "(g_dwDlBodyOff t, g_dwDlTotal t) = (off, n) \<and> off \<le> length s1" if "fst (parse_response s1)"
  proof -
    have "parse_response s1 = (True, off, n)" using parse_response_append [OF that, of r] r s by (simp add: response_def)
    then show ?thesis using t(3) parse_response_ok [of s1] by (simp add: hdr_def hdr_ok_def)
  qed
  have none: "g_dwDlTotal t = 0 \<and> s1 \<noteq> s" if "\<not> fst (parse_response s1)"
  proof -
    have "parse_response s1 = (False, 0, 0)" using that by (auto simp: parse_response_def split: option.splits)
    then show ?thesis using t(3) r by (auto simp: hdr_def response_def)
  qed
  have n: "n \<noteq> 0" "length s = off + n" using r by (simp_all add: response_def)
  have e: "s1 = s \<longleftrightarrow> length s1 \<ge> length s" using s by auto
  show "(g_dwDlTotal t \<noteq> 0 \<and> DownloadBody t \<ge> g_dwDlTotal t) \<longleftrightarrow> s1 = s"
    using all none n e t(2) by (cases "fst (parse_response s1)") (auto simp: DownloadBody_def)
  show "g_dwDlTotal t = n \<and> DownloadBody t = n \<and> g_dwDlRaw t \<le> g_dwDlStored t \<and> dl_data t = s" if "s1 = s"
    using that all none n t by (cases "fst (parse_response s1)") (auto simp: DownloadBody_def)
qed

lemma finish_all:
  assumes "response s off n" and "holds t s"
  shows "ok (DownloadFinish N t) (got_all s n)"
proof (rule ok_mono [OF Finish_ok])
  show "dl_mem t" using assms(2) by (simp add: holds_def)
  fix u assume u: "dl_done t u \<and> g_nDl u = DL_DONE \<and>
    (g_dwDlTotal t \<noteq> 0 \<and> DownloadBody t = g_dwDlTotal t \<and> g_dwDlRaw t \<le> g_dwDlStored t \<longrightarrow>
       last (g_aLog u) = complete_line (g_dwDlTotal t))"
  have "g_dwDlTotal t = n \<and> DownloadBody t = n \<and> g_dwDlRaw t \<le> g_dwDlStored t \<and> dl_data t = s"
    by (rule body_all(2) [OF assms]) simp_all
  then show "got_all s n u"
    using u assms(1) dl_sameD(2) [of t u] by (simp add: got_all_def dl_done_def response_def)
qed

lemma holds_same: "dl_same st t \<Longrightarrow> holds t s = holds st s"
  using dl_sameD [of st t] by (simp add: holds_def dl_same_def)

lemma holds_tick: "holds st s \<Longrightarrow> holds (st\<lparr>g_dwDlLastData := x\<rparr>) s" "holds st s \<Longrightarrow> holds (st\<lparr>sys := w\<rparr>) s"
  using holds_same [of st "st\<lparr>g_dwDlLastData := x\<rparr>" s] holds_same [of st "st\<lparr>sys := w\<rparr>" s]
  by (simp_all add: dl_same_def hdr_def)

lemma drain_run:
  assumes sv: "serves N view" and al: "allocs N" and r: "response s off n"
  shows "awaits s s0 (view (sys st)) st \<Longrightarrow> view (sys st) = es \<Longrightarrow>
    ok (dl_drain N b st) (\<lambda>(done, t). if done then got_all s n t
      else \<exists>s1. awaits s s1 (view (sys t)) t \<and> length (view (sys t)) < length es)"
proof (induction es arbitrary: b st s0)
  case Nil
  then show ?case by (auto simp: awaits_def)
next
  case (Cons e es)
  obtain w where w: "n_recv N (g_sockDl st) (sys st) = (e, w)" "view w = es"
    using servesD(1) [OF sv Cons.prems(2)] by (metis surj_pair)
  let ?st = "st\<lparr>sys := w\<rparr>"
  have a: "g_nDl st = DL_ACTIVE" "holds st s0" "list_all piece_ok (e # es)" "s0 @ payload (e # es) = s" "length s0 < length s"
    using Cons.prems by (simp_all add: awaits_def)
  show ?case
  proof (cases e)
    case WouldBlock
    then show ?thesis using a w holds_tick(2) [OF a(2)]
      by (subst dl_drain.simps) (auto simp: recv_def awaits_def)
  next
    case RecvErr
    then show ?thesis using a(3) by simp
  next
    case (Bytes d)
    have d: "d \<noteq> []" "take 8192 d = d" "s0 @ d @ payload es = s" using a Bytes by simp_all
    obtain u where u: "DownloadAppend N d ?st = Some u" "holds u (s0 @ d)" "nd_frame ?st u"
      using holds_append [OF holds_tick(2) [OF a(2), of w] al, of d] by (elim okE) simp
    have vu: "view (sys u) = es" using append_view [OF sv u(1)] w(2) by simp
    obtain t where t: "GetTickCount N u = (t, u\<lparr>sys := snd (n_tick N (sys u))\<rparr>)"
      by (simp add: GetTickCount_def case_prod_beta)
    define v where "v = u\<lparr>sys := snd (n_tick N (sys u)), g_dwDlLastData := t\<rparr>"
    have hv: "holds v (s0 @ d)" unfolding v_def by (intro holds_tick u(2))
    have vv: "view (sys v) = es" using vu servesD(2) [OF sv] by (simp add: v_def)
    have av: "g_nDl v = DL_ACTIVE" using u(3) a(1) by (simp add: v_def nd_frame_def)
    have step: "dl_drain N b st = (if g_dwDlTotal v \<noteq> 0 \<and> DownloadBody v \<ge> g_dwDlTotal v
        then map_option (Pair True) (DownloadFinish N v)
        else if b + length d \<ge> 262144 then Some (False, v) else dl_drain N (b + length d) v)"
      using w(1) Bytes d(1,2) u(1) t by (subst dl_drain.simps) (simp add: recv_def v_def)
    have sd: "(s0 @ d) @ payload es = s" using d(3) by simp
    show ?thesis
    proof (cases "s0 @ d = s")
      case True
      with body_all(1) [OF r hv sd] have "dl_drain N b st = map_option (Pair True) (DownloadFinish N v)"
        unfolding step by simp
      then show ?thesis using finish_all [OF r, of v N] hv True by simp
    next
      case False
      then have st: "dl_drain N b st = (if b + length d \<ge> 262144 then Some (False, v) else dl_drain N (b + length d) v)"
        unfolding step using body_all(1) [OF r hv sd] by (auto simp del: dl_drain.simps)
      have lt: "length (s0 @ d) < length s" using sd False by (cases "payload es") auto
      have aw: "awaits s (s0 @ d) (view (sys v)) v" using hv av a(3) sd lt vv by (simp add: awaits_def)
      show ?thesis
      proof (cases "b + length d \<ge> 262144")
        case True
        then show ?thesis unfolding st using aw vv by auto
      next
        case False
        have "ok (dl_drain N (b + length d) v) (\<lambda>(done, t). if done then got_all s n t
            else \<exists>s1. awaits s s1 (view (sys t)) t \<and> length (view (sys t)) < length es)"
          by (rule Cons.IH [OF aw vv])
        then show ?thesis unfolding st using False
          by (auto elim!: ok_mono split: if_splits)
      qed
    qed
  qed
qed

primrec polls :: "'w net \<Rightarrow> nat \<Rightarrow> 'w netd \<Rightarrow> 'w netd option" where
  "polls N 0 st = Some st"
| "polls N (Suc k) st = PollDownload N st \<bind> (\<lambda>(_, st). polls N k st)"

definition stalled :: "'w netd \<Rightarrow> bool" where
  "stalled t \<longleftrightarrow> g_nDl t = DL_FAIL \<and> last (g_aLog t) = (C_FAIL, ws ''download stalled (15s)'')"

lemma polls_run:
  assumes sv: "serves N view" and al: "allocs N" and r: "response s off n"
  shows "awaits s s0 (view (sys st)) st \<Longrightarrow> \<exists>k. ok (polls N k st) (\<lambda>t. got_all s n t \<or> stalled t)"
proof (induction "length (view (sys st))" arbitrary: st s0 rule: less_induct)
  case less
  let ?es = "view (sys st)"
  have act: "g_nDl st = DL_ACTIVE" using less.prems by (simp add: awaits_def)
  obtain fin t where d: "dl_drain N 0 st = Some (fin, t)"
    and p: "if fin then got_all s n t else \<exists>s1. awaits s s1 (view (sys t)) t \<and> length (view (sys t)) < length ?es"
    using drain_run [OF sv al r less.prems refl, of 0] by (elim okE) auto
  show ?case
  proof (cases fin)
    case True
    then have "polls N 1 st = Some t" using act d by (simp add: PollDownload_def)
    with p True show ?thesis by (intro exI [of _ 1]) simp
  next
    case False
    obtain s1 where s1: "awaits s s1 (view (sys t)) t" "length (view (sys t)) < length ?es" using p False by auto
    define u where "u = t\<lparr>sys := snd (n_tick N (sys t))\<rparr>"
    define now where "now = fst (n_tick N (sys t))"
    have u: "GetTickCount N t = (now, u)" by (simp add: GetTickCount_def u_def now_def case_prod_beta)
    show ?thesis
    proof (cases "now - g_dwDlLastData u > 15000")
      case True
      then have "PollDownload N st = Some (True, close_dl (dl_fail N (ws ''download stalled (15s)'') u))"
        using act d False u by (simp add: PollDownload_def)
      moreover have "stalled (close_dl (dl_fail N (ws ''download stalled (15s)'') u))"
        by (simp add: stalled_def close_dl_def closesocket_def dl_fail_def GetTickCount_def case_prod_beta LogC_last ws_def)
      ultimately show ?thesis by (intro exI [of _ 1]) simp
    next
      case False
      then have q: "PollDownload N st = Some (True, u)" using act d \<open>\<not> fin\<close> u by (simp add: PollDownload_def)
      have v: "view (sys u) = view (sys t)" using servesD(2) [OF sv] by (simp add: u_def)
      then have "awaits s s1 (view (sys u)) u" using s1(1) holds_tick(2) unfolding u_def by (auto simp: awaits_def)
      moreover have "length (view (sys u)) < length ?es" using s1(2) v by simp
      ultimately obtain k where "ok (polls N k u) (\<lambda>t. got_all s n t \<or> stalled t)" using less.hyps by blast
      then show ?thesis using q by (intro exI [of _ "Suc k"]) simp
    qed
  qed
qed


section \<open>A sample system\<close>

text \<open>A system whose state is the list of answers of \<open>recv\<close>; its clock stands still.\<close>

definition net0 :: "recvd list net" where
  "net0 = \<lparr>n_tick = \<lambda>w. (0, w), n_alloc = \<lambda>n w. (True, w), n_inet_addr = \<lambda>s. INADDR_NONE,
     n_gethostbyname = \<lambda>s w. (Some 0x0100007F, w), n_socket = \<lambda>w. (1, w), n_connect = \<lambda>s a w. (ConnOk, w),
     n_writable = \<lambda>s w. (True, w), n_readable = \<lambda>s w. (True, w), n_send = \<lambda>s d w. w,
     n_recv = \<lambda>s w. (case w of [] \<Rightarrow> (Bytes [], []) | e # es \<Rightarrow> (e, es)),
     n_getsockname = \<lambda>s w. (Some 0x0100007F, w), n_dns = \<lambda>w. Some [1, 0x0100007F], n_ras_entry = \<lambda>w. w,
     n_ras_dial = \<lambda>w. ((0, 7), w), n_ras_status = \<lambda>h w. ((True, 0), w), n_ras_hangup = \<lambda>h w. w\<rparr>"

lemma net0_laws: "allocs net0" "serves net0 (\<lambda>w. w)"
  by (auto simp: net0_def allocs_def serves_def)

definition resp0 :: "byte list" where
  "resp0 = [72, 13, 10, 67, 111, 110, 116, 101, 110, 116, 45, 76, 101, 110, 103, 116, 104, 58, 32, 51, 13, 10, 13, 10, 97, 98, 99]"

definition answers0 :: "recvd list" where
  "answers0 = [Bytes (take 10 resp0), WouldBlock, Bytes (drop 10 resp0)]"

lemma resp0_response: "response resp0 24 3"
proof -
  have "header_end resp0 = Some 24"
    by (simp add: header_end_def resp0_def crlf2_def upt_rec)
  moreover have "content_length (take 24 resp0) = 3"
    by (simp add: content_length_def resp0_def szCl_def lower_def digit_val_def upt_rec)
  ultimately have "parse_response resp0 = (True, 24, 3)" by (simp add: parse_response_def)
  moreover have "length resp0 = 27" by (simp add: resp0_def)
  ultimately show ?thesis by (simp add: response_def DL_MAX_def)
qed

lemma nd0_mem: "dl_mem (nd0 w)" "holds (nd0 w) []"
  by (simp_all add: nd0_def dl_mem_def holds_def dl_data_def hdr_def hdr_ok_def parse_response_def header_end_def)


theorem Download_stream_witness:
  "\<exists>t. appends net0 [take 10 resp0, drop 10 resp0] (DownloadFree (nd0 [])) = Some t \<and>
    (g_bDlHdrDone t, g_dwDlBodyOff t, g_dwDlTotal t) = (True, 24, 3)"
proof -
  have "parse_response (take DL_MAX resp0) = (True, 24, 3)"
    using resp0_response by (simp add: response_def)
  then show ?thesis
    using Download_stream [OF nd0_mem(1) net0_laws(1), of "[take 10 resp0, drop 10 resp0]" "[]"] by auto
qed

text \<open>
  A chunk that finds no memory is counted but not stored: what comes later is stored in its
  place, and the header end found there is taken as an offset into all that was received.
\<close>

lemma Download_lost:
  assumes "dl_mem st" and "g_pbDlBuf st = None" and "\<forall>n w. \<not> fst (n_alloc N n w)"
  shows "\<exists>t. DownloadAppend N d st = Some t \<and> dl_data t = [] \<and> g_dwDlStored t = 0 \<and>
    g_dwDlRaw t = (g_dwDlRaw st + length d) mod 2 ^ 32"
proof -
  have z: "g_dwDlCap st = 0" "g_dwDlStored st = 0" using assms(1,2) by (simp_all add: dl_mem_def)
  define st1 where "st1 = st\<lparr>g_dwDlRaw := (g_dwDlRaw st + length d) mod 2 ^ 32\<rparr>"
  let ?need = "if length d > DL_MAX then DL_MAX else length d"
  have s1: "g_dwDlCap st1 = 0" "g_dwDlStored st1 = 0" "g_pbDlBuf st1 = None" using z assms(2) by (simp_all add: st1_def)
  have "ok (dl_reserve N ?need st1) (\<lambda>t. g_pbDlBuf t = None \<and> g_dwDlStored t = 0 \<and> g_dwDlRaw t = g_dwDlRaw st1)"
  proof (cases "?need > 0")
    case True
    obtain c where c: "grow ?need DL_INIT = Some c" using grow_ge [of DL_INIT ?need] by (auto simp: DL_INIT_def)
    then show ?thesis using True s1 assms(3)
      by (simp add: dl_reserve_def LocalAlloc_def case_prod_beta Let_def del: if_split_asm)
  next
    case False
    then show ?thesis using s1 by (simp add: dl_reserve_def)
  qed
  then obtain t where t: "dl_reserve N ?need st1 = Some t" "g_pbDlBuf t = None" "g_dwDlStored t = 0" "g_dwDlRaw t = g_dwDlRaw st1"
    by (elim okE) simp
  moreover have "dl_copy d t = Some t" "DownloadParseHeaders t = Some t" "0 < DL_MAX"
    using t(2,3) by (simp_all add: dl_copy_def DownloadParseHeaders_def DL_MAX_def)
  ultimately have "DownloadAppend N d st = Some t"
    using s1(2) unfolding DownloadAppend_def Let_def st1_def [symmetric]
    by (cases "DL_MAX < length d") simp_all
  then show ?thesis using t by (auto simp: dl_data_def st1_def)
qed

end
