(* ===== verification/Netdiag.thy ===== *)
theory Netdiag
  imports Dcwnet Dcinput "HOL-Library.Signed_Division"
begin

text \<open>
  The network client, \<open>shell/dcwnet.c\<close>, second part: the local address, dialling, the
  reachability test, the request of a download, the on-screen keyboard and the buttons, the
  picture, and the loop of \<open>DcwMain\<close> with what every turn of it keeps.

  The target is the text of \<open>g_pszTarget[80]\<close> without its terminator. Conversion to bytes is
  modelled for ASCII text, which is all the keyboard can type; anything else is \<open>None\<close>.
\<close>

section \<open>Addresses\<close>

definition IpToStr :: "u32 \<Rightarrow> wchar list option" where
  "IpToStr ulIp = wsprintf 24 (dotted (le32_bytes ulIp))"

text \<open>The registry value as words; \<open>aulBuf\<close> takes six, and a longer value is not read.\<close>

definition ReadDns :: "'w net \<Rightarrow> 'w netd \<Rightarrow> u32" where
  "ReadDns N st =
     (case n_dns N (sys st) of
        Some v \<Rightarrow> if length v \<le> 6 \<and> length v \<ge> 2 \<and> v ! 0 \<ge> 1 then v ! 1 else 0
      | None \<Rightarrow> 0)"

definition getsockname :: "'w net \<Rightarrow> u32 \<Rightarrow> 'w netd \<Rightarrow> u32 option \<times> 'w netd" where
  "getsockname N s st = (let (r, w) = n_getsockname N s (sys st) in (r, st\<lparr>sys := w\<rparr>))"

definition connect :: "'w net \<Rightarrow> u32 \<Rightarrow> u32 \<Rightarrow> 'w netd \<Rightarrow> connres \<times> 'w netd" where
  "connect N s a st = (let (r, w) = n_connect N s a (sys st) in (r, st\<lparr>sys := w\<rparr>))"

definition RefreshLocalIp :: "'w net \<Rightarrow> 'w netd \<Rightarrow> 'w netd option" where
  "RefreshLocalIp N st = do {
     let ulDns = ReadDns N st;
     s \<leftarrow> (if ulDns \<noteq> 0 then IpToStr ulDns else Some (ws ''(none)''));
     let st = st\<lparr>g_pszDnsStr := s, g_pszIpStr := ws ''-''\<rparr>;
     if ulDns = 0 then Some st
     else let (sock, st) = open_socket N st
       in if sock = INVALID_SOCKET then Some st
          else let (c, st) = connect N sock ulDns st
            in if c \<noteq> ConnOk then Some (closesocket sock st)
               else let (me, st) = getsockname N sock st
                 in case me of
                      None \<Rightarrow> Some (closesocket sock st)
                    | Some ip \<Rightarrow> do { s \<leftarrow> IpToStr ip; Some (closesocket sock (st\<lparr>g_pszIpStr := s\<rparr>)) } }"

section \<open>Dialling\<close>

definition RasDial :: "'w net \<Rightarrow> 'w netd \<Rightarrow> u32 \<times> 'w netd" where
  "RasDial N st =
     (let ((rc, h), w) = n_ras_dial N (sys st)
      in (rc, st\<lparr>sys := w, g_hConn := h, nd_conns := (if h = 0 then nd_conns st else h # nd_conns st)\<rparr>))"

definition RasHangUp :: "'w net \<Rightarrow> u32 \<Rightarrow> 'w netd \<Rightarrow> 'w netd" where
  "RasHangUp N h st = st\<lparr>sys := n_ras_hangup N h (sys st), nd_conns := remove1 h (nd_conns st)\<rparr>"

definition DoDial :: "'w net \<Rightarrow> 'w netd \<Rightarrow> 'w netd option" where
  "DoDial N st =
     (if g_nConn st = CN_DIALING \<or> g_nConn st = CN_UP then Some st
      else let st = LogC C_INFO (ws ''Dialing (RasDial)...'') (st\<lparr>g_aLog := []\<rparr>);
               st = st\<lparr>sys := n_ras_entry N (sys st), g_hConn := 0\<rparr>;
               (dwRc, st) = RasDial N st
        in if dwRc \<noteq> 0
           then do { st \<leftarrow> LogF C_FAIL (ws ''RasDial err '') (unat dwRc) [] st; Some (st\<lparr>g_nConn := CN_FAILED\<rparr>) }
           else let (t, st) = GetTickCount N (st\<lparr>g_nConn := CN_DIALING\<rparr>)
             in Some (st\<lparr>g_dwDialStart := t\<rparr>))"

definition PollDial :: "'w net \<Rightarrow> 'w netd \<Rightarrow> (bool \<times> 'w netd) option" where
  "PollDial N st =
     (if g_nConn st \<noteq> CN_DIALING then Some (False, st)
      else let ((up, err), w) = n_ras_status N (g_hConn st) (sys st); st = st\<lparr>sys := w\<rparr>
        in if up
           then do {
             st \<leftarrow> RefreshLocalIp N (st\<lparr>g_nConn := CN_UP\<rparr>);
             let st = LogC C_OK (ws ''Connected.'') st;
             a \<leftarrow> wsprintf 58 (ws ''  IP  '' @ g_pszIpStr st);
             let st = LogC C_INFO a st;
             b \<leftarrow> wsprintf 58 (ws ''  DNS '' @ g_pszDnsStr st);
             Some (True, LogC C_INFO b st) }
           else if err \<noteq> 0
           then do { st \<leftarrow> LogF C_FAIL (ws ''Dial failed, err '') (unat err) [] st;
                     Some (True, st\<lparr>g_nConn := CN_FAILED\<rparr>) }
           else let (t, st) = GetTickCount N st
             in if t - g_dwDialStart st > 45000
                then Some (True, (LogC C_FAIL (ws ''Dial timeout (45s)'') st)\<lparr>g_nConn := CN_FAILED\<rparr>)
                else Some (False, st))"

definition DoHangup :: "'w net \<Rightarrow> 'w netd \<Rightarrow> 'w netd" where
  "DoHangup N st =
     (let st = (if g_hConn st \<noteq> 0 then RasHangUp N (g_hConn st) st else st)
      in LogC C_MUTE (ws ''Hung up.'') (st\<lparr>g_hConn := 0, g_nConn := CN_IDLE, g_pszIpStr := ws ''-''\<rparr>))"

section \<open>Target and request\<close>

definition to_ansi :: "nat \<Rightarrow> wchar list \<Rightarrow> byte list option" where
  "to_ansi cap s = (if length s < cap \<and> (\<forall>c \<in> set s. 0 < c \<and> c < 0x80) then Some (map ucast s) else None)"

definition SplitTarget :: "wchar list \<Rightarrow> (byte list \<times> byte list) option" where
  "SplitTarget target = do {
     let pszSlash = dropWhile (\<lambda>c. c \<noteq> 0x2F) target;
     let achHost = take 78 (takeWhile (\<lambda>c. c \<noteq> 0x2F) target);
     pszHostA \<leftarrow> to_ansi 80 achHost;
     pszPathA \<leftarrow> (if pszSlash \<noteq> [] then to_ansi 96 pszSlash else Some [0x2F]);
     Some (pszHostA, pszPathA) }"

definition asc :: "string \<Rightarrow> byte list" where "asc s = map of_char s"

definition crlf :: "byte list" where "crlf = [0x0D, 0x0A]"

text \<open>\<open>cap\<close> is the size of \<open>achReq\<close>, \<open>lp\<close> and \<open>lh\<close> the limits of the two copying loops.\<close>

definition build_req :: "nat \<Rightarrow> nat \<Rightarrow> nat \<Rightarrow> byte list \<Rightarrow> byte list \<Rightarrow> byte list option" where
  "build_req cap lp lh path host =
     (let r = asc ''GET '';
          r = r @ take (lp - length r) path;
          r = r @ asc '' HTTP/1.0'' @ crlf @ asc ''Host: '';
          r = r @ take (lh - length r) host;
          r = r @ crlf @ asc ''Connection: close'' @ crlf @ crlf
      in if length r \<le> cap then Some r else None)"

section \<open>The reachability test\<close>

definition TryConnect :: "'w net \<Rightarrow> u32 \<Rightarrow> u32 \<Rightarrow> 'w netd \<Rightarrow> bool \<times> 'w netd" where
  "TryConnect N sock addr st =
     (let (c, st) = connect N sock addr st
      in case c of
           ConnOk \<Rightarrow> (True, st)
         | ConnErr \<Rightarrow> (False, st)
         | ConnPending \<Rightarrow> let (r, w) = n_writable N sock (sys st) in (r, st\<lparr>sys := w\<rparr>))"

definition gethostbyname :: "'w net \<Rightarrow> byte list \<Rightarrow> 'w netd \<Rightarrow> u32 option \<times> 'w netd" where
  "gethostbyname N host st = (let (r, w) = n_gethostbyname N host (sys st) in (r, st\<lparr>sys := w\<rparr>))"

definition send :: "'w net \<Rightarrow> u32 \<Rightarrow> byte list \<Rightarrow> 'w netd \<Rightarrow> 'w netd" where
  "send N sock d st = st\<lparr>sys := n_send N sock d (sys st)\<rparr>"

definition http_probe :: "'w net \<Rightarrow> u32 \<Rightarrow> byte list \<Rightarrow> byte list \<Rightarrow> 'w netd \<Rightarrow> 'w netd option" where
  "http_probe N sock host path st = do {
     req \<leftarrow> build_req 200 150 180 path host;
     let st = send N sock req st;
     let (r, w) = n_readable N sock (sys st);
     let st = st\<lparr>sys := w\<rparr>;
     let (a, st) = (if r then recv N sock 511 st else (RecvErr, st));
     case a of
       Bytes d \<Rightarrow>
         if d = [] then Some (LogC C_FAIL (ws ''connected but server sent no data'') st)
         else LogF C_INFO (ws ''('') (length d) (ws '' bytes received)'')
                (LogC C_OK (map ucast (take 54 (takeWhile (\<lambda>b. b \<noteq> 0x0D \<and> b \<noteq> 0x0A) d))) st)
     | _ \<Rightarrow> Some (LogC C_FAIL (ws ''no HTTP reply (6s timeout)'') st) }"

definition test_resolve :: "'w net \<Rightarrow> byte list \<Rightarrow> 'w netd \<Rightarrow> (u32 option \<times> 'w netd) option" where
  "test_resolve N host st =
     (if n_inet_addr N host \<noteq> INADDR_NONE
      then Some (Some (n_inet_addr N host), LogC C_INFO (ws ''target is literal IP'') st)
      else let (r, st) = gethostbyname N host st
        in case r of
             None \<Rightarrow> Some (None, LogC C_FAIL (ws ''DNS resolve FAILED'') st)
           | Some ip \<Rightarrow> do {
               s \<leftarrow> IpToStr ip;
               b \<leftarrow> wsprintf 58 (ws ''DNS OK -> '' @ s);
               Some (Some ip, LogC C_OK b st) })"

definition DoTest :: "'w net \<Rightarrow> 'w netd \<Rightarrow> 'w netd option" where
  "DoTest N st = do {
     let st = st\<lparr>g_aLog := []\<rparr>;
     let st = (if g_nConn st \<noteq> CN_UP then LogC C_MUTE (ws ''(not dialed - testing anyway)'') st else st);
     (host, path) \<leftarrow> SplitTarget (g_pszTarget st);
     (a, st) \<leftarrow> test_resolve N host st;
     case a of
       None \<Rightarrow> Some st
     | Some ip \<Rightarrow>
         let (sock, st) = open_socket N st
         in if sock = INVALID_SOCKET then Some (LogC C_FAIL (ws ''socket() failed'') st)
            else let (c, st) = TryConnect N sock ip st
              in if \<not> c then Some (closesocket sock (LogC C_FAIL (ws ''TCP connect :80 FAILED'') st))
                 else do {
                   st \<leftarrow> http_probe N sock host path (LogC C_OK (ws ''TCP connect :80 OK'') st);
                   Some (closesocket sock st) } }"

section \<open>Starting a download\<close>

definition dl_resolve :: "'w net \<Rightarrow> byte list \<Rightarrow> 'w netd \<Rightarrow> u32 option \<times> 'w netd" where
  "dl_resolve N host st =
     (if n_inet_addr N host \<noteq> INADDR_NONE then (Some (n_inet_addr N host), st)
      else gethostbyname N host st)"

definition dl_start :: "'w net \<Rightarrow> byte list \<Rightarrow> byte list \<Rightarrow> u32 \<Rightarrow> 'w netd \<Rightarrow> 'w netd option" where
  "dl_start N host path ip st =
     (let (sock, st) = open_socket N st
      in if sock = INVALID_SOCKET
         then Some ((LogC C_FAIL (ws ''socket() failed'') st)\<lparr>g_nDl := DL_FAIL\<rparr>)
         else let (c, st) = TryConnect N sock ip st
           in if \<not> c
              then Some ((closesocket sock (LogC C_FAIL (ws ''TCP connect :80 FAILED'') st))\<lparr>g_nDl := DL_FAIL\<rparr>)
              else do {
                let st = LogC C_OK (ws ''connected - downloading...'') st;
                req \<leftarrow> build_req 220 160 200 path host;
                let st = send N sock req st;
                let (t, st) = GetTickCount N (st\<lparr>g_sockDl := sock, g_nDl := DL_ACTIVE\<rparr>);
                Some (st\<lparr>g_dwDlLastData := t, g_dwDlStart := t\<rparr>) })"

definition DoDownloadStart :: "'w net \<Rightarrow> 'w netd \<Rightarrow> 'w netd option" where
  "DoDownloadStart N st =
     (if g_nDl st = DL_ACTIVE then Some st
      else do {
        let st = (DownloadFree st)\<lparr>g_aLog := []\<rparr>;
        (host, path) \<leftarrow> SplitTarget (g_pszTarget st);
        let (a, st) = dl_resolve N host st;
        case a of
          None \<Rightarrow> Some ((LogC C_FAIL (ws ''DNS resolve FAILED'') st)\<lparr>g_nDl := DL_FAIL\<rparr>)
        | Some ip \<Rightarrow> do {
            s \<leftarrow> IpToStr ip;
            b \<leftarrow> wsprintf 58 (ws ''GET from '' @ s);
            dl_start N host path ip (LogC C_INFO b st) } })"

section \<open>Keyboard and buttons\<close>

definition kbRows :: "wchar list list" where
  "kbRows = [ws ''1234567890'', ws ''qwertyuiop'', ws ''asdfghjkl-'', ws ''zxcvbnm.:/'']"

definition key_x :: "nat \<Rightarrow> int" where "key_x c = 8 + int c * (30 + 2)"
definition key_y :: "nat \<Rightarrow> int" where "key_y r = 76 + int r * (22 + 2)"

text \<open>\<open>s_btn\<close>: left edge, width and label; the last four are the action buttons.\<close>

definition s_btn :: "(int \<times> int \<times> wchar list) list" where
  "s_btn = [(8, 48, ws ''space''), (60, 48, ws ''.com''), (112, 44, ws ''Bksp''), (160, 48, ws ''Clear''),
     (222, 52, ws ''Dial''), (278, 44, ws ''Test''), (326, 44, ws ''Get''), (374, 86, ws ''HangUp'')]"

definition key_at :: "int \<Rightarrow> int \<Rightarrow> (nat \<times> nat) option" where
  "key_at x y = List.find (\<lambda>(r, c). x \<ge> key_x c \<and> x < key_x c + 30 \<and> y \<ge> key_y r \<and> y < key_y r + 22)
     (List.product [0 ..< 4] [0 ..< 10])"

definition btn_at :: "int \<Rightarrow> int \<Rightarrow> nat option" where
  "btn_at x y = List.find (\<lambda>i. case s_btn ! i of (bx, bw, _) \<Rightarrow> x \<ge> bx \<and> x < bx + bw \<and> y \<ge> 196 \<and> y < 196 + 22) [0 ..< 8]"

definition EditAppendCh :: "wchar \<Rightarrow> 'w netd \<Rightarrow> 'w netd" where
  "EditAppendCh ch st =
     (if length (g_pszTarget st) < 78 then st\<lparr>g_pszTarget := g_pszTarget st @ [ch]\<rparr> else st)"

definition EditAppendStr :: "wchar list \<Rightarrow> 'w netd \<Rightarrow> 'w netd" where
  "EditAppendStr psz st = st\<lparr>g_pszTarget := g_pszTarget st @ take (78 - length (g_pszTarget st)) psz\<rparr>"

definition EditBksp :: "'w netd \<Rightarrow> 'w netd" where
  "EditBksp st = (if g_pszTarget st \<noteq> [] then st\<lparr>g_pszTarget := butlast (g_pszTarget st)\<rparr> else st)"

definition press_btn :: "'w net \<Rightarrow> nat \<Rightarrow> 'w netd \<Rightarrow> 'w netd option" where
  "press_btn N i st =
     (if i = 0 then Some (EditAppendCh 0x20 st)
      else if i = 1 then Some (EditAppendStr (ws ''.com'') st)
      else if i = 2 then Some (EditBksp st)
      else if i = 3 then Some (st\<lparr>g_pszTarget := []\<rparr>)
      else if i = 4 then DoDial N st
      else if i = 5 then DoTest N st
      else if i = 6 then DoDownloadStart N st
      else Some (DoHangup N st))"

definition HandleClick :: "'w net \<Rightarrow> int \<Rightarrow> int \<Rightarrow> 'w netd \<Rightarrow> (bool \<times> 'w netd) option" where
  "HandleClick N x y st =
     (case key_at x y of
        Some (r, c) \<Rightarrow> Some (True, EditAppendCh (kbRows ! r ! c) st)
      | None \<Rightarrow>
          (case btn_at x y of
             Some i \<Rightarrow> map_option (Pair True) (press_btn N i st)
           | None \<Rightarrow> Some (False, st)))"

section \<open>The picture\<close>

definition C_BG :: u32 where "C_BG = RGB 192 192 192"
definition C_HDR :: u32 where "C_HDR = RGB 0 0 128"
definition C_WHITE :: u32 where "C_WHITE = RGB 255 255 255"
definition C_BLACK :: u32 where "C_BLACK = RGB 0 0 0"
definition C_KEY :: u32 where "C_KEY = RGB 176 176 176"
definition C_KEYF :: u32 where "C_KEYF = RGB 224 224 224"
definition C_BTN :: u32 where "C_BTN = RGB 0 0 128"
definition C_HOT :: u32 where "C_HOT = RGB 170 200 255"

fun log_color :: "logcol \<Rightarrow> u32" where
  "log_color C_OK = RGB 0 112 0"
| "log_color C_FAIL = RGB 176 0 0"
| "log_color C_INFO = RGB 0 0 160"
| "log_color C_MUTE = RGB 96 96 96"

definition ConnText :: "conn \<Rightarrow> wchar list" where
  "ConnText c =
     (if c = CN_DIALING then ws ''dialing...'' else if c = CN_UP then ws ''CONNECTED''
      else if c = CN_FAILED then ws ''failed'' else ws ''idle'')"

text \<open>\<open>achLine[64]\<close>\<close>

definition status_line :: "'w netd \<Rightarrow> wchar list option" where
  "status_line st = wsprintf 64 (ws ''Conn: '' @ ConnText (g_nConn st) @ ws ''    IP: '' @ g_pszIpStr st
     @ ws ''    DNS: '' @ g_pszDnsStr st)"

definition draw_key :: "'w netd \<Rightarrow> nat \<times> nat \<Rightarrow> dcwin \<Rightarrow> dcwin" where
  "draw_key st rc w =
     (case rc of (r, c) \<Rightarrow>
        let col = (if int r = g_nHotR st \<and> int c = g_nHotC st then C_HOT else C_KEYF)
        in DCWinText (key_x c + 11) (key_y r + 3) C_BLACK col [kbRows ! r ! c]
             (DCWinFill (key_x c) (key_y r) 30 22 col w))"

definition draw_btn :: "'w netd \<Rightarrow> nat \<Rightarrow> dcwin \<Rightarrow> dcwin" where
  "draw_btn st i w =
     (case s_btn ! i of (x, bw, label) \<Rightarrow>
        let bg = (if i < 4 then C_KEY else C_BTN);
            fg = (if bg = C_BTN then C_WHITE else C_BLACK);
            w = DCWinFill x 196 bw 22 bg w;
            w = DCWinText (x + 5) 199 fg bg label w
        in if int i = g_nHotBtn st
           then DCWinFill (x + bw - 1) 196 1 22 C_WHITE
                  (DCWinFill x 196 1 22 C_WHITE
                    (DCWinFill x (196 + 22 - 1) bw 1 C_WHITE (DCWinFill x 196 bw 1 C_WHITE w)))
           else w)"

definition dl_percent :: "nat \<Rightarrow> 'w netd \<Rightarrow> nat" where
  "dl_percent dwBody st =
     (if g_nDl st = DL_DONE \<and> g_dwDlTotal st \<noteq> 0 \<and> dwBody \<ge> g_dwDlTotal st then 100
      else if g_dwDlTotal st \<noteq> 0 then (dwBody div 1024 * 100) div (g_dwDlTotal st div 1024 + 1) else 0)"

text \<open>\<open>achProgLine[96]\<close>\<close>

definition progress_line :: "nat \<Rightarrow> wchar list \<Rightarrow> 'w netd \<Rightarrow> wchar list option" where
  "progress_line dwBody achSp st =
     (let pszSt = (if g_nDl st = DL_ACTIVE then ws ''Downloading'' else if g_nDl st = DL_DONE then ws ''Downloaded''
                   else ws ''Download failed'')
      in wsprintf 96
           (if g_dwDlTotal st \<noteq> 0
            then pszSt @ ws ''  '' @ dec dwBody @ ws '' / '' @ dec (g_dwDlTotal st) @ ws '' bytes (''
                 @ dec (dl_percent dwBody st) @ ws ''%)  '' @ achSp
            else pszSt @ ws ''  '' @ dec dwBody @ ws '' bytes  '' @ achSp))"

definition draw_progress :: "'w net \<Rightarrow> int \<Rightarrow> 'w netd \<times> dcwin \<Rightarrow> ('w netd \<times> dcwin) option" where
  "draw_progress N cw s = (case s of (st, w) \<Rightarrow>
     if g_nDl st = DL_IDLE then Some (st, w)
     else do {
       let dwBody = DownloadBody st;
       let barw = cw - 16;
       let pc = (if g_nDl st = DL_FAIL then log_color C_FAIL else if g_nDl st = DL_DONE then log_color C_OK else C_HDR);
       let (dwKbps, st) = DownloadKbps N dwBody st;
       achSp \<leftarrow> SpeedStr dwKbps;
       let fill = (if g_dwDlTotal st \<noteq> 0
                   then sint ((word_of_int barw :: u32) * word_of_nat (dl_percent dwBody st) div 100)
                   else if g_nDl st = DL_DONE then barw else 0);
       l \<leftarrow> progress_line dwBody achSp st;
       let w = DCWinFill 8 238 barw 12 C_WHITE (DCWinText 8 224 C_BLACK C_BG l w);
       Some (st, if fill > 0 then DCWinFill 8 238 fill 12 pc w else w) })"

primrec draw_log :: "(logcol \<times> wchar list) list \<Rightarrow> int \<Rightarrow> dcwin \<Rightarrow> dcwin" where
  "draw_log [] y w = w"
| "draw_log (l # ls) y w = draw_log ls (y + 15) (DCWinText 10 y (log_color (fst l)) C_BG (snd l) w)"

definition Draw :: "'w net \<Rightarrow> dcshared \<Rightarrow> int \<Rightarrow> 'w netd \<times> dcwin \<Rightarrow> ('w netd \<times> dcwin) option" where
  "Draw N sh cw s = (case s of (st, w) \<Rightarrow> do {
     let w = DCWinFillBg sh C_BG w;
     let w = DCWinFill 6 4 (cw - 12) 16 C_HDR w;
     let w = DCWinText 10 5 C_WHITE C_HDR (ws ''Network Diagnostics'') w;
     l \<leftarrow> status_line st;
     let w = DCWinText 8 24 (if g_nConn st = CN_UP then log_color C_OK else if g_nConn st = CN_FAILED
               then log_color C_FAIL else C_BLACK) C_BG l w;
     let w = DCWinText 8 44 C_BLACK C_BG (ws ''Target:'') w;
     let w = DCWinFill 58 42 (cw - 66) 18 C_WHITE w;
     let w = DCWinText 62 44 C_BLACK C_WHITE
               (if g_pszTarget st \<noteq> [] then g_pszTarget st else ws ''(type a host or IP)'') w;
     let w = fold (draw_key st) (List.product [0 ..< 4] [0 ..< 10]) w;
     let w = fold (draw_btn st) [0 ..< 8] w;
     (st, w) \<leftarrow> draw_progress N cw (st, w);
     let w = DCWinFill 6 256 (cw - 12) 1 (log_color C_MUTE) w;
     Some (st, draw_log (g_aLog st) 262 w) })"

section \<open>The loop\<close>

record 'w nloop =
  nl_st :: "'w netd"
  nl_win :: dcwin
  nl_sh :: dcshared
  nl_cw :: int
  nl_dirty :: bool
  nl_prev :: bool

text \<open>The keys: only Backspace is used. The fuel is the number of keys in the ring.\<close>

primrec net_keys :: "nat \<Rightarrow> 'w nloop \<Rightarrow> 'w nloop" where
  "net_keys 0 L = L"
| "net_keys (Suc n) L =
     (case DCWinPollKey (nl_sh L) (nl_win L) of
        None \<Rightarrow> L
      | Some (dwKey, sh) \<Rightarrow>
          net_keys n (if dwKey = VK_BACK then L\<lparr>nl_sh := sh, nl_st := EditBksp (nl_st L), nl_dirty := True\<rparr>
                      else L\<lparr>nl_sh := sh\<rparr>))"

definition hot_of :: "int \<Rightarrow> int \<Rightarrow> int \<times> int \<times> int" where
  "hot_of px py =
     (let (hr, hc) = (case key_at px py of Some (r, c) \<Rightarrow> (int r, int c) | None \<Rightarrow> (- 1, - 1));
          hb = (case btn_at px py of Some i \<Rightarrow> int i | None \<Rightarrow> - 1)
      in (hr, hc, hb))"

definition net_pointer :: "'w net \<Rightarrow> 'w nloop \<Rightarrow> 'w nloop option" where
  "net_pointer N L =
     (case DCWinGetPointer (nl_sh L) (nl_win L) of
        Some (px, py, nBtn) \<Rightarrow> do {
          let st = nl_st L;
          let (hr, hc, hb) = hot_of px py;
          let L = (if hr \<noteq> g_nHotR st \<or> hc \<noteq> g_nHotC st \<or> hb \<noteq> g_nHotBtn st
                   then L\<lparr>nl_st := st\<lparr>g_nHotR := hr, g_nHotC := hc, g_nHotBtn := hb\<rparr>, nl_dirty := True\<rparr> else L);
          L \<leftarrow> (if nBtn \<and> \<not> nl_prev L
               then do { (r, st) \<leftarrow> HandleClick N px py (nl_st L);
                         Some (L\<lparr>nl_st := st, nl_dirty := nl_dirty L \<or> r\<rparr>) }
               else Some L);
          Some (L\<lparr>nl_prev := nBtn\<rparr>) }
      | None \<Rightarrow>
          let st = nl_st L;
              L = (if g_nHotR st \<noteq> - 1 \<or> g_nHotBtn st \<noteq> - 1
                   then L\<lparr>nl_st := st\<lparr>g_nHotR := - 1, g_nHotC := - 1, g_nHotBtn := - 1\<rparr>, nl_dirty := True\<rparr> else L)
          in Some (L\<lparr>nl_prev := False\<rparr>))"

definition net_paint :: "'w net \<Rightarrow> 'w nloop \<Rightarrow> 'w nloop option" where
  "net_paint N L =
     (if nl_dirty L
      then do {
        (st, w) \<leftarrow> Draw N (nl_sh L) (nl_cw L) (nl_st L, DCWinBeginFrame (nl_win L));
        Some (L\<lparr>nl_st := st, nl_win := w, nl_sh := DCWinEndFrame w (nl_sh L), nl_dirty := False\<rparr>) }
      else Some L)"

text \<open>What \<open>DcwMain\<close> does after the loop.\<close>

definition net_exit :: "'w net \<Rightarrow> 'w nloop \<Rightarrow> 'w nloop" where
  "net_exit N L =
     (let st = DownloadFree (nl_st L);
          st = (if g_hConn st \<noteq> 0 then RasHangUp N (g_hConn st) st else st)
      in L\<lparr>nl_st := st, nl_sh := DCWinClose (nl_win L) (nl_sh L)\<rparr>)"

definition net_polls :: "'w net \<Rightarrow> 'w nloop \<Rightarrow> 'w nloop option" where
  "net_polls N L = do {
     (r, st) \<leftarrow> PollDial N (nl_st L);
     let L = L\<lparr>nl_st := st, nl_dirty := nl_dirty L \<or> r\<rparr>;
     (r, st) \<leftarrow> PollDownload N (nl_st L);
     Some (L\<lparr>nl_st := st, nl_dirty := nl_dirty L \<or> r\<rparr>) }"

definition net_turn :: "'w net \<Rightarrow> 'w nloop \<Rightarrow> (bool \<times> 'w nloop) option" where
  "net_turn N L = do {
     let ((r, cw, ch), w) = DCWinClientSize (nl_sh L) (nl_win L);
     let L = L\<lparr>nl_win := w, nl_cw := cw, nl_dirty := nl_dirty L \<or> r\<rparr>;
     let L = net_keys (ring_len (my_win (nl_sh L) (nl_win L))) L;
     L \<leftarrow> net_pointer N L;
     L \<leftarrow> net_polls N L;
     L \<leftarrow> net_paint N L;
     let L = L\<lparr>nl_dirty := nl_dirty L \<or> g_nConn (nl_st L) = CN_DIALING \<or> g_nDl (nl_st L) = DL_ACTIVE\<rparr>;
     Some (if DCWinShouldClose (nl_sh L) (nl_win L) then (True, net_exit N L) else (False, L)) }"

text \<open>The start of \<open>DcwMain\<close>, once the window is open.\<close>

definition net_main :: "'w net \<Rightarrow> 'w \<Rightarrow> dcwin \<Rightarrow> dcshared \<Rightarrow> 'w nloop option" where
  "net_main N sysw w sh = do {
     st \<leftarrow> RefreshLocalIp N (nd0 sysw);
     Some \<lparr>nl_st = LogC C_INFO (ws ''Point + A on Dial, then Test.'') st, nl_win = w, nl_sh = sh, nl_cw = 472,
           nl_dirty = True, nl_prev = False\<rparr> }"

section \<open>What every operation keeps\<close>

definition text_ok :: "wchar list \<Rightarrow> bool" where
  "text_ok s \<longleftrightarrow> length s \<le> 78 \<and> (\<forall>c \<in> set s. 0 < c \<and> c < 0x80)"

text \<open>\<open>xs\<close> are the sockets an operation has opened and not closed yet.\<close>

definition nd_inv :: "u32 list \<Rightarrow> 'w netd \<Rightarrow> bool" where
  "nd_inv xs st \<longleftrightarrow> dl_mem st \<and> text_ok (g_pszTarget st) \<and> length (g_pszIpStr st) \<le> 15 \<and> length (g_pszDnsStr st) \<le> 15
     \<and> nd_socks st = xs @ (if g_sockDl st = INVALID_SOCKET then [] else [g_sockDl st])
     \<and> (g_nDl st = DL_ACTIVE \<longleftrightarrow> g_sockDl st \<noteq> INVALID_SOCKET)"

abbreviation nd_ok :: "'w netd \<Rightarrow> bool" where "nd_ok \<equiv> nd_inv []"

lemma dl_mem_upd [simp]:
  "dl_mem (st\<lparr>sys := w\<rparr>) = dl_mem st" "dl_mem (st\<lparr>nd_socks := l\<rparr>) = dl_mem st" "dl_mem (st\<lparr>nd_conns := l\<rparr>) = dl_mem st"
  "dl_mem (st\<lparr>g_pszTarget := s\<rparr>) = dl_mem st" "dl_mem (st\<lparr>g_nConn := k\<rparr>) = dl_mem st" "dl_mem (st\<lparr>g_hConn := h\<rparr>) = dl_mem st"
  "dl_mem (st\<lparr>g_dwDialStart := h\<rparr>) = dl_mem st" "dl_mem (st\<lparr>g_pszIpStr := s\<rparr>) = dl_mem st"
  "dl_mem (st\<lparr>g_pszDnsStr := s\<rparr>) = dl_mem st" "dl_mem (st\<lparr>g_aLog := ls\<rparr>) = dl_mem st" "dl_mem (st\<lparr>g_nDl := d\<rparr>) = dl_mem st"
  "dl_mem (st\<lparr>g_sockDl := h\<rparr>) = dl_mem st" "dl_mem (st\<lparr>g_dwDlLastData := h\<rparr>) = dl_mem st"
  "dl_mem (st\<lparr>g_dwDlStart := h\<rparr>) = dl_mem st" "dl_mem (st\<lparr>g_dwDlEnd := h\<rparr>) = dl_mem st"
  "dl_mem (st\<lparr>g_nHotR := i\<rparr>) = dl_mem st" "dl_mem (st\<lparr>g_nHotC := i\<rparr>) = dl_mem st" "dl_mem (st\<lparr>g_nHotBtn := i\<rparr>) = dl_mem st"
  "dl_mem (LogC c s st) = dl_mem st"
  by (rule dl_sameD(1), simp add: dl_same_def hdr_def)+

lemma nd_inv_upd [simp]:
  "nd_inv xs (st\<lparr>sys := w\<rparr>) = nd_inv xs st" "nd_inv xs (st\<lparr>nd_conns := l\<rparr>) = nd_inv xs st"
  "nd_inv xs (st\<lparr>g_nConn := k\<rparr>) = nd_inv xs st" "nd_inv xs (st\<lparr>g_hConn := h\<rparr>) = nd_inv xs st"
  "nd_inv xs (st\<lparr>g_dwDialStart := h\<rparr>) = nd_inv xs st" "nd_inv xs (st\<lparr>g_aLog := ls\<rparr>) = nd_inv xs st"
  "nd_inv xs (st\<lparr>g_dwDlLastData := h\<rparr>) = nd_inv xs st" "nd_inv xs (st\<lparr>g_dwDlStart := h\<rparr>) = nd_inv xs st"
  "nd_inv xs (st\<lparr>g_dwDlEnd := h\<rparr>) = nd_inv xs st" "nd_inv xs (st\<lparr>g_nHotR := i\<rparr>) = nd_inv xs st"
  "nd_inv xs (st\<lparr>g_nHotC := i\<rparr>) = nd_inv xs st" "nd_inv xs (st\<lparr>g_nHotBtn := i\<rparr>) = nd_inv xs st"
  "nd_inv xs (LogC c s st) = nd_inv xs st"
  by (simp_all add: nd_inv_def)

lemma nd_inv_strs: "nd_inv xs st \<Longrightarrow> length s \<le> 15 \<Longrightarrow> nd_inv xs (st\<lparr>g_pszDnsStr := s\<rparr>)"
  "nd_inv xs st \<Longrightarrow> length s \<le> 15 \<Longrightarrow> nd_inv xs (st\<lparr>g_pszIpStr := s\<rparr>)"
  "nd_inv xs st \<Longrightarrow> text_ok s \<Longrightarrow> nd_inv xs (st\<lparr>g_pszTarget := s\<rparr>)"
  by (simp_all add: nd_inv_def)

lemma nd_inv_open: "nd_inv [] st \<Longrightarrow> open_socket N st = (s, t) \<Longrightarrow>
    nd_inv (if s = INVALID_SOCKET then [] else [s]) t \<and> g_nDl t = g_nDl st \<and> g_sockDl t = g_sockDl st"
  by (auto simp: open_socket_def nd_inv_def Let_def case_prod_beta)

lemma nd_inv_close: "nd_inv [s] st \<Longrightarrow> nd_inv [] (closesocket s st)"
  by (simp add: nd_inv_def closesocket_def)

lemma nd_inv_calls:
  "nd_inv xs (snd (GetTickCount N st)) = nd_inv xs st" "nd_inv xs (snd (connect N s a st)) = nd_inv xs st"
  "nd_inv xs (snd (getsockname N s st)) = nd_inv xs st" "nd_inv xs (snd (TryConnect N s a st)) = nd_inv xs st"
  "nd_inv xs (snd (gethostbyname N h st)) = nd_inv xs st" "nd_inv xs (send N s d st) = nd_inv xs st"
  "nd_inv xs (snd (recv N s n st)) = nd_inv xs st" "nd_inv xs (snd (RasDial N st)) = nd_inv xs st"
  "nd_inv xs (RasHangUp N hc st) = nd_inv xs st" "nd_inv xs (snd (dl_resolve N h st)) = nd_inv xs st"
  "nd_inv xs (snd (DownloadKbps N b st)) = nd_inv xs st"
  by (simp_all add: GetTickCount_def connect_def getsockname_def TryConnect_def gethostbyname_def send_def recv_def
      RasDial_def RasHangUp_def dl_resolve_def DownloadKbps_def Let_def case_prod_beta split: connres.split)

lemma nd_inv_call:
  "GetTickCount N st = (x, t) \<Longrightarrow> nd_inv xs st \<Longrightarrow> nd_inv xs t" "connect N s a st = (c, t) \<Longrightarrow> nd_inv xs st \<Longrightarrow> nd_inv xs t"
  "getsockname N s st = (r, t) \<Longrightarrow> nd_inv xs st \<Longrightarrow> nd_inv xs t" "TryConnect N s a st = (b, t) \<Longrightarrow> nd_inv xs st \<Longrightarrow> nd_inv xs t"
  "gethostbyname N h st = (r, t) \<Longrightarrow> nd_inv xs st \<Longrightarrow> nd_inv xs t" "recv N s n st = (d, t) \<Longrightarrow> nd_inv xs st \<Longrightarrow> nd_inv xs t"
  "RasDial N st = (x, t) \<Longrightarrow> nd_inv xs st \<Longrightarrow> nd_inv xs t" "dl_resolve N h st = (r, t) \<Longrightarrow> nd_inv xs st \<Longrightarrow> nd_inv xs t"
  "DownloadKbps N bn st = (x, t) \<Longrightarrow> nd_inv xs st \<Longrightarrow> nd_inv xs t"
  using nd_inv_calls by (metis snd_conv)+

subsection \<open>Addresses and dialling\<close>

lemma IpToStr_ok: "ok (IpToStr ip) (\<lambda>s. length s \<le> 15)"
proof -
  have d: "length (dec (unat (b :: byte))) \<le> 3" for b
    using dec_digits [of "unat b" 2] unat_byte_less [of b] by simp
  have "length (dotted m) \<le> 15" for m
    using d [of "m ! 0"] d [of "m ! 1"] d [of "m ! 2"] d [of "m ! 3"] by (simp add: dotted_def)
  from this [of "le32_bytes ip"] show ?thesis by (simp add: IpToStr_def wsprintf_def)
qed

lemma ok_IpToStr: "(\<And>s. length s \<le> 15 \<Longrightarrow> P s) \<Longrightarrow> ok (IpToStr ip) P"
  by (rule ok_mono [OF IpToStr_ok])

lemma RefreshLocalIp_ok:
  assumes "nd_ok st"
  shows "ok (RefreshLocalIp N st) nd_ok"
proof -
  let ?d = "ReadDns N st"
  have s: "ok (if ?d \<noteq> 0 then IpToStr ?d else Some (ws ''(none)'')) (\<lambda>s. length s \<le> 15)"
    by (auto intro: ok_IpToStr)
  show ?thesis unfolding RefreshLocalIp_def Let_def ok_bind
  proof (rule ok_mono [OF s])
    fix s :: "wchar list" assume "length s \<le> 15"
    define u where "u = st\<lparr>g_pszDnsStr := s, g_pszIpStr := ws ''-''\<rparr>"
    have u: "nd_ok u" unfolding u_def by (intro nd_inv_strs assms \<open>length s \<le> 15\<close>) simp
    obtain k t where t: "open_socket N u = (k, t)" by fastforce
    note o = nd_inv_open [OF u t]
    obtain c v where v: "connect N k ?d t = (c, v)" by fastforce
    obtain me w where w: "getsockname N k v = (me, w)" by fastforce
    show "ok (if ?d = 0 then Some (st\<lparr>g_pszDnsStr := s, g_pszIpStr := ws ''-''\<rparr>)
      else case open_socket N (st\<lparr>g_pszDnsStr := s, g_pszIpStr := ws ''-''\<rparr>) of (sock, st) \<Rightarrow>
        if sock = INVALID_SOCKET then Some st
        else case connect N sock ?d st of (c, st) \<Rightarrow>
          if c \<noteq> ConnOk then Some (closesocket sock st)
          else case getsockname N sock st of (me, st) \<Rightarrow>
            case me of None \<Rightarrow> Some (closesocket sock st)
            | Some ip \<Rightarrow> IpToStr ip \<bind> (\<lambda>s. Some (closesocket sock (st\<lparr>g_pszIpStr := s\<rparr>)))) nd_ok"
      unfolding u_def [symmetric] t v w prod.case
      using u o nd_inv_call(2) [OF v] nd_inv_call(3) [OF w]
      by (auto intro!: ok_IpToStr nd_inv_close nd_inv_strs split: option.split)
  qed
qed


lemma nd_invD: "nd_inv xs st \<Longrightarrow> length (g_pszIpStr st) \<le> 15 \<and> length (g_pszDnsStr st) \<le> 15 \<and> dl_mem st \<and> text_ok (g_pszTarget st)"
  by (simp add: nd_inv_def)

lemma unat_u32: "unat (x :: u32) < 2 ^ 32"
  using unsigned_less [of x] by simp

lemma DoDial_ok: "nd_ok st \<Longrightarrow> ok (DoDial N st) nd_ok"
proof -
  assume a: "nd_ok st"
  define u where "u = (LogC C_INFO (ws ''Dialing (RasDial)...'') (st\<lparr>g_aLog := []\<rparr>))"
  define v where "v = u\<lparr>sys := n_ras_entry N (sys u), g_hConn := 0\<rparr>"
  have v: "nd_ok v" using a by (simp add: v_def u_def)
  obtain rc t where t: "RasDial N v = (rc, t)" by fastforce
  have t': "nd_ok t" by (rule nd_inv_call(7) [OF t v])
  obtain x w where w: "GetTickCount N (t\<lparr>g_nConn := CN_DIALING\<rparr>) = (x, w)" by fastforce
  have "nd_ok w" by (rule nd_inv_call(1) [OF w]) (simp add: t')
  then show ?thesis unfolding DoDial_def Let_def u_def [symmetric] v_def [symmetric] t w prod.case
    using a t' unat_u32 [of rc] by (auto intro!: ok_LogF)
qed

lemma PollDial_ok: "nd_ok st \<Longrightarrow> ok (PollDial N st) (\<lambda>(r, t). nd_ok t)"
proof -
  assume a: "nd_ok st"
  obtain up err w where w: "n_ras_status N (g_hConn st) (sys st) = ((up, err), w)" by (metis prod.exhaust)
  let ?u = "st\<lparr>sys := w\<rparr>"
  obtain x t where t: "GetTickCount N ?u = (x, t)" by fastforce
  have t': "nd_ok t" by (rule nd_inv_call(1) [OF t]) (simp add: a)
  have "ok (do {
             st \<leftarrow> RefreshLocalIp N (?u\<lparr>g_nConn := CN_UP\<rparr>);
             let st = LogC C_OK (ws ''Connected.'') st;
             a \<leftarrow> wsprintf 58 (ws ''  IP  '' @ g_pszIpStr st);
             let st = LogC C_INFO a st;
             b \<leftarrow> wsprintf 58 (ws ''  DNS '' @ g_pszDnsStr st);
             Some (True, LogC C_INFO b st) }) (\<lambda>(r, t). nd_ok t)"
    unfolding Let_def ok_bind
    by (rule ok_mono [OF RefreshLocalIp_ok]) (auto simp: a wsprintf_def dest: nd_invD)
  then show ?thesis unfolding PollDial_def w t Let_def prod.case
    using a t' unat_u32 [of err] by (auto intro!: ok_LogF)
qed

lemma DoHangup_ok: "nd_ok st \<Longrightarrow> nd_ok (DoHangup N st)"
  by (simp add: DoHangup_def Let_def nd_inv_calls nd_inv_strs)

subsection \<open>Test and download\<close>

lemma text_okD: "text_ok s \<Longrightarrow> length s \<le> 78" "text_ok s \<Longrightarrow> c \<in> set s \<Longrightarrow> 0 < c \<and> c < 0x80"
  by (simp_all add: text_ok_def)

lemma split_length: "length (takeWhile P s) + length (dropWhile P s) = length s"
  by (metis length_append takeWhile_dropWhile_id)

text \<open>The two parts of the target, and the room they need.\<close>

lemma SplitTarget_eq:
  assumes "text_ok s"
  shows "SplitTarget s = Some (map ucast (takeWhile (\<lambda>c. c \<noteq> 0x2F) s),
    if dropWhile (\<lambda>c. c \<noteq> 0x2F) s = [] then [0x2F] else map ucast (dropWhile (\<lambda>c. c \<noteq> 0x2F) s))"
proof -
  have "length (takeWhile (\<lambda>c. c \<noteq> 0x2F) s) \<le> 78" "length (dropWhile (\<lambda>c. c \<noteq> 0x2F) s) \<le> 78"
    using split_length [of "\<lambda>c. c \<noteq> 0x2F" s] text_okD(1) [OF assms] by linarith+
  moreover have "\<forall>c \<in> set (takeWhile (\<lambda>c. c \<noteq> 0x2F) s). 0 < c \<and> c < 0x80"
    "\<forall>c \<in> set (dropWhile (\<lambda>c. c \<noteq> 0x2F) s). 0 < c \<and> c < 0x80"
    using assms by (auto simp: text_ok_def dest: set_takeWhileD set_dropWhileD)
  ultimately show ?thesis by (auto simp: SplitTarget_def to_ansi_def)
qed

definition request :: "byte list \<Rightarrow> byte list \<Rightarrow> byte list" where
  "request path host = asc ''GET '' @ path @ asc '' HTTP/1.0'' @ crlf @ asc ''Host: '' @ host
     @ crlf @ asc ''Connection: close'' @ crlf @ crlf"

lemma build_req_eq:
  assumes "length path + length host \<le> 79" and "150 \<le> lp" and "180 \<le> lh" and "200 \<le> cap"
  shows "build_req cap lp lh path host = Some (request path host)"
proof -
  have "take (lp - 4) path = path" "take (lh - (length path + 21)) host = host" using assms by simp_all
  then show ?thesis using assms by (simp add: build_req_def request_def asc_def crlf_def)
qed

lemma SplitTarget_ok:
  assumes "text_ok s"
  shows "ok (SplitTarget s) (\<lambda>(h, p). length p + length h \<le> 79)"
  using split_length [of "\<lambda>c. c \<noteq> 0x2F" s] text_okD(1) [OF assms] by (simp add: SplitTarget_eq [OF assms])

lemma http_probe_ok:
  assumes "nd_inv xs st" and "length path + length host \<le> 79"
  shows "ok (http_probe N k host path st) (nd_inv xs)"
proof -
  have b: "build_req 200 150 180 path host = Some (request path host)" by (rule build_req_eq [OF assms(2)]) simp_all
  define u where "u = send N k (request path host) st"
  have u: "nd_inv xs u" using assms(1) by (simp add: u_def nd_inv_calls)
  obtain r w where w: "n_readable N k (sys u) = (r, w)" by fastforce
  obtain a v where v: "recv N k 511 (u\<lparr>sys := w\<rparr>) = (a, v)" by fastforce
  have v': "nd_inv xs v" by (rule nd_inv_call(6) [OF v]) (simp add: u)
  have l: "length d \<le> 511" if "a = Bytes d" for d
    using v that by (auto simp: recv_def Let_def case_prod_beta split: recvd.splits)
  show ?thesis unfolding http_probe_def b Option.bind.bind_lunit Let_def u_def [symmetric] w prod.case
    using u v v' l
    by (cases r; cases a) (auto intro!: ok_LogF dest!: l)
qed

lemma test_resolve_ok: "nd_ok st \<Longrightarrow> ok (test_resolve N h st) (\<lambda>(a, t). nd_ok t)"
proof -
  assume a: "nd_ok st"
  obtain r t where t: "gethostbyname N h st = (r, t)" by fastforce
  have "nd_ok t" by (rule nd_inv_call(5) [OF t a])
  then show ?thesis unfolding test_resolve_def t prod.case Let_def
    using a by (auto intro!: ok_IpToStr simp: wsprintf_def split: option.split)
qed

lemma DoTest_ok:
  assumes a: "nd_ok st"
  shows "ok (DoTest N st) nd_ok"
proof -
  define u where "u = (let st = st\<lparr>g_aLog := []\<rparr> in if g_nConn st \<noteq> CN_UP
    then LogC C_MUTE (ws ''(not dialed - testing anyway)'') st else st)"
  have u: "nd_ok u" using a by (simp add: u_def Let_def)
  obtain h p where hp: "SplitTarget (g_pszTarget u) = Some (h, p)" "length p + length h \<le> 79"
    using SplitTarget_ok [of "g_pszTarget u"] nd_invD [OF u] by (auto elim!: okE)
  obtain a t where t: "test_resolve N h u = Some (a, t)" "nd_ok t"
    using test_resolve_ok [OF u, of N h] by (auto elim!: okE)
  obtain k v where v: "open_socket N t = (k, v)" by fastforce
  note o = nd_inv_open [OF t(2) v]
  have e: "DoTest N st = (case a of None \<Rightarrow> Some t | Some ip \<Rightarrow>
      if k = INVALID_SOCKET then Some (LogC C_FAIL (ws ''socket() failed'') v)
      else case TryConnect N k ip v of (c, st) \<Rightarrow>
        if \<not> c then Some (closesocket k (LogC C_FAIL (ws ''TCP connect :80 FAILED'') st))
        else http_probe N k h p (LogC C_OK (ws ''TCP connect :80 OK'') st) \<bind> (\<lambda>st. Some (closesocket k st)))"
    using hp(1) t(1) v by (simp add: DoTest_def u_def Let_def split: option.split)
  show ?thesis
  proof (cases a)
    case None
    then show ?thesis using e t(2) by simp
  next
    case (Some ip)
    obtain c w where w: "TryConnect N k ip v = (c, w)" by fastforce
    have "nd_inv [k] w" if "k \<noteq> INVALID_SOCKET" using that o nd_inv_call(4) [OF w] by simp
    then show ?thesis unfolding e Some option.case w prod.case
      using o by (auto intro!: nd_inv_close ok_mono [OF http_probe_ok [OF _ hp(2)]])
  qed
qed


lemma DownloadFree_frame [simp]:
  "g_nDl (DownloadFree st) = g_nDl st" "g_sockDl (DownloadFree st) = INVALID_SOCKET"
  "nd_socks (DownloadFree st) = (if g_sockDl st \<noteq> INVALID_SOCKET then remove1 (g_sockDl st) (nd_socks st) else nd_socks st)"
  "g_pszTarget (DownloadFree st) = g_pszTarget st" "g_pszIpStr (DownloadFree st) = g_pszIpStr st"
  "g_pszDnsStr (DownloadFree st) = g_pszDnsStr st" "g_hConn (DownloadFree st) = g_hConn st" "nd_conns (DownloadFree st) = nd_conns st"
  by (simp_all add: DownloadFree_def Let_def closesocket_def LocalFree_def)

lemma DownloadFree_ok: "nd_ok st \<Longrightarrow> g_nDl st \<noteq> DL_ACTIVE \<Longrightarrow> nd_ok (DownloadFree st)"
  using DownloadFree_mem(1) [of st] by (auto simp: nd_inv_def)

lemma nd_inv_fail: "nd_inv xs st \<Longrightarrow> g_sockDl st = INVALID_SOCKET \<Longrightarrow> nd_inv xs (st\<lparr>g_nDl := DL_FAIL\<rparr>)"
  by (simp add: nd_inv_def)

lemma nd_inv_idle: "nd_inv xs st \<Longrightarrow> g_nDl st \<noteq> DL_ACTIVE \<Longrightarrow> g_sockDl st = INVALID_SOCKET"
  by (simp add: nd_inv_def)

lemma call_dl:
  "TryConnect N s a st = (b, t) \<Longrightarrow> g_nDl t = g_nDl st \<and> g_sockDl t = g_sockDl st \<and> nd_socks t = nd_socks st"
  "dl_resolve N h st = (r, t) \<Longrightarrow> g_nDl t = g_nDl st \<and> g_sockDl t = g_sockDl st \<and> g_pszTarget t = g_pszTarget st"
  by (auto simp: TryConnect_def connect_def dl_resolve_def gethostbyname_def Let_def case_prod_beta
      split: connres.splits if_splits)

lemma dl_start_ok:
  assumes a: "nd_ok st" and d: "g_nDl st \<noteq> DL_ACTIVE" and l: "length path + length host \<le> 79"
  shows "ok (dl_start N host path ip st) nd_ok"
proof -
  obtain k t where t: "open_socket N st = (k, t)" by fastforce
  note o = nd_inv_open [OF a t]
  obtain c v where v: "TryConnect N k ip t = (c, v)" by fastforce
  have s: "g_sockDl v = INVALID_SOCKET" "g_nDl v \<noteq> DL_ACTIVE"
    using call_dl(1) [OF v] o nd_inv_idle [OF a d] d by simp_all
  have b: "build_req 220 160 200 path host = Some (request path host)" by (rule build_req_eq [OF l]) simp_all
  define w where "w = send N k (request path host) (LogC C_OK (ws ''connected - downloading...'') v)"
  obtain x y where y: "GetTickCount N (w\<lparr>g_sockDl := k, g_nDl := DL_ACTIVE\<rparr>) = (x, y)" by fastforce
  show ?thesis
  proof (cases "k = INVALID_SOCKET")
    case True
    then show ?thesis using o nd_inv_idle [OF a d] by (simp add: dl_start_def t nd_inv_fail)
  next
    case False
    have v': "nd_inv [k] v" using False o nd_inv_call(4) [OF v] by simp
    have "nd_inv [k] w" using v' by (simp add: w_def nd_inv_calls)
    moreover have "g_sockDl w = INVALID_SOCKET" using s by (simp add: w_def send_def)
    ultimately have "nd_ok (w\<lparr>g_sockDl := k, g_nDl := DL_ACTIVE\<rparr>)" using False by (simp add: nd_inv_def)
    then have y': "nd_ok y" by (rule nd_inv_call(1) [OF y])
    have "nd_ok ((closesocket k (LogC C_FAIL (ws ''TCP connect :80 FAILED'') v))\<lparr>g_nDl := DL_FAIL\<rparr>)"
      by (rule nd_inv_fail, rule nd_inv_close) (use v' s in \<open>simp_all add: closesocket_def\<close>)
    then show ?thesis unfolding dl_start_def t v prod.case b Option.bind.bind_lunit Let_def w_def [symmetric] y
      using False y' by simp
  qed
qed

lemma DoDownloadStart_ok:
  assumes a: "nd_ok st"
  shows "ok (DoDownloadStart N st) nd_ok"
proof (cases "g_nDl st = DL_ACTIVE")
  case True
  then show ?thesis using a by (simp add: DoDownloadStart_def)
next
  case False
  define u where "u = (DownloadFree st)\<lparr>g_aLog := []\<rparr>"
  have u: "nd_ok u" using DownloadFree_ok [OF a False] by (simp add: u_def)
  have ud: "g_nDl u \<noteq> DL_ACTIVE" using False by (simp add: u_def)
  obtain h p where hp: "SplitTarget (g_pszTarget u) = Some (h, p)" "length p + length h \<le> 79"
    using SplitTarget_ok [of "g_pszTarget u"] nd_invD [OF u] by (auto elim!: okE)
  obtain r t where t: "dl_resolve N h u = (r, t)" by fastforce
  have t': "nd_ok t" by (rule nd_inv_call(8) [OF t u])
  have td: "g_nDl t \<noteq> DL_ACTIVE" using call_dl(2) [OF t] ud by simp
  have e: "DoDownloadStart N st = (case r of None \<Rightarrow> Some ((LogC C_FAIL (ws ''DNS resolve FAILED'') t)\<lparr>g_nDl := DL_FAIL\<rparr>)
        | Some ip \<Rightarrow> do { s \<leftarrow> IpToStr ip; b \<leftarrow> wsprintf 58 (ws ''GET from '' @ s); dl_start N h p ip (LogC C_INFO b t) })"
    using False hp(1) t by (simp add: DoDownloadStart_def u_def Let_def split: option.split)
  show ?thesis
  proof (cases r)
    case None
    then show ?thesis unfolding e using nd_inv_fail [of "[]" "LogC C_FAIL (ws ''DNS resolve FAILED'') t"]
        t' nd_inv_idle [OF t' td] by simp
  next
    case (Some ip)
    then show ?thesis unfolding e
      using t' td hp(2) by (auto intro!: ok_IpToStr dl_start_ok simp: wsprintf_def)
  qed
qed

subsection \<open>The poll\<close>

lemma nd_inv_frame: "nd_inv xs st \<Longrightarrow> nd_frame st t \<Longrightarrow> dl_mem t \<Longrightarrow> nd_inv xs t"
  by (simp add: nd_inv_def nd_frame_def)

lemma nd_inv_done: "nd_ok st \<Longrightarrow> dl_done st t \<Longrightarrow> g_nDl t \<noteq> DL_ACTIVE \<Longrightarrow> nd_ok t"
  using dl_sameD(1) [of st t] by (auto simp: nd_inv_def dl_done_def ui_same_def)

lemma Finish_inv: "nd_ok st \<Longrightarrow> ok (DownloadFinish N st) nd_ok"
  by (rule ok_mono [OF Finish_ok]) (auto simp: nd_inv_done dest: nd_invD)

lemma dl_fail_done: "dl_done st (close_dl (dl_fail N m st))" "g_nDl (close_dl (dl_fail N m st)) = DL_FAIL"
  by (simp_all add: dl_fail_def close_dl_def closesocket_def GetTickCount_def case_prod_beta Let_def dl_done_def
      dl_same_def ui_same_def hdr_def)

lemma recv_act: "recv N k n st = (r, t) \<Longrightarrow> g_nDl t = g_nDl st \<and> g_sockDl t = g_sockDl st"
  by (auto simp: recv_def Let_def case_prod_beta)

lemma dl_drain_ok: "nd_ok st \<Longrightarrow> g_nDl st = DL_ACTIVE \<Longrightarrow> ok (dl_drain N b st) (\<lambda>(r, t). nd_ok t \<and> (\<not> r \<longrightarrow> g_nDl t = DL_ACTIVE))"
proof (induction "262144 - b" arbitrary: b st rule: less_induct)
  case less
  obtain r t where t: "recv N (g_sockDl st) 8192 st = (r, t)" by fastforce
  have t': "nd_ok t" "g_nDl t = DL_ACTIVE" "g_sockDl t \<noteq> INVALID_SOCKET"
    using nd_inv_call(6) [OF t less.prems(1)] recv_act [OF t] less.prems by (simp_all add: nd_inv_def)
  show ?case
  proof (cases r)
    case WouldBlock
    then show ?thesis using t t' by (subst dl_drain.simps) simp
  next
    case RecvErr
    let ?f = "dl_fail N (ws ''recv error'') t"
    have "(closesocket (g_sockDl ?f) ?f)\<lparr>g_sockDl := INVALID_SOCKET\<rparr> = close_dl ?f"
      using t'(3) by (simp add: close_dl_def dl_fail_def GetTickCount_def case_prod_beta Let_def)
    then have e: "dl_drain N b st = Some (True, close_dl ?f)"
      using t RecvErr by (subst dl_drain.simps) (simp add: Let_def)
    show ?thesis unfolding e using nd_inv_done [OF t'(1) dl_fail_done(1)] dl_fail_done(2) [of N _ t] by simp
  next
    case (Bytes d)
    show ?thesis
    proof (cases "d = []")
      case True
      then show ?thesis using t t' Bytes by (subst dl_drain.simps) (simp add: ok_mono [OF Finish_inv])
    next
      case False
      have "dl_mem t" using nd_invD [OF t'(1)] by blast
      from Append_ok [OF this, of N d] obtain u where u: "DownloadAppend N d t = Some u" "nd_frame t u" "dl_mem u"
        by (elim okE) auto
      have u': "nd_ok u" "g_nDl u = DL_ACTIVE" using nd_inv_frame [OF t'(1) u(2,3)] u(2) t'(2) by (simp_all add: nd_frame_def)
      obtain x v where v: "GetTickCount N u = (x, v)" by fastforce
      define y where "y = v\<lparr>g_dwDlLastData := x\<rparr>"
      have y: "nd_ok y" "g_nDl y = DL_ACTIVE"
        using nd_inv_call(1) [OF v u'(1)] v u'(2) by (auto simp: y_def GetTickCount_def Let_def case_prod_beta)
      have e: "dl_drain N b st = (if g_dwDlTotal y \<noteq> 0 \<and> DownloadBody y \<ge> g_dwDlTotal y
        then map_option (Pair True) (DownloadFinish N y)
        else if b + length d \<ge> 262144 then Some (False, y) else dl_drain N (b + length d) y)"
        using t Bytes False u(1) v by (subst dl_drain.simps) (simp add: y_def)
      have "ok (dl_drain N (b + length d) y) (\<lambda>(r, t). nd_ok t \<and> (\<not> r \<longrightarrow> g_nDl t = DL_ACTIVE))" if "\<not> b + length d \<ge> 262144"
        by (rule less.hyps [OF _ y]) (rule budget_less, use False that in simp_all)
      then show ?thesis unfolding e using y by (auto intro!: ok_if simp: ok_mono [OF Finish_inv])
    qed
  qed
qed

lemma PollDownload_ok:
  assumes a: "nd_ok st"
  shows "ok (PollDownload N st) (\<lambda>(r, t). nd_ok t)"
proof (cases "g_nDl st = DL_ACTIVE")
  case False
  then show ?thesis using a by (simp add: PollDownload_def)
next
  case True
  obtain r t where t: "dl_drain N 0 st = Some (r, t)" "nd_ok t"
    using dl_drain_ok [OF a True, of N 0] by (elim okE) auto
  obtain x u where u: "GetTickCount N t = (x, u)" by fastforce
  have u': "nd_ok u" by (rule nd_inv_call(1) [OF u t(2)])
  have f: "nd_ok (close_dl (dl_fail N m u))" for m
    using nd_inv_done [OF u' dl_fail_done(1)] dl_fail_done(2) [of N m u] by simp
  show ?thesis using True t u u' f by (simp add: PollDownload_def)
qed


subsection \<open>Keyboard and buttons\<close>

lemma text_ok_edit:
  "text_ok s \<Longrightarrow> length s < 78 \<Longrightarrow> 0 < c \<Longrightarrow> c < 0x80 \<Longrightarrow> text_ok (s @ [c])"
  "text_ok s \<Longrightarrow> text_ok (butlast s)"
  "text_ok s \<Longrightarrow> text_ok p \<Longrightarrow> text_ok (s @ take (78 - length s) p)"
  by (auto simp: text_ok_def dest: in_set_butlastD in_set_takeD)

lemma Edit_ok:
  "nd_ok st \<Longrightarrow> 0 < c \<Longrightarrow> c < 0x80 \<Longrightarrow> nd_ok (EditAppendCh c st)"
  "nd_ok st \<Longrightarrow> text_ok p \<Longrightarrow> nd_ok (EditAppendStr p st)"
  "nd_ok st \<Longrightarrow> nd_ok (EditBksp st)"
  by (auto simp: EditAppendCh_def EditAppendStr_def EditBksp_def intro!: nd_inv_strs text_ok_edit dest: nd_invD)

lemma press_btn_ok: "nd_ok st \<Longrightarrow> ok (press_btn N i st) nd_ok"
  by (auto simp: press_btn_def text_ok_def ws_def intro!: Edit_ok nd_inv_strs DoDial_ok DoTest_ok DoDownloadStart_ok DoHangup_ok)

lemma find_product: "List.find P (List.product [0 ..< m] [0 ..< n]) = Some (r, c) \<Longrightarrow> r < m \<and> c < n"
proof -
  assume "List.find P (List.product [0 ..< m] [0 ..< n]) = Some (r, c)"
  then have "(r, c) \<in> set (List.product [0 ..< m] [0 ..< n])" by (metis find_Some_iff nth_mem)
  then show ?thesis by simp
qed

lemma kbRows_ascii: "r < 4 \<Longrightarrow> c < 10 \<Longrightarrow> 0 < kbRows ! r ! c \<and> kbRows ! r ! c < 0x80"
proof -
  have rows: "\<forall>k \<in> set kbRows. length k = 10 \<and> (\<forall>x \<in> set k. 0 < x \<and> x < 0x80)" by (simp add: kbRows_def ws_def)
  assume r: "r < 4" and c: "c < 10"
  have "kbRows ! r \<in> set kbRows" using r by (intro nth_mem) (simp add: kbRows_def)
  with rows have "length (kbRows ! r) = 10" "\<forall>x \<in> set (kbRows ! r). 0 < x \<and> x < 0x80" by blast+
  with c show ?thesis by (metis nth_mem)
qed

lemma NetClick_ok:
  assumes a: "nd_ok st"
  shows "ok (HandleClick N x y st) (\<lambda>(r, t). nd_ok t)"
proof (cases "key_at x y")
  case None
  then show ?thesis using a press_btn_ok [OF a] by (auto simp: HandleClick_def split: option.split)
next
  case (Some rc)
  obtain r c where rc: "rc = (r, c)" by fastforce
  have "r < 4 \<and> c < 10" using Some find_product unfolding key_at_def rc by blast
  then show ?thesis using Some rc a kbRows_ascii [of r c] by (simp add: HandleClick_def Edit_ok(1))
qed

subsection \<open>The picture\<close>

lemma ConnText_length: "length (ConnText c) \<le> 10"
  by (cases c) (simp_all add: ConnText_def)

lemma status_line_ok: "nd_ok st \<Longrightarrow> ok (status_line st) (\<lambda>l. length l \<le> 63)"
proof -
  assume "nd_ok st"
  then have "length (g_pszIpStr st) \<le> 15" "length (g_pszDnsStr st) \<le> 15" using nd_invD by blast+
  with ConnText_length [of "g_nConn st"] show ?thesis by (simp add: status_line_def wsprintf_def)
qed

lemma dl_percent_less: "dl_mem st \<Longrightarrow> dl_percent (DownloadBody st) st < 2 ^ 32"
proof -
  assume "dl_mem st"
  then have "DownloadBody st < 2 ^ 32" by (rule body_less)
  then have "DownloadBody st div 1024 * 100 < 2 ^ 32" by simp
  then have "DownloadBody st div 1024 * 100 div (g_dwDlTotal st div 1024 + 1) < 2 ^ 32"
    using div_le_dividend le_less_trans by blast
  then show ?thesis by (simp add: dl_percent_def)
qed

lemma progress_line_ok:
  assumes m: "dl_mem st" and s: "length sp < 24"
  shows "ok (progress_line (DownloadBody st) sp st) (\<lambda>l. length l < 96)"
  using dec_small [OF body_less [OF m]] dec_small [OF total_less [OF m]] dec_small [OF dl_percent_less [OF m]] s
  by (simp add: progress_line_def Let_def wsprintf_def)

lemma Kbps_dl: "DownloadKbps N b st = (k, t) \<Longrightarrow> dl_same st t \<and> g_nDl t = g_nDl st"
  by (auto simp: DownloadKbps_def GetTickCount_def dl_same_def hdr_def Let_def case_prod_beta split: if_splits)

lemma draw_progress_ok:
  assumes a: "nd_ok st"
  shows "ok (draw_progress N cw (st, w)) (\<lambda>(t, w'). nd_ok t)"
proof (cases "g_nDl st = DL_IDLE")
  case True
  then show ?thesis using a by (simp add: draw_progress_def)
next
  case False
  obtain k t where t: "DownloadKbps N (DownloadBody st) st = (k, t)" by fastforce
  have t': "nd_ok t" by (rule nd_inv_call(9) [OF t a])
  obtain sp where sp: "SpeedStr k = Some sp" "length sp < 24" using SpeedStr_fits by blast
  have "dl_mem t" using nd_invD [OF t'] by blast
  moreover have "DownloadBody t = DownloadBody st" using dl_sameD(4) Kbps_dl [OF t] by blast
  ultimately have "ok (progress_line (DownloadBody st) sp t) (\<lambda>l. length l < 96)"
    using progress_line_ok [of t sp] sp(2) by simp
  then show ?thesis unfolding draw_progress_def using False t t' sp(1)
    by (auto simp: Let_def intro: ok_mono)
qed

lemma Draw_ok: "nd_ok st \<Longrightarrow> ok (Draw N sh cw (st, w)) (\<lambda>(t, w'). nd_ok t)"
proof -
  assume a: "nd_ok st"
  show ?thesis unfolding Draw_def prod.case Let_def ok_bind
    by (rule ok_mono [OF status_line_ok [OF a]], rule ok_mono [OF draw_progress_ok [OF a]]) auto
qed

subsection \<open>The loop\<close>

lemma net_keys_ok: "nd_ok (nl_st L) \<Longrightarrow> nd_ok (nl_st (net_keys n L))"
  by (induction n arbitrary: L) (auto simp: Edit_ok(3) split: option.split)

lemma net_pointer_ok: "nd_ok (nl_st L) \<Longrightarrow> ok (net_pointer N L) (\<lambda>L. nd_ok (nl_st L))"
proof -
  assume a: "nd_ok (nl_st L)"
  show ?thesis
  proof (cases "DCWinGetPointer (nl_sh L) (nl_win L)")
    case None
    then show ?thesis using a by (simp add: net_pointer_def Let_def)
  next
    case (Some p)
    obtain px py b where p: "p = (px, py, b)" by (metis prod.exhaust)
    obtain hr hc hb where h: "hot_of px py = (hr, hc, hb)" by (metis prod.exhaust)
    define M where "M = (let st = nl_st L in if hr \<noteq> g_nHotR st \<or> hc \<noteq> g_nHotC st \<or> hb \<noteq> g_nHotBtn st
       then L\<lparr>nl_st := st\<lparr>g_nHotR := hr, g_nHotC := hc, g_nHotBtn := hb\<rparr>, nl_dirty := True\<rparr> else L)"
    have M: "nd_ok (nl_st M)" using a by (simp add: M_def Let_def)
    have "ok (if b \<and> \<not> nl_prev M then do { (r, st) \<leftarrow> HandleClick N px py (nl_st M);
         Some (M\<lparr>nl_st := st, nl_dirty := nl_dirty M \<or> r\<rparr>) } else Some M) (\<lambda>L. nd_ok (nl_st L))"
      using M NetClick_ok [OF M, of N px py] by (auto elim!: ok_mono)
    then show ?thesis unfolding net_pointer_def Some p option.case prod.case h Let_def M_def
      by (auto elim!: ok_mono)
  qed
qed

lemma net_paint_ok: "nd_ok (nl_st L) \<Longrightarrow> ok (net_paint N L) (\<lambda>L. nd_ok (nl_st L))"
  using Draw_ok [of "nl_st L" N "nl_sh L" "nl_cw L" "DCWinBeginFrame (nl_win L)"]
  by (auto simp: net_paint_def elim!: ok_mono)

text \<open>After \<open>DcwMain\<close> the client holds no socket and no memory.\<close>

definition nd_released :: "'w netd \<Rightarrow> bool" where
  "nd_released st \<longleftrightarrow> nd_socks st = [] \<and> nd_blocks st = 0 \<and> g_pbDlBuf st = None"

lemma net_exit_ok: "nd_ok (nl_st L) \<Longrightarrow> nd_released (nl_st (net_exit N L))"
proof -
  assume a: "nd_ok (nl_st L)"
  let ?s = "DownloadFree (nl_st L)"
  have "nd_blocks ?s = 0" using DownloadFree_mem(3) nd_invD [OF a] by blast
  moreover have "nd_socks ?s = []" using a by (simp add: nd_inv_def)
  moreover have "g_pbDlBuf ?s = None" by (simp add: DownloadFree_def Let_def LocalFree_def closesocket_def)
  ultimately show ?thesis by (simp add: net_exit_def Let_def nd_released_def RasHangUp_def)
qed

definition nl_ok :: "bool \<times> 'w nloop \<Rightarrow> bool" where
  "nl_ok r \<longleftrightarrow> (if fst r then nd_released (nl_st (snd r)) else nd_ok (nl_st (snd r)))"

lemma net_polls_ok: "nd_ok (nl_st L) \<Longrightarrow> ok (net_polls N L) (\<lambda>L. nd_ok (nl_st L))"
proof -
  assume a: "nd_ok (nl_st L)"
  obtain r st where st: "PollDial N (nl_st L) = Some (r, st)" "nd_ok st"
    using PollDial_ok [OF a, of N] by (elim okE) auto
  obtain r' u where u: "PollDownload N st = Some (r', u)" "nd_ok u"
    using PollDownload_ok [OF st(2), of N] by (elim okE) auto
  show ?thesis by (simp add: net_polls_def st u)
qed

lemma net_turn_ok: "nd_ok (nl_st L) \<Longrightarrow> ok (net_turn N L) nl_ok"
proof -
  assume a: "nd_ok (nl_st L)"
  obtain r cw ch w where w: "DCWinClientSize (nl_sh L) (nl_win L) = ((r, cw, ch), w)" by (metis prod.exhaust)
  define L1 where "L1 = L\<lparr>nl_win := w, nl_cw := cw, nl_dirty := nl_dirty L \<or> r\<rparr>"
  define L2 where "L2 = net_keys (ring_len (my_win (nl_sh L1) (nl_win L1))) L1"
  have 2: "nd_ok (nl_st L2)" unfolding L2_def by (rule net_keys_ok) (simp add: L1_def a)
  obtain L3 where 3: "net_pointer N L2 = Some L3" "nd_ok (nl_st L3)" using net_pointer_ok [OF 2] by (rule okE)
  obtain L4 where 4: "net_polls N L3 = Some L4" "nd_ok (nl_st L4)" using net_polls_ok [OF 3(2)] by (rule okE)
  obtain L5 where 5: "net_paint N L4 = Some L5" "nd_ok (nl_st L5)" using net_paint_ok [OF 4(2)] by (rule okE)
  show ?thesis unfolding net_turn_def w prod.case Let_def L1_def [symmetric] L2_def [symmetric]
    using 3 4 5 by (auto simp: nl_ok_def intro!: net_exit_ok)
qed

section \<open>Every run of the client\<close>

text \<open>Between two turns the shell may change the shared section in any way.\<close>

inductive net_reach :: "'w net \<Rightarrow> 'w nloop \<Rightarrow> bool" for N where
  start: "net_main N sysw w sh = Some L \<Longrightarrow> net_reach N L"
| turn: "net_reach N L \<Longrightarrow> net_turn N (L\<lparr>nl_sh := sh\<rparr>) = Some (False, L') \<Longrightarrow> net_reach N L'"

lemma nd0_ok: "nd_ok (nd0 w)"
  using nd0_mem(1) [of w] by (simp add: nd_inv_def nd0_def text_ok_def ws_def)

lemma net_main_ok: "ok (net_main N sysw w sh) (\<lambda>L. nd_ok (nl_st L))"
  unfolding net_main_def ok_bind by (rule ok_mono [OF RefreshLocalIp_ok [OF nd0_ok]]) simp

lemma net_reach_ok: "net_reach N L \<Longrightarrow> nd_ok (nl_st L)"
proof (induction rule: net_reach.induct)
  case (start sysw w sh L)
  then show ?case using net_main_ok [of N sysw w sh] by simp
next
  case (turn L sh L')
  then show ?case using net_turn_ok [of "L\<lparr>nl_sh := sh\<rparr>" N] by (simp add: nl_ok_def)
qed



section \<open>The request\<close>

lemma ucast_ascii: "(c :: wchar) < 0x80 \<Longrightarrow> ucast c = (0x2F :: byte) \<Longrightarrow> c = 0x2F"
proof -
  assume a: "c < 0x80" and u: "ucast c = (0x2F :: byte)"
  have "unat (ucast c :: byte) = take_bit 8 (unat c)"
    using unsigned_ucast_eq [of c, where ?'a = nat and ?'c = 8] by simp
  moreover have "unat c < 128" using a by (simp add: word_less_nat_alt)
  ultimately have "unat c = unat (0x2F :: wchar)" using u by (simp add: take_bit_eq_mod)
  then show ?thesis by (simp only: word_unat_eq_iff)
qed



lemma text_sample: "text_ok (ws ''a.b/c'')"
  by (simp add: text_ok_def ws_def)


section \<open>Connections\<close>

text \<open>
  A dial that failed or timed out keeps its handle, and the next dial overwrites the handle
  without hanging up: the old connection is still open after the client has ended.
\<close>

lemma failed_dial:
  "PollDial N st = Some (True, t) \<Longrightarrow> g_nConn t = CN_FAILED \<Longrightarrow> g_hConn t = g_hConn st \<and> nd_conns t = nd_conns st"
proof -
  assume p: "PollDial N st = Some (True, t)" and f: "g_nConn t = CN_FAILED"
  obtain up err w where w: "n_ras_status N (g_hConn st) (sys st) = ((up, err), w)" by (metis prod.exhaust)
  show ?thesis
  proof (cases up)
    case False
    then show ?thesis using p w
      by (auto simp: PollDial_def LogF_def wsprintf_def GetTickCount_def Let_def case_prod_beta bind_eq_Some_conv
          split: if_splits)
  next
    case True
    have "g_nConn u = CN_UP" if "RefreshLocalIp N v = Some u" "g_nConn v = CN_UP" for u v :: "'a netd"
      using that
      by (auto simp: RefreshLocalIp_def open_socket_def connect_def getsockname_def closesocket_def Let_def case_prod_beta
          bind_eq_Some_conv split: if_splits option.splits)
    then show ?thesis using p f w True
      by (auto simp: PollDial_def Let_def bind_eq_Some_conv split: if_splits)
  qed
qed

lemma Dial_leaks:
  assumes "PollDial N st = Some (True, t)" and "g_nConn t = CN_FAILED" and "g_hConn st \<in> set (nd_conns st)"
    and "DoDial N t = Some u" and "g_hConn u \<noteq> g_hConn st"
  shows "g_hConn st \<in> set (nd_conns (nl_st (net_exit N (L\<lparr>nl_st := u\<rparr>))))"
proof -
  have t: "g_hConn t = g_hConn st" "nd_conns t = nd_conns st" using failed_dial [OF assms(1,2)] by simp_all
  have "g_hConn st \<in> set (nd_conns u)"
    using assms(2,3,4) t
    by (auto simp: DoDial_def RasDial_def LogF_def wsprintf_def GetTickCount_def Let_def case_prod_beta bind_eq_Some_conv
        split: if_splits)
  then show ?thesis using assms(5) by (simp add: net_exit_def Let_def RasHangUp_def)
qed

end
