(* ===== verification/Sdcard.thy ===== *)
theory Sdcard
  imports Prelude
begin

text \<open>
  The file-system driver of the SD card, \<open>drivers/sdcard/sdcard.c\<close>: the three call tables
  that Windows CE calls for the volume \<open>\External Storage\<close>, for open files and for open
  searches, and their translation to FatFs.

  FatFs (vendored) is a parameter, the record \<open>fatfs\<close> of the functions the driver calls,
  over its own state, file objects and directory objects. Objects from \<open>LocalAlloc\<close> are in a
  heap; using one that is not there, or of the wrong kind, or freeing one twice, is \<open>None\<close>.
  The state records every lock, unlock and FatFs call in order, since the driver's one
  critical section has to cover all of FatFs (its long-name buffer is static). Results of
  \<open>LocalAlloc\<close> and \<open>CreateAPIHandle\<close> are arguments. Log lines are left out.
\<close>

type_synonym wstr = "wchar list"

section \<open>FatFs as the driver sees it\<close>

record finfo =
  fi_fname :: wstr
  fi_lfn :: wstr
  fi_attr :: byte
  fi_size :: u32
  fi_date :: u16
  fi_time :: u16

record ('s, 'f, 'd) fatfs =
  f_mkdir :: "wstr \<Rightarrow> 's \<Rightarrow> nat \<times> 's"
  f_unlink :: "wstr \<Rightarrow> 's \<Rightarrow> nat \<times> 's"
  f_stat :: "wstr \<Rightarrow> 's \<Rightarrow> (nat \<times> finfo) \<times> 's"
  f_chmod :: "wstr \<Rightarrow> byte \<Rightarrow> byte \<Rightarrow> 's \<Rightarrow> nat \<times> 's"
  f_rename :: "wstr \<Rightarrow> wstr \<Rightarrow> 's \<Rightarrow> nat \<times> 's"
  f_getfree :: "'s \<Rightarrow> (nat \<times> u32 \<times> u32 \<times> u32) \<times> 's"
  f_mount :: "'s \<Rightarrow> nat \<times> 's"
  f_open :: "wstr \<Rightarrow> byte \<Rightarrow> 'f \<Rightarrow> 's \<Rightarrow> (nat \<times> 'f) \<times> 's"
  f_close :: "'f \<Rightarrow> 's \<Rightarrow> (nat \<times> 'f) \<times> 's"
  f_read :: "nat \<Rightarrow> 'f \<Rightarrow> 's \<Rightarrow> (nat \<times> byte list \<times> 'f) \<times> 's"
  f_write :: "byte list \<Rightarrow> 'f \<Rightarrow> 's \<Rightarrow> (nat \<times> nat \<times> 'f) \<times> 's"
  f_lseek :: "u32 \<Rightarrow> 'f \<Rightarrow> 's \<Rightarrow> (nat \<times> 'f) \<times> 's"
  f_sync :: "'f \<Rightarrow> 's \<Rightarrow> (nat \<times> 'f) \<times> 's"
  f_truncate :: "'f \<Rightarrow> 's \<Rightarrow> (nat \<times> 'f) \<times> 's"
  f_size :: "'f \<Rightarrow> u32"
  f_tell :: "'f \<Rightarrow> u32"
  f_opendir :: "wstr \<Rightarrow> 'd \<Rightarrow> 's \<Rightarrow> (nat \<times> 'd) \<times> 's"
  f_readdir :: "'d \<Rightarrow> 's \<Rightarrow> (nat \<times> finfo \<times> 'd) \<times> 's"
  f_closedir :: "'d \<Rightarrow> 's \<Rightarrow> (nat \<times> 'd) \<times> 's"
  fil_zero :: 'f
  dir_zero :: 'd

definition FR_OK :: nat where "FR_OK = 0"
definition FA_READ :: byte where "FA_READ = 0x01"
definition FA_WRITE :: byte where "FA_WRITE = 0x02"
definition FA_OPEN_EXISTING :: byte where "FA_OPEN_EXISTING = 0x00"
definition FA_CREATE_NEW :: byte where "FA_CREATE_NEW = 0x04"
definition FA_CREATE_ALWAYS :: byte where "FA_CREATE_ALWAYS = 0x08"
definition FA_OPEN_ALWAYS :: byte where "FA_OPEN_ALWAYS = 0x10"
definition AM_RDO_ARC_SYS_HID :: byte where "AM_RDO_ARC_SYS_HID = 0x27"

definition ERROR_FILE_NOT_FOUND :: u32 where "ERROR_FILE_NOT_FOUND = 2"
definition ERROR_OUTOFMEMORY :: u32 where "ERROR_OUTOFMEMORY = 14"
definition ERROR_NO_MORE_FILES :: u32 where "ERROR_NO_MORE_FILES = 18"
definition ERROR_NOT_SUPPORTED :: u32 where "ERROR_NOT_SUPPORTED = 50"
definition ERROR_INVALID_PARAMETER :: u32 where "ERROR_INVALID_PARAMETER = 87"

section \<open>State\<close>

datatype ('f, 'd) sdobj = SDFILE 'f | SDFIND 'd wstr

datatype sdev = EvLock | EvUnlock | EvFf

datatype apiset = FATH | FATF

record ('s, 'f, 'd) sd =
  g_fs :: 's
  sd_heap :: "nat \<rightharpoonup> ('f, 'd) sdobj"
  sd_handles :: "nat \<rightharpoonup> apiset \<times> nat"
  sd_err :: u32
  sd_trace :: "sdev list"

definition ev :: "sdev \<Rightarrow> ('s, 'f, 'd) sd \<Rightarrow> ('s, 'f, 'd) sd" where
  "ev e st = st\<lparr>sd_trace := sd_trace st @ [e]\<rparr>"

abbreviation "LOCK \<equiv> ev EvLock"
abbreviation "UNLOCK \<equiv> ev EvUnlock"

definition ff :: "('s \<Rightarrow> 'a \<times> 's) \<Rightarrow> ('s, 'f, 'd) sd \<Rightarrow> 'a \<times> ('s, 'f, 'd) sd" where
  "ff call st = (case call (g_fs st) of (r, s) \<Rightarrow> (r, ev EvFf (st\<lparr>g_fs := s\<rparr>)))"

definition SetLastError :: "u32 \<Rightarrow> ('s, 'f, 'd) sd \<Rightarrow> ('s, 'f, 'd) sd" where
  "SetLastError e st = st\<lparr>sd_err := e\<rparr>"

definition the_file :: "nat \<Rightarrow> ('s, 'f, 'd) sd \<Rightarrow> 'f option" where
  "the_file p st = (case sd_heap st p of Some (SDFILE f) \<Rightarrow> Some f | _ \<Rightarrow> None)"

definition the_find :: "nat \<Rightarrow> ('s, 'f, 'd) sd \<Rightarrow> ('d \<times> wstr) option" where
  "the_find p st = (case sd_heap st p of Some (SDFIND d pat) \<Rightarrow> Some (d, pat) | _ \<Rightarrow> None)"

definition obj_put :: "nat \<Rightarrow> ('f, 'd) sdobj \<Rightarrow> ('s, 'f, 'd) sd \<Rightarrow> ('s, 'f, 'd) sd" where
  "obj_put p x st = st\<lparr>sd_heap := (sd_heap st)(p \<mapsto> x)\<rparr>"

definition LocalFree :: "nat \<Rightarrow> ('s, 'f, 'd) sd \<Rightarrow> ('s, 'f, 'd) sd option" where
  "LocalFree p st = (if sd_heap st p = None then None else Some (st\<lparr>sd_heap := (sd_heap st)(p := None)\<rparr>))"

definition CreateAPIHandle ::
  "nat option \<Rightarrow> apiset \<Rightarrow> nat \<Rightarrow> ('s, 'f, 'd) sd \<Rightarrow> nat option \<times> ('s, 'f, 'd) sd" where
  "CreateAPIHandle h cls p st =
     (case h of None \<Rightarrow> (None, st) | Some n \<Rightarrow> (Some n, st\<lparr>sd_handles := (sd_handles st)(n \<mapsto> (cls, p))\<rparr>))"

section \<open>Helpers\<close>

text \<open>\<open>None\<close> is the null pointer.\<close>

definition IsRoot :: "wstr option \<Rightarrow> bool" where
  "IsRoot psz \<longleftrightarrow> psz = None \<or> psz = Some [] \<or> psz = Some [0x5C] \<or> psz = Some [0x2F]"

definition upper :: "wchar \<Rightarrow> wchar" where
  "upper a = (if a \<ge> 0x61 \<and> a \<le> 0x7A then a - 32 else a)"

text \<open>The inner loop of \<open>*\<close> is \<open>MatchStar\<close>: the rest of the pattern at every suffix of the name.\<close>

function MatchPat :: "wstr \<Rightarrow> wstr \<Rightarrow> bool" and MatchStar :: "wstr \<Rightarrow> wstr \<Rightarrow> bool" where
  "MatchPat [] pszName = (pszName = [])"
| "MatchPat (p # ps) pszName =
     (if p = 0x2A then (if ps = [] then True else MatchStar ps pszName)
      else case pszName of
          [] \<Rightarrow> False
        | n # ns \<Rightarrow> if p \<noteq> 0x3F \<and> upper p \<noteq> upper n then False else MatchPat ps ns)"
| "MatchStar ps [] = MatchPat ps []"
| "MatchStar ps (n # ns) = (if MatchPat ps (n # ns) then True else MatchStar ps ns)"
  by pat_completeness auto

termination
  by (relation "measures [case_sum (\<lambda>(p, n). 2 * length p) (\<lambda>(p, n). 2 * length p + 1),
        case_sum (\<lambda>(p, n). length n) (\<lambda>(p, n). length n)]") auto

record systime =
  wYear :: u16
  wMonth :: u16
  wDay :: u16
  wHour :: u16
  wMinute :: u16
  wSecond :: u16

text \<open>The fields handed to \<open>SystemTimeToFileTime\<close>.\<close>

definition DosToFt :: "u16 \<Rightarrow> u16 \<Rightarrow> systime" where
  "DosToFt wFdate wFtime =
     (let m = drop_bit 5 wFdate AND 0x0F; d = wFdate AND 0x1F
      in \<lparr>wYear = 1980 + drop_bit 9 wFdate, wMonth = (if m < 1 then 1 else m),
          wDay = (if d < 1 then 1 else d), wHour = drop_bit 11 wFtime,
          wMinute = drop_bit 5 wFtime AND 0x3F, wSecond = (wFtime AND 0x1F) * 2\<rparr>)"

record finddata =
  fd_attr :: u32
  fd_size :: u32
  fd_time :: systime
  fd_name :: wstr

text \<open>The three time stamps of the find data are equal; one field stands for them.\<close>

definition FillFind :: "finfo \<Rightarrow> wstr \<Rightarrow> finddata" where
  "FillFind fno pszLfn =
     (let pszNm = (if pszLfn \<noteq> [] then pszLfn else fi_fname fno)
      in \<lparr>fd_attr = ucast (fi_attr fno), fd_size = fi_size fno,
          fd_time = DosToFt (fi_date fno) (fi_time fno), fd_name = take 259 pszNm\<rparr>)"

section \<open>Volume calls\<close>

definition V_NoSupport :: "('s, 'f, 'd) sd \<Rightarrow> ('s, 'f, 'd) sd" where
  "V_NoSupport st = SetLastError ERROR_NOT_SUPPORTED st"

definition V_CreateDirectory :: "('s, 'f, 'd) fatfs \<Rightarrow> wstr \<Rightarrow> ('s, 'f, 'd) sd \<Rightarrow> bool \<times> ('s, 'f, 'd) sd" where
  "V_CreateDirectory F pszPath st =
     (let st = LOCK st; (r, st) = ff (f_mkdir F pszPath) st in (r = FR_OK, UNLOCK st))"

definition V_RemoveDirectory :: "('s, 'f, 'd) fatfs \<Rightarrow> wstr \<Rightarrow> ('s, 'f, 'd) sd \<Rightarrow> bool \<times> ('s, 'f, 'd) sd" where
  "V_RemoveDirectory F pszPath st =
     (let st = LOCK st; (r, st) = ff (f_unlink F pszPath) st in (r = FR_OK, UNLOCK st))"

definition FILE_ATTRIBUTE_DIRECTORY :: u32 where "FILE_ATTRIBUTE_DIRECTORY = 0x10"

definition V_GetFileAttributes :: "('s, 'f, 'd) fatfs \<Rightarrow> wstr option \<Rightarrow> ('s, 'f, 'd) sd \<Rightarrow> u32 \<times> ('s, 'f, 'd) sd" where
  "V_GetFileAttributes F pszPath st =
     (if IsRoot pszPath then (FILE_ATTRIBUTE_DIRECTORY, st)
      else let st = LOCK st; ((r, fno), st) = ff (f_stat F (the pszPath)) st
        in (if r = FR_OK then ucast (fi_attr fno) else 0xFFFFFFFF, UNLOCK st))"

definition V_SetFileAttributes :: "('s, 'f, 'd) fatfs \<Rightarrow> wstr \<Rightarrow> u32 \<Rightarrow> ('s, 'f, 'd) sd \<Rightarrow> bool \<times> ('s, 'f, 'd) sd" where
  "V_SetFileAttributes F pszPath dwAttr st =
     (let st = LOCK st; (r, st) = ff (f_chmod F pszPath (ucast dwAttr) AM_RDO_ARC_SYS_HID) st
      in (r = FR_OK, UNLOCK st))"

definition V_DeleteFile :: "('s, 'f, 'd) fatfs \<Rightarrow> wstr \<Rightarrow> ('s, 'f, 'd) sd \<Rightarrow> bool \<times> ('s, 'f, 'd) sd" where
  "V_DeleteFile F pszPath st =
     (let st = LOCK st; (r, st) = ff (f_unlink F pszPath) st in (r = FR_OK, UNLOCK st))"

definition V_MoveFile :: "('s, 'f, 'd) fatfs \<Rightarrow> wstr \<Rightarrow> wstr \<Rightarrow> ('s, 'f, 'd) sd \<Rightarrow> bool \<times> ('s, 'f, 'd) sd" where
  "V_MoveFile F pszOldp pszNewp st =
     (let st = LOCK st; (r, st) = ff (f_rename F pszOldp pszNewp) st in (r = FR_OK, UNLOCK st))"

text \<open>Sectors per cluster, bytes per sector, free and total clusters.\<close>

definition V_GetDiskFreeSpace ::
  "('s, 'f, 'd) fatfs \<Rightarrow> ('s, 'f, 'd) sd \<Rightarrow> (u32 \<times> u32 \<times> u32 \<times> u32) option \<times> ('s, 'f, 'd) sd" where
  "V_GetDiskFreeSpace F st =
     (let st = LOCK st; ((r, dwNfree, csize, n_fatent), st) = ff (f_getfree F) st; st = UNLOCK st
      in (if r \<noteq> FR_OK then None else Some (csize, 512, dwNfree, n_fatent - 2), st))"

definition open_mode :: "u32 \<Rightarrow> u32 \<Rightarrow> byte" where
  "open_mode dwAccess dwCreation =
     (if dwAccess AND 0x80000000 \<noteq> 0 then FA_READ else 0)
     OR (if dwAccess AND 0x40000000 \<noteq> 0 then FA_WRITE else 0)
     OR (if dwCreation = 1 then FA_CREATE_NEW
         else if dwCreation = 2 then FA_CREATE_ALWAYS
         else if dwCreation = 3 then FA_OPEN_EXISTING
         else if dwCreation = 4 then FA_OPEN_ALWAYS
         else if dwCreation = 5 then FA_CREATE_ALWAYS
         else FA_OPEN_EXISTING)"

definition V_CreateFile ::
  "('s, 'f, 'd) fatfs \<Rightarrow> nat option \<Rightarrow> nat option \<Rightarrow> wstr \<Rightarrow> u32 \<Rightarrow> u32 \<Rightarrow> ('s, 'f, 'd) sd
     \<Rightarrow> (nat option \<times> ('s, 'f, 'd) sd) option" where
  "V_CreateFile F mem hnd pszName dwAccess dwCreation st =
     (case mem of
        None \<Rightarrow> Some (None, SetLastError ERROR_OUTOFMEMORY st)
      | Some pFile \<Rightarrow>
          let bMode = open_mode dwAccess dwCreation;
              st = obj_put pFile (SDFILE (fil_zero F)) st;
              st = LOCK st;
              ((fr, fil), st) = ff (f_open F pszName bMode (fil_zero F)) st;
              st = obj_put pFile (SDFILE fil) st;
              (h, st) = (if fr = FR_OK then CreateAPIHandle hnd FATH pFile st else (None, st));
              st = UNLOCK st
          in case h of
               None \<Rightarrow> do { st \<leftarrow> LocalFree pFile st; Some (None, SetLastError ERROR_FILE_NOT_FOUND st) }
             | Some h \<Rightarrow> Some (Some h, st))"

section \<open>Searches\<close>

text \<open>The position of the last separator in the first 259 characters, or -1.\<close>

primrec last_slash :: "nat \<Rightarrow> int \<Rightarrow> wstr \<Rightarrow> int" where
  "last_slash i nSlash [] = nSlash"
| "last_slash i nSlash (c # cs) =
     (if i < 259 then last_slash (i + 1) (if c = 0x5C \<or> c = 0x2F then int i else nSlash) cs else nSlash)"

definition split_spec :: "wstr \<Rightarrow> wstr \<times> wstr" where
  "split_spec pszSpec =
     (let nSlash = last_slash 0 (- 1) pszSpec in (take (nat nSlash) pszSpec, drop (nat (nSlash + 1)) pszSpec))"

definition find_pat :: "wstr \<Rightarrow> wstr" where
  "find_pat pszPat = (if take 63 pszPat = [] then [0x2A] else take 63 pszPat)"

definition entry_name :: "finfo \<Rightarrow> wstr" where
  "entry_name fno = (if fi_lfn fno \<noteq> [] then fi_lfn fno else fi_fname fno)"

text \<open>
  The loop both calls share: read entries until one matches or the directory ends. It has
  no bound of its own; not returning is \<open>None\<close>.
\<close>

partial_function (option) find_entry ::
  "('s, 'f, 'd) fatfs \<Rightarrow> wstr \<Rightarrow> 'd \<Rightarrow> ('s, 'f, 'd) sd \<Rightarrow> (finddata option \<times> 'd \<times> ('s, 'f, 'd) sd) option" where
  "find_entry F pat d st =
     (let ((r, fno, d), st) = ff (f_readdir F d) st
      in if r \<noteq> FR_OK \<or> fi_fname fno = [] then Some (None, d, st)
         else if MatchPat pat (entry_name fno) then Some (Some (FillFind fno (fi_lfn fno)), d, st)
         else find_entry F pat d st)"

text \<open>The end of \<open>FindFirstFile\<close>: the handle for the first match, or everything undone.\<close>

definition find_result ::
  "('s, 'f, 'd) fatfs \<Rightarrow> nat \<Rightarrow> wstr \<Rightarrow> nat option \<Rightarrow> finddata option \<Rightarrow> 'd \<Rightarrow> ('s, 'f, 'd) sd
     \<Rightarrow> ((nat \<times> finddata) option \<times> ('s, 'f, 'd) sd) option" where
  "find_result F pFind pat hnd fd d st = do {
     let st = obj_put pFind (SDFIND d pat) st;
     let (h, st) = (if fd \<noteq> None then CreateAPIHandle hnd FATF pFind st else (None, st));
     let st = UNLOCK st;
     (case (h, fd) of
        (Some h, Some fd) \<Rightarrow> Some (Some (h, fd), st)
      | _ \<Rightarrow> do {
          let ((r, d), st) = ff (f_closedir F d) st;
          st \<leftarrow> LocalFree pFind st;
          Some (None, SetLastError ERROR_FILE_NOT_FOUND st) }) }"

definition V_FindFirstFile ::
  "('s, 'f, 'd) fatfs \<Rightarrow> nat option \<Rightarrow> nat option \<Rightarrow> wstr \<Rightarrow> ('s, 'f, 'd) sd
     \<Rightarrow> ((nat \<times> finddata) option \<times> ('s, 'f, 'd) sd) option" where
  "V_FindFirstFile F mem hnd pszSpec st =
     (case mem of
        None \<Rightarrow> Some (None, SetLastError ERROR_OUTOFMEMORY st)
      | Some pFind \<Rightarrow> do {
          let (szDir, pszPat) = split_spec pszSpec;
          let pat = find_pat pszPat;
          let st = LOCK (obj_put pFind (SDFIND (dir_zero F) pat) st);
          let ((fr, d), st) = ff (f_opendir F (if IsRoot (Some szDir) then [0x5C] else szDir) (dir_zero F)) st;
          (fd, d, st) \<leftarrow> (if fr = FR_OK then find_entry F pat d st else Some (None, d, st));
          find_result F pFind pat hnd fd d st })"

definition S_Next ::
  "('s, 'f, 'd) fatfs \<Rightarrow> nat option \<Rightarrow> ('s, 'f, 'd) sd \<Rightarrow> (finddata option \<times> ('s, 'f, 'd) sd) option" where
  "S_Next F pFind st =
     (case pFind of
        None \<Rightarrow> Some (None, st)
      | Some p \<Rightarrow> do {
          (d, pat) \<leftarrow> the_find p st;
          (fd, d, st) \<leftarrow> find_entry F pat d (LOCK st);
          let st = UNLOCK (obj_put p (SDFIND d pat) st);
          Some (fd, if fd = None then SetLastError ERROR_NO_MORE_FILES st else st) })"

definition S_Close :: "('s, 'f, 'd) fatfs \<Rightarrow> nat option \<Rightarrow> ('s, 'f, 'd) sd \<Rightarrow> (bool \<times> ('s, 'f, 'd) sd) option" where
  "S_Close F pFind st =
     (case pFind of
        None \<Rightarrow> Some (False, st)
      | Some p \<Rightarrow> do {
          (d, pat) \<leftarrow> the_find p st;
          let ((r, d), st) = ff (f_closedir F d) (LOCK st);
          st \<leftarrow> LocalFree p (UNLOCK (obj_put p (SDFIND d pat) st));
          Some (True, st) })"

section \<open>Calls on open files\<close>

text \<open>
  The common frame of a call that runs one FatFs function on the file object under the lock
  and stores the object back.
\<close>

definition with_file ::
  "('f \<Rightarrow> 's \<Rightarrow> ('a \<times> 'f) \<times> 's) \<Rightarrow> nat \<Rightarrow> ('s, 'f, 'd) sd \<Rightarrow> ('a \<times> ('s, 'f, 'd) sd) option" where
  "with_file call p st = do {
     f \<leftarrow> the_file p st;
     let ((r, f), st) = ff (call f) (LOCK st);
     Some (r, UNLOCK (obj_put p (SDFILE f) st)) }"

definition F_Close :: "('s, 'f, 'd) fatfs \<Rightarrow> nat option \<Rightarrow> ('s, 'f, 'd) sd \<Rightarrow> (bool \<times> ('s, 'f, 'd) sd) option" where
  "F_Close F pFile st =
     (case pFile of
        None \<Rightarrow> Some (False, st)
      | Some p \<Rightarrow> do {
          (r, st) \<leftarrow> with_file (f_close F) p st;
          st \<leftarrow> LocalFree p st;
          Some (r = FR_OK, st) })"

text \<open>Success, and the bytes read (their number is what \<open>*pcb\<close> gets).\<close>

definition F_Read ::
  "('s, 'f, 'd) fatfs \<Rightarrow> nat option \<Rightarrow> nat \<Rightarrow> ('s, 'f, 'd) sd \<Rightarrow> ((bool \<times> byte list) \<times> ('s, 'f, 'd) sd) option" where
  "F_Read F pFile cb st =
     (case pFile of
        None \<Rightarrow> Some ((False, []), st)
      | Some p \<Rightarrow> do {
          ((r, br), st) \<leftarrow> with_file (\<lambda>f s. case f_read F cb f s of ((r, br, f), s) \<Rightarrow> (((r, br), f), s)) p st;
          Some ((r = FR_OK, br), st) })"

definition F_Write ::
  "('s, 'f, 'd) fatfs \<Rightarrow> nat option \<Rightarrow> byte list \<Rightarrow> ('s, 'f, 'd) sd \<Rightarrow> ((bool \<times> nat) \<times> ('s, 'f, 'd) sd) option" where
  "F_Write F pFile buf st =
     (case pFile of
        None \<Rightarrow> Some ((False, 0), st)
      | Some p \<Rightarrow> do {
          ((r, bw), st) \<leftarrow> with_file (\<lambda>f s. case f_write F buf f s of ((r, bw, f), s) \<Rightarrow> (((r, bw), f), s)) p st;
          Some ((r = FR_OK, bw), st) })"

definition F_GetSize :: "('s, 'f, 'd) fatfs \<Rightarrow> nat option \<Rightarrow> ('s, 'f, 'd) sd \<Rightarrow> (u32 \<times> ('s, 'f, 'd) sd) option" where
  "F_GetSize F pFile st =
     (case pFile of
        None \<Rightarrow> Some (0, st)
      | Some p \<Rightarrow> do { f \<leftarrow> the_file p st; Some (f_size F f, UNLOCK (LOCK st)) })"

record fileinfo =
  bh_attr :: u32
  bh_size :: u32
  bh_links :: u32
  bh_oid :: u32

definition F_GetInfo ::
  "('s, 'f, 'd) fatfs \<Rightarrow> nat option \<Rightarrow> bool \<Rightarrow> ('s, 'f, 'd) sd \<Rightarrow> (fileinfo option \<times> ('s, 'f, 'd) sd) option" where
  "F_GetInfo F pFile bBhfi st =
     (case pFile of
        None \<Rightarrow> Some (None, SetLastError ERROR_INVALID_PARAMETER st)
      | Some p \<Rightarrow>
          if \<not> bBhfi then Some (None, SetLastError ERROR_INVALID_PARAMETER st)
          else do { f \<leftarrow> the_file p st;
                    Some (Some \<lparr>bh_attr = 0x20, bh_size = f_size F f, bh_links = 1, bh_oid = 0xFFFFFFFF\<rparr>,
                          UNLOCK (LOCK st)) })"

text \<open>The three times are zero.\<close>

definition F_GetFileTime :: "nat option \<Rightarrow> ('s, 'f, 'd) sd \<Rightarrow> bool \<times> ('s, 'f, 'd) sd" where
  "F_GetFileTime pFile st =
     (if pFile = None then (False, SetLastError ERROR_INVALID_PARAMETER st) else (True, st))"

definition F_Unsup :: "('s, 'f, 'd) sd \<Rightarrow> ('s, 'f, 'd) sd" where
  "F_Unsup st = SetLastError ERROR_NOT_SUPPORTED st"

definition FILE_CURRENT :: u32 where "FILE_CURRENT = 1"
definition FILE_END :: u32 where "FILE_END = 2"

definition F_SetPointer ::
  "('s, 'f, 'd) fatfs \<Rightarrow> nat option \<Rightarrow> u32 \<Rightarrow> u32 \<Rightarrow> ('s, 'f, 'd) sd \<Rightarrow> (u32 \<times> ('s, 'f, 'd) sd) option" where
  "F_SetPointer F pFile lLo dwMethod st =
     (case pFile of
        None \<Rightarrow> Some (0xFFFFFFFF, st)
      | Some p \<Rightarrow>
          with_file (\<lambda>f s.
            let lLo = (if dwMethod = FILE_CURRENT then lLo + f_tell F f
                       else if dwMethod = FILE_END then lLo + f_size F f else lLo)
            in case f_lseek F lLo f s of ((_, f), s) \<Rightarrow> ((f_tell F f, f), s)) p st)"

definition F_Flush :: "('s, 'f, 'd) fatfs \<Rightarrow> nat option \<Rightarrow> ('s, 'f, 'd) sd \<Rightarrow> (bool \<times> ('s, 'f, 'd) sd) option" where
  "F_Flush F pFile st =
     (case pFile of
        None \<Rightarrow> Some (False, st)
      | Some p \<Rightarrow> do { (r, st) \<leftarrow> with_file (f_sync F) p st; Some (r = FR_OK, st) })"

definition F_SetEnd :: "('s, 'f, 'd) fatfs \<Rightarrow> nat option \<Rightarrow> ('s, 'f, 'd) sd \<Rightarrow> (bool \<times> ('s, 'f, 'd) sd) option" where
  "F_SetEnd F pFile st =
     (case pFile of
        None \<Rightarrow> Some (False, st)
      | Some p \<Rightarrow> do { (r, st) \<leftarrow> with_file (f_truncate F) p st; Some (r = FR_OK, st) })"

text \<open>The two calls with a position seek first, under the same lock.\<close>

definition with_file2 ::
  "('f \<Rightarrow> 's \<Rightarrow> (nat \<times> 'f) \<times> 's) \<Rightarrow> ('f \<Rightarrow> 's \<Rightarrow> ('a \<times> 'f) \<times> 's) \<Rightarrow> nat \<Rightarrow> ('s, 'f, 'd) sd
     \<Rightarrow> ('a \<times> ('s, 'f, 'd) sd) option" where
  "with_file2 seek call p st = do {
     f \<leftarrow> the_file p st;
     let ((_, f), st) = ff (seek f) (LOCK st);
     let ((r, f), st) = ff (call f) st;
     Some (r, UNLOCK (obj_put p (SDFILE f) st)) }"

definition F_ReadSeek ::
  "('s, 'f, 'd) fatfs \<Rightarrow> nat option \<Rightarrow> nat \<Rightarrow> u32 \<Rightarrow> ('s, 'f, 'd) sd \<Rightarrow> ((bool \<times> byte list) \<times> ('s, 'f, 'd) sd) option" where
  "F_ReadSeek F pFile cb dwLo st =
     (case pFile of
        None \<Rightarrow> Some ((False, []), st)
      | Some p \<Rightarrow> do {
          ((r, br), st) \<leftarrow> with_file2 (f_lseek F dwLo)
             (\<lambda>f s. case f_read F cb f s of ((r, br, f), s) \<Rightarrow> (((r, br), f), s)) p st;
          Some ((r = FR_OK, br), st) })"

definition F_WriteSeek ::
  "('s, 'f, 'd) fatfs \<Rightarrow> nat option \<Rightarrow> byte list \<Rightarrow> u32 \<Rightarrow> ('s, 'f, 'd) sd \<Rightarrow> ((bool \<times> nat) \<times> ('s, 'f, 'd) sd) option" where
  "F_WriteSeek F pFile buf dwLo st =
     (case pFile of
        None \<Rightarrow> Some ((False, 0), st)
      | Some p \<Rightarrow> do {
          ((r, bw), st) \<leftarrow> with_file2 (f_lseek F dwLo)
             (\<lambda>f s. case f_write F buf f s of ((r, bw, f), s) \<Rightarrow> (((r, bw), f), s)) p st;
          Some ((r = FR_OK, bw), st) })"

section \<open>The call tables\<close>

text \<open>
  One constructor for each entry of \<open>g_volMethods\<close>, \<open>g_fileMethods\<close> and \<open>g_findMethods\<close> that
  is a function of the driver. The kernel passes the object of the handle; after the close
  call it drops the handle. A handle that is not open never reaches the driver.
\<close>

datatype filecall = FClose | FRead nat | FWrite "byte list" | FGetSize | FSetPointer u32 u32 | FGetInfo bool
  | FFlush | FGetFileTime | FUnsup | FSetEnd | FReadSeek nat u32 | FWriteSeek "byte list" u32

datatype findcall = SClose | SNext | SNoSupport

datatype sdcall = VNoSupport | VCreateDirectory wstr | VRemoveDirectory wstr | VGetFileAttributes "wstr option"
  | VSetFileAttributes wstr u32 | VCreateFile "nat option" "nat option" wstr u32 u32 | VDeleteFile wstr
  | VMoveFile wstr wstr | VFindFirstFile "nat option" "nat option" wstr | VGetDiskFreeSpace
  | FileCall nat filecall | FindCall nat findcall

definition drop_handle :: "nat \<Rightarrow> ('s, 'f, 'd) sd \<Rightarrow> ('s, 'f, 'd) sd" where
  "drop_handle h st = st\<lparr>sd_handles := (sd_handles st)(h := None)\<rparr>"

primrec file_call :: "('s, 'f, 'd) fatfs \<Rightarrow> nat \<Rightarrow> nat \<Rightarrow> filecall \<Rightarrow> ('s, 'f, 'd) sd \<Rightarrow> ('s, 'f, 'd) sd option" where
  "file_call F h p FClose st = map_option (drop_handle h \<circ> snd) (F_Close F (Some p) st)"
| "file_call F h p (FRead cb) st = map_option snd (F_Read F (Some p) cb st)"
| "file_call F h p (FWrite buf) st = map_option snd (F_Write F (Some p) buf st)"
| "file_call F h p FGetSize st = map_option snd (F_GetSize F (Some p) st)"
| "file_call F h p (FSetPointer lo m) st = map_option snd (F_SetPointer F (Some p) lo m st)"
| "file_call F h p (FGetInfo b) st = map_option snd (F_GetInfo F (Some p) b st)"
| "file_call F h p FFlush st = map_option snd (F_Flush F (Some p) st)"
| "file_call F h p FGetFileTime st = Some (snd (F_GetFileTime (Some p) st))"
| "file_call F h p FUnsup st = Some (F_Unsup st)"
| "file_call F h p FSetEnd st = map_option snd (F_SetEnd F (Some p) st)"
| "file_call F h p (FReadSeek cb lo) st = map_option snd (F_ReadSeek F (Some p) cb lo st)"
| "file_call F h p (FWriteSeek buf lo) st = map_option snd (F_WriteSeek F (Some p) buf lo st)"

primrec find_call :: "('s, 'f, 'd) fatfs \<Rightarrow> nat \<Rightarrow> nat \<Rightarrow> findcall \<Rightarrow> ('s, 'f, 'd) sd \<Rightarrow> ('s, 'f, 'd) sd option" where
  "find_call F h p SClose st = map_option (drop_handle h \<circ> snd) (S_Close F (Some p) st)"
| "find_call F h p SNext st = map_option snd (S_Next F (Some p) st)"
| "find_call F h p SNoSupport st = Some (V_NoSupport st)"

primrec sd_call :: "('s, 'f, 'd) fatfs \<Rightarrow> sdcall \<Rightarrow> ('s, 'f, 'd) sd \<Rightarrow> ('s, 'f, 'd) sd option" where
  "sd_call F VNoSupport st = Some (V_NoSupport st)"
| "sd_call F (VCreateDirectory p) st = Some (snd (V_CreateDirectory F p st))"
| "sd_call F (VRemoveDirectory p) st = Some (snd (V_RemoveDirectory F p st))"
| "sd_call F (VGetFileAttributes p) st = Some (snd (V_GetFileAttributes F p st))"
| "sd_call F (VSetFileAttributes p a) st = Some (snd (V_SetFileAttributes F p a st))"
| "sd_call F (VCreateFile mem hnd n a c) st = map_option snd (V_CreateFile F mem hnd n a c st)"
| "sd_call F (VDeleteFile p) st = Some (snd (V_DeleteFile F p st))"
| "sd_call F (VMoveFile p q) st = Some (snd (V_MoveFile F p q st))"
| "sd_call F (VFindFirstFile mem hnd s) st = map_option snd (V_FindFirstFile F mem hnd s st)"
| "sd_call F VGetDiskFreeSpace st = Some (snd (V_GetDiskFreeSpace F st))"
| "sd_call F (FileCall h m) st =
     (case sd_handles st h of Some (FATH, p) \<Rightarrow> file_call F h p m st | _ \<Rightarrow> Some st)"
| "sd_call F (FindCall h m) st =
     (case sd_handles st h of Some (FATF, p) \<Rightarrow> find_call F h p m st | _ \<Rightarrow> Some st)"

text \<open>
  \<open>FsdInit\<close>: the three sets, the registrations and the lazy mount. The first three arguments
  say whether \<open>CreateAPISet\<close> succeeded; the result is \<open>g_nAfsIdx\<close> and what was registered.
\<close>

datatype fsdreg = RegFile | RegFind | RegAfs int

definition FsdInit ::
  "('s, 'f, 'd) fatfs \<Rightarrow> bool \<Rightarrow> bool \<Rightarrow> bool \<Rightarrow> int \<Rightarrow> ('s, 'f, 'd) sd \<Rightarrow> (int \<times> fsdreg list) \<times> ('s, 'f, 'd) sd" where
  "FsdInit F hVol hFile hFind idx st =
     (if \<not> hVol \<or> \<not> hFile \<or> \<not> hFind then ((- 1, []), st)
      else let (r, st) = ff (f_mount F) st
        in ((idx, [RegFile, RegFind] @ (if idx \<ge> 0 then [RegAfs idx] else [])), st))"

section \<open>Wildcards\<close>

text \<open>What a pattern means: \<open>?\<close> is any character, \<open>*\<close> any text, letters match in either case.\<close>

inductive glob :: "wstr \<Rightarrow> wstr \<Rightarrow> bool" where
  glob_end: "glob [] []"
| glob_char: "p \<noteq> 0x2A \<Longrightarrow> p = 0x3F \<or> upper p = upper c \<Longrightarrow> glob ps cs \<Longrightarrow> glob (p # ps) (c # cs)"
| glob_star: "glob ps cs \<Longrightarrow> glob (0x2A # ps) (us @ cs)"

inductive_simps glob_Nil_iff: "glob [] n"
inductive_cases glob_ConsE: "glob (p # ps) n"

lemma glob_char_iff:
  "p \<noteq> 0x2A \<Longrightarrow> glob (p # ps) n \<longleftrightarrow>
     (case n of [] \<Rightarrow> False | c # cs \<Rightarrow> (p = 0x3F \<or> upper p = upper c) \<and> glob ps cs)"
  by (auto elim!: glob_ConsE intro: glob.intros split: list.split)

lemma glob_star_iff: "glob (0x2A # ps) n \<longleftrightarrow> (\<exists>us cs. n = us @ cs \<and> glob ps cs)"
  by (auto elim!: glob_ConsE intro: glob.intros)

lemma MatchPat_MatchStar:
  "MatchPat p n \<longleftrightarrow> glob p n" "MatchStar p n \<longleftrightarrow> (\<exists>us cs. n = us @ cs \<and> glob p cs)"
proof (induction p n and p n rule: MatchPat_MatchStar.induct)
  case (1 n)
  show ?case by (auto simp: glob_Nil_iff)
next
  case (2 p ps n)
  show ?case
  proof (cases "p = 0x2A")
    case True
    have "glob (p # []) n" using glob_star [OF glob_end, of n] True by simp
    with 2 True show ?thesis by (cases "ps = []") (simp_all add: glob_star_iff)
  next
    case False
    with 2 show ?thesis by (auto simp: glob_char_iff split: list.split)
  qed
next
  case (3 ps)
  then show ?case by simp
next
  case (4 ps n ns)
  have "(\<exists>us cs. n # ns = us @ cs \<and> glob ps cs) \<longleftrightarrow> glob ps (n # ns) \<or> (\<exists>us cs. ns = us @ cs \<and> glob ps cs)"
    by (auto simp: Cons_eq_append_conv)
  with 4 show ?case by auto
qed

text \<open>
  The matcher of directory searches implements its patterns. Trying the rest of the
  pattern at every suffix after a \<open>*\<close> accepts exactly the names the pattern describes, where \<open>?\<close>
  stands for one character, \<open>*\<close> for any text, and letters match in either case; and it ends
  on every pattern and name.
\<close>
theorem MatchPat_glob: "MatchPat pszPat pszName \<longleftrightarrow> glob pszPat pszName"
  by (rule MatchPat_MatchStar)

section \<open>What a search finds\<close>

text \<open>The entries a directory object still has to deliver, in order.\<close>

primrec dir_lists :: "('s, 'f, 'd) fatfs \<Rightarrow> finfo list \<Rightarrow> 'd \<Rightarrow> 's \<Rightarrow> bool" where
  "dir_lists F [] d s = (case f_readdir F d s of ((r, e, d'), s') \<Rightarrow> r \<noteq> FR_OK \<or> fi_fname e = [])"
| "dir_lists F (x # xs) d s =
     (case f_readdir F d s of ((r, e, d'), s') \<Rightarrow> r = FR_OK \<and> e = x \<and> fi_fname e \<noteq> [] \<and> dir_lists F xs d' s')"

definition hits :: "wstr \<Rightarrow> finfo list \<Rightarrow> finfo list" where
  "hits pat es = filter (\<lambda>e. MatchPat pat (entry_name e)) es"

definition found :: "finfo \<Rightarrow> finddata" where
  "found e = FillFind e (fi_lfn e)"

lemma ff_simps [simp]:
  "sd_heap (snd (ff call st)) = sd_heap st" "sd_handles (snd (ff call st)) = sd_handles st"
  "sd_err (snd (ff call st)) = sd_err st" "g_fs (snd (ff call st)) = snd (call (g_fs st))"
  "fst (ff call st) = fst (call (g_fs st))"
  by (simp_all add: ff_def ev_def split: prod.split)

lemma ev_simps [simp]:
  "sd_heap (ev e st) = sd_heap st" "sd_handles (ev e st) = sd_handles st" "g_fs (ev e st) = g_fs st"
  "sd_err (ev e st) = sd_err st"
  by (simp_all add: ev_def)

lemma obj_put_simps [simp]:
  "sd_handles (obj_put p x st) = sd_handles st" "g_fs (obj_put p x st) = g_fs st"
  "sd_err (obj_put p x st) = sd_err st" "sd_heap (obj_put p x st) = (sd_heap st)(p \<mapsto> x)"
  by (simp_all add: obj_put_def)

lemma ff_eq: "ff call st = (r, st1) \<longleftrightarrow> call (g_fs st) = (r, g_fs st1) \<and> st1 = ev EvFf (st\<lparr>g_fs := g_fs st1\<rparr>)"
  by (auto simp: ff_def ev_def split: prod.split)

lemma find_entry_lists:
  assumes "dir_lists F es d (g_fs st)"
  shows "\<exists>d' st'. find_entry F pat d st = Some (map_option found (List.find (\<lambda>e. MatchPat pat (entry_name e)) es), d', st')
     \<and> sd_heap st' = sd_heap st \<and> sd_handles st' = sd_handles st \<and> sd_err st' = sd_err st
     \<and> (hits pat es = [] \<or> (\<exists>rest. dir_lists F rest d' (g_fs st') \<and> hits pat rest = tl (hits pat es)))"
  using assms
proof (induction es arbitrary: d st)
  case Nil
  obtain r e d1 s1 where c: "f_readdir F d (g_fs st) = ((r, e, d1), s1)" by (metis surj_pair)
  with Nil show ?case by (subst find_entry.simps) (auto simp: ff_def hits_def)
next
  case (Cons x xs)
  obtain d1 s1 where c: "f_readdir F d (g_fs st) = ((FR_OK, x, d1), s1)" and ne: "fi_fname x \<noteq> []"
    and l: "dir_lists F xs d1 s1"
    using Cons.prems by (auto split: prod.splits)
  let ?st = "ev EvFf (st\<lparr>g_fs := s1\<rparr>)"
  show ?case
  proof (cases "MatchPat pat (entry_name x)")
    case True
    with c ne l show ?thesis by (subst find_entry.simps) (auto simp: ff_def hits_def found_def)
  next
    case False
    then have h: "hits pat (x # xs) = hits pat xs" by (simp add: hits_def)
    have "find_entry F pat d st = find_entry F pat d1 ?st"
      using c ne False by (subst find_entry.simps) (simp add: ff_def)
    with Cons.IH [of d1 ?st] l False show ?thesis unfolding h by simp
  qed
qed

primrec next_all :: "('s, 'f, 'd) fatfs \<Rightarrow> nat \<Rightarrow> nat \<Rightarrow> ('s, 'f, 'd) sd \<Rightarrow> (finddata list \<times> ('s, 'f, 'd) sd) option" where
  "next_all F 0 p st = Some ([], st)"
| "next_all F (Suc n) p st = do {
     (fd, st) \<leftarrow> S_Next F (Some p) st;
     (case fd of None \<Rightarrow> Some ([], st)
      | Some fd \<Rightarrow> do { (fds, st) \<leftarrow> next_all F n p st; Some (fd # fds, st) }) }"

lemma find_hits: "List.find P xs = (case filter P xs of [] \<Rightarrow> None | y # ys \<Rightarrow> Some y)"
  by (induction xs) simp_all

lemma S_Next_lists:
  assumes "sd_heap st p = Some (SDFIND d pat)" and "dir_lists F es d (g_fs st)"
  shows "\<exists>d' st'. S_Next F (Some p) st = Some (map_option found (List.find (\<lambda>e. MatchPat pat (entry_name e)) es), st')
     \<and> sd_heap st' p = Some (SDFIND d' pat)
     \<and> (hits pat es = [] \<longrightarrow> sd_err st' = ERROR_NO_MORE_FILES)
     \<and> (hits pat es = [] \<or> (\<exists>rest. dir_lists F rest d' (g_fs st') \<and> hits pat rest = tl (hits pat es)))"
proof -
  have "dir_lists F es d (g_fs (LOCK st))" using assms(2) by simp
  from find_entry_lists [OF this, of pat] obtain d' st1 where
    f: "find_entry F pat d (LOCK st) = Some (map_option found (List.find (\<lambda>e. MatchPat pat (entry_name e)) es), d', st1)"
      "hits pat es = [] \<or> (\<exists>rest. dir_lists F rest d' (g_fs st1) \<and> hits pat rest = tl (hits pat es))" by blast
  have "List.find (\<lambda>e. MatchPat pat (entry_name e)) es = None \<longleftrightarrow> hits pat es = []"
    by (simp add: find_hits hits_def split: list.split)
  with assms(1) f show ?thesis
    by (auto simp: S_Next_def the_find_def SetLastError_def)
qed

lemma next_all_lists:
  assumes "sd_heap st p = Some (SDFIND d pat)" and "dir_lists F es d (g_fs st)"
  shows "\<exists>st' st''. next_all F (length (hits pat es)) p st = Some (map found (hits pat es), st')
     \<and> S_Next F (Some p) st' = Some (None, st'') \<and> sd_err st'' = ERROR_NO_MORE_FILES"
  using assms
proof (induction "hits pat es" arbitrary: es d st)
  case Nil
  from S_Next_lists [OF Nil.prems] Nil.hyps show ?case
    by (auto simp: find_hits hits_def)
next
  case (Cons m ms)
  have f: "List.find (\<lambda>e. MatchPat pat (entry_name e)) es = Some m"
    using Cons.hyps(2) [symmetric] by (simp add: find_hits hits_def)
  from S_Next_lists [OF Cons.prems] f Cons.hyps(2) obtain d' st1 rest where
    n: "S_Next F (Some p) st = Some (Some (found m), st1)" "sd_heap st1 p = Some (SDFIND d' pat)"
      "dir_lists F rest d' (g_fs st1)" "hits pat rest = ms"
    by (metis list.distinct(1) list.sel(3) option.simps(9))
  from Cons.hyps(1) [OF n(4) [symmetric] n(2,3)] n(4) Cons.hyps(2) [symmetric] n(1) show ?case by auto
qed

text \<open>
  C30: a directory search delivers every matching file once, in directory order. When the
  directory opens and holds the entries \<open>es\<close>, \<open>FindFirstFile\<close> returns the first one whose long
  name (or short name, without one) matches, each \<open>FindNextFile\<close> the next, and after the last
  one the call fails with \<open>ERROR_NO_MORE_FILES\<close>. No call runs forever.
\<close>
theorem FindFile_enumerates:
  assumes "split_spec pszSpec = (dir, pszPat)"
    and "f_opendir F (if IsRoot (Some dir) then [0x5C] else dir) (dir_zero F) (g_fs st) = ((FR_OK, d), s)"
    and "dir_lists F es d s" and "hits (find_pat pszPat) es = m # ms"
  shows "\<exists>st1 st2 st3. V_FindFirstFile F (Some p) (Some h) pszSpec st = Some (Some (h, found m), st1)
     \<and> sd_handles st1 h = Some (FATF, p)
     \<and> next_all F (length ms) p st1 = Some (map found ms, st2)
     \<and> S_Next F (Some p) st2 = Some (None, st3) \<and> sd_err st3 = ERROR_NO_MORE_FILES"
proof -
  let ?pat = "find_pat pszPat"
  let ?s1 = "LOCK (obj_put p (SDFIND (dir_zero F) ?pat) st)"
  let ?s2 = "ev EvFf (?s1\<lparr>g_fs := s\<rparr>)"
  have o: "ff (f_opendir F (if IsRoot (Some dir) then [0x5C] else dir) (dir_zero F)) ?s1 = ((FR_OK, d), ?s2)"
    using assms(2) by (simp add: ff_def)
  have f: "List.find (\<lambda>e. MatchPat ?pat (entry_name e)) es = Some m"
    using assms(4) by (simp add: find_hits hits_def)
  have "dir_lists F es d (g_fs ?s2)" using assms(3) by simp
  from find_entry_lists [OF this, of ?pat] f assms(4) obtain d' st' rest where
    r: "find_entry F ?pat d ?s2 = Some (Some (found m), d', st')"
      "dir_lists F rest d' (g_fs st')" "hits ?pat rest = ms" by auto
  let ?s3 = "UNLOCK ((obj_put p (SDFIND d' ?pat) st')\<lparr>sd_handles := (sd_handles st')(h \<mapsto> (FATF, p))\<rparr>)"
  have "V_FindFirstFile F (Some p) (Some h) pszSpec st = Some (Some (h, found m), ?s3)"
    unfolding V_FindFirstFile_def using assms(1) o r(1) by (simp add: find_result_def CreateAPIHandle_def)
  moreover have "sd_heap ?s3 p = Some (SDFIND d' ?pat)" "dir_lists F rest d' (g_fs ?s3)"
    using r(2) by simp_all
  from next_all_lists [OF this] obtain st2 st3 where
    "next_all F (length ms) p ?s3 = Some (map found ms, st2)" "S_Next F (Some p) st2 = Some (None, st3)"
    "sd_err st3 = ERROR_NO_MORE_FILES" unfolding r(3) by blast
  moreover have "sd_handles ?s3 h = Some (FATF, p)" by simp
  ultimately show ?thesis by blast
qed

section \<open>Objects, handles and the lock\<close>

definition kind :: "('f, 'd) sdobj \<Rightarrow> apiset" where
  "kind x = (case x of SDFILE _ \<Rightarrow> FATH | SDFIND _ _ \<Rightarrow> FATF)"

definition kinds :: "('s, 'f, 'd) sd \<Rightarrow> nat \<Rightarrow> apiset option" where
  "kinds st p = map_option kind (sd_heap st p)"

text \<open>Every open handle has its own object, of its kind, and no object is without a handle.\<close>

definition owned :: "(nat \<Rightarrow> apiset option) \<Rightarrow> (nat \<rightharpoonup> apiset \<times> nat) \<Rightarrow> bool" where
  "owned kd hs \<longleftrightarrow> (\<forall>h k p. hs h = Some (k, p) \<longrightarrow> kd p = Some k)
   \<and> (\<forall>h h' k k' p. hs h = Some (k, p) \<longrightarrow> hs h' = Some (k', p) \<longrightarrow> h = h')
   \<and> (\<forall>p k. kd p = Some k \<longrightarrow> (\<exists>h. hs h = Some (k, p)))"

primrec lk :: "sdev \<Rightarrow> bool \<Rightarrow> bool option" where
  "lk EvLock locked = (if locked then None else Some True)"
| "lk EvUnlock locked = (if locked then Some False else None)"
| "lk EvFf locked = (if locked then Some True else None)"

definition lock_state :: "('s, 'f, 'd) sd \<Rightarrow> bool option" where
  "lock_state st = foldl (\<lambda>a e. a \<bind> lk e) (Some False) (sd_trace st)"

text \<open>Nothing was called outside the lock, and the lock is free.\<close>

definition quiet :: "('s, 'f, 'd) sd \<Rightarrow> bool" where
  "quiet st \<longleftrightarrow> lock_state st = Some False"

lemma lock_state_ev [simp]: "lock_state (ev e st) = lock_state st \<bind> lk e"
  by (simp add: lock_state_def ev_def)

lemma lock_state_upd [simp]:
  "lock_state (st\<lparr>g_fs := s\<rparr>) = lock_state st" "lock_state (st\<lparr>sd_heap := hp\<rparr>) = lock_state st"
  "lock_state (st\<lparr>sd_handles := hs\<rparr>) = lock_state st" "lock_state (st\<lparr>sd_err := y\<rparr>) = lock_state st"
  "lock_state (obj_put p x st) = lock_state st" "lock_state (SetLastError y st) = lock_state st"
  "lock_state (drop_handle h st) = lock_state st"
  by (simp_all add: lock_state_def obj_put_def SetLastError_def drop_handle_def)

lemma lock_state_ff [simp]: "lock_state (snd (ff call st)) = lock_state st \<bind> lk EvFf"
  by (simp add: ff_def split: prod.split)

lemma kinds_simps [simp]:
  "kinds (ev e st) = kinds st" "kinds (st\<lparr>g_fs := s\<rparr>) = kinds st" "kinds (st\<lparr>sd_handles := hs\<rparr>) = kinds st"
  "kinds (SetLastError y st) = kinds st" "kinds (drop_handle h st) = kinds st"
  "kinds (obj_put p x st) = (kinds st)(p \<mapsto> kind x)" "kinds (snd (ff call st)) = kinds st"
  by (auto simp: kinds_def SetLastError_def drop_handle_def fun_eq_iff)

lemma handles_simps [simp]:
  "sd_handles (SetLastError y st) = sd_handles st" "sd_handles (drop_handle h st) = (sd_handles st)(h := None)"
  by (simp_all add: SetLastError_def drop_handle_def)

text \<open>What a call that opens and closes nothing does.\<close>

definition same :: "('s, 'f, 'd) sd \<Rightarrow> ('s, 'f, 'd) sd \<Rightarrow> bool" where
  "same st st' \<longleftrightarrow> kinds st' = kinds st \<and> sd_handles st' = sd_handles st \<and> (quiet st \<longrightarrow> quiet st')"

lemma split_ff: "(case ff call st of (r, st') \<Rightarrow> f r st') = f (fst (ff call st)) (snd (ff call st))"
  by (simp add: case_prod_beta)

lemma volume_same:
  "same st (V_NoSupport st)" "same st (snd (V_CreateDirectory F p st))" "same st (snd (V_RemoveDirectory F p st))"
  "same st (snd (V_GetFileAttributes F q st))" "same st (snd (V_SetFileAttributes F p a st))"
  "same st (snd (V_DeleteFile F p st))" "same st (snd (V_MoveFile F p r st))"
  "same st (snd (V_GetDiskFreeSpace F st))"
  unfolding same_def quiet_def V_NoSupport_def V_CreateDirectory_def V_RemoveDirectory_def V_GetFileAttributes_def
    V_SetFileAttributes_def V_DeleteFile_def V_MoveFile_def V_GetDiskFreeSpace_def Let_def
  by (simp_all add: case_prod_beta)

lemma kinds_file: "kinds st p = Some FATH \<Longrightarrow> \<exists>f. sd_heap st p = Some (SDFILE f)"
  and kinds_find: "kinds st p = Some FATF \<Longrightarrow> \<exists>d pat. sd_heap st p = Some (SDFIND d pat)"
  unfolding kinds_def kind_def by (cases "sd_heap st p"; simp; cases "the (sd_heap st p)"; simp)+

lemma with_file_same:
  assumes "kinds st p = Some FATH"
  shows "ok (with_file call p st) (\<lambda>(r, st'). same st st')"
proof -
  from kinds_file [OF assms] obtain f where f: "sd_heap st p = Some (SDFILE f)" by blast
  with assms have "(kinds st)(p \<mapsto> FATH) = kinds st" by (simp add: fun_upd_idem)
  then show ?thesis using f
    by (simp add: with_file_def the_file_def case_prod_beta same_def quiet_def kind_def)
qed

lemma with_file2_same:
  assumes "kinds st p = Some FATH"
  shows "ok (with_file2 seek call p st) (\<lambda>(r, st'). same st st')"
proof -
  from kinds_file [OF assms] obtain f where f: "sd_heap st p = Some (SDFILE f)" by blast
  with assms have "(kinds st)(p \<mapsto> FATH) = kinds st" by (simp add: fun_upd_idem)
  then show ?thesis using f
    by (simp add: with_file2_def the_file_def case_prod_beta same_def quiet_def kind_def)
qed

lemma ok_with_file: "kinds st p = Some FATH \<Longrightarrow> (\<And>r st'. same st st' \<Longrightarrow> P (r, st')) \<Longrightarrow> ok (with_file call p st) P"
  by (rule ok_mono [OF with_file_same]) auto

lemma ok_with_file2: "kinds st p = Some FATH \<Longrightarrow> (\<And>r st'. same st st' \<Longrightarrow> P (r, st')) \<Longrightarrow> ok (with_file2 seek call p st) P"
  by (rule ok_mono [OF with_file2_same]) auto

lemma same_refl: "same st st" by (simp add: same_def)

lemma same_lock: "same st (UNLOCK (LOCK st))" "same st (SetLastError e st)"
  by (simp_all add: same_def quiet_def)

lemma file_call_same:
  assumes "kinds st p = Some FATH" and "m \<noteq> FClose"
  shows "ok (file_call F h p m st) (same st)"
proof -
  from kinds_file [OF assms(1)] obtain f where "sd_heap st p = Some (SDFILE f)" by blast
  then show ?thesis using assms same_refl same_lock
    by (cases m)
      (auto simp: F_Read_def F_Write_def F_GetSize_def F_SetPointer_def F_GetInfo_def F_Flush_def
        F_GetFileTime_def F_Unsup_def F_SetEnd_def F_ReadSeek_def F_WriteSeek_def the_file_def
        intro!: ok_with_file ok_with_file2)
qed

text \<open>The two calls that close a handle: the object goes with it.\<close>

definition closed_one :: "nat \<Rightarrow> nat \<Rightarrow> ('s, 'f, 'd) sd \<Rightarrow> ('s, 'f, 'd) sd \<Rightarrow> bool" where
  "closed_one h p st st' \<longleftrightarrow> kinds st' = (kinds st)(p := None) \<and> sd_handles st' = (sd_handles st)(h := None)
     \<and> (quiet st \<longrightarrow> quiet st')"

lemma LocalFree_ok:
  "kinds st p \<noteq> None \<Longrightarrow> (\<And>st'. kinds st' = (kinds st)(p := None) \<Longrightarrow> sd_handles st' = sd_handles st \<Longrightarrow>
     lock_state st' = lock_state st \<Longrightarrow> P st') \<Longrightarrow> ok (LocalFree p st) P"
  by (auto simp: LocalFree_def kinds_def fun_eq_iff)

lemma file_close:
  assumes "kinds st p = Some FATH"
  shows "ok (file_call F h p FClose st) (closed_one h p st)"
  using assms
  by (auto simp: F_Close_def same_def closed_one_def quiet_def intro!: ok_with_file LocalFree_ok)

lemma find_close:
  assumes "kinds st p = Some FATF"
  shows "ok (find_call F h p SClose st) (closed_one h p st)"
proof -
  from kinds_find [OF assms] obtain d pat where "sd_heap st p = Some (SDFIND d pat)" by blast
  then show ?thesis using assms
    by (auto simp: S_Close_def the_find_def closed_one_def quiet_def case_prod_beta intro!: LocalFree_ok)
qed

text \<open>Directories end: what makes the two search calls return.\<close>

inductive dir_ends :: "('s, 'f, 'd) fatfs \<Rightarrow> 'd \<Rightarrow> 's \<Rightarrow> bool" for F where
  de_end: "f_readdir F d s = ((r, e, d'), s') \<Longrightarrow> r \<noteq> FR_OK \<or> fi_fname e = [] \<Longrightarrow> dir_ends F d s"
| de_more: "f_readdir F d s = ((r, e, d'), s') \<Longrightarrow> dir_ends F d' s' \<Longrightarrow> dir_ends F d s"

lemma find_entry_ends:
  assumes "dir_ends F d s" and "g_fs st = s"
  shows "ok (find_entry F pat d st) (\<lambda>(fd, d', st'). sd_heap st' = sd_heap st \<and> sd_handles st' = sd_handles st
     \<and> (lock_state st = Some True \<longrightarrow> lock_state st' = Some True))"
  using assms
proof (induction arbitrary: st)
  case (de_end d s r e d' s')
  then show ?case by (subst find_entry.simps) (auto simp: ff_def)
next
  case (de_more d s r e d' s')
  let ?st = "ev EvFf (st\<lparr>g_fs := s'\<rparr>)"
  have f: "ff (f_readdir F d) st = ((r, e, d'), ?st)" using de_more.hyps(1) de_more.prems by (simp add: ff_def)
  have i: "ok (find_entry F pat d' ?st) (\<lambda>(fd, d', st'). sd_heap st' = sd_heap st \<and> sd_handles st' = sd_handles st
     \<and> (lock_state st = Some True \<longrightarrow> lock_state st' = Some True))"
    by (rule ok_mono [OF de_more.IH [of ?st]]) auto
  show ?case
  proof (cases "r \<noteq> FR_OK \<or> fi_fname e = [] \<or> MatchPat pat (entry_name e)")
    case True
    then show ?thesis using f by (subst find_entry.simps) auto
  next
    case False
    then show ?thesis using f i by (subst find_entry.simps) simp
  qed
qed

lemma kinds_put_same: "kinds st p = Some k \<Longrightarrow> (kinds st)(p \<mapsto> k) = kinds st"
  by (rule fun_upd_idem)

lemma kinds_heap: "sd_heap st' = sd_heap st \<Longrightarrow> kinds st' = kinds st"
  by (simp add: kinds_def fun_eq_iff)

text \<open>FatFs ends every directory: after finitely many entries, one without a name or an error.\<close>

definition dirs_end :: "('s, 'f, 'd) fatfs \<Rightarrow> bool" where
  "dirs_end F \<longleftrightarrow> (\<forall>d s. dir_ends F d s)"

lemma ok_find_entry:
  assumes "dirs_end F"
    and "\<And>fd d' st'. kinds st' = kinds st \<Longrightarrow> sd_handles st' = sd_handles st \<Longrightarrow>
       (lock_state st = Some True \<longrightarrow> lock_state st' = Some True) \<Longrightarrow> P (fd, d', st')"
  shows "ok (find_entry F pat d st) P"
  using find_entry_ends [of F d "g_fs st" st pat] assms
  by (auto simp: dirs_end_def elim!: ok_mono dest!: kinds_heap)

lemma S_Next_same:
  assumes "dirs_end F" and "kinds st p = Some FATF"
  shows "ok (find_call F h p SNext st) (same st)"
proof -
  from kinds_find [OF assms(2)] obtain d pat where o: "sd_heap st p = Some (SDFIND d pat)" by blast
  show ?thesis
    unfolding find_call.simps ok_map_option S_Next_def option.case ok_bind ok_Some
    using o assms(2)
    by (simp add: the_find_def)
      (auto simp: same_def quiet_def kind_def kinds_put_same Let_def intro!: ok_find_entry [OF assms(1)])
qed

definition opened_one :: "apiset \<Rightarrow> nat \<Rightarrow> nat \<Rightarrow> ('s, 'f, 'd) sd \<Rightarrow> ('s, 'f, 'd) sd \<Rightarrow> bool" where
  "opened_one k h p st st' \<longleftrightarrow> kinds st' = (kinds st)(p \<mapsto> k) \<and> sd_handles st' = (sd_handles st)(h \<mapsto> (k, p))
     \<and> (quiet st \<longrightarrow> quiet st')"

lemma fun_upd_back: "g p = None \<Longrightarrow> g(p := None) = g"
  by (simp add: fun_upd_idem)

lemma CreateFile_cases:
  assumes "\<And>p. mem = Some p \<Longrightarrow> kinds st p = None"
  shows "ok (V_CreateFile F mem hnd n a c st)
    (\<lambda>(r, st'). (r = None \<longrightarrow> same st st') \<and> (\<forall>h. r = Some h \<longrightarrow> (\<exists>p. mem = Some p \<and> hnd = Some h \<and> opened_one FATH h p st st')))"
proof (cases mem)
  case None
  then show ?thesis by (simp add: V_CreateFile_def same_lock)
next
  case (Some p)
  with assms have e: "(kinds st)(p := None) = kinds st" by (simp add: fun_upd_back)
  show ?thesis
  proof (cases "fst (fst (f_open F n (open_mode a c) (fil_zero F) (g_fs st))) = FR_OK \<and> hnd \<noteq> None")
    case True
    then obtain h where h: "hnd = Some h" by blast
    with True Some show ?thesis
      by (simp add: V_CreateFile_def Let_def case_prod_beta CreateAPIHandle_def opened_one_def quiet_def kind_def)
  next
    case False
    then show ?thesis
      using Some e
      by (auto simp: V_CreateFile_def Let_def case_prod_beta CreateAPIHandle_def same_def quiet_def
          intro!: LocalFree_ok)
  qed
qed

text \<open>A failed search closes its directory after the lock is given back.\<close>

definition same_objects :: "('s, 'f, 'd) sd \<Rightarrow> ('s, 'f, 'd) sd \<Rightarrow> bool" where
  "same_objects st st' \<longleftrightarrow> kinds st' = kinds st \<and> sd_handles st' = sd_handles st"

lemma find_result_cases:
  assumes "kinds st1 = (kinds st)(p \<mapsto> FATF)" and "sd_handles st1 = sd_handles st"
    and "quiet st \<longrightarrow> lock_state st1 = Some True" and "kinds st p = None"
  shows "ok (find_result F p pat hnd fd d st1)
    (\<lambda>(r, st'). (r = None \<longrightarrow> same_objects st st' \<and> (quiet st \<longrightarrow> \<not> quiet st'))
      \<and> (\<forall>h x. r = Some (h, x) \<longrightarrow> hnd = Some h \<and> opened_one FATF h p st st'))"
proof (cases "fd \<noteq> None \<and> hnd \<noteq> None")
  case True
  then obtain h fd' where h: "hnd = Some h" "fd = Some fd'" by blast
  show ?thesis
    using assms by (simp add: h find_result_def CreateAPIHandle_def opened_one_def quiet_def kind_def)
next
  case False
  have e: "((kinds st)(p \<mapsto> FATF))(p := None) = kinds st" using assms(4) by (simp add: fun_upd_back)
  let ?st = "UNLOCK (obj_put p (SDFIND d pat) st1)"
  have "find_result F p pat hnd fd d st1 =
      LocalFree p (snd (ff (f_closedir F d) ?st)) \<bind> (\<lambda>st. Some (None, SetLastError ERROR_FILE_NOT_FOUND st))"
    using False by (cases fd; cases hnd) (simp_all add: find_result_def CreateAPIHandle_def case_prod_beta Let_def)
  moreover have "ok (LocalFree p (snd (ff (f_closedir F d) ?st))) (\<lambda>st'. same_objects st st' \<and> (quiet st \<longrightarrow> \<not> quiet st'))"
    using assms e by (intro LocalFree_ok) (auto simp: same_objects_def quiet_def kind_def)
  ultimately show ?thesis by (simp add: same_objects_def quiet_def)
qed

lemma FindFirst_cases:
  assumes "dirs_end F" and "\<And>p. mem = Some p \<Longrightarrow> kinds st p = None"
  shows "ok (V_FindFirstFile F mem hnd spec st)
    (\<lambda>(r, st'). (r = None \<longrightarrow> same_objects st st' \<and> (quiet st \<longrightarrow> (quiet st' \<longleftrightarrow> mem = None)))
      \<and> (\<forall>h x. r = Some (h, x) \<longrightarrow> (\<exists>p. mem = Some p \<and> hnd = Some h \<and> opened_one FATF h p st st')))"
proof (cases mem)
  case None
  then show ?thesis by (simp add: V_FindFirstFile_def same_objects_def quiet_def)
next
  case (Some p)
  obtain dir pat0 where sp: "split_spec spec = (dir, pat0)" by force
  let ?pat = "find_pat pat0"
  let ?s1 = "LOCK (obj_put p (SDFIND (dir_zero F) ?pat) st)"
  obtain fr d s2 where o: "ff (f_opendir F (if IsRoot (Some dir) then [0x5C] else dir) (dir_zero F)) ?s1 = ((fr, d), s2)"
    by (metis surj_pair)
  have s2: "kinds s2 = (kinds st)(p \<mapsto> FATF)" "sd_handles s2 = sd_handles st"
    "quiet st \<longrightarrow> lock_state s2 = Some True"
    using arg_cong [OF o, of snd, symmetric] by (simp_all add: quiet_def kind_def)
  let ?Q = "\<lambda>(r, st'). (r = None \<longrightarrow> same_objects st st' \<and> (quiet st \<longrightarrow> \<not> quiet st'))
        \<and> (\<forall>h x. r = Some (h, x) \<longrightarrow> hnd = Some h \<and> opened_one FATF h p st st')"
  have q: "ok (find_result F p ?pat hnd fd d' st') ?Q"
    if "kinds st' = kinds s2" and "sd_handles st' = sd_handles s2"
      and "lock_state s2 = Some True \<longrightarrow> lock_state st' = Some True" for fd d' st'
    using that s2 assms(2) [OF Some] by (intro find_result_cases) auto
  have "ok (if fr = FR_OK then find_entry F ?pat d s2 else Some (None, d, s2))
    (\<lambda>(fd, d', st'). ok (find_result F p ?pat hnd fd d' st') ?Q)"
  proof (rule ok_if)
    show "ok (find_entry F ?pat d s2) (\<lambda>(fd, d', st'). ok (find_result F p ?pat hnd fd d' st') ?Q)"
      by (rule ok_find_entry [OF assms(1)], unfold prod.case, rule q)
    show "ok (Some (None, d, s2)) (\<lambda>(fd, d', st'). ok (find_result F p ?pat hnd fd d' st') ?Q)"
      unfolding ok_Some prod.case by (rule q) simp_all
  qed
  then have "ok ((if fr = FR_OK then find_entry F ?pat d s2 else Some (None, d, s2))
      \<bind> (\<lambda>(fd, d, st). find_result F p ?pat hnd fd d st)) ?Q"
    unfolding ok_bind by (rule ok_mono) (simp split: prod.splits)
  moreover have "V_FindFirstFile F mem hnd spec st =
      (if fr = FR_OK then find_entry F ?pat d s2 else Some (None, d, s2))
      \<bind> (\<lambda>(fd, d, st). find_result F p ?pat hnd fd d st)"
    unfolding V_FindFirstFile_def Some option.case sp Let_def prod.case o ..
  ultimately show ?thesis using Some by (auto elim!: ok_mono)
qed

section \<open>Every sequence of calls\<close>

text \<open>
  What the kernel guarantees of its own results: memory it hands out is not in use, and a new
  handle is not open.
\<close>

fun fresh :: "nat option \<Rightarrow> nat option \<Rightarrow> ('s, 'f, 'd) sd \<Rightarrow> bool" where
  "fresh mem hnd st \<longleftrightarrow> (mem \<noteq> None \<longrightarrow> sd_heap st (the mem) = None) \<and> (hnd \<noteq> None \<longrightarrow> sd_handles st (the hnd) = None)"

primrec call_ok :: "sdcall \<Rightarrow> ('s, 'f, 'd) sd \<Rightarrow> bool" where
  "call_ok VNoSupport st = True"
| "call_ok (VCreateDirectory p) st = True"
| "call_ok (VRemoveDirectory p) st = True"
| "call_ok (VGetFileAttributes p) st = True"
| "call_ok (VSetFileAttributes p a) st = True"
| "call_ok (VCreateFile mem hnd n a c) st = fresh mem hnd st"
| "call_ok (VDeleteFile p) st = True"
| "call_ok (VMoveFile p q) st = True"
| "call_ok (VFindFirstFile mem hnd s) st = fresh mem hnd st"
| "call_ok VGetDiskFreeSpace st = True"
| "call_ok (FileCall h m) st = True"
| "call_ok (FindCall h m) st = True"

inductive sd_reach :: "('s, 'f, 'd) fatfs \<Rightarrow> ('s, 'f, 'd) sd \<Rightarrow> bool" for F where
  sd_init: "sd_heap st = Map.empty \<Longrightarrow> sd_handles st = Map.empty \<Longrightarrow> sd_reach F st"
| sd_more: "sd_reach F st \<Longrightarrow> call_ok c st \<Longrightarrow> sd_call F c st = Some st' \<Longrightarrow> sd_reach F st'"

lemma owned_same: "same st st' \<Longrightarrow> owned (kinds st') (sd_handles st') = owned (kinds st) (sd_handles st)"
  by (simp add: same_def)

lemma ownedD:
  assumes "owned kd hs"
  shows "hs h = Some (k, p) \<Longrightarrow> kd p = Some k" and "hs h = Some (k, p) \<Longrightarrow> hs h' = Some (k', p) \<Longrightarrow> h = h'"
    and "kd p = Some k \<Longrightarrow> \<exists>h. hs h = Some (k, p)"
  using assms unfolding owned_def by blast+

lemma owned_closed:
  assumes o: "owned (kinds st) (sd_handles st)" and h: "sd_handles st h = Some (k, p)" and c: "closed_one h p st st'"
  shows "owned (kinds st') (sd_handles st')"
proof -
  have e: "kinds st' = (kinds st)(p := None)" "sd_handles st' = (sd_handles st)(h := None)"
    using c by (simp_all add: closed_one_def)
  have p: "p1 \<noteq> p" if "sd_handles st h1 = Some (k1, p1)" "h1 \<noteq> h" for h1 k1 p1
    using that ownedD(2) [OF o h] by blast
  show ?thesis
    unfolding owned_def e
  proof (intro conjI allI impI)
    fix h1 k1 p1 assume "((sd_handles st)(h := None)) h1 = Some (k1, p1)"
    then show "((kinds st)(p := None)) p1 = Some k1"
      using p ownedD(1) [OF o] by (auto split: if_splits)
  next
    fix h1 h2 k1 k2 p1
    assume "((sd_handles st)(h := None)) h1 = Some (k1, p1)" "((sd_handles st)(h := None)) h2 = Some (k2, p1)"
    then show "h1 = h2" using ownedD(2) [OF o] by (auto split: if_splits)
  next
    fix p1 k1 assume a: "((kinds st)(p := None)) p1 = Some k1"
    then obtain h1 where "sd_handles st h1 = Some (k1, p1)" "p1 \<noteq> p"
      using ownedD(3) [OF o] by (auto split: if_splits)
    with h show "\<exists>h1. ((sd_handles st)(h := None)) h1 = Some (k1, p1)" by (intro exI [of _ h1]) auto
  qed
qed

lemma owned_opened:
  assumes o: "owned (kinds st) (sd_handles st)" and p: "kinds st p = None" and h: "sd_handles st h = None"
    and c: "opened_one k h p st st'"
  shows "owned (kinds st') (sd_handles st')"
proof -
  have e: "kinds st' = (kinds st)(p \<mapsto> k)" "sd_handles st' = (sd_handles st)(h \<mapsto> (k, p))"
    using c by (simp_all add: opened_one_def)
  have n: "p1 \<noteq> p" if "sd_handles st h1 = Some (k1, p1)" for h1 k1 p1
    using ownedD(1) [OF o that] p by auto
  show ?thesis
    unfolding owned_def e
  proof (intro conjI allI impI)
    fix h1 k1 p1 assume "((sd_handles st)(h \<mapsto> (k, p))) h1 = Some (k1, p1)"
    then show "((kinds st)(p \<mapsto> k)) p1 = Some k1"
      using n ownedD(1) [OF o] by (auto split: if_splits)
  next
    fix h1 h2 k1 k2 p1
    assume "((sd_handles st)(h \<mapsto> (k, p))) h1 = Some (k1, p1)" "((sd_handles st)(h \<mapsto> (k, p))) h2 = Some (k2, p1)"
    then show "h1 = h2" using n ownedD(2) [OF o] by (auto split: if_splits)
  next
    fix p1 k1 assume a: "((kinds st)(p \<mapsto> k)) p1 = Some k1"
    show "\<exists>h1. ((sd_handles st)(h \<mapsto> (k, p))) h1 = Some (k1, p1)"
    proof (cases "p1 = p")
      case True
      with a show ?thesis by (intro exI [of _ h]) simp
    next
      case False
      with a obtain h1 where "sd_handles st h1 = Some (k1, p1)" using ownedD(3) [OF o] by fastforce
      with h show ?thesis by (intro exI [of _ h1]) auto
    qed
  qed
qed

lemma fresh_mem: "fresh mem hnd st \<Longrightarrow> mem = Some p \<Longrightarrow> kinds st p = None"
  and fresh_hnd: "fresh mem hnd st \<Longrightarrow> hnd = Some h \<Longrightarrow> sd_handles st h = None"
  by (simp_all add: kinds_def)

text \<open>One call: it does not fault, objects and handles stay matched, and the lock is respected.\<close>

definition sd_good :: "sdcall \<Rightarrow> ('s, 'f, 'd) sd \<Rightarrow> ('s, 'f, 'd) sd \<Rightarrow> bool" where
  "sd_good c st st' \<longleftrightarrow> owned (kinds st') (sd_handles st')
     \<and> (quiet st \<longrightarrow> quiet st' \<or> ((\<exists>m h s. c = VFindFirstFile m h s) \<and> sd_handles st' = sd_handles st))"

lemma good_same: "owned (kinds st) (sd_handles st) \<Longrightarrow> same st st' \<Longrightarrow> sd_good c st st'"
  using owned_same [of st st'] by (simp add: sd_good_def same_def)

lemma good_closed:
  "owned (kinds st) (sd_handles st) \<Longrightarrow> sd_handles st h = Some (k, p) \<Longrightarrow> closed_one h p st st' \<Longrightarrow> sd_good c st st'"
  using owned_closed [of st h k p st'] by (auto simp: sd_good_def closed_one_def)

lemma good_opened:
  "owned (kinds st) (sd_handles st) \<Longrightarrow> kinds st p = None \<Longrightarrow> sd_handles st h = None \<Longrightarrow>
     opened_one k h p st st' \<Longrightarrow> sd_good c st st'"
  using owned_opened [of st p h k st'] by (auto simp: sd_good_def opened_one_def)

lemma file_call_good:
  assumes "owned (kinds st) (sd_handles st)" and "sd_handles st h = Some (FATH, p)"
  shows "ok (file_call F h p m st) (sd_good c st)"
proof (cases "m = FClose")
  case True
  show ?thesis unfolding True
    by (rule ok_mono [OF file_close]) (use assms ownedD(1) [OF assms] good_closed in blast)+
next
  case False
  then show ?thesis
    by (intro ok_mono [OF file_call_same]) (use assms ownedD(1) [OF assms] good_same in blast)+
qed

lemma find_call_good:
  assumes "dirs_end F" and "owned (kinds st) (sd_handles st)" and "sd_handles st h = Some (FATF, p)"
  shows "ok (find_call F h p m st) (sd_good c st)"
proof (cases m)
  case SClose
  show ?thesis unfolding SClose
    by (rule ok_mono [OF find_close]) (use assms ownedD(1) [OF assms(2,3)] good_closed in blast)+
next
  case SNext
  show ?thesis unfolding SNext
    by (rule ok_mono [OF S_Next_same [OF assms(1)]]) (use assms ownedD(1) [OF assms(2,3)] good_same in blast)+
next
  case SNoSupport
  then show ?thesis using good_same [OF assms(2) volume_same(1)] by simp
qed

lemma create_call_good:
  assumes o: "owned (kinds st) (sd_handles st)" and f: "fresh mem hnd st"
  shows "ok (sd_call F (VCreateFile mem hnd n a k) st) (sd_good c st)"
  unfolding sd_call.simps ok_map_option
proof (rule ok_mono [OF CreateFile_cases [OF fresh_mem [OF f]]])
  fix y assume a: "case y of (r, st') \<Rightarrow> (r = None \<longrightarrow> same st st')
    \<and> (\<forall>h. r = Some h \<longrightarrow> (\<exists>p. mem = Some p \<and> hnd = Some h \<and> opened_one FATH h p st st'))"
  show "sd_good c st (snd y)"
  proof (cases "fst y")
    case None
    with a good_same [OF o] show ?thesis by (simp add: case_prod_beta)
  next
    case (Some h)
    with a obtain p where "mem = Some p" "hnd = Some h" "opened_one FATH h p st (snd y)"
      by (auto simp: case_prod_beta)
    with good_opened [OF o fresh_mem [OF f] fresh_hnd [OF f]] show ?thesis by blast
  qed
qed

lemma search_call_good:
  assumes d: "dirs_end F" and o: "owned (kinds st) (sd_handles st)" and f: "fresh mem hnd st"
  shows "ok (sd_call F (VFindFirstFile mem hnd s) st) (sd_good (VFindFirstFile mem hnd s) st)"
  unfolding sd_call.simps ok_map_option
proof (rule ok_mono [OF FindFirst_cases [OF d fresh_mem [OF f]]])
  fix y assume a: "case y of (r, st') \<Rightarrow> (r = None \<longrightarrow> same_objects st st' \<and> (quiet st \<longrightarrow> (quiet st' \<longleftrightarrow> mem = None)))
      \<and> (\<forall>h x. r = Some (h, x) \<longrightarrow> (\<exists>p. mem = Some p \<and> hnd = Some h \<and> opened_one FATF h p st st'))"
  show "sd_good (VFindFirstFile mem hnd s) st (snd y)"
  proof (cases "fst y")
    case None
    with a o show ?thesis by (auto simp: case_prod_beta same_objects_def sd_good_def)
  next
    case (Some hx)
    with a obtain p h where "mem = Some p" "hnd = Some h" "opened_one FATF h p st (snd y)"
      by (cases hx) (auto simp: case_prod_beta)
    with good_opened [OF o fresh_mem [OF f] fresh_hnd [OF f]] show ?thesis by blast
  qed
qed

lemma sd_call_good:
  assumes "dirs_end F" and "owned (kinds st) (sd_handles st)" and "call_ok c st"
  shows "ok (sd_call F c st) (sd_good c st)"
proof (cases c)
  case (VCreateFile m h n a k)
  then show ?thesis using create_call_good [OF assms(2), of m h] assms(3) by simp
next
  case (VFindFirstFile m h s)
  then show ?thesis using search_call_good [OF assms(1,2), of m h] assms(3) by simp
next
  case (FileCall h m)
  show ?thesis
  proof (cases "\<exists>p. sd_handles st h = Some (FATH, p)")
    case True
    then show ?thesis using file_call_good [OF assms(2)] FileCall by auto
  next
    case False
    then have "sd_call F c st = Some st" using FileCall by (auto split: option.split prod.split apiset.split)
    then show ?thesis using good_same [OF assms(2) same_refl] by simp
  qed
next
  case (FindCall h m)
  show ?thesis
  proof (cases "\<exists>p. sd_handles st h = Some (FATF, p)")
    case True
    then show ?thesis using find_call_good [OF assms(1,2)] FindCall by auto
  next
    case False
    then have "sd_call F c st = Some st" using FindCall by (auto split: option.split prod.split apiset.split)
    then show ?thesis using good_same [OF assms(2) same_refl] by simp
  qed
qed (simp_all add: good_same [OF assms(2)] volume_same)

lemma sd_reach_owned: "sd_reach F st \<Longrightarrow> dirs_end F \<Longrightarrow> owned (kinds st) (sd_handles st)"
proof (induction rule: sd_reach.induct)
  case (sd_init st)
  then show ?case by (simp add: owned_def kinds_def)
next
  case (sd_more st c st')
  with sd_call_good [of F st c] show ?case by (simp add: sd_good_def)
qed

text \<open>
  C29: the SD driver neither leaks nor uses freed memory. After any sequence of volume, file
  and search calls, failed ones included, every open handle has an object of its kind of its
  own and there is no object without a handle; and the next call, whatever it is, returns
  without touching memory that is not its own, as long as directories end and the kernel
  hands out fresh memory and handles.
\<close>
theorem Sdcard_objects:
  assumes "sd_reach F st" and "dirs_end F" and "call_ok c st"
  shows "\<exists>st'. sd_call F c st = Some st' \<and> owned (kinds st') (sd_handles st')"
  using sd_call_good [OF assms(2) sd_reach_owned [OF assms(1,2)] assms(3)]
  by (auto simp: ok_def sd_good_def)

text \<open>
  FatFs is only entered under the driver's lock and every call gives the lock back,
  with one exception: a \<open>FindFirstFile\<close> that had memory but returns no handle calls
  \<open>f_closedir\<close> after it has left the critical section.
\<close>
theorem Sdcard_lock:
  assumes "sd_reach F st" and "dirs_end F" and "call_ok c st" and "quiet st"
  shows "\<exists>st'. sd_call F c st = Some st' \<and>
    (quiet st' \<or> ((\<exists>m h s. c = VFindFirstFile m h s) \<and> sd_handles st' = sd_handles st))"
  using sd_call_good [OF assms(2) sd_reach_owned [OF assms(1,2)] assms(3)] assms(4)
  by (auto simp: ok_def sd_good_def)

lemma FindFirst_unlocked:
  assumes "dirs_end F" and "sd_heap st p = None" and "quiet st"
    and "V_FindFirstFile F (Some p) hnd spec st = Some (None, st')"
  shows "\<not> quiet st'"
  using FindFirst_cases [OF assms(1), of "Some p" st hnd spec] assms by (simp add: kinds_def)

text \<open>\<open>TRUNCATE_EXISTING\<close> asks FatFs for the same as \<open>CREATE_ALWAYS\<close>, so it creates a missing file.\<close>

lemma truncate_creates: "V_CreateFile F mem hnd n a 5 st = V_CreateFile F mem hnd n a 2 st"
proof -
  have "open_mode a 5 = open_mode a 2" by (simp add: open_mode_def)
  then show ?thesis unfolding V_CreateFile_def by (simp only:)
qed

section \<open>Witnesses\<close>

text \<open>A card with three files in its root; a directory object is the list of entries to come.\<close>

definition no_info :: finfo where
  "no_info = \<lparr>fi_fname = [], fi_lfn = [], fi_attr = 0, fi_size = 0, fi_date = 0, fi_time = 0\<rparr>"

definition card_files :: "finfo list" where
  "card_files = [no_info\<lparr>fi_fname := ws ''SONG.MP3''\<rparr>, no_info\<lparr>fi_fname := ws ''A.TXT'', fi_lfn := ws ''a.txt''\<rparr>,
     no_info\<lparr>fi_fname := ws ''B.MP3''\<rparr>]"

definition ff0 :: "(unit, nat, finfo list) fatfs" where
  "ff0 = \<lparr>f_mkdir = \<lambda>p s. (0, s), f_unlink = \<lambda>p s. (0, s), f_stat = \<lambda>p s. ((0, no_info), s),
     f_chmod = \<lambda>p a m s. (0, s), f_rename = \<lambda>p q s. (0, s), f_getfree = \<lambda>s. ((0, 1, 1, 3), s),
     f_mount = \<lambda>s. (0, s), f_open = \<lambda>p m f s. ((0, 0), s), f_close = \<lambda>f s. ((0, f), s),
     f_read = \<lambda>n f s. ((0, [], f), s), f_write = \<lambda>b f s. ((0, length b, f), s),
     f_lseek = \<lambda>o' f s. ((0, f), s), f_sync = \<lambda>f s. ((0, f), s), f_truncate = \<lambda>f s. ((0, f), s),
     f_size = \<lambda>f. 0, f_tell = \<lambda>f. 0, f_opendir = \<lambda>p d s. ((0, card_files), s),
     f_readdir = \<lambda>d s. (case d of [] \<Rightarrow> ((0, no_info, []), s) | e # es \<Rightarrow> ((0, e, es), s)),
     f_closedir = \<lambda>d s. ((0, d), s), fil_zero = 0, dir_zero = []\<rparr>"

definition sd0 :: "(unit, nat, finfo list) sd" where
  "sd0 = \<lparr>g_fs = (), sd_heap = Map.empty, sd_handles = Map.empty, sd_err = 0, sd_trace = []\<rparr>"

lemma ff0_ends: "dirs_end ff0"
proof -
  have "dir_ends ff0 d s" for d :: "finfo list" and s :: unit
  proof (induction d)
    case Nil
    show ?case by (rule de_end [of _ _ _ 0 no_info "[]" s]) (simp_all add: ff0_def no_info_def)
  next
    case (Cons e es)
    show ?case by (rule de_more [of _ _ _ 0 e es s]) (simp add: ff0_def, rule Cons.IH)
  qed
  then show ?thesis by (simp add: dirs_end_def)
qed

lemma sd0_reach: "sd_reach ff0 sd0"
  by (rule sd_init) (simp_all add: sd0_def)

theorem Sdcard_objects_witness:
  "\<exists>st'. sd_call ff0 (VCreateFile (Some 100) (Some 7) (ws ''SONG.MP3'') 0x80000000 3) sd0 = Some st'
     \<and> owned (kinds st') (sd_handles st')"
  by (rule Sdcard_objects [OF sd0_reach ff0_ends]) (simp add: sd0_def)

theorem Sdcard_lock_witness:
  "\<exists>st'. sd_call ff0 (VCreateDirectory (ws ''new'')) sd0 = Some st' \<and> quiet st'"
  using Sdcard_lock [OF sd0_reach ff0_ends, of "VCreateDirectory (ws ''new'')"]
  by (simp add: sd0_def quiet_def lock_state_def)

theorem FindFile_enumerates_witness:
  "\<exists>st1 st2 st3. V_FindFirstFile ff0 (Some 100) (Some 7) (0x5C # ws ''*.mp3'') sd0
       = Some (Some (7, found (card_files ! 0)), st1)
     \<and> next_all ff0 1 100 st1 = Some ([found (card_files ! 2)], st2)
     \<and> S_Next ff0 (Some 100) st2 = Some (None, st3)"
proof -
  have s: "split_spec (0x5C # ws ''*.mp3'') = ([], ws ''*.mp3'')" by (simp add: split_spec_def ws_def)
  have d: "dir_lists ff0 card_files card_files ()"
    by (simp add: card_files_def ff0_def FR_OK_def no_info_def ws_def)
  have h: "hits (find_pat (ws ''*.mp3'')) card_files = card_files ! 0 # [card_files ! 2]"
    by (simp add: hits_def find_pat_def card_files_def entry_name_def no_info_def ws_def upper_def)
  have o: "f_opendir ff0 (if IsRoot (Some []) then [0x5C] else []) (dir_zero ff0) (g_fs sd0) = ((FR_OK, card_files), ())"
    by (simp add: ff0_def FR_OK_def sd0_def)
  from FindFile_enumerates [OF s o d h, of 100 7] show ?thesis by (simp del: next_all.simps) blast
qed

end
