(* ===== verification/Boot.thy ===== *)
theory Boot
  imports Dcinput "HOL-Library.Multiset"
begin

text \<open>
  The boot loader, \<open>shell/dcwboot.c\<close>, with its assembly part \<open>shell/trampoline.src\<close>: the menu,
  the launch of the desktop, and the chain load of a second system image over the running one.

  Physical memory is a function from addresses to bytes. A block of \<open>VirtualAlloc\<close> is the list
  of the physical addresses of its pages, which need not be adjacent; the blocks that are
  allocated are listed in the state. Access outside a block is \<open>None\<close>. What the system answers
  (the file, the allocations, the page frames) is the record \<open>bootenv\<close>. Log lines, the
  drawing of the menu, the caches and the status register are left out.
\<close>

section \<open>Physical memory\<close>

type_synonym pmem = "u32 \<Rightarrow> byte"

definition phys :: "u32 \<Rightarrow> u32" where "phys a = a AND 0x1FFFFFFF"

definition P2 :: "u32 \<Rightarrow> u32" where "P2 pa = pa AND 0x1FFFFFFF OR 0xA0000000"

definition ld32 :: "pmem \<Rightarrow> u32 \<Rightarrow> u32" where
  "ld32 m a = le32 [m a, m (a + 1), m (a + 2), m (a + 3)]"

definition st32 :: "u32 \<Rightarrow> u32 \<Rightarrow> pmem \<Rightarrow> pmem" where
  "st32 a v m = (case le32_bytes v of
     [b0, b1, b2, b3] \<Rightarrow> m(a := b0, a + 1 := b1, a + 2 := b2, a + 3 := b3) | _ \<Rightarrow> m)"

text \<open>Byte \<open>k\<close> of a block with the page frames \<open>fs\<close>.\<close>

definition buf_addr :: "u32 list \<Rightarrow> nat \<Rightarrow> u32" where
  "buf_addr fs k = fs ! (k div 4096) + word_of_nat (k mod 4096)"

primrec put_bytes :: "u32 list \<Rightarrow> nat \<Rightarrow> byte list \<Rightarrow> pmem \<Rightarrow> pmem" where
  "put_bytes fs k [] m = m"
| "put_bytes fs k (b # bs) m = put_bytes fs (k + 1) bs (m(buf_addr fs k := b))"

definition buf_wr :: "u32 list \<Rightarrow> nat \<Rightarrow> byte list \<Rightarrow> pmem \<Rightarrow> pmem option" where
  "buf_wr fs k bs m = (if k + length bs \<le> 4096 * length fs then Some (put_bytes fs k bs m) else None)"

section \<open>The trampoline\<close>

text \<open>\<open>WordTop\<close>: \<open>n\<close> words from \<open>src\<close> to \<open>dst\<close>, both uncached aliases.\<close>

primrec copy_words :: "nat \<Rightarrow> u32 \<Rightarrow> u32 \<Rightarrow> pmem \<Rightarrow> pmem" where
  "copy_words 0 src dst m = m"
| "copy_words (Suc n) src dst m = copy_words n (src + 4) (dst + 4) (st32 (phys dst) (ld32 m (phys src)) m)"

text \<open>
  \<open>PageTop\<close>: page \<open>i\<close>, with \<open>r5\<close> the place in the page-frame list and \<open>r2\<close> the destination.
  The count is compared after the page, so at least one page is copied. An address that is not a
  multiple of four is an address error; a page written over the page \<open>c\<close> that holds the
  trampoline ends what can be said. Both are \<open>None\<close>.
\<close>

definition al4 :: "u32 \<Rightarrow> bool" where "al4 a \<longleftrightarrow> unat a mod 4 = 0"

definition over_page :: "u32 \<Rightarrow> u32 \<Rightarrow> bool" where
  "over_page c a \<longleftrightarrow> unat (a - c) < 4096 \<or> unat (c - a) < 4096"

function page_loop :: "u32 \<Rightarrow> u32 \<Rightarrow> nat \<Rightarrow> nat \<Rightarrow> u32 \<Rightarrow> u32 \<Rightarrow> pmem \<Rightarrow> pmem option" where
  "page_loop c p n i r5 r2 m =
     (let r5 = (if i mod 1024 = 0 then ld32 m (phys (p + 16 + word_of_nat (i div 1024 * 4))) else r5);
          r1 = P2 (ld32 m (phys r5))
      in if \<not> al4 r5 \<or> \<not> al4 r1 \<or> \<not> al4 r2 \<or> over_page c (phys r2) then None
         else let m = copy_words 1024 r1 r2 m
              in if i + 1 \<ge> n then Some m else page_loop c p n (i + 1) (r5 + 4) (r2 + 4096) m)"
  by pat_completeness auto

termination by (relation "measure (\<lambda>(c, p, n, i, _). n - i)") auto

declare page_loop.simps [simp del]

text \<open>The entry it jumps to, and the memory there; the code runs at \<open>c\<close>.\<close>

definition Chainload :: "u32 \<Rightarrow> u32 \<Rightarrow> pmem \<Rightarrow> (u32 \<times> pmem) option" where
  "Chainload c p m =
     (let r2 = ld32 m (phys p); r3 = ld32 m (phys (p + 4)); r6 = ld32 m (phys (p + 8))
      in map_option (Pair r6) (page_loop (phys c) p (unat r3) 0 0 r2 m))"

section \<open>State\<close>

record bootenv =
  be_attr :: bool
  be_open :: bool
  be_img :: "byte list"
  be_valloc :: "nat \<Rightarrow> nat \<Rightarrow> u32 list option"
  be_lock :: "u32 list \<Rightarrow> u32 list option"
  be_code :: "byte list"
  be_create :: "wchar list \<Rightarrow> bool"

datatype bootev = EvGfxShutdown | EvCreate "wchar list" | EvKMode | EvCacheSync | EvNetwork

record boot =
  s_nSel :: nat
  s_bNetKicked :: bool
  s_szMsg :: "wchar list"
  bt_pm :: pmem
  bt_blocks :: "u32 list list"
  bt_nalloc :: nat
  bt_file :: bool
  bt_log :: "bootev list"

definition bev :: "bootev \<Rightarrow> boot \<Rightarrow> boot" where
  "bev e st = st\<lparr>bt_log := bt_log st @ [e]\<rparr>"

definition boot_msg :: "string \<Rightarrow> boot \<Rightarrow> boot option" where
  "boot_msg s st = (if length s < 64 then Some (st\<lparr>s_szMsg := ws s\<rparr>) else None)"

definition VirtualAlloc :: "bootenv \<Rightarrow> nat \<Rightarrow> boot \<Rightarrow> u32 list option \<times> boot" where
  "VirtualAlloc E n st =
     (let r = be_valloc E (bt_nalloc st) n; st = st\<lparr>bt_nalloc := bt_nalloc st + 1\<rparr>
      in (r, case r of None \<Rightarrow> st | Some fs \<Rightarrow> st\<lparr>bt_blocks := fs # bt_blocks st\<rparr>))"

definition VirtualFree :: "u32 list \<Rightarrow> boot \<Rightarrow> boot" where
  "VirtualFree fs st = st\<lparr>bt_blocks := remove1 fs (bt_blocks st)\<rparr>"

section \<open>Page frames\<close>

definition ShiftOf :: "u32 \<Rightarrow> nat option" where
  "ShiftOf pfn0 = List.find (\<lambda>s. push_bit s pfn0 \<ge> 0x0C600000 \<and> push_bit s pfn0 < 0x0D000000) [0, 8, 12]"

text \<open>The first entry of a list that starts zeroed.\<close>

definition hd0 :: "u32 list \<Rightarrow> u32" where
  "hd0 xs = (case xs of [] \<Rightarrow> 0 | x # _ \<Rightarrow> x)"

definition PagePhys :: "bootenv \<Rightarrow> u32 list \<Rightarrow> u32" where
  "PagePhys E pv =
     (case be_lock E pv of
        None \<Rightarrow> 0
      | Some pfns \<Rightarrow> (case ShiftOf (hd0 pfns) of None \<Rightarrow> 0 | Some s \<Rightarrow> push_bit s (hd0 pfns)))"

definition Rd32 :: "byte list \<Rightarrow> nat \<Rightarrow> u32 option" where
  "Rd32 m i = do {
     a \<leftarrow> rd8 m i; b \<leftarrow> rd8 m (i + 1); c \<leftarrow> rd8 m (i + 2); d \<leftarrow> rd8 m (i + 3);
     Some (ucast a OR push_bit 8 (ucast b) OR push_bit 16 (ucast c) OR push_bit 24 (ucast d)) }"

section \<open>The chain load\<close>

text \<open>What \<open>BootIeImage\<close> holds: the open file and its blocks, in the order \<open>fail\<close> frees them.\<close>

record bootres =
  br_pBuf :: "u32 list option"
  br_pfnTmp :: "u32 list option"
  br_pTramp :: "u32 list option"
  br_apfnPg :: "u32 list list"

definition free_opt :: "u32 list option \<Rightarrow> boot \<Rightarrow> boot" where
  "free_opt r st = (case r of None \<Rightarrow> st | Some fs \<Rightarrow> VirtualFree fs st)"

text \<open>The label \<open>fail\<close>.\<close>

definition boot_fail :: "bootres \<Rightarrow> string \<Rightarrow> boot \<Rightarrow> (u32 option \<times> boot) option" where
  "boot_fail R s st = do {
     st \<leftarrow> boot_msg s st;
     let st = (if bt_file st then st\<lparr>bt_file := False\<rparr> else st);
     let st = free_opt (br_pTramp R) (free_opt (br_pfnTmp R) (free_opt (br_pBuf R) st));
     Some (None, fold VirtualFree (br_apfnPg R) st) }"

text \<open>The page-frame list, one page of up to 1024 entries at a time. The message is that of a way to \<open>fail\<close>.\<close>

primrec put_pfns :: "u32 list \<Rightarrow> nat \<Rightarrow> u32 list \<Rightarrow> pmem \<Rightarrow> pmem option" where
  "put_pfns pg i [] m = Some m"
| "put_pfns pg i (a # as) m = do { m \<leftarrow> buf_wr pg (4 * i) (le32_bytes a) m; put_pfns pg (i + 1) as m }"

primrec pfn_pages ::
  "bootenv \<Rightarrow> nat \<Rightarrow> nat \<Rightarrow> u32 list \<Rightarrow> nat \<Rightarrow> u32 list \<Rightarrow> nat \<Rightarrow> bootres \<Rightarrow> boot
     \<Rightarrow> (string option \<times> bootres \<times> boot) option" where
  "pfn_pages E 0 k pfns s tramp descOff R st = Some (None, R, st)"
| "pfn_pages E (Suc n) k pfns s tramp descOff R st =
     (case VirtualAlloc E 4096 st of (r, st) \<Rightarrow>
        case r of
          None \<Rightarrow> Some (Some ''IE chainload: pfn page alloc failed'', R, st)
        | Some pg \<Rightarrow> do {
            let R = R\<lparr>br_apfnPg := br_apfnPg R @ [pg]\<rparr>;
            m \<leftarrow> put_pfns pg 0 (map (push_bit s) (take 1024 (drop (k * 1024) pfns))) (bt_pm st);
            let st = st\<lparr>bt_pm := m\<rparr>;
            let pa = PagePhys E pg;
            if pa = 0 then Some (Some ''IE chainload: pfn page phys failed'', R, st)
            else do {
              m \<leftarrow> buf_wr tramp (descOff + 16 + 4 * k) (le32_bytes (P2 pa)) (bt_pm st);
              pfn_pages E n (k + 1) pfns s tramp descOff R (st\<lparr>bt_pm := m\<rparr>) } })"

text \<open>The descriptor, the hand-over, and the jump.\<close>

definition hand_over ::
  "bootenv \<Rightarrow> u32 list \<Rightarrow> nat \<Rightarrow> u32 \<Rightarrow> nat \<Rightarrow> u32 \<Rightarrow> boot \<Rightarrow> (u32 option \<times> boot) option" where
  "hand_over E tramp descOff dwBase nPages paTramp st = do {
     m \<leftarrow> buf_wr tramp descOff (le32_bytes (P2 dwBase)) (bt_pm st);
     m \<leftarrow> buf_wr tramp (descOff + 4) (le32_bytes (word_of_nat nPages)) m;
     m \<leftarrow> buf_wr tramp (descOff + 8) (le32_bytes ((dwBase AND 0x1FFFFFFF OR 0x80000000) + 4)) m;
     m \<leftarrow> buf_wr tramp (descOff + 12) (le32_bytes 0x100000F0) m;
     let st = bev EvCacheSync (bev EvKMode (bev EvGfxShutdown (st\<lparr>bt_pm := m\<rparr>)));
     (entry, m) \<leftarrow> Chainload (P2 paTramp) (P2 (paTramp + word_of_nat descOff)) (bt_pm st);
     Some (Some entry, st\<lparr>bt_pm := m\<rparr>) }"

definition chain_load ::
  "bootenv \<Rightarrow> u32 \<Rightarrow> nat \<Rightarrow> nat \<Rightarrow> u32 list \<Rightarrow> u32 list \<Rightarrow> bootres \<Rightarrow> boot \<Rightarrow> (u32 option \<times> boot) option" where
  "chain_load E dwBase nPages nPfnPg buf tramp R st = do {
     let descOff = (length (be_code E) + 31) div 32 * 32;
     m \<leftarrow> buf_wr tramp 0 (be_code E) (bt_pm st);
     let st = st\<lparr>bt_pm := m\<rparr>;
     case be_lock E buf of
       None \<Rightarrow> boot_fail R ''IE chainload: LockPages failed'' st
     | Some pfns \<Rightarrow>
         (case ShiftOf (hd0 pfns) of
            None \<Rightarrow> boot_fail R ''IE chainload: bad pfn encoding (see log)'' st
          | Some s \<Rightarrow> do {
              (r, R, st) \<leftarrow> pfn_pages E nPfnPg 0 (take nPages (pfns @ replicate nPages 0)) s tramp descOff R st;
              case r of
                Some e \<Rightarrow> boot_fail R e st
              | None \<Rightarrow>
                  let paTramp = PagePhys E tramp
                  in if paTramp = 0 then boot_fail R ''IE chainload: trampoline phys failed'' st
                     else hand_over E tramp descOff dwBase nPages paTramp st }) }"

definition load_payload ::
  "bootenv \<Rightarrow> u32 \<Rightarrow> nat \<Rightarrow> nat \<Rightarrow> nat \<Rightarrow> nat \<Rightarrow> boot \<Rightarrow> (u32 option \<times> boot) option" where
  "load_payload E dwBase dwOff dwLen nPages nPfnPg st =
     (let (a, st) = VirtualAlloc E dwLen st;
          (b, st) = VirtualAlloc E ((nPages + 4) * 4) st;
          (c, st) = VirtualAlloc E 4096 st;
          R = \<lparr>br_pBuf = a, br_pfnTmp = b, br_pTramp = c, br_apfnPg = []\<rparr>
      in case (a, b, c) of
           (Some buf, Some tmp, Some tramp) \<Rightarrow>
             let d = take dwLen (drop dwOff (be_img E))
             in do {
               m \<leftarrow> buf_wr buf 0 d (bt_pm st);
               let st = st\<lparr>bt_pm := m\<rparr>;
               if length d < dwLen then boot_fail R ''IE image: payload read failed'' st
               else chain_load E dwBase nPages nPfnPg buf tramp R (st\<lparr>bt_file := False\<rparr>) }
         | _ \<Rightarrow> boot_fail R ''IE chainload: out of RAM'' st)"

definition BootIeImage :: "bootenv \<Rightarrow> boot \<Rightarrow> (u32 option \<times> boot) option" where
  "BootIeImage E st =
     (if \<not> be_attr E then map_option (Pair None) (boot_msg ''IE image not on disc - rebuild with -DHTML=on'' st)
      else if \<not> be_open E then map_option (Pair None) (boot_msg ''IE image open failed'' st)
      else let st = st\<lparr>bt_file := True\<rparr>; hdr = take 0x24 (be_img E);
               R = \<lparr>br_pBuf = None, br_pfnTmp = None, br_pTramp = None, br_apfnPg = []\<rparr>
        in if length hdr < 0x24 \<or> hdr ! 0 \<noteq> 0xD6 \<or> hdr ! 1 \<noteq> 0x1A
           then boot_fail R ''IE image bad D61A header'' st
           else do {
             dwBase \<leftarrow> Rd32 hdr 0x14;
             dwOff \<leftarrow> Rd32 hdr 0x18;
             dwLen \<leftarrow> Rd32 hdr 0x1C;
             let nPages = unat ((dwLen + 0x1000 - 1) div 0x1000);
             let nPfnPg = (nPages + 1023) div 1024;
             if nPfnPg > 8 then boot_fail R ''IE image too large to chainload'' st
             else load_payload E dwBase (unat dwOff) (unat dwLen) nPages nPfnPg st })"

section \<open>The menu\<close>

definition KickNetwork :: "boot \<Rightarrow> boot" where
  "KickNetwork st = (if s_bNetKicked st then st else bev EvNetwork (st\<lparr>s_bNetKicked := True\<rparr>))"

definition DCSHELL :: "wchar list" where
  "DCSHELL = 0x5C # ws ''Windows'' @ 0x5C # ws ''dcshell.exe''"

definition LaunchShell :: "bootenv \<Rightarrow> boot \<Rightarrow> boot" where
  "LaunchShell E st =
     (let st = bev (EvCreate DCSHELL) (bev EvGfxShutdown st)
      in if \<not> be_create E DCSHELL then bev (EvCreate (ws ''dcshell.exe'')) st else st)"

text \<open>
  The result of a choice or a key: the flag \<open>bDone\<close> and the state, or the entry of the image that
  was jumped to.
\<close>

datatype menures = Menu bool boot | Jumped u32 boot

definition Choose :: "bootenv \<Rightarrow> bool \<Rightarrow> boot \<Rightarrow> menures option" where
  "Choose E bDone st =
     (let st = st\<lparr>s_szMsg := []\<rparr>
      in if s_nSel st = 0 then Some (Menu True (LaunchShell E st))
         else do {
           (r, st) \<leftarrow> BootIeImage E st;
           Some (case r of None \<Rightarrow> Menu bDone st | Some e \<Rightarrow> Jumped e st) })"

definition BootKey :: "bootenv \<Rightarrow> u32 \<Rightarrow> bool \<Rightarrow> boot \<Rightarrow> menures option" where
  "BootKey E dwVk bDone st =
     (let st = st\<lparr>s_szMsg := []\<rparr>
      in if dwVk = VK_UP then Some (Menu bDone (st\<lparr>s_nSel := (s_nSel st + 2 - 1) mod 2\<rparr>))
         else if dwVk = VK_DOWN then Some (Menu bDone (st\<lparr>s_nSel := (s_nSel st + 1) mod 2\<rparr>))
         else if dwVk = VK_RETURN then Choose E bDone st
         else Some (Menu bDone st))"

text \<open>The keys queued in one turn, then the activation edge.\<close>

primrec BootKeys :: "bootenv \<Rightarrow> u32 list \<Rightarrow> bool \<Rightarrow> boot \<Rightarrow> menures option" where
  "BootKeys E [] bDone st = Some (Menu bDone st)"
| "BootKeys E (vk # vks) bDone st = do {
     r \<leftarrow> BootKey E vk bDone st;
     case r of Jumped e st \<Rightarrow> Some r | Menu bDone st \<Rightarrow> BootKeys E vks bDone st }"

definition BootTurn :: "bootenv \<Rightarrow> u32 list \<times> bool \<Rightarrow> boot \<Rightarrow> menures option" where
  "BootTurn E inp st = do {
     r \<leftarrow> BootKeys E (fst inp) False st;
     case r of Jumped e st \<Rightarrow> Some r
     | Menu bDone st \<Rightarrow> if snd inp then Choose E bDone st else Some r }"

text \<open>\<open>DcwBootMain\<close> on the input of its turns, as far as that goes.\<close>

primrec boot_loop :: "bootenv \<Rightarrow> (u32 list \<times> bool) list \<Rightarrow> boot \<Rightarrow> menures option" where
  "boot_loop E [] st = Some (Menu False st)"
| "boot_loop E (inp # inps) st = do {
     r \<leftarrow> BootTurn E inp st;
     case r of Menu False st \<Rightarrow> boot_loop E inps st | _ \<Rightarrow> Some r }"

definition DcwBootMain :: "bootenv \<Rightarrow> (u32 list \<times> bool) list \<Rightarrow> boot \<Rightarrow> menures option" where
  "DcwBootMain E inps st = boot_loop E inps (KickNetwork st)"

text \<open>\<open>WinMain\<close>; the flag says whether there is a window with a display.\<close>

definition BootWinMain :: "bootenv \<Rightarrow> bool \<Rightarrow> (u32 list \<times> bool) list \<Rightarrow> boot \<Rightarrow> menures option" where
  "BootWinMain E display inps st =
     (if display then DcwBootMain E inps st else Some (Menu True (LaunchShell E st)))"

section \<open>Page frames in memory\<close>

text \<open>The frames that \<open>ShiftOf\<close> expects: pages of the upper part of the main memory.\<close>

definition ram_frame :: "u32 \<Rightarrow> bool" where
  "ram_frame f \<longleftrightarrow> unat f mod 4096 = 0 \<and> 0x0C600000 \<le> unat f \<and> unat f < 0x0D000000"

definition in_frame :: "u32 \<Rightarrow> u32 \<Rightarrow> bool" where
  "in_frame f a \<longleftrightarrow> unat f \<le> unat a \<and> unat a < unat f + 4096"

lemma unat_frame_off:
  assumes "ram_frame f" "k < 4096"
  shows "unat (f + word_of_nat k) = unat f + k"
proof -
  have "unat (word_of_nat k :: u32) = k" using assms(2) by (simp add: unat_of_nat)
  then show ?thesis using assms by (subst unat_plus_simple [THEN iffD1]) (auto simp: ram_frame_def word_le_nat_alt unat_word_ariths)
qed

lemma in_frame_off [intro]: "ram_frame f \<Longrightarrow> k < 4096 \<Longrightarrow> in_frame f (f + word_of_nat k)"
  by (simp add: in_frame_def unat_frame_off)

lemma in_frame_unique: "in_frame f a \<Longrightarrow> in_frame g a \<Longrightarrow> ram_frame f \<Longrightarrow> ram_frame g \<Longrightarrow> f = g"
proof -
  assume a: "in_frame f a" "in_frame g a" "ram_frame f" "ram_frame g"
  have "unat f div 4096 = unat a div 4096" if i: "in_frame f a" and f: "ram_frame f" for f
  proof -
    obtain q where "unat f = 4096 * q" using f by (auto simp: ram_frame_def)
    moreover obtain k where "unat a = unat f + k" "k < 4096"
      using i by (auto simp: in_frame_def nat_le_iff_add)
    ultimately show ?thesis by simp
  qed
  from this [OF a(1,3)] this [OF a(2,4)] have "unat f div 4096 = unat g div 4096" by simp
  moreover have "unat f = 4096 * (unat f div 4096)" "unat g = 4096 * (unat g div 4096)"
    using a(3,4) by (simp_all add: ram_frame_def mult_div_mod_eq minus_mod_eq_mult_div [symmetric])
  ultimately have "unat f = unat g" by simp
  then show ?thesis by (simp add: word_unat_eq_iff)
qed

lemma phys_take: "phys a = take_bit 29 a"
proof -
  have "(0x1FFFFFFF :: u32) = mask 29" by (simp add: mask_eq_exp_minus_1)
  then show ?thesis by (simp add: phys_def take_bit_eq_mask)
qed

lemma unat_phys: "unat (phys a) = unat a mod 0x20000000"
proof -
  have "unat (take_bit 29 a) = take_bit 29 (unat a)" by transfer (simp add: take_bit_nat_eq nat_take_bit_eq ac_simps)
  then show ?thesis by (simp add: phys_take take_bit_eq_mod)
qed

lemma phys_low: "unat a < 0x20000000 \<Longrightarrow> phys a = a"
  by (rule word_unat_eq_iff [THEN iffD2]) (simp add: unat_phys)

lemma phys_P2 [simp]: "phys (P2 a) = phys a"
  unfolding phys_take
proof (rule bit_word_eqI)
  fix n assume "n < LENGTH(32)"
  have "bit (0xA0000000 :: u32) n \<Longrightarrow> \<not> n < 29" for n
    by (auto simp: less_Suc_eq eval_nat_numeral)
  then show "bit (take_bit 29 (P2 a)) n \<longleftrightarrow> bit (take_bit 29 a) n"
    by (auto simp: P2_def phys_take phys_def [symmetric] bit_simps)
qed

lemma phys_add: "phys (a + b) = phys (phys a + b)"
proof -
  have "unat (a + b) mod 0x20000000 = (unat a + unat b) mod 0x20000000" for a b :: u32
    by (simp add: unat_word_ariths mod_mod_cancel)
  then show ?thesis by (simp add: word_unat_eq_iff unat_phys mod_add_left_eq)
qed

lemma phys_phys [simp]: "phys (phys a) = phys a"
  by (simp add: phys_take)

lemma P2_plus: "P2 a = phys a + 0xA0000000"
proof -
  have "phys a AND 0xA0000000 = a AND (0x1FFFFFFF AND 0xA0000000)" by (simp add: phys_def ac_simps)
  also have "\<dots> = 0" by simp
  finally show ?thesis by (simp add: P2_def disjunctive_add_eq_or flip: phys_def)
qed

lemma unat_P2: "unat (P2 a) = unat (phys a) + 0xA0000000"
  unfolding P2_plus
  by (rule unat_plus_simple [THEN iffD1, THEN trans]) (simp_all add: word_le_nat_alt unat_word_ariths unat_phys)

lemma al4_P2: "al4 (P2 a) \<longleftrightarrow> al4 (phys a)"
  by (simp add: al4_def unat_P2 mod_add_eq [of _ 4, symmetric])

definition buf_ok :: "u32 list \<Rightarrow> bool" where
  "buf_ok fs \<longleftrightarrow> distinct fs \<and> (\<forall>f \<in> set fs. ram_frame f)"

lemma buf_addr_in:
  assumes "buf_ok fs" "k < 4096 * length fs"
  shows "fs ! (k div 4096) \<in> set fs" "in_frame (fs ! (k div 4096)) (buf_addr fs k)"
proof -
  have "k div 4096 < length fs" using assms(2) by (simp add: div_less_iff_less_mult mult.commute)
  then show "fs ! (k div 4096) \<in> set fs" by simp
  with assms(1) show "in_frame (fs ! (k div 4096)) (buf_addr fs k)"
    by (auto simp: buf_ok_def buf_addr_def)
qed

lemma buf_addr_inj:
  assumes b: "buf_ok fs" and j: "j < 4096 * length fs" and k: "k < 4096 * length fs"
    and e: "buf_addr fs j = buf_addr fs k"
  shows "j = k"
proof -
  note J = buf_addr_in [OF b j] and K = buf_addr_in [OF b k]
  have f: "ram_frame (fs ! (j div 4096))" "ram_frame (fs ! (k div 4096))" using J(1) K(1) b by (auto simp: buf_ok_def)
  have q: "fs ! (j div 4096) = fs ! (k div 4096)"
    using in_frame_unique [OF J(2) _ f] K(2) e by simp
  have "j div 4096 < length fs" "k div 4096 < length fs"
    using j k by (simp_all add: div_less_iff_less_mult mult.commute)
  with q b have d: "j div 4096 = k div 4096" by (simp add: buf_ok_def nth_eq_iff_index_eq)
  have a: "unat (buf_addr fs j) = unat (fs ! (j div 4096)) + j mod 4096" if "ram_frame (fs ! (j div 4096))" for j
    unfolding buf_addr_def by (rule unat_frame_off [OF that]) simp
  from a [OF f(1)] a [OF f(2)] have "j mod 4096 = k mod 4096" by (simp only: e q add_left_cancel)
  with d have "j div 4096 * 4096 + j mod 4096 = k div 4096 * 4096 + k mod 4096" by (simp only:)
  then show ?thesis by (simp only: div_mult_mod_eq)
qed

lemma put_bytes_other:
  "(\<And>j. k \<le> j \<Longrightarrow> j < k + length bs \<Longrightarrow> buf_addr fs j \<noteq> a) \<Longrightarrow> put_bytes fs k bs m a = m a"
proof (induction bs arbitrary: k m)
  case (Cons b bs)
  then have "put_bytes fs (k + 1) bs (m(buf_addr fs k := b)) a = (m(buf_addr fs k := b)) a" by (intro Cons.IH) auto
  with Cons.prems [of k] show ?case by auto
qed simp

text \<open>The bytes from \<open>k\<close> on of a block.\<close>

definition holds :: "pmem \<Rightarrow> u32 list \<Rightarrow> nat \<Rightarrow> byte list \<Rightarrow> bool" where
  "holds m fs k bs \<longleftrightarrow> (\<forall>i < length bs. m (buf_addr fs (k + i)) = bs ! i)"

lemma holds_put:
  assumes "buf_ok fs" "k + length bs \<le> 4096 * length fs"
  shows "holds (put_bytes fs k bs m) fs k bs"
  using assms(2)
proof (induction bs arbitrary: k m)
  case (Cons b bs)
  let ?m = "m(buf_addr fs k := b)"
  have ih: "holds (put_bytes fs (k + 1) bs ?m) fs (k + 1) bs" using Cons by (intro Cons.IH) simp
  have z: "put_bytes fs (k + 1) bs ?m (buf_addr fs k) = b"
  proof (subst put_bytes_other)
    fix j assume "k + 1 \<le> j" "j < k + 1 + length bs"
    then show "buf_addr fs j \<noteq> buf_addr fs k"
      using buf_addr_inj [OF assms(1), of j k] Cons.prems by auto
  qed simp
  show ?case
    unfolding holds_def
  proof (intro allI impI)
    fix i assume "i < length (b # bs)"
    then show "put_bytes fs k (b # bs) m (buf_addr fs (k + i)) = (b # bs) ! i"
      using z ih by (cases i) (auto simp: holds_def)
  qed
qed (simp add: holds_def)

text \<open>A write to another block, or to another part of the block, leaves them.\<close>

lemma holds_put_other:
  assumes "holds m gs l cs" "buf_ok fs" "buf_ok gs" "set fs \<inter> set gs = {}"
    and "k + length bs \<le> 4096 * length fs" "l + length cs \<le> 4096 * length gs"
  shows "holds (put_bytes fs k bs m) gs l cs"
  unfolding holds_def
proof (intro allI impI)
  fix i assume i: "i < length cs"
  have "put_bytes fs k bs m (buf_addr gs (l + i)) = m (buf_addr gs (l + i))"
  proof (rule put_bytes_other)
    fix j assume "k \<le> j" "j < k + length bs"
    then have J: "fs ! (j div 4096) \<in> set fs" "in_frame (fs ! (j div 4096)) (buf_addr fs j)"
      using buf_addr_in [OF assms(2), of j] assms(5) by simp_all
    have K: "gs ! ((l + i) div 4096) \<in> set gs" "in_frame (gs ! ((l + i) div 4096)) (buf_addr gs (l + i))"
      using buf_addr_in [OF assms(3), of "l + i"] assms(6) i by simp_all
    show "buf_addr fs j \<noteq> buf_addr gs (l + i)"
    proof
      assume "buf_addr fs j = buf_addr gs (l + i)"
      with in_frame_unique [OF J(2) _] K J assms(2,3) have "fs ! (j div 4096) = gs ! ((l + i) div 4096)"
        by (auto simp: buf_ok_def)
      with J(1) K(1) assms(4) show False by auto
    qed
  qed
  with assms(1) i show "put_bytes fs k bs m (buf_addr gs (l + i)) = cs ! i" by (simp add: holds_def)
qed

lemma holds_put_part:
  assumes "holds m fs l cs" "buf_ok fs" "k + length bs \<le> l \<or> l + length cs \<le> k"
    and "k + length bs \<le> 4096 * length fs" "l + length cs \<le> 4096 * length fs"
  shows "holds (put_bytes fs k bs m) fs l cs"
  unfolding holds_def
proof (intro allI impI)
  fix i assume i: "i < length cs"
  have "put_bytes fs k bs m (buf_addr fs (l + i)) = m (buf_addr fs (l + i))"
  proof (rule put_bytes_other)
    fix j assume "k \<le> j" "j < k + length bs"
    then show "buf_addr fs j \<noteq> buf_addr fs (l + i)"
      using buf_addr_inj [OF assms(2), of j "l + i"] assms(3-5) i by auto
  qed
  with assms(1) i show "put_bytes fs k bs m (buf_addr fs (l + i)) = cs ! i" by (simp add: holds_def)
qed

lemma ld32_holds:
  assumes "holds m [f] k (le32_bytes w)" "k + 4 \<le> 4096"
  shows "ld32 m (f + word_of_nat k) = w"
proof -
  have e: "m (f + word_of_nat (k + i)) = le32_bytes w ! i" if "i < 4" for i
    using assms(1) that assms(2) by (simp add: holds_def buf_addr_def)
  have "le32_bytes w = [m (f + word_of_nat k), m (f + word_of_nat k + 1), m (f + word_of_nat k + 2), m (f + word_of_nat k + 3)]"
    using e [of 0] e [of 1] e [of 2] e [of 3] by (simp add: le32_bytes_def numeral_2_eq_2 numeral_3_eq_3 ac_simps)
  then show ?thesis unfolding ld32_def by (metis le32_le32_bytes)
qed

section \<open>What the copy does\<close>

lemma st32_ld32: "st32 a (ld32 m b) m = m(a := m b, a + 1 := m (b + 1), a + 2 := m (b + 2), a + 3 := m (b + 3))"
  by (simp add: st32_def ld32_def)

lemma phys_step: "unat (phys a) + unat b < 0x20000000 \<Longrightarrow> phys (a + b) = phys a + b"
  "unat (phys a) + unat b < 0x20000000 \<Longrightarrow> unat (phys a + b) = unat (phys a) + unat b"
proof -
  assume a: "unat (phys a) + unat b < 0x20000000"
  then show u: "unat (phys a + b) = unat (phys a) + unat b" by (simp add: unat_word_ariths)
  show "phys (a + b) = phys a + b" by (subst phys_add, rule phys_low) (simp add: u a)
qed

lemma copy_words_other:
  "unat (phys dst) + 4 * n < 0x20000000 \<Longrightarrow>
   unat a < unat (phys dst) \<or> unat (phys dst) + 4 * n \<le> unat a \<Longrightarrow> copy_words n src dst m a = m a"
proof (induction n arbitrary: src dst m)
  case (Suc n)
  let ?d = "phys dst" and ?m = "st32 (phys dst) (ld32 m (phys src)) m"
  have u: "unat (?d + word_of_nat i) = unat ?d + i" if "i < 5" for i
    using phys_step(2) [of dst "word_of_nat i"] Suc.prems(1) that by (simp add: unat_of_nat)
  have d: "phys (dst + 4) = ?d + 4" "unat (?d + 4) = unat ?d + 4"
    using phys_step [of dst 4] Suc.prems(1) by simp_all
  have "copy_words n (src + 4) (dst + 4) ?m a = ?m a"
    using Suc.prems by (intro Suc.IH) (simp_all add: d, arith)
  moreover have "?m a = m a"
    using u [of 0] u [of 1] u [of 2] u [of 3] Suc.prems(2) by (auto simp: st32_ld32)
  ultimately show ?case by simp
qed simp

lemma copy_words_at:
  "unat (phys src) + 4 * n < 0x20000000 \<Longrightarrow> unat (phys dst) + 4 * n < 0x20000000 \<Longrightarrow>
   unat (phys dst) + 4 * n \<le> unat (phys src) \<or> unat (phys src) + 4 * n \<le> unat (phys dst) \<Longrightarrow> k < 4 * n \<Longrightarrow>
   copy_words n src dst m (phys dst + word_of_nat k) = m (phys src + word_of_nat k)"
proof (induction n arbitrary: src dst m k)
  case (Suc n)
  let ?d = "phys dst" and ?s = "phys src" and ?m = "st32 (phys dst) (ld32 m (phys src)) m"
  have u: "unat (?d + word_of_nat i) = unat ?d + i" if "i \<le> 4 * Suc n" for i
    using phys_step(2) [of dst "word_of_nat i"] Suc.prems(2) that by (simp add: unat_of_nat)
  have us: "unat (?s + word_of_nat i) = unat ?s + i" if "i \<le> 4 * Suc n" for i
    using phys_step(2) [of src "word_of_nat i"] Suc.prems(1) that by (simp add: unat_of_nat)
  have d: "phys (dst + 4) = ?d + 4" "phys (src + 4) = ?s + 4"
    using phys_step(1) [of dst 4] phys_step(1) [of src 4] Suc.prems by simp_all
  have m: "?m a = m a" if "unat a < unat ?d \<or> unat ?d + 4 \<le> unat a" for a
    using u [of 0] u [of 1] u [of 2] u [of 3] that by (auto simp: st32_ld32)
  show ?case
  proof (cases "k < 4")
    case True
    have "copy_words n (src + 4) (dst + 4) ?m (?d + word_of_nat k) = ?m (?d + word_of_nat k)"
      using Suc.prems u [of 4] u [of k] True d by (intro copy_words_other) simp_all
    moreover have "?m (?d + word_of_nat k) = m (?s + word_of_nat k)"
    proof -
      have "k \<in> {0, 1, 2, 3}" using True by auto
      then show ?thesis by (auto simp: st32_ld32)
    qed
    ultimately show ?thesis by simp
  next
    case False
    then obtain j where j: "k = j + 4" by (metis add.commute le_Suc_ex not_less)
    have "copy_words n (src + 4) (dst + 4) ?m (phys (dst + 4) + word_of_nat j) = ?m (phys (src + 4) + word_of_nat j)"
      using Suc.prems j u [of 4] us [of 4] by (intro Suc.IH) (simp_all add: d, arith)
    moreover have "?m (?s + word_of_nat k) = m (?s + word_of_nat k)"
      using us [of k] Suc.prems j by (intro m) (simp, arith)
    ultimately show ?thesis by (simp add: d j ac_simps)
  qed
qed simp

lemma frame_phys: "ram_frame f \<Longrightarrow> k \<le> 4096 \<Longrightarrow> phys (P2 f + word_of_nat k) = f + word_of_nat k"
  "ram_frame f \<Longrightarrow> k \<le> 4096 \<Longrightarrow> unat (P2 f + word_of_nat k) = unat f + 0xA0000000 + k"
proof -
  assume f: "ram_frame f" and k: "k \<le> 4096"
  then have p: "phys f = f" by (intro phys_low) (simp add: ram_frame_def)
  with f have u: "unat (P2 f) = unat f + 0xA0000000" by (simp add: unat_P2)
  show "unat (P2 f + word_of_nat k) = unat f + 0xA0000000 + k"
    using f k by (simp add: unat_word_ariths u unat_of_nat ram_frame_def)
  show "phys (P2 f + word_of_nat k) = f + word_of_nat k"
    using phys_step(1) [of "P2 f" "word_of_nat k"] f k p by (simp add: unat_of_nat ram_frame_def)
qed

lemma ld32_cong:
  assumes "\<And>a. lo \<le> unat a \<Longrightarrow> m a = m' a" "lo \<le> unat b" "unat b + 4 < 2 ^ 32"
  shows "ld32 m b = ld32 m' b"
proof -
  have "unat (b + word_of_nat i) = unat b + i" if "i < 4" for i
    using assms(3) that by (simp add: unat_word_ariths unat_of_nat)
  from this [of 1] this [of 2] this [of 3] show ?thesis
    using assms by (simp add: ld32_def)
qed

lemma mod_step: "Suc i mod 1024 \<noteq> 0 \<Longrightarrow> Suc i mod 1024 = Suc (i mod 1024) \<and> Suc i div 1024 = i div 1024"
  by (auto simp: mod_Suc div_Suc split: if_splits)

lemma al4_add: "al4 a \<Longrightarrow> al4 (a + 4096)"
proof -
  assume a: "al4 a"
  have "unat (a + 4096) mod 4 = (unat a + 4096) mod 4" by (simp add: unat_word_ariths mod_mod_cancel)
  also have "\<dots> = (unat a mod 4 + 4096 mod 4) mod 4" by (rule mod_add_eq [symmetric])
  finally show ?thesis using a by (simp add: al4_def)
qed

lemma over_page_apart: "unat a + 4096 \<le> unat c \<Longrightarrow> unat c < 0x0D000000 \<Longrightarrow> \<not> over_page c a"
proof -
  assume a: "unat a + 4096 \<le> unat c" "unat c < 0x0D000000"
  then have "unat (c - a) = unat c - unat a" "unat (a - c) = 2 ^ 32 - (unat c - unat a)"
    by (simp_all add: unat_sub_if' word_le_nat_alt)
  moreover have "(2 :: nat) ^ 32 = 0x100000000" by simp
  ultimately have "\<not> unat (c - a) < 4096" "\<not> unat (a - c) < 4096" using a by linarith+
  then show ?thesis by (simp add: over_page_def)
qed

lemma page_step:
  assumes o: "\<not> over_page c (phys r2)" and r2: "al4 r2"
    and r5: "ram_frame g" "j < 1024" "ld32 m (g + word_of_nat (4 * j)) = s" "ram_frame s"
    and e: "r5' = P2 g + word_of_nat (4 * j)"
      "r5' = (if i mod 1024 = 0 then ld32 m (phys (p + 16 + word_of_nat (i div 1024 * 4))) else r5)"
  shows "page_loop c p n i r5 r2 m =
    (let m = copy_words 1024 (P2 s) r2 m
     in if i + 1 \<ge> n then Some m else page_loop c p n (i + 1) (P2 g + word_of_nat (4 * (j + 1))) (r2 + 4096) m)"
proof -
  have k: "4 * j \<le> 4096" using r5(2) by simp
  note g = frame_phys [OF r5(1) k]
  have m: "(x + 0xA0000000 + 4 * y) mod 4 = 0" if "x mod 4096 = 0" for x y :: nat
  proof -
    from that have "x = 4096 * (x div 4096)" by (simp add: minus_mod_eq_mult_div [symmetric])
    then obtain q where "x = 4096 * q" ..
    then have "x + 0xA0000000 + 4 * y = 4 * (1024 * q + 0x28000000 + y)" by simp
    then show ?thesis by (simp only: mod_mult_self1_is_0)
  qed
  have a5: "al4 r5'" using r5(1) by (simp only: e(1) al4_def g(2) ram_frame_def m)
  have a1: "al4 (P2 s)"
    using frame_phys(2) [OF r5(4), of 0] m [of "unat s" 0] r5(4) by (simp add: al4_def ram_frame_def)
  have l: "ld32 m (phys r5') = s" by (simp only: e(1) g(1) r5(3))
  have n: "r5' + 4 = P2 g + word_of_nat (4 * (j + 1))" by (simp add: e(1) ac_simps)
  show ?thesis
    by (subst page_loop.simps, unfold e(2) [symmetric] Let_def) (simp add: l a5 a1 r2 o n)
qed

text \<open>
  The whole loop from page \<open>i\<close> on, for sources and tables in the upper part of the memory and a
  destination that ends below it: page \<open>i + d\<close> goes to \<open>d\<close> pages after the destination.
\<close>

lemma page_loop_copies:
  assumes c: "ram_frame c"
    and S: "\<And>i. i < n \<Longrightarrow> ram_frame (S i)"
    and g: "\<And>k. 1024 * k < n \<Longrightarrow> ram_frame (g k)"
    and d: "\<And>k. 1024 * k < n \<Longrightarrow> 0x0C600000 \<le> unat (phys (p + 16 + word_of_nat (k * 4)))"
      "\<And>k. 1024 * k < n \<Longrightarrow> ld32 m0 (phys (p + 16 + word_of_nat (k * 4))) = P2 (g k)"
    and t: "\<And>k j. j < 1024 \<Longrightarrow> 1024 * k + j < n \<Longrightarrow> ld32 m0 (g k + word_of_nat (4 * j)) = S (1024 * k + j)"
  shows "n = i + Suc e \<Longrightarrow> al4 r2 \<Longrightarrow> unat (phys r2) + 4096 * Suc e \<le> 0x0C600000
    \<Longrightarrow> (i mod 1024 \<noteq> 0 \<Longrightarrow> r5 = P2 (g (i div 1024)) + word_of_nat (4 * (i mod 1024)))
    \<Longrightarrow> (\<And>a. 0x0C600000 \<le> unat a \<Longrightarrow> m a = m0 a)
    \<Longrightarrow> \<exists>m'. page_loop c p n i r5 r2 m = Some m'
      \<and> (\<forall>j k. j \<le> e \<longrightarrow> k < 4096 \<longrightarrow> m' (phys r2 + word_of_nat (4096 * j + k)) = m0 (S (i + j) + word_of_nat k))
      \<and> (\<forall>a. unat a < unat (phys r2) \<or> unat (phys r2) + 4096 * Suc e \<le> unat a \<longrightarrow> m' a = m a)"
proof -
  have first: "\<exists>m1. page_loop c p n i r5 r2 m
        = (if i + 1 \<ge> n then Some m1
           else page_loop c p n (i + 1) (P2 (g (i div 1024)) + word_of_nat (4 * (i mod 1024 + 1))) (r2 + 4096) m1)
      \<and> (\<forall>k < 4096. m1 (phys r2 + word_of_nat k) = m0 (S i + word_of_nat k))
      \<and> (\<forall>a. unat a < unat (phys r2) \<or> unat (phys r2) + 4096 \<le> unat a \<longrightarrow> m1 a = m a)"
    if i: "i < n" and r2: "al4 r2" "unat (phys r2) + 4096 \<le> 0x0C600000"
      and r5: "i mod 1024 \<noteq> 0 \<Longrightarrow> r5 = P2 (g (i div 1024)) + word_of_nat (4 * (i mod 1024))"
      and m: "\<And>a. 0x0C600000 \<le> unat a \<Longrightarrow> m a = m0 a" for i r5 r2 m
  proof (intro exI conjI)
    let ?k = "i div 1024" and ?j = "i mod 1024"
    have k: "1024 * ?k < n" "1024 * ?k + ?j = i" "?j < 1024" using i by simp_all
    then have k: "1024 * ?k < n" "1024 * ?k + ?j = i" "?j < 1024" by linarith+
    note G = g [OF k(1)]
    have l: "ld32 m b = ld32 m0 b" if "0x0C600000 \<le> unat b" "unat b < 0x20000000" for b
      using that by (intro ld32_cong [of "0x0C600000"] m) auto
    have b: "unat (g ?k) + 4 * ?j < 0x20000000" if "?j < 1024"
    proof -
      from that have "4 * ?j < 4096" by (rule less_le_trans [OF mult_less_mono2]) simp_all
      moreover have "unat (g ?k) < 0x0D000000" using G by (simp add: ram_frame_def)
      ultimately show ?thesis using add_strict_mono [of "unat (g ?k)" "0x0D000000" "4 * ?j" 4096] by simp
    qed
    note b = b [OF k(3)]
    have "unat (g ?k + word_of_nat (4 * ?j)) = unat (g ?k) + 4 * ?j"
      using G by (intro unat_frame_off) simp_all
    then have s: "ld32 m (g ?k + word_of_nat (4 * ?j)) = S i"
      using t [OF k(3), of ?k] k(2) b i G by (subst l) (simp_all add: ram_frame_def)
    have "unat (phys (p + 16 + word_of_nat (?k * 4))) < 0x20000000" by (simp add: unat_phys)
    then have r: "P2 (g ?k) + word_of_nat (4 * ?j)
      = (if i mod 1024 = 0 then ld32 m (phys (p + 16 + word_of_nat (?k * 4))) else r5)"
      using d [OF k(1)] r5 by (simp add: l)
    have o: "\<not> over_page c (phys r2)" using c r2(2) by (intro over_page_apart) (simp_all add: ram_frame_def)
    show "page_loop c p n i r5 r2 m
        = (if i + 1 \<ge> n then Some (copy_words 1024 (P2 (S i)) r2 m)
           else page_loop c p n (i + 1) (P2 (g ?k) + word_of_nat (4 * (?j + 1))) (r2 + 4096)
             (copy_words 1024 (P2 (S i)) r2 m))"
      using page_step [OF o r2(1) G k(3) s S [OF i] refl r] by (simp only: Let_def)
    have p: "phys (S i) = S i" using frame_phys(1) [OF S [OF i], of 0] by simp
    show "\<forall>k < 4096. copy_words 1024 (P2 (S i)) r2 m (phys r2 + word_of_nat k) = m0 (S i + word_of_nat k)"
    proof (intro allI impI)
      fix k :: nat assume k: "k < 4096"
      have "copy_words 1024 (P2 (S i)) r2 m (phys r2 + word_of_nat k) = m (phys (P2 (S i)) + word_of_nat k)"
        using r2 S [OF i] k p by (intro copy_words_at) (simp_all add: ram_frame_def)
      also have "\<dots> = m0 (S i + word_of_nat k)"
        using S [OF i] k unat_frame_off [OF S [OF i] k] by (simp add: p m ram_frame_def)
      finally show "copy_words 1024 (P2 (S i)) r2 m (phys r2 + word_of_nat k) = m0 (S i + word_of_nat k)" .
    qed
    show "\<forall>a. unat a < unat (phys r2) \<or> unat (phys r2) + 4096 \<le> unat a \<longrightarrow> copy_words 1024 (P2 (S i)) r2 m a = m a"
      using r2 by (intro allI impI copy_words_other) simp_all
  qed
  show "n = i + Suc e \<Longrightarrow> al4 r2 \<Longrightarrow> unat (phys r2) + 4096 * Suc e \<le> 0x0C600000
    \<Longrightarrow> (i mod 1024 \<noteq> 0 \<Longrightarrow> r5 = P2 (g (i div 1024)) + word_of_nat (4 * (i mod 1024)))
    \<Longrightarrow> (\<And>a. 0x0C600000 \<le> unat a \<Longrightarrow> m a = m0 a) \<Longrightarrow> ?thesis"
  proof (induction e arbitrary: i r5 r2 m)
    case (0 i r5 r2 m)
    from first [of i r2 r5 m] 0 show ?case by auto
  next
    case (Suc e i r5 r2 m)
    have i: "i < n" "\<not> i + 1 \<ge> n" "n = Suc i + Suc e" using Suc.prems(1) by simp_all
    obtain m1 where m1: "page_loop c p n i r5 r2 m
        = page_loop c p n (i + 1) (P2 (g (i div 1024)) + word_of_nat (4 * (i mod 1024 + 1))) (r2 + 4096) m1"
      and at: "\<And>k. k < 4096 \<Longrightarrow> m1 (phys r2 + word_of_nat k) = m0 (S i + word_of_nat k)"
      and ot: "\<And>a. unat a < unat (phys r2) \<or> unat (phys r2) + 4096 \<le> unat a \<Longrightarrow> m1 a = m a"
      using first [of i r2 r5 m] Suc.prems i by auto
    have r2: "phys (r2 + 4096) = phys r2 + 4096" "unat (phys r2 + 4096) = unat (phys r2) + 4096"
      using phys_step [of r2 4096] Suc.prems(3) by simp_all
    have al: "al4 (r2 + 4096)" using Suc.prems(2) by (rule al4_add)
    obtain m2 where m2: "page_loop c p n (Suc i) (P2 (g (i div 1024)) + word_of_nat (4 * (i mod 1024 + 1))) (r2 + 4096) m1 = Some m2"
      and at2: "\<And>j k. j \<le> e \<Longrightarrow> k < 4096 \<Longrightarrow>
        m2 (phys r2 + 4096 + word_of_nat (4096 * j + k)) = m0 (S (Suc i + j) + word_of_nat k)"
      and ot2: "\<And>a. unat a < unat (phys r2) + 4096 \<or> unat (phys r2) + 4096 + 4096 * Suc e \<le> unat a \<Longrightarrow> m2 a = m1 a"
    proof -
      have r5: "P2 (g (i div 1024)) + word_of_nat (4 * (i mod 1024 + 1)) = P2 (g (Suc i div 1024)) + word_of_nat (4 * (Suc i mod 1024))"
        if "Suc i mod 1024 \<noteq> 0" using mod_step [OF that] by simp
      have m: "m1 a = m0 a" if "0x0C600000 \<le> unat a" for a
        using Suc.prems(3,5) that ot [of a] by simp
      have le: "unat (phys (r2 + 4096)) + 4096 * Suc e \<le> 0x0C600000" using Suc.prems(3) r2 by simp
      show ?thesis using Suc.IH [OF i(3) al le r5 m] that unfolding r2 by auto
    qed
    show ?case
    proof (intro exI [of _ m2] conjI allI impI)
      show "page_loop c p n i r5 r2 m = Some m2" using m1 m2 by simp
      show "m2 (phys r2 + word_of_nat (4096 * j + k)) = m0 (S (i + j) + word_of_nat k)"
        if j: "j \<le> Suc e" and k: "k < 4096" for j k
      proof (cases j)
        case 0
        have "unat (phys r2 + word_of_nat k) = unat (phys r2) + k"
          using phys_step(2) [of r2 "word_of_nat k"] Suc.prems(3) k by (simp add: unat_of_nat)
        with 0 k ot2 [of "phys r2 + word_of_nat k"] at [OF k] show ?thesis by simp
      next
        case (Suc j')
        with at2 [of j' k] j k show ?thesis by (simp add: ac_simps)
      qed
      show "m2 a = m a" if "unat a < unat (phys r2) \<or> unat (phys r2) + 4096 * Suc (Suc e) \<le> unat a" for a
        using that ot [of a] ot2 [of a] by auto
    qed
  qed
qed

section \<open>What the hand-over prepares\<close>

lemma buf_addr_page: "j < 4096 \<Longrightarrow> buf_addr [f] j = f + word_of_nat j"
  by (simp add: buf_addr_def)

lemma put_page_other:
  assumes "ram_frame f" "k + length bs \<le> 4096" "\<not> (in_frame f a \<and> unat f + k \<le> unat a \<and> unat a < unat f + k + length bs)"
  shows "put_bytes [f] k bs m a = m a"
proof (rule put_bytes_other)
  fix j assume j: "k \<le> j" "j < k + length bs"
  then have b: "buf_addr [f] j = f + word_of_nat j" "unat (f + word_of_nat j) = unat f + j"
    using assms(2) by (simp_all add: buf_addr_page unat_frame_off [OF assms(1)])
  show "buf_addr [f] j \<noteq> a"
  proof
    assume "buf_addr [f] j = a"
    then have "unat a = unat f + j" using b by auto
    with assms(2,3) j show False by (simp add: in_frame_def)
  qed
qed

lemma ld32_eq: "(\<And>i. i < 4 \<Longrightarrow> m (b + word_of_nat i) = m' (b + word_of_nat i)) \<Longrightarrow> ld32 m b = ld32 m' b"
proof -
  assume e: "\<And>i. i < 4 \<Longrightarrow> m (b + word_of_nat i) = m' (b + word_of_nat i)"
  from e [of 0] e [of 1] e [of 2] e [of 3] show ?thesis by (simp add: ld32_def)
qed

text \<open>A word of a page, and what another one leaves of it.\<close>

lemma put_page_word:
  assumes "ram_frame f" "k + 4 \<le> 4096"
  shows "ld32 (put_bytes [f] k (le32_bytes w) m) (f + word_of_nat k) = w"
  using assms holds_put [of "[f]" k "le32_bytes w" m] by (intro ld32_holds) (simp_all add: buf_ok_def)

lemma ld32_page_other:
  assumes "ram_frame f" "k + 4 \<le> 4096" "\<And>a. in_frame f a \<Longrightarrow> unat f + k \<le> unat a \<Longrightarrow> unat a < unat f + k + 4 \<Longrightarrow> m a = m' a"
  shows "ld32 m (f + word_of_nat k) = ld32 m' (f + word_of_nat k)"
proof (rule ld32_eq)
  fix i :: nat assume i: "i < 4"
  have e: "f + word_of_nat k + word_of_nat i = f + word_of_nat (k + i)" by simp
  have "unat (f + word_of_nat (k + i)) = unat f + (k + i)"
    by (rule unat_frame_off [OF assms(1)]) (use assms(2) i in simp)
  then show "m (f + word_of_nat k + word_of_nat i) = m' (f + word_of_nat k + word_of_nat i)"
    unfolding e using assms(2) i by (intro assms(3)) (simp_all add: in_frame_def)
qed

lemma put_pfns_ok:
  assumes "ram_frame f"
  shows "4 * (i + length as) \<le> 4096 \<Longrightarrow> \<exists>m'. put_pfns [f] i as m = Some m'
    \<and> (\<forall>j < length as. ld32 m' (f + word_of_nat (4 * (i + j))) = as ! j)
    \<and> (\<forall>a. \<not> (in_frame f a \<and> unat f + 4 * i \<le> unat a) \<longrightarrow> m' a = m a)"
proof (induction as arbitrary: i m)
  case (Cons x xs)
  let ?m = "put_bytes [f] (4 * i) (le32_bytes x) m"
  obtain m' where m': "put_pfns [f] (i + 1) xs ?m = Some m'"
    and w: "\<And>j. j < length xs \<Longrightarrow> ld32 m' (f + word_of_nat (4 * (i + 1 + j))) = xs ! j"
    and u: "\<And>a. \<not> (in_frame f a \<and> unat f + 4 * (i + 1) \<le> unat a) \<Longrightarrow> m' a = ?m a"
    using Cons.IH [of "i + 1" ?m] Cons.prems by auto
  have s: "put_pfns [f] i (x # xs) m = Some m'" using Cons.prems m' by (simp add: buf_wr_def)
  have "ld32 m' (f + word_of_nat (4 * i)) = ld32 ?m (f + word_of_nat (4 * i))"
    using Cons.prems by (intro ld32_page_other assms u) simp_all
  also have "\<dots> = x" using Cons.prems by (intro put_page_word assms) simp
  finally have z: "ld32 m' (f + word_of_nat (4 * i)) = x" .
  show ?case
  proof (intro exI [of _ m'] conjI allI impI s)
    fix j assume "j < length (x # xs)"
    then show "ld32 m' (f + word_of_nat (4 * (i + j))) = (x # xs) ! j"
    proof (cases j)
      case (Suc j')
      with w [of j'] \<open>j < length (x # xs)\<close> show ?thesis by (simp add: algebra_simps)
    qed (use z in simp)
  next
    fix a assume a: "\<not> (in_frame f a \<and> unat f + 4 * i \<le> unat a)"
    then have "m' a = ?m a" by (intro u) auto
    also have "\<dots> = m a" using a Cons.prems by (intro put_page_other assms) auto
    finally show "m' a = m a" .
  qed
qed simp

lemma unat_push_drop:
  "unat (push_bit t (drop_bit s (f :: u32))) = unat f div 2 ^ s * 2 ^ t mod 2 ^ 32"
proof -
  have "unat (drop_bit s f) = unat f div 2 ^ s" unfolding unat_drop_bit_eq by (rule drop_bit_eq_div)
  moreover have "push_bit t (drop_bit s f) = word_of_nat (unat (drop_bit s f) * 2 ^ t)" by (simp add: push_bit_eq_mult)
  ultimately show ?thesis by (simp only: unat_of_nat) simp
qed

text \<open>The search for the shift finds the one the frames were stored with.\<close>

lemma ShiftOf_frame:
  assumes f: "ram_frame f" and s: "s \<in> {0, 8, 12}"
  shows "ShiftOf (drop_bit s f) = Some s" "push_bit s (drop_bit s f) = f"
proof -
  obtain q where q: "unat f = 4096 * q" "0xC600 \<le> q" "q < 0xD000"
  proof -
    have "unat f = 4096 * (unat f div 4096)" using f by (simp add: ram_frame_def minus_mod_eq_mult_div [symmetric])
    moreover have "0x0C600000 \<le> unat f" "unat f < 0x0D000000" using f by (simp_all add: ram_frame_def)
    ultimately show ?thesis by (intro that [of "unat f div 4096"]) linarith+
  qed
  show p: "push_bit s (drop_bit s f) = f"
    using s q by (auto simp: word_unat_eq_iff unat_push_drop)
  show "ShiftOf (drop_bit s f) = Some s"
    using s p q unat_push_drop [of 0 s f] unat_push_drop [of 8 s f] 
    by (auto simp: ShiftOf_def word_le_nat_alt word_less_nat_alt)
qed

text \<open>The pages of the page-frame list, and their aliases in the descriptor.\<close>

lemma pfn_pages_ok:
  assumes lock: "\<And>fs. be_lock E fs = Some (map (drop_bit s) fs)" and s: "s \<in> {0, 8, 12}" and c: "ram_frame c"
  shows "D + 16 + 4 * (k + n) \<le> 4096 \<Longrightarrow> (\<And>i. i < n \<Longrightarrow> ram_frame (g (k + i)) \<and> g (k + i) \<noteq> c)
    \<Longrightarrow> (\<And>i j. i < n \<Longrightarrow> j < n \<Longrightarrow> g (k + i) = g (k + j) \<Longrightarrow> i = j)
    \<Longrightarrow> (\<And>i. i < n \<Longrightarrow> be_valloc E (bt_nalloc st + i) 4096 = Some [g (k + i)])
    \<Longrightarrow> \<exists>R' st'. pfn_pages E n k pfns s [c] D R st = Some (None, R', st')
      \<and> (\<forall>a. (\<forall>i < n. \<not> in_frame (g (k + i)) a) \<and> \<not> (in_frame c a \<and> unat c + (D + 16 + 4 * k) \<le> unat a)
          \<longrightarrow> bt_pm st' a = bt_pm st a)
      \<and> (\<forall>i < n. ld32 (bt_pm st') (c + word_of_nat (D + 16 + 4 * (k + i))) = P2 (g (k + i)))
      \<and> (\<forall>i j. i < n \<longrightarrow> j < 1024 \<longrightarrow> (k + i) * 1024 + j < length pfns
          \<longrightarrow> ld32 (bt_pm st') (g (k + i) + word_of_nat (4 * j)) = push_bit s (pfns ! ((k + i) * 1024 + j)))"
proof (induction n arbitrary: k R st)
  case (Suc n)
  let ?f = "g k" and ?as = "map (push_bit s) (take 1024 (drop (k * 1024) pfns))" and ?o = "D + 16 + 4 * k"
  have f: "ram_frame ?f" "?f \<noteq> c" using Suc.prems(2) [of 0] by simp_all
  have v: "be_valloc E (bt_nalloc st) 4096 = Some [?f]" using Suc.prems(4) [of 0] by simp
  obtain m1 where m1: "put_pfns [?f] 0 ?as (bt_pm st) = Some m1"
    and w1: "\<And>j. j < length ?as \<Longrightarrow> ld32 m1 (?f + word_of_nat (4 * j)) = ?as ! j"
    and u1: "\<And>a. \<not> in_frame ?f a \<Longrightarrow> m1 a = bt_pm st a"
    using put_pfns_ok [OF f(1), of 0 ?as "bt_pm st"] by auto
  have pa: "PagePhys E [?f] = ?f" by (simp add: PagePhys_def lock hd0_def ShiftOf_frame [OF f(1) s])
  have nz: "?f \<noteq> 0" using f(1) by (auto simp: ram_frame_def)
  let ?m2 = "put_bytes [c] ?o (le32_bytes (P2 ?f)) m1"
  let ?st = "st\<lparr>bt_nalloc := bt_nalloc st + 1, bt_blocks := [?f] # bt_blocks st, bt_pm := ?m2\<rparr>"
  let ?R = "R\<lparr>br_apfnPg := br_apfnPg R @ [[?f]]\<rparr>"
  have o: "?o + 4 \<le> 4096" using Suc.prems(1) by simp
  have step: "pfn_pages E (Suc n) k pfns s [c] D R st = pfn_pages E n (Suc k) pfns s [c] D ?R ?st"
    using o by (simp add: VirtualAlloc_def v m1 pa nz buf_wr_def)
  obtain R' st' where r: "pfn_pages E n (Suc k) pfns s [c] D ?R ?st = Some (None, R', st')"
    and u: "\<And>a. \<forall>i < n. \<not> in_frame (g (Suc k + i)) a \<Longrightarrow> \<not> (in_frame c a \<and> unat c + (D + 16 + 4 * Suc k) \<le> unat a)
        \<Longrightarrow> bt_pm st' a = ?m2 a"
    and d: "\<And>i. i < n \<Longrightarrow> ld32 (bt_pm st') (c + word_of_nat (D + 16 + 4 * (Suc k + i))) = P2 (g (Suc k + i))"
    and w: "\<And>i j. i < n \<Longrightarrow> j < 1024 \<Longrightarrow> (Suc k + i) * 1024 + j < length pfns
        \<Longrightarrow> ld32 (bt_pm st') (g (Suc k + i) + word_of_nat (4 * j)) = push_bit s (pfns ! ((Suc k + i) * 1024 + j))"
  proof -
    have "D + 16 + 4 * (Suc k + n) \<le> 4096" using Suc.prems(1) by simp
    moreover have "ram_frame (g (Suc k + i)) \<and> g (Suc k + i) \<noteq> c" if "i < n" for i using Suc.prems(2) [of "Suc i"] that by simp
    moreover have "i = j" if "i < n" "j < n" "g (Suc k + i) = g (Suc k + j)" for i j
      using Suc.prems(3) [of "Suc i" "Suc j"] that by simp
    moreover have "be_valloc E (bt_nalloc ?st + i) 4096 = Some [g (Suc k + i)]" if "i < n" for i
      using Suc.prems(4) [of "Suc i"] that by simp
    ultimately show thesis using Suc.IH [of "Suc k" ?st ?R] that by auto
  qed
  have other: "\<not> in_frame (g (Suc k + i)) a" if "i < n" "in_frame ?f a" for i a
    using in_frame_unique [OF _ that(2)] Suc.prems(2) [of "Suc i"] Suc.prems(3) [of "Suc i" 0] f that(1) by fastforce
  have co: "\<not> in_frame c a" if "in_frame ?f a" for a using in_frame_unique [OF _ that c f(1)] f(2) by metis
  have oc: "\<not> in_frame (g (Suc k + i)) a" if "i < n" "in_frame c a" for i a
    using in_frame_unique [OF _ that(2) _ c] Suc.prems(2) [of "Suc i"] that(1) by fastforce
  have m2: "?m2 a = m1 a" if "\<not> (in_frame c a \<and> unat c + ?o \<le> unat a \<and> unat a < unat c + ?o + 4)" for a
    using o that by (intro put_page_other c) simp_all
  show ?case
  proof (intro exI [of _ R'] exI [of _ st'] conjI allI impI)
    show "pfn_pages E (Suc n) k pfns s [c] D R st = Some (None, R', st')" using step r by simp
    show "bt_pm st' a = bt_pm st a"
      if a: "(\<forall>i < Suc n. \<not> in_frame (g (k + i)) a) \<and> \<not> (in_frame c a \<and> unat c + (D + 16 + 4 * k) \<le> unat a)" for a
    proof -
      have n: "\<not> in_frame (g (Suc k + i)) a" if "i < n" for i using a that by (metis Suc_mono add_Suc_shift)
      have f: "\<not> in_frame ?f a" using a by (metis add_0_right zero_less_Suc)
      have "bt_pm st' a = ?m2 a" using a n by (intro u) auto
      also have "\<dots> = m1 a" using a by (intro m2) auto
      also have "\<dots> = bt_pm st a" by (rule u1 [OF f])
      finally show ?thesis .
    qed
    have z: "ld32 (bt_pm st') (c + word_of_nat ?o) = P2 ?f"
    proof -
      have "ld32 (bt_pm st') (c + word_of_nat ?o) = ld32 ?m2 (c + word_of_nat ?o)"
        using o oc by (intro ld32_page_other c u) auto
      then show ?thesis using put_page_word [OF c o] by simp
    qed
    show "ld32 (bt_pm st') (c + word_of_nat (D + 16 + 4 * (k + i))) = P2 (g (k + i))" if "i < Suc n" for i
      using z d [of "i - 1"] that by (cases i) simp_all
    have z: "ld32 (bt_pm st') (?f + word_of_nat (4 * j)) = push_bit s (pfns ! (k * 1024 + j))"
      if j: "j < 1024" "k * 1024 + j < length pfns" for j
    proof -
      have "ld32 (bt_pm st') (?f + word_of_nat (4 * j)) = ld32 m1 (?f + word_of_nat (4 * j))"
      proof (rule ld32_page_other [OF f(1)])
        fix a assume "in_frame ?f a"
        then show "bt_pm st' a = m1 a" using u [of a] m2 [of a] other co by simp
      qed (use j in simp)
      then show ?thesis using w1 [of j] j by simp
    qed
    show "ld32 (bt_pm st') (g (k + i) + word_of_nat (4 * j)) = push_bit s (pfns ! ((k + i) * 1024 + j))"
      if "i < Suc n" "j < 1024" "(k + i) * 1024 + j < length pfns" for i j
      using z [of j] w [of "i - 1" j] that by (cases i) simp_all
  qed
qed simp

text \<open>The four words of the descriptor.\<close>

lemma descriptor_words:
  fixes c w0 w1 w2 w3 :: u32 and m :: pmem and D :: nat
  assumes c: "ram_frame c" and D: "D + 16 \<le> 4096"
  defines "m1 \<equiv> put_bytes [c] D (le32_bytes w0) m"
  defines "m2 \<equiv> put_bytes [c] (D + 4) (le32_bytes w1) m1"
  defines "m3 \<equiv> put_bytes [c] (D + 8) (le32_bytes w2) m2"
  defines "m4 \<equiv> put_bytes [c] (D + 12) (le32_bytes w3) m3"
  shows "ld32 m4 (c + word_of_nat D) = w0" "ld32 m4 (c + word_of_nat (D + 4)) = w1"
    "ld32 m4 (c + word_of_nat (D + 8)) = w2"
    "\<not> (in_frame c a \<and> unat c + D \<le> unat a \<and> unat a < unat c + D + 16) \<Longrightarrow> m4 a = m a"
proof -
  have o: "put_bytes [c] k (le32_bytes w) m a = m a" if "\<not> (unat c + k \<le> unat a \<and> unat a < unat c + k + 4)" "k + 4 \<le> 4096"
    for k w m a using that by (intro put_page_other c) auto
  have m4: "m4 a = m3 a" if "unat a < unat c + D + 12" for a unfolding m4_def using that D by (intro o) auto
  have m3: "m3 a = m2 a" if "unat a < unat c + D + 8" for a unfolding m3_def using that D by (intro o) auto
  have m2: "m2 a = m1 a" if "unat a < unat c + D + 4" for a unfolding m2_def using that D by (intro o) auto
  have "ld32 m4 (c + word_of_nat D) = ld32 m1 (c + word_of_nat D)"
    using D m2 m3 m4 by (intro ld32_page_other c) auto
  also have "\<dots> = w0" unfolding m1_def using D by (intro put_page_word c) simp
  finally show "ld32 m4 (c + word_of_nat D) = w0" .
  have "ld32 m4 (c + word_of_nat (D + 4)) = ld32 m2 (c + word_of_nat (D + 4))"
    using D m3 m4 by (intro ld32_page_other c) auto
  also have "\<dots> = w1" unfolding m2_def using D by (intro put_page_word c) simp
  finally show "ld32 m4 (c + word_of_nat (D + 4)) = w1" .
  have "ld32 m4 (c + word_of_nat (D + 8)) = ld32 m3 (c + word_of_nat (D + 8))"
    using D m4 by (intro ld32_page_other c) auto
  also have "\<dots> = w2" unfolding m3_def using D by (intro put_page_word c) simp
  finally show "ld32 m4 (c + word_of_nat (D + 8)) = w2" .
  assume a: "\<not> (in_frame c a \<and> unat c + D \<le> unat a \<and> unat a < unat c + D + 16)"
  show "m4 a = m a"
    unfolding m4_def m3_def m2_def m1_def using a D
    by (intro put_page_other [THEN trans] c) (auto simp: in_frame_def)
qed

lemma hand_over_ok:
  assumes c: "ram_frame c" and D: "D + 48 \<le> 4096" and n: "0 < n" "n \<le> 8192"
    and buf: "length buf = n" "buf_ok buf" "c \<notin> set buf"
    and g: "\<And>k. 1024 * k < n \<Longrightarrow> ram_frame (g k) \<and> g k \<noteq> c"
    and d: "\<And>k. 1024 * k < n \<Longrightarrow> ld32 (bt_pm st) (c + word_of_nat (D + 16 + 4 * k)) = P2 (g k)"
    and t: "\<And>k j. j < 1024 \<Longrightarrow> 1024 * k + j < n \<Longrightarrow> ld32 (bt_pm st) (g k + word_of_nat (4 * j)) = buf ! (1024 * k + j)"
    and b: "al4 (phys base)" "unat (phys base) + 4096 * n \<le> 0x0C600000"
  shows "\<exists>st'. hand_over E [c] D base n c st = Some (Some ((base AND 0x1FFFFFFF OR 0x80000000) + 4), st')
    \<and> (\<forall>k < 4096 * n. bt_pm st' (phys base + word_of_nat k) = bt_pm st (buf_addr buf k))"
proof -
  let ?e = "(base AND 0x1FFFFFFF OR 0x80000000) + 4" and ?p = "P2 (c + word_of_nat D)"
  define m where "m = put_bytes [c] (D + 12) (le32_bytes 0x100000F0) (put_bytes [c] (D + 8) (le32_bytes ?e)
    (put_bytes [c] (D + 4) (le32_bytes (word_of_nat n)) (put_bytes [c] D (le32_bytes (P2 base)) (bt_pm st))))"
  have D16: "D + 16 \<le> 4096" using D by simp
  note w = descriptor_words [OF c D16, where ?w0.0 = "P2 base" and m = "bt_pm st" and ?w1.0 = "word_of_nat n"
    and ?w2.0 = ?e and ?w3.0 = "0x100000F0", folded m_def]
  have p: "phys (?p + word_of_nat x) = c + word_of_nat (D + x)" if "D + x \<le> 4096" for x
  proof -
    have "phys (c + word_of_nat D) = c + word_of_nat D" "phys c = c"
      using unat_frame_off [OF c, of D] D c by (intro phys_low, simp add: ram_frame_def)+
    then have "?p + word_of_nat x = P2 c + word_of_nat (D + x)" by (simp add: P2_plus)
    then show ?thesis using frame_phys(1) [OF c that] by (simp only:)
  qed
  have k8: "D + 16 + 4 * k + 4 \<le> 4096" if "1024 * k < n" for k
  proof -
    from that n have "k < 8" by linarith
    with D show ?thesis by simp
  qed
  have "\<exists>m'. page_loop c ?p n 0 0 (P2 base) m = Some m'
      \<and> (\<forall>j k. j \<le> n - 1 \<longrightarrow> k < 4096 \<longrightarrow> m' (phys (P2 base) + word_of_nat (4096 * j + k)) = m (buf ! (0 + j) + word_of_nat k))
      \<and> (\<forall>a. unat a < unat (phys (P2 base)) \<or> unat (phys (P2 base)) + 4096 * Suc (n - 1) \<le> unat a \<longrightarrow> m' a = m a)"
  proof (rule page_loop_copies [OF c, where g = g and ?m0.0 = m])
    show "ram_frame (buf ! i)" if "i < n" for i using that buf by (simp add: buf_ok_def)
    show "ram_frame (g k)" if "1024 * k < n" for k using g that by simp
    fix k assume k: "1024 * k < n"
    have e: "phys (?p + 16 + word_of_nat (k * 4)) = c + word_of_nat (D + 16 + 4 * k)"
      using p [of "16 + k * 4"] k8 [OF k] by (simp add: ac_simps)
    show "0x0C600000 \<le> unat (phys (?p + 16 + word_of_nat (k * 4)))"
      using c k8 [OF k] unat_frame_off [OF c, of "D + 16 + 4 * k"] unfolding e by (simp add: ram_frame_def)
    have "ld32 m (c + word_of_nat (D + 16 + 4 * k)) = ld32 (bt_pm st) (c + word_of_nat (D + 16 + 4 * k))"
      using k8 [OF k] by (intro ld32_page_other c w(4)) auto
    then show "ld32 m (phys (?p + 16 + word_of_nat (k * 4))) = P2 (g k)" using d [OF k] unfolding e by simp
  next
    fix k j :: nat assume j: "j < 1024" "1024 * k + j < n"
    then have g: "ram_frame (g k)" "g k \<noteq> c" using g [of k] by simp_all
    have "ld32 m (g k + word_of_nat (4 * j)) = ld32 (bt_pm st) (g k + word_of_nat (4 * j))"
    proof (rule ld32_page_other [OF g(1)])
      fix a assume "in_frame (g k) a"
      then show "m a = bt_pm st a" using in_frame_unique [OF _ _ g(1) c, of a] g(2) by (intro w(4)) auto
    qed (use j in simp)
    then show "ld32 m (g k + word_of_nat (4 * j)) = buf ! (1024 * k + j)" using t [OF j] by simp
  qed (use n b in \<open>simp_all add: al4_P2\<close>)
  then obtain m' where m': "page_loop c ?p n 0 0 (P2 base) m = Some m'"
    and at: "\<And>j k. j < n \<Longrightarrow> k < 4096 \<Longrightarrow> m' (phys base + word_of_nat (4096 * j + k)) = m (buf ! j + word_of_nat k)"
    using n by auto
  have "unat (word_of_nat n :: u32) = n" using n by (simp add: unat_of_nat)
  moreover have "phys c = c" using c by (intro phys_low) (simp add: ram_frame_def)
  ultimately have ch: "Chainload (P2 c) ?p m = Some (?e, m')"
    using w(1-3) p [of 0] p [of 4] p [of 8] D m' by (simp add: Chainload_def Let_def)
  show ?thesis
  proof (intro exI conjI allI impI)
    show "hand_over E [c] D base n c st = Some (Some ?e, bev EvCacheSync (bev EvKMode (bev EvGfxShutdown
        (st\<lparr>bt_pm := m\<rparr>)))\<lparr>bt_pm := m'\<rparr>)"
      using D ch unfolding hand_over_def buf_wr_def by (simp add: Let_def bev_def flip: m_def)
    fix k assume k: "k < 4096 * n"
    have q: "k div 4096 < n" using k by (simp add: div_less_iff_less_mult mult.commute)
    have "m' (phys base + word_of_nat k) = m (buf_addr buf k)"
      using at [OF q, of "k mod 4096"] by (simp add: buf_addr_def)
    also have "\<dots> = bt_pm st (buf_addr buf k)"
    proof (rule w(4))
      have "in_frame (buf ! (k div 4096)) (buf_addr buf k)" "buf ! (k div 4096) \<in> set buf"
        using buf_addr_in [OF buf(2), of k] k buf(1) by simp_all
      then show "\<not> (in_frame c (buf_addr buf k) \<and> unat c + D \<le> unat (buf_addr buf k) \<and> unat (buf_addr buf k) < unat c + D + 16)"
        using in_frame_unique [OF _ _ c, of "buf_addr buf k" "buf ! (k div 4096)"] buf by (auto simp: buf_ok_def)
    qed
    finally show "bt_pm (bev EvCacheSync (bev EvKMode (bev EvGfxShutdown (st\<lparr>bt_pm := m\<rparr>)))\<lparr>bt_pm := m'\<rparr>)
      (phys base + word_of_nat k) = bt_pm st (buf_addr buf k)" by simp
  qed
qed

lemma chain_load_ok:
  assumes lock: "\<And>fs. be_lock E fs = Some (map (drop_bit s) fs)" and s: "s \<in> {0, 8, 12}"
    and code: "length (be_code E) \<le> 4032" and n: "0 < n" "n \<le> 8192" and buf: "length buf = n"
    and fr: "\<And>f. f \<in> set (buf @ c # map g [0..<(n + 1023) div 1024]) \<Longrightarrow> ram_frame f"
      "distinct (buf @ c # map g [0..<(n + 1023) div 1024])"
    and v: "\<And>k. k < (n + 1023) div 1024 \<Longrightarrow> be_valloc E (bt_nalloc st + k) 4096 = Some [g k]"
    and b: "al4 (phys base)" "unat (phys base) + 4096 * n \<le> 0x0C600000"
  shows "\<exists>st'. chain_load E base n ((n + 1023) div 1024) buf [c] R st
      = Some (Some ((base AND 0x1FFFFFFF OR 0x80000000) + 4), st')
    \<and> (\<forall>k < 4096 * n. bt_pm st' (phys base + word_of_nat k) = bt_pm st (buf_addr buf k))"
proof -
  let ?np = "(n + 1023) div 1024" and ?D = "(length (be_code E) + 31) div 32 * 32"
  let ?pfns = "map (drop_bit s) buf"
  have np: "k < ?np \<longleftrightarrow> 1024 * k < n" for k
    using less_eq_div_iff_mult_less_eq [of 1024 "Suc k" "n + 1023"] by (simp add: Suc_le_eq) arith
  have np8: "?np \<le> 8" using n by simp
  have D: "?D + 48 \<le> 4096" using code by simp
  have c: "ram_frame c" and bok: "buf_ok buf" "c \<notin> set buf" using fr by (auto simp: buf_ok_def)
  have g: "ram_frame (g k) \<and> g k \<noteq> c" "g k \<notin> set buf" if "k < ?np" for k using fr that by auto
  have gi: "i = j" if "i < ?np" "j < ?np" "g i = g j" for i j
  proof -
    have "inj_on g {0..<?np}" using fr(2) by (simp add: distinct_map)
    from inj_onD [OF this that(3)] that show ?thesis by simp
  qed
  let ?m = "put_bytes [c] 0 (be_code E) (bt_pm st)"
  let ?st = "st\<lparr>bt_pm := ?m\<rparr>"
  obtain R' st1 where p: "pfn_pages E ?np 0 ?pfns s [c] ?D R ?st = Some (None, R', st1)"
    and u: "\<And>a. \<forall>i < ?np. \<not> in_frame (g i) a \<Longrightarrow> \<not> in_frame c a \<Longrightarrow> bt_pm st1 a = ?m a"
    and d: "\<And>i. i < ?np \<Longrightarrow> ld32 (bt_pm st1) (c + word_of_nat (?D + 16 + 4 * i)) = P2 (g i)"
    and t: "\<And>i j. i < ?np \<Longrightarrow> j < 1024 \<Longrightarrow> i * 1024 + j < n
      \<Longrightarrow> ld32 (bt_pm st1) (g i + word_of_nat (4 * j)) = push_bit s (?pfns ! (i * 1024 + j))"
  proof -
    have a: "?D + 16 + 4 * (0 + ?np) \<le> 4096" using D np8 by simp
    have b: "ram_frame (g (0 + i)) \<and> g (0 + i) \<noteq> c" if "i < ?np" for i using g that by simp
    have d: "i = j" if "i < ?np" "j < ?np" "g (0 + i) = g (0 + j)" for i j using gi that by simp
    have e: "be_valloc E (bt_nalloc ?st + i) 4096 = Some [g (0 + i)]" if "i < ?np" for i using v that by simp
    have "\<exists>R' st'. pfn_pages E ?np 0 ?pfns s [c] ?D R ?st = Some (None, R', st')
      \<and> (\<forall>a. (\<forall>i < ?np. \<not> in_frame (g (0 + i)) a) \<and> \<not> (in_frame c a \<and> unat c + (?D + 16 + 4 * 0) \<le> unat a)
          \<longrightarrow> bt_pm st' a = bt_pm ?st a)
      \<and> (\<forall>i < ?np. ld32 (bt_pm st') (c + word_of_nat (?D + 16 + 4 * (0 + i))) = P2 (g (0 + i)))
      \<and> (\<forall>i j. i < ?np \<longrightarrow> j < 1024 \<longrightarrow> (0 + i) * 1024 + j < length ?pfns
          \<longrightarrow> ld32 (bt_pm st') (g (0 + i) + word_of_nat (4 * j)) = push_bit s (?pfns ! ((0 + i) * 1024 + j)))"
      by (rule pfn_pages_ok [where g = g and k = 0 and E = E and s = s and c = c, OF lock s c a])
        (erule b, erule (2) d, erule e)
    then obtain R' st1 where p: "pfn_pages E ?np 0 ?pfns s [c] ?D R ?st = Some (None, R', st1)"
      and q: "\<forall>a. (\<forall>i < ?np. \<not> in_frame (g (0 + i)) a) \<and> \<not> (in_frame c a \<and> unat c + (?D + 16 + 4 * 0) \<le> unat a)
          \<longrightarrow> bt_pm st1 a = bt_pm ?st a"
        "\<forall>i < ?np. ld32 (bt_pm st1) (c + word_of_nat (?D + 16 + 4 * (0 + i))) = P2 (g (0 + i))"
        "\<forall>i j. i < ?np \<longrightarrow> j < 1024 \<longrightarrow> (0 + i) * 1024 + j < length ?pfns
          \<longrightarrow> ld32 (bt_pm st1) (g (0 + i) + word_of_nat (4 * j)) = push_bit s (?pfns ! ((0 + i) * 1024 + j))"
      by (elim exE conjE)
    show thesis by (rule that [OF p]) (use q buf in \<open>simp_all only: add_0 length_map simp_thms\<close>, auto)
  qed
  have hd: "hd0 ?pfns = drop_bit s (buf ! 0)" using buf n by (cases buf) (simp_all add: hd0_def)
  have "ram_frame (buf ! 0)" using fr(1) [of "buf ! 0"] buf n by simp
  then have sh: "ShiftOf (hd0 ?pfns) = Some s" unfolding hd by (rule ShiftOf_frame(1) [OF _ s])
  have pa: "PagePhys E [c] = c" by (simp add: PagePhys_def lock hd0_def ShiftOf_frame [OF c s])
  have nz: "c \<noteq> 0" using c by (auto simp: ram_frame_def)
  have e: "chain_load E base n ?np buf [c] R st = hand_over E [c] ?D base n c st1"
    using code p buf sh nz unfolding chain_load_def by (simp add: Let_def buf_wr_def lock pa)
  have "\<exists>st'. hand_over E [c] ?D base n c st1 = Some (Some ((base AND 0x1FFFFFFF OR 0x80000000) + 4), st')
    \<and> (\<forall>k < 4096 * n. bt_pm st' (phys base + word_of_nat k) = bt_pm st1 (buf_addr buf k))"
  proof (rule hand_over_ok [OF c D n buf bok _ _ _ b])
    fix k assume k: "1024 * k < n"
    then show "ram_frame (g k) \<and> g k \<noteq> c" using g np by simp
    show "ld32 (bt_pm st1) (c + word_of_nat (?D + 16 + 4 * k)) = P2 (g k)" using d np k by simp
  next
    fix k j :: nat assume j: "j < 1024" "1024 * k + j < n"
    then have "ram_frame (buf ! (1024 * k + j))" using fr(1) buf by simp
    with t [of k j] j np [of k] buf ShiftOf_frame(2) [OF _ s]
    show "ld32 (bt_pm st1) (g k + word_of_nat (4 * j)) = buf ! (1024 * k + j)" by (simp add: mult.commute)
  qed
  moreover have "bt_pm st1 (buf_addr buf k) = bt_pm st (buf_addr buf k)" if k: "k < 4096 * n" for k
  proof -
    let ?a = "buf_addr buf k"
    obtain f where f: "f \<in> set buf" "in_frame f ?a" using buf_addr_in [OF bok(1), of k] k unfolding buf by blast
    then have no: "\<not> in_frame h ?a" if "ram_frame h" "h \<notin> set buf" for h
      using in_frame_unique [OF _ f(2) that(1)] fr(1) [of f] that(2) by auto
    have "bt_pm st1 ?a = ?m ?a" using no g c bok(2) by (intro u) auto
    also have "\<dots> = bt_pm st ?a" using no [OF c bok(2)] code by (intro put_page_other c) auto
    finally show ?thesis .
  qed
  ultimately show ?thesis unfolding e by auto
qed

lemma Rd32_take: "i + 4 \<le> n \<Longrightarrow> n \<le> length m \<Longrightarrow> Rd32 (take n m) i = Rd32 m i"
  by (simp add: Rd32_def)

text \<open>
  C24: a valid image whose load area ends below the frames of the upper memory is at its load
  address when the trampoline jumps to its entry, byte for byte, whatever the order of the frames
  that hold it and the encoding of their numbers.
\<close>

theorem Boot_chainload:
  assumes "be_attr E" "be_open E" "0x24 \<le> length (be_img E)" "be_img E ! 0 = 0xD6" "be_img E ! 1 = 0x1A"
    and hdr: "Rd32 (be_img E) 0x14 = Some base" "Rd32 (be_img E) 0x18 = Some off" "Rd32 (be_img E) 0x1C = Some len"
    and n: "n = (unat len + 4095) div 4096" "0 < len" "n \<le> 8192" and img: "unat off + unat len \<le> length (be_img E)"
    and b: "al4 (phys base)" "unat (phys base) + 4096 * n \<le> 0x0C600000" and code: "length (be_code E) \<le> 4032"
    and v: "be_valloc E (bt_nalloc st) (unat len) = Some buf" "be_valloc E (bt_nalloc st + 1) ((n + 4) * 4) = Some tmp"
      "be_valloc E (bt_nalloc st + 2) 4096 = Some [c]"
      "\<And>k. k < (n + 1023) div 1024 \<Longrightarrow> be_valloc E (bt_nalloc st + 3 + k) 4096 = Some [g k]"
    and fr: "length buf = n" "distinct (buf @ c # map g [0..<(n + 1023) div 1024])"
      "\<And>f. f \<in> set (buf @ c # map g [0..<(n + 1023) div 1024]) \<Longrightarrow> ram_frame f"
    and lock: "\<And>fs. be_lock E fs = Some (map (drop_bit s) fs)" and s: "s \<in> {0, 8, 12}"
  shows "\<exists>st'. BootIeImage E st = Some (Some ((base AND 0x1FFFFFFF OR 0x80000000) + 4), st')
    \<and> (\<forall>k < unat len. bt_pm st' (phys base + word_of_nat k) = be_img E ! (unat off + k))"
proof -
  let ?d = "take (unat len) (drop (unat off) (be_img E))" and ?np = "(n + 1023) div 1024"
  let ?R = "\<lparr>br_pBuf = Some buf, br_pfnTmp = Some tmp, br_pTramp = Some [c], br_apfnPg = []\<rparr>"
  let ?st = "st\<lparr>bt_nalloc := Suc (Suc (Suc (bt_nalloc st))), bt_blocks := [c] # tmp # buf # bt_blocks st,
    bt_pm := put_bytes buf 0 ?d (bt_pm st), bt_file := False\<rparr>"
  have len: "unat len \<le> 4096 * n" "0 < n" using n(1,2) by (simp_all add: word_less_nat_alt) 
  have "unat len + 4095 < 2 ^ 32" using len(1) n(3) by simp
  then have "unat ((len + 0x1000 - 1) div 0x1000) = n"
    using n(1) by (simp add: unat_div unat_word_ariths)
  moreover have "?np \<le> 8" using n(3) by simp
  moreover have ld: "length ?d = unat len" using img by simp
  ultimately have e: "BootIeImage E st = chain_load E base n ?np buf [c] ?R ?st"
    using assms(1-5) hdr v(1-3) len fr(1)
    by (simp add: BootIeImage_def Let_def Rd32_take load_payload_def VirtualAlloc_def buf_wr_def numeral_2_eq_2)
  have bok: "buf_ok buf" using fr by (auto simp: buf_ok_def)
  have "\<exists>st'. chain_load E base n ?np buf [c] ?R ?st = Some (Some ((base AND 0x1FFFFFFF OR 0x80000000) + 4), st')
    \<and> (\<forall>k < 4096 * n. bt_pm st' (phys base + word_of_nat k) = bt_pm ?st (buf_addr buf k))"
    by (rule chain_load_ok [OF lock s code len(2) n(3) fr(1) fr(3) fr(2) _ b]) (use v(4) in \<open>simp_all add: numeral_3_eq_3\<close>)
  moreover have "bt_pm ?st (buf_addr buf k) = be_img E ! (unat off + k)" if "k < unat len" for k
    using holds_put [OF bok, of 0 ?d "bt_pm st"] len(1) fr(1) ld that by (simp add: holds_def)
  ultimately show ?thesis unfolding e using len(1) by auto
qed

text \<open>
  Nothing compares the frames of the source with the destination. A source page that lies where an
  earlier page goes is overwritten before its turn, and the earlier page is copied twice.
\<close>

lemma page_loop_overlap:
  assumes c: "unat (phys r2) + 8192 \<le> unat c" "unat c < 0x0D000000" and r2: "al4 r2"
    and g: "ram_frame g" "unat (phys r2) + 8192 \<le> unat g"
    and S: "ram_frame s0" "ram_frame s1" "s1 = phys r2" "unat s0 \<ge> unat s1 + 8192"
    and d: "ld32 m (phys (p + 16)) = P2 g"
    and t: "ld32 m g = s0" "ld32 m (g + 4) = s1"
  shows "\<exists>m'. page_loop c p 2 0 0 r2 m = Some m'
    \<and> (\<forall>k < 4096. m' (phys r2 + word_of_nat k) = m (s0 + word_of_nat k))
    \<and> (\<forall>k < 4096. m' (phys r2 + 4096 + word_of_nat k) = m (s0 + word_of_nat k))"
proof -
  let ?m1 = "copy_words 1024 (P2 s0) r2 m" and ?m2 = "copy_words 1024 (P2 s1) (r2 + 4096) (copy_words 1024 (P2 s0) r2 m)"
  have lim: "unat s0 < 0x0D000000" "unat s1 < 0x0D000000" "unat g < 0x0D000000" using S g by (simp_all add: ram_frame_def)
  have ps: "phys (P2 s0) = s0" "phys (P2 s1) = s1"
    using frame_phys(1) [OF S(1), of 0] frame_phys(1) [OF S(2), of 0] by simp_all
  have D: "phys (r2 + 4096) = s1 + 4096" "unat (s1 + 4096) = unat s1 + 4096"
    using phys_step [of r2 4096] lim S(3) by simp_all
  have u: "unat (s1 + word_of_nat k) = unat s1 + k" if "k < 4096" for k using unat_frame_off [OF S(2) that] .
  have hi: "?m1 a = m a" if "unat s1 + 4096 \<le> unat a" for a
    using that lim S(3) by (intro copy_words_other) simp_all
  have at1: "?m1 (s1 + word_of_nat k) = m (s0 + word_of_nat k)" if "k < 4096" for k
    using copy_words_at [of "P2 s0" 1024 r2 k m] lim S ps that by simp
  have at2: "?m2 (s1 + 4096 + word_of_nat k) = ?m1 (s1 + word_of_nat k)" if "k < 4096" for k
    using copy_words_at [of "P2 s1" 1024 "r2 + 4096" k ?m1] lim S D ps that by simp
  have lo: "?m2 (s1 + word_of_nat k) = ?m1 (s1 + word_of_nat k)" if "k < 4096" for k
    using lim D u [OF that] that by (intro copy_words_other) simp_all
  have s1: "ld32 ?m1 (g + 4) = s1"
    using g(2) S(3) unat_frame_off [OF g(1), of 4] lim(3)
    by (subst ld32_cong [of "unat s1 + 8192" ?m1 m]) (simp_all add: t hi)
  have "page_loop c p 2 0 0 r2 m = (let m = ?m1 in if 0 + 1 \<ge> (2 :: nat) then Some m
      else page_loop c p 2 (0 + 1) (P2 g + word_of_nat (4 * (0 + 1))) (r2 + 4096) m)"
  proof (rule page_step [OF _ r2 g(1) _ _ S(1) refl])
    show "\<not> over_page c (phys r2)" using c by (intro over_page_apart) simp_all
  qed (use d t(1) in simp_all)
  also have "\<dots> = page_loop c p 2 1 (P2 g + 4) (r2 + 4096) ?m1" by simp
  also have "\<dots> = (let m = ?m2 in if 1 + 1 \<ge> (2 :: nat) then Some m
      else page_loop c p 2 (1 + 1) (P2 g + word_of_nat (4 * (1 + 1))) (r2 + 4096 + 4096) m)"
  proof (rule page_step [OF _ al4_add [OF r2] g(1) _ _ S(2) refl])
    show "\<not> over_page c (phys (r2 + 4096))" unfolding D(1) using c D(2) S(3) by (intro over_page_apart) simp_all
  qed (use s1 in simp_all)
  also have "\<dots> = Some ?m2" by simp
  finally have r: "page_loop c p 2 0 0 r2 m = Some ?m2" .
  show ?thesis
    using at1 at2 lo unfolding r S(3) [symmetric] by auto
qed

section \<open>The ways back to the menu\<close>

definition rs_blocks :: "bootres \<Rightarrow> u32 list multiset" where
  "rs_blocks R = mset (List.map_filter id [br_pBuf R, br_pfnTmp R, br_pTramp R]) + mset (br_apfnPg R)"

lemma mset_VirtualFree: "mset (bt_blocks (VirtualFree fs st)) = mset (bt_blocks st) - {#fs#}"
  by (simp add: VirtualFree_def)

lemma VirtualFree_rest [simp]: "bt_file (VirtualFree fs st) = bt_file st" "s_szMsg (VirtualFree fs st) = s_szMsg st"
  by (simp_all add: VirtualFree_def)

lemma fold_VirtualFree:
  "mset (bt_blocks (fold VirtualFree fss st)) = mset (bt_blocks st) - mset fss"
  "bt_file (fold VirtualFree fss st) = bt_file st" "s_szMsg (fold VirtualFree fss st) = s_szMsg st"
  by (induction fss arbitrary: st) (simp_all add: mset_VirtualFree)

definition comes_back :: "u32 list multiset \<Rightarrow> u32 option \<times> boot \<Rightarrow> bool" where
  "comes_back B r \<longleftrightarrow> (fst r = None \<longrightarrow> \<not> bt_file (snd r) \<and> mset (bt_blocks (snd r)) = B \<and> s_szMsg (snd r) \<noteq> [])"

lemma boot_fail_back:
  "boot_fail R e st = Some r \<Longrightarrow> mset (bt_blocks st) = B + rs_blocks R \<Longrightarrow> e \<noteq> [] \<Longrightarrow> comes_back B r"
  by (auto simp: boot_fail_def boot_msg_def comes_back_def rs_blocks_def free_opt_def fold_VirtualFree mset_VirtualFree
      List.map_filter_def ws_def Let_def split: if_splits option.splits)

lemma pfn_pages_back:
  "pfn_pages E n k pfns s tramp D R st = Some (e, R', st') \<Longrightarrow> mset (bt_blocks st) = B + rs_blocks R
    \<Longrightarrow> mset (bt_blocks st') = B + rs_blocks R' \<and> e \<noteq> Some []"
proof (induction n arbitrary: k R st)
  case (Suc n)
  show ?case
  proof (cases "be_valloc E (bt_nalloc st) 4096")
    case None
    with Suc.prems show ?thesis by (auto simp: VirtualAlloc_def Let_def)
  next
    case (Some pg)
    let ?R = "R\<lparr>br_apfnPg := br_apfnPg R @ [pg]\<rparr>"
    have B: "add_mset pg (mset (bt_blocks st)) = B + rs_blocks ?R" using Suc.prems(2) by (simp add: rs_blocks_def)
    from Suc.prems(1) Some show ?thesis
      by (auto simp: VirtualAlloc_def Let_def B bind_eq_Some_conv split: if_splits dest!: Suc.IH)
  qed
qed auto

lemma hand_over_back: "hand_over E tramp D base n pa st = Some r \<Longrightarrow> comes_back B r"
  by (auto simp: hand_over_def comes_back_def Let_def bind_eq_Some_conv)

lemma chain_load_back:
  assumes r: "chain_load E base n np buf tramp R st = Some r" and B: "mset (bt_blocks st) = B + rs_blocks R"
  shows "comes_back B r"
proof -
  obtain m where m: "buf_wr tramp 0 (be_code E) (bt_pm st) = Some m"
    using r by (cases "buf_wr tramp 0 (be_code E) (bt_pm st)") (simp_all add: chain_load_def Let_def)
  let ?st = "st\<lparr>bt_pm := m\<rparr>" and ?D = "(length (be_code E) + 31) div 32 * 32"
  have B': "mset (bt_blocks ?st) = B + rs_blocks R" using B by simp
  show ?thesis
  proof (cases "be_lock E buf")
    case None
    with r m have "boot_fail R ''IE chainload: LockPages failed'' ?st = Some r" by (simp add: chain_load_def)
    then show ?thesis by (rule boot_fail_back [OF _ B']) simp
  next
    case (Some pfns)
    show ?thesis
    proof (cases "ShiftOf (hd0 pfns)")
      case None
      with r m Some have "boot_fail R ''IE chainload: bad pfn encoding (see log)'' ?st = Some r" by (simp add: chain_load_def)
      then show ?thesis by (rule boot_fail_back [OF _ B']) simp
    next
      case (Some s)
      obtain e R' st1 where p: "pfn_pages E np 0 (take n (pfns @ replicate n 0)) s tramp ?D R ?st = Some (e, R', st1)"
        and r': "(case e of Some e \<Rightarrow> boot_fail R' e st1
          | None \<Rightarrow> let paTramp = PagePhys E tramp in if paTramp = 0
              then boot_fail R' ''IE chainload: trampoline phys failed'' st1
              else hand_over E tramp ?D base n paTramp st1) = Some r"
        using r m \<open>be_lock E buf = Some pfns\<close> Some by (auto simp: chain_load_def bind_eq_Some_conv Let_def)
      note P = pfn_pages_back [OF p B']
      show ?thesis
        using r' P by (auto simp: Let_def intro: boot_fail_back hand_over_back split: option.splits if_splits)
    qed
  qed
qed

lemma load_payload_back:
  assumes r: "load_payload E base off len n np st = Some r"
  shows "comes_back (mset (bt_blocks st)) r"
proof -
  obtain a st1 where a: "VirtualAlloc E len st = (a, st1)" by fastforce
  obtain b st2 where b: "VirtualAlloc E ((n + 4) * 4) st1 = (b, st2)" by fastforce
  obtain c st3 where c: "VirtualAlloc E 4096 st2 = (c, st3)" by fastforce
  let ?R = "\<lparr>br_pBuf = a, br_pfnTmp = b, br_pTramp = c, br_apfnPg = []\<rparr>"
  have B: "mset (bt_blocks st3) = mset (bt_blocks st) + rs_blocks ?R"
    using a b c by (auto simp: VirtualAlloc_def Let_def rs_blocks_def List.map_filter_def split: option.splits)
  show ?thesis
    using r unfolding load_payload_def Let_def a b c prod.case
    by (auto simp: Let_def bind_eq_Some_conv B split: option.splits if_splits
        intro: boot_fail_back [OF _ B] boot_fail_back [where R = ?R] chain_load_back)
qed

text \<open>
  C25: whatever fails on the way to the jump, the file is closed, every block that was allocated is
  released again, and the menu has a message to show.
\<close>

theorem Boot_fail_releases:
  assumes "BootIeImage E st = Some (None, st')" "\<not> bt_file st"
  shows "\<not> bt_file st' \<and> mset (bt_blocks st') = mset (bt_blocks st) \<and> s_szMsg st' \<noteq> []"
proof (cases "be_attr E \<and> be_open E")
  case False
  with assms show ?thesis by (auto simp: BootIeImage_def boot_msg_def ws_def split: if_splits)
next
  case True
  let ?st = "st\<lparr>bt_file := True\<rparr>" and ?R = "\<lparr>br_pBuf = None, br_pfnTmp = None, br_pTramp = None, br_apfnPg = []\<rparr>"
  have B: "mset (bt_blocks ?st) = mset (bt_blocks st) + rs_blocks ?R" by (simp add: rs_blocks_def List.map_filter_def)
  have l: "load_payload E b f l n np ?st = Some r \<Longrightarrow> comes_back (mset (bt_blocks st)) r" for b f l n np r
    using load_payload_back [of E b f l n np ?st r] by simp
  have "comes_back (mset (bt_blocks st)) (None, st')"
    using assms(1) True l boot_fail_back [OF _ B]
    by (auto simp: BootIeImage_def Let_def bind_eq_Some_conv split: if_splits)
  then show ?thesis by (simp add: comes_back_def)
qed

section \<open>The menu\<close>

text \<open>
  The queue is drained to its end even after the desktop was launched: a second Enter in the same
  turn launches it again.
\<close>

lemma BootKeys_twice:
  "s_nSel st = 0 \<Longrightarrow> be_create E DCSHELL \<Longrightarrow> \<exists>st'. BootKeys E [VK_RETURN, VK_RETURN] d st = Some (Menu True st')
    \<and> bt_log st' = bt_log st @ [EvGfxShutdown, EvCreate DCSHELL, EvGfxShutdown, EvCreate DCSHELL]"
  by (simp add: BootKey_def Choose_def LaunchShell_def bev_def Let_def VK_RETURN_def VK_UP_def VK_DOWN_def)

section \<open>A small image\<close>

definition sample_img :: "byte list" where
  "sample_img = [0xD6, 0x1A, 0, 0, 0, 0, 0, 0, 0, 0, 0, 0, 0, 0, 0, 0, 0, 0, 0, 0,
     0, 0, 1, 0x0C, 0x24, 0, 0, 0, 4, 0, 0, 0, 0, 0, 0, 0, 11, 22, 33, 44]"

definition sample_boot :: bootenv where
  "sample_boot = \<lparr>be_attr = True, be_open = True, be_img = sample_img,
     be_valloc = (\<lambda>i n. Some [0x0C700000 + word_of_nat i * 0x1000]),
     be_lock = (\<lambda>fs. Some (map (drop_bit 8) fs)), be_code = [1, 2, 3, 4], be_create = (\<lambda>_. True)\<rparr>"

definition boot0 :: boot where
  "boot0 = \<lparr>s_nSel = 1, s_bNetKicked = True, s_szMsg = [], bt_pm = (\<lambda>_. 0), bt_blocks = [], bt_nalloc = 0,
     bt_file = False, bt_log = []\<rparr>"

lemma sample_Rd32:
  "Rd32 sample_img 0x14 = Some 0x0C010000" "Rd32 sample_img 0x18 = Some 0x24" "Rd32 sample_img 0x1C = Some 4"
  by (simp_all add: sample_img_def Rd32_def rd8_def)

lemma sample_hdr:
  "length sample_img = 40" "sample_img ! 0 = 0xD6" "sample_img ! Suc 0 = 0x1A" "drop 36 sample_img = [11, 22, 33, 44]"
  by (simp_all add: sample_img_def)

lemma Boot_chainload_witness:
  "\<exists>st'. BootIeImage sample_boot boot0 = Some (Some 0x8C010004, st')
    \<and> bt_pm st' 0x0C010000 = 11 \<and> bt_pm st' 0x0C010003 = 44"
proof -
  have p: "phys 0x0C010000 = 0x0C010000" by (simp add: phys_def)
  have "\<exists>st'. BootIeImage sample_boot boot0 = Some (Some ((0x0C010000 AND 0x1FFFFFFF OR 0x80000000) + 4), st')
    \<and> (\<forall>k < unat (4 :: u32). bt_pm st' (phys 0x0C010000 + word_of_nat k) = be_img sample_boot ! (unat (0x24 :: u32) + k))"
    by (rule Boot_chainload [where n = 1 and buf = "[0x0C700000]" and tmp = "[0x0C701000]" and c = "0x0C702000"
          and g = "\<lambda>_. 0x0C703000" and s = 8])
      (simp_all add: sample_boot_def boot0_def sample_Rd32 p al4_def ram_frame_def, simp_all add: sample_img_def ram_frame_def, auto)
  then obtain st' where r: "BootIeImage sample_boot boot0 = Some (Some 0x8C010004, st')"
    and m: "\<And>k. k < 4 \<Longrightarrow> bt_pm st' (0x0C010000 + word_of_nat k) = sample_img ! (36 + k)"
    by (auto simp: p sample_boot_def)
  with m [of 0] m [of 3] show ?thesis by (simp add: sample_img_def)
qed

lemma Boot_fail_releases_witness:
  "\<exists>st'. BootIeImage (sample_boot\<lparr>be_lock := (\<lambda>_. None)\<rparr>) boot0 = Some (None, st') \<and> bt_blocks st' = []"
proof -
  have "\<exists>st'. BootIeImage (sample_boot\<lparr>be_lock := (\<lambda>_. None)\<rparr>) boot0 = Some (None, st')"
    by (simp add: BootIeImage_def Let_def Rd32_take sample_Rd32 sample_hdr load_payload_def VirtualAlloc_def
        buf_wr_def chain_load_def boot_fail_def boot_msg_def sample_boot_def boot0_def)
  then obtain st' where r: "BootIeImage (sample_boot\<lparr>be_lock := (\<lambda>_. None)\<rparr>) boot0 = Some (None, st')" by blast
  with Boot_fail_releases [OF r] show ?thesis by (auto simp: boot0_def)
qed

end
