(* ===== verification/Taskman.thy ===== *)
theory Taskman
  imports Dcwin Dcinput
begin

text \<open>
  The task manager, \<open>shell/dcwtask.c\<close>: the list of processes, the memory of each, ending a task,
  the context menu, and one turn of the client. What the system answers (the snapshots, opening
  a process, the heaps) is the record \<open>taskenv\<close>; the processes that were terminated are a log in
  the state. An access outside an array is \<open>None\<close>. The drawing is left out, except for the rows
  it reads.
\<close>

definition TROWS :: int where "TROWS = 11"
definition MAXP :: int where "MAXP = 48"
definition LISTY :: int where "LISTY = 40"
definition ROWH :: int where "ROWH = 14"
definition MENU_N :: int where "MENU_N = 3"
definition MENU_W :: int where "MENU_W = 108"
definition MENU_RH :: int where "MENU_RH = 16"

section \<open>State\<close>

datatype openres = OpenedProc | NoProc | OpenFault

text \<open>
  \<open>te_snap i\<close> is what the scan number \<open>i\<close> is told: the executables with their process numbers, or
  \<open>None\<close> for no snapshot. \<open>te_heaps\<close> lists the heaps of a process, each block with its free flag;
  \<open>None\<close> is a walk that fails or faults.
\<close>

record taskenv =
  te_snap :: "nat \<Rightarrow> (wchar list \<times> u32) list option"
  te_open :: "u32 \<Rightarrow> openres"
  te_heaps :: "u32 \<Rightarrow> (bool \<times> u32) list list option"

record task =
  g_adwPid :: "u32 list"
  g_awchName :: "wchar list list"
  g_adwMem :: "u32 list"
  g_n :: int
  g_nSel :: int
  g_nTop :: int
  g_nDrawnOnce :: bool
  g_nMemScan :: int
  g_awchStatus :: "wchar list"
  g_bMenu :: bool
  g_nMenuX :: int
  g_nMenuY :: int
  g_nMenuSel :: int
  dwNextScan :: u32
  tk_scans :: nat
  tk_kills :: "u32 list"

definition task0 :: task where
  "task0 = \<lparr>g_adwPid = replicate 48 0, g_awchName = replicate 48 [], g_adwMem = replicate 48 0, g_n = 0, g_nSel = 0,
     g_nTop = 0, g_nDrawnOnce = False, g_nMemScan = 999, g_awchStatus = [], g_bMenu = False, g_nMenuX = 0,
     g_nMenuY = 0, g_nMenuSel = 0, dwNextScan = 0, tk_scans = 0, tk_kills = []\<rparr>"

section \<open>Names\<close>

primrec base_from :: "wchar list \<Rightarrow> wchar list \<Rightarrow> wchar list" where
  "base_from b [] = b"
| "base_from b (c # psz) = base_from (if c = 0x5C then psz else b) psz"

definition Base :: "wchar list \<Rightarrow> wchar list" where "Base psz = base_from psz psz"

fun IEq :: "wchar list \<Rightarrow> wchar list \<Rightarrow> bool" where
  "IEq (a # as) (b # bs) = (if a OR 32 \<noteq> b OR 32 then False else IEq as bs)"
| "IEq as bs = (as = [] \<and> bs = [])"

definition Protected :: "wchar list \<Rightarrow> bool" where
  "Protected pszName =
     (IEq pszName (ws ''nk.exe'') \<or> IEq pszName (ws ''gwes.exe'') \<or> IEq pszName (ws ''filesys.exe'')
        \<or> IEq pszName (ws ''device.exe'') \<or> IEq pszName (ws ''dcshell.exe''))"

text \<open>The command line of the crash test.\<close>

fun crash_at :: "wchar list \<Rightarrow> bool" where
  "crash_at (a # b # c # d # e # _) =
     (a OR 32 = 0x63 \<and> b OR 32 = 0x72 \<and> c OR 32 = 0x61 \<and> d OR 32 = 0x73 \<and> e OR 32 = 0x68)"
| "crash_at _ = False"

primrec HasCrashArg :: "wchar list \<Rightarrow> bool" where
  "HasCrashArg [] = False"
| "HasCrashArg (c # psz) = (crash_at (c # psz) \<or> HasCrashArg psz)"

section \<open>The list of processes\<close>

definition MemUsage :: "taskenv \<Rightarrow> u32 \<Rightarrow> u32" where
  "MemUsage E dwPid =
     (case te_heaps E dwPid of
        None \<Rightarrow> 0
      | Some hs \<Rightarrow> sum_list (map snd (filter (\<lambda>b. \<not> fst b) (concat hs))))"

primrec scan_procs :: "(wchar list \<times> u32) list \<Rightarrow> task \<Rightarrow> task option" where
  "scan_procs [] st = Some st"
| "scan_procs (p # ps) st =
     (if g_n st \<ge> MAXP then Some st
      else do {
        names \<leftarrow> upd (g_awchName st) (g_n st) (take 31 (Base (fst p)));
        pids \<leftarrow> upd (g_adwPid st) (g_n st) (snd p);
        scan_procs ps (st\<lparr>g_awchName := names, g_adwPid := pids, g_n := g_n st + 1\<rparr>) })"

definition Scan :: "taskenv \<Rightarrow> task \<Rightarrow> task option" where
  "Scan E st =
     (let st = st\<lparr>g_n := 0, tk_scans := tk_scans st + 1\<rparr>
      in case te_snap E (tk_scans st) of
           None \<Rightarrow> Some st
         | Some ps \<Rightarrow> do {
             st \<leftarrow> scan_procs ps st;
             let st = (if g_nSel st \<ge> g_n st then st\<lparr>g_nSel := (if g_n st \<noteq> 0 then g_n st - 1 else 0)\<rparr> else st);
             Some (st\<lparr>g_nMemScan := 0\<rparr>) })"

definition set_status :: "wchar list \<Rightarrow> task \<Rightarrow> task option" where
  "set_status s st = (if length s < 44 then Some (st\<lparr>g_awchStatus := s\<rparr>) else None)"

definition EndTask :: "taskenv \<Rightarrow> task \<Rightarrow> task option" where
  "EndTask E st =
     (if g_nSel st < 0 \<or> g_nSel st \<ge> g_n st then Some st
      else do {
        nm \<leftarrow> at (g_awchName st) (g_nSel st);
        if Protected nm then set_status (ws (''protected - won'' @ CHR 0x27 # ''t end'')) st
        else do {
          pid \<leftarrow> at (g_adwPid st) (g_nSel st);
          case te_open E pid of
            OpenedProc \<Rightarrow> set_status (ws ''ended '' @ nm) (st\<lparr>tk_kills := tk_kills st @ [pid]\<rparr>)
          | NoProc \<Rightarrow> set_status (ws (''can'' @ CHR 0x27 # ''t open process'')) st
          | OpenFault \<Rightarrow> set_status (ws ''end-task unavailable'') st } })"

text \<open>The row texts that a frame reads: at most \<open>TROWS\<close> from the top of the list.\<close>

primrec task_rows :: "nat \<Rightarrow> int \<Rightarrow> task \<Rightarrow> (u32 \<times> u32 \<times> wchar list) list option" where
  "task_rows 0 nIdx st = Some []"
| "task_rows (Suc k) nIdx st =
     (if nIdx < g_n st then do {
        pid \<leftarrow> at (g_adwPid st) nIdx; mem \<leftarrow> at (g_adwMem st) nIdx; nm \<leftarrow> at (g_awchName st) nIdx;
        rs \<leftarrow> task_rows k (nIdx + 1) st;
        Some ((pid, mem, nm) # rs) }
      else Some [])"

section \<open>The turn\<close>

definition task_hover :: "(int \<times> int \<times> bool) option \<Rightarrow> task \<Rightarrow> bool \<times> task" where
  "task_hover ptr st =
     (case ptr of
        None \<Rightarrow> (False, st)
      | Some (px, py, btn) \<Rightarrow>
          if g_bMenu st
          then if px \<ge> g_nMenuX st \<and> px < g_nMenuX st + MENU_W \<and> py \<ge> g_nMenuY st + 2
                 \<and> py < g_nMenuY st + 2 + MENU_N * MENU_RH
               then let m = (py - (g_nMenuY st + 2)) div MENU_RH
                    in if m \<noteq> g_nMenuSel st then (True, st\<lparr>g_nMenuSel := m\<rparr>) else (False, st)
               else (False, st)
          else if py \<ge> LISTY
               then let row = g_nTop st + (py - LISTY) div ROWH
                    in if row \<ge> 0 \<and> row < g_n st \<and> row < g_nTop st + TROWS \<and> row \<noteq> g_nSel st
                       then (True, st\<lparr>g_nSel := row\<rparr>) else (False, st)
               else (False, st))"

text \<open>A key for the open menu. The flag says that the crash item was run.\<close>

definition menu_key :: "taskenv \<Rightarrow> (int \<times> int \<times> bool) option \<Rightarrow> u32 \<Rightarrow> task \<Rightarrow> (bool \<times> task) option" where
  "menu_key E ptr dwKey st =
     (if dwKey = VK_UP \<and> g_nMenuSel st > 0 then Some (False, st\<lparr>g_nMenuSel := g_nMenuSel st - 1\<rparr>)
      else if dwKey = VK_DOWN \<and> g_nMenuSel st < MENU_N - 1 then Some (False, st\<lparr>g_nMenuSel := g_nMenuSel st + 1\<rparr>)
      else if dwKey = VK_APPS then Some (False, st\<lparr>g_bMenu := False\<rparr>)
      else if dwKey = VK_RETURN
      then let bOff = (case ptr of None \<Rightarrow> False
              | Some (px, py, btn) \<Rightarrow> \<not> (px \<ge> g_nMenuX st \<and> px < g_nMenuX st + MENU_W \<and> py \<ge> g_nMenuY st
                                          \<and> py < g_nMenuY st + 2 + MENU_N * MENU_RH));
               st = st\<lparr>g_bMenu := False\<rparr>
           in if \<not> bOff \<and> g_nMenuSel st = 0 then do { st \<leftarrow> EndTask E st; st \<leftarrow> Scan E st; Some (False, st) }
              else if \<not> bOff \<and> g_nMenuSel st = 2 then Some (True, st)
              else do { st \<leftarrow> Scan E st; Some (False, st) }
      else Some (False, st))"

definition open_menu :: "(int \<times> int \<times> bool) option \<Rightarrow> task \<Rightarrow> task" where
  "open_menu ptr st =
     (let (px, py) = (case ptr of None \<Rightarrow> (150, LISTY) | Some (px, py, btn) \<Rightarrow> (px, py));
          px = (if px > 300 - MENU_W then 300 - MENU_W else px);
          py = (if py > 222 - (MENU_N * MENU_RH + 6) then 222 - (MENU_N * MENU_RH + 6) else py);
          px = (if px < 0 then 0 else px);
          py = (if py < LISTY then LISTY else py)
      in st\<lparr>g_nMenuX := px, g_nMenuY := py, g_nMenuSel := 0, g_bMenu := True\<rparr>)"

definition task_scroll :: "int \<Rightarrow> task \<Rightarrow> task" where
  "task_scroll nOtop st =
     (let st = (if g_nSel st < g_nTop st then st\<lparr>g_nTop := g_nSel st\<rparr> else st);
          st = (if g_nSel st \<ge> g_nTop st + TROWS then st\<lparr>g_nTop := g_nSel st - TROWS + 1\<rparr> else st)
      in if g_nTop st \<noteq> nOtop then st\<lparr>g_nMemScan := 0\<rparr> else st)"

definition task_key :: "taskenv \<Rightarrow> (int \<times> int \<times> bool) option \<Rightarrow> u32 \<Rightarrow> task \<Rightarrow> (bool \<times> task) option" where
  "task_key E ptr dwKey st =
     (if g_bMenu st then menu_key E ptr dwKey st
      else do {
        st' \<leftarrow> (if dwKey = VK_UP \<and> g_nSel st > 0 then Some (st\<lparr>g_nSel := g_nSel st - 1\<rparr>)
                else if dwKey = VK_DOWN \<and> g_nSel st < g_n st - 1 then Some (st\<lparr>g_nSel := g_nSel st + 1\<rparr>)
                else if dwKey = VK_DELETE \<or> dwKey = VK_RETURN then do { st \<leftarrow> EndTask E st; Scan E st }
                else if dwKey = VK_APPS then Some (open_menu ptr st)
                else Some st);
        Some (False, task_scroll (g_nTop st) st') })"

primrec task_keys :: "taskenv \<Rightarrow> (int \<times> int \<times> bool) option \<Rightarrow> u32 list \<Rightarrow> task \<Rightarrow> (bool \<times> task) option" where
  "task_keys E ptr [] st = Some (False, st)"
| "task_keys E ptr (k # ks) st = do {
     (crash, st) \<leftarrow> task_key E ptr k st;
     if crash then Some (True, st) else task_keys E ptr ks st }"

text \<open>One row of the memory pass.\<close>

definition mem_step :: "taskenv \<Rightarrow> task \<Rightarrow> (bool \<times> task) option" where
  "mem_step E st =
     (if g_nMemScan st < TROWS
      then do {
        let nIdx = g_nTop st + g_nMemScan st;
        st \<leftarrow> (if nIdx < g_n st then do {
                 pid \<leftarrow> at (g_adwPid st) nIdx;
                 mem \<leftarrow> upd (g_adwMem st) nIdx (MemUsage E pid);
                 Some (st\<lparr>g_adwMem := mem\<rparr>) }
               else Some st);
        let st = st\<lparr>g_nMemScan := g_nMemScan st + 1\<rparr>;
        Some (g_nMemScan st \<ge> TROWS, st) }
      else Some (False, st))"

text \<open>The end of a turn: a row of memory, and the frame if something changed.\<close>

definition task_paint ::
  "taskenv \<Rightarrow> bool \<Rightarrow> task \<Rightarrow> (bool \<times> (u32 \<times> u32 \<times> wchar list) list option \<times> task) option" where
  "task_paint E nChanged st = do {
     (c, st) \<leftarrow> mem_step E st;
     if nChanged \<or> c \<or> \<not> g_nDrawnOnce st
     then do { rows \<leftarrow> task_rows 11 (g_nTop st) st; Some (False, Some rows, st\<lparr>g_nDrawnOnce := True\<rparr>) }
     else Some (False, None, st) }"

text \<open>
  A turn of the client: the pointer, the queued keys, the clock. The result is the frame, if one
  is drawn; the flag says that the process raised the crash exception.
\<close>

definition task_turn ::
  "taskenv \<Rightarrow> bool \<Rightarrow> (int \<times> int \<times> bool) option \<Rightarrow> u32 list \<Rightarrow> u32 \<Rightarrow> task
     \<Rightarrow> (bool \<times> (u32 \<times> u32 \<times> wchar list) list option \<times> task) option" where
  "task_turn E resized ptr keys tick st = do {
     let (c1, st) = task_hover ptr st;
     (crash, st) \<leftarrow> task_keys E ptr keys st;
     if crash then Some (True, None, st)
     else if tick \<ge> dwNextScan st
     then do { st \<leftarrow> Scan E st; task_paint E True (st\<lparr>dwNextScan := dwNextScan st + 1000\<rparr>) }
     else task_paint E (resized \<or> c1 \<or> keys \<noteq> []) st }"

text \<open>
  The start of \<open>DcwMain\<close>, once the window is open: the command line goes to a debug line of 96
  characters, and may ask for a crash.
\<close>

definition task_start :: "taskenv \<Rightarrow> wchar list \<Rightarrow> u32 \<Rightarrow> (bool \<times> task) option" where
  "task_start E lpCmd tick =
     (if 16 + length lpCmd + 3 \<ge> 96 then None
      else if HasCrashArg lpCmd then Some (True, task0)
      else do { st \<leftarrow> Scan E task0; Some (False, st\<lparr>dwNextScan := tick + 1000\<rparr>) })"

section \<open>What every turn keeps\<close>

text \<open>A row that some scan was given.\<close>

definition listed :: "taskenv \<Rightarrow> wchar list \<Rightarrow> u32 \<Rightarrow> bool" where
  "listed E nm pid \<longleftrightarrow> (\<exists>k ps x. te_snap E k = Some ps \<and> (x, pid) \<in> set ps \<and> nm = take 31 (Base x))"

definition task_ok :: "taskenv \<Rightarrow> task \<Rightarrow> bool" where
  "task_ok E st \<longleftrightarrow> length (g_adwPid st) = 48 \<and> length (g_awchName st) = 48 \<and> length (g_adwMem st) = 48
     \<and> 0 \<le> g_n st \<and> g_n st \<le> 48 \<and> 0 \<le> g_nSel st \<and> 0 \<le> g_nTop st \<and> 0 \<le> g_nMemScan st
     \<and> (\<forall>i < nat (g_n st). listed E (g_awchName st ! i) (g_adwPid st ! i))
     \<and> (\<forall>pid \<in> set (tk_kills st). \<exists>nm. listed E nm pid \<and> \<not> Protected nm)"

lemma IEq_length: "IEq as bs \<Longrightarrow> length as = length bs"
  by (induction as bs rule: IEq.induct) (auto split: if_splits)

lemma Protected_take: "Protected (take 31 nm) \<longleftrightarrow> Protected nm"
proof (cases "length nm \<le> 31")
  case False
  then have "\<not> IEq nm (ws s)" "\<not> IEq (take 31 nm) (ws s)" if "length s < 31" for s
    using that IEq_length [of nm "ws s"] IEq_length [of "take 31 nm" "ws s"] by (auto simp: ws_def)
  then show ?thesis by (simp add: Protected_def)
qed simp

lemma listed_length: "listed E nm pid \<Longrightarrow> length nm \<le> 31"
  by (auto simp: listed_def)

lemma scan_procs_ok:
  "set ps \<subseteq> set all \<Longrightarrow> te_snap E k = Some all \<Longrightarrow> task_ok E st \<Longrightarrow> ok (scan_procs ps st) (task_ok E)"
proof (induction ps arbitrary: st)
  case (Cons p ps)
  show ?case
  proof (cases "g_n st \<ge> MAXP")
    case True
    with Cons.prems show ?thesis by simp
  next
    case False
    let ?n = "nat (g_n st)"
    let ?st = "st\<lparr>g_awchName := (g_awchName st)[?n := take 31 (Base (fst p))],
      g_adwPid := (g_adwPid st)[?n := snd p], g_n := g_n st + 1\<rparr>"
    have a: "task_ok E st" "?n < 48" using Cons.prems False by (auto simp: task_ok_def MAXP_def)
    have "listed E (take 31 (Base (fst p))) (snd p)"
      using Cons.prems(1,2) unfolding listed_def by (metis insert_subset list.simps(15) prod.collapse)
    then have "task_ok E ?st" using a False by (auto simp: task_ok_def MAXP_def nth_list_update less_Suc_eq nat_add_distrib)
    with Cons have "ok (scan_procs ps ?st) (task_ok E)" by simp
    moreover have "upd (g_awchName st) (g_n st) v = Some ((g_awchName st)[?n := v])"
      "upd (g_adwPid st) (g_n st) w = Some ((g_adwPid st)[?n := w])" for v w
      using a by (simp_all add: task_ok_def)
    ultimately show ?thesis using False by simp
  qed
qed simp

lemma Scan_ok: "task_ok E st \<Longrightarrow> ok (Scan E st) (task_ok E)"
proof -
  assume a: "task_ok E st"
  let ?st = "st\<lparr>g_n := 0, tk_scans := tk_scans st + 1\<rparr>"
  have b: "task_ok E ?st" using a by (simp add: task_ok_def)
  show ?thesis
  proof (cases "te_snap E (tk_scans st + 1)")
    case (Some ps)
    then have "ok (scan_procs ps ?st) (task_ok E)" by (intro scan_procs_ok [OF subset_refl _ b])
    then obtain st1 where "scan_procs ps ?st = Some st1" "task_ok E st1" by (rule okE)
    then show ?thesis using Some by (auto simp: Scan_def Let_def task_ok_def)
  qed (use b in \<open>simp add: Scan_def\<close>)
qed

lemma set_status_ok: "length s < 44 \<Longrightarrow> task_ok E st \<Longrightarrow> ok (set_status s st) (task_ok E)"
  by (simp add: set_status_def task_ok_def)

lemma EndTask_ok: "task_ok E st \<Longrightarrow> ok (EndTask E st) (task_ok E)"
proof -
  assume a: "task_ok E st"
  show ?thesis
  proof (cases "g_nSel st < 0 \<or> g_nSel st \<ge> g_n st")
    case True
    with a show ?thesis by (simp add: EndTask_def)
  next
    case False
    let ?i = "nat (g_nSel st)"
    have l: "listed E (g_awchName st ! ?i) (g_adwPid st ! ?i)" using a False by (auto simp: task_ok_def)
    have b: "at (g_awchName st) (g_nSel st) = Some (g_awchName st ! ?i)" "at (g_adwPid st) (g_nSel st) = Some (g_adwPid st ! ?i)"
      using a False by (simp_all add: task_ok_def)
    have "task_ok E (st\<lparr>tk_kills := tk_kills st @ [g_adwPid st ! ?i]\<rparr>)" if "\<not> Protected (g_awchName st ! ?i)"
      using a l that by (auto simp: task_ok_def)
    then show ?thesis
      using False a b listed_length [OF l]
      by (auto simp: EndTask_def Let_def ws_def intro!: set_status_ok split: openres.splits)
  qed
qed

lemma task_hover_ok: "task_ok E st \<Longrightarrow> task_ok E (snd (task_hover ptr st))"
  by (auto simp: task_hover_def Let_def task_ok_def split: option.splits)

lemma open_menu_ok: "task_ok E st \<Longrightarrow> task_ok E (open_menu ptr st)"
  by (auto simp: open_menu_def Let_def task_ok_def split: prod.splits)

lemma task_scroll_ok: "task_ok E st \<Longrightarrow> task_ok E (task_scroll t st)"
  by (auto simp: task_scroll_def Let_def task_ok_def TROWS_def)

lemma end_scan_ok: "task_ok E st \<Longrightarrow> ok (EndTask E st) (\<lambda>st. ok (Scan E st) (task_ok E))"
  by (rule ok_mono [OF EndTask_ok Scan_ok])

lemma task_menu_ok: "task_ok E st \<Longrightarrow> ok (menu_key E ptr k st) (\<lambda>r. task_ok E (snd r))"
proof -
  assume a: "task_ok E st"
  have c: "task_ok E (st\<lparr>g_bMenu := b\<rparr>)" "task_ok E (st\<lparr>g_nMenuSel := m\<rparr>)" for b m using a by (simp_all add: task_ok_def)
  show ?thesis
    unfolding menu_key_def Let_def
    using a c end_scan_ok [OF c(1)] Scan_ok [OF c(1)]
    by (auto intro!: ok_if)
qed

lemma task_key_ok: "task_ok E st \<Longrightarrow> ok (task_key E ptr k st) (\<lambda>r. task_ok E (snd r))"
proof -
  assume a: "task_ok E st"
  have b: "task_ok E (st\<lparr>g_nSel := g_nSel st - 1\<rparr>)" if "g_nSel st > 0" using a that by (simp add: task_ok_def)
  have c: "task_ok E (st\<lparr>g_nSel := g_nSel st + 1\<rparr>)" using a by (simp add: task_ok_def)
  show ?thesis
  proof (cases "g_bMenu st")
    case True
    then show ?thesis using task_menu_ok [OF a] by (simp add: task_key_def)
  next
    case False
    then show ?thesis
      unfolding task_key_def
      using a b c by (auto intro!: ok_if task_scroll_ok open_menu_ok ok_mono [OF end_scan_ok [OF a]] intro: ok_mono)
  qed
qed

lemma task_keys_ok: "task_ok E st \<Longrightarrow> ok (task_keys E ptr ks st) (\<lambda>r. task_ok E (snd r))"
proof (induction ks arbitrary: st)
  case (Cons k ks)
  obtain c st1 where "task_key E ptr k st = Some (c, st1)" "task_ok E st1" using task_key_ok [OF Cons.prems, of ptr k] by (elim okE) auto
  with Cons.IH show ?case by simp
qed simp

lemma mem_step_ok: "task_ok E st \<Longrightarrow> ok (mem_step E st) (\<lambda>r. task_ok E (snd r))"
  by (auto simp: mem_step_def task_ok_def TROWS_def Let_def)

lemma task_rows_ok: "task_ok E st \<Longrightarrow> 0 \<le> i \<Longrightarrow> ok (task_rows k i st) (\<lambda>rs. length rs \<le> k)"
  by (induction k arbitrary: i) (auto simp: task_ok_def)

lemma task_paint_ok: "task_ok E st \<Longrightarrow> ok (task_paint E b st) (\<lambda>(c, rows, st). task_ok E st)"
proof -
  assume s: "task_ok E st"
  obtain c st1 where 1: "mem_step E st = Some (c, st1)" "task_ok E st1" using mem_step_ok [OF s] by (elim okE) auto
  have "0 \<le> g_nTop st1" using 1(2) by (simp add: task_ok_def)
  from task_rows_ok [OF 1(2) this, of 11] obtain rs where "task_rows 11 (g_nTop st1) st1 = Some rs" by (rule okE)
  moreover have "task_ok E (st1\<lparr>g_nDrawnOnce := True\<rparr>)" using 1(2) by (simp add: task_ok_def)
  ultimately show ?thesis using 1 by (simp add: task_paint_def)
qed

lemma task_turn_ok: "task_ok E st \<Longrightarrow> ok (task_turn E rz ptr ks tick st) (\<lambda>(c, rows, st). task_ok E st)"
proof -
  assume a: "task_ok E st"
  obtain c1 st1 where 1: "task_hover ptr st = (c1, st1)" "task_ok E st1"
    using task_hover_ok [OF a, of ptr] by (cases "task_hover ptr st") auto
  obtain c st2 where 2: "task_keys E ptr ks st1 = Some (c, st2)" "task_ok E st2"
    using task_keys_ok [OF 1(2), of ptr ks] by (elim okE) auto
  obtain st3 where 3: "Scan E st2 = Some st3" "task_ok E st3" using Scan_ok [OF 2(2)] by (rule okE)
  have "task_ok E (st3\<lparr>dwNextScan := d\<rparr>)" for d using 3(2) by (simp add: task_ok_def)
  then show ?thesis
    using 1 2 3 task_paint_ok by (simp add: task_turn_def)
qed

lemma task0_ok: "task_ok E task0"
  by (simp add: task_ok_def task0_def)

lemma task_start_ok: "task_start E lpCmd tick = Some (c, st) \<Longrightarrow> task_ok E st"
  using task0_ok [of E] Scan_ok [OF task0_ok [of E]]
  by (auto simp: task_start_def bind_eq_Some_conv ok_def task_ok_def split: if_splits)

text \<open>Every run of the client.\<close>

inductive task_reach :: "taskenv \<Rightarrow> task \<Rightarrow> bool" for E where
  start: "task_start E lpCmd tick = Some (False, st) \<Longrightarrow> task_reach E st"
| turn: "task_reach E st \<Longrightarrow> task_turn E rz ptr ks tick st = Some (False, rows, st') \<Longrightarrow> task_reach E st'"

lemma task_reach_ok: "task_reach E st \<Longrightarrow> task_ok E st"
proof (induction rule: task_reach.induct)
  case (turn st rz ptr ks tick rows st')
  with task_turn_ok [OF turn.IH, of rz ptr ks tick] show ?case by simp
qed (rule task_start_ok)

text \<open>
  C27: the task manager never terminates the kernel, the shell or another process that the system
  needs. Whatever the snapshots, the pointer and the keys are, a turn stays inside the arrays,
  and every process that was terminated was listed under a name that is not protected.
\<close>

theorem Task_protects:
  assumes "task_reach E st"
  shows "\<exists>c rows st'. task_turn E rz ptr ks tick st = Some (c, rows, st') \<and>
    (\<forall>pid \<in> set (tk_kills st'). \<exists>k ps x. te_snap E k = Some ps \<and> (x, pid) \<in> set ps \<and> \<not> Protected (Base x))"
proof -
  obtain c rows st' where t: "task_turn E rz ptr ks tick st = Some (c, rows, st')" "task_ok E st'"
    using task_turn_ok [OF task_reach_ok [OF assms], of rz ptr ks tick] by (elim okE) auto
  have "\<exists>k ps x. te_snap E k = Some ps \<and> (x, pid) \<in> set ps \<and> \<not> Protected (Base x)" if "pid \<in> set (tk_kills st')" for pid
    using t(2) that by (fastforce simp: task_ok_def listed_def Protected_take)
  with t(1) show ?thesis by blast
qed

definition task_env :: taskenv where
  "task_env = \<lparr>te_snap = (\<lambda>_. Some [(ws ''nk.exe'', 1), (ws ''dcwcalc.exe'', 2)]), te_open = (\<lambda>_. OpenedProc),
     te_heaps = (\<lambda>_. Some [[(False, 4096), (True, 512)]])\<rparr>"

theorem Task_protects_witness:
  "\<exists>st. task_reach task_env st \<and>
    (\<exists>c rows st'. task_turn task_env False None [VK_DELETE, VK_DOWN, VK_DELETE] 5 st = Some (c, rows, st') \<and>
      1 \<notin> set (tk_kills st'))"
proof -
  obtain st where "Scan task_env task0 = Some st" using Scan_ok [OF task0_ok] by (rule okE)
  then have "task_start task_env [] 0 = Some (False, st\<lparr>dwNextScan := 1000\<rparr>)" by (simp add: task_start_def)
  then have r: "task_reach task_env (st\<lparr>dwNextScan := 1000\<rparr>)" by (rule task_reach.start)
  have "Protected (Base (ws ''nk.exe''))" by (simp add: Protected_def Base_def ws_def)
  with Task_protects [OF r, of False None "[VK_DELETE, VK_DOWN, VK_DELETE]" 5] r show ?thesis
    by (fastforce simp: task_env_def)
qed

text \<open>A row is followed by its position only, and the top of the view is left where it was.\<close>

lemma scan_procs_top:
  "scan_procs ps st = Some st' \<Longrightarrow> g_nTop st' = g_nTop st \<and> g_n st' \<le> g_n st + int (length ps)"
proof (induction ps arbitrary: st)
  case (Cons p ps)
  then show ?case by (fastforce simp: bind_eq_Some_conv split: if_splits)
qed simp

lemma Scan_view_lost:
  assumes "te_snap E (tk_scans st + 1) = Some ps" "int (length ps) \<le> g_nTop st" "Scan E st = Some st'"
  shows "g_nTop st' = g_nTop st \<and> task_rows 11 (g_nTop st') st' = Some []"
proof -
  obtain st1 where s: "scan_procs ps (st\<lparr>g_n := 0, tk_scans := tk_scans st + 1\<rparr>) = Some st1"
    and t: "g_nTop st' = g_nTop st1" "g_n st' = g_n st1"
    using assms(1,3) by (auto simp: Scan_def Let_def bind_eq_Some_conv split: if_splits)
  have "g_nTop st1 = g_nTop st" "g_n st1 \<le> int (length ps)" using scan_procs_top [OF s] by simp_all
  with t assms(2) show ?thesis by (simp add: numeral_eq_Suc)
qed

text \<open>The debug line.\<close>

lemma task_start_overflow: "task_start E lpCmd tick = None \<longleftrightarrow> 76 < length lpCmd"
proof -
  obtain st where "Scan E task0 = Some st" using Scan_ok [OF task0_ok] by (rule okE)
  then show ?thesis by (auto simp: task_start_def)
qed

end
