(* ===== verification/Explorer.thy ===== *)
theory Explorer
  imports Dcwin Dcinput NetDns
begin

text \<open>
  The file explorer, \<open>shell/dcwexp.c\<close>: the listing of a directory, moving to a parent and into an
  entry, launching, the picture, and one turn of the client. What the file system lists for a
  pattern is a parameter. A string that does not fit its array is \<open>None\<close>.
\<close>

section \<open>State\<close>

definition EROW :: int where "EROW = 20"
definition MAXENT :: nat where "MAXENT = 256"
definition MAX_PATH :: nat where "MAX_PATH = 260"
definition ICON_FOLDER :: u32 where "ICON_FOLDER = 2"
definition ICON_APP :: u32 where "ICON_APP = 3"
definition ICON_FILE :: u32 where "ICON_FILE = 5"

record ent =
  e_name :: "wchar list"
  e_dir :: bool
  e_size :: u32

record expl =
  g_aEnt :: "ent list"
  g_nSel :: int
  g_nTop :: int
  g_szDir :: "wchar list"

text \<open>The entries \<open>FindFirstFileW\<close> and its successors give for a pattern; \<open>None\<close> when there are none.\<close>

type_synonym findfn = "wchar list \<Rightarrow> ent list option"

definition g_nCount :: "expl \<Rightarrow> int" where "g_nCount st = int (length (g_aEnt st))"

section \<open>Names and paths\<close>

definition CopyN :: "wchar list \<Rightarrow> nat \<Rightarrow> wchar list" where
  "CopyN psz n = take (n - 1) psz"

definition IsRoot :: "wchar list \<Rightarrow> bool" where "IsRoot d \<longleftrightarrow> d = [0x5C]"

definition EndsWithExt3 :: "wchar list \<Rightarrow> wchar \<Rightarrow> wchar \<Rightarrow> wchar \<Rightarrow> bool" where
  "EndsWithExt3 psz a b c =
     (case drop (length psz - 4) psz of
        [p, x, y, z] \<Rightarrow> p = 0x2E \<and> x OR 32 = a \<and> y OR 32 = b \<and> z OR 32 = c
      | _ \<Rightarrow> False)"

definition EndsWithExe :: "wchar list \<Rightarrow> bool" where
  "EndsWithExe psz = EndsWithExt3 psz 0x65 0x78 0x65"

definition IsAudio :: "wchar list \<Rightarrow> bool" where
  "IsAudio psz = (EndsWithExt3 psz 0x6D 0x70 0x33 \<or> EndsWithExt3 psz 0x77 0x61 0x76)"

definition fits_path :: "nat \<Rightarrow> wchar list \<Rightarrow> wchar list option" where
  "fits_path n s = (if length s < n then Some s else None)"

definition JoinPath :: "wchar list \<Rightarrow> wchar list \<Rightarrow> wchar list option" where
  "JoinPath pszDir pszName =
     fits_path MAX_PATH (if length pszDir = 1 then 0x5C # pszName else pszDir @ 0x5C # pszName)"

definition FileIcon :: "ent \<Rightarrow> u32" where
  "FileIcon e = (if e_dir e then ICON_FOLDER else if EndsWithExe (e_name e) then ICON_APP else ICON_FILE)"

section \<open>The listing\<close>

definition dots :: "wchar list \<Rightarrow> bool" where
  "dots nm \<longleftrightarrow> nm = [0x2E] \<or> nm = [0x2E, 0x2E]"

primrec add_ents :: "ent list \<Rightarrow> ent list \<Rightarrow> ent list" where
  "add_ents [] es = es"
| "add_ents (f # fs) es =
     (if length es \<ge> MAXENT then es
      else if dots (e_name f) then add_ents fs es
      else add_ents fs (es @ [f\<lparr>e_name := CopyN (e_name f) 128\<rparr>]))"

definition ScanDir :: "findfn \<Rightarrow> expl \<Rightarrow> expl option" where
  "ScanDir F st = do {
     let es = (if \<not> IsRoot (g_szDir st) then [\<lparr>e_name = [0x2E, 0x2E], e_dir = True, e_size = 0\<rparr>] else []);
     aszPat \<leftarrow> (if IsRoot (g_szDir st) then Some (0x5C # ws ''*.*'')
                else fits_path MAX_PATH (g_szDir st @ 0x5C # ws ''*.*''));
     Some (st\<lparr>g_aEnt := (case F aszPat of None \<Rightarrow> es | Some fs \<Rightarrow> add_ents fs es), g_nSel := 0, g_nTop := 0\<rparr>) }"

text \<open>The position of the last backslash, or -1.\<close>

definition last_bs :: "wchar list \<Rightarrow> int" where
  "last_bs s = int (length (dropWhile (\<lambda>c. c \<noteq> 0x5C) (rev s))) - 1"

definition GoParent :: "findfn \<Rightarrow> expl \<Rightarrow> expl option" where
  "GoParent F st =
     (if IsRoot (g_szDir st) then Some st
      else let nLast = last_bs (g_szDir st)
           in ScanDir F (if nLast \<le> 0 then st\<lparr>g_szDir := [0x5C]\<rparr> else st\<lparr>g_szDir := take (nat nLast) (g_szDir st)\<rparr>))"

text \<open>Launching goes through the shared section.\<close>

definition EnterSel :: "findfn \<Rightarrow> expl \<times> dcshared \<Rightarrow> (expl \<times> dcshared) option" where
  "EnterSel F s = (case s of (st, sh) \<Rightarrow>
     if g_nSel st < 0 \<or> g_nSel st \<ge> g_nCount st then Some (st, sh)
     else do {
       e \<leftarrow> at (g_aEnt st) (g_nSel st);
       if e_name e = [0x2E, 0x2E] then do { st \<leftarrow> GoParent F st; Some (st, sh) }
       else if e_dir e then do {
         full \<leftarrow> JoinPath (g_szDir st) (e_name e);
         st \<leftarrow> ScanDir F (st\<lparr>g_szDir := full\<rparr>);
         Some (st, sh) }
       else if EndsWithExe (e_name e) then do {
         full \<leftarrow> JoinPath (g_szDir st) (e_name e);
         sh \<leftarrow> DCWinExec full sh;
         Some (st, sh) }
       else if IsAudio (e_name e) then do {
         full \<leftarrow> JoinPath (g_szDir st) (e_name e);
         cmd \<leftarrow> fits_path (MAX_PATH + 16) (ws ''dcwplay.exe '' @ full);
         sh \<leftarrow> DCWinExec cmd sh;
         Some (st, sh) }
       else Some (st, sh) })"

definition HandleKey :: "findfn \<Rightarrow> u32 \<Rightarrow> expl \<times> dcshared \<Rightarrow> (expl \<times> dcshared) option" where
  "HandleKey F dwKey s = do {
     let (st, sh) = s;
     let st = (if dwKey = VK_UP \<and> g_nSel st > 0 then st\<lparr>g_nSel := g_nSel st - 1\<rparr> else st);
     let st = (if dwKey = VK_DOWN \<and> g_nSel st < g_nCount st - 1 then st\<lparr>g_nSel := g_nSel st + 1\<rparr> else st);
     (st, sh) \<leftarrow> (if dwKey = VK_RETURN then EnterSel F (st, sh) else Some (st, sh));
     if dwKey = VK_BACK then do { st \<leftarrow> GoParent F st; Some (st, sh) } else Some (st, sh) }"

section \<open>The picture\<close>

text \<open>The rows that fit; below 18 the quotient is rounded to 0 or less, and 1 is taken.\<close>

definition nvis :: "int \<Rightarrow> int" where
  "nvis nCh = (let n = (nCh - 18) div EROW in if n < 1 then 1 else n)"

definition draw_row :: "int \<Rightarrow> int \<Rightarrow> bool \<Rightarrow> ent \<Rightarrow> dcwin \<Rightarrow> dcwin" where
  "draw_row nCw y bSel e c =
     (let bg = (if bSel then RGB 0 0 128 else RGB 255 255 255);
          fg = (if bSel then RGB 255 255 255 else RGB 0 0 0);
          c = (if bSel then DCWinFill 2 y (nCw - 4) EROW (RGB 0 0 128) c else c);
          c = DCWinText 24 (y + 3) fg bg (e_name e) (DCWinIcon 4 (y + 2) (FileIcon e) c)
      in if \<not> e_dir e then DCWinText (nCw - 70) (y + 3) fg bg (dec (unat (e_size e))) c else c)"

primrec draw_rows :: "nat \<Rightarrow> int \<Rightarrow> int \<Rightarrow> expl \<Rightarrow> dcwin \<Rightarrow> dcwin option" where
  "draw_rows 0 i nCw st c = Some c"
| "draw_rows (Suc n) i nCw st c =
     (if i < g_nCount st then do {
        e \<leftarrow> at (g_aEnt st) i;
        draw_rows n (i + 1) nCw st (draw_row nCw (18 + (i - g_nTop st) * EROW) (i = g_nSel st) e c) }
      else Some c)"

definition scroll :: "int \<Rightarrow> expl \<Rightarrow> expl" where
  "scroll nVis st =
     (let st = (if g_nSel st < g_nTop st then st\<lparr>g_nTop := g_nSel st\<rparr> else st)
      in if g_nSel st \<ge> g_nTop st + nVis then st\<lparr>g_nTop := g_nSel st - nVis + 1\<rparr> else st)"

definition Draw :: "dcshared \<Rightarrow> expl \<times> dcwin \<Rightarrow> (expl \<times> dcwin \<times> dcshared) option" where
  "Draw sh s = do {
     let (st, c) = s;
     let ((r, nCw, nCh), c) = DCWinClientSize sh c;
     let c = DCWinFillBg sh (RGB 255 255 255) (DCWinBeginFrame c);
     let c = DCWinFill 0 0 nCw 16 (RGB 192 192 192) c;
     let c = DCWinText 4 1 (RGB 0 0 0) (RGB 192 192 192) (g_szDir st) c;
     let st = scroll (nvis nCh) st;
     c \<leftarrow> draw_rows (nat (nvis nCh)) (g_nTop st) nCw st c;
     Some (st, c, DCWinEndFrame c sh) }"

section \<open>The turn\<close>

definition hover :: "dcshared \<Rightarrow> expl \<times> dcwin \<Rightarrow> bool \<times> expl \<times> dcwin" where
  "hover sh s = (case s of (st, c) \<Rightarrow>
     case DCWinGetPointer sh c of
       None \<Rightarrow> (False, st, c)
     | Some (px, py, btn) \<Rightarrow>
         if py \<ge> 18
         then let ((r, nCw, nCh), c) = DCWinClientSize sh c;
                  row = g_nTop st + (py - 18) div EROW
              in if row \<ge> 0 \<and> row < g_nCount st \<and> row < g_nTop st + nvis nCh \<and> row \<noteq> g_nSel st
                 then (True, st\<lparr>g_nSel := row\<rparr>, c) else (False, st, c)
         else (False, st, c))"

primrec exp_keys :: "findfn \<Rightarrow> u32 list \<Rightarrow> expl \<times> dcshared \<Rightarrow> (expl \<times> dcshared) option" where
  "exp_keys F [] s = Some s"
| "exp_keys F (k # ks) s = HandleKey F k s \<bind> exp_keys F ks"

text \<open>One pass of the loop on the keys that are queued; the flag says that the window is to close.\<close>

definition exp_turn ::
  "findfn \<Rightarrow> u32 list \<Rightarrow> expl \<times> dcwin \<times> dcshared \<Rightarrow> (bool \<times> expl \<times> dcwin \<times> dcshared) option" where
  "exp_turn F keys s = do {
     let (st, c, sh) = s;
     let (b1, st, c) = hover sh (st, c);
     (st, sh) \<leftarrow> exp_keys F keys (st, sh);
     let (b2, c) = DCWinResized sh c;
     (st, c, sh) \<leftarrow> (if b1 \<or> keys \<noteq> [] \<or> b2 then Draw sh (st, c) else Some (st, c, sh));
     Some (if DCWinShouldClose sh c then (True, st, c, DCWinClose c sh) else (False, st, c, sh)) }"

definition exp_main :: "findfn \<Rightarrow> wchar list \<Rightarrow> dcwin \<Rightarrow> dcshared \<Rightarrow> (expl \<times> dcwin \<times> dcshared) option" where
  "exp_main F lpCmd c sh = do {
     let dir = (if lpCmd \<noteq> [] then CopyN lpCmd MAX_PATH else [0x5C]);
     st \<leftarrow> ScanDir F \<lparr>g_aEnt = [], g_nSel = 0, g_nTop = 0, g_szDir = dir\<rparr>;
     Draw sh (st, c) }"

section \<open>The selection\<close>

definition exp_ok :: "expl \<Rightarrow> bool" where
  "exp_ok st \<longleftrightarrow> length (g_aEnt st) \<le> 256 \<and> 0 \<le> g_nSel st \<and> (g_nSel st < g_nCount st \<or> g_nSel st = 0) \<and> 0 \<le> g_nTop st"

lemma add_ents_length: "length es \<le> 256 \<Longrightarrow> length (add_ents fs es) \<le> 256"
  by (induction fs arbitrary: es) (auto simp: MAXENT_def)

lemma ScanDir_ok: "ScanDir F st = Some st' \<Longrightarrow> exp_ok st'"
  by (auto simp: ScanDir_def exp_ok_def bind_eq_Some_conv add_ents_length Let_def split: option.splits if_splits)

lemma GoParent_ok: "GoParent F st = Some st' \<Longrightarrow> exp_ok st \<Longrightarrow> exp_ok st'"
  by (auto simp: GoParent_def Let_def split: if_splits intro: ScanDir_ok)

lemma EnterSel_ok: "EnterSel F (st, sh) = Some (st', sh') \<Longrightarrow> exp_ok st \<Longrightarrow> exp_ok st'"
  by (auto simp: EnterSel_def bind_eq_Some_conv split: if_splits intro: ScanDir_ok GoParent_ok)

lemma ExpKey_ok: "HandleKey F k (st, sh) = Some (st', sh') \<Longrightarrow> exp_ok st \<Longrightarrow> exp_ok st'"
proof -
  assume r: "HandleKey F k (st, sh) = Some (st', sh')" and a: "exp_ok st"
  define s1 where "s1 = (if k = VK_UP \<and> g_nSel st > 0 then st\<lparr>g_nSel := g_nSel st - 1\<rparr> else st)"
  define s2 where "s2 = (if k = VK_DOWN \<and> g_nSel s1 < g_nCount s1 - 1 then s1\<lparr>g_nSel := g_nSel s1 + 1\<rparr> else s1)"
  have 1: "exp_ok s1" using a by (auto simp: s1_def exp_ok_def g_nCount_def)
  have 2: "exp_ok s2" using 1 by (auto simp: s2_def exp_ok_def g_nCount_def)
  obtain s3 sh3 where 3: "(if k = VK_RETURN then EnterSel F (s2, sh) else Some (s2, sh)) = Some (s3, sh3)"
    and 4: "(if k = VK_BACK then do { st \<leftarrow> GoParent F s3; Some (st, sh3) } else Some (s3, sh3)) = Some (st', sh')"
    using r unfolding HandleKey_def Let_def prod.case s1_def [symmetric] s2_def [symmetric]
    by (auto simp: bind_eq_Some_conv)
  have "exp_ok s3" using 2 3 by (auto split: if_splits intro: EnterSel_ok)
  then show ?thesis using 4 by (auto simp: bind_eq_Some_conv split: if_splits intro: GoParent_ok)
qed

text \<open>The picture reads inside the listing.\<close>

lemma draw_rows_ok: "0 \<le> i \<Longrightarrow> \<exists>c'. draw_rows n i nCw st c = Some c'"
  by (induction n arbitrary: i c) (auto simp: g_nCount_def at_def)

lemma nvis_pos: "1 \<le> nvis h"
  by (simp add: nvis_def Let_def)

lemma ExpDraw_ok: "exp_ok st \<Longrightarrow> \<exists>st' c' sh'. Draw sh (st, c) = Some (st', c', sh') \<and> exp_ok st' \<and>
    g_nTop st' \<le> g_nSel st'"
proof -
  assume a: "exp_ok st"
  obtain r w h c1 where c1: "DCWinClientSize sh c = ((r, w, h), c1)" by (metis prod.exhaust)
  have s: "exp_ok (scroll (nvis h) st)" "g_nTop (scroll (nvis h) st) \<le> g_nSel (scroll (nvis h) st)"
    using a nvis_pos [of h] by (auto simp: scroll_def exp_ok_def Let_def g_nCount_def)
  then have "0 \<le> g_nTop (scroll (nvis h) st)" by (simp add: exp_ok_def)
  from draw_rows_ok [OF this, of "nat (nvis h)" w "scroll (nvis h) st"
      "DCWinText 4 1 (RGB 0 0 0) (RGB 192 192 192) (g_szDir st)
        (DCWinFill 0 0 w 16 (RGB 192 192 192) (DCWinFillBg sh (RGB 255 255 255) (DCWinBeginFrame c1)))"]
  obtain c2 where "draw_rows (nat (nvis h)) (g_nTop (scroll (nvis h) st)) w (scroll (nvis h) st)
      (DCWinText 4 1 (RGB 0 0 0) (RGB 192 192 192) (g_szDir st)
        (DCWinFill 0 0 w 16 (RGB 192 192 192) (DCWinFillBg sh (RGB 255 255 255) (DCWinBeginFrame c1)))) = Some c2" ..
  with s show ?thesis by (simp add: Draw_def c1)
qed

lemma exp_hover_ok: "exp_ok st \<Longrightarrow> exp_ok (fst (snd (hover sh (st, c))))"
  by (auto simp: hover_def exp_ok_def g_nCount_def DCWinClientSize_def Let_def split: option.splits)

lemma exp_keys_ok: "exp_keys F ks (st, sh) = Some (st', sh') \<Longrightarrow> exp_ok st \<Longrightarrow> exp_ok st'"
  by (induction ks arbitrary: st sh) (auto simp: bind_eq_Some_conv intro: ExpKey_ok)

lemma exp_turn_ok: "exp_turn F ks (st, c, sh) = Some (r, st', c', sh') \<Longrightarrow> exp_ok st \<Longrightarrow> exp_ok st'"
proof -
  assume t: "exp_turn F ks (st, c, sh) = Some (r, st', c', sh')" and a: "exp_ok st"
  obtain b1 st1 c1 where 1: "hover sh (st, c) = (b1, st1, c1)" by (metis prod.exhaust)
  obtain st2 sh2 where 2: "exp_keys F ks (st1, sh) = Some (st2, sh2)" using t by (auto simp: exp_turn_def 1 bind_eq_Some_conv)
  have "exp_ok st2" using exp_keys_ok [OF 2] exp_hover_ok [OF a, of sh c] 1 by simp
  obtain b2 c2 where 3: "DCWinResized sh2 c1 = (b2, c2)" by fastforce
  obtain st3 c3 sh3 where 4: "(if b1 \<or> ks \<noteq> [] \<or> b2 then Draw sh2 (st2, c2) else Some (st2, c2, sh2)) = Some (st3, c3, sh3)"
    and e: "st' = st3" using t by (auto simp: exp_turn_def 1 2 3 bind_eq_Some_conv split: if_splits)
  show ?thesis using 4 \<open>exp_ok st2\<close> ExpDraw_ok [of st2 sh2 c2] unfolding e by (auto split: if_splits)
qed

section \<open>Into a directory and back\<close>

lemma ScanDir_Some: "length (g_szDir st) \<le> 255 \<Longrightarrow> \<exists>st'. ScanDir F st = Some st' \<and> g_szDir st' = g_szDir st"
  by (cases "IsRoot (g_szDir st)") (simp_all add: ScanDir_def fits_path_def MAX_PATH_def ws_def Let_def)

lemma IsRoot_length: "IsRoot p \<Longrightarrow> length p = 1"
  by (simp add: IsRoot_def)

lemma last_bs_join: "0x5C \<notin> set n \<Longrightarrow> last_bs (d @ 0x5C # n) = int (length d)"
proof -
  assume n: "0x5C \<notin> set n"
  have "dropWhile (\<lambda>c. c \<noteq> 0x5C) (rev n @ 0x5C # rev d) = 0x5C # rev d"
    using n by (subst dropWhile_append2) auto
  then show ?thesis by (simp add: last_bs_def)
qed

text \<open>
  C28: Enter on a directory and then Backspace come back: the path is the one before, and the
  listing is that of a fresh scan of it, as long as the paths fit their arrays.
\<close>

theorem Explorer_enter_back:
  assumes sel: "0 \<le> g_nSel st" "g_nSel st < g_nCount st" "e = g_aEnt st ! nat (g_nSel st)"
    and e: "e_dir e" "e_name e \<noteq> [0x2E, 0x2E]" "e_name e \<noteq> []" "0x5C \<notin> set (e_name e)"
    and d: "IsRoot (g_szDir st) \<or> 2 \<le> length (g_szDir st)" "length (g_szDir st) + length (e_name e) \<le> 254"
  shows "\<exists>st1 st2. HandleKey F VK_RETURN (st, sh) = Some (st1, sh) \<and> JoinPath (g_szDir st) (e_name e) = Some (g_szDir st1) \<and>
    HandleKey F VK_BACK (st1, sh) = Some (st2, sh) \<and> ScanDir F st = Some st2"
proof -
  let ?n = "e_name e" and ?d = "g_szDir st"
  define p where "p = (if length ?d = 1 then 0x5C # ?n else ?d @ 0x5C # ?n)"
  have k: "VK_RETURN \<noteq> VK_UP" "VK_RETURN \<noteq> VK_DOWN" "VK_RETURN \<noteq> VK_BACK" "VK_BACK \<noteq> VK_UP" "VK_BACK \<noteq> VK_DOWN" "VK_BACK \<noteq> VK_RETURN"
    by (simp_all add: VK_RETURN_def VK_UP_def VK_DOWN_def VK_BACK_def)
  have j: "JoinPath ?d ?n = Some p" using d(2) by (auto simp: JoinPath_def fits_path_def MAX_PATH_def p_def)
  have "2 \<le> length p" "length p \<le> 255" using e(3) d by (auto simp: p_def Suc_le_eq dest: IsRoot_length)
  then have p: "\<not> IsRoot p" "length p \<le> 255" using IsRoot_length [of p] by auto
  obtain st1 where s1: "ScanDir F (st\<lparr>g_szDir := p\<rparr>) = Some st1" "g_szDir st1 = p"
    using ScanDir_Some [of "st\<lparr>g_szDir := p\<rparr>" F] p by auto
  have enter: "HandleKey F VK_RETURN (st, sh) = Some (st1, sh)"
    using sel e k j s1 by (simp add: HandleKey_def EnterSel_def g_nCount_def)
  have same: "ScanDir F (t\<lparr>g_szDir := ?d\<rparr>) = ScanDir F st" for t
    by (cases t, cases st) (simp add: ScanDir_def Let_def)
  have "GoParent F st1 = ScanDir F (st1\<lparr>g_szDir := ?d\<rparr>)"
  proof (cases "length ?d = 1")
    case True
    then have r: "?d = [0x5C]" using d(1) by (auto simp: IsRoot_def)
    have "last_bs p = 0" using last_bs_join [OF e(4), of "[]"] True by (simp add: p_def)
    then show ?thesis using p r s1(2) by (simp add: GoParent_def)
  next
    case False
    then have "2 \<le> length ?d" using d(1) by (auto simp: IsRoot_def)
    moreover have "last_bs p = int (length ?d)" using last_bs_join [OF e(4), of ?d] False by (simp add: p_def)
    ultimately show ?thesis using p s1(2) False by (auto simp: GoParent_def p_def)
  qed
  moreover obtain st2 where "ScanDir F st = Some st2" using ScanDir_Some [of st F] d(2) by auto
  ultimately have "HandleKey F VK_BACK (st1, sh) = Some (st2, sh)" using k same by (simp add: HandleKey_def)
  with enter j s1(2) \<open>ScanDir F st = Some st2\<close> show ?thesis by auto
qed

theorem Explorer_enter_back_witness:
  "\<exists>st st1 st2. HandleKey (\<lambda>_. None) VK_RETURN (st, InitShared) = Some (st1, InitShared) \<and>
    JoinPath (g_szDir st) (ws ''WINDOWS'') = Some (g_szDir st1) \<and>
    HandleKey (\<lambda>_. None) VK_BACK (st1, InitShared) = Some (st2, InitShared) \<and> ScanDir (\<lambda>_. None) st = Some st2"
proof -
  let ?e = "\<lparr>e_name = ws ''WINDOWS'', e_dir = True, e_size = 0\<rparr>"
  let ?st = "\<lparr>g_aEnt = [?e], g_nSel = 0, g_nTop = 0, g_szDir = [0x5C]\<rparr>"
  have "\<exists>st1 st2. HandleKey (\<lambda>_. None) VK_RETURN (?st, InitShared) = Some (st1, InitShared) \<and>
      JoinPath (g_szDir ?st) (e_name ?e) = Some (g_szDir st1) \<and>
      HandleKey (\<lambda>_. None) VK_BACK (st1, InitShared) = Some (st2, InitShared) \<and> ScanDir (\<lambda>_. None) ?st = Some st2"
    by (rule Explorer_enter_back) (simp_all add: g_nCount_def IsRoot_def ws_def)
  then show ?thesis unfolding ent.simps by blast
qed

section \<open>Where it breaks\<close>

text \<open>A directory whose path, with the pattern, does not fit the array.\<close>

lemma EnterSel_deep:
  assumes "0 \<le> g_nSel st" "g_nSel st < g_nCount st" "e = g_aEnt st ! nat (g_nSel st)" "e_dir e" "e_name e \<noteq> [0x2E, 0x2E]"
    and "2 \<le> length (g_szDir st)" "254 < length (g_szDir st) + length (e_name e)"
  shows "EnterSel F (st, sh) = None"
proof (cases "JoinPath (g_szDir st) (e_name e)")
  case (Some p)
  then have l: "length p = length (g_szDir st) + 1 + length (e_name e)"
    using assms(6) by (auto simp: JoinPath_def fits_path_def split: if_splits)
  then have "\<not> IsRoot p" using assms(6) IsRoot_length [of p] by auto
  with l have "ScanDir F (st\<lparr>g_szDir := p\<rparr>) = None" using assms(7) by (simp add: ScanDir_def fits_path_def MAX_PATH_def ws_def)
  with Some assms show ?thesis by (simp add: EnterSel_def g_nCount_def)
qed (use assms in \<open>simp add: EnterSel_def g_nCount_def\<close>)

text \<open>The path of an audio file goes to the player through the 260 characters of the section.\<close>

lemma EnterSel_audio:
  assumes "0 \<le> g_nSel st" "g_nSel st < g_nCount st" "e = g_aEnt st ! nat (g_nSel st)" "\<not> e_dir e"
    and "IsAudio (e_name e)" "\<not> EndsWithExe (e_name e)" "e_name e \<noteq> [0x2E, 0x2E]"
    and "JoinPath (g_szDir st) (e_name e) = Some p" "0 \<notin> set p" "248 \<le> length p" "length (sh_execPath sh) = 260"
  shows "EnterSel F (st, sh) = None"
proof -
  have "takeWhile (\<lambda>c. c \<noteq> 0) (ws ''dcwplay.exe '' @ p) = ws ''dcwplay.exe '' @ p"
    using assms(9) by (auto simp: takeWhile_eq_all_conv ws_def)
  then have "DCWinExec (ws ''dcwplay.exe '' @ p) sh = None"
    using assms(10,11) by (simp only: DCWinExec_def lstrcpyW_def Let_def) (simp add: ws_def)
  moreover have "fits_path n x = None \<or> fits_path n x = Some x" for n x by (simp add: fits_path_def)
  from this [of "MAX_PATH + 16" "ws ''dcwplay.exe '' @ p"]
  have "fits_path (MAX_PATH + 16) (ws ''dcwplay.exe '' @ p) = None
    \<or> DCWinExec (the (fits_path (MAX_PATH + 16) (ws ''dcwplay.exe '' @ p))) sh = None" using calculation by auto
  ultimately show ?thesis using assms by (simp add: EnterSel_def g_nCount_def bind_eq_None_conv)
qed

text \<open>Asking for the size takes the news of a change with it.\<close>

lemma hover_hides_resize:
  "DCWinGetPointer sh c = Some (px, py, btn) \<Longrightarrow> 18 \<le> py \<Longrightarrow> \<not> fst (DCWinResized sh (snd (snd (hover sh (st, c)))))"
  by (auto simp: hover_def DCWinResized_def DCWinClientSize_def Let_def)

end
