(* ===== verification/Spec2Isabelle.thy ===== *)
theory Spec2Isabelle
  imports Ras NetifPath W5500 Sdblk Bba Seqlock Frame Calc Memtest Netdiag Sdcard Boot Taskman Explorer
begin

text \<open>
  Windows CE for the Dreamcast, community edition: the code of its own.

  The repository rebuilds a Windows CE 2.12 image for the Sega Dreamcast around new drivers
  and a new shell. Its own C code has three parts. The network part (\<open>src/net/netif\<close>)
  replaces the modem driver: it brings up an Ethernet adapter, runs DHCP, answers ARP,
  rewrites packets for dead game servers, flattens DNS replies the old resolver cannot
  parse, and writes the resolver's settings. The driver part (\<open>src/drivers\<close>) bit-bangs SPI
  over the serial ports and reads SD cards over it. The shell part (\<open>src/shell\<close>) is a small
  desktop: a compositor and its client applications share a section of memory, input comes
  from DirectInput, settings go to a memory card.

  \<^bold>\<open>The theories.\<close> \<open>Prelude\<close> has byte buffers with bounds-checked reads and writes (\<open>None\<close> is
  an access outside), little- and big-endian words, C strings, and the collections the
  proofs share (\<open>mem_some\<close>, \<open>ok_intro\<close>, \<open>ok_len\<close>). \<open>Fifo\<close> has arrays indexed by \<open>int\<close> and the
  locale of a bounded queue.

  Network: \<open>Checksum\<close> (\<open>Csum16\<close>, \<open>Ipck\<close>, the three checksum fix-ups), \<open>Arp\<close>, \<open>Dns\<close>
  (\<open>DnsFlatten\<close>), \<open>Registry\<close> (the registry calls as a locale, and a model of it), \<open>Flash\<close>
  (\<open>flashrom.c\<close>), \<open>NetDns\<close> (the resolver's servers, from \<open>ReadRasDns\<close> to
  \<open>WriteDnsServers\<close>), \<open>Ras\<close> (\<open>ras.c\<close>), \<open>Netif\<close> (the state of \<open>netif.c\<close>, DHCP, \<open>RxFrame\<close>,
  \<open>OurTransmit\<close>, the worker, \<open>InterfaceInitialize\<close>), and \<open>NetifPath\<close>, the theorems that
  follow a packet through several of these.

  Drivers: \<open>Spi\<close> (the interface of a byte-exchange bus), \<open>Dcspi\<close> (\<open>dcspi.c\<close>, which provides
  it bit by bit), \<open>W5500\<close> (\<open>w5500.c\<close>), \<open>Sdblk\<close> (\<open>sdblk.c\<close> and \<open>diskio.c\<close>), \<open>Sdcard\<close>
  (\<open>sdcard.c\<close>, the file-system driver over FatFs), \<open>Bba\<close> (\<open>bba_hw.c\<close>).

  Shell: \<open>Dcinput\<close> (\<open>dcinput.c\<close>), \<open>Dcwin\<close> (the shared section of \<open>dcwin.h\<close> and the client
  library \<open>dcwlib.c\<close>), \<open>Seqlock\<close> (frames published by a client while the shell reads them),
  \<open>Vmustore\<close> (\<open>vmustore.c\<close>), and \<open>dcshell.c\<close> in six layers: \<open>Desk\<close> (the desktop's
  shortcuts), \<open>Display\<close> (wallpaper and the Display Properties dialog), \<open>Winman\<close> (hit tests,
  focus, maximise, drag, the pointer the windows see), \<open>Shell\<close> (\<open>OnKey\<close>, \<open>HandleClick\<close>, the
  menus, launching, the blue screen, and the invariant \<open>shell_ok\<close> with its preservation by
  every operation), \<open>Dispatch\<close> (theorems on where keys and clicks go) and \<open>Frame\<close> (one turn
  of the loop of \<open>WinMain\<close>, and what every sequence of turns keeps). Each layer's record
  extends the one below, as the file's statics do.

  \<open>Calc\<close> (the calculator, \<open>dcwcalc.c\<close>), \<open>Memtest\<close> (the memory test, \<open>dcwmem.c\<close>), \<open>Taskman\<close> (the task
  manager, \<open>dcwtask.c\<close>), \<open>Explorer\<close> (the file explorer, \<open>dcwexp.c\<close>), and \<open>Dcwnet\<close> with \<open>Netdiag\<close> (the
  network client \<open>dcwnet.c\<close>: its download, then dialling, the test, the screen and the loop) are
  client applications. \<open>Boot\<close> is the boot loader (\<open>dcwboot.c\<close>, \<open>trampoline.src\<close>), which runs before
  the shell: its menu, and the copy of a second system image over the running one, on physical
  memory.

  \<^bold>\<open>How the model reads.\<close> A file's statics are a record; an operation is a function from the
  state to a result and the new state, with the names of the source. C integers keep their
  width as words where the code depends on it, and are integers where the values stay far
  from the limits. A buffer is a list of bytes with its size, and every access is checked.
  Loops are recursion on the count the code has; loops that wait for hardware carry the
  retry count of the source as fuel, and running out is the time-out branch of the source.
  The loop that empties the key queue has fuel 32; the queue has 32 places and
  \<open>key_loop_ends\<close> shows that it is empty when the loop ends. The shell's effects (programs
  started, wallpaper set) are a log in its state, and the clock and the exit codes of
  programs are functions of that log.
  Hardware is a record of functions (what a register read answers) or a machine with its
  own state; whatever a theorem needs of it is a hypothesis, and a concrete machine that
  satisfies the hypothesis is in the theorem's witness.

  \<^bold>\<open>What is shown.\<close> Memory safety of each routine that handles data from outside (packets,
  flash, memory card, devices), or exactly when it fails; the functional result of the
  paths that matter (checksums verify, a translated packet is translated back, a frame in
  the chip's ring is the frame delivered, a sector is read from its address); the contracts
  between components, as locales (\<open>Registry\<close>, \<open>Spi\<close>, \<open>Fifo\<close>, \<open>Vmustore\<close>) interpreted on the
  code's model; and the discipline of shared resources: critical sections, interrupt masks,
  chip selects and reference counts are released on every path. The seqlock theorem is over
  all interleavings of the client's stores and the shell's loads.

  \<^bold>\<open>Not modelled.\<close> Painting (\<open>dcgfx.c\<close> and the drawing half of \<open>dcshell.c\<close>) only calls the
  graphics library. FatFs, lwIP, minimp3 and the SDK are third-party code. The WDM shell
  \<open>bba.c\<close> translates operating-system calls. The clock, the log
  viewer and the player are clients that are not modelled, nor is the C++ host of the browser.
\<close>

end
